(* ===== verification/Go_Prelude.thy ===== *)
theory Go_Prelude
  imports Main "HOL-Library.Word"
begin

text \<open>
  The vocabulary the component theories share. It fixes how the Go constructs that occur
  throughout the client are read in HOL:
  \<^item> the fixed-width integers \<open>uint8\<close>, \<open>uint16\<close>, \<open>uint32\<close>, \<open>uint64\<close> are machine words, so that
    their arithmetic wraps as in Go; lengths and slice indices are natural numbers;
  \<^item> a run-time panic, a \<open>jww.FATAL.Panicf\<close> and a loop that never ends are values of
    \<open>fault\<close>, and a computation that may fail returns \<open>fault + 'a\<close> (\<open>Inl\<close> for the fault);
  \<^item> indexing and slicing are checked, as in Go;
  \<^item> the parts of the standard library the sources rely on: \<open>encoding/binary\<close> (little and
    big endian), \<open>strconv.Itoa\<close> and \<open>strconv.Atoi\<close>, \<open>bytes.Buffer.Next\<close>, and the values that
    \<open>encoding/json\<close> writes.
  The last section holds the generic lemmas on lists, sums and words that the component
  proofs use.
\<close>

unbundle bit_operations_syntax

section \<open>Machine integers and faults\<close>

type_synonym byte = "8 word"
type_synonym u16 = "16 word"
type_synonym u32 = "32 word"
type_synonym u64 = "64 word"
type_synonym bytes = "byte list"

datatype fault =
    IndexOutOfRange
  | SliceOutOfRange
  | DivideByZero
  | NilDereference
  | FatalPanic
  | TypeAssertionPanic
  | Diverges

fun res_bind :: "'e + 'a \<Rightarrow> ('a \<Rightarrow> 'e + 'b) \<Rightarrow> 'e + 'b" where
  "res_bind (Inl e) f = Inl e"
| "res_bind (Inr x) f = f x"

definition index :: "'a list \<Rightarrow> nat \<Rightarrow> fault + 'a" where
  "index xs i = (if i < length xs then Inr (xs ! i) else Inl IndexOutOfRange)"

definition slice :: "'a list \<Rightarrow> nat \<Rightarrow> nat \<Rightarrow> fault + 'a list" where
  "slice xs lo hi =
     (if lo \<le> hi \<and> hi \<le> length xs then Inr (take (hi - lo) (drop lo xs))
      else Inl SliceOutOfRange)"

text \<open>Slicing with bounds computed as signed integers: a negative bound panics as well.\<close>

definition islice :: "'a list \<Rightarrow> int \<Rightarrow> int \<Rightarrow> fault + 'a list" where
  "islice xs lo hi =
     (if 0 \<le> lo \<and> 0 \<le> hi then slice xs (nat lo) (nat hi) else Inl SliceOutOfRange)"

text \<open>\<open>copy(dst[i:], src)\<close> for a \<open>dst\<close> at least as long as the offset: the bytes of \<open>src\<close>
  that fit replace those of \<open>dst\<close> from position \<open>i\<close> on.\<close>

definition copy_at :: "'a list \<Rightarrow> nat \<Rightarrow> 'a list \<Rightarrow> 'a list" where
  "copy_at dst i src =
     take i dst @ take (length dst - i) src @ drop (i + length src) dst"

section \<open>Byte order\<close>

fun nat_le :: "nat \<Rightarrow> nat \<Rightarrow> bytes" where
  "nat_le 0 x = []"
| "nat_le (Suc n) x = word_of_nat (x mod 256) # nat_le n (x div 256)"

fun le_nat :: "bytes \<Rightarrow> nat" where
  "le_nat [] = 0"
| "le_nat (b # bs) = unat b + 256 * le_nat bs"

definition put_le16 :: "u16 \<Rightarrow> bytes" where "put_le16 w = nat_le 2 (unat w)"
definition put_le32 :: "u32 \<Rightarrow> bytes" where "put_le32 w = nat_le 4 (unat w)"
definition put_le64 :: "u64 \<Rightarrow> bytes" where "put_le64 w = nat_le 8 (unat w)"
definition put_be16 :: "u16 \<Rightarrow> bytes" where "put_be16 w = rev (nat_le 2 (unat w))"
definition put_be32 :: "u32 \<Rightarrow> bytes" where "put_be32 w = rev (nat_le 4 (unat w))"
definition put_be64 :: "u64 \<Rightarrow> bytes" where "put_be64 w = rev (nat_le 8 (unat w))"

definition get_le :: "nat \<Rightarrow> bytes \<Rightarrow> fault + 'a::len word" where
  "get_le n bs =
     (if length bs < n then Inl IndexOutOfRange
      else Inr (word_of_nat (le_nat (take n bs))))"

definition get_be :: "nat \<Rightarrow> bytes \<Rightarrow> fault + 'a::len word" where
  "get_be n bs =
     (if length bs < n then Inl IndexOutOfRange
      else Inr (word_of_nat (le_nat (rev (take n bs)))))"

section \<open>Decimal numerals\<close>

definition digit_char :: "nat \<Rightarrow> char" where
  "digit_char d = char_of (48 + d)"

fun nat_dec :: "nat \<Rightarrow> string" where
  "nat_dec n = (if n < 10 then [digit_char n] else nat_dec (n div 10) @ [digit_char (n mod 10)])"

declare nat_dec.simps [simp del]

definition itoa :: "int \<Rightarrow> string" where
  "itoa i = (if i < 0 then CHR ''-'' # nat_dec (nat (- i)) else nat_dec (nat i))"

definition is_digit :: "char \<Rightarrow> bool" where
  "is_digit c = (48 \<le> (of_char c :: nat) \<and> (of_char c :: nat) \<le> 57)"

definition dec_nat :: "string \<Rightarrow> nat" where
  "dec_nat cs = foldl (\<lambda>acc c. 10 * acc + ((of_char c :: nat) - 48)) 0 cs"

text \<open>\<open>strconv.Atoi\<close>: an optional sign and decimal digits, within the range of a 64-bit \<open>int\<close>;
  \<open>None\<close> is its error.\<close>

definition atoi_digits :: "string \<Rightarrow> nat option" where
  "atoi_digits cs = (if cs \<noteq> [] \<and> list_all is_digit cs then Some (dec_nat cs) else None)"

definition in_int64 :: "int \<Rightarrow> bool" where
  "in_int64 i = (- (2 ^ 63) \<le> i \<and> i < 2 ^ 63)"

definition atoi_signed :: "string \<Rightarrow> int option" where
  "atoi_signed cs =
     (case cs of
        [] \<Rightarrow> None
      | c # ds \<Rightarrow>
          (if c = CHR ''-'' then map_option (\<lambda>n. - int n) (atoi_digits ds)
           else if c = CHR ''+'' then map_option int (atoi_digits ds)
           else map_option int (atoi_digits cs)))"

definition atoi :: "string \<Rightarrow> int option" where
  "atoi cs =
     (case atoi_signed cs of
        None \<Rightarrow> None
      | Some i \<Rightarrow> (if in_int64 i then Some i else None))"

section \<open>Base 64\<close>

text \<open>\<open>base64.StdEncoding.EncodeToString\<close>.\<close>

definition b64_alphabet :: string where
  "b64_alphabet = ''ABCDEFGHIJKLMNOPQRSTUVWXYZabcdefghijklmnopqrstuvwxyz0123456789+/''"

definition b64_char :: "nat \<Rightarrow> char" where
  "b64_char n = b64_alphabet ! n"

fun base64 :: "bytes \<Rightarrow> string" where
  "base64 [] = []"
| "base64 [a] = (let n = unat a * 16 in [b64_char (n div 64), b64_char (n mod 64), CHR ''='', CHR ''=''])"
| "base64 [a, b] =
     (let n = (unat a * 256 + unat b) * 4
      in [b64_char (n div 4096), b64_char (n div 64 mod 64), b64_char (n mod 64), CHR ''=''])"
| "base64 (a # b # c # r) =
     (let n = unat a * 65536 + unat b * 256 + unat c
      in [b64_char (n div 262144), b64_char (n div 4096 mod 64), b64_char (n div 64 mod 64),
          b64_char (n mod 64)] @ base64 r)"

section \<open>JSON values\<close>

text \<open>
  \<open>encoding/json\<close> is represented by the value it writes, not by its concrete syntax: a struct is
  the list of its exported fields, a number is an integer (a \<open>float64\<close> is its bit pattern), a \<open>[]byte\<close> (a base 64 string in the
  concrete syntax) is \<open>JBytes\<close>. \<open>stored\<close> is the content of an object's data: raw bytes or a JSON
  document.
\<close>

datatype json =
    JNull
  | JBool bool
  | JNum int
  | JFloat u64
  | JStr string
  | JBytes bytes
  | JArr "json list"
  | JObj "(string \<times> json) list"

datatype stored = Raw bytes | Json json

fun json_field :: "json \<Rightarrow> string \<Rightarrow> json" where
  "json_field (JObj fs) k = (case map_of fs k of None \<Rightarrow> JNull | Some v \<Rightarrow> v)"
| "json_field _ k = JNull"

text \<open>A JSON number read into an unsigned field of the given width: out of range is an error, an
  absent field leaves the zero value.\<close>

definition json_word :: "json \<Rightarrow> ('a::len word) option" where
  "json_word j =
     (case j of
        JNum i \<Rightarrow> (if 0 \<le> i \<and> i < 2 ^ LENGTH('a) then Some (word_of_int i) else None)
      | JNull \<Rightarrow> Some 0
      | _ \<Rightarrow> None)"

definition word_json :: "'a::len word \<Rightarrow> json" where
  "word_json w = JNum (uint w)"

fun json_list :: "(json \<Rightarrow> 'a option) \<Rightarrow> json \<Rightarrow> 'a list option" where
  "json_list f (JArr js) = those (map f js)"
| "json_list f JNull = Some []"
| "json_list f _ = None"

fun json_bytes :: "json \<Rightarrow> bytes option" where
  "json_bytes (JBytes b) = Some b"
| "json_bytes JNull = Some []"
| "json_bytes _ = None"

section \<open>Generic lemmas\<close>

named_theorems go_simps \<open>equations for faults, checked indexing and byte order\<close>

lemma res_bind_Inr_iff:
  "res_bind m f = Inr y \<longleftrightarrow> (\<exists>x. m = Inr x \<and> f x = Inr y)"
  by (cases m) auto

lemma res_bind_Inl_iff:
  "res_bind m f = Inl e \<longleftrightarrow> m = Inl e \<or> (\<exists>x. m = Inr x \<and> f x = Inl e)"
  by (cases m) auto

lemma res_bind_assoc: "res_bind (res_bind r f) g = res_bind r (\<lambda>x. res_bind (f x) g)"
  by (cases r) simp_all

lemma res_bind_cong [fundef_cong]:
  "m = m' \<Longrightarrow> (\<And>x. m' = Inr x \<Longrightarrow> f x = f' x) \<Longrightarrow> res_bind m f = res_bind m' f'"
  by (cases m') auto

lemma index_in_range [simp, go_simps]: "i < length xs \<Longrightarrow> index xs i = Inr (xs ! i)"
  by (simp add: index_def)

lemma index_Inr_iff: "index xs i = Inr x \<longleftrightarrow> i < length xs \<and> xs ! i = x"
  by (auto simp: index_def)

lemma index_Inl_iff: "index xs i = Inl e \<longleftrightarrow> length xs \<le> i \<and> e = IndexOutOfRange"
  by (auto simp: index_def)

lemma length_copy_at [simp]: "i \<le> length dst \<Longrightarrow> length (copy_at dst i src) = length dst"
  by (auto simp: copy_at_def)

lemma length_nat_le [simp]: "length (nat_le n x) = n"
  by (induction n arbitrary: x) auto

lemma le_nat_bound: "le_nat bs < 256 ^ length bs"
proof (induction bs)
  case (Cons b bs)
  have "unat b < 256" using unsigned_less [of b] by simp
  with Cons show ?case by simp
qed simp

lemma le_nat_nat_le: "le_nat (nat_le n x) = x mod 256 ^ n"
proof (induction n arbitrary: x)
  case (Suc n)
  have "unat (word_of_nat (x mod 256) :: byte) = x mod 256"
    by (simp add: unat_of_nat)
  with Suc show ?case by (simp add: mod_mult2_eq)
qed simp

lemma nat_le_le_nat: "nat_le (length bs) (le_nat bs) = bs"
proof (induction bs)
  case (Cons b bs)
  have b: "unat b < 256" using unsigned_less [of b] by simp
  then have "(unat b + 256 * le_nat bs) mod 256 = unat b"
    and "(unat b + 256 * le_nat bs) div 256 = le_nat bs" by auto
  with Cons show ?case by simp
qed simp

lemma length_put [simp]:
  "length (put_le16 a) = 2" "length (put_le32 b) = 4" "length (put_le64 c) = 8"
  "length (put_be16 a) = 2" "length (put_be32 b) = 4" "length (put_be64 c) = 8"
  by (simp_all add: put_le16_def put_le32_def put_le64_def put_be16_def put_be32_def put_be64_def)

lemma unat_mod_width: "2 ^ LENGTH('a) = m \<Longrightarrow> unat (w :: 'a::len word) mod m = unat w"
  by auto

lemma get_le_put [simp, go_simps]:
  "get_le 2 (put_le16 a @ r) = Inr a" "get_le 2 (put_le16 a) = Inr a"
  "get_le 4 (put_le32 b @ r) = Inr b" "get_le 4 (put_le32 b) = Inr b"
  "get_le 8 (put_le64 c @ r) = Inr c" "get_le 8 (put_le64 c) = Inr c"
  by (simp_all add: get_le_def put_le16_def put_le32_def put_le64_def le_nat_nat_le unat_mod_width)

lemma get_be_put [simp, go_simps]:
  "get_be 2 (put_be16 a @ r) = Inr a" "get_be 2 (put_be16 a) = Inr a"
  "get_be 4 (put_be32 b @ r) = Inr b" "get_be 4 (put_be32 b) = Inr b"
  "get_be 8 (put_be64 c @ r) = Inr c" "get_be 8 (put_be64 c) = Inr c"
  by (simp_all add: get_be_def put_be16_def put_be32_def put_be64_def le_nat_nat_le unat_mod_width)

lemma json_word_word_json [simp]: "json_word (word_json w) = Some w"
  using uint_lt2p [of w] by (simp add: json_word_def word_json_def)

lemma those_map_Some: "(\<And>x. x \<in> set xs \<Longrightarrow> f (g x) = Some x) \<Longrightarrow> those (map f (map g xs)) = Some xs"
  by (induction xs) auto

lemma of_char_digit_char [simp]: "d < 10 \<Longrightarrow> (of_char (digit_char d) :: nat) = 48 + d"
  by (simp add: digit_char_def)

lemma is_digit_digit_char [simp]: "d < 10 \<Longrightarrow> is_digit (digit_char d)"
  by (simp add: is_digit_def)

lemma nat_dec_nonempty [simp]: "nat_dec n \<noteq> []"
  by (subst nat_dec.simps) simp

lemma nat_dec_digits: "list_all is_digit (nat_dec n)"
proof (induction n rule: nat_dec.induct)
  case (1 n)
  then show ?case by (cases "n < 10") (simp_all add: nat_dec.simps [of n])
qed

lemma dec_nat_append_digit:
  "d < 10 \<Longrightarrow> dec_nat (cs @ [digit_char d]) = 10 * dec_nat cs + d"
  by (simp add: dec_nat_def)

lemma dec_nat_nat_dec [simp]: "dec_nat (nat_dec n) = n"
proof (induction n rule: nat_dec.induct)
  case (1 n)
  show ?case
  proof (cases "n < 10")
    case True
    then show ?thesis by (simp add: nat_dec.simps [of n] dec_nat_def)
  next
    case False
    with 1 show ?thesis by (simp add: nat_dec.simps [of n] dec_nat_append_digit)
  qed
qed

lemma inj_nat_dec: "nat_dec m = nat_dec n \<longleftrightarrow> m = n"
  by (metis dec_nat_nat_dec)

lemma not_digit [simp]:
  "\<not> is_digit (CHR ''_'')" "\<not> is_digit (CHR ''-'')" "\<not> is_digit (CHR ''+'')"
  "\<not> is_digit (CHR '':'')" "\<not> is_digit (CHR 0x5C)"
  by (simp_all add: is_digit_def of_char_Char)

lemma nondigit_notin_nat_dec: "\<not> is_digit c \<Longrightarrow> c \<notin> set (nat_dec n)"
  using nat_dec_digits [of n] by (auto simp: list_all_iff)

lemma atoi_digits_nat_dec [simp]: "atoi_digits (nat_dec n) = Some n"
  by (simp add: atoi_digits_def nat_dec_digits)

lemma atoi_nat_dec: "n < 2 ^ 63 \<Longrightarrow> atoi (nat_dec n) = Some (int n)"
proof -
  assume "n < 2 ^ 63"
  then have "in_int64 (int n)" by (simp add: in_int64_def)
  obtain c ds where cs: "nat_dec n = c # ds" by (cases "nat_dec n") simp_all
  then have "c \<in> set (nat_dec n)" by simp
  then have "c \<noteq> CHR ''-'' \<and> c \<noteq> CHR ''+''"
    using nondigit_notin_nat_dec [of "CHR ''-''" n] nondigit_notin_nat_dec [of "CHR ''+''" n] by auto
  with cs have "atoi_signed (nat_dec n) = Some (int n)"
    using atoi_digits_nat_dec [of n] by (simp add: atoi_signed_def)
  with \<open>in_int64 (int n)\<close> show ?thesis by (simp add: atoi_def)
qed

lemma itoa_no_sep: "c \<noteq> CHR ''-'' \<Longrightarrow> \<not> is_digit c \<Longrightarrow> c \<notin> set (itoa i)"
  by (simp add: itoa_def nondigit_notin_nat_dec)

lemma inj_itoa: "itoa i = itoa j \<longleftrightarrow> i = j"
proof
  assume eq: "itoa i = itoa j"
  have hd: "CHR ''-'' # xs \<noteq> nat_dec n" "nat_dec n \<noteq> CHR ''-'' # xs" for xs n
    using nondigit_notin_nat_dec [of "CHR ''-''" n] by (metis list.set_intros(1) not_digit(2))+
  from eq show "i = j"
    by (auto simp: itoa_def inj_nat_dec hd split: if_splits)
qed simp


text \<open>Decoding, to show that the encoding is injective.\<close>

definition b64_val :: "char \<Rightarrow> nat" where
  "b64_val c = length (takeWhile (\<lambda>d. d \<noteq> c) b64_alphabet)"

fun unbase64 :: "string \<Rightarrow> bytes" where
  "unbase64 (p # q # r # s # cs) =
     (let n = b64_val p * 262144 + b64_val q * 4096 + b64_val r * 64 + b64_val s
      in if r = CHR ''='' then [word_of_nat ((b64_val p * 64 + b64_val q) div 16)]
         else if s = CHR ''='' then
           (let m = (b64_val p * 4096 + b64_val q * 64 + b64_val r) div 4
            in [word_of_nat (m div 256), word_of_nat m])
         else [word_of_nat (n div 65536), word_of_nat (n div 256), word_of_nat n] @ unbase64 cs)"
| "unbase64 _ = []"

lemma b64_val_char [simp]: "i < 64 \<Longrightarrow> b64_val (b64_char i) = i"
proof -
  assume i: "i < 64"
  have "\<forall>i \<in> set [0..<64]. b64_val (b64_char i) = i" by code_simp
  with i show ?thesis by simp
qed

lemma b64_char_not_pad [simp]: "i < 64 \<Longrightarrow> b64_char i \<noteq> CHR ''=''"
proof -
  assume i: "i < 64"
  have "\<forall>i \<in> set [0..<64]. b64_char i \<noteq> CHR ''=''" by code_simp
  with i show ?thesis by simp
qed

lemma unat_byte_less: "unat (x :: byte) < 256"
  using unsigned_less [of x, where ?'a = nat] by simp

lemma word_of_nat_low_byte:
  fixes a b c :: byte
  shows "(word_of_nat (unat a * 65536 + unat b * 256 + unat c) :: byte) = c"
    "(word_of_nat (unat b * 256 + unat c) :: byte) = c"
proof -
  have "(of_nat 256 :: byte) = 0" "(of_nat 65536 :: byte) = 0" by simp_all
  then show "(word_of_nat (unat a * 65536 + unat b * 256 + unat c) :: byte) = c"
    "(word_of_nat (unat b * 256 + unat c) :: byte) = c"
    by (simp_all only: of_nat_add of_nat_mult mult_zero_right add_0) simp_all
qed

lemma digits64:
  fixes n :: nat
  shows "n div 4096 * 4096 + (n div 64 mod 64) * 64 + n mod 64 = n"
    "n div 262144 * 262144 + (n div 4096 mod 64) * 4096 + (n div 64 mod 64) * 64 + n mod 64 = n"
proof -
  have d: "n div 4096 = n div 64 div 64" "n div 262144 = n div 64 div 64 div 64"
    by (simp_all flip: div_mult2_eq)
  show 1: "n div 4096 * 4096 + (n div 64 mod 64) * 64 + n mod 64 = n"
    using div_mult_mod_eq [of n 64] div_mult_mod_eq [of "n div 64" 64] unfolding d by linarith
  show "n div 262144 * 262144 + (n div 4096 mod 64) * 4096 + (n div 64 mod 64) * 64 + n mod 64 = n"
    using 1 div_mult_mod_eq [of "n div 64 div 64" 64] unfolding d by linarith
qed

lemma unbase64_base64: "unbase64 (base64 x) = x"
proof (induction x rule: base64.induct)
  case (2 a)
  define n where "n = unat a * 16"
  have "n div 64 < 64" using unat_byte_less [of a] by (simp add: n_def)
  moreover have "n div 64 * 64 + n mod 64 = n" by (rule div_mult_mod_eq)
  moreover have "n div 16 = unat a" by (simp add: n_def)
  ultimately show ?case by (simp add: Let_def n_def [symmetric])
next
  case (3 a b)
  define n where "n = (unat a * 256 + unat b) * 4"
  have "n div 4096 < 64" using unat_byte_less [of a] unat_byte_less [of b] by (simp add: n_def)
  moreover have q: "n div 4 = unat a * 256 + unat b" by (simp add: n_def)
  then have "n div 4 div 256 = unat a" using unat_byte_less [of b] by simp
  moreover have "(word_of_nat (n div 4) :: byte) = b" by (simp only: q word_of_nat_low_byte)
  moreover have "base64 [a, b] =
      [b64_char (n div 4096), b64_char (n div 64 mod 64), b64_char (n mod 64), CHR ''='']"
    by (simp only: base64.simps Let_def n_def)
  ultimately show ?case by (simp add: Let_def digits64 del: base64.simps)
next
  case (4 a b c r)
  define n where "n = unat a * 65536 + unat b * 256 + unat c"
  have "n div 262144 < 64"
    using unat_byte_less [of a] unat_byte_less [of b] unat_byte_less [of c] by (simp add: n_def)
  moreover have b: "n div 256 = unat a * 256 + unat b"
    using unat_byte_less [of c] by (simp add: n_def)
  moreover have "n div 65536 = unat a"
  proof -
    have "n div 65536 = n div 256 div 256" by (simp flip: div_mult2_eq)
    then show ?thesis using b unat_byte_less [of b] by simp
  qed
  moreover have "(word_of_nat n :: byte) = c" by (simp only: n_def word_of_nat_low_byte)
  ultimately show ?case
    using 4 by (simp add: Let_def n_def [symmetric] digits64 word_of_nat_low_byte del: of_nat_add of_nat_mult)
qed simp

lemma base64_inj: "base64 x = base64 y \<Longrightarrow> x = y"
  by (metis unbase64_base64)

lemma base64_chars: "set (base64 x) \<subseteq> set b64_alphabet \<union> {CHR ''=''}"
proof (induction x rule: base64.induct)
  have len: "length b64_alphabet = 64" by code_simp
  have ch: "i < 64 \<Longrightarrow> b64_char i \<in> set b64_alphabet" for i by (simp add: b64_char_def len)
  have b: "unat (a :: byte) < 256" for a using unsigned_less [of a] by simp
  {
    case (2 a)
    from b [of a] show ?case by (simp add: Let_def ch)
  next
    case (3 a b)
    from b [of a] b [of b] show ?case by (simp add: Let_def ch)
  next
    case (4 a b c r)
    with b [of a] b [of b] b [of c] show ?case by (simp add: Let_def ch)
  }
qed simp

lemma base64_no_separator: "CHR 0x5C \<notin> set (base64 x)"
proof
  assume "CHR 0x5C \<in> set (base64 x)"
  with base64_chars [of x] have "CHR 0x5C \<in> set b64_alphabet \<union> {CHR ''=''}" by blast
  moreover have "CHR 0x5C \<notin> set b64_alphabet \<union> {CHR ''=''}" by code_simp
  ultimately show False by blast
qed

end
