(* ===== verification/Versioned_KV.thy ===== *)
theory Versioned_KV
  imports Go_Prelude
begin

text \<open>
  The versioned key-value store of \<open>collective/versioned\<close>: the interface every storage-backed
  component is written against (\<open>KV_ops\<close>, the methods of the Go interface \<open>KV\<close> that the modelled
  components call), and its local implementation \<open>kv\<close> (\<open>kv.go\<close>) with the naming scheme of maps
  and map elements (\<open>mapSyntax.go\<close>).

  The encrypted store below it (package \<open>ekv\<close>) and the network clock (\<open>netTime\<close>) are not part of
  the repository: they are the argument \<open>E\<close> of the operations, and the locale \<open>ekv_store\<close> names
  what the client relies on. \<open>'w\<close> is the state of the world those packages act on.
\<close>

section \<open>Objects, errors and the two interfaces\<close>

record Object =
  obj_Version :: u64
  obj_Timestamp :: int
  obj_Data :: stored

datatype kv_error = KeyNotFound | KVFailure

datatype prefix_error = EmptyPrefixErr | PrefixContainingSeparatorErr | DuplicatePrefixErr

datatype KeyOperation = Created | Updated | Deleted | Loaded

text \<open>What \<open>ekv.Exists\<close> tells of an error: false exactly when it reports a missing key.\<close>

definition Exists :: "kv_error \<Rightarrow> bool" where
  "Exists err = (err \<noteq> KeyNotFound)"

record 'w ekv_ops =
  ekv_Get :: "'w \<Rightarrow> string \<Rightarrow> kv_error + Object"
  ekv_Set :: "'w \<Rightarrow> string \<Rightarrow> Object \<Rightarrow> kv_error option \<times> 'w"
  ekv_Delete :: "'w \<Rightarrow> string \<Rightarrow> kv_error option \<times> 'w"
  netTime_Now :: "'w \<Rightarrow> int"

record ('h, 'w) KV_ops =
  KV_Get :: "'h \<Rightarrow> 'w \<Rightarrow> string \<Rightarrow> u64 \<Rightarrow> kv_error + Object"
  KV_Set :: "'h \<Rightarrow> 'w \<Rightarrow> string \<Rightarrow> Object \<Rightarrow> kv_error option \<times> 'w"
  KV_Delete :: "'h \<Rightarrow> 'w \<Rightarrow> string \<Rightarrow> u64 \<Rightarrow> kv_error option \<times> 'w"
  KV_Prefix :: "'h \<Rightarrow> string \<Rightarrow> prefix_error + 'h"
  KV_Now :: "'w \<Rightarrow> int"

section \<open>The local implementation\<close>

record kv =
  kv_prefix :: string
  kv_prefixMap :: "string \<rightharpoonup> int"
  kv_offset :: int

definition PrefixSeparator :: string where
  "PrefixSeparator = [CHR 0x5C]"

definition NewKV :: kv where
  "NewKV = \<lparr>kv_prefix = '''', kv_prefixMap = Map.empty, kv_offset = 0\<rparr>"

definition makeKey :: "kv \<Rightarrow> string \<Rightarrow> u64 \<Rightarrow> string" where
  "makeKey v key version = kv_prefix v @ key @ ''_'' @ itoa (sint version)"

definition kv_Get :: "'w ekv_ops \<Rightarrow> kv \<Rightarrow> 'w \<Rightarrow> string \<Rightarrow> u64 \<Rightarrow> kv_error + Object" where
  "kv_Get E v w key version = ekv_Get E w (makeKey v key version)"

definition kv_Delete :: "'w ekv_ops \<Rightarrow> kv \<Rightarrow> 'w \<Rightarrow> string \<Rightarrow> u64 \<Rightarrow> kv_error option \<times> 'w" where
  "kv_Delete E v w key version = ekv_Delete E w (makeKey v key version)"

definition kv_Set :: "'w ekv_ops \<Rightarrow> kv \<Rightarrow> 'w \<Rightarrow> string \<Rightarrow> Object \<Rightarrow> kv_error option \<times> 'w" where
  "kv_Set E v w key object = ekv_Set E w (makeKey v key (obj_Version object)) object"

definition GetPrefix :: "kv \<Rightarrow> string" where
  "GetPrefix v = kv_prefix v"

definition HasPrefix :: "kv \<Rightarrow> string \<Rightarrow> bool" where
  "HasPrefix v prefix = (kv_prefixMap v prefix \<noteq> None)"

definition kv_Prefix :: "kv \<Rightarrow> string \<Rightarrow> prefix_error + kv" where
  "kv_Prefix v prefix =
     (if prefix = '''' then Inl EmptyPrefixErr
      else if CHR 0x5C \<in> set prefix then Inl PrefixContainingSeparatorErr
      else if HasPrefix v prefix then Inl DuplicatePrefixErr
      else Inr \<lparr>kv_prefix = kv_prefix v @ prefix @ PrefixSeparator,
                kv_prefixMap = (kv_prefixMap v)(prefix \<mapsto> kv_offset v + 1),
                kv_offset = kv_offset v + 1\<rparr>)"

definition kv_Root :: "kv \<Rightarrow> kv" where
  "kv_Root v = \<lparr>kv_prefix = '''', kv_prefixMap = Map.empty, kv_offset = 0\<rparr>"

definition GetFullKey :: "kv \<Rightarrow> string \<Rightarrow> u64 \<Rightarrow> string" where
  "GetFullKey v key version = makeKey v key version"

text \<open>The text form of an \<open>id.ID\<close> comes from another repository and is the argument \<open>idString\<close>.\<close>

definition MakePartnerPrefix :: "(bytes \<Rightarrow> string) \<Rightarrow> bytes \<Rightarrow> string" where
  "MakePartnerPrefix idString partner = ''Partner:'' @ idString partner"

definition versioned_ops :: "'w ekv_ops \<Rightarrow> (kv, 'w) KV_ops" where
  "versioned_ops E =
     \<lparr>KV_Get = kv_Get E, KV_Set = kv_Set E, KV_Delete = kv_Delete E,
      KV_Prefix = kv_Prefix, KV_Now = netTime_Now E\<rparr>"

subsection \<open>Reading with an upgrade\<close>

type_synonym Upgrade = "Object \<Rightarrow> kv_error + Object"

record UpgradeTable =
  CurrentVersion :: u64
  Table :: "Upgrade list"

fun stored_empty :: "stored \<Rightarrow> bool" where
  "stored_empty (Raw b) = (b = [])"
| "stored_empty (Json j) = False"

text \<open>The first loop: the newest version, counting down, that is in the store.\<close>

fun newest_stored :: "'w ekv_ops \<Rightarrow> kv \<Rightarrow> 'w \<Rightarrow> string \<Rightarrow> nat \<Rightarrow> Object option" where
  "newest_stored E v w baseKey 0 = None"
| "newest_stored E v w baseKey (Suc n) =
     (case ekv_Get E w (makeKey v baseKey (word_of_nat n)) of
        Inr result \<Rightarrow> Some result
      | Inl _ \<Rightarrow> newest_stored E v w baseKey n)"

text \<open>The second loop applies the upgrade of the object's version until the object is current.
  Nothing in the code forces a version to grow, so the loop may run forever.\<close>

partial_function (option) upgrade_loop :: "Upgrade list \<Rightarrow> Object \<Rightarrow> (fault + Object) option" where
  "upgrade_loop table result =
     (if unat (obj_Version result) < length table then
        (case (table ! unat (obj_Version result)) result of
           Inl err \<Rightarrow> Some (Inl FatalPanic)
         | Inr result' \<Rightarrow>
             (if obj_Version result = obj_Version result' then Some (Inl FatalPanic)
              else upgrade_loop table result'))
      else Some (Inr result))"

definition GetAndUpgrade ::
  "'w ekv_ops \<Rightarrow> kv \<Rightarrow> 'w \<Rightarrow> string \<Rightarrow> UpgradeTable \<Rightarrow> fault + (kv_error + Object)" where
  "GetAndUpgrade E v w key ut =
     (if word_of_nat (length (Table ut)) \<noteq> CurrentVersion ut then Inl FatalPanic
      else case newest_stored E v w key (unat (CurrentVersion ut + 1)) of
        None \<Rightarrow> Inr (Inl KVFailure)
      | Some result \<Rightarrow>
          (if stored_empty (obj_Data result) then Inr (Inl KVFailure)
           else case upgrade_loop (Table ut) result of
             None \<Rightarrow> Inl Diverges
           | Some (Inl f) \<Rightarrow> Inl f
           | Some (Inr obj) \<Rightarrow> Inr (Inr obj)))"

section \<open>Names of maps and of their elements\<close>

datatype KeyType = KeyTypeNormal | KeyTypeMapFile | KeyTypeMapElement

text \<open>The designator is the UTF-8 encoding of the map emoji.\<close>

definition MapDesignator :: string where
  "MapDesignator =
     [CHR 0xF0, CHR 0x9F, CHR 0x97, CHR 0xBA, CHR 0xEF, CHR 0xB8, CHR 0x8F]"

definition MapKeysListSuffix :: string where
  "MapKeysListSuffix = ''_'' @ MapDesignator @ ''MapKeys''"

definition MapElementKeySuffix :: string where
  "MapElementKeySuffix = ''_'' @ MapDesignator @ ''MapElement''"

definition has_suffix :: "string \<Rightarrow> string \<Rightarrow> bool" where
  "has_suffix s suf = (length suf \<le> length s \<and> drop (length s - length suf) s = suf)"

definition contains_str :: "string \<Rightarrow> string \<Rightarrow> bool" where
  "contains_str s sub =
     list_ex (\<lambda>i. take (length sub) (drop i s) = sub) [0..<length s + 1]"

definition IsValidKey :: "string \<Rightarrow> bool" where
  "IsValidKey str = (\<not> contains_str str MapDesignator)"

definition MakeMapKey :: "string \<Rightarrow> string" where
  "MakeMapKey mapName = mapName @ MapKeysListSuffix"

definition GetMapName :: "string \<Rightarrow> fault + string" where
  "GetMapName mapKey =
     islice mapKey 0 (int (length mapKey) - int (length MapKeysListSuffix))"

fun last_index :: "string \<Rightarrow> char \<Rightarrow> nat \<Rightarrow> nat option" where
  "last_index str sep 0 = None"
| "last_index str sep (Suc i) = (if str ! i = sep then Some i else last_index str sep i)"

definition splitLast :: "string \<Rightarrow> char \<Rightarrow> fault + string \<times> string" where
  "splitLast str sep =
     (case last_index str sep (length str) of
        None \<Rightarrow> Inl SliceOutOfRange
      | Some i \<Rightarrow> Inr (take i str, drop (i + 1) str))"

definition GetElementName :: "string \<Rightarrow> fault + string \<times> string" where
  "GetElementName key =
     res_bind (islice key 0 (int (length key) - int (length MapElementKeySuffix))) (\<lambda>key1.
     res_bind (splitLast key1 (CHR ''_'')) (\<lambda>(key2, elementKeyLenStr).
       (case atoi elementKeyLenStr of
          None \<Rightarrow> Inl FatalPanic
        | Some elementKeyLen \<Rightarrow>
            res_bind (islice key2 0 (int (length key2) - elementKeyLen - 1)) (\<lambda>mapName.
            res_bind (islice key2 (int (length key2) - elementKeyLen) (int (length key2)))
              (\<lambda>elementName. Inr (mapName, elementName))))))"

definition MakeElementKey :: "string \<Rightarrow> string \<Rightarrow> string" where
  "MakeElementKey mapName elementName =
     mapName @ '':'' @ elementName @ ''_'' @ itoa (int (length elementName)) @ MapElementKeySuffix"

definition DetectMap :: "string \<Rightarrow> fault + KeyType \<times> string \<times> string" where
  "DetectMap key =
     (if has_suffix key MapKeysListSuffix then
        res_bind (GetMapName key) (\<lambda>mapName. Inr (KeyTypeMapFile, mapName, ''''))
      else if has_suffix key MapElementKeySuffix then
        res_bind (GetElementName key) (\<lambda>(mapName, elementName).
          Inr (KeyTypeMapElement, mapName, elementName))
      else Inr (KeyTypeNormal, '''', ''''))"

definition DetectMapElement :: "string \<Rightarrow> fault + bool \<times> string \<times> string" where
  "DetectMapElement key =
     (if has_suffix key MapElementKeySuffix then
        res_bind (GetElementName key) (\<lambda>(mapName, elementName). Inr (True, mapName, elementName))
      else Inr (False, '''', ''''))"

definition IsMapElement :: "string \<Rightarrow> fault + bool \<times> string \<times> string" where
  "IsMapElement key =
     (if has_suffix key MapElementKeySuffix then
        res_bind (GetElementName key) (\<lambda>(mapName, elementName). Inr (True, mapName, elementName))
      else Inr (False, '''', ''''))"

section \<open>Contracts\<close>

text \<open>What the client relies on of the encrypted store: a successful \<open>Set\<close> is read back, a successful
  \<open>Delete\<close> removes the key, and neither touches any other key.\<close>

locale ekv_store =
  fixes E :: "'w ekv_ops"
  assumes ekv_get_set:
      "ekv_Set E w k obj = (None, w') \<Longrightarrow> ekv_Get E w' k = Inr obj"
    and ekv_get_set_other:
      "ekv_Set E w k obj = (None, w') \<Longrightarrow> k' \<noteq> k \<Longrightarrow> ekv_Get E w' k' = ekv_Get E w k'"
    and ekv_get_delete:
      "ekv_Delete E w k = (None, w') \<Longrightarrow> ekv_Get E w' k = Inl KeyNotFound"
    and ekv_get_delete_other:
      "ekv_Delete E w k = (None, w') \<Longrightarrow> k' \<noteq> k \<Longrightarrow> ekv_Get E w' k' = ekv_Get E w k'"

text \<open>A store that reports no failure: every write and every deletion succeeds.\<close>

definition sets_succeed :: "('h, 'w) KV_ops \<Rightarrow> bool" where
  "sets_succeed K = (\<forall>h w key obj. fst (KV_Set K h w key obj) = None)"

definition deletes_succeed :: "('h, 'w) KV_ops \<Rightarrow> bool" where
  "deletes_succeed K = (\<forall>h w key ver. fst (KV_Delete K h w key ver) = None)"

text \<open>Writing through one handle leaves what another handle reads as it is (for keys without the
  separator).\<close>

definition write_apart :: "('h, 'w) KV_ops \<Rightarrow> 'h \<Rightarrow> 'h \<Rightarrow> bool" where
  "write_apart K h h' =
     (\<forall>w key obj w' key' ver. KV_Set K h w key obj = (None, w') \<longrightarrow>
        CHR 0x5C \<notin> set key \<longrightarrow> CHR 0x5C \<notin> set key' \<longrightarrow> KV_Get K h' w' key' ver = KV_Get K h' w key' ver)"

text \<open>The contract of the interface \<open>KV\<close> at one handle, over keys and versions.\<close>

locale versioned_kv =
  fixes K :: "('h, 'w) KV_ops"
  assumes get_set:
      "KV_Set K h w key obj = (None, w') \<Longrightarrow> KV_Get K h w' key (obj_Version obj) = Inr obj"
    and get_set_other:
      "KV_Set K h w key obj = (None, w') \<Longrightarrow> (key', ver) \<noteq> (key, obj_Version obj) \<Longrightarrow>
       KV_Get K h w' key' ver = KV_Get K h w key' ver"
    and get_delete:
      "KV_Delete K h w key ver = (None, w') \<Longrightarrow> KV_Get K h w' key ver = Inl KeyNotFound"
    and get_delete_other:
      "KV_Delete K h w key ver = (None, w') \<Longrightarrow> (key', ver') \<noteq> (key, ver) \<Longrightarrow>
       KV_Get K h w' key' ver' = KV_Get K h w key' ver'"
begin

lemma get_set_if:
  "KV_Set K h w key obj = (None, w') \<Longrightarrow>
   KV_Get K h w' key' ver =
     (if key' = key \<and> ver = obj_Version obj then Inr obj else KV_Get K h w key' ver)"
  using get_set get_set_other by (metis prod.inject)

lemma set_overwrites:
  "KV_Set K h w key obj = (None, w1) \<Longrightarrow> KV_Set K h w1 key obj' = (None, w2) \<Longrightarrow>
   obj_Version obj' = obj_Version obj \<Longrightarrow>
   KV_Get K h w2 key' ver =
     (if key' = key \<and> ver = obj_Version obj then Inr obj' else KV_Get K h w key' ver)"
  by (simp add: get_set_if)

end

section \<open>Lemmas\<close>

subsection \<open>Keys\<close>

lemma last_sep_split:
  "xs @ c # ys = xs' @ c # ys' \<Longrightarrow> c \<notin> set ys \<Longrightarrow> c \<notin> set ys' \<Longrightarrow> xs = xs' \<and> ys = ys'"
proof (induction xs arbitrary: xs')
  case Nil
  then show ?case by (cases xs') auto
next
  case (Cons x xs)
  show ?case
  proof (cases xs')
    case Nil
    with Cons.prems show ?thesis by auto
  next
    case (Cons x' xs'')
    with Cons.prems show ?thesis using Cons.IH [of xs''] by auto
  qed
qed

lemma first_sep_split:
  "xs @ c # ys = xs' @ c # ys' \<Longrightarrow> c \<notin> set xs \<Longrightarrow> c \<notin> set xs' \<Longrightarrow> xs = xs' \<and> ys = ys'"
proof (induction xs arbitrary: xs')
  case Nil
  then show ?case by (cases xs') auto
next
  case (Cons x xs)
  then show ?case by (cases xs') auto
qed

lemma versioned_suffix_inj:
  "key @ ''_'' @ itoa (sint ver) = key' @ ''_'' @ itoa (sint (ver' :: u64)) \<longleftrightarrow>
   key = key' \<and> ver = ver'"
proof
  assume "key @ ''_'' @ itoa (sint ver) = key' @ ''_'' @ itoa (sint ver')"
  then have "key = key' \<and> itoa (sint ver) = itoa (sint ver')"
    using last_sep_split [of key "CHR ''_''" "itoa (sint ver)" key' "itoa (sint ver')"]
    by (simp add: itoa_no_sep)
  then show "key = key' \<and> ver = ver'" by (auto simp: inj_itoa intro: signed_word_eqI)
qed simp

lemma makeKey_inj: "makeKey v key ver = makeKey v key' ver' \<longleftrightarrow> key = key' \<and> ver = ver'"
  by (simp only: makeKey_def same_append_eq versioned_suffix_inj)

subsection \<open>Prefix paths\<close>

text \<open>The handles that exist at run time: a root, and what \<open>Prefix\<close> makes of them.\<close>

inductive derived :: "string list \<Rightarrow> kv \<Rightarrow> bool" where
  derived_new: "derived [] NewKV"
| derived_root: "derived ps v \<Longrightarrow> derived [] (kv_Root v)"
| derived_prefix: "derived ps v \<Longrightarrow> kv_Prefix v p = Inr v' \<Longrightarrow> derived (ps @ [p]) v'"

definition path_string :: "string list \<Rightarrow> string" where
  "path_string ps = concat (map (\<lambda>p. p @ PrefixSeparator) ps)"

definition path_ok :: "string list \<Rightarrow> bool" where
  "path_ok ps = (list_all (\<lambda>p. p \<noteq> [] \<and> CHR 0x5C \<notin> set p) ps \<and> distinct ps)"

lemma derived_invariant:
  "derived ps v \<Longrightarrow>
   kv_prefix v = path_string ps \<and> path_ok ps \<and> dom (kv_prefixMap v) = set ps \<and>
   kv_offset v = int (length ps)"
proof (induction rule: derived.induct)
  case (derived_prefix ps v p v')
  then have "p \<noteq> []" "CHR 0x5C \<notin> set p" "kv_prefixMap v p = None"
    and v': "v' = \<lparr>kv_prefix = kv_prefix v @ p @ PrefixSeparator,
                kv_prefixMap = (kv_prefixMap v)(p \<mapsto> kv_offset v + 1),
                kv_offset = kv_offset v + 1\<rparr>"
    by (auto simp: kv_Prefix_def HasPrefix_def split: if_splits)
  moreover from this derived_prefix.IH have "p \<notin> set ps" by (metis domIff)
  ultimately show ?case
    using derived_prefix.IH by (auto simp: path_string_def path_ok_def dom_if)
qed (simp_all add: NewKV_def kv_Root_def path_string_def path_ok_def)

lemma path_string_inj:
  assumes "CHR 0x5C \<notin> set k" "CHR 0x5C \<notin> set k'" "path_ok ps" "path_ok qs"
    and "path_string ps @ k = path_string qs @ k'"
  shows "ps = qs \<and> k = k'"
  using assms
proof (induction ps arbitrary: qs)
  case Nil
  then show ?case
    by (cases qs) (auto simp: path_string_def path_ok_def PrefixSeparator_def)
next
  case (Cons p ps)
  show ?case
  proof (cases qs)
    case Nil
    with Cons.prems show ?thesis by (auto simp: path_string_def PrefixSeparator_def)
  next
    case (Cons q qs')
    with Cons.prems have "p @ CHR 0x5C # (path_string ps @ k) = q @ CHR 0x5C # (path_string qs' @ k')"
      by (simp add: path_string_def PrefixSeparator_def)
    moreover from Cons Cons.prems have "CHR 0x5C \<notin> set p" "CHR 0x5C \<notin> set q"
      by (simp_all add: path_ok_def)
    ultimately have "p = q" "path_string ps @ k = path_string qs' @ k'"
      using first_sep_split [of p "CHR 0x5C"] by auto
    with Cons.IH [of qs'] Cons Cons.prems show ?thesis by (simp add: path_ok_def)
  qed
qed

lemma makeKey_path_inj:
  assumes "derived ps v" "derived qs u" "CHR 0x5C \<notin> set key" "CHR 0x5C \<notin> set key'"
  shows "makeKey v key ver = makeKey u key' ver' \<longleftrightarrow> ps = qs \<and> key = key' \<and> ver = ver'"
proof
  have k: "CHR 0x5C \<notin> set (k @ ''_'' @ itoa i)" if "CHR 0x5C \<notin> set k" for k i
    using that by (simp add: itoa_no_sep)
  assume "makeKey v key ver = makeKey u key' ver'"
  then have "path_string ps @ (key @ ''_'' @ itoa (sint ver)) =
      path_string qs @ (key' @ ''_'' @ itoa (sint ver'))"
    using derived_invariant [OF assms(1)] derived_invariant [OF assms(2)]
    by (simp add: makeKey_def)
  then have "ps = qs \<and> key @ ''_'' @ itoa (sint ver) = key' @ ''_'' @ itoa (sint ver')"
    using path_string_inj [OF k [OF assms(3)] k [OF assms(4)]]
      derived_invariant [OF assms(1)] derived_invariant [OF assms(2)] by blast
  then show "ps = qs \<and> key = key' \<and> ver = ver'" by (simp only: versioned_suffix_inj)
next
  assume "ps = qs \<and> key = key' \<and> ver = ver'"
  then show "makeKey v key ver = makeKey u key' ver'"
    using derived_invariant [OF assms(1)] derived_invariant [OF assms(2)]
    by (simp add: makeKey_def)
qed

subsection \<open>Writes through a set of handles\<close>

text \<open>The states of the store that successful writes and deletions through the handles in \<open>hs\<close> lead to.
  What a handle reads that is apart from all of them stays as it is.\<close>

inductive kv_writes :: "('h, 'w) KV_ops \<Rightarrow> 'h set \<Rightarrow> 'w \<Rightarrow> 'w \<Rightarrow> bool" for K hs where
  kv_writes_refl: "kv_writes K hs w w"
| kv_writes_set: "kv_writes K hs w w1 \<Longrightarrow> h \<in> hs \<Longrightarrow> CHR 0x5C \<notin> set key \<Longrightarrow> KV_Set K h w1 key obj = (None, w2) \<Longrightarrow>
    kv_writes K hs w w2"
| kv_writes_delete: "kv_writes K hs w w1 \<Longrightarrow> h \<in> hs \<Longrightarrow> CHR 0x5C \<notin> set key \<Longrightarrow> KV_Delete K h w1 key ver = (None, w2) \<Longrightarrow>
    kv_writes K hs w w2"

definition apart :: "('h, 'w) KV_ops \<Rightarrow> 'h \<Rightarrow> 'h \<Rightarrow> bool" where
  "apart K h h' =
     (write_apart K h h' \<and>
      (\<forall>w key ver w' key' ver'. KV_Delete K h w key ver = (None, w') \<longrightarrow>
        CHR 0x5C \<notin> set key \<longrightarrow> CHR 0x5C \<notin> set key' \<longrightarrow> KV_Get K h' w' key' ver' = KV_Get K h' w key' ver'))"

lemma kv_writes_trans:
  assumes "kv_writes K hs w1 w2" "kv_writes K hs w w1"
  shows "kv_writes K hs w w2"
  using assms by (induction rule: kv_writes.induct) (auto intro: kv_writes.intros)

lemma kv_writes_mono:
  assumes "kv_writes K hs w w'" "hs \<subseteq> hs'"
  shows "kv_writes K hs' w w'"
  using assms by (induction rule: kv_writes.induct) (auto intro: kv_writes.intros)

lemma kv_writes_one:
  "KV_Set K h w key obj = (None, w') \<Longrightarrow> CHR 0x5C \<notin> set key \<Longrightarrow> kv_writes K {h} w w'"
  "KV_Delete K h w key ver = (None, w') \<Longrightarrow> CHR 0x5C \<notin> set key \<Longrightarrow> kv_writes K {h} w w'"
  by (auto intro: kv_writes.intros)

lemma kv_writes_frame:
  assumes "kv_writes K hs w w'" "\<And>h. h \<in> hs \<Longrightarrow> apart K h h'" "CHR 0x5C \<notin> set key"
  shows "KV_Get K h' w' key ver = KV_Get K h' w key ver"
  using assms by (induction rule: kv_writes.induct) (simp_all add: apart_def write_apart_def)

subsection \<open>The local implementation meets the contract\<close>

sublocale ekv_store \<subseteq> vkv: versioned_kv "versioned_ops E"
proof unfold_locales
  fix h w key obj w'
  assume "KV_Set (versioned_ops E) h w key obj = (None, w')"
  then show "KV_Get (versioned_ops E) h w' key (obj_Version obj) = Inr obj"
    by (simp add: versioned_ops_def kv_Set_def kv_Get_def ekv_get_set)
next
  fix h w key obj w' key' ver
  assume "KV_Set (versioned_ops E) h w key obj = (None, w')" "(key', ver) \<noteq> (key, obj_Version obj)"
  then show "KV_Get (versioned_ops E) h w' key' ver = KV_Get (versioned_ops E) h w key' ver"
    by (auto simp: versioned_ops_def kv_Set_def kv_Get_def makeKey_inj intro!: ekv_get_set_other)
next
  fix h w key ver w'
  assume "KV_Delete (versioned_ops E) h w key ver = (None, w')"
  then show "KV_Get (versioned_ops E) h w' key ver = Inl KeyNotFound"
    by (simp add: versioned_ops_def kv_Delete_def kv_Get_def ekv_get_delete)
next
  fix h w key ver w' key' ver'
  assume "KV_Delete (versioned_ops E) h w key ver = (None, w')" "(key', ver') \<noteq> (key, ver)"
  then show "KV_Get (versioned_ops E) h w' key' ver' = KV_Get (versioned_ops E) h w key' ver'"
    by (auto simp: versioned_ops_def kv_Delete_def kv_Get_def makeKey_inj intro!: ekv_get_delete_other)
qed

context ekv_store
begin

lemma versioned: "versioned_kv (versioned_ops E)"
  by (rule vkv.versioned_kv_axioms)

lemma derived_apart:
  assumes "derived ps v" "derived qs u" "ps \<noteq> qs"
  shows "write_apart (versioned_ops E) v u"
  unfolding write_apart_def
proof (intro allI impI)
  fix w key obj w' key' ver
  assume s: "KV_Set (versioned_ops E) v w key obj = (None, w')" "CHR 0x5C \<notin> set key" "CHR 0x5C \<notin> set key'"
  then have "makeKey u key' ver \<noteq> makeKey v key (obj_Version obj)"
    using makeKey_path_inj [OF assms(2,1) s(3,2)] assms(3) by blast
  with s(1) show "KV_Get (versioned_ops E) u w' key' ver = KV_Get (versioned_ops E) u w key' ver"
    by (simp add: versioned_ops_def kv_Set_def kv_Get_def ekv_get_set_other)
qed

lemma derived_all_apart:
  assumes "derived ps v" "derived qs u" "ps \<noteq> qs"
  shows "apart (versioned_ops E) v u"
proof -
  have "makeKey u key' ver' \<noteq> makeKey v key ver" if "CHR 0x5C \<notin> set key" "CHR 0x5C \<notin> set key'" for key key' ver ver'
    using makeKey_path_inj [OF assms(2,1) that(2,1)] assms(3) by blast
  then show ?thesis using derived_apart [OF assms]
    by (simp add: apart_def versioned_ops_def kv_Delete_def kv_Get_def ekv_get_delete_other)
qed

end

text \<open>An in-memory store, as \<open>ekv.Memstore\<close> is used by the tests of the client: the instance on
  which the hypotheses above are evaluated.\<close>

definition mem_ops :: "(string \<rightharpoonup> Object) ekv_ops" where
  "mem_ops =
     \<lparr>ekv_Get = (\<lambda>m k. case m k of None \<Rightarrow> Inl KeyNotFound | Some obj \<Rightarrow> Inr obj),
      ekv_Set = (\<lambda>m k obj. (None, m(k \<mapsto> obj))),
      ekv_Delete = (\<lambda>m k. (None, m(k := None))),
      netTime_Now = (\<lambda>_. 0)\<rparr>"

interpretation mem: ekv_store mem_ops
  by unfold_locales (auto simp: mem_ops_def)

abbreviation mem_KV :: "(kv, string \<rightharpoonup> Object) KV_ops" where
  "mem_KV \<equiv> versioned_ops mem_ops"

lemma mem_KV_simps:
  "KV_Get mem_KV h m k ver =
     (case m (makeKey h k ver) of None \<Rightarrow> Inl KeyNotFound | Some obj \<Rightarrow> Inr obj)"
  "KV_Set mem_KV h m k obj = (None, m(makeKey h k (obj_Version obj) \<mapsto> obj))"
  "KV_Delete mem_KV h m k ver = (None, m(makeKey h k ver := None))"
  "KV_Prefix mem_KV = kv_Prefix" "KV_Now mem_KV m = 0"
  by (simp_all add: versioned_ops_def mem_ops_def kv_Get_def kv_Set_def kv_Delete_def)

lemma mem_sets: "sets_succeed mem_KV"
  by (simp add: sets_succeed_def mem_KV_simps)

lemma mem_deletes: "deletes_succeed mem_KV"
  by (simp add: deletes_succeed_def mem_KV_simps)

subsection \<open>Upgrades\<close>

text \<open>A table is disciplined when its entry \<open>i\<close> turns an object of version \<open>i\<close> into one of version
  \<open>i + 1\<close>, without failing.\<close>

definition disciplined :: "Upgrade list \<Rightarrow> bool" where
  "disciplined table =
     (\<forall>i < length table. \<forall>obj. obj_Version obj = word_of_nat i \<longrightarrow>
        (\<exists>obj'. (table ! i) obj = Inr obj' \<and> obj_Version obj' = word_of_nat (Suc i)))"

definition run_upgrades :: "Upgrade list \<Rightarrow> Object \<Rightarrow> Object" where
  "run_upgrades table obj = foldl (\<lambda>o' upgrade. projr (upgrade o')) obj table"

lemma unat_of_nat_u64: "n < 2 ^ 64 \<Longrightarrow> unat (word_of_nat n :: u64) = n"
  by (simp add: unat_of_nat)

lemma upgrade_loop_disciplined:
  assumes "disciplined table" "length table < 2 ^ 64"
  shows "n \<le> length table \<Longrightarrow> obj_Version obj = word_of_nat n \<Longrightarrow>
    upgrade_loop table obj = Some (Inr (run_upgrades (drop n table) obj)) \<and>
    obj_Version (run_upgrades (drop n table) obj) = word_of_nat (length table)"
proof (induction "length table - n" arbitrary: n obj)
  case 0
  with assms(2) show ?case
    by (simp add: upgrade_loop.simps [of table obj] run_upgrades_def unat_of_nat_u64)
next
  case (Suc k)
  then have n: "n < length table" by simp
  with assms(1) Suc.prems obtain obj' where o': "(table ! n) obj = Inr obj'"
    and v': "obj_Version obj' = word_of_nat (Suc n)"
    unfolding disciplined_def by blast
  have un: "unat (word_of_nat n :: u64) = n" "unat (word_of_nat (Suc n) :: u64) = Suc n"
    using n assms(2) by (simp_all only: unat_of_nat_u64)
  then have "(word_of_nat n :: u64) \<noteq> word_of_nat (Suc n)" by (metis n_not_Suc_n)
  then have step: "upgrade_loop table obj = upgrade_loop table obj'"
    using n o' v' un Suc.prems
    by (subst upgrade_loop.simps) (auto simp: unat_of_nat_u64)
  have "drop n table = table ! n # drop (Suc n) table" using n by (simp add: Cons_nth_drop_Suc)
  then have "run_upgrades (drop n table) obj = run_upgrades (drop (Suc n) table) obj'"
    using o' by (simp add: run_upgrades_def)
  with Suc.hyps(1) [of "Suc n" obj'] Suc.hyps(2) n v' step show ?case by simp
qed

lemma newest_stored_found:
  assumes "ekv_Get E w (makeKey v key (word_of_nat n)) = Inr obj"
    and "\<forall>m. n < m \<and> m \<le> cur \<longrightarrow> (\<exists>e. ekv_Get E w (makeKey v key (word_of_nat m)) = Inl e)"
  shows "n \<le> cur \<Longrightarrow> newest_stored E v w key (Suc cur) = Some obj"
  using assms(2)
proof (induction cur)
  case 0
  with assms(1) show ?case by simp
next
  case (Suc cur)
  show ?case
  proof (cases "n = Suc cur")
    case True
    with assms(1) show ?thesis by simp
  next
    case False
    with Suc.prems obtain e where "ekv_Get E w (makeKey v key (word_of_nat (Suc cur))) = Inl e"
      by (meson le_neq_implies_less order_refl)
    moreover from False Suc have "newest_stored E v w key (Suc cur) = Some obj" by simp
    ultimately show ?thesis by (simp only: newest_stored.simps sum.case)
  qed
qed

subsection \<open>Map syntax\<close>

lemma last_index_append:
  "sep \<notin> set ys \<Longrightarrow> last_index (xs @ sep # ys) sep (length xs + Suc (length ys)) = Some (length xs)"
proof (induction ys rule: rev_induct)
  case Nil
  then show ?case by (simp add: nth_append)
next
  case (snoc y ys)
  have "last_index (zs @ [y]) sep k = last_index zs sep k" if "k \<le> length zs" for k zs
    using that by (induction k) (simp_all add: nth_append)
  from this [of "length xs + Suc (length ys)" "xs @ sep # ys"] snoc
  have "last_index (xs @ sep # ys @ [y]) sep (length xs + Suc (length ys)) = Some (length xs)"
    by (simp del: last_index.simps)
  moreover have "(xs @ sep # ys @ [y]) ! (length xs + Suc (length ys)) = y"
    by (simp add: nth_append)
  ultimately show ?case using snoc.prems by auto
qed

lemma splitLast_append:
  "sep \<notin> set ys \<Longrightarrow> splitLast (xs @ sep # ys) sep = Inr (xs, ys)"
  using last_index_append [of sep ys xs]
  by (simp add: splitLast_def del: last_index.simps)

lemma islice_trim: "islice (xs @ ys) 0 (int (length (xs @ ys)) - int (length ys)) = Inr xs"
  by (simp add: islice_def slice_def)

lemma islice_tail:
  "islice (xs @ ys) (int (length (xs @ ys)) - int (length ys)) (int (length (xs @ ys))) = Inr ys"
  by (simp add: islice_def slice_def nat_add_distrib)

lemma has_suffix_append [simp]: "has_suffix (xs @ suf) suf"
  by (simp add: has_suffix_def)

lemma GetElementName_MakeElementKey:
  assumes "length e < 2 ^ 63"
  shows "GetElementName (MakeElementKey m e) = Inr (m, e)"
proof -
  let ?key2 = "m @ '':'' @ e"
  let ?len = "nat_dec (length e)"
  have key: "MakeElementKey m e = (?key2 @ CHR ''_'' # ?len) @ MapElementKeySuffix"
    by (simp add: MakeElementKey_def itoa_def)
  have 1: "islice (MakeElementKey m e) 0
      (int (length (MakeElementKey m e)) - int (length MapElementKeySuffix)) =
      Inr (?key2 @ CHR ''_'' # ?len)"
    unfolding key by (rule islice_trim)
  have 2: "splitLast (?key2 @ CHR ''_'' # ?len) (CHR ''_'') = Inr (?key2, ?len)"
    by (rule splitLast_append) (simp add: nondigit_notin_nat_dec)
  have 3: "islice ?key2 0 (int (length ?key2) - int (length e) - 1) = Inr m"
    by (simp add: islice_def slice_def)
  have 4: "islice ?key2 (int (length ?key2) - int (length e)) (int (length ?key2)) = Inr e"
    using islice_tail [of "m @ '':''" e] by simp
  from 1 2 3 4 assms show ?thesis
    by (simp add: GetElementName_def atoi_nat_dec)
qed

lemma suffixes_apart: "\<not> has_suffix (xs @ MapElementKeySuffix) MapKeysListSuffix"
  by (simp add: has_suffix_def MapElementKeySuffix_def MapKeysListSuffix_def MapDesignator_def)

section \<open>Properties\<close>

text \<open>C27: Over any encrypted store, an object written through a handle is read back through every
  handle with the same prefix path under the same key and version, and a read through a handle
  with another path, another key or another version is not affected: prefixes are isolated name
  spaces. (Keys are free of the separator, which \<open>Prefix\<close> refuses in prefixes only.)\<close>

theorem kv_prefix_isolation:
  assumes "ekv_store E" "derived ps v" "derived qs u"
    and "CHR 0x5C \<notin> set key" "CHR 0x5C \<notin> set key'"
    and "kv_Set E v w key obj = (None, w')"
  shows "kv_Get E u w' key' ver =
    (if ps = qs \<and> key' = key \<and> ver = obj_Version obj then Inr obj else kv_Get E u w key' ver)"
proof -
  have k: "makeKey u key' ver = makeKey v key (obj_Version obj) \<longleftrightarrow>
      ps = qs \<and> key' = key \<and> ver = obj_Version obj"
    using makeKey_path_inj [OF assms(3,2,5,4), of ver "obj_Version obj"] by auto
  show ?thesis
    using k assms(6) ekv_store.ekv_get_set [OF assms(1)] ekv_store.ekv_get_set_other [OF assms(1)]
    by (auto simp: kv_Set_def kv_Get_def)
qed

theorem kv_prefix_isolation_witness:
  "kv_Get mem_ops (projr (kv_Prefix NewKV ''b''))
     (snd (kv_Set mem_ops (projr (kv_Prefix NewKV ''a'')) Map.empty ''k''
        \<lparr>obj_Version = 0, obj_Timestamp = 5, obj_Data = Raw [1]\<rparr>)) ''k'' 0 = Inl KeyNotFound"
proof -
  let ?a = "projr (kv_Prefix NewKV ''a'')" and ?b = "projr (kv_Prefix NewKV ''b'')"
  let ?o = "\<lparr>obj_Version = 0, obj_Timestamp = 5, obj_Data = Raw [1]\<rparr>"
  have "derived ([] @ [''a'']) ?a" "derived ([] @ [''b'']) ?b"
    by (rule derived_prefix [OF derived_new]; simp add: kv_Prefix_def NewKV_def HasPrefix_def)+
  moreover have "kv_Set mem_ops ?a Map.empty ''k'' ?o = (None, snd (kv_Set mem_ops ?a Map.empty ''k'' ?o))"
    by (simp add: kv_Set_def mem_ops_def)
  ultimately show ?thesis
    using kv_prefix_isolation [OF mem.ekv_store_axioms, of "[''a'']" ?a "[''b'']" ?b "''k''" "''k''"
        Map.empty ?o _ 0]
    by (simp add: kv_Get_def [of _ _ Map.empty] mem_ops_def)
qed

text \<open>C34: \<open>GetAndUpgrade\<close> with a table whose entry \<open>i\<close> upgrades version \<open>i\<close> to version \<open>i + 1\<close> ends,
  picks the newest stored version and returns it carried through all later upgrades, at the
  current version.\<close>

theorem GetAndUpgrade_current:
  assumes "disciplined (Table ut)" "length (Table ut) < 2 ^ 64 - 1"
    and "CurrentVersion ut = word_of_nat (length (Table ut))"
    and "n \<le> length (Table ut)" "ekv_Get E w (makeKey v key (word_of_nat n)) = Inr obj"
    and "\<forall>m. n < m \<and> m \<le> length (Table ut) \<longrightarrow>
           (\<exists>e. ekv_Get E w (makeKey v key (word_of_nat m)) = Inl e)"
    and "obj_Version obj = word_of_nat n" "\<not> stored_empty (obj_Data obj)"
  shows "GetAndUpgrade E v w key ut = Inr (Inr (run_upgrades (drop n (Table ut)) obj)) \<and>
    obj_Version (run_upgrades (drop n (Table ut)) obj) = CurrentVersion ut"
proof -
  have "unat (CurrentVersion ut + 1) = unat (word_of_nat (Suc (length (Table ut))) :: u64)"
    using assms(3) by (simp add: add.commute)
  also have "\<dots> = Suc (length (Table ut))"
    using assms(2) by (intro unat_of_nat_u64) simp
  finally have found: "newest_stored E v w key (unat (CurrentVersion ut + 1)) = Some obj"
    using newest_stored_found [OF assms(5) assms(6) assms(4)] by simp
  have "length (Table ut) < 2 ^ 64" using assms(2) by simp
  from upgrade_loop_disciplined [OF assms(1) this assms(4,7)] found assms(3,8)
  show ?thesis by (simp add: GetAndUpgrade_def)
qed

theorem GetAndUpgrade_current_witness:
  "GetAndUpgrade mem_ops NewKV
     [makeKey NewKV ''k'' 0 \<mapsto> \<lparr>obj_Version = 0, obj_Timestamp = 5, obj_Data = Raw [1]\<rparr>] ''k''
     \<lparr>CurrentVersion = 1, Table = [\<lambda>obj. Inr (obj\<lparr>obj_Version := 1\<rparr>)]\<rparr> =
   Inr (Inr \<lparr>obj_Version = 1, obj_Timestamp = 5, obj_Data = Raw [1]\<rparr>)"
proof -
  let ?o = "\<lparr>obj_Version = 0, obj_Timestamp = 5, obj_Data = Raw [1]\<rparr>"
  let ?ut = "\<lparr>CurrentVersion = 1, Table = [\<lambda>obj. Inr (obj\<lparr>obj_Version := 1\<rparr>)]\<rparr>"
  let ?m = "[makeKey NewKV ''k'' 0 \<mapsto> ?o]"
  have "disciplined (Table ?ut)" by (simp add: disciplined_def)
  moreover have "ekv_Get mem_ops ?m (makeKey NewKV ''k'' (word_of_nat 0)) = Inr ?o"
    by (simp add: mem_ops_def)
  moreover have "\<forall>m. 0 < m \<and> m \<le> length (Table ?ut) \<longrightarrow>
      (\<exists>e. ekv_Get mem_ops ?m (makeKey NewKV ''k'' (word_of_nat m)) = Inl e)"
    by (auto simp: mem_ops_def makeKey_inj le_Suc_eq)
  ultimately show ?thesis
    using GetAndUpgrade_current [of ?ut 0 mem_ops ?m NewKV "''k''" ?o]
    by (simp add: run_upgrades_def)
qed

text \<open>The storage key of a map element determines the map and the element, whatever
  characters the two names contain, and the storage key of a map determines its name:
  \<open>DetectMap\<close> inverts \<open>MakeElementKey\<close> and \<open>MakeMapKey\<close>, and never takes one kind of key for
  the other.\<close>

theorem DetectMap_roundtrip:
  assumes "length elementName < 2 ^ 63"
  shows "DetectMap (MakeElementKey mapName elementName) =
      Inr (KeyTypeMapElement, mapName, elementName) \<and>
    DetectMap (MakeMapKey mapName) = Inr (KeyTypeMapFile, mapName, [])"
proof -
  have e: "MakeElementKey mapName elementName =
      (mapName @ '':'' @ elementName @ ''_'' @ itoa (int (length elementName))) @ MapElementKeySuffix"
    by (simp add: MakeElementKey_def)
  have "\<not> has_suffix (MakeElementKey mapName elementName) MapKeysListSuffix"
    and "has_suffix (MakeElementKey mapName elementName) MapElementKeySuffix"
    unfolding e by (rule suffixes_apart, rule has_suffix_append)
  moreover have "has_suffix (MakeMapKey mapName) MapKeysListSuffix"
    and "GetMapName (MakeMapKey mapName) = Inr mapName"
    unfolding MakeMapKey_def GetMapName_def by (rule has_suffix_append, rule islice_trim)
  ultimately show ?thesis
    using GetElementName_MakeElementKey [OF assms] by (simp add: DetectMap_def)
qed

theorem DetectMap_roundtrip_witness:
  "DetectMap (MakeElementKey ''a:b_3'' ''_:x'') = Inr (KeyTypeMapElement, ''a:b_3'', ''_:x'')"
  using DetectMap_roundtrip [of "''_:x''" "''a:b_3''"] by simp

end
