(* ===== verification/State_Vector.thy ===== *)
theory State_Vector
  imports Versioned_KV
begin

text \<open>
  The binary state vector of \<open>storage/utility/stateVector.go\<close>: a bit field over key numbers, used by
  the ratchet's sessions to hand out each key once and by the file transfers to track parts.
  The in-memory operations (\<open>use\<close>, \<open>unuse\<close>, \<open>used\<close>, \<open>nextAvailable\<close>) are translated with their
  index checks and their possibly endless scan; the exported operations add the save to storage.
  The abstract specification is a set of used key numbers below a fixed bound (\<open>used_set\<close>), stated
  as the locale \<open>key_vector\<close>.
\<close>

section \<open>State\<close>

record 'h StateVector =
  sv_vect :: "u64 list"
  sv_firstAvailable :: u32
  sv_numKeys :: u32
  sv_numAvailable :: u32
  sv_disableKV :: bool
  sv_key :: string
  sv_kv :: "'h option"

datatype sv_error = NoKeysErr | LoadGetErr kv_error | LoadUnmarshalErr

definition stateVectorKey :: string where
  "stateVectorKey = ''stateVector''"

definition currentStateVectorVersion :: u64 where
  "currentStateVectorVersion = 0"

definition makeStateVectorKey :: "string \<Rightarrow> string" where
  "makeStateVectorKey key = stateVectorKey @ key"

section \<open>Operations in memory\<close>

definition getBlockAndPos :: "u32 \<Rightarrow> u32 \<times> u32" where
  "getBlockAndPos keyNum = (keyNum div 64, keyNum mod 64)"

definition sv_used :: "'h StateVector \<Rightarrow> u32 \<Rightarrow> fault + bool" where
  "sv_used sv keyNum =
     (let (block, pos) = getBlockAndPos keyNum
      in res_bind (index (sv_vect sv) (unat block)) (\<lambda>b.
           Inr (drop_bit (unat pos) b AND 1 = 1)))"

text \<open>The loop of \<open>nextAvailable\<close>. The position is a \<open>uint32\<close> that wraps, so the loop may not end.\<close>

partial_function (option) sv_scan :: "u64 list \<Rightarrow> u32 \<Rightarrow> u32 option" where
  "sv_scan vect pos =
     (if pos div 64 < word_of_nat (length vect) \<and>
         drop_bit (unat (pos mod 64)) (vect ! unat (pos div 64)) AND 1 = 1
      then sv_scan vect (pos + 1)
      else Some pos)"

definition sv_nextAvailable :: "'h StateVector \<Rightarrow> fault + 'h StateVector" where
  "sv_nextAvailable sv =
     (case sv_scan (sv_vect sv) (sv_firstAvailable sv + 1) of
        None \<Rightarrow> Inl Diverges
      | Some pos \<Rightarrow> Inr (sv\<lparr>sv_firstAvailable := pos\<rparr>))"

definition sv_use :: "'h StateVector \<Rightarrow> u32 \<Rightarrow> fault + 'h StateVector" where
  "sv_use sv keyNum =
     res_bind (sv_used sv keyNum) (\<lambda>u.
       if u then Inr sv
       else
         let (block, pos) = getBlockAndPos keyNum;
             b = unat block;
             sv1 = sv\<lparr>sv_vect := (sv_vect sv)[b := (sv_vect sv ! b) OR push_bit (unat pos) 1],
                      sv_numAvailable := sv_numAvailable sv - 1\<rparr>
         in if keyNum = sv_firstAvailable sv1 then sv_nextAvailable sv1 else Inr sv1)"

definition sv_unuse :: "'h StateVector \<Rightarrow> u32 \<Rightarrow> fault + 'h StateVector" where
  "sv_unuse sv keyNum =
     res_bind (sv_used sv keyNum) (\<lambda>u.
       if \<not> u then Inr sv
       else
         let (block, pos) = getBlockAndPos keyNum;
             b = unat block;
             sv1 = sv\<lparr>sv_vect := (sv_vect sv)[b := (sv_vect sv ! b) AND NOT (push_bit (unat pos) 1)],
                      sv_numAvailable := sv_numAvailable sv + 1\<rparr>
         in Inr (if keyNum < sv_firstAvailable sv1
                 then sv1\<lparr>sv_firstAvailable := keyNum\<rparr> else sv1))"

fun sv_use_all :: "'h StateVector \<Rightarrow> u32 list \<Rightarrow> fault + 'h StateVector" where
  "sv_use_all sv [] = Inr sv"
| "sv_use_all sv (k # ks) = res_bind (sv_use sv k) (\<lambda>sv'. sv_use_all sv' ks)"

fun sv_unuse_all :: "'h StateVector \<Rightarrow> u32 list \<Rightarrow> fault + 'h StateVector" where
  "sv_unuse_all sv [] = Inr sv"
| "sv_unuse_all sv (k # ks) = res_bind (sv_unuse sv k) (\<lambda>sv'. sv_unuse_all sv' ks)"

definition GetNumAvailable :: "'h StateVector \<Rightarrow> u32" where
  "GetNumAvailable sv = sv_numAvailable sv"

definition GetNumUsed :: "'h StateVector \<Rightarrow> u32" where
  "GetNumUsed sv = sv_numKeys sv - sv_numAvailable sv"

definition GetNumKeys :: "'h StateVector \<Rightarrow> u32" where
  "GetNumKeys sv = sv_numKeys sv"

text \<open>The loops that list keys run over a range of key numbers and stop at the first panic.\<close>

fun sv_collect :: "'h StateVector \<Rightarrow> bool \<Rightarrow> u32 list \<Rightarrow> fault + u32 list" where
  "sv_collect sv wanted [] = Inr []"
| "sv_collect sv wanted (k # ks) =
     res_bind (sv_used sv k) (\<lambda>u.
     res_bind (sv_collect sv wanted ks) (\<lambda>rest.
       Inr (if u = wanted then k # rest else rest)))"

definition key_range :: "u32 \<Rightarrow> u32 \<Rightarrow> u32 list" where
  "key_range lo hi = map word_of_nat [unat lo..<unat hi]"

definition GetUnusedKeyNums :: "'h StateVector \<Rightarrow> fault + u32 list" where
  "GetUnusedKeyNums sv = sv_collect sv False (key_range (sv_firstAvailable sv) (sv_numKeys sv))"

definition GetUsedKeyNums :: "'h StateVector \<Rightarrow> fault + u32 list" where
  "GetUsedKeyNums sv = sv_collect sv True (key_range 0 (sv_numKeys sv))"

definition sv_DeepCopy :: "'h StateVector \<Rightarrow> 'h StateVector" where
  "sv_DeepCopy sv =
     \<lparr>sv_vect = sv_vect sv, sv_firstAvailable = sv_firstAvailable sv,
      sv_numKeys = sv_numKeys sv, sv_numAvailable = sv_numAvailable sv,
      sv_disableKV = True, sv_key = sv_key sv, sv_kv = None\<rparr>"

section \<open>Storage\<close>

definition sv_MarshalJSON :: "'h StateVector \<Rightarrow> stored" where
  "sv_MarshalJSON sv =
     Json (JObj [(''Vect'', JArr (map word_json (sv_vect sv))),
                 (''FirstAvailable'', word_json (sv_firstAvailable sv)),
                 (''NumKeys'', word_json (sv_numKeys sv)),
                 (''NumAvailable'', word_json (sv_numAvailable sv))])"

definition sv_UnmarshalJSON :: "stored \<Rightarrow> 'h StateVector \<Rightarrow> 'h StateVector option" where
  "sv_UnmarshalJSON data sv =
     (case data of
        Raw _ \<Rightarrow> None
      | Json j \<Rightarrow>
          (case (json_list json_word (json_field j ''Vect''),
                 json_word (json_field j ''FirstAvailable''),
                 json_word (json_field j ''NumKeys''),
                 json_word (json_field j ''NumAvailable'')) of
             (Some v, Some fa, Some nk, Some na) \<Rightarrow>
               Some (sv\<lparr>sv_vect := v, sv_firstAvailable := fa,
                        sv_numKeys := nk, sv_numAvailable := na\<rparr>)
           | _ \<Rightarrow> None))"

definition sv_save ::
  "('h, 'w) KV_ops \<Rightarrow> 'w \<Rightarrow> 'h StateVector \<Rightarrow> fault + (kv_error option \<times> 'w)" where
  "sv_save K w sv =
     (if sv_disableKV sv then Inr (None, w)
      else case sv_kv sv of
        None \<Rightarrow> Inl NilDereference
      | Some h \<Rightarrow>
          Inr (KV_Set K h w (sv_key sv)
                 \<lparr>obj_Version = currentStateVectorVersion, obj_Timestamp = KV_Now K w,
                  obj_Data = sv_MarshalJSON sv\<rparr>))"

definition NewStateVector ::
  "('h, 'w) KV_ops \<Rightarrow> 'w \<Rightarrow> u32 \<Rightarrow> bool \<Rightarrow> string \<Rightarrow> 'h \<Rightarrow>
   fault + ('h StateVector \<times> kv_error option \<times> 'w)" where
  "NewStateVector K w numKeys disableKV key h =
     (let numBlocks = (numKeys + 63) div 64;
          sv = \<lparr>sv_vect = replicate (unat numBlocks) 0, sv_firstAvailable = 0,
                sv_numKeys = numKeys, sv_numAvailable = numKeys, sv_disableKV = disableKV,
                sv_key = makeStateVectorKey key, sv_kv = Some h\<rparr>
      in res_bind (sv_save K w sv) (\<lambda>(err, w'). Inr (sv, err, w')))"

text \<open>A failed save is only logged (\<open>jww.FATAL.Printf\<close>) by the marking operations.\<close>

definition sv_Use ::
  "('h, 'w) KV_ops \<Rightarrow> 'w \<Rightarrow> 'h StateVector \<Rightarrow> u32 \<Rightarrow> fault + ('h StateVector \<times> 'w)" where
  "sv_Use K w sv keyNum =
     res_bind (sv_use sv keyNum) (\<lambda>sv'.
     res_bind (sv_save K w sv') (\<lambda>(err, w'). Inr (sv', w')))"

definition sv_UseMany ::
  "('h, 'w) KV_ops \<Rightarrow> 'w \<Rightarrow> 'h StateVector \<Rightarrow> u32 list \<Rightarrow> fault + ('h StateVector \<times> 'w)" where
  "sv_UseMany K w sv keyNums =
     res_bind (sv_use_all sv keyNums) (\<lambda>sv'.
     res_bind (sv_save K w sv') (\<lambda>(err, w'). Inr (sv', w')))"

definition sv_Unuse ::
  "('h, 'w) KV_ops \<Rightarrow> 'w \<Rightarrow> 'h StateVector \<Rightarrow> u32 \<Rightarrow> fault + ('h StateVector \<times> 'w)" where
  "sv_Unuse K w sv keyNum =
     res_bind (sv_unuse sv keyNum) (\<lambda>sv'.
     res_bind (sv_save K w sv') (\<lambda>(err, w'). Inr (sv', w')))"

definition sv_UnuseMany ::
  "('h, 'w) KV_ops \<Rightarrow> 'w \<Rightarrow> 'h StateVector \<Rightarrow> u32 list \<Rightarrow> fault + ('h StateVector \<times> 'w)" where
  "sv_UnuseMany K w sv keyNums =
     res_bind (sv_unuse_all sv keyNums) (\<lambda>sv'.
     res_bind (sv_save K w sv') (\<lambda>(err, w'). Inr (sv', w')))"

definition sv_Used :: "'h StateVector \<Rightarrow> u32 \<Rightarrow> fault + bool" where
  "sv_Used sv keyNum = sv_used sv keyNum"

text \<open>\<open>Next\<close>, on the contrary, panics when it cannot save.\<close>

definition sv_Next ::
  "('h, 'w) KV_ops \<Rightarrow> 'w \<Rightarrow> 'h StateVector \<Rightarrow>
   fault + ((sv_error + u32) \<times> 'h StateVector \<times> 'w)" where
  "sv_Next K w sv =
     (if sv_numKeys sv \<le> sv_firstAvailable sv then Inr (Inl NoKeysErr, sv, w)
      else
        let nextKey = sv_firstAvailable sv
        in res_bind (sv_use sv nextKey) (\<lambda>sv'.
           res_bind (sv_save K w sv') (\<lambda>(err, w').
             if err \<noteq> None then Inl FatalPanic else Inr (Inr nextKey, sv', w'))))"

definition LoadStateVector ::
  "('h, 'w) KV_ops \<Rightarrow> 'w \<Rightarrow> 'h \<Rightarrow> string \<Rightarrow> sv_error + 'h StateVector" where
  "LoadStateVector K w h key =
     (let sv = \<lparr>sv_vect = [], sv_firstAvailable = 0, sv_numKeys = 0, sv_numAvailable = 0,
                sv_disableKV = False, sv_key = makeStateVectorKey key, sv_kv = Some h\<rparr>
      in case KV_Get K h w (sv_key sv) currentStateVectorVersion of
           Inl err \<Rightarrow> Inl (LoadGetErr err)
         | Inr obj \<Rightarrow>
             (case sv_UnmarshalJSON (obj_Data obj) sv of
                None \<Rightarrow> Inl LoadUnmarshalErr
              | Some sv' \<Rightarrow> Inr sv'))"

definition sv_Delete ::
  "('h, 'w) KV_ops \<Rightarrow> 'w \<Rightarrow> 'h StateVector \<Rightarrow> fault + (kv_error option \<times> 'w)" where
  "sv_Delete K w sv =
     (if sv_disableKV sv then Inr (None, w)
      else case sv_kv sv of
        None \<Rightarrow> Inl NilDereference
      | Some h \<Rightarrow> Inr (KV_Delete K h w (sv_key sv) currentStateVectorVersion))"

section \<open>Specification\<close>

text \<open>\<open>n\<close> calls of \<open>Next\<close> in a row, stopping at its error.\<close>

fun sv_next_keys ::
  "('h, 'w) KV_ops \<Rightarrow> nat \<Rightarrow> 'w \<Rightarrow> 'h StateVector \<Rightarrow>
   fault + (u32 list \<times> 'h StateVector \<times> 'w)" where
  "sv_next_keys K 0 w sv = Inr ([], sv, w)"
| "sv_next_keys K (Suc n) w sv =
     res_bind (sv_Next K w sv) (\<lambda>(r, sv', w').
       case r of
         Inl err \<Rightarrow> Inr ([], sv', w')
       | Inr k \<Rightarrow> res_bind (sv_next_keys K n w' sv') (\<lambda>(ks, sv'', w''). Inr (k # ks, sv'', w'')))"

text \<open>Bit \<open>k\<close> of the field, the set of used keys, and the representation invariant: the field has
  room for the keys, the spare bits are zero, the counter of unused keys is right and
  \<open>firstAvailable\<close> is the least unused key (or the number of keys).\<close>

definition vbit :: "u64 list \<Rightarrow> nat \<Rightarrow> bool" where
  "vbit vect k = bit (vect ! (k div 64)) (k mod 64)"

definition used_set :: "'h StateVector \<Rightarrow> nat set" where
  "used_set sv = {k. k < unat (sv_numKeys sv) \<and> vbit (sv_vect sv) k}"

definition sv_shape :: "'h StateVector \<Rightarrow> bool" where
  "sv_shape sv =
     (length (sv_vect sv) = (unat (sv_numKeys sv) + 63) div 64 \<and>
      unat (sv_numKeys sv) + 63 < 2 ^ 32 \<and>
      (\<forall>k. unat (sv_numKeys sv) \<le> k \<and> k < 64 * length (sv_vect sv) \<longrightarrow> \<not> vbit (sv_vect sv) k))"

definition sv_inv :: "'h StateVector \<Rightarrow> bool" where
  "sv_inv sv =
     (sv_shape sv \<and>
      unat (sv_numAvailable sv) + card (used_set sv) = unat (sv_numKeys sv) \<and>
      unat (sv_firstAvailable sv) \<le> unat (sv_numKeys sv) \<and>
      {..<unat (sv_firstAvailable sv)} \<subseteq> used_set sv \<and>
      unat (sv_firstAvailable sv) \<notin> used_set sv)"

text \<open>The contract of a vector of keys that are handed out once, over the set of used keys.\<close>

locale key_vector =
  fixes inv :: "'s \<Rightarrow> bool"
    and cap :: "'s \<Rightarrow> nat"
    and used :: "'s \<Rightarrow> nat set"
    and use :: "'s \<Rightarrow> u32 \<Rightarrow> fault + 's"
    and unuse :: "'s \<Rightarrow> u32 \<Rightarrow> fault + 's"
    and first :: "'s \<Rightarrow> u32"
  assumes use_law:
      "inv s \<Longrightarrow> unat k < cap s \<Longrightarrow>
       \<exists>s'. use s k = Inr s' \<and> inv s' \<and> cap s' = cap s \<and> used s' = insert (unat k) (used s)"
    and unuse_law:
      "inv s \<Longrightarrow> unat k < cap s \<Longrightarrow>
       \<exists>s'. unuse s k = Inr s' \<and> inv s' \<and> cap s' = cap s \<and> used s' = used s - {unat k}"
    and used_bound: "inv s \<Longrightarrow> used s \<subseteq> {..<cap s}"
    and first_bound: "inv s \<Longrightarrow> unat (first s) \<le> cap s"
    and first_least: "inv s \<Longrightarrow> j < unat (first s) \<Longrightarrow> j \<in> used s"
    and first_unused: "inv s \<Longrightarrow> unat (first s) \<notin> used s"
begin

text \<open>Taking the first available key \<open>n\<close> times.\<close>

fun take_keys :: "nat \<Rightarrow> 's \<Rightarrow> fault + u32 list \<times> 's" where
  "take_keys 0 s = Inr ([], s)"
| "take_keys (Suc n) s =
     res_bind (use s (first s)) (\<lambda>s'.
     res_bind (take_keys n s') (\<lambda>(ks, s''). Inr (first s # ks, s'')))"

lemma finite_used: "inv s \<Longrightarrow> finite (used s)"
  using used_bound finite_subset by blast

lemma first_free: "inv s \<Longrightarrow> card (used s) < cap s \<Longrightarrow> unat (first s) < cap s"
proof (rule ccontr)
  assume i: "inv s" and c: "card (used s) < cap s" and f: "\<not> unat (first s) < cap s"
  have "j \<in> used s" if "j < cap s" for j
    using first_least [OF i, of j] that f by linarith
  then have "card {..<cap s} \<le> card (used s)"
    by (intro card_mono finite_used [OF i]) auto
  with c show False by simp
qed

lemma take_keys_law:
  "inv s \<Longrightarrow> card (used s) + n \<le> cap s \<Longrightarrow>
   \<exists>ks s'. take_keys n s = Inr (ks, s') \<and> length ks = n \<and> sorted_wrt (<) ks \<and>
     unat ` set ks \<inter> used s = {} \<and> inv s' \<and> cap s' = cap s \<and>
     used s' = used s \<union> unat ` set ks"
proof (induction n arbitrary: s)
  case 0
  then show ?case by simp
next
  case (Suc n)
  have "card (used s) < cap s" using Suc.prems by simp
  then have free: "unat (first s) < cap s" by (rule first_free [OF Suc.prems(1)])
  from use_law [OF Suc.prems(1) free] obtain s1 where s1: "use s (first s) = Inr s1" "inv s1"
      "cap s1 = cap s" "used s1 = insert (unat (first s)) (used s)" by blast
  have "card (used s1) = Suc (card (used s))"
    using s1(4) finite_used [OF Suc.prems(1)] first_unused [OF Suc.prems(1)] by simp
  with Suc.prems s1 Suc.IH [of s1] obtain ks s' where r: "take_keys n s1 = Inr (ks, s')"
      "length ks = n" "sorted_wrt (<) ks" "unat ` set ks \<inter> used s1 = {}" "inv s'"
      "cap s' = cap s" "used s' = used s1 \<union> unat ` set ks" by auto
  have "first s < k" if "k \<in> set ks" for k
  proof -
    from that have "unat k \<in> unat ` set ks" by simp
    with r(4) s1(4) have "unat k \<notin> used s" "unat k \<noteq> unat (first s)" by auto
    then show ?thesis
      using first_least [OF Suc.prems(1), of "unat k"] by (metis linorder_neqE_nat word_less_nat_alt)
  qed
  with r s1 have "sorted_wrt (<) (first s # ks)" "unat ` set (first s # ks) \<inter> used s = {}"
      "used s' = used s \<union> unat ` set (first s # ks)"
    using first_unused [OF Suc.prems(1)] by auto
  with r s1 show ?case by simp
qed

end

section \<open>Lemmas\<close>

lemma and_1_bit: "(drop_bit n b AND 1 = 1) = bit (b :: u64) n"
  by (simp add: and_one_eq bit_iff_odd_drop_bit odd_iff_mod_2_eq_one)

lemma unat_block [simp]: "unat (k div 64 :: u32) = unat k div 64" "unat (k mod 64 :: u32) = unat k mod 64"
  by (simp_all add: unat_div unat_mod)

lemma sv_used_eq:
  "unat k < 64 * length (sv_vect sv) \<Longrightarrow> sv_used sv k = Inr (vbit (sv_vect sv) (unat k))"
  by (simp add: sv_used_def getBlockAndPos_def and_1_bit vbit_def)

lemma sv_used_out_of_range:
  "64 * length (sv_vect sv) \<le> unat k \<Longrightarrow> sv_used sv k = Inl IndexOutOfRange"
  by (simp add: sv_used_def getBlockAndPos_def index_def)

lemma div_mod_64_eq: "j div 64 = k div 64 \<Longrightarrow> (j mod 64 = k mod 64) = (j = (k::nat))"
  by (metis div_mult_mod_eq)

lemma vbit_set:
  assumes "k < 64 * length vect"
  shows "vbit (vect[k div 64 := vect ! (k div 64) OR push_bit (k mod 64) 1]) j = (j = k \<or> vbit vect j)"
proof (cases "j div 64 = k div 64")
  case True
  with assms show ?thesis
    using div_mod_64_eq [OF True]
    by (auto simp: vbit_def bit_or_iff bit_exp_iff)
qed (auto simp: vbit_def)

lemma vbit_clear:
  assumes "k < 64 * length vect"
  shows "vbit (vect[k div 64 := vect ! (k div 64) AND NOT (push_bit (k mod 64) 1)]) j =
    (j \<noteq> k \<and> vbit vect j)"
proof (cases "j div 64 = k div 64")
  case True
  have "\<not> 64 \<le> j mod 64" by simp
  with True assms show ?thesis
    using div_mod_64_eq [OF True]
    by (auto simp: vbit_def bit_and_iff bit_not_iff bit_exp_iff)
qed (auto simp: vbit_def)

lemma sv_scan_returns:
  assumes "64 * length vect < 2 ^ 32"
  shows "unat pos \<le> 64 * length vect \<Longrightarrow>
    \<exists>p. sv_scan vect pos = Some p \<and> unat pos \<le> unat p \<and> unat p \<le> 64 * length vect \<and>
      (\<forall>j. unat pos \<le> j \<and> j < unat p \<longrightarrow> vbit vect j) \<and>
      (unat p < 64 * length vect \<longrightarrow> \<not> vbit vect (unat p))"
proof (induction "64 * length vect - unat pos" arbitrary: pos rule: less_induct)
  case less
  have len: "unat (word_of_nat (length vect) :: u32) = length vect"
    using assms by (simp add: unat_of_nat)
  have guard: "(pos div 64 < word_of_nat (length vect) \<and>
      drop_bit (unat (pos mod 64)) (vect ! unat (pos div 64)) AND 1 = 1) \<longleftrightarrow>
      unat pos < 64 * length vect \<and> vbit vect (unat pos)"
    by (auto simp: word_less_nat_alt len and_1_bit vbit_def)
  show ?case
  proof (cases "unat pos < 64 * length vect \<and> vbit vect (unat pos)")
    case True
    then have up: "unat (pos + 1) = Suc (unat pos)"
      using assms by (simp add: unat_word_ariths)
    then have "64 * length vect - unat (pos + 1) < 64 * length vect - unat pos"
      using True by linarith
    from less.hyps [OF this] up True obtain p where p: "sv_scan vect (pos + 1) = Some p"
      "Suc (unat pos) \<le> unat p" "unat p \<le> 64 * length vect"
      "\<forall>j. Suc (unat pos) \<le> j \<and> j < unat p \<longrightarrow> vbit vect j"
      "unat p < 64 * length vect \<longrightarrow> \<not> vbit vect (unat p)" by auto
    have "sv_scan vect pos = Some p"
      using True p(1) by (subst sv_scan.simps) (simp only: guard simp_thms if_True)
    moreover have "\<forall>j. unat pos \<le> j \<and> j < unat p \<longrightarrow> vbit vect j"
      using p(4) True by (metis Suc_leI le_eq_less_or_eq)
    ultimately show ?thesis using p by auto
  next
    case False
    then have "sv_scan vect pos = Some pos"
      by (subst sv_scan.simps) (simp only: guard simp_thms if_False)
    with False less.prems show ?thesis by auto
  qed
qed

lemma used_set_upd [simp]:
  "used_set (sv\<lparr>sv_firstAvailable := p\<rparr>) = used_set sv"
  "used_set (sv\<lparr>sv_vect := v, sv_numAvailable := na\<rparr>) = used_set (sv\<lparr>sv_vect := v\<rparr>)"
  "sv_shape (sv\<lparr>sv_firstAvailable := p\<rparr>) = sv_shape sv"
  "sv_shape (sv\<lparr>sv_vect := v, sv_numAvailable := na\<rparr>) = sv_shape (sv\<lparr>sv_vect := v\<rparr>)"
  by (simp_all add: used_set_def sv_shape_def)

lemma finite_used_set [simp]: "finite (used_set sv)"
  by (simp add: used_set_def)

lemma sv_shape_bounds:
  assumes "sv_shape sv"
  shows "unat (sv_numKeys sv) \<le> 64 * length (sv_vect sv)" "64 * length (sv_vect sv) < 2 ^ 32"
  using assms by (auto simp: sv_shape_def)

lemma sv_shape_used:
  "sv_shape sv \<Longrightarrow> j < 64 * length (sv_vect sv) \<Longrightarrow> vbit (sv_vect sv) j \<Longrightarrow> j \<in> used_set sv"
  by (auto simp: sv_shape_def used_set_def not_less)

definition set_key :: "'h StateVector \<Rightarrow> nat \<Rightarrow> 'h StateVector" where
  "set_key sv k =
     sv\<lparr>sv_vect := (sv_vect sv)[k div 64 := (sv_vect sv ! (k div 64)) OR push_bit (k mod 64) 1],
        sv_numAvailable := sv_numAvailable sv - 1\<rparr>"

definition clear_key :: "'h StateVector \<Rightarrow> nat \<Rightarrow> 'h StateVector" where
  "clear_key sv k =
     sv\<lparr>sv_vect := (sv_vect sv)[k div 64 := (sv_vect sv ! (k div 64)) AND NOT (push_bit (k mod 64) 1)],
        sv_numAvailable := sv_numAvailable sv + 1\<rparr>"

lemma set_key_fields [simp]:
  "sv_numKeys (set_key sv k) = sv_numKeys sv" "sv_firstAvailable (set_key sv k) = sv_firstAvailable sv"
  "length (sv_vect (set_key sv k)) = length (sv_vect sv)"
  "sv_numAvailable (set_key sv k) = sv_numAvailable sv - 1"
  "sv_numKeys (clear_key sv k) = sv_numKeys sv" "sv_firstAvailable (clear_key sv k) = sv_firstAvailable sv"
  "length (sv_vect (clear_key sv k)) = length (sv_vect sv)"
  "sv_numAvailable (clear_key sv k) = sv_numAvailable sv + 1"
  by (simp_all add: set_key_def clear_key_def)

lemma sv_use_unfold:
  assumes "unat k < 64 * length (sv_vect sv)"
  shows "sv_use sv k =
    (if vbit (sv_vect sv) (unat k) then Inr sv
     else if k = sv_firstAvailable sv then sv_nextAvailable (set_key sv (unat k))
     else Inr (set_key sv (unat k)))"
  using sv_used_eq [OF assms] by (simp add: sv_use_def set_key_def getBlockAndPos_def Let_def)

lemma sv_unuse_unfold:
  assumes "unat k < 64 * length (sv_vect sv)"
  shows "sv_unuse sv k =
    (if \<not> vbit (sv_vect sv) (unat k) then Inr sv
     else if k < sv_firstAvailable sv
     then Inr ((clear_key sv (unat k))\<lparr>sv_firstAvailable := k\<rparr>)
     else Inr (clear_key sv (unat k)))"
  using sv_used_eq [OF assms] by (simp add: sv_unuse_def clear_key_def getBlockAndPos_def Let_def)

lemma set_key_spec:
  assumes "sv_shape sv" "k < unat (sv_numKeys sv)"
  shows "sv_shape (set_key sv k)" "used_set (set_key sv k) = insert k (used_set sv)"
proof -
  have "k < 64 * length (sv_vect sv)" using assms sv_shape_bounds by fastforce
  from vbit_set [OF this] have b: "vbit (sv_vect (set_key sv k)) j = (j = k \<or> vbit (sv_vect sv) j)" for j
    by (simp add: set_key_def)
  show "used_set (set_key sv k) = insert k (used_set sv)"
    using assms(2) by (auto simp: used_set_def b)
  show "sv_shape (set_key sv k)"
    using assms unfolding sv_shape_def by (auto simp: b)
qed

lemma clear_key_spec:
  assumes "sv_shape sv" "k < unat (sv_numKeys sv)"
  shows "sv_shape (clear_key sv k)" "used_set (clear_key sv k) = used_set sv - {k}"
proof -
  have "k < 64 * length (sv_vect sv)" using assms sv_shape_bounds by fastforce
  from vbit_clear [OF this] have b: "vbit (sv_vect (clear_key sv k)) j = (j \<noteq> k \<and> vbit (sv_vect sv) j)" for j
    by (simp add: clear_key_def)
  show "used_set (clear_key sv k) = used_set sv - {k}"
    by (auto simp: used_set_def b)
  show "sv_shape (clear_key sv k)"
    using assms unfolding sv_shape_def by (auto simp: b)
qed

lemma used_set_bound: "used_set sv \<subseteq> {..<unat (sv_numKeys sv)}"
  by (auto simp: used_set_def)

lemma card_used_less:
  "k < unat (sv_numKeys sv) \<Longrightarrow> k \<notin> used_set sv \<Longrightarrow> card (used_set sv) < unat (sv_numKeys sv)"
proof -
  assume "k < unat (sv_numKeys sv)" "k \<notin> used_set sv"
  then have "card (insert k (used_set sv)) \<le> card {..<unat (sv_numKeys sv)}"
    using used_set_bound [of sv] by (intro card_mono) auto
  with \<open>k \<notin> used_set sv\<close> show ?thesis by simp
qed

lemma unat_dec: "0 < unat (x :: 'a::len word) \<Longrightarrow> unat (x - 1) = unat x - 1"
  by (simp add: unat_minus_one unat_gt_0)

lemma unat_inc: "unat (x :: 'a::len word) + 1 < 2 ^ LENGTH('a) \<Longrightarrow> unat (x + 1) = unat x + 1"
  by (simp add: unat_word_ariths)

lemma sv_next_spec:
  assumes "sv_shape sv" "unat (sv_firstAvailable sv) < unat (sv_numKeys sv)"
    and "{..unat (sv_firstAvailable sv)} \<subseteq> used_set sv"
    and "unat (sv_numAvailable sv) + card (used_set sv) = unat (sv_numKeys sv)"
  shows "\<exists>p. sv_nextAvailable sv = Inr (sv\<lparr>sv_firstAvailable := p\<rparr>) \<and> sv_inv (sv\<lparr>sv_firstAvailable := p\<rparr>)"
proof -
  let ?n = "unat (sv_numKeys sv)" and ?fa = "unat (sv_firstAvailable sv)"
  note b = sv_shape_bounds [OF assms(1)]
  have up: "unat (sv_firstAvailable sv + 1) = Suc ?fa"
    using assms(2) b by (subst unat_inc) auto
  from sv_scan_returns [OF b(2), of "sv_firstAvailable sv + 1"] up assms(2) b(1)
  obtain p where p: "sv_scan (sv_vect sv) (sv_firstAvailable sv + 1) = Some p" "Suc ?fa \<le> unat p"
    "unat p \<le> 64 * length (sv_vect sv)"
    "\<forall>j. Suc ?fa \<le> j \<and> j < unat p \<longrightarrow> vbit (sv_vect sv) j"
    "unat p < 64 * length (sv_vect sv) \<longrightarrow> \<not> vbit (sv_vect sv) (unat p)" by auto
  have below: "j \<in> used_set sv" if "j < unat p" for j
  proof (cases "j \<le> ?fa")
    case True
    with assms(3) show ?thesis by auto
  next
    case False
    with that p show ?thesis by (intro sv_shape_used [OF assms(1)]) auto
  qed
  have "unat p \<le> ?n" using below [of ?n] used_set_bound [of sv] by (auto simp: not_less [symmetric])
  moreover have "unat p \<notin> used_set sv"
    using p(5) b(1) by (auto simp: used_set_def)
  ultimately have "sv_inv (sv\<lparr>sv_firstAvailable := p\<rparr>)"
    using below assms by (auto simp: sv_inv_def)
  with p(1) show ?thesis by (auto simp: sv_nextAvailable_def)
qed

lemma sv_use_spec:
  assumes "sv_inv sv" "unat k < unat (sv_numKeys sv)"
  shows "\<exists>sv'. sv_use sv k = Inr sv' \<and> sv_inv sv' \<and> sv_numKeys sv' = sv_numKeys sv \<and>
    used_set sv' = insert (unat k) (used_set sv)"
proof -
  have sh: "sv_shape sv" using assms(1) by (simp add: sv_inv_def)
  then have kb: "unat k < 64 * length (sv_vect sv)" using assms(2) sv_shape_bounds by fastforce
  note u = sv_use_unfold [OF kb]
  show ?thesis
  proof (cases "vbit (sv_vect sv) (unat k)")
    case True
    then have "unat k \<in> used_set sv" using sv_shape_used [OF sh kb] by blast
    with True u assms(1) show ?thesis by (auto simp: insert_absorb)
  next
    case False
    then have unused: "unat k \<notin> used_set sv" by (simp add: used_set_def)
    let ?sv = "set_key sv (unat k)"
    note s = set_key_spec [OF sh assms(2)]
    have "0 < unat (sv_numAvailable sv)"
      using card_used_less [OF assms(2) unused] assms(1) by (simp add: sv_inv_def)
    then have count: "unat (sv_numAvailable ?sv) + card (used_set ?sv) = unat (sv_numKeys ?sv)"
      using assms(1) unused s(2) by (simp add: sv_inv_def unat_dec)
    show ?thesis
    proof (cases "k = sv_firstAvailable sv")
      case True
      then have "{..unat (sv_firstAvailable ?sv)} \<subseteq> used_set ?sv"
        using assms(1) s(2) by (auto simp: sv_inv_def le_eq_less_or_eq)
      with sv_next_spec [OF s(1) _ _ count] assms(2) True obtain p where
        "sv_nextAvailable ?sv = Inr (?sv\<lparr>sv_firstAvailable := p\<rparr>)"
        "sv_inv (?sv\<lparr>sv_firstAvailable := p\<rparr>)" by auto
      with u False True s(2) show ?thesis by auto
    next
      case neq: False
      then have "unat k \<noteq> unat (sv_firstAvailable sv)" by (simp add: word_unat_eq_iff)
      then have "sv_inv ?sv"
        using assms(1) s count by (auto simp: sv_inv_def)
      with u False neq s(2) show ?thesis by auto
    qed
  qed
qed

lemma sv_unuse_spec:
  assumes "sv_inv sv" "unat k < unat (sv_numKeys sv)"
  shows "\<exists>sv'. sv_unuse sv k = Inr sv' \<and> sv_inv sv' \<and> sv_numKeys sv' = sv_numKeys sv \<and>
    used_set sv' = used_set sv - {unat k}"
proof -
  have sh: "sv_shape sv" using assms(1) by (simp add: sv_inv_def)
  then have kb: "unat k < 64 * length (sv_vect sv)" using assms(2) sv_shape_bounds by fastforce
  note u = sv_unuse_unfold [OF kb]
  show ?thesis
  proof (cases "vbit (sv_vect sv) (unat k)")
    case False
    then have "unat k \<notin> used_set sv" by (simp add: used_set_def)
    with False u assms(1) show ?thesis by auto
  next
    case True
    then have used: "unat k \<in> used_set sv" using sv_shape_used [OF sh kb] by blast
    let ?sv = "clear_key sv (unat k)"
    note s = clear_key_spec [OF sh assms(2)]
    have "0 < card (used_set sv)" using used by (auto simp: card_gt_0_iff)
    then have "unat (sv_numAvailable sv) < unat (sv_numKeys sv)"
      using assms(1) by (simp add: sv_inv_def)
    then have "unat (sv_numAvailable sv + 1) = unat (sv_numAvailable sv) + 1"
      using unsigned_less [of "sv_numKeys sv", where ?'a = nat] by (intro unat_inc) linarith
    then have count: "unat (sv_numAvailable ?sv) + card (used_set ?sv) = unat (sv_numKeys ?sv)"
      using assms(1) used \<open>0 < card (used_set sv)\<close> s(2) by (simp add: sv_inv_def)
    show ?thesis
    proof (cases "k < sv_firstAvailable sv")
      case True
      then have "unat k < unat (sv_firstAvailable sv)" by (simp add: word_less_nat_alt)
      then have "sv_inv (?sv\<lparr>sv_firstAvailable := k\<rparr>)"
        using assms s count by (auto simp: sv_inv_def)
      with u True \<open>vbit (sv_vect sv) (unat k)\<close> s(2) show ?thesis by auto
    next
      case False
      then have "\<not> unat k < unat (sv_firstAvailable sv)" by (simp add: word_less_nat_alt)
      then have "sv_inv ?sv"
        using assms(1) s count by (auto simp: sv_inv_def)
      with u False \<open>vbit (sv_vect sv) (unat k)\<close> s(2) show ?thesis by auto
    qed
  qed
qed

interpretation sv: key_vector sv_inv "\<lambda>sv. unat (sv_numKeys sv)" used_set sv_use sv_unuse sv_firstAvailable
proof unfold_locales
  fix sv :: "'a StateVector" and k :: u32
  assume "sv_inv sv" "unat k < unat (sv_numKeys sv)"
  from sv_use_spec [OF this] sv_unuse_spec [OF this]
  show "\<exists>s'. sv_use sv k = Inr s' \<and> sv_inv s' \<and> unat (sv_numKeys s') = unat (sv_numKeys sv) \<and>
      used_set s' = insert (unat k) (used_set sv)"
    and "\<exists>s'. sv_unuse sv k = Inr s' \<and> sv_inv s' \<and> unat (sv_numKeys s') = unat (sv_numKeys sv) \<and>
      used_set s' = used_set sv - {unat k}" by auto
qed (auto simp: sv_inv_def used_set_def)

subsection \<open>Frames of the in-memory operations\<close>

text \<open>No operation in memory changes where the vector is stored.\<close>

definition same_place :: "'h StateVector \<Rightarrow> 'h StateVector \<Rightarrow> bool" where
  "same_place sv sv' =
     (sv_numKeys sv' = sv_numKeys sv \<and> sv_disableKV sv' = sv_disableKV sv \<and>
      sv_key sv' = sv_key sv \<and> sv_kv sv' = sv_kv sv)"

lemma sv_use_place: "sv_use sv k = Inr sv' \<Longrightarrow> same_place sv sv'"
  by (auto simp: sv_use_def res_bind_Inr_iff sv_nextAvailable_def getBlockAndPos_def Let_def
      same_place_def split: if_splits option.splits)

lemma sv_unuse_place: "sv_unuse sv k = Inr sv' \<Longrightarrow> same_place sv sv'"
  by (auto simp: sv_unuse_def res_bind_Inr_iff getBlockAndPos_def Let_def same_place_def
      split: if_splits)

lemma sv_use_all_spec:
  "sv_inv sv \<Longrightarrow> (\<forall>k \<in> set ks. unat k < unat (sv_numKeys sv)) \<Longrightarrow>
   \<exists>sv'. sv_use_all sv ks = Inr sv' \<and> sv_inv sv' \<and> same_place sv sv' \<and>
     used_set sv' = used_set sv \<union> unat ` set ks"
proof (induction ks arbitrary: sv)
  case Nil
  then show ?case by (simp add: same_place_def)
next
  case (Cons k ks)
  then obtain sv1 where 1: "sv_use sv k = Inr sv1" "sv_inv sv1" "sv_numKeys sv1 = sv_numKeys sv"
    "used_set sv1 = insert (unat k) (used_set sv)" using sv_use_spec [of sv k] by auto
  with Cons.IH [of sv1] Cons.prems obtain sv' where "sv_use_all sv1 ks = Inr sv'" "sv_inv sv'"
    "same_place sv1 sv'" "used_set sv' = used_set sv1 \<union> unat ` set ks" by auto
  with 1 sv_use_place [OF 1(1)] show ?case by (auto simp: same_place_def)
qed

lemma sv_unuse_all_spec:
  "sv_inv sv \<Longrightarrow> (\<forall>k \<in> set ks. unat k < unat (sv_numKeys sv)) \<Longrightarrow>
   \<exists>sv'. sv_unuse_all sv ks = Inr sv' \<and> sv_inv sv' \<and> same_place sv sv' \<and>
     used_set sv' = used_set sv - unat ` set ks"
proof (induction ks arbitrary: sv)
  case Nil
  then show ?case by (simp add: same_place_def)
next
  case (Cons k ks)
  then obtain sv1 where 1: "sv_unuse sv k = Inr sv1" "sv_inv sv1" "sv_numKeys sv1 = sv_numKeys sv"
    "used_set sv1 = used_set sv - {unat k}" using sv_unuse_spec [of sv k] by auto
  with Cons.IH [of sv1] Cons.prems obtain sv' where "sv_unuse_all sv1 ks = Inr sv'" "sv_inv sv'"
    "same_place sv1 sv'" "used_set sv' = used_set sv1 - unat ` set ks" by auto
  with 1 sv_unuse_place [OF 1(1)] show ?case by (auto simp: same_place_def)
qed

subsection \<open>Listing\<close>

lemma sv_collect_filter:
  "(\<forall>k \<in> set ks. unat k < 64 * length (sv_vect sv)) \<Longrightarrow>
   sv_collect sv wanted ks = Inr (filter (\<lambda>k. vbit (sv_vect sv) (unat k) = wanted) ks)"
  by (induction ks) (auto simp: sv_used_eq)

lemma unat_key_range: "map unat (key_range lo hi) = [unat lo..<unat hi]"
proof -
  have "unat (word_of_nat n :: u32) = n" if "n < unat hi" for n
    using that unsigned_less [of hi, where ?'a = nat] by (simp add: unat_of_nat)
  then show ?thesis by (auto simp: key_range_def intro: map_idI)
qed

lemma set_key_range: "k \<in> set (key_range lo hi) \<longleftrightarrow> lo \<le> k \<and> k < hi"
proof -
  have "k \<in> set (key_range lo hi) \<longleftrightarrow> unat k \<in> unat ` set (key_range lo hi)"
    by (auto dest: word_unat_eq_iff [THEN iffD2])
  also have "unat ` set (key_range lo hi) = set (map unat (key_range lo hi))" by simp
  finally show ?thesis by (simp only: unat_key_range) (simp add: word_le_nat_alt word_less_nat_alt)
qed

lemma sorted_key_range: "sorted_wrt (<) (key_range lo hi)"
proof -
  have "sorted_wrt (<) (map unat (key_range lo hi))" by (simp add: unat_key_range)
  moreover have "(\<lambda>x y. unat x < unat y) = ((<) :: u32 \<Rightarrow> u32 \<Rightarrow> bool)"
    by (simp add: fun_eq_iff word_less_nat_alt)
  ultimately show ?thesis by (simp only: sorted_wrt_map)
qed

lemma GetUnusedKeyNums_eq:
  assumes "sv_inv sv"
  shows "GetUnusedKeyNums sv =
    Inr (filter (\<lambda>k. unat k \<notin> used_set sv) (key_range (sv_firstAvailable sv) (sv_numKeys sv)))"
proof -
  have "unat (sv_numKeys sv) \<le> 64 * length (sv_vect sv)"
    using assms sv_shape_bounds(1) by (auto simp: sv_inv_def)
  then have in_range: "\<forall>k \<in> set (key_range (sv_firstAvailable sv) (sv_numKeys sv)).
      unat k < 64 * length (sv_vect sv)"
    by (auto simp: set_key_range word_less_nat_alt)
  show ?thesis
    unfolding GetUnusedKeyNums_def sv_collect_filter [OF in_range]
    by (auto simp: set_key_range used_set_def word_less_nat_alt intro: filter_cong)
qed

lemma GetUsedKeyNums_eq:
  assumes "sv_inv sv"
  shows "GetUsedKeyNums sv =
    Inr (filter (\<lambda>k. unat k \<in> used_set sv) (key_range 0 (sv_numKeys sv)))"
proof -
  have "unat (sv_numKeys sv) \<le> 64 * length (sv_vect sv)"
    using assms sv_shape_bounds(1) by (auto simp: sv_inv_def)
  then have in_range: "\<forall>k \<in> set (key_range 0 (sv_numKeys sv)). unat k < 64 * length (sv_vect sv)"
    by (auto simp: set_key_range word_less_nat_alt)
  show ?thesis
    unfolding GetUsedKeyNums_def sv_collect_filter [OF in_range]
    by (auto simp: set_key_range used_set_def word_less_nat_alt intro: filter_cong)
qed

lemma key_range_image:
  fixes P :: "nat \<Rightarrow> bool"
  shows "unat ` {k \<in> set (key_range lo hi). P (unat k)} = {j. unat lo \<le> j \<and> j < unat hi \<and> P j}"
proof -
  have "unat ` {k \<in> set (key_range lo hi). P (unat k)} = {j \<in> set (map unat (key_range lo hi)). P j}"
    by auto
  then show ?thesis by (simp only: unat_key_range) auto
qed

lemma unused_listing:
  assumes "sv_inv sv"
  shows "\<exists>us. GetUnusedKeyNums sv = Inr us \<and> sorted_wrt (<) us \<and>
    unat ` set us = {..<unat (sv_numKeys sv)} - used_set sv"
proof -
  let ?us = "filter (\<lambda>k. unat k \<notin> used_set sv) (key_range (sv_firstAvailable sv) (sv_numKeys sv))"
  have "unat ` set ?us = {..<unat (sv_numKeys sv)} - used_set sv"
    using key_range_image [of "sv_firstAvailable sv" "sv_numKeys sv" "\<lambda>j. j \<notin> used_set sv"] assms
    by (auto simp: sv_inv_def not_le [symmetric])
  moreover have "sorted_wrt (<) ?us" by (intro sorted_wrt_filter sorted_key_range)
  ultimately show ?thesis using GetUnusedKeyNums_eq [OF assms] by blast
qed

subsection \<open>Storage\<close>

lemma sv_unmarshal_marshal:
  "sv_UnmarshalJSON (sv_MarshalJSON sv) sv0 =
   Some (sv0\<lparr>sv_vect := sv_vect sv, sv_firstAvailable := sv_firstAvailable sv,
             sv_numKeys := sv_numKeys sv, sv_numAvailable := sv_numAvailable sv\<rparr>)"
  using those_map_Some [of "sv_vect sv" json_word word_json]
  by (simp add: sv_UnmarshalJSON_def sv_MarshalJSON_def)

definition stored_at :: "'h StateVector \<Rightarrow> 'h \<Rightarrow> string \<Rightarrow> bool" where
  "stored_at sv h key =
     (\<not> sv_disableKV sv \<and> sv_kv sv = Some h \<and> sv_key sv = makeStateVectorKey key)"

context versioned_kv
begin

lemma load_after_save:
  assumes "stored_at sv h key" "sv_save K w sv = Inr (None, w')"
  shows "LoadStateVector K w' h key = Inr sv"
proof -
  have "KV_Set K h w (sv_key sv) \<lparr>obj_Version = currentStateVectorVersion,
      obj_Timestamp = KV_Now K w, obj_Data = sv_MarshalJSON sv\<rparr> = (None, w')"
    using assms by (simp add: sv_save_def stored_at_def)
  from get_set [OF this] show ?thesis
    using assms(1)
    by (simp add: LoadStateVector_def stored_at_def Let_def sv_unmarshal_marshal)
qed

lemma save_frame:
  assumes "stored_at sv h key" "sv_save K w sv = Inr (None, w')"
    and "k' \<noteq> makeStateVectorKey key"
  shows "KV_Get K h w' k' ver = KV_Get K h w k' ver"
  using assms by (auto simp: sv_save_def stored_at_def intro!: get_set_other)

end

lemma NewStateVector_inv:
  assumes "unat numKeys + 63 < 2 ^ 32" "NewStateVector K w numKeys disableKV key h = Inr (sv, err, w')"
  shows "sv_inv sv" "used_set sv = {}" "sv_numKeys sv = numKeys"
proof -
  have "unat ((numKeys + 63) div 64) = (unat numKeys + 63) div 64"
    using assms(1) by (simp add: unat_word_ariths)
  then have sv: "length (sv_vect sv) = (unat numKeys + 63) div 64" "sv_vect sv = replicate (length (sv_vect sv)) 0"
      "sv_numKeys sv = numKeys" "sv_firstAvailable sv = 0" "sv_numAvailable sv = numKeys"
    using assms(2) by (auto simp: NewStateVector_def Let_def res_bind_Inr_iff)
  have z: "\<not> vbit (sv_vect sv) k" if "k < 64 * length (sv_vect sv)" for k
  proof -
    from that have "sv_vect sv ! (k div 64) = 0" by (subst sv(2)) simp
    then show ?thesis by (simp add: vbit_def)
  qed
  then show u: "used_set sv = {}" "sv_numKeys sv = numKeys"
    using sv by (auto simp: used_set_def)
  show "sv_inv sv"
    using sv z u assms(1) by (simp add: sv_inv_def sv_shape_def)
qed

subsection \<open>Next\<close>

text \<open>How \<open>Next\<close> ends, from the outcome of its save.\<close>

definition next_result ::
  "fault + (kv_error option \<times> 'w) \<Rightarrow> u32 \<Rightarrow> 'h StateVector \<Rightarrow>
   fault + ((sv_error + u32) \<times> 'h StateVector \<times> 'w)" where
  "next_result saved k sv' =
     (case saved of
        Inl f \<Rightarrow> Inl f
      | Inr (err, w') \<Rightarrow> (if err = None then Inr (Inr k, sv', w') else Inl FatalPanic))"

lemma sv_Next_full:
  assumes "sv_inv sv" "used_set sv = {..<unat (sv_numKeys sv)}"
  shows "sv_Next K w sv = Inr (Inl NoKeysErr, sv, w)"
proof -
  have "\<not> unat (sv_firstAvailable sv) < unat (sv_numKeys sv)"
    using assms by (auto simp: sv_inv_def)
  then show ?thesis by (simp add: sv_Next_def word_le_nat_alt)
qed

lemma sv_Next_free:
  assumes "sv_inv sv" "used_set sv \<noteq> {..<unat (sv_numKeys sv)}"
  obtains sv' where "sv_inv sv'" "same_place sv sv'"
    "unat (sv_firstAvailable sv) < unat (sv_numKeys sv)"
    "used_set sv' = insert (unat (sv_firstAvailable sv)) (used_set sv)"
    "sv_use sv (sv_firstAvailable sv) = Inr sv'"
    "sv_Next K w sv = next_result (sv_save K w sv') (sv_firstAvailable sv) sv'"
proof -
  have fa: "unat (sv_firstAvailable sv) < unat (sv_numKeys sv)"
  proof (rule ccontr)
    assume "\<not> unat (sv_firstAvailable sv) < unat (sv_numKeys sv)"
    then have "used_set sv = {..<unat (sv_numKeys sv)}"
      using assms(1) used_set_bound [of sv] by (auto simp: sv_inv_def)
    with assms(2) show False ..
  qed
  from sv_use_spec [OF assms(1) fa] obtain sv' where sv': "sv_use sv (sv_firstAvailable sv) = Inr sv'"
    "sv_inv sv'" "used_set sv' = insert (unat (sv_firstAvailable sv)) (used_set sv)" by blast
  have "sv_Next K w sv = next_result (sv_save K w sv') (sv_firstAvailable sv) sv'"
    using fa sv'(1)
    by (cases "sv_save K w sv'") (auto simp: sv_Next_def next_result_def word_le_nat_alt Let_def)
  with that sv' fa sv_use_place [OF sv'(1)] show ?thesis by blast
qed

definition saves_succeed :: "('h, 'w) KV_ops \<Rightarrow> 'h StateVector \<Rightarrow> bool" where
  "saves_succeed K sv = (\<forall>w sv'. same_place sv sv' \<longrightarrow> (\<exists>w'. sv_save K w sv' = Inr (None, w')))"

lemma same_place_trans: "same_place a b \<Longrightarrow> same_place b c \<Longrightarrow> same_place a c"
  by (simp add: same_place_def)

lemma saves_succeed_place:
  assumes "saves_succeed K sv" "same_place sv sv'"
  shows "saves_succeed K sv'"
  using assms(1) same_place_trans [OF assms(2)] by (simp add: saves_succeed_def)

lemma next_keys_take_keys:
  "sv_inv sv \<Longrightarrow> saves_succeed K sv \<Longrightarrow> card (used_set sv) + n \<le> unat (sv_numKeys sv) \<Longrightarrow>
   sv.take_keys n sv = Inr (ks, sv') \<Longrightarrow> \<exists>w'. sv_next_keys K n w sv = Inr (ks, sv', w')"
proof (induction n arbitrary: sv w ks)
  case 0
  then show ?case by simp
next
  case (Suc n)
  have free: "used_set sv \<noteq> {..<unat (sv_numKeys sv)}"
  proof
    assume "used_set sv = {..<unat (sv_numKeys sv)}"
    then have "card (used_set sv) = unat (sv_numKeys sv)" by (simp only: card_lessThan)
    with Suc.prems(3) show False by linarith
  qed
  obtain sv1 where 1: "sv_inv sv1" "same_place sv sv1"
    "used_set sv1 = insert (unat (sv_firstAvailable sv)) (used_set sv)"
    "sv_use sv (sv_firstAvailable sv) = Inr sv1"
    "sv_Next K w sv = next_result (sv_save K w sv1) (sv_firstAvailable sv) sv1"
    by (rule sv_Next_free [OF Suc.prems(1) free, of K w])
  obtain w1 where "sv_save K w sv1 = Inr (None, w1)"
    using Suc.prems(2) 1(2) by (meson saves_succeed_def)
  with 1(5) have nx: "sv_Next K w sv = Inr (Inr (sv_firstAvailable sv), sv1, w1)"
    by (simp add: next_result_def)
  obtain ks1 where ks: "ks = sv_firstAvailable sv # ks1" "sv.take_keys n sv1 = Inr (ks1, sv')"
    using Suc.prems(4) 1(4) by (auto simp: res_bind_Inr_iff)
  have "card (used_set sv1) \<le> Suc (card (used_set sv))" using 1(3) by (simp add: card_insert_if)
  then have "card (used_set sv1) + n \<le> unat (sv_numKeys sv1)"
    using 1(2) Suc.prems(3) by (simp add: same_place_def)
  from Suc.IH [OF 1(1) saves_succeed_place [OF Suc.prems(2) 1(2)] this ks(2)]
  obtain w2 where "sv_next_keys K n w1 sv1 = Inr (ks1, sv', w2)" by blast
  with ks(1) nx show ?case by simp
qed

section \<open>Properties\<close>

text \<open>C23: The bit field refines a set of key numbers. On a vector that satisfies the invariant and a
  key below the number of keys, \<open>used\<close> tests membership, \<open>use\<close> inserts, \<open>unuse\<close> removes, none of
  them panics or loops, the number of keys stays and the invariant (spare bits zero, unused
  counter exact, \<open>firstAvailable\<close> the least unused key) is kept.\<close>

theorem StateVector_refines_set:
  assumes "sv_inv sv" "unat k < unat (sv_numKeys sv)"
  shows "sv_used sv k = Inr (unat k \<in> used_set sv) \<and>
    (\<exists>sv'. sv_use sv k = Inr sv' \<and> sv_inv sv' \<and> same_place sv sv' \<and>
       used_set sv' = insert (unat k) (used_set sv)) \<and>
    (\<exists>sv'. sv_unuse sv k = Inr sv' \<and> sv_inv sv' \<and> same_place sv sv' \<and>
       used_set sv' = used_set sv - {unat k})"
proof (intro conjI)
  have "unat k < 64 * length (sv_vect sv)"
    using assms sv_shape_bounds(1) [of sv] by (simp add: sv_inv_def)
  from sv_used_eq [OF this] show "sv_used sv k = Inr (unat k \<in> used_set sv)"
    using assms(2) by (simp add: used_set_def)
qed (use sv_use_spec [OF assms] sv_unuse_spec [OF assms] sv_use_place [of sv k]
    sv_unuse_place [of sv k] in fastforce)+

definition sv_example :: "kv StateVector" where
  "sv_example =
     \<lparr>sv_vect = [1, 0], sv_firstAvailable = 1, sv_numKeys = 70, sv_numAvailable = 69,
      sv_disableKV = False, sv_key = makeStateVectorKey ''k'', sv_kv = Some NewKV\<rparr>"

lemma sv_example_bit: "k < 128 \<Longrightarrow> vbit [1, 0] k \<longleftrightarrow> k = 0"
proof (cases "k < 64")
  case False
  assume "k < 128"
  with False have "k div 64 = 1" by simp
  with False show ?thesis by (simp add: vbit_def)
qed (simp add: vbit_def bit_1_iff)

lemma sv_example_used: "used_set sv_example = {0}"
  by (auto simp: used_set_def sv_example_def sv_example_bit)

lemma sv_example_inv: "sv_inv sv_example"
proof -
  have "sv_shape sv_example" by (simp add: sv_shape_def sv_example_def sv_example_bit)
  moreover have "{..<unat (sv_firstAvailable sv_example)} = {0}" by (auto simp: sv_example_def)
  ultimately show ?thesis
    by (simp add: sv_inv_def sv_example_used) (simp add: sv_example_def)
qed

lemma sv_example_fields [simp]:
  "sv_numKeys sv_example = 70" "sv_firstAvailable sv_example = 1" "sv_numAvailable sv_example = 69"
  "stored_at sv_example NewKV ''k''"
  by (simp_all add: sv_example_def stored_at_def)

lemma sv_example_saves: "saves_succeed mem_KV sv_example"
  by (simp add: saves_succeed_def same_place_def sv_save_def sv_example_def mem_KV_simps)

theorem StateVector_refines_set_witness:
  "sv_used sv_example 0 = Inr True \<and>
   (\<exists>sv'. sv_use sv_example 1 = Inr sv' \<and> sv_inv sv' \<and> used_set sv' = {0, 1})"
proof -
  have "unat (0 :: u32) < unat (sv_numKeys sv_example)" "unat (1 :: u32) < unat (sv_numKeys sv_example)"
    by simp_all
  from StateVector_refines_set [OF sv_example_inv this(1)]
    StateVector_refines_set [OF sv_example_inv this(2)]
  show ?thesis by (auto simp: sv_example_used insert_commute)
qed

text \<open>C29: \<open>Next\<close> is exact. When every key is used it returns the error and changes nothing; otherwise
  it marks the least unused key, saves, returns that key if the save succeeded and panics if it
  failed.\<close>

theorem Next_returns_least_unused:
  assumes "sv_inv sv"
  shows "(used_set sv = {..<unat (sv_numKeys sv)} \<longrightarrow>
      sv_Next K w sv = Inr (Inl NoKeysErr, sv, w)) \<and>
    (used_set sv \<noteq> {..<unat (sv_numKeys sv)} \<longrightarrow>
      (\<exists>k sv'. unat k = (LEAST j. j \<notin> used_set sv) \<and> k < sv_numKeys sv \<and> sv_inv sv' \<and>
        same_place sv sv' \<and> used_set sv' = insert (unat k) (used_set sv) \<and>
        sv_Next K w sv = next_result (sv_save K w sv') k sv'))"
proof (intro conjI impI)
  assume free: "used_set sv \<noteq> {..<unat (sv_numKeys sv)}"
  obtain sv' where "sv_inv sv'" "same_place sv sv'"
    "unat (sv_firstAvailable sv) < unat (sv_numKeys sv)"
    "used_set sv' = insert (unat (sv_firstAvailable sv)) (used_set sv)"
    "sv_Next K w sv = next_result (sv_save K w sv') (sv_firstAvailable sv) sv'"
    by (rule sv_Next_free [OF assms free, of K w])
  moreover have "unat (sv_firstAvailable sv) = (LEAST j. j \<notin> used_set sv)"
    using assms by (intro Least_equality [symmetric]) (auto simp: sv_inv_def not_less [symmetric])
  ultimately show "\<exists>k sv'. unat k = (LEAST j. j \<notin> used_set sv) \<and> k < sv_numKeys sv \<and> sv_inv sv' \<and>
        same_place sv sv' \<and> used_set sv' = insert (unat k) (used_set sv) \<and>
        sv_Next K w sv = next_result (sv_save K w sv') k sv'"
    by (intro exI [of _ "sv_firstAvailable sv"] exI [of _ sv']) (simp add: word_less_nat_alt)
qed (rule sv_Next_full [OF assms])

theorem Next_returns_least_unused_witness:
  "\<exists>sv' w'. sv_Next mem_KV Map.empty sv_example = Inr (Inr 1, sv', w') \<and> used_set sv' = {0, 1}"
proof -
  have "5 \<in> {..<unat (sv_numKeys sv_example)}" "5 \<notin> used_set sv_example"
    by (simp_all add: sv_example_used)
  then have "used_set sv_example \<noteq> {..<unat (sv_numKeys sv_example)}" by blast
  moreover have "(LEAST j. j \<notin> used_set sv_example) = 1"
    by (rule Least_equality) (auto simp: sv_example_used)
  ultimately obtain k sv' where k: "unat k = 1" "same_place sv_example sv'"
    "used_set sv' = insert (unat k) (used_set sv_example)"
    "sv_Next mem_KV Map.empty sv_example = next_result (sv_save mem_KV Map.empty sv') k sv'"
    using Next_returns_least_unused [OF sv_example_inv, of mem_KV Map.empty] by metis
  obtain w' where "sv_save mem_KV Map.empty sv' = Inr (None, w')"
    using sv_example_saves k(2) by (meson saves_succeed_def)
  moreover have "k = 1" using k(1) by (metis unat_1 word_unat_eq_iff)
  ultimately show ?thesis using k by (auto simp: next_result_def insert_commute sv_example_used)
qed

text \<open>No key is handed out twice. While unused keys remain and the store accepts the saves,
  \<open>n\<close> calls of \<open>Next\<close> return \<open>n\<close> keys in strictly increasing order, none of which was used before,
  and exactly those become used.\<close>

theorem Next_never_repeats:
  assumes "sv_inv sv" "saves_succeed K sv" "n \<le> unat (GetNumAvailable sv)"
  shows "\<exists>ks sv' w'. sv_next_keys K n w sv = Inr (ks, sv', w') \<and> length ks = n \<and>
    sorted_wrt (<) ks \<and> unat ` set ks \<inter> used_set sv = {} \<and> sv_inv sv' \<and>
    used_set sv' = used_set sv \<union> unat ` set ks"
proof -
  have "card (used_set sv) + n \<le> unat (sv_numKeys sv)"
    using assms(1,3) by (simp add: sv_inv_def GetNumAvailable_def)
  with sv.take_keys_law [OF assms(1) this] next_keys_take_keys [OF assms(1,2) this]
  show ?thesis by metis
qed

theorem Next_never_repeats_witness:
  "\<exists>ks sv' w'. sv_next_keys mem_KV 60 Map.empty sv_example = Inr (ks, sv', w') \<and> length ks = 60 \<and>
    sorted_wrt (<) ks \<and> unat ` set ks \<inter> {0} = {}"
proof -
  have "60 \<le> unat (GetNumAvailable sv_example)" by (simp add: GetNumAvailable_def)
  from Next_never_repeats [OF sv_example_inv sv_example_saves this]
  show ?thesis unfolding sv_example_used by meson
qed

text \<open>The listings are exact: \<open>GetUnusedKeyNums\<close> (which starts at \<open>firstAvailable\<close>) and
  \<open>GetUsedKeyNums\<close> return, in increasing order, precisely the unused and the used keys, as many as
  the counters say.\<close>

theorem key_listings_exact:
  assumes "sv_inv sv"
  shows "\<exists>us vs. GetUnusedKeyNums sv = Inr us \<and> GetUsedKeyNums sv = Inr vs \<and>
    sorted_wrt (<) us \<and> sorted_wrt (<) vs \<and>
    unat ` set us = {..<unat (sv_numKeys sv)} - used_set sv \<and> unat ` set vs = used_set sv \<and>
    length us = unat (GetNumAvailable sv) \<and> length vs = unat (GetNumUsed sv)"
proof -
  obtain us where us: "GetUnusedKeyNums sv = Inr us" "sorted_wrt (<) us"
    "unat ` set us = {..<unat (sv_numKeys sv)} - used_set sv" using unused_listing [OF assms] by blast
  let ?vs = "filter (\<lambda>k. unat k \<in> used_set sv) (key_range 0 (sv_numKeys sv))"
  have vs: "unat ` set ?vs = used_set sv"
    using key_range_image [of 0 "sv_numKeys sv" "\<lambda>j. j \<in> used_set sv"] used_set_bound [of sv] by auto
  have so: "sorted_wrt (<) ?vs" by (intro sorted_wrt_filter sorted_key_range)
  have len: "length xs = card (unat ` set xs)" if "sorted_wrt (<) xs" for xs :: "u32 list"
    using that by (metis card_image distinct_card strict_sorted_iff injI subset_UNIV inj_on_subset word_unat_eq_iff)
  have na: "unat (sv_numAvailable sv) + card (used_set sv) = unat (sv_numKeys sv)"
    using assms by (simp add: sv_inv_def)
  then have "unat (GetNumUsed sv) = card (used_set sv)"
    by (simp add: GetNumUsed_def unat_sub word_le_nat_alt)
  moreover have "card ({..<unat (sv_numKeys sv)} - used_set sv) = unat (sv_numAvailable sv)"
    using na used_set_bound [of sv] by (simp add: card_Diff_subset)
  ultimately show ?thesis
    using GetUsedKeyNums_eq [OF assms] us vs so len [OF us(2)] len [OF so]
    by (simp add: GetNumAvailable_def)
qed

theorem key_listings_exact_witness:
  "\<exists>us. GetUnusedKeyNums sv_example = Inr us \<and> length us = 69 \<and> GetUsedKeyNums sv_example = Inr [0]"
proof -
  from key_listings_exact [OF sv_example_inv] obtain us vs where "GetUnusedKeyNums sv_example = Inr us"
    "length us = 69" "GetUsedKeyNums sv_example = Inr vs" "length vs = 1" "unat ` set vs = {0}"
    by (auto simp: sv_example_used GetNumAvailable_def GetNumUsed_def)
  moreover from this have "vs = [0]" by (cases vs) (auto simp: unat_eq_zero)
  ultimately show ?thesis by simp
qed

text \<open>What a state vector saves is what loading restores: after a successful save at a handle and
  key, over any encrypted store, \<open>LoadStateVector\<close> at that handle and key returns the same vector.\<close>

theorem StateVector_save_load:
  assumes "ekv_store E" "stored_at sv h key" "sv_save (versioned_ops E) w sv = Inr (None, w')"
  shows "LoadStateVector (versioned_ops E) w' h key = Inr sv"
proof -
  from assms(1) have "versioned_kv (versioned_ops E)" by (rule ekv_store.versioned)
  then show ?thesis using assms(2,3) by (rule versioned_kv.load_after_save)
qed

theorem StateVector_save_load_witness:
  "LoadStateVector mem_KV (snd (projr (sv_save mem_KV Map.empty sv_example))) NewKV ''k'' = Inr sv_example"
proof -
  have "sv_save mem_KV Map.empty sv_example = Inr (None, snd (projr (sv_save mem_KV Map.empty sv_example)))"
    by (simp add: sv_save_def sv_example_def mem_KV_simps)
  from StateVector_save_load [OF mem.ekv_store_axioms sv_example_fields(4) this]
  show ?thesis .
qed

end
