(* ===== verification/Multi_State_Vector.thy ===== *)
theory Multi_State_Vector
  imports Versioned_KV
begin

text \<open>
  The multi-state vector of \<open>storage/utility/multiStateVector.go\<close>: a list of keys, each in one of at
  most eight states, packed most significant bits first into 64-bit blocks. A block holds only
  whole states (\<open>64 / bitSize\<close> of them), an optional state map says which changes are allowed, and
  a counter per state is kept beside the field. The file transfers track their parts with it.
  The abstract specification is a function from key numbers to states (\<open>state_of\<close>).
\<close>

section \<open>State\<close>

record 'h MultiStateVector =
  msv_numKeys :: u16
  msv_numStates :: byte
  msv_bitSize :: byte
  msv_numKeysPerBlock :: byte
  msv_wordSize :: byte
  msv_vect :: "u64 list"
  msv_stateMap :: "bool list list option"
  msv_stateUseCount :: "u16 list"
  msv_key :: string
  msv_kv :: "'h option"

datatype msv_error =
    NumStateMinErr
  | NumStateMaxErr
  | StateMapLenErr
  | StateMapStateLenErr nat
  | KeyNumMaxErr
  | StateMaxErr
  | OldStateMaxErr
  | StateChangeErr
  | SetStateErr msv_error
  | SetManyStateErr nat msv_error
  | SetGetStateErr msv_error
  | SaveSetStateErr kv_error
  | SaveErr kv_error
  | MsvLoadGetErr kv_error
  | MsvLoadUnmarshalErr

definition multiStateVectorKey :: string where
  "multiStateVectorKey = ''multiStateVector/''"

definition multiStateVectorVersion :: u64 where
  "multiStateVectorVersion = 0"

definition minNumStates :: byte where "minNumStates = 2"
definition maxNumStates :: byte where "maxNumStates = 8"

definition makeMultiStateVectorKey :: "string \<Rightarrow> string" where
  "makeMultiStateVectorKey key = multiStateVectorKey @ key"

text \<open>\<open>uint8(math.Ceil(math.Log2(float64(n))))\<close> for an 8-bit \<open>n\<close>. \<open>Log2\<close> is exact on powers of two.
  For \<open>n = 0\<close> the conversion of minus infinity is left to the implementation; 0 is what amd64
  gives, and both lead to the division by zero of \<open>unmarshal\<close>.\<close>

fun ceil_log2 :: "nat \<Rightarrow> nat" where
  "ceil_log2 n = (if n \<le> 1 then 0 else Suc (ceil_log2 ((n + 1) div 2)))"

declare ceil_log2.simps [simp del]

definition state_bits :: "byte \<Rightarrow> byte" where
  "state_bits numStates = word_of_nat (ceil_log2 (unat numStates))"

section \<open>Positions and masks\<close>

definition go_div :: "'a::len word \<Rightarrow> 'a word \<Rightarrow> fault + 'a word" where
  "go_div a b = (if b = 0 then Inl DivideByZero else Inr (a div b))"

definition getMultiBlockAndPos :: "'h MultiStateVector \<Rightarrow> u16 \<Rightarrow> fault + (u16 \<times> u16)" where
  "getMultiBlockAndPos msv keyNum =
     (let kpb = ucast (msv_numKeysPerBlock msv) :: u16
      in res_bind (go_div keyNum kpb) (\<lambda>block.
           Inr (block, (keyNum mod kpb) * ucast (msv_bitSize msv))))"

definition checkStateMap :: "byte \<Rightarrow> bool list list option \<Rightarrow> msv_error option" where
  "checkStateMap numStates stateMap =
     (case stateMap of
        None \<Rightarrow> None
      | Some m \<Rightarrow>
          (if length m \<noteq> unat numStates then Some StateMapLenErr
           else case find (\<lambda>(i, row). length row \<noteq> unat numStates) (enumerate 0 m) of
             None \<Rightarrow> None
           | Some (i, row) \<Rightarrow> Some (StateMapStateLenErr i)))"

text \<open>\<open>uint64(math.MaxUint64)\<close> is \<open>-1\<close>; a shift by 64 or more gives 0, in Go and here.\<close>

definition shiftBitsIn :: "u64 \<Rightarrow> u16 \<Rightarrow> byte \<Rightarrow> fault + u64" where
  "shiftBitsIn bits keyNum bitSize =
     (if bitSize = 0 then Inr bits
      else
        let keysPerBlock = 64 div (ucast bitSize :: u16)
        in if keysPerBlock = 0 then Inl DivideByZero
           else
             let keyIndex = keyNum mod keysPerBlock;
                 pos = keyIndex * ucast bitSize
             in Inr (drop_bit (unat pos) bits))"

definition shiftBitsOut :: "u64 \<Rightarrow> u16 \<Rightarrow> byte \<Rightarrow> fault + u64" where
  "shiftBitsOut bits keyNum bitSize =
     (if bitSize = 0 then Inr bits
      else
        let keysPerBlock = 64 div (ucast bitSize :: u16)
        in if keysPerBlock = 0 then Inl DivideByZero
           else
             let keyIndex = keyNum mod keysPerBlock;
                 pos = keyIndex * ucast bitSize;
                 bitSizeShift = 64 - (ucast bitSize :: u64);
                 leftShift = push_bit (unat bitSizeShift) bits
             in Inr (drop_bit (unat pos) leftShift))"

definition getSelectionMask :: "u16 \<Rightarrow> byte \<Rightarrow> fault + u64" where
  "getSelectionMask keyNum bitSize =
     (let initialMask = push_bit (unat (64 - bitSize)) (-1)
      in shiftBitsIn initialMask keyNum bitSize)"

section \<open>Operations in memory\<close>

definition msv_get :: "'h MultiStateVector \<Rightarrow> u16 \<Rightarrow> fault + (msv_error + byte)" where
  "msv_get msv keyNum =
     (if keyNum > msv_numKeys msv - 1 then Inr (Inl KeyNumMaxErr)
      else
        res_bind (getMultiBlockAndPos msv keyNum) (\<lambda>(block, pos).
        let bitMask = drop_bit (unat (64 - msv_bitSize msv)) (-1 :: u64);
            shift = 64 - pos - ucast (msv_bitSize msv)
        in res_bind (index (msv_vect msv) (unat block)) (\<lambda>b.
             Inr (Inr (ucast (drop_bit (unat shift) b AND bitMask))))))"

definition msv_Get :: "'h MultiStateVector \<Rightarrow> u16 \<Rightarrow> fault + byte" where
  "msv_Get msv keyNum =
     res_bind (msv_get msv keyNum) (\<lambda>r. case r of Inl err \<Rightarrow> Inl FatalPanic | Inr state \<Rightarrow> Inr state)"

text \<open>Whether the state map, if there is one, forbids the change.\<close>

definition change_forbidden ::
  "bool list list option \<Rightarrow> byte \<Rightarrow> byte \<Rightarrow> fault + bool" where
  "change_forbidden stateMap oldState state =
     (case stateMap of
        None \<Rightarrow> Inr False
      | Some m \<Rightarrow>
          res_bind (index m (unat oldState)) (\<lambda>row.
          res_bind (index row (unat state)) (\<lambda>allowed. Inr (\<not> allowed))))"

definition msv_set ::
  "'h MultiStateVector \<Rightarrow> u16 \<Rightarrow> byte \<Rightarrow> fault + (msv_error option \<times> 'h MultiStateVector)" where
  "msv_set msv keyNum state =
     (if keyNum > msv_numKeys msv - 1 then Inr (Some KeyNumMaxErr, msv)
      else if state > msv_numStates msv - 1 then Inr (Some StateMaxErr, msv)
      else
        res_bind (msv_get msv keyNum) (\<lambda>r.
        case r of
          Inl err \<Rightarrow> Inr (Some (SetGetStateErr err), msv)
        | Inr oldState \<Rightarrow>
            if oldState > msv_numStates msv - 1 then Inr (Some OldStateMaxErr, msv)
            else
              res_bind (change_forbidden (msv_stateMap msv) oldState state) (\<lambda>forbidden.
              if forbidden then Inr (Some StateChangeErr, msv)
              else
                res_bind (getMultiBlockAndPos msv keyNum) (\<lambda>(block, _).
                res_bind (index (msv_vect msv) (unat block)) (\<lambda>b.
                res_bind (getSelectionMask keyNum (msv_bitSize msv)) (\<lambda>mask.
                res_bind (shiftBitsOut (ucast state) keyNum (msv_bitSize msv)) (\<lambda>bits.
                let vect = (msv_vect msv)[unat block := (b AND NOT mask) OR bits]
                in
                  res_bind (index (msv_stateUseCount msv) (unat oldState)) (\<lambda>c.
                  let count = (msv_stateUseCount msv)[unat oldState := c - 1]
                  in
                    res_bind (index count (unat state)) (\<lambda>d.
                    Inr (None, msv\<lparr>msv_vect := vect,
                                   msv_stateUseCount := count[unat state := d + 1]\<rparr>))))))))))"

definition msv_getCount :: "'h MultiStateVector \<Rightarrow> byte \<Rightarrow> msv_error + u16" where
  "msv_getCount msv state =
     (if length (msv_stateUseCount msv) \<le> unat state then Inl StateMaxErr
      else Inr (msv_stateUseCount msv ! unat state))"

definition msv_GetCount :: "'h MultiStateVector \<Rightarrow> byte \<Rightarrow> fault + u16" where
  "msv_GetCount msv state =
     (case msv_getCount msv state of Inl err \<Rightarrow> Inl FatalPanic | Inr count \<Rightarrow> Inr count)"

definition msv_GetNumKeys :: "'h MultiStateVector \<Rightarrow> u16" where
  "msv_GetNumKeys msv = msv_numKeys msv"

fun msv_keys_in :: "'h MultiStateVector \<Rightarrow> byte \<Rightarrow> u16 list \<Rightarrow> fault + (msv_error + u16 list)" where
  "msv_keys_in msv state [] = Inr (Inr [])"
| "msv_keys_in msv state (k # ks) =
     res_bind (msv_get msv k) (\<lambda>r.
     case r of
       Inl err \<Rightarrow> Inr (Inl KeyNumMaxErr)
     | Inr keyState \<Rightarrow>
         res_bind (msv_keys_in msv state ks) (\<lambda>r'.
         case r' of
           Inl err \<Rightarrow> Inr (Inl err)
         | Inr rest \<Rightarrow> Inr (Inr (if keyState = state then k # rest else rest))))"

definition msv_getKeys :: "'h MultiStateVector \<Rightarrow> byte \<Rightarrow> fault + (msv_error + u16 list)" where
  "msv_getKeys msv state =
     (if state > msv_numStates msv - 1 then Inr (Inl StateMaxErr)
      else
        res_bind (index (msv_stateUseCount msv) (unat state)) (\<lambda>capacity.
        msv_keys_in msv state (map word_of_nat [0..<unat (msv_numKeys msv)])))"

definition msv_GetKeys :: "'h MultiStateVector \<Rightarrow> byte \<Rightarrow> fault + u16 list" where
  "msv_GetKeys msv state =
     res_bind (msv_getKeys msv state) (\<lambda>r. case r of Inl err \<Rightarrow> Inl FatalPanic | Inr keys \<Rightarrow> Inr keys)"

definition msv_DeepCopy :: "'h MultiStateVector \<Rightarrow> 'h MultiStateVector" where
  "msv_DeepCopy msv =
     \<lparr>msv_numKeys = msv_numKeys msv, msv_numStates = msv_numStates msv,
      msv_bitSize = msv_bitSize msv, msv_numKeysPerBlock = msv_numKeysPerBlock msv,
      msv_wordSize = msv_wordSize msv, msv_vect = msv_vect msv, msv_stateMap = msv_stateMap msv,
      msv_stateUseCount = msv_stateUseCount msv, msv_key = msv_key msv, msv_kv = None\<rparr>"

section \<open>Storage\<close>

definition msv_marshal :: "'h MultiStateVector \<Rightarrow> bytes" where
  "msv_marshal msv =
     put_le16 (msv_numKeys msv) @ [msv_numStates msv] @
     put_le64 (word_of_nat (length (msv_vect msv))) @
     concat (map put_le64 (msv_vect msv)) @ concat (map put_le16 (msv_stateUseCount msv))"

text \<open>\<open>binary.Read\<close> from a reader: the value and what is left, or an error when too few bytes are
  left.\<close>

definition read_le :: "nat \<Rightarrow> bytes \<Rightarrow> ('a::len word \<times> bytes) option" where
  "read_le n bs =
     (if length bs < n then None else Some (word_of_nat (le_nat (take n bs)), drop n bs))"

fun read_list :: "nat \<Rightarrow> nat \<Rightarrow> bytes \<Rightarrow> ('a::len word list \<times> bytes) option" where
  "read_list n 0 bs = Some ([], bs)"
| "read_list n (Suc m) bs =
     (case read_le n bs of
        None \<Rightarrow> None
      | Some (x, bs') \<Rightarrow>
          (case read_list n m bs' of None \<Rightarrow> None | Some (xs, bs'') \<Rightarrow> Some (x # xs, bs'')))"

definition msv_unmarshal ::
  "bytes \<Rightarrow> 'h MultiStateVector \<Rightarrow> fault + (msv_error + 'h MultiStateVector)" where
  "msv_unmarshal b msv =
     (case read_le 2 b of
        None \<Rightarrow> Inr (Inl MsvLoadUnmarshalErr)
      | Some (numKeys, b1) \<Rightarrow>
     (case read_le 1 b1 of
        None \<Rightarrow> Inr (Inl MsvLoadUnmarshalErr)
      | Some (numStates, b2) \<Rightarrow>
          let bitSize = state_bits numStates
          in res_bind (go_div 64 bitSize) (\<lambda>kpb.
     case read_le 8 b2 of
        None \<Rightarrow> Inr (Inl MsvLoadUnmarshalErr)
      | Some (vectLen :: u64, b3) \<Rightarrow>
     (case read_list 8 (unat vectLen) b3 of
        None \<Rightarrow> Inr (Inl MsvLoadUnmarshalErr)
      | Some (vect, b4) \<Rightarrow>
     (case read_list 2 (unat numStates) b4 of
        None \<Rightarrow> Inr (Inl MsvLoadUnmarshalErr)
      | Some (counts, b5) \<Rightarrow>
          Inr (Inr (msv\<lparr>msv_numKeys := numKeys, msv_numStates := numStates,
                        msv_bitSize := bitSize, msv_numKeysPerBlock := kpb,
                        msv_wordSize := kpb * bitSize, msv_vect := vect,
                        msv_stateUseCount := counts\<rparr>)))))))"

definition msv_save ::
  "('h, 'w) KV_ops \<Rightarrow> 'w \<Rightarrow> 'h MultiStateVector \<Rightarrow> fault + (kv_error option \<times> 'w)" where
  "msv_save K w msv =
     (case msv_kv msv of
        None \<Rightarrow> Inl NilDereference
      | Some h \<Rightarrow>
          Inr (KV_Set K h w (msv_key msv)
                 \<lparr>obj_Version = multiStateVectorVersion, obj_Timestamp = KV_Now K w,
                  obj_Data = Raw (msv_marshal msv)\<rparr>))"

definition NewMultiStateVector ::
  "('h, 'w) KV_ops \<Rightarrow> 'w \<Rightarrow> u16 \<Rightarrow> byte \<Rightarrow> bool list list option \<Rightarrow> string \<Rightarrow> 'h \<Rightarrow>
   fault + (msv_error + ('h MultiStateVector \<times> kv_error option \<times> 'w))" where
  "NewMultiStateVector K w numKeys numStates stateMap key h =
     (if numStates < minNumStates then Inr (Inl NumStateMinErr)
      else if numStates > maxNumStates then Inr (Inl NumStateMaxErr)
      else case checkStateMap numStates stateMap of
        Some err \<Rightarrow> Inr (Inl err)
      | None \<Rightarrow>
          let numBits = state_bits numStates;
              numBlocks = ((numKeys * ucast numBits) + 63) div 64
          in res_bind (go_div 64 numBits) (\<lambda>kpb.
             let msv = \<lparr>msv_numKeys = numKeys, msv_numStates = numStates, msv_bitSize = numBits,
                        msv_numKeysPerBlock = kpb, msv_wordSize = kpb * numBits,
                        msv_vect = replicate (unat numBlocks) 0, msv_stateMap = stateMap,
                        msv_stateUseCount = (replicate (unat numStates) 0)[0 := numKeys],
                        msv_key = makeMultiStateVectorKey key, msv_kv = Some h\<rparr>
             in res_bind (msv_save K w msv) (\<lambda>(err, w'). Inr (Inr (msv, err, w')))))"

definition msv_setAndSave ::
  "('h, 'w) KV_ops \<Rightarrow> 'w \<Rightarrow> 'h MultiStateVector \<Rightarrow> u16 \<Rightarrow> byte \<Rightarrow>
   fault + (msv_error option \<times> 'h MultiStateVector \<times> 'w)" where
  "msv_setAndSave K w msv keyNum state =
     res_bind (msv_set msv keyNum state) (\<lambda>(err, msv').
     case err of
       Some e \<Rightarrow> Inr (Some (SetStateErr e), msv', w)
     | None \<Rightarrow>
         res_bind (msv_save K w msv') (\<lambda>(err', w').
         Inr (map_option SaveSetStateErr err', msv', w')))"

definition msv_Set ::
  "('h, 'w) KV_ops \<Rightarrow> 'w \<Rightarrow> 'h MultiStateVector \<Rightarrow> u16 \<Rightarrow> byte \<Rightarrow>
   fault + ('h MultiStateVector \<times> 'w)" where
  "msv_Set K w msv keyNum state =
     res_bind (msv_setAndSave K w msv keyNum state) (\<lambda>(err, msv', w').
     if err \<noteq> None then Inl FatalPanic else Inr (msv', w'))"

text \<open>The loop of \<open>setMany\<close> stops at the first error and keeps the keys set before it.\<close>

fun msv_set_all ::
  "'h MultiStateVector \<Rightarrow> nat \<Rightarrow> u16 list \<Rightarrow> byte \<Rightarrow> fault + (msv_error option \<times> 'h MultiStateVector)"
  where
  "msv_set_all msv i [] state = Inr (None, msv)"
| "msv_set_all msv i (k # ks) state =
     res_bind (msv_set msv k state) (\<lambda>(err, msv').
     case err of
       Some e \<Rightarrow> Inr (Some (SetManyStateErr (i + 1) e), msv')
     | None \<Rightarrow> msv_set_all msv' (i + 1) ks state)"

definition msv_setMany ::
  "('h, 'w) KV_ops \<Rightarrow> 'w \<Rightarrow> 'h MultiStateVector \<Rightarrow> u16 list \<Rightarrow> byte \<Rightarrow>
   fault + (msv_error option \<times> 'h MultiStateVector \<times> 'w)" where
  "msv_setMany K w msv keyNums state =
     res_bind (msv_set_all msv 0 keyNums state) (\<lambda>(err, msv').
     case err of
       Some e \<Rightarrow> Inr (Some e, msv', w)
     | None \<Rightarrow>
         res_bind (msv_save K w msv') (\<lambda>(err', w').
         Inr (map_option SaveErr err', msv', w')))"

definition msv_SetMany ::
  "('h, 'w) KV_ops \<Rightarrow> 'w \<Rightarrow> 'h MultiStateVector \<Rightarrow> u16 list \<Rightarrow> byte \<Rightarrow>
   fault + ('h MultiStateVector \<times> 'w)" where
  "msv_SetMany K w msv keyNums state =
     res_bind (msv_setMany K w msv keyNums state) (\<lambda>(err, msv', w').
     if err \<noteq> None then Inl FatalPanic else Inr (msv', w'))"

definition msv_CompareAndSwap ::
  "('h, 'w) KV_ops \<Rightarrow> 'w \<Rightarrow> 'h MultiStateVector \<Rightarrow> u16 \<Rightarrow> byte \<Rightarrow> byte \<Rightarrow>
   fault + (bool \<times> 'h MultiStateVector \<times> 'w)" where
  "msv_CompareAndSwap K w msv keyNum old new =
     res_bind (msv_Get msv keyNum) (\<lambda>state.
     if state = old then
       res_bind (msv_setAndSave K w msv keyNum new) (\<lambda>(err, msv', w').
       if err \<noteq> None then Inl FatalPanic else Inr (True, msv', w'))
     else Inr (False, msv, w))"

definition msv_CompareNotAndSwap ::
  "('h, 'w) KV_ops \<Rightarrow> 'w \<Rightarrow> 'h MultiStateVector \<Rightarrow> u16 \<Rightarrow> byte \<Rightarrow> byte \<Rightarrow>
   fault + (bool \<times> 'h MultiStateVector \<times> 'w)" where
  "msv_CompareNotAndSwap K w msv keyNum old new =
     res_bind (msv_Get msv keyNum) (\<lambda>state.
     if state \<noteq> old then
       res_bind (msv_setAndSave K w msv keyNum new) (\<lambda>(err, msv', w').
       if err \<noteq> None then Inl FatalPanic else Inr (True, msv', w'))
     else Inr (False, msv, w))"

definition LoadMultiStateVector ::
  "('h, 'w) KV_ops \<Rightarrow> 'w \<Rightarrow> bool list list option \<Rightarrow> string \<Rightarrow> 'h \<Rightarrow>
   fault + (msv_error + 'h MultiStateVector)" where
  "LoadMultiStateVector K w stateMap key h =
     (let msv = \<lparr>msv_numKeys = 0, msv_numStates = 0, msv_bitSize = 0, msv_numKeysPerBlock = 0,
                 msv_wordSize = 0, msv_vect = [], msv_stateMap = stateMap, msv_stateUseCount = [],
                 msv_key = makeMultiStateVectorKey key, msv_kv = Some h\<rparr>
      in case KV_Get K h w (msv_key msv) multiStateVectorVersion of
           Inl err \<Rightarrow> Inr (Inl (MsvLoadGetErr err))
         | Inr obj \<Rightarrow>
             (case obj_Data obj of
                Raw b \<Rightarrow> msv_unmarshal b msv
              | Json _ \<Rightarrow> Inr (Inl MsvLoadUnmarshalErr)))"

definition msv_Delete ::
  "('h, 'w) KV_ops \<Rightarrow> 'w \<Rightarrow> 'h MultiStateVector \<Rightarrow> fault + (kv_error option \<times> 'w)" where
  "msv_Delete K w msv =
     (case msv_kv msv of
        None \<Rightarrow> Inl NilDereference
      | Some h \<Rightarrow> Inr (KV_Delete K h w (msv_key msv) multiStateVectorVersion))"

section \<open>Specification\<close>

text \<open>The state of a key as the bits of its cell, and the representation invariant: one to three bits
  per state, room for every key, every stored state in range, and every counter the number of keys
  in its state.\<close>

definition cell :: "nat \<Rightarrow> u64 list \<Rightarrow> nat \<Rightarrow> u64" where
  "cell bs vect k =
     take_bit bs (drop_bit (64 - (k mod (64 div bs)) * bs - bs) (vect ! (k div (64 div bs))))"

definition state_of :: "'h MultiStateVector \<Rightarrow> nat \<Rightarrow> nat" where
  "state_of msv k = unat (cell (unat (msv_bitSize msv)) (msv_vect msv) k)"

definition msv_shape :: "'h MultiStateVector \<Rightarrow> bool" where
  "msv_shape msv =
     (let bs = unat (msv_bitSize msv); n = unat (msv_numStates msv)
      in 1 \<le> bs \<and> bs \<le> 3 \<and> msv_numKeysPerBlock msv = word_of_nat (64 div bs) \<and>
         0 < unat (msv_numKeys msv) \<and> unat (msv_numKeys msv) \<le> (64 div bs) * length (msv_vect msv) \<and>
         2 \<le> n \<and> n \<le> 2 ^ bs \<and> length (msv_stateUseCount msv) = n \<and>
         (\<forall>m. msv_stateMap msv = Some m \<longrightarrow> length m = n \<and> (\<forall>row \<in> set m. length row = n)))"

definition msv_inv :: "'h MultiStateVector \<Rightarrow> bool" where
  "msv_inv msv =
     (msv_shape msv \<and>
      (\<forall>k < unat (msv_numKeys msv). state_of msv k < unat (msv_numStates msv)) \<and>
      (\<forall>s < unat (msv_numStates msv). unat (msv_stateUseCount msv ! s) =
         card {k. k < unat (msv_numKeys msv) \<and> state_of msv k = s}))"

text \<open>The change the state map allows; without a map every change is allowed.\<close>

definition allowed :: "'h MultiStateVector \<Rightarrow> nat \<Rightarrow> nat \<Rightarrow> bool" where
  "allowed msv old new = (case msv_stateMap msv of None \<Rightarrow> True | Some m \<Rightarrow> m ! old ! new)"

text \<open>The contract of a table of states: requests that are in range and allowed change one entry, all
  others are refused and change nothing. A history of requests then follows the allowed changes.\<close>

fun run_sets :: "('s \<Rightarrow> u16 \<Rightarrow> byte \<Rightarrow> fault + (msv_error option \<times> 's)) \<Rightarrow> 's \<Rightarrow> (u16 \<times> byte) list \<Rightarrow> fault + 's" where
  "run_sets f s [] = Inr s"
| "run_sets f s ((k, v) # ks) = res_bind (f s k v) (\<lambda>(err, s'). run_sets f s' ks)"

locale state_table =
  fixes inv :: "'s \<Rightarrow> bool"
    and num :: "'s \<Rightarrow> nat"
    and states :: "'s \<Rightarrow> nat"
    and st :: "'s \<Rightarrow> nat \<Rightarrow> nat"
    and ok :: "'s \<Rightarrow> nat \<Rightarrow> nat \<Rightarrow> bool"
    and frame :: "'s \<Rightarrow> 's \<Rightarrow> bool"
    and set :: "'s \<Rightarrow> u16 \<Rightarrow> byte \<Rightarrow> fault + (msv_error option \<times> 's)"
  assumes set_ok:
      "inv s \<Longrightarrow> unat k < num s \<Longrightarrow> unat v < states s \<Longrightarrow> ok s (st s (unat k)) (unat v) \<Longrightarrow>
       \<exists>s'. set s k v = Inr (None, s') \<and> inv s' \<and> frame s s' \<and> st s' = (st s)(unat k := unat v)"
    and set_error:
      "inv s \<Longrightarrow> \<not> (unat k < num s \<and> unat v < states s \<and> ok s (st s (unat k)) (unat v)) \<Longrightarrow>
       \<exists>e. set s k v = Inr (Some e, s)"
    and frame_refl: "frame s s"
    and frame_trans: "frame s s' \<Longrightarrow> frame s' s'' \<Longrightarrow> frame s s''"
    and frame_keeps: "frame s s' \<Longrightarrow> num s' = num s \<and> states s' = states s \<and> ok s' = ok s"
begin

lemma run_sets_law:
  "inv s \<Longrightarrow> \<exists>s'. run_sets set s ks = Inr s' \<and> inv s' \<and> frame s s' \<and>
     (\<forall>k. (ok s)\<^sup>*\<^sup>* (st s k) (st s' k))"
proof (induction ks arbitrary: s)
  case Nil
  then show ?case by (simp add: frame_refl)
next
  case (Cons kv ks)
  obtain k v where kv: "kv = (k, v)" by (cases kv)
  obtain e s1 where s1: "set s k v = Inr (e, s1)" "inv s1" "frame s s1"
      "\<forall>j. (ok s)\<^sup>*\<^sup>* (st s j) (st s1 j)"
    using set_ok [OF Cons.prems, of k v] set_error [OF Cons.prems, of k v] Cons.prems frame_refl
    by (metis fun_upd_apply rtranclp.rtrancl_refl r_into_rtranclp)
  from Cons.IH [OF s1(2)] obtain s' where s': "run_sets set s1 ks = Inr s'" "inv s'" "frame s1 s'"
      "\<forall>j. (ok s1)\<^sup>*\<^sup>* (st s1 j) (st s' j)" by blast
  have "\<forall>j. (ok s)\<^sup>*\<^sup>* (st s j) (st s' j)"
    using s1(4) s'(4) frame_keeps [OF s1(3)] by (metis rtranclp_trans)
  with s1 s' frame_trans show ?case unfolding kv by (auto intro: exI [of _ s'])
qed

end

section \<open>Lemmas\<close>

subsection \<open>Reading and writing one cell\<close>


lemma mask_bit:
  assumes "pos + bs \<le> 64"
  shows "bit (drop_bit pos (push_bit (64 - bs) (s :: u64))) j \<longleftrightarrow>
    64 - pos - bs \<le> j \<and> j < 64 - pos \<and> bit s (j + pos + bs - 64)"
proof -
  have "bit (drop_bit pos (push_bit (64 - bs) s)) j \<longleftrightarrow>
     64 - bs \<le> pos + j \<and> pos + j < 64 \<and> bit s (pos + j - (64 - bs))"
    using bit_imp_le_length [of "push_bit (64 - bs) s" "pos + j"]
    by (auto simp: bit_drop_bit_eq bit_push_bit_iff)
  moreover have "64 - bs \<le> pos + j \<Longrightarrow> pos + j - (64 - bs) = j + pos + bs - 64" using assms by simp
  ultimately show ?thesis using assms by auto
qed

lemma block_read_write:
  fixes b s :: u64
  assumes "q * bs + bs \<le> 64" "p * bs + bs \<le> 64" "take_bit bs s = s"
  defines "M \<equiv> drop_bit (q * bs) (push_bit (64 - bs) (-1))"
    and "S \<equiv> drop_bit (q * bs) (push_bit (64 - bs) s)"
  shows "take_bit bs (drop_bit (64 - p * bs - bs) ((b AND NOT M) OR S))
    = (if p = q then s else take_bit bs (drop_bit (64 - p * bs - bs) b))"
proof (rule bit_word_eqI)
  fix n assume n: "n < LENGTH(64)"
  define j where "j = 64 - p * bs - bs + n"
  have low: "64 - q * bs - bs \<le> j \<and> j < 64 - q * bs \<longleftrightarrow> p = q" if "n < bs"
  proof (cases p q rule: linorder_cases)
    case less
    then have "(p + 1) * bs \<le> q * bs" by (intro mult_le_mono1) simp
    then have "64 - q * bs \<le> j" using assms by (simp add: j_def)
    with less show ?thesis by auto
  next
    case greater
    then have "(q + 1) * bs \<le> p * bs" by (intro mult_le_mono1) simp
    with assms that greater show ?thesis by (simp add: j_def)
  qed (use assms that in \<open>auto simp: j_def\<close>)
  have M: "bit M j \<longleftrightarrow> p = q" and S: "bit S j \<longleftrightarrow> p = q \<and> bit s n" and "j < 64" if "n < bs"
  proof -
    show "j < 64" using assms that by (simp add: j_def)
    then show "bit M j \<longleftrightarrow> p = q"
      unfolding M_def mask_bit [OF assms(1)]
      using low [OF that] assms(1) by (auto simp: bit_minus_1_iff)
    have "p = q \<Longrightarrow> j + q * bs + bs - 64 = n" using assms by (simp add: j_def)
    then show "bit S j \<longleftrightarrow> p = q \<and> bit s n"
      using low [OF that] mask_bit [OF assms(1), of s j] by (auto simp: S_def)
  qed
  have dj: "bit (drop_bit (64 - p * bs - bs) x) n = bit x j" for x :: u64
    by (simp add: bit_drop_bit_eq j_def)
  have "bit s n \<longleftrightarrow> n < bs \<and> bit s n" using assms(3) by (metis bit_take_bit_iff)
  moreover have "bit (take_bit bs (drop_bit (64 - p * bs - bs) ((b AND NOT M) OR S))) n \<longleftrightarrow>
      n < bs \<and> (bit b j \<and> j < 64 \<and> \<not> bit M j \<or> bit S j)"
    by (auto simp only: bit_take_bit_iff dj bit_or_iff bit_and_iff bit_not_iff) (use bit_imp_le_length [of b j] in simp_all)
  moreover have "bit (take_bit bs (drop_bit (64 - p * bs - bs) b)) n \<longleftrightarrow> n < bs \<and> bit b j"
    by (simp only: bit_take_bit_iff dj)
  ultimately show "bit (take_bit bs (drop_bit (64 - p * bs - bs) ((b AND NOT M) OR S))) n
    = bit (if p = q then s else take_bit bs (drop_bit (64 - p * bs - bs) b)) n"
    using M S \<open>n < bs \<Longrightarrow> j < 64\<close> by (cases "p = q"; simp only: if_True if_False simp_thms) blast+
qed

lemma bits_cases:
  assumes "msv_shape msv"
  obtains "msv_bitSize msv = 1" "msv_numKeysPerBlock msv = 64"
    | "msv_bitSize msv = 2" "msv_numKeysPerBlock msv = 32"
    | "msv_bitSize msv = 3" "msv_numKeysPerBlock msv = 21"
proof -
  let ?b = "unat (msv_bitSize msv)"
  have "?b = unat (1 :: byte) \<or> ?b = unat (2 :: byte) \<or> ?b = unat (3 :: byte)"
    using assms by (auto simp: msv_shape_def Let_def)
  then have "msv_bitSize msv = 1 \<or> msv_bitSize msv = 2 \<or> msv_bitSize msv = 3"
    by (simp only: word_unat_eq_iff)
  moreover have "msv_numKeysPerBlock msv = word_of_nat (64 div ?b)"
    using assms by (simp add: msv_shape_def Let_def)
  ultimately show ?thesis by (elim disjE) (auto intro: that)
qed

lemma blockAndPos_eq:
  assumes "msv_shape msv"
  shows "getMultiBlockAndPos msv k =
     Inr (k div ucast (msv_numKeysPerBlock msv), (k mod ucast (msv_numKeysPerBlock msv)) * ucast (msv_bitSize msv))"
    "unat (k div ucast (msv_numKeysPerBlock msv)) = unat k div (64 div unat (msv_bitSize msv))"
    "unat ((k mod ucast (msv_numKeysPerBlock msv)) * ucast (msv_bitSize msv)) =
       (unat k mod (64 div unat (msv_bitSize msv))) * unat (msv_bitSize msv)"
  by (rule bits_cases [OF assms];
      simp add: getMultiBlockAndPos_def go_div_def unat_div unat_word_ariths unat_mod)+

lemma pos_bound:
  "1 \<le> bs \<Longrightarrow> bs \<le> 3 \<Longrightarrow> ((k :: nat) mod (64 div bs)) * bs + bs \<le> 64"
proof -
  assume "1 \<le> bs" "bs \<le> 3"
  then have "k mod (64 div bs) + 1 \<le> 64 div bs" by (simp add: Suc_le_eq div_greater_zero_iff)
  then have "(k mod (64 div bs) + 1) * bs \<le> 64 div bs * bs" by (rule mult_le_mono1)
  also have "\<dots> \<le> 64" by simp
  finally show ?thesis by simp
qed

lemma msv_get_eq:
  assumes "msv_shape msv" "unat k < unat (msv_numKeys msv)"
  shows "msv_get msv k = Inr (Inr (word_of_nat (state_of msv (unat k))))"
proof -
  let ?bs = "unat (msv_bitSize msv)"
  have sh: "1 \<le> ?bs" "?bs \<le> 3" using assms(1) by (auto simp: msv_shape_def Let_def)
  have k: "\<not> msv_numKeys msv - 1 < k"
    using assms(2) unat_minus_one [of "msv_numKeys msv"] by (cases "msv_numKeys msv = 0") (auto simp: word_less_nat_alt)
  note bp = blockAndPos_eq [OF assms(1), of k]
  let ?pos = "(k mod ucast (msv_numKeysPerBlock msv)) * ucast (msv_bitSize msv)"
  have pb: "unat ?pos + ?bs \<le> 64" using pos_bound [OF sh, of "unat k"] by (simp only: bp(3))
  have shift: "unat (64 - ?pos - ucast (msv_bitSize msv)) = 64 - unat ?pos - ?bs"
    by (rule bits_cases [OF assms(1)]; insert pb; simp add: unat_sub word_le_nat_alt)
  have kpb: "0 < 64 div ?bs" using sh by (simp add: div_greater_zero_iff)
  have "unat k < length (msv_vect msv) * (64 div ?bs)"
    using assms by (simp add: msv_shape_def Let_def mult.commute)
  then have block: "unat k div (64 div ?bs) < length (msv_vect msv)"
    using kpb by (simp add: div_less_iff_less_mult)
  have mask: "64 - unat (64 - msv_bitSize msv) = ?bs"
    by (rule bits_cases [OF assms(1)]; simp)
  have "ucast x = (word_of_nat (unat x) :: byte)" for x :: u64
    by simp
  then show ?thesis
    using k block
    by (simp add: msv_get_def bp(1,2) Let_def shift bp(3) mask state_of_def cell_def take_bit_eq_mask)
qed

lemma msv_masks:
  assumes "msv_shape msv"
  shows "getSelectionMask k (msv_bitSize msv) =
      Inr (drop_bit ((unat k mod (64 div unat (msv_bitSize msv))) * unat (msv_bitSize msv))
             (push_bit (64 - unat (msv_bitSize msv)) (-1)))"
    "shiftBitsOut s k (msv_bitSize msv) =
      Inr (drop_bit ((unat k mod (64 div unat (msv_bitSize msv))) * unat (msv_bitSize msv))
             (push_bit (64 - unat (msv_bitSize msv)) s))"
  by (rule bits_cases [OF assms];
      simp add: getSelectionMask_def shiftBitsIn_def shiftBitsOut_def Let_def unat_div unat_word_ariths unat_mod)+

definition with_state :: "'h MultiStateVector \<Rightarrow> nat \<Rightarrow> u64 \<Rightarrow> u64 list" where
  "with_state msv k s =
     (let bs = unat (msv_bitSize msv); b = k div (64 div bs); pos = (k mod (64 div bs)) * bs
      in (msv_vect msv)[b := (msv_vect msv ! b AND NOT (drop_bit pos (push_bit (64 - bs) (-1)))) OR
                             drop_bit pos (push_bit (64 - bs) s)])"

lemma cell_with_state:
  assumes "msv_shape msv" "k < unat (msv_numKeys msv)" "take_bit (unat (msv_bitSize msv)) s = s"
  shows "cell (unat (msv_bitSize msv)) (with_state msv k s) j =
    (if j = k then s else cell (unat (msv_bitSize msv)) (msv_vect msv) j)"
proof -
  let ?bs = "unat (msv_bitSize msv)"
  have sh: "1 \<le> ?bs" "?bs \<le> 3" using assms(1) by (auto simp: msv_shape_def Let_def)
  have kpb: "0 < 64 div ?bs" using sh by (simp add: div_greater_zero_iff)
  have "k < length (msv_vect msv) * (64 div ?bs)"
    using assms by (simp add: msv_shape_def Let_def mult.commute)
  then have block: "k div (64 div ?bs) < length (msv_vect msv)"
    using kpb by (simp add: div_less_iff_less_mult)
  show ?thesis
  proof (cases "j div (64 div ?bs) = k div (64 div ?bs)")
    case True
    then have "j mod (64 div ?bs) = k mod (64 div ?bs) \<longleftrightarrow> j = k" by (metis div_mult_mod_eq)
    with True block show ?thesis
      using block_read_write [OF pos_bound [OF sh, of k] pos_bound [OF sh, of j] assms(3)]
      by (simp only: cell_def with_state_def Let_def nth_list_update_eq)
  next
    case False
    then have "j \<noteq> k" by blast
    with False show ?thesis by (simp add: cell_def with_state_def Let_def)
  qed
qed

lemma card_fun_upd:
  fixes f :: "nat \<Rightarrow> 'b"
  assumes "k0 < n"
  shows "card {k. k < n \<and> (f(k0 := s)) k = t} + (if t = f k0 then 1 else 0) =
    card {k. k < n \<and> f k = t} + (if t = s then 1 else 0)"
proof -
  let ?R = "{k. k < n \<and> k \<noteq> k0 \<and> f k = t}"
  have "{k. k < n \<and> (f(k0 := s)) k = t} = (if t = s then insert k0 ?R else ?R)"
    and "{k. k < n \<and> f k = t} = (if t = f k0 then insert k0 ?R else ?R)"
    using assms by auto
  then show ?thesis by simp
qed

definition msv_place :: "'h MultiStateVector \<Rightarrow> 'h MultiStateVector \<Rightarrow> bool" where
  "msv_place msv msv' =
     (msv' = msv\<lparr>msv_vect := msv_vect msv', msv_stateUseCount := msv_stateUseCount msv'\<rparr>)"

lemma state_of_bound: "msv_shape msv \<Longrightarrow> state_of msv k < 256"
proof -
  assume sh: "msv_shape msv"
  have "state_of msv k < 2 ^ unat (msv_bitSize msv)"
    using bits_cases [OF sh] by (auto simp: state_of_def cell_def unsigned_take_bit_eq)
  moreover have "(2::nat) ^ unat (msv_bitSize msv) \<le> 2 ^ 3"
    using sh by (intro power_increasing) (auto simp: msv_shape_def Let_def)
  ultimately show ?thesis by simp
qed

lemma change_forbidden_eq:
  assumes "msv_shape msv" "unat old < unat (msv_numStates msv)" "unat new < unat (msv_numStates msv)"
  shows "change_forbidden (msv_stateMap msv) old new = Inr (\<not> allowed msv (unat old) (unat new))"
  using assms by (auto simp: change_forbidden_def allowed_def msv_shape_def Let_def split: option.splits)

lemma le_pred_iff: "0 < unat (n :: 'a::len word) \<Longrightarrow> (n - 1 < k) = (unat n \<le> unat k)"
proof -
  assume "0 < unat n"
  then have "unat (n - 1) = unat n - 1" by (metis less_numeral_extra(3) unat_0 unat_minus_one)
  with \<open>0 < unat n\<close> show ?thesis by (auto simp: word_less_nat_alt)
qed

lemma msv_set_unfold:
  assumes "msv_inv msv" "unat k < unat (msv_numKeys msv)" "unat s < unat (msv_numStates msv)"
  defines "old \<equiv> state_of msv (unat k)"
  defines "counts \<equiv> (msv_stateUseCount msv)[old := msv_stateUseCount msv ! old - 1]"
  shows "msv_set msv k s =
    (if allowed msv old (unat s)
     then Inr (None, msv\<lparr>msv_vect := with_state msv (unat k) (ucast s),
                         msv_stateUseCount := counts[unat s := counts ! unat s + 1]\<rparr>)
     else Inr (Some StateChangeErr, msv))"
proof -
  have sh: "msv_shape msv" using assms(1) by (simp add: msv_inv_def)
  have old: "old < unat (msv_numStates msv)" using assms(1,2) by (simp add: msv_inv_def old_def)
  have oldw: "unat (word_of_nat old :: byte) = old"
    using state_of_bound [OF sh] by (simp add: old_def unat_of_nat)
  have ns: "0 < unat (msv_numStates msv)" "length (msv_stateUseCount msv) = unat (msv_numStates msv)"
    using sh by (auto simp: msv_shape_def Let_def)
  have g: "\<not> k > msv_numKeys msv - 1" "\<not> s > msv_numStates msv - 1"
      "\<not> (word_of_nat old :: byte) > msv_numStates msv - 1"
    using assms(2,3) old ns(1) by (simp_all add: le_pred_iff oldw)
  note bp = blockAndPos_eq [OF sh, of k]
  let ?bs = "unat (msv_bitSize msv)"
  have bs: "1 \<le> ?bs" "?bs \<le> 3" using sh by (auto simp: msv_shape_def Let_def)
  have "unat k < length (msv_vect msv) * (64 div ?bs)"
    using sh assms(2) by (simp add: msv_shape_def Let_def mult.commute)
  then have block: "unat k div (64 div ?bs) < length (msv_vect msv)"
    using bs by (simp add: div_less_iff_less_mult div_greater_zero_iff)
  have ch: "change_forbidden (msv_stateMap msv) (word_of_nat old) s = Inr (\<not> allowed msv old (unat s))"
    using change_forbidden_eq [OF sh, of "word_of_nat old" s] old assms(3) by (simp add: oldw)
  show ?thesis
    using g block old assms(3) ns(2)
    by (simp add: msv_set_def msv_get_eq [OF sh assms(2)] old_def [symmetric] ch bp(1,2) msv_masks [OF sh]
        oldw Let_def with_state_def counts_def)
qed

lemma unat_count_move:
  fixes counts :: "u16 list"
  assumes "old < length counts" "s < length counts" "old \<noteq> s" "0 < unat (counts ! old)"
    and "unat (counts ! s) + 1 < 2 ^ 16"
    and "t < length counts"
  shows "unat (counts[old := counts ! old - 1, s := counts ! s + 1] ! t) + (if t = old then 1 else 0) =
    unat (counts ! t) + (if t = s then 1 else 0)"
proof -
  have "unat (counts ! old - 1) = unat (counts ! old) - 1"
    using assms(4) by (metis less_numeral_extra(3) unat_0 unat_minus_one)
  moreover have "unat (counts ! s + 1) = unat (counts ! s) + 1"
    using assms(5) by (simp add: unat_word_ariths)
  ultimately show ?thesis using assms by (auto simp: nth_list_update)
qed

lemma msv_set_allowed:
  assumes "msv_inv msv" "unat k < unat (msv_numKeys msv)" "unat s < unat (msv_numStates msv)"
    and "allowed msv (state_of msv (unat k)) (unat s)"
  shows "\<exists>msv'. msv_set msv k s = Inr (None, msv') \<and> msv_inv msv' \<and> msv_place msv msv' \<and>
    state_of msv' = (state_of msv)(unat k := unat s)"
proof -
  define old where "old = state_of msv (unat k)"
  define c where "c = (msv_stateUseCount msv)[old := msv_stateUseCount msv ! old - 1]"
  define msv' where "msv' = msv\<lparr>msv_vect := with_state msv (unat k) (ucast s),
                         msv_stateUseCount := c[unat s := c ! unat s + 1]\<rparr>"
  let ?n = "unat (msv_numKeys msv)"
  have r: "msv_set msv k s = Inr (None, msv')"
    using msv_set_unfold [OF assms(1-3)] assms(4) by (simp add: old_def c_def msv'_def)
  have sh: "msv_shape msv" using assms(1) by (simp add: msv_inv_def)
  have "unat s < 2 ^ unat (msv_bitSize msv)"
    using assms(3) sh by (simp add: msv_shape_def Let_def)
  moreover have s64: "take_bit 64 (unat s) = unat s" and "min (unat (msv_bitSize msv)) 64 = unat (msv_bitSize msv)"
    using sh unsigned_less [of s, where ?'a = nat]
    by (auto simp: msv_shape_def Let_def intro: take_bit_nat_eq_self)
  ultimately have "take_bit (unat (msv_bitSize msv)) (ucast s :: u64) = ucast s"
    by (simp add: word_unat_eq_iff unsigned_take_bit_eq unsigned_ucast_eq take_bit_nat_eq_self)
  from cell_with_state [OF sh assms(2) this]
  have st: "state_of msv' = (state_of msv)(unat k := unat s)"
    by (auto simp: fun_eq_iff state_of_def msv'_def unsigned_ucast_eq s64)
  have old: "old < unat (msv_numStates msv)" using assms(1,2) by (simp add: msv_inv_def old_def)
  have lens: "length (msv_stateUseCount msv) = unat (msv_numStates msv)"
    using sh by (simp add: msv_shape_def Let_def)
  have cnt: "unat (msv_stateUseCount msv ! t) = card {k. k < ?n \<and> state_of msv k = t}"
    if "t < unat (msv_numStates msv)" for t using assms(1) that by (simp add: msv_inv_def)
  have "unat (msv_stateUseCount msv' ! t) = card {k. k < ?n \<and> state_of msv' k = t}"
    if t: "t < unat (msv_numStates msv)" for t
  proof (cases "old = unat s")
    case True
    then have "(state_of msv)(unat k := unat s) = state_of msv" by (auto simp: old_def)
    moreover have "msv_stateUseCount msv' = msv_stateUseCount msv"
      using True old lens by (simp add: msv'_def c_def)
    ultimately show ?thesis by (simp only: st cnt [OF t])
  next
    case False
    have "unat k \<in> {k. k < ?n \<and> state_of msv k = old}" using assms(2) by (simp add: old_def)
    then have "0 < card {k. k < ?n \<and> state_of msv k = old}" by (auto simp: card_gt_0_iff)
    then have pos: "0 < unat (msv_stateUseCount msv ! old)" using cnt [OF old] by simp
    have "card {k. k < ?n \<and> state_of msv k = unat s} \<le> card ({..<?n} - {unat k})"
      using False by (intro card_mono) (auto simp: old_def)
    then have "unat (msv_stateUseCount msv ! unat s) + 1 < 2 ^ 16"
      using cnt [OF assms(3)] assms(2) unsigned_less [of "msv_numKeys msv", where ?'a = nat] by simp
    from unat_count_move [OF _ _ False pos this, of t]
    have "unat (msv_stateUseCount msv' ! t) + (if t = old then 1 else 0) =
        unat (msv_stateUseCount msv ! t) + (if t = unat s then 1 else 0)"
      using old assms(3) t False by (simp add: lens msv'_def c_def)
    with card_fun_upd [OF assms(2), of "state_of msv" "unat s" t] show ?thesis
      by (simp add: st cnt [OF t] old_def split: if_splits)
  qed
  moreover have "msv_shape msv'"
    using sh by (simp add: msv_shape_def Let_def msv'_def c_def with_state_def)
  moreover have "state_of msv' j < unat (msv_numStates msv)" if "j < ?n" for j
    using assms(1,3) that by (simp add: st msv_inv_def)
  ultimately have "msv_inv msv'" by (simp add: msv_inv_def msv'_def)
  with r st show ?thesis by (auto simp: msv_place_def msv'_def)
qed

lemma msv_set_forbidden:
  assumes "msv_inv msv" "unat k < unat (msv_numKeys msv)" "unat s < unat (msv_numStates msv)"
    and "\<not> allowed msv (state_of msv (unat k)) (unat s)"
  shows "msv_set msv k s = Inr (Some StateChangeErr, msv)"
  using msv_set_unfold [OF assms(1-3)] assms(4) by simp

lemma msv_set_errors:
  assumes "msv_inv msv"
    and "\<not> (unat k < unat (msv_numKeys msv) \<and> unat s < unat (msv_numStates msv) \<and>
      allowed msv (state_of msv (unat k)) (unat s))"
  shows "\<exists>e. msv_set msv k s = Inr (Some e, msv)"
proof -
  have pos: "0 < unat (msv_numKeys msv)" "0 < unat (msv_numStates msv)"
    using assms(1) by (auto simp: msv_inv_def msv_shape_def Let_def)
  show ?thesis
  proof (cases "unat k < unat (msv_numKeys msv) \<and> unat s < unat (msv_numStates msv)")
    case True
    with assms msv_set_forbidden [OF assms(1), of k s] show ?thesis by blast
  next
    case False
    then show ?thesis by (auto simp: msv_set_def le_pred_iff pos not_less)
  qed
qed

interpretation msv: state_table msv_inv "\<lambda>m. unat (msv_numKeys m)" "\<lambda>m. unat (msv_numStates m)"
  state_of allowed msv_place msv_set
proof unfold_locales
  fix s s' :: "'a MultiStateVector"
  assume "msv_place s s'"
  then have "msv_numKeys s' = msv_numKeys s" "msv_numStates s' = msv_numStates s" "msv_stateMap s' = msv_stateMap s"
    unfolding msv_place_def by (metis MultiStateVector.select_convs MultiStateVector.surjective MultiStateVector.update_convs)+
  then show "unat (msv_numKeys s') = unat (msv_numKeys s) \<and>
    unat (msv_numStates s') = unat (msv_numStates s) \<and> allowed s' = allowed s"
    by (simp add: fun_eq_iff allowed_def)
next
  fix s s' s'' :: "'a MultiStateVector"
  assume "msv_place s s'" "msv_place s' s''"
  then show "msv_place s s''" unfolding msv_place_def by (cases s; cases s'; cases s'') simp
qed (auto simp: msv_place_def intro: msv_set_errors dest: msv_set_allowed)

lemma read_le_put [simp]:
  "read_le 2 (put_le16 a @ r) = Some (a, r)" "read_le (Suc 0) (c # r) = Some (c, r)"
  "read_le 8 (put_le64 d @ r) = Some (d, r)"
  by (simp_all add: read_le_def put_le16_def put_le64_def le_nat_nat_le unat_mod_width)

lemma read_list_put64 [simp]:
  "read_list 8 (length vs) (concat (map put_le64 vs) @ r) = Some (vs, r)"
  by (induction vs) simp_all

lemma read_list_put16 [simp]:
  "read_list 2 (length cs) (concat (map put_le16 cs) @ r) = Some (cs, r)"
  by (induction cs) simp_all

text \<open>What \<open>NewMultiStateVector\<close> and \<open>unmarshal\<close> compute from the number of states.\<close>

definition msv_derived :: "'h MultiStateVector \<Rightarrow> bool" where
  "msv_derived msv =
     (msv_bitSize msv = state_bits (msv_numStates msv) \<and> msv_bitSize msv \<noteq> 0 \<and>
      msv_numKeysPerBlock msv = 64 div msv_bitSize msv \<and>
      msv_wordSize msv = msv_numKeysPerBlock msv * msv_bitSize msv \<and>
      length (msv_vect msv) < 2 ^ 64 \<and> length (msv_stateUseCount msv) = unat (msv_numStates msv))"

lemma msv_unmarshal_marshal:
  assumes "msv_derived msv"
  shows "msv_unmarshal (msv_marshal msv) m0 =
    Inr (Inr (msv\<lparr>msv_stateMap := msv_stateMap m0, msv_key := msv_key m0, msv_kv := msv_kv m0\<rparr>))"
proof -
  have "unat (word_of_nat (length (msv_vect msv)) :: u64) = length (msv_vect msv)"
    using assms by (simp add: unat_of_nat msv_derived_def)
  moreover have "state_bits (msv_numStates msv) \<noteq> 0" using assms by (auto simp: msv_derived_def)
  ultimately show ?thesis
    using assms read_list_put16 [of "msv_stateUseCount msv" "[]"]
    by (simp add: msv_unmarshal_def msv_marshal_def go_div_def Let_def msv_derived_def)
qed

definition msv_stored_at :: "'h MultiStateVector \<Rightarrow> 'h \<Rightarrow> string \<Rightarrow> bool" where
  "msv_stored_at msv h key = (msv_kv msv = Some h \<and> msv_key msv = makeMultiStateVectorKey key)"

context versioned_kv
begin

lemma msv_load_after_save:
  assumes "msv_derived msv" "msv_stored_at msv h key" "msv_save K w msv = Inr (None, w')"
  shows "LoadMultiStateVector K w' (msv_stateMap msv) key h = Inr (Inr msv)"
proof -
  have "KV_Set K h w (msv_key msv) \<lparr>obj_Version = multiStateVectorVersion,
      obj_Timestamp = KV_Now K w, obj_Data = Raw (msv_marshal msv)\<rparr> = (None, w')"
    using assms by (simp add: msv_save_def msv_stored_at_def)
  from get_set [OF this] show ?thesis
    using assms(2) msv_unmarshal_marshal [OF assms(1)]
    by (cases msv) (simp add: LoadMultiStateVector_def msv_stored_at_def Let_def)
qed

end

subsection \<open>Construction\<close>

lemma state_bits_cases:
  assumes "\<not> n < minNumStates" "\<not> maxNumStates < n"
  obtains "n = 2" "state_bits n = 1" | "n \<in> {3, 4}" "state_bits n = 2"
    | "n \<in> {5, 6, 7, 8}" "state_bits n = 3"
proof -
  have "unat n \<in> {2..8}" using assms by (auto simp: minNumStates_def maxNumStates_def word_less_nat_alt)
  also have "{2..8} = {2, 3, 4, 5, 6, 7, 8 :: nat}" by auto
  finally have "unat n \<in> unat ` {2, 3, 4, 5, 6, 7, 8 :: byte}" by simp
  then have "n \<in> {2, 3, 4, 5, 6, 7, 8}" by (auto simp only: image_iff word_unat_eq_iff)
  then show ?thesis
    by (elim insertE emptyE) (auto simp: state_bits_def ceil_log2.simps intro: that)
qed

lemma checkStateMap_None:
  "checkStateMap n (Some m) = None \<Longrightarrow> length m = unat n \<and> (\<forall>row \<in> set m. length row = unat n)"
proof -
  assume c: "checkStateMap n (Some m) = None"
  then have len: "length m = unat n" by (auto simp: checkStateMap_def split: if_splits)
  with c have "find (\<lambda>(i, row). length row \<noteq> unat n) (enumerate 0 m) = None"
    by (auto simp: checkStateMap_def split: option.splits)
  then have "length row = unat n" if "(i, row) \<in> set (enumerate 0 m)" for i row
    using that by (auto simp: find_None_iff)
  moreover have "\<exists>i. (i, row) \<in> set (enumerate 0 m)" if "row \<in> set m" for row
    using that by (metis enumerate_eq_zip in_set_impl_in_set_zip2 length_upt diff_zero add_0)
  ultimately show ?thesis using len by blast
qed

lemma NewMultiStateVector_shape:
  assumes "NewMultiStateVector K w numKeys numStates stateMap key h = Inr (Inr (msv, err, w'))"
    and "0 < unat numKeys" "unat numKeys * unat (state_bits numStates) + 63 < 2 ^ 16"
    and "unat numKeys \<le> 64 div unat (state_bits numStates) *
           ((unat numKeys * unat (state_bits numStates) + 63) div 64)"
  shows "msv_inv msv" "\<And>k. k < unat numKeys \<Longrightarrow> state_of msv k = 0" "msv_numKeys msv = numKeys"
    "msv_derived msv" "msv_stored_at msv h key"
proof -
  let ?b = "state_bits numStates"
  have g: "\<not> numStates < minNumStates" "\<not> maxNumStates < numStates" "checkStateMap numStates stateMap = None"
    using assms(1) by (auto simp: NewMultiStateVector_def split: if_splits option.splits)
  have sb: "?b \<noteq> 0" "unat ?b \<in> {1, 2, 3}" "2 \<le> unat numStates" "unat numStates \<le> 2 ^ unat ?b"
      "64 div ?b = word_of_nat (64 div unat ?b)"
    by (rule state_bits_cases [OF g(1,2)]; auto)+
  have uc: "unat (ucast ?b :: u16) = unat ?b" by (rule state_bits_cases [OF g(1,2)]; auto)
  have nb: "unat (((numKeys * ucast ?b) + 63) div 64) = (unat numKeys * unat ?b + 63) div 64"
    using assms(3) uc by (simp add: unat_div unat_word_ariths)
  have msv: "msv = \<lparr>msv_numKeys = numKeys, msv_numStates = numStates, msv_bitSize = ?b,
                        msv_numKeysPerBlock = 64 div ?b, msv_wordSize = 64 div ?b * ?b,
                        msv_vect = replicate ((unat numKeys * unat ?b + 63) div 64) 0, msv_stateMap = stateMap,
                        msv_stateUseCount = (replicate (unat numStates) 0)[0 := numKeys],
                        msv_key = makeMultiStateVectorKey key, msv_kv = Some h\<rparr>"
    using assms(1) g sb(1)
    by (auto simp: NewMultiStateVector_def go_div_def Let_def res_bind_Inr_iff nb)
  show "msv_numKeys msv = numKeys" "msv_stored_at msv h key" by (simp_all add: msv msv_stored_at_def)
  have "(unat numKeys * unat ?b + 63) div 64 < 2 ^ 64" using assms(3) by simp
  then show "msv_derived msv" using sb(1) by (simp add: msv msv_derived_def)
  have sh: "msv_shape msv"
    using sb assms(2,4) g(3) checkStateMap_None [of numStates]
    by (auto simp: msv msv_shape_def Let_def)
  show z: "state_of msv k = 0" if "k < unat numKeys" for k
  proof -
    have "0 < 64 div unat ?b" using sb(2) by auto
    then have "k div (64 div unat ?b) < (unat numKeys * unat ?b + 63) div 64"
      using that assms(4) by (simp add: div_less_iff_less_mult mult.commute)
    then show ?thesis by (simp add: msv state_of_def cell_def)
  qed
  have "{k. k < unat numKeys \<and> state_of msv k = s} = (if s = 0 then {..<unat numKeys} else {})" for s
    using z by auto
  then show "msv_inv msv"
    using sh z sb(3) by (simp add: msv_inv_def) (simp add: msv nth_list_update)
qed

subsection \<open>Listing\<close>

lemma msv_keys_in_filter:
  "msv_shape msv \<Longrightarrow> (\<forall>k \<in> set ks. unat k < unat (msv_numKeys msv)) \<Longrightarrow>
   msv_keys_in msv s ks = Inr (Inr (filter (\<lambda>k. state_of msv (unat k) = unat s) ks))"
proof (induction ks)
  case (Cons k ks)
  have "(word_of_nat (state_of msv (unat k)) = s) = (state_of msv (unat k) = unat s)"
    using state_of_bound [OF Cons.prems(1), of "unat k"] by (auto simp: word_unat_eq_iff unat_of_nat)
  with Cons show ?case by (simp add: msv_get_eq)
qed simp

section \<open>Properties\<close>

text \<open>C25: The packed field refines a function from keys to states. On a vector that satisfies the
  invariant, for a key and a state in range: \<open>get\<close> returns the key's state; \<open>set\<close>, when the state
  map allows the change, succeeds, changes that key's state and no other key's, moves the two use
  counters and keeps the invariant (so every counter stays the number of keys in its state); when
  the map forbids the change it returns the state change error and changes nothing.\<close>

theorem MultiStateVector_refines_function:
  assumes "msv_inv msv" "unat k < unat (msv_numKeys msv)" "unat s < unat (msv_numStates msv)"
  shows "msv_get msv k = Inr (Inr (word_of_nat (state_of msv (unat k)))) \<and>
    (if allowed msv (state_of msv (unat k)) (unat s)
     then \<exists>msv'. msv_set msv k s = Inr (None, msv') \<and> msv_inv msv' \<and> msv_place msv msv' \<and>
            state_of msv' = (state_of msv)(unat k := unat s)
     else msv_set msv k s = Inr (Some StateChangeErr, msv))"
  using msv_get_eq [OF _ assms(2)] msv_set_allowed [OF assms] msv_set_forbidden [OF assms] assms(1)
  by (simp add: msv_inv_def)

definition msv_example :: "kv MultiStateVector" where
  "msv_example =
     \<lparr>msv_numKeys = 2, msv_numStates = 3, msv_bitSize = 2, msv_numKeysPerBlock = 32,
      msv_wordSize = 64, msv_vect = [push_bit 60 1],
      msv_stateMap = Some [[False, True, False], [False, False, True], [False, False, False]],
      msv_stateUseCount = [1, 1, 0], msv_key = makeMultiStateVectorKey ''k'', msv_kv = Some NewKV\<rparr>"

lemma msv_example_states: "state_of msv_example 0 = 0" "state_of msv_example (Suc 0) = Suc 0"
  by (simp_all add: state_of_def cell_def msv_example_def)

lemma msv_example_inv: "msv_inv msv_example"
proof -
  have two: "k < 2 \<longleftrightarrow> k = 0 \<or> k = 1" for k :: nat by auto
  have "{k. k < 2 \<and> state_of msv_example k = s} = (if s = 0 then {0} else if s = 1 then {1} else {})" for s
    by (auto simp: two msv_example_states) (metis msv_example_states(1) neq0_conv)
  moreover have "s < 3 \<longleftrightarrow> s = 0 \<or> s = 1 \<or> s = 2" for s :: nat by auto
  moreover have "msv_shape msv_example" by (simp add: msv_shape_def msv_example_def)
  moreover have "msv_numKeys msv_example = 2" "msv_numStates msv_example = 3"
    "msv_stateUseCount msv_example = [1, 1, 0]" by (simp_all add: msv_example_def)
  ultimately show ?thesis by (auto simp: msv_inv_def two msv_example_states)
qed

theorem MultiStateVector_refines_function_witness:
  "(\<exists>msv'. msv_set msv_example 1 2 = Inr (None, msv') \<and> state_of msv' 1 = 2 \<and> state_of msv' 0 = 0) \<and>
   msv_set msv_example 1 0 = Inr (Some StateChangeErr, msv_example)"
proof -
  have "unat (1 :: u16) < unat (msv_numKeys msv_example)" "unat (2 :: byte) < unat (msv_numStates msv_example)"
    "unat (0 :: byte) < unat (msv_numStates msv_example)" by (simp_all add: msv_example_def)
  note r = MultiStateVector_refines_function [OF msv_example_inv this(1,2)]
    MultiStateVector_refines_function [OF msv_example_inv this(1,3)]
  have "allowed msv_example (Suc 0) 2" "\<not> allowed msv_example (Suc 0) 0"
    by (simp_all add: allowed_def msv_example_def)
  with r show ?thesis by (auto simp: msv_example_states)
qed

text \<open>Whatever sequence of \<open>set\<close> requests is made, valid or not, none panics, the invariant
  holds at the end, and each key's state was only changed along transitions of the state map.\<close>

theorem states_follow_map:
  assumes "msv_inv msv"
  shows "\<exists>msv'. run_sets msv_set msv requests = Inr msv' \<and> msv_inv msv' \<and> msv_place msv msv' \<and>
    (\<forall>k. (allowed msv)\<^sup>*\<^sup>* (state_of msv k) (state_of msv' k))"
  by (rule msv.run_sets_law [OF assms])

theorem states_follow_map_witness:
  "\<exists>msv'. run_sets msv_set msv_example [(0, 1), (7, 2), (0, 2)] = Inr msv' \<and> msv_inv msv'"
  using states_follow_map [OF msv_example_inv, of "[(0, 1), (7, 2), (0, 2)]"] by blast

text \<open>For a state in range \<open>getKeys\<close> lists, in increasing order, exactly the keys in that state,
  and there are as many of them as \<open>getCount\<close> says.\<close>

theorem getKeys_exact:
  assumes "msv_inv msv" "unat s < unat (msv_numStates msv)"
  shows "\<exists>ks count. msv_getKeys msv s = Inr (Inr ks) \<and> msv_getCount msv s = Inr count \<and>
    map unat ks = filter (\<lambda>k. state_of msv k = unat s) [0..<unat (msv_numKeys msv)] \<and>
    length ks = unat count"
proof -
  let ?n = "unat (msv_numKeys msv)"
  let ?ks = "map word_of_nat [0..<?n] :: u16 list"
  let ?r = "filter (\<lambda>k. state_of msv (unat k) = unat s) ?ks"
  have sh: "msv_shape msv" using assms(1) by (simp add: msv_inv_def)
  have u: "unat (word_of_nat n :: u16) = n" if "n < ?n" for n
    using that unsigned_less [of "msv_numKeys msv", where ?'a = nat] by (simp add: unat_of_nat)
  have ks: "map unat ?ks = [0..<?n]" using u by (auto intro: map_idI)
  then have "\<forall>k \<in> set ?ks. unat k < ?n" using u by auto
  from msv_keys_in_filter [OF sh this, of s]
  have r: "msv_getKeys msv s = Inr (Inr ?r)"
    using assms sh by (simp add: msv_getKeys_def le_pred_iff msv_shape_def Let_def)
  have m: "map unat ?r = filter (\<lambda>k. state_of msv k = unat s) [0..<?n]"
    by (subst ks [symmetric]) (simp only: filter_map comp_def)
  have "length ?r = length (map unat ?r)" by (simp only: length_map)
  also have "\<dots> = card (set (filter (\<lambda>k. state_of msv k = unat s) [0..<?n]))"
    unfolding m by (rule distinct_card [symmetric]) simp
  also have "\<dots> = card {k. k < ?n \<and> state_of msv k = unat s}" by (rule arg_cong [of _ _ card]) auto
  also have "\<dots> = unat (msv_stateUseCount msv ! unat s)" using assms by (simp add: msv_inv_def)
  finally show ?thesis
    using r m assms(2) sh by (auto simp: msv_getCount_def msv_shape_def Let_def)
qed

theorem getKeys_exact_witness: "msv_getKeys msv_example 1 = Inr (Inr [1])"
proof -
  have "unat (1 :: byte) < unat (msv_numStates msv_example)" by (simp add: msv_example_def)
  from getKeys_exact [OF msv_example_inv this] obtain ks where ks: "msv_getKeys msv_example 1 = Inr (Inr ks)"
    "map unat ks = filter (\<lambda>k. state_of msv_example k = 1) [0..<2]" by (auto simp: msv_example_def)
  moreover have "[0..<2] = [0, 1 :: nat]" by (simp add: upt_rec)
  ultimately have "map unat ks = [1]" by (simp add: msv_example_states)
  then have "ks = [1]" by (auto simp: word_unat_eq_iff)
  with ks show ?thesis by simp
qed



text \<open>What a multi-state vector saves is what loading restores, over any encrypted store, when it is
  loaded with the same state map.\<close>

theorem MultiStateVector_save_load:
  assumes "ekv_store E" "msv_derived msv" "msv_stored_at msv h key"
    and "msv_save (versioned_ops E) w msv = Inr (None, w')"
  shows "LoadMultiStateVector (versioned_ops E) w' (msv_stateMap msv) key h = Inr (Inr msv)"
  using versioned_kv.msv_load_after_save [OF ekv_store.versioned [OF assms(1)] assms(2-4)] .

theorem MultiStateVector_save_load_witness:
  "\<exists>w'. msv_save mem_KV Map.empty msv_example = Inr (None, w') \<and>
     LoadMultiStateVector mem_KV w' (msv_stateMap msv_example) ''k'' NewKV = Inr (Inr msv_example)"
proof -
  obtain w' where w': "msv_save mem_KV Map.empty msv_example = Inr (None, w')"
    by (simp add: msv_save_def msv_example_def mem_KV_simps)
  have "msv_derived msv_example" "msv_stored_at msv_example NewKV ''k''"
    by (simp_all add: msv_derived_def msv_stored_at_def msv_example_def state_bits_def ceil_log2.simps)
  from MultiStateVector_save_load [OF mem.ekv_store_axioms this w'] w' show ?thesis by blast
qed

text \<open>With more than four states the constructor reserves too few blocks: it divides the total
  number of bits by 64, although a block of three-bit states leaves one bit unused. A vector of 64
  keys with eight states is created without an error, and reading its last key is out of range.\<close>

theorem three_bit_vector_too_short:
  "\<exists>msv w'. NewMultiStateVector mem_KV Map.empty 64 8 None ''k'' NewKV = Inr (Inr (msv, None, w')) \<and>
     msv_numKeys msv = 64 \<and> msv_Get msv 62 = Inr 0 \<and> msv_Get msv 63 = Inl IndexOutOfRange"
  by (simp add: NewMultiStateVector_def minNumStates_def maxNumStates_def checkStateMap_def state_bits_def
        ceil_log2.simps go_div_def msv_save_def Let_def mem_KV_simps msv_Get_def msv_get_def
        getMultiBlockAndPos_def index_def)

text \<open>Above 32736 keys the number of blocks, computed with 16 bits, wraps: a vector of 32737 keys with
  four states is created without an error and has no block at all.\<close>

theorem many_keys_vector_too_short:
  "\<exists>msv w'. NewMultiStateVector mem_KV Map.empty 32737 4 None ''k'' NewKV = Inr (Inr (msv, None, w')) \<and>
     msv_numKeys msv = 32737 \<and> msv_vect msv = [] \<and> msv_Get msv 0 = Inl IndexOutOfRange"
  by (simp add: NewMultiStateVector_def minNumStates_def maxNumStates_def checkStateMap_def state_bits_def
        ceil_log2.simps go_div_def msv_save_def Let_def mem_KV_simps msv_Get_def msv_get_def
        getMultiBlockAndPos_def index_def)

end
