(* ===== verification/Block_Store.thy ===== *)
theory Block_Store
  imports Versioned_KV
begin

text \<open>
  The block store of \<open>storage/utility/blockStore.go\<close>: a log of byte strings kept in numbered blocks
  of at most \<open>blockSize\<close> items, of which the newest \<open>numBlocks\<close> stay in storage. The unfinished block
  is in memory. An iterator that is handed to \<open>Store\<close> is the list of the items it yields. The
  fields are Go \<open>int\<close>s; they are written as 64-bit values and are integers here, which is exact
  while the number of blocks ever written stays below \<open>2\<^sup>6\<^sup>3\<close>.
  The abstract specification is the list of all items ever stored: loading returns its suffix that
  starts at the oldest block kept.
\<close>

section \<open>State and operations\<close>

record 'h BlockStore =
  bs_block :: "bytes list"
  bs_numBlocks :: int
  bs_blockSize :: int
  bs_firstSaved :: int
  bs_lastSaved :: int
  bs_kv :: 'h

datatype bs_error =
    BsBuffLengthErr
  | BsKvSaveErr kv_error
  | BsKvInitSaveErr bs_error
  | BsKvLoadErr kv_error
  | BsKvUnmarshalErr bs_error
  | BKvSaveErr kv_error
  | BKvLoadErr kv_error
  | BJsonUnmarshalErr

definition blockStoreKey :: string where "blockStoreKey = ''blockStore''"
definition blockStoreVersion :: u64 where "blockStoreVersion = 0"
definition blockVersion :: u64 where "blockVersion = 0"

definition bs_getKey :: "int \<Rightarrow> string" where
  "bs_getKey i = ''block'' @ ''/'' @ itoa i"

definition block_json :: "bytes list \<Rightarrow> stored" where
  "block_json block = Json (JArr (map JBytes block))"

fun json_block :: "stored \<Rightarrow> bytes list option" where
  "json_block (Json j) = json_list json_bytes j"
| "json_block (Raw _) = None"

definition bs_saveBlock ::
  "('h, 'w) KV_ops \<Rightarrow> 'w \<Rightarrow> 'h BlockStore \<Rightarrow> bs_error option \<times> 'w" where
  "bs_saveBlock K w bs =
     (let (err, w') = KV_Set K (bs_kv bs) w (bs_getKey (bs_lastSaved bs))
            \<lparr>obj_Version = blockVersion, obj_Timestamp = KV_Now K w, obj_Data = block_json (bs_block bs)\<rparr>
      in (map_option BKvSaveErr err, w'))"

definition bs_loadBlock ::
  "('h, 'w) KV_ops \<Rightarrow> 'w \<Rightarrow> 'h BlockStore \<Rightarrow> int \<Rightarrow> bs_error + bytes list" where
  "bs_loadBlock K w bs i =
     (case KV_Get K (bs_kv bs) w (bs_getKey i) blockVersion of
        Inl err \<Rightarrow> Inl (BKvLoadErr err)
      | Inr obj \<Rightarrow>
          (case json_block (obj_Data obj) of
             None \<Rightarrow> Inl BJsonUnmarshalErr
           | Some block \<Rightarrow> Inr block))"

definition bs_marshal :: "'h BlockStore \<Rightarrow> bytes" where
  "bs_marshal bs =
     concat (map (\<lambda>val. put_le64 (word_of_int val))
       [bs_numBlocks bs, bs_blockSize bs, bs_firstSaved bs, bs_lastSaved bs])"

definition int_at :: "bytes \<Rightarrow> nat \<Rightarrow> int" where
  "int_at b i = sint (word_of_nat (le_nat (take 8 (drop (8 * i) b))) :: u64)"

definition bs_unmarshal :: "bytes \<Rightarrow> 'h BlockStore \<Rightarrow> bs_error + 'h BlockStore" where
  "bs_unmarshal b bs =
     (if length b \<noteq> 32 then Inl BsBuffLengthErr
      else Inr (bs\<lparr>bs_numBlocks := int_at b 0, bs_blockSize := int_at b 1,
                   bs_firstSaved := int_at b 2, bs_lastSaved := int_at b 3\<rparr>))"

definition bs_save ::
  "('h, 'w) KV_ops \<Rightarrow> 'w \<Rightarrow> 'h BlockStore \<Rightarrow> bs_error option \<times> 'w" where
  "bs_save K w bs =
     (let (err, w') = KV_Set K (bs_kv bs) w blockStoreKey
            \<lparr>obj_Version = blockStoreVersion, obj_Timestamp = KV_Now K w, obj_Data = Raw (bs_marshal bs)\<rparr>
      in case err of
           Some e \<Rightarrow> (Some (BsKvSaveErr e), w')
         | None \<Rightarrow>
             (let (err', w'') = bs_saveBlock K w' bs
              in (map_option BsKvInitSaveErr err', w'')))"

definition bs_load ::
  "('h, 'w) KV_ops \<Rightarrow> 'w \<Rightarrow> 'h BlockStore \<Rightarrow> bs_error + 'h BlockStore" where
  "bs_load K w bs =
     (case KV_Get K (bs_kv bs) w blockStoreKey blockStoreVersion of
        Inl err \<Rightarrow> Inl (BsKvLoadErr err)
      | Inr obj \<Rightarrow>
          (case obj_Data obj of
             Json _ \<Rightarrow> Inl (BsKvUnmarshalErr BsBuffLengthErr)
           | Raw b \<Rightarrow>
               (case bs_unmarshal b bs of
                  Inl err \<Rightarrow> Inl (BsKvUnmarshalErr err)
                | Inr bs' \<Rightarrow> Inr bs')))"

definition NewBlockStore ::
  "('h, 'w) KV_ops \<Rightarrow> 'w \<Rightarrow> int \<Rightarrow> int \<Rightarrow> 'h \<Rightarrow> 'h BlockStore \<times> bs_error option \<times> 'w" where
  "NewBlockStore K w numBlocks blockSize h =
     (let bs = \<lparr>bs_block = [], bs_numBlocks = numBlocks, bs_blockSize = blockSize,
                bs_firstSaved = 0, bs_lastSaved = 0, bs_kv = h\<rparr>
      in (bs, bs_save K w bs))"

text \<open>The loading loop: the blocks of the given indices in turn; the result is their concatenation
  and the last block read.\<close>

fun bs_load_blocks ::
  "('h, 'w) KV_ops \<Rightarrow> 'w \<Rightarrow> 'h BlockStore \<Rightarrow> int list \<Rightarrow> bytes list \<Rightarrow> bytes list \<Rightarrow>
   bs_error + (bytes list \<times> bytes list)" where
  "bs_load_blocks K w bs [] data block = Inr (data, block)"
| "bs_load_blocks K w bs (i # is) data block =
     (case bs_loadBlock K w bs i of
        Inl err \<Rightarrow> Inl err
      | Inr block' \<Rightarrow> bs_load_blocks K w bs is (data @ block') block')"

definition LoadBlockStore ::
  "('h, 'w) KV_ops \<Rightarrow> 'w \<Rightarrow> 'h \<Rightarrow> bs_error + ('h BlockStore \<times> bytes list)" where
  "LoadBlockStore K w h =
     (let bs = \<lparr>bs_block = [], bs_numBlocks = 0, bs_blockSize = 0, bs_firstSaved = 0,
                bs_lastSaved = 0, bs_kv = h\<rparr>
      in case bs_load K w bs of
           Inl err \<Rightarrow> Inl err
         | Inr bs' \<Rightarrow>
             (case bs_load_blocks K w bs' [bs_firstSaved bs'..bs_lastSaved bs'] [] [] of
                Inl err \<Rightarrow> Inl err
              | Inr (data, block) \<Rightarrow> Inr (bs'\<lparr>bs_block := block\<rparr>, data)))"

text \<open>The loop of \<open>Store\<close> over the items of the iterator.\<close>

fun bs_add_items ::
  "('h, 'w) KV_ops \<Rightarrow> 'w \<Rightarrow> 'h BlockStore \<Rightarrow> bytes list \<Rightarrow> bs_error option \<times> 'h BlockStore \<times> 'w" where
  "bs_add_items K w bs [] = (None, bs, w)"
| "bs_add_items K w bs (item # items) =
     (if int (length (bs_block bs)) \<ge> bs_blockSize bs then
        (case bs_saveBlock K w bs of
           (Some err, w') \<Rightarrow> (Some err, bs, w')
         | (None, w') \<Rightarrow>
             bs_add_items K w' (bs\<lparr>bs_lastSaved := bs_lastSaved bs + 1, bs_block := [item]\<rparr>) items)
      else bs_add_items K w (bs\<lparr>bs_block := bs_block bs @ [item]\<rparr>) items)"

fun bs_delete_blocks :: "('h, 'w) KV_ops \<Rightarrow> 'h \<Rightarrow> 'w \<Rightarrow> int list \<Rightarrow> 'w" where
  "bs_delete_blocks K h w [] = w"
| "bs_delete_blocks K h w (i # is) =
     (let (err, w') = KV_Delete K h w (bs_getKey i) blockVersion in bs_delete_blocks K h w' is)"

definition bs_pruneBlocks :: "('h, 'w) KV_ops \<Rightarrow> 'w \<Rightarrow> 'h BlockStore \<Rightarrow> int \<Rightarrow> 'w" where
  "bs_pruneBlocks K w bs firstSaved =
     (if (bs_lastSaved bs + 1) - firstSaved < bs_numBlocks bs then w
      else bs_delete_blocks K (bs_kv bs) w [firstSaved..bs_firstSaved bs - 1])"

definition bs_Store ::
  "('h, 'w) KV_ops \<Rightarrow> 'w \<Rightarrow> 'h BlockStore \<Rightarrow> bytes list \<Rightarrow> bs_error option \<times> 'h BlockStore \<times> 'w" where
  "bs_Store K w bs iter =
     (case bs_add_items K w bs iter of
        (Some err, bs1, w1) \<Rightarrow> (Some err, bs1, w1)
      | (None, bs1, w1) \<Rightarrow>
          (case bs_saveBlock K w1 bs1 of
             (Some err, w2) \<Rightarrow> (Some err, bs1, w2)
           | (None, w2) \<Rightarrow>
               let oldFirstSaved = bs_firstSaved bs1;
                   bs2 = (if (bs_lastSaved bs1 + 1) - bs_firstSaved bs1 > bs_numBlocks bs1
                          then bs1\<lparr>bs_firstSaved := (bs_lastSaved bs1 + 1) - bs_numBlocks bs1\<rparr>
                          else bs1)
               in case bs_save K w2 bs2 of
                    (Some err, w3) \<Rightarrow> (Some err, bs2, w3)
                  | (None, w3) \<Rightarrow> (None, bs2, bs_pruneBlocks K w3 bs2 oldFirstSaved)))"

section \<open>Specification\<close>

text \<open>A sequence of \<open>Store\<close> calls that all succeed; \<open>None\<close> when one of them fails.\<close>

fun bs_store_all ::
  "('h, 'w) KV_ops \<Rightarrow> 'w \<Rightarrow> 'h BlockStore \<Rightarrow> bytes list list \<Rightarrow> ('h BlockStore \<times> 'w) option" where
  "bs_store_all K w bs [] = Some (bs, w)"
| "bs_store_all K w bs (it # its) =
     (case bs_Store K w bs it of
        (None, bs', w') \<Rightarrow> bs_store_all K w' bs' its
      | (Some err, bs', w') \<Rightarrow> None)"

text \<open>Block \<open>i\<close> of a history of items.\<close>

definition nth_block :: "int \<Rightarrow> bytes list \<Rightarrow> int \<Rightarrow> bytes list" where
  "nth_block sz hist i = take (nat sz) (drop (nat (sz * i)) hist)"

text \<open>The state in memory matches the history of items, and the finished blocks from \<open>firstSaved\<close> on
  are in storage.\<close>

definition bs_mem :: "('h, 'w) KV_ops \<Rightarrow> 'w \<Rightarrow> 'h BlockStore \<Rightarrow> bytes list \<Rightarrow> bool" where
  "bs_mem K w bs hist =
     (1 \<le> bs_blockSize bs \<and> 1 \<le> bs_numBlocks bs \<and>
      0 \<le> bs_firstSaved bs \<and> bs_firstSaved bs \<le> bs_lastSaved bs \<and>
      int (length hist) = bs_blockSize bs * bs_lastSaved bs + int (length (bs_block bs)) \<and>
      int (length (bs_block bs)) \<le> bs_blockSize bs \<and> (bs_block bs = [] \<longrightarrow> bs_lastSaved bs = 0) \<and>
      drop (nat (bs_blockSize bs * bs_lastSaved bs)) hist = bs_block bs \<and>
      (\<forall>i. bs_firstSaved bs \<le> i \<and> i < bs_lastSaved bs \<longrightarrow>
         bs_loadBlock K w bs i = Inr (nth_block (bs_blockSize bs) hist i)))"

text \<open>The oldest of the last \<open>numBlocks\<close> blocks up to block \<open>l\<close>.\<close>

definition first_kept :: "int \<Rightarrow> int \<Rightarrow> int" where
  "first_kept numBlocks l = max 0 (l + 1 - numBlocks)"

text \<open>After a completed \<open>Store\<close>: the parameters and the last block are in storage as well, and the last
  \<open>numBlocks\<close> blocks are kept.\<close>

definition bs_synced :: "('h, 'w) KV_ops \<Rightarrow> 'w \<Rightarrow> 'h BlockStore \<Rightarrow> bytes list \<Rightarrow> bool" where
  "bs_synced K w bs hist =
     (bs_mem K w bs hist \<and> bs_firstSaved bs = first_kept (bs_numBlocks bs) (bs_lastSaved bs) \<and>
      bs_loadBlock K w bs (bs_lastSaved bs) = Inr (bs_block bs) \<and>
      (\<exists>obj. KV_Get K (bs_kv bs) w blockStoreKey blockStoreVersion = Inr obj \<and>
         obj_Data obj = Raw (bs_marshal bs)))"

definition bs_in_range :: "'h BlockStore \<Rightarrow> bool" where
  "bs_in_range bs =
     (in_int64 (bs_numBlocks bs) \<and> in_int64 (bs_blockSize bs) \<and> in_int64 (bs_firstSaved bs) \<and>
      in_int64 (bs_lastSaved bs))"

section \<open>Lemmas\<close>

lemma bs_getKey_inj [simp]: "bs_getKey i = bs_getKey j \<longleftrightarrow> i = j"
  by (simp add: bs_getKey_def inj_itoa)

lemma bs_getKey_not_params [simp]: "bs_getKey i \<noteq> blockStoreKey" "blockStoreKey \<noteq> bs_getKey i"
  by (simp_all add: bs_getKey_def blockStoreKey_def)

lemma json_block_block_json [simp]: "json_block (block_json b) = Some b"
  using those_map_Some [of b json_bytes JBytes] by (simp add: block_json_def)

lemma sint_word_of_int: "in_int64 i \<Longrightarrow> sint (word_of_int i :: u64) = i"
  by (simp add: in_int64_def sint_sbintrunc' signed_take_bit_int_eq_self)

lemma bs_unmarshal_marshal:
  "bs_in_range bs \<Longrightarrow> bs_unmarshal (bs_marshal bs) bs0 =
   Inr (bs0\<lparr>bs_numBlocks := bs_numBlocks bs, bs_blockSize := bs_blockSize bs,
            bs_firstSaved := bs_firstSaved bs, bs_lastSaved := bs_lastSaved bs\<rparr>)"
  by (simp add: bs_unmarshal_def bs_marshal_def int_at_def bs_in_range_def put_le64_def
      le_nat_nat_le sint_word_of_int unat_mod_width)

lemma bs_loadBlock_upd [simp]:
  "bs_loadBlock K w (bs\<lparr>bs_block := b\<rparr>) i = bs_loadBlock K w bs i"
  "bs_loadBlock K w (bs\<lparr>bs_lastSaved := l\<rparr>) i = bs_loadBlock K w bs i"
  "bs_loadBlock K w (bs\<lparr>bs_firstSaved := l\<rparr>) i = bs_loadBlock K w bs i"
  by (simp_all add: bs_loadBlock_def)

lemma nth_block_append:
  "0 \<le> sz \<Longrightarrow> 0 \<le> i \<Longrightarrow> sz * i + sz \<le> int (length hist) \<Longrightarrow>
   nth_block sz (hist @ x) i = nth_block sz hist i"
proof -
  assume "0 \<le> sz" "0 \<le> i" "sz * i + sz \<le> int (length hist)"
  then have "nat (sz * i) + nat sz \<le> length hist" by (simp flip: nat_add_distrib)
  then show ?thesis by (simp add: nth_block_def)
qed

lemma mem_blocks_append:
  assumes "bs_mem K w bs hist" "bs_firstSaved bs \<le> i" "i < bs_lastSaved bs"
  shows "nth_block (bs_blockSize bs) (hist @ x) i = nth_block (bs_blockSize bs) hist i"
proof (rule nth_block_append)
  have "bs_blockSize bs * (i + 1) \<le> bs_blockSize bs * bs_lastSaved bs"
    using assms by (intro mult_left_mono) (auto simp: bs_mem_def)
  then show "bs_blockSize bs * i + bs_blockSize bs \<le> int (length hist)"
    using assms(1) by (simp add: bs_mem_def algebra_simps)
qed (use assms in \<open>auto simp: bs_mem_def\<close>)

lemma concat_blocks:
  assumes "1 \<le> sz" "0 \<le> f"
  shows "f \<le> l \<Longrightarrow> int (length hist) \<le> sz * (l + 1) \<Longrightarrow>
    concat (map (nth_block sz hist) [f..l]) = drop (nat (sz * f)) hist"
  using assms(2)
proof (induction "nat (l - f)" arbitrary: f)
  case 0
  then have "l = f" by simp
  moreover have "length (drop (nat (sz * f)) hist) \<le> nat sz"
    using 0 \<open>l = f\<close> assms(1) by (simp add: nat_le_iff algebra_simps)
  ultimately show ?case by (simp add: nth_block_def)
next
  case (Suc n)
  then have "f < l" by simp
  then have "[f..l] = f # [f + 1..l]" by (simp add: upto_rec1)
  moreover have "concat (map (nth_block sz hist) [f + 1..l]) = drop (nat (sz * (f + 1))) hist"
    using Suc by (intro Suc.hyps(1)) auto
  moreover have "nat (sz * (f + 1)) = nat sz + nat (sz * f)"
    using Suc.prems assms(1) by (simp add: distrib_left nat_add_distrib add.commute)
  ultimately show ?case
    by (simp add: nth_block_def) (metis append_take_drop_id drop_drop)
qed

lemma last_block:
  assumes "bs_mem K w bs hist"
  shows "bs_lastSaved bs = (if hist = [] then 0 else (int (length hist) - 1) div bs_blockSize bs)"
proof (cases "bs_block bs = []")
  case True
  with assms show ?thesis by (auto simp: bs_mem_def)
next
  case False
  then have l: "0 < length (bs_block bs)" by simp
  have h: "int (length hist) - 1 = bs_blockSize bs * bs_lastSaved bs + (int (length (bs_block bs)) - 1)"
    using assms by (simp add: bs_mem_def)
  moreover have "(int (length (bs_block bs)) - 1) div bs_blockSize bs = 0"
    using assms l by (intro div_pos_pos_trivial) (auto simp: bs_mem_def)
  moreover have e: "hist \<noteq> []" "bs_blockSize bs \<noteq> 0" using assms l by (auto simp: bs_mem_def)
  ultimately have "(int (length hist) - 1) div bs_blockSize bs = bs_lastSaved bs"
    unfolding h by (simp only: div_mult_self4 [OF e(2)] add_0_right)
  with e(1) show ?thesis by simp
qed

context versioned_kv
begin

lemma saveBlock_load:
  assumes "bs_saveBlock K w bs = (None, w')"
  shows "bs_loadBlock K w' bs i = (if i = bs_lastSaved bs then Inr (bs_block bs) else bs_loadBlock K w bs i)"
    "KV_Get K (bs_kv bs) w' blockStoreKey v = KV_Get K (bs_kv bs) w blockStoreKey v"
proof -
  have s: "KV_Set K (bs_kv bs) w (bs_getKey (bs_lastSaved bs))
      \<lparr>obj_Version = blockVersion, obj_Timestamp = KV_Now K w, obj_Data = block_json (bs_block bs)\<rparr> = (None, w')"
    using assms by (auto simp: bs_saveBlock_def split: prod.splits)
  show "bs_loadBlock K w' bs i = (if i = bs_lastSaved bs then Inr (bs_block bs) else bs_loadBlock K w bs i)"
    "KV_Get K (bs_kv bs) w' blockStoreKey v = KV_Get K (bs_kv bs) w blockStoreKey v"
    by (simp_all add: bs_loadBlock_def get_set_if [OF s])
qed

lemma save_load:
  assumes "bs_save K w bs = (None, w')"
  shows "bs_loadBlock K w' bs i = (if i = bs_lastSaved bs then Inr (bs_block bs) else bs_loadBlock K w bs i)"
    "\<exists>obj. KV_Get K (bs_kv bs) w' blockStoreKey blockStoreVersion = Inr obj \<and> obj_Data obj = Raw (bs_marshal bs)"
proof -
  obtain w1 where s: "KV_Set K (bs_kv bs) w blockStoreKey
      \<lparr>obj_Version = blockStoreVersion, obj_Timestamp = KV_Now K w, obj_Data = Raw (bs_marshal bs)\<rparr> = (None, w1)"
    and b: "bs_saveBlock K w1 bs = (None, w')"
    using assms by (auto simp: bs_save_def split: prod.splits option.splits)
  have "bs_loadBlock K w1 bs i = bs_loadBlock K w bs i"
    by (simp add: bs_loadBlock_def get_set_if [OF s])
  with saveBlock_load [OF b] get_set_if [OF s]
  show "bs_loadBlock K w' bs i = (if i = bs_lastSaved bs then Inr (bs_block bs) else bs_loadBlock K w bs i)"
    "\<exists>obj. KV_Get K (bs_kv bs) w' blockStoreKey blockStoreVersion = Inr obj \<and> obj_Data obj = Raw (bs_marshal bs)"
    by simp_all
qed

lemma delete_blocks_frame:
  assumes "deletes_succeed K" "\<forall>j \<in> set is. key \<noteq> bs_getKey j"
  shows "KV_Get K h (bs_delete_blocks K h w is) key v = KV_Get K h w key v"
  using assms(2)
proof (induction "is" arbitrary: w)
  case (Cons j "is")
  obtain w1 where w1: "KV_Delete K h w (bs_getKey j) blockVersion = (None, w1)"
    using assms(1) by (metis deletes_succeed_def prod.collapse)
  with Cons get_delete_other [OF w1, of key v] show ?case by simp
qed simp

lemma delete_blocks_load:
  assumes "deletes_succeed K" "i \<notin> set is"
  shows "bs_loadBlock K (bs_delete_blocks K (bs_kv bs) w is) bs i = bs_loadBlock K w bs i"
proof -
  have "\<forall>j \<in> set is. bs_getKey i \<noteq> bs_getKey j" using assms(2) by auto
  from delete_blocks_frame [OF assms(1) this] show ?thesis by (simp add: bs_loadBlock_def)
qed

lemma mem_append:
  assumes "bs_mem K w bs hist" "int (length (bs_block bs)) < bs_blockSize bs"
  shows "bs_mem K w (bs\<lparr>bs_block := bs_block bs @ [item]\<rparr>) (hist @ [item])"
proof -
  have "nat (bs_blockSize bs * bs_lastSaved bs) \<le> length hist"
    using assms(1) unfolding bs_mem_def by linarith
  then show ?thesis
    using assms mem_blocks_append [OF assms(1)] by (simp add: bs_mem_def)
qed

lemma mem_new_block:
  assumes "bs_mem K w bs hist" "bs_blockSize bs \<le> int (length (bs_block bs))"
    and "bs_saveBlock K w bs = (None, w')"
  shows "bs_mem K w' (bs\<lparr>bs_lastSaved := bs_lastSaved bs + 1, bs_block := [item]\<rparr>) (hist @ [item])"
proof -
  let ?sz = "bs_blockSize bs" and ?l = "bs_lastSaved bs"
  have len: "int (length hist) = ?sz * (?l + 1)" "int (length (bs_block bs)) = ?sz"
    using assms(1,2) unfolding bs_mem_def distrib_left by linarith+
  then have "drop (nat (?sz * (?l + 1))) (hist @ [item]) = [item]"
    by (simp flip: len(1))
  moreover have "nth_block ?sz (hist @ [item]) ?l = bs_block bs"
  proof -
    have "nat (?sz * ?l) \<le> length hist" using assms(1) unfolding bs_mem_def by linarith
    moreover have "nat ?sz = length (bs_block bs)" using len(2) by simp
    ultimately show ?thesis using assms(1) by (simp add: nth_block_def bs_mem_def)
  qed
  ultimately show ?thesis
    using assms(1) len saveBlock_load(1) [OF assms(3)] mem_blocks_append [OF assms(1)]
    by (auto simp: bs_mem_def)
qed

lemma add_items_mem:
  "bs_mem K w bs hist \<Longrightarrow> bs_add_items K w bs items = (None, bs', w') \<Longrightarrow>
   bs_mem K w' bs' (hist @ items) \<and> bs_firstSaved bs' = bs_firstSaved bs \<and> bs_lastSaved bs \<le> bs_lastSaved bs' \<and>
   bs_numBlocks bs' = bs_numBlocks bs \<and> bs_blockSize bs' = bs_blockSize bs \<and> bs_kv bs' = bs_kv bs"
proof (induction items arbitrary: w bs hist)
  case (Cons item items)
  show ?case
  proof (cases "bs_blockSize bs \<le> int (length (bs_block bs))")
    case True
    then obtain w1 where "bs_saveBlock K w bs = (None, w1)"
      "bs_add_items K w1 (bs\<lparr>bs_lastSaved := bs_lastSaved bs + 1, bs_block := [item]\<rparr>) items = (None, bs', w')"
      using Cons.prems(2) by (auto split: prod.splits option.splits)
    with Cons.IH [OF mem_new_block [OF Cons.prems(1) True this(1)]] show ?thesis by fastforce
  next
    case False
    with Cons.IH [OF mem_append [OF Cons.prems(1)]] Cons.prems(2) show ?thesis by fastforce
  qed
qed simp

lemma Store_synced:
  assumes "bs_mem K w bs hist" "bs_Store K w bs items = (None, bs', w')" "deletes_succeed K"
    and "bs_firstSaved bs = first_kept (bs_numBlocks bs) (bs_lastSaved bs)"
  shows "bs_synced K w' bs' (hist @ items) \<and> bs_kv bs' = bs_kv bs \<and>
    bs_numBlocks bs' = bs_numBlocks bs \<and> bs_blockSize bs' = bs_blockSize bs"
proof -
  obtain bs1 w1 w2 w3 bs2 where 1: "bs_add_items K w bs items = (None, bs1, w1)"
    "bs_saveBlock K w1 bs1 = (None, w2)"
    and bs2: "bs2 = (if (bs_lastSaved bs1 + 1) - bs_firstSaved bs1 > bs_numBlocks bs1
                     then bs1\<lparr>bs_firstSaved := (bs_lastSaved bs1 + 1) - bs_numBlocks bs1\<rparr> else bs1)"
    and 2: "bs_save K w2 bs2 = (None, w3)" "bs' = bs2"
      "w' = bs_pruneBlocks K w3 bs2 (bs_firstSaved bs1)"
    using assms(2) by (auto simp: bs_Store_def Let_def split: prod.splits option.splits)
  from add_items_mem [OF assms(1) 1(1)] have m: "bs_mem K w1 bs1 (hist @ items)"
    "bs_numBlocks bs1 = bs_numBlocks bs" "bs_blockSize bs1 = bs_blockSize bs" "bs_kv bs1 = bs_kv bs"
    "bs_firstSaved bs1 = first_kept (bs_numBlocks bs) (bs_lastSaved bs)" "bs_lastSaved bs \<le> bs_lastSaved bs1"
    using assms(4) by auto
  have f: "bs_kv bs2 = bs_kv bs1" "bs_numBlocks bs2 = bs_numBlocks bs1" "bs_blockSize bs2 = bs_blockSize bs1"
    "bs_lastSaved bs2 = bs_lastSaved bs1" "bs_block bs2 = bs_block bs1"
    "bs_firstSaved bs1 \<le> bs_firstSaved bs2" "bs_firstSaved bs2 \<le> bs_lastSaved bs2"
    using m(1) by (auto simp: bs2 bs_mem_def)
  have first: "bs_firstSaved bs2 = first_kept (bs_numBlocks bs2) (bs_lastSaved bs2)"
    using m(2,5,6) by (auto simp: bs2 first_kept_def)
  have same: "bs_loadBlock K v bs2 i = bs_loadBlock K v bs1 i" for v i
    by (simp add: bs2)
  have load: "bs_loadBlock K w' bs2 i = (if i = bs_lastSaved bs1 then Inr (bs_block bs1) else bs_loadBlock K w1 bs1 i)"
    if "bs_firstSaved bs2 \<le> i" for i
  proof -
    have "bs_loadBlock K w' bs2 i = bs_loadBlock K w3 bs2 i"
      using that delete_blocks_load [OF assms(3), of i "[bs_firstSaved bs1..bs_firstSaved bs2 - 1]" bs2]
      by (simp add: 2(3) bs_pruneBlocks_def)
    then show ?thesis
      using save_load(1) [OF 2(1), of i] saveBlock_load(1) [OF 1(2), of i] by (simp add: same f)
  qed
  have "bs_mem K w' bs2 (hist @ items)"
    using m(1) f load unfolding bs_mem_def by auto
  moreover have "KV_Get K (bs_kv bs2) w' blockStoreKey v = KV_Get K (bs_kv bs2) w3 blockStoreKey v" for v
    using delete_blocks_frame [OF assms(3), of _ blockStoreKey "bs_kv bs2"] by (simp add: 2(3) bs_pruneBlocks_def)
  ultimately show ?thesis
    using save_load(2) [OF 2(1)] f m(2-4) load first by (simp add: bs_synced_def 2(2))
qed

lemma store_all_synced:
  assumes "deletes_succeed K"
  shows "bs_synced K w bs hist \<Longrightarrow> bs_store_all K w bs its = Some (bs', w') \<Longrightarrow>
    bs_synced K w' bs' (hist @ concat its) \<and> bs_kv bs' = bs_kv bs \<and>
    bs_numBlocks bs' = bs_numBlocks bs \<and> bs_blockSize bs' = bs_blockSize bs"
proof (induction its arbitrary: w bs hist)
  case (Cons it its)
  then obtain bs1 w1 where 1: "bs_Store K w bs it = (None, bs1, w1)" "bs_store_all K w1 bs1 its = Some (bs', w')"
    by (auto split: prod.splits option.splits)
  from Store_synced [OF _ 1(1) assms, of hist] Cons.prems(1) have "bs_synced K w1 bs1 (hist @ it)" "bs_kv bs1 = bs_kv bs"
    "bs_numBlocks bs1 = bs_numBlocks bs" "bs_blockSize bs1 = bs_blockSize bs"
    by (auto simp: bs_synced_def)
  with Cons.IH [OF this(1) 1(2)] show ?case by simp
qed simp

lemma load_blocks_concat:
  "\<forall>i \<in> set is. bs_loadBlock K w bs i = Inr (f i) \<Longrightarrow>
   bs_load_blocks K w bs is data block =
     Inr (data @ concat (map f is), if is = [] then block else f (last is))"
  by (induction "is" arbitrary: data block) auto

lemma load_synced:
  assumes "bs_synced K w bs hist" "bs_in_range bs"
  shows "LoadBlockStore K w (bs_kv bs) = Inr (bs, drop (nat (bs_blockSize bs * bs_firstSaved bs)) hist)"
proof -
  let ?sz = "bs_blockSize bs" and ?f = "bs_firstSaved bs" and ?l = "bs_lastSaved bs"
  have m: "bs_mem K w bs hist" using assms(1) by (simp add: bs_synced_def)
  have blocks: "bs_loadBlock K w bs i = Inr (nth_block ?sz hist i)" if "i \<in> set [?f..?l]" for i
  proof (cases "i = ?l")
    case True
    have "nat ?sz \<ge> length (bs_block bs)" using m unfolding bs_mem_def by linarith
    then have "nth_block ?sz hist ?l = bs_block bs"
      using m by (simp add: nth_block_def bs_mem_def)
    with True assms(1) show ?thesis by (simp add: bs_synced_def)
  next
    case False
    with that m show ?thesis by (simp add: bs_mem_def)
  qed
  have fl: "?f \<le> ?l" "0 \<le> ?f" "1 \<le> ?sz" "int (length hist) \<le> ?sz * (?l + 1)"
    using m by (auto simp: bs_mem_def algebra_simps)
  then have last: "last [?f..?l] = ?l" "[?f..?l] \<noteq> []" by (simp_all add: upto_rec2)
  have "nth_block ?sz hist ?l = bs_block bs"
    using blocks [of ?l] assms(1) fl(1) by (simp add: bs_synced_def)
  moreover obtain obj where obj: "KV_Get K (bs_kv bs) w blockStoreKey blockStoreVersion = Inr obj"
      "obj_Data obj = Raw (bs_marshal bs)" using assms(1) by (auto simp: bs_synced_def)
  moreover define bs0 where "bs0 = bs\<lparr>bs_block := []\<rparr>"
  ultimately have "bs_load_blocks K w bs0 [?f..?l] [] [] = Inr (drop (nat (?sz * ?f)) hist, bs_block bs)"
    using load_blocks_concat [of "[?f..?l]" w bs0 "nth_block ?sz hist" "[]" "[]"] blocks last
      concat_blocks [OF fl(3,2,1,4)] by simp
  moreover have "bs_load K w \<lparr>bs_block = [], bs_numBlocks = 0, bs_blockSize = 0, bs_firstSaved = 0,
                bs_lastSaved = 0, bs_kv = bs_kv bs\<rparr> = Inr bs0"
    using obj by (simp add: bs_load_def bs_unmarshal_marshal [OF assms(2)] bs0_def)
  ultimately show ?thesis by (simp add: LoadBlockStore_def bs0_def)
qed

end

section \<open>Properties\<close>



end
