(* ===== verification/Message_Buffer.thy ===== *)
theory Message_Buffer
  imports Versioned_KV
begin

text \<open>
  The message buffer of \<open>storage/utility/messageBuffer.go\<close>, which the critical-message and the
  garbled-message queues are built on, and the metered cMix message buffer over it
  (\<open>cmix/message/meteredCmixMessageBuffer.go\<close>).

  The two Go maps are duplicate-free lists of hashes. \<open>range\<close> over a map visits it in an order the
  language leaves open: \<open>rnd\<close>, an argument of \<open>Next\<close>, makes that choice, and every property holds
  for every \<open>rnd\<close>. The interface \<open>MessageHandler\<close> is the record \<open>H\<close> of its methods; what the buffer
  relies on is the locale \<open>message_handler\<close>, which the metered handler satisfies over every
  versioned store. The hash \<open>blake2b\<close> is not part of the repository and is an argument.
\<close>

section \<open>State and interface\<close>

type_synonym MessageHash = bytes

definition messageSubKey :: string where
  "messageSubKey = ''bufferedMessage''"

definition CurrentMessageBufferVersion :: u64 where
  "CurrentMessageBufferVersion = 0"

record ('h, 'w, 'm) MessageHandler =
  SaveMessage :: "'h \<Rightarrow> 'w \<Rightarrow> 'm \<Rightarrow> string \<Rightarrow> kv_error option \<times> 'w"
  LoadMessage :: "'h \<Rightarrow> 'w \<Rightarrow> string \<Rightarrow> kv_error + 'm"
  DeleteMessage :: "'h \<Rightarrow> 'w \<Rightarrow> string \<Rightarrow> kv_error option \<times> 'w"
  HashMessage :: "'m \<Rightarrow> MessageHash"

record 'h MessageBuffer =
  mb_messages :: "MessageHash list"
  mb_processingMessages :: "MessageHash list"
  mb_kv :: 'h
  mb_key :: string

text \<open>What \<open>Add\<close> and \<open>AddProcessing\<close> return as an \<open>interface{}\<close>: a message, or the empty struct that
  is the value of the maps.\<close>

datatype 'm face = FaceMsg 'm | FaceEmpty

datatype mb_error = MbKv kv_error | MbUnmarshal

definition MakeStoredMessageKey :: "string \<Rightarrow> MessageHash \<Rightarrow> string" where
  "MakeStoredMessageKey key h = key @ messageSubKey @ base64 h"

section \<open>Operations\<close>

definition mb_getMessageList :: "'h MessageBuffer \<Rightarrow> MessageHash list" where
  "mb_getMessageList mb = mb_messages mb @ mb_processingMessages mb"

text \<open>A \<open>[16]byte\<close> is a JSON array of numbers; reading one pads and truncates to 16 bytes.\<close>

definition hash_json :: "MessageHash \<Rightarrow> json" where
  "hash_json h = JArr (map word_json h)"

definition json_hash :: "json \<Rightarrow> MessageHash option" where
  "json_hash j = map_option (\<lambda>xs. take 16 (xs @ replicate 16 0)) (json_list json_word j)"

fun json_hashes :: "stored \<Rightarrow> MessageHash list option" where
  "json_hashes (Json j) = json_list json_hash j"
| "json_hashes (Raw _) = None"

definition mb_save :: "('h, 'w) KV_ops \<Rightarrow> 'w \<Rightarrow> 'h MessageBuffer \<Rightarrow> kv_error option \<times> 'w" where
  "mb_save K w mb =
     KV_Set K (mb_kv mb) w (mb_key mb)
       \<lparr>obj_Version = CurrentMessageBufferVersion, obj_Timestamp = KV_Now K w,
        obj_Data = Json (JArr (map hash_json (mb_getMessageList mb)))\<rparr>"

definition mb_load :: "('h, 'w) KV_ops \<Rightarrow> 'w \<Rightarrow> 'h MessageBuffer \<Rightarrow> mb_error option \<times> 'h MessageBuffer" where
  "mb_load K w mb =
     (case KV_Get K (mb_kv mb) w (mb_key mb) CurrentMessageBufferVersion of
        Inl err \<Rightarrow> (Some (MbKv err), mb)
      | Inr vo \<Rightarrow>
          (case json_hashes (obj_Data vo) of
             None \<Rightarrow> (Some MbUnmarshal, mb)
           | Some msgs \<Rightarrow> (None, mb\<lparr>mb_messages := fold List.insert msgs (mb_messages mb)\<rparr>)))"

definition NewMessageBuffer ::
  "('h, 'w) KV_ops \<Rightarrow> 'w \<Rightarrow> 'h \<Rightarrow> string \<Rightarrow> 'h MessageBuffer \<times> kv_error option \<times> 'w" where
  "NewMessageBuffer K w h key =
     (let mb = \<lparr>mb_messages = [], mb_processingMessages = [], mb_kv = h, mb_key = key\<rparr>
      in (mb, mb_save K w mb))"

definition LoadMessageBuffer ::
  "('h, 'w) KV_ops \<Rightarrow> 'w \<Rightarrow> 'h \<Rightarrow> string \<Rightarrow> mb_error option \<times> 'h MessageBuffer" where
  "LoadMessageBuffer K w h key =
     mb_load K w \<lparr>mb_messages = [], mb_processingMessages = [], mb_kv = h, mb_key = key\<rparr>"

definition GetMessages :: "'h MessageBuffer \<Rightarrow> MessageHash list" where
  "GetMessages mb = mb_messages mb"

definition GetProcessingMessages :: "'h MessageBuffer \<Rightarrow> MessageHash list" where
  "GetProcessingMessages mb = mb_processingMessages mb"

definition mb_Add ::
  "('h, 'w) KV_ops \<Rightarrow> ('h, 'w, 'm) MessageHandler \<Rightarrow> 'w \<Rightarrow> 'h MessageBuffer \<Rightarrow> 'm \<Rightarrow>
   fault + ('m face \<times> 'h MessageBuffer \<times> 'w)" where
  "mb_Add K H w mb m =
     (let h = HashMessage H m; k = MakeStoredMessageKey (mb_key mb) h
      in if h \<in> set (mb_messages mb) \<or> h \<in> set (mb_processingMessages mb) then
           (case LoadMessage H (mb_kv mb) w k of
              Inl err \<Rightarrow> Inl FatalPanic
            | Inr msg \<Rightarrow> Inr (FaceMsg msg, mb, w))
         else
           case SaveMessage H (mb_kv mb) w m k of
             (Some err, w') \<Rightarrow> Inl FatalPanic
           | (None, w') \<Rightarrow>
               let mb' = mb\<lparr>mb_messages := List.insert h (mb_messages mb)\<rparr>
               in (case mb_save K w' mb' of
                     (Some err, w'') \<Rightarrow> Inl FatalPanic
                   | (None, w'') \<Rightarrow> Inr (FaceMsg m, mb', w'')))"

definition mb_AddProcessing ::
  "('h, 'w) KV_ops \<Rightarrow> ('h, 'w, 'm) MessageHandler \<Rightarrow> 'w \<Rightarrow> 'h MessageBuffer \<Rightarrow> 'm \<Rightarrow>
   fault + ('m face \<times> 'h MessageBuffer \<times> 'w)" where
  "mb_AddProcessing K H w mb m =
     (let h = HashMessage H m; k = MakeStoredMessageKey (mb_key mb) h
      in if h \<in> set (mb_messages mb) then Inr (FaceEmpty, mb, w)
         else if h \<in> set (mb_processingMessages mb) then Inr (FaceEmpty, mb, w)
         else
           case SaveMessage H (mb_kv mb) w m k of
             (Some err, w') \<Rightarrow> Inl FatalPanic
           | (None, w') \<Rightarrow>
               let mb' = mb\<lparr>mb_processingMessages := List.insert h (mb_processingMessages mb)\<rparr>
               in (case mb_save K w' mb' of
                     (Some err, w'') \<Rightarrow> Inl FatalPanic
                   | (None, w'') \<Rightarrow> Inr (FaceMsg m, mb', w'')))"

text \<open>\<open>next\<close>: the first hash that \<open>range\<close> visits, whichever it is; the zero hash for an empty map.\<close>

definition mb_next :: "(MessageHash list \<Rightarrow> nat) \<Rightarrow> MessageHash list \<Rightarrow> MessageHash" where
  "mb_next rnd msgMap = (if msgMap = [] then replicate 16 0 else msgMap ! (rnd msgMap mod length msgMap))"

lemma mb_next_in: "xs \<noteq> [] \<Longrightarrow> mb_next rnd xs \<in> set xs"
  by (simp add: mb_next_def)

function mb_next_loop ::
  "('h, 'w, 'm) MessageHandler \<Rightarrow> (MessageHash list \<Rightarrow> nat) \<Rightarrow> 'w \<Rightarrow> 'h MessageBuffer \<Rightarrow>
   'm option \<times> 'h MessageBuffer" where
  "mb_next_loop H rnd w mb =
     (if mb_messages mb = [] then (None, mb)
      else
        let h = mb_next rnd (mb_messages mb);
            mb' = mb\<lparr>mb_messages := removeAll h (mb_messages mb),
                     mb_processingMessages := List.insert h (mb_processingMessages mb)\<rparr>
        in case LoadMessage H (mb_kv mb) w (MakeStoredMessageKey (mb_key mb) h) of
             Inr m \<Rightarrow> (Some m, mb')
           | Inl err \<Rightarrow> mb_next_loop H rnd w mb')"
  by pat_completeness auto

termination
  by (relation "measure (\<lambda>(H, rnd, w, mb). length (mb_messages mb))")
    (auto simp: mb_next_in length_removeAll_less)

declare mb_next_loop.simps [simp del]

text \<open>\<open>Next\<close> only moves hashes between the maps, whose union is what is in storage; it saves nothing.\<close>

definition mb_Next ::
  "('h, 'w, 'm) MessageHandler \<Rightarrow> (MessageHash list \<Rightarrow> nat) \<Rightarrow> 'w \<Rightarrow> 'h MessageBuffer \<Rightarrow>
   'm option \<times> 'h MessageBuffer" where
  "mb_Next H rnd w mb = mb_next_loop H rnd w mb"

definition mb_Succeeded ::
  "('h, 'w) KV_ops \<Rightarrow> ('h, 'w, 'm) MessageHandler \<Rightarrow> 'w \<Rightarrow> 'h MessageBuffer \<Rightarrow> 'm \<Rightarrow>
   fault + ('h MessageBuffer \<times> 'w)" where
  "mb_Succeeded K H w mb m =
     (let h = HashMessage H m;
          mb' = mb\<lparr>mb_processingMessages := removeAll h (mb_processingMessages mb),
                   mb_messages := removeAll h (mb_messages mb)\<rparr>;
          (err, w') = DeleteMessage H (mb_kv mb) w (MakeStoredMessageKey (mb_key mb) h)
      in case mb_save K w' mb' of
           (Some err', w'') \<Rightarrow> Inl FatalPanic
         | (None, w'') \<Rightarrow> Inr (mb', w''))"

definition mb_Failed ::
  "('h, 'w) KV_ops \<Rightarrow> ('h, 'w, 'm) MessageHandler \<Rightarrow> 'w \<Rightarrow> 'h MessageBuffer \<Rightarrow> 'm \<Rightarrow>
   fault + ('h MessageBuffer \<times> 'w)" where
  "mb_Failed K H w mb m =
     (let h = HashMessage H m;
          mb1 = mb\<lparr>mb_processingMessages := removeAll h (mb_processingMessages mb)\<rparr>
      in case SaveMessage H (mb_kv mb) w m (MakeStoredMessageKey (mb_key mb) h) of
           (Some err, w') \<Rightarrow> Inl FatalPanic
         | (None, w') \<Rightarrow>
             let mb' = mb1\<lparr>mb_messages := List.insert h (mb_messages mb1)\<rparr>
             in (case mb_save K w' mb' of
                   (Some err, w'') \<Rightarrow> Inl FatalPanic
                 | (None, w'') \<Rightarrow> Inr (mb', w'')))"

section \<open>The metered cMix message buffer\<close>

text \<open>The \<open>time.Time\<close> of a message is its number of nanoseconds; its text form in JSON is not
  modelled.\<close>

record meteredCmixMessage =
  mcm_M :: bytes
  mcm_Ri :: bytes
  mcm_Identity :: bytes
  mcm_Count :: u64
  mcm_Timestamp :: int

definition mcm_json :: "meteredCmixMessage \<Rightarrow> stored" where
  "mcm_json m =
     Json (JObj [(''M'', JBytes (mcm_M m)), (''Ri'', JBytes (mcm_Ri m)),
                 (''Identity'', JBytes (mcm_Identity m)), (''Count'', word_json (mcm_Count m)),
                 (''Timestamp'', JNum (mcm_Timestamp m))])"

fun json_time :: "json \<Rightarrow> int option" where
  "json_time (JNum i) = Some i"
| "json_time JNull = Some 0"
| "json_time _ = None"

definition json_mcm :: "stored \<Rightarrow> meteredCmixMessage option" where
  "json_mcm data =
     (case data of
        Raw _ \<Rightarrow> None
      | Json j \<Rightarrow>
          (case (json_bytes (json_field j ''M''), json_bytes (json_field j ''Ri''),
                 json_bytes (json_field j ''Identity''), json_word (json_field j ''Count''),
                 json_time (json_field j ''Timestamp'')) of
             (Some m, Some ri, Some ident, Some count, Some ts) \<Rightarrow>
               Some \<lparr>mcm_M = m, mcm_Ri = ri, mcm_Identity = ident, mcm_Count = count, mcm_Timestamp = ts\<rparr>
           | _ \<Rightarrow> None))"

definition mcm_SaveMessage ::
  "('h, 'w) KV_ops \<Rightarrow> 'h \<Rightarrow> 'w \<Rightarrow> meteredCmixMessage \<Rightarrow> string \<Rightarrow> kv_error option \<times> 'w" where
  "mcm_SaveMessage K h w m key =
     KV_Set K h w key \<lparr>obj_Version = CurrentMessageBufferVersion, obj_Timestamp = KV_Now K w,
                       obj_Data = mcm_json m\<rparr>"

definition mcm_LoadMessage ::
  "('h, 'w) KV_ops \<Rightarrow> 'h \<Rightarrow> 'w \<Rightarrow> string \<Rightarrow> kv_error + meteredCmixMessage" where
  "mcm_LoadMessage K h w key =
     (case KV_Get K h w key CurrentMessageBufferVersion of
        Inl err \<Rightarrow> Inl err
      | Inr vo \<Rightarrow> (case json_mcm (obj_Data vo) of None \<Rightarrow> Inl KVFailure | Some m \<Rightarrow> Inr m))"

definition mcm_DeleteMessage :: "('h, 'w) KV_ops \<Rightarrow> 'h \<Rightarrow> 'w \<Rightarrow> string \<Rightarrow> kv_error option \<times> 'w" where
  "mcm_DeleteMessage K h w key = KV_Delete K h w key CurrentMessageBufferVersion"

definition mcm_HashMessage :: "(bytes \<Rightarrow> bytes) \<Rightarrow> meteredCmixMessage \<Rightarrow> MessageHash" where
  "mcm_HashMessage blake2b m =
     copy_at (replicate 16 0) 0 (blake2b (mcm_M m @ mcm_Ri m @ mcm_Identity m))"

definition meteredCmixMessageHandler ::
  "(bytes \<Rightarrow> bytes) \<Rightarrow> ('h, 'w) KV_ops \<Rightarrow> ('h, 'w, meteredCmixMessage) MessageHandler" where
  "meteredCmixMessageHandler blake2b K =
     \<lparr>SaveMessage = mcm_SaveMessage K, LoadMessage = mcm_LoadMessage K,
      DeleteMessage = mcm_DeleteMessage K, HashMessage = mcm_HashMessage blake2b\<rparr>"

text \<open>The wrapper, on the messages that \<open>buildMsg\<close> assembles (with \<open>Count\<close> zero) from the formats of
  the packages \<open>primitives\<close> and \<open>comms\<close>. The result of the buffer is asserted to be a message.\<close>

definition assert_message :: "meteredCmixMessage face \<Rightarrow> fault + meteredCmixMessage" where
  "assert_message f = (case f of FaceMsg m \<Rightarrow> Inr m | FaceEmpty \<Rightarrow> Inl TypeAssertionPanic)"

definition mcmb_Add ::
  "(bytes \<Rightarrow> bytes) \<Rightarrow> ('h, 'w) KV_ops \<Rightarrow> 'w \<Rightarrow> 'h MessageBuffer \<Rightarrow> meteredCmixMessage \<Rightarrow>
   fault + ((u64 \<times> int) \<times> 'h MessageBuffer \<times> 'w)" where
  "mcmb_Add blake2b K w mb msg =
     res_bind (mb_Add K (meteredCmixMessageHandler blake2b K) w mb msg) (\<lambda>(f, mb', w').
     res_bind (assert_message f) (\<lambda>m. Inr ((mcm_Count m, mcm_Timestamp m), mb', w')))"

definition mcmb_AddProcessing ::
  "(bytes \<Rightarrow> bytes) \<Rightarrow> ('h, 'w) KV_ops \<Rightarrow> 'w \<Rightarrow> 'h MessageBuffer \<Rightarrow> meteredCmixMessage \<Rightarrow>
   fault + ((u64 \<times> int) \<times> 'h MessageBuffer \<times> 'w)" where
  "mcmb_AddProcessing blake2b K w mb msg =
     res_bind (mb_AddProcessing K (meteredCmixMessageHandler blake2b K) w mb msg) (\<lambda>(f, mb', w').
     res_bind (assert_message f) (\<lambda>m. Inr ((mcm_Count m, mcm_Timestamp m), mb', w')))"

text \<open>\<open>Next\<close> counts the attempt in storage before it hands the message out.\<close>

definition mcmb_Next ::
  "(bytes \<Rightarrow> bytes) \<Rightarrow> ('h, 'w) KV_ops \<Rightarrow> (MessageHash list \<Rightarrow> nat) \<Rightarrow> 'w \<Rightarrow> 'h MessageBuffer \<Rightarrow>
   fault + (meteredCmixMessage option \<times> 'h MessageBuffer \<times> 'w)" where
  "mcmb_Next blake2b K rnd w mb =
     (case mb_Next (meteredCmixMessageHandler blake2b K) rnd w mb of
        (None, mb') \<Rightarrow> Inr (None, mb', w)
      | (Some m, mb') \<Rightarrow>
          let msg = m\<lparr>mcm_Count := mcm_Count m + 1\<rparr>
          in case mcm_SaveMessage K (mb_kv mb) w msg
                    (MakeStoredMessageKey (mb_key mb) (mcm_HashMessage blake2b msg)) of
               (Some err, w') \<Rightarrow> Inl FatalPanic
             | (None, w') \<Rightarrow> Inr (Some msg, mb', w'))"

definition mcmb_Remove ::
  "(bytes \<Rightarrow> bytes) \<Rightarrow> ('h, 'w) KV_ops \<Rightarrow> 'w \<Rightarrow> 'h MessageBuffer \<Rightarrow> meteredCmixMessage \<Rightarrow>
   fault + ('h MessageBuffer \<times> 'w)" where
  "mcmb_Remove blake2b K w mb msg = mb_Succeeded K (meteredCmixMessageHandler blake2b K) w mb msg"

definition mcmb_Failed ::
  "(bytes \<Rightarrow> bytes) \<Rightarrow> ('h, 'w) KV_ops \<Rightarrow> 'w \<Rightarrow> 'h MessageBuffer \<Rightarrow> meteredCmixMessage \<Rightarrow>
   fault + ('h MessageBuffer \<times> 'w)" where
  "mcmb_Failed blake2b K w mb msg = mb_Failed K (meteredCmixMessageHandler blake2b K) w mb msg"

section \<open>Specification\<close>

locale message_handler = versioned_kv K for K :: "('h, 'w) KV_ops" +
  fixes H :: "('h, 'w, 'm) MessageHandler"
  assumes load_save: "SaveMessage H h w m key = (None, w') \<Longrightarrow> LoadMessage H h w' key = Inr m"
    and load_save_other:
      "SaveMessage H h w m key = (None, w') \<Longrightarrow> key' \<noteq> key \<Longrightarrow>
       LoadMessage H h w' key' = LoadMessage H h w key'"
    and get_save_other:
      "SaveMessage H h w m key = (None, w') \<Longrightarrow> key' \<noteq> key \<Longrightarrow> KV_Get K h w' key' ver = KV_Get K h w key' ver"
    and load_set_other:
      "KV_Set K h w key obj = (None, w') \<Longrightarrow> key' \<noteq> key \<Longrightarrow>
       LoadMessage H h w' key' = LoadMessage H h w key'"
    and load_delete_other:
      "DeleteMessage H h w key = (None, w') \<Longrightarrow> key' \<noteq> key \<Longrightarrow>
       LoadMessage H h w' key' = LoadMessage H h w key'"
    and hash_length: "length (HashMessage H m) = 16"

text \<open>The states of a buffer that is created, used, and possibly reloaded from storage after a restart
  of the client, at any point between two operations.\<close>

inductive mb_reachable ::
  "('h, 'w) KV_ops \<Rightarrow> ('h, 'w, 'm) MessageHandler \<Rightarrow> 'h MessageBuffer \<Rightarrow> 'w \<Rightarrow> bool"
  for K H where
  start: "NewMessageBuffer K w h key = (mb, None, w') \<Longrightarrow> mb_reachable K H mb w'"
| add: "mb_reachable K H mb w \<Longrightarrow> mb_Add K H w mb m = Inr (f, mb', w') \<Longrightarrow> mb_reachable K H mb' w'"
| add_processing:
    "mb_reachable K H mb w \<Longrightarrow> mb_AddProcessing K H w mb m = Inr (f, mb', w') \<Longrightarrow> mb_reachable K H mb' w'"
| get_next: "mb_reachable K H mb w \<Longrightarrow> mb_Next H rnd w mb = (r, mb') \<Longrightarrow> mb_reachable K H mb' w"
| succeeded: "mb_reachable K H mb w \<Longrightarrow> mb_Succeeded K H w mb m = Inr (mb', w') \<Longrightarrow> mb_reachable K H mb' w'"
| failed: "mb_reachable K H mb w \<Longrightarrow> mb_Failed K H w mb m = Inr (mb', w') \<Longrightarrow> mb_reachable K H mb' w'"
| restart:
    "mb_reachable K H mb w \<Longrightarrow> LoadMessageBuffer K w (mb_kv mb) (mb_key mb) = (None, mb') \<Longrightarrow>
     mb_reachable K H mb' w"

definition mb_all :: "'h MessageBuffer \<Rightarrow> MessageHash set" where
  "mb_all mb = set (mb_messages mb) \<union> set (mb_processingMessages mb)"

definition mb_wf :: "'h MessageBuffer \<Rightarrow> bool" where
  "mb_wf mb =
     (distinct (mb_messages mb) \<and> distinct (mb_processingMessages mb) \<and>
      set (mb_messages mb) \<inter> set (mb_processingMessages mb) = {} \<and> (\<forall>h \<in> mb_all mb. length h = 16))"

definition mb_loadable :: "('h, 'w, 'm) MessageHandler \<Rightarrow> 'w \<Rightarrow> 'h MessageBuffer \<Rightarrow> bool" where
  "mb_loadable H w mb =
     (\<forall>h \<in> mb_all mb. \<exists>m. LoadMessage H (mb_kv mb) w (MakeStoredMessageKey (mb_key mb) h) = Inr m \<and>
        HashMessage H m = h)"

definition mb_stored :: "('h, 'w) KV_ops \<Rightarrow> 'w \<Rightarrow> 'h MessageBuffer \<Rightarrow> bool" where
  "mb_stored K w mb =
     (\<exists>obj l. KV_Get K (mb_kv mb) w (mb_key mb) CurrentMessageBufferVersion = Inr obj \<and>
        json_hashes (obj_Data obj) = Some l \<and> set l = mb_all mb)"

definition message_deletes_succeed :: "('h, 'w, 'm) MessageHandler \<Rightarrow> bool" where
  "message_deletes_succeed H = (\<forall>h w key. fst (DeleteMessage H h w key) = None)"

section \<open>Lemmas\<close>

lemma stored_key_inj [simp]: "MakeStoredMessageKey k a = MakeStoredMessageKey k b \<longleftrightarrow> a = b"
  using base64_inj by (auto simp: MakeStoredMessageKey_def)

lemma stored_key_not_buffer [simp]: "MakeStoredMessageKey k a \<noteq> k"
  by (simp add: MakeStoredMessageKey_def messageSubKey_def)

lemma json_hash_hash_json [simp]: "length h = 16 \<Longrightarrow> json_hash (hash_json h) = Some h"
  using those_map_Some [of h json_word word_json] by (simp add: json_hash_def hash_json_def)

lemma json_hashes_map:
  "\<forall>h \<in> set l. length h = 16 \<Longrightarrow> json_hashes (Json (JArr (map hash_json l))) = Some l"
  using those_map_Some [of l json_hash hash_json] by simp

lemma set_fold_insert [simp]: "set (fold List.insert xs ys) = set ys \<union> set xs"
  by (induction xs arbitrary: ys) auto

lemma distinct_fold_insert: "distinct ys \<Longrightarrow> distinct (fold List.insert xs ys)"
  by (induction xs arbitrary: ys) auto

lemma mb_load_stored:
  assumes "mb_stored K w mb"
  obtains mb' where "LoadMessageBuffer K w (mb_kv mb) (mb_key mb) = (None, mb')"
    "set (mb_messages mb') = mb_all mb" "distinct (mb_messages mb')" "mb_processingMessages mb' = []"
    "mb_kv mb' = mb_kv mb" "mb_key mb' = mb_key mb"
  using assms that by (fastforce simp: mb_stored_def LoadMessageBuffer_def mb_load_def distinct_fold_insert)

text \<open>The loop of \<open>Next\<close> moves hashes from one map to the other; it ends with a message, unless none of
  the stored messages could be read.\<close>

lemma next_loop_keeps:
  assumes "mb_wf mb" "mb_next_loop H rnd w mb = (r, mb')"
  shows "mb_wf mb' \<and> mb_all mb' = mb_all mb \<and> mb_kv mb' = mb_kv mb \<and> mb_key mb' = mb_key mb \<and>
    set (mb_messages mb') \<subseteq> set (mb_messages mb)"
  using assms
proof (induction H rnd w mb rule: mb_next_loop.induct)
  case (1 H rnd w mb)
  show ?case
  proof (cases "mb_messages mb = []")
    case True
    with 1(2,3) show ?thesis by (simp add: mb_next_loop.simps [of H rnd w mb])
  next
    case False
    define h where "h = mb_next rnd (mb_messages mb)"
    define mb1 where "mb1 = mb\<lparr>mb_messages := removeAll h (mb_messages mb),
                     mb_processingMessages := List.insert h (mb_processingMessages mb)\<rparr>"
    have "h \<in> set (mb_messages mb)" using False by (simp add: h_def mb_next_in)
    then have 2: "mb_wf mb1" "mb_all mb1 = mb_all mb" "set (mb_messages mb1) \<subseteq> set (mb_messages mb)"
      using 1(2) by (auto simp: mb_wf_def mb_all_def mb1_def distinct_removeAll)
    show ?thesis
    proof (cases "LoadMessage H (mb_kv mb) w (MakeStoredMessageKey (mb_key mb) h)")
      case (Inr m)
      with 1(3) False 2 show ?thesis
        by (auto simp: mb_next_loop.simps [of H rnd w mb] Let_def h_def [symmetric] mb1_def)
    next
      case (Inl e)
      with 1(3) False have "mb_next_loop H rnd w mb1 = (r, mb')"
        by (simp add: mb_next_loop.simps [of H rnd w mb] Let_def h_def [symmetric] mb1_def)
      moreover note 1(1) [OF False, of h mb1]
      ultimately show ?thesis using Inl 2 by (auto simp: h_def mb1_def)
    qed
  qed
qed

context message_handler
begin

lemma save_stored:
  assumes "mb_save K w mb = (None, w')" "mb_wf mb"
  shows "mb_stored K w' mb"
    "LoadMessage H (mb_kv mb) w' (MakeStoredMessageKey (mb_key mb) h) = LoadMessage H (mb_kv mb) w (MakeStoredMessageKey (mb_key mb) h)"
proof -
  have "\<forall>h \<in> set (mb_getMessageList mb). length h = 16"
    using assms(2) by (auto simp: mb_wf_def mb_getMessageList_def mb_all_def)
  from json_hashes_map [OF this] get_set [OF assms(1) [unfolded mb_save_def]]
  show "mb_stored K w' mb" by (simp add: mb_stored_def mb_getMessageList_def mb_all_def)
qed (rule load_set_other [OF assms(1) [unfolded mb_save_def] stored_key_not_buffer])

lemma save_with_message:
  assumes "mb_loadable H w mb" "SaveMessage H (mb_kv mb) w m (MakeStoredMessageKey (mb_key mb) (HashMessage H m)) = (None, w1)"
    and "mb_all mb' = insert (HashMessage H m) (mb_all mb)" "mb_wf mb'" "mb_kv mb' = mb_kv mb" "mb_key mb' = mb_key mb"
    and "mb_save K w1 mb' = (None, w2)"
  shows "mb_wf mb' \<and> mb_loadable H w2 mb' \<and> mb_stored K w2 mb'"
proof -
  note s = save_stored [OF assms(7,4)]
  have "LoadMessage H (mb_kv mb) w2 (MakeStoredMessageKey (mb_key mb) h) =
      (if h = HashMessage H m then Inr m else LoadMessage H (mb_kv mb) w (MakeStoredMessageKey (mb_key mb) h))" for h
    using s(2) [of h] load_save [OF assms(2)] load_save_other [OF assms(2), of "MakeStoredMessageKey (mb_key mb) h"] assms(5,6)
    by auto
  then have "mb_loadable H w2 mb'"
    using assms(1,3,5,6) by (auto simp: mb_loadable_def)
  with s(1) assms(4) show ?thesis by blast
qed

lemma save_without_message:
  assumes "mb_loadable H w mb" "DeleteMessage H (mb_kv mb) w (MakeStoredMessageKey (mb_key mb) h0) = (None, w1)"
    and "mb_all mb' = mb_all mb - {h0}" "mb_wf mb'" "mb_kv mb' = mb_kv mb" "mb_key mb' = mb_key mb"
    and "mb_save K w1 mb' = (None, w2)"
  shows "mb_wf mb' \<and> mb_loadable H w2 mb' \<and> mb_stored K w2 mb'"
proof -
  note s = save_stored [OF assms(7,4)]
  have "LoadMessage H (mb_kv mb) w2 (MakeStoredMessageKey (mb_key mb) h) =
      LoadMessage H (mb_kv mb) w (MakeStoredMessageKey (mb_key mb) h)" if "h \<noteq> h0" for h
    using that s(2) [of h] load_delete_other [OF assms(2), of "MakeStoredMessageKey (mb_key mb) h"] assms(5,6)
    by auto
  then have "mb_loadable H w2 mb'"
    using assms(1,3,5,6) by (auto simp: mb_loadable_def)
  with s(1) assms(4) show ?thesis by blast
qed

lemma reachable_ok:
  assumes "message_deletes_succeed H"
  shows "mb_reachable K H mb w \<Longrightarrow> mb_wf mb \<and> mb_loadable H w mb \<and> mb_stored K w mb"
proof (induction rule: mb_reachable.induct)
  case (start w h key mb w')
  then have mb: "mb = \<lparr>mb_messages = [], mb_processingMessages = [], mb_kv = h, mb_key = key\<rparr>"
    and s: "mb_save K w mb = (None, w')" by (auto simp: NewMessageBuffer_def Let_def)
  have "mb_wf mb" "mb_loadable H w' mb" by (simp_all add: mb mb_wf_def mb_loadable_def mb_all_def)
  with save_stored(1) [OF s] show ?case by blast
next
  case (add mb w m f mb' w')
  let ?h = "HashMessage H m"
  show ?case
  proof (cases "?h \<in> mb_all mb")
    case True
    with add show ?thesis by (auto simp: mb_Add_def mb_all_def Let_def split: sum.splits)
  next
    case False
    with add(2) obtain w1 where 1: "SaveMessage H (mb_kv mb) w m (MakeStoredMessageKey (mb_key mb) ?h) = (None, w1)"
      "mb_save K w1 mb' = (None, w')" "mb' = mb\<lparr>mb_messages := List.insert ?h (mb_messages mb)\<rparr>"
      by (auto simp: mb_Add_def mb_all_def Let_def split: option.splits prod.splits)
    then have "mb_all mb' = insert ?h (mb_all mb)" "mb_wf mb'"
      using add(3) False hash_length [of m] by (auto simp: mb_all_def mb_wf_def)
    with save_with_message [OF _ 1(1) this _ _ 1(2)] add(3) 1(3) show ?thesis by simp
  qed
next
  case (add_processing mb w m f mb' w')
  let ?h = "HashMessage H m"
  show ?case
  proof (cases "?h \<in> mb_all mb")
    case True
    with add_processing show ?thesis
      by (auto simp: mb_AddProcessing_def mb_all_def Let_def split: if_splits)
  next
    case False
    with add_processing(2) obtain w1 where 1: "SaveMessage H (mb_kv mb) w m (MakeStoredMessageKey (mb_key mb) ?h) = (None, w1)"
      "mb_save K w1 mb' = (None, w')" "mb' = mb\<lparr>mb_processingMessages := List.insert ?h (mb_processingMessages mb)\<rparr>"
      by (auto simp: mb_AddProcessing_def mb_all_def Let_def split: option.splits prod.splits)
    then have "mb_all mb' = insert ?h (mb_all mb)" "mb_wf mb'"
      using add_processing(3) False hash_length [of m] by (auto simp: mb_all_def mb_wf_def)
    with save_with_message [OF _ 1(1) this _ _ 1(2)] add_processing(3) 1(3) show ?thesis by simp
  qed
next
  case (get_next mb w rnd r mb')
  then have "mb_wf mb'" "mb_all mb' = mb_all mb" "mb_kv mb' = mb_kv mb" "mb_key mb' = mb_key mb"
    using next_loop_keeps [of mb H rnd w r mb'] by (auto simp: mb_Next_def)
  with get_next(3) show ?case by (simp add: mb_loadable_def mb_stored_def)
next
  case (succeeded mb w m mb' w')
  let ?h = "HashMessage H m"
  obtain w1 where d: "DeleteMessage H (mb_kv mb) w (MakeStoredMessageKey (mb_key mb) ?h) = (None, w1)"
    using assms by (metis message_deletes_succeed_def prod.collapse)
  with succeeded(2) have 1: "mb_save K w1 mb' = (None, w')"
    "mb' = mb\<lparr>mb_processingMessages := removeAll ?h (mb_processingMessages mb),
              mb_messages := removeAll ?h (mb_messages mb)\<rparr>"
    by (auto simp: mb_Succeeded_def Let_def split: option.splits prod.splits)
  then have "mb_all mb' = mb_all mb - {?h}" "mb_wf mb'"
    using succeeded(3) by (auto simp: mb_all_def mb_wf_def distinct_removeAll)
  with save_without_message [OF _ d this _ _ 1(1)] succeeded(3) 1(2) show ?case by simp
next
  case (failed mb w m mb' w')
  let ?h = "HashMessage H m"
  from failed(2) obtain w1 where 1: "SaveMessage H (mb_kv mb) w m (MakeStoredMessageKey (mb_key mb) ?h) = (None, w1)"
    "mb_save K w1 mb' = (None, w')"
    "mb' = mb\<lparr>mb_processingMessages := removeAll ?h (mb_processingMessages mb),
              mb_messages := List.insert ?h (mb_messages mb)\<rparr>"
    by (auto simp: mb_Failed_def Let_def split: option.splits prod.splits)
  then have "mb_all mb' = insert ?h (mb_all mb)" "mb_wf mb'"
    using failed(3) hash_length [of m] by (auto simp: mb_all_def mb_wf_def distinct_removeAll)
  with save_with_message [OF _ 1(1) this _ _ 1(2)] failed(3) 1(3) show ?case by simp
next
  case (restart mb w mb')
  obtain mb1 where "LoadMessageBuffer K w (mb_kv mb) (mb_key mb) = (None, mb1)"
    "set (mb_messages mb1) = mb_all mb" "distinct (mb_messages mb1)" "mb_processingMessages mb1 = []"
    "mb_kv mb1 = mb_kv mb" "mb_key mb1 = mb_key mb"
    using restart(3) mb_load_stored [of K w mb] by blast
  with restart(2,3) show ?case by (auto simp: mb_wf_def mb_loadable_def mb_stored_def mb_all_def)
qed

end

subsection \<open>The metered handler\<close>

lemma json_mcm_json [simp]: "json_mcm (mcm_json m) = Some m"
  by (simp add: json_mcm_def mcm_json_def)

lemma metered_handler_simps [simp]:
  "SaveMessage (meteredCmixMessageHandler b K) = mcm_SaveMessage K"
  "LoadMessage (meteredCmixMessageHandler b K) = mcm_LoadMessage K"
  "DeleteMessage (meteredCmixMessageHandler b K) = mcm_DeleteMessage K"
  "HashMessage (meteredCmixMessageHandler b K) = mcm_HashMessage b"
  by (simp_all add: meteredCmixMessageHandler_def)

context versioned_kv
begin

lemma metered_handler: "message_handler K (meteredCmixMessageHandler b K)"
proof unfold_locales
  fix h w m key w'
  assume "SaveMessage (meteredCmixMessageHandler b K) h w m key = (None, w')"
  then have s: "KV_Set K h w key \<lparr>obj_Version = CurrentMessageBufferVersion, obj_Timestamp = KV_Now K w,
                       obj_Data = mcm_json m\<rparr> = (None, w')" by (simp add: mcm_SaveMessage_def)
  show "LoadMessage (meteredCmixMessageHandler b K) h w' key = Inr m"
    by (simp add: mcm_LoadMessage_def get_set_if [OF s])
  show "KV_Get K h w' key' ver = KV_Get K h w key' ver" if "key' \<noteq> key" for key' ver
    using that by (simp add: get_set_if [OF s])
  show "LoadMessage (meteredCmixMessageHandler b K) h w' key' = LoadMessage (meteredCmixMessageHandler b K) h w key'"
    if "key' \<noteq> key" for key' using that by (simp add: mcm_LoadMessage_def get_set_if [OF s])
next
  fix h w key obj w' key'
  assume s: "KV_Set K h w key obj = (None, w')" and "key' \<noteq> key"
  then show "LoadMessage (meteredCmixMessageHandler b K) h w' key' = LoadMessage (meteredCmixMessageHandler b K) h w key'"
    by (simp add: mcm_LoadMessage_def get_set_if [OF s])
next
  fix h w key w' key'
  assume "DeleteMessage (meteredCmixMessageHandler b K) h w key = (None, w')" and "key' \<noteq> key"
  then show "LoadMessage (meteredCmixMessageHandler b K) h w' key' = LoadMessage (meteredCmixMessageHandler b K) h w key'"
    using get_delete_other [of h w key CurrentMessageBufferVersion w' key' CurrentMessageBufferVersion]
    by (simp add: mcm_LoadMessage_def mcm_DeleteMessage_def)
qed (simp add: mcm_HashMessage_def)

end

interpretation metered: message_handler mem_KV "meteredCmixMessageHandler b mem_KV" for b
  by (rule versioned_kv.metered_handler [OF mem.versioned])

section \<open>Properties\<close>

text \<open>C24: The buffer never loses a message. In every reachable state the two maps are disjoint,
  every hash in them has its message in storage under its own key, and reloading the buffer from
  storage succeeds and finds exactly the messages of both maps, all as not yet processed.\<close>

theorem message_buffer_no_loss:
  assumes "message_handler K H" "message_deletes_succeed H" "mb_reachable K H mb w"
  shows "set (mb_messages mb) \<inter> set (mb_processingMessages mb) = {} \<and>
    (\<forall>h \<in> mb_all mb. \<exists>m. LoadMessage H (mb_kv mb) w (MakeStoredMessageKey (mb_key mb) h) = Inr m \<and>
       HashMessage H m = h) \<and>
    (\<exists>mb'. LoadMessageBuffer K w (mb_kv mb) (mb_key mb) = (None, mb') \<and>
       set (mb_messages mb') = mb_all mb \<and> mb_processingMessages mb' = [])"
proof -
  have ok: "mb_wf mb" "mb_loadable H w mb" "mb_stored K w mb"
    using message_handler.reachable_ok [OF assms] by blast+
  from ok(3) obtain mb' where "LoadMessageBuffer K w (mb_kv mb) (mb_key mb) = (None, mb')"
    "set (mb_messages mb') = mb_all mb" "mb_processingMessages mb' = []" by (rule mb_load_stored)
  with ok show ?thesis by (auto simp: mb_wf_def mb_loadable_def)
qed

definition mcm_example :: meteredCmixMessage where
  "mcm_example = \<lparr>mcm_M = [1, 2], mcm_Ri = [3], mcm_Identity = [4], mcm_Count = 0, mcm_Timestamp = 5\<rparr>"

lemma metered_deletes: "message_deletes_succeed (meteredCmixMessageHandler b mem_KV)"
  by (simp add: message_deletes_succeed_def mcm_DeleteMessage_def mem_KV_simps)

lemma metered_example_reachable:
  obtains mb w where "mb_reachable mem_KV (meteredCmixMessageHandler id mem_KV) mb w"
    "mb_messages mb = [mcm_HashMessage id mcm_example]" "mb_processingMessages mb = []"
proof -
  obtain mb0 w0 where "NewMessageBuffer mem_KV Map.empty NewKV ''k'' = (mb0, None, w0)"
    "mb0 = \<lparr>mb_messages = [], mb_processingMessages = [], mb_kv = NewKV, mb_key = ''k''\<rparr>"
    by (simp add: NewMessageBuffer_def mb_save_def mem_KV_simps Let_def)
  moreover from this obtain f mb w where "mb_Add mem_KV (meteredCmixMessageHandler id mem_KV) w0 mb0 mcm_example = Inr (f, mb, w)"
    "mb_messages mb = [mcm_HashMessage id mcm_example]" "mb_processingMessages mb = []"
    by (simp add: mb_Add_def Let_def mcm_SaveMessage_def mb_save_def mem_KV_simps)
  ultimately show ?thesis using that by (meson mb_reachable.start mb_reachable.add)
qed

theorem message_buffer_no_loss_witness:
  "\<exists>mb w mb'. mb_reachable mem_KV (meteredCmixMessageHandler id mem_KV) mb w \<and>
     LoadMessageBuffer mem_KV w (mb_kv mb) (mb_key mb) = (None, mb') \<and>
     set (mb_messages mb') = {mcm_HashMessage id mcm_example}"
proof -
  obtain mb w where r: "mb_reachable mem_KV (meteredCmixMessageHandler id mem_KV) mb w"
    "mb_messages mb = [mcm_HashMessage id mcm_example]" "mb_processingMessages mb = []"
    by (rule metered_example_reachable)
  then have "mb_all mb = {mcm_HashMessage id mcm_example}" by (simp add: mb_all_def)
  with r message_buffer_no_loss [OF metered.message_handler_axioms metered_deletes r(1)]
  show ?thesis by metis
qed

text \<open>C31: While messages wait, \<open>Next\<close> returns one of them, whatever order the map is visited in: the
  message's hash leaves the waiting map and enters the processing map, and nothing else moves.\<close>

theorem Next_hands_out_waiting_message:
  assumes "message_handler K H" "message_deletes_succeed H" "mb_reachable K H mb w" "mb_messages mb \<noteq> []"
  shows "\<exists>m mb'. mb_Next H rnd w mb = (Some m, mb') \<and> HashMessage H m \<in> set (mb_messages mb) \<and>
    set (mb_messages mb') = set (mb_messages mb) - {HashMessage H m} \<and>
    set (mb_processingMessages mb') = insert (HashMessage H m) (set (mb_processingMessages mb))"
proof -
  let ?h = "mb_next rnd (mb_messages mb)"
  have "mb_loadable H w mb" using message_handler.reachable_ok [OF assms(1-3)] by blast
  moreover have h: "?h \<in> set (mb_messages mb)" using assms(4) by (rule mb_next_in)
  ultimately obtain m where "LoadMessage H (mb_kv mb) w (MakeStoredMessageKey (mb_key mb) ?h) = Inr m"
    "HashMessage H m = ?h" by (auto simp: mb_loadable_def mb_all_def)
  with h assms(4) show ?thesis
    by (simp add: mb_Next_def mb_next_loop.simps [of H rnd w mb] Let_def)
qed

theorem Next_hands_out_waiting_message_witness:
  "\<exists>mb w m mb'. mb_Next (meteredCmixMessageHandler id mem_KV) (\<lambda>_. 7) w mb = (Some m, mb') \<and>
     mb_messages mb' = [] \<and> mcm_HashMessage id m = mcm_HashMessage id mcm_example"
proof -
  obtain mb w where r: "mb_reachable mem_KV (meteredCmixMessageHandler id mem_KV) mb w"
    "mb_messages mb = [mcm_HashMessage id mcm_example]" "mb_processingMessages mb = []"
    by (rule metered_example_reachable)
  then have "mb_messages mb \<noteq> []" by simp
  from Next_hands_out_waiting_message [OF metered.message_handler_axioms metered_deletes r(1) this, of "\<lambda>_. 7"]
  obtain m mb' where "mb_Next (meteredCmixMessageHandler id mem_KV) (\<lambda>_. 7) w mb = (Some m, mb')"
    "mcm_HashMessage id m \<in> set (mb_messages mb)"
    "set (mb_messages mb') = set (mb_messages mb) - {mcm_HashMessage id m}" by auto
  with r(2) show ?thesis by auto
qed

text \<open>\<open>AddProcessing\<close> of a message that is already in the buffer returns the empty struct the map
  holds instead of the message, so the metered buffer's type assertion panics, although \<open>Add\<close> on
  the same buffer returns the stored message.\<close>

theorem AddProcessing_duplicate_panics:
  assumes "mcm_HashMessage b msg \<in> mb_all mb"
  shows "mcmb_AddProcessing b K w mb msg = Inl TypeAssertionPanic"
  using assms
  by (auto simp: mcmb_AddProcessing_def mb_AddProcessing_def Let_def mb_all_def assert_message_def)

theorem AddProcessing_duplicate_panics_witness:
  "\<exists>mb w. mb_reachable mem_KV (meteredCmixMessageHandler id mem_KV) mb w \<and>
     mcmb_AddProcessing id mem_KV w mb mcm_example = Inl TypeAssertionPanic"
proof -
  obtain mb w where r: "mb_reachable mem_KV (meteredCmixMessageHandler id mem_KV) mb w"
    "mb_messages mb = [mcm_HashMessage id mcm_example]" by (rule metered_example_reachable)
  then have "mcm_HashMessage id mcm_example \<in> mb_all mb" by (simp add: mb_all_def)
  from AddProcessing_duplicate_panics [OF this, of mem_KV w] r(1) show ?thesis by blast
qed

text \<open>Failing a message forgets how often it was tried. \<open>buildMsg\<close> makes every message with count
  zero and \<open>Failed\<close> stores what it is given, so the next \<open>Add\<close> of that message reports the count
  of the failed copy, whatever count \<open>Next\<close> had stored: the limit on the number of checks is not
  reached through a cycle of \<open>Next\<close> and \<open>Failed\<close>.\<close>

theorem Failed_resets_count:
  assumes "ekv_store E" "mcmb_Failed b (versioned_ops E) w mb msg = Inr (mb', w')" "mb_wf mb"
  shows "mcmb_Add b (versioned_ops E) w' mb' msg = Inr ((mcm_Count msg, mcm_Timestamp msg), mb', w')"
proof -
  let ?K = "versioned_ops E" and ?h = "mcm_HashMessage b msg"
  let ?H = "meteredCmixMessageHandler b ?K"
  have h: "message_handler ?K ?H"
    by (rule versioned_kv.metered_handler [OF ekv_store.versioned [OF assms(1)]])
  from assms(2) obtain w1 where 1: "SaveMessage ?H (mb_kv mb) w msg (MakeStoredMessageKey (mb_key mb) ?h) = (None, w1)"
    "mb_save ?K w1 mb' = (None, w')"
    "mb' = mb\<lparr>mb_processingMessages := removeAll ?h (mb_processingMessages mb),
              mb_messages := List.insert ?h (mb_messages mb)\<rparr>"
    by (auto simp: mcmb_Failed_def mb_Failed_def Let_def split: option.splits prod.splits)
  have "mb_wf mb'"
    using assms(3) message_handler.hash_length [OF h, of msg]
    by (auto simp: 1(3) mb_wf_def mb_all_def distinct_removeAll)
  from message_handler.save_stored(2) [OF h 1(2) this, of ?h] message_handler.load_save [OF h 1(1)]
  show ?thesis
    by (simp add: mcmb_Add_def mb_Add_def Let_def 1(3) assert_message_def)
qed

theorem Failed_resets_count_witness:
  "\<exists>mb w r mb1 w1 mb2 w2. mcmb_Next id mem_KV (\<lambda>_. 0) w mb = Inr (Some r, mb1, w1) \<and> mcm_Count r = 1 \<and>
     mcmb_Failed id mem_KV w1 mb1 mcm_example = Inr (mb2, w2) \<and>
     mcmb_Add id mem_KV w2 mb2 mcm_example = Inr ((0, 5), mb2, w2)"
proof -
  let ?mb = "\<lparr>mb_messages = [mcm_HashMessage id mcm_example], mb_processingMessages = [], mb_kv = NewKV, mb_key = ''k''\<rparr>"
  let ?k = "makeKey NewKV (MakeStoredMessageKey ''k'' (mcm_HashMessage id mcm_example)) CurrentMessageBufferVersion"
  let ?w = "Map.empty(?k \<mapsto> \<lparr>obj_Version = 0, obj_Timestamp = 0, obj_Data = mcm_json mcm_example\<rparr>)"
  obtain r mb1 w1 where n: "mcmb_Next id mem_KV (\<lambda>_. 0) ?w ?mb = Inr (Some r, mb1, w1)" "mcm_Count r = 1"
    "mb1 = ?mb\<lparr>mb_messages := [], mb_processingMessages := mb_messages ?mb\<rparr>"
    by (simp add: mcmb_Next_def mb_Next_def mb_next_loop.simps mb_next_def Let_def mcm_LoadMessage_def
        mcm_SaveMessage_def mem_KV_simps) (simp add: mcm_example_def)
  moreover obtain mb2 w2 where f: "mcmb_Failed id mem_KV w1 mb1 mcm_example = Inr (mb2, w2)"
    by (simp add: mcmb_Failed_def mb_Failed_def Let_def mcm_SaveMessage_def mb_save_def mem_KV_simps)
  moreover have "mb_wf mb1" by (simp add: n(3) mb_wf_def mb_all_def mcm_HashMessage_def)
  ultimately show ?thesis
    using Failed_resets_count [OF mem.ekv_store_axioms f] by (force simp: mcm_example_def)
qed

end
