(* ===== verification/Conversation.thy ===== *)
theory Conversation
  imports Versioned_KV
begin

text \<open>
  The conversations of \<open>e2e/parse/conversation/partner.go\<close> and \<open>store.go\<close>. A sender numbers its
  messages with a 64-bit counter and transmits the low 32 bits; the receiver recovers the full
  number from the last one it has seen. The partner's \<open>id.ID\<close> is its bytes and \<open>idString\<close> the text
  form that the package \<open>primitives/id\<close> gives it.
  The abstract specification is the full number of the newest message received, \<open>full_last\<close>.
\<close>

section \<open>State\<close>

definition maxTruncatedID :: u32 where "maxTruncatedID = 4294967295"
definition bottomRegion :: u32 where "bottomRegion = maxTruncatedID div 4"
definition topRegion :: u32 where "topRegion = bottomRegion * 3"
definition currentConversationVersion :: u64 where "currentConversationVersion = 0"

record 'h Conversation =
  c_lastReceivedID :: u32
  c_numReceivedRevolutions :: u32
  c_nextSentID :: u64
  c_partner :: bytes
  c_kv :: 'h

datatype conv_error = ConvKv kv_error | ConvUnmarshal

definition makeConversationKey :: "(bytes \<Rightarrow> string) \<Rightarrow> bytes \<Rightarrow> string" where
  "makeConversationKey idString partner = MakePartnerPrefix idString partner"

section \<open>Storage\<close>

definition c_marshal :: "'h Conversation \<Rightarrow> stored" where
  "c_marshal c =
     Json (JObj [(''LastReceivedID'', word_json (c_lastReceivedID c)),
                 (''NumReceivedRevolutions'', word_json (c_numReceivedRevolutions c)),
                 (''NextSendID'', word_json (c_nextSentID c))])"

definition c_unmarshal :: "stored \<Rightarrow> 'h Conversation \<Rightarrow> 'h Conversation option" where
  "c_unmarshal data c =
     (case data of
        Raw _ \<Rightarrow> None
      | Json j \<Rightarrow>
          (case (json_word (json_field j ''LastReceivedID''),
                 json_word (json_field j ''NumReceivedRevolutions''),
                 json_word (json_field j ''NextSendID'')) of
             (Some l, Some r, Some n) \<Rightarrow>
               Some (c\<lparr>c_lastReceivedID := l, c_numReceivedRevolutions := r, c_nextSentID := n\<rparr>)
           | _ \<Rightarrow> None))"

definition c_save ::
  "('h, 'w) KV_ops \<Rightarrow> (bytes \<Rightarrow> string) \<Rightarrow> 'w \<Rightarrow> 'h Conversation \<Rightarrow> kv_error option \<times> 'w" where
  "c_save K idString w c =
     KV_Set K (c_kv c) w (makeConversationKey idString (c_partner c))
       \<lparr>obj_Version = currentConversationVersion, obj_Timestamp = KV_Now K w, obj_Data = c_marshal c\<rparr>"

definition c_delete ::
  "('h, 'w) KV_ops \<Rightarrow> (bytes \<Rightarrow> string) \<Rightarrow> 'w \<Rightarrow> 'h Conversation \<Rightarrow> kv_error option \<times> 'w" where
  "c_delete K idString w c =
     KV_Delete K (c_kv c) w (makeConversationKey idString (c_partner c)) currentConversationVersion"

definition loadConversation ::
  "('h, 'w) KV_ops \<Rightarrow> (bytes \<Rightarrow> string) \<Rightarrow> 'w \<Rightarrow> 'h \<Rightarrow> bytes \<Rightarrow> conv_error + 'h Conversation" where
  "loadConversation K idString w h partner =
     (case KV_Get K h w (makeConversationKey idString partner) currentConversationVersion of
        Inl err \<Rightarrow> Inl (ConvKv err)
      | Inr obj \<Rightarrow>
          (case c_unmarshal (obj_Data obj)
                  \<lparr>c_lastReceivedID = 0, c_numReceivedRevolutions = 0, c_nextSentID = 0,
                   c_partner = partner, c_kv = h\<rparr> of
             None \<Rightarrow> Inl ConvUnmarshal
           | Some c \<Rightarrow> Inr c))"

text \<open>\<open>kv.Exists\<close> is false only for the error of a missing key.\<close>

fun conv_exists :: "conv_error \<Rightarrow> bool" where
  "conv_exists (ConvKv err) = Exists err"
| "conv_exists ConvUnmarshal = True"

definition LoadOrMakeConversation ::
  "('h, 'w) KV_ops \<Rightarrow> (bytes \<Rightarrow> string) \<Rightarrow> 'w \<Rightarrow> 'h \<Rightarrow> bytes \<Rightarrow> fault + ('h Conversation \<times> 'w)" where
  "LoadOrMakeConversation K idString w h partner =
     (case loadConversation K idString w h partner of
        Inr c \<Rightarrow> Inr (c, w)
      | Inl err \<Rightarrow>
          (if conv_exists err then Inl FatalPanic
           else
             let c = \<lparr>c_lastReceivedID = 0, c_numReceivedRevolutions = 0, c_nextSentID = 0,
                      c_partner = partner, c_kv = h\<rparr>
             in case c_save K idString w c of
                  (Some err', w') \<Rightarrow> Inl FatalPanic
                | (None, w') \<Rightarrow> Inr (c, w')))"

section \<open>Message numbers\<close>

definition cmp :: "u32 \<Rightarrow> u32 \<Rightarrow> int" where
  "cmp a b =
     (if a > topRegion \<and> b < bottomRegion then 1
      else if a < bottomRegion \<and> b > topRegion then -1
      else 0)"

definition c_must_save ::
  "('h, 'w) KV_ops \<Rightarrow> (bytes \<Rightarrow> string) \<Rightarrow> 'w \<Rightarrow> 'h Conversation \<Rightarrow> fault + 'w" where
  "c_must_save K idString w c =
     (case c_save K idString w c of (Some err, w') \<Rightarrow> Inl FatalPanic | (None, w') \<Rightarrow> Inr w')"

definition full_id :: "u32 \<Rightarrow> u32 \<Rightarrow> u64" where
  "full_id high mid = push_bit 32 (ucast high) OR ucast mid"

definition ProcessReceivedMessageID ::
  "('h, 'w) KV_ops \<Rightarrow> (bytes \<Rightarrow> string) \<Rightarrow> 'w \<Rightarrow> 'h Conversation \<Rightarrow> u32 \<Rightarrow>
   fault + (u64 \<times> 'h Conversation \<times> 'w)" where
  "ProcessReceivedMessageID K idString w c mid =
     (let s = cmp (c_lastReceivedID c) mid
      in if s = 1 then
           (let c' = c\<lparr>c_numReceivedRevolutions := c_numReceivedRevolutions c + 1,
                       c_lastReceivedID := mid\<rparr>
            in res_bind (c_must_save K idString w c') (\<lambda>w'.
                 Inr (full_id (c_numReceivedRevolutions c') mid, c', w')))
         else if s = 0 then
           (if mid > c_lastReceivedID c then
              (let c' = c\<lparr>c_lastReceivedID := mid\<rparr>
               in res_bind (c_must_save K idString w c') (\<lambda>w'.
                    Inr (full_id (c_numReceivedRevolutions c') mid, c', w')))
            else Inr (full_id (c_numReceivedRevolutions c) mid, c, w))
         else Inr (full_id (c_numReceivedRevolutions c - 1) mid, c, w))"

definition GetNextSendID ::
  "('h, 'w) KV_ops \<Rightarrow> (bytes \<Rightarrow> string) \<Rightarrow> 'w \<Rightarrow> 'h Conversation \<Rightarrow>
   fault + ((u64 \<times> u32) \<times> 'h Conversation \<times> 'w)" where
  "GetNextSendID K idString w c =
     (let old = c_nextSentID c; c' = c\<lparr>c_nextSentID := c_nextSentID c + 1\<rparr>
      in res_bind (c_must_save K idString w c') (\<lambda>w'.
           Inr ((old, ucast (old AND 0x00000000FFFFFFFF)), c', w')))"

section \<open>The store of conversations\<close>

record 'h ConvStore =
  cs_loadedConversations :: "bytes \<rightharpoonup> 'h Conversation"
  cs_kv :: 'h

definition conversationKeyPrefix :: string where
  "conversationKeyPrefix = ''conversation''"

definition cs_NewStore :: "('h, 'w) KV_ops \<Rightarrow> 'h \<Rightarrow> fault + 'h ConvStore" where
  "cs_NewStore K h =
     (case KV_Prefix K h conversationKeyPrefix of
        Inl err \<Rightarrow> Inl FatalPanic
      | Inr h' \<Rightarrow> Inr \<lparr>cs_loadedConversations = Map.empty, cs_kv = h'\<rparr>)"

text \<open>\<open>Get\<close> returns a pointer to the conversation in the map; changes made through it are written back
  with \<open>cs_put\<close>.\<close>

definition cs_Get ::
  "('h, 'w) KV_ops \<Rightarrow> (bytes \<Rightarrow> string) \<Rightarrow> 'w \<Rightarrow> 'h ConvStore \<Rightarrow> bytes \<Rightarrow>
   fault + ('h Conversation \<times> 'h ConvStore \<times> 'w)" where
  "cs_Get K idString w s partner =
     (case cs_loadedConversations s partner of
        Some c \<Rightarrow> Inr (c, s, w)
      | None \<Rightarrow>
          res_bind (LoadOrMakeConversation K idString w (cs_kv s) partner) (\<lambda>(c, w').
          Inr (c, s\<lparr>cs_loadedConversations := (cs_loadedConversations s)(partner \<mapsto> c)\<rparr>, w')))"

definition cs_put :: "'h ConvStore \<Rightarrow> 'h Conversation \<Rightarrow> 'h ConvStore" where
  "cs_put s c = s\<lparr>cs_loadedConversations := (cs_loadedConversations s)(c_partner c \<mapsto> c)\<rparr>"

definition cs_Delete ::
  "('h, 'w) KV_ops \<Rightarrow> (bytes \<Rightarrow> string) \<Rightarrow> 'w \<Rightarrow> 'h ConvStore \<Rightarrow> bytes \<Rightarrow> fault + ('h ConvStore \<times> 'w)" where
  "cs_Delete K idString w s partner =
     (case cs_loadedConversations s partner of
        None \<Rightarrow> Inr (s, w)
      | Some c \<Rightarrow>
          (case c_delete K idString w c of
             (Some err, w') \<Rightarrow> Inl FatalPanic
           | (None, w') \<Rightarrow>
               Inr (s\<lparr>cs_loadedConversations := (cs_loadedConversations s)(partner := None)\<rparr>, w')))"

section \<open>Specification\<close>

definition full_last :: "'h Conversation \<Rightarrow> nat" where
  "full_last c = unat (c_numReceivedRevolutions c) * 2 ^ 32 + unat (c_lastReceivedID c)"

definition window :: nat where "window = 2 ^ 30 - 1"

text \<open>Two message numbers are close when they differ by at most a window.\<close>

definition close_to :: "nat \<Rightarrow> nat \<Rightarrow> bool" where
  "close_to a b = (a \<le> b + window \<and> b \<le> a + window)"

text \<open>Receiving a list of truncated numbers, and sending \<open>n\<close> messages.\<close>

fun receive_all ::
  "('h, 'w) KV_ops \<Rightarrow> (bytes \<Rightarrow> string) \<Rightarrow> 'w \<Rightarrow> 'h Conversation \<Rightarrow> u32 list \<Rightarrow>
   fault + (u64 list \<times> 'h Conversation \<times> 'w)" where
  "receive_all K idString w c [] = Inr ([], c, w)"
| "receive_all K idString w c (mid # mids) =
     res_bind (ProcessReceivedMessageID K idString w c mid) (\<lambda>(f, c', w').
     res_bind (receive_all K idString w' c' mids) (\<lambda>(fs, c'', w''). Inr (f # fs, c'', w'')))"

fun send_all ::
  "('h, 'w) KV_ops \<Rightarrow> (bytes \<Rightarrow> string) \<Rightarrow> nat \<Rightarrow> 'w \<Rightarrow> 'h Conversation \<Rightarrow>
   fault + ((u64 \<times> u32) list \<times> 'h Conversation \<times> 'w)" where
  "send_all K idString 0 w c = Inr ([], c, w)"
| "send_all K idString (Suc n) w c =
     res_bind (GetNextSendID K idString w c) (\<lambda>(i, c', w').
     res_bind (send_all K idString n w' c') (\<lambda>(is, c'', w''). Inr (i # is, c'', w'')))"

text \<open>A delivery order in which each number is close to the greatest one delivered before it.\<close>

fun deliverable :: "nat \<Rightarrow> nat list \<Rightarrow> bool" where
  "deliverable newest [] = True"
| "deliverable newest (f # fs) = (close_to f newest \<and> deliverable (max newest f) fs)"

section \<open>Lemmas\<close>

lemma unat_full_id: "unat (full_id h m) = unat h * 2 ^ 32 + unat m"
proof -
  have hm: "unat h < 2 ^ 32" "unat m < 2 ^ 32"
    using unsigned_less [of h, where ?'a = nat] unsigned_less [of m, where ?'a = nat] by simp_all
  have "push_bit 32 (ucast h :: u64) + ucast m = push_bit 32 (ucast h) OR ucast m"
    by (rule disjunctive_add) (auto simp: bit_push_bit_iff bit_ucast_iff dest: bit_imp_le_length)
  then have "full_id h m = push_bit 32 (ucast h) + ucast m" by (simp add: full_id_def)
  also have "push_bit 32 (ucast h :: u64) = word_of_nat (unat h * 2 ^ 32)"
    by (simp add: push_bit_eq_mult)
  also have "(ucast m :: u64) = word_of_nat (unat m)" by simp
  finally have e: "full_id h m = word_of_nat (unat h * 2 ^ 32 + unat m)" by simp
  show ?thesis unfolding e unat_of_nat using hm by simp
qed

lemma truncated_id: "(ucast (n AND 0x00000000FFFFFFFF) :: u32) = word_of_nat (unat (n :: u64))"
proof -
  have "(0x00000000FFFFFFFF :: u64) = mask 32" by (simp add: mask_eq_exp_minus_1)
  moreover have "(ucast (n AND mask 32) :: u32) = ucast n"
    by (rule bit_word_eqI) (simp add: bit_ucast_iff bit_and_iff bit_mask_iff)
  ultimately show ?thesis by simp
qed

lemma regions [simp]: "unat bottomRegion = 1073741823" "unat topRegion = 3221225469"
  by (simp_all add: bottomRegion_def topRegion_def maxTruncatedID_def)

lemma cmp_cases:
  "cmp a b = (if unat a > 3221225469 \<and> unat b < 1073741823 then 1
    else if unat a < 1073741823 \<and> unat b > 3221225469 then -1 else 0)"
  by (simp add: cmp_def word_less_nat_alt)

text \<open>The arithmetic of the reconstruction: \<open>r\<close>, \<open>l\<close> are the receiver's revolutions and last number, \<open>F\<close>
  the full number, close to the receiver's.\<close>

lemma reconstruct:
  assumes "close_to F (r * 2 ^ 32 + l)" "l < 2 ^ 32" "m = F mod 2 ^ 32"
  shows "l > 3221225469 \<and> m < 1073741823 \<Longrightarrow> F = (r + 1) * 2 ^ 32 + m"
    "l < 1073741823 \<and> m > 3221225469 \<Longrightarrow> 1 \<le> r \<and> F = (r - 1) * 2 ^ 32 + m"
    "\<not> (l > 3221225469 \<and> m < 1073741823) \<Longrightarrow> \<not> (l < 1073741823 \<and> m > 3221225469) \<Longrightarrow> F = r * 2 ^ 32 + m"
proof -
  define q where "q = F div 4294967296"
  have F: "F = q * 4294967296 + m" "m < 4294967296" using assms(3) by (simp_all add: q_def)
  have w: "q * 4294967296 + m \<le> r * 4294967296 + l + 1073741823"
      "r * 4294967296 + l \<le> q * 4294967296 + m + 1073741823"
    using assms(1) F(1) by (simp_all add: close_to_def window_def)
  have l: "l < 4294967296" using assms(2) by simp
  consider "q \<le> r" "r \<le> q" | "q = r + 1" | "r = q + 1" using w F(2) l by linarith
  note cs = this
  show "l > 3221225469 \<and> m < 1073741823 \<Longrightarrow> F = (r + 1) * 2 ^ 32 + m"
    using cs by cases (use w F l in auto)
  show "l < 1073741823 \<and> m > 3221225469 \<Longrightarrow> 1 \<le> r \<and> F = (r - 1) * 2 ^ 32 + m"
    using cs by cases (use w F l in auto)
  show "\<not> (l > 3221225469 \<and> m < 1073741823) \<Longrightarrow> \<not> (l < 1073741823 \<and> m > 3221225469) \<Longrightarrow> F = r * 2 ^ 32 + m"
    using cs by cases (use w F l in auto)
qed

lemma process_close:
  assumes "close_to F (full_last c)" "F < 2 ^ 64"
    and "ProcessReceivedMessageID K idString w c (word_of_nat F) = Inr (f, c', w')"
  shows "unat f = F \<and> full_last c' = max (full_last c) F"
proof -
  let ?r = "unat (c_numReceivedRevolutions c)" and ?l = "unat (c_lastReceivedID c)"
  define m where "m = F mod 2 ^ 32"
  define mid where "mid = (word_of_nat F :: u32)"
  have um: "unat mid = m" by (simp add: mid_def m_def unat_of_nat)
  have bnd: "?l < 2 ^ 32" "m < 2 ^ 32" "?r < 2 ^ 32"
    using unsigned_less [of "c_lastReceivedID c", where ?'a = nat]
      unsigned_less [of "c_numReceivedRevolutions c", where ?'a = nat] by (simp_all add: m_def)
  have cl: "close_to F (?r * 2 ^ 32 + ?l)" using assms(1) by (simp add: full_last_def)
  note rc = reconstruct [OF cl bnd(1) m_def]
  note pr = assms(3) [folded mid_def, unfolded ProcessReceivedMessageID_def Let_def cmp_cases um]
  consider (up) "?l > 3221225469 \<and> m < 1073741823" | (down) "\<not> (?l > 3221225469 \<and> m < 1073741823)" "?l < 1073741823 \<and> m > 3221225469"
    | (same) "\<not> (?l > 3221225469 \<and> m < 1073741823)" "\<not> (?l < 1073741823 \<and> m > 3221225469)" by blast
  then show ?thesis
  proof cases
    case up
    from rc(1) [OF up] assms(2) have "?r + 1 < 2 ^ 32" by simp
    then have r1: "unat (c_numReceivedRevolutions c + 1) = ?r + 1" by (simp add: unat_word_ariths)
    from pr up have "f = full_id (c_numReceivedRevolutions c + 1) mid"
      "full_last c' = (?r + 1) * 2 ^ 32 + m"
      by (auto simp: res_bind_Inr_iff full_last_def um r1)
    with rc(1) [OF up] bnd show ?thesis by (simp add: unat_full_id r1 um full_last_def)
  next
    case down
    from rc(2) [OF down(2)] have r: "1 \<le> ?r" "F = (?r - 1) * 2 ^ 32 + m" by simp_all
    then have r1: "unat (c_numReceivedRevolutions c - 1) = ?r - 1"
      by (metis less_one not_le unat_0 unat_minus_one)
    from pr down have "f = full_id (c_numReceivedRevolutions c - 1) mid" "c' = c" by auto
    moreover have "F \<le> full_last c" using r bnd(2) by (simp add: full_last_def)
    ultimately show ?thesis using r by (simp add: unat_full_id r1 um)
  next
    case same
    from pr same have "f = full_id (c_numReceivedRevolutions c) mid"
      "full_last c' = ?r * 2 ^ 32 + max ?l m"
      by (auto simp: res_bind_Inr_iff full_last_def um word_less_nat_alt max_def split: if_splits)
    with rc(3) [OF same] show ?thesis by (simp add: unat_full_id um full_last_def max_def)
  qed
qed

lemma receive_all_close:
  "deliverable (full_last c) fs \<Longrightarrow> (\<forall>F \<in> set fs. F < 2 ^ 64) \<Longrightarrow>
   receive_all K idString w c (map word_of_nat fs) = Inr (gs, c', w') \<Longrightarrow> map unat gs = fs"
proof (induction fs arbitrary: w c gs)
  case (Cons F fs)
  from Cons.prems(3) obtain g c1 w1 gs1 where 1:
    "ProcessReceivedMessageID K idString w c (word_of_nat F) = Inr (g, c1, w1)"
    "receive_all K idString w1 c1 (map word_of_nat fs) = Inr (gs1, c', w')" "gs = g # gs1"
    by (auto simp: res_bind_Inr_iff)
  from process_close [OF _ _ 1(1)] Cons.prems(1,2) have "unat g = F" "full_last c1 = max (full_last c) F" by simp_all
  with Cons.IH [OF _ _ 1(2)] Cons.prems(1,2) 1(3) show ?case by simp
qed simp

lemma send_all_numbers:
  "unat (c_nextSentID c) + n < 2 ^ 64 \<Longrightarrow> send_all K idString n w c = Inr (is, c', w') \<Longrightarrow>
   map (\<lambda>(full, tr). (unat full, tr)) is =
     map (\<lambda>F. (F, word_of_nat F)) [unat (c_nextSentID c)..<unat (c_nextSentID c) + n]"
proof (induction n arbitrary: w c "is")
  case (Suc n)
  from Suc.prems(2) obtain i c1 w1 is1 where 1: "GetNextSendID K idString w c = Inr (i, c1, w1)"
    "send_all K idString n w1 c1 = Inr (is1, c', w')" "is = i # is1"
    by (auto simp: res_bind_Inr_iff)
  from 1(1) have 2: "i = (c_nextSentID c, ucast (c_nextSentID c AND 0x00000000FFFFFFFF))"
    "c_nextSentID c1 = c_nextSentID c + 1"
    by (auto simp: GetNextSendID_def Let_def res_bind_Inr_iff)
  have "unat (c_nextSentID c + 1) = unat (c_nextSentID c) + 1"
    using Suc.prems(1) by (simp add: unat_word_ariths)
  moreover have "(ucast (c_nextSentID c AND 0x00000000FFFFFFFF) :: u32) = word_of_nat (unat (c_nextSentID c))"
    by (rule truncated_id)
  ultimately show ?case
    using Suc.IH [OF _ 1(2)] Suc.prems(1) 2 1(3) by (simp add: upt_rec [of "unat (c_nextSentID c)"])
qed simp


lemma c_unmarshal_marshal:
  "c_unmarshal (c_marshal c) c0 =
   Some (c0\<lparr>c_lastReceivedID := c_lastReceivedID c, c_numReceivedRevolutions := c_numReceivedRevolutions c,
            c_nextSentID := c_nextSentID c\<rparr>)"
  by (simp add: c_unmarshal_def c_marshal_def)

context versioned_kv
begin

lemma conversation_load_after_save:
  assumes "c_save K idString w c = (None, w')"
  shows "LoadOrMakeConversation K idString w' (c_kv c) (c_partner c) = Inr (c, w')"
  using get_set [OF assms [unfolded c_save_def]]
  by (simp add: LoadOrMakeConversation_def loadConversation_def c_unmarshal_marshal)

end

section \<open>Properties\<close>

text \<open>C26: A truncated number is expanded correctly. If the full number \<open>F\<close> of a received message is
  within \<open>2\<^sup>3\<^sup>0 - 1\<close> of the newest one received, in either direction and across any number of wraps
  of the low 32 bits, \<open>ProcessReceivedMessageID\<close> returns \<open>F\<close>, and the newest number becomes the
  maximum of the two.\<close>

theorem ProcessReceivedMessageID_correct:
  assumes "close_to F (full_last c)" "F < 2 ^ 64"
    and "ProcessReceivedMessageID K idString w c (word_of_nat F) = Inr (f, c', w')"
  shows "unat f = F \<and> full_last c' = max (full_last c) F"
  by (rule process_close [OF assms])

definition conv_example :: "kv Conversation" where
  "conv_example = \<lparr>c_lastReceivedID = 4294967290, c_numReceivedRevolutions = 6, c_nextSentID = 4294967295,
                   c_partner = [1], c_kv = NewKV\<rparr>"

theorem ProcessReceivedMessageID_correct_witness:
  "\<exists>c' w'. ProcessReceivedMessageID mem_KV (\<lambda>_. ''a'') Map.empty conv_example (word_of_nat (7 * 2 ^ 32 + 5)) =
     Inr (word_of_nat (7 * 2 ^ 32 + 5), c', w') \<and> full_last c' = 7 * 2 ^ 32 + 5"
proof -
  have "close_to (7 * 2 ^ 32 + 5) (full_last conv_example)"
    by (simp add: close_to_def full_last_def conv_example_def window_def)
  moreover obtain f c' w' where r: "ProcessReceivedMessageID mem_KV (\<lambda>_. ''a'') Map.empty conv_example
      (word_of_nat (7 * 2 ^ 32 + 5)) = Inr (f, c', w')"
    by (simp add: ProcessReceivedMessageID_def Let_def c_must_save_def c_save_def mem_KV_simps cmp_def
        conv_example_def topRegion_def bottomRegion_def maxTruncatedID_def)
  ultimately have "unat f = 7 * 2 ^ 32 + 5" "full_last c' = max (full_last conv_example) (7 * 2 ^ 32 + 5)"
    using ProcessReceivedMessageID_correct [OF _ _ r] by simp_all
  moreover from this(1) have "f = word_of_nat (7 * 2 ^ 32 + 5)" by (simp add: word_unat_eq_iff)
  ultimately show ?thesis using r by (auto simp: full_last_def conv_example_def)
qed

text \<open>Sender and receiver agree. The numbers that a sender's \<open>GetNextSendID\<close> hands out are
  consecutive full numbers with their low 32 bits; when the low halves reach a receiver in any order
  in which each is within the window of the newest before it, the receiver recovers exactly the
  sender's full numbers, in the order of delivery.\<close>

theorem conversation_numbers_agree:
  assumes "send_all K idS n w c = Inr (is, c1, w1)" "unat (c_nextSentID c) + n < 2 ^ 64"
    and "set order \<subseteq> {..<n}" "deliverable (full_last d) (map (\<lambda>i. unat (c_nextSentID c) + i) order)"
    and "receive_all K' idS' w' d (map (\<lambda>i. snd (is ! i)) order) = Inr (fs, d', w1')"
  shows "fs = map (\<lambda>i. fst (is ! i)) order"
proof -
  let ?s = "unat (c_nextSentID c)"
  note num = send_all_numbers [OF assms(2,1)]
  have len: "length is = n" using arg_cong [OF num, of length] by simp
  have nth: "unat (fst (is ! i)) = ?s + i \<and> snd (is ! i) = word_of_nat (?s + i)" if "i < n" for i
  proof -
    have "(\<lambda>(full, tr). (unat full, tr)) (is ! i) = (\<lambda>F. (F, word_of_nat F)) ([?s..<?s + n] ! i)"
      using arg_cong [OF num, of "\<lambda>l. l ! i"] that by (simp only: nth_map len length_upt diff_add_inverse)
    with that show ?thesis by (simp add: case_prod_beta prod_eq_iff)
  qed
  have fs: "map (\<lambda>i. snd (is ! i)) order = map word_of_nat (map (\<lambda>i. ?s + i) order)"
    using nth assms(3) unfolding map_map comp_def by (intro map_cong refl) blast
  have "map unat fs = map (\<lambda>i. ?s + i) order"
    using assms(2,3) by (intro receive_all_close [OF assms(4) _ assms(5) [unfolded fs]]) auto
  also have "\<dots> = map unat (map (\<lambda>i. fst (is ! i)) order)"
    using nth assms(3) unfolding map_map comp_def by (intro map_cong refl) fastforce
  finally show ?thesis by (rule map_injective) (simp add: inj_def word_unat_eq_iff)
qed

theorem conversation_numbers_agree_witness:
  "\<exists>c1 w1 d' w1'. send_all mem_KV (\<lambda>_. ''a'') (Suc (Suc 0)) Map.empty conv_example =
       Inr ([(4294967295, 4294967295), (4294967296, 0)], c1, w1) \<and>
     receive_all mem_KV (\<lambda>_. ''b'') Map.empty (conv_example\<lparr>c_numReceivedRevolutions := 0\<rparr>) [0, 4294967295] =
       Inr ([4294967296, 4294967295], d', w1')"
proof -
  let ?d = "conv_example\<lparr>c_numReceivedRevolutions := 0\<rparr>"
  let ?is = "[(4294967295, 4294967295), (4294967296, 0)] :: (u64 \<times> u32) list"
  obtain c1 w1 where s: "send_all mem_KV (\<lambda>_. ''a'') (Suc (Suc 0)) Map.empty conv_example = Inr (?is, c1, w1)"
    by (simp add: GetNextSendID_def Let_def c_must_save_def c_save_def mem_KV_simps conv_example_def)
  obtain fs d' w1' where r: "receive_all mem_KV (\<lambda>_. ''b'') Map.empty ?d (map (\<lambda>i. snd (?is ! i)) [1, 0]) = Inr (fs, d', w1')"
    by (simp add: ProcessReceivedMessageID_def Let_def c_must_save_def c_save_def mem_KV_simps cmp_def
        conv_example_def topRegion_def bottomRegion_def maxTruncatedID_def)
  have "unat (c_nextSentID conv_example) + Suc (Suc 0) < 2 ^ 64" "set [1, 0] \<subseteq> {..<Suc (Suc 0)}"
    "deliverable (full_last ?d) (map (\<lambda>i. unat (c_nextSentID conv_example) + i) [1, 0])"
    by (simp_all add: conv_example_def full_last_def close_to_def window_def)
  from conversation_numbers_agree [OF s this r] s r show ?thesis by auto
qed

text \<open>A conversation that was saved is what \<open>LoadOrMakeConversation\<close> returns for the same partner,
  without writing anything.\<close>

theorem Conversation_save_load:
  assumes "ekv_store E" "c_save (versioned_ops E) idString w c = (None, w')"
  shows "LoadOrMakeConversation (versioned_ops E) idString w' (c_kv c) (c_partner c) = Inr (c, w')"
  by (rule versioned_kv.conversation_load_after_save [OF ekv_store.versioned [OF assms(1)] assms(2)])

theorem Conversation_save_load_witness:
  "\<exists>w'. c_save mem_KV (\<lambda>_. ''a'') Map.empty conv_example = (None, w') \<and>
     LoadOrMakeConversation mem_KV (\<lambda>_. ''a'') w' NewKV [1] = Inr (conv_example, w')"
proof -
  obtain w' where w': "c_save mem_KV (\<lambda>_. ''a'') Map.empty conv_example = (None, w')"
    by (simp add: c_save_def mem_KV_simps)
  from Conversation_save_load [OF mem.ekv_store_axioms w'] w' show ?thesis by (auto simp: conv_example_def)
qed

end
