(* ===== verification/Ring_Buffer.thy ===== *)
theory Ring_Buffer
  imports Versioned_KV
begin

text \<open>
  The ring buffer of received messages (\<open>e2e/parse/conversation/ring.go\<close>, \<open>message.go\<close>): the last \<open>n\<close>
  messages with their sequential numbers, a lookup table by truncated message ID, and their
  storage. A \<open>*Message\<close> is shared by the buffer and the table and never changed after it is pushed,
  so both hold the message itself. A \<open>time.Time\<close> is its number of nanoseconds.
  The abstract specification is the list of all messages pushed.
\<close>

section \<open>Messages\<close>

definition MessageIdLen :: nat where "MessageIdLen = 32"
definition TruncatedMessageIdLen :: nat where "TruncatedMessageIdLen = 8"

record Message =
  m_id :: u32
  m_MessageId :: bytes
  m_Timestamp :: int

definition NewMessageIdFromBytes :: "bytes \<Rightarrow> bytes" where
  "NewMessageIdFromBytes data = copy_at (replicate MessageIdLen 0) 0 data"

definition newTruncatedMessageID :: "bytes \<Rightarrow> bytes" where
  "newTruncatedMessageID data = copy_at (replicate TruncatedMessageIdLen 0) 0 data"

definition mid_truncate :: "bytes \<Rightarrow> bytes" where
  "mid_truncate mid = newTruncatedMessageID mid"

definition m_marshal :: "Message \<Rightarrow> bytes" where
  "m_marshal m = put_le32 (m_id m) @ m_MessageId m @ put_le64 (word_of_int (m_Timestamp m))"

text \<open>\<open>buff.Next(n)\<close> gives the next \<open>n\<close> bytes, or those that are left; \<open>Uint32\<close> and \<open>Uint64\<close> panic on
  too short a slice.\<close>

definition unmarshalMessage :: "bytes \<Rightarrow> fault + Message" where
  "unmarshalMessage data =
     res_bind (get_le 4 (take 4 data)) (\<lambda>ID.
     let midData = take MessageIdLen (drop 4 data)
     in res_bind (get_le 8 (take 8 (drop (4 + MessageIdLen) data))) (\<lambda>tsNano.
        Inr \<lparr>m_id = ID, m_MessageId = NewMessageIdFromBytes midData, m_Timestamp = sint (tsNano :: u64)\<rparr>))"

section \<open>The buffer\<close>

record 'h Buff =
  rb_buff :: "Message option list"
  rb_lookup :: "bytes \<rightharpoonup> Message"
  rb_oldest :: u32
  rb_newest :: u32
  rb_kv :: 'h

datatype rb_error =
    RbPrefixErr prefix_error
  | RbKvErr kv_error
  | SaveMessageErr kv_error
  | LoadMessageErr kv_error
  | LoadBuffErr kv_error
  | NoMessageFoundErr
  | LookupTooOldErr
  | LookupPastRecentErr

definition ringBuffPrefix :: string where "ringBuffPrefix = ''ringBuffPrefix''"
definition ringBuffKey :: string where "ringBuffKey = ''ringBuffKey''"
definition ringBuffVersion :: u64 where "ringBuffVersion = 0"
definition messageVersion :: u64 where "messageVersion = 0"

definition makeMessageKey :: "bytes \<Rightarrow> string" where
  "makeMessageKey tmID = ''ringBuffMessageKey'' @ base64 tmID"

text \<open>A position in the buffer: the remainder by \<open>uint32(len(b.buff))\<close>.\<close>

definition rb_pos :: "'h Buff \<Rightarrow> u32 \<Rightarrow> fault + nat" where
  "rb_pos b i =
     (let len = word_of_nat (length (rb_buff b)) :: u32
      in if len = 0 then Inl DivideByZero else Inr (unat (i mod len)))"

definition rb_next :: "'h Buff \<Rightarrow> 'h Buff" where
  "rb_next b =
     (let b1 = b\<lparr>rb_newest := rb_newest b + 1\<rparr>
      in if rb_newest b1 \<ge> word_of_nat (length (rb_buff b1))
         then b1\<lparr>rb_oldest := rb_oldest b1 + 1\<rparr> else b1)"

definition rb_handleMessageOverwrite :: "'h Buff \<Rightarrow> fault + 'h Buff" where
  "rb_handleMessageOverwrite b =
     res_bind (rb_pos b (rb_newest b)) (\<lambda>overwriteIndex.
     res_bind (index (rb_buff b) overwriteIndex) (\<lambda>messageToOverwrite.
     case messageToOverwrite of
       None \<Rightarrow> Inr b
     | Some m \<Rightarrow> Inr (b\<lparr>rb_lookup := (rb_lookup b)(mid_truncate (m_MessageId m) := None)\<rparr>)))"

definition rb_push :: "'h Buff \<Rightarrow> Message \<Rightarrow> fault + 'h Buff" where
  "rb_push b val =
     (let b1 = rb_next b; val' = val\<lparr>m_id := rb_newest b1\<rparr>
      in res_bind (rb_handleMessageOverwrite b1) (\<lambda>b2.
         res_bind (rb_pos b2 (rb_newest b2)) (\<lambda>i.
         res_bind (index (rb_buff b2) i) (\<lambda>_.
         Inr (b2\<lparr>rb_buff := (rb_buff b2)[i := Some val'],
                 rb_lookup := (rb_lookup b2)(mid_truncate (m_MessageId val') \<mapsto> val')\<rparr>)))))"

definition rb_Get :: "'h Buff \<Rightarrow> fault + Message option" where
  "rb_Get b = res_bind (rb_pos b (rb_newest b)) (\<lambda>i. index (rb_buff b) i)"

definition GetByMessageID :: "'h Buff \<Rightarrow> bytes \<Rightarrow> rb_error + Message" where
  "GetByMessageID b mid =
     (case rb_lookup b (mid_truncate mid) of
        None \<Rightarrow> Inl NoMessageFoundErr
      | Some msg \<Rightarrow> Inr msg)"

definition GetNextMessage :: "'h Buff \<Rightarrow> bytes \<Rightarrow> fault + (rb_error + Message option)" where
  "GetNextMessage b mid =
     (case rb_lookup b (mid_truncate mid) of
        None \<Rightarrow> Inr (Inl NoMessageFoundErr)
      | Some msg \<Rightarrow>
          let lookupId = m_id msg + 1
          in if lookupId < rb_oldest b then Inr (Inl LookupTooOldErr)
             else if lookupId > rb_newest b then Inr (Inl LookupPastRecentErr)
             else res_bind (rb_pos b lookupId) (\<lambda>i.
                  res_bind (index (rb_buff b) i) (\<lambda>m. Inr (Inr m))))"

section \<open>Storage\<close>

text \<open>The objects under these keys are only ever written here, as raw bytes; a JSON document in their
  place would be misread by the code and is a fault in the model.\<close>

definition rb_present :: "'h Buff \<Rightarrow> Message list" where
  "rb_present b = List.map_filter id (rb_buff b)"

definition rb_marshal :: "'h Buff \<Rightarrow> bytes" where
  "rb_marshal b =
     put_le32 (rb_newest b) @ put_le32 (rb_oldest b) @
     concat (map (\<lambda>m. mid_truncate (m_MessageId m)) (rb_present b))"

function read_tmids :: "bytes \<Rightarrow> bytes list" where
  "read_tmids bs =
     (if length bs < TruncatedMessageIdLen then []
      else newTruncatedMessageID (take TruncatedMessageIdLen bs) # read_tmids (drop TruncatedMessageIdLen bs))"
  by pat_completeness auto
termination by (relation "measure length") (auto simp: TruncatedMessageIdLen_def)

declare read_tmids.simps [simp del]

definition unmarshalBuffer :: "bytes \<Rightarrow> fault + (u32 \<times> u32 \<times> bytes list)" where
  "unmarshalBuffer b =
     res_bind (get_le 4 (take 4 b)) (\<lambda>newest.
     res_bind (get_le 4 (take 4 (drop 4 b))) (\<lambda>oldest.
     Inr (newest, oldest, read_tmids (drop 8 b))))"

definition rb_saveMessage :: "('h, 'w) KV_ops \<Rightarrow> 'w \<Rightarrow> 'h \<Rightarrow> Message \<Rightarrow> kv_error option \<times> 'w" where
  "rb_saveMessage K w h msg =
     KV_Set K h w (makeMessageKey (mid_truncate (m_MessageId msg)))
       \<lparr>obj_Version = messageVersion, obj_Timestamp = KV_Now K w, obj_Data = Raw (m_marshal msg)\<rparr>"

fun rb_saveMessages :: "('h, 'w) KV_ops \<Rightarrow> 'w \<Rightarrow> 'h \<Rightarrow> Message list \<Rightarrow> kv_error option \<times> 'w" where
  "rb_saveMessages K w h [] = (None, w)"
| "rb_saveMessages K w h (msg # msgs) =
     (case rb_saveMessage K w h msg of
        (Some err, w') \<Rightarrow> (Some err, w')
      | (None, w') \<Rightarrow> rb_saveMessages K w' h msgs)"

definition rb_saveBuff :: "('h, 'w) KV_ops \<Rightarrow> 'w \<Rightarrow> 'h Buff \<Rightarrow> kv_error option \<times> 'w" where
  "rb_saveBuff K w b =
     KV_Set K (rb_kv b) w ringBuffKey
       \<lparr>obj_Version = ringBuffVersion, obj_Timestamp = KV_Now K w, obj_Data = Raw (rb_marshal b)\<rparr>"

definition rb_save :: "('h, 'w) KV_ops \<Rightarrow> 'w \<Rightarrow> 'h Buff \<Rightarrow> rb_error option \<times> 'w" where
  "rb_save K w b =
     (case rb_saveMessages K w (rb_kv b) (rb_present b) of
        (Some err, w') \<Rightarrow> (Some (SaveMessageErr err), w')
      | (None, w') \<Rightarrow> (let (err, w'') = rb_saveBuff K w' b in (map_option RbKvErr err, w'')))"

definition NewBuff ::
  "('h, 'w) KV_ops \<Rightarrow> 'w \<Rightarrow> 'h \<Rightarrow> nat \<Rightarrow> rb_error + ('h Buff \<times> rb_error option \<times> 'w)" where
  "NewBuff K w h n =
     (case KV_Prefix K h ringBuffPrefix of
        Inl err \<Rightarrow> Inl (RbPrefixErr err)
      | Inr h' \<Rightarrow>
          let rb = \<lparr>rb_buff = replicate n None, rb_lookup = Map.empty, rb_oldest = 0,
                    rb_newest = 4294967295, rb_kv = h'\<rparr>
          in Inr (rb, rb_save K w rb))"

definition rb_Add ::
  "('h, 'w) KV_ops \<Rightarrow> 'w \<Rightarrow> 'h Buff \<Rightarrow> bytes \<Rightarrow> int \<Rightarrow> fault + (rb_error option \<times> 'h Buff \<times> 'w)" where
  "rb_Add K w b mid timestamp =
     res_bind (rb_push b \<lparr>m_id = 0, m_MessageId = mid, m_Timestamp = timestamp\<rparr>) (\<lambda>b'.
     let (err, w') = rb_save K w b' in Inr (err, b', w'))"

definition rb_loadMessage ::
  "('h, 'w) KV_ops \<Rightarrow> 'w \<Rightarrow> 'h \<Rightarrow> bytes \<Rightarrow> fault + (rb_error + Message)" where
  "rb_loadMessage K w h tmID =
     (case KV_Get K h w (makeMessageKey tmID) messageVersion of
        Inl err \<Rightarrow> Inr (Inl (LoadMessageErr err))
      | Inr vo \<Rightarrow>
          (case obj_Data vo of
             Json _ \<Rightarrow> Inl IndexOutOfRange
           | Raw data \<Rightarrow> res_bind (unmarshalMessage data) (\<lambda>m. Inr (Inr m))))"

fun rb_loadMessages ::
  "('h, 'w) KV_ops \<Rightarrow> 'w \<Rightarrow> 'h \<Rightarrow> bytes list \<Rightarrow> fault + (rb_error + Message list)" where
  "rb_loadMessages K w h [] = Inr (Inr [])"
| "rb_loadMessages K w h (t # ts) =
     res_bind (rb_loadMessage K w h t) (\<lambda>r.
     case r of
       Inl err \<Rightarrow> Inr (Inl err)
     | Inr m \<Rightarrow>
         res_bind (rb_loadMessages K w h ts) (\<lambda>r'.
         case r' of Inl err \<Rightarrow> Inr (Inl err) | Inr ms \<Rightarrow> Inr (Inr (m # ms))))"

definition LoadBuff :: "('h, 'w) KV_ops \<Rightarrow> 'w \<Rightarrow> 'h \<Rightarrow> fault + (rb_error + 'h Buff)" where
  "LoadBuff K w h =
     (case KV_Prefix K h ringBuffPrefix of
        Inl err \<Rightarrow> Inr (Inl (RbPrefixErr err))
      | Inr h' \<Rightarrow>
     (case KV_Get K h' w ringBuffKey ringBuffVersion of
        Inl err \<Rightarrow> Inr (Inl (LoadBuffErr err))
      | Inr vo \<Rightarrow>
     (case obj_Data vo of
        Json _ \<Rightarrow> Inl IndexOutOfRange
      | Raw data \<Rightarrow>
          res_bind (unmarshalBuffer data) (\<lambda>(newest, oldest, list).
          res_bind (rb_loadMessages K w h' list) (\<lambda>r.
          case r of
            Inl err \<Rightarrow> Inr (Inl err)
          | Inr msgs \<Rightarrow>
              Inr (Inr \<lparr>rb_buff = map Some msgs,
                        rb_lookup = (\<lambda>t. map_of (rev (zip list msgs)) t),
                        rb_oldest = oldest, rb_newest = newest, rb_kv = h'\<rparr>))))))"

section \<open>Specification\<close>

text \<open>The messages pushed so far, oldest first, as pairs of ID and time; number \<open>k\<close> is stored as
  \<open>nth_message\<close>. The buffer shows the last \<open>n\<close> of them.\<close>

definition nth_message :: "(bytes \<times> int) list \<Rightarrow> nat \<Rightarrow> Message" where
  "nth_message ms k = \<lparr>m_id = word_of_nat k, m_MessageId = fst (ms ! k), m_Timestamp = snd (ms ! k)\<rparr>"

definition in_window :: "nat \<Rightarrow> (bytes \<times> int) list \<Rightarrow> nat \<Rightarrow> bool" where
  "in_window n ms k = (length ms - n \<le> k \<and> k < length ms)"

definition rb_inv :: "'h Buff \<Rightarrow> (bytes \<times> int) list \<Rightarrow> bool" where
  "rb_inv b ms =
     (let n = length (rb_buff b)
      in 0 < n \<and> n < 2 ^ 32 \<and> length ms < 2 ^ 32 \<and>
         rb_newest b = word_of_nat (length ms) - 1 \<and> rb_oldest b = word_of_nat (length ms - n) \<and>
         (\<forall>k. in_window n ms k \<longrightarrow> rb_buff b ! (k mod n) = Some (nth_message ms k)) \<and>
         (\<forall>i < n. length ms \<le> i \<longrightarrow> rb_buff b ! i = None) \<and>
         (\<forall>t m. rb_lookup b t = Some m \<longleftrightarrow>
            (\<exists>k. in_window n ms k \<and> m = nth_message ms k \<and> mid_truncate (m_MessageId m) = t)))"

text \<open>Truncated IDs tell the messages apart.\<close>

definition distinct_ids :: "(bytes \<times> int) list \<Rightarrow> bool" where
  "distinct_ids ms = distinct (map (\<lambda>m. mid_truncate (fst m)) ms)"

fun rb_add_all ::
  "('h, 'w) KV_ops \<Rightarrow> 'w \<Rightarrow> 'h Buff \<Rightarrow> (bytes \<times> int) list \<Rightarrow> fault + ('h Buff \<times> 'w)" where
  "rb_add_all K w b [] = Inr (b, w)"
| "rb_add_all K w b (m # ms) =
     res_bind (rb_Add K w b (fst m) (snd m)) (\<lambda>(err, b', w'). rb_add_all K w' b' ms)"

section \<open>Lemmas\<close>

lemma nth_message_append [simp]:
  "k < length ms \<Longrightarrow> nth_message (ms @ xs) k = nth_message ms k"
  by (simp add: nth_message_def nth_append)

lemma tm_nth: "mid_truncate (m_MessageId (nth_message ms k)) = mid_truncate (fst (ms ! k))"
  by (simp add: nth_message_def)

lemma distinct_ids_nth:
  "distinct_ids ms \<Longrightarrow> i < length ms \<Longrightarrow> j < length ms \<Longrightarrow>
   mid_truncate (fst (ms ! i)) = mid_truncate (fst (ms ! j)) \<longleftrightarrow> i = j"
  using nth_eq_iff_index_eq [of "map (\<lambda>m. mid_truncate (fst m)) ms" i j] by (simp add: distinct_ids_def)

lemma mod_window: "k < L \<Longrightarrow> L - k < n \<Longrightarrow> k mod n \<noteq> (L :: nat) mod n"
proof
  assume "k < L" "L - k < n" "k mod n = L mod n"
  then have "n dvd L - k" by (metis less_imp_le mod_eq_dvd_iff_nat)
  with \<open>k < L\<close> \<open>L - k < n\<close> show False by (auto dest: dvd_imp_le)
qed

lemma rb_pos_eq:
  "0 < length (rb_buff b) \<Longrightarrow> length (rb_buff b) < 2 ^ 32 \<Longrightarrow> k < 2 ^ 32 \<Longrightarrow>
   rb_pos b (word_of_nat k) = Inr (k mod length (rb_buff b))"
proof -
  assume n: "0 < length (rb_buff b)" "length (rb_buff b) < 2 ^ 32" and k: "k < 2 ^ 32"
  then have u: "unat (word_of_nat (length (rb_buff b)) :: u32) = length (rb_buff b)"
    "unat (word_of_nat k :: u32) = k" by (simp_all add: unat_of_nat)
  with n have "(word_of_nat (length (rb_buff b)) :: u32) \<noteq> 0" by (metis less_numeral_extra(3) unat_0)
  with u show ?thesis by (simp add: rb_pos_def Let_def unat_mod)
qed

lemma rb_next_eq:
  assumes "rb_inv b ms" "length ms + 1 < 2 ^ 32"
  shows "rb_next b = b\<lparr>rb_newest := word_of_nat (length ms),
    rb_oldest := word_of_nat (length ms + 1 - length (rb_buff b))\<rparr>"
proof -
  let ?n = "length (rb_buff b)" and ?L = "length ms"
  have n: "?n < 2 ^ 32" "rb_newest b + 1 = word_of_nat ?L" "rb_oldest b = word_of_nat (?L - ?n)"
    using assms(1) by (simp_all add: rb_inv_def Let_def)
  then have c: "((word_of_nat ?n :: u32) \<le> word_of_nat ?L) = (?n \<le> ?L)"
    using assms(2) by (simp add: word_le_nat_alt unat_of_nat)
  have "?n \<le> ?L \<Longrightarrow> word_of_nat (?L - ?n) + 1 = (word_of_nat (?L + 1 - ?n) :: u32)"
    by (simp add: Suc_diff_le add.commute)
  moreover have "\<not> ?n \<le> ?L \<Longrightarrow> ?L + 1 - ?n = 0 \<and> ?L - ?n = 0" by simp
  ultimately show ?thesis using n c by (cases "?n \<le> ?L") (auto simp: rb_next_def Let_def)
qed

lemma rb_push_inv:
  assumes "rb_inv b ms" "length ms + 1 < 2 ^ 32" "distinct_ids (ms @ [(mid, ts)])"
  shows "\<exists>b'. rb_push b \<lparr>m_id = i, m_MessageId = mid, m_Timestamp = ts\<rparr> = Inr b' \<and>
    rb_inv b' (ms @ [(mid, ts)]) \<and> rb_kv b' = rb_kv b \<and> length (rb_buff b') = length (rb_buff b)"
proof -
  let ?n = "length (rb_buff b)" and ?L = "length ms" and ?ms = "ms @ [(mid, ts)]"
  let ?p = "?L mod ?n"
  define b1 where "b1 = b\<lparr>rb_newest := word_of_nat ?L, rb_oldest := word_of_nat (?L + 1 - ?n)\<rparr>"
  have b1: "rb_next b = b1" "rb_buff b1 = rb_buff b" "rb_newest b1 = word_of_nat ?L" "rb_lookup b1 = rb_lookup b"
    by (simp_all only: rb_next_eq [OF assms(1,2)] b1_def) simp_all
  define val where "val = nth_message ?ms ?L"
  have n: "0 < ?n" "?n < 2 ^ 32" and L: "?L < 2 ^ 32" using assms(1,2) by (simp_all add: rb_inv_def Let_def)
  define lk where "lk = (if ?n \<le> ?L then (rb_lookup b)(mid_truncate (fst (ms ! (?L - ?n))) := None) else rb_lookup b)"
  have bufb: "in_window ?n ms k \<Longrightarrow> rb_buff b ! (k mod ?n) = Some (nth_message ms k)" for k
    using assms(1) by (simp add: rb_inv_def Let_def)
  have lkb: "rb_lookup b t = Some m \<longleftrightarrow> (\<exists>k. in_window ?n ms k \<and> m = nth_message ms k \<and> mid_truncate (m_MessageId m) = t)" for t m
    using assms(1) by (simp add: rb_inv_def Let_def)
  have old: "rb_buff b ! ?p = (if ?n \<le> ?L then Some (nth_message ms (?L - ?n)) else None)"
  proof (cases "?n \<le> ?L")
    case True
    moreover have "(?L - ?n) mod ?n = ?p" using True by (simp add: le_mod_geq)
    moreover have "in_window ?n ms (?L - ?n)" unfolding in_window_def using True n(1) by linarith
    ultimately show ?thesis using bufb [of "?L - ?n"] by simp
  next
    case False
    then show ?thesis using assms(1) by (simp add: rb_inv_def Let_def)
  qed
  have val: "\<lparr>m_id = word_of_nat ?L, m_MessageId = mid, m_Timestamp = ts\<rparr> = val"
    by (simp add: val_def nth_message_def)
  define b' where "b' = b1\<lparr>rb_buff := (rb_buff b)[?p := Some val], rb_lookup := lk(mid_truncate mid \<mapsto> val)\<rparr>"
  have ow: "rb_handleMessageOverwrite b1 = Inr (b1\<lparr>rb_lookup := lk\<rparr>)"
    using n L rb_pos_eq [of b1 ?L] b1 by (simp add: rb_handleMessageOverwrite_def b1 old lk_def tm_nth)
  have push: "rb_push b \<lparr>m_id = i, m_MessageId = mid, m_Timestamp = ts\<rparr> = Inr b'"
    using n L rb_pos_eq [of "b1\<lparr>rb_lookup := lk\<rparr>" ?L] b1
    by (simp add: rb_push_def b1 Let_def ow val b'_def)
  have win: "in_window ?n ?ms k \<longleftrightarrow> k = ?L \<or> k < ?L \<and> ?L - k < ?n" for k
  proof -
    have "length ?ms = ?L + 1" by simp
    with n(1) show ?thesis unfolding in_window_def by linarith
  qed
  have buf: "rb_buff b' ! (k mod ?n) = Some (nth_message ?ms k)" if k: "in_window ?n ?ms k" for k
  proof (cases "k = ?L")
    case True
    with n show ?thesis by (simp add: b'_def val_def)
  next
    case False
    with k have k': "k < ?L" "?L - k < ?n" by (auto simp: win)
    then have "in_window ?n ms k" by (auto simp: in_window_def)
    with k' mod_window [OF k'] show ?thesis using bufb [of k] by (simp add: b'_def)
  qed
  have none: "rb_buff b' ! j = None" if "j < ?n" "?L + 1 \<le> j" for j
    using that assms(1) by (simp add: b'_def rb_inv_def Let_def)
  have tm: "mid_truncate (fst (ms ! k)) = mid_truncate (fst (ms ! j)) \<longleftrightarrow> k = j" if "k < ?L" "j < ?L" for k j
    using distinct_ids_nth [OF assms(3), of k j] that by (simp add: nth_append)
  have tx: "mid_truncate (fst (ms ! k)) \<noteq> mid_truncate mid" if "k < ?L" for k
    using distinct_ids_nth [OF assms(3), of k ?L] that by (simp add: nth_append)
  have lk: "lk t = Some m \<longleftrightarrow> (\<exists>k. k < ?L \<and> ?L - k < ?n \<and> m = nth_message ms k \<and> mid_truncate (fst (ms ! k)) = t)" for t m
  proof (cases "?n \<le> ?L")
    case True
    then have "lk t = Some m \<longleftrightarrow> t \<noteq> mid_truncate (fst (ms ! (?L - ?n))) \<and> rb_lookup b t = Some m"
      by (simp add: lk_def)
    also have "\<dots> \<longleftrightarrow> (\<exists>k. k < ?L \<and> ?L - ?n \<le> k \<and> k \<noteq> ?L - ?n \<and> m = nth_message ms k \<and> mid_truncate (fst (ms ! k)) = t)"
      unfolding lkb in_window_def using tm n by (auto simp: tm_nth)
    also have "\<dots> \<longleftrightarrow> (\<exists>k. k < ?L \<and> ?L - k < ?n \<and> m = nth_message ms k \<and> mid_truncate (fst (ms ! k)) = t)"
      using True by (intro ex_cong1) auto
    finally show ?thesis .
  next
    case False
    then show ?thesis unfolding lk_def if_not_P [OF False] lkb in_window_def by (auto simp: tm_nth intro!: ex_cong1)
  qed
  have "rb_lookup b' t = Some m \<longleftrightarrow>
     (\<exists>k. in_window ?n ?ms k \<and> m = nth_message ?ms k \<and> mid_truncate (m_MessageId m) = t)" for t m
  proof -
    have "rb_lookup b' t = Some m \<longleftrightarrow> (if t = mid_truncate mid then m = val else lk t = Some m)"
      by (auto simp: b'_def)
    also have "\<dots> \<longleftrightarrow> (t = mid_truncate mid \<and> m = val) \<or>
        (\<exists>k. k < ?L \<and> ?L - k < ?n \<and> m = nth_message ms k \<and> mid_truncate (fst (ms ! k)) = t)"
      unfolding lk using tx by auto
    also have "\<dots> \<longleftrightarrow> (\<exists>k. in_window ?n ?ms k \<and> m = nth_message ?ms k \<and> mid_truncate (m_MessageId m) = t)"
      unfolding win by (auto simp: val_def tm_nth)
    finally show ?thesis .
  qed
  then have "rb_inv b' ?ms"
    using n assms(2) buf none by (simp add: rb_inv_def Let_def b'_def b1_def)
  with push show ?thesis by (auto simp: b'_def b1_def)
qed

lemma NewBuff_inv:
  assumes "NewBuff K w h n = Inr (b, err, w')" "0 < n" "n < 2 ^ 32"
  shows "rb_inv b []" "length (rb_buff b) = n"
  using assms by (auto simp: NewBuff_def Let_def rb_inv_def in_window_def split: sum.splits)

lemma rb_add_all_inv:
  "rb_inv b ms \<Longrightarrow> length (ms @ xs) < 2 ^ 32 \<Longrightarrow> distinct_ids (ms @ xs) \<Longrightarrow>
   \<exists>b' w'. rb_add_all K w b xs = Inr (b', w') \<and> rb_inv b' (ms @ xs) \<and>
     length (rb_buff b') = length (rb_buff b) \<and> rb_kv b' = rb_kv b"
proof (induction xs arbitrary: b ms w)
  case (Cons x xs)
  have pre: "distinct_ids (ms @ [(fst x, snd x)])" "length ms + 1 < 2 ^ 32"
    using Cons.prems by (auto simp: distinct_ids_def)
  from rb_push_inv [OF Cons.prems(1) pre(2,1), of 0] obtain b1 where 1:
    "rb_push b \<lparr>m_id = 0, m_MessageId = fst x, m_Timestamp = snd x\<rparr> = Inr b1" "rb_inv b1 (ms @ [x])"
    "rb_kv b1 = rb_kv b" "length (rb_buff b1) = length (rb_buff b)" by auto
  obtain err w1 where "rb_Add K w b (fst x) (snd x) = Inr (err, b1, w1)"
    using 1(1) by (simp add: rb_Add_def case_prod_beta)
  with 1 Cons.IH [OF 1(2), of w1] Cons.prems show ?case by auto
qed simp

lemma rb_lookup_nth:
  assumes "rb_inv b ms" "distinct_ids ms" "k < length ms"
  shows "rb_lookup b (mid_truncate (fst (ms ! k))) =
    (if in_window (length (rb_buff b)) ms k then Some (nth_message ms k) else None)"
proof -
  have lk: "rb_lookup b t = Some m \<longleftrightarrow>
      (\<exists>k. in_window (length (rb_buff b)) ms k \<and> m = nth_message ms k \<and> mid_truncate (m_MessageId m) = t)" for t m
    using assms(1) by (simp add: rb_inv_def Let_def)
  have "j = k" if "in_window (length (rb_buff b)) ms j" "mid_truncate (fst (ms ! j)) = mid_truncate (fst (ms ! k))" for j
    using distinct_ids_nth [OF assms(2), of j k] that assms(3) by (auto simp: in_window_def)
  then have "rb_lookup b (mid_truncate (fst (ms ! k))) = Some m \<longleftrightarrow>
      in_window (length (rb_buff b)) ms k \<and> m = nth_message ms k" for m
    unfolding lk by (metis tm_nth)
  then show ?thesis by (cases "rb_lookup b (mid_truncate (fst (ms ! k)))") auto
qed

lemma GetNextMessage_nth:
  assumes "rb_inv b ms" "distinct_ids ms" "in_window (length (rb_buff b)) ms k"
  shows "GetNextMessage b (fst (ms ! k)) =
    Inr (if k + 1 = length ms then Inl LookupPastRecentErr else Inr (Some (nth_message ms (k + 1))))"
proof -
  let ?n = "length (rb_buff b)" and ?L = "length ms"
  have k: "k < ?L" "?L - ?n \<le> k" using assms(3) by (simp_all add: in_window_def)
  have i: "0 < ?n" "?n < 2 ^ 32" "?L < 2 ^ 32" "rb_newest b = word_of_nat ?L - 1" "rb_oldest b = word_of_nat (?L - ?n)"
    using assms(1) by (simp_all add: rb_inv_def Let_def)
  have lk: "rb_lookup b (mid_truncate (fst (ms ! k))) = Some (nth_message ms k)"
    using rb_lookup_nth [OF assms(1,2) k(1)] assms(3) by simp
  have id: "m_id (nth_message ms k) + 1 = word_of_nat (k + 1)" by (simp add: nth_message_def)
  have u: "unat (word_of_nat (k + 1) :: u32) = k + 1" "unat (word_of_nat (?L - ?n) :: u32) = ?L - ?n"
    "unat (word_of_nat (?L - 1) :: u32) = ?L - 1"
    unfolding unat_of_nat using i k by simp_all
  have nw: "rb_newest b = word_of_nat (?L - 1)" using k i(4) by (cases ms) simp_all
  have old: "\<not> (word_of_nat (k + 1) :: u32) < rb_oldest b" using k by (simp only: word_less_nat_alt u i(5))
  have new: "rb_newest b < (word_of_nat (k + 1) :: u32) \<longleftrightarrow> k + 1 = ?L" using k unfolding word_less_nat_alt u nw by linarith
  show ?thesis
  proof (cases "k + 1 = ?L")
    case True
    then show ?thesis using lk old new by (simp only: GetNextMessage_def lk option.case Let_def id if_True if_False simp_thms)
  next
    case False
    with k have "in_window ?n ms (k + 1)" by (simp add: in_window_def)
    then have "rb_buff b ! ((k + 1) mod ?n) = Some (nth_message ms (k + 1))"
      using assms(1) by (simp add: rb_inv_def Let_def)
    moreover have "rb_pos b (word_of_nat (k + 1)) = Inr ((k + 1) mod ?n)" using i k by (intro rb_pos_eq) simp_all
    moreover have "(k + 1) mod ?n < ?n" using i by simp
    ultimately show ?thesis using False old new
      by (simp only: GetNextMessage_def lk option.case Let_def id if_False res_bind.simps index_in_range)
  qed
qed

subsection \<open>Storage\<close>

lemma copy_at_whole: "length data = n \<Longrightarrow> copy_at (replicate n 0) 0 data = data"
  by (simp add: copy_at_def)

lemma length_tm [simp]: "length (mid_truncate x) = 8"
  by (simp add: mid_truncate_def newTruncatedMessageID_def TruncatedMessageIdLen_def)

lemma makeMessageKey_inj [simp]: "makeMessageKey a = makeMessageKey b \<longleftrightarrow> a = b"
  using base64_inj by (auto simp: makeMessageKey_def)

lemma makeMessageKey_not_buff [simp]: "makeMessageKey a \<noteq> ringBuffKey" "ringBuffKey \<noteq> makeMessageKey a"
  by (simp_all add: makeMessageKey_def ringBuffKey_def)

definition storable :: "Message \<Rightarrow> bool" where
  "storable m = (length (m_MessageId m) = MessageIdLen \<and> in_int64 (m_Timestamp m))"

lemma unmarshal_marshal_message: "storable m \<Longrightarrow> unmarshalMessage (m_marshal m) = Inr m"
proof -
  assume s: "storable m"
  then have "sint (word_of_int (m_Timestamp m) :: u64) = m_Timestamp m"
    by (simp add: storable_def in_int64_def sint_sbintrunc' signed_take_bit_int_eq_self)
  with s show ?thesis
    by (simp add: unmarshalMessage_def m_marshal_def storable_def MessageIdLen_def Let_def
        NewMessageIdFromBytes_def copy_at_whole)
qed

lemma read_tmids_concat:
  "\<forall>t \<in> set ts. length t = 8 \<Longrightarrow> read_tmids (concat ts) = ts"
proof (induction ts)
  case Nil
  then show ?case by (simp add: read_tmids.simps TruncatedMessageIdLen_def)
next
  case (Cons t ts)
  then have "newTruncatedMessageID t = t"
    by (simp add: newTruncatedMessageID_def TruncatedMessageIdLen_def copy_at_whole)
  with Cons show ?case
    by (simp add: read_tmids.simps [of "t @ concat ts"] TruncatedMessageIdLen_def)
qed

lemma unmarshal_marshal_buffer:
  "unmarshalBuffer (rb_marshal b) =
   Inr (rb_newest b, rb_oldest b, map (\<lambda>m. mid_truncate (m_MessageId m)) (rb_present b))"
  using read_tmids_concat [of "map (\<lambda>m. mid_truncate (m_MessageId m)) (rb_present b)"]
  by (simp add: unmarshalBuffer_def rb_marshal_def)

lemma window_covers:
  assumes "0 < n" "n \<le> L" "i < (n :: nat)"
  obtains k where "L - n \<le> k" "k < L" "k mod n = i"
proof -
  define r where "r = L - n"
  let ?d = "(i + n - r mod n) mod n"
  have "r mod n < n" "r mod n \<le> r" using assms(1) by simp_all
  then have "r + (i + n - r mod n) = i + n + (r - r mod n)" by linarith
  also have "\<dots> = i + n * (1 + r div n)" by (simp add: minus_mod_eq_mult_div)
  finally have "(r + (i + n - r mod n)) mod n = i" using assms(3) by (simp only: mod_mult_self2 mod_less)
  then have "(r + ?d) mod n = i" by (simp add: mod_add_right_eq)
  moreover have "?d < n" using assms(1) by simp
  ultimately show ?thesis using that [of "r + ?d"] assms(2) by (simp add: r_def)
qed

lemma rb_full:
  assumes "rb_inv b ms" "distinct_ids ms" "length (rb_buff b) \<le> length ms"
  shows "rb_buff b = map Some (rb_present b)"
    "distinct (map (\<lambda>m. mid_truncate (m_MessageId m)) (rb_present b))"
    "set (rb_present b) = nth_message ms ` {k. in_window (length (rb_buff b)) ms k}"
proof -
  let ?n = "length (rb_buff b)" and ?L = "length ms"
  have n: "0 < ?n" and bufb: "\<And>k. in_window ?n ms k \<Longrightarrow> rb_buff b ! (k mod ?n) = Some (nth_message ms k)"
    using assms(1) by (simp_all add: rb_inv_def Let_def)
  define f where "f i = (SOME k. in_window ?n ms k \<and> k mod ?n = i)" for i
  have f: "in_window ?n ms (f i) \<and> f i mod ?n = i" if i: "i < ?n" for i
  proof -
    obtain k where "in_window ?n ms k \<and> k mod ?n = i"
      using window_covers [OF n assms(3) i] unfolding in_window_def by metis
    then show ?thesis unfolding f_def by (rule someI)
  qed
  define P where "P = map (\<lambda>i. nth_message ms (f i)) [0..<?n]"
  have "rb_buff b = map Some P"
  proof (rule nth_equalityI)
    show "length (rb_buff b) = length (map Some P)" by (simp add: P_def)
    fix i assume "i < ?n"
    with f [of i] bufb [of "f i"] show "rb_buff b ! i = map Some P ! i" by (simp add: P_def)
  qed
  moreover have "rb_present b = P"
    unfolding rb_present_def calculation by (simp add: map_filter_def comp_def)
  ultimately show "rb_buff b = map Some (rb_present b)" by simp
  have "distinct (map (\<lambda>i. mid_truncate (fst (ms ! f i))) [0..<?n])"
    unfolding distinct_map
  proof (intro conjI inj_onI)
    fix i j assume ij: "i \<in> set [0..<?n]" "j \<in> set [0..<?n]" "mid_truncate (fst (ms ! f i)) = mid_truncate (fst (ms ! f j))"
    then have "f i < ?L" "f j < ?L" "f i mod ?n = i" "f j mod ?n = j"
      using f [of i] f [of j] by (simp_all add: in_window_def)
    then show "i = j" using distinct_ids_nth [OF assms(2), of "f i" "f j"] ij(3) by metis
  qed simp
  then show "distinct (map (\<lambda>m. mid_truncate (m_MessageId m)) (rb_present b))"
    by (simp add: \<open>rb_present b = P\<close> P_def comp_def tm_nth)
  have uniq: "x = y" if "in_window ?n ms x" "in_window ?n ms y" "x mod ?n = y mod ?n" for x y
  proof (rule ccontr)
    assume "x \<noteq> y"
    moreover have "y < x + ?n" "x < y + ?n" using that(1,2) assms(3) unfolding in_window_def by linarith+
    ultimately show False
      using that(3) mod_window [of x y ?n] mod_window [of y x ?n] by (cases "x < y") (simp_all add: less_diff_conv2)
  qed
  have "f (k mod ?n) = k" if "in_window ?n ms k" for k
  proof -
    have "k mod ?n < ?n" using n by simp
    from f [OF this] show ?thesis using uniq [OF _ that] by blast
  qed
  then have "nth_message ms k \<in> set P" if "in_window ?n ms k" for k
    using that n unfolding P_def set_map by (intro image_eqI [of _ _ "k mod ?n"]) simp_all
  moreover have "set P \<subseteq> nth_message ms ` {k. in_window ?n ms k}" using f by (auto simp: P_def)
  ultimately show "set (rb_present b) = nth_message ms ` {k. in_window ?n ms k}"
    unfolding \<open>rb_present b = P\<close> by blast
qed

context versioned_kv
begin

lemma saveMessages_get:
  "rb_saveMessages K w h msgs = (None, w') \<Longrightarrow>
   distinct (map (\<lambda>m. mid_truncate (m_MessageId m)) msgs) \<Longrightarrow>
   (\<forall>m \<in> set msgs. \<exists>obj. KV_Get K h w' (makeMessageKey (mid_truncate (m_MessageId m))) messageVersion = Inr obj \<and>
      obj_Data obj = Raw (m_marshal m)) \<and>
   (\<forall>key v. key \<notin> (\<lambda>m. makeMessageKey (mid_truncate (m_MessageId m))) ` set msgs \<longrightarrow>
      KV_Get K h w' key v = KV_Get K h w key v)"
proof (induction msgs arbitrary: w)
  case (Cons m msgs)
  then obtain w1 where 1: "rb_saveMessage K w h m = (None, w1)" "rb_saveMessages K w1 h msgs = (None, w')"
    by (auto split: prod.splits option.splits)
  note s = get_set_if [OF 1(1) [unfolded rb_saveMessage_def]]
  note ih = Cons.IH [OF 1(2)]
  have "makeMessageKey (mid_truncate (m_MessageId m)) \<notin> (\<lambda>m. makeMessageKey (mid_truncate (m_MessageId m))) ` set msgs"
    using Cons.prems(2) by auto
  with ih Cons.prems(2) s show ?case by auto
qed simp

lemma loadMessages_saved:
  "(\<forall>m \<in> set msgs. storable m \<and> (\<exists>obj. KV_Get K h w (makeMessageKey (mid_truncate (m_MessageId m))) messageVersion = Inr obj \<and>
      obj_Data obj = Raw (m_marshal m))) \<Longrightarrow>
   rb_loadMessages K w h (map (\<lambda>m. mid_truncate (m_MessageId m)) msgs) = Inr (Inr msgs)"
  by (induction msgs) (auto simp: rb_loadMessage_def unmarshal_marshal_message)

lemma load_after_save:
  assumes "distinct (map (\<lambda>m. mid_truncate (m_MessageId m)) (rb_present b))" "\<forall>m \<in> set (rb_present b). storable m"
    and "KV_Prefix K h ringBuffPrefix = Inr (rb_kv b)" "rb_save K w b = (None, w')"
  shows "LoadBuff K w' h = Inr (Inr \<lparr>rb_buff = map Some (rb_present b),
    rb_lookup = map_of (rev (map (\<lambda>m. (mid_truncate (m_MessageId m), m)) (rb_present b))),
    rb_oldest = rb_oldest b, rb_newest = rb_newest b, rb_kv = rb_kv b\<rparr>)"
proof -
  let ?ids = "map (\<lambda>m. mid_truncate (m_MessageId m)) (rb_present b)"
  obtain w1 where s: "rb_saveMessages K w (rb_kv b) (rb_present b) = (None, w1)" "rb_saveBuff K w1 b = (None, w')"
    using assms(4) by (auto simp: rb_save_def split: prod.splits option.splits)
  note g = get_set_if [OF s(2) [unfolded rb_saveBuff_def]]
  from saveMessages_get [OF s(1) assms(1)] assms(2)
  have "rb_loadMessages K w' (rb_kv b) ?ids = Inr (Inr (rb_present b))"
    by (intro loadMessages_saved) (auto simp: g)
  moreover have "zip ?ids (rb_present b) = map (\<lambda>m. (mid_truncate (m_MessageId m), m)) (rb_present b)"
    by (simp add: zip_map1 zip_same_conv_map)
  ultimately show ?thesis
    using assms(3) by (simp add: LoadBuff_def g unmarshal_marshal_buffer)
qed

end

definition storable_ids :: "(bytes \<times> int) list \<Rightarrow> bool" where
  "storable_ids ms = (\<forall>(mid, ts) \<in> set ms. length mid = MessageIdLen \<and> in_int64 ts)"

lemma storable_nth: "storable_ids ms \<Longrightarrow> k < length ms \<Longrightarrow> storable (nth_message ms k)"
proof -
  assume "storable_ids ms" "k < length ms"
  moreover from this(2) have "ms ! k \<in> set ms" by simp
  ultimately show ?thesis by (auto simp: storable_ids_def storable_def nth_message_def case_prod_beta)
qed

lemma option_eqI: "\<forall>m. (x = Some m) = (y = Some m) \<Longrightarrow> x = y"
  by (cases x; cases y) auto

lemma full_lookup:
  assumes "rb_inv b ms" "distinct_ids ms" "length (rb_buff b) \<le> length ms"
  shows "map_of (rev (map (\<lambda>m. (mid_truncate (m_MessageId m), m)) (rb_present b))) = rb_lookup b"
proof
  fix t
  note full = rb_full [OF assms]
  let ?al = "rev (map (\<lambda>m. (mid_truncate (m_MessageId m), m)) (rb_present b))"
  have lk: "rb_lookup b t = Some m \<longleftrightarrow>
      (\<exists>k. in_window (length (rb_buff b)) ms k \<and> m = nth_message ms k \<and> mid_truncate (m_MessageId m) = t)" for m
    using assms(1) by (simp add: rb_inv_def Let_def)
  have "map_of ?al t = Some m \<longleftrightarrow> rb_lookup b t = Some m" for m
  proof -
    have "map fst ?al = rev (map (\<lambda>m. mid_truncate (m_MessageId m)) (rb_present b))"
      by (simp add: rev_map comp_def)
    then have "distinct (map fst ?al)" using full(2) by (simp only: distinct_rev)
    then have "map_of ?al t = Some m \<longleftrightarrow> (t, m) \<in> set ?al" by (rule map_of_eq_Some_iff)
    also have "\<dots> \<longleftrightarrow> m \<in> set (rb_present b) \<and> mid_truncate (m_MessageId m) = t" by auto
    also have "\<dots> \<longleftrightarrow> rb_lookup b t = Some m" unfolding full(3) lk by blast
    finally show ?thesis .
  qed
  then have "\<forall>m. (map_of ?al t = Some m) = (rb_lookup b t = Some m)" by blast
  then show "map_of ?al t = rb_lookup b t" by (rule option_eqI)
qed

text \<open>Before the buffer has filled up, the messages present are all the messages pushed.\<close>

lemma partial_present:
  assumes "rb_inv b ms" "length ms \<le> length (rb_buff b)"
  shows "rb_present b = map (nth_message ms) [0..<length ms]"
proof -
  let ?n = "length (rb_buff b)" and ?L = "length ms"
  define r where "r = ?n - ?L"
  have e: "rb_buff b = map (\<lambda>k. Some (nth_message ms k)) [0..<?L] @ replicate r None"
  proof (rule nth_equalityI)
    show "?n = length (map (\<lambda>k. Some (nth_message ms k)) [0..<?L] @ replicate r None)"
      using assms(2) by (simp add: r_def)
    fix i assume i: "i < ?n"
    show "rb_buff b ! i = (map (\<lambda>k. Some (nth_message ms k)) [0..<?L] @ replicate r None) ! i"
    proof (cases "i < ?L")
      case True
      then have "in_window ?n ms i" using assms(2) by (simp add: in_window_def)
      moreover have "i mod ?n = i" using i by simp
      ultimately have "rb_buff b ! i = Some (nth_message ms i)"
        using assms(1) unfolding rb_inv_def Let_def by metis
      with True show ?thesis by (simp add: nth_append)
    next
      case False
      with i assms(1) show ?thesis by (simp add: nth_append rb_inv_def Let_def r_def)
    qed
  qed
  show ?thesis unfolding rb_present_def e by (simp add: map_filter_def filter_map comp_def)
qed

section \<open>Properties\<close>

text \<open>C28: A ring buffer of size \<open>n\<close>, with \<open>0 < n < 2 ^ 32\<close>, shows exactly the last \<open>n\<close> messages. The
  buffer is made and fewer than \<open>2 ^ 32\<close> messages, whose truncated IDs are distinct, are added to it.
  Then the lookup of message number \<open>k\<close> succeeds just when \<open>k\<close> is among the last \<open>n\<close>, and
  returns that message with its sequential number; \<open>GetNextMessage\<close> returns the message after it, and
  the error for the newest one; \<open>Get\<close> returns the newest. Both limits are needed: the positions are
  32-bit numbers, and with a repeated truncated ID a message can be lost (\<open>repeated_id_lost\<close>).\<close>

theorem ring_shows_last_messages:
  assumes "NewBuff K w h n = Inr (b0, err, w0)" "0 < n" "n < 2 ^ 32" "length ms < 2 ^ 32" "distinct_ids ms"
    and "k < length ms"
  shows "\<exists>b w'. rb_add_all K w0 b0 ms = Inr (b, w') \<and>
    GetByMessageID b (fst (ms ! k)) =
      (if length ms - n \<le> k then Inr (nth_message ms k) else Inl NoMessageFoundErr) \<and>
    (length ms - n \<le> k \<longrightarrow> GetNextMessage b (fst (ms ! k)) =
      Inr (if k + 1 = length ms then Inl LookupPastRecentErr else Inr (Some (nth_message ms (k + 1))))) \<and>
    rb_Get b = Inr (Some (nth_message ms (length ms - 1)))"
proof -
  note new = NewBuff_inv [OF assms(1-3)]
  from rb_add_all_inv [OF new(1), of ms K w0] assms(4,5) new(2) obtain b w' where
    add: "rb_add_all K w0 b0 ms = Inr (b, w')" and inv: "rb_inv b ms" and len: "length (rb_buff b) = n" by auto
  let ?l = "length ms - 1"
  have win: "in_window n ms ?l" using assms(2,6) by (auto simp: in_window_def)
  have "rb_newest b = word_of_nat ?l"
    using inv assms(6) by (cases ms) (simp_all add: rb_inv_def Let_def)
  then have "rb_pos b (rb_newest b) = Inr (?l mod n)"
    using assms(2-4) len by (simp add: rb_pos_eq)
  moreover have "rb_buff b ! (?l mod n) = Some (nth_message ms ?l)"
    using inv win len by (simp add: rb_inv_def Let_def)
  ultimately have "rb_Get b = Inr (Some (nth_message ms ?l))"
    using assms(2) len by (simp add: rb_Get_def)
  with add rb_lookup_nth [OF inv assms(5,6)] GetNextMessage_nth [OF inv assms(5), of k] len assms(6)
  show ?thesis by (intro exI [of _ b] exI [of _ w']) (simp add: GetByMessageID_def in_window_def)
qed

definition ids_example :: "(bytes \<times> int) list" where
  "ids_example = [(replicate 32 1, 10), (replicate 32 2, 20), (replicate 32 3, 30)]"

lemma ids_example: "distinct_ids ids_example" "length ids_example = 3" "storable_ids ids_example"
  by (simp_all add: ids_example_def distinct_ids_def mid_truncate_def newTruncatedMessageID_def
      TruncatedMessageIdLen_def copy_at_def in_int64_def storable_ids_def MessageIdLen_def)

lemma mem_new_buff:
  obtains b0 w0 where "NewBuff mem_KV Map.empty NewKV n = Inr (b0, None, w0)" "KV_Prefix mem_KV NewKV ringBuffPrefix = Inr (rb_kv b0)"
proof -
  have "KV_Prefix mem_KV NewKV ringBuffPrefix \<noteq> Inl e" for e
    by (simp add: mem_KV_simps kv_Prefix_def ringBuffPrefix_def HasPrefix_def NewKV_def)
  then obtain h' where h': "KV_Prefix mem_KV NewKV ringBuffPrefix = Inr h'" by (meson sumE)
  have "rb_present \<lparr>rb_buff = replicate n None, rb_lookup = Map.empty, rb_oldest = 0, rb_newest = 4294967295, rb_kv = h'\<rparr> = []"
    by (simp add: rb_present_def map_filter_def)
  then have "\<exists>w0. NewBuff mem_KV Map.empty NewKV n = Inr (\<lparr>rb_buff = replicate n None, rb_lookup = Map.empty,
      rb_oldest = 0, rb_newest = 4294967295, rb_kv = h'\<rparr>, None, w0)"
    using h' by (simp add: NewBuff_def rb_save_def rb_saveBuff_def mem_KV_simps Let_def)
  with h' that show ?thesis by fastforce
qed

theorem ring_shows_last_messages_witness:
  "\<exists>b0 w0 b w'. rb_add_all mem_KV w0 b0 ids_example = Inr (b, w') \<and>
     GetByMessageID b (replicate 32 1) = Inl NoMessageFoundErr \<and>
     GetNextMessage b (replicate 32 2) = Inr (Inr (Some (nth_message ids_example 2)))"
proof -
  obtain b0 w0 where n: "NewBuff mem_KV Map.empty NewKV 2 = Inr (b0, None, w0)" by (rule mem_new_buff)
  have "(0 :: nat) < 2" "(2 :: nat) < 2 ^ 32" "length ids_example < 2 ^ 32" "0 < length ids_example" "1 < length ids_example"
    by (simp_all add: ids_example)
  note r = ring_shows_last_messages [OF n this(1-3) ids_example(1)]
  from r [of 0] r [of 1] show ?thesis by (fastforce simp: ids_example_def numeral_2_eq_2)
qed

text \<open>A full ring buffer survives a restart: once it holds \<open>n\<close> messages, loading what it saved gives
  back the same buffer, markers, messages and lookup table included.\<close>

theorem full_ring_save_load:
  assumes "ekv_store E" "rb_inv b ms" "distinct_ids ms" "storable_ids ms" "length (rb_buff b) \<le> length ms"
    and "KV_Prefix (versioned_ops E) h ringBuffPrefix = Inr (rb_kv b)" "rb_save (versioned_ops E) w b = (None, w')"
  shows "LoadBuff (versioned_ops E) w' h = Inr (Inr b)"
proof -
  note full = rb_full [OF assms(2,3,5)]
  have "\<forall>m \<in> set (rb_present b). storable m"
    unfolding full(3) using storable_nth [OF assms(4)] by (auto simp: in_window_def)
  from versioned_kv.load_after_save [OF ekv_store.versioned [OF assms(1)] full(2) this assms(6,7)]
  show ?thesis by (simp add: full_lookup [OF assms(2,3,5)] full(1) [symmetric])
qed

lemma mem_save: "\<exists>w'. rb_save mem_KV w b = (None, w')"
proof -
  have "\<exists>w'. rb_saveMessages mem_KV w h msgs = (None, w')" for h msgs
    by (induction msgs arbitrary: w) (simp_all add: rb_saveMessage_def mem_KV_simps)
  then obtain w1 where "rb_saveMessages mem_KV w (rb_kv b) (rb_present b) = (None, w1)" by blast
  then show ?thesis by (simp add: rb_save_def rb_saveBuff_def mem_KV_simps)
qed

theorem full_ring_save_load_witness:
  "\<exists>b w'. rb_inv b ids_example \<and> LoadBuff mem_KV w' NewKV = Inr (Inr b)"
proof -
  obtain b0 w0 where n: "NewBuff mem_KV Map.empty NewKV 2 = Inr (b0, None, w0)"
    "KV_Prefix mem_KV NewKV ringBuffPrefix = Inr (rb_kv b0)" by (rule mem_new_buff)
  have "rb_inv b0 []" "length (rb_buff b0) = 2" using NewBuff_inv [OF n(1)] by simp_all
  with rb_add_all_inv [of b0 "[]" ids_example mem_KV w0] ids_example obtain b where
    b: "rb_inv b ids_example" "length (rb_buff b) = 2" "rb_kv b = rb_kv b0" by auto
  obtain w' where s: "rb_save mem_KV Map.empty b = (None, w')" using mem_save by blast
  have "length (rb_buff b) \<le> length ids_example" using b(2) ids_example(2) by simp
  from full_ring_save_load [OF mem.ekv_store_axioms b(1) ids_example(1,3) this n(2) [folded b(3)] s] b(1)
  show ?thesis by blast
qed

text \<open>A ring buffer that is not yet full does not survive a restart: it saves only the messages it
  holds, and \<open>LoadBuff\<close> makes a buffer of that many slots, so the capacity shrinks to the number of
  messages; a buffer saved while empty cannot be used any more (the position is a remainder by zero).\<close>

theorem partial_ring_shrinks:
  assumes "ekv_store E" "rb_inv b ms" "distinct_ids ms" "storable_ids ms" "length ms \<le> length (rb_buff b)"
    and "KV_Prefix (versioned_ops E) h ringBuffPrefix = Inr (rb_kv b)" "rb_save (versioned_ops E) w b = (None, w')"
  shows "\<exists>b'. LoadBuff (versioned_ops E) w' h = Inr (Inr b') \<and> length (rb_buff b') = length ms \<and>
    (ms = [] \<longrightarrow> rb_Get b' = Inl DivideByZero \<and> rb_push b' m = Inl DivideByZero)"
proof -
  note p = partial_present [OF assms(2,5)]
  have "\<forall>m \<in> set (rb_present b). storable m" using storable_nth [OF assms(4)] by (auto simp: p)
  moreover have "distinct (map (\<lambda>m. mid_truncate (m_MessageId m)) (rb_present b))"
    unfolding p using distinct_ids_nth [OF assms(3)]
    by (auto simp: distinct_map tm_nth comp_def inj_on_def)
  ultimately show ?thesis
    using versioned_kv.load_after_save [OF ekv_store.versioned [OF assms(1)] _ _ assms(6,7)]
    by (simp add: p rb_Get_def rb_pos_def rb_push_def rb_handleMessageOverwrite_def rb_next_def Let_def)
qed

theorem partial_ring_shrinks_witness:
  "\<exists>(b :: kv Buff) w' b'. length (rb_buff b) = 9 \<and> rb_inv b ids_example \<and> LoadBuff mem_KV w' NewKV = Inr (Inr b') \<and>
     length (rb_buff b') = 3"
proof -
  obtain b0 w0 where n: "NewBuff mem_KV Map.empty NewKV 9 = Inr (b0, None, w0)"
    "KV_Prefix mem_KV NewKV ringBuffPrefix = Inr (rb_kv b0)" by (rule mem_new_buff)
  have "rb_inv b0 []" "length (rb_buff b0) = 9" using NewBuff_inv [OF n(1)] by simp_all
  with rb_add_all_inv [of b0 "[]" ids_example mem_KV w0] ids_example obtain b where
    b: "rb_inv b ids_example" "length (rb_buff b) = 9" "rb_kv b = rb_kv b0" by auto
  obtain w' where s: "rb_save mem_KV Map.empty b = (None, w')" using mem_save by blast
  have "length ids_example \<le> length (rb_buff b)" using b(2) ids_example(2) by simp
  from partial_ring_shrinks [OF mem.ekv_store_axioms b(1) ids_example(1,3) this n(2) [folded b(3)] s,
      of "nth_message [] 0"]
  obtain b' where "LoadBuff mem_KV w' NewKV = Inr (Inr b')" "length (rb_buff b') = 3"
    by (auto simp: ids_example(2))
  with b show ?thesis by blast
qed

text \<open>Distinct truncated IDs are needed. When two messages of the ring have the same one, overwriting the older
  deletes the entry of the lookup table, which is that of the newer: the newer message is still in the
  ring but is not found any more.\<close>

theorem repeated_id_lost:
  assumes "rb_pos b (rb_newest b + 1) = Inr i" "i < length (rb_buff b)" "rb_buff b ! i = Some m"
    and "j \<noteq> i" "rb_buff b ! j = Some m'" "mid_truncate (m_MessageId m') = mid_truncate (m_MessageId m)"
    and "mid_truncate (m_MessageId val) \<noteq> mid_truncate (m_MessageId m)"
  shows "\<exists>b'. rb_push b val = Inr b' \<and> rb_buff b' ! j = Some m' \<and> GetByMessageID b' (m_MessageId m') = Inl NoMessageFoundErr"
proof -
  have n: "rb_buff (rb_next b) = rb_buff b" "rb_newest (rb_next b) = rb_newest b + 1" "rb_lookup (rb_next b) = rb_lookup b"
    by (simp_all add: rb_next_def Let_def)
  have p: "rb_pos c (rb_newest b + 1) = Inr i" if "rb_buff c = rb_buff b" for c :: "'a Buff"
    using assms(1) that by (simp add: rb_pos_def)
  let ?c = "(rb_next b)\<lparr>rb_lookup := (rb_lookup b)(mid_truncate (m_MessageId m) := None)\<rparr>"
  have "rb_handleMessageOverwrite (rb_next b) = Inr ?c"
    using assms(2,3) p [of "rb_next b"] by (simp add: rb_handleMessageOverwrite_def n)
  then show ?thesis
    using assms(2,4-) p [of ?c] by (simp add: rb_push_def n Let_def GetByMessageID_def)
qed

theorem repeated_id_lost_witness:
  "\<exists>(b :: unit Buff) b' m. rb_buff b ! 1 = Some m \<and> rb_push b \<lparr>m_id = 0, m_MessageId = replicate 32 2, m_Timestamp = 9\<rparr> = Inr b' \<and>
     rb_buff b' ! 1 = Some m \<and> GetByMessageID b' (m_MessageId m) = Inl NoMessageFoundErr"
proof -
  define m0 where "m0 = \<lparr>m_id = 0, m_MessageId = replicate 32 1, m_Timestamp = 5\<rparr>"
  define m1 where "m1 = \<lparr>m_id = 1, m_MessageId = replicate 32 1, m_Timestamp = 7\<rparr>"
  define b where "b = \<lparr>rb_buff = [Some m0, Some m1], rb_lookup = [mid_truncate (replicate 32 1) \<mapsto> m1], rb_oldest = 0, rb_newest = 1, rb_kv = ()\<rparr>"
  have "rb_pos b (rb_newest b + 1) = Inr 0" by (simp add: b_def rb_pos_def)
  moreover have "mid_truncate (replicate 32 2) \<noteq> mid_truncate (replicate 32 1)"
    by (simp add: mid_truncate_def newTruncatedMessageID_def TruncatedMessageIdLen_def copy_at_def)
  ultimately obtain b' where "rb_push b \<lparr>m_id = 0, m_MessageId = replicate 32 2, m_Timestamp = 9\<rparr> = Inr b'"
    "rb_buff b' ! 1 = Some m1" "GetByMessageID b' (m_MessageId m1) = Inl NoMessageFoundErr"
    using repeated_id_lost [of b 0 m0 1 m1 "\<lparr>m_id = 0, m_MessageId = replicate 32 2, m_Timestamp = 9\<rparr>"]
    by (auto simp: b_def m0_def m1_def)
  moreover have "rb_buff b ! 1 = Some m1" by (simp add: b_def)
  ultimately show ?thesis by blast
qed

end
