(* ===== verification/Message_Parts.thy ===== *)
theory Message_Parts
  imports Go_Prelude
begin

text \<open>
  The wire format of the parts of an end-to-end message (\<open>e2e/parse/messagePart.go\<close>,
  \<open>firstMessagePart.go\<close>) and the splitting of a payload (\<open>partition.go\<close>). The fields of a part are
  slices of one byte array; writing a field is writing the array at the field's offset (\<open>copy_at\<close>).
  In Go a slice can be extended up to the end of the array it was cut from: \<open>Contents\<close> is
  therefore kept together with the bytes up to the end of the array (\<open>mp_ContentsCap\<close>), on which
  \<open>getSizedContents\<close> and the writing of the contents work. Arrays have no spare capacity.
\<close>

section \<open>Parts\<close>

definition idLen :: nat where "idLen = 4"
definition partLen :: nat where "partLen = 1"
definition lenLen :: nat where "lenLen = 2"
definition partVerLen :: nat where "partVerLen = 1"
definition headerLen :: nat where "headerLen = idLen + partLen + lenLen + partVerLen"
definition messagePartCurrentVersion :: byte where "messagePartCurrentVersion = 0"

record messagePart =
  mp_Data :: bytes
  mp_Id :: bytes
  mp_Part :: bytes
  mp_Len :: bytes
  mp_Contents :: bytes
  mp_ContentsCap :: bytes
  mp_Version :: bytes

definition empty_part :: messagePart where
  "empty_part = \<lparr>mp_Data = [], mp_Id = [], mp_Part = [], mp_Len = [], mp_Contents = [],
                 mp_ContentsCap = [], mp_Version = []\<rparr>"

definition messagePartFromBytesVer0 :: "bytes \<Rightarrow> fault + messagePart" where
  "messagePartFromBytesVer0 data =
     res_bind (slice data 0 idLen) (\<lambda>Id.
     res_bind (slice data idLen (idLen + partLen)) (\<lambda>Part.
     res_bind (slice data (idLen + partLen) (idLen + partLen + lenLen)) (\<lambda>Len.
     res_bind (islice data (int (idLen + partLen + lenLen)) (int (length data) - int partVerLen)) (\<lambda>Contents.
     res_bind (islice data (int (length data) - int partVerLen) (int (length data))) (\<lambda>Version.
     Inr \<lparr>mp_Data = data, mp_Id = Id, mp_Part = Part, mp_Len = Len, mp_Contents = Contents,
          mp_ContentsCap = drop (idLen + partLen + lenLen) data, mp_Version = Version\<rparr>)))))"

text \<open>\<open>data[len(data)-1]\<close> panics on an empty slice; an unknown version gives an empty part.\<close>

definition last_byte :: "bytes \<Rightarrow> fault + byte" where
  "last_byte data = (if data = [] then Inl IndexOutOfRange else Inr (last data))"

definition messagePartFromBytes :: "bytes \<Rightarrow> fault + messagePart" where
  "messagePartFromBytes data =
     res_bind (last_byte data) (\<lambda>version.
     if version = messagePartCurrentVersion then messagePartFromBytesVer0 data else Inr empty_part)"

definition newMessagePart :: "u32 \<Rightarrow> byte \<Rightarrow> bytes \<Rightarrow> nat \<Rightarrow> fault + messagePart" where
  "newMessagePart mid part contents sz =
     (let data = replicate sz 0
      in res_bind (messagePartFromBytes data) (\<lambda>m.
         if length (mp_ContentsCap m) < length contents then Inl SliceOutOfRange
         else
           let d1 = copy_at data 0 (put_be32 mid);
               d2 = copy_at d1 idLen [part];
               d3 = copy_at d2 (idLen + partLen) (put_be16 (word_of_nat (length contents)));
               d4 = copy_at d3 (idLen + partLen + lenLen) contents;
               d5 = copy_at d4 (length data - partVerLen) [messagePartCurrentVersion]
           in messagePartFromBytesVer0 d5))"

definition mp_getID :: "messagePart \<Rightarrow> fault + u32" where
  "mp_getID m = get_be 4 (mp_Id m)"

definition mp_getPart :: "messagePart \<Rightarrow> fault + byte" where
  "mp_getPart m = index (mp_Part m) 0"

definition mp_getContents :: "messagePart \<Rightarrow> bytes" where
  "mp_getContents m = mp_Contents m"

definition mp_getContentsLength :: "messagePart \<Rightarrow> fault + nat" where
  "mp_getContentsLength m = res_bind (get_be 2 (mp_Len m)) (\<lambda>(w :: u16). Inr (unat w))"

definition mp_getSizedContents :: "messagePart \<Rightarrow> fault + bytes" where
  "mp_getSizedContents m = res_bind (mp_getContentsLength m) (\<lambda>n. slice (mp_ContentsCap m) 0 n)"

section \<open>First parts\<close>

definition numPartsLen :: nat where "numPartsLen = 1"
definition typeLen :: nat where "typeLen = 4"
definition timestampLen :: nat where "timestampLen = 8"
definition firstPartVerLen :: nat where "firstPartVerLen = 1"
definition firstHeaderLen :: nat where
  "firstHeaderLen = headerLen + numPartsLen + typeLen + timestampLen + firstPartVerLen"
definition firstMessagePartCurrentVersion :: byte where "firstMessagePartCurrentVersion = 0"

record firstMessagePart = messagePart +
  fmp_NumParts :: bytes
  fmp_Type :: bytes
  fmp_Timestamp :: bytes

definition empty_first_part :: firstMessagePart where
  "empty_first_part = \<lparr>mp_Data = [], mp_Id = [], mp_Part = [], mp_Len = [], mp_Contents = [],
     mp_ContentsCap = [], mp_Version = [], fmp_NumParts = [], fmp_Type = [], fmp_Timestamp = []\<rparr>"

definition firstMessagePartFromBytesVer0 :: "bytes \<Rightarrow> fault + firstMessagePart" where
  "firstMessagePartFromBytesVer0 data =
     (let a = idLen + partLen + lenLen; b = a + numPartsLen; c = b + typeLen; d = c + timestampLen
      in res_bind (slice data 0 idLen) (\<lambda>Id.
         res_bind (slice data idLen (idLen + partLen)) (\<lambda>Part.
         res_bind (slice data (idLen + partLen) a) (\<lambda>Len.
         res_bind (islice data (int d) (int (length data) - int firstPartVerLen - 1)) (\<lambda>Contents.
         res_bind (slice data a b) (\<lambda>NumParts.
         res_bind (slice data b c) (\<lambda>Type.
         res_bind (slice data c d) (\<lambda>Timestamp.
         res_bind (islice data (int (length data) - int firstPartVerLen) (int (length data))) (\<lambda>Version.
         Inr \<lparr>mp_Data = data, mp_Id = Id, mp_Part = Part, mp_Len = Len, mp_Contents = Contents,
              mp_ContentsCap = drop d data, mp_Version = Version, fmp_NumParts = NumParts,
              fmp_Type = Type, fmp_Timestamp = Timestamp\<rparr>)))))))))"

definition firstMessagePartFromBytes :: "bytes \<Rightarrow> fault + firstMessagePart" where
  "firstMessagePartFromBytes data =
     res_bind (last_byte data) (\<lambda>version.
     if version = firstMessagePartCurrentVersion then firstMessagePartFromBytesVer0 data
     else Inr empty_first_part)"

definition newFirstMessagePart ::
  "u32 \<Rightarrow> u32 \<Rightarrow> byte \<Rightarrow> int \<Rightarrow> bytes \<Rightarrow> nat \<Rightarrow> fault + firstMessagePart" where
  "newFirstMessagePart mt mid numParts timestamp contents sz =
     (let data = replicate sz 0;
          a = idLen + partLen + lenLen; b = a + numPartsLen; c = b + typeLen; d = c + timestampLen
      in res_bind (firstMessagePartFromBytes data) (\<lambda>m.
         if length (mp_ContentsCap m) < length contents then Inl SliceOutOfRange
         else
           let d1 = copy_at data b (put_be32 mt);
               d2 = copy_at d1 0 (put_be32 mid);
               d3 = copy_at d2 idLen [0];
               d4 = copy_at d3 a [numParts];
               d5 = copy_at d4 c (put_be64 (word_of_int timestamp));
               d6 = copy_at d5 (idLen + partLen) (put_be16 (word_of_nat (length contents)));
               d7 = copy_at d6 d contents;
               d8 = copy_at d7 (length data - firstPartVerLen) [firstMessagePartCurrentVersion]
           in firstMessagePartFromBytesVer0 d8))"

definition fmp_getType :: "firstMessagePart \<Rightarrow> fault + u32" where
  "fmp_getType m = get_be 4 (fmp_Type m)"

definition fmp_getNumParts :: "firstMessagePart \<Rightarrow> fault + byte" where
  "fmp_getNumParts m = index (fmp_NumParts m) 0"

definition fmp_getTimestamp :: "firstMessagePart \<Rightarrow> fault + int" where
  "fmp_getTimestamp m = res_bind (get_be 8 (fmp_Timestamp m)) (\<lambda>(w :: u64). Inr (sint w))"

definition fmp_getVersion :: "firstMessagePart \<Rightarrow> fault + byte" where
  "fmp_getVersion m = index (mp_Version m) 0"

section \<open>Splitting a payload\<close>

definition MaxMessageParts :: nat where "MaxMessageParts = 255"

definition splitPayload :: "bytes \<Rightarrow> int \<Rightarrow> fault + (bytes \<times> bytes)" where
  "splitPayload payload n =
     (if int (length payload) < n then Inr (payload, payload)
      else if n < 0 then Inl SliceOutOfRange
      else Inr (take (nat n) payload, drop (nat n) payload))"

definition isFirst :: "bytes \<Rightarrow> fault + bool" where
  "isFirst payload = res_bind (index payload idLen) (\<lambda>b. Inr (b = 0))"

text \<open>The loop of \<open>Partition\<close> over the parts after the first: \<open>n\<close> parts from number \<open>i\<close> on.\<close>

fun later_parts :: "u32 \<Rightarrow> nat \<Rightarrow> nat \<Rightarrow> nat \<Rightarrow> nat \<Rightarrow> bytes \<Rightarrow> fault + bytes list" where
  "later_parts mid sz partContentsSize i 0 payload = Inr []"
| "later_parts mid sz partContentsSize i (Suc n) payload =
     res_bind (splitPayload payload (int partContentsSize)) (\<lambda>(sub, payload').
     res_bind (newMessagePart mid (word_of_nat i) sub sz) (\<lambda>m.
     res_bind (later_parts mid sz partContentsSize (i + 1) n payload') (\<lambda>rest.
     Inr (mp_Data m # rest))))"

section \<open>Lemmas\<close>

lemmas part_lens = idLen_def partLen_def lenLen_def partVerLen_def headerLen_def numPartsLen_def
  typeLen_def timestampLen_def firstPartVerLen_def firstHeaderLen_def

lemma copy_at_middle: "length ys = length src \<Longrightarrow> i = length xs \<Longrightarrow> copy_at (xs @ ys @ zs) i src = xs @ src @ zs"
  by (simp add: copy_at_def)

text \<open>The bytes of a part: identifier, number, length, contents, zero padding, version.\<close>

definition part_bytes :: "u32 \<Rightarrow> byte \<Rightarrow> bytes \<Rightarrow> nat \<Rightarrow> bytes" where
  "part_bytes mid part contents sz =
     put_be32 mid @ [part] @ put_be16 (word_of_nat (length contents)) @ contents @
     replicate (sz - headerLen - length contents) 0 @ [0]"

definition first_part_bytes :: "u32 \<Rightarrow> u32 \<Rightarrow> byte \<Rightarrow> int \<Rightarrow> bytes \<Rightarrow> nat \<Rightarrow> bytes" where
  "first_part_bytes mt mid numParts timestamp contents sz =
     put_be32 mid @ [0] @ put_be16 (word_of_nat (length contents)) @ [numParts] @ put_be32 mt @
     put_be64 (word_of_int timestamp) @ contents @
     replicate (sz - firstHeaderLen - length contents) 0 @ [0, 0]"

lemma slice_at: "length xs = i \<Longrightarrow> j = i + length ys \<Longrightarrow> slice (xs @ ys @ zs) i j = Inr ys"
  by (simp add: slice_def)

lemma islice_nat:
  "b \<le> n \<Longrightarrow> islice xs (int a) (int n - int b) = slice xs a (n - b)"
  "b \<le> n \<Longrightarrow> islice xs (int n - int b) (int c) = slice xs (n - b) c"
  by (simp_all add: islice_def nat_diff_distrib flip: of_nat_diff)

lemma ver0_eq:
  assumes "8 \<le> length d"
  shows "messagePartFromBytesVer0 d = Inr \<lparr>mp_Data = d, mp_Id = take 4 d, mp_Part = take 1 (drop 4 d),
      mp_Len = take 2 (drop 5 d), mp_Contents = take (length d - 8) (drop 7 d), mp_ContentsCap = drop 7 d,
      mp_Version = drop (length d - 1) d\<rparr>"
proof -
  have "islice d (int (idLen + partLen + lenLen)) (int (length d) - int partVerLen) = slice d 7 (length d - 1)"
    "islice d (int (length d) - int partVerLen) (int (length d)) = slice d (length d - 1) (length d)"
    using assms by (subst islice_nat; simp add: part_lens)+
  then show ?thesis
    unfolding messagePartFromBytesVer0_def using assms by (simp add: slice_def part_lens)
qed

lemma newMessagePart_data:
  assumes "headerLen + length contents \<le> sz"
  shows "\<exists>m. newMessagePart mid part contents sz = Inr m \<and> mp_Data m = part_bytes mid part contents sz"
proof -
  obtain r where sz: "sz = 8 + length contents + r" using assms by (auto simp: part_lens dest: le_Suc_ex)
  let ?z = "\<lambda>n. replicate n (0 :: byte)" and ?n = "length contents"
  let ?l = "put_be16 (word_of_nat ?n)"
  have data: "?z sz = ?z 4 @ ?z 1 @ ?z 2 @ ?z ?n @ ?z r @ ?z 1"
  proof -
    have "sz = 4 + (1 + (2 + (?n + (r + 1))))" using sz by simp
    then show ?thesis by (simp only: replicate_add)
  qed
  have nonempty: "?z sz \<noteq> []" "last (?z sz) = 0" by (simp_all add: sz)
  have c1: "copy_at (?z sz) 0 (put_be32 mid) = put_be32 mid @ ?z 1 @ ?z 2 @ ?z ?n @ ?z r @ ?z 1"
    unfolding data by (simp add: copy_at_def)
  have c2: "copy_at (put_be32 mid @ ?z 1 @ ?z 2 @ ?z ?n @ ?z r @ ?z 1) 4 [part] =
      put_be32 mid @ [part] @ ?z 2 @ ?z ?n @ ?z r @ ?z 1"
    by (rule copy_at_middle) simp_all
  have c3: "copy_at (put_be32 mid @ [part] @ ?z 2 @ ?z ?n @ ?z r @ ?z 1) 5 ?l =
      put_be32 mid @ [part] @ ?l @ ?z ?n @ ?z r @ ?z 1"
    using copy_at_middle [of "?z 2" ?l 5 "put_be32 mid @ [part]"] by simp
  have c4: "copy_at (put_be32 mid @ [part] @ ?l @ ?z ?n @ ?z r @ ?z 1) 7 contents =
      put_be32 mid @ [part] @ ?l @ contents @ ?z r @ ?z 1"
    using copy_at_middle [of "?z ?n" contents 7 "put_be32 mid @ [part] @ ?l"] by simp
  have c5: "copy_at (put_be32 mid @ [part] @ ?l @ contents @ ?z r @ ?z 1) (sz - 1) [0] =
      part_bytes mid part contents sz"
    using copy_at_middle [of "?z 1" "[0]" "sz - 1" "put_be32 mid @ [part] @ ?l @ contents @ ?z r" "[]"]
    by (simp add: part_bytes_def part_lens sz)
  have offs: "idLen = 4" "4 + partLen = 5" "5 + lenLen = 7" "length (?z sz) - partVerLen = sz - 1"
    by (simp_all add: part_lens)
  have built: "copy_at (copy_at (copy_at (copy_at (copy_at (?z sz) 0 (put_be32 mid)) idLen [part])
      (idLen + partLen) ?l) (idLen + partLen + lenLen) contents) (length (?z sz) - partVerLen)
      [messagePartCurrentVersion] = part_bytes mid part contents sz"
    unfolding offs messagePartCurrentVersion_def c1 c2 c3 c4 c5 ..
  obtain m0 where m0: "messagePartFromBytes (?z sz) = Inr m0" "\<not> length (mp_ContentsCap m0) < ?n"
    using ver0_eq [of "?z sz"] nonempty sz
    by (simp add: messagePartFromBytes_def last_byte_def messagePartCurrentVersion_def)
  have "length (part_bytes mid part contents sz) = sz" by (simp add: part_bytes_def part_lens sz)
  then have "8 \<le> length (part_bytes mid part contents sz)" using sz by simp
  from ver0_eq [OF this] show ?thesis
    unfolding newMessagePart_def Let_def m0(1) res_bind.simps if_not_P [OF m0(2)] built by simp
qed

lemma parse_part:
  assumes "headerLen + length contents \<le> sz" "length contents < 2 ^ 16"
  shows "\<exists>m. messagePartFromBytes (part_bytes mid part contents sz) = Inr m \<and> mp_getID m = Inr mid \<and>
    mp_getPart m = Inr part \<and> mp_getSizedContents m = Inr contents"
proof -
  let ?d = "part_bytes mid part contents sz" and ?l = "put_be16 (word_of_nat (length contents))"
  let ?r = "replicate (sz - headerLen - length contents) (0 :: byte) @ [0]"
  have len: "unat (word_of_nat (length contents) :: u16) = length contents"
    using assms(2) by (simp add: unat_of_nat)
  have ln: "8 \<le> length ?d" by (simp add: part_bytes_def)
  have f: "take 4 ?d = put_be32 mid" "take (Suc 0) (drop 4 ?d) = [part]" "take 2 (drop 5 ?d) = ?l" "drop 7 ?d = contents @ ?r"
    "?d \<noteq> []" "last ?d = 0"
    by (simp_all add: part_bytes_def)
  have "messagePartFromBytes ?d = Inr \<lparr>mp_Data = ?d, mp_Id = put_be32 mid, mp_Part = [part],
      mp_Len = ?l, mp_Contents = take (length ?d - 8) (contents @ ?r), mp_ContentsCap = contents @ ?r,
      mp_Version = drop (length ?d - 1) ?d\<rparr>"
    using ver0_eq [OF ln] by (simp add: messagePartFromBytes_def last_byte_def messagePartCurrentVersion_def f)
  then show ?thesis
    by (simp add: mp_getID_def mp_getPart_def mp_getSizedContents_def mp_getContentsLength_def len slice_def)
qed

lemma first_ver0_eq:
  assumes "22 \<le> length d"
  shows "firstMessagePartFromBytesVer0 d = Inr \<lparr>mp_Data = d, mp_Id = take 4 d, mp_Part = take 1 (drop 4 d),
      mp_Len = take 2 (drop 5 d), mp_Contents = take (length d - 22) (drop 20 d), mp_ContentsCap = drop 20 d,
      mp_Version = drop (length d - 1) d, fmp_NumParts = take 1 (drop 7 d), fmp_Type = take 4 (drop 8 d),
      fmp_Timestamp = take 8 (drop 12 d)\<rparr>"
proof -
  have "islice d (int (idLen + partLen + lenLen + numPartsLen + typeLen + timestampLen))
      (int (length d) - int firstPartVerLen - 1) = slice d 20 (length d - 2)"
    using assms islice_nat(1) [of 2 "length d" d 20] by (simp add: part_lens)
  moreover have "islice d (int (length d) - int firstPartVerLen) (int (length d)) = slice d (length d - 1) (length d)"
    using assms by (subst islice_nat; simp add: part_lens)
  ultimately show ?thesis
    unfolding firstMessagePartFromBytesVer0_def Let_def using assms by (simp add: slice_def part_lens)
qed

lemma newFirstMessagePart_data:
  assumes "firstHeaderLen + length contents \<le> sz"
  shows "\<exists>m. newFirstMessagePart mt mid np ts contents sz = Inr m \<and>
    mp_Data m = first_part_bytes mt mid np ts contents sz"
proof -
  obtain r where sz: "sz = 22 + length contents + r" using assms by (auto simp: part_lens dest: le_Suc_ex)
  let ?z = "\<lambda>n. replicate n (0 :: byte)" and ?n = "length contents"
  let ?l = "put_be16 (word_of_nat ?n)" and ?t = "put_be64 (word_of_int ts)"
  let ?e = "?z ?n @ ?z (r + 1) @ ?z 1" and ?i = "put_be32 mid" and ?m = "put_be32 mt"
  have data: "?z sz = ?z 4 @ ?z 1 @ ?z 2 @ ?z 1 @ ?z 4 @ ?z 8 @ ?e"
  proof -
    have "sz = 4 + (1 + (2 + (1 + (4 + (8 + (?n + ((r + 1) + 1)))))))" using sz by simp
    then show ?thesis by (simp only: replicate_add)
  qed
  have nonempty: "?z sz \<noteq> []" "last (?z sz) = 0" by (simp_all add: sz)
  have c1: "copy_at (?z sz) 8 ?m = ?z 4 @ ?z 1 @ ?z 2 @ ?z 1 @ ?m @ ?z 8 @ ?e"
    unfolding data using copy_at_middle [of "?z 4" ?m 8 "?z 4 @ ?z 1 @ ?z 2 @ ?z 1"] by simp
  have c2: "copy_at (?z 4 @ ?z 1 @ ?z 2 @ ?z 1 @ ?m @ ?z 8 @ ?e) 0 ?i = ?i @ ?z 1 @ ?z 2 @ ?z 1 @ ?m @ ?z 8 @ ?e"
    using copy_at_middle [of "?z 4" ?i 0 "[]"] by simp
  have c3: "copy_at (?i @ ?z 1 @ ?z 2 @ ?z 1 @ ?m @ ?z 8 @ ?e) 4 [0] = ?i @ [0] @ ?z 2 @ ?z 1 @ ?m @ ?z 8 @ ?e"
    by (rule copy_at_middle) simp_all
  have c4: "copy_at (?i @ [0] @ ?z 2 @ ?z 1 @ ?m @ ?z 8 @ ?e) 7 [np] = ?i @ [0] @ ?z 2 @ [np] @ ?m @ ?z 8 @ ?e"
    using copy_at_middle [of "?z 1" "[np]" 7 "?i @ [0] @ ?z 2"] by simp
  have c5: "copy_at (?i @ [0] @ ?z 2 @ [np] @ ?m @ ?z 8 @ ?e) 12 ?t = ?i @ [0] @ ?z 2 @ [np] @ ?m @ ?t @ ?e"
    using copy_at_middle [of "?z 8" ?t 12 "?i @ [0] @ ?z 2 @ [np] @ ?m"] by simp
  have c6: "copy_at (?i @ [0] @ ?z 2 @ [np] @ ?m @ ?t @ ?e) 5 ?l = ?i @ [0] @ ?l @ [np] @ ?m @ ?t @ ?e"
    using copy_at_middle [of "?z 2" ?l 5 "?i @ [0]"] by simp
  have c7: "copy_at (?i @ [0] @ ?l @ [np] @ ?m @ ?t @ ?e) 20 contents =
      ?i @ [0] @ ?l @ [np] @ ?m @ ?t @ contents @ ?z (r + 1) @ ?z 1"
    using copy_at_middle [of "?z ?n" contents 20 "?i @ [0] @ ?l @ [np] @ ?m @ ?t"] by simp
  have z2: "?z k @ [0, 0] = 0 # 0 # ?z k" for k by (induction k) simp_all
  have c8: "copy_at (?i @ [0] @ ?l @ [np] @ ?m @ ?t @ contents @ ?z (r + 1) @ ?z 1) (sz - 1) [0] =
      first_part_bytes mt mid np ts contents sz"
    using copy_at_middle [of "?z 1" "[0]" "sz - 1" "?i @ [0] @ ?l @ [np] @ ?m @ ?t @ contents @ ?z (r + 1)" "[]"]
    by (simp add: first_part_bytes_def part_lens sz replicate_append_same z2)
  have offs: "idLen = 4" "4 + partLen = 5" "5 + lenLen = 7" "7 + numPartsLen = 8" "8 + typeLen = 12"
      "12 + timestampLen = 20" "length (?z sz) - firstPartVerLen = sz - 1"
    by (simp_all add: part_lens)
  obtain m0 where m0: "firstMessagePartFromBytes (?z sz) = Inr m0" "\<not> length (mp_ContentsCap m0) < ?n"
    using first_ver0_eq [of "?z sz"] nonempty sz
    by (simp add: firstMessagePartFromBytes_def last_byte_def firstMessagePartCurrentVersion_def)
  have "22 \<le> length (first_part_bytes mt mid np ts contents sz)"
    by (simp add: first_part_bytes_def)
  from first_ver0_eq [OF this] show ?thesis
    unfolding newFirstMessagePart_def Let_def m0(1) res_bind.simps if_not_P [OF m0(2)] offs
      firstMessagePartCurrentVersion_def c1 c2 c3 c4 c5 c6 c7 c8 by simp
qed

lemma parse_first_part:
  assumes "firstHeaderLen + length contents \<le> sz" "length contents < 2 ^ 16" "in_int64 ts"
  shows "\<exists>m. firstMessagePartFromBytes (first_part_bytes mt mid np ts contents sz) = Inr m \<and>
    mp_getID (messagePart.truncate m) = Inr mid \<and> mp_getPart (messagePart.truncate m) = Inr 0 \<and>
    mp_getSizedContents (messagePart.truncate m) = Inr contents \<and> fmp_getType m = Inr mt \<and>
    fmp_getNumParts m = Inr np \<and> fmp_getTimestamp m = Inr ts"
proof -
  let ?d = "first_part_bytes mt mid np ts contents sz" and ?l = "put_be16 (word_of_nat (length contents))"
  let ?r = "replicate (sz - firstHeaderLen - length contents) (0 :: byte) @ [0, 0]"
  have len: "unat (word_of_nat (length contents) :: u16) = length contents"
    using assms(2) by (simp add: unat_of_nat)
  have ts: "sint (word_of_int ts :: u64) = ts"
    using assms(3) by (simp add: in_int64_def sint_sbintrunc' signed_take_bit_int_eq_self)
  have ln: "22 \<le> length ?d" by (simp add: first_part_bytes_def)
  have f: "take 4 ?d = put_be32 mid" "take (Suc 0) (drop 4 ?d) = [0]" "take 2 (drop 5 ?d) = ?l"
    "drop 20 ?d = contents @ ?r" "take (Suc 0) (drop 7 ?d) = [np]" "take 4 (drop 8 ?d) = put_be32 mt"
    "take 8 (drop 12 ?d) = put_be64 (word_of_int ts)" "?d \<noteq> []" "last ?d = 0"
    by (simp_all add: first_part_bytes_def)
  show ?thesis
    using first_ver0_eq [OF ln]
    by (simp add: firstMessagePartFromBytes_def last_byte_def firstMessagePartCurrentVersion_def f
        mp_getID_def mp_getPart_def mp_getSizedContents_def mp_getContentsLength_def len slice_def
        fmp_getType_def fmp_getNumParts_def fmp_getTimestamp_def ts messagePart.truncate_def)
qed

lemma isFirst_part: "isFirst (part_bytes mid part contents sz) = Inr (part = 0)"
proof -
  have "part_bytes mid part contents sz ! 4 = part" by (simp add: part_bytes_def nth_append)
  moreover have "4 < length (part_bytes mid part contents sz)" by (simp add: part_bytes_def)
  ultimately show ?thesis by (simp add: isFirst_def idLen_def)
qed

lemma isFirst_first: "isFirst (first_part_bytes mt mid np ts contents sz) = Inr True"
proof -
  have "first_part_bytes mt mid np ts contents sz ! 4 = 0" by (simp add: first_part_bytes_def nth_append)
  moreover have "4 < length (first_part_bytes mt mid np ts contents sz)" by (simp add: first_part_bytes_def)
  ultimately show ?thesis by (simp add: isFirst_def idLen_def)
qed

text \<open>\<open>n\<close> parts of at most \<open>k\<close> bytes are exactly what a payload needs.\<close>

definition needs_parts :: "nat \<Rightarrow> nat \<Rightarrow> bytes \<Rightarrow> bool" where
  "needs_parts k n payload = (length payload \<le> n * k \<and> n * k < length payload + k)"

lemma later_parts_chunks:
  assumes "headerLen + k \<le> sz"
  shows "needs_parts k n payload \<Longrightarrow>
    \<exists>cs. later_parts mid sz k i n payload = Inr (map2 (\<lambda>j c. part_bytes mid (word_of_nat j) c sz) [i..<i + n] cs) \<and>
      length cs = n \<and> concat cs = payload \<and> (\<forall>c \<in> set cs. length c \<le> k)"
proof (induction n arbitrary: i payload)
  case 0
  then show ?case by (auto simp: needs_parts_def intro: exI [of _ "[]"])
next
  case (Suc n)
  have nk: "length payload \<le> k + n * k" "n * k < length payload"
    using Suc.prems by (simp_all add: needs_parts_def)
  define sub where "sub = take k payload"
  define rest where "rest = (if length payload < k then payload else drop k payload)"
  have sp: "splitPayload payload (int k) = Inr (sub, rest)"
    by (auto simp: splitPayload_def sub_def rest_def)
  have "\<exists>cs. later_parts mid sz k (i + 1) n rest = Inr (map2 (\<lambda>j c. part_bytes mid (word_of_nat j) c sz) [i + 1..<i + 1 + n] cs) \<and>
      length cs = n \<and> concat cs = drop k payload \<and> (\<forall>c \<in> set cs. length c \<le> k)"
  proof (cases "length payload < k")
    case True
    with nk(2) have "n = 0" by (cases n) auto
    with True show ?thesis by (auto intro: exI [of _ "[]"])
  next
    case False
    with nk have "needs_parts k n (drop k payload)" by (simp add: needs_parts_def)
    from Suc.IH [OF this, of "i + 1"] False show ?thesis by (simp add: rest_def)
  qed
  then obtain cs where cs: "later_parts mid sz k (i + 1) n rest =
      Inr (map2 (\<lambda>j c. part_bytes mid (word_of_nat j) c sz) [i + 1..<i + 1 + n] cs)"
    "length cs = n" "concat cs = drop k payload" "\<forall>c \<in> set cs. length c \<le> k" by blast
  have "headerLen + length sub \<le> sz" using assms by (simp add: sub_def)
  from newMessagePart_data [OF this, of mid "word_of_nat i"] obtain m where
    m: "newMessagePart mid (word_of_nat i) sub sz = Inr m" "mp_Data m = part_bytes mid (word_of_nat i) sub sz" by blast
  have "later_parts mid sz k i (Suc n) payload =
      Inr (map2 (\<lambda>j c. part_bytes mid (word_of_nat j) c sz) [i..<i + Suc n] (sub # cs))"
    using sp m cs(1) by (simp add: upt_rec [of i])
  moreover have "concat (sub # cs) = payload" by (simp add: cs(3) sub_def)
  moreover have "\<forall>c \<in> set (sub # cs). length c \<le> k" using cs(4) by (simp add: sub_def)
  ultimately show ?case using cs(2) by (metis length_Cons)
qed

section \<open>Properties\<close>

text \<open>A part survives the wire. A part made from contents that fit its size is exactly that many
  bytes long; parsing the bytes gives back the message number, the part number and the contents, for
  first parts also the type, the number of parts and the sender's time, and \<open>isFirst\<close> tells the two
  kinds apart by the part number.\<close>

theorem message_part_roundtrip:
  assumes "headerLen + length contents \<le> sz" "length contents < 2 ^ 16"
    and "firstHeaderLen + length contents' \<le> sz" "length contents' < 2 ^ 16" "in_int64 ts"
  shows "(\<exists>m m'. newMessagePart mid part contents sz = Inr m \<and> length (mp_Data m) = sz \<and>
      isFirst (mp_Data m) = Inr (part = 0) \<and> messagePartFromBytes (mp_Data m) = Inr m' \<and>
      mp_getID m' = Inr mid \<and> mp_getPart m' = Inr part \<and> mp_getSizedContents m' = Inr contents) \<and>
    (\<exists>m m'. newFirstMessagePart mt mid np ts contents' sz = Inr m \<and> length (mp_Data m) = sz \<and>
      isFirst (mp_Data m) = Inr True \<and> firstMessagePartFromBytes (mp_Data m) = Inr m' \<and>
      mp_getID (messagePart.truncate m') = Inr mid \<and> mp_getPart (messagePart.truncate m') = Inr 0 \<and>
      mp_getSizedContents (messagePart.truncate m') = Inr contents' \<and> fmp_getType m' = Inr mt \<and>
      fmp_getNumParts m' = Inr np \<and> fmp_getTimestamp m' = Inr ts)"
proof (rule conjI)
  have "length (part_bytes mid part contents sz) = sz" using assms(1) by (simp add: part_bytes_def part_lens)
  with newMessagePart_data [OF assms(1), of mid part] parse_part [OF assms(1,2), of mid part]
  show "\<exists>m m'. newMessagePart mid part contents sz = Inr m \<and> length (mp_Data m) = sz \<and>
      isFirst (mp_Data m) = Inr (part = 0) \<and> messagePartFromBytes (mp_Data m) = Inr m' \<and>
      mp_getID m' = Inr mid \<and> mp_getPart m' = Inr part \<and> mp_getSizedContents m' = Inr contents"
    by (metis isFirst_part)
next
  have "length (first_part_bytes mt mid np ts contents' sz) = sz"
    using assms(3) by (simp add: first_part_bytes_def part_lens)
  with newFirstMessagePart_data [OF assms(3), of mt mid np ts] parse_first_part [OF assms(3-5), of mt mid np]
  show "\<exists>m m'. newFirstMessagePart mt mid np ts contents' sz = Inr m \<and> length (mp_Data m) = sz \<and>
      isFirst (mp_Data m) = Inr True \<and> firstMessagePartFromBytes (mp_Data m) = Inr m' \<and>
      mp_getID (messagePart.truncate m') = Inr mid \<and> mp_getPart (messagePart.truncate m') = Inr 0 \<and>
      mp_getSizedContents (messagePart.truncate m') = Inr contents' \<and> fmp_getType m' = Inr mt \<and>
      fmp_getNumParts m' = Inr np \<and> fmp_getTimestamp m' = Inr ts"
    by (metis isFirst_first)
qed

theorem message_part_roundtrip_witness:
  "\<exists>m m'. newMessagePart 7 3 [1, 2] 30 = Inr m \<and> length (mp_Data m) = 30 \<and>
     messagePartFromBytes (mp_Data m) = Inr m' \<and> mp_getSizedContents m' = Inr [1, 2]"
proof -
  have "headerLen + length [1, 2 :: byte] \<le> 30" "length [1, 2 :: byte] < 2 ^ 16" "in_int64 5"
    "firstHeaderLen + length [9 :: byte] \<le> 30" "length [9 :: byte] < 2 ^ 16"
    by (simp_all add: part_lens in_int64_def)
  from message_part_roundtrip [OF this(1,2,4,5,3), of 7 3]
  show ?thesis by blast
qed

end
