(* ===== verification/Multi_Part.thy ===== *)
theory Multi_Part
  imports Versioned_KV
begin

text \<open>
  Reassembly of messages that arrive in parts (\<open>e2e/parse/partition\<close>: \<open>part.go\<close>,
  \<open>multiPartMessage.go\<close>, \<open>store.go\<close>). A message in progress is an object that the store's two maps
  point to and that outlives its removal from one of them, so the store keeps a heap of message
  objects and the maps hold addresses. A part is \<open>None\<close> in memory when the slice is \<open>nil\<close>: it may
  still be in storage. A \<open>time.Time\<close> is its number of nanoseconds since 1970. The hash \<open>blake2b\<close>, the
  text form \<open>idString\<close> of an \<open>id.ID\<close> and \<open>e2e.NewMessageID\<close> belong to other repositories and are
  arguments.
\<close>

section \<open>One message\<close>

definition currentMultiPartMessageVersion :: u64 where "currentMultiPartMessageVersion = 0"

definition mpm_messageKey :: string where "mpm_messageKey = ''MultiPart''"

definition zero_time :: int where "zero_time = - 62135596800000000000"

record 'h multiPartMessage =
  mpm_Sender :: bytes
  mpm_MessageID :: u64
  mpm_NumParts :: byte
  mpm_PresentParts :: byte
  mpm_SenderTimestamp :: int
  mpm_StorageTimestamp :: int
  mpm_MessageType :: u32
  mpm_KeyResidue :: bytes
  mpm_parts :: "bytes option list"
  mpm_kv :: 'h

record receive_Message =
  rm_Payload :: bytes
  rm_MessageType :: u32
  rm_Sender :: bytes
  rm_Timestamp :: int
  rm_ID :: bytes

definition makeMultiPartMessagePartKey :: "byte \<Rightarrow> string" where
  "makeMultiPartMessagePartKey part = ''part:'' @ nat_dec (unat part)"

definition makeMultiPartMessagePrefix :: "u64 \<Rightarrow> string" where
  "makeMultiPartMessagePrefix messageID = ''MessageID:'' @ nat_dec (unat messageID)"

definition loadPart :: "('h, 'w) KV_ops \<Rightarrow> 'w \<Rightarrow> 'h \<Rightarrow> byte \<Rightarrow> kv_error + bytes" where
  "loadPart K w h partNum =
     (case KV_Get K h w (makeMultiPartMessagePartKey partNum) currentMultiPartMessageVersion of
        Inl err \<Rightarrow> Inl err
      | Inr obj \<Rightarrow> (case obj_Data obj of Raw b \<Rightarrow> Inr b | Json _ \<Rightarrow> Inl KVFailure))"

definition savePart :: "('h, 'w) KV_ops \<Rightarrow> 'w \<Rightarrow> 'h \<Rightarrow> byte \<Rightarrow> bytes \<Rightarrow> kv_error option \<times> 'w" where
  "savePart K w h partNum part =
     KV_Set K h w (makeMultiPartMessagePartKey partNum)
       \<lparr>obj_Version = currentMultiPartMessageVersion, obj_Timestamp = KV_Now K w, obj_Data = Raw part\<rparr>"

definition deletePart :: "('h, 'w) KV_ops \<Rightarrow> 'w \<Rightarrow> 'h \<Rightarrow> byte \<Rightarrow> kv_error option \<times> 'w" where
  "deletePart K w h partNum =
     KV_Delete K h w (makeMultiPartMessagePartKey partNum) currentMultiPartMessageVersion"

text \<open>The exported fields are what \<open>json.Marshal\<close> writes; the parts in memory are not.\<close>

definition mpm_json :: "'h multiPartMessage \<Rightarrow> json" where
  "mpm_json mpm =
     JObj [(''Sender'', JBytes (mpm_Sender mpm)), (''MessageID'', word_json (mpm_MessageID mpm)),
           (''NumParts'', word_json (mpm_NumParts mpm)), (''PresentParts'', word_json (mpm_PresentParts mpm)),
           (''SenderTimestamp'', JNum (mpm_SenderTimestamp mpm)),
           (''StorageTimestamp'', JNum (mpm_StorageTimestamp mpm)),
           (''MessageType'', word_json (mpm_MessageType mpm)), (''KeyResidue'', JBytes (mpm_KeyResidue mpm))]"

fun json_instant :: "json \<Rightarrow> int option" where
  "json_instant (JNum i) = Some i"
| "json_instant JNull = Some zero_time"
| "json_instant _ = None"

definition json_mpm :: "json \<Rightarrow> 'h \<Rightarrow> 'h multiPartMessage option" where
  "json_mpm j h =
     (case (json_bytes (json_field j ''Sender''), json_word (json_field j ''MessageID''),
            json_word (json_field j ''NumParts''), json_word (json_field j ''PresentParts''),
            json_instant (json_field j ''SenderTimestamp''), json_instant (json_field j ''StorageTimestamp''),
            json_word (json_field j ''MessageType''), json_bytes (json_field j ''KeyResidue'')) of
        (Some sender, Some mid, Some n, Some p, Some st, Some sto, Some mt, Some kr) \<Rightarrow>
          Some \<lparr>mpm_Sender = sender, mpm_MessageID = mid, mpm_NumParts = n, mpm_PresentParts = p,
                mpm_SenderTimestamp = st, mpm_StorageTimestamp = sto, mpm_MessageType = mt,
                mpm_KeyResidue = kr, mpm_parts = [], mpm_kv = h\<rparr>
      | _ \<Rightarrow> None)"

definition mpm_save :: "('h, 'w) KV_ops \<Rightarrow> 'w \<Rightarrow> 'h multiPartMessage \<Rightarrow> kv_error option \<times> 'w" where
  "mpm_save K w mpm =
     KV_Set K (mpm_kv mpm) w mpm_messageKey
       \<lparr>obj_Version = currentMultiPartMessageVersion, obj_Timestamp = KV_Now K w,
        obj_Data = Json (mpm_json mpm)\<rparr>"

definition must :: "kv_error option \<times> 'w \<Rightarrow> fault + 'w" where
  "must r = (case r of (None, w) \<Rightarrow> Inr w | (Some err, w) \<Rightarrow> Inl FatalPanic)"

definition loadOrCreateMultiPartMessage ::
  "('h, 'w) KV_ops \<Rightarrow> (bytes \<Rightarrow> string) \<Rightarrow> 'w \<Rightarrow> bytes \<Rightarrow> u64 \<Rightarrow> 'h \<Rightarrow> fault + ('h multiPartMessage \<times> 'w)" where
  "loadOrCreateMultiPartMessage K idString w sender messageID h =
     (case KV_Prefix K h (MakePartnerPrefix idString sender) of
        Inl err \<Rightarrow> Inl FatalPanic
      | Inr h1 \<Rightarrow>
     (case KV_Prefix K h1 (makeMultiPartMessagePrefix messageID) of
        Inl err \<Rightarrow> Inl FatalPanic
      | Inr h2 \<Rightarrow>
     (case KV_Get K h2 w mpm_messageKey currentMultiPartMessageVersion of
        Inl err \<Rightarrow>
          (if \<not> Exists err then
             let mpm = \<lparr>mpm_Sender = sender, mpm_MessageID = messageID, mpm_NumParts = 0,
                        mpm_PresentParts = 0, mpm_SenderTimestamp = zero_time,
                        mpm_StorageTimestamp = zero_time, mpm_MessageType = 0,
                        mpm_KeyResidue = [], mpm_parts = [], mpm_kv = h2\<rparr>
             in res_bind (must (mpm_save K w mpm)) (\<lambda>w'. Inr (mpm, w'))
           else Inl FatalPanic)
      | Inr obj \<Rightarrow>
          (case obj_Data obj of
             Raw _ \<Rightarrow> Inl FatalPanic
           | Json j \<Rightarrow> (case json_mpm j h2 of None \<Rightarrow> Inl FatalPanic | Some mpm \<Rightarrow> Inr (mpm, w))))))"

text \<open>\<open>append\<close> of \<open>nil\<close> slices up to a length.\<close>

definition extend_to :: "nat \<Rightarrow> 'a option list \<Rightarrow> 'a option list" where
  "extend_to n parts = parts @ replicate (n - length parts) None"

definition mpm_Add ::
  "('h, 'w) KV_ops \<Rightarrow> 'w \<Rightarrow> 'h multiPartMessage \<Rightarrow> byte \<Rightarrow> bytes \<Rightarrow> fault + ('h multiPartMessage \<times> 'w)" where
  "mpm_Add K w mpm partNumber part =
     (let parts = extend_to (unat partNumber + 1) (mpm_parts mpm);
          mpm' = mpm\<lparr>mpm_parts := parts[unat partNumber := Some part],
                     mpm_PresentParts := mpm_PresentParts mpm + 1\<rparr>
      in res_bind (must (savePart K w (mpm_kv mpm) partNumber part)) (\<lambda>w1.
         res_bind (must (mpm_save K w1 mpm')) (\<lambda>w2. Inr (mpm', w2))))"

definition mpm_AddFirst ::
  "('h, 'w) KV_ops \<Rightarrow> 'w \<Rightarrow> 'h multiPartMessage \<Rightarrow> u32 \<Rightarrow> byte \<Rightarrow> byte \<Rightarrow> int \<Rightarrow> int \<Rightarrow> bytes \<Rightarrow>
   fault + ('h multiPartMessage \<times> 'w)" where
  "mpm_AddFirst K w mpm mt partNumber numParts senderTimestamp storageTimestamp part =
     (let parts = extend_to (unat partNumber + 1) (mpm_parts mpm);
          mpm' = mpm\<lparr>mpm_NumParts := numParts, mpm_SenderTimestamp := senderTimestamp,
                     mpm_MessageType := mt, mpm_parts := parts[unat partNumber := Some part],
                     mpm_PresentParts := mpm_PresentParts mpm + 1,
                     mpm_StorageTimestamp := storageTimestamp\<rparr>
      in res_bind (must (savePart K w (mpm_kv mpm) partNumber part)) (\<lambda>w1.
         res_bind (must (mpm_save K w1 mpm')) (\<lambda>w2. Inr (mpm', w2))))"

text \<open>The loop of \<open>delete\<close>: parts that are not in memory are read from storage and deleted there. The
  result holds the total length.\<close>

fun mpm_load_parts ::
  "('h, 'w) KV_ops \<Rightarrow> 'h \<Rightarrow> nat list \<Rightarrow> bytes option list \<Rightarrow> nat \<Rightarrow> 'w \<Rightarrow>
   fault + (bytes option list \<times> nat \<times> 'w)" where
  "mpm_load_parts K h [] parts lenMsg w = Inr (parts, lenMsg, w)"
| "mpm_load_parts K h (i # is) parts lenMsg w =
     res_bind (index parts i) (\<lambda>p.
     case p of
       Some b \<Rightarrow> mpm_load_parts K h is parts (lenMsg + length b) w
     | None \<Rightarrow>
         (case loadPart K w h (word_of_nat i) of
            Inl err \<Rightarrow> Inl FatalPanic
          | Inr b \<Rightarrow>
              res_bind (must (deletePart K w h (word_of_nat i))) (\<lambda>w'.
              mpm_load_parts K h is (parts[i := Some b]) (lenMsg + length b) w')))"

definition mpm_delete ::
  "('h, 'w) KV_ops \<Rightarrow> 'w \<Rightarrow> 'h multiPartMessage \<Rightarrow> fault + (nat \<times> 'h multiPartMessage \<times> 'w)" where
  "mpm_delete K w mpm =
     res_bind (mpm_load_parts K (mpm_kv mpm) [0..<unat (mpm_NumParts mpm)] (mpm_parts mpm) 0 w)
       (\<lambda>(parts, lenMsg, w1).
     res_bind (must (KV_Delete K (mpm_kv mpm) w1 mpm_messageKey currentMultiPartMessageVersion)) (\<lambda>w2.
     Inr (lenMsg, mpm\<lparr>mpm_parts := parts\<rparr>, w2)))"

text \<open>The loop that copies the parts; a \<open>nil\<close> slice has length 0.\<close>

definition part_or_empty :: "bytes option \<Rightarrow> bytes" where
  "part_or_empty p = (case p of None \<Rightarrow> [] | Some b \<Rightarrow> b)"

fun copy_parts :: "bytes \<Rightarrow> nat \<Rightarrow> bytes list \<Rightarrow> fault + bytes" where
  "copy_parts buf off [] = Inr buf"
| "copy_parts buf off (p # ps) =
     (if length buf < off + length p then Inl SliceOutOfRange
      else copy_parts (copy_at buf off p) (off + length p) ps)"

definition mpm_IsComplete ::
  "('h, 'w) KV_ops \<Rightarrow> (bytes \<Rightarrow> u64 \<Rightarrow> bytes) \<Rightarrow> 'w \<Rightarrow> 'h multiPartMessage \<Rightarrow> bytes \<Rightarrow>
   fault + (receive_Message option \<times> 'h multiPartMessage \<times> 'w)" where
  "mpm_IsComplete K newMessageID w mpm relationshipFingerprint =
     (if mpm_NumParts mpm = 0 \<or> mpm_NumParts mpm \<noteq> mpm_PresentParts mpm then Inr (None, mpm, w)
      else
        let mpm1 = mpm\<lparr>mpm_parts := extend_to (unat (mpm_NumParts mpm)) (mpm_parts mpm)\<rparr>
        in res_bind (mpm_delete K w mpm1) (\<lambda>(lenMsg, mpm2, w').
           res_bind (copy_parts (replicate lenMsg 0) 0 (map part_or_empty (mpm_parts mpm2))) (\<lambda>reconstructed.
           let mid = (if relationshipFingerprint \<noteq> [] then newMessageID relationshipFingerprint (mpm_MessageID mpm2)
                      else replicate 32 0)
           in Inr (Some \<lparr>rm_Payload = reconstructed, rm_MessageType = mpm_MessageType mpm2,
                         rm_Sender = mpm_Sender mpm2, rm_Timestamp = mpm_SenderTimestamp mpm2,
                         rm_ID = mid\<rparr>, mpm2, w'))))"

section \<open>The store\<close>

record 'h PartitionStore =
  ps_multiParts :: "bytes \<rightharpoonup> nat"
  ps_activeParts :: "nat list"
  ps_heap :: "'h multiPartMessage list"
  ps_kv :: 'h

definition packagePrefix :: string where "packagePrefix = ''Partition''"
definition clearPartitionThreshold :: int where "clearPartitionThreshold = 24 * 60 * 60 * 1000000000"
definition activePartitions :: string where "activePartitions = ''activePartitions''"
definition activePartitionVersion :: u64 where "activePartitionVersion = 0"

definition getMultiPartID :: "(bytes \<Rightarrow> bytes) \<Rightarrow> bytes \<Rightarrow> u64 \<Rightarrow> bytes" where
  "getMultiPartID blake2b partner messageID =
     copy_at (replicate 16 0) 0 (blake2b (partner @ put_be64 messageID))"

definition ps_saveActiveParts :: "('h, 'w) KV_ops \<Rightarrow> 'w \<Rightarrow> 'h PartitionStore \<Rightarrow> fault + 'w" where
  "ps_saveActiveParts K w s =
     must (KV_Set K (ps_kv s) w activePartitions
       \<lparr>obj_Version = activePartitionVersion, obj_Timestamp = KV_Now K w,
        obj_Data = Json (JArr (map (\<lambda>r. mpm_json (ps_heap s ! r)) (ps_activeParts s)))\<rparr>)"

definition ps_load ::
  "('h, 'w) KV_ops \<Rightarrow> (bytes \<Rightarrow> string) \<Rightarrow> (bytes \<Rightarrow> bytes) \<Rightarrow> 'w \<Rightarrow> 'h PartitionStore \<Rightarrow> bytes \<Rightarrow> u64 \<Rightarrow>
   fault + (nat \<times> 'h PartitionStore \<times> 'w)" where
  "ps_load K idString blake2b w s partner messageID =
     (let mpID = getMultiPartID blake2b partner messageID
      in case ps_multiParts s mpID of
           Some r \<Rightarrow> Inr (r, s, w)
         | None \<Rightarrow>
             res_bind (loadOrCreateMultiPartMessage K idString w partner messageID (ps_kv s)) (\<lambda>(mpm, w').
             let r = length (ps_heap s)
             in Inr (r, s\<lparr>ps_heap := ps_heap s @ [mpm], ps_multiParts := (ps_multiParts s)(mpID \<mapsto> r)\<rparr>, w')))"

text \<open>What \<open>AddFirst\<close> and \<open>Add\<close> do with the outcome of \<open>IsComplete\<close> for the message at address \<open>r\<close>.\<close>

definition ps_finish ::
  "('h, 'w) KV_ops \<Rightarrow> (bytes \<Rightarrow> bytes) \<Rightarrow> 'w \<Rightarrow> 'h PartitionStore \<Rightarrow> nat \<Rightarrow> receive_Message option \<Rightarrow>
   fault + (receive_Message option \<times> bytes \<times> 'h PartitionStore \<times> 'w)" where
  "ps_finish K blake2b w s r msg =
     (case msg of
        None \<Rightarrow>
          let s' = s\<lparr>ps_activeParts := List.insert r (ps_activeParts s)\<rparr>
          in res_bind (ps_saveActiveParts K w s') (\<lambda>w'. Inr (None, [], s', w'))
      | Some m \<Rightarrow>
          let mpm = ps_heap s ! r;
              mpID = getMultiPartID blake2b (mpm_Sender mpm) (mpm_MessageID mpm)
          in Inr (Some m, mpm_KeyResidue mpm, s\<lparr>ps_multiParts := (ps_multiParts s)(mpID := None)\<rparr>, w))"

definition ps_AddFirst ::
  "('h, 'w) KV_ops \<Rightarrow> (bytes \<Rightarrow> string) \<Rightarrow> (bytes \<Rightarrow> bytes) \<Rightarrow> (bytes \<Rightarrow> u64 \<Rightarrow> bytes) \<Rightarrow> 'w \<Rightarrow>
   'h PartitionStore \<Rightarrow> bytes \<Rightarrow> u32 \<Rightarrow> u64 \<Rightarrow> byte \<Rightarrow> byte \<Rightarrow> int \<Rightarrow> int \<Rightarrow> bytes \<Rightarrow> bytes \<Rightarrow> bytes \<Rightarrow>
   fault + (receive_Message option \<times> bytes \<times> 'h PartitionStore \<times> 'w)" where
  "ps_AddFirst K idString blake2b newMessageID w s partner mt messageID partNum numParts
     senderTimestamp storageTimestamp part relationshipFingerprint residue =
     res_bind (ps_load K idString blake2b w s partner messageID) (\<lambda>(r, s1, w1).
     res_bind (mpm_AddFirst K w1 (ps_heap s1 ! r) mt partNum numParts senderTimestamp storageTimestamp part)
       (\<lambda>(mpm, w2).
     res_bind (mpm_IsComplete K newMessageID w2 (mpm\<lparr>mpm_KeyResidue := residue\<rparr>) relationshipFingerprint)
       (\<lambda>(msg, mpm', w3).
     ps_finish K blake2b w3 (s1\<lparr>ps_heap := (ps_heap s1)[r := mpm']\<rparr>) r msg)))"

definition ps_Add ::
  "('h, 'w) KV_ops \<Rightarrow> (bytes \<Rightarrow> string) \<Rightarrow> (bytes \<Rightarrow> bytes) \<Rightarrow> (bytes \<Rightarrow> u64 \<Rightarrow> bytes) \<Rightarrow> 'w \<Rightarrow>
   'h PartitionStore \<Rightarrow> bytes \<Rightarrow> u64 \<Rightarrow> byte \<Rightarrow> bytes \<Rightarrow> bytes \<Rightarrow>
   fault + (receive_Message option \<times> bytes \<times> 'h PartitionStore \<times> 'w)" where
  "ps_Add K idString blake2b newMessageID w s partner messageID partNum part relationshipFingerprint =
     res_bind (ps_load K idString blake2b w s partner messageID) (\<lambda>(r, s1, w1).
     res_bind (mpm_Add K w1 (ps_heap s1 ! r) partNum part) (\<lambda>(mpm, w2).
     res_bind (mpm_IsComplete K newMessageID w2 mpm relationshipFingerprint) (\<lambda>(msg, mpm', w3).
     ps_finish K blake2b w3 (s1\<lparr>ps_heap := (ps_heap s1)[r := mpm']\<rparr>) r msg)))"

fun ps_load_active ::
  "('h, 'w) KV_ops \<Rightarrow> (bytes \<Rightarrow> string) \<Rightarrow> 'w \<Rightarrow> 'h PartitionStore \<Rightarrow> 'h multiPartMessage list \<Rightarrow>
   fault + ('h PartitionStore \<times> 'w)" where
  "ps_load_active K idString w s [] = Inr (s, w)"
| "ps_load_active K idString w s (a # as) =
     res_bind (loadOrCreateMultiPartMessage K idString w (mpm_Sender a) (mpm_MessageID a) (ps_kv s)) (\<lambda>(mpm, w').
     ps_load_active K idString w'
       (s\<lparr>ps_heap := ps_heap s @ [mpm], ps_activeParts := ps_activeParts s @ [length (ps_heap s)]\<rparr>) as)"

definition ps_loadActivePartitions ::
  "('h, 'w) KV_ops \<Rightarrow> (bytes \<Rightarrow> string) \<Rightarrow> 'w \<Rightarrow> 'h PartitionStore \<Rightarrow> fault + ('h PartitionStore \<times> 'w)" where
  "ps_loadActivePartitions K idString w s =
     (case KV_Get K (ps_kv s) w activePartitions activePartitionVersion of
        Inl err \<Rightarrow> Inr (s, w)
      | Inr obj \<Rightarrow>
          (case obj_Data obj of
             Raw _ \<Rightarrow> Inl FatalPanic
           | Json j \<Rightarrow>
               (case json_list (\<lambda>j. json_mpm j (ps_kv s)) j of
                  None \<Rightarrow> Inl FatalPanic
                | Some active \<Rightarrow> ps_load_active K idString w s active)))"

fun ps_prune_refs ::
  "('h, 'w) KV_ops \<Rightarrow> (bytes \<Rightarrow> bytes) \<Rightarrow> int \<Rightarrow> nat list \<Rightarrow> 'w \<Rightarrow> 'h PartitionStore \<Rightarrow>
   fault + ('h PartitionStore \<times> 'w)" where
  "ps_prune_refs K blake2b now [] w s = Inr (s, w)"
| "ps_prune_refs K blake2b now (r # rs) w s =
     (if now - mpm_StorageTimestamp (ps_heap s ! r) \<ge> clearPartitionThreshold then
        res_bind (mpm_delete K w (ps_heap s ! r)) (\<lambda>(_, mpm, w').
        ps_prune_refs K blake2b now rs w'
          (s\<lparr>ps_heap := (ps_heap s)[r := mpm],
             ps_multiParts := (ps_multiParts s)
               (getMultiPartID blake2b (mpm_Sender mpm) (mpm_MessageID mpm) := None)\<rparr>))
      else ps_prune_refs K blake2b now rs w s)"

definition ps_prune ::
  "('h, 'w) KV_ops \<Rightarrow> (bytes \<Rightarrow> bytes) \<Rightarrow> 'w \<Rightarrow> 'h PartitionStore \<Rightarrow> fault + ('h PartitionStore \<times> 'w)" where
  "ps_prune K blake2b w s = ps_prune_refs K blake2b (KV_Now K w) (ps_activeParts s) w s"

definition ps_NewOrLoad ::
  "('h, 'w) KV_ops \<Rightarrow> (bytes \<Rightarrow> string) \<Rightarrow> (bytes \<Rightarrow> bytes) \<Rightarrow> 'w \<Rightarrow> 'h \<Rightarrow> fault + ('h PartitionStore \<times> 'w)" where
  "ps_NewOrLoad K idString blake2b w h =
     (case KV_Prefix K h packagePrefix of
        Inl err \<Rightarrow> Inl FatalPanic
      | Inr h' \<Rightarrow>
          res_bind (ps_loadActivePartitions K idString w
            \<lparr>ps_multiParts = Map.empty, ps_activeParts = [], ps_heap = [], ps_kv = h'\<rparr>) (\<lambda>(s, w').
          ps_prune K blake2b w' s))"

section \<open>Specification\<close>

text \<open>A message of \<open>n\<close> parts \<open>P 0\<close>, ..., \<open>P (n - 1)\<close>: its header data and its storage handle.\<close>

record 'h transfer =
  tr_parts :: "nat \<Rightarrow> bytes"
  tr_num :: nat
  tr_type :: u32
  tr_time :: int
  tr_sender :: bytes
  tr_mid :: u64
  tr_handle :: 'h

text \<open>Receiving part \<open>i\<close>, as the store does it: add it, then ask whether the message is complete.\<close>

definition receive_part ::
  "('h, 'w) KV_ops \<Rightarrow> (bytes \<Rightarrow> u64 \<Rightarrow> bytes) \<Rightarrow> 'h transfer \<Rightarrow> bytes \<Rightarrow> bytes \<Rightarrow> int \<Rightarrow> 'w \<Rightarrow> 'h multiPartMessage \<Rightarrow> nat \<Rightarrow>
   fault + (receive_Message option \<times> 'h multiPartMessage \<times> 'w)" where
  "receive_part K newMessageID T fp residue now w mpm i =
     (if i = 0 then
        res_bind (mpm_AddFirst K w mpm (tr_type T) 0 (word_of_nat (tr_num T)) (tr_time T) now (tr_parts T 0)) (\<lambda>(mpm', w').
        mpm_IsComplete K newMessageID w' (mpm'\<lparr>mpm_KeyResidue := residue\<rparr>) fp)
      else
        res_bind (mpm_Add K w mpm (word_of_nat i) (tr_parts T i)) (\<lambda>(mpm', w').
        mpm_IsComplete K newMessageID w' mpm' fp))"

text \<open>The parts in \<open>S\<close> have been received: all of them are in storage, and what is in memory are some of
  them.\<close>

definition mpm_inv :: "('h, 'w) KV_ops \<Rightarrow> 'h transfer \<Rightarrow> nat set \<Rightarrow> 'w \<Rightarrow> 'h multiPartMessage \<Rightarrow> bool" where
  "mpm_inv K T S w mpm =
     (1 \<le> tr_num T \<and> tr_num T \<le> 255 \<and> S \<subseteq> {..<tr_num T} \<and>
      mpm_kv mpm = tr_handle T \<and> mpm_Sender mpm = tr_sender T \<and> mpm_MessageID mpm = tr_mid T \<and>
      mpm_PresentParts mpm = word_of_nat (card S) \<and>
      mpm_NumParts mpm = (if 0 \<in> S then word_of_nat (tr_num T) else 0) \<and>
      (0 \<in> S \<longrightarrow> mpm_MessageType mpm = tr_type T \<and> mpm_SenderTimestamp mpm = tr_time T) \<and>
      length (mpm_parts mpm) \<le> tr_num T \<and>
      (\<forall>i \<in> S. loadPart K w (tr_handle T) (word_of_nat i) = Inr (tr_parts T i)) \<and>
      (\<forall>i < length (mpm_parts mpm). \<forall>x. mpm_parts mpm ! i = Some x \<longrightarrow> i \<in> S \<and> x = tr_parts T i))"

text \<open>The object in storage describes the message in memory, but for the residue of the keys, which is
  set after the first part was saved.\<close>

definition mpm_stored :: "('h, 'w) KV_ops \<Rightarrow> 'w \<Rightarrow> 'h multiPartMessage \<Rightarrow> bool" where
  "mpm_stored K w mpm =
     (\<exists>obj kr. KV_Get K (mpm_kv mpm) w mpm_messageKey currentMultiPartMessageVersion = Inr obj \<and>
        obj_Data obj = Json (mpm_json (mpm\<lparr>mpm_KeyResidue := kr\<rparr>)))"

text \<open>Receiving the parts of a message through the store, in a given order.\<close>

definition ps_receive ::
  "('h, 'w) KV_ops \<Rightarrow> (bytes \<Rightarrow> string) \<Rightarrow> (bytes \<Rightarrow> bytes) \<Rightarrow> (bytes \<Rightarrow> u64 \<Rightarrow> bytes) \<Rightarrow> 'h transfer \<Rightarrow> bytes \<Rightarrow> bytes \<Rightarrow> int \<Rightarrow>
   'w \<Rightarrow> 'h PartitionStore \<Rightarrow> nat \<Rightarrow> fault + (receive_Message option \<times> bytes \<times> 'h PartitionStore \<times> 'w)" where
  "ps_receive K idString blake2b newMessageID T fp residue now w s i =
     (if i = 0 then
        ps_AddFirst K idString blake2b newMessageID w s (tr_sender T) (tr_type T) (tr_mid T) 0
          (word_of_nat (tr_num T)) (tr_time T) now (tr_parts T 0) fp residue
      else
        ps_Add K idString blake2b newMessageID w s (tr_sender T) (tr_mid T) (word_of_nat i) (tr_parts T i) fp)"

fun ps_receive_all ::
  "('h, 'w) KV_ops \<Rightarrow> (bytes \<Rightarrow> string) \<Rightarrow> (bytes \<Rightarrow> bytes) \<Rightarrow> (bytes \<Rightarrow> u64 \<Rightarrow> bytes) \<Rightarrow> 'h transfer \<Rightarrow> bytes \<Rightarrow> bytes \<Rightarrow> int \<Rightarrow>
   'w \<Rightarrow> 'h PartitionStore \<Rightarrow> nat list \<Rightarrow>
   fault + ((receive_Message option \<times> bytes) list \<times> 'h PartitionStore \<times> 'w)" where
  "ps_receive_all K idString blake2b newMessageID T fp residue now w s [] = Inr ([], s, w)"
| "ps_receive_all K idString blake2b newMessageID T fp residue now w s (i # is) =
     res_bind (ps_receive K idString blake2b newMessageID T fp residue now w s i) (\<lambda>(m, kr, s1, w1).
     res_bind (ps_receive_all K idString blake2b newMessageID T fp residue now w1 s1 is) (\<lambda>(ms, s2, w2).
     Inr ((m, kr) # ms, s2, w2)))"

text \<open>The store holds the parts in \<open>S\<close> of the message: it has not seen the message, or the message is in
  memory.\<close>

definition ps_holds ::
  "('h, 'w) KV_ops \<Rightarrow> (bytes \<Rightarrow> bytes) \<Rightarrow> 'h transfer \<Rightarrow> bytes \<Rightarrow> nat set \<Rightarrow> 'w \<Rightarrow> 'h PartitionStore \<Rightarrow> bool" where
  "ps_holds K blake2b T residue S w s =
     (1 \<le> tr_num T \<and> tr_num T \<le> 255 \<and>
      (case ps_multiParts s (getMultiPartID blake2b (tr_sender T) (tr_mid T)) of
         None \<Rightarrow> S = {} \<and>
           KV_Get K (tr_handle T) w mpm_messageKey currentMultiPartMessageVersion = Inl KeyNotFound
       | Some r \<Rightarrow> r < length (ps_heap s) \<and> mpm_inv K T S w (ps_heap s ! r) \<and>
           (0 \<in> S \<longrightarrow> mpm_KeyResidue (ps_heap s ! r) = residue)))"

definition transfer_handles ::
  "('h, 'w) KV_ops \<Rightarrow> (bytes \<Rightarrow> string) \<Rightarrow> 'h transfer \<Rightarrow> 'h \<Rightarrow> bool" where
  "transfer_handles K idString T h =
     (write_apart K h (tr_handle T) \<and>
      (\<exists>h1. KV_Prefix K h (MakePartnerPrefix idString (tr_sender T)) = Inr h1 \<and>
        KV_Prefix K h1 (makeMultiPartMessagePrefix (tr_mid T)) = Inr (tr_handle T)))"

definition whole_message :: "'h transfer \<Rightarrow> receive_Message \<Rightarrow> bool" where
  "whole_message T m =
     (rm_Payload m = concat (map (tr_parts T) [0..<tr_num T]) \<and> rm_MessageType m = tr_type T \<and>
      rm_Sender m = tr_sender T \<and> rm_Timestamp m = tr_time T)"

section \<open>Lemmas\<close>

lemma part_key_inj [simp]: "makeMultiPartMessagePartKey a = makeMultiPartMessagePartKey b \<longleftrightarrow> a = b"
  by (simp add: makeMultiPartMessagePartKey_def inj_nat_dec word_unat_eq_iff)

lemma part_key_not_message [simp]:
  "makeMultiPartMessagePartKey a \<noteq> mpm_messageKey" "mpm_messageKey \<noteq> makeMultiPartMessagePartKey a"
  by (simp_all add: makeMultiPartMessagePartKey_def mpm_messageKey_def)

lemma json_mpm_json:
  "json_mpm (mpm_json mpm) h = Some (mpm\<lparr>mpm_parts := [], mpm_kv := h\<rparr>)"
  by (simp add: json_mpm_def mpm_json_def)

lemma must_Inr: "must r = Inr w \<longleftrightarrow> r = (None, w)"
  by (auto simp: must_def split: prod.splits option.splits)

lemma of_nat_byte_inj: "a < 256 \<Longrightarrow> b < 256 \<Longrightarrow> (word_of_nat a :: byte) = word_of_nat b \<longleftrightarrow> a = b"
  by (auto simp: word_unat_eq_iff unat_of_nat)

lemma copy_parts_concat:
  "length (concat ps) \<le> length rest \<Longrightarrow>
   copy_parts (front @ rest) (length front) ps = Inr (front @ concat ps @ drop (length (concat ps)) rest)"
proof (induction ps arbitrary: front rest)
  case (Cons p ps)
  have "copy_at (front @ rest) (length front) p = (front @ p) @ drop (length p) rest"
    using Cons.prems by (simp add: copy_at_def)
  with Cons.IH [of "drop (length p) rest" "front @ p"] Cons.prems show ?case by (simp add: add.commute)
qed simp

lemma copy_parts_all: "copy_parts (replicate (length (concat ps)) 0) 0 ps = Inr (concat ps)"
  using copy_parts_concat [of ps "replicate (length (concat ps)) 0" "[]"] by simp

context versioned_kv
begin

lemma load_parts_all:
  assumes "deletes_succeed K"
  shows "distinct is \<Longrightarrow> \<forall>i \<in> set is. i < length parts \<and> i < 256 \<and>
      (parts ! i = Some (P i) \<or> parts ! i = None \<and> loadPart K w h (word_of_nat i) = Inr (P i)) \<Longrightarrow>
    \<exists>parts' w'. mpm_load_parts K h is parts l w = Inr (parts', l + length (concat (map P is)), w') \<and>
      length parts' = length parts \<and> (\<forall>i \<in> set is. parts' ! i = Some (P i)) \<and>
      (\<forall>i. i \<notin> set is \<longrightarrow> parts' ! i = parts ! i)"
proof (induction "is" arbitrary: parts l w)
  case (Cons i "is")
  have i: "i < length parts" "i < 256" "i \<notin> set is" using Cons.prems by simp_all
  consider (mem) "parts ! i = Some (P i)" | (disk) "parts ! i = None" "loadPart K w h (word_of_nat i) = Inr (P i)"
    using Cons.prems(2) by auto
  then show ?case
  proof cases
    case mem
    with Cons.IH [of parts w "l + length (P i)"] Cons.prems i show ?thesis
      by (auto simp: add.assoc)
  next
    case disk
    obtain w1 where w1: "deletePart K w h (word_of_nat i) = (None, w1)"
      using assms by (metis deletes_succeed_def deletePart_def prod.collapse)
    have keep: "loadPart K w1 h (word_of_nat j) = loadPart K w h (word_of_nat j)" if "j \<in> set is" for j
    proof -
      have "j \<noteq> i" "j < 256" using that Cons.prems by auto
      then show ?thesis
        using get_delete_other [OF w1 [unfolded deletePart_def], of "makeMultiPartMessagePartKey (word_of_nat j)"
            currentMultiPartMessageVersion] i(2)
        by (simp add: loadPart_def of_nat_byte_inj)
    qed
    have "\<forall>j \<in> set is. j < length (parts[i := Some (P i)]) \<and> j < 256 \<and>
        (parts[i := Some (P i)] ! j = Some (P j) \<or>
         parts[i := Some (P i)] ! j = None \<and> loadPart K w1 h (word_of_nat j) = Inr (P j))"
      using Cons.prems(2) i(3) keep by (auto simp: nth_list_update)
    from Cons.IH [OF _ this, of "l + length (P i)"] Cons.prems(1) obtain parts' w' where
      "mpm_load_parts K h is (parts[i := Some (P i)]) (l + length (P i)) w1 =
        Inr (parts', l + length (P i) + length (concat (map P is)), w')"
      "length parts' = length parts" "\<forall>i \<in> set is. parts' ! i = Some (P i)"
      "\<forall>j. j \<notin> set is \<longrightarrow> parts' ! j = parts[i := Some (P i)] ! j" by auto
    with disk i w1 show ?thesis by (auto simp: must_def add.assoc nth_list_update)
  qed
qed simp

lemma isComplete_all:
  assumes "deletes_succeed K" "mpm_inv K T {..<tr_num T} w mpm"
  shows "\<exists>m mpm' w'. mpm_IsComplete K newMessageID w mpm fp = Inr (Some m, mpm', w') \<and>
    rm_Payload m = concat (map (tr_parts T) [0..<tr_num T]) \<and> rm_MessageType m = tr_type T \<and>
    rm_Sender m = tr_sender T \<and> rm_Timestamp m = tr_time T \<and> mpm_KeyResidue mpm' = mpm_KeyResidue mpm \<and>
    mpm_Sender mpm' = tr_sender T \<and> mpm_MessageID mpm' = tr_mid T"
proof -
  let ?n = "tr_num T" and ?P = "tr_parts T"
  have inv: "1 \<le> ?n" "?n \<le> 255" "mpm_kv mpm = tr_handle T" "mpm_Sender mpm = tr_sender T"
    "mpm_PresentParts mpm = word_of_nat ?n" "mpm_NumParts mpm = word_of_nat ?n"
    "mpm_MessageType mpm = tr_type T" "mpm_SenderTimestamp mpm = tr_time T" "length (mpm_parts mpm) \<le> ?n"
    "\<And>i. i < ?n \<Longrightarrow> loadPart K w (tr_handle T) (word_of_nat i) = Inr (?P i)"
    "\<And>i x. i < length (mpm_parts mpm) \<Longrightarrow> mpm_parts mpm ! i = Some x \<Longrightarrow> x = ?P i" "mpm_MessageID mpm = tr_mid T"
    using assms(2) by (auto simp: mpm_inv_def)
  have n: "unat (word_of_nat ?n :: byte) = ?n" "(word_of_nat ?n :: byte) \<noteq> 0"
    using inv(1,2) by (auto simp: unat_of_nat word_unat_eq_iff)
  define ps where "ps = extend_to ?n (mpm_parts mpm)"
  have len: "length ps = ?n" using inv(9) by (simp add: ps_def extend_to_def)
  have "ps ! i = Some (?P i) \<or> ps ! i = None" if "i < ?n" for i
    using inv(11) [of i] that by (cases "mpm_parts mpm ! i") (auto simp: ps_def extend_to_def nth_append)
  then have "\<forall>i \<in> set [0..<?n]. i < length ps \<and> i < 256 \<and>
      (ps ! i = Some (?P i) \<or> ps ! i = None \<and> loadPart K w (tr_handle T) (word_of_nat i) = Inr (?P i))"
    using inv(2,10) len by auto
  from load_parts_all [OF assms(1) _ this, of 0] obtain parts' w1 where
    lp: "mpm_load_parts K (tr_handle T) [0..<?n] ps 0 w = Inr (parts', length (concat (map ?P [0..<?n])), w1)"
    "length parts' = ?n" "\<forall>i < ?n. parts' ! i = Some (?P i)" by (auto simp: len)
  obtain w2 where w2: "KV_Delete K (tr_handle T) w1 mpm_messageKey currentMultiPartMessageVersion = (None, w2)"
    using assms(1) by (metis deletes_succeed_def prod.collapse)
  have "map part_or_empty parts' = map ?P [0..<?n]"
    by (rule nth_equalityI) (use lp in \<open>simp_all add: part_or_empty_def\<close>)
  with copy_parts_all [of "map ?P [0..<?n]"] lp(1) w2 inv n show ?thesis
    by (simp add: mpm_IsComplete_def mpm_delete_def Let_def ps_def [symmetric] must_def)
qed

lemma isComplete_some:
  assumes "mpm_inv K T S w mpm" "S \<noteq> {..<tr_num T}"
  shows "mpm_IsComplete K newMessageID w mpm fp = Inr (None, mpm, w)"
proof -
  have S: "S \<subseteq> {..<tr_num T}" "tr_num T \<le> 255" using assms(1) by (auto simp: mpm_inv_def)
  then have "card S < tr_num T" using assms(2) psubset_card_mono [of "{..<tr_num T}" S] by auto
  then have "(word_of_nat (tr_num T) :: byte) \<noteq> word_of_nat (card S)"
    using S(2) of_nat_byte_inj [of "tr_num T" "card S"] by auto
  with assms(1) show ?thesis by (simp add: mpm_IsComplete_def mpm_inv_def)
qed

lemma saved_part:
  assumes "savePart K w h i part = (None, w1)" "mpm_save K w1 mpm = (None, w2)" "mpm_kv mpm = h"
  shows "loadPart K w2 h j = (if j = i then Inr part else loadPart K w h j)" "mpm_stored K w2 mpm"
proof -
  note s1 = get_set_if [OF assms(1) [unfolded savePart_def]]
  note s2 = get_set_if [OF assms(2) [unfolded mpm_save_def]]
  show "loadPart K w2 h j = (if j = i then Inr part else loadPart K w h j)"
    using s1 s2 assms(3) by (simp add: loadPart_def)
  show "mpm_stored K w2 mpm"
    using s2 unfolding mpm_stored_def
    by (intro exI [of _ "\<lparr>obj_Version = currentMultiPartMessageVersion, obj_Timestamp = KV_Now K w1,
        obj_Data = Json (mpm_json mpm)\<rparr>"] exI [of _ "mpm_KeyResidue mpm"]) simp
qed

lemma parts_after_add:
  assumes "length ps \<le> n" "i < n" "\<forall>k < length ps. \<forall>x. ps ! k = Some x \<longrightarrow> k \<in> S \<and> x = P k"
  shows "length ((extend_to (i + 1) ps)[i := Some (P i)]) \<le> n"
    "\<forall>k < length ((extend_to (i + 1) ps)[i := Some (P i)]). \<forall>x.
      (extend_to (i + 1) ps)[i := Some (P i)] ! k = Some x \<longrightarrow> k \<in> insert i S \<and> x = P k"
  using assms by (auto simp: extend_to_def nth_list_update nth_append split: if_splits)

lemma receive_new_part:
  assumes "sets_succeed K" "mpm_inv K T S w mpm" "i < tr_num T" "i \<notin> S"
  shows "\<exists>mpm' w'. mpm_inv K T (insert i S) w' mpm' \<and> mpm_stored K w' mpm' \<and>
    mpm_KeyResidue mpm' = (if i = 0 then residue else mpm_KeyResidue mpm) \<and>
    receive_part K newMessageID T fp residue now w mpm i = mpm_IsComplete K newMessageID w' mpm' fp"
proof -
  let ?n = "tr_num T" and ?P = "tr_parts T"
  let ?ps = "(extend_to (i + 1) (mpm_parts mpm))[i := Some (?P i)]"
  have inv: "1 \<le> ?n" "?n \<le> 255" "S \<subseteq> {..<?n}" "mpm_kv mpm = tr_handle T" "length (mpm_parts mpm) \<le> ?n"
    "\<forall>k < length (mpm_parts mpm). \<forall>x. mpm_parts mpm ! k = Some x \<longrightarrow> k \<in> S \<and> x = ?P k"
    "\<forall>k \<in> S. loadPart K w (tr_handle T) (word_of_nat k) = Inr (?P k)"
    "mpm_PresentParts mpm = word_of_nat (card S)"
    using assms(2) by (auto simp: mpm_inv_def)
  have i: "unat (word_of_nat i :: byte) = i" using assms(3) inv(2) by (simp add: unat_of_nat)
  note pa = parts_after_add [OF inv(5) assms(3) inv(6)]
  have card: "word_of_nat (card S) + 1 = (word_of_nat (card (insert i S)) :: byte)"
    using assms(4) finite_subset [OF inv(3)] by (simp add: add.commute)
  define mpm' where "mpm' = (if i = 0 then mpm\<lparr>mpm_NumParts := word_of_nat ?n, mpm_SenderTimestamp := tr_time T,
      mpm_MessageType := tr_type T, mpm_parts := ?ps, mpm_PresentParts := mpm_PresentParts mpm + 1,
      mpm_StorageTimestamp := now\<rparr>
    else mpm\<lparr>mpm_parts := ?ps, mpm_PresentParts := mpm_PresentParts mpm + 1\<rparr>)"
  have f: "mpm_kv mpm' = tr_handle T" "mpm_parts mpm' = ?ps" "mpm_PresentParts mpm' = word_of_nat (card (insert i S))"
    "mpm_Sender mpm' = mpm_Sender mpm" "mpm_MessageID mpm' = mpm_MessageID mpm"
    "mpm_NumParts mpm' = (if 0 \<in> insert i S then word_of_nat ?n else 0)"
    "0 \<in> insert i S \<longrightarrow> mpm_MessageType mpm' = tr_type T \<and> mpm_SenderTimestamp mpm' = tr_time T"
    using inv(4,8) card assms(2) by (auto simp: mpm'_def mpm_inv_def)
  obtain w1 where w1: "savePart K w (tr_handle T) (word_of_nat i) (?P i) = (None, w1)"
    using assms(1) by (metis sets_succeed_def savePart_def prod.collapse)
  obtain w2 where w2: "mpm_save K w1 mpm' = (None, w2)"
    using assms(1) by (metis sets_succeed_def mpm_save_def prod.collapse)
  note sp = saved_part [OF w1 w2 f(1)]
  have "\<forall>k \<in> insert i S. loadPart K w2 (tr_handle T) (word_of_nat k) = Inr (?P k)"
    using sp(1) inv(2,3,7) assms(3) by (auto simp: of_nat_byte_inj subset_iff)
  then have ok: "mpm_inv K T (insert i S) w2 mpm'"
    using inv(1-3) assms(2,3) f pa unfolding mpm_inv_def by auto
  show ?thesis
  proof (cases "i = 0")
    case True
    have "mpm_inv K T (insert i S) w2 (mpm'\<lparr>mpm_KeyResidue := residue\<rparr>)"
      using ok by (simp add: mpm_inv_def)
    moreover have "mpm_stored K w2 (mpm'\<lparr>mpm_KeyResidue := residue\<rparr>)"
      using sp(2) by (simp add: mpm_stored_def)
    moreover have "mpm_AddFirst K w mpm (tr_type T) 0 (word_of_nat ?n) (tr_time T) now (?P 0) = Inr (mpm', w2)"
      using w1 w2 True inv(4) by (simp add: mpm_AddFirst_def Let_def must_def mpm'_def)
    ultimately show ?thesis using True unfolding receive_part_def by fastforce
  next
    case False
    have "mpm_Add K w mpm (word_of_nat i) (?P i) = Inr (mpm', w2)"
      using w1 w2 False inv(4) i by (simp add: mpm_Add_def Let_def must_def mpm'_def)
    moreover have "mpm_KeyResidue mpm' = mpm_KeyResidue mpm" using False by (simp add: mpm'_def)
    ultimately show ?thesis using ok sp(2) False unfolding receive_part_def by fastforce
  qed
qed

end

lemma part_key_no_sep: "CHR 0x5C \<notin> set (makeMultiPartMessagePartKey i)"
  by (simp add: makeMultiPartMessagePartKey_def nondigit_notin_nat_dec is_digit_def)

lemma ps_receive_eq:
  "ps_receive K idString blake2b newMessageID T fp residue now w s i =
     res_bind (ps_load K idString blake2b w s (tr_sender T) (tr_mid T)) (\<lambda>(r, s1, w1).
     res_bind (receive_part K newMessageID T fp residue now w1 (ps_heap s1 ! r) i) (\<lambda>(msg, mpm', w3).
     ps_finish K blake2b w3 (s1\<lparr>ps_heap := (ps_heap s1)[r := mpm']\<rparr>) r msg))"
  by (simp add: ps_receive_def ps_AddFirst_def ps_Add_def receive_part_def res_bind_assoc split_def)

context versioned_kv
begin

lemma ps_load_holds:
  assumes "sets_succeed K" "transfer_handles K idString T (ps_kv s)" "ps_holds K blake2b T residue S w s"
  shows "\<exists>r s1 w1. ps_load K idString blake2b w s (tr_sender T) (tr_mid T) = Inr (r, s1, w1) \<and>
    ps_multiParts s1 (getMultiPartID blake2b (tr_sender T) (tr_mid T)) = Some r \<and>
    ps_kv s1 = ps_kv s \<and> ps_holds K blake2b T residue S w1 s1"
proof (cases "ps_multiParts s (getMultiPartID blake2b (tr_sender T) (tr_mid T))")
  case (Some r)
  with assms(3) show ?thesis by (simp add: ps_load_def)
next
  case None
  define m where "m = \<lparr>mpm_Sender = tr_sender T, mpm_MessageID = tr_mid T, mpm_NumParts = 0,
      mpm_PresentParts = 0, mpm_SenderTimestamp = zero_time, mpm_StorageTimestamp = zero_time,
      mpm_MessageType = 0, mpm_KeyResidue = [], mpm_parts = [], mpm_kv = tr_handle T\<rparr>"
  obtain w1 where w1: "mpm_save K w m = (None, w1)"
    using assms(1) by (metis sets_succeed_def mpm_save_def prod.collapse)
  have "loadOrCreateMultiPartMessage K idString w (tr_sender T) (tr_mid T) (ps_kv s) = Inr (m, w1)"
    using assms(2,3) None w1
    by (auto simp: loadOrCreateMultiPartMessage_def transfer_handles_def ps_holds_def Exists_def must_def m_def)
  moreover have "mpm_inv K T {} w1 m"
    using assms(3) by (simp add: mpm_inv_def m_def ps_holds_def)
  ultimately show ?thesis using None assms(3) by (simp add: ps_load_def ps_holds_def Let_def)
qed

lemma saveActiveParts_keeps:
  assumes "sets_succeed K" "write_apart K (ps_kv s) (tr_handle T)"
  shows "\<exists>w'. ps_saveActiveParts K w s = Inr w' \<and> (\<forall>mpm. mpm_inv K T S w mpm \<longrightarrow> mpm_inv K T S w' mpm)"
proof -
  obtain w' where w': "KV_Set K (ps_kv s) w activePartitions
       \<lparr>obj_Version = activePartitionVersion, obj_Timestamp = KV_Now K w,
        obj_Data = Json (JArr (map (\<lambda>r. mpm_json (ps_heap s ! r)) (ps_activeParts s)))\<rparr> = (None, w')"
    using assms(1) by (metis sets_succeed_def prod.collapse)
  have "CHR 0x5C \<notin> set activePartitions" by (simp add: activePartitions_def)
  with assms(2) w' have "loadPart K w' (tr_handle T) i = loadPart K w (tr_handle T) i" for i
    unfolding write_apart_def loadPart_def by (metis part_key_no_sep)
  with w' show ?thesis by (auto simp: ps_saveActiveParts_def must_def mpm_inv_def)
qed

lemma ps_step:
  assumes "sets_succeed K" "deletes_succeed K" "transfer_handles K idString T (ps_kv s)"
    and "ps_holds K blake2b T residue S w s" "i < tr_num T" "i \<notin> S"
  shows "insert i S \<noteq> {..<tr_num T} \<Longrightarrow>
      \<exists>s' w'. ps_receive K idString blake2b newMessageID T fp residue now w s i = Inr (None, [], s', w') \<and>
        ps_kv s' = ps_kv s \<and> ps_holds K blake2b T residue (insert i S) w' s'"
    and "insert i S = {..<tr_num T} \<Longrightarrow>
      \<exists>m s' w'. ps_receive K idString blake2b newMessageID T fp residue now w s i = Inr (Some m, residue, s', w') \<and>
        whole_message T m \<and> ps_multiParts s' (getMultiPartID blake2b (tr_sender T) (tr_mid T)) = None"
proof -
  let ?ID = "getMultiPartID blake2b (tr_sender T) (tr_mid T)"
  obtain r s1 w1 where load: "ps_load K idString blake2b w s (tr_sender T) (tr_mid T) = Inr (r, s1, w1)"
    "ps_multiParts s1 ?ID = Some r" "ps_kv s1 = ps_kv s" "ps_holds K blake2b T residue S w1 s1"
    using ps_load_holds [OF assms(1,3,4)] by blast
  from load(2,4) have r: "r < length (ps_heap s1)" "mpm_inv K T S w1 (ps_heap s1 ! r)"
    "0 \<in> S \<longrightarrow> mpm_KeyResidue (ps_heap s1 ! r) = residue" by (simp_all add: ps_holds_def)
  obtain mpm' w' where rp: "mpm_inv K T (insert i S) w' mpm'"
    "mpm_KeyResidue mpm' = (if i = 0 then residue else mpm_KeyResidue (ps_heap s1 ! r))"
    "receive_part K newMessageID T fp residue now w1 (ps_heap s1 ! r) i = mpm_IsComplete K newMessageID w' mpm' fp"
    using receive_new_part [OF assms(1) r(2) assms(5,6)] by blast
  { assume ne: "insert i S \<noteq> {..<tr_num T}"
    let ?s = "s1\<lparr>ps_heap := (ps_heap s1)[r := mpm'], ps_activeParts := List.insert r (ps_activeParts s1)\<rparr>"
    have "write_apart K (ps_kv ?s) (tr_handle T)" using assms(3) load(3) by (simp add: transfer_handles_def)
    from saveActiveParts_keeps [OF assms(1) this] obtain w2 where w2: "ps_saveActiveParts K w' ?s = Inr w2"
      "\<forall>mpm. mpm_inv K T (insert i S) w' mpm \<longrightarrow> mpm_inv K T (insert i S) w2 mpm" by blast
    have "ps_holds K blake2b T residue (insert i S) w2 ?s"
      using load(2,4) r rp(1,2) w2(2) by (auto simp: ps_holds_def)
    with load r(1) rp(3) isComplete_some [OF rp(1) ne] w2(1)
    show "\<exists>s' w'. ps_receive K idString blake2b newMessageID T fp residue now w s i = Inr (None, [], s', w') \<and>
        ps_kv s' = ps_kv s \<and> ps_holds K blake2b T residue (insert i S) w' s'"
      by (simp add: ps_receive_eq ps_finish_def Let_def) }
  { assume eq: "insert i S = {..<tr_num T}"
    obtain m mpm2 w2 where m: "mpm_IsComplete K newMessageID w' mpm' fp = Inr (Some m, mpm2, w2)" "whole_message T m"
      "mpm_KeyResidue mpm2 = mpm_KeyResidue mpm'" "mpm_Sender mpm2 = tr_sender T" "mpm_MessageID mpm2 = tr_mid T"
      using isComplete_all [OF assms(2) rp(1) [unfolded eq]] unfolding whole_message_def by blast
    have "0 \<in> insert i S" using eq assms(5) by auto
    then have "mpm_KeyResidue mpm' = residue" using rp(2) r(3) by auto
    with load r(1) rp(3) m
    show "\<exists>m s' w'. ps_receive K idString blake2b newMessageID T fp residue now w s i = Inr (Some m, residue, s', w') \<and>
        whole_message T m \<and> ps_multiParts s' ?ID = None"
      by (simp add: ps_receive_eq ps_finish_def Let_def) }
qed

lemma ps_receive_all_parts:
  assumes "sets_succeed K" "deletes_succeed K"
  shows "transfer_handles K idString T (ps_kv s) \<Longrightarrow> ps_holds K blake2b T residue S w s \<Longrightarrow>
    distinct is \<Longrightarrow> is \<noteq> [] \<Longrightarrow> set is \<inter> S = {} \<Longrightarrow> set is \<union> S = {..<tr_num T} \<Longrightarrow>
    \<exists>m s' w'. ps_receive_all K idString blake2b newMessageID T fp residue now w s is =
        Inr (replicate (length is - 1) (None, []) @ [(Some m, residue)], s', w') \<and>
      whole_message T m \<and> ps_multiParts s' (getMultiPartID blake2b (tr_sender T) (tr_mid T)) = None"
proof (induction "is" arbitrary: S w s)
  case (Cons i "is")
  have i: "i < tr_num T" "i \<notin> S" using Cons.prems by auto
  note step = ps_step [OF assms Cons.prems(1,2) i, of newMessageID fp now]
  show ?case
  proof (cases "is = []")
    case True
    with Cons.prems(6) have "insert i S = {..<tr_num T}" by simp
    from step(2) [OF this] True show ?thesis by auto
  next
    case False
    then obtain j where "j \<in> set is" by (cases "is") auto
    with Cons.prems(3,5,6) have "j \<notin> insert i S" "j \<in> {..<tr_num T}" by auto
    then have "insert i S \<noteq> {..<tr_num T}" by metis
    from step(1) [OF this] obtain s1 w1 where s1:
      "ps_receive K idString blake2b newMessageID T fp residue now w s i = Inr (None, [], s1, w1)"
      "ps_kv s1 = ps_kv s" "ps_holds K blake2b T residue (insert i S) w1 s1" by blast
    have "replicate (length (i # is) - 1) (None :: receive_Message option, [] :: bytes) = (None, []) # replicate (length is - 1) (None, [])"
      using False by (cases "is") simp_all
    moreover have "\<exists>m s' w'. ps_receive_all K idString blake2b newMessageID T fp residue now w1 s1 is =
        Inr (replicate (length is - 1) (None, []) @ [(Some m, residue)], s', w') \<and>
      whole_message T m \<and> ps_multiParts s' (getMultiPartID blake2b (tr_sender T) (tr_mid T)) = None"
      by (rule Cons.IH [OF _ s1(3)]) (use Cons.prems s1(2) False in auto)
    ultimately show ?thesis using s1(1) by (elim exE conjE) (simp del: replicate.simps length_Cons)
  qed
qed simp

end

context versioned_kv
begin

lemma load_parts_missing:
  "j \<in> set is \<Longrightarrow> \<forall>i \<in> set is. i < length parts \<and> i < 256 \<Longrightarrow> parts ! j = None \<Longrightarrow>
   loadPart K w h (word_of_nat j) = Inl err \<Longrightarrow> distinct is \<Longrightarrow> mpm_load_parts K h is parts l w = Inl FatalPanic"
proof (induction "is" arbitrary: parts l w)
  case (Cons i "is")
  have i: "i < length parts" "i < 256" "j < 256" using Cons.prems by auto
  show ?case
  proof (cases "i = j \<or> parts ! i \<noteq> None \<or> (\<exists>e. loadPart K w h (word_of_nat i) = Inl e)")
    case True
    with Cons.IH [of parts w] Cons.prems i show ?thesis by (auto split: option.splits)
  next
    case False
    then obtain b where b: "i \<noteq> j" "parts ! i = None" "loadPart K w h (word_of_nat i) = Inr b"
      by (cases "loadPart K w h (word_of_nat i)") auto
    show ?thesis
    proof (cases "must (deletePart K w h (word_of_nat i))")
      case (Inl e)
      with b i show ?thesis by (auto simp: must_def split: prod.splits option.splits)
    next
      case (Inr w1)
      then have w1: "deletePart K w h (word_of_nat i) = (None, w1)" by (simp add: must_Inr)
      have "loadPart K w1 h (word_of_nat j) = loadPart K w h (word_of_nat j)"
        using get_delete_other [OF w1 [unfolded deletePart_def], of "makeMultiPartMessagePartKey (word_of_nat j)"
            currentMultiPartMessageVersion] i b(1) by (simp add: loadPart_def of_nat_byte_inj)
      with Cons.IH [of "parts[i := Some b]" w1] Cons.prems b i Inr show ?thesis by simp
    qed
  qed
qed simp

lemma isComplete_missing:
  assumes "mpm_NumParts mpm = word_of_nat n" "mpm_PresentParts mpm = word_of_nat n" "1 \<le> n" "n \<le> 255"
    and "length (mpm_parts mpm) \<le> n" "j < n" "j < length (mpm_parts mpm) \<Longrightarrow> mpm_parts mpm ! j = None"
    and "loadPart K w (mpm_kv mpm) (word_of_nat j) = Inl err"
  shows "mpm_IsComplete K newMessageID w mpm fp = Inl FatalPanic"
proof -
  have n: "unat (word_of_nat n :: byte) = n" "(word_of_nat n :: byte) \<noteq> 0"
    using assms(3,4) by (auto simp: unat_of_nat word_unat_eq_iff)
  have "extend_to n (mpm_parts mpm) ! j = None"
    using assms(5-7) by (auto simp: extend_to_def nth_append)
  then have "mpm_load_parts K (mpm_kv mpm) [0..<n] (extend_to n (mpm_parts mpm)) 0 w = Inl FatalPanic"
    using load_parts_missing [OF _ _ _ assms(8), of "[0..<n]"] assms(4-6) by (simp add: extend_to_def)
  then show ?thesis using assms(1,2) n by (simp add: mpm_IsComplete_def mpm_delete_def Let_def)
qed

lemma receive_old_part:
  assumes "sets_succeed K" "mpm_inv K T ({..<tr_num T} - {j}) w mpm"
    and "j < tr_num T" "i < tr_num T" "i \<noteq> j" "j \<noteq> 0"
    and "loadPart K w (tr_handle T) (word_of_nat j) = Inl err"
  shows "receive_part K newMessageID T fp residue now w mpm i = Inl FatalPanic"
proof -
  let ?n = "tr_num T" and ?P = "tr_parts T"
  let ?ps = "(extend_to (i + 1) (mpm_parts mpm))[i := Some (?P i)]"
  have inv: "1 \<le> ?n" "?n \<le> 255" "mpm_kv mpm = tr_handle T" "length (mpm_parts mpm) \<le> ?n"
    "\<forall>k < length (mpm_parts mpm). \<forall>x. mpm_parts mpm ! k = Some x \<longrightarrow> k \<in> {..<?n} - {j} \<and> x = ?P k"
    "mpm_NumParts mpm = word_of_nat ?n" "mpm_PresentParts mpm = word_of_nat (card ({..<?n} - {j}))"
    using assms(2,3,6) by (auto simp: mpm_inv_def)
  have i: "unat (word_of_nat i :: byte) = i" using assms(4) inv(2) by (simp add: unat_of_nat)
  have "mpm_PresentParts mpm + 1 = word_of_nat (?n - 1 + 1)"
    unfolding inv(7) of_nat_add using assms(3) by simp
  then have present: "mpm_PresentParts mpm + 1 = word_of_nat ?n" using inv(1) by simp
  note pa = parts_after_add [OF inv(4) assms(4) inv(5)]
  define mpm' where "mpm' = (if i = 0 then mpm\<lparr>mpm_NumParts := word_of_nat ?n, mpm_SenderTimestamp := tr_time T,
      mpm_MessageType := tr_type T, mpm_parts := ?ps, mpm_PresentParts := mpm_PresentParts mpm + 1,
      mpm_StorageTimestamp := now\<rparr>
    else mpm\<lparr>mpm_parts := ?ps, mpm_PresentParts := mpm_PresentParts mpm + 1\<rparr>)"
  obtain w1 where w1: "savePart K w (tr_handle T) (word_of_nat i) (?P i) = (None, w1)"
    using assms(1) by (metis sets_succeed_def savePart_def prod.collapse)
  obtain w2 where w2: "mpm_save K w1 mpm' = (None, w2)"
    using assms(1) by (metis sets_succeed_def mpm_save_def prod.collapse)
  have kv: "mpm_kv mpm' = tr_handle T" "mpm_NumParts mpm' = word_of_nat ?n" "mpm_PresentParts mpm' = word_of_nat ?n"
    "mpm_parts mpm' = ?ps" using inv(3,6) present by (simp_all add: mpm'_def)
  have "loadPart K w2 (tr_handle T) (word_of_nat j) = Inl err"
    using saved_part(1) [OF w1 w2 kv(1), of "word_of_nat j"] assms(3-5,7) inv(2) by (simp add: of_nat_byte_inj)
  moreover have "?ps ! j = None" if "j < length ?ps"
    using pa(2) that assms(5) by (cases "?ps ! j") auto
  ultimately have "mpm_IsComplete K newMessageID w2 (mpm'\<lparr>mpm_KeyResidue := r\<rparr>) fp = Inl FatalPanic" for r
    using kv pa(1) inv(1,2) assms(3) by (intro isComplete_missing [where n = ?n and j = j]) simp_all
  from this [of residue] this [of "mpm_KeyResidue mpm'"] show ?thesis
    using w1 w2 inv(3) i by (cases "i = 0") (simp_all add: receive_part_def mpm_Add_def mpm_AddFirst_def Let_def must_def mpm'_def)
qed

end

section \<open>Properties\<close>

text \<open>C33: Parts are put together in any order. When every part of a message that the store has not seen
  arrives exactly once, in whatever order, the store answers \<open>false\<close> to all but the last and then
  returns one message: its payload is the parts in sequence, with the type, sender and time of the
  first part and the key residue that came with it, and the message leaves the map of open messages.\<close>

theorem parts_reassemble_in_any_order:
  assumes "ekv_store E" "K = versioned_ops E" "sets_succeed K" "deletes_succeed K"
    and "derived ps (ps_kv s)" "kv_Prefix (ps_kv s) (MakePartnerPrefix idString (tr_sender T)) = Inr h1"
    and "kv_Prefix h1 (makeMultiPartMessagePrefix (tr_mid T)) = Inr (tr_handle T)"
    and "ps_multiParts s (getMultiPartID blake2b (tr_sender T) (tr_mid T)) = None"
    and "KV_Get K (tr_handle T) w mpm_messageKey currentMultiPartMessageVersion = Inl KeyNotFound"
    and "1 \<le> tr_num T" "tr_num T \<le> 255" "distinct is" "set is = {..<tr_num T}"
  shows "\<exists>m s' w'. ps_receive_all K idString blake2b newMessageID T fp residue now w s is =
      Inr (replicate (tr_num T - 1) (None, []) @ [(Some m, residue)], s', w') \<and>
    rm_Payload m = concat (map (tr_parts T) [0..<tr_num T]) \<and> rm_MessageType m = tr_type T \<and>
    rm_Sender m = tr_sender T \<and> rm_Timestamp m = tr_time T \<and>
    ps_multiParts s' (getMultiPartID blake2b (tr_sender T) (tr_mid T)) = None"
proof -
  have len: "length is = tr_num T" using assms(12,13) distinct_card [of "is"] by simp
  have "derived ((ps @ [MakePartnerPrefix idString (tr_sender T)]) @ [makeMultiPartMessagePrefix (tr_mid T)]) (tr_handle T)"
    by (rule derived_prefix [OF derived_prefix [OF assms(5,6)] assms(7)])
  then have "write_apart K (ps_kv s) (tr_handle T)"
    using ekv_store.derived_apart [OF assms(1,5)] assms(2) by simp
  then have "transfer_handles K idString T (ps_kv s)"
    using assms(2,6,7) by (simp add: transfer_handles_def versioned_ops_def)
  moreover have "ps_holds K blake2b T residue {} w s" using assms(8-11) by (simp add: ps_holds_def)
  moreover have "is \<noteq> []" using len assms(10) by auto
  moreover have "versioned_kv K" using ekv_store.versioned [OF assms(1)] assms(2) by simp
  ultimately show ?thesis
    using versioned_kv.ps_receive_all_parts [of K idString T s blake2b residue "{}" w "is" newMessageID fp now]
      assms(3,4,12,13) len by (auto simp: whole_message_def)
qed

definition tr_example :: "kv transfer" where
  "tr_example = \<lparr>tr_parts = (\<lambda>i. if i = 0 then [1, 2] else [3]), tr_num = 2, tr_type = 7, tr_time = 9,
     tr_sender = [5], tr_mid = 1,
     tr_handle = projr (kv_Prefix (projr (kv_Prefix NewKV (MakePartnerPrefix (\<lambda>_. ''s'') [5]))) (makeMultiPartMessagePrefix 1))\<rparr>"

definition ps_example :: "kv PartitionStore" where
  "ps_example = \<lparr>ps_multiParts = Map.empty, ps_activeParts = [], ps_heap = [], ps_kv = NewKV\<rparr>"

theorem parts_reassemble_in_any_order_witness:
  "\<exists>m s' w'. ps_receive_all mem_KV (\<lambda>_. ''s'') (\<lambda>_. []) (\<lambda>_ _. []) tr_example [] [4] 0 Map.empty ps_example [1, 0] =
     Inr ([(None, []), (Some m, [4])], s', w') \<and> rm_Payload m = [1, 2, 3]"
proof -
  have p: "kv_Prefix NewKV (MakePartnerPrefix (\<lambda>_. ''s'') [5]) = Inr (projr (kv_Prefix NewKV (MakePartnerPrefix (\<lambda>_. ''s'') [5])))"
    by (simp add: kv_Prefix_def NewKV_def MakePartnerPrefix_def HasPrefix_def)
  have q: "kv_Prefix (projr (kv_Prefix NewKV (MakePartnerPrefix (\<lambda>_. ''s'') [5]))) (makeMultiPartMessagePrefix 1) =
      Inr (tr_handle tr_example)" (is "kv_Prefix ?h1 _ = _")
    by (simp add: tr_example_def kv_Prefix_def NewKV_def MakePartnerPrefix_def HasPrefix_def makeMultiPartMessagePrefix_def
        nondigit_notin_nat_dec is_digit_def)
  have f: "ps_kv ps_example = NewKV" "tr_sender tr_example = [5]" "tr_mid tr_example = 1" "tr_num tr_example = 2"
    "ps_multiParts ps_example = Map.empty" "tr_parts tr_example 0 = [1, 2]" "tr_parts tr_example 1 = [3]"
    by (simp_all add: ps_example_def tr_example_def)
  have upt: "[0..<2] = [0, 1 :: nat]" "{1, 0 :: nat} = {..<2}" by (auto simp: upt_rec)
  from parts_reassemble_in_any_order [OF mem.ekv_store_axioms refl mem_sets mem_deletes, of "[]" ps_example
      "\<lambda>_. ''s''" tr_example ?h1 "\<lambda>_. []" Map.empty "[1, 0]" "\<lambda>_ _. []" "[]" "[4]" 0]
  have "\<exists>m s' w'. ps_receive_all mem_KV (\<lambda>_. ''s'') (\<lambda>_. []) (\<lambda>_ _. []) tr_example [] [4] 0 Map.empty ps_example [1, 0] =
     Inr (replicate (2 - 1) (None, []) @ [(Some m, [4])], s', w') \<and> rm_Payload m = concat [[1, 2], [3]]"
    using p q upt(2) unfolding f upt(1) list.map by (auto simp: derived_new mem_KV_simps simp del: ps_receive_all.simps)
  then show ?thesis by (simp del: ps_receive_all.simps)
qed

text \<open>A repeated part makes the client panic. When all parts but one have arrived, and a part that is
  already there is received again, \<open>PresentParts\<close> reaches \<open>NumParts\<close> and \<open>IsComplete\<close> tries to load the
  part that is missing: the receiver stops in \<open>jww.FATAL.Panicf\<close>.\<close>

theorem duplicate_part_panics:
  assumes "versioned_kv K" "sets_succeed K" "mpm_inv K T ({..<tr_num T} - {j}) w mpm"
    and "j < tr_num T" "i < tr_num T" "i \<noteq> j" "j \<noteq> 0"
    and "loadPart K w (tr_handle T) (word_of_nat j) = Inl err"
  shows "receive_part K newMessageID T fp residue now w mpm i = Inl FatalPanic"
  by (rule versioned_kv.receive_old_part [OF assms])

theorem duplicate_part_panics_witness:
  "receive_part mem_KV (\<lambda>_ _. []) tr_example [] [] 0
     [makeKey (tr_handle tr_example) (makeMultiPartMessagePartKey 0) 0 \<mapsto>
        \<lparr>obj_Version = 0, obj_Timestamp = 0, obj_Data = Raw [1, 2]\<rparr>]
     \<lparr>mpm_Sender = [5], mpm_MessageID = 1, mpm_NumParts = 2, mpm_PresentParts = 1, mpm_SenderTimestamp = 9,
      mpm_StorageTimestamp = 0, mpm_MessageType = 7, mpm_KeyResidue = [], mpm_parts = [Some [1, 2]],
      mpm_kv = tr_handle tr_example\<rparr> 0 = Inl FatalPanic"
proof (rule duplicate_part_panics [OF mem.versioned mem_sets, where j = 1])
  have S: "{..<tr_num tr_example} - {1} = {0}" by (auto simp: tr_example_def)
  show "mpm_inv mem_KV tr_example ({..<tr_num tr_example} - {1})
     [makeKey (tr_handle tr_example) (makeMultiPartMessagePartKey 0) 0 \<mapsto>
        \<lparr>obj_Version = 0, obj_Timestamp = 0, obj_Data = Raw [1, 2]\<rparr>]
     \<lparr>mpm_Sender = [5], mpm_MessageID = 1, mpm_NumParts = 2, mpm_PresentParts = 1, mpm_SenderTimestamp = 9,
      mpm_StorageTimestamp = 0, mpm_MessageType = 7, mpm_KeyResidue = [], mpm_parts = [Some [1, 2]],
      mpm_kv = tr_handle tr_example\<rparr>"
    unfolding S by (simp add: mpm_inv_def tr_example_def loadPart_def mem_KV_simps currentMultiPartMessageVersion_def)
  show "loadPart mem_KV [makeKey (tr_handle tr_example) (makeMultiPartMessagePartKey 0) 0 \<mapsto>
        \<lparr>obj_Version = 0, obj_Timestamp = 0, obj_Data = Raw [1, 2]\<rparr>] (tr_handle tr_example) (word_of_nat 1) = Inl KeyNotFound"
    by (simp add: loadPart_def mem_KV_simps makeKey_inj)
qed (simp_all add: tr_example_def)

text \<open>What a restart does to a message that is not complete. If its first part had arrived more than a
  day ago, \<open>prune\<close> looks for parts in a slice that loading left empty, and the client panics at
  start-up. If its first part had not arrived, its storage time is the zero time, so \<open>prune\<close> deletes the
  stored message however recent it is: the count of the parts that did arrive is gone.\<close>

theorem restart_with_partial_message:
  fixes K :: "('h, 'w) KV_ops" and mpm :: "'h multiPartMessage"
  assumes "versioned_kv K" "deletes_succeed K" "0 \<le> KV_Now K w"
    and "KV_Prefix K h packagePrefix = Inr h'"
    and "KV_Get K h' w activePartitions activePartitionVersion = Inr obj"
    and "obj_Data obj = Json (JArr [mpm_json mpm])"
    and "KV_Prefix K h' (MakePartnerPrefix idString (mpm_Sender mpm)) = Inr h1"
    and "KV_Prefix K h1 (makeMultiPartMessagePrefix (mpm_MessageID mpm)) = Inr h2"
    and "KV_Get K h2 w mpm_messageKey currentMultiPartMessageVersion = Inr obj2"
    and "obj_Data obj2 = Json (mpm_json mpm)"
  shows "(mpm_NumParts mpm \<noteq> 0 \<and> KV_Now K w - mpm_StorageTimestamp mpm \<ge> clearPartitionThreshold \<longrightarrow>
      ps_NewOrLoad K idString blake2b w h = Inl IndexOutOfRange) \<and>
    (mpm_NumParts mpm = 0 \<and> mpm_StorageTimestamp mpm = zero_time \<longrightarrow>
      (\<exists>s w'. ps_NewOrLoad K idString blake2b w h = Inr (s, w') \<and>
        KV_Get K h2 w' mpm_messageKey currentMultiPartMessageVersion = Inl KeyNotFound))"
proof -
  let ?m = "mpm\<lparr>mpm_parts := [], mpm_kv := h2\<rparr>"
  obtain w1 where w1: "KV_Delete K h2 w mpm_messageKey currentMultiPartMessageVersion = (None, w1)"
    using assms(2) by (metis deletes_succeed_def prod.collapse)
  have load: "ps_NewOrLoad K idString blake2b w h = ps_prune K blake2b w
      \<lparr>ps_multiParts = Map.empty, ps_activeParts = [0], ps_heap = [?m], ps_kv = h'\<rparr>"
    using assms(4-10)
    by (simp add: ps_NewOrLoad_def ps_loadActivePartitions_def json_mpm_json loadOrCreateMultiPartMessage_def)
  show ?thesis
  proof (intro conjI impI)
    assume "mpm_NumParts mpm \<noteq> 0 \<and> KV_Now K w - mpm_StorageTimestamp mpm \<ge> clearPartitionThreshold"
    then show "ps_NewOrLoad K idString blake2b w h = Inl IndexOutOfRange"
      by (simp add: load ps_prune_def mpm_delete_def upt_rec [of 0] unat_gt_0 index_def)
  next
    assume "mpm_NumParts mpm = 0 \<and> mpm_StorageTimestamp mpm = zero_time"
    then show "\<exists>s w'. ps_NewOrLoad K idString blake2b w h = Inr (s, w') \<and>
        KV_Get K h2 w' mpm_messageKey currentMultiPartMessageVersion = Inl KeyNotFound"
      using w1 assms(3) versioned_kv.get_delete [OF assms(1) w1]
      by (simp add: load ps_prune_def mpm_delete_def must_def clearPartitionThreshold_def zero_time_def)
  qed
qed

definition mpm_example :: "kv multiPartMessage" where
  "mpm_example = \<lparr>mpm_Sender = [5], mpm_MessageID = 1, mpm_NumParts = 2, mpm_PresentParts = 1, mpm_SenderTimestamp = 9,
      mpm_StorageTimestamp = - clearPartitionThreshold, mpm_MessageType = 7, mpm_KeyResidue = [],
      mpm_parts = [Some [1, 2]], mpm_kv = NewKV\<rparr>"

theorem restart_with_partial_message_witness:
  "\<exists>w. ps_NewOrLoad mem_KV (\<lambda>_. ''s'') (\<lambda>_. []) w NewKV = Inl IndexOutOfRange"
proof -
  define h' where "h' = projr (kv_Prefix NewKV packagePrefix)"
  define h1 where "h1 = projr (kv_Prefix h' (MakePartnerPrefix (\<lambda>_. ''s'') [5]))"
  define h2 where "h2 = projr (kv_Prefix h1 (makeMultiPartMessagePrefix 1))"
  let ?o = "\<lparr>obj_Version = 0, obj_Timestamp = 0, obj_Data = Json (JArr [mpm_json mpm_example])\<rparr>"
  let ?m = "\<lparr>obj_Version = 0, obj_Timestamp = 0, obj_Data = Json (mpm_json mpm_example)\<rparr>"
  let ?w = "[makeKey h' activePartitions 0 \<mapsto> ?o, makeKey h2 mpm_messageKey 0 \<mapsto> ?m]"
  have p: "kv_Prefix NewKV packagePrefix = Inr h'" "kv_Prefix h' (MakePartnerPrefix (\<lambda>_. ''s'') [5]) = Inr h1"
    "kv_Prefix h1 (makeMultiPartMessagePrefix 1) = Inr h2"
    by (simp_all add: h2_def h1_def h'_def kv_Prefix_def NewKV_def MakePartnerPrefix_def HasPrefix_def
        packagePrefix_def makeMultiPartMessagePrefix_def nondigit_notin_nat_dec is_digit_def)
  note d = derived_prefix [OF derived_new p(1)] derived_prefix [OF derived_prefix [OF derived_prefix [OF derived_new p(1)] p(2)] p(3)]
  have "makeKey h' activePartitions 0 \<noteq> makeKey h2 mpm_messageKey 0"
    using makeKey_path_inj [OF d, of activePartitions mpm_messageKey 0 0]
    by (simp add: activePartitions_def mpm_messageKey_def)
  then have g: "KV_Get mem_KV h' ?w activePartitions activePartitionVersion = Inr ?o"
    "KV_Get mem_KV h2 ?w mpm_messageKey currentMultiPartMessageVersion = Inr ?m"
    by (simp_all add: mem_KV_simps activePartitionVersion_def currentMultiPartMessageVersion_def)
  have "ps_NewOrLoad mem_KV (\<lambda>_. ''s'') (\<lambda>_. []) ?w NewKV = Inl IndexOutOfRange"
    using restart_with_partial_message [OF mem.versioned mem_deletes _ _ g(1) _ _ _ g(2), of NewKV mpm_example "\<lambda>_. ''s''" h1 "\<lambda>_. []"]
      p by (simp add: mem_KV_simps mpm_example_def)
  then show ?thesis by blast
qed

end
