(* ===== verification/Partitioner.thy ===== *)
theory Partitioner
  imports Conversation Message_Parts Multi_Part
begin

text \<open>
  The partitioner (\<open>e2e/parse/partition.go\<close>) joins the numbering of conversations, the wire format of
  parts and the store of partial messages: \<open>Partition\<close> splits a payload into numbered parts of one size,
  \<open>HandlePartition\<close> takes one received part and returns the message when it was the last one missing.
  The theorems say that the split covers the payload with at most 255 parts, and that what one side
  partitions the other side gets back, in whatever order the parts arrive.
\<close>

section \<open>Model\<close>

record 'h Partitioner =
  pt_baseMessageSize :: int
  pt_firstContentsSize :: int
  pt_partContentsSize :: int
  pt_deltaFirstPart :: int
  pt_maxSize :: int
  pt_conversation :: "'h ConvStore"
  pt_partition :: "'h PartitionStore"

datatype pt_error = PayloadTooLong

definition NewPartitioner ::
  "('h, 'w) KV_ops \<Rightarrow> (bytes \<Rightarrow> string) \<Rightarrow> (bytes \<Rightarrow> bytes) \<Rightarrow> 'w \<Rightarrow> 'h \<Rightarrow> int \<Rightarrow> fault + ('h Partitioner \<times> 'w)" where
  "NewPartitioner K idString blake2b w h messageSize =
     res_bind (cs_NewStore K h) (\<lambda>conv.
     res_bind (ps_NewOrLoad K idString blake2b w h) (\<lambda>(part, w').
     let firstContentsSize = messageSize - int firstHeaderLen;
         partContentsSize = messageSize - int headerLen
     in Inr (\<lparr>pt_baseMessageSize = messageSize, pt_firstContentsSize = firstContentsSize,
              pt_partContentsSize = partContentsSize,
              pt_deltaFirstPart = int firstHeaderLen - int headerLen,
              pt_maxSize = firstContentsSize + (int MaxMessageParts - 1) * partContentsSize,
              pt_conversation = conv, pt_partition = part\<rparr>, w')))"

text \<open>Go's integer division truncates towards zero. \<open>make([]byte, n)\<close> panics for a negative \<open>n\<close>.\<close>

definition quot :: "int \<Rightarrow> int \<Rightarrow> fault + int" where
  "quot a b = (if b = 0 then Inl DivideByZero else Inr (sgn a * sgn b * (\<bar>a\<bar> div \<bar>b\<bar>)))"

definition Partition ::
  "('h, 'w) KV_ops \<Rightarrow> (bytes \<Rightarrow> string) \<Rightarrow> 'w \<Rightarrow> 'h Partitioner \<Rightarrow> bytes \<Rightarrow> u32 \<Rightarrow> int \<Rightarrow> bytes \<Rightarrow>
   fault + ((pt_error + bytes list \<times> u64) \<times> 'h Partitioner \<times> 'w)" where
  "Partition K idString w p recipient mt timestamp payload =
     (if int (length payload) > pt_maxSize p then Inr (Inl PayloadTooLong, p, w)
      else
        res_bind (cs_Get K idString w (pt_conversation p) recipient) (\<lambda>(c, conv, w1).
        res_bind (GetNextSendID K idString w1 c) (\<lambda>((fullMessageID, messageID), c', w2).
        let p' = p\<lparr>pt_conversation := cs_put conv c'\<rparr>
        in
          res_bind (quot (int (length payload) + pt_deltaFirstPart p + pt_partContentsSize p - 1)
              (pt_partContentsSize p)) (\<lambda>n.
          let numParts = word_of_int n :: byte
          in
            res_bind (splitPayload payload (pt_firstContentsSize p)) (\<lambda>(sub, payload').
            if pt_baseMessageSize p < 0 then Inl SliceOutOfRange
            else
              res_bind (newFirstMessagePart mt messageID numParts timestamp sub (nat (pt_baseMessageSize p))) (\<lambda>m.
              if numParts = 0 then Inl IndexOutOfRange
              else
                res_bind (later_parts messageID (nat (pt_baseMessageSize p)) (nat (pt_partContentsSize p)) 1
                    (unat numParts - 1) payload') (\<lambda>rest.
                Inr (Inr (mp_Data m # rest, fullMessageID), p', w2))))))))"

text \<open>\<open>ProcessReceivedMessageID\<close> on the conversation with the sender, through the store.\<close>

definition pt_process ::
  "('h, 'w) KV_ops \<Rightarrow> (bytes \<Rightarrow> string) \<Rightarrow> 'w \<Rightarrow> 'h Partitioner \<Rightarrow> bytes \<Rightarrow> u32 \<Rightarrow>
   fault + (u64 \<times> 'h Partitioner \<times> 'w)" where
  "pt_process K idString w p sender mid =
     res_bind (cs_Get K idString w (pt_conversation p) sender) (\<lambda>(c, conv, w1).
     res_bind (ProcessReceivedMessageID K idString w1 c mid) (\<lambda>(messageID, c', w2).
     Inr (messageID, p\<lparr>pt_conversation := cs_put conv c'\<rparr>, w2)))"

definition HandlePartition ::
  "('h, 'w) KV_ops \<Rightarrow> (bytes \<Rightarrow> string) \<Rightarrow> (bytes \<Rightarrow> bytes) \<Rightarrow> (bytes \<Rightarrow> u64 \<Rightarrow> bytes) \<Rightarrow> 'w \<Rightarrow> 'h Partitioner \<Rightarrow>
   bytes \<Rightarrow> bytes \<Rightarrow> bytes \<Rightarrow> bytes \<Rightarrow>
   fault + (receive_Message option \<times> bytes \<times> 'h Partitioner \<times> 'w)" where
  "HandlePartition K idString blake2b newMessageID w p sender contents relationshipFingerprint residue =
     res_bind (isFirst contents) (\<lambda>first.
     if first then
       res_bind (firstMessagePartFromBytes contents) (\<lambda>fm.
       let mp = messagePart.truncate fm
       in
         res_bind (mp_getID mp) (\<lambda>mid.
         res_bind (pt_process K idString w p sender mid) (\<lambda>(messageID, p1, w1).
         res_bind (fmp_getType fm) (\<lambda>mt.
         res_bind (mp_getPart mp) (\<lambda>part.
         res_bind (fmp_getNumParts fm) (\<lambda>numParts.
         res_bind (fmp_getTimestamp fm) (\<lambda>timestamp.
         res_bind (mp_getSizedContents mp) (\<lambda>sized.
         res_bind (ps_AddFirst K idString blake2b newMessageID w1 (pt_partition p1) sender mt messageID part numParts
             timestamp (KV_Now K w1) sized relationshipFingerprint residue) (\<lambda>(msg, keyRes, part', w2).
         Inr (msg, keyRes, p1\<lparr>pt_partition := part'\<rparr>, w2))))))))))
     else
       res_bind (messagePartFromBytes contents) (\<lambda>mp.
       res_bind (mp_getID mp) (\<lambda>mid.
       res_bind (pt_process K idString w p sender mid) (\<lambda>(messageID, p1, w1).
       res_bind (mp_getPart mp) (\<lambda>part.
       res_bind (mp_getSizedContents mp) (\<lambda>sized.
       res_bind (ps_Add K idString blake2b newMessageID w1 (pt_partition p1) sender messageID part sized
           relationshipFingerprint) (\<lambda>(msg, keyRes, part', w2).
       Inr (msg, keyRes, p1\<lparr>pt_partition := part'\<rparr>, w2))))))))"

definition FirstPartitionSize :: "'h Partitioner \<Rightarrow> u64" where
  "FirstPartitionSize p = word_of_int (pt_firstContentsSize p)"

definition SecondPartitionSize :: "'h Partitioner \<Rightarrow> u64" where
  "SecondPartitionSize p = word_of_int (pt_partContentsSize p)"

definition PayloadSize :: "'h Partitioner \<Rightarrow> u64" where
  "PayloadSize p = word_of_int (pt_maxSize p)"

section \<open>Specification\<close>

text \<open>A partitioner for messages of \<open>sz\<close> bytes, as \<open>NewPartitioner\<close> sets it up.\<close>

definition sized :: "nat \<Rightarrow> 'h Partitioner \<Rightarrow> bool" where
  "sized sz p =
     (pt_baseMessageSize p = int sz \<and> pt_firstContentsSize p = int sz - 22 \<and>
      pt_partContentsSize p = int sz - 8 \<and> pt_deltaFirstPart p = 14 \<and>
      pt_maxSize p = int sz - 22 + 254 * (int sz - 8))"

text \<open>The number of parts and the contents of each.\<close>

definition num_parts :: "nat \<Rightarrow> bytes \<Rightarrow> nat" where
  "num_parts sz payload = (length payload + 14 + (sz - 8) - 1) div (sz - 8)"

text \<open>The parts on the wire, for the chunks \<open>cs\<close> of a payload.\<close>

definition wire_part :: "nat \<Rightarrow> u32 \<Rightarrow> u32 \<Rightarrow> int \<Rightarrow> bytes list \<Rightarrow> nat \<Rightarrow> bytes" where
  "wire_part sz mt mid ts cs i =
     (if i = 0 then first_part_bytes mt mid (word_of_nat (length cs)) ts (cs ! 0) sz
      else part_bytes mid (word_of_nat i) (cs ! i) sz)"

text \<open>Chunks that fit: the first one is shorter, as its header is longer.\<close>

definition chunks :: "nat \<Rightarrow> bytes \<Rightarrow> bytes list \<Rightarrow> bool" where
  "chunks sz payload cs =
     (1 \<le> length cs \<and> length cs \<le> 255 \<and> concat cs = payload \<and> length (cs ! 0) \<le> sz - 22 \<and>
      (\<forall>c \<in> set cs. length c \<le> sz - 8))"

text \<open>Handling a list of received parts.\<close>

fun pt_receive_all ::
  "('h, 'w) KV_ops \<Rightarrow> (bytes \<Rightarrow> string) \<Rightarrow> (bytes \<Rightarrow> bytes) \<Rightarrow> (bytes \<Rightarrow> u64 \<Rightarrow> bytes) \<Rightarrow> 'w \<Rightarrow> 'h Partitioner \<Rightarrow>
   bytes \<Rightarrow> bytes \<Rightarrow> bytes \<Rightarrow> bytes list \<Rightarrow>
   fault + ((receive_Message option \<times> bytes) list \<times> 'h Partitioner \<times> 'w)" where
  "pt_receive_all K idString blake2b newMessageID w p sender fp residue [] = Inr ([], p, w)"
| "pt_receive_all K idString blake2b newMessageID w p sender fp residue (x # xs) =
     res_bind (HandlePartition K idString blake2b newMessageID w p sender x fp residue) (\<lambda>(m, kr, p1, w1).
     res_bind (pt_receive_all K idString blake2b newMessageID w1 p1 sender fp residue xs) (\<lambda>(ms, p2, w2).
     Inr ((m, kr) # ms, p2, w2)))"

section \<open>Lemmas\<close>

lemma num_parts_bounds:
  assumes "23 \<le> sz" "length payload \<le> sz - 22 + 254 * (sz - 8)"
  shows "1 \<le> num_parts sz payload" "num_parts sz payload \<le> 255"
    "length payload \<le> sz - 22 + (num_parts sz payload - 1) * (sz - 8)"
    "1 < num_parts sz payload \<Longrightarrow> sz - 22 + (num_parts sz payload - 2) * (sz - 8) < length payload"
proof -
  define k where "k = sz - 8"
  define n where "n = num_parts sz payload"
  have k: "15 \<le> k" "sz - 22 + 14 = k" using assms(1) by (simp_all add: k_def)
  have n: "n * k \<le> length payload + 14 + k - 1" "length payload + 14 + k - 1 < (n + 1) * k"
    unfolding n_def num_parts_def k_def [symmetric]
    using k(1) div_times_less_eq_dividend [of "length payload + 14 + k - 1" k]
      dividend_less_div_times [of k "length payload + 14 + k - 1"] by (simp_all add: algebra_simps)
  show "1 \<le> num_parts sz payload"
  proof (rule ccontr)
    assume "\<not> ?thesis" then have "n = 0" by (simp add: n_def)
    with n(2) k(1) show False by simp
  qed
  then obtain m where m: "n = Suc m" unfolding n_def [symmetric] by (cases n) auto
  show "length payload \<le> sz - 22 + (num_parts sz payload - 1) * (sz - 8)"
    using n(2) k m unfolding n_def [symmetric] k_def [symmetric] by (simp add: algebra_simps)
  show "num_parts sz payload \<le> 255"
  proof (rule ccontr)
    assume "\<not> ?thesis"
    then have "256 * k \<le> n * k" unfolding n_def [symmetric] by (intro mult_le_mono1) simp
    with n(1) assms(2) k show False unfolding k_def [symmetric] by simp
  qed
  show "sz - 22 + (num_parts sz payload - 2) * (sz - 8) < length payload" if "1 < num_parts sz payload"
  proof -
    have "m \<noteq> 0" using that m n_def by simp
    then obtain j where "m = Suc j" by (cases m) auto
    with n(1) k m show ?thesis unfolding n_def [symmetric] k_def [symmetric] by (simp add: algebra_simps)
  qed
qed

lemma Partition_parts:
  assumes "sized sz p" "23 \<le> sz" "int (length payload) \<le> pt_maxSize p"
    and "cs_Get K idString w (pt_conversation p) recipient = Inr (c, conv, w1)"
    and "GetNextSendID K idString w1 c = Inr ((full, mid), c', w2)"
  shows "\<exists>cs. chunks sz payload cs \<and> Partition K idString w p recipient mt ts payload =
    Inr (Inr (map (wire_part sz mt mid ts cs) [0..<length cs], full), p\<lparr>pt_conversation := cs_put conv c'\<rparr>, w2)"
proof -
  define n where "n = num_parts sz payload"
  define sub where "sub = take (sz - 22) payload"
  define rest where "rest = (if length payload < sz - 22 then payload else drop (sz - 22) payload)"
  have max: "length payload \<le> sz - 22 + 254 * (sz - 8)"
  proof -
    obtain d where "sz = 23 + d" using assms(2) le_Suc_ex by blast
    with assms(1,3) show ?thesis by (simp add: sized_def)
  qed
  note nb = num_parts_bounds [OF assms(2) max, folded n_def]
  have "int (length payload) + 14 + int (sz - 8) - 1 = int (length payload + 14 + (sz - 8) - 1)"
    using assms(2) by simp
  then have q: "quot (int (length payload) + pt_deltaFirstPart p + pt_partContentsSize p - 1) (pt_partContentsSize p) =
      Inr (int n)"
    using assms(1,2) by (simp add: quot_def sized_def n_def num_parts_def zdiv_int of_nat_diff sgn_if)
  have np: "(word_of_int (int n) :: byte) = word_of_nat n" "unat (word_of_nat n :: byte) = n" "(word_of_nat n :: byte) \<noteq> 0"
    using nb(1,2) by (auto simp: unat_of_nat word_unat_eq_iff)
  have sp: "splitPayload payload (int sz - 22) = Inr (sub, rest)"
    using assms(2) by (auto simp: splitPayload_def sub_def rest_def nat_diff_distrib)
  have "length sub \<le> sz - 22" by (simp add: sub_def)
  then have "firstHeaderLen + length sub \<le> sz" using assms(2) by (simp add: part_lens)
  then obtain m where m: "newFirstMessagePart mt mid (word_of_nat n) ts sub sz = Inr m"
    "mp_Data m = first_part_bytes mt mid (word_of_nat n) ts sub sz"
    using newFirstMessagePart_data by blast
  have "\<exists>ds. later_parts mid sz (sz - 8) 1 (n - 1) rest =
      Inr (map2 (\<lambda>j c. part_bytes mid (word_of_nat j) c sz) [1..<1 + (n - 1)] ds) \<and>
      length ds = n - 1 \<and> concat ds = drop (sz - 22) payload \<and> (\<forall>c \<in> set ds. length c \<le> sz - 8)"
  proof (cases "n = 1")
    case True
    with nb(3) show ?thesis by simp
  next
    case False
    then have n2: "1 < n" using nb(1) by simp
    have "n - 1 = Suc (n - 2)" using n2 by simp
    moreover obtain x where "(n - 2) * (sz - 8) = x" by blast
    ultimately have "needs_parts (sz - 8) (n - 1) (drop (sz - 22) payload)"
      using nb(3) nb(4) [OF n2] assms(2) by (simp add: needs_parts_def) arith
    moreover have "rest = drop (sz - 22) payload" using nb(4) [OF n2] by (simp add: rest_def)
    ultimately show ?thesis
      using later_parts_chunks [of "sz - 8" sz "n - 1" rest mid 1] assms(2) by (simp add: part_lens)
  qed
  then obtain ds where ds: "later_parts mid sz (sz - 8) 1 (n - 1) rest =
      Inr (map2 (\<lambda>j c. part_bytes mid (word_of_nat j) c sz) [1..<1 + (n - 1)] ds)"
    "length ds = n - 1" "concat ds = drop (sz - 22) payload" "\<forall>c \<in> set ds. length c \<le> sz - 8" by blast
  let ?cs = "sub # ds"
  have len: "length ?cs = n" using ds(2) nb(1) by simp
  have ch: "chunks sz payload ?cs"
    using ds(3,4) len nb(1,2) assms(2) by (auto simp: chunks_def sub_def)
  have "map2 (\<lambda>j c. part_bytes mid (word_of_nat j) c sz) [1..<1 + (n - 1)] ds = map (wire_part sz mt mid ts ?cs) [1..<n]"
    using ds(2) nb(1) by (intro nth_equalityI) (simp_all add: wire_part_def)
  moreover have "map (wire_part sz mt mid ts ?cs) [0..<n] = wire_part sz mt mid ts ?cs 0 # map (wire_part sz mt mid ts ?cs) [1..<n]"
    using nb(1) by (simp add: upt_rec [of 0])
  moreover have "wire_part sz mt mid ts ?cs 0 = mp_Data m" using len m(2) by (simp add: wire_part_def)
  ultimately have "Partition K idString w p recipient mt ts payload =
    Inr (Inr (map (wire_part sz mt mid ts ?cs) [0..<n], full), p\<lparr>pt_conversation := cs_put conv c'\<rparr>, w2)"
    using assms(1-5) q np sp m(1) ds(1)
    by (simp add: Partition_def sized_def Let_def nat_diff_distrib)
  with ch len show ?thesis by metis
qed

lemma getters_part:
  assumes "chunks sz payload cs" "23 \<le> sz" "sz \<le> 65535" "0 < i" "i < length cs"
  shows "isFirst (wire_part sz mt mid ts cs i) = Inr False"
    "\<exists>m. messagePartFromBytes (wire_part sz mt mid ts cs i) = Inr m \<and> mp_getID m = Inr mid \<and>
      mp_getPart m = Inr (word_of_nat i) \<and> mp_getSizedContents m = Inr (cs ! i)"
proof -
  have i: "i < 256" "(word_of_nat i :: byte) \<noteq> 0"
    using assms(1,4,5) of_nat_byte_inj [of i 0] by (auto simp: chunks_def)
  have "length (cs ! i) \<le> sz - 8" using assms(1,5) by (simp add: chunks_def)
  then have "headerLen + length (cs ! i) \<le> sz" "length (cs ! i) < 2 ^ 16"
    using assms(2,3) by (auto simp: part_lens)
  from parse_part [OF this, of mid "word_of_nat i"] assms(4)
  show "\<exists>m. messagePartFromBytes (wire_part sz mt mid ts cs i) = Inr m \<and> mp_getID m = Inr mid \<and>
      mp_getPart m = Inr (word_of_nat i) \<and> mp_getSizedContents m = Inr (cs ! i)"
    by (simp add: wire_part_def)
  show "isFirst (wire_part sz mt mid ts cs i) = Inr False"
    using i(2) assms(4) by (simp add: wire_part_def isFirst_part)
qed

lemma getters_first:
  assumes "chunks sz payload cs" "23 \<le> sz" "sz \<le> 65535" "in_int64 ts"
  shows "isFirst (wire_part sz mt mid ts cs 0) = Inr True"
    "\<exists>m. firstMessagePartFromBytes (wire_part sz mt mid ts cs 0) = Inr m \<and>
    mp_getID (messagePart.truncate m) = Inr mid \<and> mp_getPart (messagePart.truncate m) = Inr 0 \<and>
    mp_getSizedContents (messagePart.truncate m) = Inr (cs ! 0) \<and> fmp_getType m = Inr mt \<and>
    fmp_getNumParts m = Inr (word_of_nat (length cs)) \<and> fmp_getTimestamp m = Inr ts"
proof -
  have "length (cs ! 0) \<le> sz - 22" using assms(1) by (simp add: chunks_def)
  then have "firstHeaderLen + length (cs ! 0) \<le> sz" "length (cs ! 0) < 2 ^ 16"
    using assms(2,3) by (auto simp: part_lens)
  from parse_first_part [OF this assms(4), of mt mid "word_of_nat (length cs)"]
  show "\<exists>m. firstMessagePartFromBytes (wire_part sz mt mid ts cs 0) = Inr m \<and>
    mp_getID (messagePart.truncate m) = Inr mid \<and> mp_getPart (messagePart.truncate m) = Inr 0 \<and>
    mp_getSizedContents (messagePart.truncate m) = Inr (cs ! 0) \<and> fmp_getType m = Inr mt \<and>
    fmp_getNumParts m = Inr (word_of_nat (length cs)) \<and> fmp_getTimestamp m = Inr ts"
    by (simp add: wire_part_def)
  show "isFirst (wire_part sz mt mid ts cs 0) = Inr True" by (simp add: wire_part_def isFirst_first)
qed

text \<open>The message whose parts are on the wire.\<close>

definition wire_transfer :: "bytes \<Rightarrow> u32 \<Rightarrow> int \<Rightarrow> bytes list \<Rightarrow> u64 \<Rightarrow> 'h \<Rightarrow> 'h transfer" where
  "wire_transfer sender mt ts cs full h =
     \<lparr>tr_parts = (\<lambda>i. cs ! i), tr_num = length cs, tr_type = mt, tr_time = ts, tr_sender = sender,
      tr_mid = full, tr_handle = h\<rparr>"

lemma HandlePartition_wire:
  assumes "chunks sz payload cs" "23 \<le> sz" "sz \<le> 65535" "in_int64 ts" "i < length cs"
    and "pt_process K idString w p sender mid = Inr (full, p1, w1)"
  shows "HandlePartition K idString blake2b newMessageID w p sender (wire_part sz mt mid ts cs i) fp residue =
    res_bind (ps_receive K idString blake2b newMessageID (wire_transfer sender mt ts cs full h) fp residue (KV_Now K w1)
      w1 (pt_partition p1) i) (\<lambda>(msg, keyRes, part', w2). Inr (msg, keyRes, p1\<lparr>pt_partition := part'\<rparr>, w2))"
proof (cases "i = 0")
  case True
  from getters_first [OF assms(1-4), of mt mid] obtain m where
    "isFirst (wire_part sz mt mid ts cs 0) = Inr True"
    "firstMessagePartFromBytes (wire_part sz mt mid ts cs 0) = Inr m"
    "mp_getID (messagePart.truncate m) = Inr mid" "mp_getPart (messagePart.truncate m) = Inr 0"
    "mp_getSizedContents (messagePart.truncate m) = Inr (cs ! 0)" "fmp_getType m = Inr mt"
    "fmp_getNumParts m = Inr (word_of_nat (length cs))" "fmp_getTimestamp m = Inr ts" by blast
  with True assms(6) show ?thesis
    by (simp add: HandlePartition_def ps_receive_def wire_transfer_def)
next
  case False
  with getters_part [OF assms(1-3) _ assms(5), of mt mid ts] obtain m where
    "isFirst (wire_part sz mt mid ts cs i) = Inr False"
    "messagePartFromBytes (wire_part sz mt mid ts cs i) = Inr m" "mp_getID m = Inr mid"
    "mp_getPart m = Inr (word_of_nat i)" "mp_getSizedContents m = Inr (cs ! i)" by blast
  with False assms(6) show ?thesis
    by (simp add: HandlePartition_def ps_receive_def wire_transfer_def)
qed

lemma process_total:
  assumes "sets_succeed K"
  shows "\<exists>f c' w'. ProcessReceivedMessageID K idString w c mid = Inr (f, c', w') \<and>
    c_kv c' = c_kv c \<and> c_partner c' = c_partner c \<and>
    (w' = w \<or> (\<exists>obj. KV_Set K (c_kv c) w (makeConversationKey idString (c_partner c)) obj = (None, w')))"
proof -
  have save: "\<exists>w'. c_must_save K idString w c' = Inr w' \<and>
      (\<exists>obj. KV_Set K (c_kv c') w (makeConversationKey idString (c_partner c')) obj = (None, w'))" for c' :: "'a Conversation"
    using assms unfolding c_must_save_def c_save_def sets_succeed_def
    by (metis (mono_tags, lifting) case_prod_conv option.simps(4) prod.collapse)
  from save [of "c\<lparr>c_numReceivedRevolutions := c_numReceivedRevolutions c + 1, c_lastReceivedID := mid\<rparr>"]
    save [of "c\<lparr>c_lastReceivedID := mid\<rparr>"]
  show ?thesis by (auto simp: ProcessReceivedMessageID_def Let_def)
qed

text \<open>The receiver: its conversation with the sender is loaded, near the number of the message, and its
  records are kept apart from the message's.\<close>

definition receiving ::
  "('h, 'w) KV_ops \<Rightarrow> (bytes \<Rightarrow> string) \<Rightarrow> 'h transfer \<Rightarrow> 'h Partitioner \<Rightarrow> bool" where
  "receiving K idString T p =
     (\<exists>c. cs_loadedConversations (pt_conversation p) (tr_sender T) = Some c \<and> c_partner c = tr_sender T \<and>
        close_to (unat (tr_mid T)) (full_last c) \<and> write_apart K (c_kv c) (tr_handle T) \<and>
        CHR 0x5C \<notin> set (makeConversationKey idString (tr_sender T)) \<and>
        transfer_handles K idString T (ps_kv (pt_partition p)))"

lemma ps_holds_world:
  assumes "\<And>key ver. CHR 0x5C \<notin> set key \<Longrightarrow> KV_Get K (tr_handle T) w' key ver = KV_Get K (tr_handle T) w key ver"
  shows "ps_holds K blake2b T residue S w' s = ps_holds K blake2b T residue S w s"
proof -
  have "loadPart K w' (tr_handle T) i = loadPart K w (tr_handle T) i" for i
    using assms part_key_no_sep by (simp add: loadPart_def)
  moreover have "CHR 0x5C \<notin> set mpm_messageKey" by (simp add: mpm_messageKey_def)
  ultimately show ?thesis using assms by (simp add: ps_holds_def mpm_inv_def split: option.split)
qed

lemma pt_process_receiving:
  assumes "sets_succeed K" "receiving K idString T p" "ps_holds K blake2b T residue S w (pt_partition p)"
    and "mid = word_of_nat (unat (tr_mid T))"
  shows "\<exists>p1 w1. pt_process K idString w p (tr_sender T) mid = Inr (tr_mid T, p1, w1) \<and>
    pt_partition p1 = pt_partition p \<and> receiving K idString T p1 \<and> ps_holds K blake2b T residue S w1 (pt_partition p)"
proof -
  obtain c where c: "cs_loadedConversations (pt_conversation p) (tr_sender T) = Some c" "c_partner c = tr_sender T"
    "close_to (unat (tr_mid T)) (full_last c)" "write_apart K (c_kv c) (tr_handle T)"
    "CHR 0x5C \<notin> set (makeConversationKey idString (tr_sender T))"
    "transfer_handles K idString T (ps_kv (pt_partition p))"
    using assms(2) unfolding receiving_def by blast
  obtain f c' w' where pr: "ProcessReceivedMessageID K idString w c mid = Inr (f, c', w')"
    "c_kv c' = c_kv c" "c_partner c' = c_partner c"
    "w' = w \<or> (\<exists>obj. KV_Set K (c_kv c) w (makeConversationKey idString (c_partner c)) obj = (None, w'))"
    using process_total [OF assms(1)] by blast
  have F: "unat (tr_mid T) < 2 ^ 64" using unsigned_less [of "tr_mid T", where ?'a = nat] by simp
  from process_close [OF c(3) F pr(1) [unfolded assms(4)]]
  have f: "f = tr_mid T" "full_last c' = max (full_last c) (unat (tr_mid T))" by (simp_all add: word_unat_eq_iff)
  have "KV_Get K (tr_handle T) w' key ver = KV_Get K (tr_handle T) w key ver" if "CHR 0x5C \<notin> set key" for key ver
    using pr(4) c(2,4,5) that unfolding write_apart_def by metis
  from ps_holds_world [OF this] assms(3) have "ps_holds K blake2b T residue S w' (pt_partition p)" by simp
  moreover have "close_to (unat (tr_mid T)) (full_last c')" using f(2) c(3) by (auto simp: close_to_def)
  ultimately show ?thesis
    using c pr(1-3) f(1) by (auto simp: pt_process_def cs_Get_def receiving_def cs_put_def)
qed

context versioned_kv
begin

lemma pt_step:
  assumes "sets_succeed K" "deletes_succeed K" "chunks sz payload cs" "23 \<le> sz" "sz \<le> 65535" "in_int64 ts"
    and "T = wire_transfer sender mt ts cs full h" "receiving K idString T p"
    and "ps_holds K blake2b T residue S w (pt_partition p)" "i < length cs" "i \<notin> S"
    and "mid = word_of_nat (unat full)"
  shows "insert i S \<noteq> {..<length cs} \<Longrightarrow>
      \<exists>p' w'. HandlePartition K idString blake2b newMessageID w p sender (wire_part sz mt mid ts cs i) fp residue =
          Inr (None, [], p', w') \<and>
        receiving K idString T p' \<and> ps_holds K blake2b T residue (insert i S) w' (pt_partition p')"
    and "insert i S = {..<length cs} \<Longrightarrow>
      \<exists>m p' w'. HandlePartition K idString blake2b newMessageID w p sender (wire_part sz mt mid ts cs i) fp residue =
          Inr (Some m, residue, p', w') \<and> whole_message T m"
proof -
  have T: "tr_sender T = sender" "tr_mid T = full" "tr_num T = length cs" by (simp_all add: assms(7) wire_transfer_def)
  obtain p1 w1 where p1: "pt_process K idString w p sender mid = Inr (full, p1, w1)"
    "pt_partition p1 = pt_partition p" "receiving K idString T p1" "ps_holds K blake2b T residue S w1 (pt_partition p1)"
    using pt_process_receiving [OF assms(1,8,9)] assms(12) T by auto
  have th: "transfer_handles K idString T (ps_kv (pt_partition p1))"
    using p1(3) by (auto simp: receiving_def)
  note hw = HandlePartition_wire [OF assms(3-6,10) p1(1), where h = h and mt = mt, folded assms(7)]
  have i: "i < tr_num T" using assms(10) T by simp
  note st = ps_step [OF assms(1,2) th p1(4) i assms(11), where now = "KV_Now K w1"]
  { assume "insert i S \<noteq> {..<length cs}"
    then obtain s' w' where s': "ps_receive K idString blake2b newMessageID T fp residue (KV_Now K w1) w1 (pt_partition p1) i =
        Inr (None, [], s', w')" "ps_kv s' = ps_kv (pt_partition p1)" "ps_holds K blake2b T residue (insert i S) w' s'"
      using st(1) T(3) by metis
    moreover have "receiving K idString T (p1\<lparr>pt_partition := s'\<rparr>)"
      using p1(3) s'(2) by (simp add: receiving_def)
    ultimately show "\<exists>p' w'. HandlePartition K idString blake2b newMessageID w p sender (wire_part sz mt mid ts cs i) fp residue =
          Inr (None, [], p', w') \<and>
        receiving K idString T p' \<and> ps_holds K blake2b T residue (insert i S) w' (pt_partition p')"
      by (simp add: hw) }
  { assume "insert i S = {..<length cs}"
    then obtain m s' w' where "ps_receive K idString blake2b newMessageID T fp residue (KV_Now K w1) w1 (pt_partition p1) i =
        Inr (Some m, residue, s', w')" "whole_message T m"
      using st(2) T(3) by metis
    then show "\<exists>m p' w'. HandlePartition K idString blake2b newMessageID w p sender (wire_part sz mt mid ts cs i) fp residue =
          Inr (Some m, residue, p', w') \<and> whole_message T m"
      by (simp add: hw) }
qed

lemma pt_receive_wire:
  assumes "sets_succeed K" "deletes_succeed K" "chunks sz payload cs" "23 \<le> sz" "sz \<le> 65535" "in_int64 ts"
    and "T = wire_transfer sender mt ts cs full h" "mid = word_of_nat (unat full)"
  shows "receiving K idString T p \<Longrightarrow> ps_holds K blake2b T residue S w (pt_partition p) \<Longrightarrow>
    distinct is \<Longrightarrow> is \<noteq> [] \<Longrightarrow> set is \<inter> S = {} \<Longrightarrow> set is \<union> S = {..<length cs} \<Longrightarrow>
    \<exists>m p' w'. pt_receive_all K idString blake2b newMessageID w p sender fp residue (map (wire_part sz mt mid ts cs) is) =
        Inr (replicate (length is - 1) (None, []) @ [(Some m, residue)], p', w') \<and> whole_message T m"
proof (induction "is" arbitrary: S w p)
  case (Cons i "is")
  have i: "i < length cs" "i \<notin> S" using Cons.prems(5,6) by auto
  note step = pt_step [OF assms(1-7) Cons.prems(1,2) i assms(8), of newMessageID fp]
  show ?case
  proof (cases "is = []")
    case True
    with Cons.prems(6) have "insert i S = {..<length cs}" by simp
    from step(2) [OF this] True show ?thesis by auto
  next
    case False
    then obtain j where "j \<in> set is" by (cases "is") auto
    with Cons.prems(3,5,6) have "j \<notin> insert i S" "j \<in> {..<length cs}" by auto
    then have "insert i S \<noteq> {..<length cs}" by metis
    from step(1) [OF this] obtain p1 w1 where p1:
      "HandlePartition K idString blake2b newMessageID w p sender (wire_part sz mt mid ts cs i) fp residue = Inr (None, [], p1, w1)"
      "receiving K idString T p1" "ps_holds K blake2b T residue (insert i S) w1 (pt_partition p1)" by blast
    have "replicate (length (i # is) - 1) (None :: receive_Message option, [] :: bytes) = (None, []) # replicate (length is - 1) (None, [])"
      using False by (cases "is") simp_all
    moreover have "\<exists>m p' w'. pt_receive_all K idString blake2b newMessageID w1 p1 sender fp residue (map (wire_part sz mt mid ts cs) is) =
        Inr (replicate (length is - 1) (None, []) @ [(Some m, residue)], p', w') \<and> whole_message T m"
      by (rule Cons.IH [OF p1(2,3)]) (use Cons.prems False in auto)
    ultimately show ?thesis using p1(1) by (elim exE conjE) (simp del: replicate.simps length_Cons)
  qed
qed simp

end

lemma GetNextSendID_truncates:
  "GetNextSendID K idString w c = Inr ((full, mid), c', w') \<Longrightarrow>
   full = c_nextSentID c \<and> mid = word_of_nat (unat full) \<and> c_nextSentID c' = c_nextSentID c + 1 \<and> c_partner c' = c_partner c"
  by (auto simp: GetNextSendID_def Let_def res_bind_Inr_iff truncated_id)

lemma Partition_inverts:
  assumes "sized sz p" "23 \<le> sz" "Partition K idString w p recipient mt ts payload = Inr (Inr (parts, full), p', w')"
  shows "\<exists>cs. chunks sz payload cs \<and> parts = map (wire_part sz mt (word_of_nat (unat full)) ts cs) [0..<length cs]"
proof -
  have len: "int (length payload) \<le> pt_maxSize p"
    using assms(3) by (auto simp: Partition_def split: if_splits)
  obtain c conv w1 g mid c' w2 where g: "cs_Get K idString w (pt_conversation p) recipient = Inr (c, conv, w1)"
    "GetNextSendID K idString w1 c = Inr ((g, mid), c', w2)"
    using assms(3) len by (auto simp: Partition_def res_bind_Inr_iff)
  from Partition_parts [OF assms(1,2) len g, of mt ts] assms(3) GetNextSendID_truncates [OF g(2)] show ?thesis by auto
qed

section \<open>Properties\<close>

text \<open>\<open>Partition\<close> covers the payload. A payload over the maximal size is refused and nothing changes.
  Any other one is split into between 1 and 255 parts of exactly the message size; part \<open>i\<close> carries the
  truncated message number, its own number \<open>i\<close> and its chunk, only part 0 looks like a first part and
  says how many parts there are, and the chunks in sequence are the payload. The full number returned
  is the next one of the conversation.\<close>

theorem Partition_covers_payload:
  assumes "sized sz p" "23 \<le> sz" "sz \<le> 65535" "in_int64 ts" "sets_succeed K"
    and "cs_loadedConversations (pt_conversation p) recipient = Some c"
  shows "if int (length payload) > pt_maxSize p
    then Partition K idString w p recipient mt ts payload = Inr (Inl PayloadTooLong, p, w)
    else \<exists>parts cs p' w'. Partition K idString w p recipient mt ts payload = Inr (Inr (parts, c_nextSentID c), p', w') \<and>
      sized sz p' \<and> 1 \<le> length parts \<and> length parts \<le> 255 \<and> length cs = length parts \<and> concat cs = payload \<and>
      (\<forall>i < length parts. length (parts ! i) = sz \<and> isFirst (parts ! i) = Inr (i = 0)) \<and>
      (\<exists>m. firstMessagePartFromBytes (parts ! 0) = Inr m \<and>
        mp_getID (messagePart.truncate m) = Inr (word_of_nat (unat (c_nextSentID c))) \<and>
        mp_getSizedContents (messagePart.truncate m) = Inr (cs ! 0) \<and> fmp_getType m = Inr mt \<and>
        fmp_getNumParts m = Inr (word_of_nat (length parts)) \<and> fmp_getTimestamp m = Inr ts) \<and>
      (\<forall>i. 0 < i \<and> i < length parts \<longrightarrow> (\<exists>m. messagePartFromBytes (parts ! i) = Inr m \<and>
        mp_getID m = Inr (word_of_nat (unat (c_nextSentID c))) \<and> mp_getPart m = Inr (word_of_nat i) \<and>
        mp_getSizedContents m = Inr (cs ! i)))"
proof (cases "int (length payload) > pt_maxSize p")
  case True
  then show ?thesis by (simp add: Partition_def)
next
  case False
  let ?conv = "pt_conversation p" and ?mid = "word_of_nat (unat (c_nextSentID c)) :: u32"
  have g: "cs_Get K idString w ?conv recipient = Inr (c, ?conv, w)" using assms(6) by (simp add: cs_Get_def)
  obtain w2 where "c_must_save K idString w (c\<lparr>c_nextSentID := c_nextSentID c + 1\<rparr>) = Inr w2"
    using assms(5) unfolding c_must_save_def c_save_def sets_succeed_def
    by (metis (mono_tags, lifting) case_prod_conv option.simps(4) prod.collapse)
  then obtain c' where n: "GetNextSendID K idString w c = Inr ((c_nextSentID c, ?mid), c', w2)"
    by (simp add: GetNextSendID_def Let_def truncated_id)
  from Partition_parts [OF assms(1,2) _ g n] False obtain cs where
    cs: "chunks sz payload cs" "Partition K idString w p recipient mt ts payload =
      Inr (Inr (map (wire_part sz mt ?mid ts cs) [0..<length cs], c_nextSentID c), p\<lparr>pt_conversation := cs_put ?conv c'\<rparr>, w2)"
    by (metis not_less)
  have len: "length (wire_part sz mt ?mid ts cs i) = sz" if "i < length cs" for i
  proof -
    have "length (cs ! i) \<le> sz - 8" "length (cs ! 0) \<le> sz - 22" using cs(1) that by (auto simp: chunks_def)
    moreover obtain d where "sz = 23 + d" using assms(2) le_Suc_ex by blast
    ultimately show ?thesis by (simp add: wire_part_def part_bytes_def first_part_bytes_def part_lens)
  qed
  have first: "isFirst (wire_part sz mt ?mid ts cs i) = Inr (i = 0)" if "i < length cs" for i
    using getters_part(1) [OF cs(1) assms(2,3) _ that] getters_first(1) [OF cs(1) assms(2-4)] by (cases "i = 0") auto
  have "sized sz (p\<lparr>pt_conversation := cs_put ?conv c'\<rparr>)" using assms(1) by (simp add: sized_def)
  moreover have "1 \<le> length cs" "length cs \<le> 255" "concat cs = payload" using cs(1) by (simp_all add: chunks_def)
  moreover have "0 < length cs" using calculation(2) by linarith
  ultimately show ?thesis
    using cs False len first getters_first(2) [OF cs(1) assms(2-4), of mt ?mid] getters_part(2) [OF cs(1) assms(2,3), of _ mt ?mid ts]
    by (intro if_not_P [THEN iffD2]) (auto intro!: exI [of _ cs] simp: Suc_le_eq)
qed

text \<open>C1: What one side partitions the other side gets back. The parts that \<open>Partition\<close> made are handed
  to the receiver's \<open>HandlePartition\<close>, each once and in any order. If the message number is within the
  window of the receiver's conversation and the receiver has not seen the message, all but the last
  call report no message, and the last returns the payload with its type, sender and time, and the key
  residue that came with the first part.\<close>

theorem partition_handle_roundtrip:
  assumes "sized sz p" "23 \<le> sz" "sz \<le> 65535" "in_int64 ts"
    and "Partition K idString w p recipient mt ts payload = Inr (Inr (parts, full), p', w')"
    and "ekv_store E" "K2 = versioned_ops E" "sets_succeed K2" "deletes_succeed K2"
    and "cs_loadedConversations (pt_conversation r) sender = Some c" "c_partner c = sender"
    and "close_to (unat full) (full_last c)" "CHR 0x5C \<notin> set (makeConversationKey idString2 sender)"
    and "derived cp (c_kv c)" "derived sp (ps_kv (pt_partition r))" "length cp \<noteq> length sp + 2"
    and "kv_Prefix (ps_kv (pt_partition r)) (MakePartnerPrefix idString2 sender) = Inr h1"
    and "kv_Prefix h1 (makeMultiPartMessagePrefix full) = Inr h"
    and "ps_multiParts (pt_partition r) (getMultiPartID blake2b sender full) = None"
    and "KV_Get K2 h v mpm_messageKey currentMultiPartMessageVersion = Inl KeyNotFound"
    and "distinct is" "set is = {..<length parts}"
  shows "\<exists>m r' v'. pt_receive_all K2 idString2 blake2b newMessageID v r sender fp residue (map (nth parts) is) =
      Inr (replicate (length parts - 1) (None, []) @ [(Some m, residue)], r', v') \<and>
    rm_Payload m = payload \<and> rm_MessageType m = mt \<and> rm_Sender m = sender \<and> rm_Timestamp m = ts"
proof -
  let ?mid = "word_of_nat (unat full) :: u32"
  obtain cs where cs: "chunks sz payload cs" "parts = map (wire_part sz mt ?mid ts cs) [0..<length cs]"
    using Partition_inverts [OF assms(1,2,5)] by blast
  have n: "length parts = length cs" "1 \<le> length cs" "length cs \<le> 255" "concat cs = payload"
    using cs by (simp_all add: chunks_def)
  define T where "T = wire_transfer sender mt ts cs full h"
  note tr = T_def [unfolded wire_transfer_def]
  let ?path = "(sp @ [MakePartnerPrefix idString2 sender]) @ [makeMultiPartMessagePrefix full]"
  have dh: "derived ?path h" by (rule derived_prefix [OF derived_prefix [OF assms(15,17)] assms(18)])
  have ne: "cp \<noteq> ?path" "sp \<noteq> ?path" using assms(16) by auto
  have rc: "receiving K2 idString2 T r"
    using assms(7,10-13,17,18) ekv_store.derived_apart [OF assms(6,14) dh ne(1)]
      ekv_store.derived_apart [OF assms(6,15) dh ne(2)]
    by (auto simp: receiving_def tr transfer_handles_def versioned_ops_def)
  have ph: "ps_holds K2 blake2b T residue {} v (pt_partition r)"
    using assms(19,20) n by (simp add: ps_holds_def tr)
  have is_len: "length is = length cs" using distinct_card [OF assms(21)] assms(22) n(1) by simp
  then have is_ne: "is \<noteq> []" using n(2) by (metis list.size(3) not_one_le_zero)
  have vk: "versioned_kv K2" using ekv_store.versioned [OF assms(6)] assms(7) by simp
  have "\<exists>m p' w'. pt_receive_all K2 idString2 blake2b newMessageID v r sender fp residue
      (map (wire_part sz mt ?mid ts cs) is) = Inr (replicate (length is - 1) (None, []) @ [(Some m, residue)], p', w') \<and>
    whole_message T m"
    by (rule versioned_kv.pt_receive_wire [OF vk assms(8,9) cs(1) assms(2-4) T_def refl rc ph assms(21) is_ne])
      (use assms(22) n(1) in simp_all)
  then obtain m p' w' where m: "pt_receive_all K2 idString2 blake2b newMessageID v r sender fp residue
      (map (wire_part sz mt ?mid ts cs) is) = Inr (replicate (length is - 1) (None, []) @ [(Some m, residue)], p', w')"
    "whole_message T m" by blast
  have eq: "map (nth parts) is = map (wire_part sz mt ?mid ts cs) is"
    using assms(22) n(1) cs(2) by (intro map_cong) auto
  have "concat (map (tr_parts T) [0..<tr_num T]) = payload"
    using n(4) by (simp add: tr map_nth)
  then have "rm_Payload m = payload" "rm_MessageType m = mt" "rm_Sender m = sender" "rm_Timestamp m = ts"
    using m(2) by (simp_all add: whole_message_def tr)
  with m(1) show ?thesis unfolding eq n(1) is_len by blast
qed

definition conv_of :: "bytes \<Rightarrow> kv \<Rightarrow> kv Conversation" where
  "conv_of partner h = \<lparr>c_lastReceivedID = 0, c_numReceivedRevolutions = 0, c_nextSentID = 0, c_partner = partner, c_kv = h\<rparr>"

definition pt_example :: "bytes \<Rightarrow> kv Partitioner" where
  "pt_example partner =
     \<lparr>pt_baseMessageSize = 30, pt_firstContentsSize = 8, pt_partContentsSize = 22, pt_deltaFirstPart = 14,
      pt_maxSize = 8 + 254 * 22,
      pt_conversation = \<lparr>cs_loadedConversations = [partner \<mapsto> conv_of partner NewKV], cs_kv = NewKV\<rparr>,
      pt_partition = \<lparr>ps_multiParts = Map.empty, ps_activeParts = [], ps_heap = [], ps_kv = NewKV\<rparr>\<rparr>"

lemma pt_example_sized: "sized 30 (pt_example partner)"
  by (simp add: sized_def pt_example_def)

lemma pt_example_Partition:
  "\<exists>parts p' w'. Partition mem_KV idString Map.empty (pt_example [2]) [2] 7 9 [1, 2, 3, 4, 5, 6, 7, 8, 9, 10] =
     Inr (Inr (parts, 0), p', w')"
proof -
  let ?c = "conv_of [2] NewKV" and ?conv = "pt_conversation (pt_example [2])"
  have g: "cs_Get mem_KV idString Map.empty ?conv [2] = Inr (?c, ?conv, Map.empty)"
    by (simp add: cs_Get_def pt_example_def)
  have "\<exists>mid c' w'. GetNextSendID mem_KV idString Map.empty ?c = Inr ((0, mid), c', w')"
    by (simp add: GetNextSendID_def Let_def c_must_save_def c_save_def mem_KV_simps conv_of_def)
  then obtain mid c' w' where "GetNextSendID mem_KV idString Map.empty ?c = Inr ((0, mid), c', w')" by blast
  moreover have "int (length [1, 2, 3, 4, 5, 6, 7, 8, 9, 10 :: byte]) \<le> pt_maxSize (pt_example [2])"
    by (simp add: pt_example_def)
  ultimately show ?thesis using Partition_parts [OF pt_example_sized _ _ g, of "[1, 2, 3, 4, 5, 6, 7, 8, 9, 10]" _ _ _ _ 7 9] by auto
qed

theorem Partition_covers_payload_witness:
  "\<exists>parts p' w'. Partition mem_KV (\<lambda>_. ''s'') Map.empty (pt_example [2]) [2] 7 9 [1, 2, 3, 4, 5, 6, 7, 8, 9, 10] =
     Inr (Inr (parts, 0), p', w') \<and> (\<forall>i < length parts. length (parts ! i) = 30)"
proof -
  have "cs_loadedConversations (pt_conversation (pt_example [2])) [2] = Some (conv_of [2] NewKV)"
    "\<not> int (length [1, 2, 3, 4, 5, 6, 7, 8, 9, 10 :: byte]) > pt_maxSize (pt_example [2])"
    by (simp_all add: pt_example_def)
  with Partition_covers_payload [OF pt_example_sized _ _ _ mem_sets this(1), of 9 "[1, 2, 3, 4, 5, 6, 7, 8, 9, 10]" "\<lambda>_. ''s''" Map.empty 7]
  show ?thesis by (simp add: in_int64_def conv_of_def) blast
qed

theorem partition_handle_roundtrip_witness:
  "\<exists>parts p' w' m r' v'. Partition mem_KV (\<lambda>_. ''s'') Map.empty (pt_example [2]) [2] 7 9 [1, 2, 3, 4, 5, 6, 7, 8, 9, 10] =
      Inr (Inr (parts, 0), p', w') \<and>
    pt_receive_all mem_KV (\<lambda>_. ''s'') (\<lambda>_. []) (\<lambda>_ _. []) Map.empty (pt_example [5]) [5] [] [4]
      (map (nth parts) (rev [0..<length parts])) =
      Inr (replicate (length parts - 1) (None, []) @ [(Some m, [4])], r', v') \<and>
    rm_Payload m = [1, 2, 3, 4, 5, 6, 7, 8, 9, 10]"
proof -
  let ?h1 = "projr (kv_Prefix NewKV (MakePartnerPrefix (\<lambda>_. ''s'') [5]))"
  let ?h = "projr (kv_Prefix ?h1 (makeMultiPartMessagePrefix 0))"
  obtain parts p' w' where p: "Partition mem_KV (\<lambda>_. ''s'') Map.empty (pt_example [2]) [2] 7 9 [1, 2, 3, 4, 5, 6, 7, 8, 9, 10] =
      Inr (Inr (parts, 0), p', w')" using pt_example_Partition by blast
  have ex: "cs_loadedConversations (pt_conversation (pt_example [5])) [5] = Some (conv_of [5] NewKV)"
    "c_partner (conv_of [5] NewKV) = [5]" "close_to (unat (0 :: u64)) (full_last (conv_of [5] NewKV))"
    "CHR 0x5C \<notin> set (makeConversationKey (\<lambda>_. ''s'') [5])" "length ([] :: string list) \<noteq> length ([] :: string list) + 2"
    "kv_Prefix (ps_kv (pt_partition (pt_example [5]))) (MakePartnerPrefix (\<lambda>_. ''s'') [5]) = Inr ?h1"
    "kv_Prefix ?h1 (makeMultiPartMessagePrefix 0) = Inr ?h"
    "ps_multiParts (pt_partition (pt_example [5])) (getMultiPartID (\<lambda>_. []) [5] 0) = None"
    "KV_Get mem_KV ?h Map.empty mpm_messageKey currentMultiPartMessageVersion = Inl KeyNotFound"
    by (simp_all add: pt_example_def conv_of_def close_to_def full_last_def makeConversationKey_def MakePartnerPrefix_def
        derived_new kv_Prefix_def NewKV_def HasPrefix_def makeMultiPartMessagePrefix_def mem_KV_simps
        nondigit_notin_nat_dec is_digit_def)
  have d: "derived [] (c_kv (conv_of [5] NewKV))" "derived [] (ps_kv (pt_partition (pt_example [5])))"
    by (simp_all add: conv_of_def pt_example_def derived_new)
  have "distinct (rev [0..<length parts])" "set (rev [0..<length parts]) = {..<length parts}" by auto
  from partition_handle_roundtrip [OF pt_example_sized _ _ _ p mem.ekv_store_axioms refl mem_sets mem_deletes ex(1-4) d ex(5-9) this,
      of "\<lambda>_ _. []" "[]" "[4]"] p
  show ?thesis by (simp add: in_int64_def) blast
qed

end
