(* ===== verification/Session.thy ===== *)
theory Session
  imports State_Vector
begin

text \<open>
  The key sessions of the ratchet (\<open>e2e/ratchet/partner/session\<close>). A session derives a fixed number of
  keys from a base key; a state vector records which are used, the last \<open>NumRekeys\<close> are kept for rekey
  messages, and a negotiation status says how far the partner has confirmed the session. The
  cryptographic libraries are the record \<open>e2e_crypto\<close>, an argument of the definitions; a \<open>float64\<close> is its bit
  pattern and the two computations on floats are functions of that record. The handler to which
  received keys are registered is the record \<open>CypherHandler\<close> with a state of its own. A nil private key
  or base key in the constructor is \<open>None\<close>.
\<close>

section \<open>Parameters and constants\<close>

type_synonym SessionID = bytes
type_synonym Negotiation = byte
type_synonym RelationshipType = u64
type_synonym float64 = u64

definition Unconfirmed :: Negotiation where "Unconfirmed = 0"
definition Sending :: Negotiation where "Sending = 1"
definition Sent :: Negotiation where "Sent = 2"
definition Confirmed :: Negotiation where "Confirmed = 3"
definition NewSessionTriggered :: Negotiation where "NewSessionTriggered = 4"
definition NewSessionCreated :: Negotiation where "NewSessionCreated = 5"

definition Send :: RelationshipType where "Send = 0"
definition Receive :: RelationshipType where "Receive = 1"

definition rt_Prefix :: "RelationshipType \<Rightarrow> fault + string" where
  "rt_Prefix rt = (if rt = Send then Inr ''Send'' else if rt = Receive then Inr ''Receive'' else Inl FatalPanic)"

datatype Status = Active | RekeyNeeded | Empty | RekeyEmpty

text \<open>The float constant 0.05 is given by its bit pattern. \<open>1 / 10\<close> is a division of integer constants.\<close>

definition minKeys :: u16 where "minKeys = 1000"
definition maxKeys :: u16 where "maxKeys = 2000"
definition rekeyThrshold :: float64 where "rekeyThrshold = 0x3FA999999999999A"
definition numReKeys :: u16 where "numReKeys = 16"
definition rekeyRatio :: float64 where "rekeyRatio = 0"

record Params =
  par_MinKeys :: u16
  par_MaxKeys :: u16
  par_RekeyThreshold :: float64
  par_NumRekeys :: u16
  par_UnconfirmedRetryRatio :: float64

definition GetDefaultParams :: Params where
  "GetDefaultParams =
     \<lparr>par_MinKeys = minKeys, par_MaxKeys = maxKeys, par_RekeyThreshold = rekeyThrshold,
      par_NumRekeys = numReKeys, par_UnconfirmedRetryRatio = rekeyRatio\<rparr>"

definition par_MarshalJSON :: "Params \<Rightarrow> json" where
  "par_MarshalJSON p =
     JObj [(''MinKeys'', word_json (par_MinKeys p)), (''MaxKeys'', word_json (par_MaxKeys p)),
           (''RekeyThreshold'', JFloat (par_RekeyThreshold p)), (''NumRekeys'', word_json (par_NumRekeys p)),
           (''UnconfirmedRetryRatio'', JFloat (par_UnconfirmedRetryRatio p))]"

fun json_float :: "json \<Rightarrow> float64 option" where
  "json_float (JFloat f) = Some f"
| "json_float JNull = Some 0"
| "json_float _ = None"

definition par_UnmarshalJSON :: "json \<Rightarrow> Params option" where
  "par_UnmarshalJSON j =
     (case (json_word (json_field j ''MinKeys''), json_word (json_field j ''MaxKeys''),
            json_float (json_field j ''RekeyThreshold''), json_word (json_field j ''NumRekeys''),
            json_float (json_field j ''UnconfirmedRetryRatio'')) of
        (Some a, Some b, Some c, Some d, Some e) \<Rightarrow>
          Some \<lparr>par_MinKeys = a, par_MaxKeys = b, par_RekeyThreshold = c, par_NumRekeys = d,
                par_UnconfirmedRetryRatio = e\<rparr>
      | _ \<Rightarrow> None)"

text \<open>The libraries. \<open>ThresholdOf f n\<close> is \<open>uint32(math.Ceil(f * float64(n)))\<close> and \<open>RatioMax f\<close> is
  \<open>uint32(float64(math.MaxUint32) * f)\<close>. \<open>IDUnmarshal\<close> is the check of \<open>id.Unmarshal\<close>.\<close>

record ('k, 'p, 'q) e2e_crypto =
  IntBytes :: "'k \<Rightarrow> bytes"
  IntFromBytes :: "bytes \<Rightarrow> 'k"
  PrivExport :: "'p \<Rightarrow> bytes"
  PrivVariant :: "'p \<Rightarrow> byte"
  PrivImport :: "byte \<Rightarrow> bytes \<Rightarrow> 'p option"
  PubExport :: "'q \<Rightarrow> bytes"
  PubVariant :: "'q \<Rightarrow> byte"
  PubImport :: "byte \<Rightarrow> bytes \<Rightarrow> 'q option"
  CMixHash :: "bytes \<Rightarrow> bytes"
  GenerateSessionKey :: "'k \<Rightarrow> 'k \<Rightarrow> 'k"
  DeriveSecret :: "'p \<Rightarrow> 'q \<Rightarrow> bytes"
  ExpandKey :: "bytes \<Rightarrow> 'k"
  RandInInterval :: "int \<Rightarrow> bytes \<Rightarrow> int"
  ThresholdOf :: "float64 \<Rightarrow> u32 \<Rightarrow> u32"
  RatioMax :: "float64 \<Rightarrow> u32"
  DeriveKeyFingerprint :: "'k \<Rightarrow> u32 \<Rightarrow> bytes \<Rightarrow> bytes"
  DeriveKey :: "'k \<Rightarrow> u32 \<Rightarrow> bytes \<Rightarrow> bytes"
  NewKeyResidue :: "bytes \<Rightarrow> bytes"
  Crypt :: "bytes \<Rightarrow> bytes \<Rightarrow> bytes \<Rightarrow> bytes"
  CreateHMAC :: "bytes \<Rightarrow> bytes \<Rightarrow> bytes"
  VerifyHMAC :: "bytes \<Rightarrow> bytes \<Rightarrow> bytes \<Rightarrow> bool"
  IDUnmarshal :: "bytes \<Rightarrow> bytes option"

definition KeyVariantSidhA :: byte where "KeyVariantSidhA = 1"
definition KeyVariantSidhB :: byte where "KeyVariantSidhB = 2"

definition GetCompatibleSIDHVariant :: "byte \<Rightarrow> byte" where
  "GetCompatibleSIDHVariant otherVariant =
     (if otherVariant AND KeyVariantSidhA = KeyVariantSidhA then KeyVariantSidhB else KeyVariantSidhA)"

section \<open>Identifiers\<close>

definition sessionIDLen :: nat where "sessionIDLen = 32"

definition sid_String :: "SessionID \<Rightarrow> string" where
  "sid_String sid = base64 sid"

definition sid_Unmarshal :: "bytes \<Rightarrow> SessionID option" where
  "sid_Unmarshal b = (if length b \<noteq> sessionIDLen then None else Some (copy_at (replicate sessionIDLen 0) 0 b))"

definition GetSessionIDFromBaseKey :: "('k, 'p, 'q) e2e_crypto \<Rightarrow> 'k \<Rightarrow> SessionID" where
  "GetSessionIDFromBaseKey C baseKey = copy_at (replicate sessionIDLen 0) 0 (CMixHash C (IntBytes C baseKey))"

definition currentSessionVersion :: u64 where "currentSessionVersion = 0"
definition sessionKey :: string where "sessionKey = ''session''"

definition MakeSessionPrefix :: "SessionID \<Rightarrow> string" where
  "MakeSessionPrefix sid = ''session{ID:'' @ sid_String sid @ ''}''"

section \<open>Sessions\<close>

record ('h, 'k, 'p, 'q) Session =
  ss_kv :: 'h
  ss_e2eParams :: Params
  ss_sID :: SessionID
  ss_partner :: "bytes option"
  ss_t :: RelationshipType
  ss_baseKey :: 'k
  ss_myPrivKey :: 'k
  ss_partnerPubKey :: 'k
  ss_mySIDHPrivKey :: 'p
  ss_partnerSIDHPubKey :: 'q
  ss_partnerSource :: SessionID
  ss_relationshipFingerprint :: bytes
  ss_negotiationStatus :: Negotiation
  ss_rekeyThreshold :: u32
  ss_keyState :: "'h StateVector"

datatype ss_error = NoMoreKeys | NextErr sv_error | IllegalChange
  | SessPrefix prefix_error | SessKv kv_error | SessUnmarshal | SessImport | SessKeyState sv_error | HMACFailed

text \<open>A key of a session: what it reads of the session never changes.\<close>

record 'k cypher =
  cy_sID :: SessionID
  cy_baseKey :: 'k
  cy_relationshipFingerprint :: bytes
  cy_keyNum :: u32

record ('k, 'c) CypherHandler =
  AddKey :: "'c \<Rightarrow> 'k cypher \<Rightarrow> 'c"
  DeleteKey :: "'c \<Rightarrow> 'k cypher \<Rightarrow> 'c"

definition newCypher :: "('h, 'k, 'p, 'q) Session \<Rightarrow> u32 \<Rightarrow> 'k cypher" where
  "newCypher s keyNum =
     \<lparr>cy_sID = ss_sID s, cy_baseKey = ss_baseKey s,
      cy_relationshipFingerprint = ss_relationshipFingerprint s, cy_keyNum = keyNum\<rparr>"

definition cy_Fingerprint :: "('k, 'p, 'q) e2e_crypto \<Rightarrow> 'k cypher \<Rightarrow> bytes" where
  "cy_Fingerprint C k = DeriveKeyFingerprint C (cy_baseKey k) (cy_keyNum k) (cy_relationshipFingerprint k)"

definition cy_generateKey :: "('k, 'p, 'q) e2e_crypto \<Rightarrow> 'k cypher \<Rightarrow> bytes" where
  "cy_generateKey C k = DeriveKey C (cy_baseKey k) (cy_keyNum k) (cy_relationshipFingerprint k)"

definition cy_Encrypt :: "('k, 'p, 'q) e2e_crypto \<Rightarrow> 'k cypher \<Rightarrow> bytes \<Rightarrow> bytes \<times> bytes \<times> bytes" where
  "cy_Encrypt C k contents =
     (let fp = cy_Fingerprint C k; key = cy_generateKey C k; residue = NewKeyResidue C key;
          ecrContents = Crypt C key fp contents; mac = CreateHMAC C ecrContents key
      in (ecrContents, mac, residue))"

definition cy_Decrypt ::
  "('k, 'p, 'q) e2e_crypto \<Rightarrow> 'k cypher \<Rightarrow> bytes \<Rightarrow> bytes \<Rightarrow> ss_error + bytes \<times> bytes" where
  "cy_Decrypt C k msgContents msgMac =
     (let fp = cy_Fingerprint C k; key = cy_generateKey C k
      in if \<not> VerifyHMAC C msgContents msgMac key then Inl HMACFailed
         else Inr (Crypt C key fp msgContents, NewKeyResidue C key))"

definition GenerateE2ESessionBaseKey :: "('k, 'p, 'q) e2e_crypto \<Rightarrow> 'k \<Rightarrow> 'k \<Rightarrow> 'p \<Rightarrow> 'q \<Rightarrow> 'k" where
  "GenerateE2ESessionBaseKey C myDHPrivKey theirDHPubKey mySIDHPrivKey theirSIDHPubKey =
     ExpandKey C (CMixHash C (IntBytes C (GenerateSessionKey C myDHPrivKey theirDHPubKey) @
       DeriveSecret C mySIDHPrivKey theirSIDHPubKey))"

definition ss_getUnusedKeys :: "('h, 'k, 'p, 'q) Session \<Rightarrow> fault + 'k cypher list" where
  "ss_getUnusedKeys s = res_bind (GetUnusedKeyNums (ss_keyState s)) (\<lambda>keyNums. Inr (map (newCypher s) keyNums))"

subsection \<open>Storage\<close>

text \<open>Pending negotiations are taken to have failed when a session is loaded.\<close>

definition stored_status :: "Negotiation \<Rightarrow> Negotiation" where
  "stored_status n =
     (if n = Sending then Unconfirmed else if n = NewSessionTriggered then Confirmed else n)"

definition ss_marshal :: "('k, 'p, 'q) e2e_crypto \<Rightarrow> ('h, 'k, 'p, 'q) Session \<Rightarrow> fault + stored" where
  "ss_marshal C s =
     (case ss_partner s of
        None \<Rightarrow> Inl NilDereference
      | Some partner \<Rightarrow>
          Inr (Json (JObj
            [(''E2EParams'', par_MarshalJSON (ss_e2eParams s)),
             (''Type'', word_json (ucast (ss_t s) :: byte)),
             (''BaseKey'', JBytes (IntBytes C (ss_baseKey s))),
             (''MyPrivKey'', JBytes (IntBytes C (ss_myPrivKey s))),
             (''PartnerPubKey'', JBytes (IntBytes C (ss_partnerPubKey s))),
             (''MySIDHPrivKey'', JBytes (PrivExport C (ss_mySIDHPrivKey s))),
             (''MySIDHVariant'', word_json (PrivVariant C (ss_mySIDHPrivKey s))),
             (''PartnerSIDHPubKey'', JBytes (PubExport C (ss_partnerSIDHPubKey s))),
             (''PartnerSIDHVariant'', word_json (PubVariant C (ss_partnerSIDHPubKey s))),
             (''Trigger'', JBytes (ss_partnerSource s)),
             (''RelationshipFingerprint'', JBytes (ss_relationshipFingerprint s)),
             (''Confirmation'', word_json (stored_status (ss_negotiationStatus s))),
             (''RekeyThreshold'', word_json (ss_rekeyThreshold s)),
             (''Partner'', JBytes partner)])))"

text \<open>The fields of \<open>SessionDisk\<close>, when all of them can be read.\<close>

record SessionDisk =
  sd_E2EParams :: Params
  sd_Type :: byte
  sd_BaseKey :: bytes
  sd_MyPrivKey :: bytes
  sd_PartnerPubKey :: bytes
  sd_MySIDHPrivKey :: bytes
  sd_MySIDHVariant :: byte
  sd_PartnerSIDHPubKey :: bytes
  sd_PartnerSIDHVariant :: byte
  sd_Trigger :: bytes
  sd_RelationshipFingerprint :: bytes
  sd_Confirmation :: byte
  sd_RekeyThreshold :: u32
  sd_Partner :: bytes

definition json_session_disk :: "stored \<Rightarrow> SessionDisk option" where
  "json_session_disk d =
     (case d of
        Raw _ \<Rightarrow> None
      | Json j \<Rightarrow>
          (case (par_UnmarshalJSON (json_field j ''E2EParams''), json_word (json_field j ''Type''),
                 json_bytes (json_field j ''BaseKey''), json_bytes (json_field j ''MyPrivKey''),
                 json_bytes (json_field j ''PartnerPubKey''), json_bytes (json_field j ''MySIDHPrivKey''),
                 json_word (json_field j ''MySIDHVariant'')) of
             (Some par, Some t, Some bk, Some mp, Some pp, Some ms, Some mv) \<Rightarrow>
               (case (json_bytes (json_field j ''PartnerSIDHPubKey''), json_word (json_field j ''PartnerSIDHVariant''),
                      json_bytes (json_field j ''Trigger''), json_bytes (json_field j ''RelationshipFingerprint''),
                      json_word (json_field j ''Confirmation''), json_word (json_field j ''RekeyThreshold''),
                      json_bytes (json_field j ''Partner'')) of
                  (Some ps, Some pv, Some tr, Some rf, Some cf, Some rt, Some pa) \<Rightarrow>
                    Some \<lparr>sd_E2EParams = par, sd_Type = t, sd_BaseKey = bk, sd_MyPrivKey = mp, sd_PartnerPubKey = pp,
                          sd_MySIDHPrivKey = ms, sd_MySIDHVariant = mv, sd_PartnerSIDHPubKey = ps,
                          sd_PartnerSIDHVariant = pv, sd_Trigger = tr, sd_RelationshipFingerprint = rf,
                          sd_Confirmation = cf, sd_RekeyThreshold = rt, sd_Partner = pa\<rparr>
                | _ \<Rightarrow> None)
           | _ \<Rightarrow> None))"

definition ss_unmarshal ::
  "('h, 'w) KV_ops \<Rightarrow> ('k, 'p, 'q) e2e_crypto \<Rightarrow> 'w \<Rightarrow> 'h \<Rightarrow> SessionID \<Rightarrow> stored \<Rightarrow> ss_error + ('h, 'k, 'p, 'q) Session" where
  "ss_unmarshal K C w h sID b =
     (case json_session_disk b of
        None \<Rightarrow> Inl SessUnmarshal
      | Some sd \<Rightarrow>
     (case PrivImport C (sd_MySIDHVariant sd) (sd_MySIDHPrivKey sd) of
        None \<Rightarrow> Inl SessImport
      | Some mySIDH \<Rightarrow>
     (case PubImport C (sd_PartnerSIDHVariant sd) (sd_PartnerSIDHPubKey sd) of
        None \<Rightarrow> Inl SessImport
      | Some partnerSIDH \<Rightarrow>
     (case LoadStateVector K w h '''' of
        Inl err \<Rightarrow> Inl (SessKeyState err)
      | Inr keyState \<Rightarrow>
          Inr \<lparr>ss_kv = h, ss_e2eParams = sd_E2EParams sd, ss_sID = sID,
               ss_partner = IDUnmarshal C (sd_Partner sd), ss_t = ucast (sd_Type sd),
               ss_baseKey = IntFromBytes C (sd_BaseKey sd), ss_myPrivKey = IntFromBytes C (sd_MyPrivKey sd),
               ss_partnerPubKey = IntFromBytes C (sd_PartnerPubKey sd), ss_mySIDHPrivKey = mySIDH,
               ss_partnerSIDHPubKey = partnerSIDH,
               ss_partnerSource = copy_at (replicate sessionIDLen 0) 0 (sd_Trigger sd),
               ss_relationshipFingerprint = sd_RelationshipFingerprint sd,
               ss_negotiationStatus = sd_Confirmation sd, ss_rekeyThreshold = sd_RekeyThreshold sd,
               ss_keyState = keyState\<rparr>))))"

definition ss_Save ::
  "('h, 'w) KV_ops \<Rightarrow> ('k, 'p, 'q) e2e_crypto \<Rightarrow> 'w \<Rightarrow> ('h, 'k, 'p, 'q) Session \<Rightarrow> fault + (kv_error option \<times> 'w)" where
  "ss_Save K C w s =
     res_bind (ss_marshal C s) (\<lambda>data.
     Inr (KV_Set K (ss_kv s) w sessionKey
       \<lparr>obj_Version = currentSessionVersion, obj_Timestamp = KV_Now K w, obj_Data = data\<rparr>))"

definition add_keys :: "('k, 'c) CypherHandler \<Rightarrow> 'c \<Rightarrow> 'k cypher list \<Rightarrow> 'c" where
  "add_keys H c cys = foldl (AddKey H) c cys"

definition LoadSession ::
  "('h, 'w) KV_ops \<Rightarrow> ('k, 'p, 'q) e2e_crypto \<Rightarrow> ('k, 'c) CypherHandler \<Rightarrow> 'w \<Rightarrow> 'c \<Rightarrow> 'h \<Rightarrow> SessionID \<Rightarrow> bytes \<Rightarrow>
   fault + ((ss_error + ('h, 'k, 'p, 'q) Session) \<times> 'c)" where
  "LoadSession K C H w c h sessionID relationshipFingerprint =
     (case KV_Prefix K h (MakeSessionPrefix sessionID) of
        Inl err \<Rightarrow> Inr (Inl (SessPrefix err), c)
      | Inr h' \<Rightarrow>
     (case KV_Get K h' w sessionKey currentSessionVersion of
        Inl err \<Rightarrow> Inr (Inl (SessKv err), c)
      | Inr obj \<Rightarrow>
     (case ss_unmarshal K C w h' sessionID (obj_Data obj) of
        Inl err \<Rightarrow> Inr (Inl err, c)
      | Inr s \<Rightarrow>
          let s' = s\<lparr>ss_relationshipFingerprint := relationshipFingerprint\<rparr>
          in if ss_t s = Receive
             then res_bind (ss_getUnusedKeys s) (\<lambda>cys. Inr (Inr s', add_keys H c cys))
             else Inr (Inr s', c))))"

subsection \<open>Construction\<close>

text \<open>\<open>finalizeKeyNegotiation\<close>: \<open>fresh\<close> is the private key, and for each variant the SIDH private key, that the
  random stream gives. The result is the private keys, the base key and the identifier.\<close>

definition finalizeKeyNegotiation ::
  "('k, 'p, 'q) e2e_crypto \<Rightarrow> 'k \<times> (byte \<Rightarrow> 'p) \<Rightarrow> ('k \<times> 'p) option \<Rightarrow> 'k \<Rightarrow> 'q \<Rightarrow> 'k option \<Rightarrow>
   'k \<times> 'p \<times> 'k \<times> SessionID" where
  "finalizeKeyNegotiation C fresh myKeys partnerPubKey partnerSIDHPubKey baseKey =
     (let (myPrivKey, mySIDHPrivKey) =
            (case myKeys of
               None \<Rightarrow> (fst fresh, snd fresh (GetCompatibleSIDHVariant (PubVariant C partnerSIDHPubKey)))
             | Some ks \<Rightarrow> ks);
          bk = (case baseKey of
                  None \<Rightarrow> GenerateE2ESessionBaseKey C myPrivKey partnerPubKey mySIDHPrivKey partnerSIDHPubKey
                | Some k \<Rightarrow> k)
      in (myPrivKey, mySIDHPrivKey, bk, GetSessionIDFromBaseKey C bk))"

definition num_session_keys :: "('k, 'p, 'q) e2e_crypto \<Rightarrow> Params \<Rightarrow> 'k \<Rightarrow> u32" where
  "num_session_keys C p baseKey =
     word_of_int (RandInInterval C (uint (par_MaxKeys p - par_MinKeys p)) (IntBytes C baseKey) + uint (par_MinKeys p))"

definition buildChildKeys ::
  "('h, 'w) KV_ops \<Rightarrow> ('k, 'p, 'q) e2e_crypto \<Rightarrow> ('k, 'c) CypherHandler \<Rightarrow> 'w \<Rightarrow> 'c \<Rightarrow> ('h, 'k, 'p, 'q) Session \<Rightarrow>
   fault + (('h, 'k, 'p, 'q) Session \<times> 'w \<times> 'c)" where
  "buildChildKeys K C H w c s =
     (let p = ss_e2eParams s;
          numKeys = num_session_keys C p (ss_baseKey s);
          threshold = ThresholdOf C (par_RekeyThreshold p) numKeys;
          total = numKeys + ucast (par_NumRekeys p)
      in res_bind (NewStateVector K w total False '''' (ss_kv s)) (\<lambda>(keyState, err, w').
         let s' = s\<lparr>ss_rekeyThreshold := threshold, ss_keyState := keyState\<rparr>
         in if ss_t s' = Receive
            then res_bind (ss_getUnusedKeys s') (\<lambda>cys. Inr (s', w', add_keys H c cys))
            else Inr (s', w', c)))"

text \<open>A failed prefix leaves the handle nil, on which the first write panics; a failed save is logged.\<close>

definition NewSession ::
  "('h, 'w) KV_ops \<Rightarrow> ('k, 'p, 'q) e2e_crypto \<Rightarrow> ('k, 'c) CypherHandler \<Rightarrow> 'k \<times> (byte \<Rightarrow> 'p) \<Rightarrow> 'w \<Rightarrow> 'c \<Rightarrow> 'h \<Rightarrow>
   RelationshipType \<Rightarrow> bytes \<Rightarrow> ('k \<times> 'p) option \<Rightarrow> 'k \<Rightarrow> 'k option \<Rightarrow> 'q \<Rightarrow> SessionID \<Rightarrow> bytes \<Rightarrow> Negotiation \<Rightarrow> Params \<Rightarrow>
   fault + (('h, 'k, 'p, 'q) Session \<times> 'w \<times> 'c)" where
  "NewSession K C H fresh w c h t partner myKeys partnerPubKey baseKey partnerSIDHPubKey trigger
     relationshipFingerprint negotiationStatus e2eParams =
     (if par_MinKeys e2eParams < 10 then Inl FatalPanic
      else
        let (myPrivKey, mySIDHPrivKey, bk, sID) =
              finalizeKeyNegotiation C fresh myKeys partnerPubKey partnerSIDHPubKey baseKey
        in case KV_Prefix K h (MakeSessionPrefix sID) of
             Inl err \<Rightarrow> Inl NilDereference
           | Inr h' \<Rightarrow>
               let s = \<lparr>ss_kv = h', ss_e2eParams = e2eParams, ss_sID = sID, ss_partner = Some partner, ss_t = t,
                        ss_baseKey = bk, ss_myPrivKey = myPrivKey, ss_partnerPubKey = partnerPubKey,
                        ss_mySIDHPrivKey = mySIDHPrivKey, ss_partnerSIDHPubKey = partnerSIDHPubKey,
                        ss_partnerSource = trigger, ss_relationshipFingerprint = relationshipFingerprint,
                        ss_negotiationStatus = negotiationStatus, ss_rekeyThreshold = 0,
                        ss_keyState = \<lparr>sv_vect = [], sv_firstAvailable = 0, sv_numKeys = 0, sv_numAvailable = 0,
                          sv_disableKV = False, sv_key = '''', sv_kv = None\<rparr>\<rparr>
               in res_bind (buildChildKeys K C H w c s) (\<lambda>(s1, w1, c1).
                  res_bind (ss_Save K C w1 s1) (\<lambda>(err, w2). Inr (s1, w2, c1))))"

subsection \<open>Keys\<close>

definition ss_PopKey ::
  "('h, 'w) KV_ops \<Rightarrow> 'w \<Rightarrow> ('h, 'k, 'p, 'q) Session \<Rightarrow>
   fault + ((ss_error + 'k cypher) \<times> ('h, 'k, 'p, 'q) Session \<times> 'w)" where
  "ss_PopKey K w s =
     (if GetNumAvailable (ss_keyState s) \<le> ucast (par_NumRekeys (ss_e2eParams s)) then Inr (Inl NoMoreKeys, s, w)
      else
        res_bind (sv_Next K w (ss_keyState s)) (\<lambda>(r, keyState, w').
        let s' = s\<lparr>ss_keyState := keyState\<rparr>
        in case r of
             Inl err \<Rightarrow> Inr (Inl (NextErr err), s', w')
           | Inr keyNum \<Rightarrow> Inr (Inr (newCypher s' keyNum), s', w')))"

definition ss_PopReKey ::
  "('h, 'w) KV_ops \<Rightarrow> 'w \<Rightarrow> ('h, 'k, 'p, 'q) Session \<Rightarrow>
   fault + ((ss_error + 'k cypher) \<times> ('h, 'k, 'p, 'q) Session \<times> 'w)" where
  "ss_PopReKey K w s =
     res_bind (sv_Next K w (ss_keyState s)) (\<lambda>(r, keyState, w').
     let s' = s\<lparr>ss_keyState := keyState\<rparr>
     in case r of
          Inl err \<Rightarrow> Inr (Inl (NextErr err), s', w')
        | Inr keyNum \<Rightarrow> Inr (Inr (newCypher s' keyNum), s', w'))"

definition ss_useKey ::
  "('h, 'w) KV_ops \<Rightarrow> 'w \<Rightarrow> ('h, 'k, 'p, 'q) Session \<Rightarrow> u32 \<Rightarrow> fault + (('h, 'k, 'p, 'q) Session \<times> 'w)" where
  "ss_useKey K w s keynum =
     res_bind (sv_Use K w (ss_keyState s) keynum) (\<lambda>(keyState, w'). Inr (s\<lparr>ss_keyState := keyState\<rparr>, w'))"

definition ss_Status :: "('h, 'k, 'p, 'q) Session \<Rightarrow> Status" where
  "ss_Status s =
     (let numAvailable = GetNumAvailable (ss_keyState s); numUsed = GetNumUsed (ss_keyState s)
      in if numAvailable = 0 then RekeyEmpty
         else if numAvailable \<le> ucast (par_NumRekeys (ss_e2eParams s)) then Empty
         else if numUsed \<ge> ss_rekeyThreshold s then RekeyNeeded
         else Active)"

text \<open>The deferred unlock aside, any error panics.\<close>

definition ss_Delete ::
  "('h, 'w) KV_ops \<Rightarrow> ('k, 'c) CypherHandler \<Rightarrow> 'w \<Rightarrow> 'c \<Rightarrow> ('h, 'k, 'p, 'q) Session \<Rightarrow> fault + ('w \<times> 'c)" where
  "ss_Delete K H w c s =
     res_bind (ss_getUnusedKeys s) (\<lambda>cys.
     let c' = foldl (DeleteKey H) c cys
     in res_bind (sv_Delete K w (ss_keyState s)) (\<lambda>(stateVectorErr, w1).
        let (sessionErr, w2) = KV_Delete K (ss_kv s) w1 sessionKey currentSessionVersion
        in if stateVectorErr \<noteq> None \<or> sessionErr \<noteq> None then Inl FatalPanic else Inr (w2, c')))"

subsection \<open>Negotiation\<close>

definition legalStateChanges :: "bool list list" where
  "legalStateChanges =
     [[False, True, False, False, False, False],
      [True, False, True, True, False, False],
      [False, False, False, True, False, False],
      [False, False, False, False, True, False],
      [False, False, False, True, False, True],
      [False, False, True, False, False, False]]"

definition TrySetNegotiationStatus ::
  "('h, 'w) KV_ops \<Rightarrow> ('k, 'p, 'q) e2e_crypto \<Rightarrow> 'w \<Rightarrow> ('h, 'k, 'p, 'q) Session \<Rightarrow> Negotiation \<Rightarrow>
   fault + (ss_error option \<times> ('h, 'k, 'p, 'q) Session \<times> 'w)" where
  "TrySetNegotiationStatus K C w s status =
     res_bind (index legalStateChanges (unat (ss_negotiationStatus s))) (\<lambda>row.
     res_bind (index row (unat status)) (\<lambda>legal.
     if \<not> legal then Inr (Some IllegalChange, s, w)
     else
       let save = (\<not> (ss_negotiationStatus s = Sending \<and> status = Unconfirmed \<or>
                       ss_negotiationStatus s = NewSessionTriggered \<and> status = Confirmed));
           s' = s\<lparr>ss_negotiationStatus := status\<rparr>
       in if save then
            res_bind (ss_Save K C w s') (\<lambda>(err, w').
            if err \<noteq> None then Inl FatalPanic else Inr (None, s', w'))
          else Inr (None, s', w)))"

definition SetNegotiationStatus ::
  "('h, 'w) KV_ops \<Rightarrow> ('k, 'p, 'q) e2e_crypto \<Rightarrow> 'w \<Rightarrow> ('h, 'k, 'p, 'q) Session \<Rightarrow> Negotiation \<Rightarrow>
   fault + (('h, 'k, 'p, 'q) Session \<times> 'w)" where
  "SetNegotiationStatus K C w s status =
     res_bind (TrySetNegotiationStatus K C w s status) (\<lambda>(err, s', w').
     if err \<noteq> None then Inl FatalPanic else Inr (s', w'))"

text \<open>\<open>rand\<close> is the number that the random stream gives.\<close>

definition decideIfResendRekey :: "('k, 'p, 'q) e2e_crypto \<Rightarrow> u32 \<Rightarrow> float64 \<Rightarrow> bool" where
  "decideIfResendRekey C rand ratio = (rand < RatioMax C ratio)"

definition ss_TriggerNegotiation ::
  "('k, 'p, 'q) e2e_crypto \<Rightarrow> u32 \<Rightarrow> ('h, 'k, 'p, 'q) Session \<Rightarrow> bool \<times> ('h, 'k, 'p, 'q) Session" where
  "ss_TriggerNegotiation C rand s =
     (if GetNumUsed (ss_keyState s) \<ge> ss_rekeyThreshold s \<and> ss_negotiationStatus s < NewSessionTriggered
      then (True, s\<lparr>ss_negotiationStatus := NewSessionTriggered\<rparr>)
      else if ss_negotiationStatus s = Unconfirmed \<and>
        decideIfResendRekey C rand (par_UnconfirmedRetryRatio (ss_e2eParams s))
      then (True, s\<lparr>ss_negotiationStatus := Sending\<rparr>)
      else (False, s))"

definition IsConfirmed :: "('h, 'k, 'p, 'q) Session \<Rightarrow> bool" where
  "IsConfirmed s = (ss_negotiationStatus s \<ge> Confirmed)"

section \<open>Specification\<close>

text \<open>What the client relies on of the libraries: what is written of a key can be read back, and a random
  number in an interval is in the interval.\<close>

definition crypto_laws :: "('k, 'p, 'q) e2e_crypto \<Rightarrow> bool" where
  "crypto_laws C =
     ((\<forall>k. IntFromBytes C (IntBytes C k) = k) \<and>
      (\<forall>p. PrivImport C (PrivVariant C p) (PrivExport C p) = Some p) \<and>
      (\<forall>q. PubImport C (PubVariant C q) (PubExport C q) = Some q) \<and>
      (\<forall>b seed. 0 \<le> b \<longrightarrow> 0 \<le> RandInInterval C b seed \<and> RandInInterval C b seed \<le> b))"

text \<open>The status in the record that is stored under \<open>sessionKey\<close>.\<close>

definition saved_status :: "('h, 'w) KV_ops \<Rightarrow> 'w \<Rightarrow> ('h, 'k, 'p, 'q) Session \<Rightarrow> Negotiation" where
  "saved_status K w s =
     (case KV_Get K (ss_kv s) w sessionKey currentSessionVersion of
        Inl _ \<Rightarrow> Unconfirmed
      | Inr obj \<Rightarrow> (case json_session_disk (obj_Data obj) of None \<Rightarrow> Unconfirmed | Some sd \<Rightarrow> sd_Confirmation sd))"

text \<open>How the stored status goes with the one in memory: it is what \<open>Save\<close> would write now, except for
  sessions that have used up their threshold before they were confirmed. \<open>TriggerNegotiation\<close> does
  not test for that and writes nothing, and neither is the return to \<open>Confirmed\<close> written.\<close>

definition saved_for :: "Negotiation \<Rightarrow> ('h, 'k, 'p, 'q) Session \<Rightarrow> bool" where
  "saved_for d s =
     (d = stored_status (ss_negotiationStatus s) \<or>
      d \<in> {Unconfirmed, Sent} \<and> ss_negotiationStatus s \<in> {NewSessionTriggered, Confirmed} \<and>
      GetNumUsed (ss_keyState s) \<ge> ss_rekeyThreshold s)"

text \<open>The session in storage is the one in memory, up to the status: the record under \<open>sessionKey\<close> is
  what \<open>Save\<close> wrote with the stored status.\<close>

definition on_disk ::
  "('h, 'w) KV_ops \<Rightarrow> ('k, 'p, 'q) e2e_crypto \<Rightarrow> 'w \<Rightarrow> ('h, 'k, 'p, 'q) Session \<Rightarrow> bool" where
  "on_disk K C w s =
     ((\<exists>obj. KV_Get K (ss_kv s) w sessionKey currentSessionVersion = Inr obj \<and>
        ss_marshal C (s\<lparr>ss_negotiationStatus := saved_status K w s\<rparr>) = Inr (obj_Data obj)) \<and>
      saved_for (saved_status K w s) s)"

definition ss_inv ::
  "('h, 'w) KV_ops \<Rightarrow> ('k, 'p, 'q) e2e_crypto \<Rightarrow> 'h \<Rightarrow> 'w \<Rightarrow> ('h, 'k, 'p, 'q) Session \<Rightarrow> bool" where
  "ss_inv K C h w s =
     (KV_Prefix K h (MakeSessionPrefix (ss_sID s)) = Inr (ss_kv s) \<and>
      (\<exists>partner. ss_partner s = Some partner \<and> IDUnmarshal C partner = Some partner) \<and>
      length (ss_partnerSource s) = sessionIDLen \<and> unat (ss_t s) < 256 \<and> unat (ss_negotiationStatus s) < 6 \<and>
      sv_inv (ss_keyState s) \<and> stored_at (ss_keyState s) (ss_kv s) '''' \<and>
      LoadStateVector K w (ss_kv s) '''' = Inr (ss_keyState s) \<and> on_disk K C w s)"

text \<open>A rekey that is triggered before the session is confirmed; \<open>TriggerNegotiation\<close> does not test for it.\<close>

definition early_trigger :: "('h, 'k, 'p, 'q) Session \<Rightarrow> bool" where
  "early_trigger s =
     (GetNumUsed (ss_keyState s) \<ge> ss_rekeyThreshold s \<and> ss_negotiationStatus s < Confirmed)"

text \<open>The states of a session with its store, from any state on: keys are popped and used, the negotiation
  status moves, and rekeys are triggered. The last argument is the history of early triggers: the
  status that storage still has after one, until a change of the status is saved.\<close>

inductive ss_reachable ::
  "('h, 'w) KV_ops \<Rightarrow> ('k, 'p, 'q) e2e_crypto \<Rightarrow> ('h, 'k, 'p, 'q) Session \<Rightarrow> 'w \<Rightarrow> ('h, 'k, 'p, 'q) Session \<Rightarrow> 'w \<Rightarrow>
   Negotiation option \<Rightarrow> bool"
  for K C s0 w0 where
  ss_start: "ss_reachable K C s0 w0 s0 w0 None"
| ss_pop: "ss_reachable K C s0 w0 s w e \<Longrightarrow> ss_PopKey K w s = Inr (r, s', w') \<Longrightarrow> ss_reachable K C s0 w0 s' w' e"
| ss_pop_rekey: "ss_reachable K C s0 w0 s w e \<Longrightarrow> ss_PopReKey K w s = Inr (r, s', w') \<Longrightarrow> ss_reachable K C s0 w0 s' w' e"
| ss_use: "ss_reachable K C s0 w0 s w e \<Longrightarrow> unat k < unat (sv_numKeys (ss_keyState s)) \<Longrightarrow>
    ss_useKey K w s k = Inr (s', w') \<Longrightarrow> ss_reachable K C s0 w0 s' w' e"
| ss_set: "ss_reachable K C s0 w0 s w e \<Longrightarrow> TrySetNegotiationStatus K C w s status = Inr (r, s', w') \<Longrightarrow>
    ss_reachable K C s0 w0 s' w'
      (if r \<noteq> None \<or> ss_negotiationStatus s = NewSessionTriggered \<and> status = Confirmed then e else None)"
| ss_trigger: "ss_reachable K C s0 w0 s w e \<Longrightarrow> ss_TriggerNegotiation C rand s = (b, s') \<Longrightarrow>
    ss_reachable K C s0 w0 s' w (if early_trigger s then Some (stored_status (ss_negotiationStatus s)) else e)"

text \<open>The status that a session has after a crash.\<close>

definition crash_status :: "Negotiation option \<Rightarrow> ('h, 'k, 'p, 'q) Session \<Rightarrow> Negotiation" where
  "crash_status e s = (case e of None \<Rightarrow> stored_status (ss_negotiationStatus s) | Some d \<Rightarrow> d)"

section \<open>Lemmas\<close>

lemmas negotiation_defs = Unconfirmed_def Sending_def Sent_def Confirmed_def NewSessionTriggered_def NewSessionCreated_def

lemma par_roundtrip: "par_UnmarshalJSON (par_MarshalJSON p) = Some p"
  by (simp add: par_UnmarshalJSON_def par_MarshalJSON_def)

lemma json_session_disk_marshal:
  assumes "ss_partner s = Some partner"
  shows "\<exists>d. ss_marshal C s = Inr d \<and> json_session_disk d =
    Some \<lparr>sd_E2EParams = ss_e2eParams s, sd_Type = ucast (ss_t s), sd_BaseKey = IntBytes C (ss_baseKey s),
          sd_MyPrivKey = IntBytes C (ss_myPrivKey s), sd_PartnerPubKey = IntBytes C (ss_partnerPubKey s),
          sd_MySIDHPrivKey = PrivExport C (ss_mySIDHPrivKey s), sd_MySIDHVariant = PrivVariant C (ss_mySIDHPrivKey s),
          sd_PartnerSIDHPubKey = PubExport C (ss_partnerSIDHPubKey s),
          sd_PartnerSIDHVariant = PubVariant C (ss_partnerSIDHPubKey s), sd_Trigger = ss_partnerSource s,
          sd_RelationshipFingerprint = ss_relationshipFingerprint s,
          sd_Confirmation = stored_status (ss_negotiationStatus s), sd_RekeyThreshold = ss_rekeyThreshold s,
          sd_Partner = partner\<rparr>"
  using assms by (simp add: ss_marshal_def json_session_disk_def par_roundtrip)

lemma copy_array: "length b = n \<Longrightarrow> copy_at (replicate n 0) 0 b = b"
  by (simp add: copy_at_def)

lemma ucast_type: "unat (t :: u64) < 256 \<Longrightarrow> ucast (ucast t :: byte) = t"
  by (simp add: word_unat_eq_iff unsigned_ucast_eq unsigned_take_bit_eq take_bit_nat_eq_self)

lemma stored_status_idem [simp]: "stored_status (stored_status n) = stored_status n"
  by (auto simp: stored_status_def negotiation_defs)

lemma stored_status_small: "unat n < 6 \<Longrightarrow> unat (stored_status n) < 6"
  by (auto simp: stored_status_def negotiation_defs)

text \<open>What is read of a record that \<open>Save\<close> wrote.\<close>

lemma saved_status_marshal:
  assumes "KV_Get K (ss_kv s) w sessionKey currentSessionVersion = Inr obj" "ss_marshal C s' = Inr (obj_Data obj)"
  shows "saved_status K w s = stored_status (ss_negotiationStatus s')"
proof -
  obtain partner where "ss_partner s' = Some partner"
    using assms(2) by (cases "ss_partner s'") (auto simp: ss_marshal_def)
  from json_session_disk_marshal [OF this, of C] assms show ?thesis by (auto simp: saved_status_def)
qed

lemma saved_status_fixed:
  assumes "on_disk K C w s"
  shows "stored_status (saved_status K w s) = saved_status K w s"
  using assms saved_status_marshal [of K s w _ C "s\<lparr>ss_negotiationStatus := saved_status K w s\<rparr>"]
  by (auto simp: on_disk_def)

lemma on_disk_saved:
  assumes "KV_Get K (ss_kv s) w sessionKey currentSessionVersion = Inr obj" "ss_marshal C s = Inr (obj_Data obj)"
  shows "on_disk K C w s \<and> saved_status K w s = stored_status (ss_negotiationStatus s)"
proof -
  note d = saved_status_marshal [OF assms]
  have "ss_marshal C (s\<lparr>ss_negotiationStatus := stored_status (ss_negotiationStatus s)\<rparr>) = ss_marshal C s"
    by (cases "ss_partner s") (simp_all add: ss_marshal_def)
  with assms d show ?thesis by (simp add: on_disk_def saved_for_def)
qed

lemma unmarshal_on_disk:
  assumes "crypto_laws C" "ss_inv K C h w s" "KV_Get K (ss_kv s) w sessionKey currentSessionVersion = Inr obj"
  shows "ss_unmarshal K C w (ss_kv s) (ss_sID s) (obj_Data obj) =
    Inr (s\<lparr>ss_negotiationStatus := saved_status K w s\<rparr>)"
proof -
  let ?s = "s\<lparr>ss_negotiationStatus := saved_status K w s\<rparr>"
  obtain partner where p: "ss_partner s = Some partner" "IDUnmarshal C partner = Some partner"
    using assms(2) by (auto simp: ss_inv_def)
  have d: "ss_marshal C ?s = Inr (obj_Data obj)" using assms(2,3) by (auto simp: ss_inv_def on_disk_def)
  have fx: "stored_status (saved_status K w s) = saved_status K w s"
    using assms(2) saved_status_fixed by (auto simp: ss_inv_def)
  from json_session_disk_marshal [of ?s partner C] d p(1) have
    "json_session_disk (obj_Data obj) = 
    Some \<lparr>sd_E2EParams = ss_e2eParams s, sd_Type = ucast (ss_t s), sd_BaseKey = IntBytes C (ss_baseKey s),
          sd_MyPrivKey = IntBytes C (ss_myPrivKey s), sd_PartnerPubKey = IntBytes C (ss_partnerPubKey s),
          sd_MySIDHPrivKey = PrivExport C (ss_mySIDHPrivKey s), sd_MySIDHVariant = PrivVariant C (ss_mySIDHPrivKey s),
          sd_PartnerSIDHPubKey = PubExport C (ss_partnerSIDHPubKey s),
          sd_PartnerSIDHVariant = PubVariant C (ss_partnerSIDHPubKey s), sd_Trigger = ss_partnerSource s,
          sd_RelationshipFingerprint = ss_relationshipFingerprint s,
          sd_Confirmation = saved_status K w s, sd_RekeyThreshold = ss_rekeyThreshold s,
          sd_Partner = partner\<rparr>" by (simp add: fx)
  with p assms(1,2) show ?thesis
    by (cases s) (auto simp: ss_unmarshal_def crypto_laws_def ss_inv_def copy_array ucast_type)
qed

lemma LoadSession_on_disk:
  assumes "crypto_laws C" "ss_inv K C h w s"
  shows "\<exists>c'. LoadSession K C H w c h (ss_sID s) (ss_relationshipFingerprint s) =
    Inr (Inr (s\<lparr>ss_negotiationStatus := saved_status K w s\<rparr>), c') \<and>
    (\<exists>ks. GetUnusedKeyNums (ss_keyState s) = Inr ks \<and>
      c' = (if ss_t s = Receive then add_keys H c (map (newCypher s) ks) else c))"
proof -
  let ?s = "s\<lparr>ss_negotiationStatus := saved_status K w s\<rparr>"
  obtain obj where obj: "KV_Get K (ss_kv s) w sessionKey currentSessionVersion = Inr obj"
    using assms(2) by (auto simp: ss_inv_def on_disk_def)
  obtain ks where ks: "GetUnusedKeyNums (ss_keyState s) = Inr ks"
    using GetUnusedKeyNums_eq assms(2) by (auto simp: ss_inv_def)
  have "newCypher ?s = newCypher s" by (simp add: newCypher_def fun_eq_iff)
  with ks have keys: "ss_getUnusedKeys ?s = Inr (map (newCypher s) ks)" by (simp add: ss_getUnusedKeys_def)
  show ?thesis
    using unmarshal_on_disk [OF assms obj] obj keys ks assms(2)
    by (simp add: LoadSession_def ss_inv_def)
qed

text \<open>Steps that only change the state vector.\<close>

lemma available_card:
  assumes "sv_inv sv"
  shows "unat (GetNumAvailable sv) + card (used_set sv) = unat (sv_numKeys sv)"
    "unat (GetNumUsed sv) = card (used_set sv)"
    "unat (GetNumAvailable sv) = 0 \<longleftrightarrow> used_set sv = {..<unat (sv_numKeys sv)}"
proof -
  show 1: "unat (GetNumAvailable sv) + card (used_set sv) = unat (sv_numKeys sv)"
    using assms by (simp add: sv_inv_def GetNumAvailable_def)
  then show "unat (GetNumUsed sv) = card (used_set sv)"
    by (simp add: GetNumUsed_def GetNumAvailable_def unat_sub word_le_nat_alt)
  show "unat (GetNumAvailable sv) = 0 \<longleftrightarrow> used_set sv = {..<unat (sv_numKeys sv)}"
  proof
    assume "unat (GetNumAvailable sv) = 0"
    with 1 have "card (used_set sv) = card {..<unat (sv_numKeys sv)}" by simp
    then show "used_set sv = {..<unat (sv_numKeys sv)}" by (rule card_subset_eq [OF finite_lessThan used_set_bound])
  next
    assume "used_set sv = {..<unat (sv_numKeys sv)}"
    then have "card (used_set sv) = unat (sv_numKeys sv)" by (metis card_lessThan)
    with 1 show "unat (GetNumAvailable sv) = 0" by linarith
  qed
qed

lemma used_mono:
  assumes "sv_inv v" "sv_inv v'" "used_set v \<subseteq> used_set v'"
  shows "GetNumUsed v \<le> GetNumUsed v'"
proof -
  have "finite (used_set v')" by (rule finite_subset [OF used_set_bound finite_lessThan])
  from card_mono [OF this assms(3)] show ?thesis
    using available_card(2) [OF assms(1)] available_card(2) [OF assms(2)] by (simp add: word_le_nat_alt)
qed

lemma marshal_keyState [simp]: "ss_marshal C (s\<lparr>ss_keyState := v\<rparr>) = ss_marshal C s"
  by (cases "ss_partner s") (simp_all add: ss_marshal_def)

lemma sessionKey_not_vector: "sessionKey \<noteq> makeStateVectorKey ''''"
  by (simp add: sessionKey_def makeStateVectorKey_def stateVectorKey_def)

context versioned_kv
begin

lemma ss_inv_vector:
  assumes "ss_inv K C h w s" "sv_inv v" "same_place (ss_keyState s) v" "sv_save K w v = Inr (None, w')"
    and "used_set (ss_keyState s) \<subseteq> used_set v"
  shows "ss_inv K C h w' (s\<lparr>ss_keyState := v\<rparr>) \<and> saved_status K w' (s\<lparr>ss_keyState := v\<rparr>) = saved_status K w s"
proof -
  have st: "stored_at v (ss_kv s) ''''" using assms(1,3) by (auto simp: ss_inv_def same_place_def stored_at_def)
  have get: "KV_Get K (ss_kv s) w' sessionKey currentSessionVersion = KV_Get K (ss_kv s) w sessionKey currentSessionVersion"
    by (rule save_frame [OF st assms(4) sessionKey_not_vector])
  then have d: "saved_status K w' (s\<lparr>ss_keyState := v\<rparr>) = saved_status K w s" by (simp add: saved_status_def)
  have "GetNumUsed (ss_keyState s) \<le> GetNumUsed v"
    using assms(1,2,5) by (intro used_mono) (simp_all add: ss_inv_def)
  then have "saved_for d s \<Longrightarrow> saved_for d (s\<lparr>ss_keyState := v\<rparr>)" for d by (auto simp: saved_for_def)
  moreover have "ss_marshal C (s\<lparr>ss_keyState := v, ss_negotiationStatus := d\<rparr>) = ss_marshal C (s\<lparr>ss_negotiationStatus := d\<rparr>)" for d
    by (cases "ss_partner s") (simp_all add: ss_marshal_def)
  ultimately show ?thesis
    using assms(1,2) st load_after_save [OF st assms(4)] by (simp add: ss_inv_def on_disk_def get d)
qed

lemma pop_vector:
  assumes "ss_inv K C h w s" "sv_Next K w (ss_keyState s) = Inr (r, v, w')"
  shows "ss_inv K C h w' (s\<lparr>ss_keyState := v\<rparr>) \<and> saved_status K w' (s\<lparr>ss_keyState := v\<rparr>) = saved_status K w s"
proof -
  have inv: "sv_inv (ss_keyState s)" using assms(1) by (simp add: ss_inv_def)
  show ?thesis
  proof (cases "used_set (ss_keyState s) = {..<unat (sv_numKeys (ss_keyState s))}")
    case True
    from sv_Next_full [OF inv True, of K w] assms(2) have "v = ss_keyState s" "w' = w" by auto
    with assms(1) show ?thesis by simp
  next
    case False
    from sv_Next_free [OF inv False, of K w] obtain v' where
      v': "sv_inv v'" "same_place (ss_keyState s) v'"
        "sv_Next K w (ss_keyState s) = next_result (sv_save K w v') (sv_firstAvailable (ss_keyState s)) v'"
        "used_set (ss_keyState s) \<subseteq> used_set v'" by (metis subset_insertI)
    with assms(2) have "v = v'" "sv_save K w v' = Inr (None, w')"
      by (auto simp: next_result_def split: sum.splits prod.splits if_splits)
    with ss_inv_vector [OF assms(1) v'(1,2) _ v'(4)] show ?thesis by simp
  qed
qed

lemma vector_frame:
  assumes "KV_Set K h w sessionKey obj = (None, w')"
  shows "LoadStateVector K w' h '''' = LoadStateVector K w h ''''"
proof -
  have "KV_Get K h w' (makeStateVectorKey '''') currentStateVectorVersion = KV_Get K h w (makeStateVectorKey '''') currentStateVectorVersion"
    using get_set_other [OF assms] sessionKey_not_vector by (metis prod.inject)
  then show ?thesis by (simp add: LoadStateVector_def Let_def)
qed

lemma ss_inv_saved:
  assumes "ss_inv K C h w s" "unat status < 6" "ss_Save K C w (s\<lparr>ss_negotiationStatus := status\<rparr>) = Inr (None, w')"
  shows "ss_inv K C h w' (s\<lparr>ss_negotiationStatus := status\<rparr>)"
    "saved_status K w' (s\<lparr>ss_negotiationStatus := status\<rparr>) = stored_status status"
proof -
  let ?s = "s\<lparr>ss_negotiationStatus := status\<rparr>"
  obtain d where d: "ss_marshal C ?s = Inr d" using assms(3) by (auto simp: ss_Save_def res_bind_Inr_iff)
  let ?o = "\<lparr>obj_Version = currentSessionVersion, obj_Timestamp = KV_Now K w, obj_Data = d\<rparr>"
  have set: "KV_Set K (ss_kv s) w sessionKey ?o = (None, w')" using assms(3) d by (simp add: ss_Save_def)
  have "KV_Get K (ss_kv ?s) w' sessionKey currentSessionVersion = Inr ?o"
    using get_set [OF set] by simp
  from on_disk_saved [OF this] d have "on_disk K C w' ?s" "saved_status K w' ?s = stored_status status" by simp_all
  with assms(1,2) vector_frame [OF set] show "ss_inv K C h w' ?s" "saved_status K w' ?s = stored_status status"
    by (simp_all add: ss_inv_def)
qed

lemma ss_inv_unsaved:
  assumes "ss_inv K C h w s" "unat status < 6" "saved_for (saved_status K w s) (s\<lparr>ss_negotiationStatus := status\<rparr>)"
  shows "ss_inv K C h w (s\<lparr>ss_negotiationStatus := status\<rparr>)"
proof -
  have "saved_status K w (s\<lparr>ss_negotiationStatus := status\<rparr>) = saved_status K w s" by (simp add: saved_status_def)
  with assms show ?thesis by (simp add: ss_inv_def on_disk_def)
qed

lemma saved_status_unsaved [simp]: "saved_status K w (s\<lparr>ss_negotiationStatus := status\<rparr>) = saved_status K w s"
  by (simp add: saved_status_def)

lemma try_set_inv:
  assumes "ss_inv K C h w s" "TrySetNegotiationStatus K C w s status = Inr (r, s', w')"
  shows "ss_inv K C h w' s' \<and> (r = None \<longrightarrow> s' = s\<lparr>ss_negotiationStatus := status\<rparr>) \<and> (r \<noteq> None \<longrightarrow> s' = s) \<and>
    saved_status K w' s' =
      (if r \<noteq> None \<or> ss_negotiationStatus s = NewSessionTriggered \<and> status = Confirmed then saved_status K w s
       else stored_status status)"
proof (cases "r = None")
  case False
  with assms show ?thesis
    by (auto simp: TrySetNegotiationStatus_def Let_def res_bind_Inr_iff split: if_splits)
next
  case True
  let ?a = "ss_negotiationStatus s"
  obtain row where row: "index legalStateChanges (unat ?a) = Inr row" "index row (unat status) = Inr True"
    using assms(2) True by (auto simp: TrySetNegotiationStatus_def Let_def res_bind_Inr_iff split: if_splits)
  then have len: "unat status < 6"
    by (auto simp: index_def legalStateChanges_def less_Suc_eq numeral_eq_Suc split: if_splits)
  have sf: "saved_for (saved_status K w s) s" using assms(1) by (simp add: ss_inv_def on_disk_def)
  show ?thesis
  proof (cases "?a = Sending \<and> status = Unconfirmed \<or> ?a = NewSessionTriggered \<and> status = Confirmed")
    case pend: True
    then have s': "s' = s\<lparr>ss_negotiationStatus := status\<rparr>" "w' = w"
      using assms(2) row by (auto simp: TrySetNegotiationStatus_def Let_def)
    have "saved_for (saved_status K w s) s'" "?a = Sending \<Longrightarrow> saved_status K w s = stored_status status"
      using pend sf unfolding s' by (auto simp: saved_for_def stored_status_def negotiation_defs)
    with ss_inv_unsaved [OF assms(1) len] s' True pend show ?thesis by auto
  next
    case save: False
    then have "s' = s\<lparr>ss_negotiationStatus := status\<rparr>" "ss_Save K C w (s\<lparr>ss_negotiationStatus := status\<rparr>) = Inr (None, w')"
      using assms(2) row unfolding TrySetNegotiationStatus_def Let_def
      by (auto simp: res_bind_Inr_iff split: if_splits)
    with ss_inv_saved [OF assms(1) len] save True show ?thesis by auto
  qed
qed

lemma trigger_inv:
  assumes "ss_inv K C h w s" "ss_TriggerNegotiation C rand s = (b, s')"
  shows "ss_inv K C h w s' \<and> saved_status K w s' = saved_status K w s \<and>
    (early_trigger s \<longrightarrow> saved_status K w s = stored_status (ss_negotiationStatus s)) \<and>
    (\<not> early_trigger s \<longrightarrow> stored_status (ss_negotiationStatus s') = stored_status (ss_negotiationStatus s))"
proof -
  let ?a = "ss_negotiationStatus s"
  let ?d = "saved_status K w s"
  have sf: "saved_for ?d s" using assms(1) by (simp add: ss_inv_def on_disk_def)
  have low: "x < NewSessionTriggered \<Longrightarrow> x = Unconfirmed \<or> x = Sending \<or> x = Sent \<or> x = Confirmed" for x
    unfolding negotiation_defs by (auto simp: word_less_nat_alt word_unat_eq_iff)
  consider "s' = s" "\<not> early_trigger s"
    | "s' = s\<lparr>ss_negotiationStatus := NewSessionTriggered\<rparr>" "?a < NewSessionTriggered"
        "GetNumUsed (ss_keyState s) \<ge> ss_rekeyThreshold s"
    | "s' = s\<lparr>ss_negotiationStatus := Sending\<rparr>" "?a = Unconfirmed" "\<not> GetNumUsed (ss_keyState s) \<ge> ss_rekeyThreshold s"
  proof (cases "GetNumUsed (ss_keyState s) \<ge> ss_rekeyThreshold s \<and> ?a < NewSessionTriggered")
    case True
    with assms(2) that(2) show ?thesis by (simp add: ss_TriggerNegotiation_def)
  next
    case False
    have "x < Confirmed \<Longrightarrow> x < NewSessionTriggered" for x
      unfolding negotiation_defs by (simp add: word_less_nat_alt)
    with False have "\<not> early_trigger s" by (auto simp: early_trigger_def)
    moreover have "Unconfirmed < NewSessionTriggered" by (simp add: negotiation_defs)
    ultimately show ?thesis using False assms(2) that(1,3) by (auto simp: ss_TriggerNegotiation_def split: if_split_asm)
  qed
  then show ?thesis
  proof cases
    case 1
    with assms(1) show ?thesis
      using sf by auto
  next
    case 2
    have "saved_for ?d s'" using low [OF 2(2)] sf 2(1,3) by (auto simp: saved_for_def stored_status_def negotiation_defs)
    then have "ss_inv K C h w s'" using ss_inv_unsaved [OF assms(1), of NewSessionTriggered] 2(1) by (simp add: negotiation_defs)
    moreover have "early_trigger s \<longrightarrow> ?d = stored_status ?a" using sf by (auto simp: early_trigger_def saved_for_def negotiation_defs)
    moreover have "\<not> early_trigger s \<longrightarrow> ?a = Confirmed"
      using low [OF 2(2)] 2(3) by (auto simp: early_trigger_def negotiation_defs)
    ultimately show ?thesis using 2(1) by (auto simp: stored_status_def negotiation_defs)
  next
    case 3
    have "saved_for ?d s'" using sf 3(1,2) by (auto simp: saved_for_def stored_status_def negotiation_defs)
    then have "ss_inv K C h w s'" using ss_inv_unsaved [OF assms(1), of Sending] 3(1) by (simp add: negotiation_defs)
    with 3 show ?thesis by (auto simp: early_trigger_def stored_status_def negotiation_defs)
  qed
qed

lemma pop_key_inv:
  assumes "ss_inv K C h w s" "ss_PopKey K w s = Inr (r, s', w') \<or> ss_PopReKey K w s = Inr (r, s', w')"
  shows "ss_inv K C h w' s' \<and> ss_negotiationStatus s' = ss_negotiationStatus s \<and> saved_status K w' s' = saved_status K w s"
proof -
  from assms(2) have "s' = s \<and> w' = w \<or> (\<exists>q v. sv_Next K w (ss_keyState s) = Inr (q, v, w') \<and> s' = s\<lparr>ss_keyState := v\<rparr>)"
    by (cases "sv_Next K w (ss_keyState s)")
      (auto simp: ss_PopKey_def ss_PopReKey_def Let_def split: if_split_asm sum.split_asm prod.split_asm)
  with assms(1) pop_vector [OF assms(1)] show ?thesis by auto
qed

lemma use_key_inv:
  assumes "ss_inv K C h w s" "sets_succeed K" "unat k < unat (sv_numKeys (ss_keyState s))" "ss_useKey K w s k = Inr (s', w')"
  shows "ss_inv K C h w' s' \<and> ss_negotiationStatus s' = ss_negotiationStatus s \<and> saved_status K w' s' = saved_status K w s"
proof -
  from assms(4) obtain v e where v: "sv_use (ss_keyState s) k = Inr v" "sv_save K w v = Inr (e, w')" "s' = s\<lparr>ss_keyState := v\<rparr>"
    by (auto simp: ss_useKey_def sv_Use_def res_bind_Inr_iff)
  have "sv_inv (ss_keyState s)" using assms(1) by (simp add: ss_inv_def)
  with sv_use_spec [OF this assms(3)] v(1) have u: "sv_inv v" "used_set (ss_keyState s) \<subseteq> used_set v" by auto
  moreover have "e = None"
    using v(2) assms(2) by (auto simp: sv_save_def sets_succeed_def split: if_splits option.splits) (metis fst_conv)
  ultimately show ?thesis using ss_inv_vector [OF assms(1) u(1) sv_use_place [OF v(1)] _ u(2)] v by simp
qed

lemma reachable_inv:
  assumes "ss_reachable K C s0 w0 s w e" "sets_succeed K" "ss_inv K C h w0 s0"
  shows "ss_inv K C h w s"
  using assms(1)
proof (induction rule: ss_reachable.induct)
  case ss_start
  show ?case by (rule assms(3))
next
  case (ss_use s w e k s' w')
  then show ?case using use_key_inv [OF _ assms(2)] by blast
next
  case (ss_trigger s w e rand b s')
  then show ?case using trigger_inv by blast
qed (use pop_key_inv try_set_inv in blast)+

text \<open>The stored status is the one that the history gives.\<close>

lemma reachable_saved:
  assumes "ss_reachable K C s0 w0 s w e" "sets_succeed K" "ss_inv K C h w0 s0"
    and "saved_status K w0 s0 = stored_status (ss_negotiationStatus s0)"
  shows "saved_status K w s = crash_status e s"
  using assms(1)
proof (induction rule: ss_reachable.induct)
  case ss_start
  show ?case using assms(4) by (simp add: crash_status_def)
next
  case (ss_pop s w e r s' w')
  with pop_key_inv [OF reachable_inv [OF ss_pop.hyps(1) assms(2,3)] disjI1 [OF ss_pop.hyps(2)]] show ?case
    by (cases e) (simp_all add: crash_status_def)
next
  case (ss_pop_rekey s w e r s' w')
  with pop_key_inv [OF reachable_inv [OF ss_pop_rekey.hyps(1) assms(2,3)] disjI2 [OF ss_pop_rekey.hyps(2)]] show ?case
    by (cases e) (simp_all add: crash_status_def)
next
  case (ss_use s w e k s' w')
  with use_key_inv [OF reachable_inv [OF ss_use.hyps(1) assms(2,3)] assms(2) ss_use.hyps(2,3)] show ?case
    by (cases e) (simp_all add: crash_status_def)
next
  case (ss_set s w e status r s' w')
  note inv = reachable_inv [OF ss_set.hyps(1) assms(2,3)]
  have "stored_status NewSessionTriggered = stored_status Confirmed" by (simp add: stored_status_def negotiation_defs)
  with try_set_inv [OF inv ss_set.hyps(2)] ss_set.IH show ?case
    by (cases "r = None") (auto simp: crash_status_def split: option.split)
next
  case (ss_trigger s w e rand b s')
  from trigger_inv [OF reachable_inv [OF ss_trigger.hyps(1) assms(2,3)] ss_trigger.hyps(2)] ss_trigger.IH show ?case
    by (auto simp: crash_status_def split: option.split)
qed

end

lemma num_session_keys_bound:
  assumes "crypto_laws C"
  shows "unat (num_session_keys C p bk + ucast (par_NumRekeys p)) + 63 < 2 ^ 32"
proof -
  let ?r = "RandInInterval C (uint (par_MaxKeys p - par_MinKeys p)) (IntBytes C bk) + uint (par_MinKeys p)"
  have w: "uint (x :: u16) < 65536" "0 \<le> uint x" for x using uint_lt2p [of x] by simp_all
  have "0 \<le> RandInInterval C (uint (par_MaxKeys p - par_MinKeys p)) (IntBytes C bk)"
    "RandInInterval C (uint (par_MaxKeys p - par_MinKeys p)) (IntBytes C bk) \<le> uint (par_MaxKeys p - par_MinKeys p)"
    using assms w(2) unfolding crypto_laws_def by blast+
  with w [of "par_MaxKeys p - par_MinKeys p"] w [of "par_MinKeys p"] have r: "0 \<le> ?r" "?r < 131072" by linarith+
  define n where "n = nat ?r"
  have n: "?r = int n" "n < 131072" using r by (simp_all add: n_def)
  have "unat (num_session_keys C p bk) = n" unfolding num_session_keys_def n(1) using n(2) by (simp add: unat_of_nat)
  with n have "unat (num_session_keys C p bk) < 131072"
    by simp
  moreover have "unat (ucast (par_NumRekeys p) :: u32) < 65536"
    using unsigned_less [of "par_NumRekeys p", where ?'a = nat] by (simp add: unsigned_ucast_eq take_bit_nat_eq_self)
  ultimately show ?thesis by (simp add: unat_word_ariths)
qed

text \<open>The inputs of the constructor are of the right form.\<close>

definition session_args :: "('k, 'p, 'q) e2e_crypto \<Rightarrow> RelationshipType \<Rightarrow> bytes \<Rightarrow> SessionID \<Rightarrow> Negotiation \<Rightarrow> bool" where
  "session_args C t partner trigger negotiationStatus =
     (IDUnmarshal C partner = Some partner \<and> length trigger = sessionIDLen \<and> unat t < 256 \<and> unat negotiationStatus < 6)"

context versioned_kv
begin

lemma NewSession_inv:
  assumes "sets_succeed K" "crypto_laws C" "session_args C t partner trigger neg"
    and "NewSession K C H fresh w c h t partner myKeys partnerPubKey baseKey partnerSIDH trigger fp neg par = Inr (s, w', c')"
  shows "ss_inv K C h w' s \<and> ss_negotiationStatus s = neg \<and> used_set (ss_keyState s) = {} \<and>
    saved_status K w' s = stored_status (ss_negotiationStatus s)"
proof -
  obtain priv sidh bk sID where fin: "finalizeKeyNegotiation C fresh myKeys partnerPubKey partnerSIDH baseKey = (priv, sidh, bk, sID)"
    by (metis prod_cases4)
  obtain h' where h': "KV_Prefix K h (MakeSessionPrefix sID) = Inr h'"
    using assms(4) fin by (auto simp: NewSession_def split: if_split_asm sum.split_asm)
  let ?n = "num_session_keys C par bk + ucast (par_NumRekeys par)"
  obtain v e1 w1 e2 where b: "NewStateVector K w ?n False '''' h' = Inr (v, e1, w1)"
    "s = \<lparr>ss_kv = h', ss_e2eParams = par, ss_sID = sID, ss_partner = Some partner, ss_t = t,
          ss_baseKey = bk, ss_myPrivKey = priv, ss_partnerPubKey = partnerPubKey,
          ss_mySIDHPrivKey = sidh, ss_partnerSIDHPubKey = partnerSIDH, ss_partnerSource = trigger,
          ss_relationshipFingerprint = fp, ss_negotiationStatus = neg,
          ss_rekeyThreshold = ThresholdOf C (par_RekeyThreshold par) (num_session_keys C par bk), ss_keyState = v\<rparr>"
    "ss_Save K C w1 s = Inr (e2, w')"
    using assms(4) fin h'
    by (auto simp: NewSession_def buildChildKeys_def Let_def res_bind_Inr_iff split: if_split_asm)
  note inv = NewStateVector_inv [OF num_session_keys_bound [OF assms(2)] b(1)]
  have st: "stored_at v h' ''''" "sv_save K w v = Inr (e1, w1)"
    using b(1) by (auto simp: NewStateVector_def Let_def res_bind_Inr_iff stored_at_def)
  then have "e1 = None"
    using assms(1) by (auto simp: sv_save_def stored_at_def sets_succeed_def) (metis fst_conv)
  with load_after_save st have v: "LoadStateVector K w1 h' '''' = Inr v" by blast
  obtain d where d: "ss_marshal C s = Inr d" using b(3) by (auto simp: ss_Save_def res_bind_Inr_iff)
  have "e2 = None" using b(3) d assms(1) by (auto simp: ss_Save_def sets_succeed_def) (metis fst_conv)
  then have set: "KV_Set K h' w1 sessionKey \<lparr>obj_Version = currentSessionVersion, obj_Timestamp = KV_Now K w1, obj_Data = d\<rparr> = (None, w')"
    using b(2,3) d by (simp add: ss_Save_def)
  have "KV_Get K (ss_kv s) w' sessionKey currentSessionVersion =
      Inr \<lparr>obj_Version = currentSessionVersion, obj_Timestamp = KV_Now K w1, obj_Data = d\<rparr>"
    using get_set [OF set] b(2) by simp
  from on_disk_saved [OF this] d have "on_disk K C w' s" "saved_status K w' s = stored_status (ss_negotiationStatus s)"
    by simp_all
  with vector_frame [OF set] v inv st(1) h' assms(3) b(2) show ?thesis
    by (simp add: ss_inv_def session_args_def)
qed

end

text \<open>A sequence of calls, \<open>True\<close> for \<open>PopKey\<close> and \<open>False\<close> for \<open>PopReKey\<close>: the key numbers handed out.\<close>

fun ss_pops ::
  "('h, 'w) KV_ops \<Rightarrow> 'w \<Rightarrow> ('h, 'k, 'p, 'q) Session \<Rightarrow> bool list \<Rightarrow>
   fault + (u32 list \<times> ('h, 'k, 'p, 'q) Session \<times> 'w)" where
  "ss_pops K w s [] = Inr ([], s, w)"
| "ss_pops K w s (b # bs) =
     res_bind (if b then ss_PopKey K w s else ss_PopReKey K w s) (\<lambda>(r, s1, w1).
     res_bind (ss_pops K w1 s1 bs) (\<lambda>(ks, s2, w2).
     Inr ((case r of Inl err \<Rightarrow> ks | Inr cy \<Rightarrow> cy_keyNum cy # ks), s2, w2)))"

text \<open>\<open>Next\<close> when the saves succeed.\<close>

lemma next_when_saved:
  assumes "sv_inv sv" "saves_succeed K sv"
  shows "GetNumAvailable sv = 0 \<Longrightarrow> sv_Next K w sv = Inr (Inl NoKeysErr, sv, w)"
    "GetNumAvailable sv \<noteq> 0 \<Longrightarrow> \<exists>sv' w'. sv_Next K w sv = Inr (Inr (sv_firstAvailable sv), sv', w') \<and> sv_inv sv' \<and>
      same_place sv sv' \<and> unat (sv_firstAvailable sv) \<notin> used_set sv \<and>
      used_set sv' = insert (unat (sv_firstAvailable sv)) (used_set sv) \<and> sv_firstAvailable sv < sv_firstAvailable sv' \<and>
      unat (GetNumAvailable sv') = unat (GetNumAvailable sv) - 1"
proof -
  show "GetNumAvailable sv = 0 \<Longrightarrow> sv_Next K w sv = Inr (Inl NoKeysErr, sv, w)"
    using sv_Next_full [OF assms(1)] available_card(3) [OF assms(1)] by simp
  assume "GetNumAvailable sv \<noteq> 0"
  then have "used_set sv \<noteq> {..<unat (sv_numKeys sv)}"
    using available_card(3) [OF assms(1)] by (metis unat_eq_zero)
  from sv_Next_free [OF assms(1) this, of K w] obtain sv' where sv': "sv_inv sv'" "same_place sv sv'"
    "used_set sv' = insert (unat (sv_firstAvailable sv)) (used_set sv)"
    "sv_Next K w sv = next_result (sv_save K w sv') (sv_firstAvailable sv) sv'" by metis
  obtain w' where "sv_save K w sv' = Inr (None, w')" using assms(2) sv'(2) by (meson saves_succeed_def)
  then have nx: "sv_Next K w sv = Inr (Inr (sv_firstAvailable sv), sv', w')" using sv'(4) by (simp add: next_result_def)
  have nu: "unat (sv_firstAvailable sv) \<notin> used_set sv" using assms(1) by (simp add: sv_inv_def)
  have "{..<unat (sv_firstAvailable sv)} \<subseteq> used_set sv" "unat (sv_firstAvailable sv') \<notin> used_set sv'"
    using assms(1) sv'(1) by (simp_all add: sv_inv_def)
  then have "unat (sv_firstAvailable sv) < unat (sv_firstAvailable sv')"
    using sv'(3) by (metis insert_iff lessThan_iff linorder_neqE_nat subset_iff)
  moreover have "unat (GetNumAvailable sv') = unat (GetNumAvailable sv) - 1"
    using available_card(1) [OF assms(1)] available_card(1) [OF sv'(1)] sv'(2,3) nu finite_used_set [of sv]
    by (simp add: same_place_def)
  ultimately show "\<exists>sv' w'. sv_Next K w sv = Inr (Inr (sv_firstAvailable sv), sv', w') \<and> sv_inv sv' \<and>
      same_place sv sv' \<and> unat (sv_firstAvailable sv) \<notin> used_set sv \<and>
      used_set sv' = insert (unat (sv_firstAvailable sv)) (used_set sv) \<and> sv_firstAvailable sv < sv_firstAvailable sv' \<and>
      unat (GetNumAvailable sv') = unat (GetNumAvailable sv) - 1"
    using nx sv' nu by (auto simp: word_less_nat_alt)
qed

definition reserved :: "('h, 'k, 'p, 'q) Session \<Rightarrow> bool" where
  "reserved s = (GetNumAvailable (ss_keyState s) \<le> ucast (par_NumRekeys (ss_e2eParams s)))"

lemma pop_outcome:
  assumes "sv_inv (ss_keyState s)" "saves_succeed K (ss_keyState s)"
  shows "(b \<and> reserved s \<or> GetNumAvailable (ss_keyState s) = 0 \<Longrightarrow>
      \<exists>err. (if b then ss_PopKey K w s else ss_PopReKey K w s) = Inr (Inl err, s, w))"
    "\<not> (b \<and> reserved s \<or> GetNumAvailable (ss_keyState s) = 0) \<Longrightarrow>
      \<exists>sv' w'. (if b then ss_PopKey K w s else ss_PopReKey K w s) =
          Inr (Inr (newCypher s (sv_firstAvailable (ss_keyState s))), s\<lparr>ss_keyState := sv'\<rparr>, w') \<and> sv_inv sv' \<and>
        same_place (ss_keyState s) sv' \<and> unat (sv_firstAvailable (ss_keyState s)) \<notin> used_set (ss_keyState s) \<and>
        used_set sv' = insert (unat (sv_firstAvailable (ss_keyState s))) (used_set (ss_keyState s)) \<and>
        sv_firstAvailable (ss_keyState s) < sv_firstAvailable sv' \<and>
        unat (GetNumAvailable sv') = unat (GetNumAvailable (ss_keyState s)) - 1"
proof -
  let ?sv = "ss_keyState s"
  note nx = next_when_saved [OF assms, of w]
  { assume a: "b \<and> reserved s \<or> GetNumAvailable ?sv = 0"
    have self: "s\<lparr>ss_keyState := ?sv\<rparr> = s" by simp
    show "\<exists>err. (if b then ss_PopKey K w s else ss_PopReKey K w s) = Inr (Inl err, s, w)"
      using a nx(1) by (auto simp: ss_PopKey_def ss_PopReKey_def reserved_def Let_def self) }
  { assume a: "\<not> (b \<and> reserved s \<or> GetNumAvailable ?sv = 0)"
    then obtain sv' w' where n: "sv_Next K w ?sv = Inr (Inr (sv_firstAvailable ?sv), sv', w')" "sv_inv sv'"
      "same_place ?sv sv'" "unat (sv_firstAvailable ?sv) \<notin> used_set ?sv"
      "used_set sv' = insert (unat (sv_firstAvailable ?sv)) (used_set ?sv)" "sv_firstAvailable ?sv < sv_firstAvailable sv'"
      "unat (GetNumAvailable sv') = unat (GetNumAvailable ?sv) - 1" using nx(2) by blast
    have "newCypher (s\<lparr>ss_keyState := sv'\<rparr>) = newCypher s" by (simp add: newCypher_def fun_eq_iff)
    with n(1) a have "(if b then ss_PopKey K w s else ss_PopReKey K w s) =
        Inr (Inr (newCypher s (sv_firstAvailable ?sv)), s\<lparr>ss_keyState := sv'\<rparr>, w')"
      by (simp add: ss_PopKey_def ss_PopReKey_def reserved_def Let_def)
    with n show "\<exists>sv' w'. (if b then ss_PopKey K w s else ss_PopReKey K w s) =
          Inr (Inr (newCypher s (sv_firstAvailable ?sv)), s\<lparr>ss_keyState := sv'\<rparr>, w') \<and> sv_inv sv' \<and>
        same_place ?sv sv' \<and> unat (sv_firstAvailable ?sv) \<notin> used_set ?sv \<and>
        used_set sv' = insert (unat (sv_firstAvailable ?sv)) (used_set ?sv) \<and> sv_firstAvailable ?sv < sv_firstAvailable sv' \<and>
        unat (GetNumAvailable sv') = unat (GetNumAvailable ?sv) - 1" by blast }
qed

lemma ss_pops_spec:
  assumes "sv_inv (ss_keyState s)" "saves_succeed K (ss_keyState s)"
  shows "\<exists>ks s' w'. ss_pops K w s bs = Inr (ks, s', w') \<and> sorted_wrt (<) ks \<and>
    (\<forall>k \<in> set ks. sv_firstAvailable (ss_keyState s) \<le> k) \<and>
    unat ` set ks \<inter> used_set (ss_keyState s) = {} \<and> sv_inv (ss_keyState s') \<and>
    used_set (ss_keyState s') = used_set (ss_keyState s) \<union> unat ` set ks \<and>
    ((\<forall>b \<in> set bs. b) \<longrightarrow> min (unat (GetNumAvailable (ss_keyState s))) (unat (par_NumRekeys (ss_e2eParams s)))
      \<le> unat (GetNumAvailable (ss_keyState s')))"
  using assms
proof (induction bs arbitrary: s w)
  case (Cons b bs)
  let ?sv = "ss_keyState s"
  show ?case
  proof (cases "b \<and> reserved s \<or> GetNumAvailable ?sv = 0")
    case True
    with pop_outcome(1) [OF Cons.prems, of b w] obtain err where
      "(if b then ss_PopKey K w s else ss_PopReKey K w s) = Inr (Inl err, s, w)" by blast
    with Cons.IH [OF Cons.prems, of w] show ?thesis by auto
  next
    case False
    from pop_outcome(2) [OF Cons.prems False, of w] obtain sv' w1 where
      p: "(if b then ss_PopKey K w s else ss_PopReKey K w s) =
          Inr (Inr (newCypher s (sv_firstAvailable ?sv)), s\<lparr>ss_keyState := sv'\<rparr>, w1)" "sv_inv sv'"
        "same_place ?sv sv'" "unat (sv_firstAvailable ?sv) \<notin> used_set ?sv"
        "used_set sv' = insert (unat (sv_firstAvailable ?sv)) (used_set ?sv)"
        "sv_firstAvailable ?sv < sv_firstAvailable sv'" "unat (GetNumAvailable sv') = unat (GetNumAvailable ?sv) - 1"
      by blast
    have "sv_inv (ss_keyState (s\<lparr>ss_keyState := sv'\<rparr>))" "saves_succeed K (ss_keyState (s\<lparr>ss_keyState := sv'\<rparr>))"
      using p(2) saves_succeed_place [OF Cons.prems(2) p(3)] by simp_all
    from Cons.IH [OF this, of w1] obtain ks s' w' where ih: "ss_pops K w1 (s\<lparr>ss_keyState := sv'\<rparr>) bs = Inr (ks, s', w')"
      "sorted_wrt (<) ks" "\<forall>k \<in> set ks. sv_firstAvailable sv' \<le> k" "unat ` set ks \<inter> used_set sv' = {}"
      "sv_inv (ss_keyState s')" "used_set (ss_keyState s') = used_set sv' \<union> unat ` set ks"
      "(\<forall>b \<in> set bs. b) \<longrightarrow> min (unat (GetNumAvailable sv')) (unat (par_NumRekeys (ss_e2eParams s))) \<le>
        unat (GetNumAvailable (ss_keyState s'))" by auto
    have "unat (ucast (par_NumRekeys (ss_e2eParams s)) :: u32) = unat (par_NumRekeys (ss_e2eParams s))"
      using unsigned_less [of "par_NumRekeys (ss_e2eParams s)", where ?'a = nat]
      by (simp add: unsigned_ucast_eq take_bit_nat_eq_self)
    with False have "b \<longrightarrow> unat (par_NumRekeys (ss_e2eParams s)) < unat (GetNumAvailable ?sv)"
      by (auto simp: reserved_def word_le_nat_alt)
    with ih(7) p(7) have "(\<forall>b \<in> set (b # bs). b) \<longrightarrow>
        min (unat (GetNumAvailable ?sv)) (unat (par_NumRekeys (ss_e2eParams s))) \<le> unat (GetNumAvailable (ss_keyState s'))"
      by auto
    moreover have "ss_pops K w s (b # bs) = Inr (sv_firstAvailable ?sv # ks, s', w')"
      using p(1) ih(1) by (simp add: newCypher_def)
    moreover have "sorted_wrt (<) (sv_firstAvailable ?sv # ks)" "\<forall>k \<in> set ks. sv_firstAvailable ?sv \<le> k"
      using ih(2,3) p(6) by (auto intro: less_le_trans less_imp_le)
    ultimately show ?thesis using ih(4-6) p(4,5) by auto
  qed
qed simp

lemma NewSession_id:
  assumes "NewSession K C H fresh w c h t partner myKeys partnerPubKey baseKey partnerSIDH trigger fp neg par = Inr (s, w', c')"
  shows "ss_sID s = (case finalizeKeyNegotiation C fresh myKeys partnerPubKey partnerSIDH baseKey of (_, _, _, sID) \<Rightarrow> sID)"
  using assms
  by (auto simp: NewSession_def buildChildKeys_def Let_def res_bind_Inr_iff split: if_split_asm sum.split_asm prod.split_asm)

section \<open>Properties\<close>

text \<open>C2: A session survives a crash. From a session that \<open>NewSession\<close> made on, after any sequence of popping
  and using keys, changing the negotiation status and triggering rekeys, \<open>LoadSession\<close> from the store at
  that moment returns the session with the same keys, used-key vector and threshold, and with its
  status unless that was a pending one: \<open>Sending\<close> comes back as \<open>Unconfirmed\<close> and \<open>NewSessionTriggered\<close> as
  \<open>Confirmed\<close>. The exception is a rekey that was triggered before the session was confirmed: nothing of it
  is written, so until the next change of status that is saved the session comes back with the status
  from before the trigger, and this happens only to sessions that have used up their threshold. A
  receive session registers exactly its unused keys.\<close>

theorem session_survives_crash:
  assumes "ekv_store E" "K = versioned_ops E" "sets_succeed K" "crypto_laws C" "session_args C t partner trigger neg"
    and "NewSession K C H fresh w c h t partner myKeys partnerPubKey baseKey partnerSIDH trigger fp neg par = Inr (s0, w0, c0)"
    and "ss_reachable K C s0 w0 s w1 e"
  shows "\<exists>c' ks. LoadSession K C H w1 c1 h (ss_sID s) (ss_relationshipFingerprint s) =
      Inr (Inr (s\<lparr>ss_negotiationStatus := crash_status e s\<rparr>), c') \<and> saved_for (crash_status e s) s \<and>
    GetUnusedKeyNums (ss_keyState s) = Inr ks \<and>
    unat ` set ks = {..<unat (sv_numKeys (ss_keyState s))} - used_set (ss_keyState s) \<and>
    c' = (if ss_t s = Receive then add_keys H c1 (map (newCypher s) ks) else c1)"
proof -
  have v: "versioned_kv K" using ekv_store.versioned [OF assms(1)] assms(2) by simp
  have new: "ss_inv K C h w0 s0" "saved_status K w0 s0 = stored_status (ss_negotiationStatus s0)"
    using versioned_kv.NewSession_inv [OF v assms(3-6)] by simp_all
  have inv: "ss_inv K C h w1 s" by (rule versioned_kv.reachable_inv [OF v assms(7,3) new(1)])
  have "saved_status K w1 s = crash_status e s" by (rule versioned_kv.reachable_saved [OF v assms(7,3) new])
  moreover have "saved_for (saved_status K w1 s) s" using inv by (simp add: ss_inv_def on_disk_def)
  moreover have "sv_inv (ss_keyState s)" using inv by (simp add: ss_inv_def)
  ultimately show ?thesis
    using unused_listing [of "ss_keyState s"] LoadSession_on_disk [OF assms(4) inv, of H c1] by auto
qed

text \<open>C3: No key of a session is used for two messages. However calls of \<open>PopKey\<close> and \<open>PopReKey\<close> are
  interleaved, none of them panics, the key numbers of the keys handed out are strictly increasing and
  were unused before, exactly they become used, and calls of \<open>PopKey\<close> alone leave the keys that are
  reserved for rekeying.\<close>

theorem session_keys_never_repeat:
  assumes "sv_inv (ss_keyState s)" "saves_succeed K (ss_keyState s)"
  shows "\<exists>ks s' w'. ss_pops K w s bs = Inr (ks, s', w') \<and> sorted_wrt (<) ks \<and>
    (\<forall>k \<in> set ks. sv_firstAvailable (ss_keyState s) \<le> k) \<and>
    unat ` set ks \<inter> used_set (ss_keyState s) = {} \<and> sv_inv (ss_keyState s') \<and>
    used_set (ss_keyState s') = used_set (ss_keyState s) \<union> unat ` set ks \<and>
    ((\<forall>b \<in> set bs. b) \<longrightarrow> min (unat (GetNumAvailable (ss_keyState s))) (unat (par_NumRekeys (ss_e2eParams s)))
      \<le> unat (GetNumAvailable (ss_keyState s')))"
  by (rule ss_pops_spec [OF assms])

text \<open>The status of a session says what it can still do: \<open>PopKey\<close> returns a key exactly when the session
  is \<open>Active\<close> or \<open>RekeyNeeded\<close>, \<open>PopReKey\<close> exactly when it is not \<open>RekeyEmpty\<close>; a session with keys for
  messages needs a rekey exactly when its used keys have reached the threshold.\<close>

theorem Status_exact:
  assumes "sv_inv (ss_keyState s)" "saves_succeed K (ss_keyState s)"
  shows "(ss_Status s \<in> {Active, RekeyNeeded} \<longleftrightarrow> (\<exists>cy s' w'. ss_PopKey K w s = Inr (Inr cy, s', w'))) \<and>
    (ss_Status s \<noteq> RekeyEmpty \<longleftrightarrow> (\<exists>cy s' w'. ss_PopReKey K w s = Inr (Inr cy, s', w'))) \<and>
    (ss_Status s = RekeyNeeded \<longleftrightarrow> ss_Status s \<in> {Active, RekeyNeeded} \<and>
      unat (ss_rekeyThreshold s) \<le> card (used_set (ss_keyState s)))"
proof -
  have st: "ss_Status s \<in> {Active, RekeyNeeded} \<longleftrightarrow> \<not> (reserved s \<or> GetNumAvailable (ss_keyState s) = 0)"
    "ss_Status s \<noteq> RekeyEmpty \<longleftrightarrow> GetNumAvailable (ss_keyState s) \<noteq> 0"
    by (auto simp: ss_Status_def reserved_def Let_def)
  have "ss_Status s = RekeyNeeded \<longleftrightarrow> ss_Status s \<in> {Active, RekeyNeeded} \<and>
      unat (ss_rekeyThreshold s) \<le> card (used_set (ss_keyState s))"
    by (auto simp: ss_Status_def Let_def word_le_nat_alt available_card(2) [OF assms(1)])
  moreover have "(\<exists>cy s' w'. ss_PopKey K w s = Inr (Inr cy, s', w')) \<longleftrightarrow> \<not> (reserved s \<or> GetNumAvailable (ss_keyState s) = 0)"
    using pop_outcome [OF assms, of True w] by (cases "reserved s \<or> GetNumAvailable (ss_keyState s) = 0") auto
  moreover have "(\<exists>cy s' w'. ss_PopReKey K w s = Inr (Inr cy, s', w')) \<longleftrightarrow> GetNumAvailable (ss_keyState s) \<noteq> 0"
    using pop_outcome [OF assms, of False w] by (cases "GetNumAvailable (ss_keyState s) = 0") auto
  ultimately show ?thesis unfolding st by blast
qed

lemma ss_Save_runs:
  assumes "sets_succeed K" "ss_partner s \<noteq> None"
  shows "\<exists>w'. ss_Save K C w s = Inr (None, w')"
proof -
  have "\<exists>d. ss_marshal C s = Inr d" using assms(2) by (auto simp: ss_marshal_def)
  then show ?thesis using assms(1) unfolding ss_Save_def sets_succeed_def by (metis prod.collapse res_bind.simps(2))
qed

lemma NewSession_runs:
  assumes "\<not> par_MinKeys par < 10" "crypto_laws C" "\<And>sid. \<exists>h'. KV_Prefix K h (MakeSessionPrefix sid) = Inr h'"
  shows "\<exists>s w' c'. NewSession K C H fresh w c h t partner myKeys pub bk sidh trigger fp neg par = Inr (s, w', c')"
proof -
  obtain priv sidh' bk' sID where fin: "finalizeKeyNegotiation C fresh myKeys pub sidh bk = (priv, sidh', bk', sID)"
    by (metis prod_cases4)
  obtain h' where h': "KV_Prefix K h (MakeSessionPrefix sID) = Inr h'" using assms(3) by blast
  let ?n = "num_session_keys C par bk' + ucast (par_NumRekeys par)"
  obtain v e w1 where v: "NewStateVector K w ?n False '''' h' = Inr (v, e, w1)"
    by (simp add: NewStateVector_def sv_save_def Let_def) (metis prod.collapse)
  obtain ks where "GetUnusedKeyNums v = Inr ks"
    using GetUnusedKeyNums_eq [OF NewStateVector_inv(1) [OF num_session_keys_bound [OF assms(2)] v]] by blast
  then show ?thesis unfolding NewSession_def fin
    using assms(1) h' v
    by (simp add: Let_def buildChildKeys_def ss_getUnusedKeys_def ss_Save_def ss_marshal_def split: prod.splits)
qed

text \<open>The table as a set of pairs, and as a set of changes.\<close>

definition legal_pairs :: "(nat \<times> nat) set" where
  "legal_pairs = {(0, 1), (1, 0), (1, 2), (1, 3), (2, 3), (3, 4), (4, 3), (4, 5), (5, 2)}"

lemma legal_table: "a < 6 \<Longrightarrow> b < 6 \<Longrightarrow> legalStateChanges ! a ! b \<longleftrightarrow> (a, b) \<in> legal_pairs"
  "a < 6 \<Longrightarrow> length (legalStateChanges ! a) = 6" "length legalStateChanges = 6"
proof -
  have "\<forall>a \<in> set [0..<6]. length (legalStateChanges ! a) = 6 \<and>
      (\<forall>b \<in> set [0..<6]. legalStateChanges ! a ! b \<longleftrightarrow> (a, b) \<in> legal_pairs)" by code_simp
  then show "a < 6 \<Longrightarrow> b < 6 \<Longrightarrow> legalStateChanges ! a ! b \<longleftrightarrow> (a, b) \<in> legal_pairs"
    "a < 6 \<Longrightarrow> length (legalStateChanges ! a) = 6" by simp_all
  show "length legalStateChanges = 6" by (simp add: legalStateChanges_def)
qed

lemma status_eq:
  "st = Unconfirmed \<longleftrightarrow> unat st = 0" "st = Sending \<longleftrightarrow> unat st = 1" "st = Sent \<longleftrightarrow> unat st = 2"
  "st = Confirmed \<longleftrightarrow> unat st = 3" "st = NewSessionTriggered \<longleftrightarrow> unat st = 4" "st = NewSessionCreated \<longleftrightarrow> unat st = 5"
  by (simp_all add: negotiation_defs word_unat_eq_iff)

lemma TrySet_table:
  assumes "unat (ss_negotiationStatus s) < 6" "unat status < 6"
    and "ss_Save K C w (s\<lparr>ss_negotiationStatus := status\<rparr>) = Inr (None, w')"
  shows "\<exists>w''. TrySetNegotiationStatus K C w s status =
    (if (unat (ss_negotiationStatus s), unat status) \<in> legal_pairs
     then Inr (None, s\<lparr>ss_negotiationStatus := status\<rparr>, w'') else Inr (Some IllegalChange, s, w))"
  using assms by (simp add: TrySetNegotiationStatus_def index_def legal_table Let_def)

text \<open>The negotiation status follows the table. Between the six statuses \<open>TrySetNegotiationStatus\<close>
  makes exactly the nine listed changes, the last of which (from \<open>NewSessionCreated\<close> back to \<open>Sent\<close>) is not
  in the diagram that documents it, and refuses every other one without changing anything. A session
  that was sent never becomes \<open>Unconfirmed\<close> or \<open>Sending\<close> again.\<close>

theorem negotiation_status_changes:
  assumes "unat (ss_negotiationStatus s) < 6" "unat status < 6" "sets_succeed K" "ss_partner s \<noteq> None"
  shows "if (ss_negotiationStatus s, status) \<in>
      {(Unconfirmed, Sending), (Sending, Unconfirmed), (Sending, Sent), (Sending, Confirmed), (Sent, Confirmed),
       (Confirmed, NewSessionTriggered), (NewSessionTriggered, Confirmed), (NewSessionTriggered, NewSessionCreated),
       (NewSessionCreated, Sent)}
    then (\<exists>w'. TrySetNegotiationStatus K C w s status = Inr (None, s\<lparr>ss_negotiationStatus := status\<rparr>, w')) \<and>
      (Sent \<le> ss_negotiationStatus s \<longrightarrow> Sent \<le> status)
    else TrySetNegotiationStatus K C w s status = Inr (Some IllegalChange, s, w)"
proof -
  let ?s = "s\<lparr>ss_negotiationStatus := status\<rparr>"
  obtain w' where "ss_Save K C w ?s = Inr (None, w')" using ss_Save_runs [OF assms(3), of ?s] assms(4) by auto
  from TrySet_table [OF assms(1,2) this] obtain w'' where eq: "TrySetNegotiationStatus K C w s status =
    (if (unat (ss_negotiationStatus s), unat status) \<in> legal_pairs
     then Inr (None, ?s, w'') else Inr (Some IllegalChange, s, w))" by blast
  have "Sent \<le> st \<longleftrightarrow> 2 \<le> unat st" for st by (simp add: Sent_def word_le_nat_alt)
  moreover have "2 \<le> a \<Longrightarrow> 2 \<le> b" if "(a, b) \<in> legal_pairs" for a b
    using that by (auto simp: legal_pairs_def)
  moreover have "(ss_negotiationStatus s, status) \<in> {(Unconfirmed, Sending), (Sending, Unconfirmed), (Sending, Sent),
       (Sending, Confirmed), (Sent, Confirmed), (Confirmed, NewSessionTriggered), (NewSessionTriggered, Confirmed),
       (NewSessionTriggered, NewSessionCreated), (NewSessionCreated, Sent)} \<longleftrightarrow>
     (unat (ss_negotiationStatus s), unat status) \<in> legal_pairs"
    by (simp only: insert_iff empty_iff prod.inject status_eq legal_pairs_def)
  ultimately show ?thesis by (simp only: eq) auto
qed

text \<open>A rekey can confirm a session that the partner never confirmed. When the used keys of a session
  that is not yet confirmed reach the threshold, \<open>TriggerNegotiation\<close> moves it to \<open>NewSessionTriggered\<close>,
  which \<open>IsConfirmed\<close> accepts; nothing is written, so a restart brings back the unconfirmed session.\<close>

theorem early_trigger_confirms:
  assumes "crypto_laws C" "ss_inv K C h w s" "early_trigger s"
  shows "\<not> IsConfirmed s \<and> fst (ss_TriggerNegotiation C rand s) \<and> IsConfirmed (snd (ss_TriggerNegotiation C rand s)) \<and>
    (\<exists>s' c'. LoadSession K C H w c h (ss_sID s) (ss_relationshipFingerprint s) = Inr (Inr s', c') \<and> \<not> IsConfirmed s')"
proof -
  have neg: "ss_negotiationStatus s < Confirmed" "ss_negotiationStatus s < NewSessionTriggered"
    using assms(3) by (auto simp: early_trigger_def negotiation_defs intro: less_trans)
  moreover have "saved_for (saved_status K w s) s" using assms(2) by (simp add: ss_inv_def on_disk_def)
  ultimately have "saved_status K w s < Confirmed"
    by (auto simp: saved_for_def stored_status_def negotiation_defs)
  then have "\<not> IsConfirmed (s\<lparr>ss_negotiationStatus := saved_status K w s\<rparr>)"
    by (simp add: IsConfirmed_def not_le)
  moreover have "\<not> IsConfirmed s" using neg(1) by (simp add: IsConfirmed_def not_le)
  moreover have "ss_TriggerNegotiation C rand s = (True, s\<lparr>ss_negotiationStatus := NewSessionTriggered\<rparr>)"
    using assms(3) neg(2) by (simp add: ss_TriggerNegotiation_def early_trigger_def)
  moreover have "IsConfirmed (s\<lparr>ss_negotiationStatus := NewSessionTriggered\<rparr>)"
    by (simp add: IsConfirmed_def negotiation_defs)
  ultimately show ?thesis using LoadSession_on_disk [OF assms(1,2), of H c] by auto
qed

text \<open>With the default parameters an unconfirmed session is never sent again: the ratio \<open>1 / 10\<close> is zero.\<close>

lemma default_ratio_never_resends:
  assumes "RatioMax C 0 = 0" "ss_e2eParams s = GetDefaultParams" "GetNumUsed (ss_keyState s) < ss_rekeyThreshold s"
  shows "ss_TriggerNegotiation C rand s = (False, s)"
  using assms by (simp add: ss_TriggerNegotiation_def decideIfResendRekey_def GetDefaultParams_def rekeyRatio_def not_le [symmetric])

text \<open>What was encrypted with a key is decrypted with it, when the stream cipher is its own inverse and
  the authentication code of a text verifies.\<close>

lemma encrypt_decrypt:
  assumes "\<And>key fp x. Crypt C key fp (Crypt C key fp x) = x" "\<And>key x. VerifyHMAC C x (CreateHMAC C x key) key"
    and "cy_Encrypt C k contents = (ecr, mac, residue)"
  shows "cy_Decrypt C k ecr mac = Inr (contents, residue)"
  using assms by (auto simp: cy_Encrypt_def cy_Decrypt_def Let_def)

section \<open>Witnesses\<close>

text \<open>A library whose keys are their bytes, and a session of a fresh client with two of seventy keys left for rekeys.\<close>

definition cr_example :: "(bytes, bytes, bytes) e2e_crypto" where
  "cr_example =
     \<lparr>IntBytes = id, IntFromBytes = id, PrivExport = id, PrivVariant = (\<lambda>_. 1), PrivImport = (\<lambda>_ b. Some b),
      PubExport = id, PubVariant = (\<lambda>_. 2), PubImport = (\<lambda>_ b. Some b), CMixHash = id, GenerateSessionKey = (@),
      DeriveSecret = (@), ExpandKey = id, RandInInterval = (\<lambda>_ _. 0), ThresholdOf = (\<lambda>f n. if f = 0 then 0 else n div 20),
      RatioMax = (\<lambda>_. 0), DeriveKeyFingerprint = (\<lambda>k n r. k @ r), DeriveKey = (\<lambda>k n r. k @ r),
      NewKeyResidue = id, Crypt = (\<lambda>k f x. x), CreateHMAC = (\<lambda>x k. x), VerifyHMAC = (\<lambda>x m k. x = m),
      IDUnmarshal = Some\<rparr>"

definition handler_example :: "(bytes, bytes list) CypherHandler" where
  "handler_example =
     \<lparr>AddKey = (\<lambda>c cy. cy_Fingerprint cr_example cy # c), DeleteKey = (\<lambda>c cy. remove1 (cy_Fingerprint cr_example cy) c)\<rparr>"

lemma cr_example_laws: "crypto_laws cr_example"
  by (simp add: crypto_laws_def cr_example_def)

lemma session_prefix: "\<exists>h. kv_Prefix NewKV (MakeSessionPrefix sid) = Inr h"
  by (simp add: kv_Prefix_def NewKV_def HasPrefix_def MakeSessionPrefix_def sid_String_def base64_no_separator)

definition new_session_example :: "fault + ((kv, bytes, bytes, bytes) Session \<times> (string \<rightharpoonup> Object) \<times> bytes list)" where
  "new_session_example =
     NewSession mem_KV cr_example handler_example ([1], \<lambda>_. [2]) Map.empty [] NewKV Send [9] None [3] None [4]
       (replicate 32 0) [5] Unconfirmed (GetDefaultParams\<lparr>par_RekeyThreshold := 0\<rparr>)"

lemma args_example: "session_args cr_example Send [9] (replicate 32 0) Unconfirmed"
  by (simp add: session_args_def cr_example_def sessionIDLen_def Send_def Unconfirmed_def)

lemma new_session_runs: "\<exists>s w c. new_session_example = Inr (s, w, c)"
  unfolding new_session_example_def
  by (rule NewSession_runs) (simp_all add: GetDefaultParams_def minKeys_def cr_example_laws mem_KV_simps session_prefix)

lemma new_session_inv:
  assumes "new_session_example = Inr (s, w, c)"
  shows "ss_inv mem_KV cr_example NewKV w s \<and> ss_negotiationStatus s = Unconfirmed \<and> used_set (ss_keyState s) = {}"
  using versioned_kv.NewSession_inv [OF mem.versioned mem_sets cr_example_laws args_example assms [unfolded new_session_example_def]]
  by simp

lemma new_session_threshold:
  assumes "new_session_example = Inr (s, w, c)"
  shows "ss_rekeyThreshold s = 0"
  using assms unfolding new_session_example_def NewSession_def buildChildKeys_def
  by (auto simp: Let_def res_bind_Inr_iff GetDefaultParams_def cr_example_def split: if_split_asm prod.split_asm sum.split_asm)

definition ss_example :: "(kv, bytes, bytes, bytes) Session" where
  "ss_example =
     \<lparr>ss_kv = NewKV, ss_e2eParams = GetDefaultParams\<lparr>par_NumRekeys := 2\<rparr>, ss_sID = replicate 32 0, ss_partner = Some [9], ss_t = Send,
      ss_baseKey = [1], ss_myPrivKey = [2], ss_partnerPubKey = [3], ss_mySIDHPrivKey = [4], ss_partnerSIDHPubKey = [5],
      ss_partnerSource = replicate 32 0, ss_relationshipFingerprint = [6], ss_negotiationStatus = Sending,
      ss_rekeyThreshold = 3, ss_keyState = sv_example\<rparr>"

lemma ss_example_fields [simp]: "ss_keyState ss_example = sv_example" "ss_negotiationStatus ss_example = Sending"
  "ss_partner ss_example = Some [9]" "ss_rekeyThreshold ss_example = 3" "par_NumRekeys (ss_e2eParams ss_example) = 2"
  by (simp_all add: ss_example_def)

theorem session_keys_never_repeat_witness:
  "\<exists>ks s' w'. ss_pops mem_KV Map.empty ss_example [True, False, True] = Inr (ks, s', w') \<and> sorted_wrt (<) ks \<and>
     unat ` set ks \<inter> {0} = {}"
  using session_keys_never_repeat [of ss_example mem_KV Map.empty "[True, False, True]"]
  by (auto simp: sv_example_inv sv_example_saves sv_example_used)

theorem Status_exact_witness:
  "ss_Status ss_example = Active \<and> (\<exists>cy s' w'. ss_PopKey mem_KV Map.empty ss_example = Inr (Inr cy, s', w'))"
proof -
  have "ss_Status ss_example = Active"
    by (simp add: ss_Status_def GetNumAvailable_def GetNumUsed_def Let_def word_le_nat_alt)
  with Status_exact [of ss_example mem_KV Map.empty] show ?thesis
    by (simp add: sv_example_inv sv_example_saves)
qed

theorem negotiation_status_changes_witness:
  "(\<exists>w'. TrySetNegotiationStatus mem_KV cr_example Map.empty ss_example Sent =
      Inr (None, ss_example\<lparr>ss_negotiationStatus := Sent\<rparr>, w')) \<and>
   TrySetNegotiationStatus mem_KV cr_example Map.empty ss_example NewSessionCreated = Inr (Some IllegalChange, ss_example, Map.empty)"
proof -
  have b: "unat (ss_negotiationStatus ss_example) < 6" "unat Sent < 6" "unat NewSessionCreated < 6" "ss_partner ss_example \<noteq> None"
    by (simp_all add: negotiation_defs)
  from negotiation_status_changes [OF b(1,2) mem_sets b(4), of cr_example Map.empty]
    negotiation_status_changes [OF b(1,3) mem_sets b(4), of cr_example Map.empty]
  show ?thesis by (simp add: status_eq) (simp add: negotiation_defs)
qed

theorem session_survives_crash_witness:
  "\<exists>s0 w0 c0 r s w b s' c'. new_session_example = Inr (s0, w0, c0) \<and> ss_PopKey mem_KV w0 s0 = Inr (r, s, w) \<and>
     ss_TriggerNegotiation cr_example 0 s = (b, s') \<and>
     LoadSession mem_KV cr_example handler_example w [] NewKV (ss_sID s') (ss_relationshipFingerprint s') =
       Inr (Inr (s'\<lparr>ss_negotiationStatus :=
         crash_status (if early_trigger s then Some (stored_status (ss_negotiationStatus s)) else None) s'\<rparr>), c')"
proof -
  obtain s0 w0 c0 where new: "new_session_example = Inr (s0, w0, c0)" using new_session_runs by blast
  have "sv_inv (ss_keyState s0)" "saves_succeed mem_KV (ss_keyState s0)"
    using new_session_inv [OF new]
    by (auto simp: ss_inv_def saves_succeed_def same_place_def sv_save_def stored_at_def mem_KV_simps)
  from pop_outcome [OF this, of True w0] obtain r s w where pop: "ss_PopKey mem_KV w0 s0 = Inr (r, s, w)" by auto
  obtain b s' where tr: "ss_TriggerNegotiation cr_example 0 s = (b, s')" by (metis surj_pair)
  note run = ss_trigger [OF ss_pop [OF ss_start pop] tr]
  from session_survives_crash [OF mem.ekv_store_axioms refl mem_sets cr_example_laws args_example
      new [unfolded new_session_example_def] run, of "[]"]
  obtain c' where "LoadSession mem_KV cr_example handler_example w [] NewKV (ss_sID s') (ss_relationshipFingerprint s') =
       Inr (Inr (s'\<lparr>ss_negotiationStatus :=
         crash_status (if early_trigger s then Some (stored_status (ss_negotiationStatus s)) else None) s'\<rparr>), c')"
    by (elim exE conjE) (rule that)
  with new pop tr show ?thesis by (intro exI conjI)
qed

theorem early_trigger_confirms_witness:
  "\<exists>s w c. new_session_example = Inr (s, w, c) \<and> \<not> IsConfirmed s \<and>
     IsConfirmed (snd (ss_TriggerNegotiation cr_example 0 s))"
proof -
  obtain s w c where new: "new_session_example = Inr (s, w, c)" using new_session_runs by blast
  note inv = new_session_inv [OF new]
  have "early_trigger s"
    using inv new_session_threshold [OF new] by (simp add: early_trigger_def negotiation_defs)
  from early_trigger_confirms [OF cr_example_laws conjunct1 [OF inv] this, of 0 handler_example "[]"] new
  show ?thesis by (intro exI conjI) (elim conjE, assumption)+
qed

end
