(* ===== verification/Relationship.thy ===== *)
theory Relationship
  imports Session "HOL-Library.AList" "HOL-Library.Multiset" "HOL-Library.Sublist"
begin

text \<open>
  The sessions with one partner in one direction (\<open>e2e/ratchet/partner/relationship.go\<close>,
  \<open>relationshipFingerprint.go\<close>). The code keeps pointers to sessions both in a list, newest first, and
  in a map by identifier; here \<open>r_heap\<close> holds the session objects and the list and the map hold
  references into it, so that a change through either is seen by both. A Go map is an association list
  and a loop over it takes the order \<open>ord\<close> that the runtime chooses.
\<close>

section \<open>Data\<close>

definition maxUnconfirmed :: nat where "maxUnconfirmed = 3"
definition currentRelationshipVersion :: u64 where "currentRelationshipVersion = 0"
definition relationshipKey :: string where "relationshipKey = ''relationship''"
definition relationshipFingerprintKey :: string where "relationshipFingerprintKey = ''relationshipFingerprint''"

text \<open>The libraries: Diffie-Hellman public keys, the two fingerprints, the concrete syntax of JSON (which
  is what a fingerprint would be if its place held a JSON document).\<close>

record 'k relationship_libs =
  GeneratePublicKey :: "'k \<Rightarrow> 'k"
  MakeRelationshipFingerprint :: "'k \<Rightarrow> 'k \<Rightarrow> bytes \<Rightarrow> bytes \<Rightarrow> bytes"
  GenerateConnectionFingerprint :: "bytes \<Rightarrow> bytes \<Rightarrow> bytes"
  JsonText :: "json \<Rightarrow> bytes"

record ('h, 'k, 'p, 'q) relationship =
  r_t :: RelationshipType
  r_kv :: 'h
  r_heap :: "('h, 'k, 'p, 'q) Session list"
  r_sessions :: "nat list"
  r_sessionByID :: "(SessionID \<times> nat) list"
  r_fingerprint :: bytes
  r_myID :: bytes
  r_partnerID :: bytes

datatype rl_error = RelPrefix prefix_error | RelKv kv_error | RelUnmarshal | NoSessionForSending
  | NoSessionForRekeying | SessionUnknown | RelSession ss_error

abbreviation deref :: "('h, 'k, 'p, 'q) relationship \<Rightarrow> nat \<Rightarrow> ('h, 'k, 'p, 'q) Session" where
  "deref r i \<equiv> r_heap r ! i"

definition write_session :: "('h, 'k, 'p, 'q) relationship \<Rightarrow> nat \<Rightarrow> ('h, 'k, 'p, 'q) Session \<Rightarrow> ('h, 'k, 'p, 'q) relationship" where
  "write_session r i s = r\<lparr>r_heap := (r_heap r)[i := s]\<rparr>"

section \<open>Storage\<close>

definition makeRelationshipFingerprint ::
  "'k relationship_libs \<Rightarrow> RelationshipType \<Rightarrow> 'k \<Rightarrow> 'k \<Rightarrow> bytes \<Rightarrow> bytes \<Rightarrow> fault + bytes" where
  "makeRelationshipFingerprint L t myPrivKey partnerPubKey me partner =
     (let myPubKey = GeneratePublicKey L myPrivKey
      in if t = Send then Inr (MakeRelationshipFingerprint L myPubKey partnerPubKey me partner)
         else if t = Receive then Inr (MakeRelationshipFingerprint L myPubKey partnerPubKey partner me)
         else Inl FatalPanic)"

definition storeRelationshipFingerprint :: "('h, 'w) KV_ops \<Rightarrow> 'w \<Rightarrow> bytes \<Rightarrow> 'h \<Rightarrow> kv_error option \<times> 'w" where
  "storeRelationshipFingerprint K w fp h =
     KV_Set K h w relationshipFingerprintKey
       \<lparr>obj_Version = currentRelationshipVersion, obj_Timestamp = KV_Now K w, obj_Data = Raw fp\<rparr>"

definition loadRelationshipFingerprint :: "('h, 'w) KV_ops \<Rightarrow> 'k relationship_libs \<Rightarrow> 'w \<Rightarrow> 'h \<Rightarrow> fault + bytes" where
  "loadRelationshipFingerprint K L w h =
     (case KV_Get K h w relationshipFingerprintKey currentRelationshipVersion of
        Inl err \<Rightarrow> Inl FatalPanic
      | Inr obj \<Rightarrow> (case obj_Data obj of Raw fp \<Rightarrow> Inr fp | Json j \<Rightarrow> Inr (JsonText L j)))"

definition deleteRelationshipFingerprint :: "('h, 'w) KV_ops \<Rightarrow> 'w \<Rightarrow> 'h \<Rightarrow> kv_error option \<times> 'w" where
  "deleteRelationshipFingerprint K w h = KV_Delete K h w relationshipFingerprintKey currentRelationshipVersion"

text \<open>An identifier, an array of bytes, is an array of numbers in JSON; a shorter array leaves zeros, and
  further elements are dropped.\<close>

definition zeroID :: SessionID where "zeroID = replicate sessionIDLen 0"

definition id_json :: "SessionID \<Rightarrow> json" where
  "id_json sid = JArr (map word_json sid)"

fun json_array_id :: "json \<Rightarrow> SessionID option" where
  "json_array_id (JArr js) = map_option (copy_at zeroID 0) (those (map json_word (take sessionIDLen js)))"
| "json_array_id JNull = Some zeroID"
| "json_array_id _ = None"

fun fill_ids :: "SessionID list \<Rightarrow> nat \<Rightarrow> SessionID list \<Rightarrow> fault + SessionID list" where
  "fill_ids sessions i [] = Inr sessions"
| "fill_ids sessions i (sid # sids) =
     (if i < length sessions then fill_ids (sessions[i := sid]) (Suc i) sids else Inl IndexOutOfRange)"

definition rl_marshal ::
  "(SessionID list \<Rightarrow> SessionID list) \<Rightarrow> ('h, 'k, 'p, 'q) relationship \<Rightarrow> fault + stored" where
  "rl_marshal ord r =
     res_bind (fill_ids (replicate (length (r_sessions r)) zeroID) 0 (ord (map fst (r_sessionByID r)))) (\<lambda>sessions.
     Inr (Json (JArr (map id_json sessions))))"

definition rl_save ::
  "('h, 'w) KV_ops \<Rightarrow> (SessionID list \<Rightarrow> SessionID list) \<Rightarrow> 'w \<Rightarrow> ('h, 'k, 'p, 'q) relationship \<Rightarrow>
   fault + (kv_error option \<times> 'w)" where
  "rl_save K ord w r =
     res_bind (rl_marshal ord r) (\<lambda>data.
     Inr (KV_Set K (r_kv r) w relationshipKey
       \<lparr>obj_Version = currentRelationshipVersion, obj_Timestamp = KV_Now K w, obj_Data = data\<rparr>))"

definition addSession ::
  "('h, 'k, 'p, 'q) relationship \<Rightarrow> ('h, 'k, 'p, 'q) Session \<Rightarrow> ('h, 'k, 'p, 'q) relationship" where
  "addSession r s =
     (let i = length (r_heap r)
      in r\<lparr>r_heap := r_heap r @ [s], r_sessions := i # r_sessions r,
           r_sessionByID := AList.update (ss_sID s) i (r_sessionByID r)\<rparr>)"

fun rl_load_sessions ::
  "('h, 'w) KV_ops \<Rightarrow> ('k, 'p, 'q) e2e_crypto \<Rightarrow> ('k, 'c) CypherHandler \<Rightarrow> 'w \<Rightarrow> 'c \<Rightarrow>
   ('h, 'k, 'p, 'q) relationship \<Rightarrow> SessionID list \<Rightarrow> fault + (('h, 'k, 'p, 'q) relationship \<times> 'c)" where
  "rl_load_sessions K C H w c r [] = Inr (r, c)"
| "rl_load_sessions K C H w c r (sid # sids) =
     res_bind (LoadSession K C H w c (r_kv r) sid (r_fingerprint r)) (\<lambda>(res, c').
     case res of
       Inl err \<Rightarrow> Inl FatalPanic
     | Inr s \<Rightarrow> rl_load_sessions K C H w c' (addSession r s) sids)"

definition rl_unmarshal ::
  "('h, 'w) KV_ops \<Rightarrow> ('k, 'p, 'q) e2e_crypto \<Rightarrow> 'k relationship_libs \<Rightarrow> ('k, 'c) CypherHandler \<Rightarrow> 'w \<Rightarrow> 'c \<Rightarrow>
   ('h, 'k, 'p, 'q) relationship \<Rightarrow> stored \<Rightarrow> fault + ((rl_error + ('h, 'k, 'p, 'q) relationship) \<times> 'c)" where
  "rl_unmarshal K C L H w c r b =
     (case (case b of Raw _ \<Rightarrow> None | Json j \<Rightarrow> json_list json_array_id j) of
        None \<Rightarrow> Inr (Inl RelUnmarshal, c)
      | Some sids \<Rightarrow>
          res_bind (loadRelationshipFingerprint K L w (r_kv r)) (\<lambda>fp.
          res_bind (rl_load_sessions K C H w c (r\<lparr>r_fingerprint := fp\<rparr>) sids) (\<lambda>(r', c').
          Inr (Inr r', c'))))"

definition LoadRelationship ::
  "('h, 'w) KV_ops \<Rightarrow> ('k, 'p, 'q) e2e_crypto \<Rightarrow> 'k relationship_libs \<Rightarrow> ('k, 'c) CypherHandler \<Rightarrow> 'w \<Rightarrow> 'c \<Rightarrow> 'h \<Rightarrow>
   RelationshipType \<Rightarrow> bytes \<Rightarrow> bytes \<Rightarrow> fault + ((rl_error + ('h, 'k, 'p, 'q) relationship) \<times> 'c)" where
  "LoadRelationship K C L H w c h t myID partnerID =
     res_bind (rt_Prefix t) (\<lambda>prefix.
     case KV_Prefix K h prefix of
       Inl err \<Rightarrow> Inr (Inl (RelPrefix err), c)
     | Inr h' \<Rightarrow>
         (case KV_Get K h' w relationshipKey currentRelationshipVersion of
            Inl err \<Rightarrow> Inr (Inl (RelKv err), c)
          | Inr obj \<Rightarrow>
              rl_unmarshal K C L H w c
                \<lparr>r_t = t, r_kv = h', r_heap = [], r_sessions = [], r_sessionByID = [], r_fingerprint = [],
                 r_myID = myID, r_partnerID = partnerID\<rparr> (obj_Data obj)))"

section \<open>Construction and removal\<close>

text \<open>A failed save of the relationship is only logged; a failed save of the first session panics.\<close>

definition NewRelationship ::
  "('h, 'w) KV_ops \<Rightarrow> ('k, 'p, 'q) e2e_crypto \<Rightarrow> 'k relationship_libs \<Rightarrow> ('k, 'c) CypherHandler \<Rightarrow>
   'k \<times> (byte \<Rightarrow> 'p) \<Rightarrow> (SessionID list \<Rightarrow> SessionID list) \<Rightarrow> 'w \<Rightarrow> 'c \<Rightarrow> 'h \<Rightarrow> RelationshipType \<Rightarrow> bytes \<Rightarrow> bytes \<Rightarrow>
   'k \<times> 'p \<Rightarrow> 'k \<Rightarrow> 'q \<Rightarrow> Params \<Rightarrow> fault + (('h, 'k, 'p, 'q) relationship \<times> 'w \<times> 'c)" where
  "NewRelationship K C L H fresh ord w c h t myID partnerID myOriginKeys partnerOriginPublicKey
     originPartnerSIDHPubKey initialParams =
     res_bind (rt_Prefix t) (\<lambda>prefix.
     case KV_Prefix K h prefix of
       Inl err \<Rightarrow> Inl FatalPanic
     | Inr h' \<Rightarrow>
         res_bind (makeRelationshipFingerprint L t (fst myOriginKeys) partnerOriginPublicKey myID partnerID) (\<lambda>fingerprint.
         let (err, w1) = storeRelationshipFingerprint K w fingerprint h'
         in if err \<noteq> None then Inl FatalPanic
            else
              let r = \<lparr>r_t = t, r_kv = h', r_heap = [], r_sessions = [], r_sessionByID = [],
                       r_fingerprint = fingerprint, r_myID = myID, r_partnerID = partnerID\<rparr>
              in res_bind (NewSession K C H fresh w1 c h' t partnerID (Some myOriginKeys) partnerOriginPublicKey None
                   originPartnerSIDHPubKey zeroID fingerprint Confirmed initialParams) (\<lambda>(s, w2, c1).
                 res_bind (ss_Save K C w2 s) (\<lambda>(err2, w3).
                 if err2 \<noteq> None then Inl FatalPanic
                 else res_bind (rl_save K ord w3 (addSession r s)) (\<lambda>(err3, w4). Inr (addSession r s, w4, c1))))))"

definition AddSession ::
  "('h, 'w) KV_ops \<Rightarrow> ('k, 'p, 'q) e2e_crypto \<Rightarrow> ('k, 'c) CypherHandler \<Rightarrow>
   'k \<times> (byte \<Rightarrow> 'p) \<Rightarrow> (SessionID list \<Rightarrow> SessionID list) \<Rightarrow> 'w \<Rightarrow> 'c \<Rightarrow> ('h, 'k, 'p, 'q) relationship \<Rightarrow>
   ('k \<times> 'p) option \<Rightarrow> 'k \<Rightarrow> 'k option \<Rightarrow> 'q \<Rightarrow> SessionID \<Rightarrow> Negotiation \<Rightarrow> Params \<Rightarrow>
   fault + (nat \<times> ('h, 'k, 'p, 'q) relationship \<times> 'w \<times> 'c)" where
  "AddSession K C H fresh ord w c r myKeys partnerPubKey baseKey partnerSIDHPubKey trigger negotiationStatus e2eParams =
     res_bind (NewSession K C H fresh w c (r_kv r) (r_t r) (r_partnerID r) myKeys partnerPubKey baseKey
       partnerSIDHPubKey trigger (r_fingerprint r) negotiationStatus e2eParams) (\<lambda>(s, w1, c1).
     let r' = addSession r s
     in res_bind (rl_save K ord w1 r') (\<lambda>(err, w2). Inr (length (r_heap r), r', w2, c1)))"

text \<open>\<open>Delete\<close> empties the map and the storage of the sessions; the list keeps its pointers.\<close>

fun rl_delete_sessions ::
  "('h, 'w) KV_ops \<Rightarrow> ('k, 'c) CypherHandler \<Rightarrow> 'w \<Rightarrow> 'c \<Rightarrow> ('h, 'k, 'p, 'q) relationship \<Rightarrow> nat list \<Rightarrow>
   fault + (('h, 'k, 'p, 'q) relationship \<times> 'w \<times> 'c)" where
  "rl_delete_sessions K H w c r [] = Inr (r, w, c)"
| "rl_delete_sessions K H w c r (i # is) =
     (let r' = r\<lparr>r_sessionByID := AList.delete (ss_sID (deref r i)) (r_sessionByID r)\<rparr>
      in res_bind (ss_Delete K H w c (deref r i)) (\<lambda>(w', c').
         rl_delete_sessions K H w' c' r' is))"

definition rl_Delete ::
  "('h, 'w) KV_ops \<Rightarrow> ('k, 'c) CypherHandler \<Rightarrow> 'w \<Rightarrow> 'c \<Rightarrow> ('h, 'k, 'p, 'q) relationship \<Rightarrow>
   fault + (('h, 'k, 'p, 'q) relationship \<times> 'w \<times> 'c)" where
  "rl_Delete K H w c r = rl_delete_sessions K H w c r (r_sessions r)"

section \<open>Choosing a session\<close>

definition GetNewest :: "('h, 'k, 'p, 'q) relationship \<Rightarrow> nat option" where
  "GetNewest r = (case r_sessions r of [] \<Rightarrow> None | i # is \<Rightarrow> Some i)"

fun scan_sessions ::
  "('h, 'k, 'p, 'q) relationship \<Rightarrow> nat list \<Rightarrow> nat list \<Rightarrow> nat list \<Rightarrow> nat list \<Rightarrow> nat option" where
  "scan_sessions r [] confirmedRekey unconfirmedActive unconfirmedRekey =
     (if confirmedRekey \<noteq> [] then Some (hd confirmedRekey)
      else if unconfirmedActive \<noteq> [] then Some (hd unconfirmedActive)
      else if unconfirmedRekey \<noteq> [] then Some (hd unconfirmedRekey)
      else None)"
| "scan_sessions r (i # is) confirmedRekey unconfirmedActive unconfirmedRekey =
     (let status = ss_Status (deref r i); confirmed = IsConfirmed (deref r i)
      in if status = Active \<and> confirmed then Some i
         else if status = RekeyNeeded \<and> confirmed then
           scan_sessions r is (confirmedRekey @ [i]) unconfirmedActive unconfirmedRekey
         else if status = Active \<and> \<not> confirmed then
           scan_sessions r is confirmedRekey (unconfirmedActive @ [i]) unconfirmedRekey
         else if status = RekeyNeeded \<and> \<not> confirmed then
           scan_sessions r is confirmedRekey unconfirmedActive (unconfirmedRekey @ [i])
         else scan_sessions r is confirmedRekey unconfirmedActive unconfirmedRekey)"

definition getSessionForSending :: "('h, 'k, 'p, 'q) relationship \<Rightarrow> nat option" where
  "getSessionForSending r = scan_sessions r (r_sessions r) [] [] []"

definition getKeyForSending ::
  "('h, 'w) KV_ops \<Rightarrow> 'w \<Rightarrow> ('h, 'k, 'p, 'q) relationship \<Rightarrow>
   fault + ((rl_error + 'k cypher) \<times> ('h, 'k, 'p, 'q) relationship \<times> 'w)" where
  "getKeyForSending K w r =
     (case getSessionForSending r of
        None \<Rightarrow> Inr (Inl NoSessionForSending, r, w)
      | Some i \<Rightarrow>
          res_bind (ss_PopKey K w (deref r i)) (\<lambda>(res, s, w').
          Inr (case res of Inl err \<Rightarrow> Inl (RelSession err) | Inr cy \<Rightarrow> Inr cy, write_session r i s, w')))"

fun scan_rekeyable :: "('h, 'k, 'p, 'q) relationship \<Rightarrow> nat list \<Rightarrow> nat option \<Rightarrow> nat option" where
  "scan_rekeyable r [] unconfirmed = unconfirmed"
| "scan_rekeyable r (i # is) unconfirmed =
     (if ss_Status (deref r i) \<noteq> RekeyEmpty then
        if IsConfirmed (deref r i) then Some i
        else if unconfirmed = None then scan_rekeyable r is (Some i)
        else scan_rekeyable r is unconfirmed
      else scan_rekeyable r is unconfirmed)"

definition getNewestRekeyableSession :: "('h, 'k, 'p, 'q) relationship \<Rightarrow> nat option" where
  "getNewestRekeyableSession r =
     (if r_sessions r = [] then None else scan_rekeyable r (r_sessions r) None)"

definition getKeyForRekey ::
  "('h, 'w) KV_ops \<Rightarrow> 'w \<Rightarrow> ('h, 'k, 'p, 'q) relationship \<Rightarrow>
   fault + ((rl_error + 'k cypher) \<times> ('h, 'k, 'p, 'q) relationship \<times> 'w)" where
  "getKeyForRekey K w r =
     (case getNewestRekeyableSession r of
        None \<Rightarrow> Inr (Inl NoSessionForRekeying, r, w)
      | Some i \<Rightarrow>
          res_bind (ss_PopReKey K w (deref r i)) (\<lambda>(res, s, w').
          Inr (case res of Inl err \<Rightarrow> Inl (RelSession err) | Inr cy \<Rightarrow> Inr cy, write_session r i s, w')))"

text \<open>\<open>rands\<close> is, for each session, the number that the random stream would give.\<close>

fun trigger_sessions ::
  "('k, 'p, 'q) e2e_crypto \<Rightarrow> (nat \<Rightarrow> u32) \<Rightarrow> ('h, 'k, 'p, 'q) relationship \<Rightarrow> nat list \<Rightarrow>
   nat list \<times> ('h, 'k, 'p, 'q) relationship" where
  "trigger_sessions C rands r [] = ([], r)"
| "trigger_sessions C rands r (i # is) =
     (let (b, s) = ss_TriggerNegotiation C (rands i) (deref r i);
          (instructions, r') = trigger_sessions C rands (write_session r i s) is
      in (if b then i # instructions else instructions, r'))"

definition rl_TriggerNegotiation ::
  "('k, 'p, 'q) e2e_crypto \<Rightarrow> (nat \<Rightarrow> u32) \<Rightarrow> ('h, 'k, 'p, 'q) relationship \<Rightarrow> nat list \<times> ('h, 'k, 'p, 'q) relationship" where
  "rl_TriggerNegotiation C rands r = trigger_sessions C rands r (r_sessions r)"

definition GetByID :: "('h, 'k, 'p, 'q) relationship \<Rightarrow> SessionID \<Rightarrow> nat option" where
  "GetByID r sid = map_of (r_sessionByID r) sid"

section \<open>Confirmation\<close>

text \<open>The loop of \<open>clean\<close>: the sessions that stay, in order, and whether any was deleted.\<close>

fun clean_sessions ::
  "('h, 'w) KV_ops \<Rightarrow> ('k, 'c) CypherHandler \<Rightarrow> 'w \<Rightarrow> 'c \<Rightarrow> ('h, 'k, 'p, 'q) relationship \<Rightarrow> nat list \<Rightarrow> nat \<Rightarrow>
   fault + (nat list \<times> bool \<times> ('h, 'k, 'p, 'q) relationship \<times> 'w \<times> 'c)" where
  "clean_sessions K H w c r [] numConfirmed = Inr ([], False, r, w, c)"
| "clean_sessions K H w c r (i # is) numConfirmed =
     (let s = deref r i; numConfirmed' = (if IsConfirmed s then Suc numConfirmed else numConfirmed)
      in if IsConfirmed s \<and> numConfirmed' > maxUnconfirmed then
           let r' = r\<lparr>r_sessionByID := AList.delete (ss_sID s) (r_sessionByID r)\<rparr>
           in res_bind (ss_Delete K H w c s) (\<lambda>(w1, c1).
              res_bind (clean_sessions K H w1 c1 r' is numConfirmed') (\<lambda>(js, edits, r2, w2, c2).
              Inr (js, True, r2, w2, c2)))
         else
           res_bind (clean_sessions K H w c r is numConfirmed') (\<lambda>(js, edits, r2, w2, c2).
           Inr (i # js, edits, r2, w2, c2)))"

definition rl_clean ::
  "('h, 'w) KV_ops \<Rightarrow> ('k, 'c) CypherHandler \<Rightarrow> (SessionID list \<Rightarrow> SessionID list) \<Rightarrow> 'w \<Rightarrow> 'c \<Rightarrow>
   ('h, 'k, 'p, 'q) relationship \<Rightarrow> fault + (('h, 'k, 'p, 'q) relationship \<times> 'w \<times> 'c)" where
  "rl_clean K H ord w c r =
     res_bind (clean_sessions K H w c r (r_sessions r) 0) (\<lambda>(newSessions, editsMade, r1, w1, c1).
     if editsMade then
       let r2 = r1\<lparr>r_sessions := newSessions\<rparr>
       in res_bind (rl_save K ord w1 r2) (\<lambda>(err, w2). Inr (r2, w2, c1))
     else Inr (r1, w1, c1))"

definition Confirm ::
  "('h, 'w) KV_ops \<Rightarrow> ('k, 'p, 'q) e2e_crypto \<Rightarrow> ('k, 'c) CypherHandler \<Rightarrow> (SessionID list \<Rightarrow> SessionID list) \<Rightarrow> 'w \<Rightarrow> 'c \<Rightarrow>
   ('h, 'k, 'p, 'q) relationship \<Rightarrow> SessionID \<Rightarrow> fault + (rl_error option \<times> ('h, 'k, 'p, 'q) relationship \<times> 'w \<times> 'c)" where
  "Confirm K C H ord w c r sid =
     (case map_of (r_sessionByID r) sid of
        None \<Rightarrow> Inr (Some SessionUnknown, r, w, c)
      | Some i \<Rightarrow>
          res_bind (SetNegotiationStatus K C w (deref r i) Confirmed) (\<lambda>(s, w1).
          res_bind (rl_clean K H ord w1 c (write_session r i s)) (\<lambda>(r2, w2, c2).
          Inr (None, r2, w2, c2))))"

section \<open>Lemmas\<close>

subsection \<open>Sessions write through their own handle\<close>

definition same_session :: "('h, 'k, 'p, 'q) Session \<Rightarrow> ('h, 'k, 'p, 'q) Session \<Rightarrow> bool" where
  "same_session s s' = (\<exists>n v. s' = s\<lparr>ss_negotiationStatus := n, ss_keyState := v\<rparr>)"

lemma same_session_refl [simp]: "same_session s s"
  unfolding same_session_def by (rule exI [of _ "ss_negotiationStatus s"], rule exI [of _ "ss_keyState s"]) simp

lemma same_session_trans: "same_session s s' \<Longrightarrow> same_session s' s'' \<Longrightarrow> same_session s s''"
  unfolding same_session_def by (elim exE) (hypsubst, simp, (rule exI)+, rule refl)

lemma same_session_upd [simp]:
  "same_session s (s\<lparr>ss_keyState := v\<rparr>)" "same_session s (s\<lparr>ss_negotiationStatus := n\<rparr>)"
  unfolding same_session_def
  by (rule exI [of _ "ss_negotiationStatus s"], rule exI [of _ v], simp)
     (rule exI [of _ n], rule exI [of _ "ss_keyState s"], simp)

lemma same_session_fields:
  assumes "same_session s s'"
  shows "ss_kv s' = ss_kv s" "ss_sID s' = ss_sID s" "ss_relationshipFingerprint s' = ss_relationshipFingerprint s" "ss_t s' = ss_t s"
  using assms by (auto simp: same_session_def)

lemma key_names: "CHR 0x5C \<notin> set sessionKey" "CHR 0x5C \<notin> set (makeStateVectorKey '''')"
  "CHR 0x5C \<notin> set relationshipKey" "CHR 0x5C \<notin> set relationshipFingerprintKey"
  by (simp_all add: sessionKey_def makeStateVectorKey_def stateVectorKey_def relationshipKey_def relationshipFingerprintKey_def)

lemma set_succeeds: "sets_succeed K \<Longrightarrow> \<exists>w'. KV_Set K h w key obj = (None, w')"
  by (metis sets_succeed_def prod.collapse)

lemma set_write:
  assumes "sets_succeed K" "KV_Set K h w key obj = (e, w')" "CHR 0x5C \<notin> set key"
  shows "e = None \<and> kv_writes K {h} w w'"
  using set_succeeds [OF assms(1), of h w key obj] assms(2,3) kv_writes_one(1) by fastforce

lemma vector_writes:
  assumes "sets_succeed K" "stored_at v h ''''" "sv_save K w v = Inr (e, w')"
  shows "kv_writes K {h} w w'"
  using assms set_write [OF assms(1)] key_names(2) by (auto simp: sv_save_def stored_at_def)

lemma save_writes:
  assumes "sets_succeed K" "ss_Save K C w s = Inr (e, w')"
  shows "e = None \<and> kv_writes K {ss_kv s} w w'"
  using assms(2) set_write [OF assms(1) _ key_names(1)] by (auto simp: ss_Save_def res_bind_Inr_iff)

lemma place_stored: "stored_at v h '''' \<Longrightarrow> same_place v v' \<Longrightarrow> stored_at v' h ''''"
  by (simp add: same_place_def stored_at_def)

lemma next_writes:
  assumes "sets_succeed K" "stored_at v h ''''" "sv_Next K w v = Inr (r, v', w')"
  shows "kv_writes K {h} w w'"
  using assms(3) vector_writes [OF assms(1) place_stored [OF assms(2) sv_use_place]]
  by (auto simp: sv_Next_def Let_def res_bind_Inr_iff kv_writes_refl split: if_splits)

lemma pop_writes:
  assumes "sets_succeed K" "ss_inv K C h w s" "ss_PopKey K w s = Inr (r, s', w') \<or> ss_PopReKey K w s = Inr (r, s', w')"
  shows "kv_writes K {ss_kv s} w w' \<and> same_session s s'"
proof -
  from assms(3) have "s' = s \<and> w' = w \<or> (\<exists>q v. sv_Next K w (ss_keyState s) = Inr (q, v, w') \<and> s' = s\<lparr>ss_keyState := v\<rparr>)"
    by (cases "sv_Next K w (ss_keyState s)")
      (auto simp: ss_PopKey_def ss_PopReKey_def Let_def split: if_split_asm sum.split_asm prod.split_asm)
  moreover have "stored_at (ss_keyState s) (ss_kv s) ''''" using assms(2) by (simp add: ss_inv_def)
  ultimately show ?thesis using next_writes [OF assms(1)] by (auto simp: kv_writes_refl)
qed

lemma set_status_writes:
  assumes "sets_succeed K" "TrySetNegotiationStatus K C w s status = Inr (r, s', w')"
  shows "kv_writes K {ss_kv s} w w' \<and> same_session s s'"
  using assms(2) save_writes [OF assms(1)]
  by (fastforce simp: TrySetNegotiationStatus_def Let_def res_bind_Inr_iff kv_writes_refl split: if_split_asm)

lemma trigger_same: "ss_TriggerNegotiation C rand s = (b, s') \<Longrightarrow> same_session s s'"
  by (auto simp: ss_TriggerNegotiation_def split: if_split_asm)

context versioned_kv
begin

lemma reachable_writes:
  assumes "ss_reachable K C s0 w0 s w e" "sets_succeed K" "ss_inv K C h w0 s0"
  shows "kv_writes K {ss_kv s0} w0 w \<and> same_session s0 s"
  using assms(1)
proof (induction rule: ss_reachable.induct)
  case ss_start
  show ?case by (simp add: kv_writes_refl)
next
  case (ss_pop s w e r s' w')
  note inv = reachable_inv [OF ss_pop.hyps(1) assms(2,3)]
  from pop_writes [OF assms(2) inv] ss_pop show ?case
    by (metis kv_writes_trans same_session_trans same_session_fields(1))
next
  case (ss_pop_rekey s w e r s' w')
  note inv = reachable_inv [OF ss_pop_rekey.hyps(1) assms(2,3)]
  from pop_writes [OF assms(2) inv] ss_pop_rekey show ?case
    by (metis kv_writes_trans same_session_trans same_session_fields(1))
next
  case (ss_use s w e k s' w')
  then obtain v x where v: "sv_use (ss_keyState s) k = Inr v" "sv_save K w v = Inr (x, w')" "s' = s\<lparr>ss_keyState := v\<rparr>"
    by (auto simp: ss_useKey_def sv_Use_def res_bind_Inr_iff)
  have "stored_at (ss_keyState s) (ss_kv s) ''''"
    using reachable_inv [OF ss_use.hyps(1) assms(2,3)] by (simp add: ss_inv_def)
  from vector_writes [OF assms(2) place_stored [OF this sv_use_place [OF v(1)]] v(2)] ss_use.IH v(3) show ?case
    by (metis kv_writes_trans same_session_trans same_session_fields(1) same_session_upd(1))
next
  case (ss_set s w e status r s' w')
  with set_status_writes [OF assms(2) ss_set.hyps(2)] show ?case
    by (metis kv_writes_trans same_session_trans same_session_fields(1))
next
  case (ss_trigger s w e rand b s')
  with trigger_same show ?case by (metis same_session_trans)
qed

lemma ss_inv_frame:
  assumes "kv_writes K hs w w'" "\<And>h'. h' \<in> hs \<Longrightarrow> apart K h' (ss_kv s)" "ss_inv K C h w s"
  shows "ss_inv K C h w' s"
proof -
  note fr = kv_writes_frame [OF assms(1,2)]
  from assms(3) show ?thesis
    by (simp add: ss_inv_def on_disk_def saved_status_def fr key_names LoadStateVector_def Let_def)
qed

end

lemma session_id_length: "length (GetSessionIDFromBaseKey C k) = sessionIDLen"
  by (simp add: GetSessionIDFromBaseKey_def copy_at_def)

lemma NewSession_writes:
  assumes "sets_succeed K"
    and "NewSession K C H fresh w c h t partner myKeys partnerPubKey baseKey partnerSIDH trigger fp neg par = Inr (s, w', c')"
  shows "kv_writes K {ss_kv s} w w'" "ss_relationshipFingerprint s = fp" "length (ss_sID s) = sessionIDLen"
proof -
  obtain priv sidh bk sID where fin: "finalizeKeyNegotiation C fresh myKeys partnerPubKey partnerSIDH baseKey = (priv, sidh, bk, sID)"
    by (metis prod_cases4)
  obtain v e1 w1 e2 where b: "NewStateVector K w (num_session_keys C par bk + ucast (par_NumRekeys par)) False '''' (ss_kv s) = Inr (v, e1, w1)"
    "ss_Save K C w1 s = Inr (e2, w')" "ss_relationshipFingerprint s = fp" "ss_sID s = sID"
    using assms(2) fin
    by (auto simp: NewSession_def buildChildKeys_def Let_def res_bind_Inr_iff split: if_split_asm sum.split_asm)
  have st: "stored_at v (ss_kv s) ''''" "sv_save K w v = Inr (e1, w1)"
    using b(1) by (auto simp: NewStateVector_def Let_def res_bind_Inr_iff stored_at_def)
  from vector_writes [OF assms(1) st] save_writes [OF assms(1) b(2)]
  show "kv_writes K {ss_kv s} w w'" by (metis kv_writes_trans)
  show "ss_relationshipFingerprint s = fp" by (rule b(3))
  have "sID = GetSessionIDFromBaseKey C bk" using fin by (auto simp: finalizeKeyNegotiation_def Let_def split: prod.splits)
  then show "length (ss_sID s) = sessionIDLen" using b(4) session_id_length by metis
qed

lemma Delete_writes:
  assumes "deletes_succeed K" "ss_inv K C h w s"
  shows "\<exists>w' c'. ss_Delete K H w c s = Inr (w', c') \<and> kv_writes K {ss_kv s} w w'"
proof -
  let ?v = "ss_keyState s"
  have inv: "sv_inv ?v" "stored_at ?v (ss_kv s) ''''" using assms(2) by (simp_all add: ss_inv_def)
  obtain ks where ks: "GetUnusedKeyNums ?v = Inr ks" using GetUnusedKeyNums_eq [OF inv(1)] by blast
  have del: "\<exists>w'. KV_Delete K h w key ver = (None, w')" for h w key ver
    using assms(1) by (metis deletes_succeed_def prod.collapse)
  obtain w1 where w1: "KV_Delete K (ss_kv s) w (makeStateVectorKey '''') currentStateVectorVersion = (None, w1)"
    using del by blast
  obtain w2 where w2: "KV_Delete K (ss_kv s) w1 sessionKey currentSessionVersion = (None, w2)" using del by blast
  have "kv_writes K {ss_kv s} w w2"
    by (rule kv_writes_trans [OF kv_writes_one(2) [OF w2 key_names(1)] kv_writes_one(2) [OF w1 key_names(2)]])
  with w1 w2 ks inv(2) show ?thesis
    by (simp add: ss_Delete_def ss_getUnusedKeys_def sv_Delete_def stored_at_def Let_def)
qed

subsection \<open>Specification\<close>

text \<open>What a restart makes of a session.\<close>

definition restored :: "('h, 'w) KV_ops \<Rightarrow> 'w \<Rightarrow> ('h, 'k, 'p, 'q) Session \<Rightarrow> ('h, 'k, 'p, 'q) Session" where
  "restored K w s = s\<lparr>ss_negotiationStatus := saved_status K w s\<rparr>"

definition session_ids :: "('h, 'k, 'p, 'q) relationship \<Rightarrow> SessionID list" where
  "session_ids r = map (\<lambda>i. ss_sID (deref r i)) (r_sessions r)"

text \<open>The list and the map hold the same sessions, under their own identifiers; each is in storage below the
  relationship's prefix, as is the fingerprint.\<close>

definition rl_shape ::
  "(kv, 'w) KV_ops \<Rightarrow> ('k, 'p, 'q) e2e_crypto \<Rightarrow> string list \<Rightarrow> 'w \<Rightarrow> (kv, 'k, 'p, 'q) relationship \<Rightarrow> bool" where
  "rl_shape K C ps w r =
     (derived ps (r_kv r) \<and>
      (\<forall>i \<in> set (r_sessions r). i < length (r_heap r) \<and> ss_inv K C (r_kv r) w (deref r i) \<and>
         ss_relationshipFingerprint (deref r i) = r_fingerprint r \<and> length (ss_sID (deref r i)) = sessionIDLen) \<and>
      distinct (session_ids r) \<and> distinct (map fst (r_sessionByID r)) \<and>
      set (r_sessionByID r) = (\<lambda>i. (ss_sID (deref r i), i)) ` set (r_sessions r) \<and>
      (\<exists>obj. KV_Get K (r_kv r) w relationshipFingerprintKey currentRelationshipVersion = Inr obj \<and>
         obj_Data obj = Raw (r_fingerprint r)))"

definition stored_ids :: "('h, 'w) KV_ops \<Rightarrow> 'w \<Rightarrow> 'h \<Rightarrow> SessionID list \<Rightarrow> bool" where
  "stored_ids K w h ids =
     (\<exists>obj. KV_Get K h w relationshipKey currentRelationshipVersion = Inr obj \<and>
        obj_Data obj = Json (JArr (map id_json ids)))"

definition rl_inv ::
  "(kv, 'w) KV_ops \<Rightarrow> ('k, 'p, 'q) e2e_crypto \<Rightarrow> string list \<Rightarrow> 'w \<Rightarrow> (kv, 'k, 'p, 'q) relationship \<Rightarrow> bool" where
  "rl_inv K C ps w r =
     (rl_shape K C ps w r \<and> (\<exists>ids. stored_ids K w (r_kv r) ids \<and> mset ids = mset (session_ids r)))"

text \<open>The runtime's order of a map: each key once.\<close>

definition map_order :: "('a list \<Rightarrow> 'a list) \<Rightarrow> bool" where
  "map_order ord = (\<forall>xs. mset (ord xs) = mset xs)"

subsection \<open>Identifiers\<close>

lemma MakeSessionPrefix_inj: "MakeSessionPrefix a = MakeSessionPrefix b \<Longrightarrow> a = b"
  using base64_inj by (auto simp: MakeSessionPrefix_def sid_String_def)

lemma json_word_word [simp]: "json_word (word_json (x :: 'a::len word)) = Some x"
  using uint_lt2p [of x] by (simp add: json_word_def word_json_def)

lemma json_array_id_roundtrip:
  assumes "length sid = sessionIDLen"
  shows "json_array_id (id_json sid) = Some sid"
proof -
  have "those (map json_word (map word_json sid)) = Some sid" by (induction sid) simp_all
  with assms show ?thesis by (simp add: id_json_def take_map zeroID_def copy_array)
qed

lemma json_ids_roundtrip:
  assumes "\<forall>sid \<in> set ids. length sid = sessionIDLen"
  shows "json_list json_array_id (JArr (map id_json ids)) = Some ids"
  using assms by (induction ids) (auto simp: json_array_id_roundtrip)

lemma fill_ids_eq:
  "i + length sids \<le> length xs \<Longrightarrow> fill_ids xs i sids = Inr (take i xs @ sids @ drop (i + length sids) xs)"
proof (induction sids arbitrary: xs i)
  case (Cons sid sids)
  then have "fill_ids xs i (sid # sids) = Inr (take (Suc i) (xs[i := sid]) @ sids @ drop (Suc i + length sids) (xs[i := sid]))"
    using Cons.IH [of "Suc i" "xs[i := sid]"] by simp
  with Cons.prems show ?case by (simp add: take_Suc_conv_app_nth)
qed simp

lemma ids_of_map:
  assumes "rl_shape K C ps w r"
  shows "mset (map fst (r_sessionByID r)) = mset (session_ids r)" "map_of (r_sessionByID r) sid = Some i \<longleftrightarrow>
    i \<in> set (r_sessions r) \<and> ss_sID (deref r i) = sid"
proof -
  have s: "set (r_sessionByID r) = (\<lambda>i. (ss_sID (deref r i), i)) ` set (r_sessions r)"
    and d: "distinct (map fst (r_sessionByID r))" "distinct (session_ids r)" using assms by (simp_all add: rl_shape_def)
  have "set (map fst (r_sessionByID r)) = set (session_ids r)" by (simp add: s session_ids_def image_image)
  with d show "mset (map fst (r_sessionByID r)) = mset (session_ids r)" by (metis set_eq_iff_mset_eq_distinct)
  show "map_of (r_sessionByID r) sid = Some i \<longleftrightarrow> i \<in> set (r_sessions r) \<and> ss_sID (deref r i) = sid"
    unfolding map_of_eq_Some_iff [OF d(1)] s by auto
qed

subsection \<open>The invariant\<close>

lemma update_new: "k \<notin> fst ` set al \<Longrightarrow> AList.update k v al = al @ [(k, v)]"
  by (induction al) auto

context ekv_store
begin

abbreviation K where "K \<equiv> versioned_ops E"

lemma session_handle:
  assumes "rl_shape K C ps w r" "ss_inv K C (r_kv r) w' s"
  shows "derived (ps @ [MakeSessionPrefix (ss_sID s)]) (ss_kv s)"
  using assms derived_prefix by (auto simp: rl_shape_def ss_inv_def versioned_ops_def)

lemma sessions_apart:
  assumes "rl_shape K C ps w r" "ss_inv K C (r_kv r) w1 s" "ss_inv K C (r_kv r) w2 s'"
  shows "ss_sID s \<noteq> ss_sID s' \<Longrightarrow> apart K (ss_kv s) (ss_kv s')" "apart K (ss_kv s) (r_kv r)" "apart K (r_kv r) (ss_kv s)"
proof -
  note d = session_handle [OF assms(1,2)] session_handle [OF assms(1,3)]
  have r: "derived ps (r_kv r)" using assms(1) by (simp add: rl_shape_def)
  show "ss_sID s \<noteq> ss_sID s' \<Longrightarrow> apart K (ss_kv s) (ss_kv s')"
    using derived_all_apart [OF d] MakeSessionPrefix_inj by blast
  show "apart K (ss_kv s) (r_kv r)" "apart K (r_kv r) (ss_kv s)"
    by (rule derived_all_apart [OF d(1) r], simp) (rule derived_all_apart [OF r d(1)], simp)
qed

text \<open>A change of one session, as far as the others and the relationship's own records are concerned.\<close>

lemma shape_session:
  assumes "rl_shape K C ps w r" "i \<in> set (r_sessions r)" "kv_writes K {ss_kv (deref r i)} w w'"
    and "same_session (deref r i) s" "ss_inv K C (r_kv r) w' s"
  shows "rl_shape K C ps w' (write_session r i s) \<and> session_ids (write_session r i s) = session_ids r"
proof -
  let ?r = "write_session r i s"
  have i: "i < length (r_heap r)" "ss_inv K C (r_kv r) w (deref r i)"
    "ss_relationshipFingerprint (deref r i) = r_fingerprint r" "length (ss_sID (deref r i)) = sessionIDLen"
    using assms(1,2) by (simp_all add: rl_shape_def)
  note same = same_session_fields [OF assms(4)]
  have heap: "deref ?r j = (if j = i then s else deref r j)" "r_sessions ?r = r_sessions r" "r_kv ?r = r_kv r"
    "r_sessionByID ?r = r_sessionByID r" "r_fingerprint ?r = r_fingerprint r" "length (r_heap ?r) = length (r_heap r)" for j
    using i(1) by (simp_all add: write_session_def)
  have ids: "ss_sID (deref ?r j) = ss_sID (deref r j)"
    "ss_relationshipFingerprint (deref ?r j) = ss_relationshipFingerprint (deref r j)" for j
    using heap(1) [of j] same(2,3) by simp_all
  have fr: "KV_Get K (r_kv r) w' key ver = KV_Get K (r_kv r) w key ver" if "CHR 0x5C \<notin> set key" for key ver
    using kv_writes_frame [OF assms(3) _ that] sessions_apart(2) [OF assms(1) i(2) i(2)] by simp
  have "ss_inv K C (r_kv r) w' (deref ?r j)" if j: "j \<in> set (r_sessions r)" for j
  proof (cases "j = i")
    case True
    with assms(5) heap(1) show ?thesis by simp
  next
    case False
    have inv: "ss_inv K C (r_kv r) w (deref r j)" and "distinct (session_ids r)" using assms(1) j by (simp_all add: rl_shape_def)
    with False j assms(2) have "ss_sID (deref r i) \<noteq> ss_sID (deref r j)"
      unfolding session_ids_def distinct_map by (metis inj_onD)
    from vkv.ss_inv_frame [OF assms(3) _ inv] sessions_apart(1) [OF assms(1) i(2) inv this] heap(1) [of j] False
    show ?thesis by simp
  qed
  with assms(1) show ?thesis
    by (simp add: rl_shape_def session_ids_def ids heap(2-) fr key_names)
qed

lemma inv_session:
  assumes "rl_inv K C ps w r" "i \<in> set (r_sessions r)" "kv_writes K {ss_kv (deref r i)} w w'"
    and "same_session (deref r i) s" "ss_inv K C (r_kv r) w' s"
  shows "rl_inv K C ps w' (write_session r i s)"
proof -
  have sh: "rl_shape K C ps w r" using assms(1) by (simp add: rl_inv_def)
  then have inv: "ss_inv K C (r_kv r) w (deref r i)" using assms(2) by (simp add: rl_shape_def)
  have "KV_Get K (r_kv r) w' relationshipKey currentRelationshipVersion = KV_Get K (r_kv r) w relationshipKey currentRelationshipVersion"
    using kv_writes_frame [OF assms(3) _ key_names(3)] sessions_apart(2) [OF sh inv inv] by simp
  with assms(1) shape_session [OF sh assms(2-5)] show ?thesis
    by (simp add: rl_inv_def stored_ids_def write_session_def)
qed

lemma inv_save:
  assumes "sets_succeed K" "map_order ord" "rl_shape K C ps w r" "rl_save K ord w r = Inr (e, w')"
  shows "rl_inv K C ps w' r \<and> stored_ids K w' (r_kv r) (ord (map fst (r_sessionByID r)))"
proof -
  let ?ids = "ord (map fst (r_sessionByID r))"
  have "mset ?ids = mset (session_ids r)" using assms(2) ids_of_map(1) [OF assms(3)] by (simp add: map_order_def)
  moreover from this have "length ?ids = length (r_sessions r)" by (metis size_mset length_map session_ids_def)
  then have "fill_ids (replicate (length (r_sessions r)) zeroID) 0 ?ids = Inr ?ids" by (simp add: fill_ids_eq)
  with assms(4) have set: "KV_Set K (r_kv r) w relationshipKey
      \<lparr>obj_Version = currentRelationshipVersion, obj_Timestamp = KV_Now K w, obj_Data = Json (JArr (map id_json ?ids))\<rparr> = (e, w')"
    by (simp add: rl_save_def rl_marshal_def)
  note e = set_write [OF assms(1) set key_names(3)]
  have set': "KV_Set K (r_kv r) w relationshipKey
      \<lparr>obj_Version = currentRelationshipVersion, obj_Timestamp = KV_Now K w, obj_Data = Json (JArr (map id_json ?ids))\<rparr> = (None, w')"
    using set e by simp
  have "stored_ids K w' (r_kv r) ?ids"
    using vkv.get_set [OF set'] by (simp add: stored_ids_def)
  moreover have "relationshipFingerprintKey \<noteq> relationshipKey" by (simp add: relationshipFingerprintKey_def relationshipKey_def)
  then have "KV_Get K (r_kv r) w' relationshipFingerprintKey ver = KV_Get K (r_kv r) w relationshipFingerprintKey ver" for ver
    using vkv.get_set_other [OF set'] by simp
  moreover have "ss_inv K C (r_kv r) w' (deref r i)" if "i \<in> set (r_sessions r)" for i
  proof -
    have inv: "ss_inv K C (r_kv r) w (deref r i)" using assms(3) that by (simp add: rl_shape_def)
    from vkv.ss_inv_frame [OF conjunct2 [OF e] _ this] sessions_apart(3) [OF assms(3) inv inv] show ?thesis by simp
  qed
  ultimately show ?thesis using assms(3) by (auto simp: rl_inv_def rl_shape_def)
qed

lemma shape_add:
  assumes "rl_shape K C ps w r" "ss_inv K C (r_kv r) w' s" "kv_writes K {ss_kv s} w w'"
    and "ss_sID s \<notin> set (session_ids r)" "ss_relationshipFingerprint s = r_fingerprint r" "length (ss_sID s) = sessionIDLen"
  shows "rl_shape K C ps w' (addSession r s)"
proof -
  let ?r = "addSession r s"
  let ?n = "length (r_heap r)"
  have lt: "j < ?n" "ss_inv K C (r_kv r) w (deref r j)" if "j \<in> set (r_sessions r)" for j
    using assms(1) that by (simp_all add: rl_shape_def)
  have heap: "deref ?r ?n = s" "j \<in> set (r_sessions r) \<Longrightarrow> deref ?r j = deref r j" "r_sessions ?r = ?n # r_sessions r"
    "r_kv ?r = r_kv r" "r_fingerprint ?r = r_fingerprint r" "length (r_heap ?r) = Suc ?n"
    "r_sessionByID ?r = AList.update (ss_sID s) ?n (r_sessionByID r)" for j
    using lt by (simp_all add: addSession_def Let_def nth_append)
  have ids: "session_ids ?r = ss_sID s # session_ids r" using heap(1-3) by (simp add: session_ids_def)
  have new: "ss_sID s \<notin> fst ` set (r_sessionByID r)"
    using assms(1,4) by (simp add: rl_shape_def session_ids_def image_image)
  then have upd: "AList.update (ss_sID s) ?n (r_sessionByID r) = r_sessionByID r @ [(ss_sID s, ?n)]"
    by (rule update_new)
  have fr: "KV_Get K (r_kv r) w' key ver = KV_Get K (r_kv r) w key ver" if "CHR 0x5C \<notin> set key" for key ver
    using kv_writes_frame [OF assms(3) _ that] sessions_apart(2) [OF assms(1,2,2)] by simp
  have "ss_inv K C (r_kv r) w' (deref r j)" if j: "j \<in> set (r_sessions r)" for j
  proof -
    have "ss_sID s \<noteq> ss_sID (deref r j)" using assms(4) j by (auto simp: session_ids_def)
    with vkv.ss_inv_frame [OF assms(3) _ lt(2) [OF j]] sessions_apart(1) [OF assms(1,2) lt(2) [OF j]] show ?thesis by simp
  qed
  with assms new show ?thesis
    unfolding rl_shape_def ids heap upd
    by (auto simp: heap(1,2) fr key_names less_SucI)
qed

end

lemma save_runs:
  assumes "map_order ord" "rl_shape K C ps w r"
  shows "\<exists>e w'. rl_save K' ord w1 r = Inr (e, w')"
proof -
  have "mset (ord (map fst (r_sessionByID r))) = mset (session_ids r)"
    using assms(1) ids_of_map(1) [OF assms(2)] by (simp add: map_order_def)
  then have "length (ord (map fst (r_sessionByID r))) = length (r_sessions r)" by (metis size_mset length_map session_ids_def)
  then have "\<exists>d. rl_marshal ord r = Inr d" by (simp add: rl_marshal_def fill_ids_eq)
  then show ?thesis by (auto simp: rl_save_def)
qed

lemma set_confirmed:
  assumes "SetNegotiationStatus K C w s Confirmed = Inr (s', w')"
  shows "TrySetNegotiationStatus K C w s Confirmed = Inr (None, s', w')"
  using assms by (auto simp: SetNegotiationStatus_def res_bind_Inr_iff split: if_split_asm)

lemma restored_inv:
  assumes "ss_inv K' C h w s"
  shows "ss_inv K' C h w (restored K' w s)"
proof -
  have d: "on_disk K' C w s" "unat (ss_negotiationStatus s) < 6" using assms by (auto simp: ss_inv_def)
  have "unat (saved_status K' w s) < 6"
    using d stored_status_small [of "ss_negotiationStatus s"] by (auto simp: on_disk_def saved_for_def negotiation_defs)
  moreover have "saved_for (saved_status K' w s) (restored K' w s)"
    using saved_status_fixed [OF d(1)] by (simp add: saved_for_def restored_def)
  moreover have "saved_status K' w (restored K' w s) = saved_status K' w s" by (simp add: saved_status_def restored_def)
  ultimately show ?thesis using assms by (simp add: ss_inv_def on_disk_def restored_def)
qed

definition session_of :: "(kv, 'k, 'p, 'q) relationship \<Rightarrow> SessionID \<Rightarrow> (kv, 'k, 'p, 'q) Session" where
  "session_of r sid = deref r (the (map_of (r_sessionByID r) sid))"

context ekv_store
begin

lemma shape_remove:
  assumes "rl_shape K C ps w (r\<lparr>r_sessions := acc @ i # is\<rparr>)" "kv_writes K {ss_kv (deref r i)} w w'"
  shows "rl_shape K C ps w' (r\<lparr>r_sessionByID := AList.delete (ss_sID (deref r i)) (r_sessionByID r), r_sessions := acc @ is\<rparr>)"
proof -
  let ?r = "r\<lparr>r_sessions := acc @ i # is\<rparr>"
  have sh: "derived ps (r_kv r)" "\<And>j. j \<in> set (acc @ i # is) \<Longrightarrow> j < length (r_heap r) \<and> ss_inv K C (r_kv r) w (deref r j) \<and>
      ss_relationshipFingerprint (deref r j) = r_fingerprint r \<and> length (ss_sID (deref r j)) = sessionIDLen"
    "distinct (map (\<lambda>i. ss_sID (deref r i)) (acc @ i # is))" "distinct (map fst (r_sessionByID r))"
    "set (r_sessionByID r) = (\<lambda>i. (ss_sID (deref r i), i)) ` set (acc @ i # is)"
    "\<exists>obj. KV_Get K (r_kv r) w relationshipFingerprintKey currentRelationshipVersion = Inr obj \<and> obj_Data obj = Raw (r_fingerprint r)"
    using assms(1) by (auto simp: rl_shape_def session_ids_def)
  have i: "ss_inv K C (r_kv r) w (deref r i)" using sh(2) [of i] by simp
  note ap = sessions_apart [OF assms(1), of w "deref r i" w, simplified, OF i]
  have fr: "KV_Get K (r_kv r) w' key ver = KV_Get K (r_kv r) w key ver" if "CHR 0x5C \<notin> set key" for key ver
    using kv_writes_frame [OF assms(2) _ that] ap(2) [OF i] by simp
  have ne: "ss_sID (deref r i) \<noteq> ss_sID (deref r j)" if "j \<in> set (acc @ is)" for j using sh(3) that by auto
  have "ss_inv K C (r_kv r) w' (deref r j)" if j: "j \<in> set (acc @ is)" for j
  proof -
    have inv: "ss_inv K C (r_kv r) w (deref r j)" using sh(2) [of j] j by auto
    from vkv.ss_inv_frame [OF assms(2) _ inv] ap(1) [OF inv ne [OF j]] show ?thesis by simp
  qed
  moreover have "set (AList.delete (ss_sID (deref r i)) (r_sessionByID r)) = (\<lambda>i. (ss_sID (deref r i), i)) ` set (acc @ is)"
    using ne by (auto simp: AList.delete_eq sh(5))
  moreover have "distinct (map fst (AList.delete (ss_sID (deref r i)) (r_sessionByID r)))"
    using sh(4) by (simp add: distinct_delete)
  ultimately show ?thesis
    using sh(1,2,3,6) by (simp add: rl_shape_def session_ids_def fr key_names)
qed

lemma clean_spec:
  assumes "deletes_succeed K" "rl_shape K C ps w (r\<lparr>r_sessions := acc @ is\<rparr>)"
  shows "\<exists>js edits al w' c'. clean_sessions K H w c r is n = Inr (js, edits, r\<lparr>r_sessionByID := al\<rparr>, w', c') \<and>
    rl_shape K C ps w' (r\<lparr>r_sessionByID := al, r_sessions := acc @ js\<rparr>) \<and> subseq js is \<and>
    filter (\<lambda>i. \<not> IsConfirmed (deref r i)) js = filter (\<lambda>i. \<not> IsConfirmed (deref r i)) is \<and>
    filter (\<lambda>i. IsConfirmed (deref r i)) js = take (maxUnconfirmed - n) (filter (\<lambda>i. IsConfirmed (deref r i)) is) \<and>
    (\<not> edits \<longrightarrow> js = is \<and> al = r_sessionByID r \<and> w' = w)"
  using assms(2)
proof (induction "is" arbitrary: w c r acc n)
  case Nil
  then show ?case by (intro exI [of _ "[]"] exI [of _ False] exI [of _ "r_sessionByID r"] exI [of _ w] exI [of _ c]) simp
next
  case (Cons i "is")
  let ?m = "if IsConfirmed (deref r i) then Suc n else n"
  show ?case
  proof (cases "IsConfirmed (deref r i) \<and> ?m > maxUnconfirmed")
    case True
    let ?r = "r\<lparr>r_sessionByID := AList.delete (ss_sID (deref r i)) (r_sessionByID r)\<rparr>"
    from True have cf: "IsConfirmed (deref r i)" "maxUnconfirmed < Suc n" by (auto split: if_split_asm)
    have inv: "ss_inv K C (r_kv r) w (deref r i)" using Cons.prems by (simp add: rl_shape_def)
    obtain w1 c1 where d: "ss_Delete K H w c (deref r i) = Inr (w1, c1)" "kv_writes K {ss_kv (deref r i)} w w1"
      using Delete_writes [OF assms(1) inv, of H c] by blast
    have "rl_shape K C ps w1 (?r\<lparr>r_sessions := acc @ is\<rparr>)" using shape_remove [OF Cons.prems d(2)] by simp
    from Cons.IH [OF this, of c1 "?m"] obtain js edits al w' c' where
      ih: "clean_sessions K H w1 c1 ?r is ?m = Inr (js, edits, ?r\<lparr>r_sessionByID := al\<rparr>, w', c')"
      "rl_shape K C ps w' (?r\<lparr>r_sessionByID := al, r_sessions := acc @ js\<rparr>)" "subseq js is"
      "filter (\<lambda>i. \<not> IsConfirmed (deref ?r i)) js = filter (\<lambda>i. \<not> IsConfirmed (deref ?r i)) is"
      "filter (\<lambda>i. IsConfirmed (deref ?r i)) js = take (maxUnconfirmed - ?m) (filter (\<lambda>i. IsConfirmed (deref ?r i)) is)"
      by blast
    have "clean_sessions K H w c r (i # is) n = Inr (js, True, r\<lparr>r_sessionByID := al\<rparr>, w', c')"
      using cf d(1) ih(1) by (simp add: Let_def)
    with ih(2-) cf show ?thesis
      by (intro exI [of _ js] exI [of _ True] exI [of _ al] exI [of _ w'] exI [of _ c']) auto
  next
    case False
    have "rl_shape K C ps w (r\<lparr>r_sessions := (acc @ [i]) @ is\<rparr>)" using Cons.prems by simp
    from Cons.IH [OF this, of c "?m"] obtain js edits al w' c' where
      ih: "clean_sessions K H w c r is ?m = Inr (js, edits, r\<lparr>r_sessionByID := al\<rparr>, w', c')"
      "rl_shape K C ps w' (r\<lparr>r_sessionByID := al, r_sessions := (acc @ [i]) @ js\<rparr>)" "subseq js is"
      "filter (\<lambda>i. \<not> IsConfirmed (deref r i)) js = filter (\<lambda>i. \<not> IsConfirmed (deref r i)) is"
      "filter (\<lambda>i. IsConfirmed (deref r i)) js = take (maxUnconfirmed - ?m) (filter (\<lambda>i. IsConfirmed (deref r i)) is)"
      "\<not> edits \<longrightarrow> js = is \<and> al = r_sessionByID r \<and> w' = w" by blast
    have "clean_sessions K H w c r (i # is) n = Inr (i # js, edits, r\<lparr>r_sessionByID := al\<rparr>, w', c')"
      using False ih(1) by (auto simp: Let_def)
    moreover have "filter (\<lambda>i. IsConfirmed (deref r i)) (i # js) =
        take (maxUnconfirmed - n) (filter (\<lambda>i. IsConfirmed (deref r i)) (i # is))"
    proof -
      have "maxUnconfirmed - n = Suc k \<Longrightarrow> maxUnconfirmed - Suc n = k" for k by arith
      with ih(5) False show ?thesis by (cases "maxUnconfirmed - n") auto
    qed
    ultimately show ?thesis using ih(2-4,6)
      by (intro exI [of _ "i # js"] exI [of _ edits] exI [of _ al] exI [of _ w'] exI [of _ c']) auto
  qed
qed

lemma clean_inv:
  assumes "sets_succeed K" "deletes_succeed K" "map_order ord" "rl_inv K C ps w r"
  shows "\<exists>js al w' c'. rl_clean K H ord w c r = Inr (r\<lparr>r_sessionByID := al, r_sessions := js\<rparr>, w', c') \<and>
    rl_inv K C ps w' (r\<lparr>r_sessionByID := al, r_sessions := js\<rparr>) \<and> subseq js (r_sessions r) \<and>
    filter (\<lambda>i. \<not> IsConfirmed (deref r i)) js = filter (\<lambda>i. \<not> IsConfirmed (deref r i)) (r_sessions r) \<and>
    filter (\<lambda>i. IsConfirmed (deref r i)) js = take maxUnconfirmed (filter (\<lambda>i. IsConfirmed (deref r i)) (r_sessions r))"
proof -
  have "rl_shape K C ps w (r\<lparr>r_sessions := [] @ r_sessions r\<rparr>)" using assms(4) by (simp add: rl_inv_def)
  from clean_spec [OF assms(2) this, of H c 0] obtain js edits al w1 c1 where
    cl: "clean_sessions K H w c r (r_sessions r) 0 = Inr (js, edits, r\<lparr>r_sessionByID := al\<rparr>, w1, c1)"
    "rl_shape K C ps w1 (r\<lparr>r_sessionByID := al, r_sessions := [] @ js\<rparr>)" "subseq js (r_sessions r)"
    "filter (\<lambda>i. \<not> IsConfirmed (deref r i)) js = filter (\<lambda>i. \<not> IsConfirmed (deref r i)) (r_sessions r)"
    "filter (\<lambda>i. IsConfirmed (deref r i)) js = take (maxUnconfirmed - 0) (filter (\<lambda>i. IsConfirmed (deref r i)) (r_sessions r))"
    "\<not> edits \<longrightarrow> js = r_sessions r \<and> al = r_sessionByID r \<and> w1 = w" by blast
  note cl = cl [unfolded append_Nil diff_zero]
  let ?r = "r\<lparr>r_sessionByID := al, r_sessions := js\<rparr>"
  show ?thesis
  proof (cases edits)
    case True
    obtain e w2 where sv: "rl_save K ord w1 ?r = Inr (e, w2)" using save_runs [OF assms(3) cl(2), of K w1] by blast
    from inv_save [OF assms(1,3) cl(2) sv] have "rl_inv K C ps w2 ?r" by simp
    moreover have "rl_clean K H ord w c r = Inr (?r, w2, c1)" using cl(1) True sv by (simp add: rl_clean_def)
    ultimately show ?thesis using cl(3-5) by (intro exI [of _ js] exI [of _ al] exI [of _ w2] exI [of _ c1]) simp
  next
    case False
    with cl(1,6) have "rl_clean K H ord w c r = Inr (?r, w1, c1)" by (simp add: rl_clean_def)
    with cl(3-6) False assms(4) show ?thesis by (intro exI [of _ js] exI [of _ al] exI [of _ w1] exI [of _ c1]) simp
  qed
qed

lemma confirm_inv:
  assumes "sets_succeed K" "deletes_succeed K" "map_order ord" "rl_inv K C ps w r"
    and "map_of (r_sessionByID r) sid = Some i" "SetNegotiationStatus K C w (deref r i) Confirmed = Inr (s, w1)"
  shows "\<exists>r' w' c'. Confirm K C H ord w c r sid = Inr (None, r', w', c') \<and> rl_inv K C ps w' r' \<and>
    r_heap r' = (r_heap r)[i := s] \<and> r_kv r' = r_kv r \<and> i \<in> set (r_sessions r) \<and> subseq (r_sessions r') (r_sessions r) \<and>
    filter (\<lambda>j. \<not> IsConfirmed (deref r' j)) (r_sessions r') = filter (\<lambda>j. \<not> IsConfirmed (deref r' j)) (r_sessions r) \<and>
    filter (\<lambda>j. IsConfirmed (deref r' j)) (r_sessions r') =
      take maxUnconfirmed (filter (\<lambda>j. IsConfirmed (deref r' j)) (r_sessions r))"
proof -
  have sh: "rl_shape K C ps w r" using assms(4) by (simp add: rl_inv_def)
  have i: "i \<in> set (r_sessions r)" using ids_of_map(2) [OF sh] assms(5) by blast
  then have inv: "ss_inv K C (r_kv r) w (deref r i)" using sh by (simp add: rl_shape_def)
  note set = set_confirmed [OF assms(6)]
  have "rl_inv K C ps w1 (write_session r i s)"
    using inv_session [OF assms(4) i] set_status_writes [OF assms(1) set] vkv.try_set_inv [OF inv set] by blast
  from clean_inv [OF assms(1-3) this, of H c] obtain js al w' c' where
    "rl_clean K H ord w1 c (write_session r i s) = Inr ((write_session r i s)\<lparr>r_sessionByID := al, r_sessions := js\<rparr>, w', c')"
    "rl_inv K C ps w' ((write_session r i s)\<lparr>r_sessionByID := al, r_sessions := js\<rparr>)"
    "subseq js (r_sessions (write_session r i s))"
    "filter (\<lambda>j. \<not> IsConfirmed (deref (write_session r i s) j)) js =
      filter (\<lambda>j. \<not> IsConfirmed (deref (write_session r i s) j)) (r_sessions (write_session r i s))"
    "filter (\<lambda>j. IsConfirmed (deref (write_session r i s) j)) js =
      take maxUnconfirmed (filter (\<lambda>j. IsConfirmed (deref (write_session r i s) j)) (r_sessions (write_session r i s)))"
    by blast
  with assms(5,6) i show ?thesis by (simp add: Confirm_def write_session_def)
qed

text \<open>Loading the sessions of a list of identifiers prepends them one by one.\<close>

lemma session_of_id:
  assumes "rl_shape K C ps w r" "sid \<in> set (session_ids r)"
  shows "\<exists>i \<in> set (r_sessions r). session_of r sid = deref r i \<and> ss_sID (deref r i) = sid \<and> map_of (r_sessionByID r) sid = Some i"
proof -
  obtain i where "i \<in> set (r_sessions r)" "ss_sID (deref r i) = sid" using assms(2) by (auto simp: session_ids_def)
  with ids_of_map(2) [OF assms(1), of sid i] show ?thesis by (auto simp: session_of_def)
qed

lemma load_sessions:
  assumes "crypto_laws C" "rl_shape K C ps w r" "set ids \<subseteq> set (session_ids r)" "distinct ids"
    and "r_kv r0 = r_kv r" "r_fingerprint r0 = r_fingerprint r" "set ids \<inter> fst ` set (r_sessionByID r0) = {}"
  shows "\<exists>c'. rl_load_sessions K C H w c r0 ids =
    Inr (r0\<lparr>r_heap := r_heap r0 @ map (restored K w \<circ> session_of r) ids,
            r_sessions := rev [length (r_heap r0)..<length (r_heap r0) + length ids] @ r_sessions r0,
            r_sessionByID := r_sessionByID r0 @ zip ids [length (r_heap r0)..<length (r_heap r0) + length ids]\<rparr>, c')"
  using assms(3-)
proof (induction ids arbitrary: r0 c)
  case Nil
  then show ?case by simp
next
  case (Cons sid ids)
  let ?n = "length (r_heap r0)"
  obtain i where i: "i \<in> set (r_sessions r)" "session_of r sid = deref r i" "ss_sID (deref r i) = sid"
    using session_of_id [OF assms(2), of sid] Cons.prems(1) by auto
  let ?s = "restored K w (deref r i)"
  have inv: "ss_inv K C (r_kv r) w (deref r i)" "ss_relationshipFingerprint (deref r i) = r_fingerprint r"
    using assms(2) i(1) by (simp_all add: rl_shape_def)
  obtain c1 where ld: "LoadSession K C H w c (r_kv r0) sid (r_fingerprint r0) = Inr (Inr ?s, c1)"
    using LoadSession_on_disk [OF assms(1) inv(1), of H c] i(3) inv(2) Cons.prems(3,4) by (auto simp: restored_def)
  have sid: "ss_sID ?s = sid" using i(3) by (simp add: restored_def)
  let ?r1 = "addSession r0 ?s"
  have upd: "r_sessionByID ?r1 = r_sessionByID r0 @ [(sid, ?n)]" using Cons.prems(5) sid
    by (simp add: addSession_def Let_def update_new)
  have r1: "r_kv ?r1 = r_kv r" "r_fingerprint ?r1 = r_fingerprint r" "r_heap ?r1 = r_heap r0 @ [?s]" "r_sessions ?r1 = ?n # r_sessions r0"
    using Cons.prems(3,4) by (simp_all add: addSession_def Let_def)
  have "set ids \<subseteq> set (session_ids r)" "distinct ids" "set ids \<inter> fst ` set (r_sessionByID ?r1) = {}"
    using Cons.prems(1,2,5) by (auto simp: upd)
  from Cons.IH [OF this(1,2) r1(1,2) this(3), of c1] obtain c' where
    ih: "rl_load_sessions K C H w c1 ?r1 ids =
      Inr (?r1\<lparr>r_heap := (r_heap r0 @ [?s]) @ map (restored K w \<circ> session_of r) ids,
            r_sessions := rev [Suc ?n..<Suc ?n + length ids] @ (?n # r_sessions r0),
            r_sessionByID := (r_sessionByID r0 @ [(sid, ?n)]) @ zip ids [Suc ?n..<Suc ?n + length ids]\<rparr>, c')"
    unfolding r1(3,4) upd by auto
  have "[?n..<?n + length (sid # ids)] = ?n # [Suc ?n..<Suc ?n + length ids]" by (simp add: upt_conv_Cons del: upt_Suc)
  with ld ih i(2) show ?case by (simp add: addSession_def Let_def del: upt_Suc)
qed

lemma load_relationship:
  assumes "crypto_laws C" "rl_inv K C ps w r" "rt_Prefix t = Inr p" "kv_Prefix h p = Inr (r_kv r)"
  shows "\<exists>r' ids c'. LoadRelationship K C L H w c h t myID partnerID = Inr (Inr r', c') \<and>
    stored_ids K w (r_kv r) ids \<and> mset ids = mset (session_ids r) \<and>
    r' = \<lparr>r_t = t, r_kv = r_kv r, r_heap = map (restored K w \<circ> session_of r) ids, r_sessions = rev [0..<length ids],
          r_sessionByID = zip ids [0..<length ids], r_fingerprint = r_fingerprint r, r_myID = myID, r_partnerID = partnerID\<rparr>"
proof -
  have sh: "rl_shape K C ps w r" using assms(2) by (simp add: rl_inv_def)
  obtain ids obj where ids: "stored_ids K w (r_kv r) ids" "mset ids = mset (session_ids r)"
    and obj: "KV_Get K (r_kv r) w relationshipKey currentRelationshipVersion = Inr obj" "obj_Data obj = Json (JArr (map id_json ids))"
    using assms(2) by (auto simp: rl_inv_def stored_ids_def)
  obtain fo where fp: "KV_Get K (r_kv r) w relationshipFingerprintKey currentRelationshipVersion = Inr fo" "obj_Data fo = Raw (r_fingerprint r)"
    using sh by (auto simp: rl_shape_def)
  have set: "set ids = set (session_ids r)" "distinct ids"
    using ids(2) sh mset_eq_setD [OF ids(2)] by (simp_all add: rl_shape_def mset_eq_imp_distinct_iff [OF ids(2)])
  have "length sid = sessionIDLen" if "sid \<in> set ids" for sid
    using that sh unfolding set(1) by (auto simp: rl_shape_def session_ids_def)
  then have js: "json_list json_array_id (JArr (map id_json ids)) = Some ids" by (simp add: json_ids_roundtrip del: json_list.simps)
  let ?r0 = "\<lparr>r_t = t, r_kv = r_kv r, r_heap = [], r_sessions = [], r_sessionByID = [], r_fingerprint = r_fingerprint r,
              r_myID = myID, r_partnerID = partnerID\<rparr>"
  obtain c' where "rl_load_sessions K C H w c ?r0 ids = Inr (?r0\<lparr>r_heap := map (restored K w \<circ> session_of r) ids,
      r_sessions := rev [0..<length ids], r_sessionByID := zip ids [0..<length ids]\<rparr>, c')"
    using load_sessions [OF assms(1) sh, of ids ?r0 H c] set by auto
  moreover have "KV_Prefix K h p = Inr (r_kv r)" using assms(4) by (simp add: versioned_ops_def)
  ultimately show ?thesis using ids obj fp js assms(3)
    by (intro exI [of _ "?r0\<lparr>r_heap := map (restored K w \<circ> session_of r) ids,
      r_sessions := rev [0..<length ids], r_sessionByID := zip ids [0..<length ids]\<rparr>"] exI [of _ ids] exI [of _ c'])
      (simp add: LoadRelationship_def rl_unmarshal_def loadRelationshipFingerprint_def del: json_list.simps)
qed

end

lemma new_relationship_unfold:
  assumes "NewRelationship K C L H fresh ord w c h t myID partnerID myKeys partnerKey partnerSIDH par = Inr (r, w', c')"
  shows "\<exists>p h' fp e w1 s w2 c1 w3 e3. rt_Prefix t = Inr p \<and> KV_Prefix K h p = Inr h' \<and>
    storeRelationshipFingerprint K w fp h' = (e, w1) \<and>
    NewSession K C H fresh w1 c h' t partnerID (Some myKeys) partnerKey None partnerSIDH zeroID fp Confirmed par = Inr (s, w2, c1) \<and>
    ss_Save K C w2 s = Inr (None, w3) \<and> rl_save K ord w3 r = Inr (e3, w') \<and>
    r = addSession \<lparr>r_t = t, r_kv = h', r_heap = [], r_sessions = [], r_sessionByID = [], r_fingerprint = fp,
      r_myID = myID, r_partnerID = partnerID\<rparr> s"
proof -
  note run = assms [unfolded NewRelationship_def Let_def]
  obtain p where p: "rt_Prefix t = Inr p" using run by (auto simp: res_bind_Inr_iff)
  obtain h' where h': "KV_Prefix K h p = Inr h'" using run p by (cases "KV_Prefix K h p") simp_all
  obtain fp where fp: "makeRelationshipFingerprint L t (fst myKeys) partnerKey myID partnerID = Inr fp"
    using run p h' by (auto simp: res_bind_Inr_iff)
  obtain e w1 where st: "storeRelationshipFingerprint K w fp h' = (e, w1)" by (metis surj_pair)
  let ?r0 = "\<lparr>r_t = t, r_kv = h', r_heap = [], r_sessions = [], r_sessionByID = [], r_fingerprint = fp,
      r_myID = myID, r_partnerID = partnerID\<rparr>"
  obtain s w2 c1 w3 e3 where
    "NewSession K C H fresh w1 c h' t partnerID (Some myKeys) partnerKey None partnerSIDH zeroID fp Confirmed par = Inr (s, w2, c1)"
    "ss_Save K C w2 s = Inr (None, w3)" "rl_save K ord w3 (addSession ?r0 s) = Inr (e3, w')" "r = addSession ?r0 s"
    using run p h' fp st by (auto simp: res_bind_Inr_iff split: if_split_asm)
  with p h' st show ?thesis by blast
qed

subsection \<open>Reachable states\<close>

text \<open>A relationship with its store, from its creation on: sessions are added (with new identifiers), keys
  are taken for messages and for rekeys, rekeys are triggered, sessions are confirmed, change
  on their own (the rekey code holds pointers to them), and the client restarts.\<close>

inductive rl_reachable ::
  "(kv, 'w) KV_ops \<Rightarrow> ('k, 'p, 'q) e2e_crypto \<Rightarrow> 'k relationship_libs \<Rightarrow> ('k, 'c) CypherHandler \<Rightarrow> kv \<Rightarrow> RelationshipType \<Rightarrow>
   (kv, 'k, 'p, 'q) relationship \<Rightarrow> 'w \<Rightarrow> bool" for K C L H h t where
  rl_new: "map_order ord \<Longrightarrow> session_args C t partnerID zeroID Confirmed \<Longrightarrow>
    NewRelationship K C L H fresh ord w c h t myID partnerID myKeys partnerKey partnerSIDH par = Inr (r, w', c') \<Longrightarrow>
    rl_reachable K C L H h t r w'"
| rl_add: "rl_reachable K C L H h t r w \<Longrightarrow> map_order ord \<Longrightarrow> session_args C (r_t r) (r_partnerID r) trigger neg \<Longrightarrow>
    AddSession K C H fresh ord w c r myKeys partnerKey baseKey partnerSIDH trigger neg par = Inr (i, r', w', c') \<Longrightarrow>
    ss_sID (deref r' i) \<notin> set (session_ids r) \<Longrightarrow> rl_reachable K C L H h t r' w'"
| rl_send: "rl_reachable K C L H h t r w \<Longrightarrow> getKeyForSending K w r = Inr (res, r', w') \<Longrightarrow> rl_reachable K C L H h t r' w'"
| rl_rekey: "rl_reachable K C L H h t r w \<Longrightarrow> getKeyForRekey K w r = Inr (res, r', w') \<Longrightarrow> rl_reachable K C L H h t r' w'"
| rl_trigger: "rl_reachable K C L H h t r w \<Longrightarrow>
    rl_TriggerNegotiation C rands r = (instructions, r') \<Longrightarrow> rl_reachable K C L H h t r' w"
| rl_confirm: "rl_reachable K C L H h t r w \<Longrightarrow> map_order ord \<Longrightarrow> Confirm K C H ord w c r sid = Inr (e, r', w', c') \<Longrightarrow>
    rl_reachable K C L H h t r' w'"
| rl_session: "rl_reachable K C L H h t r w \<Longrightarrow> i \<in> set (r_sessions r) \<Longrightarrow> ss_reachable K C (deref r i) w s w' e \<Longrightarrow>
    rl_reachable K C L H h t (write_session r i s) w'"
| rl_restart: "rl_reachable K C L H h t r w \<Longrightarrow> LoadRelationship K C L H w c h t myID partnerID = Inr (Inr r', c') \<Longrightarrow>
    rl_reachable K C L H h t r' w"

lemma scan_member:
  "scan_sessions r is cr ua ur = Some i \<Longrightarrow> i \<in> set is \<union> set cr \<union> set ua \<union> set ur"
proof (induction "is" arbitrary: cr ua ur)
  case Nil
  then show ?case by (auto split: if_splits)
next
  case (Cons j "is")
  from Cons.prems Cons.IH show ?case by (fastforce simp: Let_def split: if_split_asm)
qed

lemma scan_rekeyable_member: "scan_rekeyable r is u = Some i \<Longrightarrow> i \<in> set is \<or> u = Some i"
  by (induction "is" arbitrary: u) (auto split: if_splits)

lemma send_step:
  assumes "getKeyForSending K w r = Inr (res, r', w') \<or> getKeyForRekey K w r = Inr (res, r', w')"
  shows "r' = r \<and> w' = w \<or> (\<exists>i \<in> set (r_sessions r). \<exists>s. r' = write_session r i s \<and> (\<exists>e. ss_reachable K C (deref r i) w s w' e))"
  using assms
proof
  assume a: "getKeyForSending K w r = Inr (res, r', w')"
  then show ?thesis
    using scan_member [of r "r_sessions r" "[]" "[]" "[]"] ss_pop [OF ss_start]
    by (fastforce simp: getKeyForSending_def getSessionForSending_def res_bind_Inr_iff split: option.splits)
next
  assume a: "getKeyForRekey K w r = Inr (res, r', w')"
  then show ?thesis
    using scan_rekeyable_member [of r "r_sessions r" None] ss_pop_rekey [OF ss_start]
    by (fastforce simp: getKeyForRekey_def getNewestRekeyableSession_def res_bind_Inr_iff split: option.splits if_split_asm)
qed

context ekv_store
begin

lemma inv_reachable_session:
  assumes "sets_succeed K" "rl_inv K C ps w r" "i \<in> set (r_sessions r)" "ss_reachable K C (deref r i) w s w' e"
  shows "rl_inv K C ps w' (write_session r i s)"
proof -
  have inv: "ss_inv K C (r_kv r) w (deref r i)" using assms(2,3) by (simp add: rl_inv_def rl_shape_def)
  from inv_session [OF assms(2,3)] vkv.reachable_writes [OF assms(4,1) inv] vkv.reachable_inv [OF assms(4,1) inv]
  show ?thesis by blast
qed

lemma trigger_sessions_inv:
  assumes "sets_succeed K" "rl_inv K C ps w r" "set is \<subseteq> set (r_sessions r)"
  shows "rl_inv K C ps w (snd (trigger_sessions C rands r is)) \<and> r_kv (snd (trigger_sessions C rands r is)) = r_kv r"
  using assms(2-)
proof (induction "is" arbitrary: r)
  case (Cons i "is")
  obtain b s where t: "ss_TriggerNegotiation C (rands i) (deref r i) = (b, s)" by (cases "ss_TriggerNegotiation C (rands i) (deref r i)")
  let ?r = "write_session r i s"
  have "rl_inv K C ps w ?r"
    by (rule inv_reachable_session [OF assms(1) Cons.prems(1) _ ss_trigger [OF ss_start t]]) (use Cons.prems(2) in simp)
  moreover have "set is \<subseteq> set (r_sessions ?r)" "r_kv ?r = r_kv r" using Cons.prems(2) by (simp_all add: write_session_def)
  ultimately show ?case using Cons.IH [of ?r] t by (simp add: Let_def split_beta)
qed simp

lemma prefix_K: "KV_Prefix K = kv_Prefix"
  by (simp add: versioned_ops_def)

lemma empty_shape:
  assumes "sets_succeed K" "derived ps h" "storeRelationshipFingerprint K w fp h = (e, w')"
    and "r_kv r = h" "r_sessions r = []" "r_sessionByID r = []" "r_fingerprint r = fp"
  shows "rl_shape K C ps w' r"
proof -
  have "e = None"
    using assms(3) set_write [OF assms(1) _ key_names(4)] unfolding storeRelationshipFingerprint_def by blast
  then have "KV_Get K h w' relationshipFingerprintKey currentRelationshipVersion =
      Inr \<lparr>obj_Version = currentRelationshipVersion, obj_Timestamp = KV_Now K w, obj_Data = Raw fp\<rparr>"
    using vkv.get_set assms(3) unfolding storeRelationshipFingerprint_def by fastforce
  with assms(2,4-) show ?thesis by (simp add: rl_shape_def session_ids_def)
qed

lemma add_saved_inv:
  assumes "sets_succeed K" "map_order ord" "rl_shape K C ps w r" "ss_inv K C (r_kv r) w1 s" "kv_writes K {ss_kv s} w w1"
    and "ss_sID s \<notin> set (session_ids r)" "ss_relationshipFingerprint s = r_fingerprint r" "length (ss_sID s) = sessionIDLen"
    and "rl_save K ord w1 (addSession r s) = Inr (e, w2)"
  shows "rl_inv K C ps w2 (addSession r s)"
  using inv_save [OF assms(1,2) shape_add [OF assms(3-8)] assms(9)] by simp

lemma new_relationship_inv:
  assumes "sets_succeed K" "crypto_laws C" "map_order ord" "session_args C t partnerID zeroID Confirmed" "derived qs h"
    and "NewRelationship K C L H fresh ord w c h t myID partnerID myKeys partnerKey partnerSIDH par = Inr (r, w', c')"
  shows "\<exists>p. rt_Prefix t = Inr p \<and> kv_Prefix h p = Inr (r_kv r) \<and> rl_inv K C (qs @ [p]) w' r"
proof -
  from new_relationship_unfold [OF assms(6)] obtain p h' fp e w1 s w2 c1 w3 e3 where p: "rt_Prefix t = Inr p"
    and h0: "KV_Prefix K h p = Inr h'" and st: "storeRelationshipFingerprint K w fp h' = (e, w1)" and n:
    "NewSession K C H fresh w1 c h' t partnerID (Some myKeys) partnerKey None partnerSIDH zeroID fp Confirmed par = Inr (s, w2, c1)"
    "ss_Save K C w2 s = Inr (None, w3)" "rl_save K ord w3 r = Inr (e3, w')"
    "r = addSession \<lparr>r_t = t, r_kv = h', r_heap = [], r_sessions = [], r_sessionByID = [], r_fingerprint = fp,
      r_myID = myID, r_partnerID = partnerID\<rparr> s"
    by (elim exE conjE) (rule that)
  have h': "kv_Prefix h p = Inr h'" using h0 by (simp add: prefix_K)
  let ?r0 = "\<lparr>r_t = t, r_kv = h', r_heap = [], r_sessions = [], r_sessionByID = [], r_fingerprint = fp,
      r_myID = myID, r_partnerID = partnerID\<rparr>"
  note inv = vkv.NewSession_inv [OF assms(1,2,4) n(1)] and wr = NewSession_writes [OF assms(1) n(1)]
  have ps: "derived (qs @ [p]) h'" by (rule derived_prefix [OF assms(5) h'])
  have self: "s\<lparr>ss_negotiationStatus := ss_negotiationStatus s\<rparr> = s" by simp
  have "ss_inv K C h' w3 s"
    using vkv.ss_inv_saved [of C h' w2 s "ss_negotiationStatus s" w3, unfolded self] inv n(2) by (simp add: ss_inv_def Confirmed_def)
  moreover have "kv_writes K {ss_kv s} w1 w3"
    by (rule kv_writes_trans [OF conjunct2 [OF save_writes [OF assms(1) n(2)]] wr(1)])
  ultimately have "rl_inv K C (qs @ [p]) w' r"
    using add_saved_inv [OF assms(1,3) empty_shape [OF assms(1) ps st, of ?r0 C], of w3 s e3 w'] wr(2,3) n(3,4)
    by (simp add: session_ids_def)
  with p h' n(4) show ?thesis by (simp add: addSession_def Let_def)
qed

lemma add_session_inv:
  assumes "sets_succeed K" "crypto_laws C" "map_order ord" "session_args C (r_t r) (r_partnerID r) trigger neg" "rl_inv K C ps w r"
    and "AddSession K C H fresh ord w c r myKeys partnerKey baseKey partnerSIDH trigger neg par = Inr (i, r', w', c')"
    and "ss_sID (deref r' i) \<notin> set (session_ids r)"
  shows "rl_inv K C ps w' r' \<and> r_kv r' = r_kv r"
proof -
  obtain s w1 c1 e where n: "NewSession K C H fresh w c (r_kv r) (r_t r) (r_partnerID r) myKeys partnerKey baseKey partnerSIDH
      trigger (r_fingerprint r) neg par = Inr (s, w1, c1)"
    "rl_save K ord w1 (addSession r s) = Inr (e, w')" "r' = addSession r s" "i = length (r_heap r)"
    using assms(6) by (auto simp: AddSession_def Let_def res_bind_Inr_iff)
  note wr = NewSession_writes [OF assms(1) n(1)]
  have "rl_shape K C ps w r" using assms(5) by (simp add: rl_inv_def)
  moreover have "ss_sID s \<notin> set (session_ids r)" using assms(7) n(3,4) by (simp add: addSession_def Let_def)
  ultimately have "rl_inv K C ps w' (addSession r s)"
    using add_saved_inv [OF assms(1,3) _ _ wr(1)] vkv.NewSession_inv [OF assms(1,2,4) n(1)] wr(2,3) n(2) by blast
  then show ?thesis using n(3) by (simp add: addSession_def Let_def)
qed

lemma confirm_step:
  assumes "sets_succeed K" "deletes_succeed K" "map_order ord" "rl_inv K C ps w r"
    and "Confirm K C H ord w c r sid = Inr (e, r', w', c')"
  shows "rl_inv K C ps w' r' \<and> r_kv r' = r_kv r"
proof (cases "map_of (r_sessionByID r) sid")
  case None
  with assms(4,5) show ?thesis by (simp add: Confirm_def)
next
  case (Some i)
  then obtain s w1 where "SetNegotiationStatus K C w (deref r i) Confirmed = Inr (s, w1)"
    using assms(5) by (auto simp: Confirm_def res_bind_Inr_iff)
  from confirm_inv [OF assms(1-4) Some this, of H c] assms(5) show ?thesis by auto
qed

text \<open>A loaded relationship satisfies the invariant again, and holds the same sessions.\<close>

lemma restart_inv:
  assumes "crypto_laws C" "rl_inv K C ps w r" "rt_Prefix t = Inr p" "kv_Prefix h p = Inr (r_kv r)"
  shows "\<exists>r' ids c'. LoadRelationship K C L H w c h t myID partnerID = Inr (Inr r', c') \<and> stored_ids K w (r_kv r) ids \<and>
    session_ids r' = rev ids \<and> rl_inv K C ps w r' \<and> r_kv r' = r_kv r \<and> r_fingerprint r' = r_fingerprint r \<and>
    mset (map (deref r') (r_sessions r')) = mset (map (\<lambda>i. restored K w (deref r i)) (r_sessions r)) \<and>
    (\<forall>sid. map_option (deref r') (GetByID r' sid) = map_option (\<lambda>i. restored K w (deref r i)) (GetByID r sid))"
proof -
  have sh: "rl_shape K C ps w r" using assms(2) by (simp add: rl_inv_def)
  from load_relationship [OF assms, of L H c myID partnerID] obtain r' ids c' where ld:
    "LoadRelationship K C L H w c h t myID partnerID = Inr (Inr r', c')" "stored_ids K w (r_kv r) ids" "mset ids = mset (session_ids r)"
    and r': "r' = \<lparr>r_t = t, r_kv = r_kv r, r_heap = map (restored K w \<circ> session_of r) ids, r_sessions = rev [0..<length ids],
          r_sessionByID = zip ids [0..<length ids], r_fingerprint = r_fingerprint r, r_myID = myID, r_partnerID = partnerID\<rparr>"
    by blast
  have set: "set ids = set (session_ids r)" "distinct ids"
    using ld(3) sh mset_eq_setD [OF ld(3)] by (simp_all add: rl_shape_def mset_eq_imp_distinct_iff [OF ld(3)])
  have of: "\<exists>i \<in> set (r_sessions r). session_of r sid = deref r i \<and> ss_sID (deref r i) = sid \<and> map_of (r_sessionByID r) sid = Some i"
    if "sid \<in> set ids" for sid using session_of_id [OF sh] that set(1) by blast
  have at: "deref r' k = restored K w (session_of r (ids ! k))" if "k < length ids" for k using that by (simp add: r')
  have sid: "ss_sID (deref r' k) = ids ! k" if "k < length ids" for k
    using at [OF that] of [of "ids ! k"] that by (auto simp: restored_def)
  have "map (\<lambda>k. ss_sID (deref r' k)) [0..<length ids] = map ((!) ids) [0..<length ids]" using sid by simp
  then have ids: "session_ids r' = rev ids" by (simp add: session_ids_def r' rev_map [symmetric] map_nth)
  have byid: "map_option (deref r') (GetByID r' sid) = map_option (\<lambda>i. restored K w (deref r i)) (GetByID r sid)" for sid
  proof (cases "sid \<in> set ids")
    case True
    then obtain k where k: "k < length ids" "ids ! k = sid" by (auto simp: in_set_conv_nth)
    then have "map_of (zip ids [0..<length ids]) sid = Some k" using map_of_zip_nth [of ids "[0..<length ids]" k] set(2) by simp
    then have "GetByID r' sid = Some k" by (simp add: GetByID_def r')
    with at [OF k(1)] of [OF True] k(2) show ?thesis by (auto simp: GetByID_def)
  next
    case False
    then have "map_of (zip ids [0..<length ids]) sid = None" by (simp add: map_of_zip_is_None)
    moreover have "map_of (r_sessionByID r) sid = None"
    proof (rule ccontr)
      assume "map_of (r_sessionByID r) sid \<noteq> None"
      with ids_of_map(2) [OF sh, of sid] False set(1) show False by (auto simp: session_ids_def)
    qed
    ultimately show ?thesis by (simp add: GetByID_def r')
  qed
  have "mset (map (deref r') (r_sessions r')) = mset (map (restored K w \<circ> session_of r) ids)"
  proof -
    have "map (deref r') [0..<length ids] = map (restored K w \<circ> session_of r) ids" using at by (auto intro: nth_equalityI)
    then show ?thesis by (simp only: r' relationship.simps rev_map [symmetric] mset_rev)
  qed
  also have "\<dots> = image_mset (restored K w \<circ> session_of r) (mset (session_ids r))" using ld(3) by (metis mset_map)
  also have "\<dots> = mset (map (\<lambda>i. restored K w (deref r i)) (r_sessions r))"
  proof -
    have "session_of r (ss_sID (deref r i)) = deref r i" if "i \<in> set (r_sessions r)" for i
      using ids_of_map(2) [OF sh, of "ss_sID (deref r i)" i] that by (simp add: session_of_def)
    then have "map (restored K w \<circ> session_of r) (session_ids r) = map (\<lambda>i. restored K w (deref r i)) (r_sessions r)"
      by (simp add: session_ids_def)
    then show ?thesis by (metis mset_map)
  qed
  finally have ms: "mset (map (deref r') (r_sessions r')) = mset (map (\<lambda>i. restored K w (deref r i)) (r_sessions r))" .
  have "ss_inv K C (r_kv r) w (deref r' k) \<and> ss_relationshipFingerprint (deref r' k) = r_fingerprint r \<and>
      length (ss_sID (deref r' k)) = sessionIDLen" if k: "k < length ids" for k
  proof -
    obtain i where i: "i \<in> set (r_sessions r)" "session_of r (ids ! k) = deref r i" using of [of "ids ! k"] k by auto
    then have "ss_inv K C (r_kv r) w (deref r i)" "ss_relationshipFingerprint (deref r i) = r_fingerprint r"
      "length (ss_sID (deref r i)) = sessionIDLen" using sh by (simp_all add: rl_shape_def)
    with restored_inv at [OF k] i(2) show ?thesis by (simp add: restored_def)
  qed
  moreover have "set (zip ids [0..<length ids]) = (\<lambda>k. (ids ! k, k)) ` {0..<length ids}" by (force simp: set_zip)
  then have "set (r_sessionByID r') = (\<lambda>k. (ss_sID (deref r' k), k)) ` set (r_sessions r')"
    using sid by (auto simp: r' image_iff)
  moreover have "distinct (map fst (r_sessionByID r'))" "distinct (session_ids r')" "length (r_heap r') = length ids"
    "set (r_sessions r') = {0..<length ids}" "r_kv r' = r_kv r" "r_fingerprint r' = r_fingerprint r"
    using set(2) ids by (simp_all add: r')
  ultimately have "rl_shape K C ps w r'" using sh by (simp add: rl_shape_def)
  with ids ld(2) have "rl_inv K C ps w r'" unfolding rl_inv_def by (auto simp: r')
  with ld(1,2) ids byid ms show ?thesis by (auto simp: r')
qed

end

lemma reachable_relationship:
  assumes "ekv_store E" "K = versioned_ops E" "sets_succeed K" "deletes_succeed K" "crypto_laws C" "derived qs h"
    and "rl_reachable K C L H h t r w"
  shows "\<exists>p. rt_Prefix t = Inr p \<and> kv_Prefix h p = Inr (r_kv r) \<and> rl_inv K C (qs @ [p]) w r"
  using assms(7)
proof (induction rule: rl_reachable.induct)
  case (rl_new ord partnerID fresh w c myID myKeys partnerKey partnerSIDH par r w' c')
  from ekv_store.new_relationship_inv [OF assms(1) assms(3) [unfolded assms(2)] assms(5) rl_new(1,2) assms(6) rl_new(3) [unfolded assms(2)]]
  show ?case by (simp add: assms(2))
next
  case (rl_add r w ord trigger neg fresh c myKeys partnerKey baseKey partnerSIDH par i r' w' c')
  then show ?case using ekv_store.add_session_inv [OF assms(1)] assms(2,3,5) by metis
next
  case (rl_send r w res r' w')
  then show ?case
    using send_step [where C = C] ekv_store.inv_reachable_session [OF assms(1)] assms(2,3) by (fastforce simp: write_session_def)
next
  case (rl_rekey r w res r' w')
  then show ?case
    using send_step [where C = C] ekv_store.inv_reachable_session [OF assms(1)] assms(2,3) by (fastforce simp: write_session_def)
next
  case (rl_trigger r w rands instructions r')
  then obtain p where p: "rt_Prefix t = Inr p" "kv_Prefix h p = Inr (r_kv r)" "rl_inv K C (qs @ [p]) w r" by blast
  from ekv_store.trigger_sessions_inv [OF assms(1) assms(3)[unfolded assms(2)] p(3)[unfolded assms(2)] subset_refl, of rands]
    rl_trigger.hyps(2) p(1,2) show ?case by (simp add: rl_TriggerNegotiation_def assms(2))
next
  case (rl_confirm r w ord c sid e r' w' c')
  then show ?case using ekv_store.confirm_step [OF assms(1)] assms(2-4) by metis
next
  case (rl_session r w i s w' e)
  then show ?case using ekv_store.inv_reachable_session [OF assms(1)] assms(2,3) by (fastforce simp: write_session_def)
next
  case (rl_restart r w c myID partnerID r' c')
  then obtain p where p: "rt_Prefix t = Inr p" "kv_Prefix h p = Inr (r_kv r)" "rl_inv K C (qs @ [p]) w r" by blast
  from ekv_store.restart_inv [OF assms(1,5) p(3)[unfolded assms(2)] p(1,2), of L H c myID partnerID] rl_restart.hyps(2) p(1,2)
  show ?case by (auto simp: assms(2))
qed

subsection \<open>Selection\<close>

text \<open>The rank of a session for sending: lower is better, four is unusable.\<close>

definition send_rank :: "('h, 'k, 'p, 'q) Session \<Rightarrow> nat" where
  "send_rank s =
     (if ss_Status s \<in> {Active, RekeyNeeded}
      then (if ss_Status s = Active then 0 else 1) + (if IsConfirmed s then 0 else 2)
      else 4)"

abbreviation ranked :: "('h, 'k, 'p, 'q) relationship \<Rightarrow> nat \<Rightarrow> nat list \<Rightarrow> nat list" where
  "ranked r n \<equiv> filter (\<lambda>i. send_rank (deref r i) = n)"

lemma scan_eq:
  "scan_sessions r is cr ua ur =
    (if ranked r 0 is \<noteq> [] then Some (hd (ranked r 0 is))
     else if cr @ ranked r 1 is \<noteq> [] then Some (hd (cr @ ranked r 1 is))
     else if ua @ ranked r 2 is \<noteq> [] then Some (hd (ua @ ranked r 2 is))
     else if ur @ ranked r 3 is \<noteq> [] then Some (hd (ur @ ranked r 3 is)) else None)"
proof (induction "is" arbitrary: cr ua ur)
  case (Cons i "is")
  consider "ss_Status (deref r i) = Active" | "ss_Status (deref r i) = RekeyNeeded"
    | "ss_Status (deref r i) \<noteq> Active" "ss_Status (deref r i) \<noteq> RekeyNeeded" by blast
  then show ?case
    by cases (cases "IsConfirmed (deref r i)"; simp add: Cons.IH send_rank_def Let_def)+
qed simp

lemma hd_filter:
  assumes "filter P xs \<noteq> []"
  shows "\<exists>ys zs. xs = ys @ hd (filter P xs) # zs \<and> (\<forall>y \<in> set ys. \<not> P y) \<and> P (hd (filter P xs))"
  using assms by (cases "filter P xs") (auto simp: filter_eq_Cons_iff, blast)

lemma getSessionForSending_ranked:
  shows "getSessionForSending r = None \<longleftrightarrow> (\<forall>i \<in> set (r_sessions r). send_rank (deref r i) = 4)"
    "getSessionForSending r = Some i \<Longrightarrow> \<exists>pre post. r_sessions r = pre @ i # post \<and> send_rank (deref r i) < 4 \<and>
      (\<forall>j \<in> set pre. send_rank (deref r i) < send_rank (deref r j)) \<and>
      (\<forall>j \<in> set post. send_rank (deref r i) \<le> send_rank (deref r j))"
proof -
  let ?xs = "r_sessions r"
  have le: "send_rank (deref r j) = 0 \<or> send_rank (deref r j) = 1 \<or> send_rank (deref r j) = 2 \<or> send_rank (deref r j) = 3 \<or>
      send_rank (deref r j) = 4" for j
    by (auto simp: send_rank_def)
  show "getSessionForSending r = None \<longleftrightarrow> (\<forall>i \<in> set ?xs. send_rank (deref r i) = 4)"
    unfolding getSessionForSending_def scan_eq
  proof (intro iffI ballI)
    fix j assume j: "j \<in> set ?xs" and "(if ranked r 0 ?xs \<noteq> [] then Some (hd (ranked r 0 ?xs))
     else if [] @ ranked r 1 ?xs \<noteq> [] then Some (hd ([] @ ranked r 1 ?xs))
     else if [] @ ranked r 2 ?xs \<noteq> [] then Some (hd ([] @ ranked r 2 ?xs))
     else if [] @ ranked r 3 ?xs \<noteq> [] then Some (hd ([] @ ranked r 3 ?xs)) else None) = None"
    then have "ranked r 0 ?xs = []" "ranked r 1 ?xs = []" "ranked r 2 ?xs = []" "ranked r 3 ?xs = []"
      by (simp_all split: if_split_asm)
    with j le [of j] show "send_rank (deref r j) = 4" unfolding filter_empty_conv by blast
  qed (simp add: filter_empty_conv)
  assume a: "getSessionForSending r = Some i"
  then obtain n where n: "n < 4" "ranked r n ?xs \<noteq> []" "i = hd (ranked r n ?xs)" "\<forall>m < n. ranked r m ?xs = []"
  proof -
    have lt: "m < 2 \<longleftrightarrow> m = 0 \<or> m = 1" "m < 3 \<longleftrightarrow> m = 0 \<or> m = 1 \<or> m = 2" for m :: nat by auto
    consider "ranked r 0 ?xs \<noteq> []" "i = hd (ranked r 0 ?xs)" | "ranked r 0 ?xs = []" "ranked r 1 ?xs \<noteq> []" "i = hd (ranked r 1 ?xs)"
      | "ranked r 0 ?xs = []" "ranked r 1 ?xs = []" "ranked r 2 ?xs \<noteq> []" "i = hd (ranked r 2 ?xs)"
      | "ranked r 0 ?xs = []" "ranked r 1 ?xs = []" "ranked r 2 ?xs = []" "ranked r 3 ?xs \<noteq> []" "i = hd (ranked r 3 ?xs)"
      using a unfolding getSessionForSending_def scan_eq append_Nil by (simp split: if_split_asm)
    then show thesis
    proof cases
      case 1
      then show ?thesis by (intro that [of 0]) simp_all
    next
      case 2
      then show ?thesis by (intro that [of 1]) simp_all
    next
      case 3
      then show ?thesis by (intro that [of 2]) (simp_all add: lt)
    next
      case 4
      then show ?thesis by (intro that [of 3]) (simp_all add: lt)
    qed
  qed
  have ge: "n \<le> send_rank (deref r j)" if "j \<in> set ?xs" for j
    using n(4) that by (auto simp: filter_empty_conv not_less [symmetric])
  from hd_filter [OF n(2)] obtain pre post where p: "?xs = pre @ i # post" "\<forall>y \<in> set pre. send_rank (deref r y) \<noteq> n"
    "send_rank (deref r i) = n" unfolding n(3) by blast
  have "n < send_rank (deref r j)" if "j \<in> set pre" for j
    using p(1,2) that ge [of j] by (auto simp: order_less_le)
  moreover have "n \<le> send_rank (deref r j)" if "j \<in> set post" for j using p(1) that ge [of j] by simp
  ultimately show "\<exists>pre post. r_sessions r = pre @ i # post \<and> send_rank (deref r i) < 4 \<and>
      (\<forall>j \<in> set pre. send_rank (deref r i) < send_rank (deref r j)) \<and>
      (\<forall>j \<in> set post. send_rank (deref r i) \<le> send_rank (deref r j))"
    using p(1,3) n(1) by (intro exI [of _ pre] exI [of _ post]) simp
qed

section \<open>Properties\<close>


text \<open>C5: \<open>getKeyForSending\<close> takes a new key of the best session. When no session has keys for messages it
  returns the error and changes nothing. Otherwise it takes the newest session of the best rank
  (confirmed before unconfirmed, then active before needing a rekey), and returns a key of it that
  was unused and is marked as used.\<close>

theorem getKeyForSending_best:
  assumes "\<forall>i \<in> set (r_sessions r). sv_inv (ss_keyState (deref r i)) \<and> saves_succeed K (ss_keyState (deref r i))"
  shows "if \<forall>i \<in> set (r_sessions r). ss_Status (deref r i) \<notin> {Active, RekeyNeeded}
    then getKeyForSending K w r = Inr (Inl NoSessionForSending, r, w)
    else \<exists>pre i post k s w'. r_sessions r = pre @ i # post \<and>
      (\<forall>j \<in> set pre. send_rank (deref r i) < send_rank (deref r j)) \<and>
      (\<forall>j \<in> set post. send_rank (deref r i) \<le> send_rank (deref r j)) \<and>
      getKeyForSending K w r = Inr (Inr (newCypher (deref r i) k), write_session r i s, w') \<and>
      unat k \<notin> used_set (ss_keyState (deref r i)) \<and> ss_Status (deref r i) \<in> {Active, RekeyNeeded} \<and>
      used_set (ss_keyState s) = insert (unat k) (used_set (ss_keyState (deref r i)))"
proof (cases "getSessionForSending r")
  case None
  have "send_rank (deref r j) = 4 \<longleftrightarrow> ss_Status (deref r j) \<notin> {Active, RekeyNeeded}" for j
    by (auto simp: send_rank_def)
  with None getSessionForSending_ranked(1) [of r] show ?thesis by (simp add: getKeyForSending_def)
next
  case (Some i)
  from getSessionForSending_ranked(2) [OF this] obtain pre post where i: "r_sessions r = pre @ i # post"
    "send_rank (deref r i) < 4" "\<forall>j \<in> set pre. send_rank (deref r i) < send_rank (deref r j)"
    "\<forall>j \<in> set post. send_rank (deref r i) \<le> send_rank (deref r j)" by blast
  have st: "ss_Status (deref r i) \<in> {Active, RekeyNeeded}" using i(2) by (auto simp: send_rank_def split: if_split_asm)
  then have "\<not> (reserved (deref r i) \<or> GetNumAvailable (ss_keyState (deref r i)) = 0)"
    by (auto simp: ss_Status_def reserved_def Let_def split: if_split_asm)
  with pop_outcome(2) [of "deref r i" K True w] assms i(1) obtain sv w' where
    pop: "ss_PopKey K w (deref r i) = Inr (Inr (newCypher (deref r i) (sv_firstAvailable (ss_keyState (deref r i)))),
      (deref r i)\<lparr>ss_keyState := sv\<rparr>, w')" "unat (sv_firstAvailable (ss_keyState (deref r i))) \<notin> used_set (ss_keyState (deref r i))"
    "used_set sv = insert (unat (sv_firstAvailable (ss_keyState (deref r i)))) (used_set (ss_keyState (deref r i)))" by auto
  have "getKeyForSending K w r = Inr (Inr (newCypher (deref r i) (sv_firstAvailable (ss_keyState (deref r i)))),
      write_session r i ((deref r i)\<lparr>ss_keyState := sv\<rparr>), w')"
    using Some pop(1) by (simp add: getKeyForSending_def)
  moreover have "\<not> (\<forall>i \<in> set (r_sessions r). ss_Status (deref r i) \<notin> {Active, RekeyNeeded})" using i(1) st by auto
  ultimately show ?thesis using i(1,3,4) st pop(2,3)
    unfolding if_not_P [OF \<open>\<not> (\<forall>i \<in> set (r_sessions r). ss_Status (deref r i) \<notin> {Active, RekeyNeeded})\<close>]
    by (intro exI [of _ pre] exI [of _ i] exI [of _ post] exI [of _ "sv_firstAvailable (ss_keyState (deref r i))"]
        exI [of _ "(deref r i)\<lparr>ss_keyState := sv\<rparr>"] exI [of _ w']) simp
qed

text \<open>C6: \<open>Confirm\<close> keeps the three newest confirmed sessions and every unconfirmed one. In a reachable state,
  when the session may become confirmed (it is being sent, was sent, or triggered a new one), it does, the
  remaining list is in the old order, and the state is one from which a restart restores everything;
  an unknown identifier is an error that changes nothing, and any other status panics.\<close>

theorem Confirm_keeps_newest:
  assumes "ekv_store E" "K = versioned_ops E" "sets_succeed K" "deletes_succeed K" "crypto_laws C" "derived qs h"
    and "map_order ord" "rl_reachable K C L H h t r w"
  shows "case GetByID r sid of
      None \<Rightarrow> Confirm K C H ord w c r sid = Inr (Some SessionUnknown, r, w, c)
    | Some i \<Rightarrow>
        if ss_negotiationStatus (deref r i) \<in> {Sending, Sent, NewSessionTriggered}
        then \<exists>r' w' c'. Confirm K C H ord w c r sid = Inr (None, r', w', c') \<and> rl_reachable K C L H h t r' w' \<and>
          r_heap r' = (r_heap r)[i := (deref r i)\<lparr>ss_negotiationStatus := Confirmed\<rparr>] \<and>
          subseq (r_sessions r') (r_sessions r) \<and>
          filter (\<lambda>j. \<not> IsConfirmed (deref r' j)) (r_sessions r') = filter (\<lambda>j. \<not> IsConfirmed (deref r' j)) (r_sessions r) \<and>
          filter (\<lambda>j. IsConfirmed (deref r' j)) (r_sessions r') =
            take 3 (filter (\<lambda>j. IsConfirmed (deref r' j)) (r_sessions r))
        else Confirm K C H ord w c r sid = Inl FatalPanic"
proof (cases "GetByID r sid")
  case None
  then show ?thesis by (simp add: Confirm_def GetByID_def)
next
  case (Some i)
  let ?s = "deref r i" and ?s' = "(deref r i)\<lparr>ss_negotiationStatus := Confirmed\<rparr>"
  obtain p where p: "rl_inv K C (qs @ [p]) w r" using reachable_relationship [OF assms(1-6,8)] by blast
  then have sh: "rl_shape K C (qs @ [p]) w r" by (simp add: rl_inv_def)
  have "i \<in> set (r_sessions r)" using ids_of_map(2) [OF sh] Some by (auto simp: GetByID_def)
  then have inv: "ss_inv K C (r_kv r) w ?s" using sh by (simp add: rl_shape_def)
  have b: "unat (ss_negotiationStatus ?s) < 6" "unat Confirmed < 6" "ss_partner ?s' \<noteq> None"
    using inv by (auto simp: ss_inv_def Confirmed_def)
  then obtain w1 where "ss_Save K C w ?s' = Inr (None, w1)"
    using ss_Save_runs [OF assms(3)] by blast
  from TrySet_table [OF b(1,2) this] obtain w2 where t: "TrySetNegotiationStatus K C w ?s Confirmed =
      (if (unat (ss_negotiationStatus ?s), unat Confirmed) \<in> legal_pairs then Inr (None, ?s', w2) else Inr (Some IllegalChange, ?s, w))"
    by blast
  have l: "(unat (ss_negotiationStatus ?s), unat Confirmed) \<in> legal_pairs \<longleftrightarrow>
      ss_negotiationStatus ?s \<in> {Sending, Sent, NewSessionTriggered}"
    unfolding insert_iff status_eq by (auto simp: legal_pairs_def Confirmed_def)
  show ?thesis
  proof (cases "ss_negotiationStatus ?s \<in> {Sending, Sent, NewSessionTriggered}")
    case True
    then have set: "SetNegotiationStatus K C w ?s Confirmed = Inr (?s', w2)" using t l by (simp add: SetNegotiationStatus_def)
    have "map_of (r_sessionByID r) sid = Some i" using Some by (simp add: GetByID_def)
    from ekv_store.confirm_inv [OF assms(1) assms(3,4) [unfolded assms(2)] assms(7) p [unfolded assms(2)] this
        set [unfolded assms(2)], of H c, folded assms(2)]
    obtain r' w' c' where cf: "Confirm K C H ord w c r sid = Inr (None, r', w', c')" "r_heap r' = (r_heap r)[i := ?s']"
      "subseq (r_sessions r') (r_sessions r)"
      "filter (\<lambda>j. \<not> IsConfirmed (deref r' j)) (r_sessions r') = filter (\<lambda>j. \<not> IsConfirmed (deref r' j)) (r_sessions r)"
      "filter (\<lambda>j. IsConfirmed (deref r' j)) (r_sessions r') =
        take maxUnconfirmed (filter (\<lambda>j. IsConfirmed (deref r' j)) (r_sessions r))" by blast
    have "rl_reachable K C L H h t r' w'" by (rule rl_confirm [OF assms(8,7) cf(1)])
    with cf True Some show ?thesis by (simp add: maxUnconfirmed_def)
  next
    case False
    then have "SetNegotiationStatus K C w ?s Confirmed = Inl FatalPanic" using t l by (simp add: SetNegotiationStatus_def)
    with False Some show ?thesis by (simp add: Confirm_def GetByID_def)
  qed
qed

section \<open>Witnesses\<close>

definition libs_example :: "bytes relationship_libs" where
  "libs_example =
     \<lparr>GeneratePublicKey = id, MakeRelationshipFingerprint = (\<lambda>a b c d. a @ b @ c @ d),
      GenerateConnectionFingerprint = (@), JsonText = (\<lambda>_. [])\<rparr>"

definition new_relationship_example ::
  "fault + ((kv, bytes, bytes, bytes) relationship \<times> (string \<rightharpoonup> Object) \<times> bytes list)" where
  "new_relationship_example =
     NewRelationship mem_KV cr_example libs_example handler_example ([1], \<lambda>_. [2]) rev Map.empty [] NewKV Send [7] [9]
       ([3], [4]) [5] [6] GetDefaultParams"

lemma args_confirmed: "session_args cr_example Send [9] zeroID Confirmed"
  by (simp add: session_args_def cr_example_def zeroID_def sessionIDLen_def Send_def Confirmed_def)

lemma rev_order: "map_order rev"
  by (simp add: map_order_def)

lemma session_prefix_any: 
  assumes "derived ps v" "MakeSessionPrefix sid \<notin> set ps"
  shows "\<exists>h. kv_Prefix v (MakeSessionPrefix sid) = Inr h"
proof -
  have "kv_prefixMap v (MakeSessionPrefix sid) = None" using derived_invariant [OF assms(1)] assms(2) by (metis domIff)
  then show ?thesis
    by (simp add: kv_Prefix_def HasPrefix_def) (simp add: MakeSessionPrefix_def sid_String_def base64_no_separator)
qed

lemma new_relationship_runs: "\<exists>r w c. new_relationship_example = Inr (r, w, c)"
proof -
  obtain h where h: "kv_Prefix NewKV ''Send'' = Inr h" by (simp add: kv_Prefix_def NewKV_def HasPrefix_def)
  have "\<exists>h'. kv_Prefix h (MakeSessionPrefix sid) = Inr h'" for sid
    using session_prefix_any [OF derived_prefix [OF derived_new h]] by (simp add: MakeSessionPrefix_def)
  then have pre: "\<exists>h'. KV_Prefix mem_KV h (MakeSessionPrefix sid) = Inr h'" for sid by (simp add: mem_KV_simps)
  let ?fp = "MakeRelationshipFingerprint libs_example (GeneratePublicKey libs_example [3]) [5] [7] [9]"
  obtain w1 where w1: "storeRelationshipFingerprint mem_KV Map.empty ?fp h = (None, w1)"
    by (simp add: storeRelationshipFingerprint_def mem_KV_simps)
  have "\<not> par_MinKeys GetDefaultParams < 10" by (simp add: GetDefaultParams_def minKeys_def)
  from NewSession_runs [where K = mem_KV, OF this cr_example_laws pre, of handler_example "([1], \<lambda>_. [2])" w1 "[]" Send "[9]" "Some ([3], [4])" "[5]"
      None "[6]" zeroID ?fp Confirmed] obtain s w2 c1 where
    s: "NewSession mem_KV cr_example handler_example ([1], \<lambda>_. [2]) w1 [] h Send [9] (Some ([3], [4])) [5] None [6] zeroID ?fp Confirmed
      GetDefaultParams = Inr (s, w2, c1)" by blast
  have "ss_partner s \<noteq> None"
    using versioned_kv.NewSession_inv [OF mem.versioned mem_sets cr_example_laws args_confirmed s] by (auto simp: ss_inv_def)
  then obtain w3 where w3: "ss_Save mem_KV cr_example w2 s = Inr (None, w3)" using ss_Save_runs [OF mem_sets] by blast
  show ?thesis
    unfolding new_relationship_example_def NewRelationship_def
    by (simp add: rt_Prefix_def mem_KV_simps(4) h makeRelationshipFingerprint_def w1 s w3)
      (simp add: rl_save_def rl_marshal_def addSession_def mem_KV_simps)
qed

lemma new_relationship_reachable:
  assumes "new_relationship_example = Inr (r, w, c)"
  shows "rl_reachable mem_KV cr_example libs_example handler_example NewKV Send r w"
  by (rule rl_new [OF rev_order args_confirmed assms [unfolded new_relationship_example_def]])


definition relationship_example :: "(kv, bytes, bytes, bytes) relationship" where
  "relationship_example =
     \<lparr>r_t = Send, r_kv = NewKV, r_heap = [ss_example, ss_example\<lparr>ss_negotiationStatus := Confirmed\<rparr>], r_sessions = [0, 1],
      r_sessionByID = [], r_fingerprint = [6], r_myID = [7], r_partnerID = [9]\<rparr>"

theorem getKeyForSending_best_witness:
  "\<exists>cy s w'. getKeyForSending mem_KV Map.empty relationship_example = Inr (Inr cy, write_session relationship_example 1 s, w')"
proof -
  let ?r = relationship_example
  have st: "ss_Status (deref ?r 0) = Active" "ss_Status (deref ?r 1) = Active" "send_rank (deref ?r 0) = 2" "send_rank (deref ?r 1) = 0"
    by (simp_all add: relationship_example_def send_rank_def ss_Status_def GetNumAvailable_def GetNumUsed_def Let_def word_le_nat_alt
        IsConfirmed_def negotiation_defs)
  have "\<forall>i \<in> set (r_sessions ?r). sv_inv (ss_keyState (deref ?r i)) \<and> saves_succeed mem_KV (ss_keyState (deref ?r i))"
    by (simp add: relationship_example_def sv_example_inv sv_example_saves)
  from getKeyForSending_best [OF this, of Map.empty] st obtain pre i post k s w' where
    g: "r_sessions ?r = pre @ i # post" "\<forall>j \<in> set pre. send_rank (deref ?r i) < send_rank (deref ?r j)"
      "\<forall>j \<in> set post. send_rank (deref ?r i) \<le> send_rank (deref ?r j)"
      "getKeyForSending mem_KV Map.empty ?r = Inr (Inr (newCypher (deref ?r i) k), write_session ?r i s, w')"
    by (fastforce simp: relationship_example_def)
  have rs: "r_sessions ?r = [0, 1]" by (simp add: relationship_example_def)
  then have "pre = [] \<and> i = 0 \<and> post = [1] \<or> pre = [0] \<and> i = 1 \<and> post = []"
    using g(1) by (auto simp: append_eq_Cons_conv)
  with g(2,3) st(3,4) have "i = 1" by auto
  with g(4) show ?thesis by blast
qed

lemma new_relationship_session:
  assumes "new_relationship_example = Inr (r, w, c)"
  shows "\<exists>s. r_heap r = [s] \<and> r_sessions r = [0] \<and> r_sessionByID r = [(ss_sID s, 0)] \<and> ss_negotiationStatus s = Confirmed"
proof -
  from new_relationship_unfold [OF assms [unfolded new_relationship_example_def]] obtain s w2 c1 w1 h' fp
    where s: "NewSession mem_KV cr_example handler_example ([1], \<lambda>_. [2]) w1 [] h' Send [9] (Some ([3], [4])) [5] None [6] zeroID fp Confirmed
        GetDefaultParams = Inr (s, w2, c1)"
      "r = addSession \<lparr>r_t = Send, r_kv = h', r_heap = [], r_sessions = [], r_sessionByID = [], r_fingerprint = fp,
        r_myID = [7], r_partnerID = [9]\<rparr> s" by (elim exE conjE) (rule that)
  with versioned_kv.NewSession_inv [OF mem.versioned mem_sets cr_example_laws args_confirmed s(1)] show ?thesis
    by (auto simp: addSession_def Let_def)
qed

theorem Confirm_keeps_newest_witness:
  "\<exists>r w r' w' c'. rl_reachable mem_KV cr_example libs_example handler_example NewKV Send r w \<and>
     ss_negotiationStatus (deref r 0) = NewSessionTriggered \<and>
     Confirm mem_KV cr_example handler_example rev w [] r (ss_sID (deref r 0)) = Inr (None, r', w', c')"
proof -
  obtain r w c where new: "new_relationship_example = Inr (r, w, c)" using new_relationship_runs by blast
  from new_relationship_session [OF this] obtain s where s: "r_heap r = [s]" "r_sessions r = [0]"
    "r_sessionByID r = [(ss_sID s, 0)]" "ss_negotiationStatus s = Confirmed" by blast
  note re = new_relationship_reachable [OF new]
  obtain p where "rl_inv mem_KV cr_example ([] @ [p]) w r"
    using reachable_relationship [OF mem.ekv_store_axioms refl mem_sets mem_deletes cr_example_laws derived_new re] by blast
  then have "ss_partner s \<noteq> None" using s(1,2) by (auto simp: rl_inv_def rl_shape_def ss_inv_def)
  then obtain w1 where "ss_Save mem_KV cr_example w (s\<lparr>ss_negotiationStatus := NewSessionTriggered\<rparr>) = Inr (None, w1)"
    using ss_Save_runs [OF mem_sets, of "s\<lparr>ss_negotiationStatus := NewSessionTriggered\<rparr>"] by auto
  from TrySet_table [OF _ _ this] s(4) obtain w2 where
    "TrySetNegotiationStatus mem_KV cr_example w s NewSessionTriggered = Inr (None, s\<lparr>ss_negotiationStatus := NewSessionTriggered\<rparr>, w2)"
    by (auto simp: negotiation_defs legal_pairs_def)
  from ss_set [OF ss_start this] s(1,2)
  have re1: "rl_reachable mem_KV cr_example libs_example handler_example NewKV Send
      (write_session r 0 (s\<lparr>ss_negotiationStatus := NewSessionTriggered\<rparr>)) w2"
    by (intro rl_session [OF re]) simp_all
  moreover have "GetByID (write_session r 0 (s\<lparr>ss_negotiationStatus := NewSessionTriggered\<rparr>)) (ss_sID s) = Some 0"
    using s(3) by (simp add: GetByID_def write_session_def)
  moreover have at: "deref (write_session r 0 (s\<lparr>ss_negotiationStatus := NewSessionTriggered\<rparr>)) 0 = s\<lparr>ss_negotiationStatus := NewSessionTriggered\<rparr>"
    using s(1) by (simp add: write_session_def)
  ultimately obtain r' w' c' where
    "Confirm mem_KV cr_example handler_example rev w2 [] (write_session r 0 (s\<lparr>ss_negotiationStatus := NewSessionTriggered\<rparr>)) (ss_sID s) =
      Inr (None, r', w', c')"
    using Confirm_keeps_newest [OF mem.ekv_store_axioms refl mem_sets mem_deletes cr_example_laws derived_new rev_order,
        of libs_example handler_example Send "write_session r 0 (s\<lparr>ss_negotiationStatus := NewSessionTriggered\<rparr>)" w2 "[]" "ss_sID s"]
    by auto
  with re1 at show ?thesis by (intro exI [of _ "write_session r 0 (s\<lparr>ss_negotiationStatus := NewSessionTriggered\<rparr>)"] exI conjI) simp_all
qed

end
