(* ===== verification/Partner_Manager.thy ===== *)
theory Partner_Manager
  imports Relationship
begin

text \<open>
  The two relationships with a partner (\<open>e2e/ratchet/partner/manager.go\<close>) and the storage of keys of the
  group (\<open>storage/utility/dh.go\<close>). The Gob encoding of a key is a pair of functions.
\<close>

section \<open>Stored keys\<close>

record 'k key_gob =
  GobEncode :: "'k \<Rightarrow> bytes option"
  GobDecode :: "stored \<Rightarrow> 'k option"

definition currentCyclicVersion :: u64 where "currentCyclicVersion = 0"

datatype cy_error = GobErr | CyKv kv_error

definition StoreCyclicKey :: "('h, 'w) KV_ops \<Rightarrow> 'k key_gob \<Rightarrow> 'w \<Rightarrow> 'h \<Rightarrow> 'k \<Rightarrow> string \<Rightarrow> cy_error option \<times> 'w" where
  "StoreCyclicKey K G w h cy key =
     (case GobEncode G cy of
        None \<Rightarrow> (Some GobErr, w)
      | Some data \<Rightarrow>
          let (err, w') = KV_Set K h w key
                \<lparr>obj_Version = currentCyclicVersion, obj_Timestamp = KV_Now K w, obj_Data = Raw data\<rparr>
          in (map_option CyKv err, w'))"

definition LoadCyclicKey :: "('h, 'w) KV_ops \<Rightarrow> 'k key_gob \<Rightarrow> 'w \<Rightarrow> 'h \<Rightarrow> string \<Rightarrow> cy_error + 'k" where
  "LoadCyclicKey K G w h key =
     (case KV_Get K h w key currentCyclicVersion of
        Inl err \<Rightarrow> Inl (CyKv err)
      | Inr vo \<Rightarrow> (case GobDecode G (obj_Data vo) of None \<Rightarrow> Inl GobErr | Some cy \<Rightarrow> Inr cy))"

definition DeleteCyclicKey :: "('h, 'w) KV_ops \<Rightarrow> 'w \<Rightarrow> 'h \<Rightarrow> string \<Rightarrow> kv_error option \<times> 'w" where
  "DeleteCyclicKey K w h key = KV_Delete K h w key currentCyclicVersion"

section \<open>Managers\<close>

definition originMyPrivKeyKey :: string where "originMyPrivKeyKey = ''originMyPrivKey''"
definition originPartnerPubKey :: string where "originPartnerPubKey = ''originPartnerPubKey''"

text \<open>\<open>idString\<close> is the textual form of an identity.\<close>

definition makeManagerPrefix :: "(bytes \<Rightarrow> string) \<Rightarrow> bytes \<Rightarrow> string" where
  "makeManagerPrefix idString pid = ''Manager{partner:'' @ idString pid @ ''}''"

record ('h, 'k, 'p, 'q) manager =
  m_kv :: 'h
  m_myID :: bytes
  m_partner :: bytes
  m_originMyPrivKey :: 'k
  m_originPartnerPubKey :: 'k
  m_receive :: "('h, 'k, 'p, 'q) relationship"
  m_send :: "('h, 'k, 'p, 'q) relationship"

datatype pm_error = MgrPrefix prefix_error | MgrLoad rl_error | MgrFingerprint kv_error | MgrRelationship kv_error

text \<open>The libraries that a manager needs.\<close>

record ('k, 'p, 'q, 'c) ratchet_libs =
  rl_crypto :: "('k, 'p, 'q) e2e_crypto"
  rl_libs :: "'k relationship_libs"
  rl_gob :: "'k key_gob"
  rl_handler :: "('k, 'c) CypherHandler"
  rl_idString :: "bytes \<Rightarrow> string"

definition NewManager ::
  "('h, 'w) KV_ops \<Rightarrow> ('k, 'p, 'q, 'c) ratchet_libs \<Rightarrow> 'k \<times> (byte \<Rightarrow> 'p) \<Rightarrow> (SessionID list \<Rightarrow> SessionID list) \<Rightarrow>
   'w \<Rightarrow> 'c \<Rightarrow> 'h \<Rightarrow> bytes \<Rightarrow> bytes \<Rightarrow> 'k \<Rightarrow> 'k \<Rightarrow> 'p \<Rightarrow> 'q \<Rightarrow> Params \<Rightarrow> Params \<Rightarrow>
   fault + (('h, 'k, 'p, 'q) manager \<times> 'w \<times> 'c)" where
  "NewManager K R fresh ord w c h myID partnerID myPrivKey partnerPubKey mySIDHPrivKey partnerSIDHPubKey
     sendParams receiveParams =
     (case KV_Prefix K h (makeManagerPrefix (rl_idString R) partnerID) of
        Inl err \<Rightarrow> Inl FatalPanic
      | Inr h' \<Rightarrow>
     (let (err1, w1) = StoreCyclicKey K (rl_gob R) w h' myPrivKey originMyPrivKeyKey
      in if err1 \<noteq> None then Inl FatalPanic else
      let (err2, w2) = StoreCyclicKey K (rl_gob R) w1 h' partnerPubKey originPartnerPubKey
      in if err2 \<noteq> None then Inl FatalPanic else
      res_bind (NewRelationship K (rl_crypto R) (rl_libs R) (rl_handler R) fresh ord w2 c h' Send myID partnerID
        (myPrivKey, mySIDHPrivKey) partnerPubKey partnerSIDHPubKey sendParams) (\<lambda>(send, w3, c1).
      res_bind (NewRelationship K (rl_crypto R) (rl_libs R) (rl_handler R) fresh ord w3 c1 h' Receive myID partnerID
        (myPrivKey, mySIDHPrivKey) partnerPubKey partnerSIDHPubKey receiveParams) (\<lambda>(receive, w4, c2).
      Inr (\<lparr>m_kv = h', m_myID = myID, m_partner = partnerID, m_originMyPrivKey = myPrivKey,
            m_originPartnerPubKey = partnerPubKey, m_receive = receive, m_send = send\<rparr>, w4, c2)))))"

definition LoadManager ::
  "('h, 'w) KV_ops \<Rightarrow> ('k, 'p, 'q, 'c) ratchet_libs \<Rightarrow> 'w \<Rightarrow> 'c \<Rightarrow> 'h \<Rightarrow> bytes \<Rightarrow> bytes \<Rightarrow>
   fault + ((pm_error + ('h, 'k, 'p, 'q) manager) \<times> 'c)" where
  "LoadManager K R w c h myID partnerID =
     (case KV_Prefix K h (makeManagerPrefix (rl_idString R) partnerID) of
        Inl err \<Rightarrow> Inr (Inl (MgrPrefix err), c)
      | Inr h' \<Rightarrow>
     (case LoadCyclicKey K (rl_gob R) w h' originMyPrivKeyKey of
        Inl err \<Rightarrow> Inl FatalPanic
      | Inr myPrivKey \<Rightarrow>
     (case LoadCyclicKey K (rl_gob R) w h' originPartnerPubKey of
        Inl err \<Rightarrow> Inl FatalPanic
      | Inr partnerPubKey \<Rightarrow>
     res_bind (LoadRelationship K (rl_crypto R) (rl_libs R) (rl_handler R) w c h' Send myID partnerID) (\<lambda>(res, c1).
     case res of
       Inl err \<Rightarrow> Inr (Inl (MgrLoad err), c1)
     | Inr send \<Rightarrow>
     res_bind (LoadRelationship K (rl_crypto R) (rl_libs R) (rl_handler R) w c1 h' Receive myID partnerID) (\<lambda>(res2, c2).
     case res2 of
       Inl err \<Rightarrow> Inr (Inl (MgrLoad err), c2)
     | Inr receive \<Rightarrow>
         Inr (Inr \<lparr>m_kv = h', m_myID = myID, m_partner = partnerID, m_originMyPrivKey = myPrivKey,
                   m_originPartnerPubKey = partnerPubKey, m_receive = receive, m_send = send\<rparr>, c2))))))"

text \<open>One half of \<open>deleteRelationships\<close>: the sessions, the fingerprint and the list of one relationship.\<close>

definition delete_relationship ::
  "('h, 'w) KV_ops \<Rightarrow> ('k, 'c) CypherHandler \<Rightarrow> 'w \<Rightarrow> 'c \<Rightarrow> 'h \<Rightarrow> RelationshipType \<Rightarrow> ('h, 'k, 'p, 'q) relationship \<Rightarrow>
   fault + (pm_error option \<times> ('h, 'k, 'p, 'q) relationship \<times> 'w \<times> 'c)" where
  "delete_relationship K H w c h t r =
     res_bind (rt_Prefix t) (\<lambda>prefix.
     case KV_Prefix K h prefix of
       Inl err \<Rightarrow> Inr (Some (MgrPrefix err), r, w, c)
     | Inr h' \<Rightarrow>
         res_bind (rl_Delete K H w c r) (\<lambda>(r', w1, c1).
         let (err, w2) = deleteRelationshipFingerprint K w1 h'
         in case err of
              Some e \<Rightarrow> Inr (Some (MgrFingerprint e), r', w2, c1)
            | None \<Rightarrow>
                let (err2, w3) = KV_Delete K h' w2 relationshipKey currentRelationshipVersion
                in Inr (map_option MgrRelationship err2, r', w3, c1)))"

definition deleteRelationships ::
  "('h, 'w) KV_ops \<Rightarrow> ('k, 'c) CypherHandler \<Rightarrow> 'w \<Rightarrow> 'c \<Rightarrow> ('h, 'k, 'p, 'q) manager \<Rightarrow>
   fault + (pm_error option \<times> ('h, 'k, 'p, 'q) manager \<times> 'w \<times> 'c)" where
  "deleteRelationships K H w c m =
     res_bind (delete_relationship K H w c (m_kv m) Send (m_send m)) (\<lambda>(err, send, w1, c1).
     let m1 = m\<lparr>m_send := send\<rparr>
     in if err \<noteq> None then Inr (err, m1, w1, c1)
        else
          res_bind (delete_relationship K H w1 c1 (m_kv m) Receive (m_receive m)) (\<lambda>(err2, receive, w2, c2).
          Inr (err2, m1\<lparr>m_receive := receive\<rparr>, w2, c2)))"

definition pm_Delete ::
  "('h, 'w) KV_ops \<Rightarrow> ('k, 'c) CypherHandler \<Rightarrow> 'w \<Rightarrow> 'c \<Rightarrow> ('h, 'k, 'p, 'q) manager \<Rightarrow>
   fault + (pm_error option \<times> ('h, 'k, 'p, 'q) manager \<times> 'w \<times> 'c)" where
  "pm_Delete K H w c m =
     res_bind (deleteRelationships K H w c m) (\<lambda>(err, m1, w1, c1).
     if err \<noteq> None then Inr (err, m1, w1, c1)
     else
       let (err2, w2) = DeleteCyclicKey K w1 (m_kv m) originPartnerPubKey
       in if err2 \<noteq> None then Inl FatalPanic else Inr (None, m1, w2, c1))"

section \<open>Sessions and keys\<close>

text \<open>\<open>source\<close> is the session whose keys are used; the result is a reference into the heap of the
  relationship and whether the session existed.\<close>

definition NewReceiveSession ::
  "('h, 'w) KV_ops \<Rightarrow> ('k, 'p, 'q, 'c) ratchet_libs \<Rightarrow> 'k \<times> (byte \<Rightarrow> 'p) \<Rightarrow> (SessionID list \<Rightarrow> SessionID list) \<Rightarrow>
   'w \<Rightarrow> 'c \<Rightarrow> ('h, 'k, 'p, 'q) manager \<Rightarrow> 'k \<Rightarrow> 'q \<Rightarrow> Params \<Rightarrow> ('h, 'k, 'p, 'q) Session \<Rightarrow>
   fault + (nat \<times> bool \<times> ('h, 'k, 'p, 'q) manager \<times> 'w \<times> 'c)" where
  "NewReceiveSession K R fresh ord w c m partnerPubKey partnerSIDHPubKey e2eParams source =
     (let baseKey = GenerateE2ESessionBaseKey (rl_crypto R) (ss_myPrivKey source) partnerPubKey
            (ss_mySIDHPrivKey source) partnerSIDHPubKey;
          sessionID = GetSessionIDFromBaseKey (rl_crypto R) baseKey
      in case GetByID (m_receive m) sessionID of
           Some i \<Rightarrow> Inr (i, True, m, w, c)
         | None \<Rightarrow>
             res_bind (AddSession K (rl_crypto R) (rl_handler R) fresh ord w c (m_receive m)
               (Some (ss_myPrivKey source, ss_mySIDHPrivKey source)) partnerPubKey (Some baseKey) partnerSIDHPubKey
               (ss_sID source) Confirmed e2eParams) (\<lambda>(i, receive, w', c').
             Inr (i, False, m\<lparr>m_receive := receive\<rparr>, w', c')))"

definition NewSendSession ::
  "('h, 'w) KV_ops \<Rightarrow> ('k, 'p, 'q, 'c) ratchet_libs \<Rightarrow> 'k \<times> (byte \<Rightarrow> 'p) \<Rightarrow> (SessionID list \<Rightarrow> SessionID list) \<Rightarrow>
   'w \<Rightarrow> 'c \<Rightarrow> ('h, 'k, 'p, 'q) manager \<Rightarrow> ('k \<times> 'p) option \<Rightarrow> Params \<Rightarrow> ('h, 'k, 'p, 'q) Session \<Rightarrow>
   fault + (nat \<times> ('h, 'k, 'p, 'q) manager \<times> 'w \<times> 'c)" where
  "NewSendSession K R fresh ord w c m myKeys e2eParams sourceSession =
     res_bind (AddSession K (rl_crypto R) (rl_handler R) fresh ord w c (m_send m) myKeys
       (ss_partnerPubKey sourceSession) None (ss_partnerSIDHPubKey sourceSession) (ss_sID sourceSession) Sending e2eParams)
       (\<lambda>(i, send, w', c'). Inr (i, m\<lparr>m_send := send\<rparr>, w', c'))"

definition PopSendCypher ::
  "('h, 'w) KV_ops \<Rightarrow> 'w \<Rightarrow> ('h, 'k, 'p, 'q) manager \<Rightarrow> fault + ((rl_error + 'k cypher) \<times> ('h, 'k, 'p, 'q) manager \<times> 'w)" where
  "PopSendCypher K w m =
     res_bind (getKeyForSending K w (m_send m)) (\<lambda>(res, send, w'). Inr (res, m\<lparr>m_send := send\<rparr>, w'))"

definition PopRekeyCypher ::
  "('h, 'w) KV_ops \<Rightarrow> 'w \<Rightarrow> ('h, 'k, 'p, 'q) manager \<Rightarrow> fault + ((rl_error + 'k cypher) \<times> ('h, 'k, 'p, 'q) manager \<times> 'w)" where
  "PopRekeyCypher K w m =
     res_bind (getKeyForRekey K w (m_send m)) (\<lambda>(res, send, w'). Inr (res, m\<lparr>m_send := send\<rparr>, w'))"

definition GetSendSession :: "('h, 'k, 'p, 'q) manager \<Rightarrow> SessionID \<Rightarrow> nat option" where
  "GetSendSession m sid = GetByID (m_send m) sid"

definition GetReceiveSession :: "('h, 'k, 'p, 'q) manager \<Rightarrow> SessionID \<Rightarrow> nat option" where
  "GetReceiveSession m sid = GetByID (m_receive m) sid"

definition pm_Confirm ::
  "('h, 'w) KV_ops \<Rightarrow> ('k, 'p, 'q, 'c) ratchet_libs \<Rightarrow> (SessionID list \<Rightarrow> SessionID list) \<Rightarrow> 'w \<Rightarrow> 'c \<Rightarrow>
   ('h, 'k, 'p, 'q) manager \<Rightarrow> SessionID \<Rightarrow> fault + (rl_error option \<times> ('h, 'k, 'p, 'q) manager \<times> 'w \<times> 'c)" where
  "pm_Confirm K R ord w c m sid =
     res_bind (Confirm K (rl_crypto R) (rl_handler R) ord w c (m_send m) sid) (\<lambda>(err, send, w', c').
     Inr (err, m\<lparr>m_send := send\<rparr>, w', c'))"

definition TriggerNegotiations ::
  "('k, 'p, 'q, 'c) ratchet_libs \<Rightarrow> (nat \<Rightarrow> u32) \<Rightarrow> ('h, 'k, 'p, 'q) manager \<Rightarrow> nat list \<times> ('h, 'k, 'p, 'q) manager" where
  "TriggerNegotiations R rands m =
     (let (instructions, send) = rl_TriggerNegotiation (rl_crypto R) rands (m_send m)
      in (instructions, m\<lparr>m_send := send\<rparr>))"

definition ConnectionFingerprint :: "'k relationship_libs \<Rightarrow> ('h, 'k, 'p, 'q) manager \<Rightarrow> bytes" where
  "ConnectionFingerprint L m = GenerateConnectionFingerprint L (r_fingerprint (m_send m)) (r_fingerprint (m_receive m))"

section \<open>Lemmas\<close>

lemma manager_keys: "CHR 0x5C \<notin> set originMyPrivKeyKey" "CHR 0x5C \<notin> set originPartnerPubKey"
  "originMyPrivKeyKey \<noteq> originPartnerPubKey"
  by (simp_all add: originMyPrivKeyKey_def originPartnerPubKey_def)

lemma delete_write:
  assumes "deletes_succeed K" "CHR 0x5C \<notin> set key"
  shows "\<exists>w'. KV_Delete K h w key ver = (None, w') \<and> kv_writes K {h} w w'"
  using assms kv_writes_one(2) by (metis deletes_succeed_def prod.collapse)

text \<open>Writes through handles outside the path of a relationship leave it as it is.\<close>

definition outside :: "string list \<Rightarrow> kv set \<Rightarrow> bool" where
  "outside ps hs = (\<forall>u \<in> hs. \<exists>P. derived P u \<and> take (length ps) P \<noteq> ps)"

context ekv_store
begin

lemma outside_apart:
  assumes "outside ps hs" "u \<in> hs" "derived (ps @ qs) v"
  shows "apart K u v"
proof -
  obtain P where P: "derived P u" "take (length ps) P \<noteq> ps" using assms(1,2) by (auto simp: outside_def)
  then have "P \<noteq> ps @ qs" by auto
  with derived_all_apart [OF P(1) assms(3)] show ?thesis by blast
qed

lemma shape_outside:
  assumes "rl_shape K C ps w r" "kv_writes K hs w w'" "outside ps hs"
  shows "rl_shape K C ps w' r"
proof -
  have d: "derived (ps @ []) (r_kv r)" using assms(1) by (simp add: rl_shape_def)
  have fr: "KV_Get K (r_kv r) w' key ver = KV_Get K (r_kv r) w key ver" if "CHR 0x5C \<notin> set key" for key ver
    by (rule kv_writes_frame [OF assms(2) outside_apart [OF assms(3) _ d] that])
  have "ss_inv K C (r_kv r) w' (deref r i)" if "i \<in> set (r_sessions r)" for i
  proof -
    have inv: "ss_inv K C (r_kv r) w (deref r i)" using assms(1) that by (simp add: rl_shape_def)
    show ?thesis by (rule vkv.ss_inv_frame [OF assms(2) outside_apart [OF assms(3) _ session_handle [OF assms(1) inv]] inv])
  qed
  with assms(1) show ?thesis by (simp add: rl_shape_def fr key_names)
qed

lemma delete_sessions_writes:
  assumes "deletes_succeed K" "rl_shape K C ps w (r\<lparr>r_sessions := is\<rparr>)"
  shows "\<exists>r' w' c'. rl_delete_sessions K H w c r is = Inr (r', w', c') \<and> kv_writes K (ss_kv ` deref r ` set is) w w'"
  using assms(2)
proof (induction "is" arbitrary: w c r)
  case Nil
  then show ?case by (simp add: kv_writes_refl)
next
  case (Cons i "is")
  let ?r = "r\<lparr>r_sessionByID := AList.delete (ss_sID (deref r i)) (r_sessionByID r)\<rparr>"
  have inv: "ss_inv K C (r_kv r) w (deref r i)" using Cons.prems by (simp add: rl_shape_def)
  obtain w1 c1 where d: "ss_Delete K H w c (deref r i) = Inr (w1, c1)" "kv_writes K {ss_kv (deref r i)} w w1"
    using Delete_writes [OF assms(1) inv, of H c] by blast
  have "rl_shape K C ps w (r\<lparr>r_sessions := [] @ i # is\<rparr>)" using Cons.prems by simp
  from shape_remove [OF this d(2)] have "rl_shape K C ps w1 (?r\<lparr>r_sessions := is\<rparr>)" by simp
  from Cons.IH [OF this, of c1] obtain r' w' c' where
    ih: "rl_delete_sessions K H w1 c1 ?r is = Inr (r', w', c')" "kv_writes K (ss_kv ` deref ?r ` set is) w1 w'" by blast
  have "kv_writes K (ss_kv ` deref r ` set (i # is)) w1 w'" by (rule kv_writes_mono [OF ih(2)]) auto
  moreover have "kv_writes K (ss_kv ` deref r ` set (i # is)) w w1" by (rule kv_writes_mono [OF d(2)]) simp
  ultimately have "kv_writes K (ss_kv ` deref r ` set (i # is)) w w'" by (rule kv_writes_trans)
  moreover have "rl_delete_sessions K H w c r (i # is) = Inr (r', w', c')" using d(1) ih(1) by (simp add: Let_def)
  ultimately show ?case by blast
qed

lemma delete_relationship_spec:
  assumes "deletes_succeed K" "rl_shape K C (qs @ [p]) w r" "rt_Prefix t = Inr p" "kv_Prefix h p = Inr (r_kv r)" "derived qs h"
  shows "\<exists>r' w' c' hs. delete_relationship K H w c h t r = Inr (None, r', w', c') \<and> kv_writes K hs w w' \<and>
    (\<forall>u \<in> hs. \<exists>P. derived (qs @ p # P) u) \<and>
    KV_Get K (r_kv r) w' relationshipKey currentRelationshipVersion = Inl KeyNotFound"
proof -
  have "rl_shape K C (qs @ [p]) w (r\<lparr>r_sessions := r_sessions r\<rparr>)" using assms(2) by simp
  from delete_sessions_writes [OF assms(1) this, of H c] obtain r' w1 c1 where
    d: "rl_Delete K H w c r = Inr (r', w1, c1)" "kv_writes K (ss_kv ` deref r ` set (r_sessions r)) w w1"
    unfolding rl_Delete_def by blast
  obtain w2 where w2: "deleteRelationshipFingerprint K w1 (r_kv r) = (None, w2)" "kv_writes K {r_kv r} w1 w2"
    using delete_write [OF assms(1) key_names(4)] unfolding deleteRelationshipFingerprint_def by blast
  obtain w3 where w3: "KV_Delete K (r_kv r) w2 relationshipKey currentRelationshipVersion = (None, w3)" "kv_writes K {r_kv r} w2 w3"
    using delete_write [OF assms(1) key_names(3)] by blast
  let ?hs = "insert (r_kv r) (ss_kv ` deref r ` set (r_sessions r))"
  have wr: "kv_writes K ?hs w w1" "kv_writes K ?hs w1 w2" "kv_writes K ?hs w2 w3"
    by (rule kv_writes_mono [OF d(2)], blast) (rule kv_writes_mono [OF w2(2)], blast, rule kv_writes_mono [OF w3(2)], blast)
  have "kv_writes K ?hs w w3" by (rule kv_writes_trans [OF wr(3) kv_writes_trans [OF wr(2,1)]])
  moreover have "\<forall>u \<in> ?hs. \<exists>P. derived (qs @ p # P) u"
  proof
    fix u assume "u \<in> ?hs"
    then consider "u = r_kv r" | i where "i \<in> set (r_sessions r)" "u = ss_kv (deref r i)" by auto
    then show "\<exists>P. derived (qs @ p # P) u"
    proof cases
      case 1
      then show ?thesis using assms(2) by (auto simp: rl_shape_def)
    next
      case 2
      then have "ss_inv K C (r_kv r) w (deref r i)" using assms(2) by (simp add: rl_shape_def)
      from session_handle [OF assms(2) this] 2 show ?thesis by auto
    qed
  qed
  moreover have "delete_relationship K H w c h t r = Inr (None, r', w3, c1)"
    using assms(3,4) d(1) w2(1) w3(1) by (simp add: delete_relationship_def prefix_K)
  ultimately show ?thesis using vkv.get_delete [OF w3(1)] by blast
qed

end

section \<open>Properties\<close>

text \<open>Deleting a partner leaves the client's own private key behind. With both relationships as they are
  in every reachable state, \<open>Delete\<close> succeeds; neither relationship can be loaded afterwards and the
  partner's public key is gone, but the private key stored under \<open>originMyPrivKey\<close> is still there.\<close>

theorem Delete_leaves_private_key:
  assumes "ekv_store E" "K = versioned_ops E" "deletes_succeed K" "derived qs (m_kv m)"
    and "kv_Prefix (m_kv m) ''Send'' = Inr (r_kv (m_send m))" "rl_shape K C (qs @ [''Send'']) w (m_send m)"
    and "kv_Prefix (m_kv m) ''Receive'' = Inr (r_kv (m_receive m))" "rl_shape K C (qs @ [''Receive'']) w (m_receive m)"
  shows "\<exists>m' w' c'. pm_Delete K H w c m = Inr (None, m', w', c') \<and>
    LoadRelationship K C L H w' c' (m_kv m) Send myID partnerID = Inr (Inl (RelKv KeyNotFound), c') \<and>
    LoadRelationship K C L H w' c' (m_kv m) Receive myID partnerID = Inr (Inl (RelKv KeyNotFound), c') \<and>
    LoadCyclicKey K G w' (m_kv m) originPartnerPubKey = Inl (CyKv KeyNotFound) \<and>
    LoadCyclicKey K G w' (m_kv m) originMyPrivKeyKey = LoadCyclicKey K G w (m_kv m) originMyPrivKeyKey"
proof -
  have rt: "rt_Prefix Send = Inr ''Send''" "rt_Prefix Receive = Inr ''Receive''" by (simp_all add: rt_Prefix_def Send_def Receive_def)
  note E = assms(1) and v = ekv_store.versioned [OF assms(1), folded assms(2)]
  from ekv_store.delete_relationship_spec [OF E assms(3,6) [unfolded assms(2)] rt(1) assms(5,4), of H c, folded assms(2)]
  obtain send w1 c1 hs1 where s: "delete_relationship K H w c (m_kv m) Send (m_send m) = Inr (None, send, w1, c1)"
    "kv_writes K hs1 w w1" "\<forall>u \<in> hs1. \<exists>P. derived (qs @ ''Send'' # P) u"
    "KV_Get K (r_kv (m_send m)) w1 relationshipKey currentRelationshipVersion = Inl KeyNotFound" by blast
  have "outside (qs @ [''Receive'']) hs1" using s(3) unfolding outside_def by fastforce
  from ekv_store.shape_outside [OF E assms(8) [unfolded assms(2)] s(2) [unfolded assms(2)] this, folded assms(2)]
  have "rl_shape K C (qs @ [''Receive'']) w1 (m_receive m)" .
  from ekv_store.delete_relationship_spec [OF E assms(3) [unfolded assms(2)] this [unfolded assms(2)] rt(2) assms(7,4), of H c1, folded assms(2)]
  obtain receive w2 c2 hs2 where r: "delete_relationship K H w1 c1 (m_kv m) Receive (m_receive m) = Inr (None, receive, w2, c2)"
    "kv_writes K hs2 w1 w2" "\<forall>u \<in> hs2. \<exists>P. derived (qs @ ''Receive'' # P) u"
    "KV_Get K (r_kv (m_receive m)) w2 relationshipKey currentRelationshipVersion = Inl KeyNotFound" by blast
  obtain w3 where d: "KV_Delete K (m_kv m) w2 originPartnerPubKey currentCyclicVersion = (None, w3)" "kv_writes K {m_kv m} w2 w3"
    using delete_write [OF assms(3) manager_keys(2)] by blast
  have ap: "apart K u v" if "derived P u" "derived Q v" "P \<noteq> Q" for P Q u v
    using ekv_store.derived_all_apart [OF E that, folded assms(2)] .
  have path: "derived (qs @ [''Send'']) (r_kv (m_send m))" "derived (qs @ [''Receive'']) (r_kv (m_receive m))"
    using assms(6,8) by (simp_all add: rl_shape_def)
  have a1: "apart K u (m_kv m)" if "u \<in> hs1" for u using s(3) that ap [OF _ assms(4)] by fastforce
  have a2: "apart K u (m_kv m)" "apart K u (r_kv (m_send m))" if "u \<in> hs2" for u
    using r(3) that ap [OF _ assms(4)] ap [OF _ path(1)] by fastforce+
  have a3: "apart K (m_kv m) (r_kv (m_send m))" "apart K (m_kv m) (r_kv (m_receive m))"
    by (rule ap [OF assms(4) path(1)], simp) (rule ap [OF assms(4) path(2)], simp)
  have "KV_Get K (r_kv (m_send m)) w3 relationshipKey currentRelationshipVersion = Inl KeyNotFound"
    using kv_writes_frame [OF d(2) _ key_names(3)] kv_writes_frame [OF r(2) a2(2) key_names(3)] a3(1) s(4) by simp
  moreover have "KV_Get K (r_kv (m_receive m)) w3 relationshipKey currentRelationshipVersion = Inl KeyNotFound"
    using kv_writes_frame [OF d(2) _ key_names(3)] a3(2) r(4) by simp
  moreover have "KV_Get K (m_kv m) w3 originPartnerPubKey currentCyclicVersion = Inl KeyNotFound"
    by (rule versioned_kv.get_delete [OF v d(1)])
  moreover have "KV_Get K (m_kv m) w3 originMyPrivKeyKey currentCyclicVersion = KV_Get K (m_kv m) w originMyPrivKeyKey currentCyclicVersion"
    using versioned_kv.get_delete_other [OF v d(1)] manager_keys(3) kv_writes_frame [OF s(2) a1 manager_keys(1)]
      kv_writes_frame [OF r(2) a2(1) manager_keys(1)] by simp
  moreover have "pm_Delete K H w c m = Inr (None, m\<lparr>m_send := send, m_receive := receive\<rparr>, w3, c2)"
    using s(1) r(1) d(1) by (simp add: pm_Delete_def deleteRelationships_def DeleteCyclicKey_def Let_def)
  moreover have "KV_Prefix K = kv_Prefix" by (simp add: assms(2) versioned_ops_def)
  ultimately show ?thesis using rt assms(5,7) by (simp add: LoadRelationship_def LoadCyclicKey_def)
qed

text \<open>A repeated key exchange does not make a second session. What \<open>NewReceiveSession\<close> returned for the keys
  of a partner, made now or existing, it returns again for the same keys, reports it as a duplicate, and
  changes nothing.\<close>

theorem NewReceiveSession_idempotent:
  assumes "NewReceiveSession K R fresh ord w c m partnerPubKey partnerSIDHPubKey par source = Inr (i, dup, m', w', c')"
  shows "NewReceiveSession K R fresh2 ord2 w2 c2 m' partnerPubKey partnerSIDHPubKey par2 source = Inr (i, True, m', w2, c2)"
proof -
  let ?C = "rl_crypto R"
  let ?bk = "GenerateE2ESessionBaseKey ?C (ss_myPrivKey source) partnerPubKey (ss_mySIDHPrivKey source) partnerSIDHPubKey"
  let ?sid = "GetSessionIDFromBaseKey ?C ?bk"
  have "GetByID (m_receive m') ?sid = Some i"
  proof (cases "GetByID (m_receive m) ?sid")
    case None
    then obtain s w1 c1 where s: "NewSession K ?C (rl_handler R) fresh w c (r_kv (m_receive m)) (r_t (m_receive m)) (r_partnerID (m_receive m))
        (Some (ss_myPrivKey source, ss_mySIDHPrivKey source)) partnerPubKey (Some ?bk) partnerSIDHPubKey (ss_sID source)
        (r_fingerprint (m_receive m)) Confirmed par = Inr (s, w1, c1)"
      "i = length (r_heap (m_receive m))" "m_receive m' = addSession (m_receive m) s"
      using assms by (auto simp: NewReceiveSession_def AddSession_def Let_def res_bind_Inr_iff)
    have "ss_sID s = ?sid" using NewSession_id [OF s(1)] by (simp add: finalizeKeyNegotiation_def Let_def)
    with s(2,3) show ?thesis by (simp add: GetByID_def addSession_def Let_def update_conv')
  next
    case (Some j)
    with assms show ?thesis by (simp add: NewReceiveSession_def Let_def)
  qed
  then show ?thesis by (simp add: NewReceiveSession_def Let_def)
qed

section \<open>Witnesses\<close>

definition gob_example :: "bytes key_gob" where
  "gob_example = \<lparr>GobEncode = Some, GobDecode = (\<lambda>d. case d of Raw b \<Rightarrow> Some b | Json _ \<Rightarrow> None)\<rparr>"

definition ratchet_example :: "(bytes, bytes, bytes, bytes list) ratchet_libs" where
  "ratchet_example =
     \<lparr>rl_crypto = cr_example, rl_libs = libs_example, rl_gob = gob_example, rl_handler = handler_example, rl_idString = base64\<rparr>"

definition empty_relationship :: "RelationshipType \<Rightarrow> kv \<Rightarrow> (kv, bytes, bytes, bytes) relationship" where
  "empty_relationship t h =
     \<lparr>r_t = t, r_kv = h, r_heap = [], r_sessions = [], r_sessionByID = [], r_fingerprint = [6], r_myID = [7], r_partnerID = [9]\<rparr>"

definition manager_example :: "(kv, bytes, bytes, bytes) manager" where
  "manager_example =
     \<lparr>m_kv = NewKV, m_myID = [7], m_partner = [9], m_originMyPrivKey = [1], m_originPartnerPubKey = [2],
      m_receive = empty_relationship Receive (projr (kv_Prefix NewKV ''Receive'')),
      m_send = empty_relationship Send (projr (kv_Prefix NewKV ''Send''))\<rparr>"

lemma example_prefix: "kv_Prefix NewKV ''Send'' = Inr (projr (kv_Prefix NewKV ''Send''))"
  "kv_Prefix NewKV ''Receive'' = Inr (projr (kv_Prefix NewKV ''Receive''))"
  by (simp_all add: kv_Prefix_def NewKV_def HasPrefix_def)

theorem NewReceiveSession_idempotent_witness:
  "\<exists>i m' w' c'. NewReceiveSession mem_KV ratchet_example ([1], \<lambda>_. [2]) rev Map.empty [] manager_example [5] [6] GetDefaultParams ss_example =
      Inr (i, False, m', w', c') \<and>
    NewReceiveSession mem_KV ratchet_example ([8], \<lambda>_. [2]) id w' c' m' [5] [6] GetDefaultParams ss_example = Inr (i, True, m', w', c')"
proof -
  let ?h = "projr (kv_Prefix NewKV ''Receive'')"
  let ?bk = "GenerateE2ESessionBaseKey cr_example (ss_myPrivKey ss_example) [5] (ss_mySIDHPrivKey ss_example) [6]"
  have "derived ([] @ [''Receive'']) ?h" by (rule derived_prefix [OF derived_new example_prefix(2)])
  then have pre: "\<exists>h'. KV_Prefix mem_KV ?h (MakeSessionPrefix sid) = Inr h'" for sid
    using session_prefix_any by (simp add: mem_KV_simps MakeSessionPrefix_def)
  have "\<not> par_MinKeys GetDefaultParams < 10" by (simp add: GetDefaultParams_def minKeys_def)
  from NewSession_runs [where K = mem_KV, OF this cr_example_laws pre] obtain s w1 c1 where
    s: "NewSession mem_KV cr_example handler_example ([1], \<lambda>_. [2]) Map.empty [] ?h Receive [9]
      (Some (ss_myPrivKey ss_example, ss_mySIDHPrivKey ss_example)) [5] (Some ?bk) [6] (ss_sID ss_example) [6] Confirmed GetDefaultParams =
      Inr (s, w1, c1)" by metis
  have "\<exists>i m' w' c'. NewReceiveSession mem_KV ratchet_example ([1], \<lambda>_. [2]) rev Map.empty [] manager_example [5] [6] GetDefaultParams ss_example =
      Inr (i, False, m', w', c')"
    using s by (simp add: NewReceiveSession_def Let_def manager_example_def empty_relationship_def GetByID_def ratchet_example_def
        AddSession_def rl_save_def rl_marshal_def addSession_def mem_KV_simps)
  then obtain i m' w' c' where first: "NewReceiveSession mem_KV ratchet_example ([1], \<lambda>_. [2]) rev Map.empty [] manager_example [5] [6]
      GetDefaultParams ss_example = Inr (i, False, m', w', c')" by blast
  from NewReceiveSession_idempotent [OF first, of "([8], \<lambda>_. [2])" id w' c' GetDefaultParams] first show ?thesis by blast
qed

lemma store_shape:
  assumes "storeRelationshipFingerprint mem_KV w [6] h = (e, w')" "kv_Prefix NewKV p = Inr h"
  shows "rl_shape mem_KV cr_example ([] @ [p]) w' (empty_relationship t h)"
  by (rule mem.empty_shape [OF mem_sets derived_prefix [OF derived_new assms(2)] assms(1)])
    (simp_all add: empty_relationship_def)

theorem Delete_leaves_private_key_witness:
  "\<exists>w m' w' c'. LoadCyclicKey mem_KV gob_example w NewKV originMyPrivKeyKey = Inr [1] \<and>
     pm_Delete mem_KV handler_example w [] manager_example = Inr (None, m', w', c') \<and>
     LoadCyclicKey mem_KV gob_example w' NewKV originMyPrivKeyKey = Inr [1]"
proof -
  let ?m = manager_example and ?hs = "projr (kv_Prefix NewKV ''Send'')" and ?hr = "projr (kv_Prefix NewKV ''Receive'')"
  obtain w1 where w1: "storeRelationshipFingerprint mem_KV Map.empty [6] ?hs = (None, w1)"
    by (simp add: storeRelationshipFingerprint_def mem_KV_simps)
  obtain w2 where w2: "storeRelationshipFingerprint mem_KV w1 [6] ?hr = (None, w2)"
    by (simp add: storeRelationshipFingerprint_def mem_KV_simps)
  let ?o = "\<lparr>obj_Version = currentCyclicVersion, obj_Timestamp = 0, obj_Data = Raw [1]\<rparr>"
  obtain w3 where w3: "KV_Set mem_KV NewKV w2 originMyPrivKeyKey ?o = (None, w3)" by (simp add: mem_KV_simps)
  have d: "derived ([] @ [''Send'']) ?hs" "derived ([] @ [''Receive'']) ?hr"
    by (rule derived_prefix [OF derived_new example_prefix(1)], rule derived_prefix [OF derived_new example_prefix(2)])
  have wr: "kv_writes mem_KV {?hr} w1 w2" "kv_writes mem_KV {NewKV} w2 w3"
    by (rule kv_writes_one(1) [OF w2 [unfolded storeRelationshipFingerprint_def] key_names(4)],
        rule kv_writes_one(1) [OF w3 manager_keys(1)])
  have o: "outside ([] @ [''Send'']) {?hr}" "outside ([] @ [''Send'']) {NewKV}" "outside ([] @ [''Receive'']) {NewKV}"
    using d(2) derived_new by (auto simp: outside_def)
  have "rl_shape mem_KV cr_example ([] @ [''Send'']) w3 (m_send ?m)"
    using mem.shape_outside [OF mem.shape_outside [OF store_shape [OF w1 example_prefix(1)] wr(1) o(1)] wr(2) o(2)]
    by (simp add: manager_example_def)
  moreover have "rl_shape mem_KV cr_example ([] @ [''Receive'']) w3 (m_receive ?m)"
    using mem.shape_outside [OF store_shape [OF w2 example_prefix(2)] wr(2) o(3)] by (simp add: manager_example_def)
  moreover have "kv_Prefix (m_kv ?m) ''Send'' = Inr (r_kv (m_send ?m))" "kv_Prefix (m_kv ?m) ''Receive'' = Inr (r_kv (m_receive ?m))"
    "derived [] (m_kv ?m)" "m_kv ?m = NewKV"
    using example_prefix derived_new by (simp_all add: manager_example_def empty_relationship_def)
  moreover have "LoadCyclicKey mem_KV gob_example w3 NewKV originMyPrivKeyKey = Inr [1]"
    using w3 by (auto simp: LoadCyclicKey_def mem_KV_simps gob_example_def)
  ultimately show ?thesis
    using Delete_leaves_private_key [OF mem.ekv_store_axioms refl mem_deletes, of "[]" ?m cr_example w3 handler_example "[]"
        libs_example "[]" "[]" gob_example] by auto
qed

end
