(* ===== verification/Patches.thy ===== *)
theory Patches
  imports Versioned_KV "HOL-Library.AList" "HOL-Library.Sublist"
begin

text \<open>
  Synchronisation between the devices of a user (\<open>collective/patches.go\<close>, \<open>mutate.go\<close>, \<open>instanceID.go\<close>,
  and of \<open>collector.go\<close> what applies the changes). Each device publishes a patch, its latest mutation of
  every key; a device that reads the patches of the others merges them into its store. Timestamps
  and times are nanoseconds since 1970. A Go map is an association list; the store of the device is
  reached through \<open>tx_ops\<close>, the transactions of the encrypted store.
\<close>

section \<open>Mutations and patches\<close>

type_synonym InstanceID = bytes

definition instanceIDLength :: nat where "instanceIDLength = 8"

record Mutate =
  mt_Timestamp :: int
  mt_Value :: "bytes option"
  mt_Deletion :: bool

text \<open>\<open>ts.UTC().Unix()\<close> counts seconds.\<close>

definition NewMutate :: "int \<Rightarrow> bytes option \<Rightarrow> bool \<Rightarrow> Mutate" where
  "NewMutate ts value deletion = \<lparr>mt_Timestamp = ts div 1000000000, mt_Value = value, mt_Deletion = deletion\<rparr>"

record Patch =
  pa_myID :: InstanceID
  pa_keys :: "(string \<times> Mutate) list"

definition newPatch :: "InstanceID \<Rightarrow> Patch" where
  "newPatch patchID = \<lparr>pa_myID = patchID, pa_keys = []\<rparr>"

definition AddUnsafe :: "Patch \<Rightarrow> string \<Rightarrow> Mutate \<Rightarrow> Patch" where
  "AddUnsafe p key m = p\<lparr>pa_keys := AList.update key m (pa_keys p)\<rparr>"

definition pa_get :: "Patch \<Rightarrow> string \<Rightarrow> Mutate option" where
  "pa_get p key = map_of (pa_keys p) key"

definition mutate_json :: "Mutate \<Rightarrow> json" where
  "mutate_json m =
     JObj [(''Timestamp'', JNum (mt_Timestamp m)),
           (''Value'', case mt_Value m of None \<Rightarrow> JNull | Some b \<Rightarrow> JBytes b), (''Deletion'', JBool (mt_Deletion m))]"

definition Serialize :: "Patch \<Rightarrow> stored" where
  "Serialize p = Json (JObj (map (\<lambda>(k, m). (k, mutate_json m)) (pa_keys p)))"

definition json_mutate :: "json \<Rightarrow> Mutate option" where
  "json_mutate j =
     (case j of
        JObj fs \<Rightarrow>
          (case ((case json_field j ''Timestamp'' of JNum i \<Rightarrow> if - (2 ^ 63) \<le> i \<and> i < 2 ^ 63 then Some i else None
                  | JNull \<Rightarrow> Some 0 | _ \<Rightarrow> None),
                 (case json_field j ''Value'' of JBytes b \<Rightarrow> Some (Some b) | JNull \<Rightarrow> Some None | _ \<Rightarrow> None),
                 (case json_field j ''Deletion'' of JBool b \<Rightarrow> Some b | JNull \<Rightarrow> Some False | _ \<Rightarrow> None)) of
             (Some t, Some v, Some d) \<Rightarrow> Some \<lparr>mt_Timestamp = t, mt_Value = v, mt_Deletion = d\<rparr>
           | _ \<Rightarrow> None)
      | _ \<Rightarrow> None)"

text \<open>Keys that are read overwrite those that the patch has. A null in place of a mutation or of the whole
  patch, which no device writes, is taken as an error here.\<close>

definition Deserialize :: "Patch \<Rightarrow> stored \<Rightarrow> Patch option" where
  "Deserialize p b =
     (case b of
        Json (JObj fs) \<Rightarrow>
          map_option (\<lambda>ms. foldl (\<lambda>q (k, m). AddUnsafe q k m) p (zip (map fst fs) ms)) (those (map (json_mutate \<circ> snd) fs))
      | _ \<Rightarrow> None)"

section \<open>Merging\<close>

text \<open>The inner loop of \<open>findKeysWithUpdates\<close>: the keys with mutations after \<open>lst\<close>, and the newest of them.\<close>

definition scan_patch :: "int \<Rightarrow> (string \<times> Mutate) list \<Rightarrow> string list \<Rightarrow> string list \<times> int" where
  "scan_patch lst entries keys =
     foldl (\<lambda>(ks, newLast) (key, m).
              if mt_Timestamp m > lst
              then (List.insert key ks, if mt_Timestamp m > newLast then mt_Timestamp m else newLast)
              else (ks, newLast)) (keys, lst) entries"

text \<open>\<open>UnixNano\<close> of the zero time.\<close>

definition zeroTimeNano :: int where "zeroTimeNano = - 6795364578871345152"

fun find_updates :: "InstanceID \<Rightarrow> Patch list \<Rightarrow> int list \<Rightarrow> nat \<Rightarrow> string list \<Rightarrow> fault + string list \<times> int list" where
  "find_updates myID [] lastSeen idx keys = Inr (keys, [])"
| "find_updates myID (patch # patches) lastSeen idx keys =
     (if pa_myID patch = myID then
        res_bind (find_updates myID patches lastSeen (Suc idx) keys) (\<lambda>(ks, newLastSeen).
        Inr (ks, zeroTimeNano # newLastSeen))
      else
        res_bind (index lastSeen idx) (\<lambda>lst.
        let (keys', newLast) = scan_patch lst (pa_keys patch) keys
        in res_bind (find_updates myID patches lastSeen (Suc idx) keys') (\<lambda>(ks, newLastSeen).
           Inr (ks, newLast # newLastSeen))))"

definition findKeysWithUpdates :: "Patch \<Rightarrow> Patch list \<Rightarrow> int list \<Rightarrow> fault + string list \<times> int list" where
  "findKeysWithUpdates p remotePatches lastSeen = find_updates (pa_myID p) remotePatches lastSeen 0 []"

definition contend :: "string \<Rightarrow> Mutate \<Rightarrow> Patch \<Rightarrow> Mutate" where
  "contend key defending patch =
     (case pa_get patch key of
        None \<Rightarrow> defending
      | Some contender \<Rightarrow> if \<not> mt_Timestamp defending > mt_Timestamp contender then contender else defending)"

definition buildMerge :: "Patch list \<Rightarrow> string list \<Rightarrow> (string \<times> Mutate) list" where
  "buildMerge patches mutatedKeys =
     map (\<lambda>key. (key, foldl (contend key) \<lparr>mt_Timestamp = 0, mt_Value = None, mt_Deletion = False\<rparr> patches)) mutatedKeys"

definition Diff :: "Patch \<Rightarrow> Patch list \<Rightarrow> int list \<Rightarrow> fault + (string \<times> Mutate) list \<times> int list" where
  "Diff p patches lastSeen =
     res_bind (findKeysWithUpdates p patches lastSeen) (\<lambda>(mutatedKeys, newLastSeen).
     Inr (buildMerge patches mutatedKeys, newLastSeen))"

section \<open>Devices\<close>

text \<open>Arrays of the same length are compared.\<close>

fun iid_Cmp :: "InstanceID \<Rightarrow> InstanceID \<Rightarrow> int" where
  "iid_Cmp (a # i) (b # j) = (if a > b then 1 else if a < b then - 1 else iid_Cmp i j)"
| "iid_Cmp _ _ = 0"

definition iid_Equals :: "InstanceID \<Rightarrow> InstanceID \<Rightarrow> bool" where
  "iid_Equals i j = list_all2 (=) i j"

text \<open>\<open>sort.Slice\<close> with the comparison of \<open>prepareDiff\<close>.\<close>

fun insert_device :: "InstanceID \<Rightarrow> InstanceID list \<Rightarrow> InstanceID list" where
  "insert_device d [] = [d]"
| "insert_device d (x # xs) = (if iid_Cmp d x = 1 then d # x # xs else x # insert_device d xs)"

definition sort_devices :: "InstanceID list \<Rightarrow> InstanceID list" where
  "sort_devices ds = foldr insert_device ds []"

definition lookup_time :: "(InstanceID \<times> int) list \<Rightarrow> InstanceID \<Rightarrow> int" where
  "lookup_time tms d = (case map_of tms d of None \<Rightarrow> zeroTimeNano | Some t \<Rightarrow> t)"

text \<open>The patches of the tracker are never nil.\<close>

definition lookup_patch :: "(InstanceID \<times> Patch) list \<Rightarrow> InstanceID \<Rightarrow> Patch" where
  "lookup_patch tracker d = the (map_of tracker d)"

definition prepareDiff ::
  "(InstanceID \<times> Patch) list \<Rightarrow> (InstanceID \<times> int) list \<Rightarrow> InstanceID list \<times> Patch list \<times> int list" where
  "prepareDiff devicePatchTracker lastMutationRead =
     (let devices = sort_devices (map fst devicePatchTracker)
      in (devices, map (lookup_patch devicePatchTracker) devices, map (lookup_time lastMutationRead) devices))"

section \<open>The store of a device\<close>

text \<open>The transactions of the encrypted store: \<open>tx_Fails\<close> tells whether a transaction on some keys reports an
  error, which leaves the store as it was.\<close>

record 'w tx_ops =
  tx_Get :: "'w \<Rightarrow> string \<Rightarrow> stored option"
  tx_Set :: "'w \<Rightarrow> string \<Rightarrow> stored \<Rightarrow> 'w"
  tx_Delete :: "'w \<Rightarrow> string \<Rightarrow> 'w"
  tx_Fails :: "'w \<Rightarrow> string list \<Rightarrow> bool"

text \<open>The value of a mutation as the content of a file; a nil value is an empty file.\<close>

definition file_data :: "bytes option \<Rightarrow> stored" where
  "file_data v = Raw (case v of None \<Rightarrow> [] | Some b \<Rightarrow> b)"

text \<open>\<open>SetBytesFromRemote\<close> and \<open>DeleteFromRemote\<close> also return what they report to the listener of the key.\<close>

definition SetBytesFromRemote ::
  "'w tx_ops \<Rightarrow> 'w \<Rightarrow> string \<Rightarrow> bytes option \<Rightarrow> ((stored option \<times> stored \<times> KeyOperation) option) \<times> 'w" where
  "SetBytesFromRemote T w key data =
     (if tx_Fails T w [key] then (None, w)
      else
        let old = tx_Get T w key
        in (Some (old, file_data data, if old \<noteq> None then Updated else Created), tx_Set T w key (file_data data)))"

definition DeleteFromRemote ::
  "'w tx_ops \<Rightarrow> 'w \<Rightarrow> string \<Rightarrow> ((stored option \<times> KeyOperation) option) \<times> 'w" where
  "DeleteFromRemote T w key =
     (if tx_Fails T w [key] then (None, w)
      else (Some (tx_Get T w key, Deleted), tx_Delete T w key))"

text \<open>The set of element names in a map file.\<close>

definition getMapFile :: "stored option \<Rightarrow> string list option" where
  "getMapFile data =
     (case data of
        None \<Rightarrow> Some []
      | Some (Json (JObj fs)) \<Rightarrow> Some (map fst fs)
      | Some (Json JNull) \<Rightarrow> Some []
      | Some _ \<Rightarrow> None)"

definition map_file :: "string list \<Rightarrow> stored" where
  "map_file names = Json (JObj (map (\<lambda>n. (n, JObj [])) names))"

text \<open>What is reported of an element: its old and new content and the operation.\<close>

type_synonym elementEdit = "stored option \<times> stored option \<times> KeyOperation"

definition edit_element ::
  "'w tx_ops \<Rightarrow> string list \<times> (string \<times> elementEdit) list \<times> 'w \<Rightarrow> string \<times> string \<times> Mutate \<Rightarrow>
   string list \<times> (string \<times> elementEdit) list \<times> 'w" where
  "edit_element T s edit =
     (case (s, edit) of ((mapSet, reportedEdits, w), (elementKey, elementName, value)) \<Rightarrow>
        let old = tx_Get T w elementKey
        in if mt_Deletion value
           then (removeAll elementName mapSet, AList.update elementName (old, None, Deleted) reportedEdits, tx_Delete T w elementKey)
           else (List.insert elementName mapSet,
                 AList.update elementName (old, Some (file_data (mt_Value value)), if old \<noteq> None then Updated else Created) reportedEdits,
                 tx_Set T w elementKey (file_data (mt_Value value))))"

text \<open>The names of the elements are read from their keys before the transaction.\<close>

fun name_edits :: "(string \<times> Mutate) list \<Rightarrow> fault + (string \<times> string \<times> Mutate) list" where
  "name_edits [] = Inr []"
| "name_edits ((elementKey, value) # edits) =
     res_bind (GetElementName elementKey) (\<lambda>(_, elementName).
     res_bind (name_edits edits) (\<lambda>named. Inr ((elementKey, elementName, value) # named)))"

text \<open>The result is what is reported to the listener of the map, \<open>None\<close> for an error of the map file or of the
  transaction.\<close>

definition MapTransactionFromRemote ::
  "'w tx_ops \<Rightarrow> 'w \<Rightarrow> string \<Rightarrow> (string \<times> Mutate) list \<Rightarrow> fault + (string \<times> elementEdit) list option \<times> 'w" where
  "MapTransactionFromRemote T w mapName edits =
     res_bind (name_edits edits) (\<lambda>named.
     let mapKey = MakeMapKey mapName
     in if tx_Fails T w (map fst edits @ [mapKey]) then Inr (None, w)
        else
          case getMapFile (tx_Get T w mapKey) of
            None \<Rightarrow> Inr (None, w)
          | Some mapSet \<Rightarrow>
              (let (mapSet', reportedEdits, w') = foldl (edit_element T) (mapSet, [], w) named
               in Inr (Some reportedEdits, tx_Set T w' mapKey (map_file mapSet'))))"

section \<open>Collecting\<close>

record collector =
  co_myID :: InstanceID
  co_lastUpdateRead :: "(InstanceID \<times> int) list"
  co_devicePatchTracker :: "(InstanceID \<times> Patch) list"
  co_lastMutationRead :: "(InstanceID \<times> int) list"

text \<open>The loop of \<open>collectAllChanges\<close>: \<open>remote\<close> is what \<open>collectChanges\<close> reads of a device, its patch and the
  time of the file, or an error. An error is reported after the loop.\<close>

fun collect_devices ::
  "(InstanceID \<Rightarrow> (Patch \<times> int) option) \<Rightarrow> collector \<Rightarrow> InstanceID list \<Rightarrow> bool \<times> (InstanceID \<times> int) list \<times> collector" where
  "collect_devices remote c [] = (True, [], c)"
| "collect_devices remote c (d # ds) =
     (let c1 = (if map_of (co_lastUpdateRead c) d = None
                then c\<lparr>co_lastUpdateRead := AList.update d 0 (co_lastUpdateRead c),
                       co_lastMutationRead := AList.update d 0 (co_lastMutationRead c),
                       co_devicePatchTracker := AList.update d (newPatch d) (co_devicePatchTracker c)\<rparr>
                else c)
      in if d = co_myID c1 then collect_devices remote c1 ds
         else
           case remote d of
             None \<Rightarrow>
               (let (ok, newUpdates, c2) = collect_devices remote c1 ds in (False, newUpdates, c2))
           | Some (patch, updateTime) \<Rightarrow>
               (let (ok, newUpdates, c2) =
                      collect_devices remote
                        (c1\<lparr>co_devicePatchTracker := AList.update d patch (co_devicePatchTracker c1)\<rparr>) ds
                in (ok, AList.update d updateTime newUpdates, c2)))"

text \<open>Applying the merged mutations, the keys that are not elements of maps first. The code starts one thread
  for each of them and waits for all.\<close>

definition apply_key :: "'w tx_ops \<Rightarrow> 'w \<Rightarrow> string \<Rightarrow> Mutate \<Rightarrow> fault + 'w" where
  "apply_key T w key m =
     (if mt_Deletion m then Inr (snd (DeleteFromRemote T w key))
      else
        (case SetBytesFromRemote T w key (mt_Value m) of
           (None, w') \<Rightarrow> Inl FatalPanic
         | (Some report, w') \<Rightarrow> Inr w'))"

fun sort_updates ::
  "'w tx_ops \<Rightarrow> 'w \<Rightarrow> (string \<times> (string \<times> Mutate) list) list \<Rightarrow> (string \<times> Mutate) list \<Rightarrow>
   fault + (string \<times> (string \<times> Mutate) list) list \<times> 'w" where
  "sort_updates T w mapUpdates [] = Inr (mapUpdates, w)"
| "sort_updates T w mapUpdates ((key, m) # updates) =
     res_bind (DetectMapElement key) (\<lambda>(isMapElement, mapName, _).
     if isMapElement then
       sort_updates T w
         (AList.update mapName
           (AList.update key m (case map_of mapUpdates mapName of None \<Rightarrow> [] | Some mapObj \<Rightarrow> mapObj)) mapUpdates) updates
     else res_bind (apply_key T w key m) (\<lambda>w'. sort_updates T w' mapUpdates updates))"

fun apply_maps :: "'w tx_ops \<Rightarrow> 'w \<Rightarrow> (string \<times> (string \<times> Mutate) list) list \<Rightarrow> fault + 'w" where
  "apply_maps T w [] = Inr w"
| "apply_maps T w ((mapName, mapUpdate) # mapUpdates) =
     res_bind (MapTransactionFromRemote T w mapName mapUpdate) (\<lambda>(report, w').
     if report = None then Inl FatalPanic else apply_maps T w' mapUpdates)"

fun store_times ::
  "InstanceID \<Rightarrow> (InstanceID \<times> int) list \<Rightarrow> InstanceID list \<Rightarrow> int list \<Rightarrow> fault + (InstanceID \<times> int) list" where
  "store_times myID tms [] lastSeen = Inr tms"
| "store_times myID tms (d # ds) lastSeen =
     (case lastSeen of
        [] \<Rightarrow> Inl IndexOutOfRange
      | t # ts \<Rightarrow> store_times myID (if d = myID then tms else AList.update d t tms) ds ts)"

text \<open>\<open>applyChanges\<close>: \<open>localPatch\<close> is the patch of the transaction log and \<open>now\<close> the time. The times that it
  stores in the key-value store are left to \<open>saveLastMutationTime\<close>.\<close>

definition applyChanges ::
  "'w tx_ops \<Rightarrow> 'w \<Rightarrow> collector \<Rightarrow> Patch \<Rightarrow> int \<Rightarrow> fault + collector \<times> 'w" where
  "applyChanges T w c localPatch now =
     (let c1 = c\<lparr>co_devicePatchTracker := AList.update (co_myID c) localPatch (co_devicePatchTracker c),
                 co_lastMutationRead := AList.update (co_myID c) now (co_lastMutationRead c)\<rparr>;
          (devices, patches, ignoreBefore) = prepareDiff (co_devicePatchTracker c1) (co_lastMutationRead c1)
      in res_bind (Diff localPatch patches ignoreBefore) (\<lambda>(updates, lastSeen).
         res_bind (store_times (co_myID c) (co_lastMutationRead c1) devices lastSeen) (\<lambda>tms.
         res_bind (sort_updates T w [] updates) (\<lambda>(mapUpdates, w1).
         res_bind (apply_maps T w1 mapUpdates) (\<lambda>w2.
         Inr (c1\<lparr>co_lastMutationRead := tms\<rparr>, w2))))))"

text \<open>\<open>collect\<close>: \<open>devices\<close> is what \<open>getDevices\<close> lists, \<open>None\<close> for an error. The result tells whether it
  succeeded; the connection state that it reports is that of \<open>getDevices\<close> and \<open>collectAllChanges\<close>.\<close>

definition collect ::
  "'w tx_ops \<Rightarrow> 'w \<Rightarrow> collector \<Rightarrow> InstanceID list option \<Rightarrow> (InstanceID \<Rightarrow> (Patch \<times> int) option) \<Rightarrow> Patch \<Rightarrow> int \<Rightarrow>
   fault + bool \<times> collector \<times> 'w" where
  "collect T w c devices remote localPatch now =
     (case devices of
        None \<Rightarrow> Inr (False, c, w)
      | Some [] \<Rightarrow> Inr (False, c, w)
      | Some ds \<Rightarrow>
          (let (ok, newUpdates, c1) = collect_devices remote c ds
           in if \<not> ok then Inr (False, c1, w)
              else res_bind (applyChanges T w c1 localPatch now) (\<lambda>(c2, w').
                Inr (True, c2\<lparr>co_lastUpdateRead := foldl (\<lambda>tms (k, v). AList.update k v tms) (co_lastUpdateRead c2) newUpdates\<rparr>, w'))))"

section \<open>Specification\<close>

text \<open>The mutation of a key that a device has published, as far as the tracker knows, and the winning one: the
  newest, and among mutations of the same time that of the device with the smallest identifier.\<close>

definition mutation_of :: "(InstanceID \<times> Patch) list \<Rightarrow> InstanceID \<Rightarrow> string \<Rightarrow> Mutate option" where
  "mutation_of tracker d key = (case map_of tracker d of None \<Rightarrow> None | Some p \<Rightarrow> pa_get p key)"

definition wins :: "(InstanceID \<times> Patch) list \<Rightarrow> string \<Rightarrow> Mutate \<Rightarrow> bool" where
  "wins tracker key m =
     (\<exists>d. mutation_of tracker d key = Some m \<and>
       (\<forall>d' m'. mutation_of tracker d' key = Some m' \<longrightarrow>
          mt_Timestamp m' < mt_Timestamp m \<or> mt_Timestamp m' = mt_Timestamp m \<and> iid_Cmp d d' \<le> 0))"

text \<open>A tracker that holds the patch of each device under its identifier, with times after 1970.\<close>

definition tracker_ok :: "(InstanceID \<times> Patch) list \<Rightarrow> bool" where
  "tracker_ok tracker =
     (distinct (map fst tracker) \<and>
      (\<forall>(d, p) \<in> set tracker. pa_myID p = d \<and> length d = instanceIDLength \<and> distinct (map fst (pa_keys p)) \<and>
         (\<forall>(k, m) \<in> set (pa_keys p). mt_Timestamp m > 0)))"

text \<open>The keys with a mutation of another device that this one has not seen.\<close>

definition news :: "(InstanceID \<times> Patch) list \<Rightarrow> (InstanceID \<times> int) list \<Rightarrow> InstanceID \<Rightarrow> string \<Rightarrow> bool" where
  "news tracker tms myID key =
     (\<exists>d m. d \<noteq> myID \<and> mutation_of tracker d key = Some m \<and> mt_Timestamp m > lookup_time tms d)"

section \<open>Lemmas\<close>

subsection \<open>The order of devices\<close>

text \<open>An identifier is compared as a number.\<close>

fun iid_val :: "InstanceID \<Rightarrow> nat" where
  "iid_val [] = 0"
| "iid_val (a # i) = unat a * 256 ^ length i + iid_val i"

lemma iid_val_bound: "iid_val i < 256 ^ length i"
proof (induction i)
  case (Cons a i)
  have "unat a * 256 ^ length i + iid_val i < unat a * 256 ^ length i + 256 ^ length i" using Cons.IH by simp
  also have "\<dots> = (unat a + 1) * 256 ^ length i" by simp
  also have "\<dots> \<le> 256 * 256 ^ length i" using unsigned_less [of a, where ?'a = nat] by (intro mult_right_mono) simp_all
  finally show ?case by simp
qed simp

lemma iid_val_lex:
  assumes "length i = length j" "unat a < unat b"
  shows "iid_val (a # i) < iid_val (b # j)"
proof -
  have "iid_val (a # i) < (unat a + 1) * 256 ^ length i" using iid_val_bound [of i] by simp
  also have "\<dots> \<le> unat b * 256 ^ length i" using assms(2) by (intro mult_right_mono) simp_all
  finally show ?thesis using assms(1) by simp
qed

lemma iid_Cmp_val:
  "length i = length j \<Longrightarrow> iid_Cmp i j = (if iid_val i > iid_val j then 1 else if iid_val i < iid_val j then - 1 else 0)"
proof (induction i j rule: iid_Cmp.induct)
  case (1 a i b j)
  then have len: "length i = length j" by simp
  consider "a < b" | "a = b" | "b < a" by (rule linorder_cases)
  then show ?case
  proof cases
    case 1
    then have "iid_val (a # i) < iid_val (b # j)" using iid_val_lex [OF len] by (simp add: word_less_nat_alt)
    with 1 show ?thesis by (auto simp: not_less_iff_gr_or_eq simp del: iid_val.simps)
  next
    case 2
    with "1.IH" len show ?thesis by simp
  next
    case 3
    then have "iid_val (b # j) < iid_val (a # i)" using iid_val_lex [OF len [symmetric]] by (simp add: word_less_nat_alt)
    with 3 show ?thesis by (simp del: iid_val.simps)
  qed
qed auto

lemma iid_val_inj: "length i = length j \<Longrightarrow> iid_val i = iid_val j \<Longrightarrow> i = j"
proof (induction i arbitrary: j)
  case (Cons a i)
  then obtain b j' where j: "j = b # j'" "length i = length j'" by (cases j) auto
  have "unat a = unat b"
    using iid_val_lex [OF j(2), of a b] iid_val_lex [OF j(2) [symmetric], of b a] Cons.prems(2) j(1)
    by (metis linorder_neqE_nat less_irrefl)
  then have "a = b" by (simp add: word_unat_eq_iff)
  with Cons j show ?case by simp
qed simp

abbreviation desc :: "InstanceID list \<Rightarrow> bool" where
  "desc ds \<equiv> sorted_wrt (\<lambda>a b. iid_val a > iid_val b) ds"

lemma insert_device_desc:
  assumes "desc ds" "\<forall>x \<in> set ds. length x = length d \<and> x \<noteq> d"
  shows "desc (insert_device d ds) \<and> set (insert_device d ds) = insert d (set ds)"
  using assms
proof (induction ds)
  case (Cons x ds)
  have x: "length d = length x" "iid_val x \<noteq> iid_val d" using Cons.prems(2) iid_val_inj by fastforce+
  show ?case
  proof (cases "iid_val d > iid_val x")
    case True
    then have "insert_device d (x # ds) = d # x # ds" using x(1) by (simp add: iid_Cmp_val)
    with True Cons.prems show ?thesis by auto
  next
    case False
    then have "insert_device d (x # ds) = x # insert_device d ds" using x(1) by (simp add: iid_Cmp_val)
    with False x(2) Cons show ?thesis by auto
  qed
qed simp

lemma sort_devices_desc:
  assumes "distinct ds" "\<forall>d \<in> set ds. length d = n"
  shows "desc (sort_devices ds) \<and> set (sort_devices ds) = set ds"
  using assms
proof (induction ds)
  case (Cons d ds)
  then show ?case using insert_device_desc [of "sort_devices ds" d] by (auto simp: sort_devices_def)
qed (simp add: sort_devices_def)

subsection \<open>Merging\<close>

lemma contend_fold:
  assumes "\<forall>p \<in> set ps. \<forall>m. pa_get p key = Some m \<longrightarrow> mt_Timestamp m > mt_Timestamp d" "\<exists>p \<in> set ps. pa_get p key \<noteq> None"
  shows "\<exists>qs p rs. ps = qs @ p # rs \<and> pa_get p key = Some (foldl (contend key) d ps) \<and>
    (\<forall>q \<in> set qs. \<forall>m. pa_get q key = Some m \<longrightarrow> mt_Timestamp m \<le> mt_Timestamp (foldl (contend key) d ps)) \<and>
    (\<forall>q \<in> set rs. \<forall>m. pa_get q key = Some m \<longrightarrow> mt_Timestamp m < mt_Timestamp (foldl (contend key) d ps))"
  using assms
proof (induction ps rule: rev_induct)
  case (snoc x ps)
  let ?r = "foldl (contend key) d ps"
  show ?case
  proof (cases "pa_get x key")
    case None
    then have "\<exists>p \<in> set ps. pa_get p key \<noteq> None" using snoc.prems(2) by auto
    then obtain qs p rs where ih: "ps = qs @ p # rs" "pa_get p key = Some ?r"
      "\<forall>q \<in> set qs. \<forall>m. pa_get q key = Some m \<longrightarrow> mt_Timestamp m \<le> mt_Timestamp ?r"
      "\<forall>q \<in> set rs. \<forall>m. pa_get q key = Some m \<longrightarrow> mt_Timestamp m < mt_Timestamp ?r"
      using snoc by auto
    have "foldl (contend key) d (ps @ [x]) = ?r" using None by (simp add: contend_def)
    with ih None show ?thesis by (intro exI [of _ qs] exI [of _ p] exI [of _ "rs @ [x]"]) auto
  next
    case (Some c)
    show ?thesis
    proof (cases "\<exists>p \<in> set ps. pa_get p key \<noteq> None")
      case True
      then obtain qs p rs where ih: "ps = qs @ p # rs" "pa_get p key = Some ?r"
        "\<forall>q \<in> set qs. \<forall>m. pa_get q key = Some m \<longrightarrow> mt_Timestamp m \<le> mt_Timestamp ?r"
        "\<forall>q \<in> set rs. \<forall>m. pa_get q key = Some m \<longrightarrow> mt_Timestamp m < mt_Timestamp ?r"
        using snoc by auto
      have le: "mt_Timestamp m \<le> mt_Timestamp ?r" if "q \<in> set ps" "pa_get q key = Some m" for q m
        using that ih by (auto intro: less_imp_le)
      show ?thesis
      proof (cases "mt_Timestamp ?r > mt_Timestamp c")
        case True
        then have "foldl (contend key) d (ps @ [x]) = ?r" using Some by (simp add: contend_def)
        with ih Some True show ?thesis by (intro exI [of _ qs] exI [of _ p] exI [of _ "rs @ [x]"]) auto
      next
        case False
        then have "foldl (contend key) d (ps @ [x]) = c" using Some by (simp add: contend_def)
        with le Some False show ?thesis by (intro exI [of _ ps] exI [of _ x] exI [of _ "[]"]) fastforce
      qed
    next
      case False
      have "foldl (contend key) d ps = d" using False by (induction ps rule: rev_induct) (auto simp: contend_def)
      then have "foldl (contend key) d (ps @ [x]) = c" using Some snoc.prems(1) by (auto simp: contend_def)
      with False Some show ?thesis by (intro exI [of _ ps] exI [of _ x] exI [of _ "[]"]) auto
    qed
  qed
qed simp

definition newest :: "int \<Rightarrow> Patch \<Rightarrow> int" where
  "newest lst p = foldl max lst (map (mt_Timestamp \<circ> snd) (pa_keys p))"

lemma foldl_max_ge: "(lst :: int) \<le> foldl max lst ts \<and> (\<forall>t \<in> set ts. t \<le> foldl max lst ts)"
  by (induction ts rule: rev_induct) (auto simp: le_max_iff_disj)

lemma scan_patch_eq:
  "scan_patch lst es keys =
     (foldl (\<lambda>ks (k, m). if mt_Timestamp m > lst then List.insert k ks else ks) keys es,
      foldl max lst (map (mt_Timestamp \<circ> snd) es))"
proof (induction es rule: rev_induct)
  case (snoc e es)
  obtain k m where e: "e = (k, m)" by force
  have "lst \<le> foldl max lst (map (mt_Timestamp \<circ> snd) es)" using foldl_max_ge by blast
  with snoc.IH e show ?case by (auto simp: scan_patch_def comp_def)
qed (simp add: scan_patch_def)

lemma scan_keys_set:
  "set (foldl (\<lambda>ks (k, m). if mt_Timestamp m > lst then List.insert k ks else ks) keys es) =
     set keys \<union> {k. \<exists>m. (k, m) \<in> set es \<and> mt_Timestamp m > lst}"
  by (induction es rule: rev_induct) auto

lemma scan_keys_distinct:
  "distinct keys \<Longrightarrow> distinct (foldl (\<lambda>ks (k, m). if mt_Timestamp m > lst then List.insert k ks else ks) keys es)"
  by (induction es rule: rev_induct) auto

text \<open>For patches and times that are listed by device, the search is a function of each device.\<close>

lemma find_updates_spec:
  assumes "\<forall>d \<in> set ds. pa_myID (P d) = d" "distinct keys"
  shows "\<exists>ks. find_updates myID (map P ds) (pre @ map L ds) (length pre) keys =
      Inr (ks, map (\<lambda>d. if d = myID then zeroTimeNano else newest (L d) (P d)) ds) \<and> distinct ks \<and>
    set ks = set keys \<union> {k. \<exists>d m. d \<in> set ds \<and> d \<noteq> myID \<and> (k, m) \<in> set (pa_keys (P d)) \<and> mt_Timestamp m > L d}"
  using assms
proof (induction ds arbitrary: pre keys)
  case (Cons d ds)
  have id: "pa_myID (P d) = d" "\<forall>d \<in> set ds. pa_myID (P d) = d" using Cons.prems(1) by auto
  have pre: "pre @ map L (d # ds) = (pre @ [L d]) @ map L ds" "Suc (length pre) = length (pre @ [L d])" by simp_all
  note ih = Cons.IH [of _ "pre @ [L d]", OF id(2), folded pre]
  show ?case
  proof (cases "d = myID")
    case True
    obtain ks where "find_updates myID (map P ds) (pre @ map L (d # ds)) (Suc (length pre)) keys =
        Inr (ks, map (\<lambda>d. if d = myID then zeroTimeNano else newest (L d) (P d)) ds)" "distinct ks"
      "set ks = set keys \<union> {k. \<exists>d m. d \<in> set ds \<and> d \<noteq> myID \<and> (k, m) \<in> set (pa_keys (P d)) \<and> mt_Timestamp m > L d}"
      using ih [OF Cons.prems(2)] by blast
    with True id(1) show ?thesis by auto
  next
    case False
    let ?keys = "foldl (\<lambda>ks (k, m). if mt_Timestamp m > L d then List.insert k ks else ks) keys (pa_keys (P d))"
    obtain ks where "find_updates myID (map P ds) (pre @ map L (d # ds)) (Suc (length pre)) ?keys =
        Inr (ks, map (\<lambda>d. if d = myID then zeroTimeNano else newest (L d) (P d)) ds)" "distinct ks"
      "set ks = set ?keys \<union> {k. \<exists>d m. d \<in> set ds \<and> d \<noteq> myID \<and> (k, m) \<in> set (pa_keys (P d)) \<and> mt_Timestamp m > L d}"
      using ih [OF scan_keys_distinct [OF Cons.prems(2)]] by blast
    moreover have "index (pre @ map L (d # ds)) (length pre) = Inr (L d)" by (simp add: index_def)
    ultimately show ?thesis using False id(1) by (auto simp: scan_patch_eq newest_def scan_keys_set)
  qed
qed simp


subsection \<open>Trackers\<close>

lemma tracker_okD:
  assumes "tracker_ok tracker" "(d, p) \<in> set tracker"
  shows "map_of tracker d = Some p" "pa_myID p = d" "length d = instanceIDLength" "distinct (map fst (pa_keys p))"
    "(k, m) \<in> set (pa_keys p) \<Longrightarrow> mt_Timestamp m > 0"
  using assms by (auto simp: tracker_ok_def)

lemma tracker_sort:
  assumes "tracker_ok tracker"
  shows "desc (sort_devices (map fst tracker))" "set (sort_devices (map fst tracker)) = dom (map_of tracker)"
proof -
  have "distinct (map fst tracker)" "\<forall>d \<in> set (map fst tracker). length d = instanceIDLength"
    using assms by (auto simp: tracker_ok_def)
  from sort_devices_desc [OF this] show "desc (sort_devices (map fst tracker))" "set (sort_devices (map fst tracker)) = dom (map_of tracker)"
    by (simp_all add: dom_map_of_conv_image_fst)
qed

lemma lookup_patch_in:
  assumes "tracker_ok tracker" "d \<in> dom (map_of tracker)"
  shows "(d, lookup_patch tracker d) \<in> set tracker" "pa_get (lookup_patch tracker d) key = mutation_of tracker d key"
  using assms by (auto simp: lookup_patch_def mutation_of_def dest: map_of_SomeD)

lemma mutation_of_iff:
  assumes "tracker_ok tracker"
  shows "mutation_of tracker d key = Some m \<longleftrightarrow>
    d \<in> dom (map_of tracker) \<and> (key, m) \<in> set (pa_keys (lookup_patch tracker d))"
proof (cases "map_of tracker d")
  case (Some p)
  then have "distinct (map fst (pa_keys p))" using assms tracker_okD(4) map_of_SomeD by metis
  with Some show ?thesis by (auto simp: mutation_of_def pa_get_def lookup_patch_def)
qed (auto simp: mutation_of_def)

lemma mutation_of_pos: "tracker_ok tracker \<Longrightarrow> mutation_of tracker d key = Some m \<Longrightarrow> mt_Timestamp m > 0"
  by (meson lookup_patch_in(1) mutation_of_iff tracker_okD(5))

lemma news_iff:
  assumes "tracker_ok tracker"
  shows "news tracker tms myID key \<longleftrightarrow>
    (\<exists>d m. d \<in> dom (map_of tracker) \<and> d \<noteq> myID \<and> (key, m) \<in> set (pa_keys (lookup_patch tracker d)) \<and>
      mt_Timestamp m > lookup_time tms d)"
  unfolding news_def mutation_of_iff [OF assms] by blast

lemma merge_wins:
  assumes ok: "tracker_ok tracker" and ex: "mutation_of tracker d0 key \<noteq> None"
  shows "wins tracker key (foldl (contend key) \<lparr>mt_Timestamp = 0, mt_Value = None, mt_Deletion = False\<rparr>
    (map (lookup_patch tracker) (sort_devices (map fst tracker))))" (is "wins tracker key ?w")
proof -
  let ?ds = "sort_devices (map fst tracker)" and ?P = "lookup_patch tracker"
  note dom = tracker_sort(2) [OF ok]
  have get: "pa_get (?P d) key = mutation_of tracker d key" if "d \<in> set ?ds" for d
    using lookup_patch_in(2) [OF ok] that dom by simp
  have "\<forall>p \<in> set (map ?P ?ds). \<forall>m. pa_get p key = Some m \<longrightarrow>
    mt_Timestamp m > mt_Timestamp (\<lparr>mt_Timestamp = 0, mt_Value = None, mt_Deletion = False\<rparr> :: Mutate)"
    using get mutation_of_pos [OF ok] by auto
  moreover have "\<exists>p \<in> set (map ?P ?ds). pa_get p key \<noteq> None"
    using ex get dom mutation_of_iff [OF ok] by fastforce
  ultimately obtain qs p rs where w: "map ?P ?ds = qs @ p # rs" "pa_get p key = Some ?w"
    "\<forall>q \<in> set qs. \<forall>m. pa_get q key = Some m \<longrightarrow> mt_Timestamp m \<le> mt_Timestamp ?w"
    "\<forall>q \<in> set rs. \<forall>m. pa_get q key = Some m \<longrightarrow> mt_Timestamp m < mt_Timestamp ?w"
    using contend_fold by blast
  from w(1) obtain ds1 d ds2 where d: "?ds = ds1 @ d # ds2" "qs = map ?P ds1" "p = ?P d" "rs = map ?P ds2"
    by (auto simp: map_eq_append_conv map_eq_Cons_conv)
  have "mutation_of tracker d key = Some ?w" using w(2) d get [of d] by simp
  moreover have "mt_Timestamp m' < mt_Timestamp ?w \<or> mt_Timestamp m' = mt_Timestamp ?w \<and> iid_Cmp d d' \<le> 0"
    if m': "mutation_of tracker d' key = Some m'" for d' m'
  proof -
    have d': "d' \<in> set ?ds" using m' mutation_of_iff [OF ok] dom by blast
    with get m' have g: "pa_get (?P d') key = Some m'" by simp
    have len: "length d' = length d" if "d' \<in> set ?ds"
      using d(1) that dom tracker_okD(3) [OF ok lookup_patch_in(1) [OF ok]] by (metis in_set_conv_decomp)
    from d' consider "d' \<in> set ds1" | "d' = d" | "d' \<in> set ds2" using d(1) by auto
    then show ?thesis
    proof cases
      case 1
      then have "iid_val d < iid_val d'" using tracker_sort(1) [OF ok] d(1) by (simp add: sorted_wrt_append)
      then have "iid_Cmp d d' \<le> 0" using len [OF d'] by (simp add: iid_Cmp_val)
      moreover have "mt_Timestamp m' \<le> mt_Timestamp ?w" using 1 w(3) d(2) g by simp
      ultimately show ?thesis by linarith
    next
      case 2
      with w(2) d(3) g show ?thesis by (simp add: iid_Cmp_val)
    next
      case 3
      with w(4) d(4) g show ?thesis by simp
    qed
  qed
  ultimately show ?thesis unfolding wins_def by blast
qed

lemma wins_unique:
  assumes "tracker_ok tracker" "wins tracker key m" "wins tracker key m'"
  shows "m = m'"
proof -
  obtain d d' where d: "mutation_of tracker d key = Some m" "mutation_of tracker d' key = Some m'"
    "mt_Timestamp m' < mt_Timestamp m \<or> mt_Timestamp m' = mt_Timestamp m \<and> iid_Cmp d d' \<le> 0"
    "mt_Timestamp m < mt_Timestamp m' \<or> mt_Timestamp m = mt_Timestamp m' \<and> iid_Cmp d' d \<le> 0"
    using assms(2,3) unfolding wins_def by blast
  have "length d = length d'"
    using d(1,2) mutation_of_iff [OF assms(1)] lookup_patch_in(1) [OF assms(1)] tracker_okD(3) [OF assms(1)] by metis
  with d(3,4) have "d = d'" using iid_val_inj by (auto simp: iid_Cmp_val split: if_splits)
  with d show ?thesis by simp
qed

lemma Diff_merges:
  assumes "tracker_ok tracker" "prepareDiff tracker tms = (devices, patches, ignoreBefore)"
  shows "\<exists>updates. Diff p patches ignoreBefore =
      Inr (updates, map (\<lambda>d. if d = pa_myID p then zeroTimeNano else newest (lookup_time tms d) (lookup_patch tracker d)) devices) \<and>
    distinct (map fst updates) \<and> (\<forall>key. key \<in> fst ` set updates \<longleftrightarrow> news tracker tms (pa_myID p) key) \<and>
    (\<forall>(key, m) \<in> set updates. wins tracker key m)"
proof -
  let ?ds = "sort_devices (map fst tracker)" and ?P = "lookup_patch tracker"
  have eq: "devices = ?ds" "patches = map ?P ?ds" "ignoreBefore = map (lookup_time tms) ?ds"
    using assms(2) by (auto simp: prepareDiff_def Let_def)
  have id: "\<forall>d \<in> set ?ds. pa_myID (?P d) = d"
    using tracker_sort(2) [OF assms(1)] lookup_patch_in(1) [OF assms(1)] tracker_okD(2) [OF assms(1)] by blast
  obtain ks where ks: "find_updates (pa_myID p) patches ignoreBefore 0 [] =
      Inr (ks, map (\<lambda>d. if d = pa_myID p then zeroTimeNano else newest (lookup_time tms d) (?P d)) devices)" "distinct ks"
    "set ks = {k. \<exists>d m. d \<in> set ?ds \<and> d \<noteq> pa_myID p \<and> (k, m) \<in> set (pa_keys (?P d)) \<and> mt_Timestamp m > lookup_time tms d}"
    using find_updates_spec [OF id, of "[]" "pa_myID p" "[]" "lookup_time tms"] eq by auto
  have ks': "key \<in> set ks \<longleftrightarrow> news tracker tms (pa_myID p) key" for key
    unfolding ks(3) news_iff [OF assms(1)] tracker_sort(2) [OF assms(1)] by simp
  then have "wins tracker key m" if "(key, m) \<in> set (buildMerge patches ks)" for key m
    using that merge_wins [OF assms(1)] eq(2) by (auto simp: buildMerge_def news_def)
  moreover have "map fst (buildMerge patches ks) = ks" by (simp add: buildMerge_def comp_def)
  moreover from this have "fst ` set (buildMerge patches ks) = set ks" by (metis list.set_map)
  ultimately show ?thesis using ks ks' by (auto simp: Diff_def findKeysWithUpdates_def)
qed

subsection \<open>Applying the merged mutations\<close>

text \<open>What a key holds after a mutation.\<close>

definition content :: "Mutate \<Rightarrow> stored option" where
  "content m = (if mt_Deletion m then None else Some (file_data (mt_Value m)))"

text \<open>A key that devices mutate: one that is not reserved for maps, or that of a map element.\<close>

definition syncable :: "string \<Rightarrow> bool" where
  "syncable key = (case DetectMap key of Inr (t, _, _) \<Rightarrow> t \<noteq> KeyTypeMapFile | Inl _ \<Rightarrow> False)"

definition map_file_key :: "string \<Rightarrow> bool" where
  "map_file_key key = has_suffix key MapKeysListSuffix"

definition maps_readable :: "'w tx_ops \<Rightarrow> 'w \<Rightarrow> bool" where
  "maps_readable T w = (\<forall>mapName. getMapFile (tx_Get T w (MakeMapKey mapName)) \<noteq> None)"

lemma syncable_cases:
  assumes "syncable key"
  obtains "DetectMapElement key = Inr (False, '''', '''')" "\<not> map_file_key key"
  | mapName elementName where "DetectMapElement key = Inr (True, mapName, elementName)"
    "GetElementName key = Inr (mapName, elementName)" "\<not> map_file_key key"
proof (cases "has_suffix key MapElementKeySuffix")
  case False
  moreover have "\<not> map_file_key key" using assms by (cases "GetMapName key") (auto simp: syncable_def DetectMap_def map_file_key_def)
  ultimately show ?thesis using that(1) by (simp add: DetectMapElement_def)
next
  case True
  moreover have "\<not> map_file_key key" using assms by (cases "GetMapName key") (auto simp: syncable_def DetectMap_def map_file_key_def)
  moreover from this True assms obtain mapName elementName where "GetElementName key = Inr (mapName, elementName)"
    by (cases "GetElementName key") (auto simp: syncable_def DetectMap_def map_file_key_def)
  ultimately show ?thesis using that(2) by (simp add: DetectMapElement_def)
qed

lemma MakeMapKey_map_file: "map_file_key (MakeMapKey mapName)"
  unfolding map_file_key_def MakeMapKey_def by (rule has_suffix_append)

lemma MakeMapKey_inj: "MakeMapKey a = MakeMapKey b \<longleftrightarrow> a = b"
  by (simp add: MakeMapKey_def)

lemma getMapFile_map_file: "getMapFile (Some (map_file names)) = Some names"
  by (simp add: getMapFile_def map_file_def comp_def)

definition edits_of :: "(string \<times> (string \<times> Mutate) list) list \<Rightarrow> string \<Rightarrow> string \<Rightarrow> Mutate option" where
  "edits_of mapUpdates mapName key = (case map_of mapUpdates mapName of None \<Rightarrow> None | Some edits \<Rightarrow> map_of edits key)"

definition edits_ok :: "(string \<times> (string \<times> Mutate) list) list \<Rightarrow> bool" where
  "edits_ok mapUpdates =
     (distinct (map fst mapUpdates) \<and>
      (\<forall>(mapName, edits) \<in> set mapUpdates. distinct (map fst edits) \<and>
        (\<forall>key \<in> fst ` set edits. syncable key \<and> (\<exists>e. GetElementName key = Inr (mapName, e)))))"

lemma edits_ok_add:
  assumes "edits_ok mus" "syncable key" "GetElementName key = Inr (mapName, e)"
  shows "edits_ok (AList.update mapName (AList.update key m (case map_of mus mapName of None \<Rightarrow> [] | Some o1 \<Rightarrow> o1)) mus)"
proof -
  let ?o = "case map_of mus mapName of None \<Rightarrow> [] | Some o1 \<Rightarrow> o1"
  have o: "distinct (map fst ?o)" "\<forall>k \<in> fst ` set ?o. syncable k \<and> (\<exists>e. GetElementName k = Inr (mapName, e))"
    using assms(1) by (auto simp: edits_ok_def split: option.splits dest!: map_of_SomeD) fastforce+
  let ?o' = "AList.update key m ?o" and ?mus = "AList.update mapName (AList.update key m ?o) mus"
  have dist: "distinct (map fst ?mus)" using assms(1) by (simp add: edits_ok_def distinct_update)
  have "distinct (map fst edits) \<and> (\<forall>k \<in> fst ` set edits. syncable k \<and> (\<exists>e. GetElementName k = Inr (n, e)))"
    if "(n, edits) \<in> set ?mus" for n edits
  proof -
    have "map_of ?mus n = Some edits" using that dist by simp
    then consider "n = mapName" "edits = ?o'" | "(n, edits) \<in> set mus"
      by (auto simp: update_conv' split: if_splits dest: map_of_SomeD)
    then show ?thesis
    proof cases
      case 1
      with o assms(2,3) show ?thesis by (auto simp: distinct_update dom_update)
    next
      case 2
      with assms(1) show ?thesis by (auto simp: edits_ok_def)
    qed
  qed
  with dist show ?thesis unfolding edits_ok_def by blast
qed

text \<open>What the collector relies on of the transactions of the store: a key reads as what was last set or deleted.\<close>

locale tx_store =
  fixes T :: "'w tx_ops"
  assumes get_set: "tx_Get T (tx_Set T w k v) k' = (if k' = k then Some v else tx_Get T w k')"
    and get_delete: "tx_Get T (tx_Delete T w k) k' = (if k' = k then None else tx_Get T w k')"
begin

lemma edit_elements_spec:
  assumes "\<forall>key \<in> fst ` set edits. \<exists>e. GetElementName key = Inr (mapName, e)" "distinct (map fst edits)"
  shows "\<exists>named. name_edits edits = Inr named \<and> (\<forall>names reports w. \<exists>names' reports' w'.
    foldl (edit_element T) (names, reports, w) named = (names', reports', w') \<and>
    (\<forall>k. tx_Get T w' k = (case map_of edits k of None \<Rightarrow> tx_Get T w k | Some m \<Rightarrow> content m)))"
  using assms
proof (induction edits)
  case (Cons x edits)
  obtain key m where x: "x = (key, m)" by force
  obtain e where e: "GetElementName key = Inr (mapName, e)" using Cons.prems(1) x by auto
  obtain named where named: "name_edits edits = Inr named"
    "\<And>names reports w. \<exists>names' reports' w'. foldl (edit_element T) (names, reports, w) named = (names', reports', w') \<and>
      (\<forall>k. tx_Get T w' k = (case map_of edits k of None \<Rightarrow> tx_Get T w k | Some m \<Rightarrow> content m))"
    using Cons by auto
  have nk: "map_of edits key = None" using Cons.prems(2) x by (simp add: map_of_eq_None_iff)
  have "\<exists>names' reports' w'. foldl (edit_element T) (names, reports, w) ((key, e, m) # named) = (names', reports', w') \<and>
      (\<forall>k. tx_Get T w' k = (case map_of (x # edits) k of None \<Rightarrow> tx_Get T w k | Some m \<Rightarrow> content m))" for names reports w
  proof -
    obtain ns rs w1 where s: "edit_element T (names, reports, w) (key, e, m) = (ns, rs, w1)" using prod_cases3 by blast
    have "tx_Get T w1 k = (if k = key then content m else tx_Get T w k)" for k
      using s by (auto simp: edit_element_def content_def get_set get_delete Let_def split: if_splits)
    with named(2) [of ns rs w1] nk x s show ?thesis by (fastforce split: option.splits)
  qed
  with named(1) x e show ?case by simp
qed simp

lemma MapTransaction_spec:
  assumes ok: "edits_ok ((mapName, edits) # rest)" and healthy: "\<forall>w ks. \<not> tx_Fails T w ks" and maps: "maps_readable T w"
  shows "\<exists>report w'. MapTransactionFromRemote T w mapName edits = Inr (Some report, w') \<and> maps_readable T w' \<and>
    (\<forall>k. \<not> map_file_key k \<longrightarrow> tx_Get T w' k = (case map_of edits k of None \<Rightarrow> tx_Get T w k | Some m \<Rightarrow> content m))"
proof -
  obtain names where names: "getMapFile (tx_Get T w (MakeMapKey mapName)) = Some names"
    using maps by (auto simp: maps_readable_def)
  have "\<forall>key \<in> fst ` set edits. \<exists>e. GetElementName key = Inr (mapName, e)" "distinct (map fst edits)"
    using ok by (simp_all add: edits_ok_def)
  then obtain named names' reports w1 where w1: "name_edits edits = Inr named" "foldl (edit_element T) (names, [], w) named = (names', reports, w1)"
    "\<forall>k. tx_Get T w1 k = (case map_of edits k of None \<Rightarrow> tx_Get T w k | Some m \<Rightarrow> content m)"
    using edit_elements_spec [of edits mapName] by blast
  have nk: "map_of edits (MakeMapKey a) = None" for a
  proof -
    have "\<forall>k \<in> fst ` set edits. \<not> map_file_key k" using ok by (auto simp: edits_ok_def elim!: syncable_cases)
    then show ?thesis using MakeMapKey_map_file by (metis map_of_eq_None_iff)
  qed
  let ?w = "tx_Set T w1 (MakeMapKey mapName) (map_file names')"
  have "maps_readable T ?w"
    using maps nk w1(3) by (auto simp: maps_readable_def get_set getMapFile_map_file)
  moreover have "tx_Get T ?w k = (case map_of edits k of None \<Rightarrow> tx_Get T w k | Some m \<Rightarrow> content m)" if "\<not> map_file_key k" for k
    using that w1(3) MakeMapKey_map_file by (auto simp: get_set)
  ultimately show ?thesis using healthy names w1(1,2) by (auto simp: MapTransactionFromRemote_def Let_def)
qed

lemma apply_maps_spec:
  assumes "edits_ok mus" "\<forall>w ks. \<not> tx_Fails T w ks" "maps_readable T w"
  shows "\<exists>w'. apply_maps T w mus = Inr w' \<and> maps_readable T w' \<and>
    (\<forall>k. \<not> map_file_key k \<longrightarrow>
      tx_Get T w' k = (case GetElementName k of
          Inr (mapName, _) \<Rightarrow> (case edits_of mus mapName k of None \<Rightarrow> tx_Get T w k | Some m \<Rightarrow> content m)
        | Inl _ \<Rightarrow> tx_Get T w k))"
  using assms
proof (induction mus arbitrary: w)
  case Nil
  then show ?case by (auto simp: edits_of_def split: sum.split)
next
  case (Cons x mus)
  obtain n edits where x: "x = (n, edits)" by force
  obtain report w1 where w1: "MapTransactionFromRemote T w n edits = Inr (Some report, w1)" "maps_readable T w1"
    "\<And>k. \<not> map_file_key k \<Longrightarrow> tx_Get T w1 k = (case map_of edits k of None \<Rightarrow> tx_Get T w k | Some m \<Rightarrow> content m)"
    using MapTransaction_spec [of n edits mus w] Cons.prems x by blast
  have "edits_ok mus" using Cons.prems(1) by (simp add: edits_ok_def)
  then obtain w' where w': "apply_maps T w1 mus = Inr w'" "maps_readable T w'"
    "\<And>k. \<not> map_file_key k \<Longrightarrow>
      tx_Get T w' k = (case GetElementName k of
          Inr (mapName, _) \<Rightarrow> (case edits_of mus mapName k of None \<Rightarrow> tx_Get T w1 k | Some m \<Rightarrow> content m)
        | Inl _ \<Rightarrow> tx_Get T w1 k)"
    using Cons.IH Cons.prems(2) w1(2) by blast
  have n: "map_of mus n = None" using Cons.prems(1) x by (auto simp: edits_ok_def map_of_eq_None_iff)
  have other: "map_of edits k = None" if "\<nexists>e. GetElementName k = Inr (n, e)" for k
    using Cons.prems(1) x that by (auto simp: edits_ok_def map_of_eq_None_iff)
  have "tx_Get T w' k = (case GetElementName k of
          Inr (mapName, _) \<Rightarrow> (case edits_of (x # mus) mapName k of None \<Rightarrow> tx_Get T w k | Some m \<Rightarrow> content m)
        | Inl _ \<Rightarrow> tx_Get T w k)" if k: "\<not> map_file_key k" for k
    using w'(3) [OF k] w1(3) [OF k] other [of k] n x by (auto simp: edits_of_def split: sum.splits option.splits)
  with w' w1 x show ?case by auto
qed

lemma sort_updates_spec:
  assumes "distinct (map fst updates)" "\<forall>key \<in> fst ` set updates. syncable key" "edits_ok mus" "\<forall>w ks. \<not> tx_Fails T w ks"
    "maps_readable T w"
  shows "\<exists>mus' w'. sort_updates T w mus updates = Inr (mus', w') \<and> edits_ok mus' \<and> maps_readable T w' \<and>
    (\<forall>k. tx_Get T w' k = (case map_of updates k of
        Some m \<Rightarrow> if has_suffix k MapElementKeySuffix then tx_Get T w k else content m | None \<Rightarrow> tx_Get T w k)) \<and>
    (\<forall>k n e. GetElementName k = Inr (n, e) \<longrightarrow>
      edits_of mus' n k = (case map_of updates k of
        Some m \<Rightarrow> if has_suffix k MapElementKeySuffix then Some m else edits_of mus n k | None \<Rightarrow> edits_of mus n k))"
  using assms
proof (induction updates arbitrary: w mus)
  case (Cons x updates)
  obtain key m where x: "x = (key, m)" by force
  have nk: "map_of updates key = None" using Cons.prems(1) x by (simp add: map_of_eq_None_iff)
  have "syncable key" using Cons.prems(2) x by simp
  then show ?case
  proof (cases rule: syncable_cases)
    case 1
    have suf: "\<not> has_suffix key MapElementKeySuffix"
      using 1(1) by (cases "GetElementName key") (auto simp: DetectMapElement_def split: if_splits)
    obtain w1 where w1: "apply_key T w key m = Inr w1" "\<And>k. tx_Get T w1 k = (if k = key then content m else tx_Get T w k)"
      using Cons.prems(4)
      by (cases "mt_Deletion m") (auto simp: apply_key_def DeleteFromRemote_def SetBytesFromRemote_def Let_def content_def get_set get_delete)
    have "maps_readable T w1"
      using Cons.prems(5) 1(2) w1(2) MakeMapKey_map_file by (auto simp: maps_readable_def)
    then obtain mus' w' where ih: "sort_updates T w1 mus updates = Inr (mus', w')" "edits_ok mus'" "maps_readable T w'"
      "\<forall>k. tx_Get T w' k = (case map_of updates k of
          Some m \<Rightarrow> if has_suffix k MapElementKeySuffix then tx_Get T w1 k else content m | None \<Rightarrow> tx_Get T w1 k)"
      "\<forall>k n e. GetElementName k = Inr (n, e) \<longrightarrow>
        edits_of mus' n k = (case map_of updates k of
          Some m \<Rightarrow> if has_suffix k MapElementKeySuffix then Some m else edits_of mus n k | None \<Rightarrow> edits_of mus n k)"
      using Cons.IH [of mus w1] Cons.prems by auto
    with x 1 w1 suf nk show ?thesis by (auto split: option.splits)
  next
    case (2 n e)
    have suf: "has_suffix key MapElementKeySuffix" using 2(1) by (simp add: DetectMapElement_def split: if_splits)
    let ?mus = "AList.update n (AList.update key m (case map_of mus n of None \<Rightarrow> [] | Some o1 \<Rightarrow> o1)) mus"
    have ok: "edits_ok ?mus" using edits_ok_add [OF Cons.prems(3) \<open>syncable key\<close> 2(2)] .
    obtain mus' w' where ih: "sort_updates T w ?mus updates = Inr (mus', w')" "edits_ok mus'" "maps_readable T w'"
      "\<forall>k. tx_Get T w' k = (case map_of updates k of
          Some m \<Rightarrow> if has_suffix k MapElementKeySuffix then tx_Get T w k else content m | None \<Rightarrow> tx_Get T w k)"
      "\<forall>k n e. GetElementName k = Inr (n, e) \<longrightarrow>
        edits_of mus' n k = (case map_of updates k of
          Some m \<Rightarrow> if has_suffix k MapElementKeySuffix then Some m else edits_of ?mus n k | None \<Rightarrow> edits_of ?mus n k)"
      using Cons.IH [OF _ _ ok Cons.prems(4,5)] Cons.prems(1,2) by auto
    have "edits_of ?mus n' k = (if n' = n \<and> k = key then Some m else edits_of mus n' k)" for n' k
      by (auto simp: edits_of_def update_conv' split: option.splits)
    with ih x 2 suf nk show ?thesis by (auto split: option.splits)
  qed
qed simp

end

context tx_store
begin

lemma applyChanges_store:
  assumes "distinct (map fst updates)" "\<forall>key \<in> fst ` set updates. syncable key" "\<forall>w ks. \<not> tx_Fails T w ks" "maps_readable T w"
  shows "\<exists>mus w1 w2. sort_updates T w [] updates = Inr (mus, w1) \<and> apply_maps T w1 mus = Inr w2 \<and> maps_readable T w2 \<and>
    (\<forall>k. \<not> map_file_key k \<longrightarrow> tx_Get T w2 k = (case map_of updates k of Some m \<Rightarrow> content m | None \<Rightarrow> tx_Get T w k))"
proof -
  have "edits_ok []" by (simp add: edits_ok_def)
  then obtain mus w1 where s: "sort_updates T w [] updates = Inr (mus, w1)" "edits_ok mus" "maps_readable T w1"
    "\<And>k. tx_Get T w1 k = (case map_of updates k of
        Some m \<Rightarrow> if has_suffix k MapElementKeySuffix then tx_Get T w k else content m | None \<Rightarrow> tx_Get T w k)"
    "\<And>k n e. GetElementName k = Inr (n, e) \<Longrightarrow>
      edits_of mus n k = (case map_of updates k of
        Some m \<Rightarrow> if has_suffix k MapElementKeySuffix then Some m else edits_of [] n k | None \<Rightarrow> edits_of [] n k)"
    using sort_updates_spec [OF assms(1,2) _ assms(3,4)] by blast
  obtain w2 where a: "apply_maps T w1 mus = Inr w2" "maps_readable T w2"
    "\<And>k. \<not> map_file_key k \<Longrightarrow>
      tx_Get T w2 k = (case GetElementName k of
          Inr (mapName, _) \<Rightarrow> (case edits_of mus mapName k of None \<Rightarrow> tx_Get T w1 k | Some m \<Rightarrow> content m)
        | Inl _ \<Rightarrow> tx_Get T w1 k)"
    using apply_maps_spec [OF s(2) assms(3) s(3)] by blast
  have "tx_Get T w2 k = (case map_of updates k of Some m \<Rightarrow> content m | None \<Rightarrow> tx_Get T w k)" if k: "\<not> map_file_key k" for k
  proof (cases "GetElementName k")
    case (Inl f)
    have "\<not> has_suffix k MapElementKeySuffix" if "map_of updates k \<noteq> None"
    proof -
      have "syncable k" using that assms(2) by (auto simp: map_of_eq_None_iff)
      then show ?thesis using Inl k by (auto simp: syncable_def DetectMap_def map_file_key_def split: if_splits)
    qed
    then show ?thesis using a(3) [OF k] s(4) [of k] Inl by (auto split: option.splits)
  next
    case (Inr p)
    obtain n e where "p = (n, e)" by force
    with Inr have g: "GetElementName k = Inr (n, e)" by simp
    show ?thesis using a(3) [OF k] s(4) [of k] s(5) [OF g] g by (auto simp: edits_of_def split: option.splits)
  qed
  with s a show ?thesis by blast
qed

end

lemma store_times_spec:
  "\<exists>tms'. store_times myID tms ds (map f ds) = Inr tms' \<and>
    (\<forall>d. map_of tms' d = (if d \<in> set ds \<and> d \<noteq> myID then Some (f d) else map_of tms d))"
proof (induction ds arbitrary: tms)
  case (Cons d ds)
  obtain tms' where "store_times myID (if d = myID then tms else AList.update d (f d) tms) ds (map f ds) = Inr tms'"
    "\<forall>x. map_of tms' x = (if x \<in> set ds \<and> x \<noteq> myID then Some (f x)
      else map_of (if d = myID then tms else AList.update d (f d) tms) x)"
    using Cons.IH by blast
  then show ?case by (auto simp: update_conv')
qed simp

lemma newest_ge: "tracker_ok tracker \<Longrightarrow> mutation_of tracker d key = Some m \<Longrightarrow> mt_Timestamp m \<le> newest lst (lookup_patch tracker d)"
  using foldl_max_ge [of lst] by (force simp: mutation_of_iff newest_def)

text \<open>The mutations that a tracker holds, as the devices see them after the merge.\<close>

definition synced :: "'w tx_ops \<Rightarrow> 'w \<Rightarrow> (InstanceID \<times> Patch) list \<Rightarrow> string \<Rightarrow> bool" where
  "synced T w tracker key = (\<forall>m. wins tracker key m \<longrightarrow> tx_Get T w key = content m)"

definition keys_syncable :: "(InstanceID \<times> Patch) list \<Rightarrow> bool" where
  "keys_syncable tracker = (\<forall>(d, p) \<in> set tracker. \<forall>(key, m) \<in> set (pa_keys p). syncable key)"

definition full_tracker :: "collector \<Rightarrow> Patch \<Rightarrow> (InstanceID \<times> Patch) list" where
  "full_tracker c localPatch = AList.update (co_myID c) localPatch (co_devicePatchTracker c)"

lemma mutation_syncable:
  assumes "tracker_ok tracker" "keys_syncable tracker" "mutation_of tracker d key = Some m"
  shows "syncable key"
  using assms lookup_patch_in(1) [OF assms(1)] mutation_of_iff [OF assms(1)] by (fastforce simp: keys_syncable_def)

context tx_store
begin

lemma applyChanges_spec:
  fixes c :: collector and now :: int
  defines "tms \<equiv> AList.update (co_myID c) now (co_lastMutationRead c)"
  assumes ok: "tracker_ok (full_tracker c localPatch)" "pa_myID localPatch = co_myID c" "keys_syncable (full_tracker c localPatch)"
    and store: "\<forall>w ks. \<not> tx_Fails T w ks" "maps_readable T w"
  shows "\<exists>c' w'. applyChanges T w c localPatch now = Inr (c', w') \<and> maps_readable T w' \<and>
    co_devicePatchTracker c' = full_tracker c localPatch \<and>
    (\<forall>key. \<not> news (full_tracker c localPatch) (co_lastMutationRead c') (co_myID c) key) \<and>
    (\<forall>key. news (full_tracker c localPatch) tms (co_myID c) key \<longrightarrow>
      (\<exists>m. wins (full_tracker c localPatch) key m \<and> tx_Get T w' key = content m)) \<and>
    (\<forall>key. \<not> news (full_tracker c localPatch) tms (co_myID c) key \<and> \<not> map_file_key key \<longrightarrow> tx_Get T w' key = tx_Get T w key)"
proof -
  let ?t = "full_tracker c localPatch"
  obtain ds ps ls where prep: "prepareDiff ?t tms = (ds, ps, ls)" using prod_cases3 by blast
  let ?f = "\<lambda>d. if d = co_myID c then zeroTimeNano else newest (lookup_time tms d) (lookup_patch ?t d)"
  obtain updates where diff: "Diff localPatch ps ls = Inr (updates, map ?f ds)" "distinct (map fst updates)"
    "\<And>key. key \<in> fst ` set updates \<longleftrightarrow> news ?t tms (co_myID c) key" "\<And>key m. (key, m) \<in> set updates \<Longrightarrow> wins ?t key m"
    using Diff_merges [OF ok(1) prep, of localPatch] unfolding ok(2) by blast
  obtain tms' where tms': "store_times (co_myID c) tms ds (map ?f ds) = Inr tms'"
    "\<And>d. map_of tms' d = (if d \<in> set ds \<and> d \<noteq> co_myID c then Some (?f d) else map_of tms d)"
    using store_times_spec [of "co_myID c" tms ds ?f] by blast
  have news_sync: "syncable key" if "news ?t tms (co_myID c) key" for key
    using that mutation_syncable [OF ok(1,3)] by (auto simp: news_def)
  then obtain mus w1 w2 where w: "sort_updates T w [] updates = Inr (mus, w1)" "apply_maps T w1 mus = Inr w2" "maps_readable T w2"
    "\<And>k. \<not> map_file_key k \<Longrightarrow> tx_Get T w2 k = (case map_of updates k of Some m \<Rightarrow> content m | None \<Rightarrow> tx_Get T w k)"
    using applyChanges_store [OF diff(2) _ store] diff(3) by blast
  have run: "applyChanges T w c localPatch now =
      Inr (c\<lparr>co_devicePatchTracker := ?t, co_lastMutationRead := tms'\<rparr>, w2)"
    using prep diff(1) tms'(1) w(1,2) by (simp add: applyChanges_def full_tracker_def tms_def [symmetric] Let_def)
  have old: "\<not> news ?t tms' (co_myID c) key" for key
  proof
    assume "news ?t tms' (co_myID c) key"
    then obtain d m where d: "d \<noteq> co_myID c" "mutation_of ?t d key = Some m" "mt_Timestamp m > lookup_time tms' d"
      by (auto simp: news_def)
    have "d \<in> set ds" using d(2) prep tracker_sort(2) [OF ok(1)] mutation_of_iff [OF ok(1)] by (auto simp: prepareDiff_def Let_def)
    with d tms'(2) newest_ge [OF ok(1) d(2)] show False by (auto simp: lookup_time_def not_less [symmetric])
  qed
  have new: "\<exists>m. wins ?t key m \<and> tx_Get T w2 key = content m" if "news ?t tms (co_myID c) key" for key
  proof -
    from that obtain m where m: "(key, m) \<in> set updates" using diff(3) by fastforce
    have "\<not> map_file_key key" using news_sync [OF that] by (auto elim: syncable_cases)
    with w(4) [of key] m diff(2,4) show ?thesis by auto
  qed
  have keep: "tx_Get T w2 key = tx_Get T w key" if "\<not> news ?t tms (co_myID c) key" "\<not> map_file_key key" for key
    using that w(4) [of key] diff(3) [of key] by (auto simp: map_of_eq_None_iff [symmetric] split: option.splits dest: map_of_SomeD)
  show ?thesis using run w(3) old new keep by auto
qed

lemma applyChanges_synced:
  assumes ok: "tracker_ok (full_tracker c p)" "pa_myID p = co_myID c" "keys_syncable (full_tracker c p)"
    and store: "\<forall>w ks. \<not> tx_Fails T w ks" "maps_readable T w"
    and old: "\<forall>key. \<not> news (full_tracker c p) (AList.update (co_myID c) now (co_lastMutationRead c)) (co_myID c) key \<longrightarrow>
      synced T w (full_tracker c p) key"
  shows "\<exists>c' w'. applyChanges T w c p now = Inr (c', w') \<and>
    (\<forall>key. \<not> news (full_tracker c p) (co_lastMutationRead c') (co_myID c) key) \<and> (\<forall>key. synced T w' (full_tracker c p) key)"
proof -
  let ?t = "full_tracker c p" and ?tms = "AList.update (co_myID c) now (co_lastMutationRead c)"
  obtain c' w' where run: "applyChanges T w c p now = Inr (c', w')"
    "\<And>key. \<not> news ?t (co_lastMutationRead c') (co_myID c) key"
    "\<And>key. news ?t ?tms (co_myID c) key \<Longrightarrow> \<exists>m. wins ?t key m \<and> tx_Get T w' key = content m"
    "\<And>key. \<not> news ?t ?tms (co_myID c) key \<Longrightarrow> \<not> map_file_key key \<Longrightarrow> tx_Get T w' key = tx_Get T w key"
    using applyChanges_spec [OF ok store, of now] by blast
  have "tx_Get T w' key = content m" if m: "wins ?t key m" for key m
  proof (cases "news ?t ?tms (co_myID c) key")
    case True
    with run(3) m wins_unique [OF ok(1) m] show ?thesis by metis
  next
    case False
    have "syncable key" using m mutation_syncable [OF ok(1,3)] by (auto simp: wins_def)
    then have "\<not> map_file_key key" by (auto elim: syncable_cases)
    with False run(4) old m show ?thesis by (simp add: synced_def)
  qed
  with run show ?thesis by (auto simp: synced_def)
qed

end

section \<open>A store in memory\<close>

definition mem_tx :: "(string \<rightharpoonup> stored) tx_ops" where
  "mem_tx = \<lparr>tx_Get = (\<lambda>w. w), tx_Set = (\<lambda>w k v. w(k \<mapsto> v)), tx_Delete = (\<lambda>w k. w(k := None)), tx_Fails = (\<lambda>_ _. False)\<rparr>"

interpretation mem_tx: tx_store mem_tx
  by unfold_locales (auto simp: mem_tx_def)

lemma mem_tx_healthy: "\<not> tx_Fails mem_tx w ks"
  by (simp add: mem_tx_def)

lemma mem_tx_readable: "maps_readable mem_tx Map.empty"
  by (simp add: maps_readable_def mem_tx_def getMapFile_def)

section \<open>Properties\<close>

text \<open>C8: \<open>Diff\<close> on the patches of all devices, as \<open>prepareDiff\<close> orders them, never fails and merges
  exactly the keys with a mutation of another device that this one has not seen. Each is merged to the
  newest mutation that any device has published, and among mutations of the same time to that of the
  device with the smallest identifier. The new reading times cover everything that was published.\<close>

theorem Diff_merges_newest:
  assumes "tracker_ok tracker" "prepareDiff tracker tms = (devices, patches, ignoreBefore)"
  shows "\<exists>updates lastSeen. Diff p patches ignoreBefore = Inr (updates, lastSeen) \<and> distinct (map fst updates) \<and>
    (\<forall>key. key \<in> fst ` set updates \<longleftrightarrow> news tracker tms (pa_myID p) key) \<and>
    (\<forall>(key, m) \<in> set updates. wins tracker key m) \<and> length lastSeen = length devices \<and>
    (\<forall>i key m. i < length devices \<and> devices ! i \<noteq> pa_myID p \<and> mutation_of tracker (devices ! i) key = Some m \<longrightarrow>
      mt_Timestamp m \<le> lastSeen ! i)"
proof -
  let ?f = "\<lambda>d. if d = pa_myID p then zeroTimeNano else newest (lookup_time tms d) (lookup_patch tracker d)"
  obtain updates where "Diff p patches ignoreBefore = Inr (updates, map ?f devices)" "distinct (map fst updates)"
    "\<forall>key. key \<in> fst ` set updates \<longleftrightarrow> news tracker tms (pa_myID p) key" "\<forall>(key, m) \<in> set updates. wins tracker key m"
    using Diff_merges [OF assms] by blast
  then show ?thesis using newest_ge [OF assms(1)] by (intro exI [of _ updates] exI [of _ "map ?f devices"]) auto
qed

definition two_devices :: "(InstanceID \<times> Patch) list" where
  "two_devices =
     [(replicate 8 1, \<lparr>pa_myID = replicate 8 1, pa_keys = [(''k'', \<lparr>mt_Timestamp = 7, mt_Value = Some [1], mt_Deletion = False\<rparr>)]\<rparr>),
      (replicate 8 2, \<lparr>pa_myID = replicate 8 2, pa_keys = [(''k'', \<lparr>mt_Timestamp = 7, mt_Value = Some [2], mt_Deletion = False\<rparr>)]\<rparr>)]"

lemma two_devices_ok: "tracker_ok two_devices"
  by (simp add: tracker_ok_def two_devices_def instanceIDLength_def eval_nat_numeral)

lemma two_devices_news: "news two_devices [] (replicate 8 1) ''k''"
  unfolding news_def by (rule exI [of _ "replicate 8 2"], rule exI)
    (auto simp: two_devices_def mutation_of_def pa_get_def lookup_time_def zeroTimeNano_def eval_nat_numeral)

theorem Diff_merges_newest_witness:
  "\<exists>updates lastSeen.
     Diff (snd (two_devices ! 0)) (fst (snd (prepareDiff two_devices []))) (snd (snd (prepareDiff two_devices []))) =
       Inr (updates, lastSeen) \<and> ''k'' \<in> fst ` set updates"
proof -
  have my: "pa_myID (snd (two_devices ! 0)) = replicate 8 1" by (simp add: two_devices_def)
  show ?thesis using Diff_merges_newest [of two_devices "[]" "fst (prepareDiff two_devices [])" _ _ "snd (two_devices ! 0)"]
      two_devices_ok two_devices_news my by (metis prod.collapse)
qed

text \<open>C7: Devices converge. When two devices that know the same mutations apply their changes, both finish,
  with no mutation left to read, and hold the same under every key that any device has mutated, the
  newest mutation, provided that their transactions do not fail and that each held it already for
  the keys without news.\<close>

theorem devices_converge:
  fixes T :: "'w tx_ops" and U :: "'v tx_ops"
  assumes "tx_store T" "tx_store U" "\<forall>w ks. \<not> tx_Fails T w ks" "\<forall>w ks. \<not> tx_Fails U w ks" "maps_readable T w" "maps_readable U v"
    and a: "tracker_ok (full_tracker a p)" "pa_myID p = co_myID a" "keys_syncable (full_tracker a p)"
    and b: "tracker_ok (full_tracker b q)" "pa_myID q = co_myID b" "keys_syncable (full_tracker b q)"
    and same: "\<forall>d key. mutation_of (full_tracker a p) d key = mutation_of (full_tracker b q) d key"
    and aw: "\<forall>key. \<not> news (full_tracker a p) (AList.update (co_myID a) now (co_lastMutationRead a)) (co_myID a) key \<longrightarrow>
      synced T w (full_tracker a p) key"
    and bv: "\<forall>key. \<not> news (full_tracker b q) (AList.update (co_myID b) now' (co_lastMutationRead b)) (co_myID b) key \<longrightarrow>
      synced U v (full_tracker b q) key"
  shows "\<exists>a' w' b' v'. applyChanges T w a p now = Inr (a', w') \<and> applyChanges U v b q now' = Inr (b', v') \<and>
    (\<forall>key. \<not> news (full_tracker a p) (co_lastMutationRead a') (co_myID a) key \<and>
       \<not> news (full_tracker b q) (co_lastMutationRead b') (co_myID b) key) \<and>
    (\<forall>key m. wins (full_tracker a p) key m \<longrightarrow> tx_Get T w' key = content m \<and> tx_Get U v' key = content m)"
proof -
  have wins: "wins (full_tracker b q) = wins (full_tracker a p)"
    unfolding wins_def using same by presburger
  show ?thesis
    using tx_store.applyChanges_synced [OF assms(1) a assms(3,5) aw] tx_store.applyChanges_synced [OF assms(2) b assms(4,6) bv]
    unfolding synced_def wins by blast
qed

text \<open>Each of the two devices has written the key, and neither has read the other.\<close>

definition device :: "nat \<Rightarrow> collector" where
  "device i = \<lparr>co_myID = replicate 8 (word_of_nat i), co_lastUpdateRead = [], co_devicePatchTracker = two_devices, co_lastMutationRead = []\<rparr>"

lemma device_tracker:
  "full_tracker (device 1) (snd (two_devices ! 0)) = two_devices" "full_tracker (device 2) (snd (two_devices ! 1)) = two_devices"
  by (simp_all add: full_tracker_def device_def two_devices_def eval_nat_numeral)

lemma two_devices_keys: "mutation_of two_devices d key = Some m \<Longrightarrow> key = ''k''"
  by (auto simp: two_devices_def mutation_of_def pa_get_def split: if_splits)

lemma two_devices_syncable: "keys_syncable two_devices"
proof -
  have "syncable ''k''" by (simp add: syncable_def DetectMap_def has_suffix_def MapKeysListSuffix_def MapElementKeySuffix_def)
  then show ?thesis by (simp add: keys_syncable_def two_devices_def)
qed

lemma device_news1:
  "news two_devices (AList.update (co_myID (device 1)) 9 (co_lastMutationRead (device 1))) (co_myID (device 1)) ''k''"
  unfolding news_def
  by (rule exI [of _ "replicate 8 2"], rule exI)
    (auto simp: device_def two_devices_def mutation_of_def pa_get_def lookup_time_def zeroTimeNano_def eval_nat_numeral)

lemma device_news2:
  "news two_devices (AList.update (co_myID (device 2)) 9 (co_lastMutationRead (device 2))) (co_myID (device 2)) ''k''"
  unfolding news_def
  by (rule exI [of _ "replicate 8 1"], rule exI)
    (auto simp: device_def two_devices_def mutation_of_def pa_get_def lookup_time_def zeroTimeNano_def eval_nat_numeral)

theorem devices_converge_witness:
  "\<exists>a' w' b' v'. applyChanges mem_tx Map.empty (device 1) (snd (two_devices ! 0)) 9 = Inr (a', w') \<and>
     applyChanges mem_tx Map.empty (device 2) (snd (two_devices ! 1)) 9 = Inr (b', v') \<and>
     (\<forall>m. wins two_devices ''k'' m \<longrightarrow> w' ''k'' = content m \<and> v' ''k'' = content m)"
proof -
  have other: "synced mem_tx Map.empty two_devices key" if "key \<noteq> ''k''" for key
    using that two_devices_keys by (auto simp: synced_def wins_def)
  have ids: "pa_myID (snd (two_devices ! 0)) = co_myID (device 1)" "pa_myID (snd (two_devices ! 1)) = co_myID (device 2)"
    by (simp_all add: two_devices_def device_def)
  have get: "tx_Get mem_tx w = w" for w by (simp add: mem_tx_def)
  have sync1: "\<forall>key. \<not> news two_devices (AList.update (co_myID (device 1)) 9 (co_lastMutationRead (device 1))) (co_myID (device 1)) key \<longrightarrow>
      synced mem_tx Map.empty two_devices key" using other device_news1 by metis
  have sync2: "\<forall>key. \<not> news two_devices (AList.update (co_myID (device 2)) 9 (co_lastMutationRead (device 2))) (co_myID (device 2)) key \<longrightarrow>
      synced mem_tx Map.empty two_devices key" using other device_news2 by metis
  have healthy: "\<forall>w ks. \<not> tx_Fails mem_tx w ks" using mem_tx_healthy by blast
  note ok = two_devices_ok two_devices_syncable
  show ?thesis
    using devices_converge [OF mem_tx.tx_store_axioms mem_tx.tx_store_axioms healthy healthy mem_tx_readable mem_tx_readable,
        where a = "device 1" and p = "snd (two_devices ! 0)" and b = "device 2" and q = "snd (two_devices ! 1)" and now = 9 and now' = 9,
        unfolded device_tracker get, OF ok(1) ids(1) ok(2) ok(1) ids(2) ok(2) _ sync1 sync2] by blast
qed

end
