(* ===== verification/Transaction_Log.thy ===== *)
theory Transaction_Log
  imports Patches "HOL-Library.Multiset"
begin

text \<open>
  The log of the mutations that a device makes (\<open>collective/mutateBuffer.go\<close>, \<open>transactionLog.go\<close>) and the
  operations of the synchronised store that write to it (\<open>map.go\<close>, \<open>kv.go\<close>). A write changes the store and
  records its mutations in a slot of a buffer in one transaction; a thread moves them into the patch of the
  device and clears the slot, so that a write that was interrupted is found in the buffer at the next start.
  The channel to the thread is a queue. The order in which Go iterates over the map of slots is the
  argument \<open>ord\<close>.
\<close>

section \<open>The buffer of mutations\<close>

definition buffElementKey :: string where
  "buffElementKey = [CHR 0xE2, CHR 0x8C, CHR 0x9B] @ ''bufferElement_''"

definition bufferSize :: nat where "bufferSize = 1024"

definition createElementKey :: "nat \<Rightarrow> string" where
  "createElementKey i = buffElementKey @ itoa (int i)"

type_synonym mutates = "(string \<times> Mutate) list"

definition msmm :: "string \<Rightarrow> Mutate \<Rightarrow> mutates" where
  "msmm k m = [(k, m)]"

definition mutates_json :: "mutates \<Rightarrow> stored" where
  "mutates_json ms = Json (JObj (map (\<lambda>(k, m). (k, mutate_json m)) ms))"

definition json_mutates :: "stored \<Rightarrow> mutates option" where
  "json_mutates b =
     (case b of
        Json (JObj fs) \<Rightarrow> map_option (\<lambda>ms. zip (map fst fs) ms) (those (map (json_mutate \<circ> snd) fs))
      | Json JNull \<Rightarrow> Some []
      | _ \<Rightarrow> None)"

text \<open>The search for the longest run of free slots.\<close>

record bucket_scan =
  bk_transactions :: "(nat \<times> mutates) list"
  bk_largestSize :: nat
  bk_largestStart :: nat
  bk_currentSize :: nat
  bk_currentStart :: nat
  bk_firstStart :: nat

definition scan_slot :: "'w tx_ops \<Rightarrow> 'w \<Rightarrow> bucket_scan \<Rightarrow> nat \<Rightarrow> bucket_scan" where
  "scan_slot T w s i =
     (case tx_Get T w (createElementKey i) of
        None \<Rightarrow> s\<lparr>bk_currentSize := bk_currentSize s + 1\<rparr>
      | Some data \<Rightarrow>
          (case json_mutates data of
             None \<Rightarrow> s\<lparr>bk_currentSize := bk_currentSize s + 1\<rparr>
           | Some mutates \<Rightarrow>
               (let s1 = s\<lparr>bk_transactions := bk_transactions s @ [(i, mutates)],
                           bk_firstStart := if bk_firstStart s = bufferSize then i else bk_firstStart s\<rparr>;
                    s2 = (if bk_currentSize s1 > bk_largestSize s1
                          then s1\<lparr>bk_largestSize := bk_currentSize s1, bk_largestStart := bk_currentStart s1\<rparr> else s1)
                in s2\<lparr>bk_currentSize := 0, bk_currentStart := i\<rparr>)))"

definition empty_scan :: bucket_scan where
  "empty_scan = \<lparr>bk_transactions = [], bk_largestSize = 0, bk_largestStart = 0, bk_currentSize = 0, bk_currentStart = 0,
     bk_firstStart = bufferSize\<rparr>"

definition loadBuffer :: "'w tx_ops \<Rightarrow> 'w \<Rightarrow> u64 \<times> (nat \<times> mutates) list" where
  "loadBuffer T w =
     (let s = foldl (scan_slot T w) empty_scan [0..<bufferSize]
      in if bk_firstStart s = bufferSize then (0, bk_transactions s)
         else
           let size = (if bk_currentSize s + bk_currentStart s = bufferSize - 1 then bk_currentSize s + bk_firstStart s
                       else bk_currentSize s);
               start = (if size > bk_largestSize s then bk_currentStart s else bk_largestStart s)
           in (word_of_nat start, bk_transactions s))"

text \<open>The slot to use, and the counter after it.\<close>

definition getIndex :: "u64 \<Rightarrow> nat \<times> u64" where
  "getIndex mbIndex = (let newVal = mbIndex + 1 in (unat ((newVal - 1) mod 1024), newVal))"

section \<open>The log\<close>

record remoteWriter =
  rw_state :: Patch
  rw_adds :: "(mutates \<times> nat) list"
  rw_localWriteKey :: string
  rw_mbIndex :: u64
  rw_remoteUpToDate :: bool

definition makeLocalWriteKey :: "string \<Rightarrow> string" where
  "makeLocalWriteKey path = ''TransactionLog_'' @ path"

text \<open>The mutations that a transaction records, and the wrapping of its operation. The transaction fails as a whole.\<close>

definition DoTransactionAndWriteToBuffer ::
  "'w tx_ops \<Rightarrow> 'w \<Rightarrow> u64 \<Rightarrow> ('w \<Rightarrow> ('r \<times> 'w) option) \<Rightarrow> string list \<Rightarrow> mutates \<Rightarrow> u64 \<times> nat \<times> ('r \<times> 'w) option" where
  "DoTransactionAndWriteToBuffer T w mbIndex op keys mutates =
     (let (i, mbIndex') = getIndex mbIndex;
          mutateElementKey = createElementKey i
      in (mbIndex', i,
          if tx_Fails T w (keys @ [mutateElementKey]) then None
          else map_option (\<lambda>(r, w1). (r, tx_Set T w1 mutateElementKey (mutates_json mutates))) (op w)))"

definition DeleteBufferElement :: "'w tx_ops \<Rightarrow> 'w \<Rightarrow> nat \<Rightarrow> 'w" where
  "DeleteBufferElement T w i = (if tx_Fails T w [createElementKey i] then w else tx_Delete T w (createElementKey i))"

text \<open>A new log, \<open>None\<close> when the stored patch is unreadable. The slots are queued in the order \<open>ord\<close>.\<close>

definition newRemoteWriter ::
  "((nat \<times> mutates) list \<Rightarrow> (nat \<times> mutates) list) \<Rightarrow> 'w tx_ops \<Rightarrow> 'w \<Rightarrow> string \<Rightarrow> InstanceID \<Rightarrow> remoteWriter option" where
  "newRemoteWriter ord T w path deviceID =
     (case (case tx_Get T w (makeLocalWriteKey path) of
              Some data \<Rightarrow> Deserialize (newPatch deviceID) data
            | None \<Rightarrow> Some (newPatch deviceID)) of
        None \<Rightarrow> None
      | Some state \<Rightarrow>
          (let (mbIndex, remainingMutations) = loadBuffer T w
           in Some \<lparr>rw_state = state, rw_adds = map (\<lambda>(i, mutations). (mutations, i)) (ord remainingMutations),
                    rw_localWriteKey = makeLocalWriteKey path, rw_mbIndex = mbIndex, rw_remoteUpToDate = False\<rparr>))"

text \<open>The result is the old content, \<open>None\<close> when the transaction failed.\<close>

definition rw_record ::
  "'w tx_ops \<Rightarrow> 'w \<Rightarrow> remoteWriter \<Rightarrow> ('w \<Rightarrow> ('r \<times> 'w) option) \<Rightarrow> string list \<Rightarrow> mutates \<Rightarrow> 'r option \<times> remoteWriter \<times> 'w" where
  "rw_record T w rw op keys mutates =
     (let (mbIndex, buffIndex, res) = DoTransactionAndWriteToBuffer T w (rw_mbIndex rw) op keys mutates
      in case res of
           None \<Rightarrow> (None, rw\<lparr>rw_mbIndex := mbIndex\<rparr>, w)
         | Some (r, w1) \<Rightarrow> (Some r, rw\<lparr>rw_mbIndex := mbIndex, rw_adds := rw_adds rw @ [(mutates, buffIndex)]\<rparr>, w1))"

definition rw_Write ::
  "'w tx_ops \<Rightarrow> 'w \<Rightarrow> remoteWriter \<Rightarrow> int \<Rightarrow> string \<Rightarrow> bytes option \<Rightarrow> (stored option) option \<times> remoteWriter \<times> 'w" where
  "rw_Write T w rw now key value =
     (let m = \<lparr>mt_Timestamp = now, mt_Value = value, mt_Deletion = False\<rparr>;
          op = (\<lambda>w. Some (tx_Get T w key, tx_Set T w key (file_data value)))
      in rw_record T w rw op [key] (msmm key m))"

definition rw_Delete ::
  "'w tx_ops \<Rightarrow> 'w \<Rightarrow> remoteWriter \<Rightarrow> int \<Rightarrow> string \<Rightarrow> (stored option) option \<times> remoteWriter \<times> 'w" where
  "rw_Delete T w rw now key =
     (let m = \<lparr>mt_Timestamp = now, mt_Value = None, mt_Deletion = True\<rparr>;
          op = (\<lambda>w. Some (tx_Get T w key, tx_Delete T w key))
      in rw_record T w rw op [key] (msmm key m))"

text \<open>The edits of a map: the mutations with the keys and names of their elements. A deletion of an element that is
  also set comes last.\<close>

definition map_mutates :: "string \<Rightarrow> int \<Rightarrow> (string \<times> bytes option) list \<Rightarrow> string list \<Rightarrow> mutates \<times> (string \<times> string) list" where
  "map_mutates mapName tsInt elements toDelete =
     (let upserts = foldl (\<lambda>(ms, conv) (element, v).
                let key = MakeElementKey mapName element
                in (AList.update key \<lparr>mt_Timestamp = tsInt, mt_Value = v, mt_Deletion = False\<rparr> ms, AList.update key element conv))
              ([], []) elements
      in foldl (\<lambda>(ms, conv) element.
                let key = MakeElementKey mapName element
                in (AList.update key \<lparr>mt_Timestamp = tsInt, mt_Value = None, mt_Deletion = True\<rparr> ms, AList.update key element conv))
              upserts toDelete)"

fun edit_map ::
  "'w tx_ops \<Rightarrow> (string \<times> string) list \<Rightarrow> string list \<times> (string \<times> stored option) list \<times> 'w \<Rightarrow> mutates \<Rightarrow>
   string list \<times> (string \<times> stored option) list \<times> 'w" where
  "edit_map T conv s [] = s"
| "edit_map T conv (mapSet, old, w) ((key, mutate) # ms) =
     (let elementName = (case map_of conv key of None \<Rightarrow> '''' | Some e \<Rightarrow> e);
          old' = AList.update elementName (tx_Get T w key) old
      in edit_map T conv
           (if mt_Deletion mutate then (removeAll elementName mapSet, old', tx_Delete T w key)
            else (List.insert elementName mapSet, old', tx_Set T w key (file_data (mt_Value mutate)))) ms)"

text \<open>The result holds the old contents of the elements.\<close>

definition WriteMap ::
  "'w tx_ops \<Rightarrow> 'w \<Rightarrow> remoteWriter \<Rightarrow> int \<Rightarrow> string \<Rightarrow> (string \<times> bytes option) list \<Rightarrow> string list \<Rightarrow>
   (string \<times> stored option) list option \<times> remoteWriter \<times> 'w" where
  "WriteMap T w rw now mapName elements toDelete =
     (let (mutates, keyConversions) = map_mutates mapName now elements toDelete;
          mapKey = MakeMapKey mapName;
          keys = map (MakeElementKey mapName \<circ> fst) elements @ map (MakeElementKey mapName) toDelete @ [mapKey];
          op = (\<lambda>w. case getMapFile (tx_Get T w mapKey) of
                      None \<Rightarrow> None
                    | Some mapSet \<Rightarrow>
                        (let (mapSet', old, w') = edit_map T keyConversions (mapSet, [], w) mutates
                         in Some (old, tx_Set T w' mapKey (map_file mapSet'))))
      in rw_record T w rw op keys mutates)"

text \<open>One round of the thread for an added transaction. A failed write of the patch panics.\<close>

definition runner_add :: "'w tx_ops \<Rightarrow> 'w \<Rightarrow> remoteWriter \<Rightarrow> fault + remoteWriter \<times> 'w" where
  "runner_add T w rw =
     (case rw_adds rw of
        [] \<Rightarrow> Inr (rw, w)
      | (mutates, buffIndex) # adds \<Rightarrow>
          (let state = foldl (\<lambda>p (k, m). AddUnsafe p k m) (rw_state rw) mutates
           in if tx_Fails T w [rw_localWriteKey rw] then Inl FatalPanic
              else Inr (rw\<lparr>rw_state := state, rw_adds := adds\<rparr>,
                     DeleteBufferElement T (tx_Set T w (rw_localWriteKey rw) (Serialize state)) buffIndex)))"

text \<open>Durations are nanoseconds.\<close>

definition expBackoff :: "int \<Rightarrow> int" where
  "expBackoff timeout =
     (let t = (timeout * 3) div 2
      in if t > 300000000000 then 300000000000 else t)"

text \<open>Whether the state of the connection is reported, and the new state.\<close>

definition rw_notify :: "remoteWriter \<Rightarrow> bool \<Rightarrow> bool option \<times> remoteWriter" where
  "rw_notify rw updatedRemote =
     (if rw_remoteUpToDate rw \<noteq> updatedRemote then Some updatedRemote else None, rw\<lparr>rw_remoteUpToDate := updatedRemote\<rparr>)"

section \<open>The synchronised store\<close>

text \<open>What a listener for local changes is told, with the operations. \<open>SetRemote\<close> gives \<open>Inl\<close> for a reserved key or a failed
  transaction.\<close>

datatype skv_error = InvalidKey | TransactionError | MapElementNotFound | MapInconsistent

definition SetRemote ::
  "'w tx_ops \<Rightarrow> 'w \<Rightarrow> remoteWriter \<Rightarrow> int \<Rightarrow> string \<Rightarrow> bytes option \<Rightarrow>
   (skv_error + stored option \<times> stored option \<times> KeyOperation) \<times> remoteWriter \<times> 'w" where
  "SetRemote T w rw now key value =
     (if \<not> IsValidKey key then (Inl InvalidKey, rw, w)
      else
        case rw_Write T w rw now key value of
          (None, rw', w') \<Rightarrow> (Inl TransactionError, rw', w')
        | (Some old, rw', w') \<Rightarrow>
            (Inr (old, Some (file_data value), if old = None then Deleted else Updated), rw', w'))"

definition DeleteRemote ::
  "'w tx_ops \<Rightarrow> 'w \<Rightarrow> remoteWriter \<Rightarrow> int \<Rightarrow> string \<Rightarrow>
   (skv_error + stored option \<times> stored option \<times> KeyOperation) \<times> remoteWriter \<times> 'w" where
  "DeleteRemote T w rw now key =
     (if \<not> IsValidKey key then (Inl InvalidKey, rw, w)
      else
        case rw_Delete T w rw now key of
          (None, rw', w') \<Rightarrow> (Inl TransactionError, rw', w')
        | (Some old, rw', w') \<Rightarrow> (Inr (old, None, Deleted), rw', w'))"

definition report_upsert :: "(string \<times> stored option) list \<Rightarrow> string \<times> bytes option \<Rightarrow> string \<times> elementEdit" where
  "report_upsert oldMap ev =
     (let old = (case map_of oldMap (fst ev) of None \<Rightarrow> None | Some oldv \<Rightarrow> oldv)
      in (fst ev, old, Some (file_data (snd ev)), if old \<noteq> None then Updated else Created))"

text \<open>A listener is told of the edits even when the transaction failed, then with no old contents.\<close>

definition StoreMap ::
  "'w tx_ops \<Rightarrow> 'w \<Rightarrow> remoteWriter \<Rightarrow> int \<Rightarrow> string \<Rightarrow> (string \<times> bytes option) list \<Rightarrow>
   bool \<times> (string \<times> elementEdit) list \<times> remoteWriter \<times> 'w" where
  "StoreMap T w rw now mapName value =
     (let (res, rw', w') = WriteMap T w rw now mapName value [];
          oldMap = (case res of None \<Rightarrow> [] | Some oldv \<Rightarrow> oldv)
      in (res \<noteq> None, map (report_upsert oldMap) value, rw', w'))"

definition StoreMapElement ::
  "'w tx_ops \<Rightarrow> 'w \<Rightarrow> remoteWriter \<Rightarrow> int \<Rightarrow> string \<Rightarrow> string \<Rightarrow> bytes option \<Rightarrow>
   bool \<times> (string \<times> elementEdit) list \<times> remoteWriter \<times> 'w" where
  "StoreMapElement T w rw now mapName element value =
     (let (res, rw', w') = WriteMap T w rw now mapName [(element, value)] [];
          oldMap = (case res of None \<Rightarrow> [] | Some oldv \<Rightarrow> oldv)
      in (res \<noteq> None, [report_upsert oldMap (element, value)], rw', w'))"

definition DeleteMapElement ::
  "'w tx_ops \<Rightarrow> 'w \<Rightarrow> remoteWriter \<Rightarrow> int \<Rightarrow> string \<Rightarrow> string \<Rightarrow>
   (stored option \<times> (string \<times> elementEdit) list) option \<times> remoteWriter \<times> 'w" where
  "DeleteMapElement T w rw now mapName element =
     (let (res, rw', w') = WriteMap T w rw now mapName [] [element]
      in case res of
           None \<Rightarrow> (None, rw', w')
         | Some oldMap \<Rightarrow>
             (let old = (case map_of oldMap element of None \<Rightarrow> None | Some oldv \<Rightarrow> oldv)
              in (Some (old, [(element, old, None, Deleted)]), rw', w')))"

definition GetMapElement :: "'w tx_ops \<Rightarrow> 'w \<Rightarrow> string \<Rightarrow> string \<Rightarrow> skv_error + stored" where
  "GetMapElement T w mapName elementName =
     (let mapKey = MakeMapKey mapName; elementKey = MakeElementKey mapName elementName
      in if tx_Fails T w [elementKey, mapKey] then Inl TransactionError
         else
           case getMapFile (tx_Get T w mapKey) of
             None \<Rightarrow> Inl TransactionError
           | Some mapSet \<Rightarrow>
               if elementName \<in> set mapSet
               then (case tx_Get T w elementKey of None \<Rightarrow> Inl MapInconsistent | Some old \<Rightarrow> Inr old)
               else Inl MapElementNotFound)"

text \<open>A listed element without a file is given as missing, with a warning.\<close>

definition GetMap :: "'w tx_ops \<Rightarrow> 'w \<Rightarrow> string \<Rightarrow> (string \<times> stored option) list option" where
  "GetMap T w mapName =
     (if tx_Fails T w [MakeMapKey mapName] then None
      else
        case getMapFile (tx_Get T w (MakeMapKey mapName)) of
          None \<Rightarrow> None
        | Some mapSet \<Rightarrow>
            (if tx_Fails T w (map (MakeElementKey mapName) mapSet) then None
             else Some (map (\<lambda>e. (e, tx_Get T w (MakeElementKey mapName e))) mapSet)))"

section \<open>Lemmas\<close>

subsection \<open>Stored forms\<close>

abbreviation int64 :: "int \<Rightarrow> bool" where
  "int64 i \<equiv> - (2 ^ 63) \<le> i \<and> i < 2 ^ 63"

definition mutates_ok :: "mutates \<Rightarrow> bool" where
  "mutates_ok ms = (\<forall>m \<in> snd ` set ms. int64 (mt_Timestamp m))"

lemma json_mutate_json [simp]: "int64 (mt_Timestamp m) \<Longrightarrow> json_mutate (mutate_json m) = Some m"
  by (cases "mt_Value m") (simp_all add: json_mutate_def mutate_json_def)

lemma those_mutates: "mutates_ok ms \<Longrightarrow> those (map (\<lambda>x. json_mutate (mutate_json (snd x))) ms) = Some (map snd ms)"
  by (induction ms) (auto simp: mutates_ok_def)

lemma json_mutates_json: "mutates_ok ms \<Longrightarrow> json_mutates (mutates_json ms) = Some ms"
  using those_mutates [of ms] by (simp add: json_mutates_def mutates_json_def comp_def case_prod_unfold zip_map_fst_snd)

lemma alist_update_new: "k \<notin> fst ` set xs \<Longrightarrow> AList.update k v xs = xs @ [(k, v)]"
  by (induction xs) auto

lemma add_all_distinct:
  "distinct (map fst (pa_keys p @ ms)) \<Longrightarrow> foldl (\<lambda>q (k, m). AddUnsafe q k m) p ms = p\<lparr>pa_keys := pa_keys p @ ms\<rparr>"
proof (induction ms arbitrary: p)
  case (Cons x ms)
  obtain k m where x: "x = (k, m)" by force
  have "AddUnsafe p k m = p\<lparr>pa_keys := pa_keys p @ [(k, m)]\<rparr>"
    using Cons.prems x by (auto simp: AddUnsafe_def alist_update_new)
  with Cons x show ?case by simp
qed simp

lemma Deserialize_Serialize:
  assumes "mutates_ok (pa_keys p)" "distinct (map fst (pa_keys p))"
  shows "Deserialize (newPatch (pa_myID p)) (Serialize p) = Some p"
  using those_mutates [OF assms(1)] add_all_distinct [of "newPatch (pa_myID p)" "pa_keys p"] assms(2)
  by (simp add: Deserialize_def Serialize_def newPatch_def comp_def case_prod_unfold zip_map_fst_snd)

lemma update_values: "(k', m') \<in> set (AList.update k m xs) \<Longrightarrow> (k', m') \<in> set xs \<or> m' = m"
  by (induction xs) (auto split: if_splits)

lemma add_all_ok:
  assumes "mutates_ok (pa_keys p)" "distinct (map fst (pa_keys p))" "mutates_ok ms"
  shows "mutates_ok (pa_keys (foldl (\<lambda>q (k, m). AddUnsafe q k m) p ms)) \<and>
    distinct (map fst (pa_keys (foldl (\<lambda>q (k, m). AddUnsafe q k m) p ms))) \<and>
    pa_myID (foldl (\<lambda>q (k, m). AddUnsafe q k m) p ms) = pa_myID p"
  using assms
proof (induction ms arbitrary: p)
  case (Cons x ms)
  obtain k m where x: "x = (k, m)" by force
  have "mutates_ok (pa_keys (AddUnsafe p k m))"
    using Cons.prems x update_values [of _ _ k m "pa_keys p"] by (force simp: mutates_ok_def AddUnsafe_def)
  moreover have "distinct (map fst (pa_keys (AddUnsafe p k m)))" using Cons.prems(2) by (simp add: AddUnsafe_def distinct_update)
  moreover have "mutates_ok ms" using Cons.prems(3) by (simp add: mutates_ok_def)
  ultimately show ?case using Cons.IH [of "AddUnsafe p k m"] x by (simp add: AddUnsafe_def)
qed simp

subsection \<open>Slots\<close>

definition slot :: "'w tx_ops \<Rightarrow> 'w \<Rightarrow> nat \<Rightarrow> mutates option" where
  "slot T w i = (case tx_Get T w (createElementKey i) of None \<Rightarrow> None | Some data \<Rightarrow> json_mutates data)"

lemma createElementKey_inj [simp]: "createElementKey i = createElementKey j \<longleftrightarrow> i = j"
  by (simp add: createElementKey_def itoa_def inj_nat_dec)

lemma scan_slot_transactions:
  "bk_transactions (scan_slot T w s i) =
     bk_transactions s @ (case slot T w i of None \<Rightarrow> [] | Some ms \<Rightarrow> [(i, ms)])"
  by (simp add: scan_slot_def slot_def Let_def split: option.split)

lemma scan_transactions:
  "bk_transactions (foldl (scan_slot T w) s is) =
     bk_transactions s @ concat (map (\<lambda>i. case slot T w i of None \<Rightarrow> [] | Some ms \<Rightarrow> [(i, ms)]) is)"
  by (induction "is" arbitrary: s) (simp_all add: scan_slot_transactions)

lemma loadBuffer_transactions:
  "snd (loadBuffer T w) = concat (map (\<lambda>i. case slot T w i of None \<Rightarrow> [] | Some ms \<Rightarrow> [(i, ms)]) [0..<bufferSize])"
  by (simp add: loadBuffer_def Let_def scan_transactions empty_scan_def)

lemma loadBuffer_mset:
  assumes "\<forall>i < bufferSize. slot T w i = map_of xs i" "distinct (map fst xs)" "fst ` set xs \<subseteq> {..<bufferSize}"
  shows "mset (snd (loadBuffer T w)) = mset xs"
proof -
  let ?f = "\<lambda>i. case slot T w i of None \<Rightarrow> [] | Some ms \<Rightarrow> [(i, ms)]"
  have d: "map fst (concat (map ?f is)) = filter (\<lambda>i. slot T w i \<noteq> None) is" for "is" :: "nat list"
    by (induction "is") (auto split: option.split)
  have "distinct (map fst (snd (loadBuffer T w)))" unfolding loadBuffer_transactions d by simp
  then have "distinct (snd (loadBuffer T w))" by (simp add: distinct_map)
  moreover have "distinct xs" using assms(2) by (simp add: distinct_map)
  moreover have "set (snd (loadBuffer T w)) = set xs"
  proof -
    have "(i, ms) \<in> set (snd (loadBuffer T w)) \<longleftrightarrow> i < bufferSize \<and> slot T w i = Some ms" for i ms
      by (auto simp: loadBuffer_transactions split: option.splits)
    also have "\<dots> i ms \<longleftrightarrow> (i, ms) \<in> set xs" for i ms using assms by (auto dest: map_of_SomeD)
    finally show ?thesis by auto
  qed
  ultimately show ?thesis by (simp add: set_eq_iff_mset_eq_distinct)
qed

lemma getIndex_slot: "getIndex mb = (nat (uint mb mod 1024), mb + 1)"
proof -
  have "mb + 1 - 1 = mb" by simp
  moreover have "unat (mb mod 1024) = nat (uint mb mod 1024)"
    by (simp add: unat_mod nat_mod_distrib)
  ultimately show ?thesis unfolding getIndex_def Let_def by metis
qed

subsection \<open>The invariant of the log\<close>

text \<open>The keys of the log itself.\<close>

definition log_key :: "remoteWriter \<Rightarrow> string \<Rightarrow> bool" where
  "log_key rw k = (k = rw_localWriteKey rw \<or> (\<exists>i. k = createElementKey i))"

definition log_inv :: "'w tx_ops \<Rightarrow> 'w \<Rightarrow> string \<Rightarrow> InstanceID \<Rightarrow> remoteWriter \<Rightarrow> bool" where
  "log_inv T w path deviceID rw =
     (rw_localWriteKey rw = makeLocalWriteKey path \<and> pa_myID (rw_state rw) = deviceID \<and>
      mutates_ok (pa_keys (rw_state rw)) \<and> distinct (map fst (pa_keys (rw_state rw))) \<and>
      (case tx_Get T w (rw_localWriteKey rw) of None \<Rightarrow> pa_keys (rw_state rw) = [] | Some data \<Rightarrow> data = Serialize (rw_state rw)) \<and>
      length (rw_adds rw) \<le> bufferSize \<and> (\<forall>ms \<in> fst ` set (rw_adds rw). mutates_ok ms) \<and>
      (\<forall>j < length (rw_adds rw).
         snd (rw_adds rw ! j) = nat ((uint (rw_mbIndex rw) - int (length (rw_adds rw) - j)) mod 1024)) \<and>
      (\<forall>i < bufferSize. slot T w i = map_of (map prod.swap (rw_adds rw)) i))"

lemma local_key_not_slot: "makeLocalWriteKey path \<noteq> createElementKey i"
  by (simp add: makeLocalWriteKey_def createElementKey_def buffElementKey_def)

lemma window_distinct:
  assumes "length adds \<le> 1024" "\<forall>j < length adds. snd (adds ! j) = nat ((u - int (length adds - j)) mod 1024)"
  shows "distinct (map snd adds)"
proof (unfold distinct_conv_nth, intro allI impI)
  fix i j
  assume ij: "i < length (map snd adds)" "j < length (map snd adds)" "i \<noteq> j"
  let ?a = "int (length adds - i)" and ?b = "int (length adds - j)"
  have "?a \<noteq> ?b" "0 < ?a" "0 < ?b" "?a \<le> 1024" "?b \<le> 1024" using ij assms(1) by auto
  then have "\<not> 1024 dvd (?b - ?a)" using dvd_imp_le_int [of "?b - ?a" 1024] by linarith
  then have "(u - ?a) mod 1024 \<noteq> (u - ?b) mod 1024" by (simp add: mod_eq_dvd_iff)
  moreover have "0 \<le> (u - ?a) mod 1024" "0 \<le> (u - ?b) mod 1024" by simp_all
  ultimately have "nat ((u - ?a) mod 1024) \<noteq> nat ((u - ?b) mod 1024)" by linarith
  then show "map snd adds ! i \<noteq> map snd adds ! j" using assms(2) ij by simp
qed

lemma window_below:
  assumes "\<forall>j < length adds. snd (adds ! j) = nat ((u - int (length adds - j)) mod 1024)"
  shows "snd ` set adds \<subseteq> {..<bufferSize}"
proof -
  have "snd x < 1024" if "x \<in> set adds" for x
  proof -
    from that obtain j where j: "j < length adds" "x = adds ! j" by (metis in_set_conv_nth)
    have "0 \<le> (u - int (length adds - j)) mod 1024" "(u - int (length adds - j)) mod 1024 < 1024" by simp_all
    with assms j show ?thesis by simp
  qed
  then show ?thesis by (auto simp: bufferSize_def)
qed

lemma window_append:
  fixes mb :: u64
  assumes "\<forall>j < length adds. snd (adds ! j) = nat ((uint mb - int (length adds - j)) mod 1024)"
    "j < length (adds @ [(ms, nat (uint mb mod 1024))])"
  shows "snd ((adds @ [(ms, nat (uint mb mod 1024))]) ! j) =
    nat ((uint (mb + 1) - int (length (adds @ [(ms, nat (uint mb mod 1024))]) - j)) mod 1024)"
proof -
  have u: "(uint (mb + 1) - c) mod 1024 = (uint mb + 1 - c) mod 1024" for c
  proof -
    have "uint (mb + 1) mod 1024 = (uint mb + 1) mod 1024"
      by (simp add: uint_word_ariths mod_mod_cancel)
    then show ?thesis by (metis mod_diff_left_eq)
  qed
  show ?thesis
  proof (cases "j < length adds")
    case True
    then have "uint mb + 1 - int (length (adds @ [(ms, nat (uint mb mod 1024))]) - j) = uint mb - int (length adds - j)" by simp
    then show ?thesis unfolding u using assms(1) True by (metis nth_append)
  next
    case False
    then have "j = length adds" using assms(2) by simp
    then show ?thesis unfolding u by simp
  qed
qed

lemma window_fresh:
  fixes mb :: u64
  assumes "length adds < 1024" "\<forall>j < length adds. snd (adds ! j) = nat ((uint mb - int (length adds - j)) mod 1024)"
  shows "nat (uint mb mod 1024) \<notin> snd ` set adds"
proof -
  have "distinct (map snd (adds @ [(undefined, nat (uint mb mod 1024))]))"
    using window_append [OF assms(2)] assms(1) by (intro window_distinct) auto
  then show ?thesis by simp
qed

subsection \<open>Steps\<close>

context tx_store
begin

lemma slot_set_other: "(\<forall>i. k \<noteq> createElementKey i) \<Longrightarrow> slot T (tx_Set T w k v) i = slot T w i"
  by (metis get_set slot_def)

lemma record_inv:
  assumes inv: "log_inv T w path d rw" and room: "length (rw_adds rw) < bufferSize" and ms: "mutates_ok ms"
    and op: "\<And>r w1. op w = Some (r, w1) \<Longrightarrow> (\<forall>k. log_key rw k \<longrightarrow> tx_Get T w1 k = tx_Get T w k)"
    and run: "rw_record T w rw op keys ms = (Some r, rw', w')"
  shows "log_inv T w' path d rw'"
proof -
  let ?i = "nat (uint (rw_mbIndex rw) mod 1024)"
  obtain w1 where w1: "op w = Some (r, w1)" "w' = tx_Set T w1 (createElementKey ?i) (mutates_json ms)"
    "rw' = rw\<lparr>rw_mbIndex := rw_mbIndex rw + 1, rw_adds := rw_adds rw @ [(ms, ?i)]\<rparr>"
    using run by (auto simp: rw_record_def DoTransactionAndWriteToBuffer_def getIndex_slot Let_def split: if_splits option.splits)
  have keep: "tx_Get T w1 k = tx_Get T w k" if "log_key rw k" for k using op [OF w1(1)] that by blast
  note inv' = inv [unfolded log_inv_def bufferSize_def]
  have win: "\<forall>j < length (rw_adds rw). snd (rw_adds rw ! j) = nat ((uint (rw_mbIndex rw) - int (length (rw_adds rw) - j)) mod 1024)"
    using inv' by blast
  have fresh: "?i \<notin> snd ` set (rw_adds rw)" using window_fresh [OF _ win] room by (simp add: bufferSize_def)
  have patch: "tx_Get T w' (rw_localWriteKey rw) = tx_Get T w (rw_localWriteKey rw)"
    using inv' keep local_key_not_slot w1(2) by (simp add: get_set log_key_def)
  have slots: "slot T w' i = (if i = ?i then Some ms else slot T w i)" for i
    using keep [of "createElementKey i"] w1(2) json_mutates_json [OF ms] by (auto simp: slot_def get_set log_key_def)
  have "slot T w' i = map_of (map prod.swap (rw_adds rw')) i" if "i < 1024" for i
  proof (cases "i = ?i")
    case True
    then have "map_of (map prod.swap (rw_adds rw)) i = None" using fresh by (force simp: map_of_eq_None_iff image_iff)
    with True slots w1(3) show ?thesis by (simp add: map_add_def)
  next
    case False
    with slots inv' that w1(3) show ?thesis by (simp add: map_add_def split: option.split)
  qed
  then show ?thesis
    using inv' patch w1(3) ms room window_append [OF win] unfolding log_inv_def by (auto simp: bufferSize_def split: option.splits)
qed

lemma runner_inv:
  assumes inv: "log_inv T w path d rw" and ok: "\<forall>w ks. \<not> tx_Fails T w ks"
  shows "\<exists>rw' w'. runner_add T w rw = Inr (rw', w') \<and> log_inv T w' path d rw'"
proof (cases "rw_adds rw")
  case Nil
  with inv show ?thesis by (simp add: runner_add_def)
next
  case (Cons a adds)
  obtain ms i where a: "a = (ms, i)" by force
  let ?p = "foldl (\<lambda>p (k, m). AddUnsafe p k m) (rw_state rw) ms"
  let ?w = "tx_Delete T (tx_Set T w (rw_localWriteKey rw) (Serialize ?p)) (createElementKey i)"
  let ?rw = "rw\<lparr>rw_state := ?p, rw_adds := adds\<rparr>"
  have run: "runner_add T w rw = Inr (?rw, ?w)"
    using Cons a ok by (simp add: runner_add_def DeleteBufferElement_def Let_def)
  note inv' = inv [unfolded log_inv_def bufferSize_def]
  have win: "\<forall>j < length (rw_adds rw). snd (rw_adds rw ! j) = nat ((uint (rw_mbIndex rw) - int (length (rw_adds rw) - j)) mod 1024)"
    using inv' by blast
  have len: "length (rw_adds rw) \<le> 1024" using inv' by blast
  have dist: "i \<notin> snd ` set adds" using window_distinct [OF len win] Cons a by simp
  have p: "mutates_ok (pa_keys ?p) \<and> distinct (map fst (pa_keys ?p)) \<and> pa_myID ?p = pa_myID (rw_state rw)"
    using inv' Cons a by (intro add_all_ok) auto
  have patch: "tx_Get T ?w (rw_localWriteKey rw) = Some (Serialize ?p)"
    using inv' local_key_not_slot by (simp add: get_set get_delete)
  have slots: "slot T ?w k = (if k = i then None else slot T w k)" for k
    using inv' local_key_not_slot [of path k, symmetric] by (simp add: slot_def get_set get_delete)
  have "slot T ?w k = map_of (map prod.swap adds) k" if "k < 1024" for k
  proof (cases "k = i")
    case True
    then have "map_of (map prod.swap adds) k = None" using dist by (force simp: map_of_eq_None_iff image_iff)
    with slots True show ?thesis by simp
  next
    case False
    with slots inv' that Cons a show ?thesis by auto
  qed
  moreover have "snd (adds ! j) = nat ((uint (rw_mbIndex rw) - int (length adds - j)) mod 1024)" if "j < length adds" for j
    using win Cons that by (metis Suc_less_eq diff_Suc_Suc length_Cons nth_Cons_Suc)
  ultimately have "log_inv T ?w path d ?rw" using inv' p patch Cons len unfolding log_inv_def by (auto simp: bufferSize_def)
  with run show ?thesis by blast
qed

end

text \<open>The log of a device from a clean start: it is made on a store without entries of an earlier one, then writes,
  deletions and edits of maps alternate with rounds of the thread. Written keys are none of the log's own, the
  queue has room, times are within 64 bits and transactions succeed.\<close>

inductive log_run :: "'w tx_ops \<Rightarrow> string \<Rightarrow> InstanceID \<Rightarrow> remoteWriter \<Rightarrow> 'w \<Rightarrow> bool" for T path deviceID where
  Start: "tx_Get T w (makeLocalWriteKey path) = None \<Longrightarrow> \<forall>i. tx_Get T w (createElementKey i) = None \<Longrightarrow>
    newRemoteWriter ord T w path deviceID = Some rw \<Longrightarrow> mset (ord []) = {#} \<Longrightarrow> log_run T path deviceID rw w"
| Write: "log_run T path deviceID rw w \<Longrightarrow> length (rw_adds rw) < bufferSize \<Longrightarrow> int64 now \<Longrightarrow> \<not> log_key rw key \<Longrightarrow>
    rw_Write T w rw now key value = (Some old, rw', w') \<Longrightarrow> log_run T path deviceID rw' w'"
| Delete: "log_run T path deviceID rw w \<Longrightarrow> length (rw_adds rw) < bufferSize \<Longrightarrow> int64 now \<Longrightarrow> \<not> log_key rw key \<Longrightarrow>
    rw_Delete T w rw now key = (Some old, rw', w') \<Longrightarrow> log_run T path deviceID rw' w'"
| WriteMap: "log_run T path deviceID rw w \<Longrightarrow> length (rw_adds rw) < bufferSize \<Longrightarrow> int64 now \<Longrightarrow>
    \<forall>element. \<not> log_key rw (MakeElementKey mapName element) \<Longrightarrow> \<not> log_key rw (MakeMapKey mapName) \<Longrightarrow>
    WriteMap T w rw now mapName elements toDelete = (Some old', rw', w') \<Longrightarrow> log_run T path deviceID rw' w'"
| Runner: "log_run T path deviceID rw w \<Longrightarrow> runner_add T w rw = Inr (rw', w') \<Longrightarrow> log_run T path deviceID rw' w'"

lemma foldl_keeps: "P s \<Longrightarrow> (\<And>s x. P s \<Longrightarrow> P (f s x)) \<Longrightarrow> P (foldl f s xs)"
  by (induction xs arbitrary: s) auto

lemma map_mutates_keys:
  "\<forall>(k, m) \<in> set (fst (map_mutates mapName ts elements toDelete)). k \<in> range (MakeElementKey mapName) \<and> mt_Timestamp m = ts"
proof -
  let ?P = "\<lambda>s :: mutates \<times> (string \<times> string) list. \<forall>(k, m) \<in> set (fst s). k \<in> range (MakeElementKey mapName) \<and> mt_Timestamp m = ts"
  have upd: "?P (AList.update (MakeElementKey mapName e) m ms, c)" if "?P (ms, c')" "mt_Timestamp m = ts" for e m ms c c'
  proof -
    have "k \<in> range (MakeElementKey mapName) \<and> mt_Timestamp m' = ts" if km: "(k, m') \<in> set (AList.update (MakeElementKey mapName e) m ms)" for k m'
    proof -
      have "k \<in> insert (MakeElementKey mapName e) (fst ` set ms)" using km dom_update [of "MakeElementKey mapName e" m ms] by force
      with update_values [OF km] \<open>?P (ms, c')\<close> \<open>mt_Timestamp m = ts\<close> show ?thesis by auto
    qed
    then show ?thesis by auto
  qed
  have up: "?P (foldl (\<lambda>(ms, conv) (element, v). (AList.update (MakeElementKey mapName element)
      \<lparr>mt_Timestamp = ts, mt_Value = v, mt_Deletion = False\<rparr> ms, AList.update (MakeElementKey mapName element) element conv)) ([], []) elements)"
  proof (rule foldl_keeps [where P = ?P])
    fix s :: "mutates \<times> (string \<times> string) list" and x :: "string \<times> bytes option"
    assume "?P s"
    then show "?P ((\<lambda>(ms, conv) (element, v). (AList.update (MakeElementKey mapName element)
      \<lparr>mt_Timestamp = ts, mt_Value = v, mt_Deletion = False\<rparr> ms, AList.update (MakeElementKey mapName element) element conv)) s x)"
      using upd [of "fst s" "snd s"] unfolding case_prod_unfold by (metis fst_conv prod.collapse Mutate.select_convs(1))
  qed simp
  show ?thesis unfolding map_mutates_def Let_def
  proof (rule foldl_keeps [where P = ?P, OF up])
    fix s :: "mutates \<times> (string \<times> string) list" and x :: string
    assume "?P s"
    then show "?P ((\<lambda>(ms, conv) element. (AList.update (MakeElementKey mapName element)
      \<lparr>mt_Timestamp = ts, mt_Value = None, mt_Deletion = True\<rparr> ms, AList.update (MakeElementKey mapName element) element conv)) s x)"
      using upd [of "fst s" "snd s"] unfolding case_prod_unfold by (metis fst_conv prod.collapse Mutate.select_convs(1))
  qed
qed

context tx_store
begin

lemma edit_map_other:
  "k \<notin> fst ` set ms \<Longrightarrow> tx_Get T (snd (snd (edit_map T conv (mapSet, old, w) ms))) k = tx_Get T w k"
  by (induction ms arbitrary: mapSet old w) (auto simp: Let_def get_set get_delete)

lemma log_run_inv:
  assumes "log_run T path deviceID rw w" "\<forall>w ks. \<not> tx_Fails T w ks"
  shows "log_inv T w path deviceID rw"
  using assms(1)
proof induction
  case (Start w ord rw)
  have empty: "slot T w i = None" for i using Start(2) by (simp add: slot_def)
  have "snd (loadBuffer T w) = []" by (simp add: loadBuffer_transactions empty)
  with Start(1,3,4) empty show ?case
    by (auto simp: newRemoteWriter_def log_inv_def newPatch_def mutates_ok_def case_prod_unfold Let_def)
next
  case (Write rw w now key v old rw' w')
  have "log_key rw k \<Longrightarrow> tx_Get T (tx_Set T w key b) k = tx_Get T w k" for k b using Write(4) by (auto simp: get_set)
  moreover have "mutates_ok (msmm key \<lparr>mt_Timestamp = now, mt_Value = v, mt_Deletion = False\<rparr>)"
    using Write(3) by (simp add: mutates_ok_def msmm_def)
  ultimately show ?case by (intro record_inv [OF Write.IH Write(2) _ _ Write(5) [unfolded rw_Write_def Let_def]]) auto
next
  case (Delete rw w now key old rw' w')
  have "log_key rw k \<Longrightarrow> tx_Get T (tx_Delete T w key) k = tx_Get T w k" for k using Delete(4) by (auto simp: get_delete)
  moreover have "mutates_ok (msmm key \<lparr>mt_Timestamp = now, mt_Value = None, mt_Deletion = True\<rparr>)"
    using Delete(3) by (simp add: mutates_ok_def msmm_def)
  ultimately show ?case by (intro record_inv [OF Delete.IH Delete(2) _ _ Delete(5) [unfolded rw_Delete_def Let_def]]) auto
next
  case (WriteMap rw w now mapName elements toDelete old rw' w')
  obtain ms conv where ms: "map_mutates mapName now elements toDelete = (ms, conv)" by force
  have keys: "\<forall>(k, m) \<in> set ms. k \<in> range (MakeElementKey mapName) \<and> mt_Timestamp m = now"
    using map_mutates_keys [of mapName now elements toDelete] ms by simp
  have other: "tx_Get T (snd (snd (edit_map T conv (mapSet, [], w) ms))) k = tx_Get T w k" if "log_key rw k" for k mapSet
    using keys WriteMap(4) that by (intro edit_map_other) fastforce
  have "log_key rw k \<Longrightarrow> tx_Get T (tx_Set T (snd (snd (edit_map T conv (mapSet, [], w) ms))) (MakeMapKey mapName) v) k = tx_Get T w k"
    for k v mapSet using WriteMap(5) other by (auto simp: get_set)
  moreover have "mutates_ok ms" using keys WriteMap(3) by (auto simp: mutates_ok_def)
  ultimately show ?case
    by (intro record_inv [OF WriteMap.IH WriteMap(2) _ _ WriteMap(6) [unfolded WriteMap_def Let_def ms prod.case]])
      (auto simp: case_prod_unfold split: option.splits)
next
  case (Runner rw w rw' w')
  then show ?case using runner_inv [OF Runner.IH assms(2)] by auto
qed

lemma log_inv_restart:
  assumes inv: "log_inv T w path deviceID rw" and ord: "\<And>xs. mset (ord xs) = mset xs"
  shows "\<exists>rw'. newRemoteWriter ord T w path deviceID = Some rw' \<and> rw_state rw' = rw_state rw \<and> mset (rw_adds rw') = mset (rw_adds rw)"
proof -
  note inv' = inv [unfolded log_inv_def]
  obtain mb rem where load: "loadBuffer T w = (mb, rem)" by force
  have "distinct (map snd (rw_adds rw))" "snd ` set (rw_adds rw) \<subseteq> {..<bufferSize}"
    using inv' window_distinct [of "rw_adds rw" "uint (rw_mbIndex rw)"] window_below [of "rw_adds rw" "uint (rw_mbIndex rw)"]
    by (simp_all add: bufferSize_def)
  then have "mset rem = mset (map prod.swap (rw_adds rw))"
    using loadBuffer_mset [of T w "map prod.swap (rw_adds rw)"] inv' load by (auto simp: comp_def image_image)
  then have adds: "mset (map (\<lambda>(i, m). (m, i)) (ord rem)) = mset (rw_adds rw)"
    using ord [of rem] by (simp add: image_mset.compositionality comp_def case_prod_unfold)
  have "(case tx_Get T w (makeLocalWriteKey path) of Some data \<Rightarrow> Deserialize (newPatch deviceID) data | None \<Rightarrow> Some (newPatch deviceID)) =
      Some (rw_state rw)"
    using inv' Deserialize_Serialize [of "rw_state rw"] by (auto simp: newPatch_def split: option.splits)
  with adds load show ?thesis by (simp add: newRemoteWriter_def)
qed

end

subsection \<open>A restart with a single pending slot\<close>

lemma scan_free:
  "\<forall>i \<in> set is. slot T w i = None \<Longrightarrow> foldl (scan_slot T w) s is = s\<lparr>bk_currentSize := bk_currentSize s + length is\<rparr>"
  by (induction "is" arbitrary: s) (auto simp: scan_slot_def slot_def split: option.splits)

lemma loadBuffer_single:
  assumes "i < 1023" "slot T w i = Some ms" "\<forall>j. j \<noteq> i \<longrightarrow> slot T w j = None"
  shows "loadBuffer T w = (word_of_nat i, [(i, ms)])"
proof -
  have "[0..<bufferSize] = [0..<i] @ i # [Suc i..<1024]"
    using assms(1) upt_add_eq_append [of 0 i "1024 - i"] upt_conv_Cons [of i 1024] by (simp add: bufferSize_def)
  moreover have "scan_slot T w (empty_scan\<lparr>bk_currentSize := i\<rparr>) i =
      \<lparr>bk_transactions = [(i, ms)], bk_largestSize = i, bk_largestStart = 0, bk_currentSize = 0, bk_currentStart = i, bk_firstStart = i\<rparr>"
    using assms(1,2) by (auto simp: scan_slot_def slot_def empty_scan_def Let_def split: option.splits)
  ultimately have "foldl (scan_slot T w) empty_scan [0..<bufferSize] =
      \<lparr>bk_transactions = [(i, ms)], bk_largestSize = i, bk_largestStart = 0, bk_currentSize = 1023 - i, bk_currentStart = i, bk_firstStart = i\<rparr>"
    using assms(3) by (simp add: scan_free empty_scan_def)
  with assms(1) show ?thesis by (simp add: loadBuffer_def Let_def bufferSize_def)
qed

context tx_store
begin

lemma write_at_slot:
  assumes ok: "\<forall>w ks. \<not> tx_Fails T w ks" and i: "i < 1023" "rw_mbIndex rw = word_of_nat i" and key: "\<not> log_key rw key"
    and now: "int64 now" and run: "rw_Write T w rw now key v = (res, rw', w')"
  shows "slot T w' j = (if j = i then Some (msmm key \<lparr>mt_Timestamp = now, mt_Value = v, mt_Deletion = False\<rparr>) else slot T w j)"
    "tx_Get T w' (rw_localWriteKey rw) = (if \<exists>j. rw_localWriteKey rw = createElementKey j then tx_Get T w' (rw_localWriteKey rw) else tx_Get T w (rw_localWriteKey rw))"
proof -
  let ?ms = "msmm key \<lparr>mt_Timestamp = now, mt_Value = v, mt_Deletion = False\<rparr>"
  have "fst (getIndex (word_of_nat i)) = i"
    using i(1) by (simp add: getIndex_slot unsigned_of_nat take_bit_nat_eq_self)
  then have w': "w' = tx_Set T (tx_Set T w key (file_data v)) (createElementKey i) (mutates_json ?ms)"
    using run ok i(2) by (simp add: rw_Write_def rw_record_def DoTransactionAndWriteToBuffer_def Let_def case_prod_unfold)
  have "mutates_ok ?ms" using now by (simp add: mutates_ok_def msmm_def)
  then show "slot T w' j = (if j = i then Some ?ms else slot T w j)"
    using key w' by (auto simp: slot_def get_set log_key_def json_mutates_json)
  show "tx_Get T w' (rw_localWriteKey rw) = (if \<exists>j. rw_localWriteKey rw = createElementKey j then tx_Get T w' (rw_localWriteKey rw) else tx_Get T w (rw_localWriteKey rw))"
    using key w' by (auto simp: get_set log_key_def)
qed

lemma restart_overwrites:
  assumes ok: "\<forall>w ks. \<not> tx_Fails T w ks" and i: "i < 1023" "slot T w i = Some ms" "\<forall>j. j \<noteq> i \<longrightarrow> slot T w j = None"
    and rw: "newRemoteWriter id T w path deviceID = Some rw" and key: "\<not> log_key rw key" "int64 now"
    and run: "rw_Write T w rw now key v = (res, rw', w')" and rw2: "newRemoteWriter id T w' path deviceID = Some rw2"
  shows "rw_adds rw = [(ms, i)] \<and>
    rw_adds rw2 = [(msmm key \<lparr>mt_Timestamp = now, mt_Value = v, mt_Deletion = False\<rparr>, i)] \<and> rw_state rw2 = rw_state rw"
proof -
  let ?m = "msmm key \<lparr>mt_Timestamp = now, mt_Value = v, mt_Deletion = False\<rparr>"
  have r: "rw_adds rw = [(ms, i)]" "rw_mbIndex rw = word_of_nat i" "rw_localWriteKey rw = makeLocalWriteKey path"
    using rw loadBuffer_single [OF i] by (auto simp: newRemoteWriter_def split: option.splits)
  note s = write_at_slot [OF ok i(1) r(2) key run]
  have load: "loadBuffer T w' = (word_of_nat i, [(i, ?m)])" using i s(1) by (intro loadBuffer_single) auto
  have "tx_Get T w' (makeLocalWriteKey path) = tx_Get T w (makeLocalWriteKey path)"
    using s(2) r(3) local_key_not_slot by auto
  with rw rw2 load r(1) show ?thesis by (auto simp: newRemoteWriter_def split: option.splits prod.splits)
qed

end

section \<open>Properties\<close>

text \<open>C9: No mutation is lost when a device stops. However writes, deletions and edits of maps alternate with
  rounds of the thread from a clean start, as long as each is made while fewer than 1024 transactions wait
  for the thread, a new log on the store as it is has the same patch and exactly the transactions that were
  waiting, in whatever order Go iterates over them.\<close>

theorem no_mutation_lost:
  assumes "tx_store T" "\<forall>w ks. \<not> tx_Fails T w ks" "log_run T path deviceID rw w" "\<And>xs. mset (ord xs) = mset xs"
  shows "\<exists>rw'. newRemoteWriter ord T w path deviceID = Some rw' \<and> rw_state rw' = rw_state rw \<and> mset (rw_adds rw') = mset (rw_adds rw)"
  using tx_store.log_inv_restart [OF assms(1) tx_store.log_run_inv [OF assms(1,3,2)] assms(4)] .

definition log_example :: "remoteWriter \<times> (string \<rightharpoonup> stored)" where
  "log_example =
     (let rw = the (newRemoteWriter id mem_tx Map.empty ''p'' (replicate 8 1))
      in snd (rw_Write mem_tx Map.empty rw 7 ''k'' (Some [1])))"

lemma log_example_run: "log_run mem_tx ''p'' (replicate 8 1) (fst log_example) (snd log_example)"
proof -
  let ?rw = "the (newRemoteWriter id mem_tx Map.empty ''p'' (replicate 8 1))"
  have "snd (loadBuffer mem_tx Map.empty) = []" by (simp add: loadBuffer_transactions slot_def mem_tx_def)
  then have rw: "newRemoteWriter id mem_tx Map.empty ''p'' (replicate 8 1) = Some ?rw" "rw_adds ?rw = []"
    "rw_localWriteKey ?rw = ''TransactionLog_p''"
    by (simp_all add: newRemoteWriter_def mem_tx_def case_prod_unfold makeLocalWriteKey_def)
  have start: "log_run mem_tx ''p'' (replicate 8 1) ?rw Map.empty"
    by (rule log_run.Start [OF _ _ rw(1)]) (simp_all add: mem_tx_def)
  have wrote: "rw_Write mem_tx Map.empty ?rw 7 ''k'' (Some [1]) = (Some None, fst log_example, snd log_example)"
    by (simp add: log_example_def Let_def rw_Write_def rw_record_def DoTransactionAndWriteToBuffer_def mem_tx_def case_prod_unfold)
  show ?thesis
    by (rule log_run.Write [OF start _ _ _ wrote]) (simp_all add: rw(2,3) log_key_def bufferSize_def createElementKey_def buffElementKey_def)
qed

theorem no_mutation_lost_witness:
  "\<exists>rw'. newRemoteWriter rev mem_tx (snd log_example) ''p'' (replicate 8 1) = Some rw' \<and>
     mset (rw_adds rw') = mset (rw_adds (fst log_example))"
  using no_mutation_lost [OF mem_tx.tx_store_axioms _ log_example_run, of rev] by (auto simp: mem_tx_healthy)

text \<open>The bound on the waiting transactions is needed: a write on a full queue takes the slot of the oldest
  transaction that waits before the channel makes it wait, so that a stop at this moment loses
  the mutations of that transaction, which are in the store but neither in the patch nor in the buffer.\<close>

theorem full_queue_loses_oldest:
  assumes "tx_store T" "\<forall>w ks. \<not> tx_Fails T w ks" "log_run T path deviceID rw w" "\<And>xs. mset (ord xs) = mset xs"
    and "rw_adds rw = (old, i) # adds" "length (rw_adds rw) = bufferSize" "int64 now" "\<not> log_key rw key"
    and "rw_Write T w rw now key v = (Some r, rw', w')"
  shows "\<exists>rw2. newRemoteWriter ord T w' path deviceID = Some rw2 \<and> rw_state rw2 = rw_state rw \<and>
    mset (rw_adds rw2) = mset (adds @ [(msmm key \<lparr>mt_Timestamp = now, mt_Value = v, mt_Deletion = False\<rparr>, i)])"
proof -
  let ?ms = "msmm key \<lparr>mt_Timestamp = now, mt_Value = v, mt_Deletion = False\<rparr>"
  let ?xs = "map prod.swap (adds @ [(?ms, i)])"
  have inv: "log_inv T w path deviceID rw" by (rule tx_store.log_run_inv [OF assms(1,3,2)])
  note inv' = inv [unfolded log_inv_def]
  have win: "\<forall>j < length (rw_adds rw). snd (rw_adds rw ! j) = nat ((uint (rw_mbIndex rw) - int (length (rw_adds rw) - j)) mod 1024)"
    using inv' by blast
  have "uint (rw_mbIndex rw) mod 1024 = (uint (rw_mbIndex rw) - 1024) mod 1024" by (simp add: mod_eq_dvd_iff)
  then have i: "i = nat (uint (rw_mbIndex rw) mod 1024)" using win [rule_format, of 0] assms(5,6) by (simp add: bufferSize_def)
  then have w': "w' = tx_Set T (tx_Set T w key (file_data v)) (createElementKey i) (mutates_json ?ms)"
    using assms(2,9) by (auto simp: rw_Write_def rw_record_def DoTransactionAndWriteToBuffer_def getIndex_slot Let_def split: if_splits option.splits)
  have keep: "tx_Get T w' k = (if k = createElementKey i then Some (mutates_json ?ms) else tx_Get T w k)" if "log_key rw k" for k
    using that assms(8) by (auto simp: w' tx_store.get_set [OF assms(1)])
  have ok: "mutates_ok ?ms" using assms(7) by (simp add: mutates_ok_def msmm_def)
  have slots: "slot T w' j = (if j = i then Some ?ms else slot T w j)" for j
    using keep [of "createElementKey j"] json_mutates_json [OF ok] by (auto simp: slot_def log_key_def)
  have d: "distinct (map snd (rw_adds rw))" "snd ` set (rw_adds rw) \<subseteq> {..<bufferSize}"
    using window_distinct [OF _ win] window_below [OF win] assms(6) by (simp_all add: bufferSize_def)
  have none: "map_of (map prod.swap adds) i = None" using d(1) assms(5) by (force simp: map_of_eq_None_iff image_iff)
  have "slot T w' j = map_of ?xs j" if "j < bufferSize" for j
    using inv' that none slots assms(5) by (cases "j = i") (auto simp: map_add_def split: option.split)
  moreover have "distinct (map fst ?xs)" "fst ` set ?xs \<subseteq> {..<bufferSize}" using d assms(5) by (auto simp: comp_def image_image)
  ultimately have "mset (snd (loadBuffer T w')) = mset ?xs" by (intro loadBuffer_mset) auto
  then have rem: "mset (map (\<lambda>(i, m). (m, i)) (ord (snd (loadBuffer T w')))) = mset (adds @ [(?ms, i)])"
    using assms(4) [of "snd (loadBuffer T w')"] by (simp add: image_mset.compositionality comp_def case_prod_unfold)
  have "tx_Get T w' (makeLocalWriteKey path) = tx_Get T w (makeLocalWriteKey path)"
    using keep [of "makeLocalWriteKey path"] inv' local_key_not_slot by (simp add: log_key_def)
  then have "(case tx_Get T w' (makeLocalWriteKey path) of Some data \<Rightarrow> Deserialize (newPatch deviceID) data | None \<Rightarrow> Some (newPatch deviceID)) =
      Some (rw_state rw)"
    using inv' Deserialize_Serialize [of "rw_state rw"] by (auto simp: newPatch_def split: option.splits)
  with rem show ?thesis by (simp add: newRemoteWriter_def case_prod_unfold Let_def)
qed

text \<open>C35: After a restart the buffer hands out a slot that is still in use. When one transaction was left in slot \<open>i\<close>,
  the next write takes that slot, so that a second stop before the thread has run loses the transaction:
  the new log has only the later write.\<close>

theorem restart_reuses_slot:
  assumes "tx_store T" "\<forall>w ks. \<not> tx_Fails T w ks" "i < 1023" "slot T w i = Some ms" "\<forall>j. j \<noteq> i \<longrightarrow> slot T w j = None"
    and "newRemoteWriter id T w path deviceID = Some rw" "\<not> log_key rw key" "int64 now"
    and "rw_Write T w rw now key v = (res, rw', w')" "newRemoteWriter id T w' path deviceID = Some rw2"
  shows "rw_adds rw = [(ms, i)] \<and>
    rw_adds rw2 = [(msmm key \<lparr>mt_Timestamp = now, mt_Value = v, mt_Deletion = False\<rparr>, i)] \<and> rw_state rw2 = rw_state rw"
  by (rule tx_store.restart_overwrites [OF assms])

definition left_behind :: "string \<rightharpoonup> stored" where
  "left_behind = [createElementKey 5 \<mapsto> mutates_json (msmm ''a'' \<lparr>mt_Timestamp = 1, mt_Value = None, mt_Deletion = True\<rparr>)]"

theorem restart_reuses_slot_witness:
  "\<exists>rw2. newRemoteWriter id mem_tx
       (snd (snd (rw_Write mem_tx left_behind (the (newRemoteWriter id mem_tx left_behind ''p'' [])) 7 ''k'' None))) ''p'' [] = Some rw2 \<and>
     rw_adds rw2 = [(msmm ''k'' \<lparr>mt_Timestamp = 7, mt_Value = None, mt_Deletion = False\<rparr>, 5)]"
proof -
  let ?rw = "the (newRemoteWriter id mem_tx left_behind ''p'' [])"
  let ?r = "rw_Write mem_tx left_behind ?rw 7 ''k'' None"
  have slot: "slot mem_tx left_behind j = (if j = 5 then Some (msmm ''a'' \<lparr>mt_Timestamp = 1, mt_Value = None, mt_Deletion = True\<rparr>) else None)" for j
    by (simp add: slot_def mem_tx_def left_behind_def json_mutates_json mutates_ok_def msmm_def)
  have local: "left_behind ''TransactionLog_p'' = None"
    by (simp add: left_behind_def createElementKey_def buffElementKey_def)
  have load: "loadBuffer mem_tx left_behind = (word_of_nat 5, [(5, msmm ''a'' \<lparr>mt_Timestamp = 1, mt_Value = None, mt_Deletion = True\<rparr>)])"
    by (rule loadBuffer_single) (simp_all add: slot)
  have rw: "newRemoteWriter id mem_tx left_behind ''p'' [] = Some ?rw" "rw_localWriteKey ?rw = ''TransactionLog_p''" "rw_mbIndex ?rw = 5"
    using local load by (simp_all add: newRemoteWriter_def mem_tx_def [abs_def] makeLocalWriteKey_def)
  have key: "\<not> log_key ?rw ''k''" using rw(2) by (simp add: log_key_def createElementKey_def buffElementKey_def)
  have run: "?r = (fst ?r, fst (snd ?r), snd (snd ?r))" by simp
  have "snd (snd ?r) ''TransactionLog_p'' = None"
    using local rw(3) by (simp add: rw_Write_def rw_record_def DoTransactionAndWriteToBuffer_def Let_def case_prod_unfold mem_tx_def
      createElementKey_def buffElementKey_def)
  then obtain rw2 where rw2: "newRemoteWriter id mem_tx (snd (snd ?r)) ''p'' [] = Some rw2"
    by (simp add: newRemoteWriter_def makeLocalWriteKey_def mem_tx_def case_prod_unfold Let_def)
  show ?thesis
    using restart_reuses_slot [OF mem_tx.tx_store_axioms _ _ _ _ rw(1) key _ run rw2, of 5] rw2 by (auto simp: mem_tx_healthy slot)
qed

subsection \<open>Elements of maps\<close>

lemma last_MakeElementKey: "last (MakeElementKey m e) = CHR ''t''" "last (MakeMapKey m) = CHR ''s''"
  by (simp_all add: MakeElementKey_def MapElementKeySuffix_def MakeMapKey_def MapKeysListSuffix_def MapDesignator_def)

lemma map_keys_not_slot: "MakeElementKey m e \<noteq> createElementKey i" "MakeMapKey m \<noteq> createElementKey i"
proof -
  have "last (createElementKey i) \<in> set (nat_dec i)" by (simp add: createElementKey_def itoa_def)
  then have d: "is_digit (last (createElementKey i))" using nat_dec_digits [of i] by (auto simp: list_all_iff)
  have "\<not> is_digit (last (MakeElementKey m e))" "\<not> is_digit (last (MakeMapKey m))" unfolding last_MakeElementKey by (simp_all add: is_digit_def)
  with d show "MakeElementKey m e \<noteq> createElementKey i" "MakeMapKey m \<noteq> createElementKey i" by metis+
qed

lemma element_not_map [simp]: "MakeElementKey m e \<noteq> MakeMapKey m'" "MakeMapKey m' \<noteq> MakeElementKey m e"
proof -
  have "last (MakeElementKey m e) \<noteq> last (MakeMapKey m')" unfolding last_MakeElementKey by simp
  then show "MakeElementKey m e \<noteq> MakeMapKey m'" "MakeMapKey m' \<noteq> MakeElementKey m e" by metis+
qed

lemma element_key_eq:
  assumes "length e < 2 ^ 63" "length e' < 2 ^ 63"
  shows "MakeElementKey m e = MakeElementKey m' e' \<longleftrightarrow> m = m' \<and> e = e'"
  using GetElementName_MakeElementKey [OF assms(1), of m] GetElementName_MakeElementKey [OF assms(2), of m'] by (metis Inr_inject prod.inject)

context tx_store
begin

text \<open>An edit of one element.\<close>

lemma WriteMap_single:
  assumes "\<forall>w ks. \<not> tx_Fails T w ks" "getMapFile (tx_Get T w (MakeMapKey mapName)) = Some names"
    and "elements = [] \<and> toDelete = [e] \<and> names' = removeAll e names \<and> new = None \<or>
      elements = [(e, v)] \<and> toDelete = [] \<and> names' = List.insert e names \<and> new = Some (file_data v)"
  shows "\<exists>rw' w'. WriteMap T w rw now mapName elements toDelete = (Some [(e, tx_Get T w (MakeElementKey mapName e))], rw', w') \<and>
    (\<forall>k. (\<forall>i. k \<noteq> createElementKey i) \<longrightarrow>
      tx_Get T w' k = (if k = MakeMapKey mapName then Some (map_file names') else if k = MakeElementKey mapName e then new else tx_Get T w k))"
proof -
  from assms(3) show ?thesis
    using assms(1,2)
    by (elim disjE conjE)
      (auto simp: WriteMap_def map_mutates_def rw_record_def DoTransactionAndWriteToBuffer_def Let_def get_set get_delete split: prod.split)
qed

end

text \<open>C10: Storing an element of a map makes it readable with that value, deleting it makes it unknown and returns what it
  held, and both leave every other element, of this and of other maps, as it was.\<close>

theorem map_elements_exact:
  assumes "tx_store T" "\<forall>w ks. \<not> tx_Fails T w ks" "maps_readable T w" "length e < 2 ^ 63"
  shows "\<exists>report rw1 w1 rw2 w2. StoreMapElement T w rw now mapName e v = (True, report, rw1, w1) \<and>
      GetMapElement T w1 mapName e = Inr (file_data v) \<and>
      DeleteMapElement T w1 rw1 now' mapName e = (Some (Some (file_data v), [(e, Some (file_data v), None, Deleted)]), rw2, w2) \<and>
      GetMapElement T w2 mapName e = Inl MapElementNotFound \<and>
      (\<forall>m' e'. length e' < 2 ^ 63 \<and> (m', e') \<noteq> (mapName, e) \<longrightarrow>
        GetMapElement T w1 m' e' = GetMapElement T w m' e' \<and> GetMapElement T w2 m' e' = GetMapElement T w m' e')"
proof -
  obtain names where names: "getMapFile (tx_Get T w (MakeMapKey mapName)) = Some names"
    using assms(3) by (auto simp: maps_readable_def)
  obtain rw1 w1 where w1: "WriteMap T w rw now mapName [(e, v)] [] = (Some [(e, tx_Get T w (MakeElementKey mapName e))], rw1, w1)"
    "\<And>k. (\<And>i. k \<noteq> createElementKey i) \<Longrightarrow> tx_Get T w1 k =
      (if k = MakeMapKey mapName then Some (map_file (List.insert e names)) else if k = MakeElementKey mapName e then Some (file_data v) else tx_Get T w k)"
    using tx_store.WriteMap_single [OF assms(1,2) names, of "[(e, v)]" "[]" e "List.insert e names" "Some (file_data v)" v rw now] by auto
  have names1: "getMapFile (tx_Get T w1 (MakeMapKey mapName)) = Some (List.insert e names)"
    using w1(2) [OF map_keys_not_slot(2), of mapName] by (simp add: getMapFile_map_file)
  obtain rw2 w2 where w2: "WriteMap T w1 rw1 now' mapName [] [e] = (Some [(e, tx_Get T w1 (MakeElementKey mapName e))], rw2, w2)"
    "\<And>k. (\<And>i. k \<noteq> createElementKey i) \<Longrightarrow> tx_Get T w2 k =
      (if k = MakeMapKey mapName then Some (map_file (removeAll e (List.insert e names))) else if k = MakeElementKey mapName e then None else tx_Get T w1 k)"
    using tx_store.WriteMap_single [OF assms(1,2) names1, of "[]" "[e]" e "removeAll e (List.insert e names)" None v rw1 now'] by auto
  note keys = w1(2) [OF map_keys_not_slot(1)] w1(2) [OF map_keys_not_slot(2)] w2(2) [OF map_keys_not_slot(1)] w2(2) [OF map_keys_not_slot(2)]
  have e: "MakeElementKey m' e' = MakeElementKey mapName e \<longleftrightarrow> m' = mapName \<and> e' = e"
    if "length e' < 2 ^ 63" for m' e' using element_key_eq [OF that assms(4)] by auto
  have el: "tx_Get T w1 (MakeElementKey mapName e) = Some (file_data v)" using keys(1) by simp
  have "GetMapElement T w1 m' e' = GetMapElement T w m' e' \<and> GetMapElement T w2 m' e' = GetMapElement T w m' e'"
    if "length e' < 2 ^ 63" "(m', e') \<noteq> (mapName, e)" for m' e'
    using that names assms(2) e [OF that(1)] keys(1-4) by (cases "m' = mapName") (auto simp: GetMapElement_def Let_def getMapFile_map_file MakeMapKey_inj split: option.split)
  moreover have "GetMapElement T w1 mapName e = Inr (file_data v)"
    using el keys(2) assms(2) by (simp add: GetMapElement_def getMapFile_map_file)
  moreover have "GetMapElement T w2 mapName e = Inl MapElementNotFound"
    using keys(4) assms(2) by (simp add: GetMapElement_def getMapFile_map_file)
  ultimately show ?thesis
    using w1(1) w2(1) el by (simp add: StoreMapElement_def DeleteMapElement_def Let_def)
qed

theorem map_elements_exact_witness:
  "\<exists>report rw1 w1. StoreMapElement mem_tx Map.empty (fst log_example) 7 ''m'' ''e'' (Some [1]) = (True, report, rw1, w1) \<and>
     GetMapElement mem_tx w1 ''m'' ''e'' = Inr (Raw [1])"
  using map_elements_exact [OF mem_tx.tx_store_axioms, of Map.empty "''e''" "fst log_example" 7 "''m''" "Some [1]" 8]
  by (auto simp: mem_tx_healthy mem_tx_readable file_data_def)

end
