(* ===== verification/Single_Use.thy ===== *)
theory Single_Use
  imports Go_Prelude "HOL-Library.Multiset"
begin

text \<open>
  Single-use requests and responses (\<open>single\<close> and \<open>single/message\<close>): the wire formats, the collator that puts
  the parts of a payload together, and both ends of the exchange. The fields of a message are slices of
  one byte array; a setter writes the field and the array at its offset. The group and the
  key derivations come from other libraries and are the record \<open>su_crypto\<close>; what the network answers is
  the record \<open>su_net\<close>. A round is its identifier. The error texts, logging and the round results that a
  response waits for are left out.
\<close>

section \<open>Requests\<close>

definition requestVersion :: byte where "requestVersion = 0"
definition requestVersionSize :: nat where "requestVersionSize = 1"

record Request =
  rq_data :: bytes
  rq_version :: bytes
  rq_pubKey :: bytes
  rq_payload :: bytes

definition mapRequest :: "bytes \<Rightarrow> nat \<Rightarrow> fault + Request" where
  "mapRequest data pubKeySize =
     res_bind (slice data 0 requestVersionSize) (\<lambda>version.
     res_bind (slice data requestVersionSize (requestVersionSize + pubKeySize)) (\<lambda>pubKey.
     res_bind (slice data (requestVersionSize + pubKeySize) (length data)) (\<lambda>payload.
     Inr \<lparr>rq_data = data, rq_version = version, rq_pubKey = pubKey, rq_payload = payload\<rparr>)))"

definition NewRequest :: "nat \<Rightarrow> nat \<Rightarrow> fault + Request" where
  "NewRequest externalPayloadSize pubKeySize =
     (if externalPayloadSize < pubKeySize then Inl FatalPanic
      else
        res_bind (mapRequest (replicate externalPayloadSize 0) pubKeySize) (\<lambda>tm.
        Inr (tm\<lparr>rq_data := copy_at (rq_data tm) 0 [requestVersion], rq_version := copy_at (rq_version tm) 0 [requestVersion]\<rparr>)))"

definition GetRequestPayloadSize :: "nat \<Rightarrow> nat \<Rightarrow> int" where
  "GetRequestPayloadSize externalPayloadSize pubKeySize =
     int externalPayloadSize - int requestVersionSize - int pubKeySize"

datatype su_error =
    ReqDataSize | ReqPayloadDataSize | ReqPartDataSize | ResPartDataSize
  | MaxParts | PartOutOfRange | PartExists
  | MacVerification | PayloadSize | NetworkHealth | MakeDhKeys | MakeNonce | NewEphemeralID
  | AddFingerprintFailed | SendFailed | RequestUsed | MaxResponseLength | TrackFailed

definition UnmarshalRequest :: "bytes \<Rightarrow> nat \<Rightarrow> fault + (su_error + Request)" where
  "UnmarshalRequest b pubKeySize =
     (if length b < pubKeySize then Inr (Inl ReqDataSize)
      else res_bind (mapRequest b pubKeySize) (\<lambda>r. Inr (Inr r)))"

definition rq_Version :: "Request \<Rightarrow> fault + byte" where
  "rq_Version m = index (rq_version m) 0"

text \<open>\<open>padded\<close> is the public key, padded to the length of the field.\<close>

definition rq_SetPubKey :: "Request \<Rightarrow> bytes \<Rightarrow> Request" where
  "rq_SetPubKey m padded =
     (let new = copy_at (rq_pubKey m) 0 padded
      in m\<lparr>rq_data := copy_at (rq_data m) requestVersionSize new, rq_pubKey := new\<rparr>)"

definition rq_SetPayload :: "Request \<Rightarrow> bytes \<Rightarrow> fault + Request" where
  "rq_SetPayload m payload =
     (if length payload \<noteq> length (rq_payload m) then Inl FatalPanic
      else Inr (m\<lparr>rq_data := copy_at (rq_data m) (requestVersionSize + length (rq_pubKey m)) payload,
                  rq_payload := copy_at (rq_payload m) 0 payload\<rparr>))"

subsection \<open>Payloads of requests\<close>

definition nonceSize :: nat where "nonceSize = 8"
definition numRequestPartsSize :: nat where "numRequestPartsSize = 1"
definition maxResponsePartsSize :: nat where "maxResponsePartsSize = 1"
definition sizeSize :: nat where "sizeSize = 2"
definition requestMinSize :: nat where
  "requestMinSize = nonceSize + numRequestPartsSize + maxResponsePartsSize + sizeSize"

record RequestPayload =
  rqp_data :: bytes
  rqp_nonce :: bytes
  rqp_numRequestParts :: bytes
  rqp_maxResponseParts :: bytes
  rqp_size :: bytes
  rqp_contents :: bytes

definition mapRequestPayload :: "bytes \<Rightarrow> fault + RequestPayload" where
  "mapRequestPayload data =
     res_bind (slice data 0 nonceSize) (\<lambda>nonce.
     res_bind (slice data nonceSize (nonceSize + numRequestPartsSize)) (\<lambda>numRequestParts.
     res_bind (slice data (nonceSize + numRequestPartsSize) (nonceSize + maxResponsePartsSize + numRequestPartsSize)) (\<lambda>maxResponseParts.
     res_bind (slice data (nonceSize + numRequestPartsSize + maxResponsePartsSize) requestMinSize) (\<lambda>sz.
     res_bind (slice data requestMinSize (length data)) (\<lambda>contents.
     Inr \<lparr>rqp_data = data, rqp_nonce = nonce, rqp_numRequestParts = numRequestParts,
          rqp_maxResponseParts = maxResponseParts, rqp_size = sz, rqp_contents = contents\<rparr>)))))"

definition UnmarshalRequestPayload :: "bytes \<Rightarrow> fault + (su_error + RequestPayload)" where
  "UnmarshalRequestPayload b =
     (if length b < requestMinSize then Inr (Inl ReqPayloadDataSize)
      else res_bind (mapRequestPayload b) (\<lambda>mp. Inr (Inr mp)))"

text \<open>\<open>nonce\<close> is what the random source gives.\<close>

definition rqp_SetNonce :: "RequestPayload \<Rightarrow> bytes \<Rightarrow> RequestPayload" where
  "rqp_SetNonce mp nonce =
     (let new = copy_at (rqp_nonce mp) 0 nonce
      in mp\<lparr>rqp_data := copy_at (rqp_data mp) 0 new, rqp_nonce := new\<rparr>)"

definition rqp_GetNonce :: "RequestPayload \<Rightarrow> fault + u64" where
  "rqp_GetNonce mp = get_be 8 (rqp_nonce mp)"

definition rqp_SetMaxResponseParts :: "RequestPayload \<Rightarrow> byte \<Rightarrow> RequestPayload" where
  "rqp_SetMaxResponseParts mp num =
     mp\<lparr>rqp_data := copy_at (rqp_data mp) (nonceSize + numRequestPartsSize) [num],
        rqp_maxResponseParts := copy_at (rqp_maxResponseParts mp) 0 [num]\<rparr>"

definition rqp_GetMaxResponseParts :: "RequestPayload \<Rightarrow> fault + byte" where
  "rqp_GetMaxResponseParts mp = index (rqp_maxResponseParts mp) 0"

definition rqp_SetNumRequestParts :: "RequestPayload \<Rightarrow> byte \<Rightarrow> RequestPayload" where
  "rqp_SetNumRequestParts mp num =
     mp\<lparr>rqp_data := copy_at (rqp_data mp) nonceSize [num],
        rqp_numRequestParts := copy_at (rqp_numRequestParts mp) 0 [num]\<rparr>"

definition rqp_GetNumRequestParts :: "RequestPayload \<Rightarrow> fault + byte" where
  "rqp_GetNumRequestParts mp = index (rqp_numRequestParts mp) 0"

definition rqp_GetContents :: "RequestPayload \<Rightarrow> fault + bytes" where
  "rqp_GetContents mp = res_bind (get_be 2 (rqp_size mp)) (\<lambda>(n :: u16). slice (rqp_contents mp) 0 (unat n))"

definition rqp_SetContents :: "RequestPayload \<Rightarrow> bytes \<Rightarrow> fault + RequestPayload" where
  "rqp_SetContents mp contents =
     (if length contents > length (rqp_contents mp) then Inl FatalPanic
      else
        let sz = copy_at (rqp_size mp) 0 (put_be16 (word_of_nat (length contents)));
            new = copy_at (rqp_contents mp) 0 contents
        in Inr (mp\<lparr>rqp_data := copy_at (copy_at (rqp_data mp) (nonceSize + numRequestPartsSize + maxResponsePartsSize) sz) requestMinSize new,
                   rqp_size := sz, rqp_contents := new\<rparr>))"

definition NewRequestPayload :: "nat \<Rightarrow> bytes \<Rightarrow> byte \<Rightarrow> fault + RequestPayload" where
  "NewRequestPayload payloadSize payload maxMsgs =
     (if payloadSize < requestMinSize then Inl FatalPanic
      else
        res_bind (mapRequestPayload (replicate payloadSize 0)) (\<lambda>mp.
        rqp_SetContents (rqp_SetMaxResponseParts mp maxMsgs) payload))"

definition GetRequestContentsSize :: "int \<Rightarrow> int" where
  "GetRequestContentsSize payloadSize = payloadSize - int requestMinSize"

subsection \<open>Later parts of requests\<close>

definition reqPartPartNumLen :: nat where "reqPartPartNumLen = 1"
definition reqPartSizeLen :: nat where "reqPartSizeLen = 2"
definition reqPartMinSize :: nat where "reqPartMinSize = reqPartPartNumLen + reqPartSizeLen"

record RequestPart =
  rqt_data :: bytes
  rqt_partNum :: bytes
  rqt_size :: bytes
  rqt_contents :: bytes

definition mapRequestPart :: "bytes \<Rightarrow> fault + RequestPart" where
  "mapRequestPart data =
     res_bind (slice data 0 reqPartPartNumLen) (\<lambda>partNum.
     res_bind (slice data reqPartPartNumLen reqPartMinSize) (\<lambda>sz.
     res_bind (slice data reqPartMinSize (length data)) (\<lambda>contents.
     Inr \<lparr>rqt_data = data, rqt_partNum = partNum, rqt_size = sz, rqt_contents = contents\<rparr>)))"

definition NewRequestPart :: "nat \<Rightarrow> fault + RequestPart" where
  "NewRequestPart externalPayloadSize =
     (if externalPayloadSize < reqPartMinSize then Inl FatalPanic
      else mapRequestPart (replicate externalPayloadSize 0))"

definition GetRequestPartContentsSize :: "nat \<Rightarrow> int" where
  "GetRequestPartContentsSize externalPayloadSize = int externalPayloadSize - int reqPartMinSize"

definition UnmarshalRequestPart :: "bytes \<Rightarrow> fault + (su_error + RequestPart)" where
  "UnmarshalRequestPart b =
     (if length b < reqPartMinSize then Inr (Inl ReqPartDataSize)
      else res_bind (mapRequestPart b) (\<lambda>m. Inr (Inr m)))"

definition rqt_GetPartNum :: "RequestPart \<Rightarrow> fault + byte" where
  "rqt_GetPartNum m = index (rqt_partNum m) 0"

definition rqt_SetPartNum :: "RequestPart \<Rightarrow> byte \<Rightarrow> RequestPart" where
  "rqt_SetPartNum m num =
     m\<lparr>rqt_data := copy_at (rqt_data m) 0 [num], rqt_partNum := copy_at (rqt_partNum m) 0 [num]\<rparr>"

definition rqt_GetNumParts :: "RequestPart \<Rightarrow> byte" where
  "rqt_GetNumParts m = 0"

definition rqt_GetContents :: "RequestPart \<Rightarrow> fault + bytes" where
  "rqt_GetContents m = res_bind (get_be 2 (rqt_size m)) (\<lambda>(n :: u16). slice (rqt_contents m) 0 (unat n))"

definition rqt_SetContents :: "RequestPart \<Rightarrow> bytes \<Rightarrow> fault + RequestPart" where
  "rqt_SetContents m contents =
     (if length contents > length (rqt_contents m) then Inl FatalPanic
      else
        let sz = copy_at (rqt_size m) 0 (put_be16 (word_of_nat (length contents)));
            new = copy_at (rqt_contents m) 0 contents
        in Inr (m\<lparr>rqt_data := copy_at (copy_at (rqt_data m) reqPartPartNumLen sz) reqPartMinSize new,
                  rqt_size := sz, rqt_contents := new\<rparr>))"

section \<open>Responses\<close>

definition resPartVersionLen :: nat where "resPartVersionLen = 1"
definition resPartPartNumLen :: nat where "resPartPartNumLen = 1"
definition resPartMaxPartsLen :: nat where "resPartMaxPartsLen = 1"
definition resPartSizeLen :: nat where "resPartSizeLen = 2"
definition resPartMinSize :: nat where
  "resPartMinSize = resPartVersionLen + resPartPartNumLen + resPartMaxPartsLen + resPartSizeLen"
definition responsePartVersion :: byte where "responsePartVersion = 0"

record ResponsePart =
  rsp_data :: bytes
  rsp_version :: bytes
  rsp_partNum :: bytes
  rsp_maxParts :: bytes
  rsp_size :: bytes
  rsp_contents :: bytes

definition mapResponsePart :: "bytes \<Rightarrow> fault + ResponsePart" where
  "mapResponsePart data =
     res_bind (slice data 0 resPartVersionLen) (\<lambda>version.
     res_bind (slice data resPartVersionLen (resPartVersionLen + resPartPartNumLen)) (\<lambda>partNum.
     res_bind (slice data (resPartVersionLen + resPartPartNumLen) (resPartVersionLen + resPartMaxPartsLen + resPartPartNumLen)) (\<lambda>maxParts.
     res_bind (slice data (resPartVersionLen + resPartMaxPartsLen + resPartPartNumLen) resPartMinSize) (\<lambda>sz.
     res_bind (slice data resPartMinSize (length data)) (\<lambda>contents.
     Inr \<lparr>rsp_data = data, rsp_version = version, rsp_partNum = partNum, rsp_maxParts = maxParts,
          rsp_size = sz, rsp_contents = contents\<rparr>)))))"

definition NewResponsePart :: "nat \<Rightarrow> fault + ResponsePart" where
  "NewResponsePart externalPayloadSize =
     (if externalPayloadSize < resPartMinSize then Inl FatalPanic
      else
        res_bind (mapResponsePart (replicate externalPayloadSize 0)) (\<lambda>rmp.
        Inr (rmp\<lparr>rsp_data := copy_at (rsp_data rmp) 0 [responsePartVersion],
                 rsp_version := copy_at (rsp_version rmp) 0 [responsePartVersion]\<rparr>)))"

definition UnmarshalResponsePart :: "bytes \<Rightarrow> fault + (su_error + ResponsePart)" where
  "UnmarshalResponsePart data =
     (if length data < resPartMinSize then Inr (Inl ResPartDataSize)
      else res_bind (mapResponsePart data) (\<lambda>m. Inr (Inr m)))"

definition rsp_GetPartNum :: "ResponsePart \<Rightarrow> fault + byte" where
  "rsp_GetPartNum m = index (rsp_partNum m) 0"

definition rsp_SetPartNum :: "ResponsePart \<Rightarrow> byte \<Rightarrow> ResponsePart" where
  "rsp_SetPartNum m num =
     m\<lparr>rsp_data := copy_at (rsp_data m) resPartVersionLen [num], rsp_partNum := copy_at (rsp_partNum m) 0 [num]\<rparr>"

definition rsp_GetNumParts :: "ResponsePart \<Rightarrow> fault + byte" where
  "rsp_GetNumParts m = index (rsp_maxParts m) 0"

definition rsp_SetNumParts :: "ResponsePart \<Rightarrow> byte \<Rightarrow> ResponsePart" where
  "rsp_SetNumParts m num =
     m\<lparr>rsp_data := copy_at (rsp_data m) (resPartVersionLen + resPartPartNumLen) [num],
       rsp_maxParts := copy_at (rsp_maxParts m) 0 [num]\<rparr>"

definition rsp_GetContents :: "ResponsePart \<Rightarrow> fault + bytes" where
  "rsp_GetContents m = res_bind (get_be 2 (rsp_size m)) (\<lambda>(n :: u16). slice (rsp_contents m) 0 (unat n))"

definition rsp_GetMaxContentsSize :: "ResponsePart \<Rightarrow> nat" where
  "rsp_GetMaxContentsSize m = length (rsp_contents m)"

definition rsp_SetContents :: "ResponsePart \<Rightarrow> bytes \<Rightarrow> fault + ResponsePart" where
  "rsp_SetContents m contents =
     (if length contents > length (rsp_contents m) then Inl FatalPanic
      else
        let sz = copy_at (rsp_size m) 0 (put_be16 (word_of_nat (length contents)));
            new = copy_at (rsp_contents m) 0 contents
        in Inr (m\<lparr>rsp_data := copy_at (copy_at (rsp_data m) (resPartVersionLen + resPartMaxPartsLen + resPartPartNumLen) sz) resPartMinSize new,
                  rsp_size := sz, rsp_contents := new\<rparr>))"

section \<open>Putting parts together\<close>

text \<open>The interface \<open>Part\<close>: the number of parts, the number of this one, and its contents.\<close>

type_synonym part_view = "(fault + byte) \<times> (fault + byte) \<times> (fault + bytes)"

record Collator =
  col_payloads :: "bytes option list"
  col_maxNum :: int
  col_count :: int

definition unsetCollatorMax :: int where "unsetCollatorMax = - 1"

definition NewCollator :: "byte \<Rightarrow> Collator" where
  "NewCollator messageCount =
     \<lparr>col_payloads = replicate (unat messageCount) None, col_maxNum = unsetCollatorMax, col_count = 0\<rparr>"

definition join_payloads :: "bytes option list \<Rightarrow> bytes" where
  "join_payloads ps = concat (map (\<lambda>p. case p of None \<Rightarrow> [] | Some b \<Rightarrow> b) ps)"

text \<open>The result is an error or the payload, if it is complete.\<close>

definition Collate :: "Collator \<Rightarrow> part_view \<Rightarrow> fault + (su_error + bytes option) \<times> Collator" where
  "Collate c part =
     (case part of (getNumParts, getPartNum, getContents) \<Rightarrow>
        res_bind (if col_maxNum c = unsetCollatorMax
                  then res_bind getNumParts (\<lambda>numParts.
                       if unat numParts > length (col_payloads c) then Inr None
                       else Inr (Some (c\<lparr>col_maxNum := int (unat numParts)\<rparr>)))
                  else Inr (Some c)) (\<lambda>c1.
        case c1 of
          None \<Rightarrow> Inr (Inl MaxParts, c)
        | Some c \<Rightarrow>
            res_bind getPartNum (\<lambda>partNum.
            if int (unat partNum) \<ge> col_maxNum c then Inr (Inl PartOutOfRange, c)
            else
              res_bind (index (col_payloads c) (unat partNum)) (\<lambda>present.
              if present \<noteq> None then Inr (Inl PartExists, c)
              else
                res_bind getContents (\<lambda>contents.
                let c' = c\<lparr>col_payloads := (col_payloads c)[unat partNum := Some contents], col_count := col_count c + 1\<rparr>
                in if col_count c' < col_maxNum c' then Inr (Inr None, c')
                   else Inr (Inr (Some (join_payloads (col_payloads c'))), c'))))))"

definition rqp_part :: "RequestPayload \<Rightarrow> part_view" where
  "rqp_part mp = (rqp_GetNumRequestParts mp, Inr 0, rqp_GetContents mp)"

definition rqt_part :: "RequestPart \<Rightarrow> part_view" where
  "rqt_part m = (Inr (rqt_GetNumParts m), rqt_GetPartNum m, rqt_GetContents m)"

definition rsp_part :: "ResponsePart \<Rightarrow> part_view" where
  "rsp_part m = (rsp_GetNumParts m, rsp_GetPartNum m, rsp_GetContents m)"

section \<open>Keys\<close>

record 'k su_crypto =
  cr_ByteLen :: nat
  cr_GeneratePublicKey :: "'k \<Rightarrow> 'k"
  cr_Exp :: "'k \<Rightarrow> 'k \<Rightarrow> 'k"
  cr_LeftpadBytes :: "'k \<Rightarrow> nat \<Rightarrow> bytes"
  cr_NewIntFromBytes :: "bytes \<Rightarrow> 'k"
  cr_NewRequestKey :: "'k \<Rightarrow> bytes"
  cr_NewRequestFingerprint :: "'k \<Rightarrow> bytes"
  cr_NewRequestPartKey :: "'k \<Rightarrow> u64 \<Rightarrow> bytes"
  cr_NewRequestPartFingerprint :: "'k \<Rightarrow> u64 \<Rightarrow> bytes"
  cr_NewResponseKey :: "'k \<Rightarrow> u64 \<Rightarrow> bytes"
  cr_NewResponseFingerprint :: "'k \<Rightarrow> u64 \<Rightarrow> bytes"
  cr_Crypt :: "bytes \<Rightarrow> bytes \<Rightarrow> bytes \<Rightarrow> bytes"
  cr_MakeMAC :: "bytes \<Rightarrow> bytes \<Rightarrow> bytes"
  cr_VerifyMAC :: "bytes \<Rightarrow> bytes \<Rightarrow> bytes \<Rightarrow> bool"
  cr_NewRecipientID :: "'k \<Rightarrow> bytes \<Rightarrow> bytes"

text \<open>A cMix message as it is sent and received.\<close>

record cmix_msg =
  cm_fp :: bytes
  cm_contents :: bytes
  cm_mac :: bytes

record 'k su_cypher =
  sc_dhKey :: 'k
  sc_num :: byte
  sc_newKey :: "'k \<Rightarrow> u64 \<Rightarrow> bytes"
  sc_newFp :: "'k \<Rightarrow> u64 \<Rightarrow> bytes"

definition makeCyphers :: "'k \<Rightarrow> byte \<Rightarrow> ('k \<Rightarrow> u64 \<Rightarrow> bytes) \<Rightarrow> ('k \<Rightarrow> u64 \<Rightarrow> bytes) \<Rightarrow> 'k su_cypher list" where
  "makeCyphers dhKey messageCount newKey newFp =
     map (\<lambda>i. \<lparr>sc_dhKey = dhKey, sc_num = word_of_nat i, sc_newKey = newKey, sc_newFp = newFp\<rparr>) [0..<unat messageCount]"

definition sc_getKey :: "'k su_cypher \<Rightarrow> bytes" where
  "sc_getKey c = sc_newKey c (sc_dhKey c) (ucast (sc_num c))"

definition sc_getFingerprint :: "'k su_cypher \<Rightarrow> bytes" where
  "sc_getFingerprint c = sc_newFp c (sc_dhKey c) (ucast (sc_num c))"

definition sc_encrypt :: "'k su_crypto \<Rightarrow> 'k su_cypher \<Rightarrow> bytes \<Rightarrow> cmix_msg" where
  "sc_encrypt C c payload =
     (let fp = sc_getFingerprint c; key = sc_getKey c; encryptedPayload = cr_Crypt C key (take 24 fp) payload
      in \<lparr>cm_fp = fp, cm_contents = encryptedPayload, cm_mac = cr_MakeMAC C key encryptedPayload\<rparr>)"

definition sc_decrypt :: "'k su_crypto \<Rightarrow> 'k su_cypher \<Rightarrow> bytes \<Rightarrow> bytes \<Rightarrow> su_error + bytes" where
  "sc_decrypt C c contents mac =
     (let fp = sc_getFingerprint c; key = sc_getKey c
      in if \<not> cr_VerifyMAC C key contents mac then Inl MacVerification
         else Inr (cr_Crypt C key (take 24 fp) contents))"

section \<open>Responding\<close>

record 'k su_received =
  rr_sender :: bytes
  rr_senderPubKey :: 'k
  rr_dhKey :: 'k
  rr_maxParts :: byte
  rr_used :: bool
  rr_payload :: bytes

text \<open>What the network answers: the longest message, whether it is healthy, which fingerprints can be registered, which
  of the messages of an exchange are sent, and whether their rounds complete.\<close>

record su_net =
  net_MaxMessageLength :: nat
  net_IsHealthy :: bool
  net_AddFingerprint :: "bytes \<Rightarrow> bool"
  net_Send :: "nat \<Rightarrow> bool"
  net_TrackResults :: bool

fun next_parts :: "nat \<Rightarrow> nat \<Rightarrow> bytes \<Rightarrow> bytes list" where
  "next_parts maxSize 0 buff = []"
| "next_parts maxSize (Suc n) buff =
     (if buff = [] then [] else take maxSize buff # next_parts maxSize n (drop maxSize buff))"

definition su_splitPayload :: "bytes \<Rightarrow> nat \<Rightarrow> nat \<Rightarrow> fault + bytes list" where
  "su_splitPayload payload maxSize maxParts =
     (if maxSize = 0 then Inl DivideByZero else Inr (next_parts maxSize maxParts payload))"

fun response_parts :: "nat \<Rightarrow> nat \<Rightarrow> nat \<Rightarrow> bytes list \<Rightarrow> fault + ResponsePart list" where
  "response_parts len num i [] = Inr []"
| "response_parts len num i (p # ps) =
     res_bind (NewResponsePart len) (\<lambda>nrp.
     res_bind (rsp_SetContents (rsp_SetPartNum nrp (word_of_nat i)) p) (\<lambda>nrp.
     res_bind (response_parts len num (Suc i) ps) (\<lambda>rest.
     Inr (rsp_SetNumParts nrp (word_of_nat num) # rest))))"

definition partitionResponse :: "bytes \<Rightarrow> nat \<Rightarrow> byte \<Rightarrow> fault + ResponsePart list" where
  "partitionResponse payload cmixMessageLength maxParts =
     res_bind (NewResponsePart cmixMessageLength) (\<lambda>responseMsg.
     res_bind (su_splitPayload payload (rsp_GetMaxContentsSize responseMsg) (unat maxParts)) (\<lambda>payloadParts.
     response_parts cmixMessageLength (length payloadParts) 0 payloadParts))"

definition GetMaxResponsePartSize :: "su_net \<Rightarrow> fault + nat" where
  "GetMaxResponsePartSize N =
     res_bind (NewResponsePart (net_MaxMessageLength N)) (\<lambda>responseMsg. Inr (rsp_GetMaxContentsSize responseMsg))"

definition GetMaxResponseLength :: "su_net \<Rightarrow> 'k su_received \<Rightarrow> fault + nat" where
  "GetMaxResponseLength N r = res_bind (GetMaxResponsePartSize N) (\<lambda>n. Inr (n * unat (rr_maxParts r)))"

text \<open>The threads that encrypt and send the parts are independent; the result holds the messages.\<close>

definition Respond ::
  "'k su_crypto \<Rightarrow> su_net \<Rightarrow> 'k su_received \<Rightarrow> bytes \<Rightarrow> fault + (su_error + cmix_msg list) \<times> 'k su_received" where
  "Respond C N r payload =
     (if rr_used r then Inr (Inl RequestUsed, r)
      else
        let r' = r\<lparr>rr_used := True\<rparr>
        in res_bind (GetMaxResponseLength N r') (\<lambda>maxLength.
           if length payload > maxLength then Inr (Inl MaxResponseLength, r')
           else
             res_bind (partitionResponse payload (net_MaxMessageLength N) (rr_maxParts r')) (\<lambda>parts.
             let cyphers = makeCyphers (rr_dhKey r') (word_of_nat (length parts)) (cr_NewResponseKey C) (cr_NewResponseFingerprint C);
                 msgs = map2 (\<lambda>cy part. sc_encrypt C cy (rsp_data part)) cyphers parts
             in if \<not> list_all (net_Send N) [0..<length parts] then Inr (Inl SendFailed, r')
                else if \<not> net_TrackResults N then Inr (Inl TrackFailed, r')
                else Inr (Inr msgs, r'))))"

section \<open>Receiving parts\<close>

text \<open>The state that the processors of an exchange share: the collator and the rounds.\<close>

type_synonym part_state = "Collator \<times> u64 list"

definition collate_part ::
  "part_state \<Rightarrow> part_view \<Rightarrow> u64 \<Rightarrow> fault + (bytes \<times> u64 list) option \<times> part_state" where
  "collate_part s part round =
     res_bind (Collate (fst s) part) (\<lambda>(res, c).
     case res of
       Inl _ \<Rightarrow> Inr (None, c, snd s)
     | Inr payload \<Rightarrow>
         (let rounds = List.insert round (snd s)
          in Inr (map_option (\<lambda>p. (p, rounds)) payload, c, rounds)))"

text \<open>The result is the payload that is handed to the callback, if any.\<close>

definition responseProcessor_Process ::
  "'k su_crypto \<Rightarrow> 'k su_cypher \<Rightarrow> part_state \<Rightarrow> cmix_msg \<Rightarrow> u64 \<Rightarrow> fault + (bytes \<times> u64 list) option \<times> part_state" where
  "responseProcessor_Process C cy s ecrMsg round =
     (case sc_decrypt C cy (cm_contents ecrMsg) (cm_mac ecrMsg) of
        Inl _ \<Rightarrow> Inr (None, s)
      | Inr decrypted \<Rightarrow>
          res_bind (UnmarshalResponsePart decrypted) (\<lambda>um.
          case um of Inl _ \<Rightarrow> Inr (None, s) | Inr responsePart \<Rightarrow> collate_part s (rsp_part responsePart) round))"

definition requestPartProcessor_Process ::
  "'k su_crypto \<Rightarrow> 'k su_cypher \<Rightarrow> part_state \<Rightarrow> cmix_msg \<Rightarrow> u64 \<Rightarrow> fault + (bytes \<times> u64 list) option \<times> part_state" where
  "requestPartProcessor_Process C cy s msg round =
     (case sc_decrypt C cy (cm_contents msg) (cm_mac msg) of
        Inl _ \<Rightarrow> Inr (None, s)
      | Inr decrypted \<Rightarrow>
          res_bind (UnmarshalRequestPart decrypted) (\<lambda>um.
          case um of Inl _ \<Rightarrow> Inr (None, s) | Inr requestPart \<Rightarrow> collate_part s (rqt_part requestPart) round))"

text \<open>A listener hands the request to its receiver, or waits for its other parts with one cypher for each.\<close>

datatype 'k listened =
    Deliver "'k su_received" "u64 list"
  | Await "'k su_received" part_state "'k su_cypher list"

definition listener_process ::
  "'k su_crypto \<Rightarrow> su_net \<Rightarrow> 'k \<Rightarrow> cmix_msg \<Rightarrow> u64 \<Rightarrow> fault + (su_error + 'k listened)" where
  "listener_process C N myPrivKey ecrMsg round =
     res_bind (UnmarshalRequest (cm_contents ecrMsg) (cr_ByteLen C)) (\<lambda>ur.
     case ur of
       Inl e \<Rightarrow> Inr (Inl e)
     | Inr request \<Rightarrow>
         (let senderPubkey = cr_NewIntFromBytes C (rq_pubKey request);
              dhKey = cr_Exp C senderPubkey myPrivKey;
              key = cr_NewRequestKey C dhKey
          in if \<not> cr_VerifyMAC C key (rq_payload request) (cm_mac ecrMsg) then Inr (Inl MacVerification)
             else
               res_bind (UnmarshalRequestPayload (cr_Crypt C key (take 24 (cm_fp ecrMsg)) (rq_payload request))) (\<lambda>up.
               case up of
                 Inl e \<Rightarrow> Inr (Inl e)
               | Inr requestPayload \<Rightarrow>
                   res_bind (rqp_GetNumRequestParts requestPayload) (\<lambda>numParts.
                   res_bind (rqp_GetMaxResponseParts requestPayload) (\<lambda>maxParts.
                   let r = \<lparr>rr_sender = cr_NewRecipientID C senderPubkey (rqp_data requestPayload), rr_senderPubKey = senderPubkey,
                            rr_dhKey = dhKey, rr_maxParts = maxParts, rr_used = False, rr_payload = []\<rparr>
                   in if numParts > 1 then
                        res_bind (Collate (NewCollator numParts) (rqp_part requestPayload)) (\<lambda>(res, c).
                        case res of
                          Inl e \<Rightarrow> Inr (Inl e)
                        | Inr _ \<Rightarrow>
                            (let cyphers = makeCyphers dhKey numParts (cr_NewRequestPartKey C) (cr_NewRequestPartFingerprint C)
                             in if list_all (net_AddFingerprint N \<circ> sc_getFingerprint) cyphers then Inr (Inr (Await r (c, []) cyphers))
                                else Inr (Inl AddFingerprintFailed)))
                      else
                        res_bind (rqp_GetContents requestPayload) (\<lambda>contents.
                        Inr (Inr (Deliver (r\<lparr>rr_payload := contents\<rparr>) [round]))))))))"

section \<open>Sending a request\<close>

definition maxNumRequestParts :: int where "maxNumRequestParts = 255"

definition GetMaxRequestSize :: "'k su_crypto \<Rightarrow> su_net \<Rightarrow> int" where
  "GetMaxRequestSize C N =
     (let payloadSize = GetRequestPayloadSize (net_MaxMessageLength N) (cr_ByteLen C);
          requestSize = GetRequestContentsSize payloadSize;
          requestPartSize = GetRequestPartContentsSize (net_MaxMessageLength N)
      in requestSize + maxNumRequestParts * requestPartSize)"

fun split_parts :: "nat \<Rightarrow> bytes \<Rightarrow> bytes list" where
  "split_parts partSize payload =
     (if partSize = 0 \<or> payload = [] then []
      else if length payload > partSize then take partSize payload # split_parts partSize (drop partSize payload)
      else [payload])"

declare split_parts.simps [simp del]

text \<open>A negative part size panics when the list of parts is made or the first part is cut.\<close>

definition partitionPayload :: "int \<Rightarrow> int \<Rightarrow> bytes \<Rightarrow> fault + bytes \<times> bytes list" where
  "partitionPayload firstPartSize partSize payload =
     (if int (length payload) \<le> firstPartSize then Inr (payload, [])
      else
        res_bind (islice payload 0 firstPartSize) (\<lambda>firstPart.
        if partSize = 0 then Inl DivideByZero
        else if partSize < 0 then Inl SliceOutOfRange
        else Inr (firstPart, split_parts (nat partSize) (drop (nat firstPartSize) payload))))"

text \<open>The loop of \<open>makeIDs\<close>: the \<open>i\<close>-th nonce is what the random source gives, \<open>getId\<close> the window of the address of an
  identity. \<open>rid\<close> is nil before the first round.\<close>

partial_function (option) makeIDs ::
  "'k su_crypto \<Rightarrow> (nat \<Rightarrow> bytes option) \<Rightarrow> (bytes \<Rightarrow> (int \<times> int) option) \<Rightarrow> 'k \<Rightarrow> int \<Rightarrow> int \<Rightarrow>
   nat \<Rightarrow> RequestPayload \<Rightarrow> int \<Rightarrow> int \<Rightarrow> bytes option \<Rightarrow> (su_error + RequestPayload \<times> bytes option) option" where
  [code]: "makeIDs C nonces getId publicKey windowStart windowEnd i payload start stop rid =
     (if windowStart < start \<or> windowEnd > stop then
        case nonces i of
          None \<Rightarrow> Some (Inl MakeNonce)
        | Some nonce \<Rightarrow>
            (let payload' = rqp_SetNonce payload nonce;
                 rid' = cr_NewRecipientID C publicKey (rqp_data payload')
             in case getId rid' of
                  None \<Rightarrow> Some (Inl NewEphemeralID)
                | Some (start', stop') \<Rightarrow>
                    makeIDs C nonces getId publicKey windowStart windowEnd (Suc i) payload' start' stop' (Some rid'))
      else Some (Inr (payload, rid)))"

fun request_parts :: "'k su_crypto \<Rightarrow> nat \<Rightarrow> 'k \<Rightarrow> nat \<Rightarrow> bytes list \<Rightarrow> fault + cmix_msg list" where
  "request_parts C len dhKey i [] = Inr []"
| "request_parts C len dhKey i (p # ps) =
     res_bind (NewRequestPart len) (\<lambda>requestPart.
     res_bind (rqt_SetContents (rqt_SetPartNum requestPart (word_of_nat i)) p) (\<lambda>requestPart.
     let key = cr_NewRequestPartKey C dhKey (word_of_nat i);
         fp = cr_NewRequestPartFingerprint C dhKey (word_of_nat i);
         encryptedPayload = cr_Crypt C key (take 24 fp) (rqt_data requestPart)
     in res_bind (request_parts C len dhKey (Suc i) ps) (\<lambda>rest.
        Inr (\<lparr>cm_fp = fp, cm_contents = encryptedPayload, cm_mac = cr_MakeMAC C key encryptedPayload\<rparr> # rest))))"

definition buildRequest ::
  "'k su_crypto \<Rightarrow> su_net \<Rightarrow> bytes \<Rightarrow> byte \<Rightarrow> fault + Request \<times> RequestPayload \<times> bytes list" where
  "buildRequest C N payload maxResponseMessages =
     (let payloadSize = GetRequestPayloadSize (net_MaxMessageLength N) (cr_ByteLen C)
      in res_bind (partitionPayload (GetRequestContentsSize payloadSize) (GetRequestPartContentsSize (net_MaxMessageLength N)) payload)
           (\<lambda>(firstPart, parts).
         res_bind (NewRequest (net_MaxMessageLength N) (cr_ByteLen C)) (\<lambda>request.
         res_bind (NewRequestPayload (length (rq_payload request)) firstPart maxResponseMessages) (\<lambda>requestPayload.
         Inr (request, rqp_SetNumRequestParts requestPayload (1 + word_of_nat (length parts)), parts)))))"

text \<open>What a sent request leaves behind: its messages, and the identity, cyphers and collator that wait for the response.\<close>

record 'k su_sent =
  se_messages :: "cmix_msg list"
  se_sendingID :: bytes
  se_cyphers :: "'k su_cypher list"
  se_collator :: Collator

definition sendRequest ::
  "'k su_crypto \<Rightarrow> su_net \<Rightarrow> 'k \<Rightarrow> 'k \<Rightarrow> 'k \<Rightarrow> Request \<Rightarrow> RequestPayload \<Rightarrow> bytes list \<Rightarrow> bytes \<Rightarrow> byte \<Rightarrow>
   fault + (su_error + 'k su_sent)" where
  "sendRequest C N recipientPubKey dhKey publicKey request requestPayload parts sendingID maxResponseMessages =
     (let fp = cr_NewRequestFingerprint C recipientPubKey;
          key = cr_NewRequestKey C dhKey;
          encryptedPayload = cr_Crypt C key (take 24 fp) (rqp_data requestPayload);
          mac = cr_MakeMAC C key encryptedPayload
      in res_bind (rq_SetPayload (rq_SetPubKey request (cr_LeftpadBytes C publicKey (length (rq_pubKey request)))) encryptedPayload)
           (\<lambda>request.
         let cyphers = makeCyphers dhKey maxResponseMessages (cr_NewResponseKey C) (cr_NewResponseFingerprint C)
         in if \<not> list_all (net_AddFingerprint N \<circ> sc_getFingerprint) cyphers then Inr (Inl AddFingerprintFailed)
            else if \<not> net_Send N 0 then Inr (Inl SendFailed)
            else
              res_bind (request_parts C (net_MaxMessageLength N) dhKey 1 parts) (\<lambda>msgs.
              if \<not> list_all (net_Send N) [1..<length parts + 1] then Inr (Inl SendFailed)
              else Inr (Inr \<lparr>se_messages = \<lparr>cm_fp = fp, cm_contents = rq_data request, cm_mac = mac\<rparr> # msgs,
                             se_sendingID = sendingID, se_cyphers = cyphers, se_collator = NewCollator maxResponseMessages\<rparr>))))"

text \<open>\<open>privKey\<close> is the new private key, if its generation succeeds. \<open>None\<close> is a search for an identity that does not
  end; a search that needs no round leaves the identity nil.\<close>

definition TransmitRequest ::
  "'k su_crypto \<Rightarrow> su_net \<Rightarrow> (nat \<Rightarrow> bytes option) \<Rightarrow> (bytes \<Rightarrow> (int \<times> int) option) \<Rightarrow> int \<Rightarrow> int \<Rightarrow> 'k option \<Rightarrow> 'k \<Rightarrow> bytes \<Rightarrow> byte \<Rightarrow>
   (fault + (su_error + 'k su_sent)) option" where
  "TransmitRequest C N nonces getId now timeout privKey recipientPubKey payload maxResponseMessages =
     (if int (length payload) > GetMaxRequestSize C N then Some (Inr (Inl PayloadSize))
      else if \<not> net_IsHealthy N then Some (Inr (Inl NetworkHealth))
      else
        case privKey of
          None \<Rightarrow> Some (Inr (Inl MakeDhKeys))
        | Some priv \<Rightarrow>
            (let publicKey = cr_GeneratePublicKey C priv; dhKey = cr_Exp C recipientPubKey priv
             in case buildRequest C N payload maxResponseMessages of
                  Inl f \<Rightarrow> Some (Inl f)
                | Inr (request, requestPayload, parts) \<Rightarrow>
                    (case makeIDs C nonces getId publicKey (now - 2 * timeout) (now + 2 * timeout) 0 requestPayload now now None of
                       None \<Rightarrow> None
                     | Some (Inl e) \<Rightarrow> Some (Inr (Inl e))
                     | Some (Inr (requestPayload', None)) \<Rightarrow> Some (Inl NilDereference)
                     | Some (Inr (requestPayload', Some sendingID)) \<Rightarrow>
                         Some (sendRequest C N recipientPubKey dhKey publicKey request requestPayload' parts sendingID maxResponseMessages))))"

section \<open>Lemmas\<close>

lemmas su_sizes = requestVersionSize_def nonceSize_def numRequestPartsSize_def maxResponsePartsSize_def sizeSize_def
  requestMinSize_def reqPartPartNumLen_def reqPartSizeLen_def reqPartMinSize_def resPartVersionLen_def
  resPartPartNumLen_def resPartMaxPartsLen_def resPartSizeLen_def resPartMinSize_def requestVersion_def responsePartVersion_def

subsection \<open>Wire formats\<close>

text \<open>Contents with their length before and zeros after them, in \<open>n\<close> bytes.\<close>

definition sized_contents :: "bytes \<Rightarrow> nat \<Rightarrow> bytes" where
  "sized_contents c n = put_be16 (word_of_nat (length c)) @ c @ replicate (n - 2 - length c) 0"

lemma put_be16_two: "\<exists>a b. put_be16 w = [a, b]"
  using length_put(4) [of w] by (simp add: numeral_2_eq_2 length_Suc_conv del: length_put) blast

lemma replicate_split: "k \<le> n \<Longrightarrow> replicate n x = replicate k x @ replicate (n - k) x"
  by (metis le_add_diff_inverse replicate_add)

lemma copy_at_Cons [simp]: "copy_at (x # xs) (Suc i) ys = x # copy_at xs i ys"
  by (simp add: copy_at_def)

lemma copy_at_0: "length ys \<le> length xs \<Longrightarrow> copy_at xs 0 ys = ys @ drop (length ys) xs"
  by (simp add: copy_at_def)

lemma slice_Cons [simp]: "slice (x # xs) (Suc i) (Suc j) = slice xs i j" "slice (x # xs) 0 (Suc j) = map_sum id ((#) x) (slice xs 0 j)"
  by (auto simp: slice_def)

lemma slice_all [simp]: "slice xs 0 (length xs) = Inr xs" "slice xs 0 0 = Inr []"
  by (simp_all add: slice_def)

lemma slice_front [simp]: "slice (xs @ ys) 0 (length xs) = Inr xs"
  by (simp add: slice_def)

lemma sized_two:
  assumes "put_be16 (word_of_nat (length (c :: bytes))) = [a, b]" "length c < 65536"
  shows "get_be (Suc (Suc 0)) [a, b] = Inr (word_of_nat (length c) :: u16)" "unat (word_of_nat (length c) :: u16) = length c"
proof -
  have "Suc (Suc 0) = 2" by simp
  then show "get_be (Suc (Suc 0)) [a, b] = Inr (word_of_nat (length c) :: u16)"
    using get_be_put(2) [of "word_of_nat (length c)"] assms(1) by metis
  show "unat (word_of_nat (length c) :: u16) = length c" using assms(2) by (simp add: unat_of_nat)
qed

definition response_wire :: "nat \<Rightarrow> byte \<Rightarrow> byte \<Rightarrow> bytes \<Rightarrow> bytes" where
  "response_wire len i n c = [0, i, n] @ sized_contents c (len - 3)"

definition request_part_wire :: "nat \<Rightarrow> byte \<Rightarrow> bytes \<Rightarrow> bytes" where
  "request_part_wire len i c = [i] @ sized_contents c (len - 1)"

definition request_payload_wire :: "nat \<Rightarrow> bytes \<Rightarrow> byte \<Rightarrow> byte \<Rightarrow> bytes \<Rightarrow> bytes" where
  "request_payload_wire len nonce n m c = nonce @ [n, m] @ sized_contents c (len - 10)"

lemma NewResponsePart_eq:
  assumes "5 \<le> len"
  shows "NewResponsePart len = Inr \<lparr>rsp_data = replicate len 0, rsp_version = [0], rsp_partNum = [0], rsp_maxParts = [0],
    rsp_size = [0, 0], rsp_contents = replicate (len - 5) 0\<rparr>"
  using replicate_split [OF assms, of 0] assms replicate_Suc [of "len - 1" "0 :: byte"]
  by (simp add: NewResponsePart_def mapResponsePart_def su_sizes eval_nat_numeral slice_def copy_at_def)

lemma response_part_built:
  assumes "5 \<le> len" "length c \<le> len - 5"
  shows "\<exists>m. res_bind (NewResponsePart len) (\<lambda>nrp. rsp_SetContents (rsp_SetPartNum nrp i) c) = Inr m \<and>
    rsp_data (rsp_SetNumParts m n) = response_wire len i n c"
proof -
  obtain a b where ab: "put_be16 (word_of_nat (length c)) = [a, b]" using put_be16_two by blast
  show ?thesis using assms ab replicate_split [OF assms(1), of 0]
    by (simp add: NewResponsePart_eq rsp_SetContents_def rsp_SetPartNum_def rsp_SetNumParts_def su_sizes response_wire_def
      sized_contents_def copy_at_def Let_def eval_nat_numeral)
qed

lemma parse_response_wire:
  assumes "length c < 65536"
  shows "\<exists>m. UnmarshalResponsePart (response_wire len i n c) = Inr (Inr m) \<and> rsp_part m = (Inr n, Inr i, Inr c)"
proof -
  obtain a b where ab: "put_be16 (word_of_nat (length c)) = [a, b]" using put_be16_two by blast
  show ?thesis using sized_two [OF ab assms]
    by (simp add: UnmarshalResponsePart_def mapResponsePart_def response_wire_def sized_contents_def ab su_sizes slice_def
      rsp_part_def rsp_GetNumParts_def rsp_GetPartNum_def rsp_GetContents_def index_def eval_nat_numeral)
qed

lemma NewRequestPart_eq:
  assumes "3 \<le> len"
  shows "NewRequestPart len = Inr \<lparr>rqt_data = replicate len 0, rqt_partNum = [0], rqt_size = [0, 0], rqt_contents = replicate (len - 3) 0\<rparr>"
  using replicate_split [OF assms, of 0] assms
  by (simp add: NewRequestPart_def mapRequestPart_def su_sizes eval_nat_numeral slice_def)

lemma request_part_built:
  assumes "3 \<le> len" "length c \<le> len - 3"
  shows "\<exists>m. rqt_SetContents (rqt_SetPartNum (\<lparr>rqt_data = replicate len 0, rqt_partNum = [0], rqt_size = [0, 0], rqt_contents = replicate (len - 3) 0\<rparr>) i) c = Inr m \<and>
    rqt_data m = request_part_wire len i c"
proof -
  obtain a b where ab: "put_be16 (word_of_nat (length c)) = [a, b]" using put_be16_two by blast
  show ?thesis using assms ab replicate_split [OF assms(1), of 0]
    by (simp add: rqt_SetContents_def rqt_SetPartNum_def su_sizes request_part_wire_def sized_contents_def copy_at_def Let_def eval_nat_numeral)
qed

lemma parse_request_part:
  assumes "length c < 65536"
  shows "\<exists>m. UnmarshalRequestPart (request_part_wire len i c) = Inr (Inr m) \<and> rqt_part m = (Inr 0, Inr i, Inr c)"
proof -
  obtain a b where ab: "put_be16 (word_of_nat (length c)) = [a, b]" using put_be16_two by blast
  show ?thesis using sized_two [OF ab assms]
    by (simp add: UnmarshalRequestPart_def mapRequestPart_def request_part_wire_def sized_contents_def ab su_sizes slice_def
      rqt_part_def rqt_GetNumParts_def rqt_GetPartNum_def rqt_GetContents_def index_def eval_nat_numeral)
qed

definition payload_record :: "nat \<Rightarrow> bytes \<Rightarrow> byte \<Rightarrow> byte \<Rightarrow> bytes \<Rightarrow> RequestPayload" where
  "payload_record len nonce n m c =
     \<lparr>rqp_data = request_payload_wire len nonce n m c, rqp_nonce = nonce, rqp_numRequestParts = [n], rqp_maxResponseParts = [m],
      rqp_size = put_be16 (word_of_nat (length c)), rqp_contents = c @ replicate (len - 12 - length c) 0\<rparr>"

lemma nonce_eight: "length xs = 8 \<Longrightarrow> \<exists>a b c d e f g h. xs = [a, b, c, d, e, f, g, h]"
  by (simp add: eval_nat_numeral length_Suc_conv) blast

lemma NewRequestPayload_eq:
  assumes "12 \<le> len" "length c \<le> len - 12"
  shows "NewRequestPayload len c m = Inr (payload_record len (replicate 8 0) 0 m c)"
proof -
  obtain a b where ab: "put_be16 (word_of_nat (length c)) = [a, b]" using put_be16_two by blast
  show ?thesis using assms ab replicate_split [OF assms(1), of 0]
    by (simp add: NewRequestPayload_def mapRequestPayload_def rqp_SetContents_def rqp_SetMaxResponseParts_def su_sizes
      payload_record_def request_payload_wire_def sized_contents_def slice_def copy_at_def Let_def eval_nat_numeral)
qed

lemma SetNumRequestParts_eq:
  "length nonce = 8 \<Longrightarrow> rqp_SetNumRequestParts (payload_record len nonce n m c) n' = payload_record len nonce n' m c"
  by (simp add: rqp_SetNumRequestParts_def payload_record_def request_payload_wire_def su_sizes copy_at_def)

lemma SetNonce_eq:
  "length nonce = 8 \<Longrightarrow> rqp_SetNonce (payload_record len nonce n m c) x = payload_record len (copy_at nonce 0 x) n m c"
  by (simp add: rqp_SetNonce_def payload_record_def request_payload_wire_def copy_at_def Let_def)

definition ids_kept ::
  "nat \<Rightarrow> byte \<Rightarrow> byte \<Rightarrow> bytes \<Rightarrow> 'k su_crypto \<Rightarrow> 'k \<Rightarrow> RequestPayload \<Rightarrow> bytes option \<Rightarrow> bool" where
  "ids_kept len n m c C pub payload rid =
     ((\<exists>nonce. length nonce = 8 \<and> payload = payload_record len nonce n m c) \<and>
      (rid \<noteq> None \<longrightarrow> rid = Some (cr_NewRecipientID C pub (rqp_data payload))))"

lemma ids_kept_step:
  "ids_kept len n m c C pub payload rid \<Longrightarrow>
   ids_kept len n m c C pub (rqp_SetNonce payload x) (Some (cr_NewRecipientID C pub (rqp_data (rqp_SetNonce payload x))))"
  unfolding ids_kept_def by (metis SetNonce_eq length_copy_at zero_le)

lemma makeIDs_kept:
  assumes "makeIDs C nonces getId pub ws we i payload start stop rid = Some r"
  shows "ids_kept len n m c C pub payload rid \<longrightarrow> (\<forall>payload' rid'. r = Inr (payload', rid') \<longrightarrow> ids_kept len n m c C pub payload' rid')"
  using assms
proof (rule makeIDs.raw_induct [where P = "\<lambda>C nonces getId pub ws we i payload start stop rid r.
    ids_kept len n m c C pub payload rid \<longrightarrow> (\<forall>payload' rid'. r = Inr (payload', rid') \<longrightarrow> ids_kept len n m c C pub payload' rid')", rotated])
  fix mk C nonces getId pub ws we i payload start stop rid r
  assume IH: "\<And>C nonces getId pub ws we i payload start stop rid r. mk C nonces getId pub ws we i payload start stop rid = Some r \<Longrightarrow>
      ids_kept len n m c C pub payload rid \<longrightarrow> (\<forall>payload' rid'. r = Inr (payload', rid') \<longrightarrow> ids_kept len n m c C pub payload' rid')"
    and run: "(if ws < start \<or> stop < we
      then case nonces i of None \<Rightarrow> Some (Inl MakeNonce)
           | Some nonce \<Rightarrow>
               let payload' = rqp_SetNonce payload nonce;
                   rid' = cr_NewRecipientID C pub (rqp_data payload')
               in case getId rid' of None \<Rightarrow> Some (Inl NewEphemeralID)
                  | Some (start', stop') \<Rightarrow> mk C nonces getId pub ws we (Suc i) payload' start' stop' (Some rid')
      else Some (Inr (payload, rid))) = Some r"
  show "ids_kept len n m c C pub payload rid \<longrightarrow> (\<forall>payload' rid'. r = Inr (payload', rid') \<longrightarrow> ids_kept len n m c C pub payload' rid')"
  proof (cases "ws < start \<or> stop < we")
    case False
    with run show ?thesis by auto
  next
    case True
    show ?thesis
    proof (cases "nonces i")
      case None
      with run True show ?thesis by auto
    next
      case (Some nonce)
      let ?p = "rqp_SetNonce payload nonce"
      show ?thesis
      proof (cases "getId (cr_NewRecipientID C pub (rqp_data ?p))")
        case None
        with run True Some show ?thesis by (auto simp: Let_def)
      next
        case win: (Some w)
        have "mk C nonces getId pub ws we (Suc i) ?p (fst w) (snd w) (Some (cr_NewRecipientID C pub (rqp_data ?p))) = Some r"
          using run True Some win by (simp add: Let_def case_prod_unfold)
        note step = IH [OF this]
        show ?thesis
        proof
          assume "ids_kept len n m c C pub payload rid"
          from mp [OF step ids_kept_step [OF this]] show "\<forall>payload' rid'. r = Inr (payload', rid') \<longrightarrow> ids_kept len n m c C pub payload' rid'" .
        qed
      qed
    qed
  qed
qed

lemma makeIDs_payload:
  assumes "makeIDs C nonces getId pub ws we i (payload_record len nonce n m c) start stop None = Some (Inr (payload', Some rid))" "length nonce = 8"
  shows "\<exists>nonce'. length nonce' = 8 \<and> payload' = payload_record len nonce' n m c \<and> rid = cr_NewRecipientID C pub (rqp_data payload')"
proof -
  have "ids_kept len n m c C pub (payload_record len nonce n m c) None" using assms(2) by (auto simp: ids_kept_def)
  with makeIDs_kept [OF assms(1)] show ?thesis by (auto simp: ids_kept_def)
qed

lemma parse_request_payload:
  assumes "length nonce = 8" "length c < 65536"
  shows "\<exists>mp. UnmarshalRequestPayload (request_payload_wire len nonce n m c) = Inr (Inr mp) \<and> rqp_GetNumRequestParts mp = Inr n \<and>
    rqp_GetMaxResponseParts mp = Inr m \<and> rqp_GetContents mp = Inr c \<and> rqp_data mp = request_payload_wire len nonce n m c"
proof -
  obtain a b where ab: "put_be16 (word_of_nat (length c)) = [a, b]" using put_be16_two by blast
  from nonce_eight [OF assms(1)] show ?thesis using sized_two [OF ab assms(2)] 
    by (auto simp add: UnmarshalRequestPayload_def mapRequestPayload_def request_payload_wire_def sized_contents_def ab su_sizes slice_def
      rqp_GetNumRequestParts_def rqp_GetMaxResponseParts_def rqp_GetContents_def index_def eval_nat_numeral)
qed

subsection \<open>Collating\<close>

text \<open>The collator of a message with the contents \<open>ps\<close>, after the parts in \<open>S\<close>. Before the first part the number of parts
  may not be known.\<close>

definition col_holds :: "nat \<Rightarrow> bytes list \<Rightarrow> nat set \<Rightarrow> Collator \<Rightarrow> bool" where
  "col_holds cap ps S c =
     (S \<subseteq> {..<length ps} \<and> length ps \<le> cap \<and> cap < 256 \<and>
      col_payloads c = map (\<lambda>i. if i \<in> S then Some (ps ! i) else None) [0..<cap] \<and> col_count c = int (card S) \<and>
      (col_maxNum c = int (length ps) \<or> S = {} \<and> col_maxNum c = unsetCollatorMax))"

lemma unat_byte_of_nat [simp]: "n < 256 \<Longrightarrow> unat (word_of_nat n :: byte) = n"
  by (simp add: unat_of_nat)

lemma NewCollator_holds: "length ps \<le> unat n \<Longrightarrow> col_holds (unat n) ps {} (NewCollator n)"
  using unsigned_less [of n, where ?'a = nat] by (auto simp: col_holds_def NewCollator_def map_replicate_const)

lemma join_all:
  assumes "length ps \<le> cap"
  shows "join_payloads (map (\<lambda>i. if i \<in> {..<length ps} then Some (ps ! i) else None) [0..<cap]) = concat ps"
proof -
  have "[0..<cap] = [0..<length ps] @ [length ps..<cap]" using assms by (metis le_add_diff_inverse upt_add_eq_append zero_le)
  moreover have "map (\<lambda>i. case if i \<in> {..<length ps} then Some (ps ! i) else None of None \<Rightarrow> [] | Some b \<Rightarrow> b) [0..<length ps] = ps"
    by (rule nth_equalityI) auto
  moreover have "concat (map (\<lambda>i. case if i \<in> {..<length ps} then Some (ps ! i) else None of None \<Rightarrow> [] | Some b \<Rightarrow> b) [length ps..<cap]) = []"
    by auto
  ultimately show ?thesis by (simp add: join_payloads_def comp_def)
qed

lemma Collate_part:
  assumes "col_holds cap ps S c" "i < length ps" "i \<notin> S" "col_maxNum c = unsetCollatorMax \<Longrightarrow> np = Inr (word_of_nat (length ps))"
  shows "\<exists>c'. Collate c (np, Inr (word_of_nat i), Inr (ps ! i)) =
      Inr (Inr (if insert i S = {..<length ps} then Some (concat ps) else None), c') \<and>
    col_holds cap ps (insert i S) c' \<and> col_maxNum c' = int (length ps)"
proof -
  let ?n = "length ps"
  note h = assms(1) [unfolded col_holds_def]
  have i: "unat (word_of_nat i :: byte) = i" "unat (word_of_nat ?n :: byte) = ?n" "i < cap"
    using h assms(2) by auto
  have fin: "finite S" using h finite_subset by blast
  let ?pl = "map (\<lambda>j. if j \<in> insert i S then Some (ps ! j) else None) [0..<cap]"
  have upd: "(col_payloads c)[i := Some (ps ! i)] = ?pl" using h i(3) by (auto intro!: nth_equalityI simp: nth_list_update)
  have full: "card (insert i S) < ?n \<longleftrightarrow> insert i S \<noteq> {..<?n}"
  proof -
    have sub: "insert i S \<subseteq> {..<?n}" using h assms(2) by auto
    have "card (insert i S) \<le> ?n" using card_mono [OF finite_lessThan sub] by simp
    moreover have "card (insert i S) = ?n \<longleftrightarrow> insert i S = {..<?n}"
      using card_subset_eq [OF finite_lessThan sub] by (metis card_lessThan)
    ultimately show ?thesis by (metis nat_less_le)
  qed
  have join: "insert i S = {..<?n} \<Longrightarrow> join_payloads ?pl = concat ps" using join_all [of ps cap] h by (simp only:)
  let ?c = "c\<lparr>col_maxNum := int ?n, col_payloads := ?pl, col_count := int (card (insert i S))\<rparr>"
  have first: "(if col_maxNum c = unsetCollatorMax
        then res_bind np (\<lambda>numParts. if unat numParts > length (col_payloads c) then Inr None else Inr (Some (c\<lparr>col_maxNum := int (unat numParts)\<rparr>)))
        else Inr (Some c)) = Inr (Some (c\<lparr>col_maxNum := int ?n\<rparr>))"
  proof (cases "col_maxNum c = unsetCollatorMax")
    case True
    with assms(4) h i(2) show ?thesis by simp
  next
    case False
    with h show ?thesis by auto
  qed
  have at: "index (col_payloads c) i = Inr None" using h i(3) assms(3) by (simp add: index_def)
  have count: "col_count c + 1 = int (card (insert i S))" using h fin assms(3) by simp
  have "Collate c (np, Inr (word_of_nat i), Inr (ps ! i)) = Inr (Inr (if insert i S = {..<?n} then Some (concat ps) else None), ?c)"
  proof -
    define pl k b where "pl = ?pl" and "k = card (insert i S)" and "b = (insert i S = {..<?n})"
    have facts: "(col_payloads c)[i := Some (ps ! i)] = pl" "col_count c + 1 = int k" "k < ?n \<longleftrightarrow> \<not> b" "b \<Longrightarrow> join_payloads pl = concat ps"
      using upd count full join unfolding pl_def k_def b_def by blast+
    have "uint (word_of_nat i :: byte) = int i" using i(1) by (metis uint_nat)
    with i(1) at facts assms(2) show ?thesis unfolding Collate_def prod.case first pl_def [symmetric] k_def [symmetric] b_def [symmetric]
      by (cases b) (simp_all add: Let_def)
  qed
  moreover have "col_holds cap ps (insert i S) ?c" using h assms(2) by (simp add: col_holds_def)
  ultimately show ?thesis by auto
qed

subsection \<open>Splitting\<close>

lemma next_parts_props:
  assumes "0 < maxSize"
  shows "length (next_parts maxSize n p) \<le> n \<and> (\<forall>x \<in> set (next_parts maxSize n p). length x \<le> maxSize) \<and>
    (length p \<le> maxSize * n \<longrightarrow> concat (next_parts maxSize n p) = p) \<and> (next_parts maxSize n p = [] \<longleftrightarrow> n = 0 \<or> p = [])"
proof (induction n arbitrary: p)
  case (Suc n)
  then show ?case by (auto simp: algebra_simps)
qed simp

lemma split_parts_props:
  assumes "0 < n"
  shows "concat (split_parts n p) = p \<and> (\<forall>x \<in> set (split_parts n p). length x \<le> n) \<and>
    length (split_parts n p) = (length p + n - 1) div n"
proof (induction "length p" arbitrary: p rule: less_induct)
  case less
  show ?case
  proof (cases "length p > n")
    case True
    then have p: "split_parts n p = take n p # split_parts n (drop n p)" using assms by (subst split_parts.simps) auto
    have "length (drop n p) < length p" using True assms by simp
    note ih = less [OF this]
    have "(length p + n - 1) div n = Suc ((length p - 1) div n)"
    proof -
      have "(n + (length p - 1)) div n = Suc ((length p - 1) div n)" using assms by (simp add: div_add_self1)
      moreover have "length p + n - 1 = n + (length p - 1)" using True by simp
      ultimately show ?thesis by metis
    qed
    moreover have "length (drop n p) + n - 1 = length p - 1" using True by simp
    ultimately show ?thesis using ih p by simp
  next
    case False
    then show ?thesis
    proof (cases "p = []")
      case True
      then show ?thesis using assms by (simp add: split_parts.simps)
    next
      case p: False
      with False assms have s: "split_parts n p = [p]" by (subst split_parts.simps) auto
      have "length p + n - 1 = n + (length p - 1)" "length p - 1 < n" using False p by (cases p; auto)+
      moreover from this(2) have "(n + (length p - 1)) div n = 1" using assms by (simp add: div_add_self1)
      ultimately have "(length p + n - 1) div n = 1" by metis
      with s False show ?thesis by simp
    qed
  qed
qed

subsection \<open>Receiving all parts\<close>

text \<open>The calls of the callback when the parts arrive in some order.\<close>

fun process_all ::
  "(nat \<Rightarrow> part_state \<Rightarrow> fault + (bytes \<times> u64 list) option \<times> part_state) \<Rightarrow> part_state \<Rightarrow> nat list \<Rightarrow>
   fault + (bytes \<times> u64 list) list \<times> part_state" where
  "process_all process s [] = Inr ([], s)"
| "process_all process s (i # order) =
     res_bind (process i s) (\<lambda>(call, s').
     res_bind (process_all process s' order) (\<lambda>(calls, s'').
     Inr ((case call of None \<Rightarrow> [] | Some p \<Rightarrow> [p]) @ calls, s'')))"

lemma process_all_complete:
  assumes "col_holds cap ps S (fst s)" "distinct order" "set order = {..<length ps} - S" "order \<noteq> []"
    and "\<And>i s. i < length ps \<Longrightarrow> i \<notin> S \<Longrightarrow> \<exists>round. process i s = collate_part s (np, Inr (word_of_nat i), Inr (ps ! i)) round"
    and "col_maxNum (fst s) = unsetCollatorMax \<Longrightarrow> np = Inr (word_of_nat (length ps))"
  shows "\<exists>rounds s'. process_all process s order = Inr ([(concat ps, rounds)], s')"
  using assms
proof (induction order arbitrary: s S)
  case (Cons i order)
  have i: "i < length ps" "i \<notin> S" using Cons.prems(3) by auto
  obtain c rs where s: "s = (c, rs)" by force
  obtain c' where c': "Collate c (np, Inr (word_of_nat i), Inr (ps ! i)) =
      Inr (Inr (if insert i S = {..<length ps} then Some (concat ps) else None), c')"
    "col_holds cap ps (insert i S) c'" "col_maxNum c' = int (length ps)"
    using Collate_part [of cap ps S c i np] Cons.prems(1,6) i s by auto
  obtain round where r: "process i s = collate_part s (np, Inr (word_of_nat i), Inr (ps ! i)) round" using Cons.prems(5) i by blast
  let ?rs = "List.insert round rs"
  have step: "process i s = Inr (if insert i S = {..<length ps} then Some (concat ps, ?rs) else None, c', ?rs)"
    using r c'(1) s by (simp add: collate_part_def Let_def)
  have S: "S \<subseteq> {..<length ps}" using Cons.prems(1) by (simp add: col_holds_def)
  have rest: "set order = {..<length ps} - insert i S" "distinct order" using Cons.prems(2,3) i S by auto
  show ?case
  proof (cases "order = []")
    case True
    then have "insert i S = {..<length ps}" using rest(1) S i by auto
    with True step show ?thesis by simp
  next
    case False
    have "insert i S \<noteq> {..<length ps}"
    proof
      assume "insert i S = {..<length ps}"
      with rest(1) have "set order = {}" by simp
      with False show False by simp
    qed
    moreover have "col_maxNum (fst (c', ?rs)) = unsetCollatorMax \<Longrightarrow> np = Inr (word_of_nat (length ps))"
      using c'(3) by (simp add: unsetCollatorMax_def)
    then obtain rounds s' where "process_all process (c', ?rs) order = Inr ([(concat ps, rounds)], s')"
      using Cons.IH [of "insert i S" "(c', ?rs)"] c'(2) rest False Cons.prems(5) by auto
    ultimately show ?thesis using step by simp
  qed
qed simp

subsection \<open>Messages\<close>

text \<open>What is used of the cryptographic libraries: decryption inverts encryption, a code made for a message verifies, both
  ends derive the same key, and a public key is restored from its padded bytes.\<close>

definition su_laws :: "'k su_crypto \<Rightarrow> bool" where
  "su_laws C =
     ((\<forall>k n m. cr_Crypt C k n (cr_Crypt C k n m) = m \<and> length (cr_Crypt C k n m) = length m) \<and>
      (\<forall>k m. cr_VerifyMAC C k m (cr_MakeMAC C k m)) \<and>
      (\<forall>a b. cr_Exp C (cr_GeneratePublicKey C a) b = cr_Exp C (cr_GeneratePublicKey C b) a) \<and>
      (\<forall>a. length (cr_LeftpadBytes C a (cr_ByteLen C)) = cr_ByteLen C) \<and>
      (\<forall>a. cr_NewIntFromBytes C (cr_LeftpadBytes C (cr_GeneratePublicKey C a) (cr_ByteLen C)) = cr_GeneratePublicKey C a))"

lemma decrypt_encrypt: "su_laws C \<Longrightarrow> sc_decrypt C cy (cm_contents (sc_encrypt C cy m)) (cm_mac (sc_encrypt C cy m)) = Inr m"
  by (simp add: su_laws_def sc_decrypt_def sc_encrypt_def Let_def)

lemma response_parts_eq:
  assumes "5 \<le> len" "\<forall>p \<in> set ps. length p \<le> len - 5"
  shows "\<exists>parts. response_parts len num i ps = Inr parts \<and> length parts = length ps \<and>
    (\<forall>j < length ps. rsp_data (parts ! j) = response_wire len (word_of_nat (i + j)) (word_of_nat num) (ps ! j))"
  using assms(2)
proof (induction ps arbitrary: i)
  case (Cons p ps)
  obtain parts where ih: "response_parts len num (Suc i) ps = Inr parts" "length parts = length ps"
    "\<forall>j < length ps. rsp_data (parts ! j) = response_wire len (word_of_nat (Suc i + j)) (word_of_nat num) (ps ! j)"
    using Cons.IH [of "Suc i"] Cons.prems by auto
  obtain m where m: "res_bind (NewResponsePart len) (\<lambda>nrp. rsp_SetContents (rsp_SetPartNum nrp (word_of_nat i)) p) = Inr m"
    "rsp_data (rsp_SetNumParts m (word_of_nat num)) = response_wire len (word_of_nat i) (word_of_nat num) p"
    using response_part_built [OF assms(1), of p "word_of_nat i" "word_of_nat num"] Cons.prems by auto
  then have "response_parts len num i (p # ps) = Inr (rsp_SetNumParts m (word_of_nat num) # parts)"
    using ih(1) by (cases "NewResponsePart len") auto
  moreover have "rsp_data ((rsp_SetNumParts m (word_of_nat num) # parts) ! j) =
      response_wire len (word_of_nat (i + j)) (word_of_nat num) ((p # ps) ! j)" if "j < length (p # ps)" for j
    using that m(2) ih(3) by (cases j) auto
  ultimately show ?case using ih(2) by auto
qed simp

lemma Respond_messages:
  assumes "Respond C N r payload = Inr (Inr msgs, r')" "net_MaxMessageLength N \<le> 65540"
  shows "\<exists>ps. concat ps = payload \<and> length ps = length msgs \<and> length ps \<le> unat (rr_maxParts r) \<and> (payload \<noteq> [] \<longrightarrow> ps \<noteq> []) \<and>
    (\<forall>i < length ps. length (ps ! i) < 65536 \<and>
       msgs ! i = sc_encrypt C \<lparr>sc_dhKey = rr_dhKey r, sc_num = word_of_nat i, sc_newKey = cr_NewResponseKey C, sc_newFp = cr_NewResponseFingerprint C\<rparr>
         (response_wire (net_MaxMessageLength N) (word_of_nat i) (word_of_nat (length ps)) (ps ! i)))"
proof -
  let ?len = "net_MaxMessageLength N"
  have unused: "\<not> rr_used r" using assms(1) by (auto simp: Respond_def)
  have len: "5 \<le> ?len"
  proof (rule ccontr)
    assume "\<not> 5 \<le> ?len"
    then have "NewResponsePart ?len = Inl FatalPanic" by (simp add: NewResponsePart_def su_sizes)
    with assms(1) unused show False by (simp add: Respond_def GetMaxResponseLength_def GetMaxResponsePartSize_def Let_def)
  qed
  have max: "GetMaxResponseLength N (r\<lparr>rr_used := True\<rparr>) = Inr ((?len - 5) * unat (rr_maxParts r))"
    using NewResponsePart_eq [OF len] by (simp add: GetMaxResponseLength_def GetMaxResponsePartSize_def rsp_GetMaxContentsSize_def)
  have fits: "length payload \<le> (?len - 5) * unat (rr_maxParts r)"
    using assms(1) unused max by (auto simp: Respond_def Let_def split: if_splits)
  let ?ps = "next_parts (?len - 5) (unat (rr_maxParts r)) payload"
  have pos: "0 < ?len - 5"
  proof (rule ccontr)
    assume "\<not> 0 < ?len - 5"
    then have "partitionResponse payload ?len (rr_maxParts r) = Inl DivideByZero"
      using NewResponsePart_eq [OF len] by (simp add: partitionResponse_def su_splitPayload_def rsp_GetMaxContentsSize_def)
    with assms(1) unused max fits show False by (simp add: Respond_def Let_def)
  qed
  note ps = next_parts_props [OF pos, of "unat (rr_maxParts r)" payload]
  obtain parts where parts: "response_parts ?len (length ?ps) 0 ?ps = Inr parts" "length parts = length ?ps"
    "\<forall>j < length ?ps. rsp_data (parts ! j) = response_wire ?len (word_of_nat j) (word_of_nat (length ?ps)) (?ps ! j)"
    using response_parts_eq [OF len, of ?ps "length ?ps" 0] ps by auto
  have part: "partitionResponse payload ?len (rr_maxParts r) = Inr parts"
    using NewResponsePart_eq [OF len] pos parts(1) by (simp add: partitionResponse_def su_splitPayload_def rsp_GetMaxContentsSize_def)
  let ?cs = "makeCyphers (rr_dhKey r) (word_of_nat (length parts)) (cr_NewResponseKey C) (cr_NewResponseFingerprint C)"
  have small: "length parts < 256" using ps parts(2) unsigned_less [of "rr_maxParts r", where ?'a = nat] by simp
  have msgs: "msgs = map2 (\<lambda>cy part. sc_encrypt C cy (rsp_data part)) ?cs parts"
    using assms(1) unused max fits part by (auto simp: Respond_def Let_def split: if_splits)
  have "msgs ! i = sc_encrypt C \<lparr>sc_dhKey = rr_dhKey r, sc_num = word_of_nat i, sc_newKey = cr_NewResponseKey C, sc_newFp = cr_NewResponseFingerprint C\<rparr>
      (response_wire ?len (word_of_nat i) (word_of_nat (length ?ps)) (?ps ! i))" if "i < length ?ps" for i
    using that parts(2,3) small unfolding msgs by (simp add: makeCyphers_def)
  moreover have "length (?ps ! i) < 65536" if "i < length ?ps" for i
  proof -
    have "length (?ps ! i) \<le> ?len - 5" using ps that nth_mem by blast
    with assms(2) show ?thesis by linarith
  qed
  moreover have "length msgs = length ?ps" using msgs small parts(2) by (simp add: makeCyphers_def)
  ultimately show ?thesis using ps fits by (intro exI [of _ ?ps]) (auto simp: mult.commute)
qed

lemma NewRequest_eq:
  assumes "pk < len"
  shows "NewRequest len pk = Inr \<lparr>rq_data = replicate len 0, rq_version = [0], rq_pubKey = replicate pk 0, rq_payload = replicate (len - 1 - pk) 0\<rparr>"
  using assms replicate_Suc [of "len - 1" "0 :: byte"]
  by (simp add: NewRequest_def mapRequest_def su_sizes slice_def copy_at_def)

lemma assembled_request:
  assumes "pk < len" "length key = pk" "length enc = len - 1 - pk"
  shows "\<exists>rq. rq_SetPayload (rq_SetPubKey \<lparr>rq_data = replicate len 0, rq_version = [0], rq_pubKey = replicate pk 0,
      rq_payload = replicate (len - 1 - pk) 0\<rparr> key) enc = Inr rq \<and> rq_data rq = [0] @ key @ enc"
  using assms replicate_Suc [of "len - 1" "0 :: byte"]
  by (simp add: rq_SetPayload_def rq_SetPubKey_def su_sizes copy_at_def Let_def)

lemma parse_request:
  "UnmarshalRequest ([0] @ key @ enc) (length key) =
     Inr (Inr \<lparr>rq_data = [0] @ key @ enc, rq_version = [0], rq_pubKey = key, rq_payload = enc\<rparr>)"
  by (simp add: UnmarshalRequest_def mapRequest_def su_sizes slice_def)

lemma request_parts_eq:
  assumes "3 \<le> len" "\<forall>p \<in> set ps. length p \<le> len - 3"
  shows "\<exists>msgs. request_parts C len dhKey i ps = Inr msgs \<and> length msgs = length ps \<and>
    (\<forall>j < length ps. msgs ! j =
       (let key = cr_NewRequestPartKey C dhKey (word_of_nat (i + j)); fp = cr_NewRequestPartFingerprint C dhKey (word_of_nat (i + j));
            enc = cr_Crypt C key (take 24 fp) (request_part_wire len (word_of_nat (i + j)) (ps ! j))
        in \<lparr>cm_fp = fp, cm_contents = enc, cm_mac = cr_MakeMAC C key enc\<rparr>))"
  using assms(2)
proof (induction ps arbitrary: i)
  case (Cons p ps)
  obtain msgs where ih: "request_parts C len dhKey (Suc i) ps = Inr msgs" "length msgs = length ps"
    "\<forall>j < length ps. msgs ! j =
       (let key = cr_NewRequestPartKey C dhKey (word_of_nat (Suc i + j)); fp = cr_NewRequestPartFingerprint C dhKey (word_of_nat (Suc i + j));
            enc = cr_Crypt C key (take 24 fp) (request_part_wire len (word_of_nat (Suc i + j)) (ps ! j))
        in \<lparr>cm_fp = fp, cm_contents = enc, cm_mac = cr_MakeMAC C key enc\<rparr>)"
    using Cons.IH [of "Suc i"] Cons.prems by auto
  obtain m where m: "rqt_SetContents (rqt_SetPartNum (\<lparr>rqt_data = replicate len 0, rqt_partNum = [0], rqt_size = [0, 0], rqt_contents = replicate (len - 3) 0\<rparr>) (word_of_nat i)) p = Inr m"
    "rqt_data m = request_part_wire len (word_of_nat i) p"
    using request_part_built [OF assms(1), of p "word_of_nat i"] Cons.prems by auto
  let ?key = "cr_NewRequestPartKey C dhKey (word_of_nat i)" and ?fp = "cr_NewRequestPartFingerprint C dhKey (word_of_nat i)"
  let ?enc = "cr_Crypt C ?key (take 24 ?fp) (request_part_wire len (word_of_nat i) p)"
  let ?msg = "\<lparr>cm_fp = ?fp, cm_contents = ?enc, cm_mac = cr_MakeMAC C ?key ?enc\<rparr>"
  have run: "request_parts C len dhKey i (p # ps) = Inr (?msg # msgs)"
    using ih(1) m NewRequestPart_eq [OF assms(1)] by (simp add: Let_def)
  have "(?msg # msgs) ! j = (let key = cr_NewRequestPartKey C dhKey (word_of_nat (i + j)); fp = cr_NewRequestPartFingerprint C dhKey (word_of_nat (i + j));
            enc = cr_Crypt C key (take 24 fp) (request_part_wire len (word_of_nat (i + j)) ((p # ps) ! j))
        in \<lparr>cm_fp = fp, cm_contents = enc, cm_mac = cr_MakeMAC C key enc\<rparr>)" if "j < length (p # ps)" for j
    using that ih(3) by (cases j) (simp_all add: Let_def)
  with run ih(2) show ?case by auto
qed simp

text \<open>The part that is sent with the request, and the later ones.\<close>

definition first_size :: "'k su_crypto \<Rightarrow> su_net \<Rightarrow> nat" where
  "first_size C N = net_MaxMessageLength N - cr_ByteLen C - 13"

definition later_contents :: "'k su_crypto \<Rightarrow> su_net \<Rightarrow> bytes \<Rightarrow> bytes list" where
  "later_contents C N payload =
     (if length payload \<le> first_size C N then [] else split_parts (net_MaxMessageLength N - 3) (drop (first_size C N) payload))"

lemma partitionPayload_eq:
  "0 < k \<Longrightarrow> partitionPayload (int f) (int k) payload =
     Inr (take f payload, if length payload \<le> f then [] else split_parts k (drop f payload))"
  by (auto simp: partitionPayload_def islice_def slice_def)

lemma buildRequest_eq:
  assumes "cr_ByteLen C + 13 \<le> net_MaxMessageLength N"
  shows "buildRequest C N payload maxMsgs =
    Inr (\<lparr>rq_data = replicate (net_MaxMessageLength N) 0, rq_version = [0], rq_pubKey = replicate (cr_ByteLen C) 0,
          rq_payload = replicate (net_MaxMessageLength N - 1 - cr_ByteLen C) 0\<rparr>,
         payload_record (net_MaxMessageLength N - 1 - cr_ByteLen C) (replicate 8 0) (1 + word_of_nat (length (later_contents C N payload))) maxMsgs
           (take (first_size C N) payload), later_contents C N payload)"
proof -
  let ?len = "net_MaxMessageLength N" and ?pk = "cr_ByteLen C" and ?ps = "later_contents C N payload"
  have sizes: "GetRequestContentsSize (GetRequestPayloadSize ?len ?pk) = int (first_size C N)"
    "GetRequestPartContentsSize ?len = int (?len - 3)" "0 < ?len - 3"
    using assms by (auto simp: GetRequestContentsSize_def GetRequestPayloadSize_def GetRequestPartContentsSize_def su_sizes first_size_def)
  have part: "partitionPayload (int (first_size C N)) (int (?len - 3)) payload = Inr (take (first_size C N) payload, ?ps)"
    using partitionPayload_eq [OF sizes(3), of "first_size C N" payload] by (simp only: later_contents_def)
  have "NewRequestPayload (?len - 1 - ?pk) (take (first_size C N) payload) maxMsgs =
      Inr (payload_record (?len - 1 - ?pk) (replicate 8 0) 0 maxMsgs (take (first_size C N) payload))"
    using assms by (intro NewRequestPayload_eq) (auto simp: first_size_def)
  then show ?thesis using assms
    unfolding buildRequest_def Let_def sizes part by (simp add: NewRequest_eq SetNumRequestParts_eq)
qed

lemma buildRequest_fault:
  assumes "net_MaxMessageLength N < cr_ByteLen C + 13"
  shows "\<exists>f. buildRequest C N payload maxMsgs = Inl f"
proof -
  let ?len = "net_MaxMessageLength N" and ?pk = "cr_ByteLen C"
  have "GetRequestContentsSize (GetRequestPayloadSize ?len ?pk) < 0"
    using assms by (auto simp: GetRequestContentsSize_def GetRequestPayloadSize_def su_sizes)
  then obtain f where "partitionPayload (GetRequestContentsSize (GetRequestPayloadSize ?len ?pk)) (GetRequestPartContentsSize ?len) payload = Inl f"
    by (auto simp: partitionPayload_def islice_def)
  then show ?thesis unfolding buildRequest_def Let_def by simp
qed

text \<open>The messages of a request that was sent.\<close>

definition request_message :: "'k su_crypto \<Rightarrow> su_net \<Rightarrow> 'k \<Rightarrow> 'k \<Rightarrow> bytes \<Rightarrow> byte \<Rightarrow> bytes \<Rightarrow> cmix_msg" where
  "request_message C N recipient priv nonce maxMsgs payload =
     (let key = cr_NewRequestKey C (cr_Exp C recipient priv); fp = cr_NewRequestFingerprint C recipient;
          enc = cr_Crypt C key (take 24 fp) (request_payload_wire (net_MaxMessageLength N - 1 - cr_ByteLen C) nonce
                  (1 + word_of_nat (length (later_contents C N payload))) maxMsgs (take (first_size C N) payload))
      in \<lparr>cm_fp = fp, cm_contents = [0] @ cr_LeftpadBytes C (cr_GeneratePublicKey C priv) (cr_ByteLen C) @ enc, cm_mac = cr_MakeMAC C key enc\<rparr>)"

definition part_message :: "'k su_crypto \<Rightarrow> su_net \<Rightarrow> 'k \<Rightarrow> nat \<Rightarrow> bytes \<Rightarrow> cmix_msg" where
  "part_message C N dhKey i p =
     sc_encrypt C \<lparr>sc_dhKey = dhKey, sc_num = word_of_nat i, sc_newKey = cr_NewRequestPartKey C, sc_newFp = cr_NewRequestPartFingerprint C\<rparr>
       (request_part_wire (net_MaxMessageLength N) (word_of_nat i) p)"

lemma later_contents_props:
  assumes "cr_ByteLen C + 13 \<le> net_MaxMessageLength N"
  shows "take (first_size C N) payload @ concat (later_contents C N payload) = payload"
    "\<forall>p \<in> set (later_contents C N payload). length p \<le> net_MaxMessageLength N - 3"
  using assms split_parts_props [of "net_MaxMessageLength N - 3" "drop (first_size C N) payload"] by (auto simp: later_contents_def)

lemma later_contents_number:
  assumes "cr_ByteLen C + 13 \<le> net_MaxMessageLength N"
  shows "length (later_contents C N payload) \<le> n \<longleftrightarrow> length payload \<le> first_size C N + n * (net_MaxMessageLength N - 3)"
proof -
  let ?k = "net_MaxMessageLength N - 3"
  have k: "0 < ?k" using assms by simp
  have div: "(x + ?k - 1) div ?k \<le> n \<longleftrightarrow> x \<le> n * ?k" for x
  proof -
    have "(x + ?k - 1) div ?k \<le> n \<longleftrightarrow> (x + ?k - 1) div ?k < Suc n" by auto
    also have "\<dots> \<longleftrightarrow> x + ?k - 1 < Suc n * ?k" using k by (rule div_less_iff_less_mult)
    also have "\<dots> \<longleftrightarrow> x \<le> n * ?k" using k by auto
    finally show ?thesis .
  qed
  show ?thesis
  proof (cases "length payload \<le> first_size C N")
    case True
    then show ?thesis by (simp add: later_contents_def)
  next
    case False
    then have l: "later_contents C N payload = split_parts ?k (drop (first_size C N) payload)" by (simp add: later_contents_def)
    have "length (split_parts ?k (drop (first_size C N) payload)) = (length (drop (first_size C N) payload) + ?k - 1) div ?k"
      using split_parts_props [OF k, of "drop (first_size C N) payload"] by blast
    then have "length (later_contents C N payload) \<le> n \<longleftrightarrow> length (drop (first_size C N) payload) \<le> n * ?k"
      unfolding l using div [of "length (drop (first_size C N) payload)"] by (simp only:)
    with False show ?thesis by auto
  qed
qed

lemma ucast_number: "n < 256 \<Longrightarrow> (ucast (word_of_nat n :: byte) :: u64) = word_of_nat n"
  by (metis of_nat_unat unat_byte_of_nat)

lemma part_message_eq:
  "i < 256 \<Longrightarrow> part_message C N dhKey i p =
     (let key = cr_NewRequestPartKey C dhKey (word_of_nat i); fp = cr_NewRequestPartFingerprint C dhKey (word_of_nat i);
          enc = cr_Crypt C key (take 24 fp) (request_part_wire (net_MaxMessageLength N) (word_of_nat i) p)
      in \<lparr>cm_fp = fp, cm_contents = enc, cm_mac = cr_MakeMAC C key enc\<rparr>)"
  by (simp add: part_message_def sc_encrypt_def sc_getKey_def sc_getFingerprint_def ucast_number Let_def)

lemma TransmitRequest_messages:
  assumes "su_laws C" "TransmitRequest C N nonces getId now timeout (Some priv) recipient payload maxMsgs = Some (Inr (Inr sent))"
  shows "cr_ByteLen C + 13 \<le> net_MaxMessageLength N \<and> (\<exists>nonce. length nonce = 8 \<and>
    se_messages sent = request_message C N recipient priv nonce maxMsgs payload #
      map (\<lambda>i. part_message C N (cr_Exp C recipient priv) (Suc i) (later_contents C N payload ! i)) [0..<length (later_contents C N payload)] \<and>
    se_sendingID sent = cr_NewRecipientID C (cr_GeneratePublicKey C priv) (request_payload_wire (net_MaxMessageLength N - 1 - cr_ByteLen C) nonce
      (1 + word_of_nat (length (later_contents C N payload))) maxMsgs (take (first_size C N) payload)) \<and>
    se_collator sent = NewCollator maxMsgs \<and>
    se_cyphers sent = makeCyphers (cr_Exp C recipient priv) maxMsgs (cr_NewResponseKey C) (cr_NewResponseFingerprint C))"
proof -
  let ?len = "net_MaxMessageLength N" and ?pk = "cr_ByteLen C" and ?ps = "later_contents C N payload"
  let ?dh = "cr_Exp C recipient priv" and ?pub = "cr_GeneratePublicKey C priv" and ?first = "take (first_size C N) payload"
  let ?n = "1 + word_of_nat (length ?ps) :: byte"
  have len: "?pk + 13 \<le> ?len"
  proof (rule ccontr)
    assume "\<not> ?pk + 13 \<le> ?len"
    then obtain f where "buildRequest C N payload maxMsgs = Inl f" using buildRequest_fault by (metis not_le_imp_less)
    with assms(2) show False by (simp add: TransmitRequest_def Let_def split: if_splits)
  qed
  let ?rq = "\<lparr>rq_data = replicate ?len 0, rq_version = [0], rq_pubKey = replicate ?pk 0, rq_payload = replicate (?len - 1 - ?pk) 0\<rparr>"
  let ?rp = "payload_record (?len - 1 - ?pk) (replicate 8 0) ?n maxMsgs ?first"
  obtain rp' rid where ids: "makeIDs C nonces getId ?pub (now - 2 * timeout) (now + 2 * timeout) 0 ?rp now now None = Some (Inr (rp', Some rid))"
    and send: "sendRequest C N recipient ?dh ?pub ?rq rp' ?ps rid maxMsgs = Inr (Inr sent)"
    using assms(2) buildRequest_eq [OF len, of payload maxMsgs]
    by (auto simp: TransmitRequest_def Let_def split: if_splits option.splits sum.splits)
  obtain nonce where nonce: "length nonce = 8" "rp' = payload_record (?len - 1 - ?pk) nonce ?n maxMsgs ?first"
    "rid = cr_NewRecipientID C ?pub (rqp_data rp')"
    using makeIDs_payload [OF ids] by auto
  let ?wire = "request_payload_wire (?len - 1 - ?pk) nonce ?n maxMsgs ?first"
  have wire: "rqp_data rp' = ?wire" "length ?wire = ?len - 1 - ?pk"
    using nonce(1,2) len by (auto simp: payload_record_def request_payload_wire_def sized_contents_def first_size_def)
  let ?enc = "cr_Crypt C (cr_NewRequestKey C ?dh) (take 24 (cr_NewRequestFingerprint C recipient)) ?wire"
  obtain rq where rq: "rq_SetPayload (rq_SetPubKey ?rq (cr_LeftpadBytes C ?pub ?pk)) ?enc = Inr rq"
    "rq_data rq = [0] @ cr_LeftpadBytes C ?pub ?pk @ ?enc"
    using assembled_request [of ?pk ?len "cr_LeftpadBytes C ?pub ?pk" ?enc] assms(1) len wire(2) by (auto simp: su_laws_def)
  have count: "length ?ps \<le> 255"
  proof -
    have "int (length payload) \<le> GetMaxRequestSize C N" using assms(2) by (auto simp: TransmitRequest_def split: if_splits)
    then have "length payload \<le> first_size C N + 255 * (?len - 3)"
      using len by (auto simp: GetMaxRequestSize_def GetRequestContentsSize_def GetRequestPayloadSize_def GetRequestPartContentsSize_def
        maxNumRequestParts_def su_sizes first_size_def Let_def)
    then show ?thesis using later_contents_number [OF len] by blast
  qed
  have "3 \<le> ?len" using len by simp
  note parts = request_parts_eq [OF this later_contents_props(2) [OF len], of C ?dh 1 payload]
  have "(let key = cr_NewRequestPartKey C ?dh (word_of_nat (1 + j)); fp = cr_NewRequestPartFingerprint C ?dh (word_of_nat (1 + j));
         enc = cr_Crypt C key (take 24 fp) (request_part_wire ?len (word_of_nat (1 + j)) (?ps ! j))
       in \<lparr>cm_fp = fp, cm_contents = enc, cm_mac = cr_MakeMAC C key enc\<rparr>) = part_message C N ?dh (1 + j) (?ps ! j)" if "j < length ?ps" for j
    using part_message_eq [of "1 + j" C N ?dh "?ps ! j"] that count by simp
  then obtain msgs where msgs: "request_parts C ?len ?dh 1 ?ps = Inr msgs" "length msgs = length ?ps"
    "\<And>j. j < length ?ps \<Longrightarrow> msgs ! j = part_message C N ?dh (1 + j) (?ps ! j)"
    using parts by metis
  have "msgs = map (\<lambda>i. part_message C N ?dh (Suc i) (?ps ! i)) [0..<length ?ps]"
    using msgs(2,3) by (intro nth_equalityI) auto
  then show ?thesis using send rq msgs(1) wire(1) nonce len
    by (auto simp: sendRequest_def request_message_def Let_def split: if_splits)
qed

text \<open>The requests that a listener with the private key \<open>mine\<close> hands out when the first message arrives and then the other ones
  in some order.\<close>

definition receive_request ::
  "'k su_crypto \<Rightarrow> su_net \<Rightarrow> 'k \<Rightarrow> cmix_msg list \<Rightarrow> (nat \<Rightarrow> u64) \<Rightarrow> nat list \<Rightarrow> fault + 'k su_received list" where
  "receive_request C N mine msgs rounds order =
     res_bind (listener_process C N mine (msgs ! 0) (rounds 0)) (\<lambda>res.
     case res of
       Inl e \<Rightarrow> Inr []
     | Inr (Deliver r rs) \<Rightarrow> Inr [r]
     | Inr (Await r s cyphers) \<Rightarrow>
         res_bind (process_all (\<lambda>i s. requestPartProcessor_Process C (cyphers ! i) s (msgs ! i) (rounds i)) s order)
           (\<lambda>(calls, s'). Inr (map (\<lambda>(p, _). r\<lparr>rr_payload := p\<rparr>) calls)))"

definition request_seen :: "'k su_crypto \<Rightarrow> su_net \<Rightarrow> 'k \<Rightarrow> 'k \<Rightarrow> bytes \<Rightarrow> byte \<Rightarrow> bytes \<Rightarrow> 'k su_received" where
  "request_seen C N recipient priv nonce maxMsgs payload =
     \<lparr>rr_sender = cr_NewRecipientID C (cr_GeneratePublicKey C priv) (request_payload_wire (net_MaxMessageLength N - 1 - cr_ByteLen C) nonce
        (1 + word_of_nat (length (later_contents C N payload))) maxMsgs (take (first_size C N) payload)),
      rr_senderPubKey = cr_GeneratePublicKey C priv, rr_dhKey = cr_Exp C recipient priv, rr_maxParts = maxMsgs, rr_used = False, rr_payload = []\<rparr>"

lemma listener_sees:
  fixes M :: su_net and payload :: bytes and C :: "'k su_crypto"
  assumes "su_laws C" "length nonce = 8" "recipient = cr_GeneratePublicKey C mine" "net_MaxMessageLength N \<le> 65538"
    and "\<forall>fp. net_AddFingerprint M fp"
  defines "n \<equiv> 1 + word_of_nat (length (later_contents C N payload)) :: byte"
  defines "first \<equiv> take (first_size C N) payload"
  shows "listener_process C M mine (request_message C N recipient priv nonce maxMsgs payload) round =
    (if n > 1 then
       res_bind (Collate (NewCollator n) (Inr n, Inr 0, Inr first)) (\<lambda>(res, c).
       case res of Inl e \<Rightarrow> Inr (Inl e)
       | Inr _ \<Rightarrow> Inr (Inr (Await (request_seen C N recipient priv nonce maxMsgs payload) (c, [])
           (makeCyphers (cr_Exp C recipient priv) n (cr_NewRequestPartKey C) (cr_NewRequestPartFingerprint C)))))
     else Inr (Inr (Deliver (request_seen C N recipient priv nonce maxMsgs payload\<lparr>rr_payload := first\<rparr>) [round])))"
proof -
  let ?wire = "request_payload_wire (net_MaxMessageLength N - 1 - cr_ByteLen C) nonce n maxMsgs first"
  let ?key = "cr_LeftpadBytes C (cr_GeneratePublicKey C priv) (cr_ByteLen C)"
  let ?enc = "cr_Crypt C (cr_NewRequestKey C (cr_Exp C recipient priv)) (take 24 (cr_NewRequestFingerprint C recipient)) ?wire"
  have dh: "cr_Exp C (cr_GeneratePublicKey C priv) mine = cr_Exp C recipient priv"
    using assms(1) unfolding su_laws_def assms(3) by blast
  have laws: "length ?key = cr_ByteLen C" "cr_NewIntFromBytes C ?key = cr_GeneratePublicKey C priv"
    "cr_Crypt C k x (cr_Crypt C k x m) = m" "cr_VerifyMAC C k m (cr_MakeMAC C k m)" for k x m
    using assms(1) unfolding su_laws_def by blast+
  have parse: "UnmarshalRequest ([0] @ ?key @ ?enc) (cr_ByteLen C) =
      Inr (Inr \<lparr>rq_data = [0] @ ?key @ ?enc, rq_version = [0], rq_pubKey = ?key, rq_payload = ?enc\<rparr>)"
    using parse_request [of ?key ?enc] unfolding laws(1) .
  have "length first < 65536" using assms(4) by (auto simp: first_def first_size_def)
  then obtain mp where mp: "UnmarshalRequestPayload ?wire = Inr (Inr mp)" "rqp_GetNumRequestParts mp = Inr n"
    "rqp_GetMaxResponseParts mp = Inr maxMsgs" "rqp_GetContents mp = Inr first" "rqp_data mp = ?wire"
    using parse_request_payload [OF assms(2)] by blast
  have fps: "list_all (net_AddFingerprint M \<circ> sc_getFingerprint) cs" for cs :: "'k su_cypher list"
    using assms(5) by (simp add: list_all_iff)
  show ?thesis
    unfolding listener_process_def request_message_def Let_def cmix_msg.simps n_def [symmetric] first_def [symmetric] parse res_bind.simps
      sum.case Request.simps laws(2,3) dh mp(1)
    by (simp add: laws(4) mp(2-5) rqp_part_def fps request_seen_def n_def [symmetric] first_def [symmetric] cong: sum.case_cong)
qed

lemma part_processed:
  assumes "su_laws C" "i < unat n" "i < 256" "length p < 65536"
  shows "requestPartProcessor_Process C (makeCyphers dhKey n (cr_NewRequestPartKey C) (cr_NewRequestPartFingerprint C) ! i) s
    (part_message C N dhKey i p) round = collate_part s (Inr 0, Inr (word_of_nat i), Inr p) round"
proof -
  obtain m where m: "UnmarshalRequestPart (request_part_wire (net_MaxMessageLength N) (word_of_nat i) p) = Inr (Inr m)"
    "rqt_part m = (Inr 0, Inr (word_of_nat i), Inr p)"
    using parse_request_part [OF assms(4)] by blast
  show ?thesis using assms(2) decrypt_encrypt [OF assms(1)] m
    by (simp add: requestPartProcessor_Process_def makeCyphers_def part_message_def)
qed

lemma response_processed:
  assumes "su_laws C" "i < unat n" "length p < 65536"
  shows "responseProcessor_Process C (makeCyphers dhKey n (cr_NewResponseKey C) (cr_NewResponseFingerprint C) ! i) s
    (sc_encrypt C \<lparr>sc_dhKey = dhKey, sc_num = word_of_nat i, sc_newKey = cr_NewResponseKey C, sc_newFp = cr_NewResponseFingerprint C\<rparr>
      (response_wire len (word_of_nat i) num p)) round = collate_part s (Inr num, Inr (word_of_nat i), Inr p) round"
proof -
  obtain m where m: "UnmarshalResponsePart (response_wire len (word_of_nat i) num p) = Inr (Inr m)"
    "rsp_part m = (Inr num, Inr (word_of_nat i), Inr p)"
    using parse_response_wire [OF assms(3)] by blast
  show ?thesis using assms(2) decrypt_encrypt [OF assms(1)] m
    by (simp add: responseProcessor_Process_def makeCyphers_def)
qed

definition response_messages :: "'k su_crypto \<Rightarrow> nat \<Rightarrow> 'k \<Rightarrow> bytes list \<Rightarrow> cmix_msg list" where
  "response_messages C len dhKey ps =
     map (\<lambda>i. sc_encrypt C \<lparr>sc_dhKey = dhKey, sc_num = word_of_nat i, sc_newKey = cr_NewResponseKey C, sc_newFp = cr_NewResponseFingerprint C\<rparr>
       (response_wire len (word_of_nat i) (word_of_nat (length ps)) (ps ! i))) [0..<length ps]"

lemma Respond_sends:
  assumes "Respond C N r payload = Inr (Inr msgs, r')" "net_MaxMessageLength N \<le> 65540"
  shows "\<exists>ps. concat ps = payload \<and> msgs = response_messages C (net_MaxMessageLength N) (rr_dhKey r) ps \<and> length ps \<le> unat (rr_maxParts r) \<and>
    (payload \<noteq> [] \<longrightarrow> ps \<noteq> []) \<and> (\<forall>i < length ps. length (ps ! i) < 65536)"
proof -
  from Respond_messages [OF assms] obtain ps where ps: "concat ps = payload" "length ps = length msgs" "length ps \<le> unat (rr_maxParts r)"
    "payload \<noteq> [] \<longrightarrow> ps \<noteq> []" "\<forall>i < length ps. length (ps ! i) < 65536 \<and>
       msgs ! i = sc_encrypt C \<lparr>sc_dhKey = rr_dhKey r, sc_num = word_of_nat i, sc_newKey = cr_NewResponseKey C, sc_newFp = cr_NewResponseFingerprint C\<rparr>
         (response_wire (net_MaxMessageLength N) (word_of_nat i) (word_of_nat (length ps)) (ps ! i))"
    by (elim exE conjE)
  have "msgs = response_messages C (net_MaxMessageLength N) (rr_dhKey r) ps"
    using ps(2,5) by (intro nth_equalityI) (simp_all add: response_messages_def)
  with ps show ?thesis by (intro exI [of _ ps]) simp
qed

section \<open>Properties\<close>

text \<open>C12: A response reaches the sender of the request. The messages that \<open>Respond\<close> sends, each received once and in any order,
  make the processors of the sender call back exactly once, at the last one, with the whole payload.\<close>

theorem response_delivered:
  assumes "su_laws C" "Respond C N r payload = Inr (Inr msgs, r')" "payload \<noteq> []" "net_MaxMessageLength N \<le> 65540"
    and "distinct order" "set order = {..<length msgs}"
  shows "\<exists>rounds s'. process_all (\<lambda>i s. responseProcessor_Process C
      (makeCyphers (rr_dhKey r) (rr_maxParts r) (cr_NewResponseKey C) (cr_NewResponseFingerprint C) ! i) s (msgs ! i) (round i))
      (NewCollator (rr_maxParts r), []) order = Inr ([(payload, rounds)], s')"
proof -
  let ?P = "\<lambda>i s. responseProcessor_Process C
      (makeCyphers (rr_dhKey r) (rr_maxParts r) (cr_NewResponseKey C) (cr_NewResponseFingerprint C) ! i) s (msgs ! i) (round i)"
  from Respond_sends [OF assms(2,4)] obtain ps where ps: "concat ps = payload" "msgs = response_messages C (net_MaxMessageLength N) (rr_dhKey r) ps"
    "length ps \<le> unat (rr_maxParts r)" "payload \<noteq> [] \<longrightarrow> ps \<noteq> []" "\<forall>i < length ps. length (ps ! i) < 65536"
    by (elim exE conjE)
  have ne: "ps \<noteq> []" using ps(4) assms(3) by (rule mp)
  have len: "length msgs = length ps" using ps(2) by (simp add: response_messages_def)
  have "length order = length ps" using distinct_card [OF assms(5)] unfolding assms(6) len card_lessThan by (rule sym)
  then have nonempty: "order \<noteq> []" using ne by (metis length_0_conv)
  have holds: "col_holds (unat (rr_maxParts r)) ps {} (fst (NewCollator (rr_maxParts r), [] :: u64 list))"
    using NewCollator_holds [OF ps(3)] by simp
  have "?P i s = collate_part s (Inr (word_of_nat (length ps)), Inr (word_of_nat i), Inr (ps ! i)) (round i)" if "i < length ps" for i s
    using response_processed [OF assms(1), of i "rr_maxParts r" "ps ! i"] ps(2,3,5) that by (simp add: response_messages_def)
  then have step: "\<And>i s. i < length ps \<Longrightarrow> \<exists>rd. ?P i s = collate_part s (Inr (word_of_nat (length ps)), Inr (word_of_nat i), Inr (ps ! i)) rd"
    by blast
  have order: "set order = {..<length ps} - {}" using assms(6) len by simp
  show ?thesis
    using process_all_complete [of "unat (rr_maxParts r)" ps "{}" "(NewCollator (rr_maxParts r), [])" order ?P "Inr (word_of_nat (length ps))",
        OF holds assms(5) order nonempty step] unfolding ps(1) by simp
qed

text \<open>C11: A request reaches the listener. The messages of a request whose later parts number at most 254, the first one received
  first and the others once and in any order, make the listener hand out exactly one request, with the whole
  payload, the identity that waits for the response, the key both ends share and the number of response parts.\<close>

theorem request_delivered:
  assumes "su_laws C" "TransmitRequest C N nonces getId now timeout (Some priv) (cr_GeneratePublicKey C mine) payload maxMsgs = Some (Inr (Inr sent))"
    and "net_MaxMessageLength N \<le> 65538" "length payload \<le> first_size C N + 254 * (net_MaxMessageLength N - 3)"
    and "\<forall>fp. net_AddFingerprint M fp" "distinct order" "set order = {1..<length (se_messages sent)}"
  shows "\<exists>r. receive_request C M mine (se_messages sent) rounds order = Inr [r] \<and> rr_payload r = payload \<and>
    rr_sender r = se_sendingID sent \<and> rr_maxParts r = maxMsgs \<and>
    se_cyphers sent = makeCyphers (rr_dhKey r) maxMsgs (cr_NewResponseKey C) (cr_NewResponseFingerprint C)"
proof -
  let ?rc = "cr_GeneratePublicKey C mine"
  let ?dh = "cr_Exp C ?rc priv" and ?ps = "later_contents C N payload" and ?first = "take (first_size C N) payload"
  let ?n = "1 + word_of_nat (length ?ps) :: byte"
  from TransmitRequest_messages [OF assms(1,2)] obtain nonce where len: "cr_ByteLen C + 13 \<le> net_MaxMessageLength N" "length nonce = 8"
    and msgs: "se_messages sent = request_message C N ?rc priv nonce maxMsgs payload #
      map (\<lambda>i. part_message C N ?dh (Suc i) (?ps ! i)) [0..<length ?ps]"
    and sent: "se_sendingID sent = cr_NewRecipientID C (cr_GeneratePublicKey C priv) (request_payload_wire (net_MaxMessageLength N - 1 - cr_ByteLen C) nonce
      ?n maxMsgs ?first)" "se_cyphers sent = makeCyphers ?dh maxMsgs (cr_NewResponseKey C) (cr_NewResponseFingerprint C)"
    by (elim exE conjE)
  note whole = later_contents_props [OF len(1), of payload]
  have few: "length ?ps \<le> 254" using assms(4) later_contents_number [OF len(1)] by blast
  let ?r = "request_seen C N ?rc priv nonce maxMsgs payload"
  note sees = listener_sees [where payload = payload and priv = priv and maxMsgs = maxMsgs and round = "rounds 0" and mine = mine,
      OF assms(1) len(2) refl assms(3,5)]
  have n: "unat ?n = Suc (length ?ps)"
    using few unat_byte_of_nat [of "Suc (length ?ps)"] by simp
  have r: "rr_sender ?r = se_sendingID sent" "rr_maxParts ?r = maxMsgs" "rr_dhKey ?r = ?dh"
    by (simp_all add: request_seen_def sent(1))
  show ?thesis
  proof (cases "?ps = []")
    case True
    then have "\<not> ?n > 1" by simp
    then have "receive_request C M mine (se_messages sent) rounds order = Inr [?r\<lparr>rr_payload := ?first\<rparr>]"
      using sees msgs by (simp add: receive_request_def)
    with r sent(2) whole(1) True show ?thesis by simp
  next
    case False
    then have big: "?n > 1" using n by (simp add: word_less_nat_alt)
    let ?all = "?first # ?ps"
    let ?cs = "makeCyphers ?dh ?n (cr_NewRequestPartKey C) (cr_NewRequestPartFingerprint C)"
    let ?P = "\<lambda>i s. requestPartProcessor_Process C (?cs ! i) s (se_messages sent ! i) (rounds i)"
    have size: "length ?all = unat ?n" "0 < length ?ps" using n False by simp_all
    have first: "(np, Inr (word_of_nat 0), Inr (?all ! 0)) = (np, Inr 0, Inr ?first)" for np :: "fault + byte" by simp
    have "(1 :: nat) \<in> {..<length ?all}" using size(2) by simp
    then have part: "insert 0 {} \<noteq> {..<length ?all}" by (metis insert_iff empty_iff zero_neq_one)
    have "col_holds (unat ?n) ?all {} (NewCollator ?n)" by (rule NewCollator_holds) (use size(1) in simp)
    from Collate_part [OF this, of 0 "Inr ?n", unfolded first] part n
    obtain c where c: "Collate (NewCollator ?n) (Inr ?n, Inr 0, Inr ?first) = Inr (Inr None, c)"
      "col_holds (unat ?n) ?all (insert 0 {}) c" "col_maxNum c = int (length ?all)" by auto
    have "receive_request C M mine (se_messages sent) rounds order =
        res_bind (process_all ?P (c, []) order) (\<lambda>(calls, s'). Inr (map (\<lambda>(p, _). ?r\<lparr>rr_payload := p\<rparr>) calls))"
      using sees msgs big c(1) by (simp add: receive_request_def)
    moreover have "\<exists>rounds s'. process_all ?P (c, []) order = Inr ([(concat ?all, rounds)], s')"
    proof (rule process_all_complete [where cap = "unat ?n" and S = "insert 0 {}" and np = "Inr 0"])
      show "col_holds (unat ?n) ?all (insert 0 {}) (fst (c, []))" using c(2) by simp
      show "distinct order" by (rule assms(6))
      have "{1..<length (se_messages sent)} = {..<length ?all} - insert 0 {}" unfolding msgs by auto
      then show "set order = {..<length ?all} - insert 0 {}" using assms(7) by simp
      have "1 \<in> set order" using assms(7) size(2) unfolding msgs by simp
      then show "order \<noteq> []" by auto
      show "\<exists>round. ?P i s = collate_part s (Inr 0, Inr (word_of_nat i), Inr (?all ! i)) round"
        if "i < length ?all" "i \<notin> insert 0 {}" for i s
      proof -
        from that obtain j where j: "i = Suc j" "j < length ?ps" by (cases i) auto
        have "length (?ps ! j) < 65536"
        proof -
          have "length (?ps ! j) \<le> net_MaxMessageLength N - 3" using whole(2) j(2) nth_mem by blast
          with assms(3) len(1) show ?thesis by linarith
        qed
        from part_processed [OF assms(1) _ _ this, of i ?n ?dh s N "rounds i"] that(1) size(1) few j msgs show ?thesis by auto
      qed
      show "col_maxNum (fst (c, [])) = unsetCollatorMax \<Longrightarrow> Inr 0 = Inr (word_of_nat (length ?all))"
        using c(3) by (simp add: unsetCollatorMax_def)
    qed
    ultimately show ?thesis using r sent(2) whole(1) by auto
  qed
qed

subsection \<open>When a request is sent\<close>

lemma makeIDs_one_round:
  assumes "0 < timeout" "nonces 0 = Some nonce"
    "getId (cr_NewRecipientID C pub (rqp_data (rqp_SetNonce payload nonce))) = Some (start, stop)"
    "start \<le> now - 2 * timeout" "now + 2 * timeout \<le> stop"
  shows "makeIDs C nonces getId pub (now - 2 * timeout) (now + 2 * timeout) 0 payload now now None =
    Some (Inr (rqp_SetNonce payload nonce, Some (cr_NewRecipientID C pub (rqp_data (rqp_SetNonce payload nonce)))))"
  using assms by (simp add: makeIDs.simps [of _ _ _ _ _ _ 0] makeIDs.simps [of _ _ _ _ _ _ "Suc 0"] Let_def)

lemma TransmitRequest_sends:
  fixes C :: "'k su_crypto"
  assumes "su_laws C" "cr_ByteLen C + 13 \<le> net_MaxMessageLength N"
    "length payload \<le> first_size C N + 255 * (net_MaxMessageLength N - 3)"
    "net_IsHealthy N" "\<forall>fp. net_AddFingerprint N fp" "\<forall>i. net_Send N i"
    "makeIDs C nonces getId (cr_GeneratePublicKey C priv) (now - 2 * timeout) (now + 2 * timeout) 0
       (payload_record (net_MaxMessageLength N - 1 - cr_ByteLen C) (replicate 8 0) (1 + word_of_nat (length (later_contents C N payload))) maxMsgs
         (take (first_size C N) payload)) now now None = Some (Inr (rp, Some rid))"
  shows "\<exists>sent. TransmitRequest C N nonces getId now timeout (Some priv) recipient payload maxMsgs = Some (Inr (Inr sent))"
proof -
  let ?len = "net_MaxMessageLength N" and ?pk = "cr_ByteLen C" and ?ps = "later_contents C N payload"
  let ?dh = "cr_Exp C recipient priv" and ?pub = "cr_GeneratePublicKey C priv"
  let ?enc = "cr_Crypt C (cr_NewRequestKey C ?dh) (take 24 (cr_NewRequestFingerprint C recipient)) (rqp_data rp)"
  obtain nonce where nonce: "length nonce = 8" "rp = payload_record (?len - 1 - ?pk) nonce (1 + word_of_nat (length ?ps)) maxMsgs (take (first_size C N) payload)"
    using makeIDs_payload [OF assms(7) length_replicate] by blast
  have "length (rqp_data rp) = ?len - 1 - ?pk"
    using nonce assms(2) by (auto simp: payload_record_def request_payload_wire_def sized_contents_def first_size_def)
  then obtain rq where rq: "rq_SetPayload (rq_SetPubKey \<lparr>rq_data = replicate ?len 0, rq_version = [0], rq_pubKey = replicate ?pk 0,
      rq_payload = replicate (?len - 1 - ?pk) 0\<rparr> (cr_LeftpadBytes C ?pub ?pk)) ?enc = Inr rq"
    using assembled_request [of ?pk ?len "cr_LeftpadBytes C ?pub ?pk" ?enc] assms(1,2) by (auto simp: su_laws_def)
  have "3 \<le> ?len" using assms(2) by simp
  then obtain msgs where msgs: "request_parts C ?len ?dh 1 ?ps = Inr msgs"
    using request_parts_eq [OF _ later_contents_props(2) [OF assms(2)], of C ?dh 1 payload] by blast
  have fps: "list_all (net_AddFingerprint N \<circ> sc_getFingerprint) cs" for cs :: "'k su_cypher list" using assms(5) by (simp add: list_all_iff)
  have snd: "net_Send N 0" "list_all (net_Send N) xs" for xs using assms(6) by (simp_all add: list_all_iff)
  have "\<exists>sent. sendRequest C N recipient ?dh ?pub \<lparr>rq_data = replicate ?len 0, rq_version = [0], rq_pubKey = replicate ?pk 0,
      rq_payload = replicate (?len - 1 - ?pk) 0\<rparr> rp ?ps rid maxMsgs = Inr (Inr sent)"
    using rq msgs fps snd by (simp add: sendRequest_def Let_def)
  moreover have "\<not> int (length payload) > GetMaxRequestSize C N"
    using assms(2,3) by (auto simp: GetMaxRequestSize_def GetRequestContentsSize_def GetRequestPayloadSize_def GetRequestPartContentsSize_def
      maxNumRequestParts_def su_sizes first_size_def Let_def)
  ultimately show ?thesis
    using assms(4,7) buildRequest_eq [OF assms(2), of payload maxMsgs] by (simp add: TransmitRequest_def Let_def)
qed

subsection \<open>Two corner cases\<close>

text \<open>A request that is exactly as long as the public key passes the check of its length, and slicing it panics. An empty
  response is accepted and sends no message.\<close>

lemma short_request_panics: "length b = pubKeySize \<Longrightarrow> UnmarshalRequest b pubKeySize = Inl SliceOutOfRange"
  by (auto simp: UnmarshalRequest_def mapRequest_def slice_def su_sizes)

lemma empty_response_silent:
  assumes "\<not> rr_used r" "5 < net_MaxMessageLength N" "net_TrackResults N"
  shows "Respond C N r [] = Inr (Inr [], r\<lparr>rr_used := True\<rparr>)"
proof -
  have "next_parts k n [] = []" for k n by (cases n) simp_all
  then show ?thesis using assms NewResponsePart_eq [of "net_MaxMessageLength N"]
    by (simp add: Respond_def GetMaxResponseLength_def GetMaxResponsePartSize_def partitionResponse_def su_splitPayload_def
      rsp_GetMaxContentsSize_def makeCyphers_def Let_def)
qed

section \<open>Further properties\<close>

text \<open>C36: The largest requests arrive cut off. A request with 255 later parts, which \<open>GetMaxRequestSize\<close> allows, is sent with a number of
  parts that wraps around to zero, so the listener hands out its first part alone as the whole request.\<close>

theorem largest_request_truncated:
  assumes "su_laws C" "TransmitRequest C N nonces getId now timeout (Some priv) (cr_GeneratePublicKey C mine) payload maxMsgs = Some (Inr (Inr sent))"
    and "net_MaxMessageLength N \<le> 65538" "length payload > first_size C N + 254 * (net_MaxMessageLength N - 3)"
    and "\<forall>fp. net_AddFingerprint M fp"
  shows "\<exists>r. receive_request C M mine (se_messages sent) rounds order = Inr [r] \<and>
    rr_payload r = take (first_size C N) payload \<and> rr_payload r \<noteq> payload"
proof -
  let ?rc = "cr_GeneratePublicKey C mine" and ?ps = "later_contents C N payload"
  from TransmitRequest_messages [OF assms(1,2)] obtain nonce where len: "cr_ByteLen C + 13 \<le> net_MaxMessageLength N" "length nonce = 8"
    and msgs: "se_messages sent = request_message C N ?rc priv nonce maxMsgs payload #
      map (\<lambda>i. part_message C N (cr_Exp C ?rc priv) (Suc i) (?ps ! i)) [0..<length ?ps]"
    by (elim exE conjE)
  have "int (length payload) \<le> GetMaxRequestSize C N" using assms(2) by (auto simp: TransmitRequest_def split: if_splits)
  then have "length payload \<le> first_size C N + 255 * (net_MaxMessageLength N - 3)"
    using len by (auto simp: GetMaxRequestSize_def GetRequestContentsSize_def GetRequestPayloadSize_def GetRequestPartContentsSize_def
      maxNumRequestParts_def su_sizes first_size_def Let_def)
  then have count: "length ?ps = 255"
    using assms(4) later_contents_number [OF len(1), of payload 254] later_contents_number [OF len(1), of payload 255] by linarith
  have "(1 + word_of_nat 255 :: byte) = 0" by code_simp
  then have zero: "(1 + word_of_nat (length ?ps) :: byte) = 0" unfolding count .
  have "\<not> (1 + word_of_nat (length ?ps) :: byte) > 1" unfolding zero by simp
  then have "receive_request C M mine (se_messages sent) rounds order =
      Inr [request_seen C N ?rc priv nonce maxMsgs payload\<lparr>rr_payload := take (first_size C N) payload\<rparr>]"
    using listener_sees [where payload = payload and priv = priv and maxMsgs = maxMsgs and round = "rounds 0" and mine = mine,
      OF assms(1) len(2) refl assms(3,5)] msgs by (simp add: receive_request_def)
  moreover have "length (take (first_size C N) payload) \<noteq> length payload" using assms(4) len(1) by simp
  then have "take (first_size C N) payload \<noteq> payload" by metis
  ultimately show ?thesis by simp
qed

text \<open>Cryptographic libraries for examples: keys are bytes, encryption is exclusive or with the key.\<close>

definition su_example :: "byte su_crypto" where
  "su_example =
     \<lparr>cr_ByteLen = 1, cr_GeneratePublicKey = (\<lambda>a. a), cr_Exp = (*), cr_LeftpadBytes = (\<lambda>a n. replicate (n - 1) 0 @ (if n = 0 then [] else [a])),
      cr_NewIntFromBytes = last, cr_NewRequestKey = (\<lambda>k. [k]), cr_NewRequestFingerprint = (\<lambda>k. replicate 32 k),
      cr_NewRequestPartKey = (\<lambda>k n. [k + ucast n]), cr_NewRequestPartFingerprint = (\<lambda>k n. replicate 32 (ucast n)),
      cr_NewResponseKey = (\<lambda>k n. [k + ucast n]), cr_NewResponseFingerprint = (\<lambda>k n. replicate 32 (ucast n)),
      cr_Crypt = (\<lambda>k n m. map (Bit_Operations.xor (hd k)) m), cr_MakeMAC = (\<lambda>k m. [sum_list m]), cr_VerifyMAC = (\<lambda>k m c. c = [sum_list m]),
      cr_NewRecipientID = (\<lambda>k b. b)\<rparr>"

lemma su_example_laws: "su_laws su_example"
  by (simp add: su_laws_def su_example_def map_idI comp_def xor.left_commute flip: xor.assoc)

definition net_example :: su_net where
  "net_example = \<lparr>net_MaxMessageLength = 16, net_IsHealthy = True, net_AddFingerprint = (\<lambda>_. True), net_Send = (\<lambda>_. True), net_TrackResults = True\<rparr>"

definition transmit_example :: "bytes \<Rightarrow> (fault + (su_error + byte su_sent)) option" where
  "transmit_example payload =
     TransmitRequest su_example net_example (\<lambda>_. Some (replicate 8 1)) (\<lambda>_. Some (- 100, 100)) 0 1 (Some 3) (cr_GeneratePublicKey su_example 5) payload 2"

definition sent_example :: "bytes \<Rightarrow> byte su_sent" where
  "sent_example payload = projr (projr (the (transmit_example payload)))"

lemma transmit_example_sent: "transmit_example [1, 2, 3, 4, 5] = Some (Inr (Inr (sent_example [1, 2, 3, 4, 5])))"
proof -
  have "(case transmit_example [1, 2, 3, 4, 5] of Some (Inr (Inr _)) \<Rightarrow> True | _ \<Rightarrow> False)" by code_simp
  then show ?thesis by (auto simp: sent_example_def split: option.splits sum.splits)
qed

theorem request_delivered_witness:
  "\<exists>r. receive_request su_example net_example 5 (se_messages (sent_example [1, 2, 3, 4, 5])) (\<lambda>_. 9) [1] = Inr [r] \<and> rr_payload r = [1, 2, 3, 4, 5]"
proof -
  have "length (se_messages (sent_example [1, 2, 3, 4, 5])) = 2" by code_simp
  then have order: "set [1] = {1..<length (se_messages (sent_example [1, 2, 3, 4, 5]))}" by auto
  have sizes: "net_MaxMessageLength net_example \<le> 65538" "length [1 :: byte, 2, 3, 4, 5] \<le> first_size su_example net_example + 254 * (net_MaxMessageLength net_example - 3)"
    "\<forall>fp. net_AddFingerprint net_example fp" "distinct [1 :: nat]"
    by (simp_all add: net_example_def first_size_def su_example_def)
  show ?thesis
    using request_delivered [OF su_example_laws transmit_example_sent [unfolded transmit_example_def] sizes order, of "\<lambda>_. 9"] by blast
qed

definition received_example :: "byte su_received" where
  "received_example = \<lparr>rr_sender = [], rr_senderPubKey = 3, rr_dhKey = 15, rr_maxParts = 2, rr_used = False, rr_payload = []\<rparr>"

theorem response_delivered_witness:
  "\<exists>rounds s'. process_all (\<lambda>i s. responseProcessor_Process su_example (makeCyphers 15 2 (cr_NewResponseKey su_example) (cr_NewResponseFingerprint su_example) ! i) s
      (projr (fst (projr (Respond su_example net_example received_example (replicate 20 7)))) ! i) 4) (NewCollator 2, []) [1, 0] =
    Inr ([(replicate 20 7, rounds)], s')"
proof -
  let ?R = "Respond su_example net_example received_example (replicate 20 7)"
  have "(case ?R of Inr (Inr msgs, _) \<Rightarrow> length msgs = 2 | _ \<Rightarrow> False)" by code_simp
  then have R: "?R = Inr (Inr (projr (fst (projr ?R))), snd (projr ?R))" "length (projr (fst (projr ?R))) = 2"
    by (auto split: sum.splits)
  show ?thesis
    using response_delivered [OF su_example_laws R(1), of "[1, 0]" "\<lambda>_. 4"] R(2)
    by (simp add: net_example_def received_example_def lessThan_Suc numeral_2_eq_2 insert_commute)
qed

theorem largest_request_truncated_witness:
  "\<exists>sent r. TransmitRequest su_example (net_example\<lparr>net_MaxMessageLength := 14\<rparr>) (\<lambda>_. Some (replicate 8 1)) (\<lambda>_. Some (- 100, 100)) 0 1
      (Some 3) (cr_GeneratePublicKey su_example 5) (replicate 2795 7) 2 = Some (Inr (Inr sent)) \<and>
    receive_request su_example net_example 5 (se_messages sent) (\<lambda>_. 9) [] = Inr [r] \<and> rr_payload r = []"
proof -
  let ?N = "net_example\<lparr>net_MaxMessageLength := 14\<rparr>" and ?p = "replicate 2795 7 :: bytes"
  have sizes: "cr_ByteLen su_example + 13 \<le> net_MaxMessageLength ?N" "net_MaxMessageLength ?N \<le> 65538" "first_size su_example ?N = 0"
    "length ?p \<le> first_size su_example ?N + 255 * (net_MaxMessageLength ?N - 3)"
    "length ?p > first_size su_example ?N + 254 * (net_MaxMessageLength ?N - 3)"
    by (simp_all add: su_example_def first_size_def)
  have net: "net_IsHealthy ?N" "\<forall>fp. net_AddFingerprint ?N fp" "\<forall>i. net_Send ?N i" "\<forall>fp. net_AddFingerprint net_example fp"
    by (simp_all add: net_example_def)
  have ids: "makeIDs su_example (\<lambda>_. Some (replicate 8 1)) (\<lambda>_. Some (- 100, 100)) pub (0 - 2 * 1) (0 + 2 * 1) 0 rp 0 0 None =
      Some (Inr (rqp_SetNonce rp (replicate 8 1), Some (cr_NewRecipientID su_example pub (rqp_data (rqp_SetNonce rp (replicate 8 1))))))" for pub rp
    by (rule makeIDs_one_round [where start = "- 100" and stop = 100]) simp_all
  obtain sent where sent: "TransmitRequest su_example ?N (\<lambda>_. Some (replicate 8 1)) (\<lambda>_. Some (- 100, 100)) 0 1
      (Some 3) (cr_GeneratePublicKey su_example 5) ?p 2 = Some (Inr (Inr sent))"
    using TransmitRequest_sends [OF su_example_laws sizes(1,4) net(1,2,3) ids] by blast
  show ?thesis
    using largest_request_truncated [OF su_example_laws sent sizes(2,5) net(4), of "\<lambda>_. 9" "[]"] sent unfolding sizes(3) by auto
qed

end
