(* ===== verification/Transfer_Store.thy ===== *)
theory Transfer_Store
  imports State_Vector "HOL-Library.AList"
begin

text \<open>
  The stores of the file transfer, of the packages under \<open>fileTransfer/store\<close>: the message that carries a
  part of a file (\<open>fileMessage\<close>), the cyphers that number and encrypt the parts (\<open>cypher\<close>), a sent and a
  received transfer with their parts (\<open>sentTransfer.go\<close>, \<open>part.go\<close>, \<open>receivedTransfer.go\<close>,
  \<open>transferStatus.go\<close>), and the lists of transfers that are kept in storage (\<open>sent.go\<close>, \<open>received.go\<close>).

  Keys, fingerprints and the encryption of a part come from another repository and are the argument \<open>C\<close>,
  as are the JSON forms of identifiers. The lists of transfers hold pointers, which are references into a
  heap; a nil pointer is \<open>None\<close>.
\<close>

section \<open>The message of a part\<close>

definition partNumLen :: nat where "partNumLen = 2"
definition fmMinSize :: nat where "fmMinSize = partNumLen"

text \<open>The two fields are slices of \<open>data\<close>, so a message is its data.\<close>

type_synonym PartMessage = bytes

definition NewPartMessage :: "int \<Rightarrow> fault + PartMessage" where
  "NewPartMessage externalPayloadSize =
     (if externalPayloadSize < int fmMinSize then Inl FatalPanic
      else Inr (replicate (nat externalPayloadSize) 0))"

datatype fm_error = UnmarshalFmSizeErr nat

definition UnmarshalPartMessage :: "bytes \<Rightarrow> fm_error + PartMessage" where
  "UnmarshalPartMessage b = (if length b < fmMinSize then Inl (UnmarshalFmSizeErr (length b)) else Inr b)"

definition pm_Marshal :: "PartMessage \<Rightarrow> bytes" where
  "pm_Marshal m = m"

definition pm_GetPartNum :: "PartMessage \<Rightarrow> fault + u16" where
  "pm_GetPartNum m = get_le 2 (take partNumLen m)"

definition pm_SetPartNum :: "PartMessage \<Rightarrow> u16 \<Rightarrow> PartMessage" where
  "pm_SetPartNum m num = copy_at m 0 (put_le16 num)"

definition pm_GetPart :: "PartMessage \<Rightarrow> bytes" where
  "pm_GetPart m = drop partNumLen m"

definition pm_GetPartSize :: "PartMessage \<Rightarrow> nat" where
  "pm_GetPartSize m = length (drop partNumLen m)"

definition pm_SetPart :: "PartMessage \<Rightarrow> bytes \<Rightarrow> fault + PartMessage" where
  "pm_SetPart m b =
     (if length b > length (drop partNumLen m) then Inl FatalPanic else Inr (copy_at m partNumLen b))"

section \<open>Cyphers\<close>

record 'k ft_crypto =
  ftc_KeyBytes :: "'k \<Rightarrow> bytes"
  ftc_UnmarshalTransferKey :: "bytes \<Rightarrow> 'k"
  ftc_GenerateFingerprint :: "'k \<Rightarrow> u16 \<Rightarrow> bytes"
  ftc_EncryptPart :: "'k \<Rightarrow> bytes \<Rightarrow> u16 \<Rightarrow> bytes \<Rightarrow> bytes \<times> bytes"
  ftc_DecryptPart :: "'k \<Rightarrow> bytes \<Rightarrow> bytes \<Rightarrow> u16 \<Rightarrow> bytes \<Rightarrow> bytes option"
  ftc_idJSON :: "bytes \<Rightarrow> json"
  ftc_jsonID :: "json \<Rightarrow> bytes option"
  ftc_tidJSON :: "bytes \<Rightarrow> json"
  ftc_jsonTid :: "json \<Rightarrow> bytes option"

datatype ft_error =
    FtPrefixErr prefix_error
  | NewFpVectorErr kv_error
  | SaveKeyErr kv_error
  | LoadKeyErr kv_error
  | LoadFpVectorErr sv_error
  | GetNextFpErr u32
  | DeleteKeyErr kv_error
  | DeleteFpVectorErr kv_error
  | NewCypherManagerErr ft_error
  | NewPartStatusVectorErr kv_error
  | SaveErr kv_error
  | LoadCypherManagerErr ft_error
  | LoadFieldsErr kv_error
  | UnmarshalFieldsErr
  | LoadPartStatusVectorErr sv_error
  | DeleteCypherManagerErr ft_error
  | DeleteFieldsErr kv_error
  | DeletePartStatusErr kv_error
  | PartOutOfRangeErr int int
  | ReceivedPartSaveErr int kv_error
  | DecryptErr
  | LoadListErr kv_error
  | UnmarshalListErr
  | LoadAllErr nat
  | ExistingTransferErr bytes
  | NewTransferErr bytes

definition cypherManagerPrefix :: string where "cypherManagerPrefix = ''CypherManagerStore''"
definition cypherManagerFpVectorKey :: string where "cypherManagerFpVectorKey = ''CypherManagerFingerprintVector''"
definition cypherManagerKeyStoreKey :: string where "cypherManagerKeyStoreKey = ''CypherManagerKey''"
definition cypherManagerKeyStoreVersion :: u64 where "cypherManagerKeyStoreVersion = 0"

record ('k, 'h) cypher_Manager =
  cym_key :: 'k
  cym_fpVector :: "'h StateVector"
  cym_kv :: 'h

definition cym_saveKey ::
  "'k ft_crypto \<Rightarrow> ('h, 'w) KV_ops \<Rightarrow> 'w \<Rightarrow> 'k \<Rightarrow> 'h \<Rightarrow> kv_error option \<times> 'w" where
  "cym_saveKey C K w key h =
     KV_Set K h w cypherManagerKeyStoreKey
       \<lparr>obj_Version = cypherManagerKeyStoreVersion, obj_Timestamp = KV_Now K w, obj_Data = Raw (ftc_KeyBytes C key)\<rparr>"

text \<open>The data of an object that was not stored as bytes is not a key.\<close>

definition raw_data :: "Object \<Rightarrow> kv_error + bytes" where
  "raw_data obj = (case obj_Data obj of Raw b \<Rightarrow> Inr b | Json _ \<Rightarrow> Inl KVFailure)"

definition cym_loadKey :: "'k ft_crypto \<Rightarrow> ('h, 'w) KV_ops \<Rightarrow> 'w \<Rightarrow> 'h \<Rightarrow> kv_error + 'k" where
  "cym_loadKey C K w h =
     res_bind (KV_Get K h w cypherManagerKeyStoreKey cypherManagerKeyStoreVersion) (\<lambda>obj.
     res_bind (raw_data obj) (\<lambda>b. Inr (ftc_UnmarshalTransferKey C b)))"

definition cym_NewManager ::
  "'k ft_crypto \<Rightarrow> ('h, 'w) KV_ops \<Rightarrow> 'w \<Rightarrow> 'k \<Rightarrow> u16 \<Rightarrow> 'h \<Rightarrow>
   fault + (ft_error + ('k, 'h) cypher_Manager) \<times> 'w" where
  "cym_NewManager C K w key numFps h =
     (case KV_Prefix K h cypherManagerPrefix of
        Inl err \<Rightarrow> Inr (Inl (FtPrefixErr err), w)
      | Inr h1 \<Rightarrow>
          res_bind (NewStateVector K w (ucast numFps) False cypherManagerFpVectorKey h1) (\<lambda>(fpVector, err, w1).
            case err of
              Some e \<Rightarrow> Inr (Inl (NewFpVectorErr e), w1)
            | None \<Rightarrow>
                (case cym_saveKey C K w1 key h1 of
                   (Some e, w2) \<Rightarrow> Inr (Inl (SaveKeyErr e), w2)
                 | (None, w2) \<Rightarrow> Inr (Inr \<lparr>cym_key = key, cym_fpVector = fpVector, cym_kv = h1\<rparr>, w2))))"

text \<open>A cypher is a number of its manager.\<close>

definition PopCypher ::
  "('h, 'w) KV_ops \<Rightarrow> 'w \<Rightarrow> ('k, 'h) cypher_Manager \<Rightarrow>
   fault + (ft_error + u16) \<times> ('k, 'h) cypher_Manager \<times> 'w" where
  "PopCypher K w m =
     res_bind (sv_Next K w (cym_fpVector m)) (\<lambda>(r, sv, w').
       case r of
         Inl err \<Rightarrow> Inr (Inl (GetNextFpErr (GetNumKeys sv)), m\<lparr>cym_fpVector := sv\<rparr>, w')
       | Inr fpNum \<Rightarrow> Inr (Inr (ucast fpNum), m\<lparr>cym_fpVector := sv\<rparr>, w'))"

definition cym_GetUnusedCyphers :: "('k, 'h) cypher_Manager \<Rightarrow> fault + u16 list" where
  "cym_GetUnusedCyphers m = res_bind (GetUnusedKeyNums (cym_fpVector m)) (\<lambda>fpNums. Inr (map ucast fpNums))"

definition cym_LoadManager ::
  "'k ft_crypto \<Rightarrow> ('h, 'w) KV_ops \<Rightarrow> 'w \<Rightarrow> 'h \<Rightarrow> ft_error + ('k, 'h) cypher_Manager" where
  "cym_LoadManager C K w h =
     (case KV_Prefix K h cypherManagerPrefix of
        Inl err \<Rightarrow> Inl (FtPrefixErr err)
      | Inr h1 \<Rightarrow>
          (case cym_loadKey C K w h1 of
             Inl err \<Rightarrow> Inl (LoadKeyErr err)
           | Inr key \<Rightarrow>
               (case LoadStateVector K w h1 cypherManagerFpVectorKey of
                  Inl err \<Rightarrow> Inl (LoadFpVectorErr err)
                | Inr fpVector \<Rightarrow> Inr \<lparr>cym_key = key, cym_fpVector = fpVector, cym_kv = h1\<rparr>)))"

definition cym_Delete ::
  "('h, 'w) KV_ops \<Rightarrow> 'w \<Rightarrow> ('k, 'h) cypher_Manager \<Rightarrow> fault + ft_error option \<times> 'w" where
  "cym_Delete K w m =
     (case KV_Delete K (cym_kv m) w cypherManagerKeyStoreKey cypherManagerKeyStoreVersion of
        (Some e, w1) \<Rightarrow> Inr (Some (DeleteKeyErr e), w1)
      | (None, w1) \<Rightarrow>
          res_bind (sv_Delete K w1 (cym_fpVector m)) (\<lambda>(err, w2).
            Inr (map_option DeleteFpVectorErr err, w2)))"

definition cy_GetFingerprint :: "'k ft_crypto \<Rightarrow> ('k, 'h) cypher_Manager \<Rightarrow> u16 \<Rightarrow> bytes" where
  "cy_GetFingerprint C m fpNum = ftc_GenerateFingerprint C (cym_key m) fpNum"

record ft_msg =
  ftm_contents :: bytes
  ftm_mac :: bytes
  ftm_keyFP :: bytes

definition cy_Encrypt :: "'k ft_crypto \<Rightarrow> ('k, 'h) cypher_Manager \<Rightarrow> u16 \<Rightarrow> bytes \<Rightarrow> ft_msg" where
  "cy_Encrypt C m fpNum contents =
     (let fp = ftc_GenerateFingerprint C (cym_key m) fpNum;
          (cipherText, mac) = ftc_EncryptPart C (cym_key m) contents fpNum fp
      in \<lparr>ftm_contents = cipherText, ftm_mac = mac, ftm_keyFP = fp\<rparr>)"

definition cy_Decrypt ::
  "'k ft_crypto \<Rightarrow> ('h, 'w) KV_ops \<Rightarrow> 'w \<Rightarrow> ('k, 'h) cypher_Manager \<Rightarrow> u16 \<Rightarrow> ft_msg \<Rightarrow>
   fault + (ft_error + bytes) \<times> ('k, 'h) cypher_Manager \<times> 'w" where
  "cy_Decrypt C K w m fpNum msg =
     (case ftc_DecryptPart C (cym_key m) (ftm_contents msg) (ftm_mac msg) fpNum (ftm_keyFP msg) of
        None \<Rightarrow> Inr (Inl DecryptErr, m, w)
      | Some filePart \<Rightarrow>
          res_bind (sv_Use K w (cym_fpVector m) (ucast fpNum)) (\<lambda>(sv, w').
            Inr (Inr filePart, m\<lparr>cym_fpVector := sv\<rparr>, w')))"

section \<open>The status of a transfer\<close>

text \<open>\<open>TransferStatus\<close> is an \<open>int\<close>.\<close>

definition Running :: int where "Running = 0"
definition Completed :: int where "Completed = 1"
definition Failed :: int where "Failed = 2"

definition ts_String :: "int \<Rightarrow> string" where
  "ts_String ts =
     (if ts = Running then ''running'' else if ts = Completed then ''completed''
      else if ts = Failed then ''failed'' else ''INVALID TransferStatus: '' @ itoa ts)"

definition ts_Marshal :: "int \<Rightarrow> bytes" where
  "ts_Marshal ts = put_le64 (word_of_int ts)"

definition UnmarshalTransferStatus :: "bytes \<Rightarrow> fault + int" where
  "UnmarshalTransferStatus b = res_bind (get_le 8 b) (\<lambda>(x :: u64). Inr (sint x))"

section \<open>Progress callbacks\<close>

text \<open>\<open>generateSentFp\<close> and \<open>generateReceivedFp\<close> build the same string.\<close>

definition generateFp :: "bool \<Rightarrow> u16 \<Rightarrow> u16 \<Rightarrow> string option \<Rightarrow> string" where
  "generateFp completed arrived totalParts err =
     (if completed then ''true'' else ''false'') @ itoa (uint arrived) @ itoa (uint totalParts) @
     (case err of None \<Rightarrow> ''<nil>'' | Some e \<Rightarrow> e)"

section \<open>Sent transfers\<close>

definition sentTransferStorePrefix :: string where "sentTransferStorePrefix = ''SentFileTransferStore/''"
definition sentTransferStoreKey :: string where "sentTransferStoreKey = ''SentTransfer''"
definition sentTransferStoreVersion :: u64 where "sentTransferStoreVersion = 0"
definition sentTransferStatusKey :: string where "sentTransferStatusKey = ''SentPartStatusVector''"

record ('k, 'h) SentTransfer =
  st_cypherManager :: "('k, 'h) cypher_Manager"
  st_tid :: bytes
  st_fileName :: string
  st_recipient :: bytes
  st_fileSize :: u32
  st_numParts :: u16
  st_status :: int
  st_parts :: "bytes list"
  st_partStatus :: "'h StateVector"
  st_lastCallbackFingerprint :: string
  st_kv :: 'h

definition makeSentTransferPrefix :: "bytes \<Rightarrow> string" where
  "makeSentTransferPrefix tid = sentTransferStorePrefix @ base64 tid"

definition st_marshal :: "'k ft_crypto \<Rightarrow> ('k, 'h) SentTransfer \<Rightarrow> stored" where
  "st_marshal C st =
     Json (JObj [(''FileName'', JStr (st_fileName st)), (''Recipient'', ftc_idJSON C (st_recipient st)),
                 (''Status'', JNum (st_status st)), (''Parts'', JArr (map JBytes (st_parts st)))])"

fun json_string :: "json \<Rightarrow> string option" where
  "json_string (JStr s) = Some s"
| "json_string JNull = Some []"
| "json_string _ = None"

fun json_int64 :: "json \<Rightarrow> int option" where
  "json_int64 (JNum i) = (if in_int64 i then Some i else None)"
| "json_int64 JNull = Some 0"
| "json_int64 _ = None"

definition unmarshalSentTransfer :: "'k ft_crypto \<Rightarrow> stored \<Rightarrow> (string \<times> bytes \<times> int \<times> bytes list) option" where
  "unmarshalSentTransfer C data =
     (case data of
        Raw _ \<Rightarrow> None
      | Json j \<Rightarrow>
          (case (json_string (json_field j ''FileName''), ftc_jsonID C (json_field j ''Recipient''),
                 json_int64 (json_field j ''Status''), json_list json_bytes (json_field j ''Parts'')) of
             (Some fileName, Some recipient, Some status, Some parts) \<Rightarrow> Some (fileName, recipient, status, parts)
           | _ \<Rightarrow> None))"

definition st_save ::
  "'k ft_crypto \<Rightarrow> ('h, 'w) KV_ops \<Rightarrow> 'w \<Rightarrow> ('k, 'h) SentTransfer \<Rightarrow> kv_error option \<times> 'w" where
  "st_save C K w st =
     KV_Set K (st_kv st) w sentTransferStoreKey
       \<lparr>obj_Version = sentTransferStoreVersion, obj_Timestamp = KV_Now K w, obj_Data = st_marshal C st\<rparr>"

definition newSentTransfer ::
  "'k ft_crypto \<Rightarrow> ('h, 'w) KV_ops \<Rightarrow> 'w \<Rightarrow> bytes \<Rightarrow> 'k \<Rightarrow> bytes \<Rightarrow> string \<Rightarrow> u32 \<Rightarrow> bytes list \<Rightarrow> u16 \<Rightarrow> 'h \<Rightarrow>
   fault + (ft_error + ('k, 'h) SentTransfer) \<times> 'w" where
  "newSentTransfer C K w recipient key tid fileName fileSize parts numFps h =
     (case KV_Prefix K h (makeSentTransferPrefix tid) of
        Inl err \<Rightarrow> Inr (Inl (FtPrefixErr err), w)
      | Inr h1 \<Rightarrow>
          res_bind (cym_NewManager C K w key numFps h1) (\<lambda>(r, w1).
            case r of
              Inl err \<Rightarrow> Inr (Inl (NewCypherManagerErr err), w1)
            | Inr cypherManager \<Rightarrow>
                res_bind (NewStateVector K w1 (word_of_nat (length parts)) False sentTransferStatusKey h1)
                  (\<lambda>(partStatus, err, w2).
                    case err of
                      Some e \<Rightarrow> Inr (Inl (NewPartStatusVectorErr e), w2)
                    | None \<Rightarrow>
                        (let st = \<lparr>st_cypherManager = cypherManager, st_tid = tid, st_fileName = fileName,
                               st_recipient = recipient, st_fileSize = fileSize, st_numParts = word_of_nat (length parts),
                               st_status = Running, st_parts = parts, st_partStatus = partStatus,
                               st_lastCallbackFingerprint = [], st_kv = h1\<rparr>
                         in case st_save C K w2 st of
                              (Some e, w3) \<Rightarrow> Inr (Inl (SaveErr e), w3)
                            | (None, w3) \<Rightarrow> Inr (Inr st, w3)))))"

text \<open>The numbers of the unsent parts.\<close>

definition st_GetUnsentParts :: "('k, 'h) SentTransfer \<Rightarrow> fault + u16 list" where
  "st_GetUnsentParts st = res_bind (GetUnusedKeyNums (st_partStatus st)) (\<lambda>ns. Inr (map ucast ns))"

definition st_getPartData :: "('k, 'h) SentTransfer \<Rightarrow> u16 \<Rightarrow> fault + bytes" where
  "st_getPartData st partNum =
     (if int (unat partNum) > int (length (st_parts st)) - 1 then Inl FatalPanic
      else Inr (st_parts st ! unat partNum))"

definition st_markArrived ::
  "('h, 'w) KV_ops \<Rightarrow> 'w \<Rightarrow> ('k, 'h) SentTransfer \<Rightarrow> u16 \<Rightarrow> fault + ('k, 'h) SentTransfer \<times> 'w" where
  "st_markArrived K w st partNum =
     res_bind (sv_Use K w (st_partStatus st) (ucast partNum)) (\<lambda>(sv, w').
       let st1 = st\<lparr>st_partStatus := sv\<rparr>
       in Inr (if GetNumUsed sv = ucast (st_numParts st) then st1\<lparr>st_status := Completed\<rparr> else st1, w'))"

definition st_markTransferFailed :: "('k, 'h) SentTransfer \<Rightarrow> ('k, 'h) SentTransfer" where
  "st_markTransferFailed st = st\<lparr>st_status := Failed\<rparr>"

definition st_NumArrived :: "('k, 'h) SentTransfer \<Rightarrow> u16" where
  "st_NumArrived st = ucast (GetNumUsed (st_partStatus st))"

definition st_CopyPartStatusVector :: "('k, 'h) SentTransfer \<Rightarrow> 'h StateVector" where
  "st_CopyPartStatusVector st = sv_DeepCopy (st_partStatus st)"

definition st_CompareAndSwapCallbackFps ::
  "('k, 'h) SentTransfer \<Rightarrow> bool \<Rightarrow> u16 \<Rightarrow> u16 \<Rightarrow> string option \<Rightarrow> bool \<times> ('k, 'h) SentTransfer" where
  "st_CompareAndSwapCallbackFps st completed arrived totalParts err =
     (let fp = generateFp completed arrived totalParts err
      in if fp \<noteq> st_lastCallbackFingerprint st then (True, st\<lparr>st_lastCallbackFingerprint := fp\<rparr>) else (False, st))"

text \<open>\<open>calcFileSize\<close> indexes the last and the first part.\<close>

definition calcFileSize :: "bytes list \<Rightarrow> fault + u32" where
  "calcFileSize parts =
     (if parts = [] then Inl IndexOutOfRange
      else Inr (word_of_int (int (length (parts ! (length parts - 1))) + int (length (parts ! 0)) * (int (length parts) - 1))))"

definition loadSentTransfer ::
  "'k ft_crypto \<Rightarrow> ('h, 'w) KV_ops \<Rightarrow> 'w \<Rightarrow> bytes \<Rightarrow> 'h \<Rightarrow> fault + (ft_error + ('k, 'h) SentTransfer)" where
  "loadSentTransfer C K w tid h =
     (case KV_Prefix K h (makeSentTransferPrefix tid) of
        Inl err \<Rightarrow> Inr (Inl (FtPrefixErr err))
      | Inr h1 \<Rightarrow>
          (case cym_LoadManager C K w h1 of
             Inl err \<Rightarrow> Inr (Inl (LoadCypherManagerErr err))
           | Inr cypherManager \<Rightarrow>
               (case KV_Get K h1 w sentTransferStoreKey sentTransferStoreVersion of
                  Inl err \<Rightarrow> Inr (Inl (LoadFieldsErr err))
                | Inr obj \<Rightarrow>
                    (case unmarshalSentTransfer C (obj_Data obj) of
                       None \<Rightarrow> Inr (Inl UnmarshalFieldsErr)
                     | Some (fileName, recipient, status, parts) \<Rightarrow>
                         (case LoadStateVector K w h1 sentTransferStatusKey of
                            Inl err \<Rightarrow> Inr (Inl (LoadPartStatusVectorErr err))
                          | Inr partStatus \<Rightarrow>
                              res_bind (calcFileSize parts) (\<lambda>fileSize.
                                Inr (Inr \<lparr>st_cypherManager = cypherManager, st_tid = tid, st_fileName = fileName,
                                   st_recipient = recipient, st_fileSize = fileSize, st_numParts = word_of_nat (length parts),
                                   st_status = status, st_parts = parts, st_partStatus = partStatus,
                                   st_lastCallbackFingerprint = [], st_kv = h1\<rparr>)))))))"

definition st_Delete ::
  "('h, 'w) KV_ops \<Rightarrow> 'w \<Rightarrow> ('k, 'h) SentTransfer \<Rightarrow> fault + ft_error option \<times> 'w" where
  "st_Delete K w st =
     res_bind (cym_Delete K w (st_cypherManager st)) (\<lambda>(err, w1).
       case err of
         Some e \<Rightarrow> Inr (Some (DeleteCypherManagerErr e), w1)
       | None \<Rightarrow>
           (case KV_Delete K (st_kv st) w1 sentTransferStoreKey sentTransferStoreVersion of
              (Some e, w2) \<Rightarrow> Inr (Some (DeleteFieldsErr e), w2)
            | (None, w2) \<Rightarrow>
                res_bind (sv_Delete K w2 (st_partStatus st)) (\<lambda>(err, w3).
                  Inr (map_option DeletePartStatusErr err, w3))))"

subsection \<open>Parts\<close>

definition part_GetEncryptedPart ::
  "'k ft_crypto \<Rightarrow> ('h, 'w) KV_ops \<Rightarrow> 'w \<Rightarrow> ('k, 'h) SentTransfer \<Rightarrow> u16 \<Rightarrow> int \<Rightarrow>
   fault + (ft_error + ft_msg) \<times> ('k, 'h) SentTransfer \<times> 'w" where
  "part_GetEncryptedPart C K w st partNum contentsSize =
     res_bind (NewPartMessage contentsSize) (\<lambda>partMsg0.
     res_bind (st_getPartData st partNum) (\<lambda>partData.
     res_bind (pm_SetPart (pm_SetPartNum partMsg0 partNum) partData) (\<lambda>partMsg.
     res_bind (PopCypher K w (st_cypherManager st)) (\<lambda>(r, m, w').
       let st1 = st\<lparr>st_cypherManager := m\<rparr>
       in case r of
            Inl err \<Rightarrow> Inr (Inl err, st_markTransferFailed st1, w')
          | Inr c \<Rightarrow> Inr (Inr (cy_Encrypt C m c (pm_Marshal partMsg)), st1, w')))))"

definition part_MarkArrived ::
  "('h, 'w) KV_ops \<Rightarrow> 'w \<Rightarrow> ('k, 'h) SentTransfer \<Rightarrow> u16 \<Rightarrow> fault + ('k, 'h) SentTransfer \<times> 'w" where
  "part_MarkArrived K w st partNum = st_markArrived K w st partNum"

section \<open>Received transfers\<close>

definition receivedTransferStorePrefix :: string where "receivedTransferStorePrefix = ''ReceivedFileTransferStore/''"
definition receivedTransferStoreKey :: string where "receivedTransferStoreKey = ''ReceivedTransfer''"
definition receivedTransferStoreVersion :: u64 where "receivedTransferStoreVersion = 0"
definition receivedTransferStatusKey :: string where "receivedTransferStatusKey = ''ReceivedPartStatusVector''"
definition receivedPartStoreKey :: string where "receivedPartStoreKey = ''receivedPart#''"
definition receivedPartStoreVersion :: u64 where "receivedPartStoreVersion = 0"

record ('k, 'h) ReceivedTransfer =
  rt_cypherManager :: "('k, 'h) cypher_Manager"
  rt_tid :: bytes
  rt_fileName :: string
  rt_transferMAC :: bytes
  rt_fileSize :: u32
  rt_numParts :: u16
  rt_parts :: "bytes list"
  rt_partStatus :: "'h StateVector"
  rt_lastCallbackFingerprint :: string
  rt_kv :: 'h

definition makeReceivedTransferPrefix :: "bytes \<Rightarrow> string" where
  "makeReceivedTransferPrefix tid = receivedTransferStorePrefix @ base64 tid"

definition makeReceivedPartKey :: "int \<Rightarrow> string" where
  "makeReceivedPartKey partNum = receivedPartStoreKey @ itoa partNum"

definition rt_marshal :: "('k, 'h) ReceivedTransfer \<Rightarrow> stored" where
  "rt_marshal rt =
     Json (JObj [(''FileName'', JStr (rt_fileName rt)), (''TransferMAC'', JBytes (rt_transferMAC rt)),
                 (''NumParts'', word_json (rt_numParts rt)), (''FileSize'', word_json (rt_fileSize rt))])"

definition unmarshalReceivedTransfer :: "stored \<Rightarrow> (string \<times> bytes \<times> u16 \<times> u32) option" where
  "unmarshalReceivedTransfer data =
     (case data of
        Raw _ \<Rightarrow> None
      | Json j \<Rightarrow>
          (case (json_string (json_field j ''FileName''), json_bytes (json_field j ''TransferMAC''),
                 json_word (json_field j ''NumParts''), json_word (json_field j ''FileSize'')) of
             (Some fileName, Some mac, Some numParts, Some fileSize) \<Rightarrow> Some (fileName, mac, numParts, fileSize)
           | _ \<Rightarrow> None))"

definition rt_save ::
  "('h, 'w) KV_ops \<Rightarrow> 'w \<Rightarrow> ('k, 'h) ReceivedTransfer \<Rightarrow> kv_error option \<times> 'w" where
  "rt_save K w rt =
     KV_Set K (rt_kv rt) w receivedTransferStoreKey
       \<lparr>obj_Version = receivedTransferStoreVersion, obj_Timestamp = KV_Now K w, obj_Data = rt_marshal rt\<rparr>"

definition rt_savePart :: "('h, 'w) KV_ops \<Rightarrow> 'w \<Rightarrow> bytes \<Rightarrow> int \<Rightarrow> 'h \<Rightarrow> kv_error option \<times> 'w" where
  "rt_savePart K w part partNum h =
     KV_Set K h w (makeReceivedPartKey partNum)
       \<lparr>obj_Version = receivedPartStoreVersion, obj_Timestamp = KV_Now K w, obj_Data = Raw part\<rparr>"

definition rt_loadPart :: "('h, 'w) KV_ops \<Rightarrow> 'w \<Rightarrow> int \<Rightarrow> 'h \<Rightarrow> kv_error + bytes" where
  "rt_loadPart K w partNum h =
     res_bind (KV_Get K h w (makeReceivedPartKey partNum) receivedPartStoreVersion) raw_data"

text \<open>A part that has not been received is a nil slice, which is the empty list here.\<close>

definition newReceivedTransfer ::
  "'k ft_crypto \<Rightarrow> ('h, 'w) KV_ops \<Rightarrow> 'w \<Rightarrow> 'k \<Rightarrow> bytes \<Rightarrow> string \<Rightarrow> bytes \<Rightarrow> u32 \<Rightarrow> u16 \<Rightarrow> u16 \<Rightarrow> 'h \<Rightarrow>
   fault + (ft_error + ('k, 'h) ReceivedTransfer) \<times> 'w" where
  "newReceivedTransfer C K w key tid fileName transferMAC fileSize numParts numFps h =
     (case KV_Prefix K h (makeReceivedTransferPrefix tid) of
        Inl err \<Rightarrow> Inr (Inl (FtPrefixErr err), w)
      | Inr h1 \<Rightarrow>
          res_bind (cym_NewManager C K w key numFps h1) (\<lambda>(r, w1).
            case r of
              Inl err \<Rightarrow> Inr (Inl (NewCypherManagerErr err), w1)
            | Inr cypherManager \<Rightarrow>
                res_bind (NewStateVector K w1 (ucast numParts) False receivedTransferStatusKey h1)
                  (\<lambda>(partStatus, err, w2).
                    case err of
                      Some e \<Rightarrow> Inr (Inl (NewPartStatusVectorErr e), w2)
                    | None \<Rightarrow>
                        (let rt = \<lparr>rt_cypherManager = cypherManager, rt_tid = tid, rt_fileName = fileName,
                               rt_transferMAC = transferMAC, rt_fileSize = fileSize, rt_numParts = numParts,
                               rt_parts = replicate (unat numParts) [], rt_partStatus = partStatus,
                               rt_lastCallbackFingerprint = [], rt_kv = h1\<rparr>
                         in case rt_save K w2 rt of
                              (Some e, w3) \<Rightarrow> Inr (Inl (SaveErr e), w3)
                            | (None, w3) \<Rightarrow> Inr (Inr rt, w3)))))"

text \<open>The part is kept in memory also when saving it fails.\<close>

definition rt_AddPart ::
  "('h, 'w) KV_ops \<Rightarrow> 'w \<Rightarrow> ('k, 'h) ReceivedTransfer \<Rightarrow> bytes \<Rightarrow> int \<Rightarrow>
   fault + ft_error option \<times> ('k, 'h) ReceivedTransfer \<times> 'w" where
  "rt_AddPart K w rt part partNum =
     (if partNum > int (length (rt_parts rt)) - 1
      then Inr (Some (PartOutOfRangeErr partNum (int (length (rt_parts rt)) - 1)), rt, w)
      else if partNum < 0 then Inl IndexOutOfRange
      else
        let rt1 = rt\<lparr>rt_parts := (rt_parts rt)[nat partNum := part]\<rparr>
        in case rt_savePart K w part partNum (rt_kv rt) of
             (Some e, w1) \<Rightarrow> Inr (Some (ReceivedPartSaveErr partNum e), rt1, w1)
           | (None, w1) \<Rightarrow>
               res_bind (sv_Use K w1 (rt_partStatus rt1) (word_of_int partNum)) (\<lambda>(sv, w2).
                 Inr (None, rt1\<lparr>rt_partStatus := sv\<rparr>, w2)))"

definition rt_GetFile :: "('k, 'h) ReceivedTransfer \<Rightarrow> bytes" where
  "rt_GetFile rt =
     (let file = concat (rt_parts rt)
      in if length file > unat (rt_fileSize rt) then take (unat (rt_fileSize rt)) file else file)"

definition rt_GetUnusedCyphers :: "('k, 'h) ReceivedTransfer \<Rightarrow> fault + u16 list" where
  "rt_GetUnusedCyphers rt = cym_GetUnusedCyphers (rt_cypherManager rt)"

definition rt_NumReceived :: "('k, 'h) ReceivedTransfer \<Rightarrow> u16" where
  "rt_NumReceived rt = ucast (GetNumUsed (rt_partStatus rt))"

definition rt_CopyPartStatusVector :: "('k, 'h) ReceivedTransfer \<Rightarrow> 'h StateVector" where
  "rt_CopyPartStatusVector rt = sv_DeepCopy (rt_partStatus rt)"

definition rt_CompareAndSwapCallbackFps ::
  "('k, 'h) ReceivedTransfer \<Rightarrow> bool \<Rightarrow> u16 \<Rightarrow> u16 \<Rightarrow> string option \<Rightarrow> bool \<times> ('k, 'h) ReceivedTransfer" where
  "rt_CompareAndSwapCallbackFps rt completed received totalParts err =
     (let fp = generateFp completed received totalParts err
      in if fp \<noteq> rt_lastCallbackFingerprint rt then (True, rt\<lparr>rt_lastCallbackFingerprint := fp\<rparr>) else (False, rt))"

text \<open>The loop that loads the parts marked as received; a part that cannot be read is logged and left empty.\<close>

fun rt_load_parts ::
  "('h, 'w) KV_ops \<Rightarrow> 'w \<Rightarrow> 'h \<Rightarrow> 'h StateVector \<Rightarrow> nat list \<Rightarrow> fault + bytes list" where
  "rt_load_parts K w h sv [] = Inr []"
| "rt_load_parts K w h sv (i # is) =
     res_bind (sv_Used sv (word_of_nat i)) (\<lambda>u.
     res_bind (rt_load_parts K w h sv is) (\<lambda>parts.
       Inr ((if u then (case rt_loadPart K w (int i) h of Inr p \<Rightarrow> p | Inl err \<Rightarrow> []) else []) # parts)))"

definition loadReceivedTransfer ::
  "'k ft_crypto \<Rightarrow> ('h, 'w) KV_ops \<Rightarrow> 'w \<Rightarrow> bytes \<Rightarrow> 'h \<Rightarrow> fault + (ft_error + ('k, 'h) ReceivedTransfer)" where
  "loadReceivedTransfer C K w tid h =
     (case KV_Prefix K h (makeReceivedTransferPrefix tid) of
        Inl err \<Rightarrow> Inr (Inl (FtPrefixErr err))
      | Inr h1 \<Rightarrow>
          (case cym_LoadManager C K w h1 of
             Inl err \<Rightarrow> Inr (Inl (LoadCypherManagerErr err))
           | Inr cypherManager \<Rightarrow>
               (case KV_Get K h1 w receivedTransferStoreKey receivedTransferStoreVersion of
                  Inl err \<Rightarrow> Inr (Inl (LoadFieldsErr err))
                | Inr obj \<Rightarrow>
                    (case unmarshalReceivedTransfer (obj_Data obj) of
                       None \<Rightarrow> Inr (Inl UnmarshalFieldsErr)
                     | Some (fileName, transferMAC, numParts, fileSize) \<Rightarrow>
                         (case LoadStateVector K w h1 receivedTransferStatusKey of
                            Inl err \<Rightarrow> Inr (Inl (LoadPartStatusVectorErr err))
                          | Inr partStatus \<Rightarrow>
                              res_bind (rt_load_parts K w h1 partStatus [0..<unat numParts]) (\<lambda>parts.
                                Inr (Inr \<lparr>rt_cypherManager = cypherManager, rt_tid = tid, rt_fileName = fileName,
                                   rt_transferMAC = transferMAC, rt_fileSize = fileSize, rt_numParts = numParts,
                                   rt_parts = parts, rt_partStatus = partStatus,
                                   rt_lastCallbackFingerprint = [], rt_kv = h1\<rparr>)))))))"

definition rt_Delete ::
  "('h, 'w) KV_ops \<Rightarrow> 'w \<Rightarrow> ('k, 'h) ReceivedTransfer \<Rightarrow> fault + ft_error option \<times> 'w" where
  "rt_Delete K w rt =
     res_bind (cym_Delete K w (rt_cypherManager rt)) (\<lambda>(err, w1).
       case err of
         Some e \<Rightarrow> Inr (Some (DeleteCypherManagerErr e), w1)
       | None \<Rightarrow>
           (case KV_Delete K (rt_kv rt) w1 receivedTransferStoreKey receivedTransferStoreVersion of
              (Some e, w2) \<Rightarrow> Inr (Some (DeleteFieldsErr e), w2)
            | (None, w2) \<Rightarrow>
                res_bind (sv_Delete K w2 (rt_partStatus rt)) (\<lambda>(err, w3).
                  Inr (map_option DeletePartStatusErr err, w3))))"

section \<open>The lists of transfers\<close>

text \<open>The map from transfer IDs to pointers is an association list; \<open>range\<close> visits its keys in the order \<open>ord\<close>.
  The heap is the list of the transfers that have been allocated.\<close>

type_synonym 'a heap = "'a list"

record 'h Transfers =
  tr_transfers :: "(bytes \<times> nat option) list"
  tr_kv :: 'h

definition sentTransfersStorePrefix :: string where "sentTransfersStorePrefix = ''SentFileTransfersPrefix''"
definition sentTransfersStoreKey :: string where "sentTransfersStoreKey = ''SentFileTransfers''"
definition sentTransfersStoreVersion :: u64 where "sentTransfersStoreVersion = 0"
definition receivedTransfersStorePrefix :: string where "receivedTransfersStorePrefix = ''ReceivedFileTransfersPrefix''"
definition receivedTransfersStoreKey :: string where "receivedTransfersStoreKey = ''ReceivedFileTransfers''"
definition receivedTransfersStoreVersion :: u64 where "receivedTransfersStoreVersion = 0"

definition marshalTransfersMap :: "'k ft_crypto \<Rightarrow> (bytes list \<Rightarrow> bytes list) \<Rightarrow> (bytes \<times> nat option) list \<Rightarrow> stored" where
  "marshalTransfersMap C ord transfers = Json (JArr (map (ftc_tidJSON C) (ord (map fst transfers))))"

definition unmarshalTransferIdList :: "'k ft_crypto \<Rightarrow> stored \<Rightarrow> bytes list option" where
  "unmarshalTransferIdList C data =
     (case data of Raw _ \<Rightarrow> None | Json j \<Rightarrow> json_list (ftc_jsonTid C) j)"

definition sent_save ::
  "'k ft_crypto \<Rightarrow> (bytes list \<Rightarrow> bytes list) \<Rightarrow> ('h, 'w) KV_ops \<Rightarrow> 'w \<Rightarrow> 'h Transfers \<Rightarrow> kv_error option \<times> 'w" where
  "sent_save C ord K w s =
     KV_Set K (tr_kv s) w sentTransfersStoreKey
       \<lparr>obj_Version = sentTransfersStoreVersion, obj_Timestamp = KV_Now K w,
        obj_Data = marshalTransfersMap C ord (tr_transfers s)\<rparr>"

text \<open>The loop of \<open>NewOrLoadSent\<close>: the number of failures, the references and numbers of the unsent parts, and
  the transfers. A transfer that fails to load leaves a nil pointer in the map.\<close>

fun load_sents ::
  "'k ft_crypto \<Rightarrow> ('h, 'w) KV_ops \<Rightarrow> 'w \<Rightarrow> bytes list \<Rightarrow> 'h Transfers \<Rightarrow> ('k, 'h) SentTransfer heap \<Rightarrow>
   fault + nat \<times> (nat \<times> u16) list \<times> 'h Transfers \<times> ('k, 'h) SentTransfer heap" where
  "load_sents C K w [] s hp = Inr (0, [], s, hp)"
| "load_sents C K w (tid # tids) s hp =
     res_bind (loadSentTransfer C K w tid (tr_kv s)) (\<lambda>r.
       case r of
         Inl err \<Rightarrow>
           res_bind (load_sents C K w tids (s\<lparr>tr_transfers := AList.update tid None (tr_transfers s)\<rparr>) hp)
             (\<lambda>(n, parts, s', hp'). Inr (Suc n, parts, s', hp'))
       | Inr st \<Rightarrow>
           (let ref = length hp
            in res_bind (if st_status st = Running then st_GetUnsentParts st else Inr []) (\<lambda>unsent.
               res_bind (load_sents C K w tids (s\<lparr>tr_transfers := AList.update tid (Some ref) (tr_transfers s)\<rparr>) (hp @ [st]))
                 (\<lambda>(n, parts, s', hp'). Inr (n, map (\<lambda>p. (ref, p)) unsent @ parts, s', hp')))))"

definition NewOrLoadSent ::
  "'k ft_crypto \<Rightarrow> ('h, 'w) KV_ops \<Rightarrow> 'w \<Rightarrow> 'h \<Rightarrow>
   fault + (ft_error + 'h Transfers \<times> (nat \<times> u16) list \<times> ('k, 'h) SentTransfer heap)" where
  "NewOrLoadSent C K w h =
     (case KV_Prefix K h sentTransfersStorePrefix of
        Inl err \<Rightarrow> Inr (Inl (FtPrefixErr err))
      | Inr h1 \<Rightarrow>
          (let s = \<lparr>tr_transfers = [], tr_kv = h1\<rparr>
           in case KV_Get K h1 w sentTransfersStoreKey sentTransfersStoreVersion of
                Inl err \<Rightarrow> (if \<not> Exists err then Inr (Inr (s, [], [])) else Inr (Inl (LoadListErr err)))
              | Inr obj \<Rightarrow>
                  (case unmarshalTransferIdList C (obj_Data obj) of
                     None \<Rightarrow> Inr (Inl UnmarshalListErr)
                   | Some tidList \<Rightarrow>
                       res_bind (load_sents C K w tidList s []) (\<lambda>(errCount, unsentParts, s', hp).
                         if tidList \<noteq> [] \<and> errCount = length tidList then Inr (Inl (LoadAllErr (length tidList)))
                         else Inr (Inr (s', unsentParts, hp))))))"

definition sent_AddTransfer ::
  "'k ft_crypto \<Rightarrow> (bytes list \<Rightarrow> bytes list) \<Rightarrow> ('h, 'w) KV_ops \<Rightarrow> 'w \<Rightarrow> 'h Transfers \<Rightarrow> ('k, 'h) SentTransfer heap \<Rightarrow>
   bytes \<Rightarrow> 'k \<Rightarrow> bytes \<Rightarrow> string \<Rightarrow> u32 \<Rightarrow> bytes list \<Rightarrow> u16 \<Rightarrow>
   fault + (ft_error + nat) \<times> 'h Transfers \<times> ('k, 'h) SentTransfer heap \<times> 'w" where
  "sent_AddTransfer C ord K w s hp recipient key tid fileName fileSize parts numFps =
     (if map_of (tr_transfers s) tid \<noteq> None then Inr (Inl (ExistingTransferErr tid), s, hp, w)
      else
        res_bind (newSentTransfer C K w recipient key tid fileName fileSize parts numFps (tr_kv s)) (\<lambda>(r, w1).
          case r of
            Inl err \<Rightarrow> Inr (Inl (NewTransferErr tid), s, hp, w1)
          | Inr st \<Rightarrow>
              (let s1 = s\<lparr>tr_transfers := AList.update tid (Some (length hp)) (tr_transfers s)\<rparr>
               in case sent_save C ord K w1 s1 of
                    (Some e, w2) \<Rightarrow> Inr (Inl (SaveErr e), s1, hp @ [st], w2)
                  | (None, w2) \<Rightarrow> Inr (Inr (length hp), s1, hp @ [st], w2))))"

text \<open>The two results of \<open>GetTransfer\<close>: the pointer, if the transfer exists.\<close>

definition tr_GetTransfer :: "'h Transfers \<Rightarrow> bytes \<Rightarrow> nat option option" where
  "tr_GetTransfer s tid = map_of (tr_transfers s) tid"

definition sent_RemoveTransfer ::
  "'k ft_crypto \<Rightarrow> (bytes list \<Rightarrow> bytes list) \<Rightarrow> ('h, 'w) KV_ops \<Rightarrow> 'w \<Rightarrow> 'h Transfers \<Rightarrow> bytes \<Rightarrow>
   kv_error option \<times> 'h Transfers \<times> 'w" where
  "sent_RemoveTransfer C ord K w s tid =
     (if map_of (tr_transfers s) tid = None then (None, s, w)
      else
        let s1 = s\<lparr>tr_transfers := AList.delete tid (tr_transfers s)\<rparr>; (err, w1) = sent_save C ord K w s1
        in (err, s1, w1))"

definition received_save ::
  "'k ft_crypto \<Rightarrow> (bytes list \<Rightarrow> bytes list) \<Rightarrow> ('h, 'w) KV_ops \<Rightarrow> 'w \<Rightarrow> 'h Transfers \<Rightarrow> kv_error option \<times> 'w" where
  "received_save C ord K w s =
     KV_Set K (tr_kv s) w receivedTransfersStoreKey
       \<lparr>obj_Version = receivedTransfersStoreVersion, obj_Timestamp = KV_Now K w,
        obj_Data = marshalTransfersMap C ord (tr_transfers s)\<rparr>"

text \<open>The loop of \<open>NewOrLoadReceived\<close>. After a failed load it goes on to call \<open>NumReceived\<close> on the nil pointer,
  so the later check that all transfers failed to load is never reached.\<close>

fun load_receiveds ::
  "'k ft_crypto \<Rightarrow> ('h, 'w) KV_ops \<Rightarrow> 'w \<Rightarrow> bytes list \<Rightarrow> 'h Transfers \<Rightarrow> ('k, 'h) ReceivedTransfer heap \<Rightarrow>
   fault + nat list \<times> 'h Transfers \<times> ('k, 'h) ReceivedTransfer heap" where
  "load_receiveds C K w [] s hp = Inr ([], s, hp)"
| "load_receiveds C K w (tid # tids) s hp =
     res_bind (loadReceivedTransfer C K w tid (tr_kv s)) (\<lambda>r.
       case r of
         Inl err \<Rightarrow> Inl NilDereference
       | Inr rt \<Rightarrow>
           (let ref = length hp
            in res_bind (load_receiveds C K w tids (s\<lparr>tr_transfers := AList.update tid (Some ref) (tr_transfers s)\<rparr>) (hp @ [rt]))
                 (\<lambda>(unfinished, s', hp'). Inr (if rt_NumReceived rt \<noteq> rt_numParts rt then ref # unfinished else unfinished, s', hp'))))"

definition NewOrLoadReceived ::
  "'k ft_crypto \<Rightarrow> ('h, 'w) KV_ops \<Rightarrow> 'w \<Rightarrow> 'h \<Rightarrow>
   fault + (ft_error + 'h Transfers \<times> nat list \<times> ('k, 'h) ReceivedTransfer heap)" where
  "NewOrLoadReceived C K w h =
     (case KV_Prefix K h receivedTransfersStorePrefix of
        Inl err \<Rightarrow> Inr (Inl (FtPrefixErr err))
      | Inr h1 \<Rightarrow>
          (let s = \<lparr>tr_transfers = [], tr_kv = h1\<rparr>
           in case KV_Get K h1 w receivedTransfersStoreKey receivedTransfersStoreVersion of
                Inl err \<Rightarrow> (if Exists err then Inr (Inl (LoadListErr err)) else Inr (Inr (s, [], [])))
              | Inr obj \<Rightarrow>
                  (case unmarshalTransferIdList C (obj_Data obj) of
                     None \<Rightarrow> Inr (Inl UnmarshalListErr)
                   | Some tidList \<Rightarrow>
                       res_bind (load_receiveds C K w tidList s []) (\<lambda>(unfinished, s', hp).
                         Inr (Inr (s', unfinished, hp))))))"

definition received_AddTransfer ::
  "'k ft_crypto \<Rightarrow> (bytes list \<Rightarrow> bytes list) \<Rightarrow> ('h, 'w) KV_ops \<Rightarrow> 'w \<Rightarrow> 'h Transfers \<Rightarrow> ('k, 'h) ReceivedTransfer heap \<Rightarrow>
   'k \<Rightarrow> bytes \<Rightarrow> string \<Rightarrow> bytes \<Rightarrow> u32 \<Rightarrow> u16 \<Rightarrow> u16 \<Rightarrow>
   fault + (ft_error + nat) \<times> 'h Transfers \<times> ('k, 'h) ReceivedTransfer heap \<times> 'w" where
  "received_AddTransfer C ord K w s hp key tid fileName transferMAC fileSize numParts numFps =
     (if map_of (tr_transfers s) tid \<noteq> None then Inr (Inl (ExistingTransferErr tid), s, hp, w)
      else
        res_bind (newReceivedTransfer C K w key tid fileName transferMAC fileSize numParts numFps (tr_kv s)) (\<lambda>(r, w1).
          case r of
            Inl err \<Rightarrow> Inr (Inl err, s, hp, w1)
          | Inr rt \<Rightarrow>
              (let s1 = s\<lparr>tr_transfers := AList.update tid (Some (length hp)) (tr_transfers s)\<rparr>
               in case received_save C ord K w1 s1 of
                    (Some e, w2) \<Rightarrow> Inr (Inl (SaveErr e), s1, hp @ [rt], w2)
                  | (None, w2) \<Rightarrow> Inr (Inr (length hp), s1, hp @ [rt], w2))))"

definition received_RemoveTransfer ::
  "'k ft_crypto \<Rightarrow> (bytes list \<Rightarrow> bytes list) \<Rightarrow> ('h, 'w) KV_ops \<Rightarrow> 'w \<Rightarrow> 'h Transfers \<Rightarrow> bytes \<Rightarrow>
   kv_error option \<times> 'h Transfers \<times> 'w" where
  "received_RemoveTransfer C ord K w s tid =
     (if map_of (tr_transfers s) tid = None then (None, s, w)
      else
        let s1 = s\<lparr>tr_transfers := AList.delete tid (tr_transfers s)\<rparr>; (err, w1) = received_save C ord K w s1
        in (err, s1, w1))"

section \<open>Stored state vectors\<close>

lemma unat_ucast_16_32 [simp]: "unat (ucast (c :: u16) :: u32) = unat c"
  using unsigned_less [of c, where ?'a = nat] by (simp add: unsigned_ucast_eq take_bit_nat_eq_self)

text \<open>A vector that satisfies its invariant and is in storage as it is in memory.\<close>

definition sv_kept :: "('h, 'w) KV_ops \<Rightarrow> 'w \<Rightarrow> 'h StateVector \<Rightarrow> 'h \<Rightarrow> string \<Rightarrow> bool" where
  "sv_kept K w sv h key = (sv_inv sv \<and> stored_at sv h key \<and> LoadStateVector K w h key = Inr sv)"

lemma stored_at_place: "stored_at sv h key \<Longrightarrow> same_place sv sv' \<Longrightarrow> stored_at sv' h key"
  by (simp add: stored_at_def same_place_def)

lemma sv_kept_frame:
  assumes "sv_kept K w sv h key"
    "KV_Get K h w' (makeStateVectorKey key) currentStateVectorVersion = KV_Get K h w (makeStateVectorKey key) currentStateVectorVersion"
  shows "sv_kept K w' sv h key"
  using assms by (simp add: sv_kept_def LoadStateVector_def Let_def)

context versioned_kv
begin

lemma save_kept:
  assumes "sets_succeed K" "stored_at sv h key" "sv_inv sv" "CHR 0x5C \<notin> set key"
  obtains w' where "sv_save K w sv = Inr (None, w')" "sv_kept K w' sv h key" "kv_writes K {h} w w'"
    "\<And>k ver. k \<noteq> makeStateVectorKey key \<Longrightarrow> KV_Get K h w' k ver = KV_Get K h w k ver"
proof -
  have "fst (KV_Set K h w (sv_key sv) \<lparr>obj_Version = currentStateVectorVersion, obj_Timestamp = KV_Now K w,
      obj_Data = sv_MarshalJSON sv\<rparr>) = None"
    using assms(1) by (simp add: sets_succeed_def)
  then obtain w' where w': "KV_Set K h w (sv_key sv) \<lparr>obj_Version = currentStateVectorVersion, obj_Timestamp = KV_Now K w,
      obj_Data = sv_MarshalJSON sv\<rparr> = (None, w')" by (metis prod.collapse)
  then have s: "sv_save K w sv = Inr (None, w')" using assms(2) by (simp add: sv_save_def stored_at_def)
  have "CHR 0x5C \<notin> set (sv_key sv)"
    using assms(2,4) by (auto simp: stored_at_def makeStateVectorKey_def stateVectorKey_def)
  then have "kv_writes K {h} w w'" by (rule kv_writes_one(1) [OF w'])
  then show thesis
    using that [OF s] load_after_save [OF assms(2) s] save_frame [OF assms(2) s] assms(2,3) by (simp add: sv_kept_def)
qed

lemma sv_Use_kept:
  assumes "sets_succeed K" "sv_kept K w0 sv h key" "unat k < unat (sv_numKeys sv)" "CHR 0x5C \<notin> set key"
  obtains sv' w' where "sv_Use K w sv k = Inr (sv', w')" "sv_kept K w' sv' h key" "sv_numKeys sv' = sv_numKeys sv"
    "used_set sv' = insert (unat k) (used_set sv)" "kv_writes K {h} w w'"
    "\<And>k' ver. k' \<noteq> makeStateVectorKey key \<Longrightarrow> KV_Get K h w' k' ver = KV_Get K h w k' ver"
proof -
  from sv_use_spec [of sv k] assms(2,3) obtain sv' where sv': "sv_use sv k = Inr sv'" "sv_inv sv'"
    "used_set sv' = insert (unat k) (used_set sv)" by (auto simp: sv_kept_def)
  note p = sv_use_place [OF sv'(1)]
  have "stored_at sv' h key" using assms(2) p by (auto simp: sv_kept_def intro: stored_at_place)
  from save_kept [OF assms(1) this sv'(2) assms(4), of w] obtain w' where
    w': "sv_save K w sv' = Inr (None, w')" "sv_kept K w' sv' h key" "kv_writes K {h} w w'"
    "\<And>k ver. k \<noteq> makeStateVectorKey key \<Longrightarrow> KV_Get K h w' k ver = KV_Get K h w k ver" by blast
  moreover have "sv_Use K w sv k = Inr (sv', w')" using sv'(1) w'(1) by (simp add: sv_Use_def)
  ultimately show thesis using that sv'(3) p by (simp add: same_place_def)
qed

lemma sv_Next_kept:
  assumes "sets_succeed K" "sv_kept K w0 sv h key" "CHR 0x5C \<notin> set key" "used_set sv \<noteq> {..<unat (sv_numKeys sv)}"
  obtains sv' w' where "sv_Next K w sv = Inr (Inr (sv_firstAvailable sv), sv', w')" "sv_kept K w' sv' h key"
    "sv_numKeys sv' = sv_numKeys sv" "unat (sv_firstAvailable sv) < unat (sv_numKeys sv)"
    "used_set sv' = insert (unat (sv_firstAvailable sv)) (used_set sv)"
    "kv_writes K {h} w w'"
    "\<And>k' ver. k' \<noteq> makeStateVectorKey key \<Longrightarrow> KV_Get K h w' k' ver = KV_Get K h w k' ver"
proof -
  have "sv_inv sv" using assms(2) by (simp add: sv_kept_def)
  then obtain sv' where sv': "sv_inv sv'" "same_place sv sv'" "unat (sv_firstAvailable sv) < unat (sv_numKeys sv)"
    "used_set sv' = insert (unat (sv_firstAvailable sv)) (used_set sv)"
    "sv_Next K w sv = next_result (sv_save K w sv') (sv_firstAvailable sv) sv'"
    by (rule sv_Next_free [OF _ assms(4), of K w])
  have "stored_at sv' h key" using assms(2) sv'(2) by (auto simp: sv_kept_def intro: stored_at_place)
  from save_kept [OF assms(1) this sv'(1) assms(3), of w] obtain w' where
    w': "sv_save K w sv' = Inr (None, w')" "sv_kept K w' sv' h key" "kv_writes K {h} w w'"
    "\<And>k ver. k \<noteq> makeStateVectorKey key \<Longrightarrow> KV_Get K h w' k ver = KV_Get K h w k ver" by blast
  moreover have "sv_Next K w sv = Inr (Inr (sv_firstAvailable sv), sv', w')"
    using sv'(5) w'(1) by (simp add: next_result_def)
  ultimately show thesis using that sv'(2-4) by (simp add: same_place_def)
qed

lemma NewStateVector_kept:
  assumes "sets_succeed K" "CHR 0x5C \<notin> set key" "unat n + 63 < 2 ^ 32"
  obtains sv w' where "NewStateVector K w n False key h = Inr (sv, None, w')" "sv_kept K w' sv h key"
    "sv_numKeys sv = n" "used_set sv = {}" "kv_writes K {h} w w'"
    "\<And>k ver. k \<noteq> makeStateVectorKey key \<Longrightarrow> KV_Get K h w' k ver = KV_Get K h w k ver"
proof -
  define sv where "sv = \<lparr>sv_vect = replicate (unat ((n + 63) div 64)) 0, sv_firstAvailable = 0,
                sv_numKeys = n, sv_numAvailable = n, sv_disableKV = False,
                sv_key = makeStateVectorKey key, sv_kv = Some h\<rparr>"
  have s: "stored_at sv h key" by (simp add: sv_def stored_at_def)
  obtain err w0 where 0: "sv_save K w sv = Inr (err, w0)" by (simp add: sv_save_def sv_def) (metis prod.collapse)
  have "NewStateVector K w n False key h = Inr (sv, err, w0)"
    using 0 by (simp add: NewStateVector_def Let_def sv_def)
  note i = NewStateVector_inv [OF assms(3) this]
  from save_kept [OF assms(1) s i(1) assms(2), of w] obtain w' where
    w': "sv_save K w sv = Inr (None, w')" "sv_kept K w' sv h key" "kv_writes K {h} w w'"
    "\<And>k ver. k \<noteq> makeStateVectorKey key \<Longrightarrow> KV_Get K h w' k ver = KV_Get K h w k ver" by blast
  moreover have "NewStateVector K w n False key h = Inr (sv, None, w')"
    using w'(1) by (simp add: NewStateVector_def Let_def sv_def)
  ultimately show thesis using that i(2,3) by blast
qed

end

section \<open>Cyphers\<close>

definition ft_laws :: "'k ft_crypto \<Rightarrow> bool" where
  "ft_laws C =
     ((\<forall>key. ftc_UnmarshalTransferKey C (ftc_KeyBytes C key) = key) \<and>
      (\<forall>key contents n fp. ftc_DecryptPart C key (fst (ftc_EncryptPart C key contents n fp))
         (snd (ftc_EncryptPart C key contents n fp)) n fp = Some contents) \<and>
      (\<forall>i. ftc_jsonID C (ftc_idJSON C i) = Some i) \<and> (\<forall>t. ftc_jsonTid C (ftc_tidJSON C t) = Some t))"

lemma ft_lawsD:
  assumes "ft_laws C"
  shows "ftc_UnmarshalTransferKey C (ftc_KeyBytes C key) = key"
    and "ftc_DecryptPart C key (fst (ftc_EncryptPart C key contents n fp)) (snd (ftc_EncryptPart C key contents n fp)) n fp = Some contents"
    and "ftc_jsonID C (ftc_idJSON C i) = Some i" "ftc_jsonTid C (ftc_tidJSON C t) = Some t"
  using assms by (auto simp: ft_laws_def)

lemma transfer_keys_no_sep [simp]:
  "CHR 0x5C \<notin> set cypherManagerFpVectorKey" "CHR 0x5C \<notin> set cypherManagerKeyStoreKey"
  "CHR 0x5C \<notin> set sentTransferStoreKey" "CHR 0x5C \<notin> set sentTransferStatusKey"
  "CHR 0x5C \<notin> set receivedTransferStoreKey" "CHR 0x5C \<notin> set receivedTransferStatusKey"
  "CHR 0x5C \<notin> set (makeStateVectorKey cypherManagerFpVectorKey)" "CHR 0x5C \<notin> set (makeStateVectorKey sentTransferStatusKey)"
  "CHR 0x5C \<notin> set (makeStateVectorKey receivedTransferStatusKey)" "CHR 0x5C \<notin> set (makeReceivedPartKey n)"
  by (simp_all add: cypherManagerFpVectorKey_def cypherManagerKeyStoreKey_def sentTransferStoreKey_def sentTransferStatusKey_def
      receivedTransferStoreKey_def receivedTransferStatusKey_def makeStateVectorKey_def stateVectorKey_def makeReceivedPartKey_def
      receivedPartStoreKey_def itoa_no_sep)

lemma transfer_keys_apart [simp]:
  "cypherManagerKeyStoreKey \<noteq> makeStateVectorKey cypherManagerFpVectorKey"
  "makeStateVectorKey cypherManagerFpVectorKey \<noteq> cypherManagerKeyStoreKey"
  "sentTransferStoreKey \<noteq> makeStateVectorKey sentTransferStatusKey" "makeStateVectorKey sentTransferStatusKey \<noteq> sentTransferStoreKey"
  "receivedTransferStoreKey \<noteq> makeStateVectorKey receivedTransferStatusKey"
  "makeStateVectorKey receivedTransferStatusKey \<noteq> receivedTransferStoreKey"
  "makeReceivedPartKey n \<noteq> receivedTransferStoreKey" "receivedTransferStoreKey \<noteq> makeReceivedPartKey n"
  "makeReceivedPartKey n \<noteq> makeStateVectorKey receivedTransferStatusKey"
  "makeStateVectorKey receivedTransferStatusKey \<noteq> makeReceivedPartKey n"
  by (simp_all add: cypherManagerFpVectorKey_def cypherManagerKeyStoreKey_def sentTransferStoreKey_def sentTransferStatusKey_def
      receivedTransferStoreKey_def receivedTransferStatusKey_def makeStateVectorKey_def stateVectorKey_def makeReceivedPartKey_def
      receivedPartStoreKey_def)

lemma received_part_key_inj [simp]: "makeReceivedPartKey (int m) = makeReceivedPartKey (int n) \<longleftrightarrow> m = n"
  by (simp add: makeReceivedPartKey_def itoa_def inj_nat_dec)

text \<open>A cypher manager whose key and fingerprints are in storage under its own prefix.\<close>

definition cym_kept :: "'k ft_crypto \<Rightarrow> ('h, 'w) KV_ops \<Rightarrow> 'w \<Rightarrow> ('k, 'h) cypher_Manager \<Rightarrow> 'h \<Rightarrow> bool" where
  "cym_kept C K w m h =
     (KV_Prefix K h cypherManagerPrefix = Inr (cym_kv m) \<and>
      sv_kept K w (cym_fpVector m) (cym_kv m) cypherManagerFpVectorKey \<and>
      (\<exists>obj. KV_Get K (cym_kv m) w cypherManagerKeyStoreKey cypherManagerKeyStoreVersion = Inr obj \<and>
         obj_Data obj = Raw (ftc_KeyBytes C (cym_key m))))"

lemma cym_kept_load:
  assumes "ft_laws C" "cym_kept C K w m h"
  shows "cym_LoadManager C K w h = Inr m"
  using assms ft_lawsD(1) [OF assms(1)]
  by (auto simp: cym_kept_def cym_LoadManager_def cym_loadKey_def raw_data_def sv_kept_def)

lemma cym_kept_frame:
  assumes "cym_kept C K w m h" "kv_writes K hs w w'" "\<And>u. u \<in> hs \<Longrightarrow> apart K u (cym_kv m)"
  shows "cym_kept C K w' m h"
  using assms(1) kv_writes_frame [OF assms(2,3), of cypherManagerKeyStoreKey]
    kv_writes_frame [OF assms(2,3), of "makeStateVectorKey cypherManagerFpVectorKey"]
    sv_kept_frame [of K w "cym_fpVector m" "cym_kv m" cypherManagerFpVectorKey w']
  by (simp add: cym_kept_def)

context versioned_kv
begin

lemma cym_NewManager_kept:
  assumes "sets_succeed K" "KV_Prefix K h cypherManagerPrefix = Inr h1"
  obtains m w' where "cym_NewManager C K w key numFps h = Inr (Inr m, w')" "cym_kept C K w' m h" "cym_key m = key"
    "cym_kv m = h1" "sv_numKeys (cym_fpVector m) = ucast numFps" "used_set (cym_fpVector m) = {}" "kv_writes K {h1} w w'"
proof -
  have "unat (ucast numFps :: u32) + 63 < 2 ^ 32"
    using unsigned_less [of numFps, where ?'a = nat] by simp
  then obtain sv w1 where
    sv: "NewStateVector K w (ucast numFps) False cypherManagerFpVectorKey h1 = Inr (sv, None, w1)"
    "sv_kept K w1 sv h1 cypherManagerFpVectorKey" "sv_numKeys sv = ucast numFps" "used_set sv = {}" "kv_writes K {h1} w w1"
    by (rule NewStateVector_kept [OF assms(1) transfer_keys_no_sep(1), of _ w h1]) (rule that)
  define obj where "obj = \<lparr>obj_Version = cypherManagerKeyStoreVersion, obj_Timestamp = KV_Now K w1, obj_Data = Raw (ftc_KeyBytes C key)\<rparr>"
  obtain w2 where w2: "KV_Set K h1 w1 cypherManagerKeyStoreKey obj = (None, w2)"
    using assms(1) by (metis sets_succeed_def prod.collapse)
  define m where "m = \<lparr>cym_key = key, cym_fpVector = sv, cym_kv = h1\<rparr>"
  have "sv_kept K w2 sv h1 cypherManagerFpVectorKey"
    by (rule sv_kept_frame [OF sv(2)]) (simp add: get_set_if [OF w2])
  then have "cym_kept C K w2 m h"
    using assms(2) get_set [OF w2] by (simp add: cym_kept_def m_def obj_def)
  moreover have "cym_NewManager C K w key numFps h = Inr (Inr m, w2)"
    using assms(2) sv(1) w2 by (simp add: cym_NewManager_def cym_saveKey_def obj_def m_def)
  moreover have "kv_writes K {h1} w w2"
    using kv_writes_trans [OF kv_writes_one(1) [OF w2] sv(5)] by simp
  ultimately show thesis using that sv(3,4) by (simp add: m_def)
qed

lemma cy_Decrypt_kept:
  assumes "sets_succeed K" "cym_kept C K w m h" "unat c < unat (sv_numKeys (cym_fpVector m))"
    and "ftc_DecryptPart C (cym_key m) (ftm_contents msg) (ftm_mac msg) c (ftm_keyFP msg) = Some p"
  obtains m' w' where "cy_Decrypt C K w m c msg = Inr (Inr p, m', w')" "cym_kept C K w' m' h"
    "cym_key m' = cym_key m" "cym_kv m' = cym_kv m" "kv_writes K {cym_kv m} w w'"
    "sv_numKeys (cym_fpVector m') = sv_numKeys (cym_fpVector m)"
    "used_set (cym_fpVector m') = insert (unat c) (used_set (cym_fpVector m))"
proof -
  from assms(2) have k: "sv_kept K w (cym_fpVector m) (cym_kv m) cypherManagerFpVectorKey" by (simp add: cym_kept_def)
  have "unat (ucast c :: u32) < unat (sv_numKeys (cym_fpVector m))" using assms(3) by simp
  from sv_Use_kept [OF assms(1) k this transfer_keys_no_sep(1), of w] obtain sv w' where
    sv: "sv_Use K w (cym_fpVector m) (ucast c) = Inr (sv, w')" "sv_kept K w' sv (cym_kv m) cypherManagerFpVectorKey"
    "sv_numKeys sv = sv_numKeys (cym_fpVector m)" "used_set sv = insert (unat c) (used_set (cym_fpVector m))"
    "kv_writes K {cym_kv m} w w'"
    "\<And>k ver. k \<noteq> makeStateVectorKey cypherManagerFpVectorKey \<Longrightarrow> KV_Get K (cym_kv m) w' k ver = KV_Get K (cym_kv m) w k ver"
    unfolding unat_ucast_16_32 by blast
  define m' where "m' = m\<lparr>cym_fpVector := sv\<rparr>"
  have "cy_Decrypt C K w m c msg = Inr (Inr p, m', w')"
    using assms(4) sv(1) by (simp add: cy_Decrypt_def m'_def)
  moreover have "cym_kept C K w' m' h" using assms(2) sv(2,6) by (simp add: cym_kept_def m'_def)
  ultimately show thesis using that sv(3-5) by (simp add: m'_def)
qed

lemma PopCypher_kept:
  assumes "sets_succeed K" "cym_kept C K w m h" "used_set (cym_fpVector m) \<noteq> {..<unat (sv_numKeys (cym_fpVector m))}"
  obtains m' w' where "PopCypher K w m = Inr (Inr (ucast (sv_firstAvailable (cym_fpVector m))), m', w')" "cym_kept C K w' m' h"
    "cym_key m' = cym_key m" "cym_kv m' = cym_kv m" "kv_writes K {cym_kv m} w w'"
    "sv_numKeys (cym_fpVector m') = sv_numKeys (cym_fpVector m)"
    "unat (sv_firstAvailable (cym_fpVector m)) < unat (sv_numKeys (cym_fpVector m))"
    "used_set (cym_fpVector m') = insert (unat (sv_firstAvailable (cym_fpVector m))) (used_set (cym_fpVector m))"
proof -
  from assms(2) have k: "sv_kept K w (cym_fpVector m) (cym_kv m) cypherManagerFpVectorKey" by (simp add: cym_kept_def)
  from sv_Next_kept [OF assms(1) k transfer_keys_no_sep(1) assms(3), of w] obtain sv w' where
    sv: "sv_Next K w (cym_fpVector m) = Inr (Inr (sv_firstAvailable (cym_fpVector m)), sv, w')"
    "sv_kept K w' sv (cym_kv m) cypherManagerFpVectorKey" "sv_numKeys sv = sv_numKeys (cym_fpVector m)"
    "unat (sv_firstAvailable (cym_fpVector m)) < unat (sv_numKeys (cym_fpVector m))"
    "used_set sv = insert (unat (sv_firstAvailable (cym_fpVector m))) (used_set (cym_fpVector m))"
    "kv_writes K {cym_kv m} w w'"
    "\<And>k ver. k \<noteq> makeStateVectorKey cypherManagerFpVectorKey \<Longrightarrow> KV_Get K (cym_kv m) w' k ver = KV_Get K (cym_kv m) w k ver"
    by blast
  define m' where "m' = m\<lparr>cym_fpVector := sv\<rparr>"
  have "PopCypher K w m = Inr (Inr (ucast (sv_firstAvailable (cym_fpVector m))), m', w')"
    using sv(1) by (simp add: PopCypher_def m'_def)
  moreover have "cym_kept C K w' m' h" using assms(2) sv(2,7) by (simp add: cym_kept_def m'_def)
  ultimately show thesis using that sv(3-6) by (simp add: m'_def)
qed

end

section \<open>Received transfers in storage\<close>

definition rt_kept :: "'k ft_crypto \<Rightarrow> ('h, 'w) KV_ops \<Rightarrow> 'w \<Rightarrow> ('k, 'h) ReceivedTransfer \<Rightarrow> 'h \<Rightarrow> bool" where
  "rt_kept C K w rt h =
     (KV_Prefix K h (makeReceivedTransferPrefix (rt_tid rt)) = Inr (rt_kv rt) \<and>
      cym_kept C K w (rt_cypherManager rt) (rt_kv rt) \<and>
      apart K (rt_kv rt) (cym_kv (rt_cypherManager rt)) \<and> apart K (cym_kv (rt_cypherManager rt)) (rt_kv rt) \<and>
      sv_kept K w (rt_partStatus rt) (rt_kv rt) receivedTransferStatusKey \<and>
      sv_numKeys (rt_partStatus rt) = ucast (rt_numParts rt) \<and>
      (\<exists>obj. KV_Get K (rt_kv rt) w receivedTransferStoreKey receivedTransferStoreVersion = Inr obj \<and>
         obj_Data obj = rt_marshal rt) \<and>
      length (rt_parts rt) = unat (rt_numParts rt) \<and>
      (\<forall>i < length (rt_parts rt).
         if i \<in> used_set (rt_partStatus rt) then rt_loadPart K w (int i) (rt_kv rt) = Inr (rt_parts rt ! i)
         else rt_parts rt ! i = []))"

lemma rt_keptD:
  assumes "rt_kept C K w rt h"
  shows "KV_Prefix K h (makeReceivedTransferPrefix (rt_tid rt)) = Inr (rt_kv rt)"
    "cym_kept C K w (rt_cypherManager rt) (rt_kv rt)"
    "apart K (rt_kv rt) (cym_kv (rt_cypherManager rt))" "apart K (cym_kv (rt_cypherManager rt)) (rt_kv rt)"
    "sv_kept K w (rt_partStatus rt) (rt_kv rt) receivedTransferStatusKey"
    "sv_numKeys (rt_partStatus rt) = ucast (rt_numParts rt)"
    "length (rt_parts rt) = unat (rt_numParts rt)"
    "i < length (rt_parts rt) \<Longrightarrow> i \<in> used_set (rt_partStatus rt) \<Longrightarrow> rt_loadPart K w (int i) (rt_kv rt) = Inr (rt_parts rt ! i)"
    "i < length (rt_parts rt) \<Longrightarrow> i \<notin> used_set (rt_partStatus rt) \<Longrightarrow> rt_parts rt ! i = []"
  using assms unfolding rt_kept_def by metis+

lemma unat_of_nat_below:
  "n < unat (k :: u32) \<Longrightarrow> unat (word_of_nat n :: u32) = n"
  using unsigned_less [of k, where ?'a = nat] by (simp add: unat_of_nat)

lemma rt_load_parts_used:
  assumes "sv_inv sv" "\<forall>i \<in> set is. i < unat (sv_numKeys sv)"
  shows "rt_load_parts K w h sv is =
    Inr (map (\<lambda>i. if i \<in> used_set sv then (case rt_loadPart K w (int i) h of Inr p \<Rightarrow> p | Inl err \<Rightarrow> []) else []) is)"
  using assms(2)
proof (induction "is")
  case (Cons i "is")
  have "unat (word_of_nat i :: u32) = i"
    using Cons.prems unat_of_nat_below [of i "sv_numKeys sv"] by simp
  then have "sv_used sv (word_of_nat i) = Inr (i \<in> used_set sv)"
    using assms(1) Cons.prems sv_shape_bounds(1) [of sv]
    by (auto simp: sv_used_eq sv_inv_def used_set_def)
  with Cons show ?case by (simp add: sv_Used_def)
qed simp

lemma unmarshal_received [simp]:
  "unmarshalReceivedTransfer (rt_marshal rt) = Some (rt_fileName rt, rt_transferMAC rt, rt_numParts rt, rt_fileSize rt)"
  by (simp add: unmarshalReceivedTransfer_def rt_marshal_def)

lemma rt_kept_load:
  assumes "ft_laws C" "rt_kept C K w rt h"
  shows "loadReceivedTransfer C K w (rt_tid rt) h = Inr (Inr (rt\<lparr>rt_lastCallbackFingerprint := []\<rparr>))"
proof -
  note k = rt_keptD [OF assms(2)]
  have n: "unat (sv_numKeys (rt_partStatus rt)) = unat (rt_numParts rt)" by (simp add: k(6))
  have "rt_load_parts K w (rt_kv rt) (rt_partStatus rt) [0..<unat (rt_numParts rt)] =
      Inr (map (\<lambda>i. rt_parts rt ! i) [0..<unat (rt_numParts rt)])"
    using k(5) k(8,9) by (subst rt_load_parts_used) (auto simp: sv_kept_def n k(7))
  also have "map (\<lambda>i. rt_parts rt ! i) [0..<unat (rt_numParts rt)] = rt_parts rt"
    unfolding k(7) [symmetric] by (rule map_nth)
  finally have p: "rt_load_parts K w (rt_kv rt) (rt_partStatus rt) [0..<unat (rt_numParts rt)] = Inr (rt_parts rt)" .
  obtain obj where "KV_Get K (rt_kv rt) w receivedTransferStoreKey receivedTransferStoreVersion = Inr obj"
    "obj_Data obj = rt_marshal rt" using assms(2) by (auto simp: rt_kept_def)
  with k(1,5) p cym_kept_load [OF assms(1) k(2)] show ?thesis
    by (simp add: loadReceivedTransfer_def sv_kept_def)
qed

lemma rt_kept_callback:
  "rt_kept C K w rt h \<Longrightarrow> rt_kept C K w (snd (rt_CompareAndSwapCallbackFps rt a b c e)) h"
  by (auto simp: rt_CompareAndSwapCallbackFps_def Let_def rt_kept_def rt_marshal_def)

lemma rt_kept_frame:
  assumes "rt_kept C K w rt h" "kv_writes K hs w w'"
    and "\<And>u. u \<in> hs \<Longrightarrow> apart K u (rt_kv rt) \<and> apart K u (cym_kv (rt_cypherManager rt))"
  shows "rt_kept C K w' rt h"
proof -
  have g: "KV_Get K (rt_kv rt) w' key ver = KV_Get K (rt_kv rt) w key ver" if "CHR 0x5C \<notin> set key" for key ver
    using kv_writes_frame [OF assms(2) _ that] assms(3) by blast
  have "cym_kept C K w' (rt_cypherManager rt) (rt_kv rt)"
    using cym_kept_frame [OF rt_keptD(2) [OF assms(1)] assms(2)] assms(3) by blast
  moreover have "sv_kept K w' (rt_partStatus rt) (rt_kv rt) receivedTransferStatusKey"
    using sv_kept_frame [OF rt_keptD(5) [OF assms(1)]] g by simp
  moreover have "rt_loadPart K w' i (rt_kv rt) = rt_loadPart K w i (rt_kv rt)" for i by (simp add: rt_loadPart_def g)
  ultimately show ?thesis
    using assms(1) g by (simp add: rt_kept_def)
qed

context versioned_kv
begin

lemma newReceivedTransfer_kept:
  assumes "sets_succeed K" "KV_Prefix K h (makeReceivedTransferPrefix tid) = Inr h1" "KV_Prefix K h1 cypherManagerPrefix = Inr h2"
    and "apart K h1 h2" "apart K h2 h1"
  obtains rt w' where "newReceivedTransfer C K w key tid name mac fsize numParts numFps h = Inr (Inr rt, w')"
    "rt_kept C K w' rt h" "rt_tid rt = tid" "rt_kv rt = h1" "cym_kv (rt_cypherManager rt) = h2"
    "cym_key (rt_cypherManager rt) = key" "sv_numKeys (cym_fpVector (rt_cypherManager rt)) = ucast numFps"
    "used_set (cym_fpVector (rt_cypherManager rt)) = {}" "rt_numParts rt = numParts" "rt_fileSize rt = fsize"
    "used_set (rt_partStatus rt) = {}" "rt_parts rt = replicate (unat numParts) []"
proof -
  obtain m w1 where m: "cym_NewManager C K w key numFps h1 = Inr (Inr m, w1)" "cym_kept C K w1 m h1" "cym_key m = key"
    "cym_kv m = h2" "sv_numKeys (cym_fpVector m) = ucast numFps" "used_set (cym_fpVector m) = {}"
    by (rule cym_NewManager_kept [OF assms(1,3)]) (rule that)
  have "unat (ucast numParts :: u32) + 63 < 2 ^ 32" using unsigned_less [of numParts, where ?'a = nat] by simp
  then obtain sv w2 where sv: "NewStateVector K w1 (ucast numParts) False receivedTransferStatusKey h1 = Inr (sv, None, w2)"
    "sv_kept K w2 sv h1 receivedTransferStatusKey" "sv_numKeys sv = ucast numParts" "used_set sv = {}" "kv_writes K {h1} w1 w2"
    by (rule NewStateVector_kept [OF assms(1) transfer_keys_no_sep(6), of _ w1 h1]) (rule that)
  define rt where "rt = \<lparr>rt_cypherManager = m, rt_tid = tid, rt_fileName = name,
     rt_transferMAC = mac, rt_fileSize = fsize, rt_numParts = numParts, rt_parts = replicate (unat numParts) [], rt_partStatus = sv,
     rt_lastCallbackFingerprint = [], rt_kv = h1\<rparr>"
  define obj where "obj = \<lparr>obj_Version = receivedTransferStoreVersion, obj_Timestamp = KV_Now K w2, obj_Data = rt_marshal rt\<rparr>"
  obtain w3 where w3: "KV_Set K h1 w2 receivedTransferStoreKey obj = (None, w3)"
    using assms(1) by (metis sets_succeed_def prod.collapse)
  have "cym_kept C K w3 m h1"
    using cym_kept_frame [OF m(2) kv_writes_trans [OF kv_writes_one(1) [OF w3] sv(5)]] assms(4) m(4) by simp
  moreover have "sv_kept K w3 sv h1 receivedTransferStatusKey"
    by (rule sv_kept_frame [OF sv(2)]) (simp add: get_set_if [OF w3])
  ultimately have "rt_kept C K w3 rt h"
    using assms(2,4,5) get_set [OF w3] sv(3,4) m(4) by (simp add: rt_kept_def rt_def obj_def)
  moreover have "newReceivedTransfer C K w key tid name mac fsize numParts numFps h = Inr (Inr rt, w3)"
    using assms(2) m(1) sv(1) w3 by (simp add: newReceivedTransfer_def rt_save_def Let_def rt_def [symmetric] obj_def)
      (simp add: rt_def)
  ultimately show thesis using that m(3-6) sv(4) by (simp add: rt_def)
qed

lemma rt_AddPart_kept:
  assumes "sets_succeed K" "rt_kept C K w rt h" "n < length (rt_parts rt)"
  obtains rt' w' where "rt_AddPart K w rt part (int n) = Inr (None, rt', w')" "rt_kept C K w' rt' h"
    "rt_parts rt' = (rt_parts rt)[n := part]" "used_set (rt_partStatus rt') = insert n (used_set (rt_partStatus rt))"
    "rt_tid rt' = rt_tid rt" "rt_kv rt' = rt_kv rt" "rt_cypherManager rt' = rt_cypherManager rt"
    "rt_numParts rt' = rt_numParts rt" "rt_fileSize rt' = rt_fileSize rt"
proof -
  note k = rt_keptD [OF assms(2)]
  define obj where "obj = \<lparr>obj_Version = receivedPartStoreVersion, obj_Timestamp = KV_Now K w, obj_Data = Raw part\<rparr>"
  obtain w1 where w1: "KV_Set K (rt_kv rt) w (makeReceivedPartKey (int n)) obj = (None, w1)"
    using assms(1) by (metis sets_succeed_def prod.collapse)
  have s1: "sv_kept K w1 (rt_partStatus rt) (rt_kv rt) receivedTransferStatusKey"
    by (rule sv_kept_frame [OF k(5)]) (simp add: get_set_if [OF w1])
  have nk: "unat (sv_numKeys (rt_partStatus rt)) = length (rt_parts rt)" by (simp add: k(6,7))
  have n: "unat (word_of_int (int n) :: u32) = n"
    using assms(3) nk unat_of_nat_below [of n "sv_numKeys (rt_partStatus rt)"] by simp
  then have lt: "unat (word_of_int (int n) :: u32) < unat (sv_numKeys (rt_partStatus rt))" using assms(3) nk by simp
  obtain sv w2 where sv: "sv_Use K w1 (rt_partStatus rt) (word_of_int (int n)) = Inr (sv, w2)"
    "sv_kept K w2 sv (rt_kv rt) receivedTransferStatusKey" "sv_numKeys sv = sv_numKeys (rt_partStatus rt)"
    "used_set sv = insert n (used_set (rt_partStatus rt))" "kv_writes K {rt_kv rt} w1 w2"
    "\<And>k ver. k \<noteq> makeStateVectorKey receivedTransferStatusKey \<Longrightarrow> KV_Get K (rt_kv rt) w2 k ver = KV_Get K (rt_kv rt) w1 k ver"
    by (rule sv_Use_kept [OF assms(1) s1 lt transfer_keys_no_sep(6), of w1, unfolded n]) (rule that)
  define rt' where "rt' = rt\<lparr>rt_parts := (rt_parts rt)[n := part], rt_partStatus := sv\<rparr>"
  have "kv_writes K {rt_kv rt} w w2"
    using kv_writes_trans [OF sv(5) kv_writes_one(1) [OF w1]] by simp
  from cym_kept_frame [OF k(2) this] have c: "cym_kept C K w2 (rt_cypherManager rt) (rt_kv rt)"
    using k(3) by simp
  have l: "rt_loadPart K w2 (int i) (rt_kv rt) = (if i = n then Inr part else rt_loadPart K w (int i) (rt_kv rt))" for i
    using sv(6) get_set_if [OF w1] by (simp add: rt_loadPart_def obj_def raw_data_def)
  have g: "KV_Get K (rt_kv rt) w2 receivedTransferStoreKey ver = KV_Get K (rt_kv rt) w receivedTransferStoreKey ver" for ver
    using sv(6) get_set_if [OF w1] by simp
  have p: "if i \<in> used_set sv then rt_loadPart K w2 (int i) (rt_kv rt) = Inr ((rt_parts rt)[n := part] ! i)
      else (rt_parts rt)[n := part] ! i = []" if "i < length (rt_parts rt)" for i
    using k(8,9) [OF that] that by (cases "i = n") (auto simp: sv(4) l)
  have m: "rt_marshal rt' = rt_marshal rt" by (simp add: rt'_def rt_marshal_def)
  have "rt_kept C K w2 rt' h"
    using assms(2) sv(2,3) c g p unfolding rt_kept_def m by (simp add: rt'_def)
  moreover have "rt_AddPart K w rt part (int n) = Inr (None, rt', w2)"
    using assms(3) w1 sv(1) by (simp add: rt_AddPart_def rt_savePart_def obj_def rt'_def)
  ultimately show thesis using that sv(4) by (simp add: rt'_def)
qed

lemma rt_Decrypt_kept:
  assumes "sets_succeed K" "rt_kept C K w rt h" "unat c < unat (sv_numKeys (cym_fpVector (rt_cypherManager rt)))"
    and "ftc_DecryptPart C (cym_key (rt_cypherManager rt)) (ftm_contents msg) (ftm_mac msg) c (ftm_keyFP msg) = Some p"
  obtains m' w' where "cy_Decrypt C K w (rt_cypherManager rt) c msg = Inr (Inr p, m', w')"
    "rt_kept C K w' (rt\<lparr>rt_cypherManager := m'\<rparr>) h" "cym_key m' = cym_key (rt_cypherManager rt)"
    "cym_kv m' = cym_kv (rt_cypherManager rt)"
    "sv_numKeys (cym_fpVector m') = sv_numKeys (cym_fpVector (rt_cypherManager rt))"
    "used_set (cym_fpVector m') = insert (unat c) (used_set (cym_fpVector (rt_cypherManager rt)))"
proof -
  note k = rt_keptD [OF assms(2)]
  from cy_Decrypt_kept [OF assms(1) k(2) assms(3,4)] obtain m' w' where
    m: "cy_Decrypt C K w (rt_cypherManager rt) c msg = Inr (Inr p, m', w')" "cym_kept C K w' m' (rt_kv rt)"
    "cym_key m' = cym_key (rt_cypherManager rt)" "cym_kv m' = cym_kv (rt_cypherManager rt)"
    "kv_writes K {cym_kv (rt_cypherManager rt)} w w'" "sv_numKeys (cym_fpVector m') = sv_numKeys (cym_fpVector (rt_cypherManager rt))"
    "used_set (cym_fpVector m') = insert (unat c) (used_set (cym_fpVector (rt_cypherManager rt)))" by blast
  have g: "KV_Get K (rt_kv rt) w' key ver = KV_Get K (rt_kv rt) w key ver" if "CHR 0x5C \<notin> set key" for key ver
    using kv_writes_frame [OF m(5) _ that] k(4) by blast
  have "sv_kept K w' (rt_partStatus rt) (rt_kv rt) receivedTransferStatusKey"
    using sv_kept_frame [OF k(5)] g by simp
  moreover have "rt_loadPart K w' i (rt_kv rt) = rt_loadPart K w i (rt_kv rt)" for i by (simp add: rt_loadPart_def g)
  ultimately have "rt_kept C K w' (rt\<lparr>rt_cypherManager := m'\<rparr>) h"
    using assms(2) g m(2,4) by (simp add: rt_kept_def rt_marshal_def)
  with that m show thesis by blast
qed

end

text \<open>The states of a received transfer: parts are added, messages decrypted with the cyphers of the manager, progress
  callbacks compared, and the rest of the client writes elsewhere.\<close>

inductive rt_reachable ::
  "'k ft_crypto \<Rightarrow> ('h, 'w) KV_ops \<Rightarrow> 'h \<Rightarrow> ('k, 'h) ReceivedTransfer \<Rightarrow> 'w \<Rightarrow> bool" for C K h where
  rt_new: "newReceivedTransfer C K w key tid name mac fsize numParts numFps h = Inr (Inr rt, w') \<Longrightarrow> rt_reachable C K h rt w'"
| rt_part: "rt_reachable C K h rt w \<Longrightarrow> rt_AddPart K w rt part n = Inr (r, rt', w') \<Longrightarrow> rt_reachable C K h rt' w'"
| rt_decrypt: "rt_reachable C K h rt w \<Longrightarrow> unat c < unat (sv_numKeys (cym_fpVector (rt_cypherManager rt))) \<Longrightarrow>
    cy_Decrypt C K w (rt_cypherManager rt) c msg = Inr (r, m, w') \<Longrightarrow> rt_reachable C K h (rt\<lparr>rt_cypherManager := m\<rparr>) w'"
| rt_callback: "rt_reachable C K h rt w \<Longrightarrow> rt_reachable C K h (snd (rt_CompareAndSwapCallbackFps rt a b c e)) w"
| rt_other: "rt_reachable C K h rt w \<Longrightarrow> kv_writes K hs w w' \<Longrightarrow>
    (\<And>u. u \<in> hs \<Longrightarrow> apart K u (rt_kv rt) \<and> apart K u (cym_kv (rt_cypherManager rt))) \<Longrightarrow> rt_reachable C K h rt w'"

lemma cym_NewManager_prefix:
  "cym_NewManager C K w key numFps h = Inr (Inr m, w') \<Longrightarrow> \<exists>h1. KV_Prefix K h cypherManagerPrefix = Inr h1"
  by (auto simp: cym_NewManager_def split: sum.splits)

lemma newReceivedTransfer_prefix:
  assumes "newReceivedTransfer C K w key tid name mac fsize numParts numFps h = Inr (Inr rt, w')"
  obtains h1 h2 where "KV_Prefix K h (makeReceivedTransferPrefix tid) = Inr h1" "KV_Prefix K h1 cypherManagerPrefix = Inr h2"
proof -
  from assms obtain h1 r w1 where p: "KV_Prefix K h (makeReceivedTransferPrefix tid) = Inr h1"
    "cym_NewManager C K w key numFps h1 = Inr (r, w1)"
    by (cases "KV_Prefix K h (makeReceivedTransferPrefix tid)") (auto simp: newReceivedTransfer_def res_bind_Inr_iff)
  with assms obtain m where "r = Inr m" by (cases r) (simp_all add: newReceivedTransfer_def)
  with cym_NewManager_prefix [of C K w key numFps h1 m w1] p that show thesis by auto
qed

context ekv_store
begin

lemma prefix_apart:
  assumes "derived ps h" "KV_Prefix (versioned_ops E) h p = Inr h1" "KV_Prefix (versioned_ops E) h1 q = Inr h2"
  shows "apart (versioned_ops E) h1 h2" "apart (versioned_ops E) h2 h1"
    and "apart (versioned_ops E) h h1" "apart (versioned_ops E) h h2"
proof -
  have d: "derived (ps @ [p]) h1" "derived ((ps @ [p]) @ [q]) h2"
    using assms derived_prefix [OF assms(1)] derived_prefix [of "ps @ [p]" h1] by (auto simp: versioned_ops_def)
  show "apart (versioned_ops E) h1 h2" "apart (versioned_ops E) h2 h1"
    by (rule derived_all_apart [OF d(1,2)], simp, rule derived_all_apart [OF d(2,1)], simp)
  show "apart (versioned_ops E) h h1" "apart (versioned_ops E) h h2"
    by (rule derived_all_apart [OF assms(1) d(1)], simp, rule derived_all_apart [OF assms(1) d(2)], simp)
qed

lemma rt_reachable_kept:
  assumes "sets_succeed (versioned_ops E)" "derived ps h"
  shows "rt_reachable C (versioned_ops E) h rt w \<Longrightarrow> rt_kept C (versioned_ops E) w rt h"
proof (induction rule: rt_reachable.induct)
  case (rt_new w key tid name mac fsize numParts numFps rt w')
  from rt_new obtain h1 h2 where p: "KV_Prefix (versioned_ops E) h (makeReceivedTransferPrefix tid) = Inr h1"
    "KV_Prefix (versioned_ops E) h1 cypherManagerPrefix = Inr h2" by (rule newReceivedTransfer_prefix)
  obtain rt1 w1 where "newReceivedTransfer C (versioned_ops E) w key tid name mac fsize numParts numFps h = Inr (Inr rt1, w1)"
    "rt_kept C (versioned_ops E) w1 rt1 h"
    by (rule vkv.newReceivedTransfer_kept [OF assms(1) p prefix_apart(1,2) [OF assms(2) p]]) (rule that)
  with rt_new show ?case by simp
next
  case (rt_part rt w part n r rt' w')
  show ?case
  proof (cases "n > int (length (rt_parts rt)) - 1")
    case True
    with rt_part show ?thesis by (simp add: rt_AddPart_def)
  next
    case False
    moreover have "\<not> n < 0" using rt_part.hyps(2) False by (auto simp: rt_AddPart_def)
    ultimately obtain k where k: "n = int k" "k < length (rt_parts rt)" by (metis add.commute diff_add_cancel nat_eq_iff2 not_less nat_int zless_add1_eq zle_diff1_eq leI of_nat_less_iff)
    obtain rt1 w1 where "rt_AddPart (versioned_ops E) w rt part (int k) = Inr (None, rt1, w1)" "rt_kept C (versioned_ops E) w1 rt1 h"
      by (rule vkv.rt_AddPart_kept [OF assms(1) rt_part.IH k(2)]) (rule that)
    with rt_part.hyps(2) k(1) show ?thesis by simp
  qed
next
  case (rt_decrypt rt w c msg r m w')
  show ?case
  proof (cases "ftc_DecryptPart C (cym_key (rt_cypherManager rt)) (ftm_contents msg) (ftm_mac msg) c (ftm_keyFP msg)")
    case None
    with rt_decrypt.hyps(3) have "m = rt_cypherManager rt" "w' = w" by (auto simp: cy_Decrypt_def)
    with rt_decrypt.IH show ?thesis by simp
  next
    case (Some p)
    obtain m1 w1 where "cy_Decrypt C (versioned_ops E) w (rt_cypherManager rt) c msg = Inr (Inr p, m1, w1)"
      "rt_kept C (versioned_ops E) w1 (rt\<lparr>rt_cypherManager := m1\<rparr>) h"
      by (rule vkv.rt_Decrypt_kept [OF assms(1) rt_decrypt.IH rt_decrypt.hyps(2) Some]) (rule that)
    with rt_decrypt.hyps(3) show ?thesis by simp
  qed
next
  case (rt_callback rt w a b c e)
  show ?case by (rule rt_kept_callback [OF rt_callback.IH])
next
  case (rt_other rt w hs w')
  then show ?case using rt_kept_frame [OF rt_other.IH rt_other.hyps(2)] by blast
qed

end

text \<open>C16: A received transfer survives a restart at any moment. In every state of a transfer, loading it from storage gives
  back the same transfer: the parts received so far at their places, the marks of the received parts, the key and
  the fingerprints that are still unused; only the memory of the last progress callback is lost.\<close>

theorem received_transfer_survives_restart:
  assumes "ekv_store E" "sets_succeed (versioned_ops E)" "ft_laws C" "derived ps h"
    and "rt_reachable C (versioned_ops E) h rt w"
  shows "loadReceivedTransfer C (versioned_ops E) w (rt_tid rt) h = Inr (Inr (rt\<lparr>rt_lastCallbackFingerprint := []\<rparr>))"
  by (rule rt_kept_load [OF assms(3) ekv_store.rt_reachable_kept [OF assms(1,2,4,5)]])


definition ft_example :: "bytes ft_crypto" where
  "ft_example =
     \<lparr>ftc_KeyBytes = (\<lambda>k. k), ftc_UnmarshalTransferKey = (\<lambda>b. b), ftc_GenerateFingerprint = (\<lambda>k n. k @ put_le16 n),
      ftc_EncryptPart = (\<lambda>k c n fp. (rev c, k)), ftc_DecryptPart = (\<lambda>k c mac n fp. if mac = k then Some (rev c) else None),
      ftc_idJSON = JBytes, ftc_jsonID = json_bytes, ftc_tidJSON = JBytes, ftc_jsonTid = json_bytes\<rparr>"

lemma ft_example_laws: "ft_laws ft_example"
  by (simp add: ft_laws_def ft_example_def)

lemma kv_Prefix_fresh:
  assumes "p \<noteq> []" "CHR 0x5C \<notin> set p" "p \<notin> dom (kv_prefixMap v)"
  obtains v' where "kv_Prefix v p = Inr v'" "dom (kv_prefixMap v') = insert p (dom (kv_prefixMap v))"
proof -
  define v' where "v' = \<lparr>kv_prefix = kv_prefix v @ p @ PrefixSeparator,
     kv_prefixMap = (kv_prefixMap v)(p \<mapsto> kv_offset v + 1), kv_offset = kv_offset v + 1\<rparr>"
  have "kv_Prefix v p = Inr v'" using assms by (auto simp: kv_Prefix_def HasPrefix_def v'_def)
  then show thesis by (rule that) (simp add: v'_def)
qed

lemma received_example_prefix:
  obtains h1 h2 where "KV_Prefix mem_KV NewKV (makeReceivedTransferPrefix [9]) = Inr h1" "KV_Prefix mem_KV h1 cypherManagerPrefix = Inr h2"
proof -
  have p: "makeReceivedTransferPrefix [9] = ''ReceivedFileTransferStore/CQ==''" by code_simp
  obtain h1 where h1: "kv_Prefix NewKV ''ReceivedFileTransferStore/CQ=='' = Inr h1"
    "dom (kv_prefixMap h1) = insert ''ReceivedFileTransferStore/CQ=='' (dom (kv_prefixMap NewKV))"
    by (rule kv_Prefix_fresh [of "''ReceivedFileTransferStore/CQ==''" NewKV]) (simp_all add: NewKV_def)
  obtain h2 where "kv_Prefix h1 cypherManagerPrefix = Inr h2"
    by (rule kv_Prefix_fresh [of cypherManagerPrefix h1]) (simp_all add: cypherManagerPrefix_def h1(2) NewKV_def)
  with h1(1) p that show thesis by (simp add: mem_KV_simps)
qed

theorem received_transfer_survives_restart_witness:
  "\<exists>rt w. rt_reachable ft_example mem_KV NewKV rt w \<and> rt_parts rt = [[], [1, 2, 3]] \<and>
     loadReceivedTransfer ft_example mem_KV w [9] NewKV = Inr (Inr (rt\<lparr>rt_lastCallbackFingerprint := []\<rparr>))"
proof -
  obtain h1 h2 where p: "KV_Prefix mem_KV NewKV (makeReceivedTransferPrefix [9]) = Inr h1" "KV_Prefix mem_KV h1 cypherManagerPrefix = Inr h2"
    by (rule received_example_prefix)
  obtain rt w where n: "newReceivedTransfer ft_example mem_KV Map.empty [7] [9] ''f'' [8] 5 2 3 NewKV = Inr (Inr rt, w)"
    "rt_kept ft_example mem_KV w rt NewKV" "rt_tid rt = [9]" "rt_parts rt = replicate (unat (2 :: u16)) []"
    by (rule mem.vkv.newReceivedTransfer_kept [OF mem_sets p mem.prefix_apart(1,2) [OF derived_new p]]) (rule that)
  have "1 < length (rt_parts rt)" by (simp add: n(4))
  then obtain rt' w' where a: "rt_AddPart mem_KV w rt [1, 2, 3] (int 1) = Inr (None, rt', w')"
    "rt_parts rt' = (rt_parts rt)[1 := [1, 2, 3]]" "rt_tid rt' = rt_tid rt"
    by (rule mem.vkv.rt_AddPart_kept [OF mem_sets n(2), of _ "[1, 2, 3]"]) (rule that)
  have r: "rt_reachable ft_example mem_KV NewKV rt' w'"
    by (rule rt_part [OF rt_new [OF n(1)] a(1)])
  from received_transfer_survives_restart [OF mem.ekv_store_axioms mem_sets ft_example_laws derived_new r]
  moreover have u: "unat (2 :: u16) = 2" by simp
  have "rt_parts rt' = [[], [1, 2, 3]]" unfolding a(2) n(4) u by (simp add: numeral_2_eq_2)
  ultimately show ?thesis using r a(3) n(3) by auto
qed

section \<open>Sent transfers in storage\<close>

text \<open>Only \<open>newSentTransfer\<close> saves the fields of a sent transfer: what is in storage has the status \<open>Running\<close>.\<close>

definition st_kept :: "'k ft_crypto \<Rightarrow> ('h, 'w) KV_ops \<Rightarrow> 'w \<Rightarrow> ('k, 'h) SentTransfer \<Rightarrow> 'h \<Rightarrow> bool" where
  "st_kept C K w st h =
     (KV_Prefix K h (makeSentTransferPrefix (st_tid st)) = Inr (st_kv st) \<and>
      cym_kept C K w (st_cypherManager st) (st_kv st) \<and>
      apart K (st_kv st) (cym_kv (st_cypherManager st)) \<and> apart K (cym_kv (st_cypherManager st)) (st_kv st) \<and>
      sv_kept K w (st_partStatus st) (st_kv st) sentTransferStatusKey \<and>
      unat (sv_numKeys (st_partStatus st)) = length (st_parts st) \<and> unat (st_numParts st) = length (st_parts st) \<and>
      (\<exists>obj. KV_Get K (st_kv st) w sentTransferStoreKey sentTransferStoreVersion = Inr obj \<and>
         obj_Data obj = st_marshal C (st\<lparr>st_status := Running\<rparr>)) \<and>
      (st_status st = Completed \<longrightarrow> used_set (st_partStatus st) = {..<length (st_parts st)}))"

lemma st_keptD:
  assumes "st_kept C K w st h"
  shows "KV_Prefix K h (makeSentTransferPrefix (st_tid st)) = Inr (st_kv st)"
    "cym_kept C K w (st_cypherManager st) (st_kv st)"
    "apart K (st_kv st) (cym_kv (st_cypherManager st))" "apart K (cym_kv (st_cypherManager st)) (st_kv st)"
    "sv_kept K w (st_partStatus st) (st_kv st) sentTransferStatusKey"
    "unat (sv_numKeys (st_partStatus st)) = length (st_parts st)" "unat (st_numParts st) = length (st_parts st)"
    "st_status st = Completed \<Longrightarrow> used_set (st_partStatus st) = {..<length (st_parts st)}"
  using assms unfolding st_kept_def by metis+

lemma json_parts: "json_list json_bytes (JArr (map JBytes ps)) = Some ps"
  using those_map_Some [of ps json_bytes JBytes] by simp

lemma unmarshal_sent:
  assumes "ft_laws C" "in_int64 (st_status st)"
  shows "unmarshalSentTransfer C (st_marshal C st) = Some (st_fileName st, st_recipient st, st_status st, st_parts st)"
  using assms ft_lawsD(3) [OF assms(1)] by (simp add: unmarshalSentTransfer_def st_marshal_def json_parts del: json_list.simps)

lemma st_kept_load:
  assumes "ft_laws C" "st_kept C K w st h" "calcFileSize (st_parts st) = Inr fsize"
  shows "loadSentTransfer C K w (st_tid st) h =
    Inr (Inr (st\<lparr>st_status := Running, st_fileSize := fsize, st_lastCallbackFingerprint := []\<rparr>))"
proof -
  note k = st_keptD [OF assms(2)]
  obtain obj where o: "KV_Get K (st_kv st) w sentTransferStoreKey sentTransferStoreVersion = Inr obj"
    "obj_Data obj = st_marshal C (st\<lparr>st_status := Running\<rparr>)" using assms(2) by (auto simp: st_kept_def)
  have "in_int64 (st_status (st\<lparr>st_status := Running\<rparr>))" by (simp add: Running_def in_int64_def)
  from unmarshal_sent [OF assms(1) this]
  have "unmarshalSentTransfer C (obj_Data obj) = Some (st_fileName st, st_recipient st, Running, st_parts st)" by (simp add: o(2))
  moreover have "word_of_nat (length (st_parts st)) = st_numParts st"
    by (simp add: k(7) [symmetric])
  ultimately show ?thesis
    using k(1,5) o(1) assms(3) cym_kept_load [OF assms(1) k(2)] by (simp add: loadSentTransfer_def sv_kept_def)
qed

lemma all_used_none_unused:
  assumes "sv_inv sv" "used_set sv = {..<unat (sv_numKeys sv)}"
  shows "GetUnusedKeyNums sv = Inr []"
proof -
  have "unat (sv_firstAvailable sv) = unat (sv_numKeys sv)"
    using assms by (auto simp: sv_inv_def)
  then show ?thesis by (simp add: GetUnusedKeyNums_def key_range_def)
qed

inductive st_reachable ::
  "'k ft_crypto \<Rightarrow> ('h, 'w) KV_ops \<Rightarrow> 'h \<Rightarrow> ('k, 'h) SentTransfer \<Rightarrow> 'w \<Rightarrow> bool" for C K h where
  st_new: "newSentTransfer C K w recipient key tid name fsize parts numFps h = Inr (Inr st, w') \<Longrightarrow>
    length parts < 2 ^ 16 \<Longrightarrow> st_reachable C K h st w'"
| st_encrypt: "st_reachable C K h st w \<Longrightarrow> part_GetEncryptedPart C K w st partNum contentsSize = Inr (r, st', w') \<Longrightarrow>
    st_reachable C K h st' w'"
| st_arrived: "st_reachable C K h st w \<Longrightarrow> unat partNum < length (st_parts st) \<Longrightarrow>
    part_MarkArrived K w st partNum = Inr (st', w') \<Longrightarrow> st_reachable C K h st' w'"
| st_callback: "st_reachable C K h st w \<Longrightarrow> st_reachable C K h (snd (st_CompareAndSwapCallbackFps st a b c e)) w"
| st_other: "st_reachable C K h st w \<Longrightarrow> kv_writes K hs w w' \<Longrightarrow>
    (\<And>u. u \<in> hs \<Longrightarrow> apart K u (st_kv st) \<and> apart K u (cym_kv (st_cypherManager st))) \<Longrightarrow> st_reachable C K h st w'"

lemma newSentTransfer_prefix:
  assumes "newSentTransfer C K w recipient key tid name fsize parts numFps h = Inr (Inr st, w')"
  obtains h1 h2 where "KV_Prefix K h (makeSentTransferPrefix tid) = Inr h1" "KV_Prefix K h1 cypherManagerPrefix = Inr h2"
proof -
  from assms obtain h1 r w1 where p: "KV_Prefix K h (makeSentTransferPrefix tid) = Inr h1"
    "cym_NewManager C K w key numFps h1 = Inr (r, w1)"
    by (cases "KV_Prefix K h (makeSentTransferPrefix tid)") (auto simp: newSentTransfer_def res_bind_Inr_iff)
  with assms obtain m where "r = Inr m" by (cases r) (simp_all add: newSentTransfer_def)
  with cym_NewManager_prefix [of C K w key numFps h1 m w1] p that show thesis by auto
qed

lemma st_kept_frame:
  assumes "st_kept C K w st h" "kv_writes K hs w w'"
    and "\<And>u. u \<in> hs \<Longrightarrow> apart K u (st_kv st) \<and> apart K u (cym_kv (st_cypherManager st))"
  shows "st_kept C K w' st h"
proof -
  have g: "KV_Get K (st_kv st) w' key ver = KV_Get K (st_kv st) w key ver" if "CHR 0x5C \<notin> set key" for key ver
    using kv_writes_frame [OF assms(2) _ that] assms(3) by blast
  have "cym_kept C K w' (st_cypherManager st) (st_kv st)"
    using cym_kept_frame [OF st_keptD(2) [OF assms(1)] assms(2)] assms(3) by blast
  moreover have "sv_kept K w' (st_partStatus st) (st_kv st) sentTransferStatusKey"
    using sv_kept_frame [OF st_keptD(5) [OF assms(1)]] g by simp
  ultimately show ?thesis using assms(1) g by (simp add: st_kept_def)
qed

lemma num_used_card: "sv_inv sv \<Longrightarrow> unat (GetNumUsed sv) = card (used_set sv)"
proof -
  assume "sv_inv sv"
  then have "unat (sv_numAvailable sv) + card (used_set sv) = unat (sv_numKeys sv)" by (simp add: sv_inv_def)
  then show ?thesis by (simp add: GetNumUsed_def unat_sub word_le_nat_alt)
qed

context versioned_kv
begin

lemma newSentTransfer_kept:
  assumes "sets_succeed K" "KV_Prefix K h (makeSentTransferPrefix tid) = Inr h1" "KV_Prefix K h1 cypherManagerPrefix = Inr h2"
    and "apart K h1 h2" "apart K h2 h1" "length parts < 2 ^ 16"
  obtains st w' where "newSentTransfer C K w recipient key tid name fsize parts numFps h = Inr (Inr st, w')"
    "st_kept C K w' st h" "st_tid st = tid" "st_kv st = h1" "cym_kv (st_cypherManager st) = h2"
    "cym_key (st_cypherManager st) = key" "sv_numKeys (cym_fpVector (st_cypherManager st)) = ucast numFps"
    "used_set (cym_fpVector (st_cypherManager st)) = {}" "st_parts st = parts" "st_status st = Running"
    "used_set (st_partStatus st) = {}" "st_recipient st = recipient"
proof -
  obtain m w1 where m: "cym_NewManager C K w key numFps h1 = Inr (Inr m, w1)" "cym_kept C K w1 m h1" "cym_key m = key"
    "cym_kv m = h2" "sv_numKeys (cym_fpVector m) = ucast numFps" "used_set (cym_fpVector m) = {}"
    by (rule cym_NewManager_kept [OF assms(1,3)]) (rule that)
  have n: "unat (word_of_nat (length parts) :: u32) = length parts" "unat (word_of_nat (length parts) :: u16) = length parts"
    using assms(6) by (simp_all add: unat_of_nat)
  then have "unat (word_of_nat (length parts) :: u32) + 63 < 2 ^ 32" using assms(6) by simp
  then obtain sv w2 where sv: "NewStateVector K w1 (word_of_nat (length parts)) False sentTransferStatusKey h1 = Inr (sv, None, w2)"
    "sv_kept K w2 sv h1 sentTransferStatusKey" "sv_numKeys sv = word_of_nat (length parts)" "used_set sv = {}" "kv_writes K {h1} w1 w2"
    by (rule NewStateVector_kept [OF assms(1) transfer_keys_no_sep(4), of _ w1 h1]) (rule that)
  define st where "st = \<lparr>st_cypherManager = m, st_tid = tid, st_fileName = name, st_recipient = recipient, st_fileSize = fsize,
     st_numParts = word_of_nat (length parts), st_status = Running, st_parts = parts, st_partStatus = sv,
     st_lastCallbackFingerprint = [], st_kv = h1\<rparr>"
  define obj where "obj = \<lparr>obj_Version = sentTransferStoreVersion, obj_Timestamp = KV_Now K w2, obj_Data = st_marshal C st\<rparr>"
  obtain w3 where w3: "KV_Set K h1 w2 sentTransferStoreKey obj = (None, w3)"
    using assms(1) by (metis sets_succeed_def prod.collapse)
  have "cym_kept C K w3 m h1"
    using cym_kept_frame [OF m(2) kv_writes_trans [OF kv_writes_one(1) [OF w3] sv(5)]] assms(4) m(4) by simp
  moreover have "sv_kept K w3 sv h1 sentTransferStatusKey"
    by (rule sv_kept_frame [OF sv(2)]) (simp add: get_set_if [OF w3])
  ultimately have "st_kept C K w3 st h"
    using assms(2,4,5) get_set [OF w3] sv(3,4) m(4) n by (simp add: st_kept_def st_def obj_def Running_def Completed_def)
  moreover have "newSentTransfer C K w recipient key tid name fsize parts numFps h = Inr (Inr st, w3)"
    using assms(2) m(1) sv(1) w3 by (simp add: newSentTransfer_def st_save_def Let_def st_def [symmetric] obj_def)
      (simp add: st_def)
  ultimately show thesis using that m(3-6) sv(4) by (simp add: st_def)
qed

lemma PopCypher_full:
  assumes "cym_kept C K w m h" "used_set (cym_fpVector m) = {..<unat (sv_numKeys (cym_fpVector m))}"
  shows "PopCypher K w m = Inr (Inl (GetNextFpErr (sv_numKeys (cym_fpVector m))), m, w)"
  using assms sv_Next_full [of "cym_fpVector m" K w] by (simp add: cym_kept_def sv_kept_def PopCypher_def GetNumKeys_def)

lemma GetEncryptedPart_kept:
  assumes "sets_succeed K" "st_kept C K w st h" "part_GetEncryptedPart C K w st partNum contentsSize = Inr (r, st', w')"
  shows "st_kept C K w' st' h" "st_kv st' = st_kv st" "cym_kv (st_cypherManager st') = cym_kv (st_cypherManager st)"
proof -
  note k = st_keptD [OF assms(2)]
  have "st_kept C K w' st' h \<and> st_kv st' = st_kv st \<and> cym_kv (st_cypherManager st') = cym_kv (st_cypherManager st)"
  proof (cases "used_set (cym_fpVector (st_cypherManager st)) = {..<unat (sv_numKeys (cym_fpVector (st_cypherManager st)))}")
    case True
    from PopCypher_full [OF k(2) this] assms(3) have "st' = st_markTransferFailed st" "w' = w"
      by (auto simp: part_GetEncryptedPart_def res_bind_Inr_iff Let_def)
    with assms(2) show ?thesis by (simp add: st_kept_def st_markTransferFailed_def Failed_def Completed_def)
  next
    case False
    obtain m w1 where m: "PopCypher K w (st_cypherManager st) = Inr (Inr (ucast (sv_firstAvailable (cym_fpVector (st_cypherManager st)))), m, w1)"
      "cym_kept C K w1 m (st_kv st)" "cym_key m = cym_key (st_cypherManager st)" "cym_kv m = cym_kv (st_cypherManager st)"
      "kv_writes K {cym_kv (st_cypherManager st)} w w1"
      by (rule PopCypher_kept [OF assms(1) k(2) False]) (rule that)
    with assms(3) have s: "st' = st\<lparr>st_cypherManager := m\<rparr>" "w' = w1"
      by (auto simp: part_GetEncryptedPart_def res_bind_Inr_iff Let_def)
    have g: "KV_Get K (st_kv st) w1 key ver = KV_Get K (st_kv st) w key ver" if "CHR 0x5C \<notin> set key" for key ver
      using kv_writes_frame [OF m(5) _ that] k(4) by blast
    have "sv_kept K w1 (st_partStatus st) (st_kv st) sentTransferStatusKey"
      using sv_kept_frame [OF k(5)] g by simp
    with assms(2) m(2,4) g show ?thesis by (simp add: st_kept_def s st_marshal_def)
  qed
  then show "st_kept C K w' st' h" "st_kv st' = st_kv st" "cym_kv (st_cypherManager st') = cym_kv (st_cypherManager st)" by blast+
qed

lemma st_markArrived_kept:
  assumes "sets_succeed K" "st_kept C K w st h" "unat partNum < length (st_parts st)"
  obtains st' w' where "st_markArrived K w st partNum = Inr (st', w')" "st_kept C K w' st' h"
    "used_set (st_partStatus st') = insert (unat partNum) (used_set (st_partStatus st))" "st_parts st' = st_parts st"
    "st_cypherManager st' = st_cypherManager st" "st_tid st' = st_tid st" "st_kv st' = st_kv st"
    "st_status st' = (if used_set (st_partStatus st') = {..<length (st_parts st)} then Completed else st_status st)"
proof -
  note k = st_keptD [OF assms(2)]
  have lt: "unat (ucast partNum :: u32) < unat (sv_numKeys (st_partStatus st))" using assms(3) k(6) by simp
  obtain sv w1 where sv: "sv_Use K w (st_partStatus st) (ucast partNum) = Inr (sv, w1)"
    "sv_kept K w1 sv (st_kv st) sentTransferStatusKey" "sv_numKeys sv = sv_numKeys (st_partStatus st)"
    "used_set sv = insert (unat partNum) (used_set (st_partStatus st))" "kv_writes K {st_kv st} w w1"
    "\<And>k ver. k \<noteq> makeStateVectorKey sentTransferStatusKey \<Longrightarrow> KV_Get K (st_kv st) w1 k ver = KV_Get K (st_kv st) w k ver"
    by (rule sv_Use_kept [OF assms(1) k(5) lt transfer_keys_no_sep(4), of w, unfolded unat_ucast_16_32]) (rule that)
  have b: "used_set sv \<subseteq> {..<length (st_parts st)}" using used_set_bound [of sv] k(6) sv(3) by simp
  have "unat (GetNumUsed sv) = card (used_set sv)"
    using sv(2) by (simp add: sv_kept_def num_used_card)
  then have "GetNumUsed sv = ucast (st_numParts st) \<longleftrightarrow> card (used_set sv) = length (st_parts st)"
    using k(7) by (simp add: word_unat_eq_iff)
  also have "\<dots> \<longleftrightarrow> used_set sv = {..<length (st_parts st)}"
    using card_subset_eq [OF finite_lessThan b] by (metis card_lessThan)
  finally have f: "GetNumUsed sv = ucast (st_numParts st) \<longleftrightarrow> used_set sv = {..<length (st_parts st)}" .
  define st' where "st' = (if used_set sv = {..<length (st_parts st)} then st\<lparr>st_partStatus := sv, st_status := Completed\<rparr> else st\<lparr>st_partStatus := sv\<rparr>)"
  have r: "st_markArrived K w st partNum = Inr (st', w1)"
    using sv(1) f by (simp add: st_markArrived_def Let_def st'_def)
  have c: "cym_kept C K w1 (st_cypherManager st) (st_kv st)"
    using cym_kept_frame [OF k(2) sv(5)] k(3) by simp
  have u: "used_set sv = {..<length (st_parts st)}" if "st_status st = Completed"
    using k(8) [OF that] sv(4) b by blast
  have g: "KV_Get K (st_kv st) w1 sentTransferStoreKey ver = KV_Get K (st_kv st) w sentTransferStoreKey ver" for ver
    by (rule sv(6)) simp
  have s: "st_tid st' = st_tid st" "st_kv st' = st_kv st" "st_cypherManager st' = st_cypherManager st" "st_parts st' = st_parts st"
    "st_partStatus st' = sv" "st_numParts st' = st_numParts st" "st_marshal C (st'\<lparr>st_status := Running\<rparr>) = st_marshal C (st\<lparr>st_status := Running\<rparr>)"
    "st_status st' = (if used_set sv = {..<length (st_parts st)} then Completed else st_status st)"
    by (simp_all add: st'_def st_marshal_def)
  have "st_kept C K w1 st' h"
    unfolding st_kept_def s sv(3)
  proof (intro conjI)
    show "(if used_set sv = {..<length (st_parts st)} then Completed else st_status st) = Completed \<longrightarrow>
        used_set sv = {..<length (st_parts st)}" using u by (simp split: if_split)
    show "\<exists>obj. KV_Get K (st_kv st) w1 sentTransferStoreKey sentTransferStoreVersion = Inr obj \<and>
        obj_Data obj = st_marshal C (st\<lparr>st_status := Running\<rparr>)" unfolding g using assms(2) by (simp add: st_kept_def)
  qed (use k c sv(2) in simp_all)
  with that [OF r] s sv(4) show thesis by simp
qed

end

context ekv_store
begin

lemma st_reachable_kept:
  assumes "sets_succeed (versioned_ops E)" "derived ps h"
  shows "st_reachable C (versioned_ops E) h st w \<Longrightarrow> st_kept C (versioned_ops E) w st h"
proof (induction rule: st_reachable.induct)
  case (st_new w recipient key tid name fsize parts numFps st w')
  from st_new(1) obtain h1 h2 where p: "KV_Prefix (versioned_ops E) h (makeSentTransferPrefix tid) = Inr h1"
    "KV_Prefix (versioned_ops E) h1 cypherManagerPrefix = Inr h2" by (rule newSentTransfer_prefix)
  obtain st1 w1 where "newSentTransfer C (versioned_ops E) w recipient key tid name fsize parts numFps h = Inr (Inr st1, w1)"
    "st_kept C (versioned_ops E) w1 st1 h"
    by (rule vkv.newSentTransfer_kept [OF assms(1) p prefix_apart(1,2) [OF assms(2) p] st_new(2)]) (rule that)
  with st_new(1) show ?case by simp
next
  case (st_encrypt st w partNum contentsSize r st' w')
  show ?case by (rule vkv.GetEncryptedPart_kept(1) [OF assms(1) st_encrypt.IH st_encrypt.hyps(2)])
next
  case (st_arrived st w partNum st' w')
  obtain st1 w1 where "st_markArrived (versioned_ops E) w st partNum = Inr (st1, w1)" "st_kept C (versioned_ops E) w1 st1 h"
    by (rule vkv.st_markArrived_kept [OF assms(1) st_arrived.IH st_arrived.hyps(2)]) (rule that)
  with st_arrived.hyps(3) show ?case by (simp add: part_MarkArrived_def)
next
  case (st_callback st w a b c e)
  from st_callback.IH show ?case
    by (auto simp: st_CompareAndSwapCallbackFps_def Let_def st_kept_def st_marshal_def)
next
  case (st_other st w hs w')
  show ?case using st_kept_frame [OF st_other.IH st_other.hyps(2)] st_other.hyps(3) by blast
qed

end

text \<open>C37: A restart forgets how a sent transfer ended. In every state of a sent transfer with at least one part, loading it
  from storage gives back its parts, the marks of the arrived parts, the key and the used fingerprints, but always
  the status \<open>Running\<close>, whatever the status was: only \<open>newSentTransfer\<close> saves the status. A transfer that was completed
  has no part left to send when it is loaded, so it stays \<open>Running\<close> and \<open>CloseSend\<close>, which wants a completed or failed
  transfer, refuses it from then on.\<close>

theorem sent_status_forgotten:
  assumes "ekv_store E" "sets_succeed (versioned_ops E)" "ft_laws C" "derived ps h"
    and "st_reachable C (versioned_ops E) h st w" "st_parts st \<noteq> []"
  shows "\<exists>st'. loadSentTransfer C (versioned_ops E) w (st_tid st) h = Inr (Inr st') \<and> st_status st' = Running \<and>
    st_parts st' = st_parts st \<and> st_partStatus st' = st_partStatus st \<and> st_cypherManager st' = st_cypherManager st \<and>
    (st_status st = Completed \<longrightarrow> st_GetUnsentParts st' = Inr [])"
proof -
  note k = ekv_store.st_reachable_kept [OF assms(1,2,4,5)]
  obtain fsize where "calcFileSize (st_parts st) = Inr fsize" using assms(6) by (simp add: calcFileSize_def)
  note l = st_kept_load [OF assms(3) k this]
  have "st_GetUnsentParts st = Inr []" if "st_status st = Completed"
    using all_used_none_unused [of "st_partStatus st"] st_keptD(5,6) [OF k] st_keptD(8) [OF k that]
    by (simp add: st_GetUnsentParts_def sv_kept_def)
  with l show ?thesis by (simp add: st_GetUnsentParts_def)
qed

lemma sent_example_prefix:
  obtains h1 h2 where "KV_Prefix mem_KV NewKV (makeSentTransferPrefix [9]) = Inr h1" "KV_Prefix mem_KV h1 cypherManagerPrefix = Inr h2"
proof -
  have p: "makeSentTransferPrefix [9] = ''SentFileTransferStore/CQ==''" by code_simp
  obtain h1 where h1: "kv_Prefix NewKV ''SentFileTransferStore/CQ=='' = Inr h1"
    "dom (kv_prefixMap h1) = insert ''SentFileTransferStore/CQ=='' (dom (kv_prefixMap NewKV))"
    by (rule kv_Prefix_fresh [of "''SentFileTransferStore/CQ==''" NewKV]) (simp_all add: NewKV_def)
  obtain h2 where "kv_Prefix h1 cypherManagerPrefix = Inr h2"
    by (rule kv_Prefix_fresh [of cypherManagerPrefix h1]) (simp_all add: cypherManagerPrefix_def h1(2) NewKV_def)
  with h1(1) p that show thesis by (simp add: mem_KV_simps)
qed

theorem sent_status_forgotten_witness:
  "\<exists>st w st'. st_reachable ft_example mem_KV NewKV st w \<and> st_status st = Completed \<and>
     loadSentTransfer ft_example mem_KV w [9] NewKV = Inr (Inr st') \<and> st_status st' = Running \<and> st_GetUnsentParts st' = Inr []"
proof -
  obtain h1 h2 where p: "KV_Prefix mem_KV NewKV (makeSentTransferPrefix [9]) = Inr h1" "KV_Prefix mem_KV h1 cypherManagerPrefix = Inr h2"
    by (rule sent_example_prefix)
  have "length [[1, 2, 3 :: byte]] < 2 ^ 16" by simp
  then obtain st w where n: "newSentTransfer ft_example mem_KV Map.empty [5] [7] [9] ''f'' 3 [[1, 2, 3]] 2 NewKV = Inr (Inr st, w)"
    "st_kept ft_example mem_KV w st NewKV" "st_tid st = [9]" "st_parts st = [[1, 2, 3]]" "used_set (st_partStatus st) = {}"
    by (rule mem.vkv.newSentTransfer_kept [OF mem_sets p mem.prefix_apart(1,2) [OF derived_new p]]) (rule that)
  have z: "unat (0 :: u16) < length (st_parts st)" by (simp add: n(4))
  obtain st1 w1 where a: "st_markArrived mem_KV w st 0 = Inr (st1, w1)"
    "used_set (st_partStatus st1) = insert (unat (0 :: u16)) (used_set (st_partStatus st))" "st_parts st1 = st_parts st" "st_tid st1 = st_tid st"
    "st_status st1 = (if used_set (st_partStatus st1) = {..<length (st_parts st)} then Completed else st_status st)"
    by (rule mem.vkv.st_markArrived_kept [OF mem_sets n(2) z]) (rule that)
  have r: "st_reachable ft_example mem_KV NewKV st1 w1"
    using st_arrived [OF st_new [OF n(1)] z] a(1) by (simp add: part_MarkArrived_def)
  have "st_status st1 = Completed" by (simp add: a(5,2) n(4,5)) (auto simp: lessThan_Suc)
  moreover have "st_parts st1 \<noteq> []" "st_tid st1 = [9]" by (simp_all add: a(3,4) n(3,4))
  ultimately show ?thesis
    using sent_status_forgotten [OF mem.ekv_store_axioms mem_sets ft_example_laws derived_new r] r by auto
qed

end
