(* ===== verification/Message_Handling.thy ===== *)
theory Message_Handling
  imports Message_Buffer "HOL-Library.AList"
begin

text \<open>
  Reception of cMix messages, of the package \<open>cmix/message\<close>: the fingerprints that are processed at most
  once (\<open>fingerprints.go\<close>), the services found by trial hashing with their trackers (\<open>services.go\<close>,
  \<open>serviceTracker.go\<close>, \<open>serviceInterface.go\<close>, \<open>serviceGenerators.go\<close>), the fallthrough processors
  (\<open>fallthrough.go\<close>), and the handler over them with its buffer of messages in progress (\<open>handler.go\<close>,
  \<open>inProgress.go\<close>), which is the metered buffer of \<open>Message_Buffer\<close>.

  A Go map is an association list without repeated keys; the order in which \<open>range\<close> visits its keys is
  the argument \<open>ord\<close>. A \<open>Processor\<close> is a value of type \<open>'p\<close>, and an operation that calls processors
  or trackers returns the calls it makes. The service identification hashes (package \<open>sih\<close>) and the
  formats of messages, rounds and identities come from other repositories and are the arguments \<open>S\<close>
  and \<open>F\<close>.
\<close>

section \<open>Fingerprints\<close>

type_synonym 'v idmap = "(bytes \<times> 'v) list"

record 'p FingerprintsManager =
  fpMap :: "'p idmap idmap"
  fm_standardID :: bytes

definition newFingerprints :: "bytes \<Rightarrow> 'p FingerprintsManager" where
  "newFingerprints standardID = \<lparr>fpMap = [], fm_standardID = standardID\<rparr>"

text \<open>\<open>delete\<close> of a fingerprint and, when none is left, of the map of the client.\<close>

definition fm_drop :: "'p FingerprintsManager \<Rightarrow> bytes \<Rightarrow> 'p idmap \<Rightarrow> 'p FingerprintsManager" where
  "fm_drop f cid m =
     (if m = [] then f\<lparr>fpMap := AList.delete cid (fpMap f)\<rparr>
      else f\<lparr>fpMap := AList.update cid m (fpMap f)\<rparr>)"

definition fm_pop :: "'p FingerprintsManager \<Rightarrow> bytes \<Rightarrow> bytes \<Rightarrow> 'p option \<times> 'p FingerprintsManager" where
  "fm_pop f clientID fingerprint =
     (case map_of (fpMap f) clientID of
        Some idFpMap \<Rightarrow>
          (case map_of idFpMap fingerprint of
             Some p \<Rightarrow> (Some p, fm_drop f clientID (AList.delete fingerprint idFpMap))
           | None \<Rightarrow> (None, f))
      | None \<Rightarrow> (None, f))"

definition fm_client :: "'p FingerprintsManager \<Rightarrow> bytes option \<Rightarrow> bytes" where
  "fm_client f clientID = (case clientID of None \<Rightarrow> fm_standardID f | Some c \<Rightarrow> c)"

text \<open>The result tells whether the fingerprint was added (\<open>False\<close> for the error that it exists).\<close>

definition AddFingerprint ::
  "'p FingerprintsManager \<Rightarrow> bytes option \<Rightarrow> bytes \<Rightarrow> 'p \<Rightarrow> bool \<times> 'p FingerprintsManager" where
  "AddFingerprint f clientID fingerprint mp =
     (let cid = fm_client f clientID;
          f1 = (if map_of (fpMap f) cid = None then f\<lparr>fpMap := AList.update cid [] (fpMap f)\<rparr> else f);
          m = (case map_of (fpMap f1) cid of None \<Rightarrow> [] | Some m \<Rightarrow> m)
      in if map_of m fingerprint \<noteq> None then (False, f1)
         else (True, f1\<lparr>fpMap := AList.update cid (AList.update fingerprint mp m) (fpMap f1)\<rparr>))"

definition DeleteFingerprint ::
  "'p FingerprintsManager \<Rightarrow> bytes option \<Rightarrow> bytes \<Rightarrow> 'p FingerprintsManager" where
  "DeleteFingerprint f clientID fingerprint =
     (let cid = fm_client f clientID
      in case map_of (fpMap f) cid of
           None \<Rightarrow> f
         | Some m \<Rightarrow> fm_drop f cid (AList.delete fingerprint m))"

definition DeleteClientFingerprints :: "'p FingerprintsManager \<Rightarrow> bytes \<Rightarrow> 'p FingerprintsManager" where
  "DeleteClientFingerprints f clientID = f\<lparr>fpMap := AList.delete clientID (fpMap f)\<rparr>"

text \<open>\<open>RandomFingerprint\<close>: the bytes read from the random source, with the first bit cleared.\<close>

definition RandomFingerprint :: "bytes option \<Rightarrow> fault + bytes" where
  "RandomFingerprint rng =
     (case rng of
        None \<Rightarrow> Inl FatalPanic
      | Some fpBuf \<Rightarrow> res_bind (index fpBuf 0) (\<lambda>b. Inr (fpBuf[0 := b AND 0x7F])))"

section \<open>Services\<close>

record sih_ops =
  sih_Default :: string
  sih_MakePreimage :: "bytes \<Rightarrow> string \<Rightarrow> bytes"
  sih_Hash :: "bytes \<Rightarrow> bytes \<Rightarrow> bytes"
  sih_HashFromMessageHash :: "bytes \<Rightarrow> bytes \<Rightarrow> bytes"
  sih_ForMe :: "bytes \<Rightarrow> bytes \<Rightarrow> bytes \<Rightarrow> bool"
  sih_ForMeFromMessageHash :: "bytes \<Rightarrow> bytes \<Rightarrow> bytes \<Rightarrow> bool"
  sih_GetMessageHash :: "bytes \<Rightarrow> bytes"
  sih_EvaluateCompressedSIH :: "bytes \<Rightarrow> bytes \<Rightarrow> bytes \<Rightarrow> string list \<Rightarrow> bytes \<Rightarrow> string list \<times> bytes \<times> bool"
  sih_MakeCompressedSIH :: "bytes \<Rightarrow> bytes \<Rightarrow> bytes \<Rightarrow> string list \<Rightarrow> bytes \<Rightarrow> bytes option"

record Service =
  srv_Identifier :: bytes
  srv_Tag :: string
  srv_Metadata :: bytes
  srv_lazyPreimage :: "bytes option"

record CompressedService =
  cs_Identifier :: bytes
  cs_Tags :: "string list"
  cs_Metadata :: bytes
  cs_lazyPreimage :: "bytes option"

text \<open>The methods have value receivers: the preimage they evaluate is not kept.\<close>

definition srv_preimage :: "sih_ops \<Rightarrow> Service \<Rightarrow> bytes" where
  "srv_preimage S si =
     (case srv_lazyPreimage si of
        None \<Rightarrow> sih_MakePreimage S (srv_Identifier si) (srv_Tag si)
      | Some p \<Rightarrow> p)"

definition srv_Hash :: "sih_ops \<Rightarrow> Service \<Rightarrow> bytes \<Rightarrow> bytes" where
  "srv_Hash S si contents = sih_Hash S (srv_preimage S si) contents"

definition srv_HashFromMessageHash :: "sih_ops \<Rightarrow> Service \<Rightarrow> bytes \<Rightarrow> bytes" where
  "srv_HashFromMessageHash S si messageHash = sih_HashFromMessageHash S (srv_preimage S si) messageHash"

definition srv_ForMe :: "sih_ops \<Rightarrow> Service \<Rightarrow> bytes \<Rightarrow> bytes \<Rightarrow> bool" where
  "srv_ForMe S si contents hash = sih_ForMe S (srv_preimage S si) contents hash"

definition srv_ForMeFromMessageHash :: "sih_ops \<Rightarrow> Service \<Rightarrow> bytes \<Rightarrow> bytes \<Rightarrow> bool" where
  "srv_ForMeFromMessageHash S si messageHash hash =
     sih_ForMeFromMessageHash S (srv_preimage S si) messageHash hash"

definition cs_preimage :: "sih_ops \<Rightarrow> CompressedService \<Rightarrow> bytes" where
  "cs_preimage S cs =
     (case cs_lazyPreimage cs of
        None \<Rightarrow> sih_MakePreimage S (cs_Identifier cs) ''compressed''
      | Some p \<Rightarrow> p)"

definition cs_ForMe ::
  "sih_ops \<Rightarrow> CompressedService \<Rightarrow> bytes \<Rightarrow> bytes \<Rightarrow> bytes \<Rightarrow> string list \<times> bool \<times> bytes" where
  "cs_ForMe S cs pickup contents hash =
     (let (matchedTags, metadata, found) =
        sih_EvaluateCompressedSIH S pickup (sih_GetMessageHash S contents) (cs_Identifier cs) (cs_Tags cs) hash
      in (matchedTags, found, metadata))"

definition cs_Hash :: "sih_ops \<Rightarrow> CompressedService \<Rightarrow> bytes \<Rightarrow> bytes \<Rightarrow> bytes option" where
  "cs_Hash S cs pickup contents =
     sih_MakeCompressedSIH S pickup (sih_GetMessageHash S contents) (cs_Identifier cs) (cs_Tags cs) (cs_Metadata cs)"

definition GetDefaultService :: "sih_ops \<Rightarrow> bytes \<Rightarrow> Service" where
  "GetDefaultService S recipient =
     \<lparr>srv_Identifier = recipient, srv_Tag = sih_Default S, srv_Metadata = recipient, srv_lazyPreimage = None\<rparr>"

text \<open>The identifier is what the random source fills it with.\<close>

definition GetRandomService :: "bytes option \<Rightarrow> fault + Service" where
  "GetRandomService rng =
     (case rng of
        None \<Rightarrow> Inl FatalPanic
      | Some identifier \<Rightarrow>
          Inr \<lparr>srv_Identifier = identifier, srv_Tag = ''Random'', srv_Metadata = identifier, srv_lazyPreimage = None\<rparr>)"

text \<open>A nil processor is \<open>None\<close>, a nil list of defaults as well.\<close>

record 'p service =
  se_Service :: Service
  se_Processor :: "'p option"
  se_defaultList :: "'p option list option"

record 'p compressedService =
  ce_CompressedService :: CompressedService
  ce_Processor :: "'p option"
  ce_defaultList :: "'p option list option"

type_synonym ServiceList = "Service list idmap"
type_synonym CompressedServiceList = "CompressedService list idmap"

record ('p, 't) ServicesManager =
  sm_services :: "'p service idmap idmap"
  sm_compressedServices :: "'p compressedService idmap idmap"
  sm_trackers :: "'t list"
  sm_numServices :: u64
  sm_sl :: ServiceList
  sm_csl :: CompressedServiceList

definition NewServices :: "('p, 't) ServicesManager" where
  "NewServices =
     \<lparr>sm_services = [], sm_compressedServices = [], sm_trackers = [], sm_numServices = 0, sm_sl = [], sm_csl = []\<rparr>"

definition range_map :: "(bytes list \<Rightarrow> bytes list) \<Rightarrow> 'v idmap \<Rightarrow> 'v list" where
  "range_map ord m = List.map_filter (map_of m) (ord (map fst m))"

definition sm_get ::
  "sih_ops \<Rightarrow> (bytes list \<Rightarrow> bytes list) \<Rightarrow> ('p, 't) ServicesManager \<Rightarrow> bytes \<Rightarrow> bytes \<Rightarrow> bytes \<Rightarrow>
   'p option list \<times> string list \<times> bytes \<times> bool" where
  "sm_get S ord sm clientID receivedSIH contents =
     (let plain = (case map_of (sm_services sm) clientID of None \<Rightarrow> [] | Some m \<Rightarrow> range_map ord m);
          compressed = (case map_of (sm_compressedServices sm) clientID of None \<Rightarrow> [] | Some m \<Rightarrow> range_map ord m)
      in case List.find (\<lambda>s. srv_ForMe S (se_Service s) contents receivedSIH) plain of
           Some s \<Rightarrow>
             (if se_defaultList s = None \<and> srv_Tag (se_Service s) \<noteq> sih_Default S then
                (if se_Processor s = None then ([], [], [], True)
                 else ([se_Processor s], [srv_Tag (se_Service s)], srv_Metadata (se_Service s), True))
              else case se_defaultList s of
                Some l \<Rightarrow> (l, [sih_Default S], [], True)
              | None \<Rightarrow> ([], [], [], False))
         | None \<Rightarrow>
             (case List.find (\<lambda>c. fst (snd (cs_ForMe S (ce_CompressedService c) clientID contents receivedSIH))) compressed of
                Some c \<Rightarrow>
                  (let (tags, forMe, metadata) = cs_ForMe S (ce_CompressedService c) clientID contents receivedSIH
                   in ([ce_Processor c], tags, metadata, True))
              | None \<Rightarrow> ([], [], [], False)))"

subsection \<open>Tracking\<close>

definition makeServiceList :: "(bytes list \<Rightarrow> bytes list) \<Rightarrow> 'p service idmap idmap \<Rightarrow> ServiceList" where
  "makeServiceList ord services = map (\<lambda>(uid, sMap). (uid, map se_Service (range_map ord sMap))) services"

definition makeCompressedServiceList ::
  "(bytes list \<Rightarrow> bytes list) \<Rightarrow> 'p compressedService idmap idmap \<Rightarrow> CompressedServiceList" where
  "makeCompressedServiceList ord cServices =
     map (\<lambda>(uid, sMap). (uid, map ce_CompressedService (range_map ord sMap))) cServices"

definition sl_DeepCopy :: "ServiceList \<Rightarrow> ServiceList" where
  "sl_DeepCopy sl =
     map (\<lambda>(uid, l). (uid, map (\<lambda>s. \<lparr>srv_Identifier = srv_Identifier s, srv_Tag = srv_Tag s,
       srv_Metadata = srv_Metadata s, srv_lazyPreimage = None\<rparr>) l)) sl"

definition csl_DeepCopy :: "CompressedServiceList \<Rightarrow> CompressedServiceList" where
  "csl_DeepCopy csl =
     map (\<lambda>(uid, l). (uid, map (\<lambda>s. \<lparr>cs_Identifier = cs_Identifier s, cs_Tags = cs_Tags s,
       cs_Metadata = cs_Metadata s, cs_lazyPreimage = None\<rparr>) l)) csl"

type_synonym 't tracking = "('t \<times> ServiceList \<times> CompressedServiceList) list"

definition triggerServiceTracking ::
  "(bytes list \<Rightarrow> bytes list) \<Rightarrow> ('p, 't) ServicesManager \<Rightarrow> ('p, 't) ServicesManager \<times> 't tracking" where
  "triggerServiceTracking ord sm =
     (if sm_trackers sm = [] then (sm, [])
      else
        let sm' = sm\<lparr>sm_sl := makeServiceList ord (sm_services sm),
                     sm_csl := makeCompressedServiceList ord (sm_compressedServices sm)\<rparr>
        in (sm', map (\<lambda>t. (t, sl_DeepCopy (sm_sl sm'), csl_DeepCopy (sm_csl sm'))) (sm_trackers sm)))"

definition TrackServices ::
  "('p, 't) ServicesManager \<Rightarrow> 't option \<Rightarrow> ('p, 't) ServicesManager \<times> 't tracking" where
  "TrackServices sm tracker =
     (case tracker of
        None \<Rightarrow> (sm, [])
      | Some t \<Rightarrow>
          (sm\<lparr>sm_trackers := sm_trackers sm @ [t]\<rparr>, [(t, sl_DeepCopy (sm_sl sm), csl_DeepCopy (sm_csl sm))]))"

definition GetServices :: "('p, 't) ServicesManager \<Rightarrow> ServiceList \<times> CompressedServiceList" where
  "GetServices sm = (sm_sl sm, sm_csl sm)"

subsection \<open>Registering and deleting\<close>

text \<open>In the branch of an existing default service the code copies the old entry into \<open>newEntry\<close> before
  it appends to the list of the old one, so the appended list is dropped.\<close>

definition AddService ::
  "sih_ops \<Rightarrow> (bytes list \<Rightarrow> bytes list) \<Rightarrow> ('p, 't) ServicesManager \<Rightarrow> bytes \<Rightarrow> Service \<Rightarrow> 'p option \<Rightarrow>
   fault + ('p, 't) ServicesManager \<times> 't tracking" where
  "AddService S ord sm clientID newService response =
     (let newEntry = \<lparr>se_Service = newService, se_Processor = response, se_defaultList = None\<rparr>;
          m = (case map_of (sm_services sm) clientID of None \<Rightarrow> [] | Some m \<Rightarrow> m);
          pre = srv_preimage S newService;
          finish = (\<lambda>entry. Inr (triggerServiceTracking ord
            (sm\<lparr>sm_services := AList.update clientID (AList.update pre entry m) (sm_services sm),
                sm_numServices := sm_numServices sm + 1\<rparr>)))
      in if srv_Tag newService = sih_Default S then
           (if srv_Identifier newService \<noteq> clientID then Inl FatalPanic
            else case map_of m pre of
              Some oldDefault \<Rightarrow>
                (let newEntry = oldDefault;
                     oldDefault = oldDefault\<lparr>se_defaultList :=
                       Some ((case se_defaultList oldDefault of None \<Rightarrow> [] | Some l \<Rightarrow> l) @ [response])\<rparr>
                 in finish newEntry)
            | None \<Rightarrow> finish (newEntry\<lparr>se_Service := newService\<lparr>srv_Metadata := clientID\<rparr>\<rparr>))
         else if map_of m pre \<noteq> None then Inl FatalPanic
         else finish newEntry)"

definition UpsertCompressedService ::
  "sih_ops \<Rightarrow> (bytes list \<Rightarrow> bytes list) \<Rightarrow> ('p, 't) ServicesManager \<Rightarrow> bytes \<Rightarrow> CompressedService \<Rightarrow>
   'p option \<Rightarrow> ('p, 't) ServicesManager \<times> 't tracking" where
  "UpsertCompressedService S ord sm clientID newService response =
     (let newEntry = \<lparr>ce_CompressedService = newService, ce_Processor = response, ce_defaultList = None\<rparr>;
          m = (case map_of (sm_compressedServices sm) clientID of None \<Rightarrow> [] | Some m \<Rightarrow> m);
          pre = cs_preimage S newService;
          isUpdate = map_of m pre \<noteq> None
      in triggerServiceTracking ord
           (sm\<lparr>sm_compressedServices := AList.update clientID (AList.update pre newEntry m) (sm_compressedServices sm),
               sm_numServices := (if isUpdate then sm_numServices sm else sm_numServices sm + 1)\<rparr>))"

definition DeleteService ::
  "sih_ops \<Rightarrow> (bytes list \<Rightarrow> bytes list) \<Rightarrow> ('p, 't) ServicesManager \<Rightarrow> bytes \<Rightarrow> Service \<Rightarrow> 'p option \<Rightarrow>
   ('p, 't) ServicesManager \<times> 't tracking" where
  "DeleteService S ord sm clientID toDelete p =
     (case map_of (sm_services sm) clientID of
        None \<Rightarrow> (sm, [])
      | Some idSMap \<Rightarrow>
          (let pre = srv_preimage S toDelete
           in case map_of idSMap pre of
                None \<Rightarrow> (sm, [])
              | Some services \<Rightarrow>
                  (case se_defaultList services of
                     Some l \<Rightarrow>
                       (if 1 < length l \<and> p \<in> set l then
                          (sm\<lparr>sm_services := AList.update clientID
                             (AList.update pre (services\<lparr>se_defaultList := Some (remove1 p l)\<rparr>) idSMap) (sm_services sm)\<rparr>, [])
                        else triggerServiceTracking ord
                          (sm\<lparr>sm_services := AList.update clientID (AList.delete pre idSMap) (sm_services sm),
                              sm_numServices := sm_numServices sm - 1\<rparr>))
                   | None \<Rightarrow> triggerServiceTracking ord
                       (sm\<lparr>sm_services := AList.update clientID (AList.delete pre idSMap) (sm_services sm),
                           sm_numServices := sm_numServices sm - 1\<rparr>))))"

definition DeleteCompressedService ::
  "sih_ops \<Rightarrow> (bytes list \<Rightarrow> bytes list) \<Rightarrow> ('p, 't) ServicesManager \<Rightarrow> bytes \<Rightarrow> CompressedService \<Rightarrow>
   ('p, 't) ServicesManager \<times> 't tracking" where
  "DeleteCompressedService S ord sm clientID toDelete =
     (case map_of (sm_compressedServices sm) clientID of
        None \<Rightarrow> (sm, [])
      | Some idSMap \<Rightarrow>
          (if map_of idSMap (cs_preimage S toDelete) = None then (sm, [])
           else triggerServiceTracking ord
             (sm\<lparr>sm_compressedServices :=
                   AList.update clientID (AList.delete (cs_preimage S toDelete) idSMap) (sm_compressedServices sm),
                 sm_numServices := sm_numServices sm - 1\<rparr>)))"

definition DeleteClientService :: "('p, 't) ServicesManager \<Rightarrow> bytes \<Rightarrow> ('p, 't) ServicesManager" where
  "DeleteClientService sm clientID =
     sm\<lparr>sm_services := AList.delete clientID (sm_services sm),
        sm_compressedServices := AList.delete clientID (sm_compressedServices sm)\<rparr>"

section \<open>Fallthrough\<close>

type_synonym 'p FallthroughManager = "'p idmap"

definition newFallthroughManager :: "'p FallthroughManager" where
  "newFallthroughManager = []"

definition AddFallthrough :: "'p FallthroughManager \<Rightarrow> bytes \<Rightarrow> 'p \<Rightarrow> 'p FallthroughManager" where
  "AddFallthrough f c p = AList.update c p f"

definition RemoveFallthrough :: "'p FallthroughManager \<Rightarrow> bytes \<Rightarrow> 'p FallthroughManager" where
  "RemoveFallthrough f c = AList.delete c f"

definition getFallthrough :: "'p FallthroughManager \<Rightarrow> bytes \<Rightarrow> 'p option" where
  "getFallthrough f c = map_of f c"

section \<open>The handler\<close>

record msg_Params =
  MessageReceptionBuffLen :: nat
  MessageReceptionWorkerPoolSize :: nat
  MaxChecksInProcessMessage :: u64
  InProcessMessageWait :: int

definition msg_GetDefaultParams :: msg_Params where
  "msg_GetDefaultParams =
     \<lparr>MessageReceptionBuffLen = 500, MessageReceptionWorkerPoolSize = 2, MaxChecksInProcessMessage = 10,
      InProcessMessageWait = 15 * 60 * 10 ^ 9\<rparr>"

text \<open>What the code reads of a marshalled message, of a marshalled round and of an identity.\<close>

record fmt_ops =
  fmt_PrimeByteLen :: "bytes \<Rightarrow> nat"
  fmt_KeyFP :: "bytes \<Rightarrow> bytes"
  fmt_SIH :: "bytes \<Rightarrow> bytes"
  fmt_Contents :: "bytes \<Rightarrow> bytes"
  fmt_QueuedTime :: "bytes \<Rightarrow> int"
  fmt_Source :: "bytes \<Rightarrow> bytes"

record Bundle =
  bd_RoundInfo :: bytes
  bd_Messages :: "bytes list"
  bd_Identity :: bytes

definition buildMsg :: "fmt_ops \<Rightarrow> bytes \<Rightarrow> bytes \<Rightarrow> bytes \<Rightarrow> fault + meteredCmixMessage" where
  "buildMsg F m ri identity =
     (if fmt_PrimeByteLen F m = 0 then Inl FatalPanic
      else Inr \<lparr>mcm_M = m, mcm_Ri = ri, mcm_Identity = identity, mcm_Count = 0, mcm_Timestamp = fmt_QueuedTime F ri\<rparr>)"

record ('h, 'p, 't) handler =
  hd_param :: msg_Params
  hd_messageReception :: "Bundle list"
  hd_checkInProgress :: nat
  hd_inProcess :: "'h MessageBuffer"
  hd_fingerprints :: "'p FingerprintsManager"
  hd_services :: "('p, 't) ServicesManager"
  hd_fallthrough :: "'p FallthroughManager"

definition inProcessKey :: string where
  "inProcessKey = ''InProcessMessagesKey''"

definition NewMeteredCmixMessageBuffer ::
  "('h, 'w) KV_ops \<Rightarrow> 'w \<Rightarrow> 'h \<Rightarrow> string \<Rightarrow> 'h MessageBuffer \<times> kv_error option \<times> 'w" where
  "NewMeteredCmixMessageBuffer K w h key = NewMessageBuffer K w h key"

definition NewOrLoadMeteredCmixMessageBuffer ::
  "('h, 'w) KV_ops \<Rightarrow> 'w \<Rightarrow> 'h \<Rightarrow> string \<Rightarrow> 'h MessageBuffer \<times> kv_error option \<times> 'w" where
  "NewOrLoadMeteredCmixMessageBuffer K w h key =
     (case LoadMessageBuffer K w h key of
        (Some err, _) \<Rightarrow> NewMeteredCmixMessageBuffer K w h key
      | (None, mb) \<Rightarrow> (mb, None, w))"

definition NewHandler ::
  "('h, 'w) KV_ops \<Rightarrow> 'w \<Rightarrow> msg_Params \<Rightarrow> 'h \<Rightarrow> bytes \<Rightarrow> fault + ('h, 'p, 't) handler \<times> 'w" where
  "NewHandler K w param h standardID =
     (case NewOrLoadMeteredCmixMessageBuffer K w h inProcessKey of
        (_, Some err, w') \<Rightarrow> Inl FatalPanic
      | (garbled, None, w') \<Rightarrow>
          Inr (\<lparr>hd_param = param, hd_messageReception = [], hd_checkInProgress = 0, hd_inProcess = garbled,
                hd_fingerprints = newFingerprints standardID, hd_services = NewServices,
                hd_fallthrough = newFallthroughManager\<rparr>, w'))"

text \<open>A call of a processor, with the tags and the metadata it is given; the processor of a
  service may be nil, and calling it panics in a thread of its own.\<close>

datatype 'p call = Call "'p option" "string list" bytes

definition handleMessageHelper ::
  "sih_ops \<Rightarrow> fmt_ops \<Rightarrow> (bytes list \<Rightarrow> bytes list) \<Rightarrow> ('h, 'p, 't) handler \<Rightarrow> bytes \<Rightarrow> Bundle \<Rightarrow>
   bool \<times> 'p call list \<times> ('h, 'p, 't) handler" where
  "handleMessageHelper S F ord h ecrMsg bundle =
     (let source = fmt_Source F (bd_Identity bundle)
      in case fm_pop (hd_fingerprints h) source (fmt_KeyFP F ecrMsg) of
           (Some p, fm) \<Rightarrow> (True, [Call (Some p) [] []], h\<lparr>hd_fingerprints := fm\<rparr>)
         | (None, _) \<Rightarrow>
             (let (services, tags, metadata, found) =
                    sm_get S ord (hd_services h) source (fmt_SIH F ecrMsg) (fmt_Contents F ecrMsg)
              in if found \<and> services \<noteq> [] then (True, map (\<lambda>t. Call t tags metadata) services, h)
                 else case getFallthrough (hd_fallthrough h) source of
                   Some p \<Rightarrow> (True, [Call (Some p) [] []], h)
                 | None \<Rightarrow> (False, [], h)))"

definition handleMessage ::
  "sih_ops \<Rightarrow> fmt_ops \<Rightarrow> (bytes list \<Rightarrow> bytes list) \<Rightarrow> (bytes \<Rightarrow> bytes) \<Rightarrow> ('h, 'w) KV_ops \<Rightarrow> 'w \<Rightarrow>
   ('h, 'p, 't) handler \<Rightarrow> u64 \<Rightarrow> int \<Rightarrow> bytes \<Rightarrow> Bundle \<Rightarrow> fault + 'p call list \<times> ('h, 'p, 't) handler \<times> 'w" where
  "handleMessage S F ord b K w h count ts msg bundle =
     (let (success, calls, h1) = handleMessageHelper S F ord h msg bundle
      in res_bind (buildMsg F msg (bd_RoundInfo bundle) (bd_Identity bundle)) (\<lambda>m.
         res_bind (if success then mcmb_Remove b K w (hd_inProcess h1) m
                   else if count = MaxChecksInProcessMessage (hd_param h1) \<and>
                           KV_Now K w - ts > InProcessMessageWait (hd_param h1)
                   then mcmb_Remove b K w (hd_inProcess h1) m
                   else mcmb_Failed b K w (hd_inProcess h1) m)
           (\<lambda>(mb, w'). Inr (calls, h1\<lparr>hd_inProcess := mb\<rparr>, w'))))"

text \<open>One bundle of the thread \<open>handleMessages\<close>. The code handles the messages of a bundle in threads of
  their own; each adds its message to the buffer and then handles it.\<close>

fun handle_messages ::
  "sih_ops \<Rightarrow> fmt_ops \<Rightarrow> (bytes list \<Rightarrow> bytes list) \<Rightarrow> (bytes \<Rightarrow> bytes) \<Rightarrow> ('h, 'w) KV_ops \<Rightarrow> 'w \<Rightarrow>
   ('h, 'p, 't) handler \<Rightarrow> Bundle \<Rightarrow> bytes list \<Rightarrow> fault + 'p call list \<times> ('h, 'p, 't) handler \<times> 'w" where
  "handle_messages S F ord b K w h bundle [] = Inr ([], h, w)"
| "handle_messages S F ord b K w h bundle (msg # msgs) =
     res_bind (buildMsg F msg (bd_RoundInfo bundle) (bd_Identity bundle)) (\<lambda>m.
     res_bind (mcmb_Add b K w (hd_inProcess h) m) (\<lambda>((count, ts), mb, w1).
     res_bind (handleMessage S F ord b K w1 (h\<lparr>hd_inProcess := mb\<rparr>) count ts msg bundle) (\<lambda>(calls, h2, w2).
     res_bind (handle_messages S F ord b K w2 h2 bundle msgs) (\<lambda>(calls', h3, w3).
       Inr (calls @ calls', h3, w3)))))"

definition handle_next_bundle ::
  "sih_ops \<Rightarrow> fmt_ops \<Rightarrow> (bytes list \<Rightarrow> bytes list) \<Rightarrow> (bytes \<Rightarrow> bytes) \<Rightarrow> ('h, 'w) KV_ops \<Rightarrow> 'w \<Rightarrow>
   ('h, 'p, 't) handler \<Rightarrow> fault + 'p call list \<times> ('h, 'p, 't) handler \<times> 'w" where
  "handle_next_bundle S F ord b K w h =
     (case hd_messageReception h of
        [] \<Rightarrow> Inr ([], h, w)
      | bundle # bundles \<Rightarrow>
          handle_messages S F ord b K w (h\<lparr>hd_messageReception := bundles\<rparr>) bundle (bd_Messages bundle))"

subsection \<open>Messages in progress\<close>

definition CheckInProgressMessages :: "('h, 'p, 't) handler \<Rightarrow> ('h, 'p, 't) handler" where
  "CheckInProgressMessages h =
     (if hd_checkInProgress h < 100 then h\<lparr>hd_checkInProgress := hd_checkInProgress h + 1\<rparr> else h)"

lemma mb_next_loop_shrinks:
  "mb_next_loop H rnd w mb = (Some m, mb') \<Longrightarrow> length (mb_messages mb') < length (mb_messages mb)"
proof (induction H rnd w mb rule: mb_next_loop.induct)
  case (1 H rnd w mb)
  show ?case
  proof (cases "mb_messages mb = []")
    case True
    with 1(2) show ?thesis by (simp add: mb_next_loop.simps [of H rnd w mb])
  next
    case False
    then have r: "length (removeAll (mb_next rnd (mb_messages mb)) (mb_messages mb)) < length (mb_messages mb)"
      by (simp add: mb_next_in length_removeAll_less)
    show ?thesis
      using 1(2) False r 1(1) [OF False refl refl]
      by (force simp: mb_next_loop.simps [of H rnd w mb] Let_def split: sum.splits)
  qed
qed

lemma mcmb_Next_shrinks:
  "mcmb_Next b K rnd w mb = Inr (Some m, mb', w') \<Longrightarrow> length (mb_messages mb') < length (mb_messages mb)"
  using mb_next_loop_shrinks [of "meteredCmixMessageHandler b K" rnd w mb]
  by (auto simp: mcmb_Next_def mb_Next_def Let_def split: prod.splits option.splits)

text \<open>The loop of \<open>recheckInProgress\<close>: a bundle that finds the channel full is dropped, and its message
  stays among those being processed.\<close>

function recheckInProgress ::
  "(bytes \<Rightarrow> bytes) \<Rightarrow> ('h, 'w) KV_ops \<Rightarrow> (MessageHash list \<Rightarrow> nat) \<Rightarrow> 'w \<Rightarrow> ('h, 'p, 't) handler \<Rightarrow>
   fault + ('h, 'p, 't) handler \<times> 'w" where
  "recheckInProgress b K rnd w h =
     (case mcmb_Next b K rnd w (hd_inProcess h) of
        Inl f \<Rightarrow> Inl f
      | Inr (None, mb, w') \<Rightarrow> Inr (h\<lparr>hd_inProcess := mb\<rparr>, w')
      | Inr (Some m, mb, w') \<Rightarrow>
          (let bundle = \<lparr>bd_RoundInfo = mcm_Ri m, bd_Messages = [mcm_M m], bd_Identity = mcm_Identity m\<rparr>
           in recheckInProgress b K rnd w'
                (if length (hd_messageReception h) < MessageReceptionBuffLen (hd_param h)
                 then h\<lparr>hd_inProcess := mb, hd_messageReception := hd_messageReception h @ [bundle]\<rparr>
                 else h\<lparr>hd_inProcess := mb\<rparr>)))"
  by pat_completeness auto

termination
  by (relation "measure (\<lambda>(b, K, rnd, w, h). length (mb_messages (hd_inProcess h)))")
    (auto dest!: mcmb_Next_shrinks)

declare recheckInProgress.simps [simp del]

section \<open>Fingerprints are processed at most once\<close>

text \<open>The contract of a table whose entries are taken out when they are used, and a run of operations on it
  with what it hands out.\<close>

datatype ('k, 'p) table_op = TAdd 'k 'p | TPop 'k | TDelete 'k

fun table_run ::
  "('s \<Rightarrow> 'k \<Rightarrow> 'p \<Rightarrow> bool \<times> 's) \<Rightarrow> ('s \<Rightarrow> 'k \<Rightarrow> 'p option \<times> 's) \<Rightarrow> ('s \<Rightarrow> 'k \<Rightarrow> 's) \<Rightarrow>
   's \<Rightarrow> ('k, 'p) table_op list \<Rightarrow> ('k \<times> 'p) list \<times> ('k \<times> 'p) list \<times> 's" where
  "table_run add pop del s [] = ([], [], s)"
| "table_run add pop del s (TAdd k p # ops) =
     (let (ok, s1) = add s k p; (added, taken, s2) = table_run add pop del s1 ops
      in (if ok then (k, p) # added else added, taken, s2))"
| "table_run add pop del s (TPop k # ops) =
     (let (r, s1) = pop s k; (added, taken, s2) = table_run add pop del s1 ops
      in (added, case r of None \<Rightarrow> taken | Some p \<Rightarrow> (k, p) # taken, s2))"
| "table_run add pop del s (TDelete k # ops) = table_run add pop del (del s k) ops"

locale once_table =
  fixes inv :: "'s \<Rightarrow> bool"
    and lookup :: "'s \<Rightarrow> 'k \<Rightarrow> 'p option"
    and add :: "'s \<Rightarrow> 'k \<Rightarrow> 'p \<Rightarrow> bool \<times> 's"
    and pop :: "'s \<Rightarrow> 'k \<Rightarrow> 'p option \<times> 's"
    and del :: "'s \<Rightarrow> 'k \<Rightarrow> 's"
  assumes add_law:
      "inv s \<Longrightarrow> add s k p = (ok, s') \<Longrightarrow>
       inv s' \<and> ok = (lookup s k = None) \<and> lookup s' = (if ok then (lookup s)(k \<mapsto> p) else lookup s)"
    and pop_law:
      "inv s \<Longrightarrow> pop s k = (r, s') \<Longrightarrow> inv s' \<and> r = lookup s k \<and> lookup s' = (lookup s)(k := None)"
    and del_law: "inv s \<Longrightarrow> inv (del s k) \<and> lookup (del s k) = (lookup s)(k := None)"
begin

text \<open>Every entry that is handed out was added before, and handed out only once for every time it was added.\<close>

lemma taken_added:
  assumes "inv s" "table_run add pop del s ops = (added, taken, s')"
  shows "inv s'"
    and "count_list taken (k, p) \<le> count_list added (k, p) + (if lookup s k = Some p then 1 else 0)"
proof -
  have "inv s' \<and> (\<forall>k p. count_list taken (k, p) + (if lookup s' k = Some p then 1 else 0) \<le>
      count_list added (k, p) + (if lookup s k = Some p then 1 else 0))"
    using assms
  proof (induction ops arbitrary: s added taken)
    case Nil
    then show ?case by auto
  next
    case (Cons q ops)
    show ?case
    proof (cases q)
      case (TAdd k1 p1)
      obtain ok s1 where 1: "add s k1 p1 = (ok, s1)" by fastforce
      obtain ad ta s2 where 2: "table_run add pop del s1 ops = (ad, ta, s2)" by (metis prod_cases3)
      with Cons.prems(2) 1 have e: "s2 = s'" "taken = ta" "added = (if ok then (k1, p1) # ad else ad)"
        by (auto simp: TAdd)
      note a = add_law [OF Cons.prems(1) 1]
      with Cons.IH [of s1 ad ta] 2 e(1) have "inv s'" "\<And>k p. count_list ta (k, p) + (if lookup s' k = Some p then 1 else 0) \<le>
        count_list ad (k, p) + (if lookup s1 k = Some p then 1 else 0)" by blast+
      moreover have "count_list ad (k, p) + (if lookup s1 k = Some p then 1 else 0) \<le>
        count_list added (k, p) + (if lookup s k = Some p then 1 else 0)" for k p
        using a by (auto simp: e)
      ultimately show ?thesis unfolding e(2) by (meson le_trans)
    next
      case (TPop k1)
      obtain r s1 where 1: "pop s k1 = (r, s1)" by fastforce
      obtain ad ta s2 where 2: "table_run add pop del s1 ops = (ad, ta, s2)" by (metis prod_cases3)
      with Cons.prems(2) 1 have e: "s2 = s'" "added = ad"
          "taken = (case r of None \<Rightarrow> ta | Some p \<Rightarrow> (k1, p) # ta)"
        by (auto simp: TPop)
      note a = pop_law [OF Cons.prems(1) 1]
      with Cons.IH [of s1 ad ta] 2 e(1) have i: "inv s'" "\<And>k p. count_list ta (k, p) + (if lookup s' k = Some p then 1 else 0) \<le>
        count_list ad (k, p) + (if lookup s1 k = Some p then 1 else 0)" by blast+
      have "count_list taken (k, p) + (if lookup s' k = Some p then 1 else 0) \<le>
        count_list added (k, p) + (if lookup s k = Some p then 1 else 0)" for k p
        using a i(2) [of k p] by (auto simp: e split: option.splits if_splits)
      with i(1) show ?thesis by blast
    next
      case (TDelete k1)
      note a = del_law [OF Cons.prems(1), of k1]
      with Cons.IH [of "del s k1" added taken] Cons.prems(2)
      have i: "inv s'" "\<And>k p. count_list taken (k, p) + (if lookup s' k = Some p then 1 else 0) \<le>
        count_list added (k, p) + (if lookup (del s k1) k = Some p then 1 else 0)" by (simp_all add: TDelete)
      have "count_list taken (k, p) + (if lookup s' k = Some p then 1 else 0) \<le>
        count_list added (k, p) + (if lookup s k = Some p then 1 else 0)" for k p
        using a i(2) [of k p] by (auto split: if_splits)
      with i(1) show ?thesis by blast
    qed
  qed
  then show "inv s'"
    and "count_list taken (k, p) \<le> count_list added (k, p) + (if lookup s k = Some p then 1 else 0)"
    by (blast, meson le_trans le_add1)
qed

end

text \<open>The fingerprints as one table over pairs of a client and a fingerprint.\<close>

definition fm_lookup :: "'p FingerprintsManager \<Rightarrow> bytes \<times> bytes \<Rightarrow> 'p option" where
  "fm_lookup f k = (case map_of (fpMap f) (fst k) of None \<Rightarrow> None | Some m \<Rightarrow> map_of m (snd k))"

definition fm_wf :: "'p FingerprintsManager \<Rightarrow> bool" where
  "fm_wf f =
     (distinct (map fst (fpMap f)) \<and>
      (\<forall>c. case map_of (fpMap f) c of None \<Rightarrow> True | Some m \<Rightarrow> m \<noteq> [] \<and> distinct (map fst m)))"

lemma fm_wf_inner: "fm_wf f \<Longrightarrow> map_of (fpMap f) c = Some m \<Longrightarrow> m \<noteq> [] \<and> distinct (map fst m)"
  by (auto simp: fm_wf_def simp del: map_of_eq_Some_iff dest: spec [of _ c])

lemma map_of_delete_fun: "map_of (AList.delete k al) = (map_of al)(k := None)"
  by (rule AList.delete_conv')

lemma map_of_update_fun: "map_of (AList.update k v al) = (map_of al)(k \<mapsto> v)"
  by (rule AList.update_conv')

lemmas alist_simps = map_of_delete_fun map_of_update_fun AList.distinct_delete AList.distinct_update

lemma update_not_Nil [simp]: "AList.update k v al \<noteq> []"
  by (cases al) auto

lemma fm_drop_simps:
  assumes "distinct (map fst m)"
  shows "fm_wf f \<Longrightarrow> fm_wf (fm_drop f c m)"
    "fm_lookup (fm_drop f c m) k = (if fst k = c then map_of m (snd k) else fm_lookup f k)"
    "fm_standardID (fm_drop f c m) = fm_standardID f"
  using assms by (simp_all add: fm_drop_def fm_wf_def fm_lookup_def alist_simps)

lemma fm_pop_spec:
  assumes "fm_wf f" "fm_pop f c fp = (r, f')"
  shows "fm_wf f'" "r = fm_lookup f (c, fp)" "fm_lookup f' = (fm_lookup f)((c, fp) := None)"
    "fm_standardID f' = fm_standardID f"
proof -
  have "fm_wf f' \<and> r = fm_lookup f (c, fp) \<and> fm_lookup f' = (fm_lookup f)((c, fp) := None) \<and>
    fm_standardID f' = fm_standardID f"
  proof (cases "fm_lookup f (c, fp)")
    case None
    with assms show ?thesis
      by (auto simp: fm_pop_def fm_lookup_def split: option.splits)
  next
    case (Some p)
    then obtain m where m: "map_of (fpMap f) c = Some m" "map_of m fp = Some p"
      by (auto simp: fm_lookup_def split: option.splits)
    with assms have f': "f' = fm_drop f c (AList.delete fp m)" "r = Some p"
      by (auto simp: fm_pop_def)
    have "distinct (map fst (AList.delete fp m))"
      using fm_wf_inner [OF assms(1) m(1)] by (simp add: AList.distinct_delete)
    note d = fm_drop_simps [OF this]
    show ?thesis
      unfolding f' using d(1) [OF assms(1)] m Some
      by (simp add: d fun_eq_iff alist_simps) (simp add: fm_lookup_def)
  qed
  then show "fm_wf f'" "r = fm_lookup f (c, fp)" "fm_lookup f' = (fm_lookup f)((c, fp) := None)"
    "fm_standardID f' = fm_standardID f" by blast+
qed

lemma AddFingerprint_spec:
  assumes "fm_wf f" "AddFingerprint f c fp p = (ok, f')"
  shows "fm_wf f'" "ok = (fm_lookup f (fm_client f c, fp) = None)"
    "fm_lookup f' = (if ok then (fm_lookup f)((fm_client f c, fp) \<mapsto> p) else fm_lookup f)"
    "fm_standardID f' = fm_standardID f"
proof -
  let ?c = "fm_client f c"
  have "fm_wf f' \<and> ok = (fm_lookup f (?c, fp) = None) \<and>
    fm_lookup f' = (if ok then (fm_lookup f)((?c, fp) \<mapsto> p) else fm_lookup f) \<and> fm_standardID f' = fm_standardID f"
  proof (cases "map_of (fpMap f) ?c")
    case None
    with assms show ?thesis
      by (auto simp: AddFingerprint_def Let_def fm_lookup_def fm_wf_def alist_simps fun_eq_iff simp del: map_of_eq_Some_iff)
  next
    case (Some m)
    with assms show ?thesis
      using fm_wf_inner [OF assms(1) Some]
      by (auto simp: AddFingerprint_def Let_def fm_lookup_def fm_wf_def alist_simps fun_eq_iff
          simp del: map_of_eq_Some_iff split: if_splits)
  qed
  then show "fm_wf f'" "ok = (fm_lookup f (?c, fp) = None)"
    "fm_lookup f' = (if ok then (fm_lookup f)((?c, fp) \<mapsto> p) else fm_lookup f)"
    "fm_standardID f' = fm_standardID f" by blast+
qed

lemma DeleteFingerprint_spec:
  assumes "fm_wf f"
  shows "fm_wf (DeleteFingerprint f c fp)"
    "fm_lookup (DeleteFingerprint f c fp) = (fm_lookup f)((fm_client f c, fp) := None)"
    "fm_standardID (DeleteFingerprint f c fp) = fm_standardID f"
proof -
  let ?c = "fm_client f c"
  have "fm_wf (DeleteFingerprint f c fp) \<and>
    fm_lookup (DeleteFingerprint f c fp) = (fm_lookup f)((?c, fp) := None) \<and>
    fm_standardID (DeleteFingerprint f c fp) = fm_standardID f"
  proof (cases "map_of (fpMap f) ?c")
    case None
    with assms show ?thesis by (auto simp: DeleteFingerprint_def Let_def fm_lookup_def fun_eq_iff)
  next
    case (Some m)
    then have "distinct (map fst (AList.delete fp m))"
      using fm_wf_inner [OF assms] by (simp add: AList.distinct_delete)
    note d = fm_drop_simps [OF this]
    show ?thesis
      using Some d(1) [OF assms]
      by (simp add: DeleteFingerprint_def Let_def d fun_eq_iff alist_simps) (simp add: fm_lookup_def)
  qed
  then show "fm_wf (DeleteFingerprint f c fp)"
    "fm_lookup (DeleteFingerprint f c fp) = (fm_lookup f)((?c, fp) := None)"
    "fm_standardID (DeleteFingerprint f c fp) = fm_standardID f" by blast+
qed

lemma DeleteClientFingerprints_spec:
  assumes "fm_wf f"
  shows "fm_wf (DeleteClientFingerprints f c)"
    "fm_lookup (DeleteClientFingerprints f c) k = (if fst k = c then None else fm_lookup f k)"
  using assms by (auto simp: DeleteClientFingerprints_def fm_wf_def fm_lookup_def alist_simps)

interpretation fm: once_table fm_wf fm_lookup
  "\<lambda>f k. AddFingerprint f (Some (fst k)) (snd k)" "\<lambda>f k. fm_pop f (fst k) (snd k)"
  "\<lambda>f k. DeleteFingerprint f (Some (fst k)) (snd k)"
proof
  fix s :: "'a FingerprintsManager" and k p ok s'
  assume "fm_wf s" "AddFingerprint s (Some (fst k)) (snd k) p = (ok, s')"
  from AddFingerprint_spec [OF this]
  show "fm_wf s' \<and> ok = (fm_lookup s k = None) \<and>
      fm_lookup s' = (if ok then (fm_lookup s)(k \<mapsto> p) else fm_lookup s)"
    by (simp add: fm_client_def)
next
  fix s :: "'a FingerprintsManager" and k r s'
  assume "fm_wf s" "fm_pop s (fst k) (snd k) = (r, s')"
  from fm_pop_spec [OF this]
  show "fm_wf s' \<and> r = fm_lookup s k \<and> fm_lookup s' = (fm_lookup s)(k := None)" by simp
next
  fix s :: "'a FingerprintsManager" and k
  assume "fm_wf s"
  from DeleteFingerprint_spec [OF this, of "Some (fst k)" "snd k"]
  show "fm_wf (DeleteFingerprint s (Some (fst k)) (snd k)) \<and>
      fm_lookup (DeleteFingerprint s (Some (fst k)) (snd k)) = (fm_lookup s)(k := None)"
    by (simp add: fm_client_def)
qed

lemma newFingerprints_spec [simp]: "fm_wf (newFingerprints i)" "fm_lookup (newFingerprints i) k = None"
  by (simp_all add: newFingerprints_def fm_wf_def fm_lookup_def)

abbreviation fp_run ::
  "'p FingerprintsManager \<Rightarrow> (bytes \<times> bytes, 'p) table_op list \<Rightarrow>
   ((bytes \<times> bytes) \<times> 'p) list \<times> ((bytes \<times> bytes) \<times> 'p) list \<times> 'p FingerprintsManager" where
  "fp_run \<equiv> table_run (\<lambda>f k. AddFingerprint f (Some (fst k)) (snd k)) (\<lambda>f k. fm_pop f (fst k) (snd k))
     (\<lambda>f k. DeleteFingerprint f (Some (fst k)) (snd k))"



section \<open>Services\<close>

text \<open>The states of the services of a client.\<close>

inductive sm_reachable :: "sih_ops \<Rightarrow> ('p, 't) ServicesManager \<Rightarrow> bool" for S where
  sm_start: "sm_reachable S NewServices"
| sm_add: "sm_reachable S sm \<Longrightarrow> AddService S ord sm c srv p = Inr (sm', calls) \<Longrightarrow> sm_reachable S sm'"
| sm_upsert: "sm_reachable S sm \<Longrightarrow> UpsertCompressedService S ord sm c cs p = (sm', calls) \<Longrightarrow> sm_reachable S sm'"
| sm_delete: "sm_reachable S sm \<Longrightarrow> DeleteService S ord sm c srv p = (sm', calls) \<Longrightarrow> sm_reachable S sm'"
| sm_delete_compressed:
    "sm_reachable S sm \<Longrightarrow> DeleteCompressedService S ord sm c cs = (sm', calls) \<Longrightarrow> sm_reachable S sm'"
| sm_delete_client: "sm_reachable S sm \<Longrightarrow> sm_reachable S (DeleteClientService sm c)"
| sm_track: "sm_reachable S sm \<Longrightarrow> TrackServices sm t = (sm', calls) \<Longrightarrow> sm_reachable S sm'"

definition sm_entry :: "('p, 't) ServicesManager \<Rightarrow> bytes \<Rightarrow> bytes \<Rightarrow> 'p service option" where
  "sm_entry sm c pre = (case map_of (sm_services sm) c of None \<Rightarrow> None | Some m \<Rightarrow> map_of m pre)"

lemma triggerServiceTracking_services [simp]:
  "sm_services (fst (triggerServiceTracking ord sm)) = sm_services sm"
  "sm_compressedServices (fst (triggerServiceTracking ord sm)) = sm_compressedServices sm"
  "sm_numServices (fst (triggerServiceTracking ord sm)) = sm_numServices sm"
  by (simp_all add: triggerServiceTracking_def Let_def)

lemma sm_entry_update:
  "sm_services sm' = AList.update c (AList.update pre e m) (sm_services sm) \<Longrightarrow>
   m = (case map_of (sm_services sm) c of None \<Rightarrow> [] | Some m \<Rightarrow> m) \<Longrightarrow>
   sm_entry sm' c' pre' = (if c' = c \<and> pre' = pre then Some e else sm_entry sm c' pre')"
  by (auto simp: sm_entry_def alist_simps split: option.splits)

lemma sm_entry_delete:
  "sm_services sm' = AList.update c (AList.delete pre m) (sm_services sm) \<Longrightarrow>
   map_of (sm_services sm) c = Some m \<Longrightarrow>
   sm_entry sm' c' pre' = (if c' = c \<and> pre' = pre then None else sm_entry sm c' pre')"
  by (auto simp: sm_entry_def alist_simps split: option.splits)

lemma AddService_entry:
  assumes "AddService S ord sm c srv p = Inr (sm', calls)"
  shows "sm_entry sm' c' pre' =
    (if c' = c \<and> pre' = srv_preimage S srv then
       (case sm_entry sm c pre' of
          Some old \<Rightarrow> Some old
        | None \<Rightarrow> Some \<lparr>se_Service = (if srv_Tag srv = sih_Default S then srv\<lparr>srv_Metadata := c\<rparr> else srv),
                       se_Processor = p, se_defaultList = None\<rparr>)
     else sm_entry sm c' pre')"
proof -
  let ?m = "case map_of (sm_services sm) c of None \<Rightarrow> [] | Some m \<Rightarrow> m"
  have e: "map_of ?m (srv_preimage S srv) = sm_entry sm c (srv_preimage S srv)"
    by (simp add: sm_entry_def split: option.splits)
  from assms obtain ent where s: "sm_services sm' = AList.update c (AList.update (srv_preimage S srv) ent ?m) (sm_services sm)"
    and ent: "ent = (case sm_entry sm c (srv_preimage S srv) of
          Some old \<Rightarrow> old
        | None \<Rightarrow> \<lparr>se_Service = (if srv_Tag srv = sih_Default S then srv\<lparr>srv_Metadata := c\<rparr> else srv),
                       se_Processor = p, se_defaultList = None\<rparr>)"
    unfolding AddService_def Let_def e
    by (auto split: if_splits option.splits dest!: arg_cong [of _ _ fst] arg_cong [of _ _ sm_services])
  show ?thesis
    unfolding sm_entry_update [OF s refl] ent by (auto split: option.splits)
qed

lemma reachable_no_defaults:
  assumes "sm_reachable S sm" "sm_entry sm c pre = Some e"
  shows "se_defaultList e = None"
proof -
  have "\<forall>c pre e. sm_entry sm c pre = Some e \<longrightarrow> se_defaultList e = None"
    using assms(1)
  proof (induction rule: sm_reachable.induct)
    case sm_start
    then show ?case by (simp add: NewServices_def sm_entry_def)
  next
    case (sm_add sm ord c srv p sm' calls)
    from sm_add.IH AddService_entry [OF sm_add.hyps(2)] show ?case
      by (auto split: option.splits if_splits)
  next
    case (sm_upsert sm ord c cs p sm' calls)
    have "sm_services sm' = sm_services sm"
      using sm_upsert.hyps(2) [THEN arg_cong [of _ _ fst]]
      by (auto simp: UpsertCompressedService_def Let_def dest!: arg_cong [of _ _ sm_services])
    with sm_upsert.IH show ?case by (simp add: sm_entry_def)
  next
    case (sm_delete sm ord c srv p sm' calls)
    show ?case
    proof (cases "sm_entry sm c (srv_preimage S srv)")
      case None
      with sm_delete.hyps(2) have "sm' = sm"
        by (auto simp: DeleteService_def sm_entry_def Let_def split: option.splits)
      with sm_delete.IH show ?thesis by simp
    next
      case (Some e)
      then obtain m where m: "map_of (sm_services sm) c = Some m" "map_of m (srv_preimage S srv) = Some e"
        by (auto simp: sm_entry_def split: option.splits)
      have "se_defaultList e = None" using sm_delete.IH Some by blast
      with m sm_delete.hyps(2) [THEN arg_cong [of _ _ fst]]
      have "sm_services sm' = AList.update c (AList.delete (srv_preimage S srv) m) (sm_services sm)"
        by (auto simp: DeleteService_def Let_def dest!: arg_cong [of _ _ sm_services])
      from sm_entry_delete [OF this m(1)] sm_delete.IH show ?thesis by (auto split: if_splits)
    qed
  next
    case (sm_delete_compressed sm ord c cs sm' calls)
    have "sm_services sm' = sm_services sm"
      using sm_delete_compressed.hyps(2) [THEN arg_cong [of _ _ fst]]
      by (auto simp: DeleteCompressedService_def Let_def dest!: arg_cong [of _ _ sm_services] split: option.splits if_splits)
    with sm_delete_compressed.IH show ?case by (simp add: sm_entry_def)
  next
    case (sm_delete_client sm c)
    then show ?case
      by (auto simp: DeleteClientService_def sm_entry_def alist_simps split: option.splits if_splits)
  next
    case (sm_track sm t sm' calls)
    then have "sm_services sm' = sm_services sm" by (auto simp: TrackServices_def split: option.splits)
    with sm_track.IH show ?case by (simp add: sm_entry_def)
  qed
  with assms(2) show ?thesis by blast
qed

text \<open>The order in which a map is visited: some arrangement of its keys.\<close>

definition map_order :: "(bytes list \<Rightarrow> bytes list) \<Rightarrow> bool" where
  "map_order ord = (\<forall>ks. set (ord ks) = set ks)"

lemma range_map_set:
  assumes "map_order ord"
  shows "set (range_map ord m) = ran (map_of m)"
proof -
  have "x \<in> set (List.map_filter f xs) \<longleftrightarrow> (\<exists>k \<in> set xs. f k = Some x)" for f and x :: 'a and xs :: "bytes list"
    by (simp add: List.map_filter_def) force
  then have "x \<in> set (range_map ord m) \<longleftrightarrow> (\<exists>k \<in> set (map fst m). map_of m k = Some x)" for x
    using assms by (simp only: range_map_def map_order_def)
  moreover have "k \<in> set (map fst m)" if "map_of m k = Some x" for k x
    using map_of_SomeD [OF that] by (metis fst_conv image_eqI list.set_map)
  ultimately show ?thesis unfolding ran_def by blast
qed

lemma sm_get_only_default:
  assumes "sm_reachable S sm" "map_order ord"
    and "\<And>pre e. sm_entry sm c pre = Some e \<Longrightarrow> srv_ForMe S (se_Service e) contents h \<Longrightarrow>
      srv_Tag (se_Service e) = sih_Default S"
    and "\<And>m x. map_of (sm_compressedServices sm) c = Some m \<Longrightarrow> x \<in> ran (map_of m) \<Longrightarrow>
      \<not> fst (snd (cs_ForMe S (ce_CompressedService x) c contents h))"
  shows "sm_get S ord sm c h contents = ([], [], [], False)"
proof -
  define plain where "plain = (case map_of (sm_services sm) c of None \<Rightarrow> [] | Some m \<Rightarrow> range_map ord m)"
  define compr where "compr = (case map_of (sm_compressedServices sm) c of None \<Rightarrow> [] | Some m \<Rightarrow> range_map ord m)"
  have p: "\<exists>pre. sm_entry sm c pre = Some e" if "e \<in> set plain" for e
    using that by (cases "map_of (sm_services sm) c")
      (simp_all add: plain_def range_map_set [OF assms(2)] ran_def sm_entry_def)
  have "se_defaultList e = None \<and> srv_Tag (se_Service e) = sih_Default S"
    if "List.find (\<lambda>s. srv_ForMe S (se_Service s) contents h) plain = Some e" for e
  proof -
    from that have e: "e \<in> set plain" "srv_ForMe S (se_Service e) contents h"
      by (auto simp: find_Some_iff in_set_conv_nth)
    with p obtain pre where "sm_entry sm c pre = Some e" by blast
    with e(2) reachable_no_defaults [OF assms(1)] assms(3) show ?thesis by blast
  qed
  moreover have "List.find (\<lambda>x. fst (snd (cs_ForMe S (ce_CompressedService x) c contents h))) compr = None"
    using assms(4) by (cases "map_of (sm_compressedServices sm) c")
      (simp_all add: find_None_iff compr_def range_map_set [OF assms(2)])
  ultimately show ?thesis
    unfolding sm_get_def Let_def plain_def [symmetric] compr_def [symmetric]
    by (auto split: option.splits)
qed

text \<open>A default service never answers. In every state of the services of a client, a message that only the
  default service of the client matches finds no processor, also right after a processor has been registered for
  that service: \<open>AddService\<close> drops the list of default processors it builds, and \<open>get\<close> looks only there.
  The documentation of \<open>AddService\<close> says that there can be multiple default services.\<close>

theorem default_service_never_answers:
  assumes "sm_reachable S sm" "map_order ord"
    and "\<And>pre e. sm_entry sm c pre = Some e \<Longrightarrow> srv_ForMe S (se_Service e) contents h \<Longrightarrow>
      srv_Tag (se_Service e) = sih_Default S"
    and "\<And>m x. map_of (sm_compressedServices sm) c = Some m \<Longrightarrow> x \<in> ran (map_of m) \<Longrightarrow>
      \<not> fst (snd (cs_ForMe S (ce_CompressedService x) c contents h))"
    and "AddService S ord' sm c (GetDefaultService S c) (Some p) = Inr (sm', calls)"
  shows "sm_get S ord sm c h contents = ([], [], [], False) \<and>
    sm_get S ord sm' c h contents = ([], [], [], False)"
proof (rule conjI)
  show "sm_get S ord sm c h contents = ([], [], [], False)"
    by (rule sm_get_only_default [OF assms(1-4)])
  have "sm_reachable S sm'" using assms(1,5) by (rule sm_add)
  moreover have "srv_Tag (se_Service e) = sih_Default S"
    if "sm_entry sm' c pre = Some e" "srv_ForMe S (se_Service e) contents h" for pre e
    using AddService_entry [OF assms(5), of c pre] that assms(3)
    by (auto simp: GetDefaultService_def split: if_splits option.splits)
  moreover have "sm_compressedServices sm' = sm_compressedServices sm"
    using assms(5) unfolding AddService_def Let_def
    by (auto split: if_splits option.splits dest!: arg_cong [of _ _ fst] arg_cong [of _ _ sm_compressedServices])
  ultimately show "sm_get S ord sm' c h contents = ([], [], [], False)"
    using sm_get_only_default [OF _ assms(2), of S sm' c contents h] assms(4) by simp
qed

definition sih_example :: sih_ops where
  "sih_example =
     \<lparr>sih_Default = ''default'', sih_MakePreimage = (\<lambda>ident tag. ident @ map of_char tag), sih_Hash = (\<lambda>p c. p),
      sih_HashFromMessageHash = (\<lambda>p c. p), sih_ForMe = (\<lambda>p c h. p = h), sih_ForMeFromMessageHash = (\<lambda>p c h. p = h),
      sih_GetMessageHash = (\<lambda>c. c), sih_EvaluateCompressedSIH = (\<lambda>_ _ _ _ _. ([], [], False)),
      sih_MakeCompressedSIH = (\<lambda>_ _ _ _ _. None)\<rparr>"

theorem default_service_never_answers_witness:
  "\<exists>sm' :: (nat, unit) ServicesManager. \<exists>calls.
     AddService sih_example id NewServices [7] (GetDefaultService sih_example [7]) (Some 5) = Inr (sm', calls) \<and>
     srv_ForMe sih_example (GetDefaultService sih_example [7]) [1, 2] (7 # map of_char ''default'') \<and>
     sm_get sih_example id sm' [7] (7 # map of_char ''default'') [1, 2] = ([], [], [], False)"
proof -
  obtain sm' :: "(nat, unit) ServicesManager" and calls where
    a: "AddService sih_example id NewServices [7] (GetDefaultService sih_example [7]) (Some 5) = Inr (sm', calls)"
    by (simp add: AddService_def NewServices_def sih_example_def GetDefaultService_def Let_def triggerServiceTracking_def)
  have "sm_get sih_example id sm' [7] (7 # map of_char ''default'') [1, 2] = ([], [], [], False)"
    by (rule default_service_never_answers [OF sm_start _ _ _ a, THEN conjunct2])
      (simp_all add: map_order_def NewServices_def sm_entry_def)
  with a show ?thesis
    by (auto simp: srv_ForMe_def srv_preimage_def GetDefaultService_def sih_example_def)
qed

section \<open>Messages in progress are kept\<close>

text \<open>The buffer is the one that is stored, and the stored count of a message exceeds the number \<open>n\<close> of restarts by at
  most one, and not at all while the message waits.\<close>

definition counted :: "('h, 'w) KV_ops \<Rightarrow> (bytes \<Rightarrow> bytes) \<Rightarrow> nat \<Rightarrow> 'w \<Rightarrow> 'h MessageBuffer \<Rightarrow> bool" where
  "counted K b n w mb =
     (mb_wf mb \<and> mb_key mb = inProcessKey \<and> mb_stored K w mb \<and>
      (\<forall>h \<in> mb_all mb. \<exists>m. mcm_LoadMessage K (mb_kv mb) w (MakeStoredMessageKey (mb_key mb) h) = Inr m \<and>
        mcm_HashMessage b m = h \<and> unat (mcm_Count m) \<le> Suc n \<and> (h \<in> set (mb_messages mb) \<longrightarrow> unat (mcm_Count m) \<le> n)))"

lemma countedD:
  assumes "counted K b n w mb" "h \<in> mb_all mb"
  obtains m where "mcm_LoadMessage K (mb_kv mb) w (MakeStoredMessageKey (mb_key mb) h) = Inr m"
    "mcm_HashMessage b m = h" "unat (mcm_Count m) \<le> Suc n" "h \<in> set (mb_messages mb) \<Longrightarrow> unat (mcm_Count m) \<le> n"
  using assms unfolding counted_def by blast

text \<open>All messages but that of hash \<open>x\<close> are where they were, in memory and in storage.\<close>

definition others_kept ::
  "('h, 'w) KV_ops \<Rightarrow> MessageHash \<Rightarrow> 'w \<Rightarrow> 'h MessageBuffer \<Rightarrow> 'w \<Rightarrow> 'h MessageBuffer \<Rightarrow> bool" where
  "others_kept K x w mb w' mb' =
     (mb_kv mb' = mb_kv mb \<and> mb_key mb' = mb_key mb \<and>
      set (mb_messages mb') - {x} = set (mb_messages mb) - {x} \<and>
      set (mb_processingMessages mb') - {x} = set (mb_processingMessages mb) - {x} \<and>
      (\<forall>y. y \<noteq> x \<longrightarrow> mcm_LoadMessage K (mb_kv mb) w' (MakeStoredMessageKey (mb_key mb) y) =
        mcm_LoadMessage K (mb_kv mb) w (MakeStoredMessageKey (mb_key mb) y)))"

lemma others_kept_trans:
  "others_kept K x w1 mb1 w2 mb2 \<Longrightarrow> others_kept K x w2 mb2 w3 mb3 \<Longrightarrow> others_kept K x w1 mb1 w3 mb3"
  by (simp add: others_kept_def)

text \<open>The copy of a message whose count and time \<open>Add\<close> answers with: the stored one, if there is one.\<close>

definition known_message ::
  "('h, 'w) KV_ops \<Rightarrow> (bytes \<Rightarrow> bytes) \<Rightarrow> 'w \<Rightarrow> 'h MessageBuffer \<Rightarrow> meteredCmixMessage \<Rightarrow> meteredCmixMessage" where
  "known_message K b w mb m =
     (if mcm_HashMessage b m \<in> mb_all mb
      then (case mcm_LoadMessage K (mb_kv mb) w (MakeStoredMessageKey (mb_key mb) (mcm_HashMessage b m)) of
              Inl _ \<Rightarrow> m | Inr x \<Rightarrow> x)
      else m)"

context versioned_kv
begin

text \<open>Storing one message under its hash, then the list of the buffer.\<close>

lemma stored_others:
  assumes "mb_wf mb'" "mb_kv mb' = mb_kv mb" "mb_key mb' = mb_key mb"
    and "mcm_SaveMessage K (mb_kv mb) w m (MakeStoredMessageKey (mb_key mb) (mcm_HashMessage b m)) = (None, w1)"
    and "mb_save K w1 mb' = (None, w') \<or> w' = w1"
  shows "mcm_LoadMessage K (mb_kv mb) w' (MakeStoredMessageKey (mb_key mb) h) =
    (if h = mcm_HashMessage b m then Inr m else mcm_LoadMessage K (mb_kv mb) w (MakeStoredMessageKey (mb_key mb) h))"
proof -
  note mh = metered_handler [of b]
  have "mcm_LoadMessage K (mb_kv mb) w' (MakeStoredMessageKey (mb_key mb) h) =
      mcm_LoadMessage K (mb_kv mb) w1 (MakeStoredMessageKey (mb_key mb) h)"
    using assms(5) message_handler.save_stored(2) [OF mh, of w1 mb' w' h] assms(1-3) by auto
  then show ?thesis
    using message_handler.load_save [OF mh, of "mb_kv mb" w m _ w1] assms(4)
      message_handler.load_save_other [OF mh, of "mb_kv mb" w m _ w1 "MakeStoredMessageKey (mb_key mb) h"] by auto
qed

lemma counted_store:
  assumes "counted K b n w mb" "mb_wf mb'" "mb_kv mb' = mb_kv mb" "mb_key mb' = mb_key mb"
    and "mb_all mb' \<subseteq> insert (mcm_HashMessage b m) (mb_all mb)"
    and "set (mb_messages mb') \<subseteq> insert (mcm_HashMessage b m) (set (mb_messages mb))"
    and "mcm_SaveMessage K (mb_kv mb) w m (MakeStoredMessageKey (mb_key mb) (mcm_HashMessage b m)) = (None, w1)"
    and "mb_save K w1 mb' = (None, w') \<or> w' = w1 \<and> mb_all mb' = mb_all mb"
    and "unat (mcm_Count m) \<le> Suc n" "mcm_HashMessage b m \<in> set (mb_messages mb') \<Longrightarrow> unat (mcm_Count m) \<le> n"
  shows "counted K b n w' mb'"
proof -
  have "mb_save K w1 mb' = (None, w') \<or> w' = w1" using assms(8) by blast
  note l = stored_others [OF assms(2-4,7) this]
  have "KV_Get K (mb_kv mb) w1 (mb_key mb) CurrentMessageBufferVersion = KV_Get K (mb_kv mb) w (mb_key mb) CurrentMessageBufferVersion"
    using message_handler.get_save_other [OF metered_handler, of b "mb_kv mb" w m _ w1 "mb_key mb"] assms(7) stored_key_not_buffer
    by (metis metered_handler_simps(1))
  then have "mb_stored K w' mb'"
    using assms(1,3,4,8) message_handler.save_stored(1) [OF metered_handler _ assms(2), of w1 w']
    by (auto simp: counted_def mb_stored_def)
  moreover have "\<exists>x. mcm_LoadMessage K (mb_kv mb') w' (MakeStoredMessageKey (mb_key mb') h) = Inr x \<and>
        mcm_HashMessage b x = h \<and> unat (mcm_Count x) \<le> Suc n \<and> (h \<in> set (mb_messages mb') \<longrightarrow> unat (mcm_Count x) \<le> n)"
    if h: "h \<in> mb_all mb'" for h
  proof (cases "h = mcm_HashMessage b m")
    case True
    with l [of h] assms(3,4,9,10) show ?thesis by simp
  next
    case False
    with h assms(5) have "h \<in> mb_all mb" by blast
    with assms(1) obtain x where "mcm_LoadMessage K (mb_kv mb) w (MakeStoredMessageKey (mb_key mb) h) = Inr x"
      "mcm_HashMessage b x = h" "unat (mcm_Count x) \<le> Suc n" "h \<in> set (mb_messages mb) \<Longrightarrow> unat (mcm_Count x) \<le> n"
      by (rule countedD) auto
    with l [of h] False assms(3,4,6) show ?thesis by auto
  qed
  ultimately show ?thesis using assms(1,2,4) by (simp add: counted_def)
qed

lemma counted_Add:
  assumes "counted K b n w mb" "mcm_Count m = 0" "mcmb_Add b K w mb m = Inr ((c, ts), mb', w')"
  shows "counted K b n w' mb'" "mcm_HashMessage b m \<in> mb_all mb'" "others_kept K (mcm_HashMessage b m) w mb w' mb'"
    "c = mcm_Count (known_message K b w mb m)" "ts = mcm_Timestamp (known_message K b w mb m)" "unat c \<le> Suc n"
proof -
  let ?h = "mcm_HashMessage b m"
  have "counted K b n w' mb' \<and> ?h \<in> mb_all mb' \<and> others_kept K ?h w mb w' mb' \<and> c = mcm_Count (known_message K b w mb m) \<and>
    ts = mcm_Timestamp (known_message K b w mb m) \<and> unat c \<le> Suc n"
  proof (cases "?h \<in> mb_all mb")
    case True
    with assms(1) obtain x where x: "mcm_LoadMessage K (mb_kv mb) w (MakeStoredMessageKey (mb_key mb) ?h) = Inr x"
      "unat (mcm_Count x) \<le> Suc n" by (rule countedD) auto
    with True assms(3) have "mb' = mb" "w' = w" "c = mcm_Count x" "ts = mcm_Timestamp x"
      by (auto simp: mcmb_Add_def mb_Add_def Let_def mb_all_def assert_message_def)
    with x True assms(1) show ?thesis by (simp add: known_message_def others_kept_def)
  next
    case False
    with assms(3) obtain w1 where 1: "mcm_SaveMessage K (mb_kv mb) w m (MakeStoredMessageKey (mb_key mb) ?h) = (None, w1)"
      "mb_save K w1 mb' = (None, w')" "mb' = mb\<lparr>mb_messages := List.insert ?h (mb_messages mb)\<rparr>" "c = mcm_Count m" "ts = mcm_Timestamp m"
      by (auto simp: mcmb_Add_def mb_Add_def mb_all_def Let_def assert_message_def split: option.splits prod.splits)
    then have wf: "mb_wf mb'"
      using assms(1) False message_handler.hash_length [OF metered_handler, of b m] by (auto simp: counted_def mb_all_def mb_wf_def)
    have "others_kept K ?h w mb w' mb'"
      using stored_others [OF wf _ _ 1(1) disjI1 [OF 1(2)]] 1(3) by (auto simp: others_kept_def)
    with counted_store [OF assms(1) wf _ _ _ _ 1(1) disjI1 [OF 1(2)]] 1 assms(2) False show ?thesis
      by (auto simp: mb_all_def known_message_def)
  qed
  then show "counted K b n w' mb'" "?h \<in> mb_all mb'" "others_kept K ?h w mb w' mb'" "c = mcm_Count (known_message K b w mb m)"
    "ts = mcm_Timestamp (known_message K b w mb m)" "unat c \<le> Suc n" by blast+
qed

lemma counted_Failed:
  assumes "counted K b n w mb" "mcm_Count m = 0" "mcmb_Failed b K w mb m = Inr (mb', w')"
  shows "counted K b n w' mb'" "mcm_HashMessage b m \<in> set (mb_messages mb')" "others_kept K (mcm_HashMessage b m) w mb w' mb'"
    "mcm_HashMessage b m \<notin> set (mb_processingMessages mb')"
proof -
  let ?h = "mcm_HashMessage b m"
  from assms(3) obtain w1 where 1: "mcm_SaveMessage K (mb_kv mb) w m (MakeStoredMessageKey (mb_key mb) ?h) = (None, w1)"
    "mb_save K w1 mb' = (None, w')"
    "mb' = mb\<lparr>mb_processingMessages := removeAll ?h (mb_processingMessages mb),
              mb_messages := List.insert ?h (mb_messages mb)\<rparr>"
    by (auto simp: mcmb_Failed_def mb_Failed_def Let_def split: option.splits prod.splits)
  then have wf: "mb_wf mb'"
    using assms(1) message_handler.hash_length [OF metered_handler, of b m]
    by (auto simp: counted_def mb_all_def mb_wf_def distinct_removeAll)
  from counted_store [OF assms(1) wf _ _ _ _ 1(1) disjI1 [OF 1(2)]] 1 assms(2)
  show "counted K b n w' mb'" "?h \<in> set (mb_messages mb')" "?h \<notin> set (mb_processingMessages mb')" by (auto simp: mb_all_def)
  show "others_kept K ?h w mb w' mb'"
    using stored_others [OF wf _ _ 1(1) disjI1 [OF 1(2)]] 1(3) by (auto simp: others_kept_def)
qed

lemma counted_Remove:
  assumes "counted K b n w mb" "mcmb_Remove b K w mb m = Inr (mb', w')" "deletes_succeed K"
  shows "counted K b n w' mb'" "mcm_HashMessage b m \<notin> mb_all mb'" "others_kept K (mcm_HashMessage b m) w mb w' mb'"
proof -
  let ?h = "mcm_HashMessage b m"
  obtain w1 where d: "mcm_DeleteMessage K (mb_kv mb) w (MakeStoredMessageKey (mb_key mb) ?h) = (None, w1)"
    using assms(3) unfolding deletes_succeed_def mcm_DeleteMessage_def by (metis prod.collapse)
  with assms(2) have 1: "mb_save K w1 mb' = (None, w')"
    "mb' = mb\<lparr>mb_processingMessages := removeAll ?h (mb_processingMessages mb),
              mb_messages := removeAll ?h (mb_messages mb)\<rparr>"
    by (auto simp: mcmb_Remove_def mb_Succeeded_def Let_def split: option.splits prod.splits)
  then show n: "?h \<notin> mb_all mb'" by (auto simp: mb_all_def)
  have wf: "mb_wf mb'" using assms(1) 1(2) by (auto simp: counted_def mb_all_def mb_wf_def distinct_removeAll)
  have l: "mcm_LoadMessage K (mb_kv mb) w' (MakeStoredMessageKey (mb_key mb) h) =
      mcm_LoadMessage K (mb_kv mb) w (MakeStoredMessageKey (mb_key mb) h)" if "h \<noteq> ?h" for h
    using message_handler.save_stored(2) [OF metered_handler 1(1) wf, of b h]
      message_handler.load_delete_other [OF metered_handler, of b "mb_kv mb" w _ w1 "MakeStoredMessageKey (mb_key mb) h"] d that
    by (auto simp: 1(2))
  then show "others_kept K ?h w mb w' mb'" by (auto simp: others_kept_def 1(2))
  have "\<exists>x. mcm_LoadMessage K (mb_kv mb') w' (MakeStoredMessageKey (mb_key mb') h) = Inr x \<and>
        mcm_HashMessage b x = h \<and> unat (mcm_Count x) \<le> Suc n \<and> (h \<in> set (mb_messages mb') \<longrightarrow> unat (mcm_Count x) \<le> n)"
    if h: "h \<in> mb_all mb'" for h
  proof -
    have "h \<in> mb_all mb" "h \<noteq> ?h" using h n by (auto simp: 1(2) mb_all_def)
    with countedD [OF assms(1) this(1)] l [OF this(2)] show ?thesis by (auto simp: 1(2))
  qed
  with wf assms(1) message_handler.save_stored(1) [OF metered_handler 1(1) wf] show "counted K b n w' mb'"
    by (auto simp: counted_def 1(2))
qed

lemma counted_Next:
  assumes "counted K b n w mb" "mcmb_Next b K rnd w mb = Inr (r, mb', w')"
  shows "counted K b n w' mb'"
proof (cases "mb_messages mb = []")
  case True
  with assms show ?thesis
    by (auto simp: mcmb_Next_def mb_Next_def mb_next_loop.simps [of _ _ _ mb])
next
  case False
  define h where "h = mb_next rnd (mb_messages mb)"
  have h: "h \<in> set (mb_messages mb)" using False by (simp add: h_def mb_next_in)
  then have "h \<in> mb_all mb" by (simp add: mb_all_def)
  with assms(1) obtain x where x: "mcm_LoadMessage K (mb_kv mb) w (MakeStoredMessageKey (mb_key mb) h) = Inr x"
      "mcm_HashMessage b x = h" "unat (mcm_Count x) \<le> n" using h by (metis countedD)
  let ?x = "x\<lparr>mcm_Count := mcm_Count x + 1\<rparr>"
  have "unat (mcm_Count x + 1) \<le> Suc (unat (mcm_Count x))" by (simp add: unat_word_ariths)
  with x(3) have le: "unat (mcm_Count ?x) \<le> Suc n" by simp
  have hx: "mcm_HashMessage b (x\<lparr>mcm_Count := k\<rparr>) = h" for k using x(2) by (simp add: mcm_HashMessage_def)
  from assms(2) False x(1) have 1: "mcm_SaveMessage K (mb_kv mb) w ?x (MakeStoredMessageKey (mb_key mb) h) = (None, w')"
    "mb' = mb\<lparr>mb_messages := removeAll h (mb_messages mb), mb_processingMessages := List.insert h (mb_processingMessages mb)\<rparr>"
    by (auto simp: mcmb_Next_def mb_Next_def mb_next_loop.simps [of _ _ _ mb] Let_def h_def [symmetric] hx split: prod.splits option.splits)
  have wf: "mb_wf mb'"
    using assms(1) h by (auto simp: counted_def mb_all_def mb_wf_def distinct_removeAll 1(2))
  have "mb_all mb' = mb_all mb" using h by (auto simp: mb_all_def 1(2))
  then show ?thesis
    using counted_store [OF assms(1) wf, of ?x w' w'] 1 le h by (auto simp: hx mb_all_def)
qed

end

text \<open>The states of a handler since its buffer was made: bundles arrive, the messages in progress are checked again,
  bundles are handled, whole or in part, processors are registered and deleted in any way, and the client
  restarts, with the messages that the buffer then holds. The number counts the restarts.\<close>

inductive hd_reachable ::
  "sih_ops \<Rightarrow> fmt_ops \<Rightarrow> (bytes \<Rightarrow> bytes) \<Rightarrow> ('h, 'w) KV_ops \<Rightarrow> nat \<Rightarrow> ('h, 'p, 't) handler \<Rightarrow> 'w \<Rightarrow> bool"
  for S F b K where
  hd_start: "NewHandler K w param kv sid = Inr (h, w') \<Longrightarrow> mb_messages (hd_inProcess h) = [] \<Longrightarrow> hd_reachable S F b K 0 h w'"
| hd_arrive: "hd_reachable S F b K n h w \<Longrightarrow>
    hd_reachable S F b K n (h\<lparr>hd_messageReception := hd_messageReception h @ [bundle]\<rparr>) w"
| hd_register: "hd_reachable S F b K n h w \<Longrightarrow>
    hd_reachable S F b K n (h\<lparr>hd_fingerprints := fm, hd_services := sm, hd_fallthrough := ft\<rparr>) w"
| hd_check: "hd_reachable S F b K n h w \<Longrightarrow> hd_reachable S F b K n (CheckInProgressMessages h) w"
| hd_recheck: "hd_reachable S F b K n h w \<Longrightarrow> recheckInProgress b K rnd w h = Inr (h', w') \<Longrightarrow> hd_reachable S F b K n h' w'"
| hd_handle: "hd_reachable S F b K n h w \<Longrightarrow> handle_next_bundle S F ord b K w h = Inr (calls, h', w') \<Longrightarrow>
    hd_reachable S F b K n h' w'"
| hd_part: "hd_reachable S F b K n h w \<Longrightarrow> handle_messages S F ord b K w h bundle msgs = Inr (calls, h', w') \<Longrightarrow>
    hd_reachable S F b K n h' w'"
| hd_restart: "hd_reachable S F b K n h w \<Longrightarrow> NewHandler K w param (mb_kv (hd_inProcess h)) sid = Inr (h', w') \<Longrightarrow>
    hd_reachable S F b K (Suc n) h' w'"

lemma handleMessageHelper_buffer:
  "handleMessageHelper S F ord (h\<lparr>hd_inProcess := mb\<rparr>) msg bundle =
   (case handleMessageHelper S F ord h msg bundle of (ok, calls, h') \<Rightarrow> (ok, calls, h'\<lparr>hd_inProcess := mb\<rparr>))"
  by (auto simp: handleMessageHelper_def Let_def split: prod.splits option.splits)

lemma handleMessageHelper_keeps:
  assumes "handleMessageHelper S F ord h msg bundle = (ok, calls, h')"
  shows "hd_inProcess h' = hd_inProcess h" "hd_param h' = hd_param h" "ok \<longleftrightarrow> calls \<noteq> []"
  using assms by (auto simp: handleMessageHelper_def Let_def split: prod.splits option.splits if_splits)

lemma buildMsg_Count: "buildMsg F m ri i = Inr x \<Longrightarrow> mcm_Count x = 0"
  by (auto simp: buildMsg_def split: if_splits)

text \<open>Whether a message that nobody takes is given up.\<close>

definition given_up :: "msg_Params \<Rightarrow> int \<Rightarrow> u64 \<Rightarrow> int \<Rightarrow> bool" where
  "given_up p now count ts = (count = MaxChecksInProcessMessage p \<and> now - ts > InProcessMessageWait p)"

context versioned_kv
begin

lemma handleMessage_counted:
  assumes "counted K b n w (hd_inProcess h)" "deletes_succeed K"
    and "handleMessage S F ord b K w h count ts msg bundle = Inr (calls, h', w')"
    and "buildMsg F msg (bd_RoundInfo bundle) (bd_Identity bundle) = Inr m"
  shows "counted K b n w' (hd_inProcess h')" "hd_param h' = hd_param h"
    "others_kept K (mcm_HashMessage b m) w (hd_inProcess h) w' (hd_inProcess h')"
    "fst (handleMessageHelper S F ord h msg bundle) \<longleftrightarrow> calls \<noteq> []"
    "if calls \<noteq> [] \<or> given_up (hd_param h) (KV_Now K w) count ts then mcm_HashMessage b m \<notin> mb_all (hd_inProcess h')
      else mcm_HashMessage b m \<in> set (mb_messages (hd_inProcess h'))"
proof -
  obtain ok cs h1 where hh: "handleMessageHelper S F ord h msg bundle = (ok, cs, h1)" by (metis prod_cases3)
  note hk = handleMessageHelper_keeps [OF hh]
  obtain mb where r: "(if ok then mcmb_Remove b K w (hd_inProcess h) m
       else if given_up (hd_param h) (KV_Now K w) count ts
       then mcmb_Remove b K w (hd_inProcess h) m else mcmb_Failed b K w (hd_inProcess h) m) = Inr (mb, w')"
    and h': "h' = h1\<lparr>hd_inProcess := mb\<rparr>" "calls = cs"
    using assms(3) unfolding handleMessage_def Let_def hh prod.case hk(1,2) given_up_def [symmetric] assms(4)
    by (auto simp: res_bind_Inr_iff)
  note c = buildMsg_Count [OF assms(4)]
  show "hd_param h' = hd_param h" by (simp add: h' hk)
  show ok: "fst (handleMessageHelper S F ord h msg bundle) \<longleftrightarrow> calls \<noteq> []" using hk(3) by (simp add: hh h')
  consider "ok \<or> given_up (hd_param h) (KV_Now K w) count ts" "mcmb_Remove b K w (hd_inProcess h) m = Inr (mb, w')"
    | "\<not> (ok \<or> given_up (hd_param h) (KV_Now K w) count ts)" "mcmb_Failed b K w (hd_inProcess h) m = Inr (mb, w')"
    using r by (auto split: if_splits)
  then have "counted K b n w' mb \<and> others_kept K (mcm_HashMessage b m) w (hd_inProcess h) w' mb \<and>
    (if ok \<or> given_up (hd_param h) (KV_Now K w) count ts then mcm_HashMessage b m \<notin> mb_all mb else mcm_HashMessage b m \<in> set (mb_messages mb))"
  proof cases
    case 1
    with counted_Remove [OF assms(1) 1(2) assms(2)] show ?thesis by simp
  next
    case 2
    with counted_Failed [OF assms(1) c 2(2)] show ?thesis by simp
  qed
  then show "counted K b n w' (hd_inProcess h')" "others_kept K (mcm_HashMessage b m) w (hd_inProcess h) w' (hd_inProcess h')"
    "if calls \<noteq> [] \<or> given_up (hd_param h) (KV_Now K w) count ts then mcm_HashMessage b m \<notin> mb_all (hd_inProcess h')
      else mcm_HashMessage b m \<in> set (mb_messages (hd_inProcess h'))"
    using ok by (simp_all add: h' hh)
qed

lemma handle_messages_counted:
  assumes "counted K b n w (hd_inProcess h)" "deletes_succeed K"
    and "handle_messages S F ord b K w h bundle msgs = Inr (calls, h', w')"
  shows "counted K b n w' (hd_inProcess h')"
  using assms(1,3)
proof (induction msgs arbitrary: w h calls)
  case (Cons msg msgs)
  from Cons.prems(2) obtain m count ts mb w1 cs h2 w2 cs' where
    1: "buildMsg F msg (bd_RoundInfo bundle) (bd_Identity bundle) = Inr m"
    and 2: "mcmb_Add b K w (hd_inProcess h) m = Inr ((count, ts), mb, w1)"
    and 3: "handleMessage S F ord b K w1 (h\<lparr>hd_inProcess := mb\<rparr>) count ts msg bundle = Inr (cs, h2, w2)"
    and 4: "handle_messages S F ord b K w2 h2 bundle msgs = Inr (cs', h', w')"
    by (fastforce simp: res_bind_Inr_iff)
  have "counted K b n w1 (hd_inProcess (h\<lparr>hd_inProcess := mb\<rparr>))"
    using counted_Add(1) [OF Cons.prems(1) buildMsg_Count [OF 1] 2] by simp
  from handleMessage_counted(1) [OF this assms(2) 3 1] Cons.IH [OF _ 4] show ?case by simp
qed simp

lemma recheck_counted:
  "counted K b n w (hd_inProcess h) \<Longrightarrow> recheckInProgress b K rnd w h = Inr (h', w') \<Longrightarrow> counted K b n w' (hd_inProcess h')"
proof (induction "length (mb_messages (hd_inProcess h))" arbitrary: w h rule: less_induct)
  case less
  show ?case
  proof (cases "mcmb_Next b K rnd w (hd_inProcess h)")
    case (Inl f)
    with less.prems(2) show ?thesis by (simp add: recheckInProgress.simps [of b K rnd w h])
  next
    case (Inr q)
    obtain r mb w1 where q: "q = (r, mb, w1)" by (metis prod_cases3)
    note n = counted_Next [OF less.prems(1) Inr [unfolded q]]
    show ?thesis
    proof (cases r)
      case None
      with less.prems(2) Inr q n show ?thesis by (auto simp: recheckInProgress.simps [of b K rnd w h])
    next
      case (Some m)
      define bd where "bd = \<lparr>bd_RoundInfo = mcm_Ri m, bd_Messages = [mcm_M m], bd_Identity = mcm_Identity m\<rparr>"
      define h1 where "h1 = (if length (hd_messageReception h) < MessageReceptionBuffLen (hd_param h)
         then h\<lparr>hd_inProcess := mb, hd_messageReception := hd_messageReception h @ [bd]\<rparr> else h\<lparr>hd_inProcess := mb\<rparr>)"
      have h1: "hd_inProcess h1 = mb" "recheckInProgress b K rnd w1 h1 = Inr (h', w')"
        using less.prems(2) Inr q Some
        by (auto simp: recheckInProgress.simps [of b K rnd w h] Let_def h1_def bd_def split: if_splits)
      show ?thesis
        using less.hyps [OF _ _ h1(2)] mcmb_Next_shrinks [OF Inr [unfolded q Some]] n by (simp add: h1(1))
    qed
  qed
qed

lemma new_handler_empty:
  assumes "NewHandler K w param kv sid = Inr (h, w')" "mb_messages (hd_inProcess h) = []"
  shows "counted K b 0 w' (hd_inProcess h)"
proof (cases "LoadMessageBuffer K w kv inProcessKey")
  case (Pair e mb)
  show ?thesis
  proof (cases e)
    case None
    with Pair assms have h: "hd_inProcess h = mb" "w' = w"
      by (auto simp: NewHandler_def NewOrLoadMeteredCmixMessageBuffer_def split: prod.splits)
    obtain obj l where "KV_Get K kv w inProcessKey CurrentMessageBufferVersion = Inr obj" "json_hashes (obj_Data obj) = Some l"
      "mb = \<lparr>mb_messages = fold List.insert l [], mb_processingMessages = [], mb_kv = kv, mb_key = inProcessKey\<rparr>"
      using Pair None by (auto simp: LoadMessageBuffer_def mb_load_def split: sum.splits option.splits)
    moreover from this have "l = []" using set_fold_insert [of l "[]"] assms(2) h(1) by (metis MessageBuffer.select_convs(1) set_empty sup_bot_left)
    ultimately show ?thesis using h by (simp add: counted_def mb_wf_def mb_all_def mb_stored_def)
  next
    case (Some err)
    with Pair assms have "NewMessageBuffer K w kv inProcessKey = (hd_inProcess h, None, w')"
      by (auto simp: NewHandler_def NewOrLoadMeteredCmixMessageBuffer_def NewMeteredCmixMessageBuffer_def split: prod.splits option.splits)
    then have h: "hd_inProcess h = \<lparr>mb_messages = [], mb_processingMessages = [], mb_kv = kv, mb_key = inProcessKey\<rparr>"
      "mb_save K w (hd_inProcess h) = (None, w')" by (auto simp: NewMessageBuffer_def Let_def)
    have wf: "mb_wf (hd_inProcess h)" by (simp add: h(1) mb_wf_def mb_all_def)
    have "mb_all (hd_inProcess h) = {}" "mb_key (hd_inProcess h) = inProcessKey" by (simp_all add: h(1) mb_all_def)
    with message_handler.save_stored(1) [OF metered_handler h(2) wf] wf show ?thesis by (simp add: counted_def)
  qed
qed

text \<open>A restart finds all the messages of both maps, waiting.\<close>

lemma restart_counted:
  assumes "counted K b n w mb"
  shows "\<exists>mb'. NewOrLoadMeteredCmixMessageBuffer K w (mb_kv mb) inProcessKey = (mb', None, w) \<and>
    counted K b (Suc n) w mb' \<and> set (mb_messages mb') = mb_all mb"
proof -
  have "mb_stored K w mb" and key: "mb_key mb = inProcessKey" using assms by (simp_all add: counted_def)
  then obtain mb' where mb': "LoadMessageBuffer K w (mb_kv mb) inProcessKey = (None, mb')" "set (mb_messages mb') = mb_all mb"
    "distinct (mb_messages mb')" "mb_processingMessages mb' = []" "mb_kv mb' = mb_kv mb" "mb_key mb' = inProcessKey"
    by (metis mb_load_stored)
  then have all: "mb_all mb' = mb_all mb" by (simp add: mb_all_def)
  have "counted K b (Suc n) w mb'"
    unfolding counted_def
  proof (intro conjI ballI)
    show "mb_wf mb'" using assms mb' all by (simp add: counted_def mb_wf_def)
    show "mb_stored K w mb'" using assms mb' all key by (simp add: counted_def mb_stored_def)
    fix h assume "h \<in> mb_all mb'"
    then have "h \<in> mb_all mb" by (simp add: all)
    with countedD [OF assms this] mb'(5,6) key show "\<exists>m. mcm_LoadMessage K (mb_kv mb') w (MakeStoredMessageKey (mb_key mb') h) = Inr m \<and>
        mcm_HashMessage b m = h \<and> unat (mcm_Count m) \<le> Suc (Suc n) \<and> (h \<in> set (mb_messages mb') \<longrightarrow> unat (mcm_Count m) \<le> Suc n)"
      by (metis le_SucI)
  qed (simp add: mb')
  with mb' show ?thesis by (simp add: NewOrLoadMeteredCmixMessageBuffer_def)
qed

lemma hd_reachable_counted:
  assumes "hd_reachable S F b K n h w" "deletes_succeed K"
  shows "counted K b n w (hd_inProcess h)"
  using assms(1)
proof (induction rule: hd_reachable.induct)
  case (hd_start w param kv sid h w')
  then show ?case by (rule new_handler_empty)
next
  case (hd_check n h w)
  then show ?case by (simp add: CheckInProgressMessages_def)
next
  case (hd_recheck n h w rnd h' w')
  then show ?case using recheck_counted by blast
next
  case (hd_handle n h w ord calls h' w')
  show ?case
  proof (cases "hd_messageReception h")
    case Nil
    with hd_handle show ?thesis by (simp add: handle_next_bundle_def)
  next
    case (Cons bd bds)
    with hd_handle show ?thesis
      using handle_messages_counted [OF _ assms(2), of b n w "h\<lparr>hd_messageReception := bds\<rparr>"]
      by (simp add: handle_next_bundle_def)
  qed
next
  case (hd_part n h w ord bd msgs calls h' w')
  then show ?case using handle_messages_counted [OF _ assms(2)] by blast
next
  case (hd_restart n h w param sid h' w')
  with restart_counted [OF hd_restart.IH] show ?case by (auto simp: NewHandler_def)
qed simp_all

end

text \<open>C15: A message stays in the buffer of messages in progress until a processor takes it. In every state reached since
  the buffer was made, over any number \<open>n\<close> of restarts, handling a message of a bundle removes it from the buffer when a
  processor is found (its fingerprint, a service or a fallthrough). Otherwise no processor is called and the message
  waits in the buffer, unless it is given up: its stored count equals \<open>MaxChecksInProcessMessage\<close> and it is older
  than \<open>InProcessMessageWait\<close>. That count is at most \<open>n + 1\<close>, since a failed message is stored with a count of zero,
  so without a restart a limit of two or more is not reached, however often the message is checked. All other
  messages of the buffer stay where they were, in memory and in storage, and a restart at this moment finds exactly
  the messages of the buffer, all waiting.\<close>

theorem message_kept_until_processed:
  fixes h :: "(kv, 'p, 't) handler"
  assumes "ekv_store E" "K = versioned_ops E" "deletes_succeed K" "hd_reachable S F b K n h w"
    and "handle_messages S F ord b K w h bundle [msg] = Inr (calls, h', w')"
    and "buildMsg F msg (bd_RoundInfo bundle) (bd_Identity bundle) = Inr m"
  shows "\<exists>x mb w1. mcmb_Add b K w (hd_inProcess h) m = Inr ((mcm_Count x, mcm_Timestamp x), mb, w1) \<and>
    x = known_message K b w (hd_inProcess h) m \<and> unat (mcm_Count x) \<le> n + 1 \<and>
    (fst (handleMessageHelper S F ord h msg bundle) \<longleftrightarrow> calls \<noteq> []) \<and>
    (if calls \<noteq> [] \<or> given_up (hd_param h) (KV_Now K w1) (mcm_Count x) (mcm_Timestamp x)
     then mcm_HashMessage b m \<notin> mb_all (hd_inProcess h')
     else mcm_HashMessage b m \<in> set (mb_messages (hd_inProcess h'))) \<and>
    others_kept K (mcm_HashMessage b m) w (hd_inProcess h) w' (hd_inProcess h') \<and>
    (\<exists>h2 :: (kv, 'p, 't) handler. NewHandler K w' param (mb_kv (hd_inProcess h')) sid = Inr (h2, w') \<and>
       set (mb_messages (hd_inProcess h2)) = mb_all (hd_inProcess h'))"
proof -
  have v: "versioned_kv K" using ekv_store.versioned [OF assms(1)] assms(2) by simp
  note c = versioned_kv.hd_reachable_counted [OF v assms(4,3)]
  from assms(5) obtain count ts mb w1 where
    2: "mcmb_Add b K w (hd_inProcess h) m = Inr ((count, ts), mb, w1)"
    and 3: "handleMessage S F ord b K w1 (h\<lparr>hd_inProcess := mb\<rparr>) count ts msg bundle = Inr (calls, h', w')"
    by (auto simp: assms(6) res_bind_Inr_iff)
  note a = versioned_kv.counted_Add [OF v c buildMsg_Count [OF assms(6)] 2]
  have "counted K b n w1 (hd_inProcess (h\<lparr>hd_inProcess := mb\<rparr>))" using a(1) by simp
  note hm = versioned_kv.handleMessage_counted [OF v this assms(3) 3 assms(6)]
  have ok: "fst (handleMessageHelper S F ord (h\<lparr>hd_inProcess := mb\<rparr>) msg bundle) = fst (handleMessageHelper S F ord h msg bundle)"
    by (simp add: handleMessageHelper_buffer split: prod.splits)
  have "others_kept K (mcm_HashMessage b m) w1 mb w' (hd_inProcess h')" using hm(3) by simp
  note ot = others_kept_trans [OF a(3) this]
  have "\<exists>h2 :: (kv, 'p, 't) handler. NewHandler K w' param (mb_kv (hd_inProcess h')) sid = Inr (h2, w') \<and>
       set (mb_messages (hd_inProcess h2)) = mb_all (hd_inProcess h')"
    using versioned_kv.restart_counted [OF v hm(1)] by (auto simp: NewHandler_def)
  with ot hm(4,5) a(4-6) ok show ?thesis
    by (intro exI [of _ "known_message K b w (hd_inProcess h) m"] exI [of _ mb] exI [of _ w1]) (simp add: 2)
qed

definition fmt_example :: fmt_ops where
  "fmt_example =
     \<lparr>fmt_PrimeByteLen = length, fmt_KeyFP = (\<lambda>m. take 1 m), fmt_SIH = (\<lambda>m. []), fmt_Contents = (\<lambda>m. m),
      fmt_QueuedTime = (\<lambda>_. 0), fmt_Source = (\<lambda>i. i)\<rparr>"

theorem message_kept_until_processed_witness:
  "\<exists>(h :: (kv, nat, unit) handler) w calls h' w' m.
     hd_reachable sih_example fmt_example id mem_KV 0 h w \<and>
     handle_messages sih_example fmt_example id id mem_KV w h \<lparr>bd_RoundInfo = [3], bd_Messages = [[1, 2]], bd_Identity = [4]\<rparr> [[1, 2]]
       = Inr (calls, h', w') \<and>
     buildMsg fmt_example [1, 2] [3] [4] = Inr m \<and> mcm_HashMessage id m \<in> set (mb_messages (hd_inProcess h')) \<and> calls = []"
proof -
  let ?bd = "\<lparr>bd_RoundInfo = [3], bd_Messages = [[1, 2]], bd_Identity = [4]\<rparr>"
  obtain h :: "(kv, nat, unit) handler" and w where
    n: "NewHandler mem_KV Map.empty msg_GetDefaultParams NewKV [9] = Inr (h, w)" "mb_messages (hd_inProcess h) = []"
      "mb_processingMessages (hd_inProcess h) = []" "hd_param h = msg_GetDefaultParams"
      "hd_fingerprints h = newFingerprints [9]" "hd_services h = NewServices" "hd_fallthrough h = newFallthroughManager"
    by (simp add: NewHandler_def NewOrLoadMeteredCmixMessageBuffer_def NewMeteredCmixMessageBuffer_def LoadMessageBuffer_def
        mb_load_def NewMessageBuffer_def mb_save_def mem_KV_simps Let_def)
  have r: "hd_reachable sih_example fmt_example id mem_KV 0 h w" by (rule hd_start [OF n(1,2)])
  obtain m where m: "buildMsg fmt_example [1, 2] [3] [4] = Inr m" "mcm_Count m = 0"
    by (simp add: buildMsg_def fmt_example_def)
  have f: "handleMessageHelper sih_example fmt_example id h1 [1, 2] ?bd = (False, [], h1)"
    if "hd_fingerprints h1 = newFingerprints [9]" "hd_services h1 = NewServices" "hd_fallthrough h1 = newFallthroughManager"
    for h1 :: "(kv, nat, unit) handler"
    using that by (simp add: handleMessageHelper_def fm_pop_def newFingerprints_def sm_get_def NewServices_def
        getFallthrough_def newFallthroughManager_def Let_def)
  have "mcmb_Add id mem_KV w1 mb m = Inr ((mcm_Count m, mcm_Timestamp m), mb\<lparr>mb_messages := [mcm_HashMessage id m]\<rparr>,
      snd (mb_save mem_KV (snd (mcm_SaveMessage mem_KV (mb_kv mb) w1 m (MakeStoredMessageKey (mb_key mb) (mcm_HashMessage id m))))
        (mb\<lparr>mb_messages := [mcm_HashMessage id m]\<rparr>)))"
    if "mb_messages mb = []" "mb_processingMessages mb = []" for w1 mb
    using that by (simp add: mcmb_Add_def mb_Add_def Let_def mcm_SaveMessage_def mb_save_def mem_KV_simps assert_message_def)
  then obtain mb w1 where a: "mcmb_Add id mem_KV w (hd_inProcess h) m = Inr ((0, mcm_Timestamp m), mb, w1)"
    using n(2,3) m(2) by metis
  obtain mb2 w2 where g: "mcmb_Failed id mem_KV w1 mb m = Inr (mb2, w2)"
    by (simp add: mcmb_Failed_def mb_Failed_def Let_def mcm_SaveMessage_def mb_save_def mem_KV_simps)
  have hm: "handle_messages sih_example fmt_example id id mem_KV w h ?bd [[1, 2]] = Inr ([], h\<lparr>hd_inProcess := mb2\<rparr>, w2)"
    using m(1) a g f [of "h\<lparr>hd_inProcess := mb\<rparr>"] n(4-7)
    by (simp add: handleMessage_def msg_GetDefaultParams_def Let_def)
  have k: "known_message mem_KV id w (hd_inProcess h) m = m" using n(2,3) by (simp add: known_message_def mb_all_def)
  have "\<not> given_up (hd_param h) now (mcm_Count m) ts" for now ts by (simp add: given_up_def n(4) m(2) msg_GetDefaultParams_def)
  then have "mcm_HashMessage id m \<in> set (mb_messages (hd_inProcess (h\<lparr>hd_inProcess := mb2\<rparr>)))"
    using message_kept_until_processed [OF mem.ekv_store_axioms refl mem_deletes r hm, of m] m(1) k by auto
  with r hm m(1) show ?thesis by blast
qed

text \<open>The lists that \<open>GetServices\<close> and the first call of a tracker return are only renewed while a tracker is
  registered: services added before the first tracker are missing from both until the next change. Deleting the
  services of a client renews nothing and leaves their number.\<close>

lemma services_list_stale:
  assumes "sm_trackers sm = []" "AddService S ord sm c srv p = Inr (sm', calls)"
  shows "GetServices sm' = GetServices sm" "calls = []"
    "snd (TrackServices sm' (Some t)) = [(t, sl_DeepCopy (sm_sl sm), csl_DeepCopy (sm_csl sm))]"
  using assms by (auto simp: AddService_def Let_def triggerServiceTracking_def GetServices_def TrackServices_def
      split: if_splits option.splits)

lemma DeleteClientService_count: "sm_numServices (DeleteClientService sm c) = sm_numServices sm"
  by (simp add: DeleteClientService_def)

end
