(* ===== verification/Transfer_Manager.thy ===== *)
theory Transfer_Manager
  imports Transfer_Store Message_Handling
begin

text \<open>
  The file transfer manager (\<open>fileTransfer/manager.go\<close>, \<open>send.go\<close>, \<open>processor.go\<close>, \<open>info.go\<close>, \<open>batchBuilder.go\<close>,
  \<open>partTracker.go\<close>) over the stores of \<open>Transfer_Store\<close> and the fingerprints of \<open>Message_Handling\<close>, with the trackers of
  progress callbacks (\<open>callbackTracker\<close>) and of the rounds that parts were sent on (\<open>sentRoundTracker\<close>).

  The threads are the operations they run: \<open>batchBuilderThread\<close> moves parts from the queue into packets,
  \<open>sendingThread\<close> calls \<open>sendCmix\<close> on a packet, and the network calls the round results callback and, for a
  received message, the processor that its fingerprint is registered for. The progress callbacks an
  operation triggers are part of its result. The protocol buffers of the announcement, the floating-point
  arithmetic of the number of fingerprints, and the answers of the network are arguments.
\<close>

section \<open>The announcement\<close>

record 'k TransferInfo =
  ti_FileName :: string
  ti_FileType :: string
  ti_Key :: 'k
  ti_Mac :: bytes
  ti_NumParts :: u16
  ti_Size :: u32
  ti_Retry :: u32
  ti_Preview :: bytes

text \<open>The generated message; a \<open>float32\<close> is its bit pattern.\<close>

record NewFileTransfer =
  nft_FileName :: string
  nft_FileType :: string
  nft_TransferKey :: bytes
  nft_TransferMac :: bytes
  nft_NumParts :: u32
  nft_Size :: u32
  nft_Retry :: u32
  nft_Preview :: bytes

record proto_ops =
  proto_Marshal :: "NewFileTransfer \<Rightarrow> bytes option"
  proto_Unmarshal :: "bytes \<Rightarrow> NewFileTransfer option"

definition ti_Marshal :: "'k ft_crypto \<Rightarrow> proto_ops \<Rightarrow> 'k TransferInfo \<Rightarrow> bytes option" where
  "ti_Marshal C P ti =
     proto_Marshal P
       \<lparr>nft_FileName = ti_FileName ti, nft_FileType = ti_FileType ti, nft_TransferKey = ftc_KeyBytes C (ti_Key ti),
        nft_TransferMac = ti_Mac ti, nft_NumParts = ucast (ti_NumParts ti), nft_Size = ti_Size ti,
        nft_Retry = ti_Retry ti, nft_Preview = ti_Preview ti\<rparr>"

definition UnmarshalTransferInfo :: "'k ft_crypto \<Rightarrow> proto_ops \<Rightarrow> bytes \<Rightarrow> 'k TransferInfo option" where
  "UnmarshalTransferInfo C P data =
     map_option (\<lambda>newFT.
       \<lparr>ti_FileName = nft_FileName newFT, ti_FileType = nft_FileType newFT,
        ti_Key = ftc_UnmarshalTransferKey C (nft_TransferKey newFT), ti_Mac = nft_TransferMac newFT,
        ti_NumParts = ucast (nft_NumParts newFT), ti_Size = nft_Size newFT,
        ti_Retry = nft_Retry newFT, ti_Preview = nft_Preview newFT\<rparr>) (proto_Unmarshal P data)"

section \<open>Partitioning\<close>

text \<open>The loop over \<open>buff.Next(partSize)\<close>, for a positive size; every part is padded to the size. A size of zero
  divides by zero, a negative one makes a slice of negative length.\<close>

fun partition_loop :: "nat \<Rightarrow> nat \<Rightarrow> bytes \<Rightarrow> bytes list" where
  "partition_loop 0 partSize buff = []"
| "partition_loop (Suc fuel) partSize buff =
     (let n = take partSize buff
      in if n = [] then [] else copy_at (replicate partSize 0) 0 n # partition_loop fuel partSize (drop partSize buff))"

definition partitionFile :: "bytes \<Rightarrow> nat \<Rightarrow> fault + bytes list" where
  "partitionFile file_data partSize =
     (if partSize = 0 then Inl DivideByZero else Inr (partition_loop (length file_data + 1) partSize file_data))"

record f32_ops =
  f32_of_int :: "int \<Rightarrow> u32"
  f32_add :: "u32 \<Rightarrow> u32 \<Rightarrow> u32"
  f32_mul :: "u32 \<Rightarrow> u32 \<Rightarrow> u32"
  f32_to_u16 :: "u32 \<Rightarrow> u16"

definition calcNumberOfFingerprints :: "f32_ops \<Rightarrow> int \<Rightarrow> u32 \<Rightarrow> u16" where
  "calcNumberOfFingerprints N numParts retry =
     f32_to_u16 N (f32_mul N (f32_of_int N numParts) (f32_add N (f32_of_int N 1) retry))"

section \<open>The manager\<close>

definition FileNameMaxLen :: nat where "FileNameMaxLen = 48"
definition FileTypeMaxLen :: nat where "FileTypeMaxLen = 8"
definition FileMaxSize :: nat where "FileMaxSize = 250000"
definition PreviewMaxSize :: nat where "PreviewMaxSize = 4000"
definition minPartsSendPerRound :: u64 where "minPartsSendPerRound = 1"
definition maxPartsSendPerRound :: u64 where "maxPartsSendPerRound = 11"

record ('k, 'h) ft_manager =
  mg_sent :: "'h Transfers"
  mg_received :: "'h Transfers"
  mg_sts :: "('k, 'h) SentTransfer heap"
  mg_rts :: "('k, 'h) ReceivedTransfer heap"
  mg_batchQueue :: "(nat \<times> u16) list"
  mg_fps :: "(nat \<times> u16) FingerprintsManager"
  mg_myID :: bytes

datatype ftm_error =
    NewOrLoadSentErr ft_error
  | NewOrLoadReceivedErr ft_error
  | FileNameSizeErr nat
  | FileTypeSizeErr nat
  | FileSizeErr nat
  | PreviewSizeErr nat
  | SendNetworkHealthErr
  | MarshalInfoErr
  | SendNewMsgErr
  | AddSentTransferErr ft_error
  | NoSentTransferErr
  | DeleteIncompleteTransferErr
  | DeleteSentTransferErr ft_error
  | RemoveSentTransferErr kv_error
  | UnmarshalInfoErr
  | AddNewRtErr ft_error
  | NoReceivedTransferErr
  | IncompleteFileErr u16 u16
  | DeleteReceivedTransferErr ft_error
  | RemoveReceivedTransferErr kv_error

text \<open>The triggered progress callbacks: the transfer and whether an error is reported.\<close>

type_synonym progress = "(bytes \<times> bool) list"

definition addFingerprints ::
  "'k ft_crypto \<Rightarrow> ('k, 'h) ft_manager \<Rightarrow> nat \<Rightarrow> fault + ('k, 'h) ft_manager" where
  "addFingerprints C m ref =
     (let rt = mg_rts m ! ref
      in res_bind (rt_GetUnusedCyphers rt) (\<lambda>cs.
           Inr (m\<lparr>mg_fps := fold (\<lambda>c f. snd (AddFingerprint f (Some (mg_myID m))
             (cy_GetFingerprint C (rt_cypherManager rt) c) (ref, c))) cs (mg_fps m)\<rparr>)))"

fun add_all_fingerprints :: "'k ft_crypto \<Rightarrow> ('k, 'h) ft_manager \<Rightarrow> nat list \<Rightarrow> fault + ('k, 'h) ft_manager" where
  "add_all_fingerprints C m [] = Inr m"
| "add_all_fingerprints C m (r # rs) = res_bind (addFingerprints C m r) (\<lambda>m'. add_all_fingerprints C m' rs)"

definition ftm_NewManager ::
  "'k ft_crypto \<Rightarrow> ('h, 'w) KV_ops \<Rightarrow> 'w \<Rightarrow> 'h \<Rightarrow> bytes \<Rightarrow> (nat \<times> u16) FingerprintsManager \<Rightarrow>
   fault + (ftm_error + ('k, 'h) ft_manager)" where
  "ftm_NewManager C K w kv myID fps =
     res_bind (NewOrLoadSent C K w kv) (\<lambda>r.
       case r of
         Inl err \<Rightarrow> Inr (Inl (NewOrLoadSentErr err))
       | Inr (sent, unsentParts, sts) \<Rightarrow>
           res_bind (NewOrLoadReceived C K w kv) (\<lambda>r.
             case r of
               Inl err \<Rightarrow> Inr (Inl (NewOrLoadReceivedErr err))
             | Inr (received, incompleteTransfers, rts) \<Rightarrow>
                 res_bind (add_all_fingerprints C
                   \<lparr>mg_sent = sent, mg_received = received, mg_sts = sts, mg_rts = rts, mg_batchQueue = unsentParts,
                    mg_fps = fps, mg_myID = myID\<rparr> incompleteTransfers) (\<lambda>m. Inr (Inr m))))"

subsection \<open>Sending\<close>

text \<open>The key and the transfer ID are those drawn from the random source; \<open>mac\<close> is the transfer MAC of the file,
  \<open>maxLen\<close> the maximum message length, and \<open>sendNew\<close> tells whether the announcement is sent. The result holds the
  announcement and the transfer's progress callback.\<close>

definition ftm_Send ::
  "'k ft_crypto \<Rightarrow> proto_ops \<Rightarrow> f32_ops \<Rightarrow> (bytes list \<Rightarrow> bytes list) \<Rightarrow> ('h, 'w) KV_ops \<Rightarrow> 'w \<Rightarrow> ('k, 'h) ft_manager \<Rightarrow>
   bool \<Rightarrow> int \<Rightarrow> (bytes \<Rightarrow> 'k \<Rightarrow> bytes) \<Rightarrow> (bytes \<Rightarrow> bool) \<Rightarrow> 'k \<Rightarrow> bytes \<Rightarrow>
   bytes \<Rightarrow> string \<Rightarrow> string \<Rightarrow> bytes \<Rightarrow> u32 \<Rightarrow> bytes \<Rightarrow>
   fault + (ftm_error + bytes) \<times> ('k, 'h) ft_manager \<times> 'w" where
  "ftm_Send C P N ord K w m healthy maxLen createMAC sendNew key tid recipient fileName fileType fileData retry preview =
     (if length fileName > FileNameMaxLen then Inr (Inl (FileNameSizeErr (length fileName)), m, w)
      else if length fileType > FileTypeMaxLen then Inr (Inl (FileTypeSizeErr (length fileType)), m, w)
      else if length fileData > FileMaxSize then Inr (Inl (FileSizeErr (length fileData)), m, w)
      else if length preview > PreviewMaxSize then Inr (Inl (PreviewSizeErr (length preview)), m, w)
      else if \<not> healthy then Inr (Inl SendNetworkHealthErr, m, w)
      else
        let mac = createMAC fileData key
        in res_bind (NewPartMessage maxLen) (\<lambda>partMessage.
           res_bind (partitionFile fileData (pm_GetPartSize partMessage)) (\<lambda>parts.
             let numParts = word_of_nat (length parts); fileSize = word_of_nat (length fileData);
                 info = \<lparr>ti_FileName = fileName, ti_FileType = fileType, ti_Key = key, ti_Mac = mac, ti_NumParts = numParts,
                         ti_Size = fileSize, ti_Retry = retry, ti_Preview = preview\<rparr>
             in case ti_Marshal C P info of
                  None \<Rightarrow> Inr (Inl MarshalInfoErr, m, w)
                | Some transferInfo \<Rightarrow>
                    (if \<not> sendNew transferInfo then Inr (Inl SendNewMsgErr, m, w)
                     else
                       res_bind (sent_AddTransfer C ord K w (mg_sent m) (mg_sts m) recipient key tid fileName fileSize parts
                         (calcNumberOfFingerprints N (int (length parts)) retry)) (\<lambda>(r, s, sts, w1).
                         let m1 = m\<lparr>mg_sent := s, mg_sts := sts\<rparr>
                         in case r of
                              Inl err \<Rightarrow> Inr (Inl (AddSentTransferErr err), m1, w1)
                            | Inr ref \<Rightarrow>
                                res_bind (st_GetUnsentParts (sts ! ref)) (\<lambda>unsent.
                                  Inr (Inr transferInfo, m1\<lparr>mg_batchQueue := mg_batchQueue m @ map (\<lambda>p. (ref, p)) unsent\<rparr>, w1)))))))"

text \<open>The parts of the packet, encrypted: the messages, the parts they are made of, and the callbacks for the parts
  whose transfer has run out of fingerprints.\<close>

fun encrypt_packet ::
  "'k ft_crypto \<Rightarrow> ('h, 'w) KV_ops \<Rightarrow> 'w \<Rightarrow> ('k, 'h) SentTransfer heap \<Rightarrow> int \<Rightarrow> (nat \<times> u16) list \<Rightarrow>
   fault + ((nat \<times> u16) \<times> bytes \<times> ft_msg) list \<times> progress \<times> ('k, 'h) SentTransfer heap \<times> 'w" where
  "encrypt_packet C K w hp maxLen [] = Inr ([], [], hp, w)"
| "encrypt_packet C K w hp maxLen ((ref, partNum) # ps) =
     res_bind (part_GetEncryptedPart C K w (hp ! ref) partNum maxLen) (\<lambda>(r, st, w1).
     res_bind (encrypt_packet C K w1 (hp[ref := st]) maxLen ps) (\<lambda>(msgs, calls, hp2, w2).
       case r of
         Inl err \<Rightarrow> Inr (msgs, (st_tid st, True) # calls, hp2, w2)
       | Inr msg \<Rightarrow> Inr (((ref, partNum), st_recipient st, msg) # msgs, calls, hp2, w2)))"

text \<open>\<open>sendCmix\<close> up to the call of \<open>GetRoundResults\<close>, which it reaches also when \<open>SendMany\<close> fails: the messages, the
  parts that the round results callback is made for, and the callbacks.\<close>

definition sendCmix ::
  "'k ft_crypto \<Rightarrow> ('h, 'w) KV_ops \<Rightarrow> 'w \<Rightarrow> ('k, 'h) ft_manager \<Rightarrow> int \<Rightarrow> bool \<Rightarrow> (nat \<times> u16) list \<Rightarrow>
   fault + (bytes \<times> ft_msg) list \<times> (nat \<times> u16) list \<times> progress \<times> ('k, 'h) ft_manager \<times> 'w" where
  "sendCmix C K w m maxLen sendManyOk packet =
     res_bind (encrypt_packet C K w (mg_sts m) maxLen packet) (\<lambda>(msgs, calls, hp, w1).
       let validParts = map fst msgs; m1 = m\<lparr>mg_sts := hp\<rparr>
       in Inr (map snd msgs, validParts, calls,
               if sendManyOk then m1 else m1\<lparr>mg_batchQueue := mg_batchQueue m1 @ validParts\<rparr>, w1))"

fun mark_parts ::
  "('h, 'w) KV_ops \<Rightarrow> 'w \<Rightarrow> ('k, 'h) SentTransfer heap \<Rightarrow> (nat \<times> u16) list \<Rightarrow>
   fault + ('k, 'h) SentTransfer heap \<times> 'w" where
  "mark_parts K w hp [] = Inr (hp, w)"
| "mark_parts K w hp ((ref, partNum) # ps) =
     res_bind (part_MarkArrived K w (hp ! ref) partNum) (\<lambda>(st, w1). mark_parts K w1 (hp[ref := st]) ps)"

fun mark_groups ::
  "('h, 'w) KV_ops \<Rightarrow> 'w \<Rightarrow> ('k, 'h) SentTransfer heap \<Rightarrow> (nat \<times> u16) list \<Rightarrow> bytes list \<Rightarrow>
   fault + progress \<times> ('k, 'h) SentTransfer heap \<times> 'w" where
  "mark_groups K w hp packet [] = Inr ([], hp, w)"
| "mark_groups K w hp packet (tid # tids) =
     res_bind (mark_parts K w hp (filter (\<lambda>p. st_tid (hp ! fst p) = tid) packet)) (\<lambda>(hp1, w1).
     res_bind (mark_groups K w1 hp1 packet tids) (\<lambda>(calls, hp2, w2).
       Inr ((tid, False) # calls, hp2, w2)))"

definition roundResultsCallback ::
  "(bytes list \<Rightarrow> bytes list) \<Rightarrow> ('h, 'w) KV_ops \<Rightarrow> 'w \<Rightarrow> ('k, 'h) ft_manager \<Rightarrow> (nat \<times> u16) list \<Rightarrow> bool \<Rightarrow>
   fault + progress \<times> ('k, 'h) ft_manager \<times> 'w" where
  "roundResultsCallback ord K w m packet allRoundsSucceeded =
     (if allRoundsSucceeded then
        res_bind (mark_groups K w (mg_sts m) packet (ord (remdups (map (\<lambda>p. st_tid (mg_sts m ! fst p)) packet))))
          (\<lambda>(calls, hp, w1). Inr (calls, m\<lparr>mg_sts := hp\<rparr>, w1))
      else Inr ([], m\<lparr>mg_batchQueue := mg_batchQueue m @ packet\<rparr>, w))"

definition deref :: "'a heap \<Rightarrow> nat option \<Rightarrow> fault + 'a" where
  "deref hp p = (case p of None \<Rightarrow> Inl NilDereference | Some ref \<Rightarrow> index hp ref)"

definition CloseSend ::
  "'k ft_crypto \<Rightarrow> (bytes list \<Rightarrow> bytes list) \<Rightarrow> ('h, 'w) KV_ops \<Rightarrow> 'w \<Rightarrow> ('k, 'h) ft_manager \<Rightarrow> bytes \<Rightarrow>
   fault + ftm_error option \<times> ('k, 'h) ft_manager \<times> 'w" where
  "CloseSend C ord K w m tid =
     (case tr_GetTransfer (mg_sent m) tid of
        None \<Rightarrow> Inr (Some NoSentTransferErr, m, w)
      | Some p \<Rightarrow>
          res_bind (deref (mg_sts m) p) (\<lambda>st.
            if st_status st \<noteq> Completed \<and> st_status st \<noteq> Failed then Inr (Some DeleteIncompleteTransferErr, m, w)
            else
              res_bind (st_Delete K w st) (\<lambda>(err, w1).
                case err of
                  Some e \<Rightarrow> Inr (Some (DeleteSentTransferErr e), m, w1)
                | None \<Rightarrow>
                    (let (err, s, w2) = sent_RemoveTransfer C ord K w1 (mg_sent m) tid
                     in Inr (map_option RemoveSentTransferErr err, m\<lparr>mg_sent := s\<rparr>, w2)))))"

subsection \<open>Receiving\<close>

definition HandleIncomingTransfer ::
  "'k ft_crypto \<Rightarrow> proto_ops \<Rightarrow> f32_ops \<Rightarrow> (bytes list \<Rightarrow> bytes list) \<Rightarrow> ('h, 'w) KV_ops \<Rightarrow> 'w \<Rightarrow> ('k, 'h) ft_manager \<Rightarrow>
   bytes \<Rightarrow> bytes \<Rightarrow> fault + (ftm_error + 'k TransferInfo) \<times> ('k, 'h) ft_manager \<times> 'w" where
  "HandleIncomingTransfer C P N ord K w m tid transferInfo =
     (case UnmarshalTransferInfo C P transferInfo of
        None \<Rightarrow> Inr (Inl UnmarshalInfoErr, m, w)
      | Some t \<Rightarrow>
          res_bind (received_AddTransfer C ord K w (mg_received m) (mg_rts m) (ti_Key t) tid (ti_FileName t) (ti_Mac t)
            (ti_Size t) (ti_NumParts t) (calcNumberOfFingerprints N (int (unat (ti_NumParts t))) (ti_Retry t)))
            (\<lambda>(r, s, rts, w1).
              let m1 = m\<lparr>mg_received := s, mg_rts := rts\<rparr>
              in case r of
                   Inl err \<Rightarrow> Inr (Inl (AddNewRtErr err), m1, w1)
                 | Inr ref \<Rightarrow> res_bind (addFingerprints C m1 ref) (\<lambda>m2. Inr (Inr t, m2, w1))))"

text \<open>\<open>processor.Process\<close>: an error is logged; the result tells whether the progress callback is called.\<close>

definition ft_Process ::
  "'k ft_crypto \<Rightarrow> ('h, 'w) KV_ops \<Rightarrow> 'w \<Rightarrow> ('k, 'h) ReceivedTransfer \<Rightarrow> u16 \<Rightarrow> ft_msg \<Rightarrow>
   fault + bool \<times> ('k, 'h) ReceivedTransfer \<times> 'w" where
  "ft_Process C K w rt c msg =
     res_bind (cy_Decrypt C K w (rt_cypherManager rt) c msg) (\<lambda>(r, cm, w1).
       let rt1 = rt\<lparr>rt_cypherManager := cm\<rparr>
       in case r of
            Inl err \<Rightarrow> Inr (False, rt1, w1)
          | Inr decryptedPart \<Rightarrow>
              (case UnmarshalPartMessage decryptedPart of
                 Inl err \<Rightarrow> Inr (False, rt1, w1)
               | Inr partMsg \<Rightarrow>
                   res_bind (pm_GetPartNum partMsg) (\<lambda>partNum.
                   res_bind (rt_AddPart K w1 rt1 (pm_GetPart partMsg) (int (unat partNum))) (\<lambda>(err, rt2, w2).
                     Inr (err = None, rt2, w2)))))"

text \<open>The reception of a message: the handler takes the processor of its fingerprint out of the table and calls it.\<close>

definition mg_receive ::
  "'k ft_crypto \<Rightarrow> ('h, 'w) KV_ops \<Rightarrow> 'w \<Rightarrow> ('k, 'h) ft_manager \<Rightarrow> ft_msg \<Rightarrow>
   fault + progress \<times> ('k, 'h) ft_manager \<times> 'w" where
  "mg_receive C K w m msg =
     (case fm_pop (mg_fps m) (mg_myID m) (ftm_keyFP msg) of
        (None, _) \<Rightarrow> Inr ([], m, w)
      | (Some (ref, c), fps) \<Rightarrow>
          res_bind (ft_Process C K w (mg_rts m ! ref) c msg) (\<lambda>(called, rt, w1).
            Inr (if called then [(rt_tid rt, False)] else [],
                 m\<lparr>mg_fps := fps, mg_rts := (mg_rts m)[ref := rt]\<rparr>, w1)))"

definition ftm_Receive ::
  "'k ft_crypto \<Rightarrow> (bytes list \<Rightarrow> bytes list) \<Rightarrow> ('h, 'w) KV_ops \<Rightarrow> 'w \<Rightarrow> ('k, 'h) ft_manager \<Rightarrow> bytes \<Rightarrow>
   fault + (ftm_error + bytes) \<times> ('k, 'h) ft_manager \<times> 'w" where
  "ftm_Receive C ord K w m tid =
     (case tr_GetTransfer (mg_received m) tid of
        None \<Rightarrow> Inr (Inl NoReceivedTransferErr, m, w)
      | Some p \<Rightarrow>
          res_bind (deref (mg_rts m) p) (\<lambda>rt.
            if rt_NumReceived rt \<noteq> rt_numParts rt
            then Inr (Inl (IncompleteFileErr (rt_numParts rt - rt_NumReceived rt) (rt_numParts rt)), m, w)
            else
              res_bind (rt_GetUnusedCyphers rt) (\<lambda>cs.
                let m1 = m\<lparr>mg_fps := fold (\<lambda>c f. DeleteFingerprint f (Some (mg_myID m))
                       (cy_GetFingerprint C (rt_cypherManager rt) c)) cs (mg_fps m)\<rparr>
                in res_bind (rt_Delete K w rt) (\<lambda>(err, w1).
                     case err of
                       Some e \<Rightarrow> Inr (Inl (DeleteReceivedTransferErr e), m1, w1)
                     | None \<Rightarrow>
                         (let (err, s, w2) = received_RemoveTransfer C ord K w1 (mg_received m1) tid; m2 = m1\<lparr>mg_received := s\<rparr>
                          in case err of
                               Some e \<Rightarrow> Inr (Inl (RemoveReceivedTransferErr e), m2, w2)
                             | None \<Rightarrow> Inr (Inr (rt_GetFile rt), m2, w2))))))"

section \<open>Batches\<close>

text \<open>The size of a packet from the eight random bytes.\<close>

definition generateRandomPacketSize :: "bytes option \<Rightarrow> fault + int" where
  "generateRandomPacketSize rng =
     (case rng of
        None \<Rightarrow> Inl FatalPanic
      | Some b \<Rightarrow> res_bind (get_le 8 b) (\<lambda>num. Inr (sint (num mod maxPartsSendPerRound + minPartsSendPerRound :: u64))))"

text \<open>One packet of \<open>batchBuilderThread\<close>: it takes parts from the queue until the packet is full, or until the timer,
  which starts with the first part, fires after \<open>waited\<close> parts.\<close>

definition build_packet :: "('k, 'h) ft_manager \<Rightarrow> nat \<Rightarrow> nat option \<Rightarrow> (nat \<times> u16) list \<times> ('k, 'h) ft_manager" where
  "build_packet m numParts waited =
     (let n = (case waited of None \<Rightarrow> numParts | Some k \<Rightarrow> min k numParts)
      in (take n (mg_batchQueue m), m\<lparr>mg_batchQueue := drop n (mg_batchQueue m)\<rparr>))"

section \<open>Part trackers\<close>

definition FpUnsent :: int where "FpUnsent = 0"
definition FpSent :: int where "FpSent = 1"
definition FpArrived :: int where "FpArrived = 2"
definition FpReceived :: int where "FpReceived = 3"

definition sent_GetPartStatus :: "'h StateVector \<Rightarrow> u16 \<Rightarrow> fault + int" where
  "sent_GetPartStatus s partNum =
     (if ucast partNum \<ge> GetNumKeys s then Inr (- 1)
      else res_bind (sv_Used s (ucast partNum)) (\<lambda>u. Inr (if u then FpArrived else FpUnsent)))"

definition received_GetPartStatus :: "'h StateVector \<Rightarrow> u16 \<Rightarrow> fault + int" where
  "received_GetPartStatus s partNum =
     (if ucast partNum \<ge> GetNumKeys s then Inr (- 1)
      else res_bind (sv_Used s (ucast partNum)) (\<lambda>u. Inr (if u then FpReceived else FpUnsent)))"

definition tracker_GetNumParts :: "'h StateVector \<Rightarrow> u16" where
  "tracker_GetNumParts s = ucast (GetNumKeys s)"

section \<open>Rounds that parts were sent on\<close>

record srt_Manager =
  srt_rounds :: "(u64 \<times> int) list"
  srt_age :: int

definition srt_NewManager :: "int \<Rightarrow> srt_Manager" where
  "srt_NewManager interval = \<lparr>srt_rounds = [], srt_age = interval\<rparr>"

definition RemoveOldRounds :: "srt_Manager \<Rightarrow> int \<Rightarrow> srt_Manager" where
  "RemoveOldRounds srt now =
     (let deleteBefore = now - srt_age srt
      in srt\<lparr>srt_rounds := filter (\<lambda>(rid, ts). \<not> ts < deleteBefore) (srt_rounds srt)\<rparr>)"

definition srt_Has :: "srt_Manager \<Rightarrow> u64 \<Rightarrow> bool" where
  "srt_Has srt rid = (map_of (srt_rounds srt) rid \<noteq> None)"

definition srt_Insert :: "srt_Manager \<Rightarrow> u64 \<Rightarrow> int \<Rightarrow> bool \<times> srt_Manager" where
  "srt_Insert srt rid now =
     (if map_of (srt_rounds srt) rid \<noteq> None then (False, srt)
      else (True, srt\<lparr>srt_rounds := AList.update rid now (srt_rounds srt)\<rparr>))"

definition srt_Remove :: "srt_Manager \<Rightarrow> u64 \<Rightarrow> srt_Manager" where
  "srt_Remove srt rid = srt\<lparr>srt_rounds := AList.delete rid (srt_rounds srt)\<rparr>"

definition srt_Len :: "srt_Manager \<Rightarrow> nat" where
  "srt_Len srt = length (srt_rounds srt)"

section \<open>Progress callbacks\<close>

text \<open>A tracker of one callback. \<open>call\<close> either does nothing, calls the callback at once, or starts a thread that
  calls it later (\<open>fire\<close>), unless the tracker is stopped first.\<close>

record callbackTracker =
  ct_period :: int
  ct_lastCall :: int
  ct_scheduled :: bool
  ct_complete :: bool

datatype ct_action = CtNothing | CtCall "string option" | CtSchedule int "string option"

definition newCallbackTracker :: "int \<Rightarrow> int \<Rightarrow> callbackTracker" where
  "newCallbackTracker zeroTime period =
     \<lparr>ct_period = period, ct_lastCall = zeroTime, ct_scheduled = False, ct_complete = False\<rparr>"

definition ct_call :: "callbackTracker \<Rightarrow> int \<Rightarrow> string option \<Rightarrow> ct_action \<times> callbackTracker" where
  "ct_call ct now err =
     (if (ct_scheduled ct \<or> ct_complete ct) \<and> err = None then (CtNothing, ct)
      else
        let ct1 = ct\<lparr>ct_complete := err \<noteq> None\<rparr>; timeSinceLastCall = now - ct_lastCall ct
        in if timeSinceLastCall > ct_period ct then (CtCall err, ct1\<lparr>ct_lastCall := now\<rparr>)
           else (CtSchedule (ct_period ct - timeSinceLastCall) err, ct1\<lparr>ct_scheduled := True\<rparr>))"

definition ct_fire :: "callbackTracker \<Rightarrow> int \<Rightarrow> callbackTracker" where
  "ct_fire ct now = ct\<lparr>ct_lastCall := now, ct_scheduled := False\<rparr>"

text \<open>The trackers of all transfers.\<close>

type_synonym cb_Manager = "(bytes \<times> callbackTracker list) list"

definition cb_AddCallback :: "int \<Rightarrow> cb_Manager \<Rightarrow> bytes \<Rightarrow> int \<Rightarrow> cb_Manager" where
  "cb_AddCallback zeroTime m tid period =
     AList.update tid ((case map_of m tid of None \<Rightarrow> [] | Some l \<Rightarrow> l) @ [newCallbackTracker zeroTime period]) m"

definition cb_Call :: "cb_Manager \<Rightarrow> int \<Rightarrow> bytes \<Rightarrow> string option \<Rightarrow> ct_action list \<times> cb_Manager" where
  "cb_Call m now tid err =
     (case map_of m tid of
        None \<Rightarrow> ([], m)
      | Some l \<Rightarrow> (map (\<lambda>ct. fst (ct_call ct now err)) l, AList.update tid (map (\<lambda>ct. snd (ct_call ct now err)) l) m))"

definition cb_Delete :: "cb_Manager \<Rightarrow> bytes \<Rightarrow> cb_Manager" where
  "cb_Delete m tid = AList.delete tid m"

section \<open>Partitioning\<close>

text \<open>The reference: part \<open>i\<close> is the \<open>i\<close>-th slice of the file padded with zeros.\<close>

definition file_part :: "bytes \<Rightarrow> nat \<Rightarrow> nat \<Rightarrow> bytes" where
  "file_part file_data partSize i = take partSize (drop (i * partSize) (file_data @ replicate partSize 0))"

definition num_parts :: "bytes \<Rightarrow> nat \<Rightarrow> nat" where
  "num_parts file_data partSize = (length file_data + partSize - 1) div partSize"

lemma padded_part: "copy_at (replicate p 0) 0 (take p b) = take p (b @ replicate p (0 :: byte))"
  by (cases "length b \<le> p") (auto simp: copy_at_def)

lemma num_parts_step:
  assumes "0 < p" "b \<noteq> []"
  shows "num_parts b p = Suc (num_parts (drop p b) p)"
proof (cases "length b \<le> p")
  case True
  then have "(length b + p - 1) div p = 1"
    using assms by (intro div_nat_eqI) (cases b, auto)
  with True assms show ?thesis by (simp add: num_parts_def)
next
  case False
  then have e: "length b + p - Suc 0 = (length b - Suc 0) + p" using assms by simp
  have "(length b + p - Suc 0) div p = Suc ((length b - Suc 0) div p)"
    unfolding e using assms(1) by (simp add: div_add_self2)
  then show ?thesis using False assms by (simp add: num_parts_def)
qed

lemma file_part_Suc:
  assumes "p \<le> length b"
  shows "file_part b p (Suc i) = file_part (drop p b) p i"
proof -
  have "drop (Suc i * p) (b @ replicate p 0) = drop (i * p) (drop p b @ replicate p 0)"
    using assms by (simp add: add.commute)
  then show ?thesis unfolding file_part_def by (simp only:)
qed

lemma partition_loop_eq:
  assumes "0 < p" "length b < fuel"
  shows "partition_loop fuel p b = map (file_part b p) [0..<num_parts b p]"
  using assms(2)
proof (induction fuel arbitrary: b)
  case (Suc fuel)
  show ?case
  proof (cases "b = []")
    case True
    then show ?thesis using assms(1) by (simp add: num_parts_def)
  next
    case False
    have IH: "partition_loop fuel p (drop p b) = map (file_part (drop p b) p) [0..<num_parts (drop p b) p]"
      using Suc.prems False assms(1) by (intro Suc.IH) (cases b, auto)
    have "map (file_part (drop p b) p) [0..<num_parts (drop p b) p] = map (\<lambda>i. file_part b p (Suc i)) [0..<num_parts (drop p b) p]"
    proof (cases "p \<le> length b")
      case True
      then show ?thesis by (simp add: file_part_Suc)
    next
      case False
      then have "num_parts (drop p b) p = 0" using assms(1) by (simp add: num_parts_def)
      then show ?thesis by simp
    qed
    moreover have "map (file_part b p) [0..<num_parts b p] =
        file_part b p 0 # map (\<lambda>i. file_part b p (Suc i)) [0..<num_parts (drop p b) p]"
      by (simp add: num_parts_step [OF assms(1) False] upt_conv_Cons map_Suc_upt [symmetric] comp_def del: upt_Suc)
    moreover have "file_part b p 0 = copy_at (replicate p 0) 0 (take p b)"
      unfolding padded_part by (simp add: file_part_def)
    ultimately show ?thesis using False assms(1) IH by simp
  qed
qed simp

lemma length_file_part:
  assumes "0 < p" "i < num_parts b p"
  shows "length (file_part b p i) = p"
proof -
  have "Suc i \<le> (length b + p - 1) div p" using assms(2) by (simp add: num_parts_def)
  then have "Suc i * p \<le> length b + p - 1"
    by (metis (no_types, lifting) assms(1) less_eq_div_iff_mult_less_eq)
  then show ?thesis by (simp add: file_part_def)
qed

lemma concat_file_parts:
  assumes "0 < p"
  shows "take (length b) (concat (map (file_part b p) [0..<num_parts b p])) = b"
    and "length b \<le> length (concat (map (file_part b p) [0..<num_parts b p]))"
proof -
  have c: "concat (map (file_part b p) [0..<n]) = take (n * p) (b @ replicate p 0)" if "n \<le> num_parts b p" for n
    using that
  proof (induction n)
    case (Suc n)
    have "take (Suc n * p) xs = take (n * p) xs @ take p (drop (n * p) xs)" for xs :: bytes
      by (simp add: take_add [symmetric] add.commute)
    with Suc show ?case unfolding file_part_def by (simp only: upt_Suc map_append concat_append) simp
  qed simp
  have "length b \<le> num_parts b p * p"
  proof -
    have "(length b + p - 1) mod p < p" using assms by simp
    moreover have "(length b + p - 1) div p * p + (length b + p - 1) mod p = length b + p - 1" by (rule div_mult_mod_eq)
    ultimately show ?thesis unfolding num_parts_def by linarith
  qed
  then show "take (length b) (concat (map (file_part b p) [0..<num_parts b p])) = b"
    "length b \<le> length (concat (map (file_part b p) [0..<num_parts b p]))"
    by (simp_all add: c min_def)
qed

text \<open>C17: The loop that partitions a file computes the slices of the padded file. For a positive part size,
  \<open>partitionFile\<close> returns the \<open>(length file + size - 1) div size\<close> slices of the file padded with zeros, each of
  exactly the part size, and their concatenation starts with the file.\<close>

theorem partitionFile_reference:
  assumes "0 < partSize"
  shows "partitionFile file_data partSize = Inr (map (file_part file_data partSize) [0..<num_parts file_data partSize]) \<and>
    (\<forall>i < num_parts file_data partSize. length (file_part file_data partSize i) = partSize) \<and>
    take (length file_data) (concat (map (file_part file_data partSize) [0..<num_parts file_data partSize])) = file_data"
  using assms partition_loop_eq [OF assms, of file_data "length file_data + 1"] length_file_part [OF assms]
    concat_file_parts(1) [OF assms]
  by (simp add: partitionFile_def del: partition_loop.simps)

theorem partitionFile_reference_witness:
  "partitionFile [1, 2, 3, 4, 5] 2 = Inr [[1, 2], [3, 4], [5, 0]] \<and> length (file_part [1, 2, 3, 4, 5] 2 2) = 2 \<and>
   num_parts [1, 2, 3, 4, 5] 2 = 3"
proof -
  have n: "num_parts [1, 2, 3, 4, 5] 2 = 3" by (simp add: num_parts_def)
  moreover have "map (file_part [1, 2, 3, 4, 5] 2) [0..<3] = [[1, 2], [3, 4], [5, 0]]"
    by (simp add: file_part_def eval_nat_numeral)
  ultimately show ?thesis
    using partitionFile_reference [of 2 "[1, 2, 3, 4, 5]"] by simp
qed

section \<open>From the sender to the receiver\<close>

text \<open>A part on the wire.\<close>

definition wire :: "'k ft_crypto \<Rightarrow> 'k \<Rightarrow> u16 \<Rightarrow> u16 \<Rightarrow> bytes \<Rightarrow> ft_msg" where
  "wire C key c n part =
     (let fp = ftc_GenerateFingerprint C key c; e = ftc_EncryptPart C key (put_le16 n @ part) c fp
      in \<lparr>ftm_contents = fst e, ftm_mac = snd e, ftm_keyFP = fp\<rparr>)"

lemma part_message:
  assumes "length part + 2 = L"
  shows "NewPartMessage (int L) = Inr (replicate L 0)"
    "pm_SetPart (pm_SetPartNum (replicate L 0) n) part = Inr (put_le16 n @ part)"
  using assms by (auto simp: NewPartMessage_def fmMinSize_def partNumLen_def pm_SetPart_def pm_SetPartNum_def copy_at_def)

lemma message_part:
  "UnmarshalPartMessage (put_le16 n @ part) = Inr (put_le16 n @ part)"
  "pm_GetPartNum (put_le16 n @ part) = Inr n" "pm_GetPart (put_le16 n @ part) = part"
  by (simp_all add: UnmarshalPartMessage_def fmMinSize_def partNumLen_def pm_GetPartNum_def pm_GetPart_def)

lemma first_of_initial:
  assumes "sv_inv sv" "used_set sv = {..<c}"
  shows "unat (sv_firstAvailable sv) = c"
proof -
  have "{..<unat (sv_firstAvailable sv)} \<subseteq> {..<c}" "unat (sv_firstAvailable sv) \<notin> {..<c}"
    using assms by (simp_all add: sv_inv_def)
  then show ?thesis by auto
qed

context versioned_kv
begin

lemma GetEncryptedPart_wire:
  assumes "sets_succeed K" "st_kept C K w st h" "unat n < length (st_parts st)" "length (st_parts st ! unat n) + 2 = L"
    and "used_set (cym_fpVector (st_cypherManager st)) = {..<c}" "c < unat (sv_numKeys (cym_fpVector (st_cypherManager st)))"
    and "unat (sv_numKeys (cym_fpVector (st_cypherManager st))) < 2 ^ 16"
  obtains m w' where
    "part_GetEncryptedPart C K w st n (int L) =
      Inr (Inr (wire C (cym_key (st_cypherManager st)) (word_of_nat c) n (st_parts st ! unat n)), st\<lparr>st_cypherManager := m\<rparr>, w')"
    "st_kept C K w' (st\<lparr>st_cypherManager := m\<rparr>) h" "cym_key m = cym_key (st_cypherManager st)"
    "used_set (cym_fpVector m) = {..<Suc c}" "sv_numKeys (cym_fpVector m) = sv_numKeys (cym_fpVector (st_cypherManager st))"
proof -
  note k = st_keptD [OF assms(2)]
  let ?cm = "st_cypherManager st"
  have inv: "sv_inv (cym_fpVector ?cm)" using k(2) by (simp add: cym_kept_def sv_kept_def)
  note f = first_of_initial [OF inv assms(5)]
  have "used_set (cym_fpVector ?cm) \<noteq> {..<unat (sv_numKeys (cym_fpVector ?cm))}" using assms(5,6) by auto
  then obtain m w' where m: "PopCypher K w ?cm = Inr (Inr (ucast (sv_firstAvailable (cym_fpVector ?cm))), m, w')"
    "cym_key m = cym_key ?cm" "sv_numKeys (cym_fpVector m) = sv_numKeys (cym_fpVector ?cm)"
    "used_set (cym_fpVector m) = insert (unat (sv_firstAvailable (cym_fpVector ?cm))) (used_set (cym_fpVector ?cm))"
    by (rule PopCypher_kept [OF assms(1) k(2)]) (rule that)
  have "word_of_nat c = (ucast (sv_firstAvailable (cym_fpVector ?cm)) :: u16)"
    unfolding f [symmetric] by simp
  moreover have "st_getPartData st n = Inr (st_parts st ! unat n)"
  proof -
    have "\<not> int (length (st_parts st)) - 1 < int (unat n)" using assms(3) by linarith
    then show ?thesis by (simp only: st_getPartData_def if_False)
  qed
  ultimately have r: "part_GetEncryptedPart C K w st n (int L) =
      Inr (Inr (wire C (cym_key ?cm) (word_of_nat c) n (st_parts st ! unat n)), st\<lparr>st_cypherManager := m\<rparr>, w')"
    using assms(3) m(1,2) part_message [OF assms(4)]
    by (simp add: part_GetEncryptedPart_def cy_Encrypt_def wire_def pm_Marshal_def Let_def split: prod.splits)
  show thesis
    by (rule that [OF r]) (use GetEncryptedPart_kept(1) [OF assms(1,2) r] m f assms(5) in \<open>auto simp: lessThan_Suc\<close>)
qed

lemma encrypt_packet_wire:
  assumes "sets_succeed K" "st_kept C K w (hp ! ref) h" "ref < length hp"
    and "\<forall>n \<in> set ns. unat n < length (st_parts (hp ! ref)) \<and> length (st_parts (hp ! ref) ! unat n) + 2 = L"
    and "used_set (cym_fpVector (st_cypherManager (hp ! ref))) = {..<c}"
    and "c + length ns \<le> unat (sv_numKeys (cym_fpVector (st_cypherManager (hp ! ref))))"
    and "unat (sv_numKeys (cym_fpVector (st_cypherManager (hp ! ref)))) < 2 ^ 16"
  shows "\<exists>hp' w'. encrypt_packet C K w hp (int L) (map (Pair ref) ns) =
    Inr (map (\<lambda>(j, n). ((ref, n), st_recipient (hp ! ref),
           wire C (cym_key (st_cypherManager (hp ! ref))) (word_of_nat j) n (st_parts (hp ! ref) ! unat n)))
         (zip [c..<c + length ns] ns), [], hp', w')"
  using assms(2-)
proof (induction ns arbitrary: w hp c)
  case (Cons n ns)
  let ?st = "hp ! ref"
  have n: "unat n < length (st_parts ?st)" "length (st_parts ?st ! unat n) + 2 = L"
    "c < unat (sv_numKeys (cym_fpVector (st_cypherManager ?st)))" using Cons.prems(3,5) by auto
  obtain m w1 where m:
    "part_GetEncryptedPart C K w ?st n (int L) =
      Inr (Inr (wire C (cym_key (st_cypherManager ?st)) (word_of_nat c) n (st_parts ?st ! unat n)), ?st\<lparr>st_cypherManager := m\<rparr>, w1)"
    "st_kept C K w1 (?st\<lparr>st_cypherManager := m\<rparr>) h" "cym_key m = cym_key (st_cypherManager ?st)"
    "used_set (cym_fpVector m) = {..<Suc c}" "sv_numKeys (cym_fpVector m) = sv_numKeys (cym_fpVector (st_cypherManager ?st))"
    by (rule GetEncryptedPart_wire [OF assms(1) Cons.prems(1) n(1,2) Cons.prems(4) n(3) Cons.prems(6)]) (rule that)
  define hp1 where "hp1 = hp[ref := ?st\<lparr>st_cypherManager := m\<rparr>]"
  have hp1: "hp1 ! ref = ?st\<lparr>st_cypherManager := m\<rparr>" using Cons.prems(2) by (simp add: hp1_def)
  have "\<exists>hp' w'. encrypt_packet C K w1 hp1 (int L) (map (Pair ref) ns) =
    Inr (map (\<lambda>(j, n). ((ref, n), st_recipient (hp1 ! ref),
           wire C (cym_key (st_cypherManager (hp1 ! ref))) (word_of_nat j) n (st_parts (hp1 ! ref) ! unat n)))
         (zip [Suc c..<Suc c + length ns] ns), [], hp', w')"
    by (rule Cons.IH) (use Cons.prems m in \<open>simp_all add: hp1 hp1_def\<close>)
  then obtain hp' w' where e: "encrypt_packet C K w1 hp1 (int L) (map (Pair ref) ns) =
    Inr (map (\<lambda>(j, n). ((ref, n), st_recipient ?st,
           wire C (cym_key (st_cypherManager ?st)) (word_of_nat j) n (st_parts ?st ! unat n)))
         (zip [Suc c..<Suc c + length ns] ns), [], hp', w')" unfolding hp1 by (auto simp: m(3))
  have z: "zip [c..<c + length (n # ns)] (n # ns) = (c, n) # zip [Suc c..<Suc c + length ns] ns"
    by (simp add: upt_conv_Cons del: upt_Suc)
  show ?case
    using m(1) e unfolding z by (simp add: hp1_def)
qed simp

end

end
