(* ===== verification/Transfer_Delivery.thy ===== *)
theory Transfer_Delivery
  imports Transfer_Manager
begin

text \<open>
  The delivery of a file from the sender's file transfer manager to the receiver's: \<open>Send\<close> queues the parts,
  the sending threads encrypt packets of them (\<open>sendCmix\<close>), the receiver takes the announcement
  (\<open>HandleIncomingTransfer\<close>), gets messages from the network and reads the file (\<open>Receive\<close>). The invariant \<open>receiving\<close>
  ties the fingerprints that are registered, the fingerprints that are used up and the parts that are there;
  every received message keeps it. At the end two edge cases of the manager.
\<close>

section \<open>The fingerprints of a transfer\<close>

lemma unused_of_fresh:
  assumes "sv_inv sv" "used_set sv = {}"
  shows "GetUnusedKeyNums sv = Inr (map word_of_nat [0..<unat (sv_numKeys sv)])"
proof -
  have "unat (sv_firstAvailable sv) = 0" using first_of_initial [OF assms(1), of 0] assms(2) by simp
  then show ?thesis using assms by (simp add: GetUnusedKeyNums_eq key_range_def)
qed

lemma fingerprints_added:
  assumes "fm_wf f" "inj g" "\<forall>c \<in> set cs. fm_lookup f (me, g c) = None" "distinct cs"
  shows "fm_wf (fold (\<lambda>c f. snd (AddFingerprint f (Some me) (g c) (ref, c))) cs f) \<and>
    fm_lookup (fold (\<lambda>c f. snd (AddFingerprint f (Some me) (g c) (ref, c))) cs f) =
      (\<lambda>k. if fst k = me \<and> snd k \<in> g ` set cs then Some (ref, inv g (snd k)) else fm_lookup f k)"
  using assms(1,3,4)
proof (induction cs arbitrary: f)
  case (Cons c cs)
  obtain ok f1 where a: "AddFingerprint f (Some me) (g c) (ref, c) = (ok, f1)" by fastforce
  note s = AddFingerprint_spec [OF Cons.prems(1) a, unfolded fm_client_def, simplified]
  have n: "fm_lookup f (me, g c) = None" using Cons.prems(2) by simp
  have l: "fm_lookup f1 = (fm_lookup f)((me, g c) \<mapsto> (ref, c))" using s(2,3) n by simp
  have "\<forall>d \<in> set cs. fm_lookup f1 (me, g d) = None"
    using Cons.prems(2,3) injD [OF assms(2)] by (auto simp: l)
  note IH = Cons.IH [OF s(1) this]
  show ?case
    using IH Cons.prems(3) a assms(2) by (auto simp: l fun_eq_iff)
qed (simp add: fun_eq_iff)

section \<open>Receiving\<close>

text \<open>The manager while the messages of a transfer come in: fingerprint number \<open>k\<close> belongs to the \<open>k\<close>-th message that was
  sent, which carries part \<open>ns ! k\<close>. The fingerprints that are not used up are registered for the transfer, the part of
  every used one is there, and every part that is there is the right one.\<close>

definition receiving ::
  "'k ft_crypto \<Rightarrow> ('h, 'w) KV_ops \<Rightarrow> 'h \<Rightarrow> 'k \<Rightarrow> u16 list \<Rightarrow> (nat \<Rightarrow> bytes) \<Rightarrow> nat \<Rightarrow> 'w \<Rightarrow> ('k, 'h) ft_manager \<Rightarrow> bool" where
  "receiving C K h key ns part ref w m =
     (let rt = mg_rts m ! ref; fv = cym_fpVector (rt_cypherManager rt); g = ftc_GenerateFingerprint C key
      in ref < length (mg_rts m) \<and> rt_kept C K w rt h \<and> cym_key (rt_cypherManager rt) = key \<and>
         length ns \<le> unat (sv_numKeys fv) \<and> unat (sv_numKeys fv) < 2 ^ 16 \<and>
         (\<forall>n \<in> set ns. unat n < length (rt_parts rt)) \<and>
         (\<forall>i \<in> used_set (rt_partStatus rt). rt_parts rt ! i = part i) \<and>
         (\<forall>k \<in> used_set fv. k < length ns \<longrightarrow> unat (ns ! k) \<in> used_set (rt_partStatus rt)) \<and>
         fm_wf (mg_fps m) \<and>
         (\<forall>k < unat (sv_numKeys fv). fm_lookup (mg_fps m) (mg_myID m, g (word_of_nat k)) =
            (if k \<in> used_set fv then None else Some (ref, word_of_nat k))))"

text \<open>What the reception of a message leaves as it is.\<close>

definition same_transfer :: "nat \<Rightarrow> ('k, 'h) ft_manager \<Rightarrow> ('k, 'h) ft_manager \<Rightarrow> bool" where
  "same_transfer ref m m' =
     (mg_received m' = mg_received m \<and> mg_myID m' = mg_myID m \<and> rt_tid (mg_rts m' ! ref) = rt_tid (mg_rts m ! ref) \<and>
      rt_numParts (mg_rts m' ! ref) = rt_numParts (mg_rts m ! ref) \<and> rt_fileSize (mg_rts m' ! ref) = rt_fileSize (mg_rts m ! ref) \<and>
      length (rt_parts (mg_rts m' ! ref)) = length (rt_parts (mg_rts m ! ref)))"

lemma same_transfer_refl [simp]: "same_transfer ref m m"
  by (simp add: same_transfer_def)

lemma same_transfer_trans: "same_transfer ref m m1 \<Longrightarrow> same_transfer ref m1 m2 \<Longrightarrow> same_transfer ref m m2"
  by (simp add: same_transfer_def)

abbreviation used_fps :: "nat \<Rightarrow> ('k, 'h) ft_manager \<Rightarrow> nat set" where
  "used_fps ref m \<equiv> used_set (cym_fpVector (rt_cypherManager (mg_rts m ! ref)))"

lemma u16_of_nat: "k < n \<Longrightarrow> n < 2 ^ 16 \<Longrightarrow> unat (word_of_nat k :: u16) = k"
  by (simp add: unat_of_nat)

context versioned_kv
begin

lemma receive_known:
  assumes "receiving C K h key ns part ref w m" "k < length ns" "k \<in> used_fps ref m"
  shows "mg_receive C K w m (wire C key (word_of_nat k) n p) = Inr ([], m, w)"
proof -
  have wf: "fm_wf (mg_fps m)" and l: "fm_lookup (mg_fps m) (mg_myID m, ftc_GenerateFingerprint C key (word_of_nat k)) = None"
    using assms unfolding receiving_def Let_def by auto
  obtain r f where p: "fm_pop (mg_fps m) (mg_myID m) (ftc_GenerateFingerprint C key (word_of_nat k)) = (r, f)" by fastforce
  with fm_pop_spec(2) [OF wf p] l show ?thesis by (simp add: mg_receive_def wire_def Let_def)
qed

lemma receive_new:
  assumes "sets_succeed K" "ft_laws C" "inj (ftc_GenerateFingerprint C key)" "receiving C K h key ns part ref w m"
    and "k < length ns" "k \<notin> used_fps ref m"
  obtains m' w' where "mg_receive C K w m (wire C key (word_of_nat k) (ns ! k) (part (unat (ns ! k)))) =
      Inr ([(rt_tid (mg_rts m ! ref), False)], m', w')"
    "receiving C K h key ns part ref w' m'" "same_transfer ref m m'" "used_fps ref m' = insert k (used_fps ref m)"
proof -
  define rt where "rt = mg_rts m ! ref"
  define fv where "fv = cym_fpVector (rt_cypherManager rt)"
  define g where "g = ftc_GenerateFingerprint C key"
  let ?msg = "wire C key (word_of_nat k) (ns ! k) (part (unat (ns ! k)))"
  have inv: "ref < length (mg_rts m)" "rt_kept C K w rt h" "cym_key (rt_cypherManager rt) = key"
    "length ns \<le> unat (sv_numKeys fv)" "unat (sv_numKeys fv) < 2 ^ 16" "\<forall>n \<in> set ns. unat n < length (rt_parts rt)"
    "\<forall>i \<in> used_set (rt_partStatus rt). rt_parts rt ! i = part i"
    "\<forall>k \<in> used_set fv. k < length ns \<longrightarrow> unat (ns ! k) \<in> used_set (rt_partStatus rt)" "fm_wf (mg_fps m)"
    "\<forall>k < unat (sv_numKeys fv). fm_lookup (mg_fps m) (mg_myID m, g (word_of_nat k)) =
       (if k \<in> used_set fv then None else Some (ref, word_of_nat k))"
    using assms(4) unfolding receiving_def Let_def rt_def fv_def g_def by auto
  have k: "k < unat (sv_numKeys fv)" "unat (word_of_nat k :: u16) = k" "k \<notin> used_set fv"
    using assms(5,6) inv(4,5) u16_of_nat [of k] by (simp_all add: fv_def rt_def)
  obtain r f where p: "fm_pop (mg_fps m) (mg_myID m) (g (word_of_nat k)) = (r, f)" by fastforce
  note f = fm_pop_spec [OF inv(9) p]
  have r: "r = Some (ref, word_of_nat k)" using f(2) inv(10) k by simp
  have d: "ftc_DecryptPart C (cym_key (rt_cypherManager rt)) (ftm_contents ?msg) (ftm_mac ?msg) (word_of_nat k) (ftm_keyFP ?msg) =
      Some (put_le16 (ns ! k) @ part (unat (ns ! k)))"
    by (simp add: wire_def Let_def inv(3) ft_lawsD(2) [OF assms(2)])
  have lt: "unat (word_of_nat k :: u16) < unat (sv_numKeys (cym_fpVector (rt_cypherManager rt)))" using k by (simp add: fv_def)
  obtain cm w1 where cm: "cy_Decrypt C K w (rt_cypherManager rt) (word_of_nat k) ?msg =
      Inr (Inr (put_le16 (ns ! k) @ part (unat (ns ! k))), cm, w1)"
    "rt_kept C K w1 (rt\<lparr>rt_cypherManager := cm\<rparr>) h" "cym_key cm = cym_key (rt_cypherManager rt)"
    "sv_numKeys (cym_fpVector cm) = sv_numKeys (cym_fpVector (rt_cypherManager rt))"
    "used_set (cym_fpVector cm) = insert (unat (word_of_nat k :: u16)) (used_set (cym_fpVector (rt_cypherManager rt)))"
    by (rule rt_Decrypt_kept [OF assms(1) inv(2) lt d]) (rule that)
  have nk: "unat (ns ! k) < length (rt_parts (rt\<lparr>rt_cypherManager := cm\<rparr>))" using inv(6) assms(5) by simp
  obtain rt' w' where rt': "rt_AddPart K w1 (rt\<lparr>rt_cypherManager := cm\<rparr>) (part (unat (ns ! k))) (int (unat (ns ! k))) = Inr (None, rt', w')"
    "rt_kept C K w' rt' h" "rt_parts rt' = (rt_parts (rt\<lparr>rt_cypherManager := cm\<rparr>))[unat (ns ! k) := part (unat (ns ! k))]"
    "used_set (rt_partStatus rt') = insert (unat (ns ! k)) (used_set (rt_partStatus (rt\<lparr>rt_cypherManager := cm\<rparr>)))"
    "rt_tid rt' = rt_tid (rt\<lparr>rt_cypherManager := cm\<rparr>)" "rt_cypherManager rt' = rt_cypherManager (rt\<lparr>rt_cypherManager := cm\<rparr>)"
    "rt_numParts rt' = rt_numParts (rt\<lparr>rt_cypherManager := cm\<rparr>)" "rt_fileSize rt' = rt_fileSize (rt\<lparr>rt_cypherManager := cm\<rparr>)"
    by (rule rt_AddPart_kept [OF assms(1) cm(2) nk, of "part (unat (ns ! k))"]) (rule that)
  define m' where "m' = m\<lparr>mg_fps := f, mg_rts := (mg_rts m)[ref := rt']\<rparr>"
  have P: "ft_Process C K w rt (word_of_nat k) ?msg = Inr (True, rt', w')"
    using cm(1) rt'(1) by (simp add: ft_Process_def message_part)
  have e: "mg_receive C K w m ?msg = Inr ([(rt_tid rt, False)], m', w')"
    using P p r rt'(5) by (simp add: mg_receive_def rt_def [symmetric] g_def wire_def Let_def m'_def)
  have m'rt: "mg_rts m' ! ref = rt'" using inv(1) by (simp add: m'_def)
  have fp': "fm_lookup f (mg_myID m, g (word_of_nat j)) =
      (if j \<in> insert k (used_set fv) then None else Some (ref, word_of_nat j))" if j: "j < unat (sv_numKeys fv)" for j
  proof (cases "j = k")
    case False
    then have "(word_of_nat j :: u16) \<noteq> word_of_nat k" using j k(2) inv(5) u16_of_nat [of j] by metis
    then have "g (word_of_nat j) \<noteq> g (word_of_nat k)" using assms(3) by (auto simp: g_def dest: injD)
    then show ?thesis using inv(10) j False by (simp add: f(3))
  qed (simp add: f(3))
  have rc: "receiving C K h key ns part ref w' m'"
    unfolding receiving_def m'rt Let_def
  proof (intro conjI)
    show "\<forall>i \<in> used_set (rt_partStatus rt'). rt_parts rt' ! i = part i"
      using inv(7) nk by (auto simp: rt'(3,4) nth_list_update)
    show "\<forall>j \<in> used_set (cym_fpVector (rt_cypherManager rt')). j < length ns \<longrightarrow> unat (ns ! j) \<in> used_set (rt_partStatus rt')"
      using inv(8) by (auto simp: rt'(4,6) cm(5) fv_def k(2))
    show "\<forall>j < unat (sv_numKeys (cym_fpVector (rt_cypherManager rt'))).
        fm_lookup (mg_fps m') (mg_myID m', ftc_GenerateFingerprint C key (word_of_nat j)) =
        (if j \<in> used_set (cym_fpVector (rt_cypherManager rt')) then None else Some (ref, word_of_nat j))"
      using fp' by (simp add: rt'(6) cm(4,5) fv_def g_def m'_def k(2))
    show "ref < length (mg_rts m')" "fm_wf (mg_fps m')" using inv(1) f(1) by (simp_all add: m'_def)
    show "length ns \<le> unat (sv_numKeys (cym_fpVector (rt_cypherManager rt')))"
      "unat (sv_numKeys (cym_fpVector (rt_cypherManager rt'))) < 2 ^ 16" "cym_key (rt_cypherManager rt') = key"
      using inv(3-5) by (simp_all add: rt'(6) cm(3,4) fv_def)
    show "\<forall>n \<in> set ns. unat n < length (rt_parts rt')" using inv(6) by (simp add: rt'(3))
  qed (rule rt'(2))
  show thesis
    by (rule that [OF e [unfolded rt_def] rc])
      (use m'rt rt' k(2) cm(5) in \<open>simp_all add: same_transfer_def m'_def rt_def fv_def\<close>)
qed

end

text \<open>The reception of a sequence of messages.\<close>

fun receive_messages ::
  "'k ft_crypto \<Rightarrow> ('h, 'w) KV_ops \<Rightarrow> 'w \<Rightarrow> ('k, 'h) ft_manager \<Rightarrow> ft_msg list \<Rightarrow>
   fault + progress \<times> ('k, 'h) ft_manager \<times> 'w" where
  "receive_messages C K w m [] = Inr ([], m, w)"
| "receive_messages C K w m (msg # msgs) =
     res_bind (mg_receive C K w m msg) (\<lambda>(calls, m1, w1).
     res_bind (receive_messages C K w1 m1 msgs) (\<lambda>(calls', m2, w2). Inr (calls @ calls', m2, w2)))"

context versioned_kv
begin

lemma receive_messages_wire:
  assumes "sets_succeed K" "ft_laws C" "inj (ftc_GenerateFingerprint C key)" "receiving C K h key ns part ref w m"
    and "\<forall>msg \<in> set msgs. \<exists>k < length ns. msg = wire C key (word_of_nat k) (ns ! k) (part (unat (ns ! k)))"
  shows "\<exists>calls m' w'. receive_messages C K w m msgs = Inr (calls, m', w') \<and> receiving C K h key ns part ref w' m' \<and>
    same_transfer ref m m' \<and> used_fps ref m \<subseteq> used_fps ref m' \<and>
    (\<forall>k < length ns. wire C key (word_of_nat k) (ns ! k) (part (unat (ns ! k))) \<in> set msgs \<longrightarrow> k \<in> used_fps ref m')"
  using assms(4,5)
proof (induction msgs arbitrary: w m)
  case (Cons msg msgs)
  from Cons.prems(2) obtain k where k: "k < length ns" "msg = wire C key (word_of_nat k) (ns ! k) (part (unat (ns ! k)))" by auto
  have ks: "j = k" if "j < length ns" "wire C key (word_of_nat j) (ns ! j) (part (unat (ns ! j))) = msg" for j
  proof -
    have "ftc_GenerateFingerprint C key (word_of_nat j) = ftc_GenerateFingerprint C key (word_of_nat k)"
      using arg_cong [OF that(2), of ftm_keyFP] by (simp add: k(2) wire_def Let_def)
    then have "(word_of_nat j :: u16) = word_of_nat k" using assms(3) by (rule injD [rotated])
    moreover have "length ns < 2 ^ 16" using Cons.prems(1) by (simp add: receiving_def Let_def)
    ultimately show ?thesis using u16_of_nat that(1) k(1) by metis
  qed
  obtain calls m1 w1 where 1: "mg_receive C K w m msg = Inr (calls, m1, w1)" "receiving C K h key ns part ref w1 m1"
    "same_transfer ref m m1" "used_fps ref m1 = insert k (used_fps ref m)"
  proof (cases "k \<in> used_fps ref m")
    case True
    show thesis
      by (rule that [OF receive_known [OF Cons.prems(1) k(1) True, of "ns ! k" "part (unat (ns ! k))", folded k(2)] Cons.prems(1)])
        (use True in auto)
  next
    case False
    show thesis
      by (rule receive_new [OF assms(1-3) Cons.prems(1) k(1) False]) (rule that, simp_all add: k(2))
  qed
  obtain calls' m' w' where 2: "receive_messages C K w1 m1 msgs = Inr (calls', m', w')" "receiving C K h key ns part ref w' m'"
    "same_transfer ref m1 m'" "used_fps ref m1 \<subseteq> used_fps ref m'"
    "\<forall>k < length ns. wire C key (word_of_nat k) (ns ! k) (part (unat (ns ! k))) \<in> set msgs \<longrightarrow> k \<in> used_fps ref m'"
    using Cons.IH [OF 1(2)] Cons.prems(2) by auto
  have "\<forall>j < length ns. wire C key (word_of_nat j) (ns ! j) (part (unat (ns ! j))) \<in> set (msg # msgs) \<longrightarrow> j \<in> used_fps ref m'"
  proof (intro allI impI)
    fix j assume j: "j < length ns" "wire C key (word_of_nat j) (ns ! j) (part (unat (ns ! j))) \<in> set (msg # msgs)"
    show "j \<in> used_fps ref m'"
    proof (cases "wire C key (word_of_nat j) (ns ! j) (part (unat (ns ! j))) \<in> set msgs")
      case True
      with 2(5) j(1) show ?thesis by simp
    next
      case False
      then have "wire C key (word_of_nat j) (ns ! j) (part (unat (ns ! j))) = msg" using j(2) by simp
      then have "j = k" by (rule ks [OF j(1)])
      then show ?thesis using subsetD [OF 2(4), of k] unfolding 1(4) by simp
    qed
  qed
  moreover have "receive_messages C K w m (msg # msgs) = Inr (calls @ calls', m', w')" using 1(1) 2(1) by simp
  moreover have "used_fps ref m \<subseteq> used_fps ref m'" using 1(4) 2(4) by blast
  ultimately show ?case using 2(2) same_transfer_trans [OF 1(3) 2(3)] by blast
qed simp

lemma rt_Delete_succeeds:
  assumes "deletes_succeed K" "rt_kept C K w rt h"
  shows "\<exists>w'. rt_Delete K w rt = Inr (None, w')"
proof -
  have d: "\<exists>w'. KV_Delete K h w key ver = (None, w')" for h w key ver
    using assms(1) by (metis deletes_succeed_def prod.collapse)
  have v: "\<exists>w'. sv_Delete K w (cym_fpVector (rt_cypherManager rt)) = Inr (None, w')"
    "\<exists>w'. sv_Delete K w (rt_partStatus rt) = Inr (None, w')" for w
    using assms(2) d by (auto simp: rt_kept_def cym_kept_def sv_kept_def stored_at_def sv_Delete_def)
  obtain w1 where 1: "KV_Delete K (cym_kv (rt_cypherManager rt)) w cypherManagerKeyStoreKey cypherManagerKeyStoreVersion = (None, w1)"
    using d by blast
  obtain w2 where 2: "sv_Delete K w1 (cym_fpVector (rt_cypherManager rt)) = Inr (None, w2)" using v(1) by blast
  obtain w3 where 3: "KV_Delete K (rt_kv rt) w2 receivedTransferStoreKey receivedTransferStoreVersion = (None, w3)" using d by blast
  obtain w4 where 4: "sv_Delete K w3 (rt_partStatus rt) = Inr (None, w4)" using v(2) by blast
  show ?thesis using 1 2 3 4 by (simp add: rt_Delete_def cym_Delete_def)
qed

end

lemma word_of_nat_of_u32: "(word_of_nat (unat (k :: u32)) :: u16) = ucast k"
  by simp

lemma receivingD:
  assumes "receiving C K h key ns part ref w m"
  shows "ref < length (mg_rts m)" "rt_kept C K w (mg_rts m ! ref) h"
    "i \<in> used_set (rt_partStatus (mg_rts m ! ref)) \<Longrightarrow> rt_parts (mg_rts m ! ref) ! i = part i"
    "k \<in> used_fps ref m \<Longrightarrow> k < length ns \<Longrightarrow> unat (ns ! k) \<in> used_set (rt_partStatus (mg_rts m ! ref))"
  using assms unfolding receiving_def Let_def by blast+

context versioned_kv
begin

lemma Receive_complete:
  assumes "sets_succeed K" "deletes_succeed K" "receiving C K h key ns part ref w m"
    and "map_of (tr_transfers (mg_received m)) tid = Some (Some ref)"
    and "used_set (rt_partStatus (mg_rts m ! ref)) = {..<length (rt_parts (mg_rts m ! ref))}"
  shows "\<exists>m' w'. ftm_Receive C ord K w m tid = Inr (Inr (rt_GetFile (mg_rts m ! ref)), m', w')"
proof -
  define rt where "rt = mg_rts m ! ref"
  note k = rt_keptD [OF receivingD(2) [OF assms(3)]]
  have "unat (GetNumUsed (rt_partStatus rt)) = unat (rt_numParts rt)"
    using num_used_card [of "rt_partStatus rt"] k(5,7) assms(5) by (simp add: rt_def sv_kept_def)
  then have "GetNumUsed (rt_partStatus rt) = ucast (rt_numParts rt)" by (simp add: word_unat_eq_iff)
  then have n: "rt_NumReceived rt = rt_numParts rt"
    using word_of_nat_of_u32 [of "ucast (rt_numParts rt)"] by (simp add: rt_NumReceived_def)
  obtain cs where c: "rt_GetUnusedCyphers rt = Inr cs"
    using k(2) by (simp add: rt_GetUnusedCyphers_def cym_GetUnusedCyphers_def cym_kept_def sv_kept_def GetUnusedKeyNums_eq rt_def)
  obtain w1 where d: "rt_Delete K w rt = Inr (None, w1)"
    using rt_Delete_succeeds [OF assms(2) receivingD(2) [OF assms(3)]] by (auto simp: rt_def)
  have "fst (received_RemoveTransfer C ord K w1 (mg_received m) tid) = None"
    using assms(1,4) by (simp add: received_RemoveTransfer_def received_save_def sets_succeed_def Let_def split: prod.splits)
      (metis fst_conv)
  then obtain s w2 where "received_RemoveTransfer C ord K w1 (mg_received m) tid = (None, s, w2)" by (metis prod.collapse)
  then show ?thesis
    using receivingD(1) [OF assms(3)] assms(4) n c d
    by (simp add: ftm_Receive_def tr_GetTransfer_def deref_def index_def rt_def [symmetric] Let_def)
qed

end

lemma received_AddTransfer_new:
  assumes "received_AddTransfer C ord K w s hp key tid name mac fsize np nf = Inr (Inr ref, s', hp', w')"
  obtains rt w0 where "newReceivedTransfer C K w key tid name mac fsize np nf (tr_kv s) = Inr (Inr rt, w0)"
    "received_save C ord K w0 s' = (None, w')" "s' = s\<lparr>tr_transfers := AList.update tid (Some (length hp)) (tr_transfers s)\<rparr>"
    "hp' = hp @ [rt]" "ref = length hp"
proof -
  from assms obtain r w1 where 1: "newReceivedTransfer C K w key tid name mac fsize np nf (tr_kv s) = Inr (r, w1)"
    by (auto simp: received_AddTransfer_def res_bind_Inr_iff split: if_splits)
  with assms obtain rt where 2: "r = Inr rt" by (cases r) (auto simp: received_AddTransfer_def split: if_splits)
  obtain e w2 where "received_save C ord K w1 (s\<lparr>tr_transfers := AList.update tid (Some (length hp)) (tr_transfers s)\<rparr>) = (e, w2)"
    by fastforce
  note 3 = this
  have "e = None" using assms 1 2 3 by (cases e) (auto simp: received_AddTransfer_def Let_def split: if_splits)
  with assms 1 2 3 have "s' = s\<lparr>tr_transfers := AList.update tid (Some (length hp)) (tr_transfers s)\<rparr>" "hp' = hp @ [rt]" "ref = length hp" "w2 = w'"
    by (auto simp: received_AddTransfer_def Let_def split: if_splits)
  with 1 2 3 \<open>e = None\<close> show thesis by (intro that) simp_all
qed

lemma addFingerprints_fresh:
  assumes "sv_inv (cym_fpVector (rt_cypherManager (mg_rts m ! ref)))" "used_fps ref m = {}"
    and "unat (sv_numKeys (cym_fpVector (rt_cypherManager (mg_rts m ! ref)))) < 2 ^ 16"
    and "cym_key (rt_cypherManager (mg_rts m ! ref)) = key" "inj (ftc_GenerateFingerprint C key)" "fm_wf (mg_fps m)"
    and "\<forall>c. fm_lookup (mg_fps m) (mg_myID m, ftc_GenerateFingerprint C key c) = None"
  shows "\<exists>f. addFingerprints C m ref = Inr (m\<lparr>mg_fps := f\<rparr>) \<and> fm_wf f \<and>
    (\<forall>k < unat (sv_numKeys (cym_fpVector (rt_cypherManager (mg_rts m ! ref)))).
       fm_lookup f (mg_myID m, ftc_GenerateFingerprint C key (word_of_nat k)) = Some (ref, word_of_nat k))"
proof -
  let ?n = "unat (sv_numKeys (cym_fpVector (rt_cypherManager (mg_rts m ! ref))))" and ?g = "ftc_GenerateFingerprint C key"
  let ?cs = "map word_of_nat [0..<?n] :: u16 list"
  have "(ucast (word_of_nat k :: u32) :: u16) = word_of_nat k" if "k < ?n" for k
    using unat_of_nat_below [OF that] word_of_nat_of_u32 [of "word_of_nat k"] by simp
  then have "rt_GetUnusedCyphers (mg_rts m ! ref) = Inr ?cs"
    using unused_of_fresh [OF assms(1,2)] by (simp add: rt_GetUnusedCyphers_def cym_GetUnusedCyphers_def)
  moreover have "distinct ?cs"
    using assms(3) u16_of_nat by (auto simp: distinct_map intro!: inj_onI) (metis)
  note f = fingerprints_added [OF assms(6,5) _ this, of "mg_myID m" ref]
  ultimately show ?thesis
    using f assms(4,5,7) by (auto simp: addFingerprints_def cy_GetFingerprint_def Let_def)
qed

context ekv_store
begin

lemma HandleIncoming_receiving:
  assumes "sets_succeed (versioned_ops E)" "derived ps (tr_kv (mg_received m))"
    and "inj (ftc_GenerateFingerprint C (ti_Key t))" "fm_wf (mg_fps m)"
    and "\<forall>c. fm_lookup (mg_fps m) (mg_myID m, ftc_GenerateFingerprint C (ti_Key t) c) = None"
    and "UnmarshalTransferInfo C P info = Some t"
    and "HandleIncomingTransfer C P N ord (versioned_ops E) w m tid info = Inr (Inr t', m', w')"
    and "length ns \<le> unat (calcNumberOfFingerprints N (int (unat (ti_NumParts t))) (ti_Retry t))"
    and "\<forall>n \<in> set ns. unat n < unat (ti_NumParts t)"
  shows "receiving C (versioned_ops E) (tr_kv (mg_received m)) (ti_Key t) ns part (length (mg_rts m)) w' m' \<and>
    map_of (tr_transfers (mg_received m')) tid = Some (Some (length (mg_rts m))) \<and>
    length (rt_parts (mg_rts m' ! length (mg_rts m))) = unat (ti_NumParts t) \<and>
    rt_fileSize (mg_rts m' ! length (mg_rts m)) = ti_Size t"
proof -
  let ?K = "versioned_ops E" and ?h = "tr_kv (mg_received m)" and ?ref = "length (mg_rts m)"
  let ?nf = "calcNumberOfFingerprints N (int (unat (ti_NumParts t))) (ti_Retry t)"
  define s where "s = (mg_received m)\<lparr>tr_transfers := AList.update tid (Some ?ref) (tr_transfers (mg_received m))\<rparr>"
  from assms(6,7) obtain r s' rts w1 where a: "received_AddTransfer C ord ?K w (mg_received m) (mg_rts m) (ti_Key t) tid
      (ti_FileName t) (ti_Mac t) (ti_Size t) (ti_NumParts t) ?nf = Inr (r, s', rts, w1)"
    unfolding HandleIncomingTransfer_def by (auto simp: res_bind_Inr_iff)
  with assms(6,7) obtain ref where r: "r = Inr ref"
    unfolding HandleIncomingTransfer_def by (cases r) auto
  obtain rt w0 where n: "newReceivedTransfer C ?K w (ti_Key t) tid (ti_FileName t) (ti_Mac t) (ti_Size t) (ti_NumParts t)
      ?nf ?h = Inr (Inr rt, w0)" "received_save C ord ?K w0 s' = (None, w1)" "s' = s" "rts = mg_rts m @ [rt]" "ref = ?ref"
    by (rule received_AddTransfer_new [OF a [unfolded r]]) (rule that, simp_all add: s_def)
  from n(1) obtain h1 h2 where p: "KV_Prefix ?K ?h (makeReceivedTransferPrefix tid) = Inr h1"
    "KV_Prefix ?K h1 cypherManagerPrefix = Inr h2" by (rule newReceivedTransfer_prefix)
  note ap = prefix_apart [OF assms(2) p]
  obtain rt1 w2 where "newReceivedTransfer C ?K w (ti_Key t) tid (ti_FileName t) (ti_Mac t) (ti_Size t) (ti_NumParts t)
      ?nf ?h = Inr (Inr rt1, w2)" "rt_kept C ?K w2 rt1 ?h" "rt_kv rt1 = h1" "cym_kv (rt_cypherManager rt1) = h2"
    "cym_key (rt_cypherManager rt1) = ti_Key t" "sv_numKeys (cym_fpVector (rt_cypherManager rt1)) = ucast ?nf"
    "used_set (cym_fpVector (rt_cypherManager rt1)) = {}" "rt_fileSize rt1 = ti_Size t" "used_set (rt_partStatus rt1) = {}"
    "rt_parts rt1 = replicate (unat (ti_NumParts t)) []"
    by (rule vkv.newReceivedTransfer_kept [OF assms(1) p ap(1,2)]) (rule that)
  with n(1) have k: "rt_kept C ?K w0 rt ?h" "rt_kv rt = h1" "cym_kv (rt_cypherManager rt) = h2"
    "cym_key (rt_cypherManager rt) = ti_Key t" "sv_numKeys (cym_fpVector (rt_cypherManager rt)) = ucast ?nf"
    "used_set (cym_fpVector (rt_cypherManager rt)) = {}" "rt_fileSize rt = ti_Size t" "used_set (rt_partStatus rt) = {}"
    "rt_parts rt = replicate (unat (ti_NumParts t)) []" by simp_all
  have "kv_writes ?K {?h} w0 w1"
    using n(2) by (simp add: received_save_def n(3) s_def) (rule kv_writes_one(1), assumption, simp add: receivedTransfersStoreKey_def)
  then have kept: "rt_kept C ?K w1 rt ?h" using rt_kept_frame [OF k(1)] ap(3,4) k(2,3) by blast
  define m1 where "m1 = m\<lparr>mg_received := s, mg_rts := mg_rts m @ [rt]\<rparr>"
  have m1: "mg_rts m1 ! ?ref = rt" "mg_fps m1 = mg_fps m" "mg_myID m1 = mg_myID m" by (simp_all add: m1_def)
  have nf: "unat (sv_numKeys (cym_fpVector (rt_cypherManager (mg_rts m1 ! ?ref)))) < 2 ^ 16"
    unfolding m1(1) k(5) unat_ucast_16_32 using unsigned_less [of ?nf, where ?'a = nat] by simp
  have inv: "sv_inv (cym_fpVector (rt_cypherManager rt))" using kept by (simp add: rt_kept_def cym_kept_def sv_kept_def)
  obtain f where f: "addFingerprints C m1 ?ref = Inr (m1\<lparr>mg_fps := f\<rparr>)" "fm_wf f"
    "\<forall>k < unat (sv_numKeys (cym_fpVector (rt_cypherManager rt))).
       fm_lookup f (mg_myID m, ftc_GenerateFingerprint C (ti_Key t) (word_of_nat k)) = Some (?ref, word_of_nat k)"
    using addFingerprints_fresh [of m1 ?ref "ti_Key t" C] inv k(4,6) nf assms(3-5) unfolding m1 by blast
  have m': "m' = m1\<lparr>mg_fps := f\<rparr>" "w' = w1"
    using assms(6,7) a r f(1) n(3-5) unfolding HandleIncomingTransfer_def by (auto simp: m1_def Let_def)
  have "receiving C ?K ?h (ti_Key t) ns part ?ref w' m'"
    unfolding receiving_def Let_def m' using kept k f nf assms(8,9) by (simp add: m1_def)
  then show ?thesis using k by (simp add: m' m1_def s_def map_of_update_fun)
qed

end

section \<open>Sending\<close>

text \<open>The sending thread on a sequence of packets that the network accepts: the parts with the messages they are sent as.\<close>

fun send_packets ::
  "'k ft_crypto \<Rightarrow> ('h, 'w) KV_ops \<Rightarrow> 'w \<Rightarrow> ('k, 'h) ft_manager \<Rightarrow> int \<Rightarrow> (nat \<times> u16) list list \<Rightarrow>
   fault + ((nat \<times> u16) \<times> bytes \<times> ft_msg) list \<times> ('k, 'h) ft_manager \<times> 'w" where
  "send_packets C K w m maxLen [] = Inr ([], m, w)"
| "send_packets C K w m maxLen (packet # packets) =
     res_bind (sendCmix C K w m maxLen True packet) (\<lambda>(msgs, validParts, calls, m1, w1).
     res_bind (send_packets C K w1 m1 maxLen packets) (\<lambda>(sent, m2, w2). Inr (zip validParts msgs @ sent, m2, w2)))"

lemma encrypt_packet_append:
  "encrypt_packet C K w hp L (xs @ ys) =
     res_bind (encrypt_packet C K w hp L xs) (\<lambda>(a, c, hp1, w1).
     res_bind (encrypt_packet C K w1 hp1 L ys) (\<lambda>(b, d, hp2, w2). Inr (a @ b, c @ d, hp2, w2)))"
proof (induction xs arbitrary: w hp)
  case Nil
  show ?case by (cases "encrypt_packet C K w hp L ys") auto
next
  case (Cons p xs)
  obtain ref n where p: "p = (ref, n)" by fastforce
  show ?case
  proof (cases "part_GetEncryptedPart C K w (hp ! ref) n L")
    case (Inr v)
    obtain r st w1 where v: "v = (r, st, w1)" by (metis prod.collapse)
    show ?thesis
    proof (cases "encrypt_packet C K w1 (hp[ref := st]) L xs")
      case e: (Inr u)
      obtain a c hp1 w2 where u: "u = (a, c, hp1, w2)" by (metis prod.collapse)
      show ?thesis
        using Cons.IH [of w1 "hp[ref := st]"] Inr v e u
        by (cases "encrypt_packet C K w2 hp1 L ys"; cases r) (auto simp: p)
    qed (use Cons.IH [of w1 "hp[ref := st]"] Inr v in \<open>simp add: p\<close>)
  qed (simp add: p)
qed

lemma send_packets_encrypt:
  assumes "encrypt_packet C K w (mg_sts m) L (concat packets) = Inr (msgs, calls, hp, w')"
  shows "\<exists>m'. send_packets C K w m L packets = Inr (msgs, m', w')"
  using assms
proof (induction packets arbitrary: w m msgs calls)
  case (Cons p packets)
  from Cons.prems obtain a c hp1 w1 where 1: "encrypt_packet C K w (mg_sts m) L p = Inr (a, c, hp1, w1)"
    by (auto simp: encrypt_packet_append res_bind_Inr_iff)
  with Cons.prems obtain b d where 2: "encrypt_packet C K w1 hp1 L (concat packets) = Inr (b, d, hp, w')" "msgs = a @ b"
    by (auto simp: encrypt_packet_append res_bind_Inr_iff)
  then obtain m' where "send_packets C K w1 (m\<lparr>mg_sts := hp1\<rparr>) L packets = Inr (b, m', w')"
    using Cons.IH [of w1 "m\<lparr>mg_sts := hp1\<rparr>"] by auto
  then show ?case using 1 2(2) by (simp add: sendCmix_def Let_def zip_map_fst_snd)
qed simp

lemma sent_AddTransfer_new:
  assumes "sent_AddTransfer C ord K w s hp recipient key tid name fsize parts nf = Inr (Inr ref, s', hp', w')"
  obtains st w0 where "newSentTransfer C K w recipient key tid name fsize parts nf (tr_kv s) = Inr (Inr st, w0)"
    "sent_save C ord K w0 s' = (None, w')" "tr_kv s' = tr_kv s" "hp' = hp @ [st]" "ref = length hp"
proof -
  from assms obtain r w1 where 1: "newSentTransfer C K w recipient key tid name fsize parts nf (tr_kv s) = Inr (r, w1)"
    by (auto simp: sent_AddTransfer_def res_bind_Inr_iff split: if_splits)
  with assms obtain st where 2: "r = Inr st" by (cases r) (auto simp: sent_AddTransfer_def split: if_splits)
  obtain e w2 where 3: "sent_save C ord K w1 (s\<lparr>tr_transfers := AList.update tid (Some (length hp)) (tr_transfers s)\<rparr>) = (e, w2)"
    by fastforce
  have "e = None" using assms 1 2 3 by (cases e) (auto simp: sent_AddTransfer_def Let_def split: if_splits)
  with assms 1 2 3 have "s' = s\<lparr>tr_transfers := AList.update tid (Some (length hp)) (tr_transfers s)\<rparr>" "hp' = hp @ [st]" "ref = length hp" "w2 = w'"
    by (auto simp: sent_AddTransfer_def Let_def split: if_splits)
  with 1 2 3 \<open>e = None\<close> show thesis by (intro that) simp_all
qed

lemma num_parts_small:
  assumes "length data \<le> FileMaxSize" "4 \<le> p"
  shows "num_parts data p < 2 ^ 16"
proof -
  have 1: "num_parts data p * p \<le> length data + p - 1" unfolding num_parts_def by simp
  show ?thesis
  proof (rule ccontr)
    assume "\<not> num_parts data p < 2 ^ 16"
    then have "2 ^ 16 * p \<le> num_parts data p * p" by simp
    from order_trans [OF this 1] have "2 ^ 16 * p \<le> length data + p - 1" .
    then have "65535 * p + p \<le> 250000 + p - 1" using assms(1) by (simp add: FileMaxSize_def)
    with assms(2) show False by linarith
  qed
qed

lemma Send_new:
  assumes "ftm_Send C P N ord K w m healthy (int L) mac sendNew key tid recipient name ftype data retry preview = Inr (Inr info, m', w')"
    and "6 \<le> L"
  obtains s ref where "sent_AddTransfer C ord K w (mg_sent m) (mg_sts m) recipient key tid name (word_of_nat (length data))
      (map (file_part data (L - 2)) [0..<num_parts data (L - 2)])
      (calcNumberOfFingerprints N (int (num_parts data (L - 2))) retry) = Inr (Inr ref, s, mg_sts m', w')"
    "ti_Marshal C P \<lparr>ti_FileName = name, ti_FileType = ftype, ti_Key = key, ti_Mac = mac data key,
       ti_NumParts = word_of_nat (num_parts data (L - 2)), ti_Size = word_of_nat (length data), ti_Retry = retry, ti_Preview = preview\<rparr> = Some info"
    "length data \<le> FileMaxSize"
    "\<exists>unsent. st_GetUnsentParts (mg_sts m' ! ref) = Inr unsent \<and> mg_batchQueue m' = mg_batchQueue m @ map (Pair ref) unsent"
proof -
  have p: "NewPartMessage (int L) = Inr (replicate L 0)" "pm_GetPartSize (replicate L 0) = L - 2"
    using part_message(1) [of "replicate (L - 2) 0" L] assms(2) by (simp_all add: pm_GetPartSize_def partNumLen_def)
  have q: "partitionFile data (L - 2) = Inr (map (file_part data (L - 2)) [0..<num_parts data (L - 2)])"
    using partition_loop_eq [of "L - 2" data "length data + 1"] assms(2) by (simp add: partitionFile_def del: partition_loop.simps)
  let ?nf = "calcNumberOfFingerprints N (int (num_parts data (L - 2))) retry"
  let ?parts = "map (file_part data (L - 2)) [0..<num_parts data (L - 2)]"
  have g: "length data \<le> FileMaxSize" using assms(1) by (auto simp: ftm_Send_def split: if_splits)
  obtain r s sts w1 where a: "sent_AddTransfer C ord K w (mg_sent m) (mg_sts m) recipient key tid name (word_of_nat (length data))
      ?parts ?nf = Inr (r, s, sts, w1)"
    using assms(1) p q unfolding ftm_Send_def Let_def
    by (auto simp: res_bind_Inr_iff split: if_splits option.splits)
  have t: "ti_Marshal C P \<lparr>ti_FileName = name, ti_FileType = ftype, ti_Key = key, ti_Mac = mac data key,
       ti_NumParts = word_of_nat (num_parts data (L - 2)), ti_Size = word_of_nat (length data), ti_Retry = retry, ti_Preview = preview\<rparr> = Some info"
    using assms(1) p q a unfolding ftm_Send_def Let_def
    by (cases r) (auto simp: res_bind_Inr_iff split: if_splits option.splits)
  obtain ref where r: "r = Inr ref"
    using assms(1) p q a t unfolding ftm_Send_def Let_def by (cases r) (auto split: if_splits)
  obtain unsent where "st_GetUnsentParts (sts ! ref) = Inr unsent" "m' = m\<lparr>mg_sent := s, mg_sts := sts,
      mg_batchQueue := mg_batchQueue m @ map (Pair ref) unsent\<rparr>" "w' = w1"
    using assms(1) p q a t r unfolding ftm_Send_def Let_def by (auto simp: res_bind_Inr_iff split: if_splits)
  with a r t g show thesis by (intro that [of ref s]) simp_all
qed

section \<open>Delivery\<close>

lemma unsent_of_fresh:
  assumes "st_kept C K w st h" "used_set (st_partStatus st) = {}" "length (st_parts st) < 2 ^ 16"
  shows "st_GetUnsentParts st = Inr (map word_of_nat [0..<length (st_parts st)])"
proof -
  note k = st_keptD [OF assms(1)]
  have "(ucast (word_of_nat j :: u32) :: u16) = word_of_nat j" if "j < length (st_parts st)" for j
    using that unat_of_nat_below [of j "sv_numKeys (st_partStatus st)"] k(6) word_of_nat_of_u32 [of "word_of_nat j"] by simp
  then show ?thesis
    using unused_of_fresh [of "st_partStatus st"] k(5,6) assms(2) by (simp add: st_GetUnsentParts_def sv_kept_def)
qed

context ekv_store
begin

lemma Send_packets:
  assumes "sets_succeed (versioned_ops E)" "derived ps (tr_kv (mg_sent m))" "6 \<le> L"
    and "ftm_Send C P N ord (versioned_ops E) w m healthy (int L) mac sendNew key tid recipient name ftype data retry preview =
      Inr (Inr info, m', w')"
    and "set (concat packets) = set (drop (length (mg_batchQueue m)) (mg_batchQueue m'))"
    and "length (concat packets) \<le> unat (calcNumberOfFingerprints N (int (num_parts data (L - 2))) retry)"
  shows "\<exists>ns m2 w2. concat packets = map (Pair (length (mg_sts m))) ns \<and>
    unat ` set ns = {..<num_parts data (L - 2)} \<and>
    send_packets C (versioned_ops E) w' m' (int L) packets =
      Inr (map (\<lambda>(k, n). ((length (mg_sts m), n), recipient, wire C key (word_of_nat k) n (file_part data (L - 2) (unat n))))
             (zip [0..<length ns] ns), m2, w2)"
proof -
  let ?K = "versioned_ops E" and ?h = "tr_kv (mg_sent m)" and ?parts = "map (file_part data (L - 2)) [0..<num_parts data (L - 2)]"
  let ?nf = "calcNumberOfFingerprints N (int (num_parts data (L - 2))) retry"
  obtain s ref where a: "sent_AddTransfer C ord ?K w (mg_sent m) (mg_sts m) recipient key tid name (word_of_nat (length data))
      ?parts ?nf = Inr (Inr ref, s, mg_sts m', w')" "length data \<le> FileMaxSize"
    "\<exists>unsent. st_GetUnsentParts (mg_sts m' ! ref) = Inr unsent \<and> mg_batchQueue m' = mg_batchQueue m @ map (Pair ref) unsent"
    by (rule Send_new [OF assms(4,3)]) (rule that)
  have np: "length ?parts < 2 ^ 16" using num_parts_small [OF a(2), of "L - 2"] assms(3) by simp
  obtain st w0 where n: "newSentTransfer C ?K w recipient key tid name (word_of_nat (length data)) ?parts ?nf ?h = Inr (Inr st, w0)"
    "sent_save C ord ?K w0 s = (None, w')" "tr_kv s = ?h" "mg_sts m' = mg_sts m @ [st]" "ref = length (mg_sts m)"
    by (rule sent_AddTransfer_new [OF a(1)]) (rule that)
  from n(1) obtain h1 h2 where p: "KV_Prefix ?K ?h (makeSentTransferPrefix tid) = Inr h1" "KV_Prefix ?K h1 cypherManagerPrefix = Inr h2"
    by (rule newSentTransfer_prefix)
  note ap = prefix_apart [OF assms(2) p]
  obtain st1 w1 where "newSentTransfer C ?K w recipient key tid name (word_of_nat (length data)) ?parts ?nf ?h = Inr (Inr st1, w1)"
    "st_kept C ?K w1 st1 ?h" "st_kv st1 = h1" "cym_kv (st_cypherManager st1) = h2" "cym_key (st_cypherManager st1) = key"
    "sv_numKeys (cym_fpVector (st_cypherManager st1)) = ucast ?nf" "used_set (cym_fpVector (st_cypherManager st1)) = {}"
    "st_parts st1 = ?parts" "used_set (st_partStatus st1) = {}" "st_recipient st1 = recipient"
    by (rule vkv.newSentTransfer_kept [OF assms(1) p ap(1,2) np]) (rule that)
  with n(1) have k: "st_kept C ?K w0 st ?h" "st_kv st = h1" "cym_kv (st_cypherManager st) = h2" "cym_key (st_cypherManager st) = key"
    "sv_numKeys (cym_fpVector (st_cypherManager st)) = ucast ?nf" "used_set (cym_fpVector (st_cypherManager st)) = {}"
    "st_parts st = ?parts" "used_set (st_partStatus st) = {}" "st_recipient st = recipient" by simp_all
  have "kv_writes ?K {?h} w0 w'"
    using n(2,3) by (simp add: sent_save_def) (rule kv_writes_one(1), assumption, simp add: sentTransfersStoreKey_def)
  then have kept: "st_kept C ?K w' st ?h" using st_kept_frame [OF k(1)] ap(3,4) k(2,3) by blast
  have st: "mg_sts m' ! ref = st" "ref < length (mg_sts m')" using n(4,5) by simp_all
  define ns where "ns = map snd (concat packets)"
  have q: "set (concat packets) = Pair ref ` word_of_nat ` {..<length ?parts}"
    using a(3) unsent_of_fresh [OF kept k(8)] np assms(5) unfolding st(1) k(7) by (auto simp: image_iff atLeast0LessThan)
  then have c: "concat packets = map (Pair ref) ns"
    unfolding ns_def map_map comp_def by (intro map_idI [symmetric]) auto
  have u: "unat ` set ns = {..<length ?parts}"
  proof -
    have "set ns = word_of_nat ` {..<length ?parts}" unfolding ns_def set_map q by (simp add: image_image)
    moreover have "unat (word_of_nat j :: u16) = j" if "j \<in> {..<length ?parts}" for j using that np u16_of_nat by simp
    ultimately show ?thesis by (simp add: image_image)
  qed
  have fl: "length (st_parts st ! unat n) + 2 = L" "unat n < length (st_parts st)" if "n \<in> set ns" for n
  proof -
    have "unat n \<in> {..<length ?parts}" using u that by blast
    then show "length (st_parts st ! unat n) + 2 = L" "unat n < length (st_parts st)"
      using length_file_part [of "L - 2" "unat n" data] assms(3) by (simp_all add: k(7))
  qed
  have "\<exists>hp' w2. encrypt_packet C ?K w' (mg_sts m') (int L) (map (Pair ref) ns) =
    Inr (map (\<lambda>(j, n). ((ref, n), st_recipient (mg_sts m' ! ref),
           wire C (cym_key (st_cypherManager (mg_sts m' ! ref))) (word_of_nat j) n (st_parts (mg_sts m' ! ref) ! unat n)))
         (zip [0..<0 + length ns] ns), [], hp', w2)"
    by (rule vkv.encrypt_packet_wire [OF assms(1) _ st(2)]; unfold st(1))
      (use kept fl k(5,6) assms(6) unsigned_less [of ?nf, where ?'a = nat] in \<open>simp_all add: c\<close>)
  then obtain hp' w2 where e: "encrypt_packet C ?K w' (mg_sts m') (int L) (concat packets) =
    Inr (map (\<lambda>(j, n). ((ref, n), recipient, wire C key (word_of_nat j) n (st_parts st ! unat n)))
         (zip [0..<length ns] ns), [], hp', w2)" unfolding st(1) k(4,9) c by auto
  have "map (\<lambda>(j, n). ((ref, n), recipient, wire C key (word_of_nat j) n (st_parts st ! unat n))) (zip [0..<length ns] ns) =
    map (\<lambda>(j, n). ((ref, n), recipient, wire C key (word_of_nat j) n (file_part data (L - 2) (unat n)))) (zip [0..<length ns] ns)"
    using fl(2) by (intro map_cong refl) (auto simp: k(7) dest!: set_zip_rightD)
  with send_packets_encrypt [OF e] c u show ?thesis unfolding n(5) by auto
qed

end

lemma announcement_unmarshal:
  assumes "ft_laws C" "\<And>x b. proto_Marshal P x = Some b \<Longrightarrow> proto_Unmarshal P b = Some x" "ti_Marshal C P t = Some info"
  shows "UnmarshalTransferInfo C P info = Some t"
  using assms(2) [OF assms(3) [unfolded ti_Marshal_def]] ft_lawsD(1) [OF assms(1)] word_of_nat_of_u32 [of "ucast (ti_NumParts t)"]
  by (simp add: UnmarshalTransferInfo_def)

lemma complete_file:
  assumes "rt_parts rt = map (file_part data p) [0..<num_parts data p]" "unat (rt_fileSize rt) = length data" "0 < p"
  shows "rt_GetFile rt = data"
proof -
  define c where "c = concat (rt_parts rt)"
  have "take (length data) c = data" "length data \<le> length c"
    using concat_file_parts [OF assms(3), of data] by (simp_all only: c_def assms(1))
  then show ?thesis
    unfolding rt_GetFile_def c_def [symmetric] assms(2) Let_def by (cases "length data < length c") simp_all
qed

context versioned_kv
begin

lemma receive_file:
  assumes "sets_succeed K" "deletes_succeed K" "ft_laws C" "inj (ftc_GenerateFingerprint C key)"
    and "receiving C K h key ns (file_part data p) ref w m" "map_of (tr_transfers (mg_received m)) tid = Some (Some ref)"
    and "length (rt_parts (mg_rts m ! ref)) = num_parts data p" "unat (rt_fileSize (mg_rts m ! ref)) = length data" "0 < p"
    and "\<forall>msg \<in> set received. \<exists>k < length ns. msg = wire C key (word_of_nat k) (ns ! k) (file_part data p (unat (ns ! k)))"
    and "\<forall>j < num_parts data p. \<exists>k < length ns. unat (ns ! k) = j \<and>
      wire C key (word_of_nat k) (ns ! k) (file_part data p (unat (ns ! k))) \<in> set received"
  shows "\<exists>calls m2 w2 m3 w3. receive_messages C K w m received = Inr (calls, m2, w2) \<and>
    ftm_Receive C ord K w2 m2 tid = Inr (Inr data, m3, w3)"
proof -
  obtain calls m2 w2 where r: "receive_messages C K w m received = Inr (calls, m2, w2)"
    "receiving C K h key ns (file_part data p) ref w2 m2" "same_transfer ref m m2"
    "\<forall>k < length ns. wire C key (word_of_nat k) (ns ! k) (file_part data p (unat (ns ! k))) \<in> set received \<longrightarrow> k \<in> used_fps ref m2"
    using receive_messages_wire [OF assms(1,3,4,5,10)] by blast
  define rt where "rt = mg_rts m2 ! ref"
  note k = rt_keptD [OF receivingD(2) [OF r(2)], folded rt_def]
  have c: "length (rt_parts rt) = num_parts data p" "unat (rt_fileSize rt) = length data"
    using r(3) assms(7,8) by (simp_all add: same_transfer_def rt_def)
  have "j \<in> used_set (rt_partStatus rt)" if "j < num_parts data p" for j
    using assms(11) that receivingD(4) [OF r(2)] r(4) unfolding rt_def by blast
  moreover have "used_set (rt_partStatus rt) \<subseteq> {..<num_parts data p}"
    using used_set_bound [of "rt_partStatus rt"] k(6,7) c(1) by simp
  ultimately have u: "used_set (rt_partStatus rt) = {..<num_parts data p}" by auto
  have "rt_parts rt = map (file_part data p) [0..<num_parts data p]"
    using receivingD(3) [OF r(2)] u c(1) by (intro nth_equalityI) (simp_all add: rt_def)
  then have "rt_GetFile rt = data" by (rule complete_file [OF _ c(2) assms(9)])
  moreover have "map_of (tr_transfers (mg_received m2)) tid = Some (Some ref)" using r(3) assms(6) by (simp add: same_transfer_def)
  ultimately show ?thesis
    using Receive_complete [OF assms(1,2) r(2)] r(1) u c(1) unfolding rt_def by metis
qed

end

text \<open>C13: A file arrives whole, although messages are lost, repeated, reordered and sent again. When \<open>Send\<close> has succeeded
  with a message length of at least six bytes, the parts it queued are sent in any packets, each part at least once and altogether
  not more often than the transfer has fingerprints, and the other side has taken the announcement, then \<open>sendCmix\<close>
  makes one message of every part of every packet; and whatever messages the other side receives of these, in
  whatever order and however often, as long as it receives every part once, no reception fails and \<open>Receive\<close> then returns exactly
  the file. What is used of the cryptography: a part decrypts to what was encrypted, and different numbers give
  different fingerprints, which nobody else has registered.\<close>

theorem file_delivered:
  assumes "ekv_store E" "sets_succeed (versioned_ops E)" "deletes_succeed (versioned_ops E)" "ft_laws C"
    and "inj (ftc_GenerateFingerprint C key)" "\<And>x b. proto_Marshal P x = Some b \<Longrightarrow> proto_Unmarshal P b = Some x"
    and "derived ps (tr_kv (mg_sent ms))" "derived qs (tr_kv (mg_received mr))" "6 \<le> L"
    and "fm_wf (mg_fps mr)" "\<forall>c. fm_lookup (mg_fps mr) (mg_myID mr, ftc_GenerateFingerprint C key c) = None"
    and "ftm_Send C P N ord (versioned_ops E) ws ms healthy (int L) mac sendNew key tid recipient name ftype data retry preview =
      Inr (Inr info, ms1, ws1)"
    and "HandleIncomingTransfer C P N ord' (versioned_ops E) wr mr rtid info = Inr (Inr t, mr1, wr1)"
    and "set (concat packets) = set (drop (length (mg_batchQueue ms)) (mg_batchQueue ms1))"
    and "length (concat packets) \<le> unat (calcNumberOfFingerprints N (int (num_parts data (L - 2))) retry)"
  shows "\<exists>sent ms2 ws2. send_packets C (versioned_ops E) ws1 ms1 (int L) packets = Inr (sent, ms2, ws2) \<and>
    map fst sent = concat packets \<and> (\<forall>x \<in> set sent. fst (snd x) = recipient) \<and>
    (\<forall>received. set received \<subseteq> (\<lambda>x. snd (snd x)) ` set sent \<longrightarrow>
       (\<forall>p \<in> set (concat packets). \<exists>msg \<in> set received. (p, recipient, msg) \<in> set sent) \<longrightarrow>
       (\<exists>calls mr2 wr2 mr3 wr3. receive_messages C (versioned_ops E) wr1 mr1 received = Inr (calls, mr2, wr2) \<and>
          ftm_Receive C ord' (versioned_ops E) wr2 mr2 rtid = Inr (Inr data, mr3, wr3)))"
proof -
  let ?K = "versioned_ops E" and ?p = "L - 2" and ?ref = "length (mg_rts mr)" and ?h = "tr_kv (mg_received mr)"
  define np where "np = num_parts data ?p"
  note v = ekv_store.versioned [OF assms(1)]
  obtain ns ms2 ws2 where s: "concat packets = map (Pair (length (mg_sts ms))) ns" "unat ` set ns = {..<np}"
    "send_packets C ?K ws1 ms1 (int L) packets =
      Inr (map (\<lambda>(k, n). ((length (mg_sts ms), n), recipient, wire C key (word_of_nat k) n (file_part data ?p (unat n))))
             (zip [0..<length ns] ns), ms2, ws2)"
    using ekv_store.Send_packets [OF assms(1,2,7,9,12,14,15)] unfolding np_def by auto
  let ?sent = "map (\<lambda>(k, n). ((length (mg_sts ms), n), recipient, wire C key (word_of_nat k) n (file_part data ?p (unat n))))
             (zip [0..<length ns] ns)"
  let ?info = "\<lparr>ti_FileName = name, ti_FileType = ftype, ti_Key = key, ti_Mac = mac data key,
       ti_NumParts = word_of_nat np, ti_Size = word_of_nat (length data), ti_Retry = retry, ti_Preview = preview\<rparr>"
  have i: "ti_Marshal C P ?info = Some info" and size: "length data \<le> FileMaxSize"
    by (rule Send_new [OF assms(12,9)], simp add: np_def)+
  have np: "np < 2 ^ 16" using num_parts_small [OF size, of ?p] assms(9) by (simp add: np_def)
  then have un: "unat (word_of_nat np :: u16) = np" by (simp add: unat_of_nat)
  have ui: "uint (word_of_nat np :: u16) = int np" using arg_cong [OF un, of int] by simp
  have us: "unat (word_of_nat (length data) :: u32) = length data" using size by (simp add: unat_of_nat FileMaxSize_def)
  have "unat n < np" if "n \<in> set ns" for n using s(2) that by blast
  then have h: "receiving C ?K ?h key ns (file_part data ?p) ?ref wr1 mr1"
    "map_of (tr_transfers (mg_received mr1)) rtid = Some (Some ?ref)" "length (rt_parts (mg_rts mr1 ! ?ref)) = np"
    "rt_fileSize (mg_rts mr1 ! ?ref) = word_of_nat (length data)"
    using ekv_store.HandleIncoming_receiving [OF assms(1,2,8) _ assms(10) _ announcement_unmarshal [OF assms(4,6) i] assms(13),
        of ns "file_part data ?p"] assms(5,11,15) s(1) un ui by (simp_all add: np_def)
  have "\<exists>calls mr2 wr2 mr3 wr3. receive_messages C ?K wr1 mr1 received = Inr (calls, mr2, wr2) \<and>
      ftm_Receive C ord' ?K wr2 mr2 rtid = Inr (Inr data, mr3, wr3)"
    if rs: "set received \<subseteq> (\<lambda>x. snd (snd x)) ` set ?sent"
      and cover: "\<forall>p \<in> set (concat packets). \<exists>msg \<in> set received. (p, recipient, msg) \<in> set ?sent" for received
  proof -
    let ?wire = "\<lambda>k. wire C key (word_of_nat k) (ns ! k) (file_part data ?p (unat (ns ! k)))"
    have sent: "\<exists>k < length ns. x = ((length (mg_sts ms), ns ! k), recipient, ?wire k)" if "x \<in> set ?sent" for x
    proof -
      from that obtain k where "k < length ns" "x = ((length (mg_sts ms), ns ! k), recipient, ?wire k)" by (auto simp: in_set_zip)
      then show ?thesis by blast
    qed
    have "\<exists>k < length ns. msg = ?wire k" if "msg \<in> set received" for msg
      using subsetD [OF rs that] sent by fastforce
    moreover have "\<exists>k < length ns. unat (ns ! k) = j \<and> ?wire k \<in> set received" if "j < np" for j
    proof -
      have "j \<in> unat ` set ns" unfolding s(2) using that by simp
      then obtain n where n: "n \<in> set ns" "unat n = j" by blast
      then have "(length (mg_sts ms), n) \<in> set (concat packets)" unfolding s(1) by simp
      with cover obtain msg where msg: "msg \<in> set received" "((length (mg_sts ms), n), recipient, msg) \<in> set ?sent" by blast
      from sent [OF msg(2)] obtain k where "k < length ns" "n = ns ! k" "msg = ?wire k" by blast
      with n(2) msg(1) show ?thesis by blast
    qed
    ultimately show ?thesis
      using versioned_kv.receive_file [OF v assms(2-5) h(1,2)] h(3,4) us assms(9) unfolding np_def by simp
  qed
  moreover have "map fst ?sent = concat packets"
    unfolding s(1) by (intro nth_equalityI) simp_all
  moreover have "\<forall>x \<in> set ?sent. fst (snd x) = recipient" by auto
  ultimately show ?thesis by (intro exI [of _ ?sent] exI [of _ ms2] exI [of _ ws2] conjI s(3) allI impI)
qed

definition proto_example :: "NewFileTransfer \<Rightarrow> proto_ops" where
  "proto_example x =
     \<lparr>proto_Marshal = (\<lambda>y. if y = x then Some [1] else None), proto_Unmarshal = (\<lambda>b. if b = [1] then Some x else None)\<rparr>"

definition f32_example :: f32_ops where
  "f32_example = \<lparr>f32_of_int = word_of_int, f32_add = (+), f32_mul = (*), f32_to_u16 = ucast\<rparr>"

definition ft_manager_example :: "(bytes, kv) ft_manager" where
  "ft_manager_example =
     \<lparr>mg_sent = \<lparr>tr_transfers = [], tr_kv = NewKV\<rparr>, mg_received = \<lparr>tr_transfers = [], tr_kv = NewKV\<rparr>, mg_sts = [], mg_rts = [],
      mg_batchQueue = [], mg_fps = newFingerprints [5], mg_myID = [5]\<rparr>"

abbreviation announced :: NewFileTransfer where
  "announced \<equiv> \<lparr>nft_FileName = ''f'', nft_FileType = ''t'', nft_TransferKey = [7], nft_TransferMac = [8], nft_NumParts = 2,
     nft_Size = 5, nft_Retry = 1, nft_Preview = []\<rparr>"

lemma file_parts_example:
  "num_parts [1, 2, 3, 4, 5 :: byte] 4 = 2" "map (file_part [1, 2, 3, 4, 5] 4) [0..<2] = [[1, 2, 3, 4], [5, 0, 0, 0]]"
  by code_simp+

lemma file_send_example:
  obtains ms1 ws1 where
    "ftm_Send ft_example (proto_example announced) f32_example id mem_KV Map.empty ft_manager_example True (int 6) (\<lambda>d k. [8])
       (\<lambda>i. True) [7] [9] [3] ''f'' ''t'' [1, 2, 3, 4, 5] 1 [] = Inr (Inr [1], ms1, ws1)"
    "mg_batchQueue ms1 = [(0, 0), (0, 1)]"
proof -
  obtain h1 h2 where p: "KV_Prefix mem_KV NewKV (makeSentTransferPrefix [9]) = Inr h1" "KV_Prefix mem_KV h1 cypherManagerPrefix = Inr h2"
    by (rule sent_example_prefix)
  obtain st w where n: "newSentTransfer ft_example mem_KV Map.empty [3] [7] [9] ''f'' 5 [[1, 2, 3, 4], [5, 0, 0, 0]] 4 NewKV = Inr (Inr st, w)"
    "st_kept ft_example mem_KV w st NewKV" "st_parts st = [[1, 2, 3, 4], [5, 0, 0, 0]]" "used_set (st_partStatus st) = {}"
    by (rule mem.vkv.newSentTransfer_kept [OF mem_sets p mem.prefix_apart(1,2) [OF derived_new p], of "[[1, 2, 3, 4], [5, 0, 0, 0]]"])
      (simp, rule that)
  obtain w1 where w1: "sent_save ft_example id mem_KV w \<lparr>tr_transfers = [([9], Some 0)], tr_kv = NewKV\<rparr> = (None, w1)"
    unfolding sent_save_def by (metis mem_sets sets_succeed_def prod.collapse)
  have u: "st_GetUnsentParts st = Inr [0, 1]"
  proof -
    have "map word_of_nat [0..<2] = [0, 1 :: u16]" by code_simp
    then show ?thesis using unsent_of_fresh [OF n(2,4)] by (simp add: n(3))
  qed
  have f: "NewPartMessage 6 = Inr (replicate 6 0)" using part_message(1) [of "replicate 4 0" 6] by simp
  have q: "partitionFile [1, 2, 3, 4, 5] 4 = Inr [[1, 2, 3, 4], [5, 0, 0, 0]]" by code_simp
  have c: "calcNumberOfFingerprints f32_example 2 1 = 4" by code_simp
  show thesis
    by (rule that [of "ft_manager_example\<lparr>mg_sent := \<lparr>tr_transfers = [([9], Some 0)], tr_kv = NewKV\<rparr>, mg_sts := [st],
          mg_batchQueue := [(0, 0), (0, 1)]\<rparr>" w1])
      (use n(1) w1 u f q c in \<open>simp_all add: ftm_Send_def FileNameMaxLen_def FileTypeMaxLen_def FileMaxSize_def PreviewMaxSize_def
         Let_def pm_GetPartSize_def partNumLen_def ti_Marshal_def proto_example_def ft_example_def sent_AddTransfer_def ft_manager_example_def\<close>)
qed

lemma put_le16_eq: "put_le16 a = put_le16 b \<Longrightarrow> a = b"
  using message_part(2) [of a "[]"] message_part(2) [of b "[]"] by simp

lemma file_announce_example:
  obtains t mr1 wr1 where
    "HandleIncomingTransfer ft_example (proto_example announced) f32_example id mem_KV Map.empty ft_manager_example [9] [1] =
       Inr (Inr t, mr1, wr1)"
proof -
  obtain h1 h2 where p: "KV_Prefix mem_KV NewKV (makeReceivedTransferPrefix [9]) = Inr h1" "KV_Prefix mem_KV h1 cypherManagerPrefix = Inr h2"
    by (rule received_example_prefix)
  obtain rt w where n: "newReceivedTransfer ft_example mem_KV Map.empty [7] [9] ''f'' [8] 5 2 4 NewKV = Inr (Inr rt, w)"
    "rt_kept ft_example mem_KV w rt NewKV"
    by (rule mem.vkv.newReceivedTransfer_kept [OF mem_sets p mem.prefix_apart(1,2) [OF derived_new p]]) (rule that)
  obtain w1 where w1: "received_save ft_example id mem_KV w \<lparr>tr_transfers = [([9], Some 0)], tr_kv = NewKV\<rparr> = (None, w1)"
    unfolding received_save_def by (metis mem_sets sets_succeed_def prod.collapse)
  have c: "calcNumberOfFingerprints f32_example 2 1 = 4" by code_simp
  have t: "UnmarshalTransferInfo ft_example (proto_example announced) [1] = Some \<lparr>ti_FileName = ''f'', ti_FileType = ''t'', ti_Key = [7],
      ti_Mac = [8], ti_NumParts = 2, ti_Size = 5, ti_Retry = 1, ti_Preview = []\<rparr>" by code_simp
  have a: "received_AddTransfer ft_example id mem_KV Map.empty (mg_received ft_manager_example) (mg_rts ft_manager_example) [7] [9] ''f'' [8] 5 2 4 =
      Inr (Inr 0, \<lparr>tr_transfers = [([9], Some 0)], tr_kv = NewKV\<rparr>, [rt], w1)"
    using n(1) w1 by (simp add: received_AddTransfer_def ft_manager_example_def)
  obtain cs where "rt_GetUnusedCyphers rt = Inr cs"
    using rt_keptD(2) [OF n(2)] by (simp add: rt_GetUnusedCyphers_def cym_GetUnusedCyphers_def cym_kept_def sv_kept_def GetUnusedKeyNums_eq)
  then obtain m2 where "addFingerprints ft_example (ft_manager_example\<lparr>mg_received := \<lparr>tr_transfers = [([9], Some 0)], tr_kv = NewKV\<rparr>,
      mg_rts := [rt]\<rparr>) 0 = Inr m2" by (simp add: addFingerprints_def)
  with a t c show thesis by (intro that) (simp add: HandleIncomingTransfer_def)
qed

theorem file_delivered_witness:
  "\<exists>ms1 ws1 t mr1 wr1 sent ms2 ws2.
     ftm_Send ft_example (proto_example announced) f32_example id mem_KV Map.empty ft_manager_example True (int 6) (\<lambda>d k. [8])
       (\<lambda>i. True) [7] [9] [3] ''f'' ''t'' [1, 2, 3, 4, 5] 1 [] = Inr (Inr [1], ms1, ws1) \<and>
     HandleIncomingTransfer ft_example (proto_example announced) f32_example id mem_KV Map.empty ft_manager_example [9] [1] =
       Inr (Inr t, mr1, wr1) \<and>
     send_packets ft_example mem_KV ws1 ms1 (int 6) [[(0, 1)], [(0, 0), (0, 1)]] = Inr (sent, ms2, ws2) \<and> length sent = 3 \<and>
     (\<exists>calls mr2 wr2 mr3 wr3.
        receive_messages ft_example mem_KV wr1 mr1 (rev (map (snd \<circ> snd) (tl sent)) @ map (snd \<circ> snd) (tl sent)) = Inr (calls, mr2, wr2) \<and>
        ftm_Receive ft_example id mem_KV wr2 mr2 [9] = Inr (Inr [1, 2, 3, 4, 5], mr3, wr3))"
proof -
  obtain ms1 ws1 where s: "ftm_Send ft_example (proto_example announced) f32_example id mem_KV Map.empty ft_manager_example True (int 6)
      (\<lambda>d k. [8]) (\<lambda>i. True) [7] [9] [3] ''f'' ''t'' [1, 2, 3, 4, 5] 1 [] = Inr (Inr [1], ms1, ws1)" "mg_batchQueue ms1 = [(0, 0), (0, 1)]"
    by (rule file_send_example)
  obtain t mr1 wr1 where h: "HandleIncomingTransfer ft_example (proto_example announced) f32_example id mem_KV Map.empty ft_manager_example [9] [1] =
       Inr (Inr t, mr1, wr1)" by (rule file_announce_example)
  let ?packets = "[[(0, 1)], [(0, 0), (0, 1)]] :: (nat \<times> u16) list list"
  have inj: "inj (ftc_GenerateFingerprint ft_example [7])"
    by (rule injI) (auto simp: ft_example_def dest!: put_le16_eq)
  have pr: "proto_Marshal (proto_example announced) x = Some b \<Longrightarrow> proto_Unmarshal (proto_example announced) b = Some x" for x b
    by (auto simp: proto_example_def split: if_splits)
  have q: "set (concat ?packets) = set (drop (length (mg_batchQueue ft_manager_example)) (mg_batchQueue ms1))"
    by (auto simp: s(2) ft_manager_example_def)
  have l: "length (concat ?packets) \<le> unat (calcNumberOfFingerprints f32_example (int (num_parts [1, 2, 3, 4, 5 :: byte] (6 - 2))) 1)"
    by code_simp
  have e: "derived [] (tr_kv (mg_sent ft_manager_example))" "derived [] (tr_kv (mg_received ft_manager_example))"
    "fm_wf (mg_fps ft_manager_example)" "\<forall>c. fm_lookup (mg_fps ft_manager_example) (mg_myID ft_manager_example, ftc_GenerateFingerprint ft_example [7] c) = None"
    by (simp_all add: ft_manager_example_def derived_new)
  have "6 \<le> (6 :: nat)" by simp
  note d = file_delivered [OF mem.ekv_store_axioms mem_sets mem_deletes ft_example_laws inj pr e(1,2) this e(3,4) s(1) h q l]
  then obtain sent ms2 ws2 where d: "send_packets ft_example mem_KV ws1 ms1 (int 6) ?packets = Inr (sent, ms2, ws2)" "map fst sent = concat ?packets"
    "\<forall>x \<in> set sent. fst (snd x) = [3]"
    "\<forall>received. set received \<subseteq> (\<lambda>x. snd (snd x)) ` set sent \<longrightarrow>
       (\<forall>p \<in> set (concat ?packets). \<exists>msg \<in> set received. (p, [3], msg) \<in> set sent) \<longrightarrow>
       (\<exists>calls mr2 wr2 mr3 wr3. receive_messages ft_example mem_KV wr1 mr1 received = Inr (calls, mr2, wr2) \<and>
          ftm_Receive ft_example id mem_KV wr2 mr2 [9] = Inr (Inr [1, 2, 3, 4, 5], mr3, wr3))" by blast
  from d(2,3) obtain a b c where sent: "sent = [((0, 1), [3], a), ((0, 0), [3], b), ((0, 1), [3], c)]"
    by (auto simp: map_eq_Cons_conv)
  from d(4) have "\<exists>calls mr2 wr2 mr3 wr3. receive_messages ft_example mem_KV wr1 mr1 [c, b, b, c] = Inr (calls, mr2, wr2) \<and>
          ftm_Receive ft_example id mem_KV wr2 mr2 [9] = Inr (Inr [1, 2, 3, 4, 5], mr3, wr3)"
    unfolding sent by (rule allE [of _ "[c, b, b, c]"]) auto
  with s(1) h d(1) show ?thesis unfolding sent by fastforce
qed

section \<open>Edge cases\<close>

text \<open>A transfer of an empty file has no part, and \<open>calcFileSize\<close> reads the first part: once \<open>Send\<close> has accepted an empty file,
  every later start of the client panics when it loads the transfer.\<close>

lemma empty_transfer_panics:
  assumes "ekv_store E" "sets_succeed (versioned_ops E)" "ft_laws C" "derived ps h"
    and "st_reachable C (versioned_ops E) h st w" "st_parts st = []"
  shows "loadSentTransfer C (versioned_ops E) w (st_tid st) h = Inl IndexOutOfRange"
proof -
  note kept = ekv_store.st_reachable_kept [OF assms(1,2,4,5)]
  note k = st_keptD [OF kept]
  obtain obj where o: "KV_Get (versioned_ops E) (st_kv st) w sentTransferStoreKey sentTransferStoreVersion = Inr obj"
    "obj_Data obj = st_marshal C (st\<lparr>st_status := Running\<rparr>)" using kept by (auto simp: st_kept_def)
  have "in_int64 (st_status (st\<lparr>st_status := Running\<rparr>))" by (simp add: Running_def in_int64_def)
  from unmarshal_sent [OF assms(3) this]
  have "unmarshalSentTransfer C (obj_Data obj) = Some (st_fileName st, st_recipient st, Running, [])" by (simp add: o(2) assms(6))
  then show ?thesis
    using k(1,5) o(1) cym_kept_load [OF assms(3) k(2)] by (simp add: loadSentTransfer_def sv_kept_def calcFileSize_def)
qed

text \<open>When \<open>SendMany\<close> fails, the parts of the packet are queued by \<open>sendCmix\<close> and, since it goes on to wait for the
  results of a round, once more by the callback when that round has not succeeded.\<close>

lemma failed_send_queues_twice:
  assumes "sendCmix C K w m maxLen False packet = Inr (msgs, validParts, calls, m1, w1)"
  shows "roundResultsCallback ord K w2 m1 validParts False =
    Inr ([], m1\<lparr>mg_batchQueue := mg_batchQueue m @ validParts @ validParts\<rparr>, w2)"
  using assms by (auto simp: sendCmix_def roundResultsCallback_def res_bind_Inr_iff Let_def)

end
