(* ===== verification/Channel_Storage.thy ===== *)
theory Channel_Storage
  imports Versioned_KV "HOL-Library.AList"
begin

text \<open>
  The storage scheme that the channels package uses for its maps of channels (muted users, commands of the
  replay blocker, leases): one object with the list of the channels and one object per channel with its
  entries. A layout says under which keys and in which JSON form; the functions that store and load are the
  same for all. The locale \<open>channel_layout\<close> states what a layout has to satisfy, and proves once that adding,
  changing and removing a channel keeps the stored map equal to the map in memory and that loading gives it back.
\<close>

section \<open>Hexadecimal strings\<close>

text \<open>\<open>hex.EncodeToString\<close>.\<close>

definition hex_char :: "nat \<Rightarrow> char" where
  "hex_char n = ''0123456789abcdef'' ! n"

definition hex_encode :: "bytes \<Rightarrow> string" where
  "hex_encode b = concat (map (\<lambda>x. [hex_char (unat x div 16), hex_char (unat x mod 16)]) b)"

definition hex_val :: "char \<Rightarrow> nat option" where
  "hex_val c =
     (let n = of_char c :: nat
      in if 48 \<le> n \<and> n \<le> 57 then Some (n - 48)
         else if 97 \<le> n \<and> n \<le> 102 then Some (n - 87)
         else if 65 \<le> n \<and> n \<le> 70 then Some (n - 55) else None)"

fun hex_decode :: "string \<Rightarrow> bytes option" where
  "hex_decode [] = Some []"
| "hex_decode [a] = None"
| "hex_decode (a # b # r) =
     (case (hex_val a, hex_val b, hex_decode r) of
        (Some x, Some y, Some s) \<Rightarrow> Some (word_of_nat (16 * x + y) # s)
      | _ \<Rightarrow> None)"

text \<open>The JSON form of an identifier (\<open>id.ID\<close>).\<close>

record id_codec =
  idJSON :: "bytes \<Rightarrow> json"
  jsonID :: "json \<Rightarrow> bytes option"

text \<open>Where and how the entries of the channels are stored.\<close>

record 'v chan_layout =
  lay_listKey :: string
  lay_listVer :: u64
  lay_key :: "bytes \<Rightarrow> string"
  lay_ver :: u64
  lay_enc :: "'v \<Rightarrow> json"
  lay_dec :: "json \<Rightarrow> 'v option"

type_synonym 'v chan_map = "(bytes \<times> (string \<times> 'v) list) list"

definition lay_storeChannels ::
  "id_codec \<Rightarrow> 'v chan_layout \<Rightarrow> (bytes list \<Rightarrow> bytes list) \<Rightarrow> ('h, 'w) KV_ops \<Rightarrow> 'w \<Rightarrow> 'h \<Rightarrow> 'v chan_map \<Rightarrow>
   kv_error option \<times> 'w" where
  "lay_storeChannels J L ord K w h m =
     KV_Set K h w (lay_listKey L)
       \<lparr>obj_Version = lay_listVer L, obj_Timestamp = KV_Now K w, obj_Data = Json (JArr (map (idJSON J) (ord (map fst m))))\<rparr>"

definition lay_loadChannels :: "id_codec \<Rightarrow> 'v chan_layout \<Rightarrow> ('h, 'w) KV_ops \<Rightarrow> 'w \<Rightarrow> 'h \<Rightarrow> kv_error + bytes list" where
  "lay_loadChannels J L K w h =
     res_bind (KV_Get K h w (lay_listKey L) (lay_listVer L)) (\<lambda>obj.
       case obj_Data obj of
         Raw _ \<Rightarrow> Inl KVFailure
       | Json j \<Rightarrow> (case json_list (jsonID J) j of None \<Rightarrow> Inl KVFailure | Some ids \<Rightarrow> Inr ids))"

definition lay_deleteMessages :: "'v chan_layout \<Rightarrow> ('h, 'w) KV_ops \<Rightarrow> 'w \<Rightarrow> 'h \<Rightarrow> bytes \<Rightarrow> kv_error option \<times> 'w" where
  "lay_deleteMessages L K w h cid = KV_Delete K h w (lay_key L cid) (lay_ver L)"

definition lay_messages :: "'v chan_map \<Rightarrow> bytes \<Rightarrow> (string \<times> 'v) list" where
  "lay_messages m cid = (case map_of m cid of None \<Rightarrow> [] | Some ms \<Rightarrow> ms)"

definition lay_storeMessages ::
  "'v chan_layout \<Rightarrow> ('h, 'w) KV_ops \<Rightarrow> 'w \<Rightarrow> 'h \<Rightarrow> 'v chan_map \<Rightarrow> bytes \<Rightarrow> kv_error option \<times> 'w" where
  "lay_storeMessages L K w h m cid =
     (if lay_messages m cid = [] then lay_deleteMessages L K w h cid
      else KV_Set K h w (lay_key L cid)
        \<lparr>obj_Version = lay_ver L, obj_Timestamp = KV_Now K w,
         obj_Data = Json (JObj (map (\<lambda>(k, v). (k, lay_enc L v)) (lay_messages m cid)))\<rparr>)"

fun json_map :: "(json \<Rightarrow> 'v option) \<Rightarrow> json \<Rightarrow> (string \<times> 'v) list option" where
  "json_map f (JObj fs) = those (map (\<lambda>(k, j). map_option (Pair k) (f j)) fs)"
| "json_map f JNull = Some []"
| "json_map f _ = None"

definition lay_loadMessages ::
  "'v chan_layout \<Rightarrow> ('h, 'w) KV_ops \<Rightarrow> 'w \<Rightarrow> 'h \<Rightarrow> bytes \<Rightarrow> kv_error + (string \<times> 'v) list" where
  "lay_loadMessages L K w h cid =
     res_bind (KV_Get K h w (lay_key L cid) (lay_ver L)) (\<lambda>obj.
       case obj_Data obj of
         Raw _ \<Rightarrow> Inl KVFailure
       | Json j \<Rightarrow> (case json_map (lay_dec L) j of None \<Rightarrow> Inl KVFailure | Some ms \<Rightarrow> Inr ms))"

definition lay_update ::
  "id_codec \<Rightarrow> 'v chan_layout \<Rightarrow> (bytes list \<Rightarrow> bytes list) \<Rightarrow> ('h, 'w) KV_ops \<Rightarrow> 'w \<Rightarrow> 'h \<Rightarrow> 'v chan_map \<Rightarrow> bytes \<Rightarrow> bool \<Rightarrow>
   kv_error option \<times> 'w" where
  "lay_update J L ord K w h m cid channelIdUpdate =
     (case lay_storeMessages L K w h m cid of
        (Some e, w1) \<Rightarrow> (Some e, w1)
      | (None, w1) \<Rightarrow> (if channelIdUpdate then lay_storeChannels J L ord K w1 h m else (None, w1)))"

text \<open>The loop that loads the channels stops at the first error; the assignment to the map entry may come before the
  error is tested (\<open>setNil\<close>), which leaves a nil map, the only empty entry there is.\<close>

fun lay_load_loop ::
  "'v chan_layout \<Rightarrow> ('h, 'w) KV_ops \<Rightarrow> 'w \<Rightarrow> 'h \<Rightarrow> bool \<Rightarrow> bytes list \<Rightarrow> 'v chan_map \<Rightarrow> kv_error option \<times> 'v chan_map" where
  "lay_load_loop L K w h setNil [] m = (None, m)"
| "lay_load_loop L K w h setNil (cid # cids) m =
     (case lay_loadMessages L K w h cid of
        Inl e \<Rightarrow> (Some e, if setNil then AList.update cid [] m else m)
      | Inr ms \<Rightarrow> lay_load_loop L K w h setNil cids (AList.update cid ms m))"

definition lay_load ::
  "id_codec \<Rightarrow> 'v chan_layout \<Rightarrow> ('h, 'w) KV_ops \<Rightarrow> 'w \<Rightarrow> 'h \<Rightarrow> bool \<Rightarrow> kv_error option \<times> 'v chan_map" where
  "lay_load J L K w h setNil =
     (case lay_loadChannels J L K w h of
        Inl e \<Rightarrow> (Some e, [])
      | Inr cids \<Rightarrow> lay_load_loop L K w h setNil cids [])"

section \<open>Laws\<close>

lemma hex_val_char: "n < 16 \<Longrightarrow> hex_val (hex_char n) = Some n"
proof -
  assume "n < 16"
  then have "n \<in> set [0..<16]" by simp
  moreover have "\<forall>n \<in> set [0..<16]. hex_val (hex_char n) = Some n" by code_simp
  ultimately show ?thesis by blast
qed

lemma hex_decode_encode [simp]: "hex_decode (hex_encode b) = Some b"
proof (induction b)
  case (Cons x b)
  have "unat x < 256" using unsigned_less [of x, where ?'a = nat] by simp
  then have "hex_val (hex_char (unat x div 16)) = Some (unat x div 16)" "hex_val (hex_char (unat x mod 16)) = Some (unat x mod 16)"
    by (simp_all add: hex_val_char)
  moreover have "word_of_nat (16 * (unat x div 16) + unat x mod 16) = x" by simp
  ultimately show ?case using Cons by (simp add: hex_encode_def)
qed (simp add: hex_encode_def)

lemma hex_encode_inj [simp]: "hex_encode a = hex_encode b \<longleftrightarrow> a = b"
  by (metis hex_decode_encode option.inject)

lemma hex_char_no_sep: "n < 16 \<Longrightarrow> hex_char n \<noteq> CHR 0x5C"
  using hex_val_char [of n] by (auto simp: hex_val_def)

lemma hex_encode_no_sep [simp]: "CHR 0x5C \<notin> set (hex_encode b)"
proof -
  have "hex_char (unat x div 16) \<noteq> CHR 0x5C" "hex_char (unat x mod 16) \<noteq> CHR 0x5C" for x :: byte
    using unsigned_less [of x, where ?'a = nat] by (auto intro!: hex_char_no_sep)
  then show ?thesis by (force simp: hex_encode_def)
qed

lemma set_map_filter_some: "set (List.map_filter f xs) = {y. \<exists>x \<in> set xs. f x = Some y}"
  by (induction xs) (auto simp: map_filter_simps split: option.splits)

definition id_order :: "('a list \<Rightarrow> 'a list) \<Rightarrow> bool" where
  "id_order ord = (\<forall>xs. set (ord xs) = set xs \<and> (distinct xs \<longrightarrow> distinct (ord xs)))"

lemma id_orderD: "id_order ord \<Longrightarrow> set (ord xs) = set xs" "id_order ord \<Longrightarrow> distinct xs \<Longrightarrow> distinct (ord xs)"
  by (simp_all add: id_order_def)


section \<open>The contract of a layout\<close>

text \<open>A map of channels whose entries are in storage; before the first channel is stored there is no list.\<close>

definition chan_kept :: "id_codec \<Rightarrow> 'v chan_layout \<Rightarrow> ('h, 'w) KV_ops \<Rightarrow> 'w \<Rightarrow> 'h \<Rightarrow> 'v chan_map \<Rightarrow> bool" where
  "chan_kept J L K w h m =
     (distinct (map fst m) \<and>
      (\<forall>c ms. map_of m c = Some ms \<longrightarrow> ms \<noteq> [] \<and> lay_loadMessages L K w h c = Inr ms) \<and>
      ((\<exists>cids. lay_loadChannels J L K w h = Inr cids \<and> set cids = dom (map_of m) \<and> distinct cids) \<or>
       m = [] \<and> lay_loadChannels J L K w h = Inl KeyNotFound))"

lemma chan_keptI:
  assumes "distinct (map fst m)" "\<And>c ms. map_of m c = Some ms \<Longrightarrow> ms \<noteq> [] \<and> lay_loadMessages L K w h c = Inr ms"
    and "lay_loadChannels J L K w h = Inr cids" "set cids = dom (map_of m)" "distinct cids"
  shows "chan_kept J L K w h m"
  unfolding chan_kept_def using assms by (simp del: map_of_eq_Some_iff)

lemma chan_keptD:
  assumes "chan_kept J L K w h m"
  shows "distinct (map fst m)" "map_of m c = Some ms \<Longrightarrow> ms \<noteq> [] \<and> lay_loadMessages L K w h c = Inr ms"
    "(\<exists>cids. lay_loadChannels J L K w h = Inr cids \<and> set cids = dom (map_of m) \<and> distinct cids) \<or>
       m = [] \<and> lay_loadChannels J L K w h = Inl KeyNotFound"
  using assms unfolding chan_kept_def by blast+

lemma ord_dom:
  assumes "\<And>xs. set (ord xs) = set xs"
  shows "set (ord (map fst m)) = dom (map_of m)"
  by (simp add: assms dom_map_of_conv_image_fst)

locale channel_layout =
  fixes J :: id_codec and L :: "'v chan_layout"
  assumes id_law: "jsonID J (idJSON J i) = Some i"
    and key_inj: "lay_key L c = lay_key L d \<Longrightarrow> c = d"
    and key_not_list: "lay_key L c \<noteq> lay_listKey L"
    and key_no_sep: "CHR 0x5C \<notin> set (lay_key L c)" "CHR 0x5C \<notin> set (lay_listKey L)"
    and dec_enc: "lay_dec L (lay_enc L v) = Some v"
begin

lemma json_list_ids: "json_list (jsonID J) (JArr (map (idJSON J) ids)) = Some ids"
  by (induction ids) (simp_all add: id_law)

lemma json_map_enc: "json_map (lay_dec L) (JObj (map (\<lambda>(k, v). (k, lay_enc L v)) ms)) = Some ms"
  by (induction ms) (auto simp: dec_enc)

lemma storeChannels_spec:
  assumes "versioned_kv K" "lay_storeChannels J L ord K w h m = (None, w')"
  shows "lay_loadChannels J L K w' h = Inr (ord (map fst m))" "lay_loadMessages L K w' h c = lay_loadMessages L K w h c"
    "kv_writes K {h} w w'"
proof -
  note s = versioned_kv.get_set_if [OF assms(1) assms(2) [unfolded lay_storeChannels_def]]
  show "lay_loadChannels J L K w' h = Inr (ord (map fst m))" unfolding lay_loadChannels_def s by (simp add: json_list_ids del: json_list.simps)
  show "lay_loadMessages L K w' h c = lay_loadMessages L K w h c" unfolding lay_loadMessages_def s using key_not_list [of c] by auto
  show "kv_writes K {h} w w'" by (rule kv_writes_one(1) [OF assms(2) [unfolded lay_storeChannels_def] key_no_sep(2)])
qed

lemma storeMessages_spec:
  assumes "versioned_kv K" "lay_storeMessages L K w h m cid = (None, w')"
  shows "lay_loadChannels J L K w' h = lay_loadChannels J L K w h"
    "c \<noteq> cid \<Longrightarrow> lay_loadMessages L K w' h c = lay_loadMessages L K w h c"
    "lay_messages m cid \<noteq> [] \<Longrightarrow> lay_loadMessages L K w' h cid = Inr (lay_messages m cid)"
    "kv_writes K {h} w w'"
proof -
  have "lay_loadChannels J L K w' h = lay_loadChannels J L K w h \<and>
    (c \<noteq> cid \<longrightarrow> lay_loadMessages L K w' h c = lay_loadMessages L K w h c) \<and>
    (lay_messages m cid \<noteq> [] \<longrightarrow> lay_loadMessages L K w' h cid = Inr (lay_messages m cid)) \<and> kv_writes K {h} w w'"
  proof (cases "lay_messages m cid = []")
    case True
    with assms(2) have d: "KV_Delete K h w (lay_key L cid) (lay_ver L) = (None, w')"
      by (simp add: lay_storeMessages_def lay_deleteMessages_def)
    note o = versioned_kv.get_delete_other [OF assms(1) d]
    have "KV_Get K h w' (lay_listKey L) (lay_listVer L) = KV_Get K h w (lay_listKey L) (lay_listVer L)"
      by (rule o) (use key_not_list [of cid] in auto)
    moreover have "KV_Get K h w' (lay_key L c) (lay_ver L) = KV_Get K h w (lay_key L c) (lay_ver L)" if "c \<noteq> cid"
      by (rule o) (use key_inj [of c cid] that in auto)
    ultimately show ?thesis
      using True kv_writes_one(2) [OF d key_no_sep(1)] by (simp add: lay_loadChannels_def lay_loadMessages_def)
  next
    case False
    with assms(2) have d: "KV_Set K h w (lay_key L cid) \<lparr>obj_Version = lay_ver L, obj_Timestamp = KV_Now K w,
         obj_Data = Json (JObj (map (\<lambda>(k, v). (k, lay_enc L v)) (lay_messages m cid)))\<rparr> = (None, w')"
      by (simp add: lay_storeMessages_def)
    note s = versioned_kv.get_set_if [OF assms(1) d]
    show ?thesis
      unfolding lay_loadChannels_def lay_loadMessages_def s
      using key_not_list [of cid] key_inj [of c cid] kv_writes_one(1) [OF d key_no_sep(1)] by (auto simp: json_map_enc simp del: json_map.simps)
  qed
  then show "lay_loadChannels J L K w' h = lay_loadChannels J L K w h"
    "c \<noteq> cid \<Longrightarrow> lay_loadMessages L K w' h c = lay_loadMessages L K w h c"
    "lay_messages m cid \<noteq> [] \<Longrightarrow> lay_loadMessages L K w' h cid = Inr (lay_messages m cid)"
    "kv_writes K {h} w w'" by simp_all
qed

lemma kept_put:
  assumes "versioned_kv K" "sets_succeed K" "\<And>xs. set (ord xs) = set xs" "\<And>xs. distinct xs \<Longrightarrow> distinct (ord xs)"
    and "chan_kept J L K w h m" "ms \<noteq> []"
  shows "\<exists>w'. lay_update J L ord K w h (AList.update c ms m) c (map_of m c = None) = (None, w') \<and>
    chan_kept J L K w' h (AList.update c ms m) \<and> kv_writes K {h} w w'"
proof -
  let ?m = "AList.update c ms m"
  have mc: "lay_messages ?m c = ms" by (simp add: lay_messages_def update_conv')
  then obtain w1 where w1: "lay_storeMessages L K w h ?m c = (None, w1)"
    using assms(2,6) unfolding lay_storeMessages_def by (metis sets_succeed_def prod.collapse)
  note s = storeMessages_spec [OF assms(1) w1]
  note k = chan_keptD [OF assms(5)]
  have dm: "distinct (map fst ?m)" by (rule distinct_update [OF k(1)])
  have l1: "xs \<noteq> [] \<and> lay_loadMessages L K w1 h d = Inr xs" if "map_of ?m d = Some xs" for d xs
  proof (cases "d = c")
    case True
    with that s(3) mc assms(6) show ?thesis by (simp add: update_conv')
  next
    case False
    with that have "map_of m d = Some xs" by (simp add: update_conv' del: map_of_eq_Some_iff)
    with k(2) s(2) [OF False] show ?thesis by simp
  qed
  show ?thesis
  proof (cases "map_of m c")
    case None
    obtain w2 where w2: "lay_storeChannels J L ord K w1 h ?m = (None, w2)"
      using assms(2) unfolding lay_storeChannels_def by (metis sets_succeed_def prod.collapse)
    note t = storeChannels_spec [OF assms(1) w2]
    have "chan_kept J L K w2 h ?m"
      by (rule chan_keptI [OF dm _ t(1) ord_dom [OF assms(3)] assms(4) [OF dm]]) (use l1 t(2) in simp)
    then show ?thesis using w1 w2 None kv_writes_trans [OF t(3) s(4)] by (simp add: lay_update_def)
  next
    case (Some xs)
    then have d: "dom (map_of ?m) = dom (map_of m)" by (auto simp: update_conv' simp del: map_of_eq_Some_iff)
    obtain cids where "lay_loadChannels J L K w h = Inr cids" "set cids = dom (map_of m)" "distinct cids"
      using k(3) Some by auto
    then have "chan_kept J L K w1 h ?m" using chan_keptI [OF dm l1] s(1) d by simp
    then show ?thesis using w1 s(4) Some by (simp add: lay_update_def)
  qed
qed

lemma kept_drop:
  assumes "versioned_kv K" "sets_succeed K" "deletes_succeed K" "\<And>xs. set (ord xs) = set xs" "\<And>xs. distinct xs \<Longrightarrow> distinct (ord xs)"
    and "chan_kept J L K w h m"
  shows "\<exists>w'. lay_update J L ord K w h (AList.delete c m) c True = (None, w') \<and>
    chan_kept J L K w' h (AList.delete c m) \<and> kv_writes K {h} w w'"
    "\<exists>w1 w'. lay_storeChannels J L ord K w h (AList.delete c m) = (None, w1) \<and> lay_deleteMessages L K w1 h c = (None, w') \<and>
      chan_kept J L K w' h (AList.delete c m) \<and> kv_writes K {h} w w'"
proof -
  let ?m = "AList.delete c m"
  have mc: "lay_messages ?m c = []" by (simp add: lay_messages_def delete_conv')
  note k = chan_keptD [OF assms(6)]
  have dm: "distinct (map fst ?m)" by (rule distinct_delete [OF k(1)])
  have st: "\<exists>w'. lay_storeChannels J L ord K w h ?m = (None, w')" for w
    using assms(2) unfolding lay_storeChannels_def by (metis sets_succeed_def prod.collapse)
  have dl: "\<exists>w'. lay_storeMessages L K w h ?m c = (None, w')" for w
    using assms(3) mc unfolding lay_storeMessages_def lay_deleteMessages_def by (metis deletes_succeed_def prod.collapse)
  have other: "map_of m d = Some xs \<and> d \<noteq> c" if "map_of ?m d = Some xs" for d xs
    using that by (auto simp: delete_conv' simp del: map_of_eq_Some_iff split: if_splits)
  obtain w1 where w1: "lay_storeMessages L K w h ?m c = (None, w1)" using dl by blast
  obtain w2 where w2: "lay_storeChannels J L ord K w1 h ?m = (None, w2)" using st by blast
  note s = storeMessages_spec [OF assms(1) w1] and t = storeChannels_spec [OF assms(1) w2]
  have "chan_kept J L K w2 h ?m"
    by (rule chan_keptI [OF dm _ t(1) ord_dom [OF assms(4)] assms(5) [OF dm]]) (use t(2) s(2) k(2) other in metis)
  then show "\<exists>w'. lay_update J L ord K w h ?m c True = (None, w') \<and> chan_kept J L K w' h ?m \<and> kv_writes K {h} w w'"
    using w1 w2 kv_writes_trans [OF t(3) s(4)] by (simp add: lay_update_def)
  obtain v1 where v1: "lay_storeChannels J L ord K w h ?m = (None, v1)" using st by blast
  obtain v2 where v2: "lay_storeMessages L K v1 h ?m c = (None, v2)" using dl by blast
  note s = storeMessages_spec [OF assms(1) v2] and t = storeChannels_spec [OF assms(1) v1]
  have "chan_kept J L K v2 h ?m"
    by (rule chan_keptI [OF dm _ _ ord_dom [OF assms(4)] assms(5) [OF dm]]) (use t(1,2) s(1,2) k(2) other in \<open>metis+\<close>)
  then show "\<exists>w1 w'. lay_storeChannels J L ord K w h ?m = (None, w1) \<and> lay_deleteMessages L K w1 h c = (None, w') \<and>
      chan_kept J L K w' h ?m \<and> kv_writes K {h} w w'"
    using v1 v2 mc kv_writes_trans [OF s(4) t(3)] by (auto simp: lay_storeMessages_def)
qed

lemma load_loop_kept:
  assumes "\<forall>c \<in> set cids. \<exists>ms. map_of m c = Some ms \<and> lay_loadMessages L K w h c = Inr ms" "distinct (map fst m0)"
  shows "\<exists>m'. lay_load_loop L K w h b cids m0 = (None, m') \<and>
    map_of m' = (\<lambda>c. if c \<in> set cids then map_of m c else map_of m0 c) \<and> distinct (map fst m')"
  using assms
proof (induction cids arbitrary: m0)
  case (Cons c cids)
  then obtain ms where ms: "map_of m c = Some ms" "lay_loadMessages L K w h c = Inr ms" by (auto simp del: map_of_eq_Some_iff)
  have "\<exists>m'. lay_load_loop L K w h b cids (AList.update c ms m0) = (None, m') \<and>
    map_of m' = (\<lambda>d. if d \<in> set cids then map_of m d else map_of (AList.update c ms m0) d) \<and> distinct (map fst m')"
    by (rule Cons.IH [OF _ distinct_update [OF Cons.prems(2)]]) (use Cons.prems(1) in simp)
  then show ?case using ms by (auto simp: update_conv' fun_eq_iff simp del: map_of_eq_Some_iff)
qed simp

text \<open>Loading gives back the map, up to the order of its entries.\<close>

lemma load_kept:
  assumes "chan_kept J L K w h m"
  shows "\<exists>e m'. lay_load J L K w h b = (e, m') \<and> (e = None \<or> e = Some KeyNotFound) \<and> map_of m' = map_of m \<and> distinct (map fst m')"
proof (cases "lay_loadChannels J L K w h")
  case (Inl e)
  with chan_keptD(3) [OF assms] show ?thesis by (auto simp: lay_load_def)
next
  case (Inr cids)
  with chan_keptD(3) [OF assms] have c: "set cids = dom (map_of m)" by auto
  have "\<forall>c \<in> set cids. \<exists>ms. map_of m c = Some ms \<and> lay_loadMessages L K w h c = Inr ms"
    unfolding c using chan_keptD(2) [OF assms] by (auto simp del: map_of_eq_Some_iff)
  from load_loop_kept [OF this, of "[]" b] obtain m' where m':
    "lay_load_loop L K w h b cids [] = (None, m')" "map_of m' = (\<lambda>c. if c \<in> set cids then map_of m c else map_of [] c)" "distinct (map fst m')"
    by auto
  moreover have "map_of m' = map_of m" unfolding m'(2) c by (auto simp: fun_eq_iff domIff)
  ultimately show ?thesis using Inr by (auto simp: lay_load_def simp del: map_of_eq_Some_iff)
qed

lemma kept_same:
  assumes "chan_kept J L K w h m" "map_of m' = map_of m" "distinct (map fst m')"
  shows "chan_kept J L K w h m'"
proof -
  have "m' = [] \<longleftrightarrow> m = []" using assms(2) by (metis map_of_eq_empty_iff)
  then show ?thesis using assms(1,3) unfolding chan_kept_def assms(2) by blast
qed

lemma kept_frame:
  assumes "chan_kept J L K w h m" "kv_writes K hs w w'" "\<And>u. u \<in> hs \<Longrightarrow> apart K u h"
  shows "chan_kept J L K w' h m"
  using assms(1) kv_writes_frame [OF assms(2,3) key_no_sep(1)] kv_writes_frame [OF assms(2,3) key_no_sep(2)]
  unfolding chan_kept_def lay_loadMessages_def lay_loadChannels_def by (simp del: map_of_eq_Some_iff)

end

text \<open>The JSON form of an identifier reads back.\<close>

locale id_json =
  fixes J :: id_codec
  assumes id_read: "jsonID J (idJSON J i) = Some i"

text \<open>A codec of identifiers as byte strings.\<close>

definition bytes_codec :: id_codec where
  "bytes_codec = \<lparr>idJSON = JBytes, jsonID = json_bytes\<rparr>"

interpretation bc: id_json bytes_codec
  by unfold_locales (simp add: bytes_codec_def)

lemma id_order_id [simp]: "id_order id"
  by (simp add: id_order_def)

end
