(* ===== verification/Muted_Users.thy ===== *)
theory Muted_Users
  imports Channel_Storage
begin

text \<open>
  The users an admin has muted in each channel (\<open>channels/mutedUsers.go\<close>), over the storage of channel maps.
\<close>

section \<open>Muted users\<close>

definition mutedChannelListStoreVer :: u64 where "mutedChannelListStoreVer = 0"
definition mutedChannelListStoreKey :: string where "mutedChannelListStoreKey = ''mutedChannelList''"
definition mutedUserListStoreVer :: u64 where "mutedUserListStoreVer = 0"
definition mutedUserListStorePrefix :: string where "mutedUserListStorePrefix = ''mutedUserList/''"

definition makeMutedUserKey :: "bytes \<Rightarrow> string" where
  "makeMutedUserKey pubKey = hex_encode pubKey"

text \<open>\<open>ed25519.PublicKeySize\<close> is 32.\<close>

definition muk_decode :: "string \<Rightarrow> bytes option" where
  "muk_decode k = (case hex_decode k of None \<Rightarrow> None | Some b \<Rightarrow> if length b \<noteq> 32 then None else Some b)"

definition makeMutedChannelStoreKey :: "bytes \<Rightarrow> string" where
  "makeMutedChannelStoreKey channelID = mutedUserListStorePrefix @ base64 channelID"

text \<open>The value of a user in the map is the empty struct.\<close>

fun json_struct :: "json \<Rightarrow> unit option" where
  "json_struct (JObj fs) = Some ()"
| "json_struct JNull = Some ()"
| "json_struct _ = None"

definition muted_layout :: "unit chan_layout" where
  "muted_layout =
     \<lparr>lay_listKey = mutedChannelListStoreKey, lay_listVer = mutedChannelListStoreVer, lay_key = makeMutedChannelStoreKey,
      lay_ver = mutedUserListStoreVer, lay_enc = (\<lambda>_. JObj []), lay_dec = json_struct\<rparr>"

record 'h mutedUserManager =
  mum_list :: "unit chan_map"
  mum_kv :: 'h

definition newMutedUserManager :: "'h \<Rightarrow> 'h mutedUserManager" where
  "newMutedUserManager kv = \<lparr>mum_list = [], mum_kv = kv\<rparr>"

definition mum_load :: "id_codec \<Rightarrow> ('h, 'w) KV_ops \<Rightarrow> 'w \<Rightarrow> 'h mutedUserManager \<Rightarrow> kv_error option \<times> 'h mutedUserManager" where
  "mum_load J K w mum =
     (let (err, m) = lay_load J muted_layout K w (mum_kv mum) False in (err, mum\<lparr>mum_list := m\<rparr>))"

definition newOrLoadMutedUserManager :: "id_codec \<Rightarrow> ('h, 'w) KV_ops \<Rightarrow> 'w \<Rightarrow> 'h \<Rightarrow> kv_error + 'h mutedUserManager" where
  "newOrLoadMutedUserManager J K w kv =
     (case mum_load J K w (newMutedUserManager kv) of
        (Some err, mum) \<Rightarrow> (if Exists err then Inl err else Inr mum)
      | (None, mum) \<Rightarrow> Inr mum)"

definition mum_save ::
  "id_codec \<Rightarrow> (bytes list \<Rightarrow> bytes list) \<Rightarrow> ('h, 'w) KV_ops \<Rightarrow> 'w \<Rightarrow> 'h mutedUserManager \<Rightarrow> bytes \<Rightarrow> bool \<Rightarrow> kv_error option \<times> 'w" where
  "mum_save J ord K w mum channelID channelIdUpdate =
     lay_update J muted_layout ord K w (mum_kv mum) (mum_list mum) channelID channelIdUpdate"

definition muteUser ::
  "id_codec \<Rightarrow> (bytes list \<Rightarrow> bytes list) \<Rightarrow> ('h, 'w) KV_ops \<Rightarrow> 'w \<Rightarrow> 'h mutedUserManager \<Rightarrow> bytes \<Rightarrow> bytes \<Rightarrow>
   fault + 'h mutedUserManager \<times> 'w" where
  "muteUser J ord K w mum channelID userPubKey =
     (let channelIdUpdate = (map_of (mum_list mum) channelID = None);
          users = AList.update (makeMutedUserKey userPubKey) () (lay_messages (mum_list mum) channelID);
          mum1 = mum\<lparr>mum_list := AList.update channelID users (mum_list mum)\<rparr>
      in case mum_save J ord K w mum1 channelID channelIdUpdate of
           (Some err, w1) \<Rightarrow> Inl FatalPanic
         | (None, w1) \<Rightarrow> Inr (mum1, w1))"

definition unmuteUser ::
  "id_codec \<Rightarrow> (bytes list \<Rightarrow> bytes list) \<Rightarrow> ('h, 'w) KV_ops \<Rightarrow> 'w \<Rightarrow> 'h mutedUserManager \<Rightarrow> bytes \<Rightarrow> bytes \<Rightarrow>
   fault + 'h mutedUserManager \<times> 'w" where
  "unmuteUser J ord K w mum channelID userPubKey =
     (case map_of (mum_list mum) channelID of
        None \<Rightarrow> Inr (mum, w)
      | Some mutedUsers \<Rightarrow>
          (let users = AList.delete (makeMutedUserKey userPubKey) mutedUsers;
               mum1 = (if users = [] then mum\<lparr>mum_list := AList.delete channelID (mum_list mum)\<rparr>
                       else mum\<lparr>mum_list := AList.update channelID users (mum_list mum)\<rparr>)
           in case mum_save J ord K w mum1 channelID (users = []) of
                (Some err, w1) \<Rightarrow> Inl FatalPanic
              | (None, w1) \<Rightarrow> Inr (mum1, w1)))"

definition isMuted :: "'h mutedUserManager \<Rightarrow> bytes \<Rightarrow> bytes \<Rightarrow> bool" where
  "isMuted mum channelID userPubKey =
     (case map_of (mum_list mum) channelID of
        None \<Rightarrow> False
      | Some mutedUsers \<Rightarrow> map_of mutedUsers (makeMutedUserKey userPubKey) \<noteq> None)"

definition getMutedUsers :: "(string list \<Rightarrow> string list) \<Rightarrow> 'h mutedUserManager \<Rightarrow> bytes \<Rightarrow> bytes list" where
  "getMutedUsers ord mum channelID =
     (case map_of (mum_list mum) channelID of
        None \<Rightarrow> []
      | Some mutedUsers \<Rightarrow> List.map_filter muk_decode (ord (map fst mutedUsers)))"

definition mum_removeChannel ::
  "id_codec \<Rightarrow> (bytes list \<Rightarrow> bytes list) \<Rightarrow> ('h, 'w) KV_ops \<Rightarrow> 'w \<Rightarrow> 'h mutedUserManager \<Rightarrow> bytes \<Rightarrow>
   kv_error option \<times> 'h mutedUserManager \<times> 'w" where
  "mum_removeChannel J ord K w mum channelID =
     (if map_of (mum_list mum) channelID = None then (None, mum, w)
      else
        let mum1 = mum\<lparr>mum_list := AList.delete channelID (mum_list mum)\<rparr>
        in case lay_storeChannels J muted_layout ord K w (mum_kv mum) (mum_list mum1) of
             (Some err, w1) \<Rightarrow> (Some err, mum1, w1)
           | (None, w1) \<Rightarrow>
               (let (err, w2) = lay_deleteMessages muted_layout K w1 (mum_kv mum) channelID in (err, mum1, w2)))"

definition mum_len :: "'h mutedUserManager \<Rightarrow> bytes \<Rightarrow> int" where
  "mum_len mum channelID = int (length (lay_messages (mum_list mum) channelID))"

lemma muted_keys:
  "CHR 0x5C \<notin> set mutedUserListStorePrefix" "CHR 0x5C \<notin> set mutedChannelListStoreKey"
  by (simp_all add: mutedUserListStorePrefix_def mutedChannelListStoreKey_def)

sublocale id_json \<subseteq> mu: channel_layout J muted_layout
  by unfold_locales
    (auto simp: muted_layout_def id_read makeMutedChannelStoreKey_def muted_keys base64_no_separator mutedUserListStorePrefix_def mutedChannelListStoreKey_def dest: base64_inj)

text \<open>The runs of the manager with the set of users that are muted by the calls: users are muted and unmuted, channels left,
  the client restarts at any moment between calls, and the rest of the client writes elsewhere.\<close>

inductive mum_run ::
  "id_codec \<Rightarrow> ('h, 'w) KV_ops \<Rightarrow> 'h \<Rightarrow> (bytes \<times> bytes) set \<Rightarrow> 'h mutedUserManager \<Rightarrow> 'w \<Rightarrow> bool" for J K h where
  mum_start: "KV_Get K h w mutedChannelListStoreKey mutedChannelListStoreVer = Inl KeyNotFound \<Longrightarrow>
    newOrLoadMutedUserManager J K w h = Inr mum \<Longrightarrow> mum_run J K h {} mum w"
| mum_mute: "mum_run J K h A mum w \<Longrightarrow> id_order ord \<Longrightarrow> muteUser J ord K w mum c u = Inr (mum', w') \<Longrightarrow>
    mum_run J K h (insert (c, u) A) mum' w'"
| mum_unmute: "mum_run J K h A mum w \<Longrightarrow> id_order ord \<Longrightarrow> unmuteUser J ord K w mum c u = Inr (mum', w') \<Longrightarrow>
    mum_run J K h (A - {(c, u)}) mum' w'"
| mum_leave: "mum_run J K h A mum w \<Longrightarrow> id_order ord \<Longrightarrow> mum_removeChannel J ord K w mum c = (r, mum', w') \<Longrightarrow>
    mum_run J K h {p \<in> A. fst p \<noteq> c} mum' w'"
| mum_restart: "mum_run J K h A mum w \<Longrightarrow> newOrLoadMutedUserManager J K w h = Inr mum' \<Longrightarrow> mum_run J K h A mum' w"
| mum_other: "mum_run J K h A mum w \<Longrightarrow> kv_writes K hs w w' \<Longrightarrow> (\<And>u. u \<in> hs \<Longrightarrow> apart K u h) \<Longrightarrow> mum_run J K h A mum w'"

definition mum_inv ::
  "id_codec \<Rightarrow> ('h, 'w) KV_ops \<Rightarrow> 'h \<Rightarrow> (bytes \<times> bytes) set \<Rightarrow> 'h mutedUserManager \<Rightarrow> 'w \<Rightarrow> bool" where
  "mum_inv J K h A mum w =
     (mum_kv mum = h \<and> chan_kept J muted_layout K w h (mum_list mum) \<and>
      (\<forall>c. distinct (map fst (lay_messages (mum_list mum) c)) \<and>
           fst ` set (lay_messages (mum_list mum) c) = makeMutedUserKey ` {u. (c, u) \<in> A}))"

lemma muted_key_inj [simp]: "makeMutedUserKey u = makeMutedUserKey v \<longleftrightarrow> u = v"
  by (simp add: makeMutedUserKey_def)

lemma isMuted_inv:
  assumes "mum_inv J K h A mum w"
  shows "isMuted mum c u \<longleftrightarrow> (c, u) \<in> A"
proof -
  have "isMuted mum c u \<longleftrightarrow> makeMutedUserKey u \<in> fst ` set (lay_messages (mum_list mum) c)"
    using map_of_eq_None_iff [of "lay_messages (mum_list mum) c"]
    by (cases "map_of (mum_list mum) c") (simp_all add: isMuted_def lay_messages_def del: map_of_eq_Some_iff map_of_eq_None_iff)
  also have "\<dots> \<longleftrightarrow> (c, u) \<in> A" using assms by (auto simp: mum_inv_def)
  finally show ?thesis .
qed

lemma getMutedUsers_inv:
  assumes "mum_inv J K h A mum w" "id_order ord" "\<And>u. (c, u) \<in> A \<Longrightarrow> length u = 32"
  shows "set (getMutedUsers ord mum c) = {u. (c, u) \<in> A}"
proof -
  have k: "fst ` set (lay_messages (mum_list mum) c) = makeMutedUserKey ` {u. (c, u) \<in> A}" using assms(1) by (simp add: mum_inv_def)
  have d: "muk_decode (makeMutedUserKey u) = (if length u = 32 then Some u else None)" for u
    by (simp add: muk_decode_def makeMutedUserKey_def)
  have "getMutedUsers ord mum c = List.map_filter muk_decode (ord (map fst (lay_messages (mum_list mum) c)))"
    using id_orderD(1) [OF assms(2), of "[] :: string list"]
    by (simp add: getMutedUsers_def lay_messages_def map_filter_def split: option.splits)
  also have "set \<dots> = {u. \<exists>k \<in> fst ` set (lay_messages (mum_list mum) c). muk_decode k = Some u}"
    by (simp add: set_map_filter_some id_orderD(1) [OF assms(2)])
  also have "\<dots> = {u. (c, u) \<in> A}" unfolding k using assms(3) by (auto simp: d split: if_splits)
  finally show ?thesis .
qed

context id_json
begin

lemma muted_channel_layout: "channel_layout J muted_layout"
  by (rule mu.channel_layout_axioms)

lemma muteUser_inv:
  assumes "versioned_kv K" "sets_succeed K" "id_order ord" "mum_inv J K h A mum w"
  shows "\<exists>mum' w'. muteUser J ord K w mum c u = Inr (mum', w') \<and> mum_inv J K h (insert (c, u) A) mum' w'"
proof -
  let ?us = "AList.update (makeMutedUserKey u) () (lay_messages (mum_list mum) c)"
  have i: "mum_kv mum = h" "chan_kept J muted_layout K w h (mum_list mum)" "distinct (map fst (lay_messages (mum_list mum) d))"
    "fst ` set (lay_messages (mum_list mum) d) = makeMutedUserKey ` {u. (d, u) \<in> A}" for d
    using assms(4) by (simp_all add: mum_inv_def)
  have "?us \<noteq> []" using dom_update [of "makeMutedUserKey u" "()" "lay_messages (mum_list mum) c"] by auto
  from mu.kept_put [OF assms(1,2) id_orderD [OF assms(3)] i(2) this, of c] obtain w' where
    w': "lay_update J muted_layout ord K w h (AList.update c ?us (mum_list mum)) c (map_of (mum_list mum) c = None) = (None, w')"
    "chan_kept J muted_layout K w' h (AList.update c ?us (mum_list mum))" by blast
  have "fst ` set ?us = insert (makeMutedUserKey u) (makeMutedUserKey ` {u. (c, u) \<in> A})"
    using dom_update [of "makeMutedUserKey u" "()" "lay_messages (mum_list mum) c"] i(4) by (simp add: dom_map_of_conv_image_fst)
  then have "mum_inv J K h (insert (c, u) A) (mum\<lparr>mum_list := AList.update c ?us (mum_list mum)\<rparr>) w'"
    using i w'(2) distinct_update [OF i(3) [of c], of "makeMutedUserKey u" "()"]
    by (auto simp: mum_inv_def lay_messages_def update_conv' simp del: map_of_eq_Some_iff)
  then show ?thesis using w'(1) i(1) by (simp add: muteUser_def mum_save_def Let_def)
qed

lemma unmuteUser_inv:
  assumes "versioned_kv K" "sets_succeed K" "deletes_succeed K" "id_order ord" "mum_inv J K h A mum w"
  shows "\<exists>mum' w'. unmuteUser J ord K w mum c u = Inr (mum', w') \<and> mum_inv J K h (A - {(c, u)}) mum' w'"
proof (cases "map_of (mum_list mum) c")
  case None
  with assms(5) isMuted_inv [OF assms(5), of c u] have "A - {(c, u)} = A" by (auto simp: isMuted_def)
  with None assms(5) show ?thesis by (simp add: unmuteUser_def)
next
  case (Some us)
  let ?us = "AList.delete (makeMutedUserKey u) us"
  have i: "mum_kv mum = h" "chan_kept J muted_layout K w h (mum_list mum)" "distinct (map fst (lay_messages (mum_list mum) d))"
    "fst ` set (lay_messages (mum_list mum) d) = makeMutedUserKey ` {u. (d, u) \<in> A}" for d
    using assms(5) by (simp_all add: mum_inv_def)
  have us: "lay_messages (mum_list mum) c = us" using Some by (simp add: lay_messages_def)
  have k: "fst ` set ?us = makeMutedUserKey ` {v. (c, v) \<in> A - {(c, u)}}"
  proof -
    have "dom (map_of ?us) = dom (map_of us) - {makeMutedUserKey u}" unfolding delete_conv' by auto
    then have "fst ` set ?us = fst ` set us - {makeMutedUserKey u}" by (simp add: dom_map_of_conv_image_fst)
    then show ?thesis using i(4) [of c] us by auto
  qed
  have d: "distinct (map fst ?us)" using distinct_delete [OF i(3) [of c]] us by simp
  show ?thesis
  proof (cases "?us = []")
    case True
    from mu.kept_drop(1) [OF assms(1-3) id_orderD [OF assms(4)] i(2), of c] obtain w' where
      w': "lay_update J muted_layout ord K w h (AList.delete c (mum_list mum)) c True = (None, w')"
      "chan_kept J muted_layout K w' h (AList.delete c (mum_list mum))" by blast
    have "mum_inv J K h (A - {(c, u)}) (mum\<lparr>mum_list := AList.delete c (mum_list mum)\<rparr>) w'"
      using i w'(2) k True by (auto simp: mum_inv_def lay_messages_def delete_conv' simp del: map_of_eq_Some_iff)
    then show ?thesis using w'(1) i(1) True Some by (simp add: unmuteUser_def mum_save_def Let_def)
  next
    case False
    from mu.kept_put [OF assms(1,2) id_orderD [OF assms(4)] i(2) False, of c] Some obtain w' where
      w': "lay_update J muted_layout ord K w h (AList.update c ?us (mum_list mum)) c False = (None, w')"
      "chan_kept J muted_layout K w' h (AList.update c ?us (mum_list mum))" by auto
    have "mum_inv J K h (A - {(c, u)}) (mum\<lparr>mum_list := AList.update c ?us (mum_list mum)\<rparr>) w'"
      using i w'(2) k d by (auto simp: mum_inv_def lay_messages_def update_conv' simp del: map_of_eq_Some_iff)
    then show ?thesis using w'(1) i(1) False Some by (simp add: unmuteUser_def mum_save_def Let_def)
  qed
qed

lemma removeChannel_inv:
  assumes "versioned_kv K" "sets_succeed K" "deletes_succeed K" "id_order ord" "mum_inv J K h A mum w"
  shows "\<exists>mum' w'. mum_removeChannel J ord K w mum c = (None, mum', w') \<and> mum_inv J K h {p \<in> A. fst p \<noteq> c} mum' w'"
proof (cases "map_of (mum_list mum) c")
  case None
  with isMuted_inv [OF assms(5), of c] have "{p \<in> A. fst p \<noteq> c} = A" by (auto simp: isMuted_def)
  with None assms(5) show ?thesis by (simp add: mum_removeChannel_def)
next
  case (Some us)
  have i: "mum_kv mum = h" "chan_kept J muted_layout K w h (mum_list mum)" "distinct (map fst (lay_messages (mum_list mum) d))"
    "fst ` set (lay_messages (mum_list mum) d) = makeMutedUserKey ` {u. (d, u) \<in> A}" for d
    using assms(5) by (simp_all add: mum_inv_def)
  from mu.kept_drop(2) [OF assms(1-3) id_orderD [OF assms(4)] i(2), of c] obtain w1 w' where
    w': "lay_storeChannels J muted_layout ord K w h (AList.delete c (mum_list mum)) = (None, w1)"
    "lay_deleteMessages muted_layout K w1 h c = (None, w')" "chan_kept J muted_layout K w' h (AList.delete c (mum_list mum))" by blast
  have "mum_inv J K h {p \<in> A. fst p \<noteq> c} (mum\<lparr>mum_list := AList.delete c (mum_list mum)\<rparr>) w'"
    using i w'(3) by (auto simp: mum_inv_def lay_messages_def delete_conv' simp del: map_of_eq_Some_iff)
  then show ?thesis using w'(1,2) i(1) Some by (simp add: mum_removeChannel_def)
qed

lemma newOrLoad_inv:
  assumes "mum_inv J K h A mum w"
  shows "\<exists>mum'. newOrLoadMutedUserManager J K w h = Inr mum' \<and> mum_inv J K h A mum' w"
proof -
  have i: "chan_kept J muted_layout K w h (mum_list mum)" using assms by (simp add: mum_inv_def)
  from mu.load_kept [OF i, of False] obtain e m' where m': "lay_load J muted_layout K w h False = (e, m')"
    "e = None \<or> e = Some KeyNotFound" "map_of m' = map_of (mum_list mum)" "distinct (map fst m')" by blast
  have "mum_inv J K h A \<lparr>mum_list = m', mum_kv = h\<rparr> w"
    using assms mu.kept_same [OF i m'(3,4)] by (simp add: mum_inv_def lay_messages_def m'(3))
  then show ?thesis
    using m'(1,2) by (auto simp: newOrLoadMutedUserManager_def mum_load_def newMutedUserManager_def Exists_def)
qed

lemma start_inv:
  assumes "KV_Get K h w mutedChannelListStoreKey mutedChannelListStoreVer = Inl KeyNotFound"
    and "newOrLoadMutedUserManager J K w h = Inr mum"
  shows "mum_inv J K h {} mum w"
proof -
  have l: "lay_loadChannels J muted_layout K w h = Inl KeyNotFound" using assms(1) by (simp add: lay_loadChannels_def muted_layout_def)
  then have "mum = \<lparr>mum_list = [], mum_kv = h\<rparr>"
    using assms(2) by (auto simp: newOrLoadMutedUserManager_def mum_load_def newMutedUserManager_def lay_load_def Exists_def)
  then show ?thesis using l by (simp add: mum_inv_def chan_kept_def lay_messages_def)
qed

lemma run_inv:
  assumes "versioned_kv K" "sets_succeed K" "deletes_succeed K"
  shows "mum_run J K h A mum w \<Longrightarrow> mum_inv J K h A mum w"
proof (induction rule: mum_run.induct)
  case (mum_start w mum)
  then show ?case by (rule start_inv)
next
  case (mum_mute A mum w ord c u mum' w')
  from muteUser_inv [OF assms(1,2) mum_mute.hyps(2) mum_mute.IH, of c u] mum_mute.hyps(3) show ?case by auto
next
  case (mum_unmute A mum w ord c u mum' w')
  from unmuteUser_inv [OF assms mum_unmute.hyps(2) mum_unmute.IH, of c u] mum_unmute.hyps(3) show ?case by auto
next
  case (mum_leave A mum w ord c r mum' w')
  from removeChannel_inv [OF assms mum_leave.hyps(2) mum_leave.IH, of c] mum_leave.hyps(3) show ?case by auto
next
  case (mum_restart A mum w mum')
  from newOrLoad_inv [OF mum_restart.IH] mum_restart.hyps(2) show ?case by auto
next
  case (mum_other A mum w hs w')
  then show ?case using mu.kept_frame [of K w h _ hs w'] by (auto simp: mum_inv_def)
qed

end

text \<open>C18: The muted users are exactly those that were muted and not unmuted since. However users are muted and unmuted, channels
  are left and the client restarts, \<open>isMuted\<close> tells exactly whether the last of the calls for the user and the channel
  muted the user, \<open>getMutedUsers\<close> lists exactly those users, none of the calls fails, and a restart finds the
  same users in storage.\<close>

theorem muted_users_exact:
  assumes "versioned_kv K" "sets_succeed K" "deletes_succeed K" "id_json J" "mum_run J K h A mum w" "id_order ord" "id_order sord"
  shows "(isMuted mum c u \<longleftrightarrow> (c, u) \<in> A) \<and>
    ((\<forall>v. (c, v) \<in> A \<longrightarrow> length v = 32) \<longrightarrow> set (getMutedUsers sord mum c) = {v. (c, v) \<in> A}) \<and>
    (\<exists>mum1 w1. muteUser J ord K w mum c u = Inr (mum1, w1)) \<and> (\<exists>mum1 w1. unmuteUser J ord K w mum c u = Inr (mum1, w1)) \<and>
    (\<exists>mum1 w1. mum_removeChannel J ord K w mum c = (None, mum1, w1)) \<and>
    (\<exists>mum1. newOrLoadMutedUserManager J K w h = Inr mum1 \<and> (isMuted mum1 c u \<longleftrightarrow> (c, u) \<in> A))"
proof -
  note i = id_json.run_inv [OF assms(4,1-3,5)]
  obtain mum1 where "newOrLoadMutedUserManager J K w h = Inr mum1" "mum_inv J K h A mum1 w"
    using id_json.newOrLoad_inv [OF assms(4) i] by blast
  moreover have "set (getMutedUsers sord mum c) = {v. (c, v) \<in> A}" if "\<forall>v. (c, v) \<in> A \<longrightarrow> length v = 32"
    by (rule getMutedUsers_inv [OF i assms(7)]) (use that in simp)
  ultimately show ?thesis
    using isMuted_inv [OF i, of c u] isMuted_inv [of J K h A mum1 w c u] id_json.muteUser_inv [OF assms(4,1,2,6) i, of c u]
      id_json.unmuteUser_inv [OF assms(4,1-3,6) i, of c u] id_json.removeChannel_inv [OF assms(4,1-3,6) i, of c] by blast
qed

theorem muted_users_exact_witness:
  "\<exists>mum w. mum_run bytes_codec mem_KV NewKV {([1], replicate 32 7)} mum w \<and> isMuted mum [1] (replicate 32 7) \<and>
     \<not> isMuted mum [1] (replicate 32 8) \<and> set (getMutedUsers id mum [1]) = {replicate 32 7}"
proof -
  have "KV_Get mem_KV NewKV Map.empty mutedChannelListStoreKey mutedChannelListStoreVer = Inl KeyNotFound" by (simp add: mem_KV_simps)
  moreover obtain mum where "newOrLoadMutedUserManager bytes_codec mem_KV Map.empty NewKV = Inr mum"
    by (simp add: newOrLoadMutedUserManager_def mum_load_def lay_load_def lay_loadChannels_def mem_KV_simps Exists_def)
  ultimately have s: "mum_run bytes_codec mem_KV NewKV {} mum Map.empty" by (rule mum_start)
  note x = muted_users_exact [OF mem.versioned mem_sets mem_deletes bc.id_json_axioms _ id_order_id id_order_id]
  obtain mum1 w1 where "muteUser bytes_codec id mem_KV Map.empty mum [1] (replicate 32 7) = Inr (mum1, w1)"
    using x [OF s, of "[1]" "replicate 32 7"] by blast
  note 1 = mum_mute [OF s id_order_id this]
  obtain mum2 w2 where "muteUser bytes_codec id mem_KV w1 mum1 [1] (replicate 32 8) = Inr (mum2, w2)"
    using x [OF 1, of "[1]" "replicate 32 8"] by blast
  note 2 = mum_mute [OF 1 id_order_id this]
  obtain mum3 w3 where "unmuteUser bytes_codec id mem_KV w2 mum2 [1] (replicate 32 8) = Inr (mum3, w3)"
    using x [OF 2, of "[1]" "replicate 32 8"] by blast
  note 3 = mum_unmute [OF 2 id_order_id this]
  have n: "replicate 32 8 \<noteq> (replicate 32 7 :: bytes)" by code_simp
  then have A: "insert ([1], replicate 32 8) {([1], replicate 32 7)} - {([1], replicate 32 8)} = {([1 :: byte], replicate 32 7 :: bytes)}"
    by auto
  from x [OF 3 [unfolded A], of "[1]" "replicate 32 7"] x [OF 3 [unfolded A], of "[1]" "replicate 32 8"] 3 [unfolded A] n
  show ?thesis by auto
qed

text \<open>When the client stops after \<open>unmuteUser\<close> has deleted the file of a channel and before it has written the list of
  channels, the next start meets a channel without a file. The missing file is taken for a store without muted users:
  the channels that come later in the list are not loaded and no error is reported.\<close>

lemma muted_users_lost:
  assumes "versioned_kv K" "id_json J" "lay_loadChannels J muted_layout K w h = Inr (c # cids)"
    and "lay_storeMessages muted_layout K w h (AList.delete c m) c = (None, w1)"
  shows "newOrLoadMutedUserManager J K w1 h = Inr (newMutedUserManager h)"
proof -
  have "KV_Delete K h w (lay_key muted_layout c) (lay_ver muted_layout) = (None, w1)"
    using assms(4) by (simp add: lay_storeMessages_def lay_messages_def lay_deleteMessages_def delete_conv')
  then have "lay_loadMessages muted_layout K w1 h c = Inl KeyNotFound"
    using versioned_kv.get_delete [OF assms(1)] by (simp add: lay_loadMessages_def)
  moreover have "lay_loadChannels J muted_layout K w1 h = Inr (c # cids)"
    using channel_layout.storeMessages_spec(1) [OF id_json.muted_channel_layout [OF assms(2)] assms(1,4)] assms(3) by simp
  ultimately show ?thesis
    by (simp add: newOrLoadMutedUserManager_def mum_load_def lay_load_def newMutedUserManager_def Exists_def)
qed

end
