(* ===== verification/Channel_Commands.thy ===== *)
theory Channel_Commands
  imports Channel_Storage
begin

text \<open>
  Commands of channels (pinning, muting): their fingerprints and the store of their details
  (\<open>channels/commandStore.go\<close>, \<open>messageTypes.go\<close>) and the replay blocker (\<open>channels/replayBlocker.go\<close>), which keeps the
  newest command of every fingerprint. The replay of the stored command that the blocker asks for is part of its result.
\<close>

section \<open>Commands\<close>

text \<open>A \<open>MessageType\<close> is its number.\<close>

definition Delete :: u16 where "Delete = 101"
definition Pinned :: u16 where "Pinned = 102"
definition Mute :: u16 where "Mute = 103"
definition AdminReplay :: u16 where "AdminReplay = 104"

definition mt_Marshal :: "u16 \<Rightarrow> bytes" where
  "mt_Marshal mt = put_le16 mt"

definition UnmarshalMessageType :: "bytes \<Rightarrow> fault + u16" where
  "UnmarshalMessageType b = get_le 2 b"

text \<open>The libraries: the hash, and the JSON forms of message identifiers and rounds.\<close>

record 'r chan_libs =
  cl_id :: id_codec
  cl_hash :: "bytes \<Rightarrow> bytes"
  cl_msgJSON :: "bytes \<Rightarrow> json"
  cl_jsonMsg :: "json \<Rightarrow> bytes option"
  cl_roundJSON :: "'r \<Rightarrow> json"
  cl_jsonRound :: "json \<Rightarrow> 'r option"

definition commandFpLen :: nat where "commandFpLen = 32"

definition newCommandFingerprint :: "'r chan_libs \<Rightarrow> bytes \<Rightarrow> u16 \<Rightarrow> bytes \<Rightarrow> bytes" where
  "newCommandFingerprint C channelID command payload =
     copy_at (replicate commandFpLen 0) 0 (cl_hash C (channelID @ mt_Marshal command @ payload))"

definition fp_key :: "bytes \<Rightarrow> string" where
  "fp_key afp = hex_encode afp"

subsection \<open>The store of commands\<close>

definition commandStorePrefix :: string where "commandStorePrefix = ''channelCommandStore''"
definition commandStoreVersion :: u64 where "commandStoreVersion = 0"

record 'r CommandMessage =
  cm_ChannelID :: bytes
  cm_MessageID :: bytes
  cm_MessageType :: u16
  cm_Nickname :: string
  cm_Content :: bytes
  cm_EncryptedPayload :: bytes
  cm_PubKey :: bytes
  cm_Codeset :: byte
  cm_Timestamp :: int
  cm_OriginatingTimestamp :: int
  cm_Lease :: int
  cm_OriginatingRound :: u64
  cm_Round :: 'r
  cm_Status :: byte
  cm_FromAdmin :: bool
  cm_UserMuted :: bool

text \<open>JSON of a command: a field with its zero value is omitted; the times, the message identifier and the round, which
  are no empty values in the sense of \<open>encoding/json\<close>, are always there.\<close>

definition omit_empty :: "bool \<Rightarrow> string \<Rightarrow> json \<Rightarrow> (string \<times> json) list" where
  "omit_empty e k j = (if e then [] else [(k, j)])"

definition cm_marshal :: "'r chan_libs \<Rightarrow> 'r CommandMessage \<Rightarrow> json" where
  "cm_marshal C m =
     JObj ([(''channelID'', idJSON (cl_id C) (cm_ChannelID m)), (''messageID'', cl_msgJSON C (cm_MessageID m))] @
       omit_empty (cm_MessageType m = 0) ''messageType'' (word_json (cm_MessageType m)) @
       omit_empty (cm_Nickname m = []) ''nickname'' (JStr (cm_Nickname m)) @
       omit_empty (cm_Content m = []) ''content'' (JBytes (cm_Content m)) @
       omit_empty (cm_EncryptedPayload m = []) ''encryptedPayload'' (JBytes (cm_EncryptedPayload m)) @
       omit_empty (cm_PubKey m = []) ''pubKey'' (JBytes (cm_PubKey m)) @
       omit_empty (cm_Codeset m = 0) ''codeset'' (word_json (cm_Codeset m)) @
       [(''timestamp'', JNum (cm_Timestamp m)), (''originatingTimestamp'', JNum (cm_OriginatingTimestamp m))] @
       omit_empty (cm_Lease m = 0) ''lease'' (JNum (cm_Lease m)) @
       omit_empty (cm_OriginatingRound m = 0) ''originatingRound'' (word_json (cm_OriginatingRound m)) @
       [(''round'', cl_roundJSON C (cm_Round m))] @
       omit_empty (cm_Status m = 0) ''status'' (word_json (cm_Status m)) @
       omit_empty (\<not> cm_FromAdmin m) ''fromAdmin'' (JBool (cm_FromAdmin m)) @
       omit_empty (\<not> cm_UserMuted m) ''userMuted'' (JBool (cm_UserMuted m)))"

fun json_text :: "json \<Rightarrow> string option" where
  "json_text (JStr s) = Some s"
| "json_text JNull = Some []"
| "json_text _ = None"

fun json_number :: "json \<Rightarrow> int option" where
  "json_number (JNum i) = Some i"
| "json_number JNull = Some 0"
| "json_number _ = None"

fun json_truth :: "json \<Rightarrow> bool option" where
  "json_truth (JBool b) = Some b"
| "json_truth JNull = Some False"
| "json_truth _ = None"

definition cm_unmarshal :: "'r chan_libs \<Rightarrow> json \<Rightarrow> 'r CommandMessage option" where
  "cm_unmarshal C j =
     (case ((jsonID (cl_id C) (json_field j ''channelID''), cl_jsonMsg C (json_field j ''messageID''),
             json_word (json_field j ''messageType''), json_text (json_field j ''nickname''),
             json_bytes (json_field j ''content''), json_bytes (json_field j ''encryptedPayload''),
             json_bytes (json_field j ''pubKey''), json_word (json_field j ''codeset'')),
            (json_number (json_field j ''timestamp''), json_number (json_field j ''originatingTimestamp''),
             json_number (json_field j ''lease''), json_word (json_field j ''originatingRound''),
             cl_jsonRound C (json_field j ''round''), json_word (json_field j ''status''),
             json_truth (json_field j ''fromAdmin''), json_truth (json_field j ''userMuted''))) of
        ((Some cid, Some mid, Some mt, Some nick, Some con, Some enc, Some pk, Some cs),
         (Some ts, Some ots, Some l, Some ord, Some r, Some st, Some fa, Some um)) \<Rightarrow>
          Some \<lparr>cm_ChannelID = cid, cm_MessageID = mid, cm_MessageType = mt, cm_Nickname = nick, cm_Content = con,
            cm_EncryptedPayload = enc, cm_PubKey = pk, cm_Codeset = cs, cm_Timestamp = ts, cm_OriginatingTimestamp = ots,
            cm_Lease = l, cm_OriginatingRound = ord, cm_Round = r, cm_Status = st, cm_FromAdmin = fa, cm_UserMuted = um\<rparr>
      | _ \<Rightarrow> None)"

text \<open>The store is the handle with its prefix.\<close>

definition NewCommandStore :: "('h, 'w) KV_ops \<Rightarrow> 'h \<Rightarrow> fault + 'h" where
  "NewCommandStore K kv = (case KV_Prefix K kv commandStorePrefix of Inl err \<Rightarrow> Inl FatalPanic | Inr kv1 \<Rightarrow> Inr kv1)"

definition SaveCommand ::
  "'r chan_libs \<Rightarrow> ('h, 'w) KV_ops \<Rightarrow> 'w \<Rightarrow> 'h \<Rightarrow> 'r CommandMessage \<Rightarrow> kv_error option \<times> 'w" where
  "SaveCommand C K w cs m =
     KV_Set K cs w (fp_key (newCommandFingerprint C (cm_ChannelID m) (cm_MessageType m) (cm_Content m)))
       \<lparr>obj_Version = commandStoreVersion, obj_Timestamp = KV_Now K w, obj_Data = Json (cm_marshal C m)\<rparr>"

definition LoadCommand ::
  "'r chan_libs \<Rightarrow> ('h, 'w) KV_ops \<Rightarrow> 'w \<Rightarrow> 'h \<Rightarrow> bytes \<Rightarrow> u16 \<Rightarrow> bytes \<Rightarrow> kv_error + 'r CommandMessage" where
  "LoadCommand C K w cs channelID messageType content =
     res_bind (KV_Get K cs w (fp_key (newCommandFingerprint C channelID messageType content)) commandStoreVersion) (\<lambda>obj.
       case obj_Data obj of
         Raw _ \<Rightarrow> Inl KVFailure
       | Json j \<Rightarrow> (case cm_unmarshal C j of None \<Rightarrow> Inl KVFailure | Some m \<Rightarrow> Inr m))"

definition DeleteCommand ::
  "'r chan_libs \<Rightarrow> ('h, 'w) KV_ops \<Rightarrow> 'w \<Rightarrow> 'h \<Rightarrow> bytes \<Rightarrow> u16 \<Rightarrow> bytes \<Rightarrow> kv_error option \<times> 'w" where
  "DeleteCommand C K w cs channelID messageType content =
     KV_Delete K cs w (fp_key (newCommandFingerprint C channelID messageType content)) commandStoreVersion"

locale chan_codecs =
  fixes C :: "'r chan_libs"
  assumes id_back: "jsonID (cl_id C) (idJSON (cl_id C) i) = Some i"
    and msg_back: "cl_jsonMsg C (cl_msgJSON C m) = Some m"
    and round_back: "cl_jsonRound C (cl_roundJSON C r) = Some r"

sublocale chan_codecs \<subseteq> ids: id_json "cl_id C"
  by unfold_locales (rule id_back)

lemma field_omit:
  "json_field (JObj (omit_empty e k j @ fs)) k' = (if k' = k \<and> \<not> e then j else json_field (JObj fs) k')"
  "json_field (JObj (omit_empty e k j)) k' = (if k' = k \<and> \<not> e then j else JNull)"
  "json_field (JObj ((k, j) # fs)) k' = (if k' = k then j else json_field (JObj fs) k')" "json_field (JObj []) k' = JNull"
  by (auto simp: omit_empty_def)

lemma omit_read:
  "json_word (if x \<noteq> 0 then word_json x else JNull) = Some (x :: 'a::len word)"
  "json_text (if t \<noteq> [] then JStr t else JNull) = Some t" "json_bytes (if b \<noteq> [] then JBytes b else JNull) = Some b"
  "json_number (if i \<noteq> 0 then JNum i else JNull) = Some i" "json_truth (if v then JBool v else JNull) = Some v"
  by (simp_all add: json_word_def word_json_def)

context chan_codecs
begin

lemma cm_fields:
  "json_field (cm_marshal C m) ''channelID'' = idJSON (cl_id C) (cm_ChannelID m)"
  "json_field (cm_marshal C m) ''messageID'' = cl_msgJSON C (cm_MessageID m)"
  "json_field (cm_marshal C m) ''messageType'' = (if cm_MessageType m \<noteq> 0 then word_json (cm_MessageType m) else JNull)"
  "json_field (cm_marshal C m) ''nickname'' = (if cm_Nickname m \<noteq> [] then JStr (cm_Nickname m) else JNull)"
  "json_field (cm_marshal C m) ''content'' = (if cm_Content m \<noteq> [] then JBytes (cm_Content m) else JNull)"
  "json_field (cm_marshal C m) ''encryptedPayload'' = (if cm_EncryptedPayload m \<noteq> [] then JBytes (cm_EncryptedPayload m) else JNull)"
  "json_field (cm_marshal C m) ''pubKey'' = (if cm_PubKey m \<noteq> [] then JBytes (cm_PubKey m) else JNull)"
  "json_field (cm_marshal C m) ''codeset'' = (if cm_Codeset m \<noteq> 0 then word_json (cm_Codeset m) else JNull)"
  "json_field (cm_marshal C m) ''timestamp'' = JNum (cm_Timestamp m)"
  "json_field (cm_marshal C m) ''originatingTimestamp'' = JNum (cm_OriginatingTimestamp m)"
  "json_field (cm_marshal C m) ''lease'' = (if cm_Lease m \<noteq> 0 then JNum (cm_Lease m) else JNull)"
  "json_field (cm_marshal C m) ''originatingRound'' = (if cm_OriginatingRound m \<noteq> 0 then word_json (cm_OriginatingRound m) else JNull)"
  "json_field (cm_marshal C m) ''round'' = cl_roundJSON C (cm_Round m)"
  "json_field (cm_marshal C m) ''status'' = (if cm_Status m \<noteq> 0 then word_json (cm_Status m) else JNull)"
  "json_field (cm_marshal C m) ''fromAdmin'' = (if cm_FromAdmin m then JBool (cm_FromAdmin m) else JNull)"
  "json_field (cm_marshal C m) ''userMuted'' = (if cm_UserMuted m then JBool (cm_UserMuted m) else JNull)"
  unfolding cm_marshal_def append_Cons append_Nil append_assoc
  by (simp_all add: field_omit del: json_field.simps)

lemma cm_roundtrip: "cm_unmarshal C (cm_marshal C m) = Some m"
  unfolding cm_unmarshal_def cm_fields omit_read id_back msg_back round_back json_number.simps by simp

end

section \<open>The replay blocker\<close>

record commandMessage =
  rc_ChannelID :: bytes
  rc_Action :: u16
  rc_Payload :: bytes
  rc_OriginatingRound :: u64
  rc_UnsanitizedFP :: u64

definition replayBlockerStoragePrefix :: string where "replayBlockerStoragePrefix = ''channelReplayBlocker''"
definition commandChannelListVer :: u64 where "commandChannelListVer = 0"
definition commandChannelListKey :: string where "commandChannelListKey = ''channelCommandList''"
definition channelCommandMessagesVer :: u64 where "channelCommandMessagesVer = 0"

definition makeChannelCommandMessagesKey :: "bytes \<Rightarrow> string" where
  "makeChannelCommandMessagesKey channelID = hex_encode channelID"

definition rc_marshal :: "id_codec \<Rightarrow> commandMessage \<Rightarrow> json" where
  "rc_marshal J c =
     JObj [(''channelID'', idJSON J (rc_ChannelID c)), (''action'', word_json (rc_Action c)), (''payload'', JBytes (rc_Payload c)),
           (''originatingRound'', word_json (rc_OriginatingRound c)), (''unsanitizedFP'', word_json (rc_UnsanitizedFP c))]"

definition rc_unmarshal :: "id_codec \<Rightarrow> json \<Rightarrow> commandMessage option" where
  "rc_unmarshal J j =
     (case (jsonID J (json_field j ''channelID''), json_word (json_field j ''action''), json_bytes (json_field j ''payload''),
            json_word (json_field j ''originatingRound''), json_word (json_field j ''unsanitizedFP'')) of
        (Some c, Some a, Some p, Some r, Some f) \<Rightarrow>
          Some \<lparr>rc_ChannelID = c, rc_Action = a, rc_Payload = p, rc_OriginatingRound = r, rc_UnsanitizedFP = f\<rparr>
      | _ \<Rightarrow> None)"

definition command_layout :: "id_codec \<Rightarrow> commandMessage chan_layout" where
  "command_layout J =
     \<lparr>lay_listKey = commandChannelListKey, lay_listVer = commandChannelListVer, lay_key = makeChannelCommandMessagesKey,
      lay_ver = channelCommandMessagesVer, lay_enc = rc_marshal J, lay_dec = rc_unmarshal J\<rparr>"

record 'h replayBlocker =
  rb_commandsByChannel :: "commandMessage chan_map"
  rb_store :: 'h
  rb_kv :: 'h

definition newReplayBlocker :: "('h, 'w) KV_ops \<Rightarrow> 'h \<Rightarrow> 'h \<Rightarrow> fault + 'h replayBlocker" where
  "newReplayBlocker K store kv =
     (case KV_Prefix K kv replayBlockerStoragePrefix of
        Inl err \<Rightarrow> Inl FatalPanic
      | Inr kv1 \<Rightarrow> Inr \<lparr>rb_commandsByChannel = [], rb_store = store, rb_kv = kv1\<rparr>)"

definition rb_load :: "'r chan_libs \<Rightarrow> ('h, 'w) KV_ops \<Rightarrow> 'w \<Rightarrow> 'h replayBlocker \<Rightarrow> kv_error option \<times> 'h replayBlocker" where
  "rb_load C K w rb =
     (let (err, m) = lay_load (cl_id C) (command_layout (cl_id C)) K w (rb_kv rb) True in (err, rb\<lparr>rb_commandsByChannel := m\<rparr>))"

definition newOrLoadReplayBlocker ::
  "'r chan_libs \<Rightarrow> ('h, 'w) KV_ops \<Rightarrow> 'w \<Rightarrow> 'h \<Rightarrow> 'h \<Rightarrow> fault + (kv_error + 'h replayBlocker)" where
  "newOrLoadReplayBlocker C K w store kv =
     res_bind (newReplayBlocker K store kv) (\<lambda>rb.
       case rb_load C K w rb of
         (Some err, rb1) \<Rightarrow> Inr (if Exists err then Inl err else Inr rb1)
       | (None, rb1) \<Rightarrow> Inr (Inr rb1))"

definition rb_updateStorage ::
  "'r chan_libs \<Rightarrow> (bytes list \<Rightarrow> bytes list) \<Rightarrow> ('h, 'w) KV_ops \<Rightarrow> 'w \<Rightarrow> 'h replayBlocker \<Rightarrow> bytes \<Rightarrow> bool \<Rightarrow> kv_error option \<times> 'w" where
  "rb_updateStorage C ord K w rb channelID channelIdUpdate =
     lay_update (cl_id C) (command_layout (cl_id C)) ord K w (rb_kv rb) (rb_commandsByChannel rb) channelID channelIdUpdate"

text \<open>\<open>verifyReplay\<close>: whether the command is verified and the error, the command that is to be replayed instead, and the new
  state. The command message \<open>m\<close> carries the arguments; writing to the nil map that a failed load leaves panics.\<close>

definition rb_new :: "'r chan_libs \<Rightarrow> 'r CommandMessage \<Rightarrow> bytes \<Rightarrow> fault + commandMessage" where
  "rb_new C m unsanitizedPayload =
     res_bind (get_le 8 (newCommandFingerprint C (cm_ChannelID m) (cm_MessageType m) unsanitizedPayload)) (\<lambda>f.
       Inr \<lparr>rc_ChannelID = cm_ChannelID m, rc_Action = cm_MessageType m, rc_Payload = cm_Content m,
            rc_OriginatingRound = cm_OriginatingRound m, rc_UnsanitizedFP = f\<rparr>)"

definition verifyReplay ::
  "'r chan_libs \<Rightarrow> (bytes list \<Rightarrow> bytes list) \<Rightarrow> ('h, 'w) KV_ops \<Rightarrow> 'w \<Rightarrow> 'h replayBlocker \<Rightarrow> 'r CommandMessage \<Rightarrow> bytes \<Rightarrow>
   fault + (bool \<times> kv_error option) \<times> commandMessage option \<times> 'h replayBlocker \<times> 'w" where
  "verifyReplay C ord K w rb m unsanitizedPayload =
     (let channelID = cm_ChannelID m;
          key = fp_key (newCommandFingerprint C channelID (cm_MessageType m) (cm_Content m));
          messages = map_of (rb_commandsByChannel rb) channelID;
          cm = (case messages of None \<Rightarrow> None | Some ms \<Rightarrow> map_of ms key)
      in res_bind (rb_new C m unsanitizedPayload) (\<lambda>newCm.
           if (case cm of None \<Rightarrow> False
               | Some c \<Rightarrow> rc_OriginatingRound c \<ge> rc_OriginatingRound newCm \<and> rc_UnsanitizedFP c \<noteq> rc_UnsanitizedFP newCm)
           then Inr ((False, None), cm, rb, w)
           else if messages = Some [] then Inl NilDereference
           else
             let ms = AList.update key newCm (case messages of None \<Rightarrow> [] | Some ms \<Rightarrow> ms);
                 rb1 = rb\<lparr>rb_commandsByChannel := AList.update channelID ms (rb_commandsByChannel rb)\<rparr>
             in case SaveCommand C K w (rb_store rb)
                       (m\<lparr>cm_Nickname := [], cm_PubKey := [], cm_Codeset := 0, cm_Status := 0, cm_UserMuted := False\<rparr>) of
                  (Some err, w1) \<Rightarrow> Inr ((True, Some err), None, rb1, w1)
                | (None, w1) \<Rightarrow>
                    (let (err, w2) = rb_updateStorage C ord K w1 rb1 channelID (messages = None)
                     in Inr ((True, err), None, rb1, w2))))"

definition removeCommand ::
  "'r chan_libs \<Rightarrow> (bytes list \<Rightarrow> bytes list) \<Rightarrow> ('h, 'w) KV_ops \<Rightarrow> 'w \<Rightarrow> 'h replayBlocker \<Rightarrow> bytes \<Rightarrow> u16 \<Rightarrow> bytes \<Rightarrow>
   kv_error option \<times> 'h replayBlocker \<times> 'w" where
  "removeCommand C ord K w rb channelID action payload =
     (let key = fp_key (newCommandFingerprint C channelID action payload)
      in case map_of (rb_commandsByChannel rb) channelID of
           None \<Rightarrow> (None, rb, w)
         | Some messages \<Rightarrow>
             (if map_of messages key = None then (None, rb, w)
              else
                let ms = AList.delete key messages;
                    rb1 = (if ms = [] then rb\<lparr>rb_commandsByChannel := AList.delete channelID (rb_commandsByChannel rb)\<rparr>
                           else rb\<lparr>rb_commandsByChannel := AList.update channelID ms (rb_commandsByChannel rb)\<rparr>);
                    (err, w1) = rb_updateStorage C ord K w rb1 channelID (ms = [])
                in (err, rb1, w1)))"

text \<open>The loop that deletes the commands; errors are logged.\<close>

fun delete_commands :: "'r chan_libs \<Rightarrow> ('h, 'w) KV_ops \<Rightarrow> 'w \<Rightarrow> 'h \<Rightarrow> (bytes \<times> u16 \<times> bytes) list \<Rightarrow> 'w" where
  "delete_commands C K w cs [] = w"
| "delete_commands C K w cs ((channelID, action, payload) # r) =
     delete_commands C K (snd (DeleteCommand C K w cs channelID action payload)) cs r"

definition removeChannelCommands ::
  "'r chan_libs \<Rightarrow> (bytes list \<Rightarrow> bytes list) \<Rightarrow> (string list \<Rightarrow> string list) \<Rightarrow> ('h, 'w) KV_ops \<Rightarrow> 'w \<Rightarrow> 'h replayBlocker \<Rightarrow> bytes \<Rightarrow>
   kv_error option \<times> 'h replayBlocker \<times> 'w" where
  "removeChannelCommands C ord sord K w rb channelID =
     (case map_of (rb_commandsByChannel rb) channelID of
        None \<Rightarrow> (None, rb, w)
      | Some commands \<Rightarrow>
          (let w1 = delete_commands C K w (rb_store rb)
                 (map (\<lambda>c. (rc_ChannelID c, rc_Action c, rc_Payload c)) (List.map_filter (map_of commands) (sord (map fst commands))));
               rb1 = rb\<lparr>rb_commandsByChannel := AList.delete channelID (rb_commandsByChannel rb)\<rparr>
           in case lay_storeChannels (cl_id C) (command_layout (cl_id C)) ord K w1 (rb_kv rb) (rb_commandsByChannel rb1) of
                (Some err, w2) \<Rightarrow> (Some err, rb1, w2)
              | (None, w2) \<Rightarrow>
                  (let (err, w3) = lay_deleteMessages (command_layout (cl_id C)) K w2 (rb_kv rb) channelID in (err, rb1, w3))))"

section \<open>The commands in memory and in storage\<close>

definition rb_lookup :: "'h replayBlocker \<Rightarrow> bytes \<Rightarrow> string \<Rightarrow> commandMessage option" where
  "rb_lookup rb channelID key = map_of (lay_messages (rb_commandsByChannel rb) channelID) key"

lemma command_keys:
  "CHR 0x5C \<notin> set commandChannelListKey" "hex_encode b \<noteq> commandChannelListKey"
proof -
  show "CHR 0x5C \<notin> set commandChannelListKey" by (simp add: commandChannelListKey_def)
  have "hex_decode commandChannelListKey = None" by code_simp
  then show "hex_encode b \<noteq> commandChannelListKey" using hex_decode_encode [of b] by fastforce
qed

lemma rc_roundtrip: "id_json J \<Longrightarrow> rc_unmarshal J (rc_marshal J c) = Some c"
  by (simp add: rc_unmarshal_def rc_marshal_def id_json.id_read)

sublocale id_json \<subseteq> cmd: channel_layout J "command_layout J"
  using id_json_axioms
  by unfold_locales
    (auto simp: command_layout_def id_read makeChannelCommandMessagesKey_def command_keys rc_roundtrip)

definition rb_inv :: "'r chan_libs \<Rightarrow> ('h, 'w) KV_ops \<Rightarrow> 'h \<Rightarrow> 'h \<Rightarrow> 'h replayBlocker \<Rightarrow> 'w \<Rightarrow> bool" where
  "rb_inv C K store kv1 rb w =
     (rb_store rb = store \<and> rb_kv rb = kv1 \<and> apart K store kv1 \<and> apart K kv1 store \<and>
      chan_kept (cl_id C) (command_layout (cl_id C)) K w kv1 (rb_commandsByChannel rb))"

text \<open>The runs of the blocker: commands are verified and removed, channels left, the client restarts between calls, and the rest
  of the client writes elsewhere.\<close>

inductive rb_run :: "'r chan_libs \<Rightarrow> ('h, 'w) KV_ops \<Rightarrow> 'h \<Rightarrow> 'h \<Rightarrow> 'h replayBlocker \<Rightarrow> 'w \<Rightarrow> bool" for C K store kv where
  rb_start: "KV_Prefix K kv replayBlockerStoragePrefix = Inr kv1 \<Longrightarrow> apart K store kv1 \<Longrightarrow> apart K kv1 store \<Longrightarrow>
    KV_Get K kv1 w commandChannelListKey commandChannelListVer = Inl KeyNotFound \<Longrightarrow>
    newOrLoadReplayBlocker C K w store kv = Inr (Inr rb) \<Longrightarrow> rb_run C K store kv rb w"
| rb_verify: "rb_run C K store kv rb w \<Longrightarrow> id_order ord \<Longrightarrow> verifyReplay C ord K w rb m p = Inr (r, c, rb', w') \<Longrightarrow>
    rb_run C K store kv rb' w'"
| rb_remove: "rb_run C K store kv rb w \<Longrightarrow> id_order ord \<Longrightarrow> removeCommand C ord K w rb cid a p = (r, rb', w') \<Longrightarrow>
    rb_run C K store kv rb' w'"
| rb_leave: "rb_run C K store kv rb w \<Longrightarrow> id_order ord \<Longrightarrow> removeChannelCommands C ord sord K w rb cid = (r, rb', w') \<Longrightarrow>
    rb_run C K store kv rb' w'"
| rb_restart: "rb_run C K store kv rb w \<Longrightarrow> newOrLoadReplayBlocker C K w store kv = Inr (Inr rb') \<Longrightarrow> rb_run C K store kv rb' w"
| rb_other: "rb_run C K store kv rb w \<Longrightarrow> kv_writes K hs w w' \<Longrightarrow> (\<And>u. u \<in> hs \<Longrightarrow> apart K u (rb_kv rb)) \<Longrightarrow> rb_run C K store kv rb w'"

lemma fp_key_no_sep [simp]: "CHR 0x5C \<notin> set (fp_key f)"
  by (simp add: fp_key_def)

lemma rb_lookup_update:
  "rb_lookup (rb\<lparr>rb_commandsByChannel := AList.update c ms (rb_commandsByChannel rb)\<rparr>) d k =
     (if d = c then map_of ms k else rb_lookup rb d k)"
  "rb_lookup (rb\<lparr>rb_commandsByChannel := AList.delete c (rb_commandsByChannel rb)\<rparr>) d k = (if d = c then None else rb_lookup rb d k)"
  by (simp_all add: rb_lookup_def lay_messages_def update_conv' delete_conv' del: map_of_eq_Some_iff)

lemma delete_commands_writes:
  assumes "deletes_succeed K"
  shows "kv_writes K {cs} w (delete_commands C K w cs xs)"
proof (induction xs arbitrary: w)
  case (Cons x xs)
  obtain cid a p where x: "x = (cid, a, p)" by (metis prod.collapse)
  have "DeleteCommand C K w cs cid a p = (None, snd (DeleteCommand C K w cs cid a p))"
    using assms unfolding DeleteCommand_def by (metis deletes_succeed_def prod.collapse)
  then have "kv_writes K {cs} w (snd (DeleteCommand C K w cs cid a p))"
    unfolding DeleteCommand_def by (rule kv_writes_one(2)) simp
  from kv_writes_trans [OF Cons.IH this] show ?case by (simp add: x)
qed (simp add: kv_writes_refl)

context chan_codecs
begin

lemma LoadCommand_saved:
  assumes "versioned_kv K" "SaveCommand C K w cs m = (None, w')"
  shows "LoadCommand C K w' cs (cm_ChannelID m) (cm_MessageType m) (cm_Content m) = Inr m"
  using versioned_kv.get_set [OF assms(1) assms(2) [unfolded SaveCommand_def]] by (simp add: LoadCommand_def cm_roundtrip)

lemma verifyReplay_spec:
  assumes "versioned_kv K" "sets_succeed K" "id_order ord" "rb_inv C K store kv1 rb w" "rb_new C m p = Inr n"
    and "key = fp_key (newCommandFingerprint C (cm_ChannelID m) (cm_MessageType m) (cm_Content m))"
  shows "if \<exists>c. rb_lookup rb (cm_ChannelID m) key = Some c \<and> rc_OriginatingRound c \<ge> rc_OriginatingRound n \<and>
           rc_UnsanitizedFP c \<noteq> rc_UnsanitizedFP n
    then verifyReplay C ord K w rb m p = Inr ((False, None), rb_lookup rb (cm_ChannelID m) key, rb, w)
    else \<exists>rb' w'. verifyReplay C ord K w rb m p = Inr ((True, None), None, rb', w') \<and> rb_inv C K store kv1 rb' w' \<and>
      (\<forall>d k. rb_lookup rb' d k = (if d = cm_ChannelID m \<and> k = key then Some n else rb_lookup rb d k)) \<and>
      LoadCommand C K w' store (cm_ChannelID m) (cm_MessageType m) (cm_Content m) =
        Inr (m\<lparr>cm_Nickname := [], cm_PubKey := [], cm_Codeset := 0, cm_Status := 0, cm_UserMuted := False\<rparr>)"
proof -
  let ?c = "cm_ChannelID m" and ?cmds = "rb_commandsByChannel rb"
  let ?m = "m\<lparr>cm_Nickname := [], cm_PubKey := [], cm_Codeset := 0, cm_Status := 0, cm_UserMuted := False\<rparr>"
  have i: "rb_store rb = store" "rb_kv rb = kv1" "apart K store kv1" "apart K kv1 store"
    "chan_kept (cl_id C) (command_layout (cl_id C)) K w kv1 ?cmds" using assms(4) by (simp_all add: rb_inv_def)
  have cm: "(case map_of ?cmds ?c of None \<Rightarrow> None | Some ms \<Rightarrow> map_of ms key) = rb_lookup rb ?c key"
    by (cases "map_of ?cmds ?c") (simp_all add: rb_lookup_def lay_messages_def)
  have ne: "map_of ?cmds ?c \<noteq> Some []" using chan_keptD(2) [OF i(5), of ?c] by blast
  define ms where "ms = AList.update key n (lay_messages ?cmds ?c)"
  define rb' where "rb' = rb\<lparr>rb_commandsByChannel := AList.update ?c ms ?cmds\<rparr>"
  have "ms \<noteq> []" using dom_update [of key n "lay_messages ?cmds ?c"] by (auto simp: ms_def)
  obtain w1 where w1: "SaveCommand C K w store ?m = (None, w1)"
    using assms(2) unfolding SaveCommand_def by (metis sets_succeed_def prod.collapse)
  have "kv_writes K {store} w w1" using w1 unfolding SaveCommand_def by (rule kv_writes_one(1)) simp
  then have k1: "chan_kept (cl_id C) (command_layout (cl_id C)) K w1 kv1 ?cmds"
    using ids.cmd.kept_frame [OF i(5)] i(3) by blast
  from ids.cmd.kept_put [OF assms(1,2) id_orderD [OF assms(3)] k1 \<open>ms \<noteq> []\<close>, of ?c] obtain w2 where
    w2: "lay_update (cl_id C) (command_layout (cl_id C)) ord K w1 kv1 (AList.update ?c ms ?cmds) ?c (map_of ?cmds ?c = None) = (None, w2)"
    "chan_kept (cl_id C) (command_layout (cl_id C)) K w2 kv1 (AList.update ?c ms ?cmds)" "kv_writes K {kv1} w1 w2" by blast
  have "rb_inv C K store kv1 rb' w2" using i w2(2) by (simp add: rb_inv_def rb'_def)
  moreover have "rb_lookup rb' d k = (if d = ?c \<and> k = key then Some n else rb_lookup rb d k)" for d k
    unfolding rb'_def rb_lookup_update ms_def by (auto simp: update_conv' rb_lookup_def)
  moreover have "LoadCommand C K w2 store ?c (cm_MessageType m) (cm_Content m) = Inr ?m"
    using LoadCommand_saved [OF assms(1) w1] kv_writes_frame [OF w2(3) _ fp_key_no_sep] i(4) by (simp add: LoadCommand_def)
  moreover have "verifyReplay C ord K w rb m p = Inr ((True, None), None, rb', w2)"
    if "\<not> (\<exists>c. rb_lookup rb ?c key = Some c \<and> rc_OriginatingRound c \<ge> rc_OriginatingRound n \<and> rc_UnsanitizedFP c \<noteq> rc_UnsanitizedFP n)"
    using that ne w1 w2(1) unfolding verifyReplay_def Let_def assms(5,6)[symmetric] cm
    by (simp add: assms(5) rb_updateStorage_def i(1,2) lay_messages_def [symmetric] ms_def [symmetric] rb'_def del: map_of_eq_Some_iff split: option.splits)
  moreover have "verifyReplay C ord K w rb m p = Inr ((False, None), rb_lookup rb ?c key, rb, w)"
    if "\<exists>c. rb_lookup rb ?c key = Some c \<and> rc_OriginatingRound c \<ge> rc_OriginatingRound n \<and> rc_UnsanitizedFP c \<noteq> rc_UnsanitizedFP n"
    using that unfolding verifyReplay_def Let_def assms(5,6)[symmetric] cm by (auto simp: assms(5))
  ultimately show ?thesis by auto
qed

lemma removeCommand_inv:
  assumes "versioned_kv K" "sets_succeed K" "deletes_succeed K" "id_order ord" "rb_inv C K store kv1 rb w"
  shows "\<exists>rb' w'. removeCommand C ord K w rb c a p = (None, rb', w') \<and> rb_inv C K store kv1 rb' w' \<and>
    (\<forall>d k. rb_lookup rb' d k =
      (if d = c \<and> k = fp_key (newCommandFingerprint C c a p) then None else rb_lookup rb d k))"
proof -
  let ?cmds = "rb_commandsByChannel rb" and ?k = "fp_key (newCommandFingerprint C c a p)"
  have i: "rb_store rb = store" "rb_kv rb = kv1" "apart K store kv1" "apart K kv1 store"
    "chan_kept (cl_id C) (command_layout (cl_id C)) K w kv1 ?cmds" using assms(5) by (simp_all add: rb_inv_def)
  show ?thesis
  proof (cases "rb_lookup rb c ?k")
    case None
    then have "removeCommand C ord K w rb c a p = (None, rb, w)"
      by (cases "map_of ?cmds c") (simp_all add: removeCommand_def rb_lookup_def lay_messages_def)
    with None assms(5) show ?thesis by auto
  next
    case (Some n)
    then obtain ms where ms: "map_of ?cmds c = Some ms" "map_of ms ?k = Some n"
      by (cases "map_of ?cmds c") (simp_all add: rb_lookup_def lay_messages_def)
    let ?ms = "AList.delete ?k ms"
    show ?thesis
    proof (cases "?ms = []")
      case True
      from ids.cmd.kept_drop(1) [OF assms(1-3) id_orderD [OF assms(4)] i(5), of c] obtain w' where
        w': "lay_update (cl_id C) (command_layout (cl_id C)) ord K w kv1 (AList.delete c ?cmds) c True = (None, w')"
        "chan_kept (cl_id C) (command_layout (cl_id C)) K w' kv1 (AList.delete c ?cmds)" by blast
      have "rb_lookup rb c k = None" if "k \<noteq> ?k" for k
        using arg_cong [OF True, of "\<lambda>xs. map_of xs k"] that ms(1) by (simp add: rb_lookup_def lay_messages_def delete_conv')
      then have "rb_lookup (rb\<lparr>rb_commandsByChannel := AList.delete c ?cmds\<rparr>) d k = (if d = c \<and> k = ?k then None else rb_lookup rb d k)" for d k
        unfolding rb_lookup_update by auto
      then show ?thesis
        using w' i ms True by (simp add: removeCommand_def rb_updateStorage_def rb_inv_def del: map_of_eq_Some_iff)
    next
      case False
      from ids.cmd.kept_put [OF assms(1,2) id_orderD [OF assms(4)] i(5) False, of c] ms(1) obtain w' where
        w': "lay_update (cl_id C) (command_layout (cl_id C)) ord K w kv1 (AList.update c ?ms ?cmds) c False = (None, w')"
        "chan_kept (cl_id C) (command_layout (cl_id C)) K w' kv1 (AList.update c ?ms ?cmds)" by auto
      have "rb_lookup (rb\<lparr>rb_commandsByChannel := AList.update c ?ms ?cmds\<rparr>) d k = (if d = c \<and> k = ?k then None else rb_lookup rb d k)" for d k
        unfolding rb_lookup_update using ms(1) by (auto simp: delete_conv' rb_lookup_def lay_messages_def simp del: map_of_eq_Some_iff)
      then show ?thesis
        using w' i ms False by (simp add: removeCommand_def rb_updateStorage_def rb_inv_def del: map_of_eq_Some_iff)
    qed
  qed
qed

end

context chan_codecs
begin

lemma removeChannelCommands_inv:
  assumes "versioned_kv K" "sets_succeed K" "deletes_succeed K" "id_order ord" "rb_inv C K store kv1 rb w"
  shows "\<exists>rb' w'. removeChannelCommands C ord sord K w rb c = (None, rb', w') \<and> rb_inv C K store kv1 rb' w' \<and>
    (\<forall>d k. rb_lookup rb' d k = (if d = c then None else rb_lookup rb d k))"
proof (cases "map_of (rb_commandsByChannel rb) c")
  case None
  then show ?thesis using assms(5) by (auto simp: removeChannelCommands_def rb_lookup_def lay_messages_def)
next
  case (Some ms)
  let ?cmds = "rb_commandsByChannel rb"
  define w1 where "w1 = delete_commands C K w store
    (map (\<lambda>c. (rc_ChannelID c, rc_Action c, rc_Payload c)) (List.map_filter (map_of ms) (sord (map fst ms))))"
  have i: "rb_store rb = store" "rb_kv rb = kv1" "apart K store kv1" "apart K kv1 store"
    "chan_kept (cl_id C) (command_layout (cl_id C)) K w kv1 ?cmds" using assms(5) by (simp_all add: rb_inv_def)
  have k1: "chan_kept (cl_id C) (command_layout (cl_id C)) K w1 kv1 ?cmds"
    using ids.cmd.kept_frame [OF i(5) delete_commands_writes [OF assms(3)]] i(3) unfolding w1_def by blast
  from ids.cmd.kept_drop(2) [OF assms(1-3) id_orderD [OF assms(4)] k1, of c] obtain w2 w3 where
    w: "lay_storeChannels (cl_id C) (command_layout (cl_id C)) ord K w1 kv1 (AList.delete c ?cmds) = (None, w2)"
    "lay_deleteMessages (command_layout (cl_id C)) K w2 kv1 c = (None, w3)"
    "chan_kept (cl_id C) (command_layout (cl_id C)) K w3 kv1 (AList.delete c ?cmds)" by blast
  let ?rb = "rb\<lparr>rb_commandsByChannel := AList.delete c ?cmds\<rparr>"
  have "removeChannelCommands C ord sord K w rb c = (None, ?rb, w3)"
    using Some w(1,2) i(1,2) by (simp add: removeChannelCommands_def Let_def w1_def [symmetric])
  moreover have "rb_inv C K store kv1 ?rb w3" using i w(3) by (simp add: rb_inv_def)
  ultimately show ?thesis unfolding rb_lookup_update [symmetric] by blast
qed

lemma newOrLoadReplayBlocker_inv:
  assumes "KV_Prefix K kv replayBlockerStoragePrefix = Inr kv1" "rb_inv C K store kv1 rb w"
  shows "\<exists>rb'. newOrLoadReplayBlocker C K w store kv = Inr (Inr rb') \<and> rb_inv C K store kv1 rb' w \<and> rb_lookup rb' = rb_lookup rb"
proof -
  have i: "chan_kept (cl_id C) (command_layout (cl_id C)) K w kv1 (rb_commandsByChannel rb)" "apart K store kv1" "apart K kv1 store"
    using assms(2) by (simp_all add: rb_inv_def)
  from ids.cmd.load_kept [OF i(1), of True] obtain e m' where m': "lay_load (cl_id C) (command_layout (cl_id C)) K w kv1 True = (e, m')"
    "e = None \<or> e = Some KeyNotFound" "map_of m' = map_of (rb_commandsByChannel rb)" "distinct (map fst m')" by blast
  have "rb_inv C K store kv1 \<lparr>rb_commandsByChannel = m', rb_store = store, rb_kv = kv1\<rparr> w"
    using i(2,3) ids.cmd.kept_same [OF i(1) m'(3,4)] by (simp add: rb_inv_def)
  moreover have "rb_lookup \<lparr>rb_commandsByChannel = m', rb_store = store, rb_kv = kv1\<rparr> = rb_lookup rb"
    by (simp add: rb_lookup_def lay_messages_def m'(3) fun_eq_iff)
  ultimately show ?thesis
    using m'(1,2) assms(1) by (auto simp: newOrLoadReplayBlocker_def newReplayBlocker_def rb_load_def Exists_def)
qed

lemma rb_run_inv:
  assumes "versioned_kv K" "sets_succeed K" "deletes_succeed K"
  shows "rb_run C K store kv rb w \<Longrightarrow> \<exists>kv1. KV_Prefix K kv replayBlockerStoragePrefix = Inr kv1 \<and> rb_inv C K store kv1 rb w"
proof (induction rule: rb_run.induct)
  case (rb_start kv1 w rb)
  have l: "lay_loadChannels (cl_id C) (command_layout (cl_id C)) K w kv1 = Inl KeyNotFound"
    using rb_start(4) by (simp add: lay_loadChannels_def command_layout_def)
  then have "rb = \<lparr>rb_commandsByChannel = [], rb_store = store, rb_kv = kv1\<rparr>"
    using rb_start(1,5) by (auto simp: newOrLoadReplayBlocker_def newReplayBlocker_def rb_load_def lay_load_def Exists_def)
  with l rb_start(1-3) show ?case by (simp add: rb_inv_def chan_kept_def)
next
  case (rb_verify rb w ord m p r c rb' w')
  then obtain kv1 where k: "KV_Prefix K kv replayBlockerStoragePrefix = Inr kv1" "rb_inv C K store kv1 rb w" by blast
  obtain n where "rb_new C m p = Inr n"
    using rb_verify.hyps(3) by (auto simp: verifyReplay_def Let_def res_bind_Inr_iff)
  from verifyReplay_spec [OF assms(1,2) rb_verify.hyps(2) k(2) this refl] rb_verify.hyps(3) k show ?case
    by (auto split: if_splits)
next
  case (rb_remove rb w ord cid a p r rb' w')
  then obtain kv1 where k: "KV_Prefix K kv replayBlockerStoragePrefix = Inr kv1" "rb_inv C K store kv1 rb w" by blast
  from removeCommand_inv [OF assms rb_remove.hyps(2) k(2), of cid a p] rb_remove.hyps(3) k(1) show ?case by auto
next
  case (rb_leave rb w ord sord cid r rb' w')
  then obtain kv1 where k: "KV_Prefix K kv replayBlockerStoragePrefix = Inr kv1" "rb_inv C K store kv1 rb w" by blast
  from removeChannelCommands_inv [OF assms rb_leave.hyps(2) k(2), of sord cid] rb_leave.hyps(3) k(1) show ?case by auto
next
  case (rb_restart rb w rb')
  then obtain kv1 where k: "KV_Prefix K kv replayBlockerStoragePrefix = Inr kv1" "rb_inv C K store kv1 rb w" by blast
  from newOrLoadReplayBlocker_inv [OF k] rb_restart.hyps(2) k(1) show ?case by auto
next
  case (rb_other rb w hs w')
  then obtain kv1 where k: "KV_Prefix K kv replayBlockerStoragePrefix = Inr kv1" "rb_inv C K store kv1 rb w" by blast
  have "rb_kv rb = kv1" using k(2) by (simp add: rb_inv_def)
  then have "chan_kept (cl_id C) (command_layout (cl_id C)) K w' kv1 (rb_commandsByChannel rb)"
    using ids.cmd.kept_frame [OF _ rb_other.hyps(2)] rb_other.hyps(3) k(2) by (simp add: rb_inv_def)
  with k show ?case by (simp add: rb_inv_def)
qed

end

text \<open>C19: The replay blocker refuses exactly the commands that are older than the stored one. In every state of the blocker,
  \<open>verifyReplay\<close> refuses a command, and asks for the stored one to be replayed, exactly when a command with the same
  fingerprint is stored whose originating round is not smaller and whose unsanitized payload is another one. Otherwise it stores the
  new command in its place and nothing else changes, the details can be loaded from the command store, no call fails, and
  the blocker loaded after a restart knows the same commands.\<close>

theorem verifyReplay_exact:
  assumes "versioned_kv K" "sets_succeed K" "deletes_succeed K" "chan_codecs C" "rb_run C K store kv rb w" "id_order ord"
    and "rb_new C m p = Inr n" "key = fp_key (newCommandFingerprint C (cm_ChannelID m) (cm_MessageType m) (cm_Content m))"
  shows "if \<exists>c. rb_lookup rb (cm_ChannelID m) key = Some c \<and> rc_OriginatingRound c \<ge> rc_OriginatingRound n \<and>
           rc_UnsanitizedFP c \<noteq> rc_UnsanitizedFP n
    then verifyReplay C ord K w rb m p = Inr ((False, None), rb_lookup rb (cm_ChannelID m) key, rb, w)
    else \<exists>rb' w' rb1. verifyReplay C ord K w rb m p = Inr ((True, None), None, rb', w') \<and>
      rb_lookup rb' = (\<lambda>d k. if d = cm_ChannelID m \<and> k = key then Some n else rb_lookup rb d k) \<and>
      LoadCommand C K w' store (cm_ChannelID m) (cm_MessageType m) (cm_Content m) =
        Inr (m\<lparr>cm_Nickname := [], cm_PubKey := [], cm_Codeset := 0, cm_Status := 0, cm_UserMuted := False\<rparr>) \<and>
      newOrLoadReplayBlocker C K w' store kv = Inr (Inr rb1) \<and> rb_lookup rb1 = rb_lookup rb'"
proof -
  obtain kv1 where k: "KV_Prefix K kv replayBlockerStoragePrefix = Inr kv1" "rb_inv C K store kv1 rb w"
    using chan_codecs.rb_run_inv [OF assms(4,1-3,5)] by blast
  show ?thesis
  proof (cases "\<exists>c. rb_lookup rb (cm_ChannelID m) key = Some c \<and> rc_OriginatingRound c \<ge> rc_OriginatingRound n \<and>
           rc_UnsanitizedFP c \<noteq> rc_UnsanitizedFP n")
    case True
    with chan_codecs.verifyReplay_spec [OF assms(4,1,2,6) k(2) assms(7,8)] show ?thesis by simp
  next
    case False
    with chan_codecs.verifyReplay_spec [OF assms(4,1,2,6) k(2) assms(7,8)] obtain rb' w' where
      v: "verifyReplay C ord K w rb m p = Inr ((True, None), None, rb', w')" "rb_inv C K store kv1 rb' w'"
      "\<forall>d k. rb_lookup rb' d k = (if d = cm_ChannelID m \<and> k = key then Some n else rb_lookup rb d k)"
      "LoadCommand C K w' store (cm_ChannelID m) (cm_MessageType m) (cm_Content m) =
        Inr (m\<lparr>cm_Nickname := [], cm_PubKey := [], cm_Codeset := 0, cm_Status := 0, cm_UserMuted := False\<rparr>)" by auto
    from chan_codecs.newOrLoadReplayBlocker_inv [OF assms(4) k(1) v(2)] v False show ?thesis
      by (auto simp: fun_eq_iff)
  qed
qed

text \<open>C38: A replay can undo a newer command. The round is not compared when the unsanitized payload is the stored one. So when
  the stored command of round \<open>r3\<close> repeats one of an earlier round \<open>r1\<close> (a message pinned, unpinned and pinned again),
  a replay of the first is accepted and sets the stored round back to \<open>r1\<close>, and then a replay of the opposite command of a
  round between them, which is refused in the state before, is accepted and replaces the newest command.\<close>

theorem replay_undoes_newer_command:
  assumes "versioned_kv K" "sets_succeed K" "deletes_succeed K" "chan_codecs C" "rb_run C K store kv rb w" "id_order ord"
    and "rb_new C m1 p1 = Inr n1" "rb_new C m2 p2 = Inr n2"
    and "cm_ChannelID m2 = cm_ChannelID m1" "cm_MessageType m2 = cm_MessageType m1" "cm_Content m2 = cm_Content m1"
    and "key = fp_key (newCommandFingerprint C (cm_ChannelID m1) (cm_MessageType m1) (cm_Content m1))"
    and "rb_lookup rb (cm_ChannelID m1) key = Some n3" "rc_UnsanitizedFP n3 = rc_UnsanitizedFP n1"
    and "rc_UnsanitizedFP n2 \<noteq> rc_UnsanitizedFP n1"
    and "rc_OriginatingRound n1 < rc_OriginatingRound n2" "rc_OriginatingRound n2 < rc_OriginatingRound n3"
  shows "\<exists>rb1 w1 rb2 w2. verifyReplay C ord K w rb m2 p2 = Inr ((False, None), Some n3, rb, w) \<and>
    verifyReplay C ord K w rb m1 p1 = Inr ((True, None), None, rb1, w1) \<and>
    verifyReplay C ord K w1 rb1 m2 p2 = Inr ((True, None), None, rb2, w2) \<and>
    rb_lookup rb2 (cm_ChannelID m1) key = Some n2"
proof -
  note a = chan_codecs.verifyReplay_spec [OF assms(4,1,2,6)]
  obtain kv1 where k: "rb_inv C K store kv1 rb w" using chan_codecs.rb_run_inv [OF assms(4,1-3,5)] by blast
  have "verifyReplay C ord K w rb m2 p2 = Inr ((False, None), Some n3, rb, w)"
    using a [OF k assms(8), of key] assms(9-17) by auto
  moreover obtain rb1 w1 where 1: "verifyReplay C ord K w rb m1 p1 = Inr ((True, None), None, rb1, w1)" "rb_inv C K store kv1 rb1 w1"
    "rb_lookup rb1 (cm_ChannelID m1) key = Some n1"
    using a [OF k assms(7,12)] assms(13,14) by auto
  moreover have "\<not> rc_OriginatingRound n2 \<le> rc_OriginatingRound n1" using assms(16) by simp
  moreover from this obtain rb2 w2 where "verifyReplay C ord K w1 rb1 m2 p2 = Inr ((True, None), None, rb2, w2)"
    "rb_lookup rb2 (cm_ChannelID m1) key = Some n2"
    using a [OF 1(2) assms(8), of key] assms(9-12) 1(3) by auto
  ultimately show ?thesis by blast
qed

definition chan_libs_example :: "unit chan_libs" where
  "chan_libs_example =
     \<lparr>cl_id = bytes_codec, cl_hash = (\<lambda>b. put_le64 (word_of_nat (length b))), cl_msgJSON = JBytes, cl_jsonMsg = json_bytes, cl_roundJSON = (\<lambda>_. JNull),
      cl_jsonRound = (\<lambda>_. Some ())\<rparr>"

interpretation ex: chan_codecs chan_libs_example
  by unfold_locales (simp_all add: chan_libs_example_def bytes_codec_def)

definition cmd_example :: "u64 \<Rightarrow> unit CommandMessage" where
  "cmd_example r =
     \<lparr>cm_ChannelID = [1], cm_MessageID = [2], cm_MessageType = Pinned, cm_Nickname = [], cm_Content = [9], cm_EncryptedPayload = [4],
      cm_PubKey = [], cm_Codeset = 0, cm_Timestamp = 5, cm_OriginatingTimestamp = 5, cm_Lease = 60, cm_OriginatingRound = r,
      cm_Round = (), cm_Status = 0, cm_FromAdmin = True, cm_UserMuted = False\<rparr>"

abbreviation pin_key :: string where
  "pin_key \<equiv> fp_key (newCommandFingerprint chan_libs_example [1] Pinned [9])"

definition pin_command :: "u64 \<Rightarrow> u64 \<Rightarrow> commandMessage" where
  "pin_command r f = \<lparr>rc_ChannelID = [1], rc_Action = Pinned, rc_Payload = [9], rc_OriginatingRound = r, rc_UnsanitizedFP = f\<rparr>"

lemma rb_new_example:
  "rb_new chan_libs_example (cmd_example r) [9, 1] = Inr (pin_command r 5)"
  "rb_new chan_libs_example (cmd_example r) [9, 1, 1] = Inr (pin_command r 6)"
proof -
  have "get_le 8 (newCommandFingerprint chan_libs_example [1] Pinned p) = Inr (word_of_nat (length p + 3) :: u64)" for p
    by (simp add: newCommandFingerprint_def chan_libs_example_def copy_at_def commandFpLen_def mt_Marshal_def add.commute)
  from this [of "[9, 1]"] this [of "[9, 1, 1]"] show
    "rb_new chan_libs_example (cmd_example r) [9, 1] = Inr (pin_command r 5)"
    "rb_new chan_libs_example (cmd_example r) [9, 1, 1] = Inr (pin_command r 6)"
    by (simp_all add: rb_new_def cmd_example_def pin_command_def)
qed

text \<open>A blocker on the in-memory store, started empty.\<close>

lemma rb_example:
  obtains store rb where "rb_run chan_libs_example mem_KV store NewKV rb Map.empty" "rb_lookup rb = (\<lambda>c k. None)"
proof -
  have d: "p \<noteq> q \<Longrightarrow> kv_Prefix NewKV p = Inr u \<Longrightarrow> kv_Prefix NewKV q = Inr v \<Longrightarrow> apart mem_KV u v" for p q u v
    using mem.derived_all_apart [of "[] @ [p]" u "[] @ [q]" v] derived_prefix [OF derived_new] by auto
  obtain store where s: "kv_Prefix NewKV commandStorePrefix = Inr store"
    by (simp add: kv_Prefix_def NewKV_def commandStorePrefix_def HasPrefix_def)
  obtain kv1 where k: "kv_Prefix NewKV replayBlockerStoragePrefix = Inr kv1"
    by (simp add: kv_Prefix_def NewKV_def replayBlockerStoragePrefix_def HasPrefix_def)
  have n: "commandStorePrefix \<noteq> replayBlockerStoragePrefix" by (simp add: commandStorePrefix_def replayBlockerStoragePrefix_def)
  let ?rb = "\<lparr>rb_commandsByChannel = [], rb_store = store, rb_kv = kv1\<rparr>"
  have "newOrLoadReplayBlocker chan_libs_example mem_KV Map.empty store NewKV = Inr (Inr ?rb)"
    by (simp add: newOrLoadReplayBlocker_def newReplayBlocker_def mem_KV_simps k rb_load_def lay_load_def lay_loadChannels_def Exists_def)
  then have "rb_run chan_libs_example mem_KV store NewKV ?rb Map.empty"
    by (rule rb_start [rotated 4]) (use k d [OF n s k] d [OF n [symmetric] k s] in \<open>simp_all add: mem_KV_simps\<close>)
  then show thesis by (rule that) (simp add: rb_lookup_def lay_messages_def fun_eq_iff)
qed

lemma cmd_example_simps [simp]:
  "cm_ChannelID (cmd_example r) = [1]" "cm_MessageType (cmd_example r) = Pinned" "cm_Content (cmd_example r) = [9]"
  by (simp_all add: cmd_example_def)

lemma pin_command_simps [simp]: "rc_OriginatingRound (pin_command r f) = r" "rc_UnsanitizedFP (pin_command r f) = f"
  by (simp_all add: pin_command_def)

theorem verifyReplay_exact_witness:
  "\<exists>store rb w rb' w'. rb_run chan_libs_example mem_KV store NewKV rb w \<and> rb_lookup rb [1] pin_key = Some (pin_command 3 5) \<and>
     verifyReplay chan_libs_example id mem_KV w rb (cmd_example 2) [9, 1, 1] = Inr ((False, None), Some (pin_command 3 5), rb, w) \<and>
     verifyReplay chan_libs_example id mem_KV w rb (cmd_example 4) [9, 1, 1] = Inr ((True, None), None, rb', w') \<and>
     rb_lookup rb' [1] pin_key = Some (pin_command 4 6)"
proof -
  obtain store rb0 where 0: "rb_run chan_libs_example mem_KV store NewKV rb0 Map.empty" "rb_lookup rb0 = (\<lambda>c k. None)"
    by (rule rb_example)
  note x = verifyReplay_exact [OF mem.versioned mem_sets mem_deletes ex.chan_codecs_axioms _ id_order_id]
  obtain rb w where 1: "verifyReplay chan_libs_example id mem_KV Map.empty rb0 (cmd_example 3) [9, 1] = Inr ((True, None), None, rb, w)"
    "rb_lookup rb [1] pin_key = Some (pin_command 3 5)"
    using x [OF 0(1) rb_new_example(1) refl, of 3] by (auto simp: 0(2))
  note r = rb_verify [OF 0(1) id_order_id 1(1)]
  have "verifyReplay chan_libs_example id mem_KV w rb (cmd_example 2) [9, 1, 1] = Inr ((False, None), Some (pin_command 3 5), rb, w)"
    using x [OF r rb_new_example(2) refl, of 2] 1(2) by auto
  moreover obtain rb' w' where "verifyReplay chan_libs_example id mem_KV w rb (cmd_example 4) [9, 1, 1] = Inr ((True, None), None, rb', w')"
    "rb_lookup rb' [1] pin_key = Some (pin_command 4 6)"
    using x [OF r rb_new_example(2) refl, of 4] 1(2) by auto
  ultimately show ?thesis using r 1(2) by blast
qed

theorem replay_undoes_newer_command_witness:
  "\<exists>store rb w rb1 w1 rb2 w2. rb_run chan_libs_example mem_KV store NewKV rb w \<and> rb_lookup rb [1] pin_key = Some (pin_command 3 5) \<and>
     verifyReplay chan_libs_example id mem_KV w rb (cmd_example 2) [9, 1, 1] = Inr ((False, None), Some (pin_command 3 5), rb, w) \<and>
     verifyReplay chan_libs_example id mem_KV w rb (cmd_example 1) [9, 1] = Inr ((True, None), None, rb1, w1) \<and>
     verifyReplay chan_libs_example id mem_KV w1 rb1 (cmd_example 2) [9, 1, 1] = Inr ((True, None), None, rb2, w2) \<and>
     rb_lookup rb2 [1] pin_key = Some (pin_command 2 6)"
proof -
  obtain store rb0 where 0: "rb_run chan_libs_example mem_KV store NewKV rb0 Map.empty" "rb_lookup rb0 = (\<lambda>c k. None)"
    by (rule rb_example)
  obtain kv1 where i: "rb_inv chan_libs_example mem_KV store kv1 rb0 Map.empty"
    using ex.rb_run_inv [OF mem.versioned mem_sets mem_deletes 0(1)] by blast
  obtain rb w where 1: "verifyReplay chan_libs_example id mem_KV Map.empty rb0 (cmd_example 3) [9, 1] = Inr ((True, None), None, rb, w)"
    "rb_lookup rb [1] pin_key = Some (pin_command 3 5)"
    using ex.verifyReplay_spec [OF mem.versioned mem_sets id_order_id i rb_new_example(1) refl, of 3] by (auto simp: 0(2))
  note r = rb_verify [OF 0(1) id_order_id 1(1)]
  from replay_undoes_newer_command [OF mem.versioned mem_sets mem_deletes ex.chan_codecs_axioms r id_order_id
      rb_new_example(1) [of 1] rb_new_example(2) [of 2], of pin_key "pin_command 3 5"] 1(2) r
  show ?thesis by (auto intro!: exI)
qed

end
