(* ===== verification/Channel_Leases.thy ===== *)
theory Channel_Leases
  imports Channel_Commands
begin

text \<open>
  The leases of the commands of admins (\<open>channels/lease.go\<close>): every pinned message and muted user has a lease. A thread
  keeps the leases in a list ordered by their triggers; when a trigger is reached it undoes the command if its lease has ended, and
  replays it otherwise. Over the replay blocker, the store of commands and the storage of channel maps.
\<close>

section \<open>Triggers\<close>

text \<open>A \<open>time.Time\<close> is in nanoseconds; a \<open>time.Duration\<close> is an \<open>int64\<close>: differences of times saturate, differences of durations
  wrap.\<close>

definition minute :: int where "minute = 60000000000"

definition gracePeriod :: int where "gracePeriod = 3 * minute"
definition replayWaitMin :: int where "replayWaitMin = 5 * minute"
definition replayWaitMax :: int where "replayWaitMax = 30 * minute"
definition quickReplayFloor :: int where "quickReplayFloor = gracePeriod"
definition quickReplayCeiling :: int where "quickReplayCeiling = 10 * minute"
definition MessageLife :: int where "MessageLife = 500 * 60 * minute"
definition ValidForever :: int where "ValidForever = 2 ^ 63 - 1"

definition time_Sub :: "int \<Rightarrow> int \<Rightarrow> int" where
  "time_Sub a b = max (- (2 ^ 63)) (min (2 ^ 63 - 1) (a - b))"

definition wrap64 :: "int \<Rightarrow> int" where
  "wrap64 i = sint (word_of_int i :: u64)"

text \<open>\<open>draw\<close> is the random number in an interval of the given size with the next state of the source; it fails when the
  source does.\<close>

type_synonym 's draw = "'s \<Rightarrow> int \<Rightarrow> fault + int \<times> 's"

definition randDurationInRange :: "'s draw \<Rightarrow> 's \<Rightarrow> int \<Rightarrow> int \<Rightarrow> fault + int \<times> 's" where
  "randDurationInRange draw rng start stop =
     res_bind (draw rng (wrap64 (stop - start))) (\<lambda>(n, rng1). Inr (wrap64 (start + n), rng1))"

text \<open>The trigger of a lease, \<open>None\<close> when the message is dropped.\<close>

definition calculateLeaseTrigger :: "'s draw \<Rightarrow> 's \<Rightarrow> int \<Rightarrow> int \<Rightarrow> int \<Rightarrow> fault + int option \<times> 's" where
  "calculateLeaseTrigger draw rng now originatingTimestamp lease =
     (let elapsedLife = time_Sub now originatingTimestamp
      in if elapsedLife \<ge> lease then Inr (None, rng)
         else if lease = ValidForever \<or> wrap64 (lease - elapsedLife) \<ge> MessageLife then
           (let floor0 = now + MessageLife div 2;
                floor = (if now > floor0 then now + gracePeriod else floor0);
                ceiling = now + MessageLife
            in if floor > ceiling \<or> time_Sub ceiling floor < gracePeriod then Inr (None, rng)
               else res_bind (randDurationInRange draw rng 0 (time_Sub ceiling floor)) (\<lambda>(d, rng1). Inr (Some (floor + d), rng1)))
         else Inr (Some (originatingTimestamp + lease), rng))"

section \<open>The lists of leases\<close>

text \<open>A message and its link \<open>e\<close> into the list of leases. Messages are references into a heap; an element of the list is named by the
  message it holds, since a message is inserted once.\<close>

record leaseData =
  lm_ChannelID :: bytes
  lm_Action :: u16
  lm_Payload :: bytes
  lm_OriginatingTimestamp :: int
  lm_Lease :: int
  lm_LeaseEnd :: int
  lm_LeaseTrigger :: int

record leaseMessage = leaseData +
  lm_e :: "nat option"

text \<open>The queues are the Go channels of the thread (a send on a full channel waits until there is room), \<open>al_replays\<close> the
  replays of the blocker that run in goroutines of their own, \<open>al_alarm\<close> the time at which the timer of the thread fires.\<close>

record ('h, 's) ActionLeaseList =
  al_heap :: "leaseMessage list"
  al_leases :: "nat list"
  al_messagesByChannel :: "nat chan_map"
  al_addLeaseMessage :: "leaseMessage list"
  al_removeLeaseMessage :: "(bytes \<times> u16 \<times> bytes) list"
  al_removeChannelCh :: "bytes list"
  al_replays :: "commandMessage list"
  al_rb :: "'h replayBlocker"
  al_store :: 'h
  al_kv :: 'h
  al_rng :: 's
  al_alarm :: "int option"

definition channelLeaseVer :: u64 where "channelLeaseVer = 0"
definition channelLeaseKey :: string where "channelLeaseKey = ''channelLeases''"
definition channelLeaseMessagesVer :: u64 where "channelLeaseMessagesVer = 0"
definition channelLeaseMessagesKeyPrefix :: string where "channelLeaseMessagesKeyPrefix = ''channelLeaseMessages/''"

definition makeChannelLeaseMessagesKey :: "bytes \<Rightarrow> string" where
  "makeChannelLeaseMessagesKey channelID = channelLeaseMessagesKeyPrefix @ base64 channelID"

definition lm_marshal :: "id_codec \<Rightarrow> leaseData \<Rightarrow> json" where
  "lm_marshal J m =
     JObj [(''channelID'', idJSON J (lm_ChannelID m)), (''action'', word_json (lm_Action m)), (''payload'', JBytes (lm_Payload m)),
           (''originatingTimestamp'', JNum (lm_OriginatingTimestamp m)), (''lease'', JNum (lm_Lease m)),
           (''leaseEnd'', JNum (lm_LeaseEnd m)), (''leaseTrigger'', JNum (lm_LeaseTrigger m))]"

definition lm_unmarshal :: "id_codec \<Rightarrow> json \<Rightarrow> leaseData option" where
  "lm_unmarshal J j =
     (case (jsonID J (json_field j ''channelID''), json_word (json_field j ''action''), json_bytes (json_field j ''payload''),
            json_number (json_field j ''originatingTimestamp''), json_number (json_field j ''lease''),
            json_number (json_field j ''leaseEnd''), json_number (json_field j ''leaseTrigger'')) of
        (Some c, Some a, Some p, Some ots, Some l, Some le, Some lt) \<Rightarrow>
          Some \<lparr>lm_ChannelID = c, lm_Action = a, lm_Payload = p, lm_OriginatingTimestamp = ots, lm_Lease = l, lm_LeaseEnd = le,
                lm_LeaseTrigger = lt\<rparr>
      | _ \<Rightarrow> None)"

definition lease_layout :: "id_codec \<Rightarrow> leaseData chan_layout" where
  "lease_layout J =
     \<lparr>lay_listKey = channelLeaseKey, lay_listVer = channelLeaseVer, lay_key = makeChannelLeaseMessagesKey,
      lay_ver = channelLeaseMessagesVer, lay_enc = lm_marshal J, lay_dec = lm_unmarshal J\<rparr>"

definition lm_data :: "leaseMessage \<Rightarrow> leaseData" where
  "lm_data m = leaseData.truncate m"

definition lm_loaded :: "leaseData \<Rightarrow> leaseMessage" where
  "lm_loaded d = leaseData.extend d (leaseMessage.fields None)"

definition lm_key :: "'r chan_libs \<Rightarrow> 'a leaseData_scheme \<Rightarrow> string" where
  "lm_key C m = fp_key (newCommandFingerprint C (lm_ChannelID m) (lm_Action m) (lm_Payload m))"

text \<open>What is marshalled of the map.\<close>

definition al_view :: "('h, 's) ActionLeaseList \<Rightarrow> leaseData chan_map" where
  "al_view al = map (\<lambda>(c, ms). (c, map (\<lambda>(k, r). (k, lm_data (al_heap al ! r))) ms)) (al_messagesByChannel al)"

definition al_updateStorage ::
  "'r chan_libs \<Rightarrow> (bytes list \<Rightarrow> bytes list) \<Rightarrow> ('h, 'w) KV_ops \<Rightarrow> 'w \<Rightarrow> ('h, 's) ActionLeaseList \<Rightarrow> bytes \<Rightarrow> bool \<Rightarrow> kv_error option \<times> 'w" where
  "al_updateStorage C ord K w al channelID channelIdUpdate =
     lay_update (cl_id C) (lease_layout (cl_id C)) ord K w (al_kv al) (al_view al) channelID channelIdUpdate"

subsection \<open>The list of package \<open>container/list\<close>\<close>

definition InsertBefore :: "'a \<Rightarrow> 'a \<Rightarrow> 'a list \<Rightarrow> 'a list" where
  "InsertBefore e mark xs = takeWhile (\<lambda>x. x \<noteq> mark) xs @ e # dropWhile (\<lambda>x. x \<noteq> mark) xs"

definition MoveToBack :: "'a \<Rightarrow> 'a list \<Rightarrow> 'a list" where
  "MoveToBack e xs = (if e \<in> set xs then remove1 e xs @ [e] else xs)"

definition MoveBefore :: "'a \<Rightarrow> 'a \<Rightarrow> 'a list \<Rightarrow> 'a list" where
  "MoveBefore e mark xs = (if e \<in> set xs \<and> e \<noteq> mark \<and> mark \<in> set xs then InsertBefore e mark (remove1 e xs) else xs)"

abbreviation al_trigger :: "('h, 's) ActionLeaseList \<Rightarrow> nat \<Rightarrow> int" where
  "al_trigger al r \<equiv> lm_LeaseTrigger (al_heap al ! r)"

definition findSortedPosition :: "('h, 's) ActionLeaseList \<Rightarrow> int \<Rightarrow> nat option" where
  "findSortedPosition al leaseTrigger = List.find (\<lambda>mark. al_trigger al mark > leaseTrigger) (al_leases al)"

text \<open>The element that is returned is the one of the message \<open>r\<close>.\<close>

definition insertLease :: "('h, 's) ActionLeaseList \<Rightarrow> nat \<Rightarrow> ('h, 's) ActionLeaseList" where
  "insertLease al r =
     (case findSortedPosition al (al_trigger al r) of
        None \<Rightarrow> al\<lparr>al_leases := al_leases al @ [r]\<rparr>
      | Some mark \<Rightarrow> al\<lparr>al_leases := InsertBefore r mark (al_leases al)\<rparr>)"

definition updateLease :: "('h, 's) ActionLeaseList \<Rightarrow> nat option \<Rightarrow> fault + ('h, 's) ActionLeaseList" where
  "updateLease al el =
     (case el of
        None \<Rightarrow> Inl NilDereference
      | Some e \<Rightarrow>
          (case findSortedPosition al (al_trigger al e) of
             None \<Rightarrow> Inr (al\<lparr>al_leases := MoveToBack e (al_leases al)\<rparr>)
           | Some mark \<Rightarrow> Inr (al\<lparr>al_leases := MoveBefore e mark (al_leases al)\<rparr>)))"

subsection \<open>Operations of the thread\<close>

text \<open>The new message gets the next reference; \<open>lmp.e = all.insertLease(...)\<close> sets its link.\<close>

definition add_lease :: "('h, 's) ActionLeaseList \<Rightarrow> leaseMessage \<Rightarrow> ('h, 's) ActionLeaseList" where
  "add_lease al lm =
     (let r = length (al_heap al);
          al1 = insertLease (al\<lparr>al_heap := al_heap al @ [lm]\<rparr>) r
      in al1\<lparr>al_heap := (al_heap al1)[r := lm\<lparr>lm_e := Some r\<rparr>]\<rparr>)"

definition addMessage ::
  "'r chan_libs \<Rightarrow> (bytes list \<Rightarrow> bytes list) \<Rightarrow> ('h, 'w) KV_ops \<Rightarrow> 'w \<Rightarrow> ('h, 's) ActionLeaseList \<Rightarrow> leaseMessage \<Rightarrow>
   fault + kv_error option \<times> ('h, 's) ActionLeaseList \<times> 'w" where
  "addMessage C ord K w al lm =
     (let c = lm_ChannelID lm; key = lm_key C lm; r = length (al_heap al); byChannel = al_messagesByChannel al
      in case map_of byChannel c of
           None \<Rightarrow>
             (let al1 = (add_lease al lm)\<lparr>al_messagesByChannel := AList.update c [(key, r)] byChannel\<rparr>;
                  (err, w1) = al_updateStorage C ord K w al1 c True
              in Inr (err, al1, w1))
         | Some messages \<Rightarrow>
             (case map_of messages key of
                None \<Rightarrow>
                  (if messages = [] then Inl NilDereference
                   else
                     let al1 = (add_lease al lm)\<lparr>al_messagesByChannel := AList.update c (AList.update key r messages) byChannel\<rparr>;
                         (err, w1) = al_updateStorage C ord K w al1 c False
                     in Inr (err, al1, w1))
              | Some _ \<Rightarrow>
                  res_bind (updateLease (al\<lparr>al_heap := al_heap al @ [lm]\<rparr>) (lm_e lm)) (\<lambda>al1.
                    let (err, w1) = al_updateStorage C ord K w al1 c False in Inr (err, al1, w1))))"

definition removeMessage ::
  "'r chan_libs \<Rightarrow> (bytes list \<Rightarrow> bytes list) \<Rightarrow> ('h, 'w) KV_ops \<Rightarrow> 'w \<Rightarrow> ('h, 's) ActionLeaseList \<Rightarrow> bytes \<times> u16 \<times> bytes \<Rightarrow> bool \<Rightarrow>
   fault + kv_error option \<times> ('h, 's) ActionLeaseList \<times> 'w" where
  "removeMessage C ord K w al newLm leaseExpired =
     (let (channelID, action, payload) = newLm; key = fp_key (newCommandFingerprint C channelID action payload); byChannel = al_messagesByChannel al
      in case map_of byChannel channelID of
           None \<Rightarrow> Inr (None, al, w)
         | Some messages \<Rightarrow>
             (case map_of messages key of
                None \<Rightarrow> Inr (None, al, w)
              | Some r \<Rightarrow>
                  (let lm = al_heap al ! r; c = lm_ChannelID lm
                   in case lm_e lm of
                        None \<Rightarrow> Inl NilDereference
                      | Some e \<Rightarrow>
                          (let ms = AList.delete key (lay_messages byChannel c);
                               al1 = al\<lparr>al_leases := remove1 e (al_leases al),
                                        al_messagesByChannel := (if ms = [] then AList.delete c byChannel else AList.update c ms byChannel)\<rparr>;
                               (al2, w2) =
                                 (if leaseExpired then
                                    let (err, rb, w1) = removeCommand C ord K w (al_rb al1) c (lm_Action lm) (lm_Payload lm)
                                    in (al1\<lparr>al_rb := rb\<rparr>, snd (DeleteCommand C K w1 (al_store al) c (lm_Action lm) (lm_Payload lm)))
                                  else (al1, w));
                               (err, w3) = al_updateStorage C ord K w2 al2 c (ms = [])
                           in Inr (err, al2, w3)))))"

definition updateLeaseTrigger ::
  "'r chan_libs \<Rightarrow> 's draw \<Rightarrow> (bytes list \<Rightarrow> bytes list) \<Rightarrow> ('h, 'w) KV_ops \<Rightarrow> 'w \<Rightarrow> ('h, 's) ActionLeaseList \<Rightarrow> bytes \<times> u16 \<times> bytes \<Rightarrow> int \<Rightarrow>
   fault + kv_error option \<times> ('h, 's) ActionLeaseList \<times> 'w" where
  "updateLeaseTrigger C draw ord K w al newLm now =
     (let (channelID, action, payload) = newLm; key = fp_key (newCommandFingerprint C channelID action payload)
      in case map_of (al_messagesByChannel al) channelID of
           None \<Rightarrow> Inr (None, al, w)
         | Some messages \<Rightarrow>
             (case map_of messages key of
                None \<Rightarrow> Inr (None, al, w)
              | Some r \<Rightarrow>
                  (let lm = al_heap al ! r
                   in res_bind (calculateLeaseTrigger draw (al_rng al) now (lm_OriginatingTimestamp lm) (lm_Lease lm)) (\<lambda>(t, rng).
                        case t of
                          None \<Rightarrow> removeMessage C ord K w (al\<lparr>al_rng := rng\<rparr>) (lm_ChannelID lm, lm_Action lm, lm_Payload lm) True
                        | Some leaseTrigger \<Rightarrow>
                            res_bind (updateLease (al\<lparr>al_rng := rng, al_heap := (al_heap al)[r := lm\<lparr>lm_LeaseTrigger := leaseTrigger\<rparr>]\<rparr>) (lm_e lm)) (\<lambda>al1.
                              let (err, w1) = al_updateStorage C ord K w al1 (lm_ChannelID lm) False in Inr (err, al1, w1))))))"

text \<open>The loop over the leases of a channel that is left.\<close>

fun remove_leases ::
  "'r chan_libs \<Rightarrow> ('h, 'w) KV_ops \<Rightarrow> 'w \<Rightarrow> ('h, 's) ActionLeaseList \<Rightarrow> nat list \<Rightarrow> fault + ('h, 's) ActionLeaseList \<times> 'w" where
  "remove_leases C K w al [] = Inr (al, w)"
| "remove_leases C K w al (r # rs) =
     (let lm = al_heap al ! r
      in case lm_e lm of
           None \<Rightarrow> Inl NilDereference
         | Some e \<Rightarrow>
             remove_leases C K (snd (DeleteCommand C K w (al_store al) (lm_ChannelID lm) (lm_Action lm) (lm_Payload lm)))
               (al\<lparr>al_leases := remove1 e (al_leases al)\<rparr>) rs)"

definition al_removeChannel ::
  "'r chan_libs \<Rightarrow> (bytes list \<Rightarrow> bytes list) \<Rightarrow> (string list \<Rightarrow> string list) \<Rightarrow> ('h, 'w) KV_ops \<Rightarrow> 'w \<Rightarrow> ('h, 's) ActionLeaseList \<Rightarrow> bytes \<Rightarrow>
   fault + kv_error option \<times> ('h, 's) ActionLeaseList \<times> 'w" where
  "al_removeChannel C ord sord K w al channelID =
     (case map_of (al_messagesByChannel al) channelID of
        None \<Rightarrow> Inr (None, al, w)
      | Some leases \<Rightarrow>
          res_bind (remove_leases C K w al (List.map_filter (map_of leases) (sord (map fst leases)))) (\<lambda>(al1, w1).
            let (err, rb, w2) = removeChannelCommands C ord sord K w1 (al_rb al1) channelID;
                al2 = al1\<lparr>al_rb := rb, al_messagesByChannel := AList.delete channelID (al_messagesByChannel al1)\<rparr>
            in case lay_storeChannels (cl_id C) (lease_layout (cl_id C)) ord K w2 (al_kv al) (al_view al2) of
                 (Some err, w3) \<Rightarrow> Inr (Some err, al2, w3)
               | (None, w3) \<Rightarrow>
                   (let (err, w4) = lay_deleteMessages (lease_layout (cl_id C)) K w3 (al_kv al) channelID in Inr (err, al2, w4))))"

section \<open>Loading\<close>

text \<open>A loaded message whose trigger has passed gets a new one; the times are in UTC, so that \<open>==\<close> compares instants.\<close>

definition reschedule :: "'s draw \<Rightarrow> int \<Rightarrow> ('h, 's) ActionLeaseList \<Rightarrow> nat \<Rightarrow> fault + ('h, 's) ActionLeaseList" where
  "reschedule draw now al r =
     (let lm = al_heap al ! r
      in if lm_LeaseTrigger lm < now then
           res_bind (randDurationInRange draw (al_rng al) replayWaitMin replayWaitMax) (\<lambda>(d, rng).
             let lm1 = (if lm_LeaseTrigger lm = lm_LeaseEnd lm then lm\<lparr>lm_LeaseEnd := now + d\<rparr> else lm)
             in Inr (al\<lparr>al_rng := rng, al_heap := (al_heap al)[r := lm1\<lparr>lm_LeaseTrigger := now + d\<rparr>]\<rparr>))
         else Inr al)"

fun load_leases :: "'s draw \<Rightarrow> int \<Rightarrow> ('h, 's) ActionLeaseList \<Rightarrow> nat list \<Rightarrow> fault + ('h, 's) ActionLeaseList" where
  "load_leases draw now al [] = Inr al"
| "load_leases draw now al (r # rs) =
     res_bind (reschedule draw now al r) (\<lambda>al1.
       let al2 = insertLease al1 r
       in load_leases draw now (al2\<lparr>al_heap := (al_heap al2)[r := (al_heap al2 ! r)\<lparr>lm_e := Some r\<rparr>]\<rparr>) rs)"

text \<open>The unmarshalled messages are new objects of the heap. When the messages of a channel cannot be loaded a nil map stays in
  the map.\<close>

definition load_objects :: "('h, 's) ActionLeaseList \<Rightarrow> bytes \<Rightarrow> (string \<times> leaseData) list \<Rightarrow> ('h, 's) ActionLeaseList" where
  "load_objects al channelID messages =
     (let n = length (al_heap al)
      in al\<lparr>al_heap := al_heap al @ map (\<lambda>(k, d). lm_loaded d) messages,
            al_messagesByChannel := AList.update channelID (zip (map fst messages) [n..<n + length messages]) (al_messagesByChannel al)\<rparr>)"

fun al_load_loop ::
  "'r chan_libs \<Rightarrow> 's draw \<Rightarrow> (string list \<Rightarrow> string list) \<Rightarrow> ('h, 'w) KV_ops \<Rightarrow> 'w \<Rightarrow> int \<Rightarrow> ('h, 's) ActionLeaseList \<Rightarrow> bytes list \<Rightarrow>
   fault + kv_error option \<times> ('h, 's) ActionLeaseList" where
  "al_load_loop C draw sord K w now al [] = Inr (None, al)"
| "al_load_loop C draw sord K w now al (channelID # cids) =
     (case lay_loadMessages (lease_layout (cl_id C)) K w (al_kv al) channelID of
        Inl err \<Rightarrow> Inr (Some err, al\<lparr>al_messagesByChannel := AList.update channelID [] (al_messagesByChannel al)\<rparr>)
      | Inr messages \<Rightarrow>
          (let al1 = load_objects al channelID messages; ms = lay_messages (al_messagesByChannel al1) channelID
           in res_bind (load_leases draw now al1 (List.map_filter (map_of ms) (sord (map fst ms)))) (\<lambda>al2.
                al_load_loop C draw sord K w now al2 cids)))"

definition al_load ::
  "'r chan_libs \<Rightarrow> 's draw \<Rightarrow> (string list \<Rightarrow> string list) \<Rightarrow> ('h, 'w) KV_ops \<Rightarrow> 'w \<Rightarrow> ('h, 's) ActionLeaseList \<Rightarrow> int \<Rightarrow>
   fault + kv_error option \<times> ('h, 's) ActionLeaseList" where
  "al_load C draw sord K w al now =
     (case lay_loadChannels (cl_id C) (lease_layout (cl_id C)) K w (al_kv al) of
        Inl err \<Rightarrow> Inr (Some err, al)
      | Inr channelIDs \<Rightarrow> al_load_loop C draw sord K w now al channelIDs)"

definition NewActionLeaseList :: "('h, 'w) KV_ops \<Rightarrow> 'h \<Rightarrow> 'h \<Rightarrow> 's \<Rightarrow> fault + ('h, 's) ActionLeaseList" where
  "NewActionLeaseList K store kv rng =
     res_bind (newReplayBlocker K store kv) (\<lambda>rb.
       Inr \<lparr>al_heap = [], al_leases = [], al_messagesByChannel = [], al_addLeaseMessage = [], al_removeLeaseMessage = [],
            al_removeChannelCh = [], al_replays = [], al_rb = rb, al_store = store, al_kv = kv, al_rng = rng, al_alarm = None\<rparr>)"

definition NewOrLoadActionLeaseList ::
  "'r chan_libs \<Rightarrow> 's draw \<Rightarrow> (string list \<Rightarrow> string list) \<Rightarrow> ('h, 'w) KV_ops \<Rightarrow> 'w \<Rightarrow> 'h \<Rightarrow> 'h \<Rightarrow> 's \<Rightarrow> int \<Rightarrow>
   fault + (kv_error + ('h, 's) ActionLeaseList)" where
  "NewOrLoadActionLeaseList C draw sord K w store kv rng now =
     res_bind (NewActionLeaseList K store kv rng) (\<lambda>al.
     res_bind (al_load C draw sord K w al now) (\<lambda>(err, al1).
       case err of
         Some e \<Rightarrow>
           (if Exists e then Inr (Inl e)
            else
              case rb_load C K w (al_rb al1) of
                (Some e2, rb) \<Rightarrow> Inr (if Exists e2 then Inl e2 else Inr (al1\<lparr>al_rb := rb\<rparr>))
              | (None, rb) \<Rightarrow> Inr (Inr (al1\<lparr>al_rb := rb\<rparr>)))
       | None \<Rightarrow>
           (case rb_load C K w (al_rb al1) of
              (Some e2, rb) \<Rightarrow> Inr (if Exists e2 then Inl e2 else Inr (al1\<lparr>al_rb := rb\<rparr>))
            | (None, rb) \<Rightarrow> Inr (Inr (al1\<lparr>al_rb := rb\<rparr>)))))"

section \<open>Calls of the client\<close>

datatype lease_error = LeaseExpired | VerifyFailed kv_error | NotVerified | CommandNotLoaded kv_error

definition addToLeaseMessageChan :: "('h, 's) ActionLeaseList \<Rightarrow> 'r CommandMessage \<Rightarrow> int \<Rightarrow> ('h, 's) ActionLeaseList" where
  "addToLeaseMessageChan al m leaseTrigger =
     al\<lparr>al_addLeaseMessage := al_addLeaseMessage al @
       [\<lparr>lm_ChannelID = cm_ChannelID m, lm_Action = cm_MessageType m, lm_Payload = cm_Content m,
         lm_OriginatingTimestamp = cm_OriginatingTimestamp m, lm_Lease = cm_Lease m,
         lm_LeaseEnd = cm_OriginatingTimestamp m + cm_Lease m, lm_LeaseTrigger = leaseTrigger, lm_e = None\<rparr>]\<rparr>"

text \<open>\<open>verifyReplay\<close> with the goroutine that it starts.\<close>

definition al_verify ::
  "'r chan_libs \<Rightarrow> (bytes list \<Rightarrow> bytes list) \<Rightarrow> ('h, 'w) KV_ops \<Rightarrow> 'w \<Rightarrow> ('h, 's) ActionLeaseList \<Rightarrow> 'r CommandMessage \<Rightarrow> bytes \<Rightarrow>
   fault + lease_error option \<times> ('h, 's) ActionLeaseList \<times> 'w" where
  "al_verify C ord K w al m unsanitizedPayload =
     res_bind (verifyReplay C ord K w (al_rb al) m unsanitizedPayload) (\<lambda>((verified, err), replay, rb, w1).
       Inr (case err of Some e \<Rightarrow> Some (VerifyFailed e) | None \<Rightarrow> if verified then None else Some NotVerified,
            al\<lparr>al_rb := rb, al_replays := al_replays al @ (case replay of None \<Rightarrow> [] | Some c \<Rightarrow> [c])\<rparr>, w1))"

definition AddMessage ::
  "'r chan_libs \<Rightarrow> 's draw \<Rightarrow> (bytes list \<Rightarrow> bytes list) \<Rightarrow> ('h, 'w) KV_ops \<Rightarrow> 'w \<Rightarrow> ('h, 's) ActionLeaseList \<Rightarrow> int \<Rightarrow> 'r CommandMessage \<Rightarrow> bytes \<Rightarrow>
   fault + lease_error option \<times> ('h, 's) ActionLeaseList \<times> 'w" where
  "AddMessage C draw ord K w al now m unsanitizedPayload =
     res_bind (calculateLeaseTrigger draw (al_rng al) now (cm_OriginatingTimestamp m) (cm_Lease m)) (\<lambda>(t, rng).
       case t of
         None \<Rightarrow> Inr (Some LeaseExpired, al\<lparr>al_rng := rng\<rparr>, w)
       | Some leaseTrigger \<Rightarrow>
           res_bind (al_verify C ord K w (al\<lparr>al_rng := rng\<rparr>) m unsanitizedPayload) (\<lambda>(err, al1, w1).
             case err of
               Some e \<Rightarrow> Inr (Some e, al1, w1)
             | None \<Rightarrow> Inr (None, addToLeaseMessageChan al1 m leaseTrigger, w1)))"

definition AddOrOverwrite ::
  "'r chan_libs \<Rightarrow> 's draw \<Rightarrow> ('h, 'w) KV_ops \<Rightarrow> 'w \<Rightarrow> ('h, 's) ActionLeaseList \<Rightarrow> int \<Rightarrow> bytes \<Rightarrow> u16 \<Rightarrow> bytes \<Rightarrow>
   fault + lease_error option \<times> ('h, 's) ActionLeaseList" where
  "AddOrOverwrite C draw K w al now channelID action payload =
     (case LoadCommand C K w (al_store al) channelID action payload of
        Inl err \<Rightarrow> Inr (Some (CommandNotLoaded err), al)
      | Inr cm \<Rightarrow>
          res_bind (randDurationInRange draw (al_rng al) quickReplayFloor quickReplayCeiling) (\<lambda>(leaseDuration, rng).
            Inr (None, addToLeaseMessageChan (al\<lparr>al_rng := rng\<rparr>)
              (cm\<lparr>cm_ChannelID := channelID, cm_MessageType := action, cm_Content := payload\<rparr>) (now + leaseDuration))))"

definition RemoveMessage ::
  "'r chan_libs \<Rightarrow> (bytes list \<Rightarrow> bytes list) \<Rightarrow> ('h, 'w) KV_ops \<Rightarrow> 'w \<Rightarrow> ('h, 's) ActionLeaseList \<Rightarrow> int \<Rightarrow> 'r CommandMessage \<Rightarrow> bytes \<Rightarrow>
   fault + lease_error option \<times> ('h, 's) ActionLeaseList \<times> 'w" where
  "RemoveMessage C ord K w al now m unsanitizedPayload =
     (if time_Sub now (cm_OriginatingTimestamp m) \<ge> cm_Lease m then Inr (Some LeaseExpired, al, w)
      else
        res_bind (al_verify C ord K w al m unsanitizedPayload) (\<lambda>(err, al1, w1).
          case err of
            Some e \<Rightarrow> Inr (Some e, al1, w1)
          | None \<Rightarrow>
              Inr (None, al1\<lparr>al_removeLeaseMessage := al_removeLeaseMessage al1 @ [(cm_ChannelID m, cm_MessageType m, cm_Content m)]\<rparr>, w1)))"

definition RemoveChannel :: "('h, 's) ActionLeaseList \<Rightarrow> bytes \<Rightarrow> ('h, 's) ActionLeaseList" where
  "RemoveChannel al channelID = al\<lparr>al_removeChannelCh := al_removeChannelCh al @ [channelID]\<rparr>"

section \<open>The thread\<close>

text \<open>What the thread starts: the undoing of a command with its message (\<open>triggerFn\<close>), and the replay of an encrypted payload
  (\<open>replayFn\<close>).\<close>

datatype 'r lease_event = Trigger leaseData "'r CommandMessage" | Replay bytes bytes

text \<open>The loop over the leases whose trigger is reached: the messages to remove, those to update, the events, and the first lease
  that is not reached. \<open>clk n\<close> is the clock at the \<open>n\<close>-th test; a millisecond is subtracted from it.\<close>

abbreviation lm_id :: "leaseMessage \<Rightarrow> bytes \<times> u16 \<times> bytes" where
  "lm_id lm \<equiv> (lm_ChannelID lm, lm_Action lm, lm_Payload lm)"

fun scan_leases ::
  "'r chan_libs \<Rightarrow> ('h, 'w) KV_ops \<Rightarrow> 'w \<Rightarrow> 'h \<Rightarrow> leaseMessage list \<Rightarrow> (nat \<Rightarrow> int) \<Rightarrow> nat \<Rightarrow> nat list \<Rightarrow>
   leaseMessage list \<times> leaseMessage list \<times> 'r lease_event list \<times> nat option" where
  "scan_leases C K w store hp clk n [] = ([], [], [], None)"
| "scan_leases C K w store hp clk n (r # rs) =
     (let lm = hp ! r
      in if lm_LeaseTrigger lm \<le> clk n - 1000000 then
           (let (rem, upd, evs, e) = scan_leases C K w store hp clk (Suc n) rs
            in case LoadCommand C K w store (lm_ChannelID lm) (lm_Action lm) (lm_Payload lm) of
                 Inl err \<Rightarrow> (lm # rem, upd, evs, e)
               | Inr cm \<Rightarrow>
                   (if lm_LeaseTrigger lm \<ge> lm_LeaseEnd lm then (lm # rem, upd, Trigger (lm_data lm) cm # evs, e)
                    else (rem, lm # upd, Replay (lm_ChannelID lm) (cm_EncryptedPayload cm) # evs, e)))
         else ([], [], [], Some r))"

text \<open>An error is a fatal panic of the thread.\<close>

definition or_panic :: "fault + kv_error option \<times> 'a \<Rightarrow> fault + 'a" where
  "or_panic r = res_bind r (\<lambda>(err, a). case err of None \<Rightarrow> Inr a | Some e \<Rightarrow> Inl FatalPanic)"

fun remove_expired ::
  "'r chan_libs \<Rightarrow> (bytes list \<Rightarrow> bytes list) \<Rightarrow> ('h, 'w) KV_ops \<Rightarrow> 'w \<Rightarrow> ('h, 's) ActionLeaseList \<Rightarrow> leaseMessage list \<Rightarrow>
   fault + ('h, 's) ActionLeaseList \<times> 'w" where
  "remove_expired C ord K w al [] = Inr (al, w)"
| "remove_expired C ord K w al (lm # lms) =
     res_bind (or_panic (removeMessage C ord K w al (lm_id lm) True)) (\<lambda>(al1, w1). remove_expired C ord K w1 al1 lms)"

fun update_replayed ::
  "'r chan_libs \<Rightarrow> 's draw \<Rightarrow> (bytes list \<Rightarrow> bytes list) \<Rightarrow> ('h, 'w) KV_ops \<Rightarrow> 'w \<Rightarrow> ('h, 's) ActionLeaseList \<Rightarrow> int \<Rightarrow> leaseMessage list \<Rightarrow>
   fault + ('h, 's) ActionLeaseList \<times> 'w" where
  "update_replayed C draw ord K w al now [] = Inr (al, w)"
| "update_replayed C draw ord K w al now (lm # lms) =
     res_bind (or_panic (updateLeaseTrigger C draw ord K w al (lm_id lm) now)) (\<lambda>(al1, w1). update_replayed C draw ord K w1 al1 now lms)"

text \<open>The part of the thread after \<open>select\<close>; \<open>now\<close> is the clock when the replayed leases are updated.\<close>

definition thread_round ::
  "'r chan_libs \<Rightarrow> 's draw \<Rightarrow> (bytes list \<Rightarrow> bytes list) \<Rightarrow> ('h, 'w) KV_ops \<Rightarrow> (nat \<Rightarrow> int) \<Rightarrow> int \<Rightarrow> 'w \<Rightarrow> ('h, 's) ActionLeaseList \<Rightarrow>
   fault + 'r lease_event list \<times> ('h, 's) ActionLeaseList \<times> 'w" where
  "thread_round C draw ord K clk now w al =
     (let (lmToRemove, lmToUpdate, evs, e) = scan_leases C K w (al_store al) (al_heap al) clk 0 (al_leases al);
          al1 = al\<lparr>al_alarm := map_option (al_trigger al) e\<rparr>
      in res_bind (remove_expired C ord K w al1 lmToRemove) (\<lambda>(al2, w2).
         res_bind (update_replayed C draw ord K w2 al2 now lmToUpdate) (\<lambda>(al3, w3). Inr (evs, al3, w3))))"

text \<open>The branches of \<open>select\<close>: a message is taken from one of the Go channels, or the timer fires, which it only does when an alarm is
  set.\<close>

datatype lease_case = AddCase | RemoveCase | ChannelCase | TimerCase

definition thread_select ::
  "'r chan_libs \<Rightarrow> (bytes list \<Rightarrow> bytes list) \<Rightarrow> (string list \<Rightarrow> string list) \<Rightarrow> ('h, 'w) KV_ops \<Rightarrow> lease_case \<Rightarrow> 'w \<Rightarrow> ('h, 's) ActionLeaseList \<Rightarrow>
   (fault + ('h, 's) ActionLeaseList \<times> 'w) option" where
  "thread_select C ord sord K b w al =
     (case b of
        AddCase \<Rightarrow>
          (case al_addLeaseMessage al of
             [] \<Rightarrow> None
           | lm # q \<Rightarrow> Some (or_panic (addMessage C ord K w (al\<lparr>al_addLeaseMessage := q\<rparr>) lm)))
      | RemoveCase \<Rightarrow>
          (case al_removeLeaseMessage al of
             [] \<Rightarrow> None
           | lm # q \<Rightarrow> Some (or_panic (removeMessage C ord K w (al\<lparr>al_removeLeaseMessage := q\<rparr>) lm False)))
      | ChannelCase \<Rightarrow>
          (case al_removeChannelCh al of
             [] \<Rightarrow> None
           | c # q \<Rightarrow> Some (or_panic (al_removeChannel C ord sord K w (al\<lparr>al_removeChannelCh := q\<rparr>) c)))
      | TimerCase \<Rightarrow> (if al_alarm al = None then None else Some (Inr (al, w))))"

definition thread_iteration ::
  "'r chan_libs \<Rightarrow> 's draw \<Rightarrow> (bytes list \<Rightarrow> bytes list) \<Rightarrow> (string list \<Rightarrow> string list) \<Rightarrow> ('h, 'w) KV_ops \<Rightarrow> (nat \<Rightarrow> int) \<Rightarrow> int \<Rightarrow> lease_case \<Rightarrow> 'w \<Rightarrow>
   ('h, 's) ActionLeaseList \<Rightarrow> (fault + 'r lease_event list \<times> ('h, 's) ActionLeaseList \<times> 'w) option" where
  "thread_iteration C draw ord sord K clk now b w al =
     map_option (\<lambda>r. res_bind r (\<lambda>(al1, w1). thread_round C draw ord K clk now w1 (al1\<lparr>al_alarm := None\<rparr>)))
       (thread_select C ord sord K b w al)"

section \<open>Bounds of the triggers\<close>

text \<open>The law of the random source: the number is in the interval.\<close>

definition draws_in_range :: "'s draw \<Rightarrow> bool" where
  "draws_in_range draw = (\<forall>rng n. 0 < n \<longrightarrow> (\<exists>d rng1. draw rng n = Inr (d, rng1) \<and> 0 \<le> d \<and> d \<le> n))"

lemma wrap64_small: "- (2 ^ 63) \<le> i \<Longrightarrow> i < 2 ^ 63 \<Longrightarrow> wrap64 i = i"
  by (simp add: wrap64_def sint_sbintrunc' signed_take_bit_int_eq_self)

lemma rand_in_range:
  assumes "draws_in_range draw" "0 \<le> a" "a < b" "b < 2 ^ 62"
  shows "\<exists>d rng1. randDurationInRange draw rng a b = Inr (d, rng1) \<and> a \<le> d \<and> d \<le> b"
proof -
  have w: "wrap64 (b - a) = b - a" by (rule wrap64_small) (use assms(2-4) in simp_all)
  obtain n rng1 where n: "draw rng (b - a) = Inr (n, rng1)" "0 \<le> n" "n \<le> b - a"
    using assms(1,3) unfolding draws_in_range_def by (metis diff_gt_0_iff_gt)
  have "wrap64 (a + n) = a + n" by (rule wrap64_small) (use assms(2-4) n(2,3) in simp_all)
  with w n show ?thesis by (simp add: randDurationInRange_def)
qed

lemmas lease_times = minute_def gracePeriod_def replayWaitMin_def replayWaitMax_def quickReplayFloor_def quickReplayCeiling_def
  MessageLife_def ValidForever_def

lemma lease_trigger_bounds:
  assumes "draws_in_range draw" "lease \<le> ValidForever" "lease = ValidForever \<or> lease - (now - ots) < 2 ^ 63" "- (2 ^ 63) \<le> now - ots"
  shows "\<exists>r rng1. calculateLeaseTrigger draw rng now ots lease = Inr (r, rng1) \<and> (r = None \<longleftrightarrow> time_Sub now ots \<ge> lease) \<and>
    (\<forall>t. r = Some t \<longrightarrow> now < t \<and> t \<le> now + MessageLife \<and>
      (if lease \<noteq> ValidForever \<and> lease - (now - ots) < MessageLife then t = ots + lease
       else now + MessageLife div 2 \<le> t \<and> (lease \<noteq> ValidForever \<longrightarrow> t \<le> ots + lease)))"
proof (cases "time_Sub now ots \<ge> lease")
  case True
  then show ?thesis by (simp add: calculateLeaseTrigger_def)
next
  case False
  then have e: "now - ots < lease" "time_Sub now ots = now - ots"
    using assms(2,4) by (auto simp: time_Sub_def ValidForever_def)
  show ?thesis
  proof (cases "lease = ValidForever \<or> wrap64 (lease - time_Sub now ots) \<ge> MessageLife")
    case True
    have s: "time_Sub (now + MessageLife) (now + MessageLife div 2) = MessageLife div 2"
      by (simp add: time_Sub_def lease_times)
    from rand_in_range [OF assms(1), of 0 "MessageLife div 2" rng] obtain d rng1 where
      d: "randDurationInRange draw rng 0 (MessageLife div 2) = Inr (d, rng1)" "0 \<le> d" "d \<le> MessageLife div 2"
      by (auto simp: lease_times)
    have "calculateLeaseTrigger draw rng now ots lease = Inr (Some (now + MessageLife div 2 + d), rng1)"
      using False True d s by (simp add: calculateLeaseTrigger_def lease_times)
    moreover have "\<not> (lease \<noteq> ValidForever \<and> lease - (now - ots) < MessageLife)" "lease \<noteq> ValidForever \<Longrightarrow> MessageLife \<le> lease - (now - ots)"
    proof -
      { assume l: "lease \<noteq> ValidForever"
        with assms(3) False have "wrap64 (lease - time_Sub now ots) = lease - time_Sub now ots"
          unfolding e(2) by (intro wrap64_small) auto
        with True l e(2) show "MessageLife \<le> lease - (now - ots)" by auto }
      then show "\<not> (lease \<noteq> ValidForever \<and> lease - (now - ots) < MessageLife)" by linarith
    qed
    ultimately show ?thesis using False d(2,3) by (auto simp: lease_times)
  next
    case nl: False
    have "wrap64 (lease - time_Sub now ots) = lease - time_Sub now ots"
      using assms(3) False nl unfolding e(2) by (intro wrap64_small) auto
    then show ?thesis using False nl e by (auto simp: calculateLeaseTrigger_def)
  qed
qed

text \<open>C22: The trigger of a lease is within its bounds. A message is dropped exactly when its lease has elapsed; one whose lease ends
  within the grace period is kept, although the comment on the function says that it is dropped. Otherwise the trigger is in the future
  and no later than the life of a message in the network; it is the end of the lease when less than the life of a message is
  left of it, and at least half of that life away and not after the end of the lease otherwise. This holds for leases of at most
  \<open>ValidForever\<close>, when the remaining lease does not overflow 64 bits (or the lease is \<open>ValidForever\<close>) and the command is not dated
  so far ahead that the difference of the times saturates.\<close>

theorem calculateLeaseTrigger_bounds:
  assumes "draws_in_range draw" "lease \<le> ValidForever" "lease = ValidForever \<or> lease - (now - ots) < 2 ^ 63" "- (2 ^ 63) \<le> now - ots"
  shows "\<exists>r rng1. calculateLeaseTrigger draw rng now ots lease = Inr (r, rng1) \<and> (r = None \<longleftrightarrow> time_Sub now ots \<ge> lease) \<and>
    (\<forall>t. r = Some t \<longrightarrow> now < t \<and> t \<le> now + MessageLife \<and>
      (if lease \<noteq> ValidForever \<and> lease - (now - ots) < MessageLife then t = ots + lease
       else now + MessageLife div 2 \<le> t \<and> (lease \<noteq> ValidForever \<longrightarrow> t \<le> ots + lease)))"
  by (rule lease_trigger_bounds [OF assms])

definition draw_example :: "nat draw" where
  "draw_example rng n = Inr (n div 2, Suc rng)"

lemma draw_example_range: "draws_in_range draw_example"
  by (auto simp: draws_in_range_def draw_example_def)

theorem calculateLeaseTrigger_bounds_witness:
  "draws_in_range draw_example \<and>
   (\<exists>t rng1. calculateLeaseTrigger draw_example 0 1000 0 ValidForever = Inr (Some t, rng1) \<and> 1000 < t \<and> t \<le> 1000 + MessageLife)"
proof -
  have "\<not> time_Sub 1000 0 \<ge> ValidForever" by code_simp
  then show ?thesis
    using calculateLeaseTrigger_bounds [OF draw_example_range, of ValidForever 1000 0 0] draw_example_range by auto
qed

section \<open>Insertion in order\<close>

definition ins_ord :: "('a \<Rightarrow> int) \<Rightarrow> 'a \<Rightarrow> 'a list \<Rightarrow> 'a list" where
  "ins_ord f x xs = (case List.find (\<lambda>y. f y > f x) xs of None \<Rightarrow> xs @ [x] | Some m \<Rightarrow> InsertBefore x m xs)"

lemma set_InsertBefore [simp]: "set (InsertBefore x m xs) = insert x (set xs)"
  by (metis InsertBefore_def Un_insert_right list.simps(15) set_append takeWhile_dropWhile_id)

lemma distinct_InsertBefore: "distinct xs \<Longrightarrow> x \<notin> set xs \<Longrightarrow> distinct (InsertBefore x m xs)"
  unfolding InsertBefore_def by (induction xs) (auto dest: set_takeWhileD set_dropWhileD)

lemma InsertBefore_Cons: "InsertBefore x m (y # ys) = (if y = m then x # y # ys else y # InsertBefore x m ys)"
  by (simp add: InsertBefore_def)

lemma set_ins_ord [simp]: "set (ins_ord f x xs) = insert x (set xs)"
  by (auto simp: ins_ord_def split: option.splits)

lemma distinct_ins_ord: "distinct xs \<Longrightarrow> x \<notin> set xs \<Longrightarrow> distinct (ins_ord f x xs)"
  by (simp add: ins_ord_def distinct_InsertBefore split: option.splits)

lemma find_SomeD: "List.find P xs = Some m \<Longrightarrow> P m \<and> m \<in> set xs"
  by (auto simp: find_Some_iff)

lemma ins_ord_Cons: "ins_ord f x (y # ys) = (if f y > f x then x # y # ys else y # ins_ord f x ys)"
  by (auto simp: ins_ord_def InsertBefore_Cons split: option.splits dest: find_SomeD)

lemma sorted_ins_ord: "sorted (map f xs) \<Longrightarrow> sorted (map f (ins_ord f x xs))"
proof (induction xs)
  case (Cons y ys)
  then show ?case by (fastforce simp: ins_ord_Cons)
qed (simp add: ins_ord_def)

lemma ins_ord_cong: "(\<And>y. y \<in> insert x (set xs) \<Longrightarrow> f y = g y) \<Longrightarrow> ins_ord f x xs = ins_ord g x xs"
  unfolding ins_ord_def by (rule arg_cong [where f = "case_option _ _"]) (auto intro!: find_cong)

lemma insertLease_ins: "insertLease al r = al\<lparr>al_leases := ins_ord (al_trigger al) r (al_leases al)\<rparr>"
  by (simp add: insertLease_def findSortedPosition_def ins_ord_def split: option.splits)

lemma find_remove1: "\<not> P x \<Longrightarrow> List.find P (remove1 x xs) = List.find P xs"
  by (induction xs) auto

lemma updateLease_ins:
  assumes "e \<in> set (al_leases al)"
  shows "updateLease al (Some e) = Inr (al\<lparr>al_leases := ins_ord (al_trigger al) e (remove1 e (al_leases al))\<rparr>)"
proof (cases "List.find (\<lambda>y. al_trigger al y > al_trigger al e) (al_leases al)")
  case None
  with assms show ?thesis by (simp add: updateLease_def findSortedPosition_def ins_ord_def MoveToBack_def find_remove1)
next
  case (Some m)
  with find_SomeD [OF this] assms show ?thesis
    by (auto simp add: updateLease_def findSortedPosition_def ins_ord_def MoveBefore_def find_remove1)
qed

section \<open>The invariant of the leases\<close>

definition al_lookup :: "('h, 's) ActionLeaseList \<Rightarrow> bytes \<Rightarrow> string \<Rightarrow> nat option" where
  "al_lookup al c k = map_of (lay_messages (al_messagesByChannel al) c) k"

definition wf_map :: "'v chan_map \<Rightarrow> bool" where
  "wf_map m = (distinct (map fst m) \<and> (\<forall>c ms. map_of m c = Some ms \<longrightarrow> ms \<noteq> [] \<and> distinct (map fst ms)))"

lemma wf_mapD: "wf_map m \<Longrightarrow> map_of m c = Some ms \<Longrightarrow> ms \<noteq> [] \<and> distinct (map fst ms)"
  unfolding wf_map_def by blast

lemma wf_map_update: "wf_map m \<Longrightarrow> ms \<noteq> [] \<Longrightarrow> distinct (map fst ms) \<Longrightarrow> wf_map (AList.update c ms m)"
  by (simp add: wf_map_def distinct_update update_conv' del: map_of_eq_Some_iff)

lemma wf_map_delete: "wf_map m \<Longrightarrow> wf_map (AList.delete c m)"
  by (simp add: wf_map_def distinct_delete delete_conv' del: map_of_eq_Some_iff)

definition al_ok :: "'r chan_libs \<Rightarrow> ('h, 's) ActionLeaseList \<Rightarrow> bool" where
  "al_ok C al =
     (wf_map (al_messagesByChannel al) \<and>
      (\<forall>c k r. al_lookup al c k = Some r \<longrightarrow>
        r < length (al_heap al) \<and> lm_ChannelID (al_heap al ! r) = c \<and> lm_key C (al_heap al ! r) = k \<and> lm_e (al_heap al ! r) = Some r) \<and>
      distinct (al_leases al) \<and> set (al_leases al) = {r. \<exists>c k. al_lookup al c k = Some r} \<and> sorted (map (al_trigger al) (al_leases al)))"

lemma al_okD:
  assumes "al_ok C al"
  shows "wf_map (al_messagesByChannel al)"
    "al_lookup al c k = Some r \<Longrightarrow>
      r < length (al_heap al) \<and> lm_ChannelID (al_heap al ! r) = c \<and> lm_key C (al_heap al ! r) = k \<and> lm_e (al_heap al ! r) = Some r"
    "distinct (al_leases al)" "set (al_leases al) = {r. \<exists>c k. al_lookup al c k = Some r}" "sorted (map (al_trigger al) (al_leases al))"
  using assms unfolding al_ok_def by simp_all

text \<open>What loading at the time \<open>now\<close> makes of a stored lease: nothing, unless its trigger has passed; then the trigger is set a while
  ahead, and the end with it when the trigger was the end.\<close>

definition loaded_as :: "int \<Rightarrow> leaseData \<Rightarrow> leaseData \<Rightarrow> bool" where
  "loaded_as now d e =
     (if lm_LeaseTrigger e < now
      then \<exists>x. replayWaitMin \<le> x \<and> x \<le> replayWaitMax \<and>
        d = e\<lparr>lm_LeaseEnd := (if lm_LeaseTrigger e = lm_LeaseEnd e then now + x else lm_LeaseEnd e), lm_LeaseTrigger := now + x\<rparr>
      else d = e)"

text \<open>A lease in memory is the stored one, or what the last load, at the time \<open>ld\<close>, made of it.\<close>

definition same_lease :: "int \<Rightarrow> leaseData \<Rightarrow> leaseData \<Rightarrow> bool" where
  "same_lease ld d e = (d = e \<or> loaded_as ld d e)"

definition same_entry :: "(leaseData \<Rightarrow> leaseData \<Rightarrow> bool) \<Rightarrow> string \<times> leaseData \<Rightarrow> string \<times> leaseData \<Rightarrow> bool" where
  "same_entry R x y = (fst x = fst y \<and> R (snd x) (snd y))"

definition matched :: "(leaseData \<Rightarrow> leaseData \<Rightarrow> bool) \<Rightarrow> leaseData chan_map \<Rightarrow> leaseData chan_map \<Rightarrow> bool" where
  "matched R m s = (\<forall>c. rel_option (list_all2 (same_entry R)) (map_of m c) (map_of s c))"

lemma same_refl [simp]: "same_lease ld d d" "same_entry (same_lease ld) x x" "list_all2 (same_entry (same_lease ld)) xs xs"
  by (simp_all add: same_lease_def same_entry_def list_all2_refl)

definition al_stored :: "'r chan_libs \<Rightarrow> ('h, 'w) KV_ops \<Rightarrow> int \<Rightarrow> 'w \<Rightarrow> ('h, 's) ActionLeaseList \<Rightarrow> bool" where
  "al_stored C K ld w al =
     (\<exists>s. chan_kept (cl_id C) (lease_layout (cl_id C)) K w (al_kv al) s \<and> matched (same_lease ld) (al_view al) s)"

definition al_inv :: "'r chan_libs \<Rightarrow> ('h, 'w) KV_ops \<Rightarrow> int \<Rightarrow> 'h \<Rightarrow> 'h \<Rightarrow> 'h \<Rightarrow> ('h, 's) ActionLeaseList \<Rightarrow> 'w \<Rightarrow> bool" where
  "al_inv C K ld store kv kv1 al w =
     (al_kv al = kv \<and> al_store al = store \<and> rb_inv C K store kv1 (al_rb al) w \<and> apart K store kv \<and> apart K kv1 kv \<and>
      apart K kv kv1 \<and> al_ok C al \<and> al_stored C K ld w al)"

lemma al_invD:
  assumes "al_inv C K ld store kv kv1 al w"
  shows "al_kv al = kv" "al_store al = store" "rb_inv C K store kv1 (al_rb al) w" "apart K store kv" "apart K kv1 kv" "apart K kv kv1"
    "al_ok C al" "al_stored C K ld w al"
  using assms unfolding al_inv_def by simp_all

subsection \<open>The layout of the leases\<close>

lemma lm_roundtrip: "id_json J \<Longrightarrow> lm_unmarshal J (lm_marshal J m) = Some m"
  by (simp add: lm_unmarshal_def lm_marshal_def id_json.id_read)

lemma lease_keys:
  "CHR 0x5C \<notin> set channelLeaseKey" "CHR 0x5C \<notin> set channelLeaseMessagesKeyPrefix" "channelLeaseMessagesKeyPrefix @ x \<noteq> channelLeaseKey"
  by (simp_all add: channelLeaseKey_def channelLeaseMessagesKeyPrefix_def)

sublocale id_json \<subseteq> ls: channel_layout J "lease_layout J"
  using id_json_axioms
  by unfold_locales
    (auto simp: lease_layout_def id_read makeChannelLeaseMessagesKey_def lease_keys lm_roundtrip base64_no_separator dest: base64_inj)

context channel_layout
begin

lemma same_channels_update:
  assumes "chan_kept J L K w h m" "distinct (map fst v)" "set (map fst v) = set (map fst m')" "distinct (map fst m')" "id_order ord"
  shows "\<exists>ord'. id_order ord' \<and> ord' (map fst m') = ord (map fst v)"
proof -
  define ord' where "ord' = (\<lambda>xs. if xs = map fst m' then ord (map fst v) else ord xs)"
  have "id_order ord'"
    unfolding id_order_def ord'_def using id_orderD [OF assms(5)] assms(2,3) by auto
  then show ?thesis by (auto simp: ord'_def)
qed

lemma kept_put_any:
  assumes "versioned_kv K" "sets_succeed K" "id_order ord" "chan_kept J L K w h m" "ms \<noteq> []"
    and "distinct (map fst v)" "map_of v c = Some ms" "dom (map_of v) = insert c (dom (map_of m))"
  shows "\<exists>w'. lay_update J L ord K w h v c (map_of m c = None) = (None, w') \<and>
    chan_kept J L K w' h (AList.update c ms m) \<and> kv_writes K {h} w w'"
proof -
  let ?m = "AList.update c ms m"
  have d: "distinct (map fst ?m)" by (rule distinct_update [OF chan_keptD(1) [OF assms(4)]])
  have "dom (map_of ?m) = insert c (dom (map_of m))" by (auto simp: update_conv' simp del: map_of_eq_Some_iff)
  then have "set (map fst v) = set (map fst ?m)" using assms(8) by (simp add: dom_map_of_conv_image_fst)
  from same_channels_update [OF assms(4,6) this d assms(3)] obtain ord' where
    o: "id_order ord'" "ord' (map fst ?m) = ord (map fst v)" by blast
  have "lay_update J L ord K w h v c b = lay_update J L ord' K w h ?m c b" for b
    unfolding lay_update_def lay_storeMessages_def lay_storeChannels_def lay_messages_def o(2) assms(7)
    by (simp add: update_conv')
  with kept_put [OF assms(1,2) id_orderD [OF o(1)] assms(4,5), of c] show ?thesis by simp
qed

lemma kept_drop_any:
  assumes "versioned_kv K" "sets_succeed K" "deletes_succeed K" "id_order ord" "chan_kept J L K w h m"
    and "distinct (map fst v)" "dom (map_of v) = dom (map_of m) - {c}"
  shows "\<exists>w'. lay_update J L ord K w h v c True = (None, w') \<and> chan_kept J L K w' h (AList.delete c m) \<and> kv_writes K {h} w w'"
    "\<exists>w1 w'. lay_storeChannels J L ord K w h v = (None, w1) \<and> lay_deleteMessages L K w1 h c = (None, w') \<and>
      chan_kept J L K w' h (AList.delete c m) \<and> kv_writes K {h} w w'"
proof -
  let ?m = "AList.delete c m"
  have d: "distinct (map fst ?m)" by (rule distinct_delete [OF chan_keptD(1) [OF assms(5)]])
  have "dom (map_of ?m) = dom (map_of m) - {c}" by (auto simp: delete_conv' simp del: map_of_eq_Some_iff)
  then have "set (map fst v) = set (map fst ?m)" using assms(7) by (simp add: dom_map_of_conv_image_fst)
  from same_channels_update [OF assms(5,6) this d assms(4)] obtain ord' where
    o: "id_order ord'" "ord' (map fst ?m) = ord (map fst v)" by blast
  have "map_of v c = None" using assms(7) by (auto simp: domIff)
  then have "lay_update J L ord K w h v c b = lay_update J L ord' K w h ?m c b"
      "lay_storeChannels J L ord K w h v = lay_storeChannels J L ord' K w h ?m" for b
    unfolding lay_update_def lay_storeMessages_def lay_storeChannels_def lay_messages_def o(2) by (simp_all add: delete_conv')
  with kept_drop [OF assms(1-3) id_orderD [OF o(1)] assms(5), of c]
  show "\<exists>w'. lay_update J L ord K w h v c True = (None, w') \<and> chan_kept J L K w' h (AList.delete c m) \<and> kv_writes K {h} w w'"
    "\<exists>w1 w'. lay_storeChannels J L ord K w h v = (None, w1) \<and> lay_deleteMessages L K w1 h c = (None, w') \<and>
      chan_kept J L K w' h (AList.delete c m) \<and> kv_writes K {h} w w'" by simp_all
qed

end

subsection \<open>The leases as a map\<close>

definition al_abs :: "('h, 's) ActionLeaseList \<Rightarrow> bytes \<Rightarrow> string \<Rightarrow> leaseData option" where
  "al_abs al c k = map_option (\<lambda>r. lm_data (al_heap al ! r)) (al_lookup al c k)"

lemma map_of_view: "map_of (al_view al) c = map_option (map (\<lambda>(k, r). (k, lm_data (al_heap al ! r)))) (map_of (al_messagesByChannel al) c)"
proof -
  have "map_of (map (\<lambda>(c, ms). (c, g ms)) m) c = map_option g (map_of m c)" for g :: "(string \<times> nat) list \<Rightarrow> (string \<times> leaseData) list" and m
    by (induction m) auto
  then show ?thesis unfolding al_view_def by simp
qed

lemma fst_view: "map fst (al_view al) = map fst (al_messagesByChannel al)"
  by (auto simp: al_view_def)

lemma lookup_mem:
  assumes "wf_map (al_messagesByChannel al)"
  shows "al_lookup al c k = Some r \<longleftrightarrow> (\<exists>ms. map_of (al_messagesByChannel al) c = Some ms \<and> (k, r) \<in> set ms)"
proof (cases "map_of (al_messagesByChannel al) c")
  case (Some ms)
  with wf_mapD [OF assms Some] show ?thesis by (simp add: al_lookup_def lay_messages_def)
qed (simp add: al_lookup_def lay_messages_def)

lemma lookup_update:
  "al_lookup (al\<lparr>al_messagesByChannel := AList.update c ms m\<rparr>) d k =
     (if d = c then map_of ms k else al_lookup (al\<lparr>al_messagesByChannel := m\<rparr>) d k)"
  "al_lookup (al\<lparr>al_messagesByChannel := AList.delete c m\<rparr>) d k =
     (if d = c then None else al_lookup (al\<lparr>al_messagesByChannel := m\<rparr>) d k)"
  by (simp_all add: al_lookup_def lay_messages_def update_conv' delete_conv' del: map_of_eq_Some_iff)

lemma view_same:
  assumes "al_ok C al" "map_of (al_messagesByChannel al') d = map_of (al_messagesByChannel al) d"
    and "\<And>k r. al_lookup al d k = Some r \<Longrightarrow> lm_data (al_heap al' ! r) = lm_data (al_heap al ! r)"
  shows "map_of (al_view al') d = map_of (al_view al) d"
  unfolding map_of_view assms(2)
proof (cases "map_of (al_messagesByChannel al) d")
  case (Some ms)
  have "lm_data (al_heap al' ! r) = lm_data (al_heap al ! r)" if "(k, r) \<in> set ms" for k r
    by (rule assms(3)) (use Some that in \<open>auto simp: lookup_mem [OF al_okD(1) [OF assms(1)]]\<close>)
  then show "map_option (map (\<lambda>(k, r). (k, lm_data (al_heap al' ! r)))) (map_of (al_messagesByChannel al) d) =
    map_option (map (\<lambda>(k, r). (k, lm_data (al_heap al ! r)))) (map_of (al_messagesByChannel al) d)"
    by (auto simp: Some)
qed simp

subsection \<open>Storing\<close>

lemma matched_None: "matched R m s \<Longrightarrow> map_of s c = None \<longleftrightarrow> map_of m c = None"
  unfolding matched_def by (metis option.rel_sel option.collapse)

lemma matched_dom: "matched R m s \<Longrightarrow> dom (map_of s) = dom (map_of m)"
  by (intro set_eqI) (metis domIff matched_None)

lemma matchedI:
  assumes "matched (same_lease ld) m s" "\<And>d. d \<noteq> c \<Longrightarrow> map_of m' d = map_of m d \<and> map_of s' d = map_of s d" "map_of s' c = map_of m' c"
  shows "matched (same_lease ld) m' s'"
  unfolding matched_def
proof
  fix d
  show "rel_option (list_all2 (same_entry (same_lease ld))) (map_of m' d) (map_of s' d)"
    using assms(1) assms(2) [of d] assms(3) unfolding matched_def
    by (cases "d = c") (auto intro!: option.rel_refl_strong)
qed

context chan_codecs
begin

lemma stored_put:
  assumes "versioned_kv K" "sets_succeed K" "id_order ord" "al_stored C K ld w al" "al_kv al' = al_kv al"
    and "wf_map (al_messagesByChannel al')" "map_of (al_messagesByChannel al') c \<noteq> None"
    and "\<And>d. d \<noteq> c \<Longrightarrow> map_of (al_view al') d = map_of (al_view al) d"
  shows "\<exists>w'. al_updateStorage C ord K w al' c (map_of (al_messagesByChannel al) c = None) = (None, w') \<and> al_stored C K ld w' al' \<and>
    kv_writes K {al_kv al} w w'"
proof -
  obtain s where s: "chan_kept (cl_id C) (lease_layout (cl_id C)) K w (al_kv al) s" "matched (same_lease ld) (al_view al) s"
    using assms(4) unfolding al_stored_def by blast
  obtain ms where ms: "map_of (al_messagesByChannel al') c = Some ms" "ms \<noteq> []" using assms(7) wf_mapD [OF assms(6)] by blast
  then obtain vs where vs: "map_of (al_view al') c = Some vs" "vs \<noteq> []" by (simp add: map_of_view)
  have "d \<in> dom (map_of (al_view al')) \<longleftrightarrow> d \<in> insert c (dom (map_of (al_view al)))" for d
    using assms(8) [of d] vs(1) by (cases "d = c") (simp_all add: domIff)
  then have d: "dom (map_of (al_view al')) = insert c (dom (map_of s))" unfolding matched_dom [OF s(2)] by (rule set_eqI)
  have dv: "distinct (map fst (al_view al'))" using assms(6) by (simp add: fst_view wf_map_def)
  have n: "map_of s c = None \<longleftrightarrow> map_of (al_messagesByChannel al) c = None"
    using matched_None [OF s(2), of c] by (simp add: map_of_view)
  from ids.ls.kept_put_any [OF assms(1-3) s(1) vs(2) dv vs(1) d] obtain w' where
    w': "lay_update (cl_id C) (lease_layout (cl_id C)) ord K w (al_kv al) (al_view al') c (map_of s c = None) = (None, w')"
    "chan_kept (cl_id C) (lease_layout (cl_id C)) K w' (al_kv al) (AList.update c vs s)" "kv_writes K {al_kv al} w w'" by blast
  have "matched (same_lease ld) (al_view al') (AList.update c vs s)"
    by (rule matchedI [OF s(2), of c]) (use assms(8) vs(1) in \<open>simp_all add: update_conv'\<close>)
  then show ?thesis using w' assms(5) unfolding al_stored_def al_updateStorage_def n by auto
qed

lemma stored_drop:
  assumes "versioned_kv K" "sets_succeed K" "deletes_succeed K" "id_order ord" "al_stored C K ld w al" "al_kv al' = al_kv al"
    and "wf_map (al_messagesByChannel al')" "map_of (al_messagesByChannel al') c = None"
    and "\<And>d. d \<noteq> c \<Longrightarrow> map_of (al_view al') d = map_of (al_view al) d"
  shows "\<exists>w'. al_updateStorage C ord K w al' c True = (None, w') \<and> al_stored C K ld w' al' \<and> kv_writes K {al_kv al} w w'"
    "\<exists>w1 w'. lay_storeChannels (cl_id C) (lease_layout (cl_id C)) ord K w (al_kv al) (al_view al') = (None, w1) \<and>
      lay_deleteMessages (lease_layout (cl_id C)) K w1 (al_kv al) c = (None, w') \<and> al_stored C K ld w' al' \<and> kv_writes K {al_kv al} w w'"
proof -
  obtain s where s: "chan_kept (cl_id C) (lease_layout (cl_id C)) K w (al_kv al) s" "matched (same_lease ld) (al_view al) s"
    using assms(5) unfolding al_stored_def by blast
  have c: "map_of (al_view al') c = None" using assms(8) by (simp add: map_of_view)
  have "d \<in> dom (map_of (al_view al')) \<longleftrightarrow> d \<in> dom (map_of (al_view al)) - {c}" for d
    using assms(9) [of d] c by (cases "d = c") (simp_all add: domIff)
  then have d: "dom (map_of (al_view al')) = dom (map_of s) - {c}" unfolding matched_dom [OF s(2)] by (rule set_eqI)
  have dv: "distinct (map fst (al_view al'))" using assms(7) by (simp add: fst_view wf_map_def)
  have m: "matched (same_lease ld) (al_view al') (AList.delete c s)"
    by (rule matchedI [OF s(2), of c]) (use assms(9) c in \<open>simp_all add: delete_conv'\<close>)
  note k = ids.ls.kept_drop_any [OF assms(1-4) s(1) dv d]
  show "\<exists>w'. al_updateStorage C ord K w al' c True = (None, w') \<and> al_stored C K ld w' al' \<and> kv_writes K {al_kv al} w w'"
    using k(1) m assms(6) unfolding al_stored_def al_updateStorage_def by auto
  show "\<exists>w1 w'. lay_storeChannels (cl_id C) (lease_layout (cl_id C)) ord K w (al_kv al) (al_view al') = (None, w1) \<and>
      lay_deleteMessages (lease_layout (cl_id C)) K w1 (al_kv al) c = (None, w') \<and> al_stored C K ld w' al' \<and> kv_writes K {al_kv al} w w'"
    using k(2) m assms(6) unfolding al_stored_def by metis
qed

lemma stored_frame:
  assumes "al_stored C K ld w al" "kv_writes K hs w w'" "\<And>u. u \<in> hs \<Longrightarrow> apart K u (al_kv al)"
  shows "al_stored C K ld w' al"
  using assms(1) ids.ls.kept_frame [OF _ assms(2,3)] unfolding al_stored_def by blast

lemma stored_cong:
  assumes "al_stored C K ld w al" "al_kv al' = al_kv al" "al_view al' = al_view al"
  shows "al_stored C K ld w al'"
  using assms unfolding al_stored_def by simp

lemma rb_frame:
  assumes "rb_inv C K store kv1 rb w" "kv_writes K hs w w'" "\<And>u. u \<in> hs \<Longrightarrow> apart K u kv1"
  shows "rb_inv C K store kv1 rb w'"
  using assms(1) ids.cmd.kept_frame [OF _ assms(2,3)] unfolding rb_inv_def by blast

end

subsection \<open>Adding a lease\<close>

lemma add_lease_eq:
  "add_lease al lm = al\<lparr>al_heap := al_heap al @ [lm\<lparr>lm_e := Some (length (al_heap al))\<rparr>],
     al_leases := ins_ord (\<lambda>q. lm_LeaseTrigger ((al_heap al @ [lm]) ! q)) (length (al_heap al)) (al_leases al)\<rparr>"
  by (simp add: add_lease_def insertLease_ins Let_def list_update_append)

lemma lm_data_e [simp]: "lm_data (lm\<lparr>lm_e := x\<rparr>) = lm_data lm" "lm_key C (lm\<lparr>lm_e := x\<rparr>) = lm_key C lm"
  by (simp_all add: lm_data_def leaseData.defs lm_key_def)

lemma lookup_eq: "al_messagesByChannel al' = al_messagesByChannel al \<Longrightarrow> al_lookup al' = al_lookup al"
  by (simp add: al_lookup_def fun_eq_iff)

definition with_lease :: "'r chan_libs \<Rightarrow> ('h, 's) ActionLeaseList \<Rightarrow> leaseMessage \<Rightarrow> ('h, 's) ActionLeaseList" where
  "with_lease C al lm =
     (add_lease al lm)\<lparr>al_messagesByChannel := AList.update (lm_ChannelID lm)
        (AList.update (lm_key C lm) (length (al_heap al)) (lay_messages (al_messagesByChannel al) (lm_ChannelID lm))) (al_messagesByChannel al)\<rparr>"

lemma with_lease_sel [simp]:
  "al_heap (with_lease C al lm) = al_heap al @ [lm\<lparr>lm_e := Some (length (al_heap al))\<rparr>]"
  "al_leases (with_lease C al lm) = ins_ord (\<lambda>q. lm_LeaseTrigger ((al_heap al @ [lm]) ! q)) (length (al_heap al)) (al_leases al)"
  "al_kv (with_lease C al lm) = al_kv al" "al_store (with_lease C al lm) = al_store al" "al_rb (with_lease C al lm) = al_rb al"
  "al_addLeaseMessage (with_lease C al lm) = al_addLeaseMessage al"
  by (simp_all add: with_lease_def add_lease_eq)

lemma with_lease_lookup:
  "al_lookup (with_lease C al lm) d k =
     (if d = lm_ChannelID lm \<and> k = lm_key C lm then Some (length (al_heap al)) else al_lookup al d k)"
  by (auto simp: with_lease_def al_lookup_def lay_messages_def update_conv' simp del: map_of_eq_Some_iff)

lemma with_lease_map:
  "map_of (al_messagesByChannel (with_lease C al lm)) d = (if d = lm_ChannelID lm then
     Some (AList.update (lm_key C lm) (length (al_heap al)) (lay_messages (al_messagesByChannel al) d)) else map_of (al_messagesByChannel al) d)"
  by (simp add: with_lease_def update_conv' del: map_of_eq_Some_iff)

lemma wf_messages: "wf_map m \<Longrightarrow> distinct (map fst (lay_messages m c))"
  by (cases "map_of m c") (simp_all add: lay_messages_def wf_map_def del: map_of_eq_Some_iff)

lemma alist_update_not_Nil [simp]: "AList.update k v xs \<noteq> []"
  by (cases xs) auto

lemma al_okI:
  assumes "wf_map (al_messagesByChannel al)"
    and "\<And>c k r. al_lookup al c k = Some r \<Longrightarrow>
      r < length (al_heap al) \<and> lm_ChannelID (al_heap al ! r) = c \<and> lm_key C (al_heap al ! r) = k \<and> lm_e (al_heap al ! r) = Some r"
    and "distinct (al_leases al)" "set (al_leases al) = {r. \<exists>c k. al_lookup al c k = Some r}" "sorted (map (al_trigger al) (al_leases al))"
  shows "al_ok C al"
  using assms unfolding al_ok_def by blast

lemma with_lease_ok:
  assumes "al_ok C al" "al_lookup al (lm_ChannelID lm) (lm_key C lm) = None"
  shows "al_ok C (with_lease C al lm)"
    "al_abs (with_lease C al lm) = (al_abs al)(lm_ChannelID lm := (al_abs al (lm_ChannelID lm))(lm_key C lm \<mapsto> lm_data lm))"
    "d \<noteq> lm_ChannelID lm \<Longrightarrow> map_of (al_view (with_lease C al lm)) d = map_of (al_view al) d"
proof -
  note o = al_okD [OF assms(1)]
  let ?n = "length (al_heap al)" and ?f = "\<lambda>q. lm_LeaseTrigger ((al_heap al @ [lm]) ! q)" and ?al = "with_lease C al lm"
  have lt: "r < ?n" if "r \<in> set (al_leases al)" for r using that o(2,4) by auto
  have f: "?f r = al_trigger al r" if "r \<in> set (al_leases al)" for r using lt [OF that] by (simp add: nth_append)
  have g: "al_trigger ?al r = ?f r" if "r \<in> set (al_leases ?al)" for r
    using that lt by (auto simp: nth_append)
  have m: "map ?f (al_leases al) = map (al_trigger al) (al_leases al)" using f by (intro map_cong) auto
  have "sorted (map ?f (al_leases ?al))" unfolding with_lease_sel by (rule sorted_ins_ord) (unfold m, rule o(5))
  moreover have "map (al_trigger ?al) (al_leases ?al) = map ?f (al_leases ?al)" using g by (intro map_cong) auto
  ultimately have s: "sorted (map (al_trigger ?al) (al_leases ?al))" by (simp only:)
  have wf: "wf_map (al_messagesByChannel ?al)"
    unfolding with_lease_def using wf_map_update [OF o(1)] distinct_update [OF wf_messages [OF o(1)]] by simp
  have d: "distinct (al_leases ?al)" using distinct_ins_ord [OF o(3)] lt by auto
  have r: "set (al_leases ?al) = {r. \<exists>c k. al_lookup ?al c k = Some r}"
  proof (rule set_eqI, cases)
    fix x assume "x = ?n"
    moreover have "al_lookup ?al (lm_ChannelID lm) (lm_key C lm) = Some ?n" by (simp add: with_lease_lookup)
    ultimately show "x \<in> set (al_leases ?al) \<longleftrightarrow> x \<in> {r. \<exists>c k. al_lookup ?al c k = Some r}" by auto
  next
    fix x assume n: "x \<noteq> ?n"
    then have "al_lookup ?al c k = Some x \<longleftrightarrow> al_lookup al c k = Some x" for c k using assms(2) by (auto simp: with_lease_lookup)
    with n show "x \<in> set (al_leases ?al) \<longleftrightarrow> x \<in> {r. \<exists>c k. al_lookup ?al c k = Some r}" by (simp add: o(4))
  qed
  show "al_ok C ?al"
  proof (rule al_okI [OF wf _ d r s])
    show "r < length (al_heap ?al) \<and> lm_ChannelID (al_heap ?al ! r) = c \<and> lm_key C (al_heap ?al ! r) = k \<and> lm_e (al_heap ?al ! r) = Some r"
      if "al_lookup ?al c k = Some r" for c k r
      using that o(2) [of c k r] by (auto simp: with_lease_lookup nth_append split: if_splits)
  qed
  show "al_abs ?al = (al_abs al)(lm_ChannelID lm := (al_abs al (lm_ChannelID lm))(lm_key C lm \<mapsto> lm_data lm))"
    using o(2) by (auto simp: al_abs_def with_lease_lookup nth_append fun_eq_iff option.map_comp intro!: option.map_cong0 split: option.splits)
  show "map_of (al_view ?al) d = map_of (al_view al) d" if "d \<noteq> lm_ChannelID lm"
    by (rule view_same [OF assms(1)]) (use that o(2) in \<open>auto simp: with_lease_map nth_append\<close>)
qed

context chan_codecs
begin

lemma addMessage_new:
  assumes "versioned_kv K" "sets_succeed K" "id_order ord" "al_inv C K ld store kv kv1 al w"
    and "al_lookup al (lm_ChannelID lm) (lm_key C lm) = None"
  shows "\<exists>w'. addMessage C ord K w al lm = Inr (None, with_lease C al lm, w') \<and> al_inv C K ld store kv kv1 (with_lease C al lm) w' \<and>
    kv_writes K {kv} w w'"
proof -
  note i = al_invD [OF assms(4)] and o = with_lease_ok [OF al_invD(7) [OF assms(4)] assms(5)]
  let ?c = "lm_ChannelID lm" and ?al = "with_lease C al lm"
  from stored_put [OF assms(1-3) i(8), of ?al ?c] obtain w' where w':
    "al_updateStorage C ord K w ?al ?c (map_of (al_messagesByChannel al) ?c = None) = (None, w')" "al_stored C K ld w' ?al" "kv_writes K {kv} w w'"
    using al_okD(1) [OF o(1)] o(3) i(1) by (auto simp: with_lease_map)
  have "addMessage C ord K w al lm = Inr (None, ?al, w')"
  proof (cases "map_of (al_messagesByChannel al) ?c")
    case None
    with w'(1) show ?thesis by (simp add: addMessage_def Let_def with_lease_def lay_messages_def)
  next
    case (Some ms)
    then have "map_of ms (lm_key C lm) = None" "ms \<noteq> []"
      using assms(5) wf_mapD [OF al_okD(1) [OF i(7)] Some] by (simp_all add: al_lookup_def lay_messages_def)
    with w'(1) Some show ?thesis by (simp add: addMessage_def Let_def with_lease_def lay_messages_def)
  qed
  moreover have "al_inv C K ld store kv kv1 ?al w'"
    unfolding al_inv_def using i o(1) w'(2) rb_frame [OF i(3) w'(3)] by simp
  ultimately show ?thesis using w'(3) by blast
qed

end

lemma addMessage_again:
  assumes "al_lookup al (lm_ChannelID lm) (lm_key C lm) = Some r" "lm_e lm = None"
  shows "addMessage C ord K w al lm = Inl NilDereference"
  using assms by (cases "map_of (al_messagesByChannel al) (lm_ChannelID lm)")
    (simp_all add: addMessage_def Let_def al_lookup_def lay_messages_def updateLease_def)

subsection \<open>Removing a lease\<close>

lemma set_writes: "sets_succeed K \<Longrightarrow> CHR 0x5C \<notin> set key \<Longrightarrow> kv_writes K {h} w (snd (KV_Set K h w key obj))"
  by (metis kv_writes_one(1) prod.collapse sets_succeed_def)

lemma delete_writes: "deletes_succeed K \<Longrightarrow> CHR 0x5C \<notin> set key \<Longrightarrow> kv_writes K {h} w (snd (KV_Delete K h w key ver))"
  by (metis kv_writes_one(2) prod.collapse deletes_succeed_def)

context channel_layout
begin

lemma storeChannels_writes: "sets_succeed K \<Longrightarrow> kv_writes K {h} w (snd (lay_storeChannels J L ord K w h m))"
  unfolding lay_storeChannels_def by (rule set_writes [OF _ key_no_sep(2)])

lemma deleteMessages_writes: "deletes_succeed K \<Longrightarrow> kv_writes K {h} w (snd (lay_deleteMessages L K w h c))"
  unfolding lay_deleteMessages_def by (rule delete_writes [OF _ key_no_sep(1)])

lemma update_writes:
  assumes "sets_succeed K" "deletes_succeed K"
  shows "kv_writes K {h} w (snd (lay_update J L ord K w h m c b))"
proof -
  have s: "kv_writes K {h} w (snd (lay_storeMessages L K w h m c))" for w
    unfolding lay_storeMessages_def using set_writes [OF assms(1) key_no_sep(1)] deleteMessages_writes [OF assms(2)] by simp
  obtain e w1 where w1: "lay_storeMessages L K w h m c = (e, w1)" by fastforce
  have s: "kv_writes K {h} w w1" using s [of w] w1 by simp
  show ?thesis using s kv_writes_trans [OF storeChannels_writes [OF assms(1)] s] by (simp add: lay_update_def w1 split: option.splits)
qed

end

context chan_codecs
begin

lemma removeCommand_writes:
  assumes "sets_succeed K" "deletes_succeed K"
  shows "kv_writes K {rb_kv rb} w (snd (snd (removeCommand C ord K w rb c a p)))"
  using ids.cmd.update_writes [OF assms]
  by (simp add: removeCommand_def rb_updateStorage_def Let_def kv_writes_refl case_prod_beta del: map_of_eq_Some_iff split: option.splits)

lemma removeChannelCommands_writes:
  assumes "sets_succeed K" "deletes_succeed K"
  shows "kv_writes K {rb_store rb, rb_kv rb} w (snd (snd (removeChannelCommands C ord sord K w rb c)))"
proof (cases "map_of (rb_commandsByChannel rb) c")
  case None
  then show ?thesis by (simp add: removeChannelCommands_def kv_writes_refl)
next
  case (Some ms)
  let ?hs = "{rb_store rb, rb_kv rb}" and ?L = "command_layout (cl_id C)" and ?m = "AList.delete c (rb_commandsByChannel rb)"
  define w1 where "w1 = delete_commands C K w (rb_store rb)
    (map (\<lambda>c. (rc_ChannelID c, rc_Action c, rc_Payload c)) (List.map_filter (map_of ms) (sord (map fst ms))))"
  obtain e w2 where w2: "lay_storeChannels (cl_id C) ?L ord K w1 (rb_kv rb) ?m = (e, w2)" by fastforce
  have 1: "kv_writes K ?hs w w1" unfolding w1_def by (rule kv_writes_mono [OF delete_commands_writes [OF assms(2)]]) simp
  have "kv_writes K ?hs w1 w2"
    by (rule kv_writes_mono [where hs = "{rb_kv rb}"]) (use ids.cmd.storeChannels_writes [OF assms(1), of "rb_kv rb" w1 ord ?m] w2 in simp_all)
  from kv_writes_trans [OF this 1] have 2: "kv_writes K ?hs w w2" .
  have "kv_writes K ?hs w2 (snd (lay_deleteMessages ?L K w2 (rb_kv rb) c))"
    by (rule kv_writes_mono [OF ids.cmd.deleteMessages_writes [OF assms(2)]]) simp
  from kv_writes_trans [OF this 2] 2 show ?thesis
    using Some w2 by (simp add: removeChannelCommands_def Let_def w1_def [symmetric] case_prod_beta split: option.splits)
qed

end

definition without_lease :: "('h, 's) ActionLeaseList \<Rightarrow> bytes \<Rightarrow> string \<Rightarrow> nat \<Rightarrow> ('h, 's) ActionLeaseList" where
  "without_lease al c k r =
     (let ms = AList.delete k (lay_messages (al_messagesByChannel al) c)
      in al\<lparr>al_leases := remove1 r (al_leases al),
            al_messagesByChannel := (if ms = [] then AList.delete c (al_messagesByChannel al) else AList.update c ms (al_messagesByChannel al))\<rparr>)"

lemma without_lease_sel [simp]:
  "al_heap (without_lease al c k r) = al_heap al" "al_leases (without_lease al c k r) = remove1 r (al_leases al)"
  "al_kv (without_lease al c k r) = al_kv al" "al_store (without_lease al c k r) = al_store al" "al_rb (without_lease al c k r) = al_rb al"
  "al_addLeaseMessage (without_lease al c k r) = al_addLeaseMessage al" "al_alarm (without_lease al c k r) = al_alarm al"
  by (simp_all add: without_lease_def Let_def)

lemma without_lease_lookup:
  "al_lookup (without_lease al c k r) d j = (if d = c \<and> j = k then None else al_lookup al d j)"
proof (cases "AList.delete k (lay_messages (al_messagesByChannel al) c) = []")
  case True
  have "map_of (lay_messages (al_messagesByChannel al) c) j = None" if "j \<noteq> k" for j
    using arg_cong [OF True, of "\<lambda>xs. map_of xs j"] that by (simp add: delete_conv')
  with True show ?thesis by (auto simp: without_lease_def al_lookup_def lay_messages_def delete_conv')
next
  case False
  then show ?thesis by (auto simp: without_lease_def Let_def al_lookup_def lay_messages_def update_conv' delete_conv' simp del: map_of_eq_Some_iff)
qed

lemma without_lease_map:
  "map_of (al_messagesByChannel (without_lease al c k r)) d =
     (if d = c then (let ms = AList.delete k (lay_messages (al_messagesByChannel al) c) in if ms = [] then None else Some ms)
      else map_of (al_messagesByChannel al) d)"
  by (simp add: without_lease_def Let_def delete_conv' update_conv' del: map_of_eq_Some_iff)

lemma without_lease_ok:
  assumes "al_ok C al" "al_lookup al c k = Some r"
  shows "al_ok C (without_lease al c k r)"
    "al_abs (without_lease al c k r) = (al_abs al)(c := (al_abs al c)(k := None))"
    "d \<noteq> c \<Longrightarrow> map_of (al_view (without_lease al c k r)) d = map_of (al_view al) d"
proof -
  note o = al_okD [OF assms(1)]
  let ?al = "without_lease al c k r"
  have wf: "wf_map (al_messagesByChannel ?al)"
    using wf_map_update [OF o(1)] wf_map_delete [OF o(1)] distinct_delete [OF wf_messages [OF o(1)]] by (simp add: without_lease_def Let_def)
  have u: "d = c \<and> j = k" if "al_lookup al d j = Some r" for d j using o(2) [OF that] o(2) [OF assms(2)] by blast
  have "x \<in> set (al_leases ?al) \<longleftrightarrow> (\<exists>d j. al_lookup ?al d j = Some x)" for x
  proof (cases "x = r")
    case True
    then show ?thesis using u o(3) by (auto simp: without_lease_lookup)
  next
    case False
    then have "al_lookup ?al d j = Some x \<longleftrightarrow> al_lookup al d j = Some x" for d j using assms(2) by (auto simp: without_lease_lookup)
    with False o(3,4) show ?thesis by simp
  qed
  then have r: "set (al_leases ?al) = {x. \<exists>d j. al_lookup ?al d j = Some x}" by blast
  show "al_ok C ?al"
    by (rule al_okI [OF wf _ _ r]) (use o(2,3,5) sorted_map_remove1 [OF o(5)] in \<open>auto simp: without_lease_lookup split: if_splits\<close>)
  show "al_abs ?al = (al_abs al)(c := (al_abs al c)(k := None))"
    by (auto simp: al_abs_def without_lease_lookup fun_eq_iff)
  show "map_of (al_view ?al) d = map_of (al_view al) d" if "d \<noteq> c"
    by (rule view_same [OF assms(1)]) (use that in \<open>simp_all add: without_lease_map\<close>)
qed

lemma ok_cong:
  assumes "al_ok C al" "al_heap al' = al_heap al" "al_leases al' = al_leases al" "al_messagesByChannel al' = al_messagesByChannel al"
  shows "al_ok C al'"
  using assms unfolding al_ok_def al_lookup_def by simp

lemma view_cong:
  "al_heap al' = al_heap al \<Longrightarrow> al_messagesByChannel al' = al_messagesByChannel al \<Longrightarrow> al_view al' = al_view al"
  by (simp add: al_view_def)

lemma abs_cong:
  "al_heap al' = al_heap al \<Longrightarrow> al_messagesByChannel al' = al_messagesByChannel al \<Longrightarrow> al_abs al' = al_abs al"
  by (simp add: al_abs_def al_lookup_def fun_eq_iff)

lemma inv_cong:
  assumes "al_inv C K ld store kv kv1 al w" "al_heap al' = al_heap al" "al_leases al' = al_leases al"
    "al_messagesByChannel al' = al_messagesByChannel al" "al_rb al' = al_rb al" "al_kv al' = al_kv al" "al_store al' = al_store al"
  shows "al_inv C K ld store kv kv1 al' w"
  using assms(1) ok_cong [OF _ assms(2-4)] view_cong [OF assms(2,4)] unfolding al_inv_def al_stored_def by (auto simp: assms(5-7))

lemma lookup_Some_map:
  assumes "al_lookup al c k = Some r"
  obtains ms where "map_of (al_messagesByChannel al) c = Some ms" "map_of ms k = Some r" "lay_messages (al_messagesByChannel al) c = ms"
  using assms by (cases "map_of (al_messagesByChannel al) c") (simp_all add: al_lookup_def lay_messages_def)

context chan_codecs
begin

lemma stored_without:
  assumes "versioned_kv K" "sets_succeed K" "deletes_succeed K" "id_order ord" "al_stored C K ld w al" "al_ok C al" "al_lookup al c k = Some r"
    and "al' = (without_lease al c k r)\<lparr>al_rb := rb\<rparr>"
  shows "\<exists>w'. al_updateStorage C ord K w al' c (AList.delete k (lay_messages (al_messagesByChannel al) c) = []) = (None, w') \<and>
    al_stored C K ld w' al' \<and> kv_writes K {al_kv al} w w'"
proof -
  note o = without_lease_ok [OF assms(6,7)]
  have v: "map_of (al_view al') d = map_of (al_view al) d" if "d \<noteq> c" for d
    using o(3) [OF that] view_cong [of al' "without_lease al c k r"] by (simp add: assms(8))
  have wf: "wf_map (al_messagesByChannel al')" using al_okD(1) [OF o(1)] by (simp add: assms(8))
  obtain ms where "map_of (al_messagesByChannel al) c = Some ms" by (rule lookup_Some_map [OF assms(7)])
  then have n: "map_of (al_messagesByChannel al) c \<noteq> None" by simp
  show ?thesis
  proof (cases "AList.delete k (lay_messages (al_messagesByChannel al) c) = []")
    case True
    then have "map_of (al_messagesByChannel al') c = None" by (simp add: assms(8) without_lease_map)
    with stored_drop(1) [OF assms(1-5) _ wf _ v] True show ?thesis by (simp add: assms(8))
  next
    case False
    then have "map_of (al_messagesByChannel al') c \<noteq> None" by (simp add: assms(8) without_lease_map)
    from stored_put [OF assms(1,2,4,5) _ wf this v] n False show ?thesis by (simp add: assms(8))
  qed
qed

lemma removeMessage_spec:
  assumes "versioned_kv K" "sets_succeed K" "deletes_succeed K" "id_order ord" "al_inv C K ld store kv kv1 al w"
  shows "\<exists>al' w'. removeMessage C ord K w al (c, a, p) b = Inr (None, al', w') \<and> al_inv C K ld store kv kv1 al' w' \<and>
    al_abs al' = (al_abs al)(c := (al_abs al c)(fp_key (newCommandFingerprint C c a p) := None)) \<and>
    al_heap al' = al_heap al \<and> al_alarm al' = al_alarm al \<and> al_addLeaseMessage al' = al_addLeaseMessage al"
proof (cases "al_lookup al c (fp_key (newCommandFingerprint C c a p))")
  case None
  then have "removeMessage C ord K w al (c, a, p) b = Inr (None, al, w)"
    by (cases "map_of (al_messagesByChannel al) c") (simp_all add: removeMessage_def al_lookup_def lay_messages_def)
  moreover have "al_abs al = (al_abs al)(c := (al_abs al c)(fp_key (newCommandFingerprint C c a p) := None))"
    using None by (auto simp: al_abs_def fun_eq_iff)
  ultimately show ?thesis using assms(5) by auto
next
  case (Some r)
  note i = al_invD [OF assms(5)]
  let ?k = "fp_key (newCommandFingerprint C c a p)" and ?lm = "al_heap al ! r" and ?al = "without_lease al c (fp_key (newCommandFingerprint C c a p)) r"
  note h = al_okD(2) [OF i(7) Some] and o = without_lease_ok [OF i(7) Some]
  obtain ms where ms: "map_of (al_messagesByChannel al) c = Some ms" "map_of ms ?k = Some r" "lay_messages (al_messagesByChannel al) c = ms"
    by (rule lookup_Some_map [OF Some])
  from removeCommand_inv [OF assms(1-4) i(3), of c "lm_Action ?lm" "lm_Payload ?lm"] obtain rb1 w1 where
    rb1: "removeCommand C ord K w (al_rb al) c (lm_Action ?lm) (lm_Payload ?lm) = (None, rb1, w1)" "rb_inv C K store kv1 rb1 w1" by blast
  define w2 where "w2 = (if b then snd (DeleteCommand C K w1 store c (lm_Action ?lm) (lm_Payload ?lm)) else w)"
  define rb2 where "rb2 = (if b then rb1 else al_rb al)"
  have 1: "kv_writes K {store, kv1} w w1"
    by (rule kv_writes_mono [where hs = "{rb_kv (al_rb al)}"])
      (use removeCommand_writes [OF assms(2,3), of "al_rb al" w ord c "lm_Action ?lm" "lm_Payload ?lm"] rb1(1) i(3) in \<open>simp_all add: rb_inv_def\<close>)
  have s: "kv_writes K {store} w1 (snd (DeleteCommand C K w1 store c (lm_Action ?lm) (lm_Payload ?lm)))"
    unfolding DeleteCommand_def by (rule delete_writes [OF assms(3)]) simp
  then have 2: "kv_writes K {store, kv1} w1 (snd (DeleteCommand C K w1 store c (lm_Action ?lm) (lm_Payload ?lm)))"
    by (rule kv_writes_mono) simp
  have w2: "kv_writes K {store, kv1} w w2" unfolding w2_def using kv_writes_trans [OF 2 1] by (simp add: kv_writes_refl)
  have rb2: "rb_inv C K store kv1 rb2 w2"
    unfolding rb2_def w2_def using i(3) rb_frame [OF rb1(2) s] rb1(2) by (auto simp: rb_inv_def)
  have "al_stored C K ld w2 al" by (rule stored_frame [OF i(8) w2]) (use i(1,4,5) in auto)
  from stored_without [OF assms(1-4) this i(7) Some refl, of rb2] obtain w3 where
    w3: "al_updateStorage C ord K w2 (?al\<lparr>al_rb := rb2\<rparr>) c (AList.delete ?k ms = []) = (None, w3)" "al_stored C K ld w3 (?al\<lparr>al_rb := rb2\<rparr>)"
    "kv_writes K {kv} w2 w3" using i(1) unfolding ms(3) by blast
  have "removeMessage C ord K w al (c, a, p) b = Inr (None, ?al\<lparr>al_rb := rb2\<rparr>, w3)"
    using ms(1,2) h rb1(1) i(2) w3(1) by (auto simp: removeMessage_def Let_def without_lease_def ms(3) w2_def rb2_def)
  moreover have "al_inv C K ld store kv kv1 (?al\<lparr>al_rb := rb2\<rparr>) w3"
    unfolding al_inv_def using i(1,2,4-6) w3(2) rb_frame [OF rb2 w3(3)] ok_cong [OF o(1), of "?al\<lparr>al_rb := rb2\<rparr>"] by simp
  moreover have "al_abs (?al\<lparr>al_rb := rb2\<rparr>) = (al_abs al)(c := (al_abs al c)(?k := None))"
    using abs_cong [of "?al\<lparr>al_rb := rb2\<rparr>" ?al] o(2) by simp
  ultimately show ?thesis by auto
qed

text \<open>A lease whose trigger changes moves to its place in the list.\<close>

lemma moved_ok:
  fixes t :: int
  assumes "al_ok C al" "al_lookup al c k = Some r"
  defines "al' \<equiv> al\<lparr>al_heap := (al_heap al)[r := (al_heap al ! r)\<lparr>lm_LeaseTrigger := t\<rparr>],
    al_leases := ins_ord (\<lambda>q. lm_LeaseTrigger ((al_heap al)[r := (al_heap al ! r)\<lparr>lm_LeaseTrigger := t\<rparr>] ! q)) r (remove1 r (al_leases al))\<rparr>"
  shows "al_ok C al'"
    "al_abs al' = (al_abs al)(c := (al_abs al c)(k := map_option (\<lambda>d. d\<lparr>lm_LeaseTrigger := t\<rparr>) (al_abs al c k)))"
    "d \<noteq> c \<Longrightarrow> map_of (al_view al') d = map_of (al_view al) d"
proof -
  note o = al_okD [OF assms(1)] and h = al_okD(2) [OF assms(1,2)]
  let ?f = "al_trigger al'"
  have u: "d = c \<and> j = k" if "al_lookup al d j = Some r" for d j using o(2) [OF that] h by blast
  have l: "al_lookup al' = al_lookup al" by (rule lookup_eq) (simp add: al'_def)
  have hp: "al_heap al' = (al_heap al)[r := (al_heap al ! r)\<lparr>lm_LeaseTrigger := t\<rparr>]" by (simp add: al'_def)
  have f: "?f q = al_trigger al q" if "q \<noteq> r" for q using that by (simp add: al'_def)
  have m: "map ?f (remove1 r (al_leases al)) = map (al_trigger al) (remove1 r (al_leases al))"
    using f o(3) by (intro map_cong) auto
  have le: "al_leases al' = ins_ord ?f r (remove1 r (al_leases al))" by (simp add: al'_def)
  have s: "sorted (map ?f (al_leases al'))"
    unfolding le by (rule sorted_ins_ord) (unfold m, rule sorted_map_remove1 [OF o(5)])
  have d: "distinct (al_leases al')" unfolding le by (rule distinct_ins_ord) (use o(3) in simp_all)
  have "r \<in> set (al_leases al)" using o(4) assms(2) by blast
  then have r: "set (al_leases al') = {r. \<exists>c k. al_lookup al' c k = Some r}" unfolding le l o(4) [symmetric] using o(3) by auto
  show "al_ok C al'"
  proof (rule al_okI [OF _ _ d r s])
    show "wf_map (al_messagesByChannel al')" using o(1) by (simp add: al'_def)
    show "q < length (al_heap al') \<and> lm_ChannelID (al_heap al' ! q) = e \<and> lm_key C (al_heap al' ! q) = j \<and> lm_e (al_heap al' ! q) = Some q"
      if "al_lookup al' e j = Some q" for e j q
      using o(2) [OF that [unfolded l]] by (cases "q = r") (auto simp: al'_def lm_key_def)
  qed
  show "al_abs al' = (al_abs al)(c := (al_abs al c)(k := map_option (\<lambda>d. d\<lparr>lm_LeaseTrigger := t\<rparr>) (al_abs al c k)))"
  proof (intro ext)
    fix d j
    show "al_abs al' d j = ((al_abs al)(c := (al_abs al c)(k := map_option (\<lambda>d. d\<lparr>lm_LeaseTrigger := t\<rparr>) (al_abs al c k)))) d j"
    proof (cases "al_lookup al d j = Some r")
      case True
      with u have "d = c" "j = k" by blast+
      with True h hp show ?thesis unfolding al_abs_def l by (simp add: lm_data_def leaseData.defs)
    next
      case False
      with assms(2) have "\<not> (d = c \<and> j = k)" by auto
      moreover have "al_abs al' d j = al_abs al d j" unfolding al_abs_def l using False hp by (cases "al_lookup al d j") simp_all
      ultimately show ?thesis by auto
    qed
  qed
  show "map_of (al_view al') d = map_of (al_view al) d" if "d \<noteq> c"
  proof (rule view_same [OF assms(1)])
    show "lm_data (al_heap al' ! q) = lm_data (al_heap al ! q)" if "al_lookup al d j = Some q" for j q
      using that u [of d j] \<open>d \<noteq> c\<close> hp by (cases "q = r") auto
  qed (simp add: al'_def)
qed

lemma updateLeaseTrigger_spec:
  assumes "versioned_kv K" "sets_succeed K" "deletes_succeed K" "id_order ord" "al_inv C K ld store kv kv1 al w"
    and "al_lookup al c (fp_key (newCommandFingerprint C c a p)) = Some r"
    and "calculateLeaseTrigger draw (al_rng al) now (lm_OriginatingTimestamp (al_heap al ! r)) (lm_Lease (al_heap al ! r)) = Inr (t, rng)"
  defines "k \<equiv> fp_key (newCommandFingerprint C c a p)"
  shows "\<exists>al' w'. updateLeaseTrigger C draw ord K w al (c, a, p) now = Inr (None, al', w') \<and> al_inv C K ld store kv kv1 al' w' \<and>
    al_abs al' = (al_abs al)(c := (al_abs al c)(k := (case t of None \<Rightarrow> None | Some u \<Rightarrow> map_option (\<lambda>d. d\<lparr>lm_LeaseTrigger := u\<rparr>) (al_abs al c k)))) \<and>
    al_alarm al' = al_alarm al \<and> al_addLeaseMessage al' = al_addLeaseMessage al"
proof -
  note i = al_invD [OF assms(5)]
  note h = al_okD(2) [OF i(7) assms(6)]
  obtain ms where ms: "map_of (al_messagesByChannel al) c = Some ms" "map_of ms (fp_key (newCommandFingerprint C c a p)) = Some r"
    by (rule lookup_Some_map [OF assms(6)])
  have lk: "lm_key C (al_heap al ! r) = k" using h by (simp add: k_def)
  show ?thesis
  proof (cases t)
    case None
    have "al_inv C K ld store kv kv1 (al\<lparr>al_rng := rng\<rparr>) w" by (rule inv_cong [OF assms(5)]) simp_all
    from removeMessage_spec [OF assms(1-4) this, of c "lm_Action (al_heap al ! r)" "lm_Payload (al_heap al ! r)" True]
    show ?thesis
      using None ms h lk abs_cong [of "al\<lparr>al_rng := rng\<rparr>" al] assms(7) unfolding lm_key_def k_def by (auto simp: updateLeaseTrigger_def Let_def)
  next
    case (Some u)
    let ?al = "al\<lparr>al_rng := rng, al_heap := (al_heap al)[r := (al_heap al ! r)\<lparr>lm_LeaseTrigger := u\<rparr>]\<rparr>"
    define al1 where "al1 = ?al\<lparr>al_leases := ins_ord (al_trigger ?al) r (remove1 r (al_leases ?al))\<rparr>"
    have r: "r \<in> set (al_leases al)" using al_okD(4) [OF i(7)] assms(6) by blast
    have ul: "updateLease ?al (lm_e (al_heap al ! r)) = Inr al1"
      unfolding h [THEN conjunct2, THEN conjunct2, THEN conjunct2] al1_def by (rule updateLease_ins) (use r in simp)
    note m = moved_ok [OF i(7) assms(6), where t = u]
    let ?m = "al\<lparr>al_heap := (al_heap al)[r := (al_heap al ! r)\<lparr>lm_LeaseTrigger := u\<rparr>],
      al_leases := ins_ord (\<lambda>q. lm_LeaseTrigger ((al_heap al)[r := (al_heap al ! r)\<lparr>lm_LeaseTrigger := u\<rparr>] ! q)) r (remove1 r (al_leases al))\<rparr>"
    have e: "al_heap al1 = al_heap ?m" "al_leases al1 = al_leases ?m" "al_messagesByChannel al1 = al_messagesByChannel ?m"
      by (simp_all add: al1_def)
    have ok: "al_ok C al1" by (rule ok_cong [OF m(1) e])
    have v: "map_of (al_view al1) d = map_of (al_view al) d" if "d \<noteq> c" for d using m(3) [OF that] view_cong [OF e(1,3)] by simp
    have b: "al_messagesByChannel al1 = al_messagesByChannel al" "al_kv al1 = al_kv al" by (simp_all add: al1_def)
    from stored_put [OF assms(1,2,4) i(8) b(2) al_okD(1) [OF ok] _ v, of c] ms(1) i(1) obtain w' where
      w': "al_updateStorage C ord K w al1 c False = (None, w')" "al_stored C K ld w' al1" "kv_writes K {kv} w w'"
      by (auto simp: b)
    have "updateLeaseTrigger C draw ord K w al (c, a, p) now = Inr (None, al1, w')"
      using ms h assms(7) Some ul w'(1) by (simp add: updateLeaseTrigger_def Let_def)
    moreover have "al_inv C K ld store kv kv1 al1 w'"
      unfolding al_inv_def using i ok w'(2) rb_frame [OF i(3) w'(3)] by (simp add: al1_def)
    moreover have "al_abs al1 = (al_abs al)(c := (al_abs al c)(k := map_option (\<lambda>d. d\<lparr>lm_LeaseTrigger := u\<rparr>) (al_abs al c k)))"
      using m(2) abs_cong [OF e(1,3)] by (simp add: k_def)
    ultimately show ?thesis using Some by (auto simp: al1_def)
  qed
qed

end

subsection \<open>Leaving a channel\<close>

lemma remove_leases_spec:
  assumes "deletes_succeed K" "\<forall>r \<in> set rs. lm_e (al_heap al ! r) = Some r" "distinct (al_leases al)"
  shows "\<exists>w'. remove_leases C K w al rs = Inr (al\<lparr>al_leases := filter (\<lambda>x. x \<notin> set rs) (al_leases al)\<rparr>, w') \<and> kv_writes K {al_store al} w w'"
  using assms(2,3)
proof (induction rs arbitrary: al w)
  case Nil
  then show ?case by (auto simp: kv_writes_refl)
next
  case (Cons r rs)
  let ?w = "snd (DeleteCommand C K w (al_store al) (lm_ChannelID (al_heap al ! r)) (lm_Action (al_heap al ! r)) (lm_Payload (al_heap al ! r)))"
  let ?al = "al\<lparr>al_leases := remove1 r (al_leases al)\<rparr>"
  have w: "kv_writes K {al_store al} w ?w" unfolding DeleteCommand_def by (rule delete_writes [OF assms(1)]) simp
  from Cons.IH [of ?al ?w] Cons.prems obtain w' where
    w': "remove_leases C K ?w ?al rs = Inr (?al\<lparr>al_leases := filter (\<lambda>x. x \<notin> set rs) (al_leases ?al)\<rparr>, w')" "kv_writes K {al_store al} ?w w'"
    by auto
  have "filter (\<lambda>x. x \<notin> set rs) (remove1 r (al_leases al)) = filter (\<lambda>x. x \<notin> set (r # rs)) (al_leases al)"
    using Cons.prems(2) by (auto simp: distinct_remove1_removeAll removeAll_filter_not_eq intro!: filter_cong)
  with w' kv_writes_trans [OF w'(2) w] Cons.prems(1) show ?case by (auto simp: Let_def)
qed

lemma without_channel_ok:
  assumes "al_ok C al" "al_heap al' = al_heap al" "al_messagesByChannel al' = AList.delete c (al_messagesByChannel al)"
    and "al_leases al' = filter (\<lambda>x. x \<notin> {r. \<exists>k. al_lookup al c k = Some r}) (al_leases al)"
  shows "al_ok C al'" "al_abs al' = (al_abs al)(c := Map.empty)"
    "d \<noteq> c \<Longrightarrow> map_of (al_view al') d = map_of (al_view al) d"
proof -
  note o = al_okD [OF assms(1)]
  have l: "al_lookup al' d k = (if d = c then None else al_lookup al d k)" for d k
    by (simp add: al_lookup_def lay_messages_def assms(3) delete_conv' del: map_of_eq_Some_iff)
  have u: "d = e" if "al_lookup al d j = Some r" "al_lookup al e k = Some r" for d e j k r
    using o(2) [OF that(1)] o(2) [OF that(2)] by blast
  have r: "set (al_leases al') = {r. \<exists>c k. al_lookup al' c k = Some r}"
  proof (intro set_eqI iffI)
    fix x assume "x \<in> set (al_leases al')"
    then have "x \<in> set (al_leases al)" and n: "\<And>k. al_lookup al c k \<noteq> Some x" by (simp_all add: assms(4))
    then obtain d k where "al_lookup al d k = Some x" using o(4) by blast
    with n have "al_lookup al' d k = Some x" unfolding l by auto
    then show "x \<in> {r. \<exists>c k. al_lookup al' c k = Some r}" by blast
  next
    fix x assume "x \<in> {r. \<exists>c k. al_lookup al' c k = Some r}"
    then obtain d k where "al_lookup al' d k = Some x" by blast
    then have d: "d \<noteq> c" "al_lookup al d k = Some x" unfolding l by (simp_all split: if_splits)
    then have "x \<in> set (al_leases al)" using o(4) by blast
    moreover have "al_lookup al c j \<noteq> Some x" for j using u [OF d(2), of c j] d(1) by auto
    ultimately show "x \<in> set (al_leases al')" by (simp add: assms(4))
  qed
  have s: "sorted (map (al_trigger al') (al_leases al'))"
    unfolding assms(2,4) by (rule sorted_filter [OF o(5)])
  show "al_ok C al'"
    by (rule al_okI [OF _ _ _ r s]) (use wf_map_delete [OF o(1)] o(2,3) in \<open>auto simp: l assms(2-4) split: if_splits\<close>)
  show "al_abs al' = (al_abs al)(c := Map.empty)" by (auto simp: al_abs_def l assms(2) fun_eq_iff)
  show "map_of (al_view al') d = map_of (al_view al) d" if "d \<noteq> c"
    by (rule view_same [OF assms(1)]) (use that in \<open>simp_all add: assms(2,3) delete_conv'\<close>)
qed

context chan_codecs
begin

lemma removeChannel_spec:
  assumes "versioned_kv K" "sets_succeed K" "deletes_succeed K" "id_order ord" "id_order sord" "al_inv C K ld store kv kv1 al w"
  shows "\<exists>al' w'. al_removeChannel C ord sord K w al c = Inr (None, al', w') \<and> al_inv C K ld store kv kv1 al' w' \<and>
    al_abs al' = (al_abs al)(c := Map.empty) \<and> al_addLeaseMessage al' = al_addLeaseMessage al"
proof (cases "map_of (al_messagesByChannel al) c")
  case None
  then have "al_removeChannel C ord sord K w al c = Inr (None, al, w)" by (simp add: al_removeChannel_def)
  moreover have "al_abs al = (al_abs al)(c := Map.empty)"
    using None by (auto simp: al_abs_def al_lookup_def lay_messages_def fun_eq_iff)
  ultimately show ?thesis using assms(6) by auto
next
  case (Some ms)
  note i = al_invD [OF assms(6)]
  let ?rs = "List.map_filter (map_of ms) (sord (map fst ms))"
  have lk: "al_lookup al c k = map_of ms k" for k using Some by (simp add: al_lookup_def lay_messages_def)
  have rs: "set ?rs = {r. \<exists>k. al_lookup al c k = Some r}"
  proof -
    have "set ?rs = {r. \<exists>k \<in> set (map fst ms). map_of ms k = Some r}"
      unfolding set_map_filter_some id_orderD(1) [OF assms(5)] by blast
    then show ?thesis unfolding lk using map_of_SomeD by (force simp: image_iff)
  qed
  have "\<forall>r \<in> set ?rs. lm_e (al_heap al ! r) = Some r" unfolding rs using al_okD(2) [OF i(7)] by blast
  from remove_leases_spec [OF assms(3) this al_okD(3) [OF i(7)], of C w] i(2) obtain w1 where
    w1: "remove_leases C K w al ?rs = Inr (al\<lparr>al_leases := filter (\<lambda>x. x \<notin> set ?rs) (al_leases al)\<rparr>, w1)" "kv_writes K {store} w w1" by blast
  have rb: "rb_inv C K store kv1 (al_rb al) w1" by (rule rb_frame [OF i(3) w1(2)]) (use i(3) in \<open>simp add: rb_inv_def\<close>)
  from removeChannelCommands_inv [OF assms(1-4) rb, of sord c] obtain rb2 w2 where
    w2: "removeChannelCommands C ord sord K w1 (al_rb al) c = (None, rb2, w2)" "rb_inv C K store kv1 rb2 w2" by blast
  have w2': "kv_writes K {store, kv1} w1 w2"
    using removeChannelCommands_writes [OF assms(2,3), of "al_rb al" w1 ord sord c] w2(1) rb by (simp add: rb_inv_def)
  define al2 where "al2 = al\<lparr>al_leases := filter (\<lambda>x. x \<notin> set ?rs) (al_leases al), al_rb := rb2,
    al_messagesByChannel := AList.delete c (al_messagesByChannel al)\<rparr>"
  have sel: "al_heap al2 = al_heap al" "al_messagesByChannel al2 = AList.delete c (al_messagesByChannel al)"
    "al_leases al2 = filter (\<lambda>x. x \<notin> {r. \<exists>k. al_lookup al c k = Some r}) (al_leases al)"
    by (simp_all add: al2_def rs [symmetric])
  note o = without_channel_ok [OF i(7) sel]
  have "kv_writes K {store, kv1} w w2" by (rule kv_writes_trans [OF w2' kv_writes_mono [OF w1(2)]]) simp
  then have st: "al_stored C K ld w2 al" by (rule stored_frame [OF i(8)]) (use i(1,4,5) in auto)
  from stored_drop(2) [OF assms(1-4) st, of al2 c] al_okD(1) [OF o(1)] o(3) obtain w3 w4 where
    w4: "lay_storeChannels (cl_id C) (lease_layout (cl_id C)) ord K w2 (al_kv al) (al_view al2) = (None, w3)"
      "lay_deleteMessages (lease_layout (cl_id C)) K w3 (al_kv al) c = (None, w4)" "al_stored C K ld w4 al2" "kv_writes K {al_kv al} w2 w4"
    by (auto simp: al2_def delete_conv')
  have "al_removeChannel C ord sord K w al c = Inr (None, al2, w4)"
    using Some w1(1) w2(1) w4(1,2) by (simp add: al_removeChannel_def Let_def al2_def)
  moreover have "al_inv C K ld store kv kv1 al2 w4"
    unfolding al_inv_def using i(1,2,4-6) o(1) w4(3) rb_frame [OF w2(2) w4(4)] by (simp add: al2_def)
  ultimately show ?thesis using o(2) by (auto simp: al2_def)
qed

end

end
