(* ===== verification/Lease_Thread.thy ===== *)
theory Lease_Thread
  imports Channel_Leases
begin

text \<open>
  The thread of the leases, loading and the runs of the lease list: what a round of the thread does to every lease, that the list
  stays ordered and complete and survives restarts, and where the thread panics or forgets its alarm.
\<close>

subsection \<open>A round of the thread\<close>

abbreviation lm_place :: "'r chan_libs \<Rightarrow> leaseMessage \<Rightarrow> bytes \<times> string" where
  "lm_place C lm \<equiv> (lm_ChannelID lm, lm_key C lm)"

definition elapsed :: "int \<Rightarrow> 'a leaseData_scheme \<Rightarrow> bool" where
  "elapsed now d = (time_Sub now (lm_OriginatingTimestamp d) \<ge> lm_Lease d)"

lemma calculate_future:
  assumes "draws_in_range draw" "lease \<le> ValidForever"
  shows "\<exists>t rng1. calculateLeaseTrigger draw rng now ots lease = Inr (t, rng1) \<and>
    (if time_Sub now ots \<ge> lease then t = None else \<exists>u > now. t = Some u)"
proof -
  have s: "time_Sub (now + MessageLife) (now + MessageLife div 2) = MessageLife div 2" by (simp add: time_Sub_def lease_times)
  from rand_in_range [OF assms(1), of 0 "MessageLife div 2" rng] obtain d rng1 where
    "randDurationInRange draw rng 0 (MessageLife div 2) = Inr (d, rng1)" "0 \<le> d" by (auto simp: lease_times)
  moreover have "now < ots + lease" if "\<not> time_Sub now ots \<ge> lease"
    using that assms(2) by (auto simp: time_Sub_def ValidForever_def max_def min_def split: if_splits)
  ultimately show ?thesis using s by (auto simp: calculateLeaseTrigger_def Let_def lease_times)
qed

text \<open>The leases \<open>S\<close> are removed when they have elapsed and get a trigger after \<open>now\<close> otherwise; the others stay as they are.\<close>

definition rescheduled :: "(bytes \<times> string) set \<Rightarrow> int \<Rightarrow> (bytes \<Rightarrow> string \<Rightarrow> leaseData option) \<Rightarrow> (bytes \<Rightarrow> string \<Rightarrow> leaseData option) \<Rightarrow> bool" where
  "rescheduled S now m m' =
     (\<forall>c k. if (c, k) \<in> S
        then (case m c k of
                None \<Rightarrow> m' c k = None
              | Some d \<Rightarrow> if elapsed now d then m' c k = None else \<exists>u > now. m' c k = Some (d\<lparr>lm_LeaseTrigger := u\<rparr>))
        else m' c k = m c k)"

lemma rescheduled_at:
  assumes "rescheduled S now m m'"
  shows "(c, k) \<notin> S \<Longrightarrow> m' c k = m c k" "m c k = None \<Longrightarrow> m' c k = None"
    "(c, k) \<in> S \<Longrightarrow> m c k = Some d \<Longrightarrow> if elapsed now d then m' c k = None else \<exists>u > now. m' c k = Some (d\<lparr>lm_LeaseTrigger := u\<rparr>)"
  using assms [unfolded rescheduled_def, rule_format, of c k] by (auto split: if_splits)

lemma elapsed_trigger [simp]: "elapsed now (d\<lparr>lm_LeaseTrigger := u\<rparr>) = elapsed now d"
  by (simp add: elapsed_def)

lemma rescheduled_trans:
  assumes "rescheduled S now m m1" "rescheduled T now m1 m2"
  shows "rescheduled (S \<union> T) now m m2"
proof -
  note f = rescheduled_at [OF assms(1)] and g = rescheduled_at [OF assms(2)]
  have "if (c, k) \<in> S \<union> T then (case m c k of None \<Rightarrow> m2 c k = None
      | Some d \<Rightarrow> if elapsed now d then m2 c k = None else \<exists>u > now. m2 c k = Some (d\<lparr>lm_LeaseTrigger := u\<rparr>))
    else m2 c k = m c k" for c k
  proof (cases "m c k")
    case None
    then show ?thesis using f(2) g(2) by simp
  next
    case (Some d)
    show ?thesis
    proof (cases "(c, k) \<in> S")
      case True
      show ?thesis
      proof (cases "elapsed now d")
        case e: True
        then have "m1 c k = None" using f(3) [OF True Some] by simp
        then show ?thesis using Some e True g(2) by simp
      next
        case e: False
        then obtain u where "m1 c k = Some (d\<lparr>lm_LeaseTrigger := u\<rparr>)" "now < u" using f(3) [OF True Some] by auto
        then show ?thesis using Some e True g(1) [of c k] g(3) [of c k] by (cases "(c, k) \<in> T") auto
      qed
    next
      case False
      then show ?thesis using Some f(1) [OF False] g(1) [of c k] g(3) [of c k d] by simp
    qed
  qed
  then show ?thesis unfolding rescheduled_def by blast
qed

text \<open>Durations are 64-bit integers.\<close>

definition leases_in_range :: "('h, 's) ActionLeaseList \<Rightarrow> bool" where
  "leases_in_range al = (\<forall>c k d. al_abs al c k = Some d \<longrightarrow> lm_Lease d \<le> ValidForever)"

lemma leases_in_rangeD: "leases_in_range al \<Longrightarrow> al_abs al c k = Some d \<Longrightarrow> lm_Lease d \<le> ValidForever"
  unfolding leases_in_range_def by blast

context chan_codecs
begin

lemma remove_expired_spec:
  assumes "versioned_kv K" "sets_succeed K" "deletes_succeed K" "id_order ord" "al_inv C K ld store kv kv1 al w"
  shows "\<exists>al' w'. remove_expired C ord K w al lms = Inr (al', w') \<and> al_inv C K ld store kv kv1 al' w' \<and>
    (\<forall>c k. al_abs al' c k = (if (c, k) \<in> lm_place C ` set lms then None else al_abs al c k)) \<and>
    al_alarm al' = al_alarm al \<and> al_addLeaseMessage al' = al_addLeaseMessage al"
  using assms(5)
proof (induction lms arbitrary: al w)
  case Nil
  then show ?case by auto
next
  case (Cons lm lms)
  from removeMessage_spec [OF assms(1-4) Cons.prems, of "lm_ChannelID lm" "lm_Action lm" "lm_Payload lm" True] obtain al1 w1 where
    1: "removeMessage C ord K w al (lm_id lm) True = Inr (None, al1, w1)" "al_inv C K ld store kv kv1 al1 w1"
    "al_abs al1 = (al_abs al)(lm_ChannelID lm := (al_abs al (lm_ChannelID lm))(lm_key C lm := None))"
    "al_alarm al1 = al_alarm al" "al_addLeaseMessage al1 = al_addLeaseMessage al" unfolding lm_key_def by blast
  from Cons.IH [OF 1(2)] obtain al' w' where
    2: "remove_expired C ord K w1 al1 lms = Inr (al', w')" "al_inv C K ld store kv kv1 al' w'"
    "\<forall>c k. al_abs al' c k = (if (c, k) \<in> lm_place C ` set lms then None else al_abs al1 c k)"
    "al_alarm al' = al_alarm al1" "al_addLeaseMessage al' = al_addLeaseMessage al1" by blast
  have "remove_expired C ord K w al (lm # lms) = Inr (al', w')" using 1(1) 2(1) by (simp add: or_panic_def)
  moreover have "\<forall>c k. al_abs al' c k = (if (c, k) \<in> lm_place C ` set (lm # lms) then None else al_abs al c k)"
    using 2(3) 1(3) by auto
  ultimately show ?case using 1(4,5) 2(2,4,5) by auto
qed

lemma updateLeaseTrigger_step:
  assumes "versioned_kv K" "sets_succeed K" "deletes_succeed K" "id_order ord" "draws_in_range draw" "al_inv C K ld store kv kv1 al w"
    and "leases_in_range al"
  shows "\<exists>al' w'. updateLeaseTrigger C draw ord K w al (lm_id lm) now = Inr (None, al', w') \<and> al_inv C K ld store kv kv1 al' w' \<and>
    rescheduled {lm_place C lm} now (al_abs al) (al_abs al') \<and> al_alarm al' = al_alarm al \<and> al_addLeaseMessage al' = al_addLeaseMessage al"
proof (cases "al_lookup al (lm_ChannelID lm) (lm_key C lm)")
  case None
  then have "updateLeaseTrigger C draw ord K w al (lm_id lm) now = Inr (None, al, w)"
    by (cases "map_of (al_messagesByChannel al) (lm_ChannelID lm)") (simp_all add: updateLeaseTrigger_def al_lookup_def lay_messages_def lm_key_def)
  moreover have "al_abs al (lm_ChannelID lm) (lm_key C lm) = None" using None by (simp add: al_abs_def)
  ultimately show ?thesis using assms(6) by (auto simp: rescheduled_def)
next
  case (Some r)
  let ?d = "lm_data (al_heap al ! r)"
  have b: "al_abs al (lm_ChannelID lm) (lm_key C lm) = Some ?d" using Some by (simp add: al_abs_def)
  from leases_in_rangeD [OF assms(7) this] have "lm_Lease (al_heap al ! r) \<le> ValidForever" by (simp add: lm_data_def leaseData.defs)
  from calculate_future [OF assms(5) this] obtain t rng where
    t: "calculateLeaseTrigger draw (al_rng al) now (lm_OriginatingTimestamp (al_heap al ! r)) (lm_Lease (al_heap al ! r)) = Inr (t, rng)"
    "if time_Sub now (lm_OriginatingTimestamp (al_heap al ! r)) \<ge> lm_Lease (al_heap al ! r) then t = None else \<exists>u > now. t = Some u" by blast
  have e: "elapsed now ?d \<longleftrightarrow> time_Sub now (lm_OriginatingTimestamp (al_heap al ! r)) \<ge> lm_Lease (al_heap al ! r)"
    by (simp add: elapsed_def lm_data_def leaseData.defs)
  from updateLeaseTrigger_spec [OF assms(1-4,6) Some [unfolded lm_key_def] t(1)] obtain al' w' where
    a: "updateLeaseTrigger C draw ord K w al (lm_id lm) now = Inr (None, al', w')" "al_inv C K ld store kv kv1 al' w'"
    "al_abs al' = (al_abs al)(lm_ChannelID lm := (al_abs al (lm_ChannelID lm))(lm_key C lm :=
       (case t of None \<Rightarrow> None | Some u \<Rightarrow> map_option (\<lambda>d. d\<lparr>lm_LeaseTrigger := u\<rparr>) (al_abs al (lm_ChannelID lm) (lm_key C lm)))))"
    "al_alarm al' = al_alarm al" "al_addLeaseMessage al' = al_addLeaseMessage al" unfolding lm_key_def by blast
  have "rescheduled {lm_place C lm} now (al_abs al) (al_abs al')"
    unfolding rescheduled_def a(3) using b t(2) [folded e] by (auto split: if_splits)
  then show ?thesis using a(1,2,4,5) by blast
qed

end

lemma rescheduled_range:
  assumes "leases_in_range al" "rescheduled S now (al_abs al) (al_abs al')"
  shows "leases_in_range al'"
  unfolding leases_in_range_def
proof (intro allI impI)
  fix c k d
  assume d: "al_abs al' c k = Some d"
  then obtain e where "al_abs al c k = Some e" using rescheduled_at(2) [OF assms(2), of c k] by (cases "al_abs al c k") auto
  then show "lm_Lease d \<le> ValidForever"
    using leases_in_rangeD [OF assms(1)] rescheduled_at(1,3) [OF assms(2), of c k] d by (cases "(c, k) \<in> S") (auto split: if_splits)
qed

context chan_codecs
begin

lemma update_replayed_spec:
  assumes "versioned_kv K" "sets_succeed K" "deletes_succeed K" "id_order ord" "draws_in_range draw" "al_inv C K ld store kv kv1 al w"
    and "leases_in_range al"
  shows "\<exists>al' w'. update_replayed C draw ord K w al now lms = Inr (al', w') \<and> al_inv C K ld store kv kv1 al' w' \<and>
    rescheduled (lm_place C ` set lms) now (al_abs al) (al_abs al') \<and>
    al_alarm al' = al_alarm al \<and> al_addLeaseMessage al' = al_addLeaseMessage al"
  using assms(6,7)
proof (induction lms arbitrary: al w)
  case Nil
  then show ?case by (auto simp: rescheduled_def)
next
  case (Cons lm lms)
  from updateLeaseTrigger_step [OF assms(1-5) Cons.prems, of lm now] obtain al1 w1 where
    1: "updateLeaseTrigger C draw ord K w al (lm_id lm) now = Inr (None, al1, w1)" "al_inv C K ld store kv kv1 al1 w1"
    "rescheduled {lm_place C lm} now (al_abs al) (al_abs al1)" "al_alarm al1 = al_alarm al" "al_addLeaseMessage al1 = al_addLeaseMessage al" by blast
  have l: "leases_in_range al1" by (rule rescheduled_range [OF Cons.prems(2) 1(3)])
  from Cons.IH [OF 1(2) l] obtain al' w' where
    2: "update_replayed C draw ord K w1 al1 now lms = Inr (al', w')" "al_inv C K ld store kv kv1 al' w'"
    "rescheduled (lm_place C ` set lms) now (al_abs al1) (al_abs al')" "al_alarm al' = al_alarm al1" "al_addLeaseMessage al' = al_addLeaseMessage al1"
    by blast
  have "update_replayed C draw ord K w al now (lm # lms) = Inr (al', w')" using 1(1) 2(1) by (simp add: or_panic_def)
  then show ?case using rescheduled_trans [OF 1(3) 2(3)] 1(4,5) 2(2,4,5) by auto
qed

end

text \<open>What the scan makes of the leases, with one reading of the clock: the list is ordered, so that the leases that are reached are in front.\<close>

definition reached :: "int \<Rightarrow> 'a leaseData_scheme \<Rightarrow> bool" where
  "reached t lm = (lm_LeaseTrigger lm \<le> t - 1000000)"

definition lease_ended :: "'a leaseData_scheme \<Rightarrow> bool" where
  "lease_ended lm = (lm_LeaseTrigger lm \<ge> lm_LeaseEnd lm)"

definition lease_command :: "'r chan_libs \<Rightarrow> ('h, 'w) KV_ops \<Rightarrow> 'w \<Rightarrow> 'h \<Rightarrow> 'a leaseData_scheme \<Rightarrow> 'r CommandMessage option" where
  "lease_command C K w store lm =
     (case LoadCommand C K w store (lm_ChannelID lm) (lm_Action lm) (lm_Payload lm) of Inl e \<Rightarrow> None | Inr cm \<Rightarrow> Some cm)"

definition lease_event_of :: "leaseData \<Rightarrow> 'r CommandMessage \<Rightarrow> 'r lease_event" where
  "lease_event_of d cm = (if lease_ended d then Trigger d cm else Replay (lm_ChannelID d) (cm_EncryptedPayload cm))"

lemma data_sel [simp]:
  "lm_ChannelID (lm_data lm) = lm_ChannelID lm" "lm_Action (lm_data lm) = lm_Action lm" "lm_Payload (lm_data lm) = lm_Payload lm"
  "lm_LeaseTrigger (lm_data lm) = lm_LeaseTrigger lm" "lm_LeaseEnd (lm_data lm) = lm_LeaseEnd lm" "lm_Lease (lm_data lm) = lm_Lease lm"
  "reached t (lm_data lm) = reached t lm" "lease_ended (lm_data lm) = lease_ended lm" "lm_key C (lm_data lm) = lm_key C lm"
  "lease_command C K w store (lm_data lm) = lease_command C K w store lm"
  by (simp_all add: lm_data_def leaseData.defs reached_def lease_ended_def lm_key_def lease_command_def)

lemma scan_spec:
  assumes "sorted (map (\<lambda>r. lm_LeaseTrigger (hp ! r)) rs)" "scan_leases C K w store hp (\<lambda>_. t) n rs = (rem, upd, evs, e)"
  shows "set rem = {lm. \<exists>r \<in> set rs. lm = hp ! r \<and> reached t lm \<and> (lease_command C K w store lm = None \<or> lease_ended lm)} \<and>
    set upd = {lm. \<exists>r \<in> set rs. lm = hp ! r \<and> reached t lm \<and> lease_command C K w store lm \<noteq> None \<and> \<not> lease_ended lm} \<and>
    set evs = {ev. \<exists>r \<in> set rs. \<exists>cm. reached t (hp ! r) \<and> lease_command C K w store (hp ! r) = Some cm \<and> ev = lease_event_of (lm_data (hp ! r)) cm} \<and>
    e = List.find (\<lambda>r. \<not> reached t (hp ! r)) rs"
  using assms
proof (induction rs arbitrary: n rem upd evs e)
  case (Cons r rs)
  show ?case
  proof (cases "reached t (hp ! r)")
    case False
    then have "\<not> reached t (hp ! q)" if "q \<in> set (r # rs)" for q using that Cons.prems(1) by (auto simp: reached_def)
    with False Cons.prems(2) show ?thesis by (auto simp: reached_def)
  next
    case True
    obtain rem1 upd1 evs1 e1 where s: "scan_leases C K w store hp (\<lambda>_. t) (Suc n) rs = (rem1, upd1, evs1, e1)" by (metis prod.collapse)
    have ih: "set rem1 = {lm. \<exists>r \<in> set rs. lm = hp ! r \<and> reached t lm \<and> (lease_command C K w store lm = None \<or> lease_ended lm)}"
      "set upd1 = {lm. \<exists>r \<in> set rs. lm = hp ! r \<and> reached t lm \<and> lease_command C K w store lm \<noteq> None \<and> \<not> lease_ended lm}"
      "set evs1 = {ev. \<exists>r \<in> set rs. \<exists>cm. reached t (hp ! r) \<and> lease_command C K w store (hp ! r) = Some cm \<and> ev = lease_event_of (lm_data (hp ! r)) cm}"
      "e1 = List.find (\<lambda>r. \<not> reached t (hp ! r)) rs"
      using Cons.IH [OF _ s] Cons.prems(1) by simp_all
    show ?thesis
    proof (cases "lease_command C K w store (hp ! r)")
      case None
      then obtain err where l: "LoadCommand C K w store (lm_ChannelID (hp ! r)) (lm_Action (hp ! r)) (lm_Payload (hp ! r)) = Inl err"
        by (auto simp: lease_command_def split: sum.splits)
      with Cons.prems(2) True s have "rem = hp ! r # rem1" "upd = upd1" "evs = evs1" "e = e1" by (simp_all add: reached_def Let_def)
      with None True ih show ?thesis by auto
    next
      case (Some cm)
      then have l: "LoadCommand C K w store (lm_ChannelID (hp ! r)) (lm_Action (hp ! r)) (lm_Payload (hp ! r)) = Inr cm"
        by (auto simp: lease_command_def split: sum.splits)
      have "rem = (if lease_ended (hp ! r) then hp ! r # rem1 else rem1) \<and> upd = (if lease_ended (hp ! r) then upd1 else hp ! r # upd1) \<and>
        evs = lease_event_of (lm_data (hp ! r)) cm # evs1 \<and> e = e1"
        using Cons.prems(2) True s l by (auto simp: reached_def Let_def lease_event_of_def lease_ended_def split: if_splits)
      with Some True ih show ?thesis by auto
    qed
  qed
qed auto

text \<open>A round of the thread in the terms of the map: what happens to the lease \<open>d\<close>.\<close>

definition round_of :: "'r chan_libs \<Rightarrow> ('h, 'w) KV_ops \<Rightarrow> 'w \<Rightarrow> 'h \<Rightarrow> int \<Rightarrow> int \<Rightarrow> leaseData \<Rightarrow> leaseData option \<Rightarrow> bool" where
  "round_of C K w store t now d d' =
     (if \<not> reached t d then d' = Some d
      else if lease_command C K w store d = None \<or> lease_ended d then d' = None
      else if elapsed now d then d' = None
      else \<exists>u > now. d' = Some (d\<lparr>lm_LeaseTrigger := u\<rparr>))"

lemma abs_of_lease:
  assumes "al_ok C al" "r \<in> set (al_leases al)"
  shows "al_abs al (lm_ChannelID (al_heap al ! r)) (lm_key C (al_heap al ! r)) = Some (lm_data (al_heap al ! r))"
proof -
  obtain c k where "al_lookup al c k = Some r" using al_okD(4) [OF assms(1)] assms(2) by blast
  with al_okD(2) [OF assms(1) this] show ?thesis by (auto simp: al_abs_def)
qed

lemma lease_of_abs:
  assumes "al_ok C al" "al_abs al c k = Some d"
  shows "\<exists>r \<in> set (al_leases al). d = lm_data (al_heap al ! r) \<and> lm_ChannelID (al_heap al ! r) = c \<and> lm_key C (al_heap al ! r) = k"
proof -
  obtain r where r: "al_lookup al c k = Some r" "d = lm_data (al_heap al ! r)" using assms(2) by (auto simp: al_abs_def)
  moreover have "r \<in> set (al_leases al)" using al_okD(4) [OF assms(1)] r(1) by blast
  ultimately show ?thesis using al_okD(2) [OF assms(1) r(1)] by blast
qed

context chan_codecs
begin

lemma thread_round_spec:
  assumes "versioned_kv K" "sets_succeed K" "deletes_succeed K" "id_order ord" "draws_in_range draw" "al_inv C K ld store kv kv1 al w" "leases_in_range al"
  shows "\<exists>evs al' w'. thread_round C draw ord K (\<lambda>_. t) now w al = Inr (evs, al', w') \<and> al_inv C K ld store kv kv1 al' w' \<and>
    (\<forall>c k. case al_abs al c k of None \<Rightarrow> al_abs al' c k = None | Some d \<Rightarrow> round_of C K w store t now d (al_abs al' c k)) \<and>
    set evs = {ev. \<exists>c k d cm. al_abs al c k = Some d \<and> reached t d \<and> lease_command C K w store d = Some cm \<and> ev = lease_event_of d cm} \<and>
    al_alarm al' = map_option (al_trigger al) (List.find (\<lambda>r. \<not> reached t (al_heap al ! r)) (al_leases al)) \<and>
    al_addLeaseMessage al' = al_addLeaseMessage al"
proof -
  note i = al_invD [OF assms(6)]
  obtain rem upd evs e where s: "scan_leases C K w store (al_heap al) (\<lambda>_. t) 0 (al_leases al) = (rem, upd, evs, e)" by (metis prod.collapse)
  note sc = scan_spec [OF al_okD(5) [OF i(7)] s]
  let ?al = "al\<lparr>al_alarm := map_option (al_trigger al) e\<rparr>"
  have a: "al_abs ?al = al_abs al" by (rule abs_cong) simp_all
  have "al_inv C K ld store kv kv1 ?al w" by (rule inv_cong [OF assms(6)]) simp_all
  from remove_expired_spec [OF assms(1-4) this, of rem] obtain al2 w2 where
    2: "remove_expired C ord K w ?al rem = Inr (al2, w2)" "al_inv C K ld store kv kv1 al2 w2"
    "\<And>c k. al_abs al2 c k = (if (c, k) \<in> lm_place C ` set rem then None else al_abs al c k)"
    "al_alarm al2 = map_option (al_trigger al) e" "al_addLeaseMessage al2 = al_addLeaseMessage al" unfolding a by auto
  have "leases_in_range al2" using assms(7) unfolding leases_in_range_def 2(3) by auto
  from update_replayed_spec [OF assms(1-5) 2(2) this, of now upd] obtain al3 w3 where
    3: "update_replayed C draw ord K w2 al2 now upd = Inr (al3, w3)" "al_inv C K ld store kv kv1 al3 w3"
    "rescheduled (lm_place C ` set upd) now (al_abs al2) (al_abs al3)" "al_alarm al3 = al_alarm al2" "al_addLeaseMessage al3 = al_addLeaseMessage al2"
    by blast
  have tr: "thread_round C draw ord K (\<lambda>_. t) now w al = Inr (evs, al3, w3)"
    using s 2(1) 3(1) i(2) by (simp add: thread_round_def)
  have u: "lm = al_heap al ! r" if "r \<in> set (al_leases al)" "q \<in> set (al_leases al)" "lm = al_heap al ! q"
    "lm_place C lm = lm_place C (al_heap al ! r)" for lm r q
  proof -
    have x: "al_lookup al (lm_ChannelID (al_heap al ! x)) (lm_key C (al_heap al ! x)) = Some x" if "x \<in> set (al_leases al)" for x
    proof -
      from that obtain c k where "al_lookup al c k = Some x" unfolding al_okD(4) [OF i(7)] by blast
      with al_okD(2) [OF i(7) this] show ?thesis by auto
    qed
    have "lm_ChannelID (al_heap al ! q) = lm_ChannelID (al_heap al ! r)" "lm_key C (al_heap al ! q) = lm_key C (al_heap al ! r)"
      using that(4) unfolding that(3) by simp_all
    then have "Some q = Some r" using x [OF that(2)] unfolding x [OF that(1)] by (simp only: x [OF that(1)])
    then show ?thesis using that(3) by simp
  qed
  have "case al_abs al c k of None \<Rightarrow> al_abs al3 c k = None | Some d \<Rightarrow> round_of C K w store t now d (al_abs al3 c k)" for c k
  proof (cases "al_abs al c k")
    case None
    have "(c, k) \<notin> lm_place C ` set upd"
    proof
      assume "(c, k) \<in> lm_place C ` set upd"
      then obtain r where "r \<in> set (al_leases al)" "c = lm_ChannelID (al_heap al ! r)" "k = lm_key C (al_heap al ! r)" using sc by auto
      with abs_of_lease [OF i(7)] None show False by simp
    qed
    with 3(3) [unfolded rescheduled_def, rule_format, of c k] 2(3) [of c k] None show ?thesis by simp
  next
    case (Some d)
    obtain r where r: "r \<in> set (al_leases al)" "d = lm_data (al_heap al ! r)" "lm_ChannelID (al_heap al ! r) = c" "lm_key C (al_heap al ! r) = k"
      using lease_of_abs [OF i(7) Some] by blast
    let ?lm = "al_heap al ! r"
    have pl: "(c, k) \<in> lm_place C ` {lm. \<exists>r \<in> set (al_leases al). lm = al_heap al ! r \<and> P lm} \<longleftrightarrow> P ?lm" for P
    proof
      assume "(c, k) \<in> lm_place C ` {lm. \<exists>r \<in> set (al_leases al). lm = al_heap al ! r \<and> P lm}"
      then obtain q where "q \<in> set (al_leases al)" "P (al_heap al ! q)" "lm_place C (al_heap al ! q) = lm_place C ?lm" using r(3,4) by auto
      with u [OF r(1) this(1) refl this(3)] show "P ?lm" by simp
    next
      assume "P ?lm"
      then have "?lm \<in> {lm. \<exists>r \<in> set (al_leases al). lm = al_heap al ! r \<and> P lm}" using r(1) by blast
      from imageI [OF this, of "lm_place C"] show "(c, k) \<in> lm_place C ` {lm. \<exists>r \<in> set (al_leases al). lm = al_heap al ! r \<and> P lm}"
        unfolding r(3,4) .
    qed
    have p: "(c, k) \<in> lm_place C ` set rem \<longleftrightarrow> reached t ?lm \<and> (lease_command C K w store ?lm = None \<or> lease_ended ?lm)"
      "(c, k) \<in> lm_place C ` set upd \<longleftrightarrow> reached t ?lm \<and> lease_command C K w store ?lm \<noteq> None \<and> \<not> lease_ended ?lm"
      unfolding sc [THEN conjunct1] sc [THEN conjunct2, THEN conjunct1] pl by (rule refl)+
    from 3(3) [unfolded rescheduled_def, rule_format, of c k] 2(3) [of c k] Some p show ?thesis
      by (auto simp: r(2) round_of_def split: if_splits)
  qed
  moreover have "set evs = {ev. \<exists>c k d cm. al_abs al c k = Some d \<and> reached t d \<and> lease_command C K w store d = Some cm \<and> ev = lease_event_of d cm}"
  proof (intro set_eqI iffI)
    fix ev assume "ev \<in> set evs"
    then obtain r cm where "r \<in> set (al_leases al)" "reached t (al_heap al ! r)" "lease_command C K w store (al_heap al ! r) = Some cm"
      "ev = lease_event_of (lm_data (al_heap al ! r)) cm" using sc by blast
    with abs_of_lease [OF i(7), of r]
    show "ev \<in> {ev. \<exists>c k d cm. al_abs al c k = Some d \<and> reached t d \<and> lease_command C K w store d = Some cm \<and> ev = lease_event_of d cm}"
      by force
  next
    fix ev assume "ev \<in> {ev. \<exists>c k d cm. al_abs al c k = Some d \<and> reached t d \<and> lease_command C K w store d = Some cm \<and> ev = lease_event_of d cm}"
    then obtain c k d cm where d: "al_abs al c k = Some d" "reached t d" "lease_command C K w store d = Some cm" "ev = lease_event_of d cm" by blast
    then obtain r where "r \<in> set (al_leases al)" "d = lm_data (al_heap al ! r)" using lease_of_abs [OF i(7) d(1)] by blast
    with d show "ev \<in> set evs" using sc by auto
  qed
  ultimately show ?thesis using tr 3(2,4,5) 2(4,5) sc by auto
qed

end

subsection \<open>Loading the leases\<close>

lemma loaded_sel:
  "loaded_as now d e \<Longrightarrow> lm_ChannelID d = lm_ChannelID e" "loaded_as now d e \<Longrightarrow> lm_key C d = lm_key C e"
  by (auto simp: loaded_as_def lm_key_def split: if_splits)

lemma same_lease_sel:
  "same_lease ld d e \<Longrightarrow> lm_ChannelID d = lm_ChannelID e" "same_lease ld d e \<Longrightarrow> lm_key C d = lm_key C e"
  using loaded_sel by (auto simp: same_lease_def)

text \<open>What the loop over the messages of a channel keeps: \<open>lease_part al rs\<close> says that the leases are in order and the messages \<open>rs\<close> are
  not yet among them.\<close>

definition lease_part :: "('h, 's) ActionLeaseList \<Rightarrow> nat list \<Rightarrow> bool" where
  "lease_part al rs =
     (distinct (al_leases al) \<and> sorted (map (al_trigger al) (al_leases al)) \<and> distinct rs \<and> set rs \<inter> set (al_leases al) = {} \<and>
      (\<forall>r \<in> set rs \<union> set (al_leases al). r < length (al_heap al)) \<and> (\<forall>r \<in> set (al_leases al). lm_e (al_heap al ! r) = Some r))"

lemma reschedule_spec:
  assumes "draws_in_range draw" "r < length (al_heap al)"
  shows "\<exists>rng lm. reschedule draw now al r = Inr (al\<lparr>al_rng := rng, al_heap := (al_heap al)[r := lm]\<rparr>) \<and>
    loaded_as now (lm_data lm) (lm_data (al_heap al ! r))"
proof (cases "al_trigger al r < now")
  case True
  from rand_in_range [OF assms(1), of replayWaitMin replayWaitMax "al_rng al"] obtain d rng where
    "randDurationInRange draw (al_rng al) replayWaitMin replayWaitMax = Inr (d, rng)" and d: "replayWaitMin \<le> d" "d \<le> replayWaitMax"
    by (auto simp: lease_times)
  moreover define lm where "lm = (if al_trigger al r = lm_LeaseEnd (al_heap al ! r) then (al_heap al ! r)\<lparr>lm_LeaseEnd := now + d\<rparr>
    else al_heap al ! r)\<lparr>lm_LeaseTrigger := now + d\<rparr>"
  ultimately have "reschedule draw now al r = Inr (al\<lparr>al_rng := rng, al_heap := (al_heap al)[r := lm]\<rparr>)"
    using True by (simp add: reschedule_def Let_def)
  moreover have "loaded_as now (lm_data lm) (lm_data (al_heap al ! r))"
    using True d by (auto simp: loaded_as_def lm_def lm_data_def leaseData.defs intro!: exI [of _ d])
  ultimately show ?thesis by blast
next
  case False
  have "al = al\<lparr>al_rng := al_rng al, al_heap := (al_heap al)[r := al_heap al ! r]\<rparr>" by simp
  moreover have "reschedule draw now al r = Inr al" using False by (simp add: reschedule_def)
  moreover have "loaded_as now (lm_data (al_heap al ! r)) (lm_data (al_heap al ! r))" using False by (simp add: loaded_as_def)
  ultimately show ?thesis by metis
qed

lemma load_leases_spec:
  assumes "draws_in_range draw" "lease_part al rs"
  shows "\<exists>al'. load_leases draw now al rs = Inr al' \<and> lease_part al' [] \<and> set (al_leases al') = set (al_leases al) \<union> set rs \<and>
    length (al_heap al') = length (al_heap al) \<and> (\<forall>r \<in> set rs. loaded_as now (lm_data (al_heap al' ! r)) (lm_data (al_heap al ! r))) \<and>
    (\<forall>r. r \<notin> set rs \<longrightarrow> al_heap al' ! r = al_heap al ! r) \<and>
    al_messagesByChannel al' = al_messagesByChannel al \<and> al_kv al' = al_kv al \<and> al_store al' = al_store al \<and> al_rb al' = al_rb al \<and>
    al_addLeaseMessage al' = al_addLeaseMessage al \<and> al_alarm al' = al_alarm al"
  using assms(2)
proof (induction rs arbitrary: al)
  case Nil
  then show ?case by simp
next
  case (Cons r rs)
  let ?h = "al_heap al"
  have p: "distinct (al_leases al)" "sorted (map (al_trigger al) (al_leases al))" "distinct (r # rs)" "set (r # rs) \<inter> set (al_leases al) = {}"
    "\<And>q. q \<in> set (r # rs) \<union> set (al_leases al) \<Longrightarrow> q < length ?h" "\<And>q. q \<in> set (al_leases al) \<Longrightarrow> lm_e (?h ! q) = Some q"
    using Cons.prems unfolding lease_part_def by blast+
  have rl: "r < length ?h" "r \<notin> set (al_leases al)" using p(4,5) by auto
  obtain rng lm where lm: "reschedule draw now al r = Inr (al\<lparr>al_rng := rng, al_heap := ?h[r := lm]\<rparr>)"
    "loaded_as now (lm_data lm) (lm_data (?h ! r))" using reschedule_spec [OF assms(1) rl(1)] by blast
  let ?h1 = "?h[r := lm\<lparr>lm_e := Some r\<rparr>]"
  define al1 where "al1 = al\<lparr>al_rng := rng, al_leases := ins_ord (\<lambda>q. lm_LeaseTrigger (?h[r := lm] ! q)) r (al_leases al), al_heap := ?h1\<rparr>"
  have ll: "load_leases draw now al (r # rs) = load_leases draw now al1 rs"
    using rl(1) by (simp add: lm(1) insertLease_ins Let_def al1_def)
  have tr: "al_trigger al1 q = lm_LeaseTrigger (?h[r := lm] ! q)" for q
    using rl(1) by (cases "q = r") (simp_all add: al1_def)
  have m: "map (\<lambda>q. lm_LeaseTrigger (?h[r := lm] ! q)) (al_leases al) = map (al_trigger al) (al_leases al)"
    using rl(2) by (intro map_cong refl, metis nth_list_update_neq)
  have "sorted (map (al_trigger al1) (al_leases al1))"
  proof -
    have "map (al_trigger al1) (al_leases al1) = map (\<lambda>q. lm_LeaseTrigger (?h[r := lm] ! q)) (al_leases al1)" using tr by simp
    moreover have "al_leases al1 = ins_ord (\<lambda>q. lm_LeaseTrigger (?h[r := lm] ! q)) r (al_leases al)" by (simp add: al1_def)
    moreover have "sorted (map (\<lambda>q. lm_LeaseTrigger (?h[r := lm] ! q)) (al_leases al))" unfolding m by (rule p(2))
    ultimately show ?thesis using sorted_ins_ord by metis
  qed
  moreover have "distinct (al_leases al1)" unfolding al1_def by (simp add: distinct_ins_ord [OF p(1) rl(2)])
  moreover have "lm_e (al_heap al1 ! q) = Some q" if "q \<in> set (al_leases al1)" for q
    using that p(6) rl by (cases "q = r") (simp_all add: al1_def)
  ultimately have "lease_part al1 rs" using p(3,4,5) unfolding lease_part_def by (auto simp: al1_def)
  from Cons.IH [OF this] obtain al' where
    a: "load_leases draw now al1 rs = Inr al'" "lease_part al' []" "set (al_leases al') = set (al_leases al1) \<union> set rs"
    "length (al_heap al') = length (al_heap al1)" "\<forall>r \<in> set rs. loaded_as now (lm_data (al_heap al' ! r)) (lm_data (al_heap al1 ! r))"
    "\<forall>r. r \<notin> set rs \<longrightarrow> al_heap al' ! r = al_heap al1 ! r"
    "al_messagesByChannel al' = al_messagesByChannel al1" "al_kv al' = al_kv al1" "al_store al' = al_store al1" "al_rb al' = al_rb al1"
    "al_addLeaseMessage al' = al_addLeaseMessage al1" "al_alarm al' = al_alarm al1" by blast
  have "loaded_as now (lm_data (al_heap al' ! q)) (lm_data (?h ! q))" if q: "q \<in> set (r # rs)" for q
  proof (cases "q = r")
    case True
    have "al_heap al' ! r = lm\<lparr>lm_e := Some r\<rparr>" using a(6) p(3) rl(1) by (simp add: al1_def)
    then show ?thesis using lm(2) True by (simp add: lm_data_def leaseData.defs)
  next
    case False
    then show ?thesis using a(5) q by (auto simp: al1_def)
  qed
  moreover have "al_heap al' ! q = ?h ! q" if "q \<notin> set (r # rs)" for q using a(6) that by (simp add: al1_def)
  ultimately show ?case unfolding ll using a by (auto simp: al1_def)
qed

lemma distinct_map_filter_inj:
  assumes "distinct xs" "\<And>x y z. f x = Some z \<Longrightarrow> f y = Some z \<Longrightarrow> x = y"
  shows "distinct (List.map_filter f xs)"
  using assms(1)
proof (induction xs)
  case (Cons x xs)
  then show ?case using assms(2) by (cases "f x") (auto simp: set_map_filter_some)
qed simp

lemma zip_refs:
  fixes n :: nat
  assumes "distinct ks" "length ks = m" "id_order sord"
  defines "zs \<equiv> zip ks [n..<n + m]"
  shows "map_of zs k = Some r \<longleftrightarrow> (\<exists>i < m. k = ks ! i \<and> r = n + i)" "map fst zs = ks" "distinct (map fst zs)"
    "set (List.map_filter (map_of zs) (sord ks)) = {n..<n + m}" "distinct (List.map_filter (map_of zs) (sord ks))"
proof -
  show f: "map fst zs = ks" by (simp add: zs_def assms(2))
  then show d: "distinct (map fst zs)" using assms(1) by simp
  show mo: "map_of zs k = Some r \<longleftrightarrow> (\<exists>i < m. k = ks ! i \<and> r = n + i)" for k r
  proof -
    have "map_of zs k = Some r \<longleftrightarrow> (k, r) \<in> set zs" by (rule map_of_eq_Some_iff [OF d])
    also have "\<dots> \<longleftrightarrow> (\<exists>i < m. k = ks ! i \<and> r = n + i)" using assms(2) by (auto simp: zs_def set_zip)
    finally show ?thesis .
  qed
  show "set (List.map_filter (map_of zs) (sord ks)) = {n..<n + m}"
  proof -
    have "r \<in> {n..<n + m} \<longleftrightarrow> (\<exists>k \<in> set ks. map_of zs k = Some r)" for r
    proof
      assume "r \<in> {n..<n + m}"
      then have "r - n < m" "r = n + (r - n)" by auto
      then have "map_of zs (ks ! (r - n)) = Some r" "ks ! (r - n) \<in> set ks" unfolding mo using assms(2) by auto
      then show "\<exists>k \<in> set ks. map_of zs k = Some r" by blast
    qed (auto simp: mo)
    then show ?thesis unfolding set_map_filter_some id_orderD(1) [OF assms(3)] by blast
  qed
  have "x = y" if "map_of zs x = Some z" "map_of zs y = Some z" for x y z using that unfolding mo by auto
  then show "distinct (List.map_filter (map_of zs) (sord ks))"
    by (rule distinct_map_filter_inj [OF id_orderD(2) [OF assms(3,1)]])
qed

lemma loaded_data [simp]: "lm_data (lm_loaded d) = d" "lm_key C (lm_loaded d) = lm_key C d" "lm_ChannelID (lm_loaded d) = lm_ChannelID d"
  by (cases d, simp add: lm_data_def lm_loaded_def leaseData.defs leaseMessage.defs lm_key_def)+

lemma load_channel:
  fixes al :: "('h, 's) ActionLeaseList"
  assumes "draws_in_range draw" "id_order sord" "al_ok C al" "map_of (al_messagesByChannel al) cid = None" "ms \<noteq> []" "distinct (map fst ms)"
    and "\<And>k d. (k, d) \<in> set ms \<Longrightarrow> lm_ChannelID d = cid \<and> lm_key C d = k"
  defines "al1 \<equiv> load_objects al cid ms"
  defines "ms1 \<equiv> lay_messages (al_messagesByChannel al1) cid"
  shows "\<exists>al2. load_leases draw now al1 (List.map_filter (map_of ms1) (sord (map fst ms1))) = Inr al2 \<and> al_ok C al2 \<and>
    (\<forall>d. d \<noteq> cid \<longrightarrow> map_of (al_view al2) d = map_of (al_view al) d \<and> map_of (al_messagesByChannel al2) d = map_of (al_messagesByChannel al) d) \<and>
    (\<exists>vs. map_of (al_view al2) cid = Some vs \<and> list_all2 (same_entry (loaded_as now)) vs ms) \<and> al_kv al2 = al_kv al \<and> al_store al2 = al_store al \<and>
    al_rb al2 = al_rb al \<and> al_addLeaseMessage al2 = al_addLeaseMessage al \<and> al_alarm al2 = al_alarm al"
proof -
  note o = al_okD [OF assms(3)]
  define n where "n = length (al_heap al)"
  define m where "m = length ms"
  let ?zs = "zip (map fst ms) [n..<n + m]"
  have zs: "ms1 = ?zs" by (simp add: ms1_def al1_def load_objects_def lay_messages_def update_conv' n_def m_def Let_def)
  note z = zip_refs [OF assms(6) _ assms(2), of m n]
  have zl: "length (map fst ms) = m" by (simp add: m_def)
  define rs where "rs = List.map_filter (map_of ms1) (sord (map fst ms1))"
  have rs: "set rs = {n..<n + m}" "distinct rs" using z(4,5) [OF zl] by (simp_all add: rs_def zs z(2) [OF zl])
  have h1: "al_heap al1 = al_heap al @ map (\<lambda>(k, d). lm_loaded d) ms" "al_leases al1 = al_leases al"
    "al_messagesByChannel al1 = AList.update cid ?zs (al_messagesByChannel al)"
    "al_kv al1 = al_kv al" "al_store al1 = al_store al" "al_rb al1 = al_rb al" "al_addLeaseMessage al1 = al_addLeaseMessage al" "al_alarm al1 = al_alarm al"
    by (simp_all add: al1_def load_objects_def n_def m_def Let_def)
  have old: "q < n" if "q \<in> set (al_leases al)" for q using that o(2,4) by (auto simp: n_def)
  have ho: "al_heap al1 ! q = al_heap al ! q" if "q < n" for q using that by (simp add: h1 nth_append n_def)
  have hn: "al_heap al1 ! (n + i) = lm_loaded (snd (ms ! i))" if "i < m" for i
    using that by (simp add: h1 nth_append n_def m_def case_prod_beta)
  have "lease_part al1 rs"
  proof -
    have "map (al_trigger al1) (al_leases al) = map (al_trigger al) (al_leases al)" using old ho by (intro map_cong) auto
    with o(5) have "sorted (map (al_trigger al1) (al_leases al))" by (simp only:)
    moreover have "lm_e (al_heap al1 ! q) = Some q" if "q \<in> set (al_leases al)" for q
      using that o(2,4) ho [OF old [OF that]] by auto
    moreover have "set rs \<inter> set (al_leases al) = {}" using old rs(1) by fastforce
    moreover have "q < length (al_heap al1)" if "q \<in> set rs \<union> set (al_leases al)" for q
      using that old [of q] rs(1) by (auto simp: h1(1) n_def m_def)
    ultimately show ?thesis unfolding lease_part_def h1(2) using o(3) rs(2) by blast
  qed
  from load_leases_spec [OF assms(1) this, of now] obtain al2 where
    a: "load_leases draw now al1 rs = Inr al2" "lease_part al2 []" "set (al_leases al2) = set (al_leases al1) \<union> set rs"
    "length (al_heap al2) = length (al_heap al1)" "\<forall>r \<in> set rs. loaded_as now (lm_data (al_heap al2 ! r)) (lm_data (al_heap al1 ! r))"
    "\<forall>r. r \<notin> set rs \<longrightarrow> al_heap al2 ! r = al_heap al1 ! r" "al_messagesByChannel al2 = al_messagesByChannel al1" "al_kv al2 = al_kv al1"
    "al_store al2 = al_store al1" "al_rb al2 = al_rb al1" "al_addLeaseMessage al2 = al_addLeaseMessage al1" "al_alarm al2 = al_alarm al1" by blast
  have l2: "al_lookup al2 d k = (if d = cid then map_of ?zs k else al_lookup al d k)" for d k
    by (simp add: al_lookup_def lay_messages_def a(7) h1(3) update_conv' del: map_of_eq_Some_iff)
  have sm: "loaded_as now (lm_data (al_heap al2 ! (n + i))) (snd (ms ! i))" if "i < m" for i
  proof -
    have "n + i \<in> set rs" using that rs(1) by simp
    then have "loaded_as now (lm_data (al_heap al2 ! (n + i))) (lm_data (al_heap al1 ! (n + i)))" using a(5) by blast
    then show ?thesis unfolding hn [OF that] by simp
  qed
  have same: "al_heap al2 ! r = al_heap al ! r" if "r < n" for r using that a(6) rs(1) ho by auto
  have e: "lm_e (al_heap al2 ! r) = Some r" if "r \<in> set (al_leases al2)" for r using a(2) that by (simp add: lease_part_def)
  have len: "length (al_heap al2) = n + m" by (simp add: a(4) h1(1) n_def m_def)
  have "al_ok C al2"
  proof (rule al_okI)
    show "wf_map (al_messagesByChannel al2)"
      unfolding a(7) h1(3) by (rule wf_map_update [OF o(1) _ z(3) [OF zl]]) (use assms(5) in \<open>auto simp: m_def zip_eq_Nil_iff\<close>)
    show "distinct (al_leases al2)" "sorted (map (al_trigger al2) (al_leases al2))" using a(2) by (simp_all add: lease_part_def)
    show "set (al_leases al2) = {r. \<exists>c k. al_lookup al2 c k = Some r}"
    proof (intro set_eqI iffI)
      fix r assume "r \<in> set (al_leases al2)"
      then consider "r \<in> set (al_leases al)" | "r \<in> {n..<n + m}" using a(3) h1(2) rs(1) by auto
      then show "r \<in> {r. \<exists>c k. al_lookup al2 c k = Some r}"
      proof cases
        case 1
        then obtain d k where d: "al_lookup al d k = Some r" using o(4) by blast
        then have "d \<noteq> cid" using assms(4) by (auto simp: al_lookup_def lay_messages_def)
        with d have "al_lookup al2 d k = Some r" by (simp add: l2)
        then show ?thesis by blast
      next
        case 2
        then have "r - n < m" "r = n + (r - n)" by auto
        then have "al_lookup al2 cid (map fst ms ! (r - n)) = Some r" unfolding l2 using z(1) [OF zl] by auto
        then show ?thesis by blast
      qed
    next
      fix r assume "r \<in> {r. \<exists>c k. al_lookup al2 c k = Some r}"
      then obtain d k where d: "al_lookup al2 d k = Some r" by blast
      show "r \<in> set (al_leases al2)"
      proof (cases "d = cid")
        case True
        with d obtain i where "i < m" "r = n + i" unfolding l2 using z(1) [OF zl] by auto
        then show ?thesis using a(3) rs(1) by auto
      next
        case False
        with d have "al_lookup al d k = Some r" by (simp add: l2)
        then have "r \<in> set (al_leases al)" using o(4) by blast
        then show ?thesis using a(3) h1(2) by auto
      qed
    qed
    then have mem: "r \<in> set (al_leases al2)" if "al_lookup al2 d k = Some r" for d k r using that by blast
    show "r < length (al_heap al2) \<and> lm_ChannelID (al_heap al2 ! r) = d \<and> lm_key C (al_heap al2 ! r) = k \<and> lm_e (al_heap al2 ! r) = Some r"
      if l: "al_lookup al2 d k = Some r" for d k r
    proof (cases "d = cid")
      case True
      with l obtain i where i: "i < m" "k = fst (ms ! i)" "r = n + i" unfolding l2 using z(1) [OF zl] by (auto simp: m_def)
      have "ms ! i \<in> set ms" using i(1) by (simp add: m_def)
      then have "lm_ChannelID (snd (ms ! i)) = cid" "lm_key C (snd (ms ! i)) = k" using assms(7) [of "fst (ms ! i)" "snd (ms ! i)"] i(2) by simp_all
      with loaded_sel(1) [OF sm [OF i(1)]] loaded_sel(2) [OF sm [OF i(1)], of C] show ?thesis using True i e [OF mem [OF l]] len by simp
    next
      case False
      with l have "al_lookup al d k = Some r" by (simp add: l2)
      from o(2) [OF this] show ?thesis using same [of r] e [OF mem [OF l]] len by (simp add: n_def)
    qed
  qed
  moreover have "map_of (al_messagesByChannel al2) d = map_of (al_messagesByChannel al) d" if "d \<noteq> cid" for d
    using that by (simp add: a(7) h1(3) update_conv' del: map_of_eq_Some_iff)
  moreover have "map_of (al_view al2) d = map_of (al_view al) d" if "d \<noteq> cid" for d
    by (rule view_same [OF assms(3) calculation(2) [OF that]]) (use same o(2) in \<open>auto simp: n_def\<close>)
  moreover have "\<exists>vs. map_of (al_view al2) cid = Some vs \<and> list_all2 (same_entry (loaded_as now)) vs ms"
  proof -
    have "map_of (al_view al2) cid = Some (map (\<lambda>(k, r). (k, lm_data (al_heap al2 ! r))) ?zs)"
      by (simp add: map_of_view a(7) h1(3) update_conv')
    moreover have "list_all2 (same_entry (loaded_as now)) (map (\<lambda>(k, r). (k, lm_data (al_heap al2 ! r))) ?zs) ms"
      using sm by (auto simp: list_all2_conv_all_nth m_def same_entry_def)
    ultimately show ?thesis by blast
  qed
  ultimately show ?thesis using a(1,8-12) h1(4-8) unfolding rs_def by (intro exI [of _ al2]) simp
qed

lemma same_entries_fst: "list_all2 (same_entry R) vs ms \<Longrightarrow> map fst vs = map fst ms"
  by (induction rule: list_all2_induct) (auto simp: same_entry_def)

lemma same_entries_lookup: "list_all2 (same_entry R) vs ms \<Longrightarrow> rel_option R (map_of vs k) (map_of ms k)"
  by (induction rule: list_all2_induct) (auto simp: same_entry_def)

lemma abs_view: "al_abs al c k = map_of (lay_messages (al_view al) c) k"
proof (cases "map_of (al_messagesByChannel al) c")
  case (Some ms)
  have "map_of (map (\<lambda>(k, r). (k, lm_data (al_heap al ! r))) ms) k = map_option (\<lambda>r. lm_data (al_heap al ! r)) (map_of ms k)"
    by (induction ms) auto
  with Some show ?thesis by (simp add: al_abs_def al_lookup_def lay_messages_def map_of_view)
qed (simp add: al_abs_def al_lookup_def lay_messages_def map_of_view)

lemma matched_lookup:
  assumes "matched R (al_view al) s"
  shows "rel_option R (al_abs al c k) (map_of (lay_messages s c) k)"
  using assms [unfolded matched_def, rule_format, of c] same_entries_lookup
  by (cases "map_of (al_view al) c"; cases "map_of s c") (simp_all add: abs_view lay_messages_def del: map_of_eq_Some_iff)

lemma matched_mono: "matched R m s \<Longrightarrow> (\<And>d e. R d e \<Longrightarrow> Q d e) \<Longrightarrow> matched Q m s"
proof -
  assume m: "matched R m s" and q: "\<And>d e. R d e \<Longrightarrow> Q d e"
  have "list_all2 (same_entry Q) xs ys" if "list_all2 (same_entry R) xs ys" for xs ys
    by (rule list_all2_mono [OF that]) (simp add: same_entry_def q)
  with m show "matched Q m s" unfolding matched_def by (metis option.rel_mono_strong)
qed

text \<open>The entries that are stored for a channel.\<close>

definition entries_ok :: "'r chan_libs \<Rightarrow> bytes \<Rightarrow> (string \<times> leaseData) list \<Rightarrow> bool" where
  "entries_ok C c ms = (ms \<noteq> [] \<and> distinct (map fst ms) \<and> (\<forall>(k, d) \<in> set ms. lm_ChannelID d = c \<and> lm_key C d = k))"

lemma stored_entries:
  assumes "al_ok C al" "matched (same_lease ld) (al_view al) s" "map_of s c = Some ms"
  shows "entries_ok C c ms"
proof -
  obtain vs where vs: "map_of (al_view al) c = Some vs" "list_all2 (same_entry (same_lease ld)) vs ms"
    using assms(2) [unfolded matched_def, rule_format, of c] assms(3) by (auto simp: option_rel_Some2 simp del: map_of_eq_Some_iff)
  then obtain rs where rs: "map_of (al_messagesByChannel al) c = Some rs" "vs = map (\<lambda>(k, r). (k, lm_data (al_heap al ! r))) rs"
    by (auto simp: map_of_view simp del: map_of_eq_Some_iff)
  note w = wf_mapD [OF al_okD(1) [OF assms(1)] rs(1)]
  have f: "map fst vs = map fst rs" by (auto simp: rs(2))
  have "lm_ChannelID d = c \<and> lm_key C d = k" if "(k, d) \<in> set ms" for k d
  proof -
    from that vs(2) obtain x where x: "x \<in> set vs" "same_entry (same_lease ld) x (k, d)" by (metis list_all2_conv_all_nth in_set_conv_nth)
    then obtain r where r: "(k, r) \<in> set rs" "same_lease ld (lm_data (al_heap al ! r)) d" by (auto simp: rs(2) same_entry_def)
    then have "al_lookup al c k = Some r" using w rs(1) by (simp add: al_lookup_def lay_messages_def)
    from al_okD(2) [OF assms(1) this] same_lease_sel(1) [OF r(2)] same_lease_sel(2) [OF r(2), of C] show ?thesis by simp
  qed
  moreover have "ms \<noteq> []" using w vs(2) rs(2) by auto
  moreover have "distinct (map fst ms)" using w same_entries_fst [OF vs(2)] f by simp
  ultimately show ?thesis unfolding entries_ok_def by blast
qed

lemma load_loop_spec:
  fixes al :: "('h, 's) ActionLeaseList"
  assumes "draws_in_range draw" "id_order sord" "al_ok C al" "distinct cids"
    and "\<And>c. c \<in> set cids \<Longrightarrow> map_of (al_messagesByChannel al) c = None"
    and "\<And>c. c \<in> set cids \<Longrightarrow> \<exists>ms. map_of s c = Some ms \<and> lay_loadMessages (lease_layout (cl_id C)) K w (al_kv al) c = Inr ms \<and> entries_ok C c ms"
  shows "\<exists>al'. al_load_loop C draw sord K w now al cids = Inr (None, al') \<and> al_ok C al' \<and>
    (\<forall>d. if d \<in> set cids then rel_option (list_all2 (same_entry (loaded_as now))) (map_of (al_view al') d) (map_of s d) else map_of (al_view al') d = map_of (al_view al) d) \<and>
    al_kv al' = al_kv al \<and> al_store al' = al_store al \<and> al_rb al' = al_rb al \<and> al_addLeaseMessage al' = al_addLeaseMessage al \<and> al_alarm al' = al_alarm al"
  using assms(3-6)
proof (induction cids arbitrary: al)
  case Nil
  then show ?case by simp
next
  case (Cons c cids)
  from Cons.prems(4) [of c] obtain ms where ms: "map_of s c = Some ms" "lay_loadMessages (lease_layout (cl_id C)) K w (al_kv al) c = Inr ms"
    "entries_ok C c ms" by (auto simp del: map_of_eq_Some_iff)
  have e: "ms \<noteq> []" "distinct (map fst ms)" "\<And>k d. (k, d) \<in> set ms \<Longrightarrow> lm_ChannelID d = c \<and> lm_key C d = k"
    using ms(3) unfolding entries_ok_def by auto
  from load_channel [OF assms(1,2) Cons.prems(1) Cons.prems(3) [of c] e, of now] obtain al2 vs where
    a: "load_leases draw now (load_objects al c ms) (List.map_filter (map_of (lay_messages (al_messagesByChannel (load_objects al c ms)) c))
        (sord (map fst (lay_messages (al_messagesByChannel (load_objects al c ms)) c)))) = Inr al2" "al_ok C al2"
    "\<And>d. d \<noteq> c \<Longrightarrow> map_of (al_view al2) d = map_of (al_view al) d"
    "\<And>d. d \<noteq> c \<Longrightarrow> map_of (al_messagesByChannel al2) d = map_of (al_messagesByChannel al) d"
    "map_of (al_view al2) c = Some vs" "list_all2 (same_entry (loaded_as now)) vs ms" "al_kv al2 = al_kv al" "al_store al2 = al_store al"
    "al_rb al2 = al_rb al" "al_addLeaseMessage al2 = al_addLeaseMessage al" "al_alarm al2 = al_alarm al"
    by (auto simp del: map_of_eq_Some_iff)
  have n: "map_of (al_messagesByChannel al2) d = None" if "d \<in> set cids" for d
    using that Cons.prems(2,3) a(4) [of d] by (metis distinct.simps(2) list.set_intros(2))
  have l: "\<exists>ms. map_of s d = Some ms \<and> lay_loadMessages (lease_layout (cl_id C)) K w (al_kv al2) d = Inr ms \<and> entries_ok C d ms"
    if "d \<in> set cids" for d using Cons.prems(4) [of d] that unfolding a(7) by (simp del: map_of_eq_Some_iff)
  have dc: "distinct cids" using Cons.prems(2) by simp
  from Cons.IH [OF a(2) dc n l] obtain al' where
    b: "al_load_loop C draw sord K w now al2 cids = Inr (None, al')" "al_ok C al'"
    "\<And>d. if d \<in> set cids then rel_option (list_all2 (same_entry (loaded_as now))) (map_of (al_view al') d) (map_of s d) else map_of (al_view al') d = map_of (al_view al2) d"
    "al_kv al' = al_kv al2" "al_store al' = al_store al2" "al_rb al' = al_rb al2" "al_addLeaseMessage al' = al_addLeaseMessage al2"
    "al_alarm al' = al_alarm al2" by blast
  have "if d \<in> set (c # cids) then rel_option (list_all2 (same_entry (loaded_as now))) (map_of (al_view al') d) (map_of s d)
    else map_of (al_view al') d = map_of (al_view al) d" for d
    using b(3) [of d] a(3) [of d] a(5,6) ms(1) Cons.prems(2) by (cases "d = c") (auto simp del: map_of_eq_Some_iff)
  moreover have "al_load_loop C draw sord K w now al (c # cids) = Inr (None, al')"
    using ms(2) a(1) b(1) by (simp add: Let_def)
  ultimately show ?case using b(2,4-8) a(7-11) by auto
qed

subsection \<open>Restarts\<close>

lemma NewActionLeaseList_eq:
  assumes "KV_Prefix K kv replayBlockerStoragePrefix = Inr kv1"
  shows "NewActionLeaseList K store kv rng =
    Inr \<lparr>al_heap = [], al_leases = [], al_messagesByChannel = [], al_addLeaseMessage = [], al_removeLeaseMessage = [],
         al_removeChannelCh = [], al_replays = [], al_rb = \<lparr>rb_commandsByChannel = [], rb_store = store, rb_kv = kv1\<rparr>,
         al_store = store, al_kv = kv, al_rng = rng, al_alarm = None\<rparr>"
  by (simp add: NewActionLeaseList_def newReplayBlocker_def assms)

lemma newest_load:
  assumes "newOrLoadReplayBlocker C K w store kv = Inr (Inr rb)" "KV_Prefix K kv replayBlockerStoragePrefix = Inr kv1"
  shows "\<exists>e. rb_load C K w \<lparr>rb_commandsByChannel = [], rb_store = store, rb_kv = kv1\<rparr> = (e, rb) \<and> (\<forall>x. e = Some x \<longrightarrow> \<not> Exists x)"
  using assms by (auto simp: newOrLoadReplayBlocker_def newReplayBlocker_def split: prod.splits option.splits if_splits)

context chan_codecs
begin

lemma load_spec:
  assumes "draws_in_range draw" "id_order sord" "al_kv al0 = kv" "al_heap al0 = []" "al_leases al0 = []" "al_messagesByChannel al0 = []"
    and "chan_kept (cl_id C) (lease_layout (cl_id C)) K w kv s" "\<And>c ms. map_of s c = Some ms \<Longrightarrow> entries_ok C c ms"
  shows "\<exists>e al'. al_load C draw sord K w al0 now = Inr (e, al') \<and> (e = None \<or> e = Some KeyNotFound) \<and> al_ok C al' \<and>
    matched (loaded_as now) (al_view al') s \<and> al_kv al' = kv \<and> al_store al' = al_store al0 \<and> al_rb al' = al_rb al0 \<and>
    al_addLeaseMessage al' = al_addLeaseMessage al0 \<and> al_alarm al' = al_alarm al0"
proof -
  have ok0: "al_ok C al0" by (rule al_okI) (simp_all add: assms(4-6) wf_map_def al_lookup_def lay_messages_def)
  have v0: "map_of (al_view al0) d = None" for d by (simp add: map_of_view assms(6))
  note k = chan_keptD [OF assms(7)]
  consider cids where "lay_loadChannels (cl_id C) (lease_layout (cl_id C)) K w kv = Inr cids" "set cids = dom (map_of s)" "distinct cids"
    | "s = []" "lay_loadChannels (cl_id C) (lease_layout (cl_id C)) K w kv = Inl KeyNotFound" using k(3) by blast
  then show ?thesis
  proof cases
    case 1
    have "\<exists>ms. map_of s c = Some ms \<and> lay_loadMessages (lease_layout (cl_id C)) K w (al_kv al0) c = Inr ms \<and> entries_ok C c ms"
      if c: "c \<in> set cids" for c
    proof -
      obtain ms where "map_of s c = Some ms" using c 1(2) by (auto simp del: map_of_eq_Some_iff)
      with k(2) [OF this] assms(8) [OF this] show ?thesis by (simp add: assms(3))
    qed
    from load_loop_spec [OF assms(1,2) ok0 1(3) _ this, of now] obtain al' where
      a: "al_load_loop C draw sord K w now al0 cids = Inr (None, al')" "al_ok C al'"
      "\<And>d. if d \<in> set cids then rel_option (list_all2 (same_entry (loaded_as now))) (map_of (al_view al') d) (map_of s d)
        else map_of (al_view al') d = map_of (al_view al0) d"
      "al_kv al' = al_kv al0" "al_store al' = al_store al0" "al_rb al' = al_rb al0" "al_addLeaseMessage al' = al_addLeaseMessage al0"
      "al_alarm al' = al_alarm al0" by (auto simp: assms(6))
    have "rel_option (list_all2 (same_entry (loaded_as now))) (map_of (al_view al') d) (map_of s d)" for d
    proof (cases "d \<in> set cids")
      case False
      then have "map_of s d = None" using 1(2) by (simp add: domIff)
      with a(3) [of d] False v0 show ?thesis by simp
    qed (use a(3) [of d] in simp)
    then have "matched (loaded_as now) (al_view al') s" unfolding matched_def by blast
    then show ?thesis using 1(1) a(1,2,4-8) by (simp add: al_load_def assms(3))
  next
    case 2
    then show ?thesis using ok0 v0 by (simp add: al_load_def assms(3) matched_def)
  qed
qed

lemma restart_spec:
  assumes "draws_in_range draw" "id_order sord" "KV_Prefix K kv replayBlockerStoragePrefix = Inr kv1" "al_inv C K ld store kv kv1 al w"
  shows "\<exists>al'. NewOrLoadActionLeaseList C draw sord K w store kv rng now = Inr (Inr al') \<and> al_inv C K now store kv kv1 al' w \<and>
    (\<exists>s. chan_kept (cl_id C) (lease_layout (cl_id C)) K w kv s \<and>
      (\<forall>c k. rel_option (same_lease ld) (al_abs al c k) (map_of (lay_messages s c) k) \<and>
        rel_option (loaded_as now) (al_abs al' c k) (map_of (lay_messages s c) k))) \<and> al_addLeaseMessage al' = [] \<and> al_alarm al' = None"
proof -
  note i = al_invD [OF assms(4)]
  obtain s where s: "chan_kept (cl_id C) (lease_layout (cl_id C)) K w kv s" "matched (same_lease ld) (al_view al) s"
    using i(1,8) unfolding al_stored_def by blast
  let ?rb = "\<lparr>rb_commandsByChannel = [], rb_store = store, rb_kv = kv1\<rparr>"
  let ?al0 = "\<lparr>al_heap = [], al_leases = [], al_messagesByChannel = [], al_addLeaseMessage = [], al_removeLeaseMessage = [],
         al_removeChannelCh = [], al_replays = [], al_rb = ?rb, al_store = store, al_kv = kv, al_rng = rng, al_alarm = None\<rparr>"
  obtain e al1 where l: "al_load C draw sord K w ?al0 now = Inr (e, al1)" "e = None \<or> e = Some KeyNotFound" "al_ok C al1"
    "matched (loaded_as now) (al_view al1) s" "al_kv al1 = kv" "al_store al1 = store" "al_rb al1 = ?rb" "al_addLeaseMessage al1 = []" "al_alarm al1 = None"
    using load_spec [OF assms(1,2) _ _ _ _ s(1) stored_entries [OF i(7) s(2)], of ?al0 now] by auto
  obtain rb' where rb: "newOrLoadReplayBlocker C K w store kv = Inr (Inr rb')" "rb_inv C K store kv1 rb' w"
    using newOrLoadReplayBlocker_inv [OF assms(3) i(3)] by blast
  obtain e2 where e2: "rb_load C K w ?rb = (e2, rb')" "\<forall>x. e2 = Some x \<longrightarrow> \<not> Exists x" using newest_load [OF rb(1) assms(3)] by blast
  let ?al = "al1\<lparr>al_rb := rb'\<rparr>"
  have n: "NewOrLoadActionLeaseList C draw sord K w store kv rng now = Inr (Inr ?al)"
    using l(1,2,7) e2 by (auto simp: NewOrLoadActionLeaseList_def NewActionLeaseList_eq [OF assms(3)] Exists_def split: option.splits)
  have v: "al_view ?al = al_view al1" by (rule view_cong) simp_all
  have "al_ok C ?al" by (rule ok_cong [OF l(3)]) simp_all
  moreover have "matched (same_lease now) (al_view al1) s" by (rule matched_mono [OF l(4)]) (simp add: same_lease_def)
  ultimately have "al_inv C K now store kv kv1 ?al w"
    unfolding al_inv_def al_stored_def v using i(4-6) l(5,6) rb(2) s(1) by auto
  moreover have "rel_option (loaded_as now) (al_abs ?al c k) (map_of (lay_messages s c) k)" for c k
    by (rule matched_lookup) (simp add: v l(4))
  ultimately show ?thesis using l(8,9) n matched_lookup [OF s(2)] s(1) by (intro exI [of _ ?al]) auto
qed

end

section \<open>The runs of the lease list\<close>

text \<open>The client adds and removes leases and leaves channels, the replays of the blocker run, the thread takes its branches, the client
  restarts between these steps, and the rest of the client writes elsewhere. The number \<open>ld\<close> is the time of the last load.\<close>

inductive al_run ::
  "'r chan_libs \<Rightarrow> 's draw \<Rightarrow> ('h, 'w) KV_ops \<Rightarrow> 'h \<Rightarrow> 'h \<Rightarrow> int \<Rightarrow>
   ('h, 's) ActionLeaseList \<Rightarrow> 'w \<Rightarrow> bool" for C draw K store kv where
  al_start: "KV_Prefix K kv replayBlockerStoragePrefix = Inr kv1 \<Longrightarrow> apart K store kv1 \<Longrightarrow> apart K kv1 store \<Longrightarrow>
    apart K store kv \<Longrightarrow> apart K kv1 kv \<Longrightarrow> apart K kv kv1 \<Longrightarrow> KV_Get K kv1 w commandChannelListKey commandChannelListVer = Inl KeyNotFound \<Longrightarrow>
    KV_Get K kv w channelLeaseKey channelLeaseVer = Inl KeyNotFound \<Longrightarrow>
    NewOrLoadActionLeaseList C draw sord K w store kv rng now = Inr (Inr al) \<Longrightarrow> al_run C draw K store kv now al w"
| al_add: "al_run C draw K store kv ld al w \<Longrightarrow> id_order ord \<Longrightarrow> AddMessage C draw ord K w al now m p = Inr (r, al', w') \<Longrightarrow>
    al_run C draw K store kv ld al' w'"
| al_remove: "al_run C draw K store kv ld al w \<Longrightarrow> id_order ord \<Longrightarrow> RemoveMessage C ord K w al now m p = Inr (r, al', w') \<Longrightarrow>
    al_run C draw K store kv ld al' w'"
| al_leave: "al_run C draw K store kv ld al w \<Longrightarrow> al_run C draw K store kv ld (RemoveChannel al c) w"
| al_replay: "al_run C draw K store kv ld al w \<Longrightarrow> cm \<in> set (al_replays al) \<Longrightarrow>
    AddOrOverwrite C draw K w (al\<lparr>al_replays := remove1 cm (al_replays al)\<rparr>) now (rc_ChannelID cm) (rc_Action cm) (rc_Payload cm) = Inr (r, al') \<Longrightarrow>
    al_run C draw K store kv ld al' w"
| al_thread: "al_run C draw K store kv ld al w \<Longrightarrow> id_order ord \<Longrightarrow> id_order sord \<Longrightarrow>
    thread_iteration C draw ord sord K clk now b w al = Some (Inr (evs, al', w')) \<Longrightarrow> al_run C draw K store kv ld al' w'"
| al_restart: "al_run C draw K store kv ld al w \<Longrightarrow> id_order sord \<Longrightarrow>
    NewOrLoadActionLeaseList C draw sord K w store kv rng now = Inr (Inr al') \<Longrightarrow> al_run C draw K store kv now al' w"
| al_other: "al_run C draw K store kv ld al w \<Longrightarrow> kv_writes K hs w w' \<Longrightarrow>
    (\<And>u. u \<in> hs \<Longrightarrow> apart K u (al_kv al) \<and> apart K u (rb_kv (al_rb al))) \<Longrightarrow> al_run C draw K store kv ld al w'"

definition al_good :: "'r chan_libs \<Rightarrow> ('h, 'w) KV_ops \<Rightarrow> int \<Rightarrow> 'h \<Rightarrow> 'h \<Rightarrow> 'h \<Rightarrow> ('h, 's) ActionLeaseList \<Rightarrow> 'w \<Rightarrow> bool" where
  "al_good C K ld store kv kv1 al w = (al_inv C K ld store kv kv1 al w \<and> (\<forall>lm \<in> set (al_addLeaseMessage al). lm_e lm = None))"

lemma al_goodD: "al_good C K ld store kv kv1 al w \<Longrightarrow> al_inv C K ld store kv kv1 al w" "al_good C K ld store kv kv1 al w \<Longrightarrow> lm \<in> set (al_addLeaseMessage al) \<Longrightarrow> lm_e lm = None"
  by (simp_all add: al_good_def)

lemma al_goodI:
  assumes "al_good C K ld store kv kv1 al w" "al_inv C K ld store kv kv1 al' w'" "set (al_addLeaseMessage al') \<subseteq> set (al_addLeaseMessage al)"
  shows "al_good C K ld store kv kv1 al' w'"
  using assms unfolding al_good_def by blast

context chan_codecs
begin

lemma verifyReplay_writes:
  assumes "sets_succeed K" "deletes_succeed K" "verifyReplay C ord K w rb m p = Inr (r, c, rb', w')"
  shows "kv_writes K {rb_store rb, rb_kv rb} w w'"
proof -
  define m' where "m' = m\<lparr>cm_Nickname := [], cm_PubKey := [], cm_Codeset := 0, cm_Status := 0, cm_UserMuted := False\<rparr>"
  define w1 where "w1 = snd (SaveCommand C K w (rb_store rb) m')"
  have s: "SaveCommand C K w (rb_store rb) m' = (None, w1)"
    using assms(1) unfolding w1_def SaveCommand_def by (metis sets_succeed_def prod.collapse)
  have "kv_writes K {rb_store rb} w w1" unfolding w1_def SaveCommand_def by (rule set_writes [OF assms(1)]) simp
  then have 1: "kv_writes K {rb_store rb, rb_kv rb} w w1" by (rule kv_writes_mono) simp
  have 2: "kv_writes K {rb_store rb, rb_kv rb} w1 (snd (rb_updateStorage C ord K w1 rb1 d b))" if "rb_kv rb1 = rb_kv rb" for rb1 d b
    using kv_writes_mono [OF ids.cmd.update_writes [OF assms(1,2), of "rb_kv rb" w1]] that by (simp add: rb_updateStorage_def)
  have 3: "kv_writes K {rb_store rb, rb_kv rb} w (snd (rb_updateStorage C ord K w1 rb1 d b))" if "rb_kv rb1 = rb_kv rb" for rb1 d b
    by (rule kv_writes_trans [OF 2 [OF that] 1])
  obtain n where n: "rb_new C m p = Inr n" using assms(3) by (auto simp: verifyReplay_def Let_def res_bind_Inr_iff)
  show ?thesis
    using assms(3) s 3 unfolding verifyReplay_def Let_def n m'_def [symmetric]
    by (auto simp: kv_writes_refl case_prod_beta simp del: map_of_eq_Some_iff split: if_splits)
qed

lemma al_verify_good:
  assumes "versioned_kv K" "sets_succeed K" "deletes_succeed K" "id_order ord" "al_good C K ld store kv kv1 al w"
    and "al_verify C ord K w al m p = Inr (e, al', w')"
  shows "al_good C K ld store kv kv1 al' w'"
proof -
  note i = al_invD [OF al_goodD(1) [OF assms(5)]]
  obtain r c rb where v: "verifyReplay C ord K w (al_rb al) m p = Inr (r, c, rb, w')"
    and al': "al_heap al' = al_heap al" "al_leases al' = al_leases al" "al_messagesByChannel al' = al_messagesByChannel al" "al_rb al' = rb"
      "al_kv al' = al_kv al" "al_store al' = al_store al" "al_addLeaseMessage al' = al_addLeaseMessage al"
    using assms(6) by (auto simp: al_verify_def res_bind_Inr_iff)
  obtain n where n: "rb_new C m p = Inr n" using v by (auto simp: verifyReplay_def Let_def res_bind_Inr_iff)
  have rb: "rb_inv C K store kv1 rb w'"
    using verifyReplay_spec [OF assms(1,2,4) i(3) n refl] v i(3) by (auto split: if_splits)
  have "kv_writes K {store, kv1} w w'" using verifyReplay_writes [OF assms(2,3) v] i(3) by (simp add: rb_inv_def)
  then have "al_stored C K ld w' al" by (rule stored_frame [OF i(8)]) (use i(1,4,5) in auto)
  from stored_cong [OF this al'(5) view_cong [OF al'(1,3)]] have "al_inv C K ld store kv kv1 al' w'"
    unfolding al_inv_def using i(1,2,4-7) rb ok_cong [OF _ al'(1-3)] al'(4-6) by simp
  then show ?thesis by (rule al_goodI [OF assms(5)]) (simp add: al')
qed

lemma addToChan_good:
  assumes "al_good C K ld store kv kv1 al w"
  shows "al_good C K ld store kv kv1 (addToLeaseMessageChan al m t) w"
proof -
  have "al_inv C K ld store kv kv1 (addToLeaseMessageChan al m t) w"
    by (rule inv_cong [OF al_goodD(1) [OF assms]]) (simp_all add: addToLeaseMessageChan_def)
  with assms show ?thesis by (auto simp: al_good_def addToLeaseMessageChan_def)
qed

lemma good_cong:
  assumes "al_good C K ld store kv kv1 al w" "al_heap al' = al_heap al" "al_leases al' = al_leases al"
    "al_messagesByChannel al' = al_messagesByChannel al" "al_rb al' = al_rb al" "al_kv al' = al_kv al" "al_store al' = al_store al"
    "set (al_addLeaseMessage al') \<subseteq> set (al_addLeaseMessage al)"
  shows "al_good C K ld store kv kv1 al' w"
  by (rule al_goodI [OF assms(1) inv_cong [OF al_goodD(1) [OF assms(1)] assms(2-7)] assms(8)])

lemma AddMessage_good:
  assumes "versioned_kv K" "sets_succeed K" "deletes_succeed K" "id_order ord" "al_good C K ld store kv kv1 al w"
    and "AddMessage C draw ord K w al now m p = Inr (r, al', w')"
  shows "al_good C K ld store kv kv1 al' w'"
proof -
  obtain t rng where t: "calculateLeaseTrigger draw (al_rng al) now (cm_OriginatingTimestamp m) (cm_Lease m) = Inr (t, rng)"
    using assms(6) by (auto simp: AddMessage_def res_bind_Inr_iff)
  have g: "al_good C K ld store kv kv1 (al\<lparr>al_rng := rng\<rparr>) w" by (rule good_cong [OF assms(5)]) simp_all
  show ?thesis
  proof (cases t)
    case None
    with assms(6) t g show ?thesis by (simp add: AddMessage_def)
  next
    case (Some u)
    with assms(6) t obtain e al1 where v: "al_verify C ord K w (al\<lparr>al_rng := rng\<rparr>) m p = Inr (e, al1, w')"
      "al' = (if e = None then addToLeaseMessageChan al1 m u else al1)"
      by (auto simp: AddMessage_def res_bind_Inr_iff split: option.splits)
    note h = al_verify_good [OF assms(1-4) g v(1)]
    from h addToChan_good [OF h, of m u] show ?thesis by (simp add: v(2))
  qed
qed

lemma RemoveMessage_good:
  assumes "versioned_kv K" "sets_succeed K" "deletes_succeed K" "id_order ord" "al_good C K ld store kv kv1 al w"
    and "RemoveMessage C ord K w al now m p = Inr (r, al', w')"
  shows "al_good C K ld store kv kv1 al' w'"
proof (cases "time_Sub now (cm_OriginatingTimestamp m) \<ge> cm_Lease m")
  case True
  with assms(5,6) show ?thesis by (simp add: RemoveMessage_def)
next
  case False
  with assms(6) obtain e al1 where v: "al_verify C ord K w al m p = Inr (e, al1, w')"
    "al' = (if e = None then al1\<lparr>al_removeLeaseMessage := al_removeLeaseMessage al1 @ [(cm_ChannelID m, cm_MessageType m, cm_Content m)]\<rparr> else al1)"
    by (auto simp: RemoveMessage_def res_bind_Inr_iff split: option.splits)
  have g: "al_good C K ld store kv kv1 al1 w'" by (rule al_verify_good [OF assms(1-5) v(1)])
  show ?thesis unfolding v(2) by (rule good_cong [OF g]) simp_all
qed

lemma AddOrOverwrite_good:
  assumes "al_good C K ld store kv kv1 al w" "AddOrOverwrite C draw K w al now c a p = Inr (r, al')"
  shows "al_good C K ld store kv kv1 al' w"
proof (cases "LoadCommand C K w (al_store al) c a p")
  case (Inl e)
  with assms show ?thesis by (simp add: AddOrOverwrite_def)
next
  case (Inr cm)
  with assms(2) obtain d rng where "al' = addToLeaseMessageChan (al\<lparr>al_rng := rng\<rparr>)
      (cm\<lparr>cm_ChannelID := c, cm_MessageType := a, cm_Content := p\<rparr>) (now + d)"
    by (auto simp: AddOrOverwrite_def res_bind_Inr_iff)
  moreover have "al_good C K ld store kv kv1 (al\<lparr>al_rng := rng\<rparr>) w" by (rule good_cong [OF assms(1)]) simp_all
  ultimately show ?thesis using addToChan_good [of K ld store kv kv1 "al\<lparr>al_rng := rng\<rparr>" w] by simp
qed

lemma updateLeaseTrigger_inv:
  assumes "versioned_kv K" "sets_succeed K" "deletes_succeed K" "id_order ord" "al_inv C K ld store kv kv1 al w"
    and "updateLeaseTrigger C draw ord K w al (c, a, p) now = Inr (e, al', w')"
  shows "al_inv C K ld store kv kv1 al' w' \<and> al_addLeaseMessage al' = al_addLeaseMessage al"
proof (cases "al_lookup al c (fp_key (newCommandFingerprint C c a p))")
  case None
  then have "updateLeaseTrigger C draw ord K w al (c, a, p) now = Inr (None, al, w)"
    by (cases "map_of (al_messagesByChannel al) c") (simp_all add: updateLeaseTrigger_def al_lookup_def lay_messages_def)
  with assms(5,6) show ?thesis by simp
next
  case (Some r)
  obtain ms where "map_of (al_messagesByChannel al) c = Some ms" "map_of ms (fp_key (newCommandFingerprint C c a p)) = Some r"
    by (rule lookup_Some_map [OF Some])
  with assms(6) obtain t rng where
    "calculateLeaseTrigger draw (al_rng al) now (lm_OriginatingTimestamp (al_heap al ! r)) (lm_Lease (al_heap al ! r)) = Inr (t, rng)"
    by (auto simp: updateLeaseTrigger_def Let_def res_bind_Inr_iff)
  from updateLeaseTrigger_spec [OF assms(1-5) Some this] assms(6) show ?thesis by auto
qed

lemma update_replayed_inv:
  assumes "versioned_kv K" "sets_succeed K" "deletes_succeed K" "id_order ord"
  shows "al_inv C K ld store kv kv1 al w \<Longrightarrow> update_replayed C draw ord K w al now lms = Inr (al', w') \<Longrightarrow>
    al_inv C K ld store kv kv1 al' w' \<and> al_addLeaseMessage al' = al_addLeaseMessage al"
proof (induction lms arbitrary: al w)
  case (Cons lm lms)
  then obtain al1 w1 where s: "updateLeaseTrigger C draw ord K w al (lm_id lm) now = Inr (None, al1, w1)"
    "update_replayed C draw ord K w1 al1 now lms = Inr (al', w')"
    by (auto simp: or_panic_def res_bind_Inr_iff split: option.splits)
  from updateLeaseTrigger_inv [OF assms Cons.prems(1) s(1)] have "al_inv C K ld store kv kv1 al1 w1" "al_addLeaseMessage al1 = al_addLeaseMessage al" by simp_all
  with Cons.IH [OF this(1) s(2)] show ?case by simp
qed simp

lemma thread_round_good:
  assumes "versioned_kv K" "sets_succeed K" "deletes_succeed K" "id_order ord" "al_good C K ld store kv kv1 al w"
    and "thread_round C draw ord K clk now w al = Inr (evs, al', w')"
  shows "al_good C K ld store kv kv1 al' w'"
proof -
  obtain rem upd evs1 e where s: "scan_leases C K w (al_store al) (al_heap al) clk 0 (al_leases al) = (rem, upd, evs1, e)" by (metis prod.collapse)
  let ?al = "al\<lparr>al_alarm := map_option (al_trigger al) e\<rparr>"
  obtain al2 w2 where r: "remove_expired C ord K w ?al rem = Inr (al2, w2)" "update_replayed C draw ord K w2 al2 now upd = Inr (al', w')"
    using assms(6) s by (auto simp: thread_round_def res_bind_Inr_iff)
  have "al_inv C K ld store kv kv1 ?al w" by (rule inv_cong [OF al_goodD(1) [OF assms(5)]]) simp_all
  from remove_expired_spec [OF assms(1-4) this, of rem] r(1) have "al_inv C K ld store kv kv1 al2 w2" "al_addLeaseMessage al2 = al_addLeaseMessage al" by auto
  with update_replayed_inv [OF assms(1-4) this(1) r(2)] show ?thesis by (intro al_goodI [OF assms(5)]) simp_all
qed

lemma thread_select_good:
  assumes "versioned_kv K" "sets_succeed K" "deletes_succeed K" "id_order ord" "id_order sord" "al_good C K ld store kv kv1 al w"
    and "thread_select C ord sord K b w al = Some (Inr (al', w'))"
  shows "al_good C K ld store kv kv1 al' w'"
proof (cases b)
  case AddCase
  with assms(7) obtain lm q where q: "al_addLeaseMessage al = lm # q" "addMessage C ord K w (al\<lparr>al_addLeaseMessage := q\<rparr>) lm = Inr (None, al', w')"
    by (auto simp: thread_select_def or_panic_def res_bind_Inr_iff split: list.splits option.splits)
  let ?al = "al\<lparr>al_addLeaseMessage := q\<rparr>"
  have g: "al_good C K ld store kv kv1 ?al w" by (rule good_cong [OF assms(6)]) (auto simp: q(1))
  show ?thesis
  proof (cases "al_lookup ?al (lm_ChannelID lm) (lm_key C lm)")
    case None
    from addMessage_new [OF assms(1,2,4) al_goodD(1) [OF g] None] q(2) show ?thesis by (intro al_goodI [OF g]) auto
  next
    case (Some r)
    have "lm_e lm = None" using al_goodD(2) [OF assms(6)] q(1) by simp
    from addMessage_again [OF Some this, of ord K w] q(2) show ?thesis by simp
  qed
next
  case RemoveCase
  with assms(7) obtain lm q where q: "removeMessage C ord K w (al\<lparr>al_removeLeaseMessage := q\<rparr>) lm False = Inr (None, al', w')"
    by (auto simp: thread_select_def or_panic_def res_bind_Inr_iff split: list.splits option.splits)
  let ?al = "al\<lparr>al_removeLeaseMessage := q\<rparr>"
  have g: "al_good C K ld store kv kv1 ?al w" by (rule good_cong [OF assms(6)]) auto
  obtain c a p where lm: "lm = (c, a, p)" by (metis prod.collapse)
  from removeMessage_spec [OF assms(1-4) al_goodD(1) [OF g], of c a p False] q show ?thesis by (intro al_goodI [OF g]) (auto simp: lm)
next
  case ChannelCase
  with assms(7) obtain c q where q: "al_removeChannel C ord sord K w (al\<lparr>al_removeChannelCh := q\<rparr>) c = Inr (None, al', w')"
    by (auto simp: thread_select_def or_panic_def res_bind_Inr_iff split: list.splits option.splits)
  let ?al = "al\<lparr>al_removeChannelCh := q\<rparr>"
  have g: "al_good C K ld store kv kv1 ?al w" by (rule good_cong [OF assms(6)]) auto
  from removeChannel_spec [OF assms(1-5) al_goodD(1) [OF g], of c] q show ?thesis by (intro al_goodI [OF g]) auto
next
  case TimerCase
  with assms(6,7) show ?thesis by (auto simp: thread_select_def split: if_splits)
qed

end

context chan_codecs
begin

lemma al_run_good:
  assumes "versioned_kv K" "sets_succeed K" "deletes_succeed K" "draws_in_range draw"
  shows "al_run C draw K store kv ld al w \<Longrightarrow> \<exists>kv1. KV_Prefix K kv replayBlockerStoragePrefix = Inr kv1 \<and> al_good C K ld store kv kv1 al w"
proof (induction rule: al_run.induct)
  case (al_start kv1 w sord rng now al)
  let ?rb = "\<lparr>rb_commandsByChannel = [], rb_store = store, rb_kv = kv1\<rparr>"
  have l: "lay_loadChannels (cl_id C) (command_layout (cl_id C)) K w kv1 = Inl KeyNotFound"
    using al_start(7) by (simp add: lay_loadChannels_def command_layout_def)
  have l2: "lay_loadChannels (cl_id C) (lease_layout (cl_id C)) K w kv = Inl KeyNotFound"
    using al_start(8) by (simp add: lay_loadChannels_def lease_layout_def)
  have al: "al = \<lparr>al_heap = [], al_leases = [], al_messagesByChannel = [], al_addLeaseMessage = [], al_removeLeaseMessage = [],
         al_removeChannelCh = [], al_replays = [], al_rb = ?rb, al_store = store, al_kv = kv, al_rng = rng, al_alarm = None\<rparr>"
    using al_start(9) l l2 by (simp add: NewOrLoadActionLeaseList_def NewActionLeaseList_eq [OF al_start(1)] al_load_def Exists_def rb_load_def lay_load_def)
  have "al_ok C al" by (rule al_okI) (simp_all add: al wf_map_def al_lookup_def lay_messages_def)
  moreover have "rb_inv C K store kv1 ?rb w" using l al_start(2,3) by (simp add: rb_inv_def chan_kept_def)
  moreover have "al_stored C K now w al" using l2 by (auto simp: al_stored_def al al_view_def chan_kept_def matched_def intro!: exI [of _ "[]"])
  ultimately have "al_good C K now store kv kv1 al w" using al_start(4-6) by (simp add: al_good_def al_inv_def al)
  with al_start(1) show ?case by blast
next
  case (al_add ld al w ord now m p r al' w')
  then show ?case using AddMessage_good [OF assms(1-3)] by blast
next
  case (al_remove ld al w ord now m p r al' w')
  then show ?case using RemoveMessage_good [OF assms(1-3)] by blast
next
  case (al_leave ld al w c)
  then obtain kv1 where k: "KV_Prefix K kv replayBlockerStoragePrefix = Inr kv1" "al_good C K ld store kv kv1 al w" by blast
  have "al_good C K ld store kv kv1 (RemoveChannel al c) w" by (rule good_cong [OF k(2)]) (simp_all add: RemoveChannel_def)
  with k(1) show ?case by blast
next
  case (al_replay ld al w cm now r al')
  then obtain kv1 where k: "KV_Prefix K kv replayBlockerStoragePrefix = Inr kv1" "al_good C K ld store kv kv1 al w" by blast
  have "al_good C K ld store kv kv1 (al\<lparr>al_replays := remove1 cm (al_replays al)\<rparr>) w" by (rule good_cong [OF k(2)]) simp_all
  from AddOrOverwrite_good [OF this al_replay.hyps(3)] k(1) show ?case by blast
next
  case (al_thread ld al w ord sord clk now b evs al' w')
  then obtain kv1 where k: "KV_Prefix K kv replayBlockerStoragePrefix = Inr kv1" "al_good C K ld store kv kv1 al w" by blast
  obtain al1 w1 where s: "thread_select C ord sord K b w al = Some (Inr (al1, w1))"
    "thread_round C draw ord K clk now w1 (al1\<lparr>al_alarm := None\<rparr>) = Inr (evs, al', w')"
    using al_thread.hyps(4) by (auto simp: thread_iteration_def res_bind_Inr_iff)
  note g = thread_select_good [OF assms(1-3) al_thread.hyps(2,3) k(2) s(1)]
  have "al_good C K ld store kv kv1 (al1\<lparr>al_alarm := None\<rparr>) w1" by (rule good_cong [OF g]) simp_all
  from thread_round_good [OF assms(1-3) al_thread.hyps(2) this s(2)] k(1) show ?case by blast
next
  case (al_restart ld al w sord rng now al')
  then obtain kv1 where k: "KV_Prefix K kv replayBlockerStoragePrefix = Inr kv1" "al_good C K ld store kv kv1 al w" by blast
  from restart_spec [OF assms(4) al_restart.hyps(2) k(1) al_goodD(1) [OF k(2)], of rng now] al_restart.hyps(3) k(1) show ?case
    by (auto simp: al_good_def)
next
  case (al_other ld al w hs w')
  then obtain kv1 where k: "KV_Prefix K kv replayBlockerStoragePrefix = Inr kv1" "al_good C K ld store kv kv1 al w" by blast
  note i = al_invD [OF al_goodD(1) [OF k(2)]]
  have "rb_inv C K store kv1 (al_rb al) w'"
    by (rule rb_frame [OF i(3) al_other.hyps(2)]) (use al_other.hyps(3) i(3) in \<open>auto simp: rb_inv_def\<close>)
  moreover have "al_stored C K ld w' al" by (rule stored_frame [OF i(8) al_other.hyps(2)]) (use al_other.hyps(3) in auto)
  ultimately have "al_inv C K ld store kv kv1 al w'" using i unfolding al_inv_def by simp
  from al_goodI [OF k(2) this] k(1) show ?case by blast
qed

end

lemma find_sorted: "List.find (\<lambda>r. \<not> P r) xs = Some m \<Longrightarrow> sorted (map f xs) \<Longrightarrow> r \<in> set xs \<Longrightarrow> P r \<or> (f m :: int) \<le> f r"
  by (induction xs) (auto split: if_splits)

text \<open>C20: The leases are kept in order and survive restarts. However commands are added and removed, channels left, the thread runs and the
  client restarts, the list of leases is ordered by the triggers, holds every message of the map of channels exactly once, under its channel and the
  fingerprint of its command. Storage holds the same leases with the same times; only those whose trigger had passed when the list was last loaded, at
  \<open>ld\<close>, and that were not saved since, are stored with the times they had before. A list loaded from storage at the time \<open>now\<close> has
  exactly the stored leases, with their end and trigger, unless the trigger has passed: then it is set 5 to 30 minutes ahead of
  \<open>now\<close>, and the end with it only when the trigger was the end.\<close>

theorem leases_kept:
  assumes "versioned_kv K" "sets_succeed K" "deletes_succeed K" "chan_codecs C" "draws_in_range draw" "id_order sord"
    and "al_run C draw K store kv ld al w"
  shows "sorted (map (al_trigger al) (al_leases al)) \<and> distinct (al_leases al) \<and>
    set (al_leases al) = {r. \<exists>c k. al_lookup al c k = Some r} \<and>
    (\<forall>c k d. al_abs al c k = Some d \<longrightarrow> lm_ChannelID d = c \<and> lm_key C d = k) \<and>
    (\<exists>s al'. chan_kept (cl_id C) (lease_layout (cl_id C)) K w kv s \<and>
      NewOrLoadActionLeaseList C draw sord K w store kv rng now = Inr (Inr al') \<and>
      (\<forall>c k. rel_option (same_lease ld) (al_abs al c k) (map_of (lay_messages s c) k) \<and>
        rel_option (loaded_as now) (al_abs al' c k) (map_of (lay_messages s c) k)))"
proof -
  obtain kv1 where k: "KV_Prefix K kv replayBlockerStoragePrefix = Inr kv1" "al_good C K ld store kv kv1 al w"
    using chan_codecs.al_run_good [OF assms(4,1-3,5,7)] by blast
  note o = al_okD [OF al_invD(7) [OF al_goodD(1) [OF k(2)]]]
  have "lm_ChannelID d = c \<and> lm_key C d = k" if "al_abs al c k = Some d" for c k d
    using that o(2) [of c k] by (auto simp: al_abs_def)
  with o(3-5) chan_codecs.restart_spec [OF assms(4-6) k(1) al_goodD(1) [OF k(2)], of rng now] show ?thesis by blast
qed

text \<open>C21: A round of the thread handles exactly the leases whose trigger is reached. In every state, with \<open>t\<close> the clock of the round, the thread never
  panics; a lease that is not reached is left as it is; one whose command cannot be loaded is removed; one whose lease has ended is undone and removed; every
  other one is replayed and gets a new trigger in the future, or is removed when its lease has elapsed meanwhile. Exactly these events are started, and the alarm
  is set to the least trigger that was not reached.\<close>

theorem thread_round_exact:
  assumes "versioned_kv K" "sets_succeed K" "deletes_succeed K" "chan_codecs C" "draws_in_range draw" "id_order ord"
    and "al_run C draw K store kv ld al w" "leases_in_range al"
  shows "\<exists>evs al' w'. thread_round C draw ord K (\<lambda>_. t) now w al = Inr (evs, al', w') \<and>
    (\<forall>c k. case al_abs al c k of None \<Rightarrow> al_abs al' c k = None | Some d \<Rightarrow> round_of C K w (al_store al) t now d (al_abs al' c k)) \<and>
    set evs = {ev. \<exists>c k d cm. al_abs al c k = Some d \<and> reached t d \<and> lease_command C K w (al_store al) d = Some cm \<and> ev = lease_event_of d cm} \<and>
    (case al_alarm al' of
       None \<Rightarrow> \<forall>c k d. al_abs al c k = Some d \<longrightarrow> reached t d
     | Some u \<Rightarrow> (\<exists>c k d. al_abs al c k = Some d \<and> \<not> reached t d \<and> lm_LeaseTrigger d = u) \<and>
         (\<forall>c k d. al_abs al c k = Some d \<longrightarrow> reached t d \<or> u \<le> lm_LeaseTrigger d))"
proof -
  obtain kv1 where g: "al_good C K ld store kv kv1 al w" using chan_codecs.al_run_good [OF assms(4,1-3,5,7)] by blast
  note i = al_invD [OF al_goodD(1) [OF g]]
  from chan_codecs.thread_round_spec [OF assms(4,1-3,6,5) al_goodD(1) [OF g] assms(8), of t now] obtain evs al' w' where
    r: "thread_round C draw ord K (\<lambda>_. t) now w al = Inr (evs, al', w')"
    "\<forall>c k. case al_abs al c k of None \<Rightarrow> al_abs al' c k = None | Some d \<Rightarrow> round_of C K w store t now d (al_abs al' c k)"
    "set evs = {ev. \<exists>c k d cm. al_abs al c k = Some d \<and> reached t d \<and> lease_command C K w store d = Some cm \<and> ev = lease_event_of d cm}"
    "al_alarm al' = map_option (al_trigger al) (List.find (\<lambda>r. \<not> reached t (al_heap al ! r)) (al_leases al))" by blast
  have al: "\<exists>r \<in> set (al_leases al). d = lm_data (al_heap al ! r)" if "al_abs al c k = Some d" for c k d
    using lease_of_abs [OF i(7) that] by blast
  have "case al_alarm al' of
       None \<Rightarrow> \<forall>c k d. al_abs al c k = Some d \<longrightarrow> reached t d
     | Some u \<Rightarrow> (\<exists>c k d. al_abs al c k = Some d \<and> \<not> reached t d \<and> lm_LeaseTrigger d = u) \<and>
         (\<forall>c k d. al_abs al c k = Some d \<longrightarrow> reached t d \<or> u \<le> lm_LeaseTrigger d)"
  proof (cases "List.find (\<lambda>r. \<not> reached t (al_heap al ! r)) (al_leases al)")
    case None
    then have "reached t (al_heap al ! r)" if "r \<in> set (al_leases al)" for r using that by (auto simp: find_None_iff)
    then show ?thesis using None al by (fastforce simp: r(4))
  next
    case (Some m)
    have s: "sorted (map (al_trigger al) (al_leases al))" by (rule al_okD(5) [OF i(7)])
    have m: "m \<in> set (al_leases al)" "\<not> reached t (al_heap al ! m)" using find_SomeD [OF Some] by blast+
    have f: "reached t (al_heap al ! r) \<or> al_trigger al m \<le> al_trigger al r" if "r \<in> set (al_leases al)" for r
      using Some s that by (rule find_sorted)
    show ?thesis using Some abs_of_lease [OF i(7) m(1)] m(2) al f by (fastforce simp: r(4))
  qed
  with r(1-3) i(2) show ?thesis by blast
qed

lemma verify_keeps:
  assumes "al_verify C ord K w al m p = Inr (e, al', w')"
  shows "al_abs al' = al_abs al" "al_lookup al' = al_lookup al" "al_addLeaseMessage al' = al_addLeaseMessage al"
    "al_heap al' = al_heap al" "al_leases al' = al_leases al" "al_rng al' = al_rng al"
  using assms by (auto simp: al_verify_def res_bind_Inr_iff al_abs_def al_lookup_def fun_eq_iff)

lemma AddMessage_queue:
  assumes "AddMessage C draw ord K w al now m p = Inr (None, al', w')"
  shows "al_abs al' = al_abs al" "al_lookup al' = al_lookup al" "al_heap al' = al_heap al" "al_leases al' = al_leases al"
    "\<exists>t. al_addLeaseMessage al' = al_addLeaseMessage al @
       [\<lparr>lm_ChannelID = cm_ChannelID m, lm_Action = cm_MessageType m, lm_Payload = cm_Content m,
         lm_OriginatingTimestamp = cm_OriginatingTimestamp m, lm_Lease = cm_Lease m,
         lm_LeaseEnd = cm_OriginatingTimestamp m + cm_Lease m, lm_LeaseTrigger = t, lm_e = None\<rparr>] \<and>
       (\<exists>rng. calculateLeaseTrigger draw (al_rng al) now (cm_OriginatingTimestamp m) (cm_Lease m) = Inr (Some t, rng))"
proof -
  obtain t rng al1 where t: "calculateLeaseTrigger draw (al_rng al) now (cm_OriginatingTimestamp m) (cm_Lease m) = Inr (Some t, rng)"
    and v: "al_verify C ord K w (al\<lparr>al_rng := rng\<rparr>) m p = Inr (None, al1, w')" and al': "al' = addToLeaseMessageChan al1 m t"
    using assms by (auto simp: AddMessage_def res_bind_Inr_iff split: option.splits)
  note k = verify_keeps [OF v]
  have "al_abs al' = al_abs al1" by (rule abs_cong) (simp_all add: al' addToLeaseMessageChan_def)
  also have "\<dots> = al_abs al" unfolding k(1) by (rule abs_cong) simp_all
  finally show "al_abs al' = al_abs al" .
  have "al_lookup al' = al_lookup al1" by (rule lookup_eq) (simp add: al' addToLeaseMessageChan_def)
  also have "\<dots> = al_lookup al" unfolding k(2) by (rule lookup_eq) simp
  finally show "al_lookup al' = al_lookup al" .
  show "al_heap al' = al_heap al" "al_leases al' = al_leases al" using k by (simp_all add: al' addToLeaseMessageChan_def)
  show "\<exists>t. al_addLeaseMessage al' = al_addLeaseMessage al @
       [\<lparr>lm_ChannelID = cm_ChannelID m, lm_Action = cm_MessageType m, lm_Payload = cm_Content m,
         lm_OriginatingTimestamp = cm_OriginatingTimestamp m, lm_Lease = cm_Lease m,
         lm_LeaseEnd = cm_OriginatingTimestamp m + cm_Lease m, lm_LeaseTrigger = t, lm_e = None\<rparr>] \<and>
       (\<exists>rng. calculateLeaseTrigger draw (al_rng al) now (cm_OriginatingTimestamp m) (cm_Lease m) = Inr (Some t, rng))"
    using k t by (auto simp: al' addToLeaseMessageChan_def)
qed

text \<open>C39: A command that is received again while its lease is in the list crashes the thread. Whenever \<open>AddMessage\<close> accepts a command (as it does with every
  replay of the stored one) whose lease is in the list, \<open>addMessage\<close> updates the link of the new packet, which is nil, instead of that
  of the stored lease, and the thread panics when it takes the packet.\<close>

theorem replayed_command_panics:
  assumes "al_addLeaseMessage al = []" "al_abs al (cm_ChannelID m) (fp_key (newCommandFingerprint C (cm_ChannelID m) (cm_MessageType m) (cm_Content m))) \<noteq> None"
    and "AddMessage C draw ord K w al now m p = Inr (None, al', w')"
  shows "thread_iteration C draw ord' sord K clk now' AddCase w' al' = Some (Inl NilDereference)"
proof -
  note q = AddMessage_queue [OF assms(3)]
  from q(5) assms(1) obtain lm where lm: "al_addLeaseMessage al' = [lm]" "lm_e lm = None" "lm_ChannelID lm = cm_ChannelID m"
    "lm_key C lm = fp_key (newCommandFingerprint C (cm_ChannelID m) (cm_MessageType m) (cm_Content m))" by (auto simp: lm_key_def)
  have "al_lookup (al'\<lparr>al_addLeaseMessage := []\<rparr>) = al_lookup al'" by (rule lookup_eq) simp
  with assms(2) lm(3,4) q(2) obtain r where "al_lookup (al'\<lparr>al_addLeaseMessage := []\<rparr>) (lm_ChannelID lm) (lm_key C lm) = Some r"
    by (auto simp: al_abs_def)
  from addMessage_again [OF this lm(2), of ord' K w'] lm(1) show ?thesis
    by (simp add: thread_iteration_def thread_select_def or_panic_def)
qed

text \<open>C40: The thread forgets the leases that it replays. When every lease is reached in a round, no alarm is set after it, although the leases that were
  replayed stay in the list with new triggers: until a message arrives the thread waits for ever, and those leases are neither replayed nor undone.\<close>

theorem replayed_leases_without_alarm:
  assumes "versioned_kv K" "sets_succeed K" "deletes_succeed K" "chan_codecs C" "draws_in_range draw" "id_order ord"
    and "al_run C draw K store kv ld al w" "leases_in_range al" "\<forall>c k d. al_abs al c k = Some d \<longrightarrow> reached t d"
    and "al_abs al c k = Some d" "lease_command C K w (al_store al) d \<noteq> None" "\<not> lease_ended d" "\<not> elapsed now d"
  shows "\<exists>evs al' w' u. thread_round C draw ord K (\<lambda>_. t) now w al = Inr (evs, al', w') \<and>
    al_abs al' c k = Some (d\<lparr>lm_LeaseTrigger := u\<rparr>) \<and> now < u \<and>
    thread_iteration C draw ord' sord K clk now' TimerCase w' al' = None"
proof -
  obtain kv1 where g: "al_good C K ld store kv kv1 al w" using chan_codecs.al_run_good [OF assms(4,1-3,5,7)] by blast
  note i = al_invD [OF al_goodD(1) [OF g]]
  from chan_codecs.thread_round_spec [OF assms(4,1-3,6,5) al_goodD(1) [OF g] assms(8), of t now] obtain evs al' w' where
    r: "thread_round C draw ord K (\<lambda>_. t) now w al = Inr (evs, al', w')"
    "\<And>c k. case al_abs al c k of None \<Rightarrow> al_abs al' c k = None | Some d \<Rightarrow> round_of C K w store t now d (al_abs al' c k)"
    "al_alarm al' = map_option (al_trigger al) (List.find (\<lambda>r. \<not> reached t (al_heap al ! r)) (al_leases al))" by blast
  have "reached t d" using assms(9,10) by blast
  then obtain u where u: "al_abs al' c k = Some (d\<lparr>lm_LeaseTrigger := u\<rparr>)" "now < u"
    using r(2) [of c k] assms(10-13) i(2) by (auto simp: round_of_def)
  have "reached t (al_heap al ! q)" if "q \<in> set (al_leases al)" for q
    using abs_of_lease [OF i(7) that] assms(9) by (metis data_sel(7))
  then have "List.find (\<lambda>r. \<not> reached t (al_heap al ! r)) (al_leases al) = None" by (auto simp: find_None_iff)
  then have "thread_iteration C draw ord' sord K clk now' TimerCase w' al' = None"
    by (simp add: thread_iteration_def thread_select_def r(3))
  with r(1) u show ?thesis by blast
qed

text \<open>After a restart no alarm is set either: the loaded leases wait for the first message.\<close>

lemma restart_without_alarm:
  assumes "versioned_kv K" "sets_succeed K" "deletes_succeed K" "chan_codecs C" "draws_in_range draw" "id_order sord"
    and "al_run C draw K store kv ld al w" "NewOrLoadActionLeaseList C draw sord K w store kv rng now = Inr (Inr al')"
  shows "thread_iteration C draw ord sord' K clk now' TimerCase w al' = None"
proof -
  obtain kv1 where k: "KV_Prefix K kv replayBlockerStoragePrefix = Inr kv1" "al_good C K ld store kv kv1 al w"
    using chan_codecs.al_run_good [OF assms(4,1-3,5,7)] by blast
  from chan_codecs.restart_spec [OF assms(4-6) k(1) al_goodD(1) [OF k(2)], of rng now] assms(8) show ?thesis
    by (auto simp: thread_iteration_def thread_select_def)
qed

subsection \<open>An example\<close>

text \<open>A message is pinned for ever on the in-memory store and its lease is in the list.\<close>

context chan_codecs
begin

lemma AddMessage_accepts:
  assumes "versioned_kv K" "sets_succeed K" "id_order ord" "al_inv C K ld store kv kv1 al w" "rb_new C m p = Inr n"
    and "calculateLeaseTrigger draw (al_rng al) now (cm_OriginatingTimestamp m) (cm_Lease m) = Inr (Some t, rng)"
    and "key = fp_key (newCommandFingerprint C (cm_ChannelID m) (cm_MessageType m) (cm_Content m))"
    and "\<And>c. rb_lookup (al_rb al) (cm_ChannelID m) key = Some c \<Longrightarrow> rc_UnsanitizedFP c = rc_UnsanitizedFP n"
  shows "\<exists>al' w'. AddMessage C draw ord K w al now m p = Inr (None, al', w') \<and> rb_lookup (al_rb al') (cm_ChannelID m) key = Some n \<and>
    LoadCommand C K w' store (cm_ChannelID m) (cm_MessageType m) (cm_Content m) =
      Inr (m\<lparr>cm_Nickname := [], cm_PubKey := [], cm_Codeset := 0, cm_Status := 0, cm_UserMuted := False\<rparr>)"
proof -
  from verifyReplay_spec [OF assms(1-3) al_invD(3) [OF assms(4)] assms(5,7)] assms(8) obtain rb' w' where
    v: "verifyReplay C ord K w (al_rb al) m p = Inr ((True, None), None, rb', w')" "rb_lookup rb' (cm_ChannelID m) key = Some n"
    "LoadCommand C K w' store (cm_ChannelID m) (cm_MessageType m) (cm_Content m) =
      Inr (m\<lparr>cm_Nickname := [], cm_PubKey := [], cm_Codeset := 0, cm_Status := 0, cm_UserMuted := False\<rparr>)"
    by (auto split: if_splits)
  then show ?thesis using assms(6) by (auto simp: AddMessage_def al_verify_def addToLeaseMessageChan_def)
qed

end

lemma thread_round_idle:
  assumes "\<And>r. r \<in> set (al_leases al) \<Longrightarrow> \<not> reached t (al_heap al ! r)"
  shows "\<exists>a. thread_round C draw ord K (\<lambda>_. t) now w al = Inr ([], al\<lparr>al_alarm := a\<rparr>, w)"
proof (cases "al_leases al")
  case Nil
  then show ?thesis by (auto simp: thread_round_def)
next
  case (Cons r rs)
  with assms [of r] show ?thesis by (auto simp: thread_round_def reached_def)
qed

definition lease_cmd :: "unit CommandMessage" where
  "lease_cmd = (cmd_example 3)\<lparr>cm_Lease := ValidForever\<rparr>"

lemma lease_cmd_simps [simp]:
  "cm_ChannelID lease_cmd = [1]" "cm_MessageType lease_cmd = Pinned" "cm_Content lease_cmd = [9]" "cm_OriginatingTimestamp lease_cmd = 5"
  "cm_Lease lease_cmd = ValidForever" "rb_new chan_libs_example lease_cmd [9, 1] = Inr (pin_command 3 5)"
proof -
  have "rb_new chan_libs_example lease_cmd [9, 1] = rb_new chan_libs_example (cmd_example 3) [9, 1]" by (simp add: lease_cmd_def rb_new_def)
  then show "rb_new chan_libs_example lease_cmd [9, 1] = Inr (pin_command 3 5)" by (simp add: rb_new_example)
qed (simp_all add: lease_cmd_def cmd_example_def)

lemma lease_trigger_example:
  "\<exists>t rng1. calculateLeaseTrigger draw_example rng 10 5 ValidForever = Inr (Some t, rng1) \<and> 10 < t \<and> t \<le> 10 + MessageLife"
proof -
  have "\<not> time_Sub 10 5 \<ge> ValidForever" by code_simp
  then show ?thesis using lease_trigger_bounds [OF draw_example_range, of ValidForever 10 5 rng] by auto
qed

lemma al_example_start:
  obtains store al where "al_run chan_libs_example draw_example mem_KV store NewKV 0 al Map.empty" "apart mem_KV NewKV store"
    "al_abs al = (\<lambda>c k. None)" "al_addLeaseMessage al = []" "rb_lookup (al_rb al) = (\<lambda>c k. None)" "al_leases al = []"
proof -
  have d: "p \<noteq> q \<Longrightarrow> kv_Prefix NewKV p = Inr u \<Longrightarrow> kv_Prefix NewKV q = Inr v \<Longrightarrow> apart mem_KV u v" for p q u v
    using mem.derived_all_apart [of "[] @ [p]" u "[] @ [q]" v] derived_prefix [OF derived_new] by auto
  have n: "kv_Prefix NewKV p = Inr u \<Longrightarrow> apart mem_KV u NewKV \<and> apart mem_KV NewKV u" for p u
    using mem.derived_all_apart [of "[] @ [p]" u "[]" NewKV] mem.derived_all_apart [of "[]" NewKV "[] @ [p]" u]
      derived_prefix [OF derived_new] derived_new by auto
  obtain store where s: "kv_Prefix NewKV commandStorePrefix = Inr store"
    by (simp add: kv_Prefix_def NewKV_def commandStorePrefix_def HasPrefix_def)
  obtain kv1 where k: "kv_Prefix NewKV replayBlockerStoragePrefix = Inr kv1"
    by (simp add: kv_Prefix_def NewKV_def replayBlockerStoragePrefix_def HasPrefix_def)
  have ne: "commandStorePrefix \<noteq> replayBlockerStoragePrefix" by (simp add: commandStorePrefix_def replayBlockerStoragePrefix_def)
  let ?al = "\<lparr>al_heap = [], al_leases = [], al_messagesByChannel = [], al_addLeaseMessage = [], al_removeLeaseMessage = [],
         al_removeChannelCh = [], al_replays = [], al_rb = \<lparr>rb_commandsByChannel = [], rb_store = store, rb_kv = kv1\<rparr>,
         al_store = store, al_kv = NewKV, al_rng = 0 :: nat, al_alarm = None\<rparr>"
  have p: "KV_Prefix mem_KV NewKV replayBlockerStoragePrefix = Inr kv1" by (simp add: mem_KV_simps k)
  have new: "NewOrLoadActionLeaseList chan_libs_example draw_example id mem_KV Map.empty store NewKV 0 0 = Inr (Inr ?al)"
    by (simp add: NewOrLoadActionLeaseList_def NewActionLeaseList_eq [OF p] al_load_def rb_load_def lay_load_def lay_loadChannels_def Exists_def mem_KV_simps)
  have "KV_Get mem_KV kv1 Map.empty commandChannelListKey commandChannelListVer = Inl KeyNotFound"
    "KV_Get mem_KV NewKV Map.empty channelLeaseKey channelLeaseVer = Inl KeyNotFound" by (simp_all add: mem_KV_simps)
  from al_start [OF p d [OF ne s k] d [OF ne [symmetric] k s] n [OF s, THEN conjunct1] n [OF k, THEN conjunct1] n [OF k, THEN conjunct2] this new]
  have "al_run chan_libs_example draw_example mem_KV store NewKV 0 ?al Map.empty" .
  then show thesis
    by (rule that) (use n [OF s] in \<open>simp_all add: al_abs_def al_lookup_def lay_messages_def rb_lookup_def fun_eq_iff\<close>)
qed

definition lease_example :: "int \<Rightarrow> leaseData" where
  "lease_example t = \<lparr>lm_ChannelID = [1], lm_Action = Pinned, lm_Payload = [9], lm_OriginatingTimestamp = 5, lm_Lease = ValidForever,
     lm_LeaseEnd = 5 + ValidForever, lm_LeaseTrigger = t\<rparr>"

lemma al_example:
  obtains store al w t where "al_run chan_libs_example draw_example mem_KV store NewKV 0 al w"
    "al_abs al = (\<lambda>c k. if c = [1] \<and> k = pin_key then Some (lease_example t) else None)" "10 < t" "t \<le> 10 + MessageLife"
    "al_addLeaseMessage al = []" "rb_lookup (al_rb al) [1] pin_key = Some (pin_command 3 5)"
    "lease_command chan_libs_example mem_KV w (al_store al) (lease_example t) \<noteq> None"
proof -
  let ?C = chan_libs_example and ?K = mem_KV and ?dr = draw_example
  obtain store al where 0: "al_run ?C ?dr ?K store NewKV 0 al Map.empty" "apart ?K NewKV store" "al_abs al = (\<lambda>c k. None)"
    "al_addLeaseMessage al = []" "rb_lookup (al_rb al) = (\<lambda>c k. None)" "al_leases al = []" by (rule al_example_start)
  note good = ex.al_run_good [OF mem.versioned mem_sets mem_deletes draw_example_range]
  obtain kv1 where g0: "al_good ?C ?K 0 store NewKV kv1 al Map.empty" using good [OF 0(1)] by blast
  obtain t rng1 where t: "calculateLeaseTrigger ?dr (al_rng al) 10 5 ValidForever = Inr (Some t, rng1)" "10 < t" "t \<le> 10 + MessageLife"
    using lease_trigger_example by blast
  obtain al1 w1 where 1: "AddMessage ?C ?dr id ?K Map.empty al 10 lease_cmd [9, 1] = Inr (None, al1, w1)"
    "rb_lookup (al_rb al1) [1] pin_key = Some (pin_command 3 5)"
    "\<exists>m. LoadCommand ?C ?K w1 store [1] Pinned [9] = Inr m"
    using ex.AddMessage_accepts [OF mem.versioned mem_sets id_order_id al_goodD(1) [OF g0] lease_cmd_simps(6) _ refl, of ?dr 10 t rng1] t(1) 0(5)
    by auto
  note r1 = al_add [OF 0(1) id_order_id 1(1)]
  note q = AddMessage_queue [OF 1(1)]
  let ?lm = "\<lparr>lm_ChannelID = [1], lm_Action = Pinned, lm_Payload = [9], lm_OriginatingTimestamp = 5, lm_Lease = ValidForever,
     lm_LeaseEnd = 5 + ValidForever, lm_LeaseTrigger = t, lm_e = None\<rparr>"
  have qu: "al_addLeaseMessage al1 = [?lm]" using q(5) t(1) 0(4) by auto
  obtain kv1 where g1: "al_good ?C ?K 0 store NewKV kv1 al1 w1" using good [OF r1] by blast
  let ?al1 = "al1\<lparr>al_addLeaseMessage := []\<rparr>"
  have g: "al_good ?C ?K 0 store NewKV kv1 ?al1 w1" by (rule ex.good_cong [OF g1]) simp_all
  have a1: "al_abs ?al1 = (\<lambda>c k. None)" using abs_cong [of ?al1 al1] q(1) 0(3) by simp
  then have n: "al_lookup ?al1 c k = None" for c k by (auto simp: al_abs_def fun_eq_iff)
  have lk: "lm_key ?C ?lm = pin_key" by (simp add: lm_key_def)
  from ex.addMessage_new [OF mem.versioned mem_sets id_order_id al_goodD(1) [OF g] n, where lm = ?lm] obtain w2 where
    2: "addMessage ?C id ?K w1 ?al1 ?lm = Inr (None, with_lease ?C ?al1 ?lm, w2)" "al_inv ?C ?K 0 store NewKV kv1 (with_lease ?C ?al1 ?lm) w2"
    "kv_writes ?K {NewKV} w1 w2" by blast
  let ?al2 = "(with_lease ?C ?al1 ?lm)\<lparr>al_alarm := None\<rparr>"
  have lea: "al_leases ?al2 = [length (al_heap al1)]" using 0(6) q(4) by (simp add: ins_ord_def)
  have "\<not> reached 0 (al_heap ?al2 ! r)" if "r \<in> set (al_leases ?al2)" for r
    using that t(2) unfolding lea by (simp add: reached_def)
  from thread_round_idle [OF this, of ?C ?dr id ?K 0 w2] obtain a where
    3: "thread_round ?C ?dr id ?K (\<lambda>_. 0) 0 w2 ?al2 = Inr ([], ?al2\<lparr>al_alarm := a\<rparr>, w2)" by blast
  let ?al3 = "?al2\<lparr>al_alarm := a\<rparr>"
  have "thread_iteration ?C ?dr id id ?K (\<lambda>_. 0) 0 AddCase w1 al1 = Some (Inr ([], ?al3, w2))"
    using 2(1) 3 qu by (simp add: thread_iteration_def thread_select_def or_panic_def)
  from al_thread [OF r1 id_order_id id_order_id this] have r3: "al_run ?C ?dr ?K store NewKV 0 ?al3 w2" .
  have d: "lm_data ?lm = lease_example t" by (simp add: lm_data_def leaseData.defs lease_example_def)
  have "al_abs ?al3 = al_abs (with_lease ?C ?al1 ?lm)" by (rule abs_cong) simp_all
  also have "\<dots> = (\<lambda>c k. if c = [1] \<and> k = pin_key then Some (lease_example t) else None)"
    using with_lease_ok(2) [OF al_invD(7) [OF al_goodD(1) [OF g]] n] a1 lk d by (auto simp: fun_eq_iff)
  finally have a3: "al_abs ?al3 = (\<lambda>c k. if c = [1] \<and> k = pin_key then Some (lease_example t) else None)" .
  have "KV_Get ?K store w2 pin_key commandStoreVersion = KV_Get ?K store w1 pin_key commandStoreVersion"
    by (rule kv_writes_frame [OF 2(3)]) (use 0(2) in simp_all)
  then have "\<exists>m. LoadCommand ?C ?K w2 store [1] Pinned [9] = Inr m" using 1(3) by (simp add: LoadCommand_def)
  moreover have "al_store ?al3 = store" using al_invD(2) [OF 2(2)] by simp
  ultimately have "lease_command ?C ?K w2 (al_store ?al3) (lease_example t) \<noteq> None" by (auto simp: lease_command_def lease_example_def)
  then show thesis using that [OF r3 a3 t(2,3)] 1(2) by simp
qed

lemma range_example: "al_abs al = (\<lambda>c k. if c = [1] \<and> k = pin_key then Some (lease_example t) else None) \<Longrightarrow> leases_in_range al"
  by (auto simp: leases_in_range_def lease_example_def)

theorem leases_kept_witness:
  "\<exists>store al w al'. al_run chan_libs_example draw_example mem_KV store NewKV 0 al w \<and> al_abs al [1] pin_key \<noteq> None \<and>
     NewOrLoadActionLeaseList chan_libs_example draw_example id mem_KV w store NewKV 0 0 = Inr (Inr al') \<and> al_abs al' [1] pin_key \<noteq> None"
proof -
  obtain store al w t where a: "al_run chan_libs_example draw_example mem_KV store NewKV 0 al w"
    "al_abs al = (\<lambda>c k. if c = [1] \<and> k = pin_key then Some (lease_example t) else None)" by (rule al_example)
  from leases_kept [OF mem.versioned mem_sets mem_deletes ex.chan_codecs_axioms draw_example_range id_order_id a(1), of 0 0] obtain s al' where
    n: "NewOrLoadActionLeaseList chan_libs_example draw_example id mem_KV w store NewKV 0 0 = Inr (Inr al')"
    "rel_option (same_lease 0) (al_abs al [1] pin_key) (map_of (lay_messages s [1]) pin_key)"
    "rel_option (loaded_as 0) (al_abs al' [1] pin_key) (map_of (lay_messages s [1]) pin_key)" by blast
  have d: "al_abs al [1] pin_key = Some (lease_example t)" by (simp add: a(2))
  then obtain e where "map_of (lay_messages s [1]) pin_key = Some e" using n(2) by (auto simp: option_rel_Some1)
  then have "al_abs al' [1] pin_key \<noteq> None" using n(3) by (auto simp: option_rel_Some2)
  moreover have "al_abs al [1] pin_key \<noteq> None" by (simp add: d)
  ultimately show ?thesis using a(1) n(1) by blast
qed

theorem thread_round_exact_witness:
  "\<exists>store al w evs al' w'. al_run chan_libs_example draw_example mem_KV store NewKV 0 al w \<and>
     thread_round chan_libs_example draw_example id mem_KV (\<lambda>_. 0) 0 w al = Inr (evs, al', w') \<and> evs = [] \<and> al_alarm al' \<noteq> None"
proof -
  obtain store al w t where a: "al_run chan_libs_example draw_example mem_KV store NewKV 0 al w"
    "al_abs al = (\<lambda>c k. if c = [1] \<and> k = pin_key then Some (lease_example t) else None)" "10 < t" by (rule al_example)
  have n: "\<not> reached 0 (lease_example t)" using a(3) by (simp add: reached_def lease_example_def)
  from thread_round_exact [OF mem.versioned mem_sets mem_deletes ex.chan_codecs_axioms draw_example_range id_order_id a(1) range_example [OF a(2)], of 0 0]
  obtain evs al' w' where r: "thread_round chan_libs_example draw_example id mem_KV (\<lambda>_. 0) 0 w al = Inr (evs, al', w')"
    "set evs = {ev. \<exists>c k d cm. al_abs al c k = Some d \<and> reached 0 d \<and> lease_command chan_libs_example mem_KV w (al_store al) d = Some cm \<and> ev = lease_event_of d cm}"
    "al_alarm al' = None \<Longrightarrow> \<forall>c k d. al_abs al c k = Some d \<longrightarrow> reached 0 d" by (auto split: option.splits)
  have "set evs = {}" unfolding r(2) using n by (auto simp: a(2))
  moreover have "al_alarm al' \<noteq> None"
  proof
    assume "al_alarm al' = None"
    moreover have "al_abs al [1] pin_key = Some (lease_example t)" by (simp add: a(2))
    ultimately show False using r(3) n by blast
  qed
  ultimately show ?thesis using a(1) r(1) by simp blast
qed

theorem replayed_command_panics_witness:
  "\<exists>store al w al' w'. al_run chan_libs_example draw_example mem_KV store NewKV 0 al w \<and>
     AddMessage chan_libs_example draw_example id mem_KV w al 10 lease_cmd [9, 1] = Inr (None, al', w') \<and>
     thread_iteration chan_libs_example draw_example id id mem_KV (\<lambda>_. 10) 10 AddCase w' al' = Some (Inl NilDereference)"
proof -
  obtain store al w t where a: "al_run chan_libs_example draw_example mem_KV store NewKV 0 al w"
    "al_abs al = (\<lambda>c k. if c = [1] \<and> k = pin_key then Some (lease_example t) else None)" "al_addLeaseMessage al = []"
    "rb_lookup (al_rb al) [1] pin_key = Some (pin_command 3 5)" by (rule al_example)
  obtain kv1 where g: "al_good chan_libs_example mem_KV 0 store NewKV kv1 al w"
    using ex.al_run_good [OF mem.versioned mem_sets mem_deletes draw_example_range a(1)] by blast
  obtain u rng1 where t: "calculateLeaseTrigger draw_example (al_rng al) 10 5 ValidForever = Inr (Some u, rng1)"
    using lease_trigger_example by blast
  obtain al' w' where b: "AddMessage chan_libs_example draw_example id mem_KV w al 10 lease_cmd [9, 1] = Inr (None, al', w')"
    using ex.AddMessage_accepts [OF mem.versioned mem_sets id_order_id al_goodD(1) [OF g] lease_cmd_simps(6) _ refl, of draw_example 10 u rng1] t a(4)
    by auto
  have "thread_iteration chan_libs_example draw_example id id mem_KV (\<lambda>_. 10) 10 AddCase w' al' = Some (Inl NilDereference)"
    by (rule replayed_command_panics [OF a(3) _ b]) (simp add: a(2))
  with a(1) b show ?thesis by blast
qed

theorem replayed_leases_without_alarm_witness:
  "\<exists>store al w t evs al' w' u. al_run chan_libs_example draw_example mem_KV store NewKV 0 al w \<and>
     thread_round chan_libs_example draw_example id mem_KV (\<lambda>_. t) 20 w al = Inr (evs, al', w') \<and> al_abs al' [1] pin_key = Some (lease_example u) \<and>
     thread_iteration chan_libs_example draw_example id id mem_KV (\<lambda>_. u) u TimerCase w' al' = None"
proof -
  obtain store al w t where a: "al_run chan_libs_example draw_example mem_KV store NewKV 0 al w"
    "al_abs al = (\<lambda>c k. if c = [1] \<and> k = pin_key then Some (lease_example t) else None)" "t \<le> 10 + MessageLife"
    "lease_command chan_libs_example mem_KV w (al_store al) (lease_example t) \<noteq> None" by (rule al_example)
  have s: "al_abs al [1] pin_key = Some (lease_example t)" by (simp add: a(2))
  have r: "\<forall>c k d. al_abs al c k = Some d \<longrightarrow> reached (t + 1000000) d" by (auto simp: a(2) reached_def lease_example_def)
  have e: "\<not> lease_ended (lease_example t)" "\<not> elapsed 20 (lease_example t)"
    using a(3) by (simp_all add: lease_ended_def elapsed_def lease_example_def lease_times time_Sub_def)
  obtain evs al' w' u where
    x: "thread_round chan_libs_example draw_example id mem_KV (\<lambda>_. t + 1000000) 20 w al = Inr (evs, al', w')"
    "al_abs al' [1] pin_key = Some ((lease_example t)\<lparr>lm_LeaseTrigger := u\<rparr>)"
    using replayed_leases_without_alarm [OF mem.versioned mem_sets mem_deletes ex.chan_codecs_axioms draw_example_range id_order_id a(1)
      range_example [OF a(2)] r s a(4) e, of id id "\<lambda>_. 0" 0] by blast
  have "thread_iteration chan_libs_example draw_example id id mem_KV (\<lambda>_. u) u TimerCase w' al' = None"
    using replayed_leases_without_alarm [OF mem.versioned mem_sets mem_deletes ex.chan_codecs_axioms draw_example_range id_order_id a(1)
      range_example [OF a(2)] r s a(4) e, of id id "\<lambda>_. u" u] x(1) by auto
  moreover have "(lease_example t)\<lparr>lm_LeaseTrigger := u\<rparr> = lease_example u" by (simp add: lease_example_def)
  ultimately show ?thesis using a(1) x by (intro exI conjI) auto
qed

end
