(* ===== verification/Spec2Isabelle.thy ===== *)
theory Spec2Isabelle
  imports
    State_Vector
    Multi_State_Vector
    Block_Store
    Message_Buffer
    Conversation
    Ring_Buffer
    Partitioner
    Partner_Manager
    Transaction_Log
    Single_Use
    Transfer_Delivery
    Muted_Users
    Lease_Thread
begin

text \<open>
  \<^bold>\<open>The xx network client\<close>

  The repository is the client library of the xx network: it sends end-to-end encrypted messages
  through the cMix mix network and keeps all of its state in an encrypted key-value store. This
  development models the parts that carry the client's own logic, below the cryptography and above the
  network, and proves what makes them correct.

  \<^bold>\<open>Conventions.\<close> Machine integers are words of their width, so that \<open>+\<close> and \<open>-\<close> wrap as in Go; \<open>int\<close>
  values that cannot overflow are integers; times are nanoseconds since 1970, compared as
  instants (where the code uses \<open>==\<close> on \<open>time.Time\<close> the times are taken to be in UTC, for which this is the same). A run-time panic (an
  index or slice out of range, a division by zero, a failed type assertion, a call of
  \<open>jww.FATAL.Panicf\<close>) is a value of type \<open>fault\<close> on the left of a sum; an \<open>error\<close> result is a value of
  the component's own error type. Code of other libraries (the encrypted store, hash functions, the
  textual form of an identity) is an argument of the definitions; what is used of it is stated as the
  laws of a locale or as a hypothesis. State is passed explicitly: an operation takes the state of the
  store \<open>w\<close> and of its own object and returns them updated. Locks are not modelled: each operation runs
  under its lock, so it is one atomic step. Loops are structural recursions, recursions with a
  termination proof, or \<open>partial_function (option)\<close> with a proof that they return.

  \<^bold>\<open>Theories.\<close>
  \<^item> \<open>Go_Prelude\<close>: faults, slices, byte orders, decimal numbers, base64, JSON values, shared lemmas.
  \<^item> \<open>Versioned_KV\<close> (\<open>collective/versioned\<close>): handles with prefixes over the encrypted store, upgrades of
    stored objects, the key syntax of maps. Locale \<open>ekv_store\<close> states the laws of the encrypted store,
    locale \<open>versioned_kv\<close> those that every client of a handle relies on; the first gives the second.
    An in-memory store interprets both and serves the witnesses.
  \<^item> \<open>State_Vector\<close> (\<open>storage/utility/stateVector.go\<close>): a bit field of used keys. It refines a set of
    numbers (locale \<open>key_vector\<close>); \<open>Next\<close> returns the least unused key and never repeats one.
  \<^item> \<open>Multi_State_Vector\<close> (\<open>storage/utility/multiStateVector.go\<close>): packed states of keys with an optional
    map of allowed changes. It refines a function (locale \<open>state_table\<close>). The constructor is right for at
    most four states and 32736 keys; beyond either bound it can reserve too few blocks.
  \<^item> \<open>Block_Store\<close> (\<open>storage/utility/blockStore.go\<close>): a bounded log that keeps exactly its last blocks.
  \<^item> \<open>Message_Buffer\<close> (\<open>storage/utility/messageBuffer.go\<close>, \<open>cmix/message/meteredCmixMessageBuffer.go\<close>):
    messages waiting for and in processing. The handler interface is the locale \<open>message_handler\<close>,
    interpreted on the metered handler; reachable states are an inductive predicate.
  \<^item> \<open>Conversation\<close> (\<open>e2e/parse/conversation/partner.go\<close>, \<open>store.go\<close>): truncated and full message numbers.
  \<^item> \<open>Ring_Buffer\<close> (\<open>e2e/parse/conversation/ring.go\<close>, \<open>message.go\<close>): the last messages of a conversation,
    found by identifiers that must be distinct when truncated.
  \<^item> \<open>Message_Parts\<close> (\<open>e2e/parse/messagePart.go\<close>, \<open>firstMessagePart.go\<close>): the wire format of parts.
  \<^item> \<open>Multi_Part\<close> (\<open>e2e/parse/partition\<close>): collecting the parts of a message, in any order.
  \<^item> \<open>Partitioner\<close> (\<open>e2e/parse/partition.go\<close>): composes the three above; what one side partitions the
    other side gets back.
  \<^item> \<open>Session\<close> (\<open>e2e/ratchet/partner/session\<close>): the key sessions of the ratchet over the state vector.
    Their reachable states are an inductive predicate with every transition of the code; the stored session
    follows them with the status last saved (a rekey triggered before the session is confirmed is not
    saved), keys are never handed out twice and the negotiation status follows its table.
  \<^item> \<open>Relationship\<close> (\<open>e2e/ratchet/partner/relationship.go\<close>): the sessions with a partner in one direction, as
    references into a heap. Reachable states include restarts; the best session is chosen for sending.
  \<^item> \<open>Partner_Manager\<close> (\<open>e2e/ratchet/partner/manager.go\<close>): the two relationships with a partner.
  \<^item> \<open>Patches\<close> (\<open>collective/patches.go\<close>, \<open>mutate.go\<close>, \<open>collector.go\<close>, parts of \<open>kv.go\<close>): synchronisation between the
    devices of a user. The merge takes the newest mutation of every key; devices that know the same
    mutations converge. Locale \<open>tx_store\<close> states the laws of the store's transactions.
  \<^item> \<open>Transaction_Log\<close> (\<open>collective/transactionLog.go\<close>, \<open>mutateBuffer.go\<close>, \<open>map.go\<close>): the mutations a device makes.
    Runs of the log are an inductive predicate; what waits in it survives a stop, except after an
    earlier restart that left a transaction waiting and except for the oldest of 1024 waiting transactions,
    whose slot the next write takes.
  \<^item> \<open>Single_Use\<close> (\<open>single\<close>, \<open>single/message\<close>): anonymous requests and their responses. Wire formats parse back
    to what was written; requests and responses reach the other side whole, in whatever order their parts
    arrive. The search for an identity is a loop that may not end.
  \<^item> \<open>Message_Handling\<close> (\<open>cmix/message\<close>): the tables of fingerprints, services and fallthroughs and the handler
    that finds the processor of a received message. Locale \<open>once_table\<close> states the law of a table whose
    entries are taken once and is interpreted on the fingerprints; reachable states of the handler, restarts
    with waiting messages included, are an inductive predicate over the message buffer.
  \<^item> \<open>Transfer_Store\<close> (\<open>fileTransfer/store\<close>): sent and received file transfers over the state vector: cyphers,
    parts, their storage and restarts.
  \<^item> \<open>Transfer_Manager\<close> (\<open>fileTransfer\<close>): composes the transfers with the fingerprints of the message
    handling: sending, packets, round results, receiving, progress callbacks and sent rounds.
  \<^item> \<open>Transfer_Delivery\<close>: the composition of both sides of a file transfer; a sent file arrives whole although
    messages are lost, repeated and reordered.
  \<^item> \<open>Channel_Storage\<close>: how the channels keep a map of entries for every channel in storage, a list of
    identifiers and an object per channel. The locale \<open>channel_layout\<close> has the laws of writing and loading.
  \<^item> \<open>Muted_Users\<close> (\<open>channels/mutedUsers.go\<close>): the muted users of the channels, over that storage.
  \<^item> \<open>Channel_Commands\<close> (\<open>channels/commandStore.go\<close>, \<open>messageTypes.go\<close>, \<open>replayBlocker.go\<close>): the stored commands of admins
    and the blocker that refuses replays of older commands.
  \<^item> \<open>Channel_Leases\<close> (\<open>channels/lease.go\<close>): the leases of those commands. Messages are references into a heap, the list
    of leases is a list of references ordered by trigger. Bounds of the triggers; what every operation of the thread
    does to the map from channels and fingerprints to leases, in memory and in storage.
  \<^item> \<open>Lease_Thread\<close>: the rounds of the thread, loading, and the runs of the lease list as an inductive predicate: the
    list stays ordered and complete and survives restarts with its times, up to the triggers that passed meanwhile; a round
    handles exactly the leases that are reached.

  \<^bold>\<open>Not modelled.\<close> The gateway and node connections, the follower threads, the cryptography, the event
  models and databases of channels and direct messages, the language bindings and the command line:
  these are network, library or glue code.
\<close>

end
